(* ===== verification/Kj_Prelude.thy ===== *)
theory Kj_Prelude
  imports Main "HOL-Library.Word" "HOL-Library.Signed_Division" "HOL-Library.Monad_Syntax"
begin

text \<open>
  Shared vocabulary of the development: the machine integer types of the C sources, memory
  accesses that may leave an array, C's signed arithmetic, and the big-endian 16-bit encoding
  every Modbus frame uses.

  A computation of type \<open>'a option\<close> is C code whose behaviour may be undefined: \<open>None\<close> stands
  for an access outside an array, a NULL dereference, a failed \<open>assert\<close>, a signed overflow or a
  division by zero, \<open>Some x\<close> for a defined execution with result \<open>x\<close>. The \<open>do\<close> notation of
  \<open>Monad_Syntax\<close> sequences such computations.
\<close>

unbundle bit_operations_syntax

section \<open>Machine integers\<close>

type_synonym u8 = "8 word"
type_synonym u16 = "16 word"
type_synonym u32 = "32 word"

named_theorems mem_simps \<open>rewriting of memory accesses that are in bounds\<close>
named_theorems byte_simps \<open>rewriting of byte and 16-bit field encodings\<close>

section \<open>Arrays\<close>

text \<open>
  An array is a list of fixed length. Reading or writing an element, copying a block into an
  array (the destination of \<open>memcpy\<close>) and reading a block (its source) fail outside the array.
\<close>

definition mem_load :: "'a list \<Rightarrow> nat \<Rightarrow> 'a option" where
  "mem_load xs i = (if i < length xs then Some (xs ! i) else None)"

definition mem_store :: "'a list \<Rightarrow> nat \<Rightarrow> 'a \<Rightarrow> 'a list option" where
  "mem_store xs i v = (if i < length xs then Some (xs[i := v]) else None)"

definition mem_slice :: "'a list \<Rightarrow> nat \<Rightarrow> nat \<Rightarrow> 'a list option" where
  "mem_slice xs off n = (if off + n \<le> length xs then Some (take n (drop off xs)) else None)"

definition mem_blit :: "'a list \<Rightarrow> nat \<Rightarrow> 'a list \<Rightarrow> 'a list option" where
  "mem_blit xs off ys =
     (if off + length ys \<le> length xs
      then Some (take off xs @ ys @ drop (off + length ys) xs) else None)"

lemma mem_load_in [simp, mem_simps]: "i < length xs \<Longrightarrow> mem_load xs i = Some (xs ! i)"
  by (simp add: mem_load_def)

lemma mem_store_in [simp, mem_simps]: "i < length xs \<Longrightarrow> mem_store xs i v = Some (xs[i := v])"
  by (simp add: mem_store_def)

lemma mem_slice_in [mem_simps]:
  "off + n \<le> length xs \<Longrightarrow> mem_slice xs off n = Some (take n (drop off xs))"
  by (simp add: mem_slice_def)

lemma mem_blit_in [mem_simps]:
  "off + length ys \<le> length xs \<Longrightarrow>
     mem_blit xs off ys = Some (take off xs @ ys @ drop (off + length ys) xs)"
  by (simp add: mem_blit_def)

lemma mem_load_Some_iff: "mem_load xs i = Some v \<longleftrightarrow> i < length xs \<and> v = xs ! i"
  by (auto simp: mem_load_def)

lemma mem_store_Some_iff: "mem_store xs i v = Some ys \<longleftrightarrow> i < length xs \<and> ys = xs[i := v]"
  by (auto simp: mem_store_def)

lemma mem_store_length: "mem_store xs i v = Some ys \<Longrightarrow> length ys = length xs"
  by (simp add: mem_store_Some_iff)

lemma mem_blit_length: "mem_blit xs off ys = Some zs \<Longrightarrow> length zs = length xs"
  by (auto simp: mem_blit_def split: if_splits)

lemma mem_slice_length: "mem_slice xs off n = Some ys \<Longrightarrow> length ys = n"
  by (auto simp: mem_slice_def split: if_splits)

lemma bind_option_Some_iff [simp]:
  "Option.bind m f = Some y \<longleftrightarrow> (\<exists>x. m = Some x \<and> f x = Some y)"
  by (cases m) auto

lemma nth_blit:
  assumes "off + length ys \<le> length xs"
  shows "(take off xs @ ys @ drop (off + length ys) xs) ! i =
    (if i < off then xs ! i else if i < off + length ys then ys ! (i - off) else xs ! i)"
  using assms by (auto simp: nth_append)

section \<open>C's signed int\<close>

text \<open>\<open>int\<close> is 32 bits wide; a result outside its range is undefined behaviour.\<close>

definition int32_ok :: "int \<Rightarrow> bool" where
  "int32_ok a \<longleftrightarrow> - (2 ^ 31) \<le> a \<and> a < 2 ^ 31"

definition c_int :: "int \<Rightarrow> int option" where
  "c_int a = (if int32_ok a then Some a else None)"

definition c_mod :: "int \<Rightarrow> int \<Rightarrow> int option" where
  "c_mod a b = (if b = 0 then None else Some (a smod b))"

lemma c_int_in [simp]: "int32_ok a \<Longrightarrow> c_int a = Some a"
  by (simp add: c_int_def)

lemma c_mod_nonneg: "0 \<le> a \<Longrightarrow> 0 < b \<Longrightarrow> c_mod a b = Some (a mod b)"
  by (cases "a = 0") (simp_all add: c_mod_def signed_modulo_int_def)

text \<open>
  A signed count or index used as a \<open>size_t\<close>: a negative one becomes a huge unsigned number, and the
  copy or access it is used for runs outside every object.
\<close>

definition c_nat :: "int \<Rightarrow> nat option" where
  "c_nat i = (if 0 \<le> i then Some (nat i) else None)"

lemma c_nat_of_nat [simp]: "c_nat (int n) = Some n"
  by (simp add: c_nat_def)

lemma c_nat_Some_iff: "c_nat i = Some n \<longleftrightarrow> i = int n"
  by (auto simp: c_nat_def)

text \<open>\<open>memcpy(&dst[d], &src[s], n)\<close> between two different objects.\<close>

definition c_memcpy :: "'a list \<Rightarrow> int \<Rightarrow> 'a list \<Rightarrow> int \<Rightarrow> int \<Rightarrow> 'a list option" where
  "c_memcpy dst d src s n = do {
     d' \<leftarrow> c_nat d; s' \<leftarrow> c_nat s; n' \<leftarrow> c_nat n;
     ys \<leftarrow> mem_slice src s' n';
     mem_blit dst d' ys }"

lemma c_memcpy_in [mem_simps]:
  "d + n \<le> length dst \<Longrightarrow> s + n \<le> length src \<Longrightarrow>
     c_memcpy dst (int d) src (int s) (int n) =
       Some (take d dst @ take n (drop s src) @ drop (d + n) dst)"
  by (simp add: c_memcpy_def mem_slice_in mem_blit_in)

lemma c_memcpy_length: "c_memcpy dst d src s n = Some dst' \<Longrightarrow> length dst' = length dst"
  by (auto simp: c_memcpy_def dest: mem_blit_length)

section \<open>Big-endian 16-bit fields\<close>

definition be16 :: "u8 \<Rightarrow> u8 \<Rightarrow> u16" where
  "be16 hi lo = push_bit 8 (ucast hi) OR ucast lo"

definition hi_byte :: "u16 \<Rightarrow> u8" where
  "hi_byte w = ucast (drop_bit 8 w)"

definition lo_byte :: "u16 \<Rightarrow> u8" where
  "lo_byte w = ucast (w AND 0xff)"

lemma mask8_u16: "(0xff :: u16) = mask 8"
  by (simp add: mask_eq_exp_minus_1)

lemma be16_bytes [simp, byte_simps]: "be16 (hi_byte w) (lo_byte w) = w"
  by (rule bit_word_eqI)
    (auto simp: be16_def hi_byte_def lo_byte_def mask8_u16 bit_simps)

lemma hi_byte_be16 [simp, byte_simps]: "hi_byte (be16 h l) = h"
  by (rule bit_word_eqI) (auto simp: be16_def hi_byte_def bit_simps dest: bit_imp_le_length)

lemma lo_byte_be16 [simp, byte_simps]: "lo_byte (be16 h l) = l"
  by (rule bit_word_eqI) (auto simp: be16_def lo_byte_def mask8_u16 bit_simps)

lemma be16_eq_iff [simp]: "be16 a b = be16 c d \<longleftrightarrow> a = c \<and> b = d"
  by (metis hi_byte_be16 lo_byte_be16)

lemma be16_eq_word_iff: "be16 a b = w \<longleftrightarrow> a = hi_byte w \<and> b = lo_byte w"
  by (metis be16_bytes hi_byte_be16 lo_byte_be16)

lemma unat_u8_less [simp]: "unat (b :: u8) < 256"
  using unsigned_less [of b, where ?'a = nat] by simp

lemma unat_u16_less [simp]: "unat (w :: u16) < 65536"
  using unsigned_less [of w, where ?'a = nat] by simp

lemma unat_u32_less [simp]: "unat (w :: u32) < 4294967296"
  using unsigned_less [of w, where ?'a = nat] by simp

lemma unat_ucast_8_16 [simp, byte_simps]: "unat (ucast (b :: u8) :: u16) = unat b"
proof -
  have "unat b < 65536" by (rule less_trans [OF unat_u8_less]) simp
  then show ?thesis by (simp add: unsigned_ucast_eq take_bit_eq_mod)
qed

lemma be16_add: "be16 h l = push_bit 8 (ucast h) + ucast l"
  unfolding be16_def
  by (rule disjunctive_add [symmetric]) (auto simp: bit_simps dest: bit_imp_le_length)

lemma unat_be16: "unat (be16 h l) = 256 * unat h + unat l"
proof -
  have "256 * unat h + unat l < 65536"
    using unat_u8_less [of h] unat_u8_less [of l] by linarith
  then show ?thesis
    by (simp add: be16_add unat_word_ariths push_bit_eq_mult mult.commute)
qed

lemma uint_u16_bounds: "0 \<le> uint (w :: u16)" "uint (w :: u16) < 65536"
  using unsigned_less [of w, where ?'a = int] by simp_all

lemma int32_okI: "- 2147483648 \<le> a \<Longrightarrow> a < 2147483648 \<Longrightarrow> int32_ok a"
  by (simp add: int32_ok_def)

lemma uint_is_unat: "uint w = int (unat w)"
  by simp

lemma uint_less_nat: "uint w < numeral n \<longleftrightarrow> unat w < numeral n"
  using of_nat_less_iff [of "unat w" "numeral n", where ?'a = int] by simp

lemma uint_add_nat:
  "numeral n \<le> uint w + int k \<longleftrightarrow> numeral n \<le> unat w + k"
  "uint w + int k < numeral n \<longleftrightarrow> unat w + k < numeral n"
  using of_nat_le_iff [of "numeral n" "unat w + k", where ?'a = int]
    of_nat_less_iff [of "unat w + k" "numeral n", where ?'a = int] by simp_all

section \<open>Loops over a list\<close>

text \<open>
  \<open>foldo f s xs\<close> runs the body \<open>f\<close> of a \<open>for\<close> loop over the elements of \<open>xs\<close>, and is undefined
  as soon as one iteration is.
\<close>

fun foldo :: "('s \<Rightarrow> 'a \<Rightarrow> 's option) \<Rightarrow> 's \<Rightarrow> 'a list \<Rightarrow> 's option" where
  "foldo f s [] = Some s"
| "foldo f s (x # xs) = do { s' \<leftarrow> f s x; foldo f s' xs }"

lemma foldo_append: "foldo f s (xs @ ys) = do { s' \<leftarrow> foldo f s xs; foldo f s' ys }"
  by (induction xs arbitrary: s) (auto split: bind_splits)

lemma foldo_invariant:
  assumes step: "\<And>s x. x \<in> set xs \<Longrightarrow> I s \<Longrightarrow> \<exists>s'. f s x = Some s' \<and> I s'"
    and init: "I s"
  shows "\<exists>s'. foldo f s xs = Some s' \<and> I s'"
  using assms
proof (induction xs arbitrary: s)
  case (Cons x xs)
  then obtain s1 where "f s x = Some s1" "I s1" by fastforce
  with Cons show ?case by fastforce
qed simp

lemma foldo_concat: "foldo (foldo f) s xss = foldo f s (concat xss)"
  by (induction xss arbitrary: s) (auto simp: foldo_append split: bind_splits)

lemma foldo_keeps:
  assumes "\<And>s x s'. x \<in> set xs \<Longrightarrow> I s \<Longrightarrow> f s x = Some s' \<Longrightarrow> I s'" "I s" "foldo f s xs = Some s'"
  shows "I s'"
  using assms
proof (induction xs arbitrary: s)
  case (Cons x xs)
  from Cons.prems(3) obtain s1 where s1: "f s x = Some s1" "foldo f s1 xs = Some s'" by auto
  have "I s1" by (rule Cons.prems(1) [OF _ Cons.prems(2) s1(1)]) simp
  show ?case by (rule Cons.IH [OF _ \<open>I s1\<close> s1(2)]) (auto intro: Cons.prems(1))
qed simp

text \<open>A functional refinement of one iteration is one of the loop.\<close>

lemma foldo_map:
  assumes step: "\<And>s x. x \<in> set xs \<Longrightarrow> I s \<Longrightarrow> map_option h (f s x) = g (h s) x"
    and keep: "\<And>s x s'. x \<in> set xs \<Longrightarrow> I s \<Longrightarrow> f s x = Some s' \<Longrightarrow> I s'"
    and init: "I s"
  shows "map_option h (foldo f s xs) = foldo g (h s) xs"
  using assms
proof (induction xs arbitrary: s)
  case (Cons x xs)
  have h: "g (h s) x = map_option h (f s x)" using Cons.prems(1) [of x s] Cons.prems(3) by simp
  show ?case
  proof (cases "f s x")
    case None
    with h show ?thesis by simp
  next
    case (Some s1)
    have "I s1" by (rule Cons.prems(2) [OF _ Cons.prems(3) Some]) simp
    have "map_option h (foldo f s1 xs) = foldo g (h s1) xs"
      by (rule Cons.IH [OF _ _ \<open>I s1\<close>]) (auto intro: Cons.prems(1,2))
    with h Some show ?thesis by simp
  qed
qed simp

end
