(* ===== verification/Klist.thy ===== *)
theory Klist
  imports Kj_Prelude
begin

text \<open>
  The intrusive doubly linked list of \<open>inc/list.h\<close>, at the level of its pointers. A node is its
  address; the object that embeds it (\<open>container_of\<close>) is identified with that address. The heap
  holds the \<open>next\<close> and \<open>prev\<close> fields of every node. Each inline function is a definition of the
  same name; following or writing through NULL is undefined. The predicate \<open>dlist h head xs\<close> says
  that the head \<open>head\<close> carries exactly the nodes \<open>xs\<close>, in order; every operation is shown to act on
  \<open>xs\<close> as its comment promises. The locale \<open>intrusive_fifo\<close> is the part of that contract the
  queues of the framework rely on.
\<close>

section \<open>The heap of list nodes\<close>

type_synonym ptr = nat

abbreviation NULL :: ptr where "NULL \<equiv> 0"

record lheap =
  lh_next :: "ptr \<Rightarrow> ptr"
  lh_prev :: "ptr \<Rightarrow> ptr"

definition rd_next :: "lheap \<Rightarrow> ptr \<Rightarrow> ptr option" where
  "rd_next h p = (if p = NULL then None else Some (lh_next h p))"

definition rd_prev :: "lheap \<Rightarrow> ptr \<Rightarrow> ptr option" where
  "rd_prev h p = (if p = NULL then None else Some (lh_prev h p))"

definition wr_next :: "lheap \<Rightarrow> ptr \<Rightarrow> ptr \<Rightarrow> lheap option" where
  "wr_next h p v = (if p = NULL then None else Some (h\<lparr>lh_next := (lh_next h)(p := v)\<rparr>))"

definition wr_prev :: "lheap \<Rightarrow> ptr \<Rightarrow> ptr \<Rightarrow> lheap option" where
  "wr_prev h p v = (if p = NULL then None else Some (h\<lparr>lh_prev := (lh_prev h)(p := v)\<rparr>))"

lemmas heap_access_defs = rd_next_def rd_prev_def wr_next_def wr_prev_def

section \<open>The operations of list.h\<close>

definition init_list_head :: "lheap \<Rightarrow> ptr \<Rightarrow> lheap option" where
  "init_list_head h l = do { h \<leftarrow> wr_next h l l; wr_prev h l l }"

definition list_add_between :: "lheap \<Rightarrow> ptr \<Rightarrow> ptr \<Rightarrow> ptr \<Rightarrow> lheap option" where
  "list_add_between h new prv nxt = do {
     h \<leftarrow> wr_prev h nxt new;
     h \<leftarrow> wr_next h new nxt;
     h \<leftarrow> wr_prev h new prv;
     wr_next h prv new }"

definition list_add :: "lheap \<Rightarrow> ptr \<Rightarrow> ptr \<Rightarrow> lheap option" where
  "list_add h new head = do { n \<leftarrow> rd_next h head; list_add_between h new head n }"

definition list_add_tail :: "lheap \<Rightarrow> ptr \<Rightarrow> ptr \<Rightarrow> lheap option" where
  "list_add_tail h new head = do { p \<leftarrow> rd_prev h head; list_add_between h new p head }"

definition list_del_between :: "lheap \<Rightarrow> ptr \<Rightarrow> ptr \<Rightarrow> lheap option" where
  "list_del_between h prv nxt = do { h \<leftarrow> wr_prev h nxt prv; wr_next h prv nxt }"

definition list_del_entry :: "lheap \<Rightarrow> ptr \<Rightarrow> lheap option" where
  "list_del_entry h e = do { p \<leftarrow> rd_prev h e; n \<leftarrow> rd_next h e; list_del_between h p n }"

definition list_del :: "lheap \<Rightarrow> ptr \<Rightarrow> lheap option" where
  "list_del h e = do {
     h \<leftarrow> list_del_entry h e;
     h \<leftarrow> wr_next h e NULL;
     wr_prev h e NULL }"

definition list_replace :: "lheap \<Rightarrow> ptr \<Rightarrow> ptr \<Rightarrow> lheap option" where
  "list_replace h old new = do {
     n \<leftarrow> rd_next h old;
     h \<leftarrow> wr_next h new n;
     n \<leftarrow> rd_next h new;
     h \<leftarrow> wr_prev h n new;
     p \<leftarrow> rd_prev h old;
     h \<leftarrow> wr_prev h new p;
     p \<leftarrow> rd_prev h new;
     wr_next h p new }"

definition list_replace_init :: "lheap \<Rightarrow> ptr \<Rightarrow> ptr \<Rightarrow> lheap option" where
  "list_replace_init h old new = do { h \<leftarrow> list_replace h old new; init_list_head h old }"

definition list_del_init :: "lheap \<Rightarrow> ptr \<Rightarrow> lheap option" where
  "list_del_init h e = do { h \<leftarrow> list_del_entry h e; init_list_head h e }"

definition list_move :: "lheap \<Rightarrow> ptr \<Rightarrow> ptr \<Rightarrow> lheap option" where
  "list_move h e head = do { h \<leftarrow> list_del_entry h e; list_add h e head }"

definition list_move_tail :: "lheap \<Rightarrow> ptr \<Rightarrow> ptr \<Rightarrow> lheap option" where
  "list_move_tail h e head = do { h \<leftarrow> list_del_entry h e; list_add_tail h e head }"

definition list_is_last :: "lheap \<Rightarrow> ptr \<Rightarrow> ptr \<Rightarrow> bool option" where
  "list_is_last h e head = do { n \<leftarrow> rd_next h e; Some (n = head) }"

definition list_empty :: "lheap \<Rightarrow> ptr \<Rightarrow> bool option" where
  "list_empty h head = do { n \<leftarrow> rd_next h head; Some (n = head) }"

definition list_empty_careful :: "lheap \<Rightarrow> ptr \<Rightarrow> bool option" where
  "list_empty_careful h head = do { n \<leftarrow> rd_next h head; p \<leftarrow> rd_prev h head; Some (n = head \<and> n = p) }"

definition list_rotate_left :: "lheap \<Rightarrow> ptr \<Rightarrow> lheap option" where
  "list_rotate_left h head = do {
     e \<leftarrow> list_empty h head;
     if e then Some h
     else do { first \<leftarrow> rd_next h head; list_move_tail h first head } }"

definition list_is_singular :: "lheap \<Rightarrow> ptr \<Rightarrow> bool option" where
  "list_is_singular h head = do {
     e \<leftarrow> list_empty h head;
     n \<leftarrow> rd_next h head;
     p \<leftarrow> rd_prev h head;
     Some (\<not> e \<and> n = p) }"

definition list_cut_position_raw :: "lheap \<Rightarrow> ptr \<Rightarrow> ptr \<Rightarrow> ptr \<Rightarrow> lheap option" where
  "list_cut_position_raw h l head entry = do {
     new_first \<leftarrow> rd_next h entry;
     n \<leftarrow> rd_next h head;
     h \<leftarrow> wr_next h l n;
     n \<leftarrow> rd_next h l;
     h \<leftarrow> wr_prev h n l;
     h \<leftarrow> wr_prev h l entry;
     h \<leftarrow> wr_next h entry l;
     h \<leftarrow> wr_next h head new_first;
     wr_prev h new_first head }"

definition list_cut_position :: "lheap \<Rightarrow> ptr \<Rightarrow> ptr \<Rightarrow> ptr \<Rightarrow> lheap option" where
  "list_cut_position h l head entry = do {
     e \<leftarrow> list_empty h head;
     if e then Some h
     else do {
       sing \<leftarrow> list_is_singular h head;
       n \<leftarrow> rd_next h head;
       if sing \<and> n \<noteq> entry \<and> head \<noteq> entry then Some h
       else if entry = head then init_list_head h l
       else list_cut_position_raw h l head entry } }"

definition list_splice_raw :: "lheap \<Rightarrow> ptr \<Rightarrow> ptr \<Rightarrow> ptr \<Rightarrow> lheap option" where
  "list_splice_raw h l prv nxt = do {
     first \<leftarrow> rd_next h l;
     last_e \<leftarrow> rd_prev h l;
     h \<leftarrow> wr_prev h first prv;
     h \<leftarrow> wr_next h prv first;
     h \<leftarrow> wr_next h last_e nxt;
     wr_prev h nxt last_e }"

definition list_splice :: "lheap \<Rightarrow> ptr \<Rightarrow> ptr \<Rightarrow> lheap option" where
  "list_splice h l head = do {
     e \<leftarrow> list_empty h l;
     if e then Some h else do { n \<leftarrow> rd_next h head; list_splice_raw h l head n } }"

definition list_splice_tail :: "lheap \<Rightarrow> ptr \<Rightarrow> ptr \<Rightarrow> lheap option" where
  "list_splice_tail h l head = do {
     e \<leftarrow> list_empty h l;
     if e then Some h else do { p \<leftarrow> rd_prev h head; list_splice_raw h l p head } }"

definition list_splice_init :: "lheap \<Rightarrow> ptr \<Rightarrow> ptr \<Rightarrow> lheap option" where
  "list_splice_init h l head = do {
     e \<leftarrow> list_empty h l;
     if e then Some h
     else do { n \<leftarrow> rd_next h head; h \<leftarrow> list_splice_raw h l head n; init_list_head h l } }"

definition list_splice_tail_init :: "lheap \<Rightarrow> ptr \<Rightarrow> ptr \<Rightarrow> lheap option" where
  "list_splice_tail_init h l head = do {
     e \<leftarrow> list_empty h l;
     if e then Some h
     else do { p \<leftarrow> rd_prev h head; h \<leftarrow> list_splice_raw h l p head; init_list_head h l } }"

text \<open>\<open>list_first_entry\<close> reads the head's successor; on an empty list it is the head itself.\<close>

definition list_first_entry :: "lheap \<Rightarrow> ptr \<Rightarrow> ptr option" where
  "list_first_entry h head = rd_next h head"

text \<open>
  \<open>list_for_each\<close>: the cursors the loop visits, from \<open>pos\<close> until it is back at the head. The loop
  need not end on a heap that is not a list, so not returning is \<open>None\<close>.
\<close>

partial_function (option) list_walk :: "lheap \<Rightarrow> ptr \<Rightarrow> ptr \<Rightarrow> ptr list option" where
  "list_walk h head pos =
     (if pos = head then Some []
      else do { n \<leftarrow> rd_next h pos; ps \<leftarrow> list_walk h head n; Some (pos # ps) })"

definition list_for_each :: "lheap \<Rightarrow> ptr \<Rightarrow> ptr list option" where
  "list_for_each h head = do { pos \<leftarrow> rd_next h head; list_walk h head pos }"

section \<open>The list a head carries\<close>

text \<open>
  \<open>lseg h p xs q\<close>: following \<open>next\<close> from \<open>p\<close> visits \<open>xs\<close> and then \<open>q\<close>, and every \<open>prev\<close> on
  the way points back.
\<close>

fun lseg :: "lheap \<Rightarrow> ptr \<Rightarrow> ptr list \<Rightarrow> ptr \<Rightarrow> bool" where
  "lseg h p [] q \<longleftrightarrow> lh_next h p = q \<and> lh_prev h q = p"
| "lseg h p (x # xs) q \<longleftrightarrow> lh_next h p = x \<and> lh_prev h x = p \<and> lseg h x xs q"

definition dlist :: "lheap \<Rightarrow> ptr \<Rightarrow> ptr list \<Rightarrow> bool" where
  "dlist h head xs \<longleftrightarrow> lseg h head xs head \<and> distinct (head # xs) \<and> NULL \<notin> set (head # xs)"

definition only_changes :: "ptr set \<Rightarrow> lheap \<Rightarrow> lheap \<Rightarrow> bool" where
  "only_changes S h h' \<longleftrightarrow>
     (\<forall>a. a \<notin> S \<longrightarrow> lh_next h' a = lh_next h a \<and> lh_prev h' a = lh_prev h a)"

lemma lseg_append [simp]: "lseg h p (xs @ y # ys) q \<longleftrightarrow> lseg h p xs y \<and> lseg h y ys q"
  by (induction xs arbitrary: p) auto

lemma lseg_cong:
  assumes "\<And>a. a \<in> insert p (set xs) \<Longrightarrow> lh_next h' a = lh_next h a"
    and "\<And>a. a \<in> insert q (set xs) \<Longrightarrow> lh_prev h' a = lh_prev h a"
  shows "lseg h' p xs q = lseg h p xs q"
  using assms by (induction xs arbitrary: p) auto

lemma lseg_congI:
  assumes "lseg h p xs q"
    and "\<And>a. a \<in> insert p (set xs) \<Longrightarrow> lh_next h' a = lh_next h a"
    and "\<And>a. a \<in> insert q (set xs) \<Longrightarrow> lh_prev h' a = lh_prev h a"
  shows "lseg h' p xs q"
proof -
  have "lseg h' p xs q = lseg h p xs q"
    by (rule lseg_cong) (use assms(2,3) in simp_all)
  with assms(1) show ?thesis by simp
qed

lemma dlist_frame:
  assumes "dlist h head xs" "only_changes S h h'" "S \<inter> set (head # xs) = {}"
  shows "dlist h' head xs"
proof -
  have "lseg h' head xs head = lseg h head xs head"
    using assms(2,3) by (intro lseg_cong) (auto simp: only_changes_def)
  with assms(1) show ?thesis by (simp add: dlist_def)
qed

lemma only_changes_mono: "only_changes S h h' \<Longrightarrow> S \<subseteq> T \<Longrightarrow> only_changes T h h'"
  by (auto simp: only_changes_def)

lemma only_changes_trans:
  "only_changes S h h' \<Longrightarrow> only_changes T h' h'' \<Longrightarrow> only_changes (S \<union> T) h h''"
  by (auto simp: only_changes_def)

lemma only_changes_refl [simp]: "only_changes S h h"
  by (simp add: only_changes_def)

lemma dlist_distinct: "dlist h head xs \<Longrightarrow> distinct xs \<and> head \<notin> set xs \<and> NULL \<notin> set xs \<and> head \<noteq> NULL"
  by (auto simp: dlist_def)

lemma dlist_first: "dlist h head (x # xs) \<Longrightarrow> lh_next h head = x"
  by (simp add: dlist_def)

lemma dlist_unique:
  assumes "dlist h head xs" "dlist h head ys"
  shows "xs = ys"
proof -
  have "lseg h p xs head \<Longrightarrow> lseg h p ys head \<Longrightarrow> head \<notin> set xs \<Longrightarrow> head \<notin> set ys \<Longrightarrow> xs = ys" for p
  proof (induction xs arbitrary: p ys)
    case Nil
    then show ?case by (cases ys) auto
  next
    case (Cons x xs)
    then show ?case by (cases ys) auto
  qed
  with assms show ?thesis by (auto simp: dlist_def)
qed

section \<open>Every operation acts on the list as promised\<close>

lemma init_list_head_spec:
  assumes "head \<noteq> NULL"
  shows "\<exists>h'. init_list_head h head = Some h' \<and> dlist h' head [] \<and> only_changes {head} h h'"
  using assms by (simp add: init_list_head_def heap_access_defs dlist_def only_changes_def)

lemma list_empty_spec: "dlist h head xs \<Longrightarrow> list_empty h head = Some (xs = [])"
  by (cases xs) (auto simp: list_empty_def heap_access_defs dlist_def)

lemma list_first_entry_spec: "dlist h head (x # xs) \<Longrightarrow> list_first_entry h head = Some x"
  by (simp add: list_first_entry_def heap_access_defs dlist_def)

lemma list_add_tail_spec:
  assumes d: "dlist h head xs" and new: "new \<notin> set (head # xs)" "new \<noteq> NULL"
  shows "\<exists>h'. list_add_tail h new head = Some h' \<and> dlist h' head (xs @ [new])
    \<and> only_changes (insert new (set (head # xs))) h h'"
proof (cases xs rule: rev_cases)
  case Nil
  with assms show ?thesis
    by (auto simp: list_add_tail_def list_add_between_def heap_access_defs dlist_def only_changes_def
        elim!: lseg_congI)
next
  case (snoc ys l)
  with assms show ?thesis
    by (auto simp: list_add_tail_def list_add_between_def heap_access_defs dlist_def only_changes_def
        elim!: lseg_congI)
qed

lemma list_add_spec:
  assumes d: "dlist h head xs" and new: "new \<notin> set (head # xs)" "new \<noteq> NULL"
  shows "\<exists>h'. list_add h new head = Some h' \<and> dlist h' head (new # xs)
    \<and> only_changes (insert new (set (head # xs))) h h'"
proof (cases xs)
  case Nil
  with assms show ?thesis
    by (auto simp: list_add_def list_add_between_def heap_access_defs dlist_def only_changes_def
        elim!: lseg_congI)
next
  case (Cons x ys)
  with assms show ?thesis
    by (auto simp: list_add_def list_add_between_def heap_access_defs dlist_def only_changes_def
        elim!: lseg_congI)
qed

text \<open>Removing a node, wherever it is in the list.\<close>

lemma list_del_entry_spec:
  assumes d: "dlist h head (xs @ e # ys)"
  shows "\<exists>h'. list_del_entry h e = Some h' \<and> dlist h' head (xs @ ys)
    \<and> only_changes (set (head # xs @ ys)) h h'"
proof (cases xs rule: rev_cases)
  case Nil
  show ?thesis
  proof (cases ys)
    case Nil
    with d \<open>xs = []\<close> show ?thesis
      by (auto simp: list_del_entry_def list_del_between_def heap_access_defs dlist_def only_changes_def)
  next
    case (Cons y zs)
    with d \<open>xs = []\<close> show ?thesis
      by (auto simp: list_del_entry_def list_del_between_def heap_access_defs dlist_def only_changes_def
          elim!: lseg_congI)
  qed
next
  case (snoc ws l)
  show ?thesis
  proof (cases ys)
    case Nil
    with d snoc show ?thesis
      by (auto simp: list_del_entry_def list_del_between_def heap_access_defs dlist_def only_changes_def
          elim!: lseg_congI)
  next
    case (Cons y zs)
    with d snoc show ?thesis
      by (auto simp: list_del_entry_def list_del_between_def heap_access_defs dlist_def only_changes_def
          elim!: lseg_congI)
  qed
qed

lemma list_del_init_spec:
  assumes d: "dlist h head (xs @ e # ys)"
  shows "\<exists>h'. list_del_init h e = Some h' \<and> dlist h' head (xs @ ys) \<and> dlist h' e []
    \<and> only_changes (set (head # xs @ e # ys)) h h'"
proof -
  obtain h1 where h1: "list_del_entry h e = Some h1" "dlist h1 head (xs @ ys)"
      "only_changes (set (head # xs @ ys)) h h1"
    using list_del_entry_spec [OF d] by blast
  have e: "e \<noteq> NULL" "e \<notin> set (head # xs @ ys)"
    using d by (auto simp: dlist_def)
  obtain h2 where h2: "init_list_head h1 e = Some h2" "dlist h2 e []" "only_changes {e} h1 h2"
    using init_list_head_spec [OF e(1)] by blast
  have "dlist h2 head (xs @ ys)"
    by (rule dlist_frame [OF h1(2) h2(3)]) (use e in auto)
  moreover have "only_changes (set (head # xs @ e # ys)) h h2"
    by (rule only_changes_mono [OF only_changes_trans [OF h1(3) h2(3)]]) auto
  ultimately show ?thesis
    using h1(1) h2(1,2) by (simp add: list_del_init_def)
qed

lemma list_del_spec:
  assumes d: "dlist h head (xs @ e # ys)"
  shows "\<exists>h'. list_del h e = Some h' \<and> dlist h' head (xs @ ys)
    \<and> lh_next h' e = NULL \<and> lh_prev h' e = NULL \<and> only_changes (set (head # xs @ e # ys)) h h'"
proof -
  obtain h1 where h1: "list_del_entry h e = Some h1" "dlist h1 head (xs @ ys)"
      "only_changes (set (head # xs @ ys)) h h1"
    using list_del_entry_spec [OF d] by blast
  have e: "e \<noteq> NULL" "e \<notin> set (head # xs @ ys)"
    using d by (auto simp: dlist_def)
  let ?h2 = "h1\<lparr>lh_next := (lh_next h1)(e := NULL), lh_prev := (lh_prev h1)(e := NULL)\<rparr>"
  have ch: "only_changes {e} h1 ?h2" by (simp add: only_changes_def)
  have "dlist ?h2 head (xs @ ys)"
    by (rule dlist_frame [OF h1(2) ch]) (use e in auto)
  moreover have "only_changes (set (head # xs @ e # ys)) h ?h2"
    by (rule only_changes_mono [OF only_changes_trans [OF h1(3) ch]]) auto
  ultimately show ?thesis
    using h1(1) e by (simp add: list_del_def heap_access_defs)
qed

text \<open>Walking the list visits exactly its nodes.\<close>

lemma list_walk_lseg:
  assumes "lseg h p xs head" "head \<notin> set xs" "NULL \<notin> set xs"
  shows "list_walk h head (lh_next h p) = Some xs"
  using assms
proof (induction xs arbitrary: p)
  case Nil
  then show ?case by (simp add: list_walk.simps)
next
  case (Cons x xs)
  then have "lh_next h p = x" "x \<noteq> head" "x \<noteq> NULL" by auto
  moreover have "list_walk h head (lh_next h x) = Some xs"
    using Cons.IH [of x] Cons.prems by simp
  ultimately show ?case
    by (subst list_walk.simps) (simp add: rd_next_def)
qed

lemma list_for_each_spec: "dlist h head xs \<Longrightarrow> list_for_each h head = Some xs"
  by (auto simp: list_for_each_def rd_next_def dlist_def intro: list_walk_lseg)

text \<open>Cutting after a node moves the prefix up to it to the other head.\<close>

lemma list_cut_position_empty:
  "dlist h head [] \<Longrightarrow> list_cut_position h l head entry = Some h"
  by (simp add: list_cut_position_def list_empty_spec)

lemma list_cut_position_raw_spec:
  assumes d: "dlist h head (xs @ entry # ys)" and l: "l \<notin> set (head # xs @ entry # ys)" "l \<noteq> NULL"
  shows "\<exists>h'. list_cut_position_raw h l head entry = Some h' \<and> dlist h' l (xs @ [entry])
    \<and> dlist h' head ys \<and> only_changes (insert l (set (head # xs @ entry # ys))) h h'"
proof (cases xs)
  case Nil
  show ?thesis
  proof (cases ys)
    case Nil
    with \<open>xs = []\<close> d l show ?thesis
      by (auto simp: list_cut_position_raw_def heap_access_defs dlist_def only_changes_def)
  next
    case (Cons y zs)
    with \<open>xs = []\<close> d l show ?thesis
      by (auto simp: list_cut_position_raw_def heap_access_defs dlist_def only_changes_def
          elim!: lseg_congI)
  qed
next
  case (Cons x ws)
  show ?thesis
  proof (cases ys)
    case Nil
    with \<open>xs = x # ws\<close> d l show ?thesis
      by (auto simp: list_cut_position_raw_def heap_access_defs dlist_def only_changes_def
          elim!: lseg_congI)
  next
    case (Cons y zs)
    with \<open>xs = x # ws\<close> d l show ?thesis
      by (auto simp: list_cut_position_raw_def heap_access_defs dlist_def only_changes_def
          elim!: lseg_congI)
  qed
qed

lemma list_is_singular_spec:
  assumes "dlist h head xs"
  shows "list_is_singular h head = Some (length xs = 1)"
proof (cases xs)
  case Nil
  with assms show ?thesis by (auto simp: list_is_singular_def list_empty_def heap_access_defs dlist_def)
next
  case (Cons x ys)
  then show ?thesis
    using assms
    by (cases ys rule: rev_cases)
      (auto simp: list_is_singular_def list_empty_def heap_access_defs dlist_def)
qed

lemma list_cut_position_spec:
  assumes d: "dlist h head (xs @ entry # ys)" and l: "l \<notin> set (head # xs @ entry # ys)" "l \<noteq> NULL"
  shows "\<exists>h'. list_cut_position h l head entry = Some h' \<and> dlist h' l (xs @ [entry])
    \<and> dlist h' head ys \<and> only_changes (insert l (set (head # xs @ entry # ys))) h h'"
proof -
  have "entry \<noteq> head" "head \<noteq> NULL" using d by (auto simp: dlist_def)
  moreover have "length (xs @ entry # ys) = 1 \<Longrightarrow> lh_next h head = entry"
    using d by (auto simp: dlist_def)
  ultimately have "list_cut_position h l head entry = list_cut_position_raw h l head entry"
    using list_empty_spec [OF d] list_is_singular_spec [OF d]
    by (auto simp: list_cut_position_def rd_next_def)
  then show ?thesis using list_cut_position_raw_spec [OF d l] by simp
qed

text \<open>Moving to the other end, and rotating.\<close>

lemma list_move_tail_spec:
  assumes d: "dlist h head (xs @ e # ys)"
  shows "\<exists>h'. list_move_tail h e head = Some h' \<and> dlist h' head (xs @ ys @ [e])
    \<and> only_changes (set (head # xs @ e # ys)) h h'"
proof -
  obtain h1 where h1: "list_del_entry h e = Some h1" "dlist h1 head (xs @ ys)"
      "only_changes (set (head # xs @ ys)) h h1"
    using list_del_entry_spec [OF d] by blast
  have e: "e \<noteq> NULL" "e \<notin> set (head # xs @ ys)"
    using d by (auto simp: dlist_def)
  obtain h2 where h2: "list_add_tail h1 e head = Some h2" "dlist h2 head ((xs @ ys) @ [e])"
      "only_changes (insert e (set (head # xs @ ys))) h1 h2"
    using list_add_tail_spec [OF h1(2) e(2,1)] by blast
  have "only_changes (set (head # xs @ e # ys)) h h2"
    by (rule only_changes_mono [OF only_changes_trans [OF h1(3) h2(3)]]) auto
  with h1(1) h2(1,2) show ?thesis by (simp add: list_move_tail_def)
qed

lemma list_rotate_left_spec:
  assumes d: "dlist h head xs"
  shows "\<exists>h'. list_rotate_left h head = Some h' \<and> dlist h' head (rotate1 xs)
    \<and> only_changes (set (head # xs)) h h'"
proof (cases xs)
  case Nil
  with d show ?thesis by (simp add: list_rotate_left_def list_empty_spec)
next
  case (Cons x ys)
  with d have d': "dlist h head ([] @ x # ys)" by simp
  have "rd_next h head = Some x"
    using d Cons by (auto simp: dlist_def rd_next_def)
  then show ?thesis
    using list_move_tail_spec [OF d'] list_empty_spec [OF d] Cons by (auto simp: list_rotate_left_def)
qed

text \<open>Splicing a whole list into another one, at the tail or at the front.\<close>

lemma list_splice_tail_spec:
  assumes d: "dlist h head ys" and l: "dlist h l xs"
    and dis: "set (head # ys) \<inter> set (l # xs) = {}"
  shows "\<exists>h'. list_splice_tail h l head = Some h' \<and> dlist h' head (ys @ xs)
    \<and> only_changes (set (head # ys) \<union> set xs) h h'"
proof (cases xs)
  case Nil
  with d l show ?thesis by (simp add: list_splice_tail_def list_empty_spec)
next
  case (Cons x ws)
  show ?thesis
  proof (cases ws rule: rev_cases)
    case Nil
    with \<open>xs = x # ws\<close> d l dis show ?thesis
      by (cases ys rule: rev_cases)
       (auto simp: list_splice_tail_def list_splice_raw_def list_empty_def heap_access_defs dlist_def
          only_changes_def elim!: lseg_congI)
  next
    case (snoc zs e)
    with \<open>xs = x # ws\<close> d l dis show ?thesis
      by (cases ys rule: rev_cases)
       (auto simp: list_splice_tail_def list_splice_raw_def list_empty_def heap_access_defs dlist_def
          only_changes_def elim!: lseg_congI)
  qed
qed

lemma list_splice_spec:
  assumes d: "dlist h head ys" and l: "dlist h l xs"
    and dis: "set (head # ys) \<inter> set (l # xs) = {}"
  shows "\<exists>h'. list_splice h l head = Some h' \<and> dlist h' head (xs @ ys)
    \<and> only_changes (set (head # ys) \<union> set xs) h h'"
proof (cases xs)
  case Nil
  with d l show ?thesis by (simp add: list_splice_def list_empty_spec)
next
  case (Cons x ws)
  show ?thesis
  proof (cases ws rule: rev_cases)
    case Nil
    with \<open>xs = x # ws\<close> d l dis show ?thesis
      by (cases ys)
       (auto simp: list_splice_def list_splice_raw_def list_empty_def heap_access_defs dlist_def
          only_changes_def elim!: lseg_congI)
  next
    case (snoc zs e)
    with \<open>xs = x # ws\<close> d l dis show ?thesis
      by (cases ys)
       (auto simp: list_splice_def list_splice_raw_def list_empty_def heap_access_defs dlist_def
          only_changes_def elim!: lseg_congI)
  qed
qed

lemma list_splice_tail_init_spec:
  assumes d: "dlist h head ys" and l: "dlist h l xs"
    and dis: "set (head # ys) \<inter> set (l # xs) = {}"
  shows "\<exists>h'. list_splice_tail_init h l head = Some h' \<and> dlist h' head (ys @ xs) \<and> dlist h' l []"
proof (cases xs)
  case Nil
  with d l show ?thesis by (simp add: list_splice_tail_init_def list_empty_spec)
next
  case (Cons x ws)
  obtain h1 where h1: "list_splice_tail h l head = Some h1" "dlist h1 head (ys @ xs)"
    using list_splice_tail_spec [OF d l dis] by blast
  have ln: "l \<noteq> NULL" "l \<notin> set (head # ys @ xs)"
    using dlist_distinct [OF l] dis by auto
  obtain h2 where h2: "init_list_head h1 l = Some h2" "dlist h2 l []" "only_changes {l} h1 h2"
    using init_list_head_spec [OF ln(1)] by blast
  have "list_splice_tail_init h l head = Some h2"
    using h1(1) h2(1) Cons list_empty_spec [OF l]
    by (auto simp: list_splice_tail_init_def list_splice_tail_def)
  moreover have "dlist h2 head (ys @ xs)"
    by (rule dlist_frame [OF h1(2) h2(3)]) (use ln in auto)
  ultimately show ?thesis using h2(2) by blast
qed

lemma list_replace_spec:
  assumes d: "dlist h head (xs @ old # ys)" and new: "new \<notin> set (head # xs @ old # ys)" "new \<noteq> NULL"
  shows "\<exists>h'. list_replace h old new = Some h' \<and> dlist h' head (xs @ new # ys)"
proof (cases xs rule: rev_cases)
  case Nil
  with assms show ?thesis
    by (cases ys)
      (auto simp: list_replace_def heap_access_defs dlist_def elim!: lseg_congI)
next
  case (snoc ws l)
  with assms show ?thesis
    by (cases ys)
      (auto simp: list_replace_def heap_access_defs dlist_def elim!: lseg_congI)
qed

section \<open>The queue contract\<close>

text \<open>
  What the task queue, the item pool, the request queue and the hash buckets ask of the list: nodes
  are appended at the tail, the first node is read and removed, and operations on one queue leave
  every other queue alone.
\<close>

locale intrusive_fifo =
  fixes is_empty :: "'h \<Rightarrow> 'p \<Rightarrow> bool option"
    and first_entry :: "'h \<Rightarrow> 'p \<Rightarrow> 'p option"
    and add_tail :: "'h \<Rightarrow> 'p \<Rightarrow> 'p \<Rightarrow> 'h option"
    and del_init :: "'h \<Rightarrow> 'p \<Rightarrow> 'h option"
    and carries :: "'h \<Rightarrow> 'p \<Rightarrow> 'p list \<Rightarrow> bool"
    and touches :: "'p set \<Rightarrow> 'h \<Rightarrow> 'h \<Rightarrow> bool"
    and null :: 'p
  assumes empty_iff: "carries h q xs \<Longrightarrow> is_empty h q = Some (xs = [])"
    and first_is_head: "carries h q (x # xs) \<Longrightarrow> first_entry h q = Some x"
    and add_tail_appends: "carries h q xs \<Longrightarrow> n \<notin> set (q # xs) \<Longrightarrow> n \<noteq> null \<Longrightarrow>
      \<exists>h'. add_tail h n q = Some h' \<and> carries h' q (xs @ [n]) \<and> touches (insert n (set (q # xs))) h h'"
    and del_removes: "carries h q (ys @ x # xs) \<Longrightarrow>
      \<exists>h'. del_init h x = Some h' \<and> carries h' q (ys @ xs) \<and> touches (set (q # ys @ x # xs)) h h'"
    and carries_frame: "carries h q xs \<Longrightarrow> touches S h h' \<Longrightarrow> S \<inter> set (q # xs) = {} \<Longrightarrow> carries h' q xs"
    and touches_trans: "touches S h h' \<Longrightarrow> touches T h' h'' \<Longrightarrow> touches (S \<union> T) h h''"
    and touches_mono: "touches S h h' \<Longrightarrow> S \<subseteq> T \<Longrightarrow> touches T h h'"
    and touches_refl: "touches S h h"
    and carries_distinct: "carries h q xs \<Longrightarrow> distinct (q # xs) \<and> null \<notin> set (q # xs)"
begin

lemma del_first:
  assumes "carries h q (x # xs)"
  shows "\<exists>h'. del_init h x = Some h' \<and> carries h' q xs \<and> touches (set (q # x # xs)) h h'"
  using del_removes [of h q "[]"] assms by simp

lemma pop_first:
  assumes "carries h q (x # xs)"
  shows "\<exists>h'. do { e \<leftarrow> first_entry h q; h2 \<leftarrow> del_init h e; Some (e, h2) } = Some (x, h')
    \<and> carries h' q xs"
  using del_first [OF assms] first_is_head [OF assms] by auto

lemma add_tail_all:
  assumes "carries h q xs" "distinct ns" "set ns \<inter> set (q # xs) = {}" "null \<notin> set ns"
  shows "\<exists>h'. foldo (\<lambda>h n. add_tail h n q) h ns = Some h' \<and> carries h' q (xs @ ns)
    \<and> touches (set ns \<union> set (q # xs)) h h'"
  using assms
proof (induction ns arbitrary: h xs)
  case Nil
  then show ?case by (auto intro: touches_refl)
next
  case (Cons n ns)
  then obtain h1 where h1: "add_tail h n q = Some h1" "carries h1 q (xs @ [n])"
      "touches (insert n (set (q # xs))) h h1"
    using add_tail_appends [of h q xs n] by auto
  obtain h2 where h2: "foldo (\<lambda>h n. add_tail h n q) h1 ns = Some h2" "carries h2 q ((xs @ [n]) @ ns)"
      "touches (set ns \<union> set (q # xs @ [n])) h1 h2"
    using Cons.IH [OF h1(2)] Cons.prems by auto
  have "touches (set (n # ns) \<union> set (q # xs)) h h2"
    by (rule touches_mono [OF touches_trans [OF h1(3) h2(3)]]) auto
  with h1(1) h2(1,2) show ?case by simp
qed

lemma other_queue_kept:
  assumes "carries h q xs" "carries h r ys" "set (q # xs) \<inter> set (r # ys) = {}"
    "n \<notin> set (r # ys)" "touches (insert n (set (q # xs))) h h'"
  shows "carries h' r ys"
  using assms by (intro carries_frame [OF assms(2) assms(5)]) auto

end

interpretation dl: intrusive_fifo list_empty list_first_entry list_add_tail list_del_init dlist
  only_changes NULL
proof
  show "\<exists>h'. list_del_init h x = Some h' \<and> dlist h' q (ys @ xs) \<and>
      only_changes (set (q # ys @ x # xs)) h h'" if "dlist h q (ys @ x # xs)" for h q x xs ys
    using list_del_init_spec [OF that] by blast
  show "dlist h' q xs" if "dlist h q xs" "only_changes S h h'" "S \<inter> set (q # xs) = {}" for h h' q xs S
    by (rule dlist_frame [OF that])
qed (auto simp: list_empty_spec list_first_entry_spec dest: list_add_tail_spec dlist_distinct
  intro: only_changes_mono only_changes_trans)

end
