(* ===== verification/Klist_Sequences.thy ===== *)
theory Klist_Sequences
  imports Klist
begin

text \<open>
  Whole programs over one list of \<open>inc/list.h\<close>: a command names an operation and its node
  arguments, \<open>cmd_run\<close> performs it on the pointers, \<open>cmd_abs\<close> on the sequence of nodes. The heap
  refines the sequence through any number of commands; cutting a list and splicing the two parts
  gives the list back.
\<close>

datatype list_cmd = Add_Head ptr | Add_Tail ptr | Del ptr | Move_Tail ptr | Rotate | Replace ptr ptr

fun cmd_run :: "ptr \<Rightarrow> lheap \<Rightarrow> list_cmd \<Rightarrow> lheap option" where
  "cmd_run head h (Add_Head n) = list_add h n head"
| "cmd_run head h (Add_Tail n) = list_add_tail h n head"
| "cmd_run head h (Del n) = list_del_init h n"
| "cmd_run head h (Move_Tail n) = list_move_tail h n head"
| "cmd_run head h Rotate = list_rotate_left h head"
| "cmd_run head h (Replace old new) = list_replace h old new"

fun cmd_abs :: "ptr list \<Rightarrow> list_cmd \<Rightarrow> ptr list" where
  "cmd_abs xs (Add_Head n) = n # xs"
| "cmd_abs xs (Add_Tail n) = xs @ [n]"
| "cmd_abs xs (Del n) = remove1 n xs"
| "cmd_abs xs (Move_Tail n) = remove1 n xs @ [n]"
| "cmd_abs xs Rotate = rotate1 xs"
| "cmd_abs xs (Replace old new) = map (\<lambda>x. if x = old then new else x) xs"

text \<open>What the operations require: a node that is added is on no list, one that is removed is on it.\<close>

fun cmd_ok :: "ptr \<Rightarrow> ptr list \<Rightarrow> list_cmd \<Rightarrow> bool" where
  "cmd_ok head xs (Add_Head n) \<longleftrightarrow> n \<notin> set (head # xs) \<and> n \<noteq> NULL"
| "cmd_ok head xs (Add_Tail n) \<longleftrightarrow> n \<notin> set (head # xs) \<and> n \<noteq> NULL"
| "cmd_ok head xs (Del n) \<longleftrightarrow> n \<in> set xs"
| "cmd_ok head xs (Move_Tail n) \<longleftrightarrow> n \<in> set xs"
| "cmd_ok head xs Rotate \<longleftrightarrow> True"
| "cmd_ok head xs (Replace old new) \<longleftrightarrow> old \<in> set xs \<and> new \<notin> set (head # xs) \<and> new \<noteq> NULL"

fun cmds_ok :: "ptr \<Rightarrow> ptr list \<Rightarrow> list_cmd list \<Rightarrow> bool" where
  "cmds_ok head xs [] \<longleftrightarrow> True"
| "cmds_ok head xs (c # cs) \<longleftrightarrow> cmd_ok head xs c \<and> cmds_ok head (cmd_abs xs c) cs"

lemma remove1_mid: "distinct (xs @ n # ys) \<Longrightarrow> remove1 n (xs @ n # ys) = xs @ ys"
  by (simp add: remove1_append)

lemma map_replace_mid:
  "distinct (xs @ old # ys) \<Longrightarrow> map (\<lambda>x. if x = old then new else x) (xs @ old # ys) = xs @ new # ys"
  by (auto intro!: map_idI)

lemma cmd_step:
  assumes d: "dlist h head xs" and ok: "cmd_ok head xs c"
  shows "\<exists>h'. cmd_run head h c = Some h' \<and> dlist h' head (cmd_abs xs c)"
proof -
  have dis: "distinct xs" using dlist_distinct [OF d] by simp
  show ?thesis
  proof (cases c)
    case (Add_Head n)
    with list_add_spec [OF d] ok show ?thesis by auto
  next
    case (Add_Tail n)
    with list_add_tail_spec [OF d] ok show ?thesis by auto
  next
    case (Del n)
    with ok have "n \<in> set xs" by simp
    then obtain ys zs where xs: "xs = ys @ n # zs" by (auto dest: split_list)
    with list_del_init_spec [of h head ys n zs] d show ?thesis
      using remove1_mid [of ys n zs] dis Del by (auto simp del: remove1_append)
  next
    case (Move_Tail n)
    with ok have "n \<in> set xs" by simp
    then obtain ys zs where xs: "xs = ys @ n # zs" by (auto dest: split_list)
    with list_move_tail_spec [of h head ys n zs] d show ?thesis
      using remove1_mid [of ys n zs] dis Move_Tail by (auto simp del: remove1_append)
  next
    case Rotate
    with list_rotate_left_spec [OF d] show ?thesis by auto
  next
    case (Replace old new)
    with ok have "old \<in> set xs" by simp
    then obtain ys zs where xs: "xs = ys @ old # zs" by (auto dest: split_list)
    with list_replace_spec [of h head ys old zs new] d ok Replace show ?thesis
      using map_replace_mid [of ys old zs new] dis by auto
  qed
qed

lemma cmds_step:
  assumes "dlist h head xs" "cmds_ok head xs cs"
  shows "\<exists>h'. foldo (cmd_run head) h cs = Some h' \<and> dlist h' head (foldl cmd_abs xs cs)"
  using assms
proof (induction cs arbitrary: h xs)
  case (Cons c cs)
  then obtain h1 where "cmd_run head h c = Some h1" "dlist h1 head (cmd_abs xs c)"
    using cmd_step by fastforce
  with Cons show ?case by fastforce
qed simp

section \<open>Properties\<close>

text \<open>
  C40: Starting from any list, every sequence of add, add-to-tail, delete, move-to-tail, rotate and
  replace calls whose arguments are legal is defined, and the iteration macro then visits exactly
  the nodes, in the order, that the same operations on the sequence of nodes give.
\<close>

theorem list_commands_refine_sequence:
  assumes "dlist h head xs" "cmds_ok head xs cs"
  shows "\<exists>h'. foldo (cmd_run head) h cs = Some h'
    \<and> list_for_each h' head = Some (foldl cmd_abs xs cs)"
  using cmds_step [OF assms] list_for_each_spec by blast

lemma list_commands_refine_sequence_witness:
  "\<exists>h h'. init_list_head \<lparr>lh_next = (\<lambda>_. 0), lh_prev = (\<lambda>_. 0)\<rparr> 9 = Some h
    \<and> foldo (cmd_run 9) h [Add_Tail 1, Add_Tail 2, Add_Head 3, Rotate, Replace 2 5, Del 1] = Some h'
    \<and> list_for_each h' 9 = Some [5, 3]"
proof -
  obtain h where h: "init_list_head \<lparr>lh_next = (\<lambda>_. 0), lh_prev = (\<lambda>_. 0)\<rparr> 9 = Some h" "dlist h 9 []"
    using init_list_head_spec [of 9 "\<lparr>lh_next = (\<lambda>_. 0), lh_prev = (\<lambda>_. 0)\<rparr>"] by auto
  have "cmds_ok 9 [] [Add_Tail 1, Add_Tail 2, Add_Head 3, Rotate, Replace 2 5, Del 1]" by simp
  from list_commands_refine_sequence [OF h(2) this] h(1) show ?thesis by auto
qed

text \<open>
  \<open>list_cut_position\<close> moves the prefix up to the given node to the new head and leaves the rest,
  and \<open>list_splice\<close> of the two parts gives the original list back.
\<close>

theorem list_cut_then_splice:
  assumes "dlist h head (xs @ e # ys)" "l \<notin> set (head # xs @ e # ys)" "l \<noteq> NULL"
  shows "\<exists>h1 h2. list_cut_position h l head e = Some h1
    \<and> list_for_each h1 l = Some (xs @ [e]) \<and> list_for_each h1 head = Some ys
    \<and> list_splice h1 l head = Some h2 \<and> list_for_each h2 head = Some (xs @ e # ys)"
proof -
  obtain h1 where h1: "list_cut_position h l head e = Some h1" "dlist h1 l (xs @ [e])" "dlist h1 head ys"
    using list_cut_position_spec [OF assms] by blast
  have "set (head # ys) \<inter> set (l # xs @ [e]) = {}"
    using dlist_distinct [OF assms(1)] assms(2) by auto
  from list_splice_spec [OF h1(3,2) this] obtain h2 where
    "list_splice h1 l head = Some h2" "dlist h2 head ((xs @ [e]) @ ys)" by blast
  with h1 show ?thesis by (auto simp: list_for_each_spec)
qed

lemma list_cut_then_splice_witness:
  "\<exists>h h1 h2. list_for_each h 9 = Some [1, 2, 3] \<and> list_cut_position h 8 9 2 = Some h1
    \<and> list_for_each h1 8 = Some [1, 2] \<and> list_for_each h1 9 = Some [3]
    \<and> list_splice h1 8 9 = Some h2 \<and> list_for_each h2 9 = Some [1, 2, 3]"
proof -
  let ?h = "\<lparr>lh_next = (\<lambda>p. if p = 9 then 1 else if p = 3 then 9 else p + 1),
    lh_prev = (\<lambda>p. if p = 1 then 9 else if p = 9 then 3 else p - 1)\<rparr>"
  have d: "dlist ?h 9 [1, 2, 3]" by (simp add: dlist_def)
  moreover have "list_for_each ?h 9 = Some [1, 2, 3]" by (rule list_for_each_spec [OF d])
  ultimately show ?thesis
    using list_cut_then_splice [of ?h 9 "[1]" 2 "[3]" 8] by auto
qed

end
