(* ===== verification/Klist_Array.thy ===== *)
theory Klist_Array
  imports Klist
begin

text \<open>
  Arrays of list heads: the priority classes of the request queue and the buckets of the hash.
  \<open>carries_all C h qs xss\<close> says that the \<open>i\<close>-th head of \<open>qs\<close> carries the \<open>i\<close>-th list of \<open>xss\<close> and
  that no node is in two of them. The lemmas are proved from the queue contract alone.
\<close>

definition carries_all ::
    "('h \<Rightarrow> 'p \<Rightarrow> 'p list \<Rightarrow> bool) \<Rightarrow> 'h \<Rightarrow> 'p list \<Rightarrow> 'p list list \<Rightarrow> bool" where
  "carries_all C h qs xss \<longleftrightarrow> length qs = length xss \<and>
     (\<forall>i < length qs. C h (qs ! i) (xss ! i)) \<and>
     (\<forall>i < length qs. \<forall>j < length qs. i \<noteq> j \<longrightarrow>
        set (qs ! i # xss ! i) \<inter> set (qs ! j # xss ! j) = {})"

definition all_nodes :: "'p list \<Rightarrow> 'p list list \<Rightarrow> 'p set" where
  "all_nodes qs xss = set qs \<union> set (concat xss)"

lemma carries_all_nth: "carries_all C h qs xss \<Longrightarrow> i < length qs \<Longrightarrow> C h (qs ! i) (xss ! i)"
  by (simp add: carries_all_def)

lemma carries_all_length: "carries_all C h qs xss \<Longrightarrow> length xss = length qs"
  by (simp add: carries_all_def)

lemma carries_all_disjoint:
  "carries_all C h qs xss \<Longrightarrow> i < length qs \<Longrightarrow> j < length qs \<Longrightarrow> i \<noteq> j \<Longrightarrow>
     set (qs ! i # xss ! i) \<inter> set (qs ! j # xss ! j) = {}"
  by (simp add: carries_all_def)

lemma nth_in_all_nodes:
  "i < length qs \<Longrightarrow> length xss = length qs \<Longrightarrow> set (qs ! i # xss ! i) \<subseteq> all_nodes qs xss"
  using nth_mem [of i qs] nth_mem [of i xss] by (auto simp: all_nodes_def)

lemma set_concat_update:
  "i < length xss \<Longrightarrow> set (concat (xss[i := xss ! i @ [n]])) = insert n (set (concat xss))"
proof (induction xss arbitrary: i)
  case (Cons xs xss)
  then show ?case by (cases i) auto
qed simp

lemma in_concat_nth: "a \<in> set (concat xss) \<longleftrightarrow> (\<exists>j < length xss. a \<in> set (xss ! j))"
  by (metis (no_types, lifting) UN_iff in_set_conv_nth set_concat)

lemma set_concat_remove:
  assumes all: "carries_all C h qs xss" and i: "i < length qs" and x: "xss ! i = ys @ x # zs"
    and d: "x \<notin> set (ys @ zs)"
  shows "set (concat (xss[i := ys @ zs])) = set (concat xss) - {x}"
proof -
  have len: "length xss = length qs" using carries_all_length [OF all] .
  have other: "x \<notin> set (xss ! j)" if "j < length qs" "j \<noteq> i" for j
    using carries_all_disjoint [OF all i that(1)] that(2) x by auto
  show ?thesis
  proof (rule set_eqI)
    fix a
    show "a \<in> set (concat (xss[i := ys @ zs])) \<longleftrightarrow> a \<in> set (concat xss) - {x}"
      unfolding in_concat_nth Diff_iff length_list_update
      using i len x d other by (auto simp: nth_list_update) (metis Un_iff insert_iff list.simps(15) set_append)+
  qed
qed

context intrusive_fifo
begin

lemma carries_all_update:
  assumes all: "carries_all carries h qs xss" and i: "i < length qs"
    and new: "carries h' (qs ! i) ys" "set ys \<subseteq> set (xss ! i) \<union> F" "F \<inter> all_nodes qs xss = {}"
    and touch: "touches (F \<union> set (qs ! i # xss ! i)) h h'"
  shows "carries_all carries h' qs (xss[i := ys])"
proof -
  have len: "length xss = length qs" using carries_all_length [OF all] .
  have other: "carries h' (qs ! j) (xss ! j)" if j: "j < length qs" "j \<noteq> i" for j
  proof (rule carries_frame [OF carries_all_nth [OF all j(1)] touch])
    show "(F \<union> set (qs ! i # xss ! i)) \<inter> set (qs ! j # xss ! j) = {}"
      using carries_all_disjoint [OF all i j(1)] j(2) nth_in_all_nodes [OF j(1) len] new(3) by auto
  qed
  have dis: "set (qs ! i # ys) \<inter> set (qs ! j # xss ! j) = {}" if j: "j < length qs" "j \<noteq> i" for j
    using carries_all_disjoint [OF all i j(1)] j(2) nth_in_all_nodes [OF j(1) len] new(2,3) by auto
  show ?thesis
    unfolding carries_all_def
  proof (intro conjI allI impI)
    show "length qs = length (xss[i := ys])" using len by simp
  next
    fix j assume j: "j < length qs"
    then show "carries h' (qs ! j) (xss[i := ys] ! j)"
      using other new(1) len by (cases "j = i") auto
  next
    fix j k assume jk: "j < length qs" "k < length qs" "j \<noteq> k"
    then show "set (qs ! j # xss[i := ys] ! j) \<inter> set (qs ! k # xss[i := ys] ! k) = {}"
      using dis [of j] dis [of k] carries_all_disjoint [OF all jk(1,2,3)] len
      by (cases "j = i"; cases "k = i") auto
  qed
qed

lemma add_tail_at:
  assumes all: "carries_all carries h qs xss" and i: "i < length qs"
    and n: "n \<notin> all_nodes qs xss" "n \<noteq> null"
  shows "\<exists>h'. add_tail h n (qs ! i) = Some h' \<and> carries_all carries h' qs (xss[i := xss ! i @ [n]])"
proof -
  have "n \<notin> set (qs ! i # xss ! i)"
    using nth_in_all_nodes [OF i carries_all_length [OF all]] n(1) by blast
  then obtain h' where "add_tail h n (qs ! i) = Some h'" "carries h' (qs ! i) (xss ! i @ [n])"
      "touches (insert n (set (qs ! i # xss ! i))) h h'"
    using add_tail_appends [OF carries_all_nth [OF all i] _ n(2)] by blast
  then show ?thesis
    using carries_all_update [OF all i, of h' "xss ! i @ [n]" "{n}"] n(1)
    by (auto simp: insert_commute)
qed

lemma del_at:
  assumes all: "carries_all carries h qs xss" and i: "i < length qs" and x: "xss ! i = ys @ x # zs"
  shows "\<exists>h'. del_init h x = Some h' \<and> carries_all carries h' qs (xss[i := ys @ zs])"
proof -
  have "carries h (qs ! i) (ys @ x # zs)" using carries_all_nth [OF all i] x by simp
  from del_removes [OF this] obtain h' where "del_init h x = Some h'" "carries h' (qs ! i) (ys @ zs)"
      "touches (set (qs ! i # ys @ x # zs)) h h'"
    by blast
  then show ?thesis
    using carries_all_update [OF all i, of h' "ys @ zs" "{}"] x by auto
qed

end

text \<open>Initialising every head of an array: the loops of \<open>bhash_init\<close> and \<open>request_queue_init\<close>.\<close>

lemma init_heads:
  assumes "distinct qs" "NULL \<notin> set qs"
  shows "\<exists>h'. foldo init_list_head h qs = Some h' \<and> carries_all dlist h' qs (replicate (length qs) [])
    \<and> only_changes (set qs) h h'"
proof -
  have "\<exists>h'. foldo init_list_head h qs = Some h' \<and> (\<forall>q \<in> set qs. dlist h' q []) \<and> only_changes (set qs) h h'"
    using assms
  proof (induction qs arbitrary: h)
    case (Cons q qs)
    then obtain h1 where h1: "init_list_head h q = Some h1" "dlist h1 q []" "only_changes {q} h h1"
      using init_list_head_spec [of q h] by auto
    obtain h2 where h2: "foldo init_list_head h1 qs = Some h2" "\<forall>q \<in> set qs. dlist h2 q []"
        "only_changes (set qs) h1 h2"
      using Cons by force
    have "dlist h2 q []"
      by (rule dlist_frame [OF h1(2) h2(3)]) (use Cons.prems in auto)
    moreover have "only_changes (set (q # qs)) h h2"
      by (rule only_changes_mono [OF only_changes_trans [OF h1(3) h2(3)]]) auto
    ultimately show ?case using h1(1) h2(1,2) by auto
  qed simp
  then obtain h' where h': "foldo init_list_head h qs = Some h'" "\<forall>q \<in> set qs. dlist h' q []"
      "only_changes (set qs) h h'"
    by blast
  have "carries_all dlist h' qs (replicate (length qs) [])"
    using h'(2) assms(1) by (auto simp: carries_all_def nth_eq_iff_index_eq)
  with h' show ?thesis by blast
qed

end
