(* ===== verification/Request_Queue.thy ===== *)
theory Request_Queue
  imports Klist_Array "HOL-Library.Multiset"
begin

text \<open>
  \<open>src/utils/request_queue.c\<close>: a queue of requests with six priority classes, one intrusive list
  per class. Accepting a request calls the user's \<open>request_accepted\<close>, which may use the queue
  again; the callback is a state transformer on the queue and the user's own state \<open>rq_env\<close>.
  The abstract view is the list of the six classes; scheduling takes the first request of the
  first class that has one.
\<close>

section \<open>State\<close>

definition request_priority_max :: nat where
  "request_priority_max = 6"

record 'u request_queue =
  rq_heap :: lheap
  rq_heads :: "ptr list"
  rq_num_reqs :: int
  rq_env :: 'u

type_synonym 'u request_cb = "'u request_queue \<Rightarrow> ptr \<Rightarrow> 'u request_queue option"

section \<open>Operations\<close>

definition request_queue_init :: "'u request_queue \<Rightarrow> 'u request_queue option" where
  "request_queue_init q = do {
     h \<leftarrow> foldo init_list_head (rq_heap q) (rq_heads q);
     Some (q\<lparr>rq_heap := h, rq_num_reqs := 0\<rparr>) }"

definition request_queue_submit :: "(ptr \<Rightarrow> nat) \<Rightarrow> 'u request_queue \<Rightarrow> ptr \<Rightarrow> 'u request_queue option" where
  "request_queue_submit priority q item = do {
     head \<leftarrow> mem_load (rq_heads q) (priority item);
     h \<leftarrow> list_add_tail (rq_heap q) item head;
     n \<leftarrow> c_int (rq_num_reqs q + 1);
     Some (q\<lparr>rq_heap := h, rq_num_reqs := n\<rparr>) }"

definition request_queue_accept :: "'u request_cb \<Rightarrow> 'u request_queue \<Rightarrow> ptr \<Rightarrow> 'u request_queue option" where
  "request_queue_accept accepted q head = do {
     item \<leftarrow> list_first_entry (rq_heap q) head;
     h \<leftarrow> list_del_init (rq_heap q) item;
     q \<leftarrow> accepted (q\<lparr>rq_heap := h\<rparr>) item;
     n \<leftarrow> c_int (rq_num_reqs q - 1);
     Some (q\<lparr>rq_num_reqs := n\<rparr>) }"

fun request_queue_schedule_from ::
    "'u request_cb \<Rightarrow> 'u request_queue \<Rightarrow> ptr list \<Rightarrow> 'u request_queue option" where
  "request_queue_schedule_from accepted q [] = Some q"
| "request_queue_schedule_from accepted q (head # heads) = do {
     e \<leftarrow> list_empty (rq_heap q) head;
     if \<not> e then request_queue_accept accepted q head
     else request_queue_schedule_from accepted q heads }"

definition request_queue_schedule :: "'u request_cb \<Rightarrow> 'u request_queue \<Rightarrow> 'u request_queue option" where
  "request_queue_schedule accepted q = request_queue_schedule_from accepted q (rq_heads q)"

text \<open>
  The reset loop is \<open>list_for_each_entry_safe\<close>: the successor is fetched before the body unlinks
  the cursor. The cancel callback is optional.
\<close>

definition request_queue_cancel :: "'u request_cb option \<Rightarrow> 'u request_queue \<Rightarrow> ptr \<Rightarrow> 'u request_queue option" where
  "request_queue_cancel cancelled q p = do {
     h \<leftarrow> list_del_init (rq_heap q) p;
     q \<leftarrow> (case cancelled of None \<Rightarrow> Some (q\<lparr>rq_heap := h\<rparr>) | Some cb \<Rightarrow> cb (q\<lparr>rq_heap := h\<rparr>) p);
     n \<leftarrow> c_int (rq_num_reqs q - 1);
     Some (q\<lparr>rq_num_reqs := n\<rparr>) }"

partial_function (option) request_queue_reset_class ::
    "'u request_cb option \<Rightarrow> ptr \<Rightarrow> ptr \<Rightarrow> ptr \<Rightarrow> 'u request_queue \<Rightarrow> 'u request_queue option" where
  "request_queue_reset_class cancelled head p n q =
     (if p = head then Some q
      else do {
        q' \<leftarrow> request_queue_cancel cancelled q p;
        n' \<leftarrow> rd_next (rq_heap q') n;
        request_queue_reset_class cancelled head n n' q' })"

definition reqiest_queue_reset :: "'u request_cb option \<Rightarrow> 'u request_queue \<Rightarrow> 'u request_queue option" where
  "reqiest_queue_reset cancelled q =
     foldo (\<lambda>q head. do {
         p \<leftarrow> rd_next (rq_heap q) head;
         n \<leftarrow> rd_next (rq_heap q) p;
         request_queue_reset_class cancelled head p n q }) q (rq_heads q)"

section \<open>Abstract view\<close>

definition rq_rep :: "'u request_queue \<Rightarrow> ptr list list \<Rightarrow> bool" where
  "rq_rep q xss \<longleftrightarrow> length (rq_heads q) = request_priority_max
     \<and> carries_all dlist (rq_heap q) (rq_heads q) xss
     \<and> rq_num_reqs q = int (length (concat xss)) \<and> length (concat xss) < 2 ^ 31 - 1"

definition rq_nodes :: "'u request_queue \<Rightarrow> ptr list list \<Rightarrow> ptr set" where
  "rq_nodes q xss = all_nodes (rq_heads q) xss"

text \<open>The request a schedule picks: the oldest of the most urgent class that has any.\<close>

fun pick :: "'a list list \<Rightarrow> ('a \<times> 'a list list) option" where
  "pick [] = None"
| "pick ([] # xss) = map_option (\<lambda>(x, yss). (x, [] # yss)) (pick xss)"
| "pick ((x # xs) # xss) = Some (x, xs # xss)"

lemma pick_None: "pick xss = None \<longleftrightarrow> concat xss = []"
  by (induction xss rule: pick.induct) auto

lemma pick_Some_concat: "pick xss = Some (x, yss) \<Longrightarrow> concat xss = x # concat yss"
  by (induction xss arbitrary: yss rule: pick.induct) auto

lemma pick_length: "pick xss = Some (x, yss) \<Longrightarrow> length yss = length xss"
  by (induction xss arbitrary: yss rule: pick.induct) auto

lemma pick_update:
  "pick xss = Some (x, yss) \<Longrightarrow>
     \<exists>i xs. i < length xss \<and> (\<forall>j < i. xss ! j = []) \<and> xss ! i = x # xs \<and> yss = xss[i := xs]"
proof (induction xss arbitrary: yss rule: pick.induct)
  case (2 xss)
  then obtain zss where z: "pick xss = Some (x, zss)" "yss = [] # zss" by auto
  then obtain i xs where "i < length xss" "\<forall>j < i. xss ! j = []" "xss ! i = x # xs" "zss = xss[i := xs]"
    using "2.IH" by blast
  with z(2) have "Suc i < length ([] # xss) \<and> (\<forall>j < Suc i. ([] # xss) ! j = [])
      \<and> ([] # xss) ! Suc i = x # xs \<and> yss = ([] # xss)[Suc i := xs]"
    by (auto simp: nth_Cons split: nat.splits)
  then show ?case by blast
qed fastforce+

section \<open>Functional behaviour\<close>

lemma request_queue_init_spec:
  assumes "length (rq_heads q) = request_priority_max" "distinct (rq_heads q)" "NULL \<notin> set (rq_heads q)"
  shows "\<exists>q'. request_queue_init q = Some q' \<and> rq_rep q' (replicate request_priority_max [])
    \<and> rq_heads q' = rq_heads q \<and> rq_env q' = rq_env q"
  using init_heads [OF assms(2,3), of "rq_heap q"] assms(1)
  by (auto simp: request_queue_init_def rq_rep_def)

lemma length_concat_add:
  "i < length xss \<Longrightarrow> length (concat (xss[i := xss ! i @ [n]])) = Suc (length (concat xss))"
proof (induction xss arbitrary: i)
  case (Cons xs xss)
  then show ?case by (cases i) auto
qed simp

lemma request_queue_submit_spec:
  assumes rep: "rq_rep q xss" and pr: "priority item < request_priority_max"
    and item: "item \<notin> rq_nodes q xss" "item \<noteq> NULL" and room: "length (concat xss) < 2 ^ 31 - 2"
  shows "\<exists>q'. request_queue_submit priority q item = Some q'
    \<and> rq_rep q' (xss[priority item := xss ! priority item @ [item]])
    \<and> rq_heads q' = rq_heads q \<and> rq_env q' = rq_env q"
proof -
  have all: "carries_all dlist (rq_heap q) (rq_heads q) xss"
    and len: "length (rq_heads q) = request_priority_max"
    using rep by (auto simp: rq_rep_def)
  have i: "priority item < length (rq_heads q)" using pr len by simp
  obtain h' where h': "list_add_tail (rq_heap q) item (rq_heads q ! priority item) = Some h'"
      "carries_all dlist h' (rq_heads q) (xss[priority item := xss ! priority item @ [item]])"
    using dl.add_tail_at [OF all i] item by (auto simp: rq_nodes_def)
  have "int32_ok (rq_num_reqs q + 1)"
    using rep room by (auto simp: rq_rep_def int32_ok_def)
  moreover have "length (concat (xss[priority item := xss ! priority item @ [item]])) = Suc (length (concat xss))"
    using i carries_all_length [OF all] by (simp add: length_concat_add)
  ultimately show ?thesis
    using h' i rep room by (auto simp: request_queue_submit_def rq_rep_def)
qed

lemma request_queue_submit_bad_priority:
  assumes "rq_rep q xss" "priority item \<ge> request_priority_max"
  shows "request_queue_submit priority q item = None"
  using assms by (simp add: request_queue_submit_def mem_load_def rq_rep_def)

lemma schedule_from_all_empty:
  "(\<forall>head \<in> set heads. list_empty (rq_heap q) head = Some True) \<Longrightarrow>
     request_queue_schedule_from acc q heads = Some q"
  by (induction heads) auto

lemma schedule_from_first_busy:
  assumes "i < length heads" "\<forall>j < i. list_empty (rq_heap q) (heads ! j) = Some True"
    "list_empty (rq_heap q) (heads ! i) = Some False"
  shows "request_queue_schedule_from acc q heads = request_queue_accept acc q (heads ! i)"
  using assms
proof (induction heads arbitrary: i)
  case (Cons head heads)
  show ?case
  proof (cases i)
    case 0
    with Cons.prems show ?thesis by simp
  next
    case (Suc k)
    have "list_empty (rq_heap q) head = Some True"
      using Cons.prems(2) Suc by (metis nth_Cons_0 zero_less_Suc)
    moreover have "\<forall>j < k. list_empty (rq_heap q) (heads ! j) = Some True"
      using Cons.prems(2) Suc by (metis nth_Cons_Suc Suc_mono)
    ultimately show ?thesis using Cons.IH [of k] Cons.prems Suc by simp
  qed
qed simp

lemma request_queue_schedule_idle:
  assumes "rq_rep q xss" "pick xss = None"
  shows "request_queue_schedule acc q = Some q"
  unfolding request_queue_schedule_def
proof (rule schedule_from_all_empty, rule ballI)
  fix head assume "head \<in> set (rq_heads q)"
  then obtain i where "i < length (rq_heads q)" "head = rq_heads q ! i"
    by (auto simp: in_set_conv_nth)
  moreover from this have "dlist (rq_heap q) head (xss ! i)"
    using assms(1) by (auto simp: rq_rep_def carries_all_def)
  moreover have "xss ! i = []"
    using assms calculation(1) by (auto simp: pick_None rq_rep_def carries_all_def)
  ultimately show "list_empty (rq_heap q) head = Some True"
    by (simp add: list_empty_spec)
qed

lemma request_queue_schedule_spec:
  assumes rep: "rq_rep q xss" and p: "pick xss = Some (x, yss)"
  shows "\<exists>h'. carries_all dlist h' (rq_heads q) yss \<and>
    request_queue_schedule acc q = do {
      q' \<leftarrow> acc (q\<lparr>rq_heap := h'\<rparr>) x;
      n \<leftarrow> c_int (rq_num_reqs q' - 1);
      Some (q'\<lparr>rq_num_reqs := n\<rparr>) }"
proof -
  have all: "carries_all dlist (rq_heap q) (rq_heads q) xss" using rep by (simp add: rq_rep_def)
  obtain i xs where i: "i < length xss" "\<forall>j < i. xss ! j = []" "xss ! i = x # xs" "yss = xss[i := xs]"
    using pick_update [OF p] by blast
  have il: "i < length (rq_heads q)" using i(1) carries_all_length [OF all] by simp
  obtain h' where h': "list_del_init (rq_heap q) x = Some h'" "carries_all dlist h' (rq_heads q) yss"
    using dl.del_at [OF all il, of "[]" x xs] i by auto
  have d: "dlist (rq_heap q) (rq_heads q ! j) (xss ! j)" if "j < length (rq_heads q)" for j
    using carries_all_nth [OF all that] .
  have "request_queue_schedule acc q = request_queue_accept acc q (rq_heads q ! i)"
    unfolding request_queue_schedule_def
  proof (rule schedule_from_first_busy [OF il])
    show "\<forall>j < i. list_empty (rq_heap q) (rq_heads q ! j) = Some True"
    proof (intro allI impI)
      fix j assume "j < i"
      then have "dlist (rq_heap q) (rq_heads q ! j) []" using d [of j] i(2) il by simp
      then show "list_empty (rq_heap q) (rq_heads q ! j) = Some True" by (simp add: list_empty_spec)
    qed
    show "list_empty (rq_heap q) (rq_heads q ! i) = Some False"
      using d [OF il] i(3) by (simp add: list_empty_spec)
  qed
  moreover have "list_first_entry (rq_heap q) (rq_heads q ! i) = Some x"
    using d [OF il] i(3) by (simp add: list_first_entry_spec)
  ultimately show ?thesis
    using h' by (auto simp: request_queue_accept_def)
qed

section \<open>Draining and resetting\<close>

text \<open>A callback that only records the request in the user's state.\<close>

definition note_item :: "ptr list request_cb" where
  "note_item q item = Some (q\<lparr>rq_env := rq_env q @ [item]\<rparr>)"

lemma schedule_note_spec:
  assumes rep: "rq_rep q xss" and p: "pick xss = Some (x, yss)"
  shows "\<exists>q'. request_queue_schedule note_item q = Some q' \<and> rq_rep q' yss
    \<and> rq_env q' = rq_env q @ [x]"
proof -
  obtain h' where h': "carries_all dlist h' (rq_heads q) yss"
      "request_queue_schedule note_item q = do {
        q' \<leftarrow> note_item (q\<lparr>rq_heap := h'\<rparr>) x;
        n \<leftarrow> c_int (rq_num_reqs q' - 1);
        Some (q'\<lparr>rq_num_reqs := n\<rparr>) }"
    using request_queue_schedule_spec [OF rep p] by blast
  have "int32_ok (rq_num_reqs q - 1)"
    using rep by (auto simp: rq_rep_def int32_ok_def)
  then show ?thesis
    using h' rep pick_Some_concat [OF p] by (auto simp: note_item_def rq_rep_def)
qed

lemma drain_accepts_concat:
  assumes "rq_rep q xss"
  shows "\<exists>q'. foldo (\<lambda>q _. request_queue_schedule note_item q) q [0..<length (concat xss)] = Some q'
    \<and> rq_env q' = rq_env q @ concat xss \<and> rq_num_reqs q' = 0"
proof -
  have "\<exists>q'. foldo (\<lambda>q _. request_queue_schedule note_item q) q ns = Some q'
    \<and> rq_env q' = rq_env q @ concat xss \<and> rq_num_reqs q' = 0"
    if "rq_rep q xss" "length ns = length (concat xss)" for q xss and ns :: "nat list"
    using that
  proof (induction ns arbitrary: q xss)
    case Nil
    then show ?case by (auto simp: rq_rep_def)
  next
    case (Cons n ns)
    have "concat xss \<noteq> []"
      using Cons.prems(2) by (metis Zero_neq_Suc length_Cons list.size(3))
    then obtain x yss where p: "pick xss = Some (x, yss)"
      using pick_None [of xss] by (metis option.exhaust surj_pair)
    obtain q1 where q1: "request_queue_schedule note_item q = Some q1" "rq_rep q1 yss"
        "rq_env q1 = rq_env q @ [x]"
      using schedule_note_spec [OF Cons.prems(1) p] by blast
    have "length ns = length (concat yss)"
      using Cons.prems(2) pick_Some_concat [OF p] by simp
    with Cons.IH [OF q1(2)] q1 pick_Some_concat [OF p] show ?case by auto
  qed
  with assms show ?thesis by simp
qed

text \<open>Submitting a list of fresh requests files each in its class, in order.\<close>

lemma submit_all_spec:
  assumes "rq_rep q xss" "\<forall>x \<in> set items. priority x < request_priority_max"
    "distinct items" "set items \<inter> rq_nodes q xss = {}" "NULL \<notin> set items"
    "length (concat xss) + length items < 2 ^ 31 - 1"
  shows "\<exists>q'. foldo (request_queue_submit priority) q items = Some q'
    \<and> rq_rep q' (map (\<lambda>i. xss ! i @ filter (\<lambda>x. priority x = i) items) [0..<request_priority_max])
    \<and> rq_env q' = rq_env q"
  using assms
proof (induction items arbitrary: q xss)
  case Nil
  then have "length xss = request_priority_max" by (simp add: rq_rep_def carries_all_def)
  then have "map (\<lambda>i. xss ! i @ []) [0..<request_priority_max] = xss"
    by (auto intro: nth_equalityI)
  with Nil show ?case by simp
next
  case (Cons x items)
  have lx: "length xss = request_priority_max"
    using Cons.prems(1) by (simp add: rq_rep_def carries_all_def)
  let ?yss = "xss[priority x := xss ! priority x @ [x]]"
  obtain q1 where q1: "request_queue_submit priority q x = Some q1" "rq_rep q1 ?yss"
      "rq_heads q1 = rq_heads q" "rq_env q1 = rq_env q"
    using request_queue_submit_spec [OF Cons.prems(1), of priority x] Cons.prems by auto
  have "set items \<inter> rq_nodes q1 ?yss = {}"
    using Cons.prems(2,3,4) lx q1(3) set_concat_update [of "priority x" xss x]
    by (auto simp: rq_nodes_def all_nodes_def simp del: set_concat)
  moreover have "length (concat ?yss) = Suc (length (concat xss))"
    using Cons.prems(2) lx by (simp add: length_concat_add)
  ultimately obtain q2 where q2: "foldo (request_queue_submit priority) q1 items = Some q2"
      "rq_rep q2 (map (\<lambda>i. ?yss ! i @ filter (\<lambda>x. priority x = i) items) [0..<request_priority_max])"
      "rq_env q2 = rq_env q1"
    using Cons.IH [OF q1(2)] Cons.prems by auto
  moreover have "map (\<lambda>i. ?yss ! i @ filter (\<lambda>x. priority x = i) items) [0..<request_priority_max]
      = map (\<lambda>i. xss ! i @ filter (\<lambda>x. priority x = i) (x # items)) [0..<request_priority_max]"
    using lx by (auto simp: nth_list_update)
  ultimately show ?case using q1 by auto
qed

lemma classes_are_stable_sort:
  assumes "\<forall>x \<in> set xs. f x < (n :: nat)"
  shows "concat (map (\<lambda>i. filter (\<lambda>x. f x = i) xs) [0..<n]) = sort_key f xs"
proof (rule properties_for_sort_key [symmetric])
  have "filter (\<lambda>x. f x = k) (concat (map (\<lambda>i. filter (\<lambda>x. f x = i) xs) [0..<m]))
      = (if k < m then filter (\<lambda>x. f x = k) xs else [])" for k m
    by (induction m) (auto simp: filter_empty_conv less_Suc_eq intro: filter_cong)
  note flt = this
  show "filter (\<lambda>x. f k = f x) (concat (map (\<lambda>i. filter (\<lambda>x. f x = i) xs) [0..<n]))
      = filter (\<lambda>x. f k = f x) xs" if "k \<in> set (concat (map (\<lambda>i. filter (\<lambda>x. f x = i) xs) [0..<n]))" for k
  proof -
    have "f k < n" using that by auto
    then show ?thesis using flt [of "f k" n] by (simp add: eq_commute [of "f k"])
  qed
  show "sorted (map f (concat (map (\<lambda>i. filter (\<lambda>x. f x = i) xs) [0..<n])))"
  proof (induction n)
    case (Suc n)
    have "sorted (map f (filter (\<lambda>x. f x = n) xs))"
      by (induction xs) auto
    with Suc show ?case by (auto simp: sorted_append)
  qed simp
  have "mset (concat (map (\<lambda>i. filter (\<lambda>x. f x = i) xs) [0..<n])) = mset (filter (\<lambda>x. f x < n) xs)"
  proof (induction n)
    case (Suc n)
    have "mset (filter (\<lambda>x. f x < Suc n) xs) = mset (filter (\<lambda>x. f x < n) xs) + mset (filter (\<lambda>x. f x = n) xs)"
      by (induction xs) auto
    with Suc show ?case by simp
  qed simp
  moreover have "filter (\<lambda>x. f x < n) xs = xs" using assms by simp
  ultimately show "mset (concat (map (\<lambda>i. filter (\<lambda>x. f x = i) xs) [0..<n])) = mset xs"
    by simp
qed

text \<open>Cancelling every request of a class, with a callback that leaves the queue alone.\<close>

lemma cancel_note_spec:
  assumes rep: "rq_rep q xss" and i: "i < request_priority_max" and x: "xss ! i = x # xs"
  shows "\<exists>q'. request_queue_cancel (Some note_item) q x = Some q' \<and> rq_rep q' (xss[i := xs])
    \<and> rq_heads q' = rq_heads q \<and> rq_env q' = rq_env q @ [x]"
proof -
  have all: "carries_all dlist (rq_heap q) (rq_heads q) xss"
    and il: "i < length (rq_heads q)" "i < length xss"
    using rep i by (auto simp: rq_rep_def carries_all_def)
  obtain h' where h': "list_del_init (rq_heap q) x = Some h'" "carries_all dlist h' (rq_heads q) (xss[i := xs])"
    using dl.del_at [OF all il(1), of "[]" x xs] x by auto
  have len: "length (concat xss) = Suc (length (concat (xss[i := xs])))"
    using il(2) x
  proof (induction xss arbitrary: i)
    case (Cons ys xss)
    then show ?case by (cases i) auto
  qed simp
  have "int32_ok (rq_num_reqs q - 1)"
    using rep by (auto simp: rq_rep_def int32_ok_def)
  then show ?thesis
    using h' rep len by (auto simp: request_queue_cancel_def note_item_def rq_rep_def)
qed

lemma reset_class_spec:
  assumes "rq_rep q xss" "i < request_priority_max" "head = rq_heads q ! i" "xss ! i = xs"
    "p = hd (xs @ [head])" "xs \<noteq> [] \<Longrightarrow> n = hd (tl xs @ [head])"
  shows "\<exists>q'. request_queue_reset_class (Some note_item) head p n q = Some q'
    \<and> rq_rep q' (xss[i := []]) \<and> rq_heads q' = rq_heads q \<and> rq_env q' = rq_env q @ xs"
  using assms
proof (induction xs arbitrary: q xss p n)
  case Nil
  then have "xss[i := []] = xss" by (metis list_update_id)
  with Nil show ?case by (auto simp: request_queue_reset_class.simps)
next
  case (Cons x xs)
  obtain q1 where q1: "request_queue_cancel (Some note_item) q x = Some q1" "rq_rep q1 (xss[i := xs])"
      "rq_heads q1 = rq_heads q" "rq_env q1 = rq_env q @ [x]"
    using cancel_note_spec [OF Cons.prems(1,2,4)] by blast
  have lens: "i < length (rq_heads q)" "i < length xss"
    using Cons.prems(1,2) by (auto simp: rq_rep_def carries_all_def)
  have d: "dlist (rq_heap q) head (x # xs)" and d1: "dlist (rq_heap q1) head xs"
    using Cons.prems q1(2,3) lens by (auto simp: rq_rep_def carries_all_def)
  have n: "n = hd (xs @ [head])" using Cons.prems(6) by simp
  then have nn: "n \<noteq> NULL" using d by (cases xs) (auto simp: dlist_def)
  have "xs \<noteq> [] \<Longrightarrow> lh_next (rq_heap q1) n = hd (tl xs @ [head])"
    using d1 n by (cases xs; cases "tl xs") (auto simp: dlist_def)
  then obtain q2 where "request_queue_reset_class (Some note_item) head n (lh_next (rq_heap q1) n) q1 = Some q2"
      "rq_rep q2 (xss[i := []])" "rq_heads q2 = rq_heads q" "rq_env q2 = rq_env q @ x # xs"
    using Cons.IH [OF q1(2) Cons.prems(2), of n "lh_next (rq_heap q1) n"] Cons.prems(3) q1(3,4) lens n
    by auto
  moreover have "p = x" "x \<noteq> head" using Cons.prems(5) d by (auto simp: dlist_def)
  ultimately show ?case
    using q1(1) nn by (subst request_queue_reset_class.simps) (simp add: rd_next_def)
qed

lemma reset_from_spec:
  assumes "k \<le> request_priority_max" "rq_rep q (replicate k [] @ drop k xss)"
    "length xss = request_priority_max"
  shows "\<exists>q'. foldo (\<lambda>q head. do {
         p \<leftarrow> rd_next (rq_heap q) head;
         n \<leftarrow> rd_next (rq_heap q) p;
         request_queue_reset_class (Some note_item) head p n q }) q (drop k (rq_heads q)) = Some q'
    \<and> rq_rep q' (replicate request_priority_max []) \<and> rq_env q' = rq_env q @ concat (drop k xss)"
  using assms
proof (induction k arbitrary: q rule: inc_induct)
  case base
  then show ?case by (auto simp: rq_rep_def)
next
  case (step k)
  let ?yss = "replicate k [] @ drop k xss"
  have lens: "k < length (rq_heads q)" "length ?yss = request_priority_max" "?yss ! k = xss ! k"
    using step.prems step.hyps by (auto simp: rq_rep_def nth_append)
  have d: "dlist (rq_heap q) (rq_heads q ! k) (xss ! k)"
    using step.prems(1) lens by (auto simp: rq_rep_def carries_all_def)
  define head where "head = rq_heads q ! k"
  define p where "p = lh_next (rq_heap q) head"
  define n where "n = lh_next (rq_heap q) p"
  have p: "p = hd (xss ! k @ [head])" "head \<noteq> NULL" "p \<noteq> NULL"
    using d unfolding p_def head_def by (cases "xss ! k"; auto simp: dlist_def)+
  have n: "xss ! k \<noteq> [] \<Longrightarrow> n = hd (tl (xss ! k) @ [head])"
    using d unfolding n_def p_def head_def by (cases "xss ! k"; cases "tl (xss ! k)"; auto simp: dlist_def)
  obtain q1 where q1: "request_queue_reset_class (Some note_item) head p n q = Some q1"
      "rq_rep q1 (?yss[k := []])" "rq_heads q1 = rq_heads q" "rq_env q1 = rq_env q @ xss ! k"
    using reset_class_spec [OF step.prems(1) _ head_def lens(3) p(1) n] step.hyps by blast
  have "?yss[k := []] = replicate (Suc k) [] @ drop (Suc k) xss"
    using step.hyps step.prems(2)
    by (simp add: list_update_append Cons_nth_drop_Suc [symmetric] replicate_append_same)
  then obtain q2 where "foldo (\<lambda>q head. do {
         p \<leftarrow> rd_next (rq_heap q) head;
         n \<leftarrow> rd_next (rq_heap q) p;
         request_queue_reset_class (Some note_item) head p n q }) q1 (drop (Suc k) (rq_heads q)) = Some q2"
      "rq_rep q2 (replicate request_priority_max [])" "rq_env q2 = rq_env q1 @ concat (drop (Suc k) xss)"
    using step.IH [of q1] q1(2,3) step.prems(2) by auto
  moreover have "drop k (rq_heads q) = head # drop (Suc k) (rq_heads q)"
    using lens(1) by (simp add: head_def Cons_nth_drop_Suc)
  moreover have "concat (drop k xss) = xss ! k @ concat (drop (Suc k) xss)"
    using step.hyps step.prems(2) by (simp add: Cons_nth_drop_Suc [symmetric])
  ultimately show ?case
    using q1 p by (auto simp: rd_next_def p_def n_def)
qed

section \<open>Properties\<close>

text \<open>
  C38: Requests submitted to a fresh queue are accepted by repeated scheduling in the order of
  their priority, requests of equal priority in the order they were submitted (a stable sort), each
  exactly once; afterwards the request count is 0. The hypotheses say that the six list heads and
  the requests are distinct objects and that every priority is a class of the array.
\<close>

theorem request_queue_drains_by_priority:
  assumes "length (rq_heads q) = request_priority_max" "distinct (rq_heads q @ items)"
    "NULL \<notin> set (rq_heads q @ items)" "\<forall>x \<in> set items. priority x < request_priority_max"
    "length items < 2 ^ 31 - 1"
  shows "\<exists>q1 q2 q3. request_queue_init q = Some q1
    \<and> foldo (request_queue_submit priority) q1 items = Some q2
    \<and> foldo (\<lambda>q _. request_queue_schedule note_item q) q2 [0..<length items] = Some q3
    \<and> rq_env q3 = rq_env q @ sort_key priority items \<and> rq_num_reqs q3 = 0"
proof -
  let ?fresh = "replicate request_priority_max [] :: ptr list list"
  let ?classes = "map (\<lambda>i. filter (\<lambda>x. priority x = i) items) [0..<request_priority_max]"
  obtain q1 where q1: "request_queue_init q = Some q1" "rq_rep q1 ?fresh" "rq_heads q1 = rq_heads q"
      "rq_env q1 = rq_env q"
    using request_queue_init_spec [of q] assms by auto
  have "set items \<inter> rq_nodes q1 ?fresh = {}"
    using assms(2) q1(3) by (auto simp: rq_nodes_def all_nodes_def)
  then obtain q2 where q2: "foldo (request_queue_submit priority) q1 items = Some q2"
      "rq_rep q2 (map (\<lambda>i. ?fresh ! i @ filter (\<lambda>x. priority x = i) items) [0..<request_priority_max])"
      "rq_env q2 = rq_env q1"
    using submit_all_spec [OF q1(2) assms(4)] assms by auto
  moreover have "map (\<lambda>i. ?fresh ! i @ filter (\<lambda>x. priority x = i) items) [0..<request_priority_max] = ?classes"
    by (simp add: list_eq_iff_nth_eq)
  moreover have sorted: "concat ?classes = sort_key priority items"
    using classes_are_stable_sort [of items priority request_priority_max] assms(4) by simp
  ultimately have "rq_rep q2 ?classes" by simp
  from drain_accepts_concat [OF this] show ?thesis
    unfolding sorted using q1 q2 by auto
qed

lemma request_queue_drains_by_priority_witness:
  "\<exists>q1 q2 q3. request_queue_init \<lparr>rq_heap = \<lparr>lh_next = (\<lambda>_. 0), lh_prev = (\<lambda>_. 0)\<rparr>,
       rq_heads = [1, 2, 3, 4, 5, 6], rq_num_reqs = 0, rq_env = []\<rparr> = Some q1
    \<and> foldo (request_queue_submit (\<lambda>x. if x = 11 then 0 else 4)) q1 [10, 11, 12] = Some q2
    \<and> foldo (\<lambda>q _. request_queue_schedule note_item q) q2 [0..<length [10, 11, 12 :: nat]] = Some q3
    \<and> rq_env q3 = [11, 10, 12] \<and> rq_num_reqs q3 = 0"
  using request_queue_drains_by_priority [of "\<lparr>rq_heap = \<lparr>lh_next = (\<lambda>_. 0), lh_prev = (\<lambda>_. 0)\<rparr>,
       rq_heads = [1, 2, 3, 4, 5, 6], rq_num_reqs = 0, rq_env = []\<rparr>" "[10, 11, 12]"
       "\<lambda>x. if x = 11 then 0 else 4"]
  by (simp add: request_priority_max_def del: upt_Suc foldo.simps)

text \<open>
  Resetting the queue unlinks every request, reports each of them once to the cancel callback in
  priority order, and leaves six empty classes and a request count of 0.
\<close>

theorem request_queue_reset_cancels_all:
  assumes "rq_rep q xss"
  shows "\<exists>q'. reqiest_queue_reset (Some note_item) q = Some q'
    \<and> rq_rep q' (replicate request_priority_max []) \<and> rq_env q' = rq_env q @ concat xss"
proof -
  have "length xss = request_priority_max" using assms by (simp add: rq_rep_def carries_all_def)
  from reset_from_spec [of 0 q xss, OF _ _ this] assms show ?thesis
    by (simp add: reqiest_queue_reset_def)
qed

lemma request_queue_reset_cancels_all_witness:
  "\<exists>q q'. rq_num_reqs q = 2 \<and> rq_env q = [] \<and> reqiest_queue_reset (Some note_item) q = Some q'
    \<and> rq_rep q' (replicate request_priority_max []) \<and> rq_env q' = [11, 10]"
proof -
  let ?q0 = "\<lparr>rq_heap = \<lparr>lh_next = id, lh_prev = id\<rparr>, rq_heads = [1, 2, 3, 4, 5, 6],
    rq_num_reqs = 0, rq_env = []\<rparr> :: ptr list request_queue"
  define pri where "pri = (\<lambda>x :: ptr. if x = 11 then 0 else (4 :: nat))"
  let ?items = "[10, 11] :: ptr list"
  obtain q1 :: "ptr list request_queue" where q1: "rq_rep q1 (replicate request_priority_max [])" "rq_heads q1 = rq_heads ?q0"
      "rq_env q1 = []"
  proof -
    have "length (rq_heads ?q0) = request_priority_max" "distinct (rq_heads ?q0)" "NULL \<notin> set (rq_heads ?q0)"
      by (simp_all add: request_priority_max_def)
    from request_queue_init_spec [OF this] obtain q' where
      "rq_rep q' (replicate request_priority_max [])" "rq_heads q' = rq_heads ?q0" "rq_env q' = rq_env ?q0"
      by blast
    then show ?thesis by (intro that [of q']) simp_all
  qed
  have "\<forall>x \<in> set ?items. pri x < request_priority_max" by (simp add: pri_def request_priority_max_def)
  moreover have "set ?items \<inter> rq_nodes q1 (replicate request_priority_max []) = {}"
    using q1(2) by (auto simp: request_priority_max_def rq_nodes_def all_nodes_def)
  ultimately obtain q2 :: "ptr list request_queue" where q2: "rq_rep q2 (map (\<lambda>i. replicate request_priority_max [] ! i
        @ filter (\<lambda>x. pri x = i) ?items) [0..<request_priority_max])" "rq_env q2 = []"
    using submit_all_spec [OF q1(1), of ?items pri] q1(3) by (auto simp del: foldo.simps)
  have "map (\<lambda>i. replicate request_priority_max [] ! i @ filter (\<lambda>x. pri x = i) ?items)
      [0..<request_priority_max] = [[11], [], [], [], [10], []]"
    by (simp add: pri_def request_priority_max_def upt_rec)
  with q2 have "rq_rep q2 [[11], [], [], [], [10], []]" by simp
  moreover from this have "rq_num_reqs q2 = 2" by (simp add: rq_rep_def)
  ultimately show ?thesis
    using request_queue_reset_cancels_all [of q2] q2(2) by fastforce
qed

end
