(* ===== verification/Circ_Buffer.thy ===== *)
theory Circ_Buffer
  imports Kj_Prelude
begin

text \<open>
  \<open>src/utils/circ_buffer.c\<close>: the byte ring buffer that backs a stream's transmit queue. The
  indices are C ints and every \<open>memcpy\<close>, \<open>%\<close> and addition is checked. The abstract view is the
  queued byte sequence; the locale \<open>byte_fifo\<close> states what a stream needs of it.
\<close>

section \<open>State and operations\<close>

record circ_buffer =
  cb_buffer :: "u8 list option"
  cb_size :: int
  cb_data_size :: int
  cb_begin :: int
  cb_end :: int

text \<open>The block \<open>malloc(size)\<close> returns (NULL or uninitialised bytes) is an argument.\<close>

definition circ_buffer_init :: "u8 list option \<Rightarrow> int \<Rightarrow> circ_buffer \<times> int" where
  "circ_buffer_init block n =
     (case block of
        None \<Rightarrow> (\<lparr>cb_buffer = None, cb_size = 0, cb_data_size = 0, cb_begin = 0, cb_end = 0\<rparr>, -1)
      | Some b \<Rightarrow>
          (\<lparr>cb_buffer = Some b, cb_size = n, cb_data_size = 0, cb_begin = 0, cb_end = 0\<rparr>, 0))"

definition circ_buffer_deinit :: "circ_buffer \<Rightarrow> circ_buffer" where
  "circ_buffer_deinit cb =
     (case cb_buffer cb of None \<Rightarrow> cb | Some _ \<Rightarrow> cb\<lparr>cb_buffer := None\<rparr>)"

text \<open>The copy into the ring, in one piece or wrapped around the end of the block.\<close>

definition circ_buffer_copy_in :: "circ_buffer \<Rightarrow> u8 list \<Rightarrow> int \<Rightarrow> u8 list option" where
  "circ_buffer_copy_in cb buf n = do {
     mem \<leftarrow> cb_buffer cb;
     stop \<leftarrow> c_int (cb_end cb + n);
     if stop > cb_size cb
     then do {
       begin_len \<leftarrow> c_int (cb_size cb - cb_end cb);
       m \<leftarrow> c_memcpy mem (cb_end cb) buf 0 begin_len;
       c_memcpy m 0 buf begin_len (n - begin_len) }
     else c_memcpy mem (cb_end cb) buf 0 n }"

definition circ_buffer_put :: "circ_buffer \<Rightarrow> u8 list \<Rightarrow> int \<Rightarrow> (circ_buffer \<times> int) option" where
  "circ_buffer_put cb buf n = do {
     total \<leftarrow> c_int (cb_data_size cb + n);
     if total > cb_size cb then Some (cb, -1)
     else do {
       mem' \<leftarrow> circ_buffer_copy_in cb buf n;
       stop \<leftarrow> c_int (cb_end cb + n);
       e \<leftarrow> c_mod stop (cb_size cb);
       Some (cb\<lparr>cb_buffer := Some mem', cb_end := e, cb_data_size := total\<rparr>, 0) } }"

text \<open>The copy out of the ring that \<open>get\<close> and \<open>peek\<close> share; both repeat its source text.\<close>

definition circ_buffer_copy_out :: "circ_buffer \<Rightarrow> u8 list \<Rightarrow> int \<Rightarrow> u8 list option" where
  "circ_buffer_copy_out cb buf n = do {
     mem \<leftarrow> cb_buffer cb;
     stop \<leftarrow> c_int (cb_begin cb + n);
     if stop \<le> cb_size cb then c_memcpy buf 0 mem (cb_begin cb) n
     else do {
       begin_len \<leftarrow> c_int (cb_size cb - cb_begin cb);
       b \<leftarrow> c_memcpy buf 0 mem (cb_begin cb) begin_len;
       c_memcpy b begin_len mem 0 (n - begin_len) } }"

definition circ_buffer_advance :: "circ_buffer \<Rightarrow> int \<Rightarrow> (circ_buffer \<times> int) option" where
  "circ_buffer_advance cb n = do {
     rest \<leftarrow> c_int (cb_data_size cb - n);
     if rest < 0 then Some (cb, -1)
     else do {
       stop \<leftarrow> c_int (cb_begin cb + n);
       b \<leftarrow> c_mod stop (cb_size cb);
       Some (cb\<lparr>cb_begin := b, cb_data_size := rest\<rparr>, 0) } }"

definition circ_buffer_get ::
    "circ_buffer \<Rightarrow> u8 list \<Rightarrow> int \<Rightarrow> (circ_buffer \<times> u8 list \<times> int) option" where
  "circ_buffer_get cb buf n = do {
     rest \<leftarrow> c_int (cb_data_size cb - n);
     if rest < 0 then Some (cb, buf, -1)
     else do {
       buf' \<leftarrow> circ_buffer_copy_out cb buf n;
       stop \<leftarrow> c_int (cb_begin cb + n);
       b \<leftarrow> c_mod stop (cb_size cb);
       Some (cb\<lparr>cb_begin := b, cb_data_size := rest\<rparr>, buf', 0) } }"

definition circ_buffer_peek :: "circ_buffer \<Rightarrow> u8 list \<Rightarrow> int \<Rightarrow> (u8 list \<times> int) option" where
  "circ_buffer_peek cb buf n = do {
     rest \<leftarrow> c_int (cb_data_size cb - n);
     if rest < 0 then Some (buf, -1)
     else do {
       buf' \<leftarrow> circ_buffer_copy_out cb buf n;
       Some (buf', 0) } }"

definition circ_buffer_reset :: "circ_buffer \<Rightarrow> circ_buffer" where
  "circ_buffer_reset cb = cb\<lparr>cb_begin := 0, cb_end := 0, cb_data_size := 0\<rparr>"

definition circ_buffer_get_data_size :: "circ_buffer \<Rightarrow> int" where
  "circ_buffer_get_data_size cb = cb_data_size cb"

definition circ_buffer_get_size :: "circ_buffer \<Rightarrow> int" where
  "circ_buffer_get_size cb = cb_size cb"

definition circ_buffer_is_full :: "circ_buffer \<Rightarrow> bool" where
  "circ_buffer_is_full cb \<longleftrightarrow> cb_data_size cb = cb_size cb"

definition circ_buffer_is_empty :: "circ_buffer \<Rightarrow> bool" where
  "circ_buffer_is_empty cb \<longleftrightarrow> cb_data_size cb = 0"

section \<open>Invariant and abstraction\<close>

text \<open>Capacities stay below \<open>2^30\<close>, so that the sum of an index and a length is an \<open>int\<close>.\<close>

definition cb_inv :: "circ_buffer \<Rightarrow> bool" where
  "cb_inv cb \<longleftrightarrow> (case cb_buffer cb of None \<Rightarrow> False | Some mem \<Rightarrow> int (length mem) = cb_size cb)
     \<and> 0 < cb_size cb \<and> cb_size cb < 2 ^ 30
     \<and> 0 \<le> cb_begin cb \<and> cb_begin cb < cb_size cb
     \<and> 0 \<le> cb_data_size cb \<and> cb_data_size cb \<le> cb_size cb
     \<and> cb_end cb = (cb_begin cb + cb_data_size cb) mod cb_size cb"

definition cb_abs :: "circ_buffer \<Rightarrow> u8 list" where
  "cb_abs cb = take (nat (cb_data_size cb)) (rotate (nat (cb_begin cb)) (the (cb_buffer cb)))"

definition cb_cap :: "circ_buffer \<Rightarrow> nat" where
  "cb_cap cb = nat (cb_size cb)"

text \<open>The invariant over natural numbers: memory, begin index and data length.\<close>

lemma cb_inv_obtain:
  assumes "cb_inv cb"
  obtains mem b d where "cb_buffer cb = Some mem" "cb_size cb = int (length mem)"
    "cb_begin cb = int b" "cb_data_size cb = int d" "cb_end cb = int ((b + d) mod length mem)"
    "0 < length mem" "length mem < 2 ^ 30" "b < length mem" "d \<le> length mem"
    "cb_abs cb = take d (rotate b mem)" "cb_cap cb = length mem"
proof -
  obtain mem where m: "cb_buffer cb = Some mem" "cb_size cb = int (length mem)"
    using assms by (auto simp: cb_inv_def split: option.splits)
  show thesis
    by (rule that [of mem "nat (cb_begin cb)" "nat (cb_data_size cb)"])
      (use assms m in \<open>auto simp: cb_inv_def cb_abs_def cb_cap_def zmod_int nat_less_iff nat_le_iff\<close>)
qed

lemma cb_inv_intro:
  assumes "cb_buffer cb = Some mem" "cb_size cb = int (length mem)" "cb_begin cb = int b"
    "cb_data_size cb = int d" "cb_end cb = int ((b + d) mod length mem)"
    "0 < length mem" "length mem < 2 ^ 30" "b < length mem" "d \<le> length mem"
  shows "cb_inv cb \<and> cb_abs cb = take d (rotate b mem) \<and> cb_cap cb = length mem"
  using assms by (simp add: cb_inv_def cb_abs_def cb_cap_def zmod_int)

lemma mod_wrap: "a < 2 * n \<Longrightarrow> a mod n = (if a < n then a else a - n)" for a n :: nat
  by (simp add: le_mod_geq)

lemma ring_nth: "i < d \<Longrightarrow> d \<le> length mem \<Longrightarrow> take d (rotate b mem) ! i = mem ! ((b + i) mod length mem)"
  by (simp add: nth_rotate)

section \<open>Functional behaviour\<close>

lemma circ_buffer_init_spec:
  assumes "int (length mem) = n" "0 < n" "n < 2 ^ 30"
  shows "\<exists>cb. circ_buffer_init (Some mem) n = (cb, 0) \<and> cb_inv cb \<and> cb_abs cb = [] \<and> cb_cap cb = nat n"
  using assms by (auto simp: circ_buffer_init_def cb_inv_def cb_abs_def cb_cap_def)

lemma circ_buffer_reset_spec:
  assumes "cb_inv cb"
  shows "cb_inv (circ_buffer_reset cb) \<and> cb_abs (circ_buffer_reset cb) = []
    \<and> cb_cap (circ_buffer_reset cb) = cb_cap cb"
  using assms
  by (auto simp: circ_buffer_reset_def cb_inv_def cb_abs_def cb_cap_def split: option.splits)

lemma cb_sizes:
  assumes "cb_inv cb"
  shows "circ_buffer_get_data_size cb = int (length (cb_abs cb))"
    "circ_buffer_get_size cb = int (cb_cap cb)"
    "circ_buffer_is_empty cb \<longleftrightarrow> cb_abs cb = []"
    "circ_buffer_is_full cb \<longleftrightarrow> length (cb_abs cb) = cb_cap cb"
    "length (cb_abs cb) \<le> cb_cap cb" "cb_cap cb < 2 ^ 30"
  by (rule cb_inv_obtain [OF assms]; auto simp: circ_buffer_get_data_size_def circ_buffer_get_size_def
      circ_buffer_is_empty_def circ_buffer_is_full_def)+

text \<open>Writing at the end index changes no queued byte and appends the new ones.\<close>

lemma ring_write:
  assumes b: "b < L" and dn: "d + n \<le> L" and len: "length mem = L" "length mem' = L" and n: "n \<le> length ys"
    and new: "\<And>i. i < n \<Longrightarrow> mem' ! ((b + d + i) mod L) = ys ! i"
    and old: "\<And>i. i < d \<Longrightarrow> mem' ! ((b + i) mod L) = mem ! ((b + i) mod L)"
  shows "take (d + n) (rotate b mem') = take d (rotate b mem) @ take n ys"
proof (rule nth_equalityI)
  fix i assume "i < length (take (d + n) (rotate b mem'))"
  then have i: "i < d + n" using dn len by simp
  then have "take (d + n) (rotate b mem') ! i = mem' ! ((b + i) mod L)"
    using ring_nth [of i "d + n" mem' b] dn len by simp
  also have "\<dots> = (take d (rotate b mem) @ take n ys) ! i"
  proof (cases "i < d")
    case True
    then show ?thesis using old [of i] ring_nth [of i d mem b] dn len n by (simp add: nth_append)
  next
    case False
    then have "mem' ! ((b + i) mod L) = ys ! (i - d)" using new [of "i - d"] i by simp
    with False i dn len n show ?thesis by (simp add: nth_append)
  qed
  finally show "take (d + n) (rotate b mem') ! i = (take d (rotate b mem) @ take n ys) ! i" .
qed (use assms in simp)

text \<open>The two shapes of the write: in one piece, or wrapped around the end of the block.\<close>

lemma ring_write_straight:
  assumes "b < L" "d + n \<le> L" "length mem = L" "n \<le> length ys" and e: "e = (b + d) mod L" "e + n \<le> L"
  shows "take (d + n) (rotate b (take e mem @ take n ys @ drop (e + n) mem))
    = take d (rotate b mem) @ take n ys"
proof (rule ring_write)
  have L: "0 < L" using assms by simp
  show "(take e mem @ take n ys @ drop (e + n) mem) ! ((b + d + i) mod L) = ys ! i" if "i < n" for i
  proof -
    have "(b + d + i) mod L = e + i"
      using e that L by (metis add_less_cancel_left less_le_trans mod_add_left_eq mod_less)
    then show ?thesis using that assms by (simp add: nth_append)
  qed
  show "(take e mem @ take n ys @ drop (e + n) mem) ! ((b + i) mod L) = mem ! ((b + i) mod L)"
    if "i < d" for i
  proof -
    have "(b + i) mod L < e \<or> e + n \<le> (b + i) mod L"
      using that assms e(2) unfolding e(1) by (auto simp: mod_wrap split: if_splits)
    moreover have "(b + i) mod L < L" using L by simp
    ultimately show ?thesis using assms nth_blit [of e "take n ys" mem "(b + i) mod L"] by auto
  qed
qed (use assms in simp_all)

lemma ring_write_wrapped:
  assumes "b < L" "d + n \<le> L" "length mem = L" "n \<le> length ys" and e: "e = (b + d) mod L" "L < e + n"
  defines "k \<equiv> L - e"
  defines "m1 \<equiv> take e mem @ take k ys"
  shows "take (d + n) (rotate b (take (n - k) (drop k ys) @ drop (n - k) m1))
    = take d (rotate b mem) @ take n ys"
proof (rule ring_write)
  have L: "0 < L" and eL: "e < L" using assms by simp_all
  have "n \<le> L" using assms(2) by simp
  then have k: "k \<le> n" "n - k \<le> e" "n - k < L" "k \<le> length ys"
    using e(2) eL assms(4) unfolding k_def by linarith+
  have m1: "length m1 = L" using assms eL k by (simp add: m1_def)
  let ?m = "take (n - k) (drop k ys) @ drop (n - k) m1"
  show "?m ! ((b + d + i) mod L) = ys ! i" if "i < n" for i
  proof (cases "i < k")
    case True
    then have "(b + d + i) mod L = e + i"
      using e that L by (metis add.commute k_def less_diff_conv mod_add_left_eq mod_less)
    moreover have "?m ! (e + i) = m1 ! (e + i)"
      using True k m1 assms(4) k_def eL by (simp add: nth_append)
    moreover have "m1 ! (e + i) = ys ! i"
      using True k(4) eL assms(3) by (simp add: nth_append m1_def)
    ultimately show ?thesis by simp
  next
    case False
    have "(b + d + i) mod L = (e + i) mod L" using e by (simp add: mod_add_left_eq)
    also have "\<dots> = i - k"
    proof -
      have "e + i < 2 * L" "L \<le> e + i" "e + i - L = i - k"
        using False that eL \<open>n \<le> L\<close> unfolding k_def by linarith+
      then show ?thesis by (simp add: mod_wrap)
    qed
    finally have "(b + d + i) mod L = i - k" .
    moreover have "i - k < n - k" using False that by simp
    ultimately show ?thesis using False k assms(4) by (simp add: nth_append)
  qed
  show "?m ! ((b + i) mod L) = mem ! ((b + i) mod L)" if "i < d" for i
  proof -
    have "(b + i) mod L < e" "n - k \<le> (b + i) mod L"
      using that assms(1,2) e(2) unfolding k_def e(1) by (auto simp: mod_wrap split: if_splits)
    moreover from this have "?m ! ((b + i) mod L) = m1 ! ((b + i) mod L)"
      using k m1 assms(4) by (simp add: nth_append)
    ultimately show ?thesis using eL assms(3) by (simp add: nth_append m1_def)
  qed
  have "length (take (n - k) (drop k ys)) = n - k" using k(4) assms(4) by simp
  then show "length ?m = L" using m1 k(3) by simp
qed (use assms in simp_all)


text \<open>Reading from the begin index.\<close>

lemma ring_read_straight:
  assumes "b + n \<le> length mem" "n \<le> d" "d \<le> length mem"
  shows "take n (drop b mem) = take n (take d (rotate b mem))"
  using assms by (intro nth_equalityI) (auto simp: nth_rotate)

lemma ring_read_wrapped:
  assumes "b < length mem" "length mem < b + n" "n \<le> d" "d \<le> length mem"
  shows "drop b mem @ take (n - (length mem - b)) mem = take n (take d (rotate b mem))"
proof (rule nth_equalityI)
  fix i assume "i < length (drop b mem @ take (n - (length mem - b)) mem)"
  then have "i < n" "i < d" using assms by auto
  moreover from this have "(b + i) mod length mem = (if b + i < length mem then b + i else b + i - length mem)"
    using assms by (intro mod_wrap) linarith
  ultimately show "(drop b mem @ take (n - (length mem - b)) mem) ! i = take n (take d (rotate b mem)) ! i"
    using assms by (auto simp: nth_rotate nth_append add.commute [of i b])
qed (use assms in auto)

lemma ring_advance:
  assumes "b < length mem" "n \<le> d" "d \<le> length mem"
  shows "take (d - n) (rotate ((b + n) mod length mem) mem) = drop n (take d (rotate b mem))"
  using assms by (intro nth_equalityI) (auto simp: nth_rotate mod_add_left_eq add.assoc)


section \<open>The byte queue contract\<close>

text \<open>
  What a client relies on: a put that fits appends and one that does not fit changes nothing, a
  peek returns the oldest bytes, an advance drops them, a get does both. Lengths are C ints.
  \<open>write_chunks\<close> and \<open>read_chunks\<close> put and get a sequence of chunks, every call returning 0.
\<close>

fun write_chunks :: "('b \<Rightarrow> u8 list \<Rightarrow> int \<Rightarrow> ('b \<times> int) option) \<Rightarrow> 'b \<Rightarrow> u8 list list \<Rightarrow> 'b option" where
  "write_chunks put b [] = Some b"
| "write_chunks put b (c # cs) = do {
     (b', r) \<leftarrow> put b c (int (length c));
     if r = 0 then write_chunks put b' cs else None }"

fun read_chunks ::
    "('b \<Rightarrow> u8 list \<Rightarrow> int \<Rightarrow> ('b \<times> u8 list \<times> int) option) \<Rightarrow> 'b \<Rightarrow> nat list \<Rightarrow> (u8 list list \<times> 'b) option" where
  "read_chunks get b [] = Some ([], b)"
| "read_chunks get b (n # ns) = do {
     (b', c, r) \<leftarrow> get b (replicate n 0) (int n);
     (cs, b'') \<leftarrow> read_chunks get b' ns;
     if r = 0 then Some (c # cs, b'') else None }"

locale byte_fifo =
  fixes inv :: "'b \<Rightarrow> bool"
    and queued :: "'b \<Rightarrow> u8 list"
    and cap :: "'b \<Rightarrow> nat"
    and put :: "'b \<Rightarrow> u8 list \<Rightarrow> int \<Rightarrow> ('b \<times> int) option"
    and peek :: "'b \<Rightarrow> u8 list \<Rightarrow> int \<Rightarrow> (u8 list \<times> int) option"
    and get :: "'b \<Rightarrow> u8 list \<Rightarrow> int \<Rightarrow> ('b \<times> u8 list \<times> int) option"
    and advance :: "'b \<Rightarrow> int \<Rightarrow> ('b \<times> int) option"
  assumes queued_cap: "inv b \<Longrightarrow> length (queued b) \<le> cap b"
    and put_fits: "inv b \<Longrightarrow> length (queued b) + n \<le> cap b \<Longrightarrow> n \<le> length buf \<Longrightarrow>
      \<exists>b'. put b buf (int n) = Some (b', 0) \<and> inv b' \<and> queued b' = queued b @ take n buf \<and> cap b' = cap b"
    and put_too_big: "inv b \<Longrightarrow> cap b < length (queued b) + n \<Longrightarrow> n < 2 ^ 30 \<Longrightarrow>
      put b buf (int n) = Some (b, -1)"
    and peek_ok: "inv b \<Longrightarrow> n \<le> length (queued b) \<Longrightarrow> n \<le> length dst \<Longrightarrow>
      peek b dst (int n) = Some (take n (queued b) @ drop n dst, 0)"
    and get_ok: "inv b \<Longrightarrow> n \<le> length (queued b) \<Longrightarrow> n \<le> length dst \<Longrightarrow>
      \<exists>b'. get b dst (int n) = Some (b', take n (queued b) @ drop n dst, 0)
        \<and> inv b' \<and> queued b' = drop n (queued b) \<and> cap b' = cap b"
    and get_too_big: "inv b \<Longrightarrow> length (queued b) < n \<Longrightarrow> n < 2 ^ 30 \<Longrightarrow>
      get b dst (int n) = Some (b, dst, -1)"
    and advance_ok: "inv b \<Longrightarrow> n \<le> length (queued b) \<Longrightarrow>
      \<exists>b'. advance b (int n) = Some (b', 0) \<and> inv b' \<and> queued b' = drop n (queued b) \<and> cap b' = cap b"
    and advance_too_big: "inv b \<Longrightarrow> length (queued b) < n \<Longrightarrow> n < 2 ^ 30 \<Longrightarrow>
      advance b (int n) = Some (b, -1)"
begin

lemma write_chunks_spec:
  assumes "inv b" "length (queued b) + length (concat chunks) \<le> cap b"
  shows "\<exists>b'. write_chunks put b chunks = Some b' \<and> inv b'
    \<and> queued b' = queued b @ concat chunks \<and> cap b' = cap b"
  using assms
proof (induction chunks arbitrary: b)
  case (Cons c chunks)
  then obtain b1 where "put b c (int (length c)) = Some (b1, 0)" "inv b1" "queued b1 = queued b @ c" "cap b1 = cap b"
    using put_fits [of b "length c" c] by auto
  with Cons.IH [of b1] Cons.prems show ?case by (auto simp: split_beta)
qed simp

lemma read_chunks_spec:
  assumes "inv b" "sum_list ns \<le> length (queued b)"
  shows "\<exists>cs b'. read_chunks get b ns = Some (cs, b') \<and> inv b' \<and> concat cs = take (sum_list ns) (queued b)
    \<and> map length cs = ns \<and> queued b' = drop (sum_list ns) (queued b) \<and> cap b' = cap b"
  using assms
proof (induction ns arbitrary: b)
  case (Cons n ns)
  then obtain b1 where b1: "get b (replicate n 0) (int n) = Some (b1, take n (queued b), 0)" "inv b1"
      "queued b1 = drop n (queued b)" "cap b1 = cap b"
    using get_ok [of b n "replicate n 0"] by auto
  moreover have "sum_list ns \<le> length (queued b1)" using b1(3) Cons.prems(2) by simp
  ultimately obtain cs b' where "read_chunks get b1 ns = Some (cs, b')" "inv b'"
      "concat cs = take (sum_list ns) (queued b1)" "map length cs = ns"
      "queued b' = drop (sum_list ns) (queued b1)" "cap b' = cap b1"
    using Cons.IH [of b1] by auto
  with b1 Cons.prems show ?case by (auto simp: take_add add.commute)
qed simp

lemma get_is_peek_then_advance:
  assumes "inv b" "n \<le> length (queued b)" "n \<le> length dst"
  shows "\<exists>b1 b2. peek b dst (int n) = Some (take n (queued b) @ drop n dst, 0)
    \<and> get b dst (int n) = Some (b1, take n (queued b) @ drop n dst, 0)
    \<and> advance b (int n) = Some (b2, 0) \<and> queued b1 = queued b2"
  using peek_ok [OF assms] get_ok [OF assms] advance_ok [OF assms(1,2)] by auto

end


section \<open>The ring buffer is a byte queue\<close>

lemma int32_small: "0 \<le> a \<Longrightarrow> a < 2 ^ 31 \<Longrightarrow> int32_ok a"
  by (simp add: int32_ok_def)

text \<open>The copy of \<open>circ_buffer_put\<close>, straight or around the end of the memory.\<close>

lemma circ_buffer_copy_in_spec:
  assumes cb: "cb_buffer cb = Some mem" "cb_size cb = int (length mem)" "cb_end cb = int e"
    and e: "e < length mem" "n \<le> length mem" "n \<le> length buf" "length mem < 2 ^ 30"
  shows "circ_buffer_copy_in cb buf (int n) = Some (if e + n \<le> length mem then take e mem @ take n buf @ drop (e + n) mem
    else take (n - (length mem - e)) (drop (length mem - e) buf)
      @ drop (n - (length mem - e)) (take e mem @ take (length mem - e) buf))"
proof -
  have ok: "int32_ok (int e + int n)" "int32_ok (int (length mem) - int e)" using e by (auto simp: int32_ok_def)
  show ?thesis
  proof (cases "e + n \<le> length mem")
    case True
    then show ?thesis using c_memcpy_in [of e n mem 0 buf] e ok cb by (simp add: circ_buffer_copy_in_def)
  next
    case False
    obtain k1 where k1: "length mem = e + k1" by (rule that [of "length mem - e"]) (use e(1) in simp)
    have "k1 \<le> n" using False k1 by simp
    then obtain k2 where k2: "n = k1 + k2" by (auto simp: le_iff_add)
    define m1 where "m1 = take e mem @ take k1 buf"
    have 1: "c_memcpy mem (int e) buf 0 (int k1) = Some m1"
      using c_memcpy_in [of e k1 mem 0 buf] e k1 k2 by (simp add: m1_def)
    have "0 + k2 \<le> length m1" "k1 + k2 \<le> length buf" using k1 k2 e by (auto simp: m1_def)
    from c_memcpy_in [OF this]
    have 2: "c_memcpy m1 0 buf (int k1) (int k2) = Some (take k2 (drop k1 buf) @ drop k2 m1)" by simp
    have "int (length mem) - int e = int k1" "int n - int k1 = int k2" "int e + int n > int (length mem)"
      using k1 k2 False by simp_all
    then show ?thesis using 1 2 ok cb False k1 k2 by (simp add: circ_buffer_copy_in_def m1_def)
  qed
qed

lemma circ_buffer_put_fits:
  assumes inv: "cb_inv cb" and fits: "length (cb_abs cb) + n \<le> cb_cap cb" and n: "n \<le> length buf"
  shows "\<exists>cb'. circ_buffer_put cb buf (int n) = Some (cb', 0) \<and> cb_inv cb'
    \<and> cb_abs cb' = cb_abs cb @ take n buf \<and> cb_cap cb' = cb_cap cb"
proof (rule cb_inv_obtain [OF inv])
  fix mem b d
  assume cb: "cb_buffer cb = Some mem" "cb_size cb = int (length mem)" "cb_begin cb = int b"
    "cb_data_size cb = int d" "cb_end cb = int ((b + d) mod length mem)" "0 < length mem"
    "length mem < 2 ^ 30" "b < length mem" "d \<le> length mem" "cb_abs cb = take d (rotate b mem)"
    "cb_cap cb = length mem"
  define L e where "L = length mem" and "e = (b + d) mod L"
  have dn: "d + n \<le> L" and eL: "e < L" using fits cb L_def e_def by simp_all
  have ok: "int32_ok (int d + int n)" "int32_ok (int e + int n)" "int32_ok (int L - int e)"
    using dn eL cb(7) L_def by (auto simp: int32_ok_def)
  define mem' where "mem' = (if e + n \<le> L then take e mem @ take n buf @ drop (e + n) mem
    else take (n - (L - e)) (drop (L - e) buf) @ drop (n - (L - e)) (take e mem @ take (L - e) buf))"
  note cb' = cb [folded L_def, folded e_def]
  have copied: "circ_buffer_copy_in cb buf (int n) = Some mem'"
    using circ_buffer_copy_in_spec [OF cb(1,2) cb'(5) eL [unfolded L_def] _ n cb(7)] dn by (simp add: mem'_def L_def)
  have modL: "c_mod (int e + int n) (int L) = Some (int ((e + n) mod L))"
    using c_mod_nonneg [of "int (e + n)" "int L"] cb(6) L_def by (simp add: zmod_int)
  define cc where "cc = cb\<lparr>cb_buffer := Some mem', cb_end := int ((e + n) mod L), cb_data_size := int d + int n\<rparr>"
  have put: "circ_buffer_put cb buf (int n) = Some (cc, 0)"
    using copied modL ok(1,2) dn by (simp add: circ_buffer_put_def cc_def cb'(2,4,5))
  have len: "length mem' = L" using eL dn n L_def by (auto simp: mem'_def)
  have abs: "take (d + n) (rotate b mem') = take d (rotate b mem) @ take n buf"
  proof (cases "e + n \<le> L")
    case True
    then have "mem' = take e mem @ take n buf @ drop (e + n) mem" by (simp add: mem'_def)
    then show ?thesis
      using ring_write_straight [OF cb'(8) dn L_def [symmetric] n e_def True] by (simp only:)
  next
    case False
    then have "L < e + n" by simp
    from ring_write_wrapped [OF cb'(8) dn L_def [symmetric] n e_def this] show ?thesis
      using False unfolding mem'_def by (simp only: if_False)
  qed
  have "cb_inv cc \<and> cb_abs cc = take (d + n) (rotate b mem') \<and> cb_cap cc = length mem'"
    by (rule cb_inv_intro) (use cb len dn L_def e_def in \<open>simp_all add: cc_def mod_add_left_eq add.assoc\<close>)
  then show ?thesis using put abs len cb L_def by auto
qed


lemma circ_buffer_put_too_big:
  assumes inv: "cb_inv cb" and big: "cb_cap cb < length (cb_abs cb) + n" and n: "n < 2 ^ 30"
  shows "circ_buffer_put cb buf (int n) = Some (cb, -1)"
proof -
  have "int32_ok (cb_data_size cb + int n)" "cb_data_size cb + int n > cb_size cb"
    by (rule cb_inv_obtain [OF inv]; use big n in \<open>simp add: int32_ok_def\<close>)+
  then show ?thesis by (simp add: circ_buffer_put_def)
qed

lemma circ_buffer_copy_out_spec:
  assumes inv: "cb_inv cb" and n: "n \<le> length (cb_abs cb)" "n \<le> length dst"
  shows "circ_buffer_copy_out cb dst (int n) = Some (take n (cb_abs cb) @ drop n dst)"
proof (rule cb_inv_obtain [OF inv])
  fix mem b d
  assume cb: "cb_buffer cb = Some mem" "cb_size cb = int (length mem)" "cb_begin cb = int b"
    "length mem < 2 ^ 30" "b < length mem" "d \<le> length mem" "cb_abs cb = take d (rotate b mem)"
  have nd: "n \<le> d" using n cb by simp
  have ok: "int32_ok (int b + int n)" using nd cb by (simp add: int32_ok_def)
  show ?thesis
  proof (cases "b + n \<le> length mem")
    case True
    then show ?thesis
      using c_memcpy_in [of 0 n dst b mem] n(2) cb ok ring_read_straight [OF True nd cb(6)]
      by (simp add: circ_buffer_copy_out_def)
  next
    case False
    have "b \<le> length mem" using cb(5) by simp
    then obtain k1 where k1: "length mem = b + k1" by (auto simp: le_iff_add)
    have "k1 \<le> n" using False k1 by simp
    then obtain k2 where k2: "n = k1 + k2" by (auto simp: le_iff_add)
    have drop_mem: "take k1 (drop b mem) = drop b mem" using k1 by simp
    define d1 where "d1 = drop b mem @ drop k1 dst"
    have len1: "length d1 = length dst" "length (drop b mem) = k1" using k1 k2 n(2) by (simp_all add: d1_def)
    have 1: "c_memcpy dst 0 mem (int b) (int k1) = Some d1"
      using c_memcpy_in [of 0 k1 dst b mem] k1 k2 n drop_mem by (simp add: d1_def)
    have 2: "c_memcpy d1 (int k1) mem 0 (int k2) = Some (drop b mem @ take k2 mem @ drop n dst)"
      using c_memcpy_in [of k1 k2 d1 0 mem] len1 k2 n(2) nd cb(6) by (simp add: d1_def add.commute)
    have "drop b mem @ take k2 mem = take n (cb_abs cb)"
      using ring_read_wrapped [OF cb(5) _ nd cb(6)] False k1 k2 cb(7) by simp
    then have 3: "drop b mem @ take k2 mem @ drop n dst = take n (cb_abs cb) @ drop n dst"
      by (metis append_assoc)
    have "int (length mem) - int b = int k1" "int n - int k1 = int k2" "\<not> int b + int n \<le> int (length mem)"
      "int32_ok (int k1)"
      using k1 k2 False cb(4) by (auto simp: int32_ok_def)
    then show ?thesis using 1 2 3 cb ok by (simp add: circ_buffer_copy_out_def)
  qed
qed

lemma circ_buffer_advance_ok:
  assumes inv: "cb_inv cb" and n: "n \<le> length (cb_abs cb)"
  shows "\<exists>cb'. circ_buffer_advance cb (int n) = Some (cb', 0) \<and> cb_inv cb'
    \<and> cb_abs cb' = drop n (cb_abs cb) \<and> cb_cap cb' = cb_cap cb"
proof (rule cb_inv_obtain [OF inv])
  fix mem b d
  assume cb: "cb_buffer cb = Some mem" "cb_size cb = int (length mem)" "cb_begin cb = int b"
    "cb_data_size cb = int d" "cb_end cb = int ((b + d) mod length mem)" "0 < length mem"
    "length mem < 2 ^ 30" "b < length mem" "d \<le> length mem" "cb_abs cb = take d (rotate b mem)"
    "cb_cap cb = length mem"
  have nd: "n \<le> d" using n cb by simp
  then have ok: "int32_ok (int d - int n)" "int32_ok (int b + int n)" using cb by (auto simp: int32_ok_def)
  define cb' where "cb' = cb\<lparr>cb_begin := int ((b + n) mod length mem), cb_data_size := int (d - n)\<rparr>"
  have "c_mod (int b + int n) (int (length mem)) = Some (int ((b + n) mod length mem))"
    using c_mod_nonneg [of "int (b + n)" "int (length mem)"] cb(6) by (simp add: zmod_int)
  then have adv: "circ_buffer_advance cb (int n) = Some (cb', 0)"
    using ok nd cb by (simp add: circ_buffer_advance_def cb'_def of_nat_diff)
  have "(b + d) mod length mem = ((b + n) mod length mem + (d - n)) mod length mem"
    using nd mod_add_left_eq [of "b + n" "length mem" "d - n"] by simp
  then have "cb_inv cb' \<and> cb_abs cb' = take (d - n) (rotate ((b + n) mod length mem) mem) \<and> cb_cap cb' = length mem"
    by (intro cb_inv_intro) (use cb in \<open>simp_all add: cb'_def\<close>)
  with adv show ?thesis using ring_advance [OF cb(8) nd cb(9)] cb by auto
qed

lemma circ_buffer_short:
  assumes inv: "cb_inv cb" and n: "length (cb_abs cb) < n" "n < 2 ^ 30"
  shows "circ_buffer_advance cb (int n) = Some (cb, -1)" "circ_buffer_get cb dst (int n) = Some (cb, dst, -1)"
proof -
  have "int32_ok (cb_data_size cb - int n)" "cb_data_size cb - int n < 0"
    by (rule cb_inv_obtain [OF inv]; use n in \<open>simp add: int32_ok_def\<close>)+
  then show "circ_buffer_advance cb (int n) = Some (cb, -1)"
    "circ_buffer_get cb dst (int n) = Some (cb, dst, -1)"
    by (simp_all add: circ_buffer_advance_def circ_buffer_get_def)
qed

text \<open>\<open>get\<close> is the copy of \<open>peek\<close> followed by the index update of \<open>advance\<close>.\<close>

lemma circ_buffer_peek_ok:
  assumes "cb_inv cb" "n \<le> length (cb_abs cb)" "n \<le> length dst"
  shows "circ_buffer_peek cb dst (int n) = Some (take n (cb_abs cb) @ drop n dst, 0)"
proof -
  have "int32_ok (cb_data_size cb - int n)" "\<not> cb_data_size cb - int n < 0"
    by (rule cb_inv_obtain [OF assms(1)]; use assms(2) in \<open>simp add: int32_ok_def\<close>)+
  then show ?thesis using circ_buffer_copy_out_spec [OF assms] by (simp add: circ_buffer_peek_def)
qed

lemma circ_buffer_get_ok:
  assumes "cb_inv cb" "n \<le> length (cb_abs cb)" "n \<le> length dst"
  shows "\<exists>cb'. circ_buffer_get cb dst (int n) = Some (cb', take n (cb_abs cb) @ drop n dst, 0)
    \<and> cb_inv cb' \<and> cb_abs cb' = drop n (cb_abs cb) \<and> cb_cap cb' = cb_cap cb"
proof -
  obtain cb' where adv: "circ_buffer_advance cb (int n) = Some (cb', 0)" "cb_inv cb'"
      "cb_abs cb' = drop n (cb_abs cb)" "cb_cap cb' = cb_cap cb"
    using circ_buffer_advance_ok [OF assms(1,2)] by blast
  then have "circ_buffer_get cb dst (int n) = Some (cb', take n (cb_abs cb) @ drop n dst, 0)"
    using circ_buffer_copy_out_spec [OF assms]
    by (auto simp: circ_buffer_advance_def circ_buffer_get_def split: if_splits)
  with adv show ?thesis by blast
qed

interpretation cbuf: byte_fifo cb_inv cb_abs cb_cap circ_buffer_put circ_buffer_peek circ_buffer_get
  circ_buffer_advance
  by unfold_locales
    (simp_all add: cb_sizes circ_buffer_put_fits circ_buffer_put_too_big circ_buffer_peek_ok
      circ_buffer_get_ok circ_buffer_short circ_buffer_advance_ok)


section \<open>Properties\<close>

text \<open>
  C10: A freshly initialised buffer to which chunks are put whose total fits gives back, whatever the
  sizes in which they are read and however the indices wrap, exactly the bytes written, in order.
\<close>

theorem circ_buffer_chunked_fifo:
  assumes "0 < length mem" "length mem < 2 ^ 30"
    and "length (concat ws) \<le> length mem" "sum_list ns = length (concat ws)"
  shows "\<exists>cb0 cb1 rs cb2. circ_buffer_init (Some mem) (int (length mem)) = (cb0, 0)
    \<and> write_chunks circ_buffer_put cb0 ws = Some cb1
    \<and> read_chunks circ_buffer_get cb1 ns = Some (rs, cb2)
    \<and> concat rs = concat ws \<and> map length rs = ns \<and> circ_buffer_is_empty cb2"
proof -
  obtain cb0 where cb0: "circ_buffer_init (Some mem) (int (length mem)) = (cb0, 0)" "cb_inv cb0"
      "cb_abs cb0 = []" "cb_cap cb0 = length mem"
    using circ_buffer_init_spec [of mem "int (length mem)"] assms(1,2) by auto
  then obtain cb1 where cb1: "write_chunks circ_buffer_put cb0 ws = Some cb1" "cb_inv cb1"
      "cb_abs cb1 = concat ws"
    using cbuf.write_chunks_spec [of cb0 ws] assms(3) by auto
  then show ?thesis
    using cbuf.read_chunks_spec [of cb1 ns] assms(4) cb0(1) cb_sizes(3) by fastforce
qed

lemma circ_buffer_chunked_fifo_witness:
  "\<exists>cb0 cb1 rs cb2. circ_buffer_init (Some [0, 0, 0, 0, 0]) (int (length [0 :: u8, 0, 0, 0, 0])) = (cb0, 0)
    \<and> write_chunks circ_buffer_put cb0 [[1, 2, 3], [4, 5]] = Some cb1
    \<and> read_chunks circ_buffer_get cb1 [1, 4] = Some (rs, cb2)
    \<and> concat rs = [1, 2, 3, 4, 5] \<and> map length rs = [1, 4] \<and> circ_buffer_is_empty cb2"
  using circ_buffer_chunked_fifo [of "[0, 0, 0, 0, 0]" "[[1, 2, 3], [4, 5]]" "[1, 4]"]
  by (simp del: write_chunks.simps read_chunks.simps)

text \<open>
  On a well-formed buffer a put never leaves the block, overflows or divides by zero. It succeeds
  exactly when the bytes fit in the free space, and then appends them; otherwise it returns -1 and
  changes nothing. The invariant is kept in both cases.
\<close>

theorem circ_buffer_put_total:
  assumes "cb_inv cb" "n \<le> length buf" "n < 2 ^ 30"
  shows "\<exists>cb' r. circ_buffer_put cb buf (int n) = Some (cb', r) \<and> cb_inv cb'
    \<and> (if length (cb_abs cb) + n \<le> cb_cap cb then r = 0 \<and> cb_abs cb' = cb_abs cb @ take n buf
       else r = -1 \<and> cb' = cb)"
  using cbuf.put_fits [OF assms(1) _ assms(2)] cbuf.put_too_big [OF assms(1) _ assms(3)] assms(1)
  by (cases "length (cb_abs cb) + n \<le> cb_cap cb") (fastforce simp: not_le)+

lemma circ_buffer_put_total_witness:
  "\<exists>cb' r. circ_buffer_put \<lparr>cb_buffer = Some [7, 8, 9], cb_size = 3, cb_data_size = 2, cb_begin = 2, cb_end = 1\<rparr>
      [4, 5] (int 1) = Some (cb', r) \<and> cb_inv cb' \<and> r = 0 \<and> cb_abs cb' = [9, 7, 4]"
proof -
  let ?cb = "\<lparr>cb_buffer = Some [7, 8, 9], cb_size = 3, cb_data_size = 2, cb_begin = 2, cb_end = 1\<rparr>"
  have "cb_inv ?cb" "cb_abs ?cb = [9, 7]" "cb_cap ?cb = 3"
    by (simp_all add: cb_inv_def cb_abs_def cb_cap_def numeral_2_eq_2)
  then show ?thesis using circ_buffer_put_total [of ?cb 1 "[4, 5]"] by auto
qed

end
