(* ===== verification/Watcher.thy ===== *)
theory Watcher
  imports Kj_Prelude
begin

text \<open>
  \<open>src/core/watcher.c\<close>: a watcher groups the three libev I/O watchers of one descriptor behind a
  flag byte. libev is seen through what it documents of \<open>ev_io_init\<close>, \<open>ev_io_start\<close> and
  \<open>ev_io_stop\<close>: a watcher is active from its start to its stop. The refinement maps the flag byte and
  the three libev watchers to four switches; an I/O watcher is active exactly when its switch and
  the main switch are on.
\<close>

section \<open>libev's view of an I/O watcher\<close>

datatype ev_kind = EV_READ | EV_WRITE | EV_EXCEPT

record ev_io =
  io_fd :: int
  io_kind :: ev_kind
  io_active :: bool

definition ev_io_init :: "int \<Rightarrow> ev_kind \<Rightarrow> ev_io" where
  "ev_io_init fd k = \<lparr>io_fd = fd, io_kind = k, io_active = False\<rparr>"

definition ev_io_start :: "ev_io \<Rightarrow> ev_io" where
  "ev_io_start io = io\<lparr>io_active := True\<rparr>"

definition ev_io_stop :: "ev_io \<Rightarrow> ev_io" where
  "ev_io_stop io = io\<lparr>io_active := False\<rparr>"

section \<open>State and operations\<close>

datatype watcher_event = watcher_event_rx | watcher_event_tx | watcher_event_error

definition WATCHER_RX_WATCH :: u8 where "WATCHER_RX_WATCH = 0x01"
definition WATCHER_TX_WATCH :: u8 where "WATCHER_TX_WATCH = 0x02"
definition WATCHER_ER_WATCH :: u8 where "WATCHER_ER_WATCH = 0x04"
definition WATCHER_STARTED :: u8 where "WATCHER_STARTED = 0x08"

lemmas watcher_flag_defs = WATCHER_RX_WATCH_def WATCHER_TX_WATCH_def WATCHER_ER_WATCH_def WATCHER_STARTED_def

record watcher =
  w_fd :: int
  w_flags :: u8
  w_rx_io :: ev_io
  w_tx_io :: ev_io
  w_er_io :: ev_io

definition flag_set :: "watcher \<Rightarrow> u8 \<Rightarrow> bool" where
  "flag_set w t \<longleftrightarrow> w_flags w AND t \<noteq> 0"

text \<open>\<open>__get_ev_io\<close> returns a pointer to one of the three members; using its NULL crashes.\<close>

definition with_ev_io :: "watcher \<Rightarrow> u8 \<Rightarrow> (ev_io \<Rightarrow> ev_io) \<Rightarrow> watcher option" where
  "with_ev_io w target f =
     (if target AND WATCHER_RX_WATCH \<noteq> 0 then Some (w\<lparr>w_rx_io := f (w_rx_io w)\<rparr>)
      else if target AND WATCHER_TX_WATCH \<noteq> 0 then Some (w\<lparr>w_tx_io := f (w_tx_io w)\<rparr>)
      else if target AND WATCHER_ER_WATCH \<noteq> 0 then Some (w\<lparr>w_er_io := f (w_er_io w)\<rparr>)
      else None)"

definition watcher_start_target :: "watcher \<Rightarrow> u8 \<Rightarrow> watcher option" where
  "watcher_start_target w target =
     (if flag_set w target then Some w
      else let w = w\<lparr>w_flags := w_flags w OR target\<rparr> in
        if flag_set w WATCHER_STARTED then with_ev_io w target ev_io_start else Some w)"

definition watcher_stop_target :: "watcher \<Rightarrow> u8 \<Rightarrow> watcher option" where
  "watcher_stop_target w target =
     (if \<not> flag_set w target then Some w
      else let w = w\<lparr>w_flags := w_flags w AND NOT target\<rparr> in
        if flag_set w WATCHER_STARTED then with_ev_io w target ev_io_stop else Some w)"

definition watcher_init_with_fd :: "int \<Rightarrow> watcher" where
  "watcher_init_with_fd fd =
     \<lparr>w_fd = fd, w_flags = 0, w_rx_io = ev_io_init fd EV_READ, w_tx_io = ev_io_init fd EV_WRITE,
      w_er_io = ev_io_init fd EV_EXCEPT\<rparr>"

definition watcher_start :: "watcher \<Rightarrow> watcher" where
  "watcher_start w =
     (if flag_set w WATCHER_STARTED then w
      else let
        w = w\<lparr>w_flags := w_flags w OR WATCHER_STARTED\<rparr>;
        w = (if flag_set w WATCHER_RX_WATCH then w\<lparr>w_rx_io := ev_io_start (w_rx_io w)\<rparr> else w);
        w = (if flag_set w WATCHER_TX_WATCH then w\<lparr>w_tx_io := ev_io_start (w_tx_io w)\<rparr> else w)
        in (if flag_set w WATCHER_ER_WATCH then w\<lparr>w_er_io := ev_io_start (w_er_io w)\<rparr> else w))"

definition watcher_stop :: "watcher \<Rightarrow> watcher" where
  "watcher_stop w =
     (if \<not> flag_set w WATCHER_STARTED then w
      else let
        w = w\<lparr>w_flags := w_flags w AND NOT WATCHER_STARTED\<rparr>;
        w = (if flag_set w WATCHER_RX_WATCH then w\<lparr>w_rx_io := ev_io_stop (w_rx_io w)\<rparr> else w);
        w = (if flag_set w WATCHER_TX_WATCH then w\<lparr>w_tx_io := ev_io_stop (w_tx_io w)\<rparr> else w)
        in (if flag_set w WATCHER_ER_WATCH then w\<lparr>w_er_io := ev_io_stop (w_er_io w)\<rparr> else w))"

definition watcher_watch_rx :: "watcher \<Rightarrow> watcher option" where
  "watcher_watch_rx w = watcher_start_target w WATCHER_RX_WATCH"

definition watcher_no_watch_rx :: "watcher \<Rightarrow> watcher option" where
  "watcher_no_watch_rx w = watcher_stop_target w WATCHER_RX_WATCH"

definition watcher_watch_tx :: "watcher \<Rightarrow> watcher option" where
  "watcher_watch_tx w = watcher_start_target w WATCHER_TX_WATCH"

definition watcher_no_watch_tx :: "watcher \<Rightarrow> watcher option" where
  "watcher_no_watch_tx w = watcher_stop_target w WATCHER_TX_WATCH"

definition watcher_watch_err :: "watcher \<Rightarrow> watcher option" where
  "watcher_watch_err w = watcher_start_target w WATCHER_ER_WATCH"

definition watcher_no_watch_err :: "watcher \<Rightarrow> watcher option" where
  "watcher_no_watch_err w = watcher_stop_target w WATCHER_ER_WATCH"

text \<open>The three libev callbacks hand the matching event to the watcher's own callback.\<close>

definition ev_io_rx_callback :: "(watcher_event \<Rightarrow> 'a) \<Rightarrow> 'a" where
  "ev_io_rx_callback cb = cb watcher_event_rx"

definition ev_io_tx_callback :: "(watcher_event \<Rightarrow> 'a) \<Rightarrow> 'a" where
  "ev_io_tx_callback cb = cb watcher_event_tx"

definition ev_io_er_callback :: "(watcher_event \<Rightarrow> 'a) \<Rightarrow> 'a" where
  "ev_io_er_callback cb = cb watcher_event_error"

section \<open>The four switches\<close>

record switches =
  sw_on :: bool
  sw_rx :: bool
  sw_tx :: bool
  sw_er :: bool

definition w_switches :: "watcher \<Rightarrow> switches" where
  "w_switches w = \<lparr>sw_on = flag_set w WATCHER_STARTED, sw_rx = flag_set w WATCHER_RX_WATCH,
     sw_tx = flag_set w WATCHER_TX_WATCH, sw_er = flag_set w WATCHER_ER_WATCH\<rparr>"

definition watcher_inv :: "watcher \<Rightarrow> bool" where
  "watcher_inv w \<longleftrightarrow>
     (io_active (w_rx_io w) \<longleftrightarrow> flag_set w WATCHER_STARTED \<and> flag_set w WATCHER_RX_WATCH)
   \<and> (io_active (w_tx_io w) \<longleftrightarrow> flag_set w WATCHER_STARTED \<and> flag_set w WATCHER_TX_WATCH)
   \<and> (io_active (w_er_io w) \<longleftrightarrow> flag_set w WATCHER_STARTED \<and> flag_set w WATCHER_ER_WATCH)
   \<and> io_fd (w_rx_io w) = w_fd w \<and> io_kind (w_rx_io w) = EV_READ
   \<and> io_fd (w_tx_io w) = w_fd w \<and> io_kind (w_tx_io w) = EV_WRITE
   \<and> io_fd (w_er_io w) = w_fd w \<and> io_kind (w_er_io w) = EV_EXCEPT"

text \<open>A flag test reads one bit of the flag byte; setting and clearing a flag change that bit only.\<close>

lemma and_bit_test: "a AND 2 ^ n \<noteq> 0 \<longleftrightarrow> bit a n" for a :: u8
  by (simp add: and_exp_eq_0_iff_not_bit)

lemma flag_bits:
  "flag_set w WATCHER_RX_WATCH \<longleftrightarrow> bit (w_flags w) 0"
  "flag_set w WATCHER_TX_WATCH \<longleftrightarrow> bit (w_flags w) 1"
  "flag_set w WATCHER_ER_WATCH \<longleftrightarrow> bit (w_flags w) 2"
  "flag_set w WATCHER_STARTED \<longleftrightarrow> bit (w_flags w) 3"
  using and_bit_test [of "w_flags w" 0] and_bit_test [of "w_flags w" 1]
    and_bit_test [of "w_flags w" 2] and_bit_test [of "w_flags w" 3]
  by (simp_all add: flag_set_def watcher_flag_defs)

lemma with_ev_io_targets:
  "with_ev_io w WATCHER_RX_WATCH f = Some (w\<lparr>w_rx_io := f (w_rx_io w)\<rparr>)"
  "with_ev_io w WATCHER_TX_WATCH f = Some (w\<lparr>w_tx_io := f (w_tx_io w)\<rparr>)"
  "with_ev_io w WATCHER_ER_WATCH f = Some (w\<lparr>w_er_io := f (w_er_io w)\<rparr>)"
  by (simp_all add: with_ev_io_def watcher_flag_defs)

lemmas watcher_op_defs = watcher_watch_rx_def watcher_no_watch_rx_def watcher_watch_tx_def
  watcher_no_watch_tx_def watcher_watch_err_def watcher_no_watch_err_def

lemma flag_bit_consts:
  "bit WATCHER_RX_WATCH n \<longleftrightarrow> n = 0" "bit WATCHER_TX_WATCH n \<longleftrightarrow> n = 1"
  "bit WATCHER_ER_WATCH n \<longleftrightarrow> n = 2" "bit WATCHER_STARTED n \<longleftrightarrow> n = 3"
  using bit_exp_iff [where ?'a = u8, of 0 n] bit_exp_iff [where ?'a = u8, of 1 n]
    bit_exp_iff [where ?'a = u8, of 2 n] bit_exp_iff [where ?'a = u8, of 3 n]
  by (auto simp: watcher_flag_defs possible_bit_def)

lemmas watcher_simps = flag_bits flag_bit_consts bit_or_iff bit_and_iff bit_not_iff possible_bit_def
  with_ev_io_targets ev_io_start_def ev_io_stop_def

section \<open>Refinement\<close>

datatype watcher_cmd = Start | Stop | Watch_rx | No_watch_rx | Watch_tx | No_watch_tx | Watch_err | No_watch_err

fun watcher_run :: "watcher \<Rightarrow> watcher_cmd \<Rightarrow> watcher option" where
  "watcher_run w Start = Some (watcher_start w)"
| "watcher_run w Stop = Some (watcher_stop w)"
| "watcher_run w Watch_rx = watcher_watch_rx w"
| "watcher_run w No_watch_rx = watcher_no_watch_rx w"
| "watcher_run w Watch_tx = watcher_watch_tx w"
| "watcher_run w No_watch_tx = watcher_no_watch_tx w"
| "watcher_run w Watch_err = watcher_watch_err w"
| "watcher_run w No_watch_err = watcher_no_watch_err w"

fun switch_run :: "switches \<Rightarrow> watcher_cmd \<Rightarrow> switches" where
  "switch_run s Start = s\<lparr>sw_on := True\<rparr>"
| "switch_run s Stop = s\<lparr>sw_on := False\<rparr>"
| "switch_run s Watch_rx = s\<lparr>sw_rx := True\<rparr>"
| "switch_run s No_watch_rx = s\<lparr>sw_rx := False\<rparr>"
| "switch_run s Watch_tx = s\<lparr>sw_tx := True\<rparr>"
| "switch_run s No_watch_tx = s\<lparr>sw_tx := False\<rparr>"
| "switch_run s Watch_err = s\<lparr>sw_er := True\<rparr>"
| "switch_run s No_watch_err = s\<lparr>sw_er := False\<rparr>"

lemma watcher_init_spec:
  "watcher_inv (watcher_init_with_fd fd)
   \<and> w_switches (watcher_init_with_fd fd) = \<lparr>sw_on = False, sw_rx = False, sw_tx = False, sw_er = False\<rparr>"
  by (simp add: watcher_inv_def watcher_init_with_fd_def w_switches_def flag_bits ev_io_init_def)

lemma watcher_start_spec:
  assumes "watcher_inv w"
  shows "watcher_inv (watcher_start w) \<and> w_switches (watcher_start w) = (w_switches w)\<lparr>sw_on := True\<rparr>
    \<and> w_fd (watcher_start w) = w_fd w"
  using assms unfolding watcher_start_def watcher_inv_def w_switches_def Let_def
  by (cases "bit (w_flags w) 0"; cases "bit (w_flags w) 1"; cases "bit (w_flags w) 2") (simp_all add: watcher_simps)

lemma watcher_stop_spec:
  assumes "watcher_inv w"
  shows "watcher_inv (watcher_stop w) \<and> w_switches (watcher_stop w) = (w_switches w)\<lparr>sw_on := False\<rparr>
    \<and> w_fd (watcher_stop w) = w_fd w"
  using assms unfolding watcher_stop_def watcher_inv_def w_switches_def Let_def
  by (cases "bit (w_flags w) 0"; cases "bit (w_flags w) 1"; cases "bit (w_flags w) 2") (simp_all add: watcher_simps)

text \<open>The six single-target operations.\<close>

lemma watcher_start_target_spec:
  assumes "watcher_inv w"
  shows "\<exists>w'. watcher_watch_rx w = Some w' \<and> watcher_inv w' \<and> w_switches w' = (w_switches w)\<lparr>sw_rx := True\<rparr> \<and> w_fd w' = w_fd w"
    "\<exists>w'. watcher_watch_tx w = Some w' \<and> watcher_inv w' \<and> w_switches w' = (w_switches w)\<lparr>sw_tx := True\<rparr> \<and> w_fd w' = w_fd w"
    "\<exists>w'. watcher_watch_err w = Some w' \<and> watcher_inv w' \<and> w_switches w' = (w_switches w)\<lparr>sw_er := True\<rparr> \<and> w_fd w' = w_fd w"
  using assms unfolding watcher_op_defs watcher_start_target_def watcher_inv_def w_switches_def Let_def
  by (simp_all add: watcher_simps)

lemma watcher_stop_target_spec:
  assumes "watcher_inv w"
  shows "\<exists>w'. watcher_no_watch_rx w = Some w' \<and> watcher_inv w' \<and> w_switches w' = (w_switches w)\<lparr>sw_rx := False\<rparr> \<and> w_fd w' = w_fd w"
    "\<exists>w'. watcher_no_watch_tx w = Some w' \<and> watcher_inv w' \<and> w_switches w' = (w_switches w)\<lparr>sw_tx := False\<rparr> \<and> w_fd w' = w_fd w"
    "\<exists>w'. watcher_no_watch_err w = Some w' \<and> watcher_inv w' \<and> w_switches w' = (w_switches w)\<lparr>sw_er := False\<rparr> \<and> w_fd w' = w_fd w"
  using assms unfolding watcher_op_defs watcher_stop_target_def watcher_inv_def w_switches_def Let_def
  by (simp_all add: watcher_simps)

lemma watcher_run_spec:
  assumes "watcher_inv w"
  shows "\<exists>w'. watcher_run w c = Some w' \<and> watcher_inv w' \<and> w_switches w' = switch_run (w_switches w) c
    \<and> w_fd w' = w_fd w"
  using assms watcher_start_spec watcher_stop_spec watcher_start_target_spec watcher_stop_target_spec
  by (cases c) simp_all

lemma watcher_runs_spec:
  assumes "watcher_inv w"
  shows "\<exists>w'. foldo watcher_run w cs = Some w' \<and> watcher_inv w' \<and> w_switches w' = foldl switch_run (w_switches w) cs"
  using assms
proof (induction cs arbitrary: w)
  case (Cons c cs)
  then show ?case using watcher_run_spec [of w c] by fastforce
qed simp

section \<open>Properties\<close>

text \<open>
  After any sequence of start, stop, watch and no-watch calls on an initialised watcher, each of
  the three libev watchers is active exactly when the watcher is started and that event is watched,
  where both are what the last call concerning them said.
\<close>

theorem watcher_activity_follows_switches:
  "\<exists>w. foldo watcher_run (watcher_init_with_fd fd) cs = Some w
    \<and> (let s = foldl switch_run \<lparr>sw_on = False, sw_rx = False, sw_tx = False, sw_er = False\<rparr> cs in
       w_rx_io w = \<lparr>io_fd = w_fd w, io_kind = EV_READ, io_active = (sw_on s \<and> sw_rx s)\<rparr>
       \<and> w_tx_io w = \<lparr>io_fd = w_fd w, io_kind = EV_WRITE, io_active = (sw_on s \<and> sw_tx s)\<rparr>
       \<and> w_er_io w = \<lparr>io_fd = w_fd w, io_kind = EV_EXCEPT, io_active = (sw_on s \<and> sw_er s)\<rparr>)"
proof -
  obtain w where w: "foldo watcher_run (watcher_init_with_fd fd) cs = Some w" "watcher_inv w"
      "w_switches w = foldl switch_run \<lparr>sw_on = False, sw_rx = False, sw_tx = False, sw_er = False\<rparr> cs"
    using watcher_runs_spec watcher_init_spec by metis
  have shape: "io = \<lparr>io_fd = io_fd io, io_kind = io_kind io, io_active = io_active io\<rparr>" for io by simp
  show ?thesis
    using w(1) shape [of "w_rx_io w"] shape [of "w_tx_io w"] shape [of "w_er_io w"] w(2)
    unfolding w(3) [symmetric] by (auto simp: watcher_inv_def w_switches_def Let_def)
qed

end
