(* ===== verification/Stream.thy ===== *)
theory Stream
  imports Circ_Buffer Watcher "HOL-Library.Sublist"
begin

text \<open>
  \<open>src/stream/stream.c\<close>: a byte stream over a nonblocking descriptor, with a ring buffer for what
  the kernel would not take. \<open>write\<close> and \<open>read\<close> are represented by what the kernel does with one
  call; \<open>st_wire\<close> records the bytes it has accepted, in order. The ring buffer is used through
  \<open>byte_fifo\<close> and the watcher through its four switches.
\<close>

section \<open>System calls\<close>

text \<open>
  One \<open>write\<close>: the kernel has room for some bytes and takes as many of the given ones, or would
  block, or fails. The result is the return value, whether \<open>errno\<close> says to try again, and the bytes
  taken. One \<open>read\<close>: some bytes, end of file, or an error.
\<close>

datatype kernel_write = Room nat | Block | Fail

fun sys_write :: "kernel_write \<Rightarrow> u8 list \<Rightarrow> int \<times> bool \<times> u8 list" where
  "sys_write (Room n) data = (int (min n (length data)), False, take n data)"
| "sys_write Block data = (-1, True, [])"
| "sys_write Fail data = (-1, False, [])"

datatype kernel_read = Read_data "u8 list" | Read_eof | Read_error

fun sys_read_ret :: "kernel_read \<Rightarrow> int \<times> u8 list" where
  "sys_read_ret (Read_data d) = (int (length d), d)"
| "sys_read_ret Read_eof = (0, [])"
| "sys_read_ret Read_error = (-1, [])"

section \<open>State and operations\<close>

datatype stream_event = stream_event_rx | stream_event_eof | stream_event_err | stream_event_tx

record 'u stream =
  st_watcher :: watcher
  st_rx_buf :: "u8 list"
  st_rx_buf_size :: int
  st_rx_data_len :: int
  st_tx_buf :: circ_buffer
  st_wire :: "u8 list"
  st_open :: bool
  st_env :: 'u

type_synonym 'u stream_callback = "'u stream \<Rightarrow> stream_event \<Rightarrow> 'u stream option"

definition stream_stop :: "'u stream \<Rightarrow> 'u stream" where
  "stream_stop s = s\<lparr>st_watcher := watcher_stop (st_watcher s)\<rparr>"

definition stream_start :: "'u stream \<Rightarrow> 'u stream" where
  "stream_start s = s\<lparr>st_watcher := watcher_start (st_watcher s)\<rparr>"

definition stream_no_watch_tx :: "'u stream \<Rightarrow> 'u stream option" where
  "stream_no_watch_tx s = do {
     w \<leftarrow> watcher_no_watch_tx (st_watcher s); Some (s\<lparr>st_watcher := w\<rparr>) }"

text \<open>A write that returns 0 or an error runs into \<open>CRASH()\<close>.\<close>

definition stream_handle_tx_event :: "kernel_write \<Rightarrow> 'u stream \<Rightarrow> 'u stream option" where
  "stream_handle_tx_event k s =
     (if circ_buffer_is_empty (st_tx_buf s) then stream_no_watch_tx s
      else do {
        let data_size = circ_buffer_get_data_size (st_tx_buf s);
        let len = (if data_size < 128 then data_size else 128);
        (buffer, _) \<leftarrow> circ_buffer_peek (st_tx_buf s) (replicate 128 0) len;
        n \<leftarrow> c_nat len;
        let (ret, _, taken) = sys_write k (take n buffer);
        if ret \<le> 0 then None
        else do {
          (tx, _) \<leftarrow> circ_buffer_advance (st_tx_buf s) ret;
          let s = s\<lparr>st_tx_buf := tx, st_wire := st_wire s @ taken\<rparr>;
          if circ_buffer_is_empty tx then stream_no_watch_tx s else Some s } })"

definition stream_watcher_callback ::
    "'u stream_callback \<Rightarrow> kernel_read \<Rightarrow> kernel_write \<Rightarrow> 'u stream \<Rightarrow> watcher_event \<Rightarrow> 'u stream option" where
  "stream_watcher_callback cb r k s evt =
     (case evt of
        watcher_event_rx \<Rightarrow> do {
          let (ret, bytes) = sys_read_ret r;
          buf \<leftarrow> c_memcpy (st_rx_buf s) 0 bytes 0 (int (length bytes));
          let s = s\<lparr>st_rx_buf := buf\<rparr>;
          if ret > 0 then cb (s\<lparr>st_rx_data_len := ret\<rparr>) stream_event_rx
          else if ret = 0 then cb s stream_event_eof
          else cb s stream_event_err }
      | watcher_event_tx \<Rightarrow> stream_handle_tx_event k s
      | watcher_event_error \<Rightarrow> cb s stream_event_err)"

text \<open>The result of \<open>circ_buffer_init\<close> is ignored; \<open>block\<close> is what \<open>malloc\<close> returned.\<close>

definition stream_init_with_fd ::
    "u8 list option \<Rightarrow> 'u stream \<Rightarrow> int \<Rightarrow> u8 list \<Rightarrow> int \<Rightarrow> int \<Rightarrow> 'u stream option" where
  "stream_init_with_fd block s fd rx_buf rx_buf_size tx_buf_size = do {
     let (tx, _) = circ_buffer_init block tx_buf_size;
     w \<leftarrow> watcher_watch_rx (watcher_init_with_fd fd);
     w \<leftarrow> watcher_watch_err w;
     Some (s\<lparr>st_tx_buf := tx, st_rx_buf := rx_buf, st_rx_buf_size := rx_buf_size,
       st_watcher := w, st_open := True\<rparr>) }"

definition stream_deinit :: "'u stream \<Rightarrow> 'u stream" where
  "stream_deinit s =
     (stream_stop (s\<lparr>st_tx_buf := circ_buffer_deinit (st_tx_buf s)\<rparr>))\<lparr>st_open := False\<rparr>"

text \<open>
  \<open>circ_buffer_put\<close> returns 0 when it succeeds; \<open>stream_write\<close> compares that result with
  \<open>false\<close>, which is 0.
\<close>

definition stream_write :: "kernel_write \<Rightarrow> 'u stream \<Rightarrow> u8 list \<Rightarrow> int \<Rightarrow> ('u stream \<times> bool) option" where
  "stream_write k s data len =
     (if \<not> circ_buffer_is_empty (st_tx_buf s) then do {
        (tx, r) \<leftarrow> circ_buffer_put (st_tx_buf s) data len;
        Some (s\<lparr>st_tx_buf := tx\<rparr>, r = 0) }
      else do {
        n \<leftarrow> c_nat len;
        let (ret, again, taken) = sys_write k (take n data);
        let s = s\<lparr>st_wire := st_wire s @ taken\<rparr>;
        if ret = len then Some (s, True)
        else if ret < 0 \<and> \<not> again then Some (s, False)
        else do {
          let ret = (if ret < 0 then 0 else ret);
          (tx, r) \<leftarrow> circ_buffer_put (st_tx_buf s) (drop (nat ret) data) (len - ret);
          let s = s\<lparr>st_tx_buf := tx\<rparr>;
          if r = 0 then Some (s, False)
          else do {
            w \<leftarrow> watcher_watch_tx (st_watcher s);
            Some (s\<lparr>st_watcher := w\<rparr>, True) } } })"

section \<open>Invariant\<close>

definition stream_inv :: "'u stream \<Rightarrow> bool" where
  "stream_inv s \<longleftrightarrow> watcher_inv (st_watcher s) \<and> cb_inv (st_tx_buf s)"

definition st_queue :: "'u stream \<Rightarrow> u8 list" where
  "st_queue s = cb_abs (st_tx_buf s)"

definition tx_watched :: "'u stream \<Rightarrow> bool" where
  "tx_watched s = sw_tx (w_switches (st_watcher s))"

lemma stream_empty: "stream_inv s \<Longrightarrow> circ_buffer_is_empty (st_tx_buf s) \<longleftrightarrow> st_queue s = []"
  by (simp add: stream_inv_def st_queue_def cb_sizes)

lemma stream_no_watch_tx_spec:
  assumes "stream_inv s"
  shows "\<exists>s'. stream_no_watch_tx s = Some s' \<and> stream_inv s' \<and> st_queue s' = st_queue s
    \<and> st_wire s' = st_wire s \<and> \<not> tx_watched s' \<and> cb_cap (st_tx_buf s') = cb_cap (st_tx_buf s)"
proof -
  obtain w where "watcher_no_watch_tx (st_watcher s) = Some w" "watcher_inv w"
      "w_switches w = (w_switches (st_watcher s))\<lparr>sw_tx := False\<rparr>"
    using watcher_stop_target_spec(2) assms by (auto simp: stream_inv_def)
  then show ?thesis using assms
    by (auto simp: stream_no_watch_tx_def stream_inv_def st_queue_def tx_watched_def)
qed

lemma stream_init_spec:
  assumes "0 < length mem" "length mem < 2 ^ 30"
  shows "\<exists>s'. stream_init_with_fd (Some mem) s fd rx n (int (length mem)) = Some s' \<and> stream_inv s'
    \<and> st_queue s' = [] \<and> \<not> tx_watched s' \<and> cb_cap (st_tx_buf s') = length mem \<and> st_wire s' = st_wire s"
proof -
  obtain cb where cb: "circ_buffer_init (Some mem) (int (length mem)) = (cb, 0)" "cb_inv cb" "cb_abs cb = []"
      "cb_cap cb = length mem"
    using circ_buffer_init_spec [of mem "int (length mem)"] assms by auto
  obtain w1 where w1: "watcher_watch_rx (watcher_init_with_fd fd) = Some w1" "watcher_inv w1"
      "w_switches w1 = (w_switches (watcher_init_with_fd fd))\<lparr>sw_rx := True\<rparr>"
    using watcher_start_target_spec(1) watcher_init_spec by blast
  obtain w2 where w2: "watcher_watch_err w1 = Some w2" "watcher_inv w2"
      "w_switches w2 = (w_switches w1)\<lparr>sw_er := True\<rparr>"
    using watcher_start_target_spec(3) w1(2) by blast
  show ?thesis
    using cb w1 w2 watcher_init_spec [of fd]
    by (simp add: stream_init_with_fd_def stream_inv_def st_queue_def tx_watched_def)
qed

section \<open>Transmit events\<close>

lemma stream_tx_event_spec:
  assumes inv: "stream_inv s" and q: "st_queue s \<noteq> []" and k: "k = Room (Suc m)"
  defines "n \<equiv> min (Suc m) (min 128 (length (st_queue s)))"
  shows "\<exists>s'. stream_handle_tx_event k s = Some s' \<and> stream_inv s'
    \<and> st_queue s' = drop n (st_queue s) \<and> st_wire s' = st_wire s @ take n (st_queue s)
    \<and> (st_queue s' = [] \<longrightarrow> \<not> tx_watched s') \<and> (st_queue s' \<noteq> [] \<longrightarrow> tx_watched s' = tx_watched s)
    \<and> cb_cap (st_tx_buf s') = cb_cap (st_tx_buf s)"
proof -
  let ?q = "st_queue s" and ?tx = "st_tx_buf s"
  let ?len = "min 128 (length ?q)"
  have ci: "cb_inv ?tx" using inv by (simp add: stream_inv_def)
  have len: "(if circ_buffer_get_data_size ?tx < 128 then circ_buffer_get_data_size ?tx else 128) = int ?len"
    using cb_sizes(1) [OF ci] by (auto simp: st_queue_def)
  have peek: "circ_buffer_peek ?tx (replicate 128 0) (int ?len)
      = Some (take ?len ?q @ drop ?len (replicate 128 0), 0)"
    using cbuf.peek_ok [OF ci, of ?len "replicate 128 0"] by (simp add: st_queue_def)
  have sys: "sys_write k (take ?len (take ?len ?q @ drop ?len (replicate 128 0))) = (int n, False, take n ?q)"
    using k by (simp add: n_def min.assoc)
  have n: "0 < n" "n \<le> length ?q" using q by (auto simp: n_def)
  obtain tx where tx: "circ_buffer_advance ?tx (int n) = Some (tx, 0)" "cb_inv tx" "cb_abs tx = drop n ?q"
      "cb_cap tx = cb_cap ?tx"
    using cbuf.advance_ok [OF ci] n(2) by (auto simp: st_queue_def)
  define s1 where "s1 = s\<lparr>st_tx_buf := tx, st_wire := st_wire s @ take n ?q\<rparr>"
  have s1: "stream_inv s1" "st_queue s1 = drop n ?q" "tx_watched s1 = tx_watched s"
    using inv tx by (simp_all add: stream_inv_def s1_def st_queue_def tx_watched_def)
  have "stream_handle_tx_event k s = (if st_queue s1 = [] then stream_no_watch_tx s1 else Some s1)"
    using q n(1) stream_empty [OF inv] len peek sys tx cb_sizes(3) [OF tx(2)]
    by (simp add: stream_handle_tx_event_def Let_def s1_def st_queue_def del: bind_option_Some_iff)
  then show ?thesis
    using stream_no_watch_tx_spec [OF s1(1)] s1 tx(4) by (auto simp: s1_def st_queue_def)
qed

lemma stream_tx_event_idle:
  assumes "stream_inv s" "st_queue s = []"
  shows "stream_handle_tx_event k s = stream_no_watch_tx s"
  using assms by (simp add: stream_empty stream_handle_tx_event_def)

lemma stream_tx_event_crash:
  assumes inv: "stream_inv s" and "st_queue s \<noteq> []" "k = Block \<or> k = Fail \<or> k = Room 0"
  shows "stream_handle_tx_event k s = None"
proof -
  let ?q = "st_queue s" and ?tx = "st_tx_buf s"
  let ?len = "min 128 (length ?q)"
  have ci: "cb_inv ?tx" using inv by (simp add: stream_inv_def)
  have len: "(if circ_buffer_get_data_size ?tx < 128 then circ_buffer_get_data_size ?tx else 128) = int ?len"
    using cb_sizes(1) [OF ci] by (auto simp: st_queue_def)
  have "circ_buffer_peek ?tx (replicate 128 0) (int ?len)
      = Some (take ?len ?q @ drop ?len (replicate 128 0), 0)"
    using cbuf.peek_ok [OF ci, of ?len "replicate 128 0"] by (simp add: st_queue_def)
  with len show ?thesis
    using assms stream_empty [OF inv]
    by (auto simp: stream_handle_tx_event_def Let_def simp del: bind_option_Some_iff)
qed

section \<open>Writes\<close>

text \<open>The part of a write the stream takes over: sent at once, or put on the queue.\<close>

definition stream_takes :: "kernel_write \<Rightarrow> 'u stream \<Rightarrow> u8 list \<Rightarrow> u8 list" where
  "stream_takes k s data =
     (let room = cb_cap (st_tx_buf s) - length (st_queue s); sent = (case k of Room n \<Rightarrow> n | _ \<Rightarrow> 0) in
      if st_queue s \<noteq> [] then (if length data \<le> room then data else [])
      else if k = Fail then []
      else if length data - sent \<le> room then data else take sent data)"

lemma stream_takes_prefix: "prefix (stream_takes k s data) data"
  by (auto simp: stream_takes_def Let_def take_is_prefix)

lemma stream_write_queued:
  assumes inv: "stream_inv s" and q: "st_queue s \<noteq> []" and len: "length data < 2 ^ 30"
  shows "\<exists>s'. stream_write k s data (int (length data))
      = Some (s', length (st_queue s) + length data \<le> cb_cap (st_tx_buf s))
    \<and> stream_inv s' \<and> st_wire s' = st_wire s \<and> st_watcher s' = st_watcher s
    \<and> st_queue s' = st_queue s @ stream_takes k s data \<and> cb_cap (st_tx_buf s') = cb_cap (st_tx_buf s)"
proof -
  have ci: "cb_inv (st_tx_buf s)" using inv by (simp add: stream_inv_def)
  show ?thesis
  proof (cases "length (st_queue s) + length data \<le> cb_cap (st_tx_buf s)")
    case True
    then show ?thesis
      using cbuf.put_fits [OF ci, of "length data" data] q stream_empty [OF inv] inv
      by (auto simp: stream_write_def st_queue_def stream_inv_def stream_takes_def)
  next
    case False
    then show ?thesis
      using cbuf.put_too_big [OF ci, of "length data" data] cb_sizes(5) [OF ci] q stream_empty [OF inv] inv len
      by (auto simp: stream_write_def st_queue_def stream_inv_def stream_takes_def)
  qed
qed

lemma stream_write_sent:
  assumes "stream_inv s" "st_queue s = []" "length data \<le> n"
  shows "stream_write (Room n) s data (int (length data)) = Some (s\<lparr>st_wire := st_wire s @ data\<rparr>, True)"
  using assms by (simp add: stream_empty stream_write_def)

lemma stream_write_failed:
  assumes "stream_inv s" "st_queue s = []"
  shows "stream_write Fail s data (int (length data)) = Some (s, False)"
  using assms by (simp add: stream_empty stream_write_def)

text \<open>A short write whose rest fits: the rest is queued, the call returns false.\<close>

lemma stream_write_short_fits:
  assumes inv: "stream_inv s" and q: "st_queue s = []" and k: "k = Block \<and> n = 0 \<or> k = Room n"
    and n: "n < length data" "length data - n \<le> cb_cap (st_tx_buf s)"
  shows "\<exists>s'. stream_write k s data (int (length data)) = Some (s', False) \<and> stream_inv s'
    \<and> st_wire s' = st_wire s @ take n data \<and> st_watcher s' = st_watcher s
    \<and> st_queue s' = drop n data \<and> cb_cap (st_tx_buf s') = cb_cap (st_tx_buf s)"
proof -
  have ci: "cb_inv (st_tx_buf s)" using inv by (simp add: stream_inv_def)
  obtain tx where tx: "circ_buffer_put (st_tx_buf s) (drop n data) (int (length data - n)) = Some (tx, 0)"
      "cb_inv tx" "cb_abs tx = drop n data" "cb_cap tx = cb_cap (st_tx_buf s)"
    using cbuf.put_fits [OF ci, of "length data - n" "drop n data"] n q by (auto simp: st_queue_def)
  then show ?thesis
    using k n(1) q stream_empty [OF inv] inv
    by (auto simp: stream_write_def Let_def st_queue_def stream_inv_def of_nat_diff)
qed

text \<open>A short write whose rest does not fit: the rest is dropped, the call returns true.\<close>

lemma stream_write_short_overflow:
  assumes inv: "stream_inv s" and q: "st_queue s = []" and k: "k = Block \<and> n = 0 \<or> k = Room n"
    and n: "n < length data" "cb_cap (st_tx_buf s) < length data - n" "length data < 2 ^ 30"
  shows "\<exists>s'. stream_write k s data (int (length data)) = Some (s', True) \<and> stream_inv s'
    \<and> st_wire s' = st_wire s @ take n data \<and> tx_watched s'
    \<and> st_queue s' = [] \<and> cb_cap (st_tx_buf s') = cb_cap (st_tx_buf s)"
proof -
  have ci: "cb_inv (st_tx_buf s)" using inv by (simp add: stream_inv_def)
  have put: "circ_buffer_put (st_tx_buf s) (drop n data) (int (length data - n)) = Some (st_tx_buf s, -1)"
    using cbuf.put_too_big [OF ci, of "length data - n" "drop n data"] n q by (simp add: st_queue_def)
  obtain w where "watcher_watch_tx (st_watcher s) = Some w" "watcher_inv w"
      "w_switches w = (w_switches (st_watcher s))\<lparr>sw_tx := True\<rparr>"
    using watcher_start_target_spec(2) inv by (auto simp: stream_inv_def)
  then show ?thesis
    using put k n(1) q stream_empty [OF inv] inv
    by (auto simp: stream_write_def Let_def st_queue_def stream_inv_def of_nat_diff tx_watched_def)
qed

lemma stream_write_spec:
  assumes inv: "stream_inv s" and len: "length data < 2 ^ 30"
  shows "\<exists>s' ok. stream_write k s data (int (length data)) = Some (s', ok) \<and> stream_inv s'
    \<and> st_wire s' @ st_queue s' = st_wire s @ st_queue s @ stream_takes k s data
    \<and> cb_cap (st_tx_buf s') = cb_cap (st_tx_buf s)"
proof (cases "st_queue s = []")
  case False
  then show ?thesis using stream_write_queued [OF inv False len, of k] by auto
next
  case q: True
  have short: ?thesis if "k = Block \<and> n = 0 \<or> k = Room n" "n < length data" for n
  proof (cases "length data - n \<le> cb_cap (st_tx_buf s)")
    case True
    with stream_write_short_fits [OF inv q that True] that q show ?thesis
      by (auto simp: stream_takes_def)
  next
    case False
    then have "cb_cap (st_tx_buf s) < length data - n" by simp
    with stream_write_short_overflow [OF inv q that this len] that q show ?thesis
      by (auto simp: stream_takes_def)
  qed
  show ?thesis
  proof (cases k)
    case (Room n)
    then show ?thesis
      using short [of n] stream_write_sent [OF inv q, of data n] q inv
      by (cases "n < length data") (auto simp: stream_takes_def stream_inv_def st_queue_def not_less)
  next
    case Block
    show ?thesis
    proof (cases "data = []")
      case True
      then show ?thesis
        using Block inv q stream_empty [OF inv] cbuf.put_fits [of "st_tx_buf s" 0 "[]"]
        by (auto simp: stream_write_def stream_inv_def st_queue_def stream_takes_def c_nat_def)
    next
      case False
      then show ?thesis using short [of 0] Block by auto
    qed
  next
    case Fail
    then show ?thesis using stream_write_failed [OF inv q] inv q
      by (auto simp: stream_takes_def stream_inv_def)
  qed
qed


text \<open>Only the first \<open>len\<close> bytes of the caller's buffer matter.\<close>

lemma c_memcpy_take:
  assumes "s + n \<le> int m" "m \<le> length src"
  shows "c_memcpy dst d (take m src) s n = c_memcpy dst d src s n"
proof (cases "0 \<le> s \<and> 0 \<le> n")
  case True
  then have "nat s + nat n \<le> m" using assms(1) by linarith
  then have "mem_slice (take m src) (nat s) (nat n) = mem_slice src (nat s) (nat n)"
    using assms(2) by (simp add: mem_slice_def drop_take min_def)
  then show ?thesis using True by (simp add: c_memcpy_def c_nat_def)
next
  case False
  then show ?thesis by (auto simp: c_memcpy_def c_nat_def simp del: bind_option_Some_iff split: bind_splits)
qed

lemma circ_buffer_put_take:
  "n \<le> length buf \<Longrightarrow> circ_buffer_put cb (take n buf) (int n) = circ_buffer_put cb buf (int n)"
  by (auto simp: circ_buffer_put_def circ_buffer_copy_in_def c_memcpy_take c_int_def
      intro!: Option.bind_cong simp del: bind_option_Some_iff)

lemma stream_write_take:
  assumes "n \<le> length buf"
  shows "stream_write k s (take n buf) (int n) = stream_write k s buf (int n)"
proof -
  have "circ_buffer_put cb (drop r (take n buf)) (int n - int r) = circ_buffer_put cb (drop r buf) (int n - int r)"
    if "r < n" for cb r
    using circ_buffer_put_take [of "n - r" "drop r buf" cb] that assms
    by (simp add: drop_take of_nat_diff)
  then show ?thesis
    using circ_buffer_put_take [OF assms] assms
    by (cases k) (auto simp: stream_write_def Let_def min_def not_le simp del: bind_option_Some_iff)
qed

lemma stream_write_frame:
  "stream_write k s data n = Some (s', ok) \<Longrightarrow>
     st_env s' = st_env s \<and> st_rx_buf s' = st_rx_buf s \<and> st_rx_data_len s' = st_rx_data_len s \<and> st_open s' = st_open s"
  by (auto simp: stream_write_def Let_def simp del: bind_option_Some_iff
      split: if_split_asm prod.split_asm Option.bind_split_asm)

section \<open>Runs of a stream\<close>

datatype stream_input = App_write "u8 list" kernel_write | Tx_ready kernel_write

fun stream_step :: "'u stream \<Rightarrow> stream_input \<Rightarrow> 'u stream option" where
  "stream_step s (App_write data k) = do { (s', _) \<leftarrow> stream_write k s data (int (length data)); Some s' }"
| "stream_step s (Tx_ready k) = stream_handle_tx_event k s"

fun writes_of :: "stream_input list \<Rightarrow> u8 list list" where
  "writes_of [] = []"
| "writes_of (App_write data k # is) = data # writes_of is"
| "writes_of (Tx_ready k # is) = writes_of is"

lemma stream_tx_step:
  assumes inv: "stream_inv s" and step: "stream_handle_tx_event k s = Some s'"
  shows "stream_inv s' \<and> st_wire s' @ st_queue s' = st_wire s @ st_queue s"
proof (cases "st_queue s = []")
  case True
  with stream_no_watch_tx_spec [OF inv] step stream_tx_event_idle [OF inv] show ?thesis by auto
next
  case False
  have "\<not> (k = Block \<or> k = Fail \<or> k = Room 0)"
    using stream_tx_event_crash [OF inv False, of k] step by force
  then obtain n where "k = Room n" "n \<noteq> 0" by (cases k) auto
  then obtain m where "k = Room (Suc m)" by (cases n) auto
  from stream_tx_event_spec [OF inv False this] step show ?thesis by auto
qed

lemma stream_run_bytes:
  assumes "stream_inv s" "\<forall>d \<in> set (writes_of is). length d < 2 ^ 30" "foldo stream_step s is = Some s'"
  shows "stream_inv s' \<and> (\<exists>ps. list_all2 prefix ps (writes_of is)
    \<and> st_wire s' @ st_queue s' = st_wire s @ st_queue s @ concat ps)"
  using assms
proof (induction "is" arbitrary: s)
  case Nil
  then show ?case by auto
next
  case (Cons i "is")
  obtain s1 where s1: "stream_step s i = Some s1" "foldo stream_step s1 is = Some s'"
    using Cons.prems(3) by auto
  show ?case
  proof (cases i)
    case (App_write data k)
    then have w: "stream_inv s1" "st_wire s1 @ st_queue s1 = st_wire s @ st_queue s @ stream_takes k s data"
      using stream_write_spec [OF Cons.prems(1), of data k] Cons.prems(2) s1(1) by auto
    then obtain ps where "stream_inv s'" "list_all2 prefix ps (writes_of is)"
        "st_wire s' @ st_queue s' = st_wire s1 @ st_queue s1 @ concat ps"
      using Cons.IH [OF w(1) _ s1(2)] Cons.prems(2) App_write by auto
    with w(2) App_write stream_takes_prefix [of k s data] show ?thesis
      by (intro conjI exI [of _ "stream_takes k s data # ps"]) (auto simp flip: append_assoc)
  next
    case (Tx_ready k)
    then have "stream_inv s1" "st_wire s1 @ st_queue s1 = st_wire s @ st_queue s"
      using stream_tx_step [OF Cons.prems(1)] s1(1) by auto
    then show ?thesis using Cons.IH [of s1] s1(2) Cons.prems(2) Tx_ready by (simp flip: append_assoc) 
  qed
qed

lemma stream_drain:
  assumes "stream_inv s" "length (st_queue s) \<le> length ms" "\<not> (st_queue s = [] \<and> tx_watched s)"
  shows "\<exists>s'. foldo (\<lambda>s m. stream_handle_tx_event (Room (Suc m)) s) s ms = Some s'
    \<and> stream_inv s' \<and> st_queue s' = [] \<and> st_wire s' = st_wire s @ st_queue s \<and> \<not> tx_watched s'"
  using assms
proof (induction ms arbitrary: s)
  case Nil
  then show ?case by auto
next
  case (Cons m ms)
  show ?case
  proof (cases "st_queue s = []")
    case True
    obtain s1 where "stream_handle_tx_event (Room (Suc m)) s = Some s1" "stream_inv s1" "st_queue s1 = []"
        "st_wire s1 = st_wire s" "\<not> tx_watched s1"
      using stream_no_watch_tx_spec [OF Cons.prems(1)] True stream_tx_event_idle [OF Cons.prems(1) True]
      by (metis (no_types, lifting))
    with Cons.IH [of s1] True show ?thesis by auto
  next
    case False
    define n where "n = min (Suc m) (min 128 (length (st_queue s)))"
    obtain s1 where s1: "stream_handle_tx_event (Room (Suc m)) s = Some s1" "stream_inv s1"
        "st_queue s1 = drop n (st_queue s)" "st_wire s1 = st_wire s @ take n (st_queue s)"
        "st_queue s1 = [] \<longrightarrow> \<not> tx_watched s1"
      using stream_tx_event_spec [OF Cons.prems(1) False refl] unfolding n_def by blast
    have "0 < n" using False by (simp add: n_def)
    then have "length (st_queue s1) \<le> length ms" using s1(3) Cons.prems(2) False by simp
    with Cons.IH [of s1] s1 show ?thesis by auto
  qed
qed

text \<open>Without a transmit event nothing of the queue is sent.\<close>

lemma stream_writes_while_queued:
  assumes "stream_inv s" "st_queue s \<noteq> []" "\<forall>(d, k) \<in> set ws. length d < 2 ^ 30"
  shows "\<exists>s'. foldo (\<lambda>s (d, k). stream_step s (App_write d k)) s ws = Some s'
    \<and> st_wire s' = st_wire s \<and> st_watcher s' = st_watcher s \<and> st_queue s' \<noteq> [] \<and> stream_inv s'"
  using assms
proof (induction ws arbitrary: s)
  case (Cons w ws)
  obtain d k where w: "w = (d, k)" by fastforce
  then obtain s1 where s1: "stream_step s (App_write d k) = Some s1" "stream_inv s1" "st_queue s1 \<noteq> []"
      "st_wire s1 = st_wire s" "st_watcher s1 = st_watcher s"
    using stream_write_queued [OF Cons.prems(1,2), of d k] Cons.prems(2,3) by auto
  with Cons.IH [of s1] Cons.prems(3) w show ?case by auto
qed simp


section \<open>Properties\<close>

text \<open>A stream object before its initialisation, for the examples.\<close>

definition blank_stream :: "unit stream" where
  "blank_stream = \<lparr>st_watcher = watcher_init_with_fd 3, st_rx_buf = [], st_rx_buf_size = 0,
     st_rx_data_len = 0, st_tx_buf = fst (circ_buffer_init None 0), st_wire = [], st_open = False, st_env = ()\<rparr>"

lemma small_stream:
  obtains s where "stream_init_with_fd (Some [0, 0, 0, 0]) blank_stream 3 [0, 0] 2 (int (length [0 :: u8, 0, 0, 0])) = Some s"
    "stream_inv s" "st_queue s = []" "\<not> tx_watched s" "cb_cap (st_tx_buf s) = 4" "st_wire s = []"
  using stream_init_spec [of "[0, 0, 0, 0]" blank_stream 3 "[0, 0]" 2] by (auto simp: blank_stream_def)

text \<open>
  C14: However writes and transmit events interleave, as long as no transmit event crashes, the bytes
  on the wire followed by the queued ones are the earlier ones followed by a prefix of each written
  chunk, in the order of the writes: nothing is duplicated, reordered or invented.
\<close>

theorem stream_bytes_in_order:
  assumes "0 < length mem" "length mem < 2 ^ 30" "\<forall>d \<in> set (writes_of is). length d < 2 ^ 30"
    and "stream_init_with_fd (Some mem) s0 fd rx rx_size (int (length mem)) = Some s"
    and "foldo stream_step s is = Some s'"
  shows "\<exists>ps. list_all2 prefix ps (writes_of is) \<and> st_wire s' @ cb_abs (st_tx_buf s') = st_wire s0 @ concat ps"
proof -
  have s: "stream_inv s" "st_queue s = []" "st_wire s = st_wire s0"
    using stream_init_spec [OF assms(1,2), of s0 fd rx rx_size] assms(4) by auto
  show ?thesis
    using stream_run_bytes [OF s(1) assms(3,5)] s(2,3) by (auto simp: st_queue_def)
qed

lemma stream_bytes_in_order_witness:
  "\<exists>s s' ps. stream_init_with_fd (Some [0, 0, 0, 0]) blank_stream 3 [0, 0] 2 (int (length [0 :: u8, 0, 0, 0])) = Some s
    \<and> foldo stream_step s [App_write [1, 2, 3] (Room 1), Tx_ready (Room (Suc 0))] = Some s'
    \<and> list_all2 prefix ps [[1, 2, 3]] \<and> st_wire s' @ cb_abs (st_tx_buf s') = concat ps"
proof -
  obtain s :: "unit stream" where s: "stream_init_with_fd (Some [0, 0, 0, 0]) blank_stream 3 [0, 0] 2 (int (length [0 :: u8, 0, 0, 0])) = Some s"
      "stream_inv s" "st_queue s = []" "cb_cap (st_tx_buf s) = 4" by (rule small_stream) simp
  obtain s1 :: "unit stream" where s1: "stream_step s (App_write [1, 2, 3] (Room 1)) = Some s1" "stream_inv s1" "st_queue s1 \<noteq> []"
    using stream_write_short_fits [OF s(2,3), of "Room 1" 1 "[1, 2, 3]"] s(4) by (auto simp: ex_bool_eq)
  obtain s2 :: "unit stream" where "stream_step s1 (Tx_ready (Room (Suc 0))) = Some s2"
    using stream_tx_event_spec [OF s1(2,3) refl, of 0] by auto
  with s1(1) have "foldo stream_step s [App_write [1, 2, 3] (Room 1), Tx_ready (Room (Suc 0))] = Some s2"
    by (simp del: stream_step.simps)
  with stream_bytes_in_order [OF _ _ _ s(1) this] s(1) show ?thesis by (force simp: blank_stream_def)
qed

text \<open>
  C20: A queue of \<open>n\<close> bytes is empty after at most \<open>n\<close> transmit events in which the kernel takes at
  least one byte: everything is then on the wire, in order, and the transmit event is switched off.
\<close>

theorem stream_queue_drains:
  assumes "stream_inv s" "cb_abs (st_tx_buf s) \<noteq> []" "length (cb_abs (st_tx_buf s)) \<le> length ms"
  shows "\<exists>s'. foldo (\<lambda>s m. stream_handle_tx_event (Room (Suc m)) s) s ms = Some s'
    \<and> circ_buffer_is_empty (st_tx_buf s') \<and> st_wire s' = st_wire s @ cb_abs (st_tx_buf s)
    \<and> \<not> flag_set (st_watcher s') WATCHER_TX_WATCH"
  using stream_drain [OF assms(1), of ms] assms(2,3) stream_empty
  by (fastforce simp: st_queue_def tx_watched_def w_switches_def)

lemma stream_queue_drains_witness:
  "\<exists>s s'. stream_inv s \<and> st_wire s = [1] \<and> cb_abs (st_tx_buf s) = [2, 3]
    \<and> foldo (\<lambda>s m. stream_handle_tx_event (Room (Suc m)) s) s [0, 0] = Some (s' :: unit stream)
    \<and> circ_buffer_is_empty (st_tx_buf s') \<and> st_wire s' = [1, 2, 3]
    \<and> \<not> flag_set (st_watcher s') WATCHER_TX_WATCH"
proof -
  obtain s :: "unit stream" where s: "stream_inv s" "st_queue s = []" "cb_cap (st_tx_buf s) = 4" "st_wire s = []"
    by (rule small_stream) simp
  obtain s1 :: "unit stream" where s1: "stream_inv s1" "cb_abs (st_tx_buf s1) = [2, 3]" "st_wire s1 = [1]"
    using stream_write_short_fits [OF s(1,2), of "Room 1" 1 "[1, 2, 3]"] s(3,4) by (auto simp: st_queue_def)
  with stream_queue_drains [of s1 "[0, 0]"] show ?thesis by - (rule exI [of _ s1], simp)
qed

text \<open>
  C2: On a stream with nothing queued and the transmit event off, when the kernel takes only part of a write and
  the rest fits the ring buffer, the rest is queued but the call reports failure and leaves the transmit
  event off; any number of later writes then sends nothing and still leaves it off, so the queued bytes
  stay where they are. (The result of \<open>circ_buffer_put\<close>, 0 for success, is compared with \<open>false\<close>.)
\<close>

theorem stream_short_write_stalls:
  assumes "stream_inv s" "cb_abs (st_tx_buf s) = []" "\<not> flag_set (st_watcher s) WATCHER_TX_WATCH"
    and "n < length data" "length data - n \<le> cb_cap (st_tx_buf s)" "\<forall>(d, k) \<in> set ws. length d < 2 ^ 30"
  shows "\<exists>s1 s2. stream_write (Room n) s data (int (length data)) = Some (s1, False)
    \<and> cb_abs (st_tx_buf s1) = drop n data
    \<and> foldo (\<lambda>s (d, k). stream_step s (App_write d k)) s1 ws = Some s2
    \<and> st_wire s2 = st_wire s @ take n data \<and> \<not> circ_buffer_is_empty (st_tx_buf s2)
    \<and> \<not> flag_set (st_watcher s2) WATCHER_TX_WATCH"
proof -
  obtain s1 where s1: "stream_write (Room n) s data (int (length data)) = Some (s1, False)" "stream_inv s1"
      "st_wire s1 = st_wire s @ take n data" "st_watcher s1 = st_watcher s" "st_queue s1 = drop n data"
    using stream_write_short_fits [OF assms(1), of "Room n" n data] assms(2,4,5) by (auto simp: st_queue_def)
  have "st_queue s1 \<noteq> []" using s1(5) assms(4) by simp
  from stream_writes_while_queued [OF s1(2) this assms(6)] obtain s2 where
    s2: "foldo (\<lambda>s (d, k). stream_step s (App_write d k)) s1 ws = Some s2" "st_wire s2 = st_wire s1"
      "st_watcher s2 = st_watcher s1" "st_queue s2 \<noteq> []" "stream_inv s2" by auto
  then show ?thesis
    using s1 assms(3) stream_empty [OF s2(5)] by (intro exI [of _ s1] exI [of _ s2]) (simp add: st_queue_def)
qed


lemma stream_short_write_stalls_witness:
  "\<exists>(s :: unit stream) s1 s2. stream_write (Room 1) s [1, 2, 3] 3 = Some (s1, False)
    \<and> cb_abs (st_tx_buf s1) = [2, 3]
    \<and> foldo (\<lambda>s (d, k). stream_step s (App_write d k)) s1 [([4], Room 9), ([5, 6], Room 9)] = Some s2
    \<and> st_wire s2 = [1] \<and> \<not> circ_buffer_is_empty (st_tx_buf s2)
    \<and> \<not> flag_set (st_watcher s2) WATCHER_TX_WATCH"
proof -
  obtain s :: "unit stream" where s: "stream_inv s" "cb_abs (st_tx_buf s) = []" "\<not> flag_set (st_watcher s) WATCHER_TX_WATCH"
      "cb_cap (st_tx_buf s) = 4" "st_wire s = []"
    by (rule small_stream) (simp add: st_queue_def tx_watched_def w_switches_def)
  show ?thesis
    using stream_short_write_stalls [OF s(1-3), of 1 "[1, 2, 3]" "[([4], Room 9), ([5, 6], Room 9)]"] s(4,5)
    by - (rule exI [of _ s], simp del: foldo.simps)
qed

end
