(* ===== verification/Modbus_Crc.thy ===== *)
theory Modbus_Crc
  imports Kj_Prelude
begin

text \<open>
  \<open>src/protocols/modbus/modbus_crc.c\<close>: the CRC of serial Modbus frames, computed with two byte
  tables. The reference is the bitwise definition of the standard: shift right, and exclusive-or
  with the reflected polynomial \<open>0xA001\<close> when a one falls out. Its linearity and invertibility give
  what a receiver relies on: a frame followed by its CRC has CRC 0, and no error burst confined to
  two neighbouring bytes goes unnoticed.
\<close>

section \<open>The table-driven computation\<close>

definition aucCRCHi :: "u8 list" where
  "aucCRCHi = [
     0x00, 0xC1, 0x81, 0x40, 0x01, 0xC0, 0x80, 0x41, 0x01, 0xC0, 0x80, 0x41, 0x00, 0xC1, 0x81, 0x40,
     0x01, 0xC0, 0x80, 0x41, 0x00, 0xC1, 0x81, 0x40, 0x00, 0xC1, 0x81, 0x40, 0x01, 0xC0, 0x80, 0x41,
     0x01, 0xC0, 0x80, 0x41, 0x00, 0xC1, 0x81, 0x40, 0x00, 0xC1, 0x81, 0x40, 0x01, 0xC0, 0x80, 0x41,
     0x00, 0xC1, 0x81, 0x40, 0x01, 0xC0, 0x80, 0x41, 0x01, 0xC0, 0x80, 0x41, 0x00, 0xC1, 0x81, 0x40,
     0x01, 0xC0, 0x80, 0x41, 0x00, 0xC1, 0x81, 0x40, 0x00, 0xC1, 0x81, 0x40, 0x01, 0xC0, 0x80, 0x41,
     0x00, 0xC1, 0x81, 0x40, 0x01, 0xC0, 0x80, 0x41, 0x01, 0xC0, 0x80, 0x41, 0x00, 0xC1, 0x81, 0x40,
     0x00, 0xC1, 0x81, 0x40, 0x01, 0xC0, 0x80, 0x41, 0x01, 0xC0, 0x80, 0x41, 0x00, 0xC1, 0x81, 0x40,
     0x01, 0xC0, 0x80, 0x41, 0x00, 0xC1, 0x81, 0x40, 0x00, 0xC1, 0x81, 0x40, 0x01, 0xC0, 0x80, 0x41,
     0x01, 0xC0, 0x80, 0x41, 0x00, 0xC1, 0x81, 0x40, 0x00, 0xC1, 0x81, 0x40, 0x01, 0xC0, 0x80, 0x41,
     0x00, 0xC1, 0x81, 0x40, 0x01, 0xC0, 0x80, 0x41, 0x01, 0xC0, 0x80, 0x41, 0x00, 0xC1, 0x81, 0x40,
     0x00, 0xC1, 0x81, 0x40, 0x01, 0xC0, 0x80, 0x41, 0x01, 0xC0, 0x80, 0x41, 0x00, 0xC1, 0x81, 0x40,
     0x01, 0xC0, 0x80, 0x41, 0x00, 0xC1, 0x81, 0x40, 0x00, 0xC1, 0x81, 0x40, 0x01, 0xC0, 0x80, 0x41,
     0x00, 0xC1, 0x81, 0x40, 0x01, 0xC0, 0x80, 0x41, 0x01, 0xC0, 0x80, 0x41, 0x00, 0xC1, 0x81, 0x40,
     0x01, 0xC0, 0x80, 0x41, 0x00, 0xC1, 0x81, 0x40, 0x00, 0xC1, 0x81, 0x40, 0x01, 0xC0, 0x80, 0x41,
     0x01, 0xC0, 0x80, 0x41, 0x00, 0xC1, 0x81, 0x40, 0x00, 0xC1, 0x81, 0x40, 0x01, 0xC0, 0x80, 0x41,
     0x00, 0xC1, 0x81, 0x40, 0x01, 0xC0, 0x80, 0x41, 0x01, 0xC0, 0x80, 0x41, 0x00, 0xC1, 0x81, 0x40]"

definition aucCRCLo :: "u8 list" where
  "aucCRCLo = [
     0x00, 0xC0, 0xC1, 0x01, 0xC3, 0x03, 0x02, 0xC2, 0xC6, 0x06, 0x07, 0xC7, 0x05, 0xC5, 0xC4, 0x04,
     0xCC, 0x0C, 0x0D, 0xCD, 0x0F, 0xCF, 0xCE, 0x0E, 0x0A, 0xCA, 0xCB, 0x0B, 0xC9, 0x09, 0x08, 0xC8,
     0xD8, 0x18, 0x19, 0xD9, 0x1B, 0xDB, 0xDA, 0x1A, 0x1E, 0xDE, 0xDF, 0x1F, 0xDD, 0x1D, 0x1C, 0xDC,
     0x14, 0xD4, 0xD5, 0x15, 0xD7, 0x17, 0x16, 0xD6, 0xD2, 0x12, 0x13, 0xD3, 0x11, 0xD1, 0xD0, 0x10,
     0xF0, 0x30, 0x31, 0xF1, 0x33, 0xF3, 0xF2, 0x32, 0x36, 0xF6, 0xF7, 0x37, 0xF5, 0x35, 0x34, 0xF4,
     0x3C, 0xFC, 0xFD, 0x3D, 0xFF, 0x3F, 0x3E, 0xFE, 0xFA, 0x3A, 0x3B, 0xFB, 0x39, 0xF9, 0xF8, 0x38,
     0x28, 0xE8, 0xE9, 0x29, 0xEB, 0x2B, 0x2A, 0xEA, 0xEE, 0x2E, 0x2F, 0xEF, 0x2D, 0xED, 0xEC, 0x2C,
     0xE4, 0x24, 0x25, 0xE5, 0x27, 0xE7, 0xE6, 0x26, 0x22, 0xE2, 0xE3, 0x23, 0xE1, 0x21, 0x20, 0xE0,
     0xA0, 0x60, 0x61, 0xA1, 0x63, 0xA3, 0xA2, 0x62, 0x66, 0xA6, 0xA7, 0x67, 0xA5, 0x65, 0x64, 0xA4,
     0x6C, 0xAC, 0xAD, 0x6D, 0xAF, 0x6F, 0x6E, 0xAE, 0xAA, 0x6A, 0x6B, 0xAB, 0x69, 0xA9, 0xA8, 0x68,
     0x78, 0xB8, 0xB9, 0x79, 0xBB, 0x7B, 0x7A, 0xBA, 0xBE, 0x7E, 0x7F, 0xBF, 0x7D, 0xBD, 0xBC, 0x7C,
     0xB4, 0x74, 0x75, 0xB5, 0x77, 0xB7, 0xB6, 0x76, 0x72, 0xB2, 0xB3, 0x73, 0xB1, 0x71, 0x70, 0xB0,
     0x50, 0x90, 0x91, 0x51, 0x93, 0x53, 0x52, 0x92, 0x96, 0x56, 0x57, 0x97, 0x55, 0x95, 0x94, 0x54,
     0x9C, 0x5C, 0x5D, 0x9D, 0x5F, 0x9F, 0x9E, 0x5E, 0x5A, 0x9A, 0x9B, 0x5B, 0x99, 0x59, 0x58, 0x98,
     0x88, 0x48, 0x49, 0x89, 0x4B, 0x8B, 0x8A, 0x4A, 0x4E, 0x8E, 0x8F, 0x4F, 0x8D, 0x4D, 0x4C, 0x8C,
     0x44, 0x84, 0x85, 0x45, 0x87, 0x47, 0x46, 0x86, 0x82, 0x42, 0x43, 0x83, 0x41, 0x81, 0x80, 0x40]"

definition crc_table_step :: "u8 \<times> u8 \<Rightarrow> u8 \<Rightarrow> (u8 \<times> u8) option" where
  "crc_table_step st b = do {
     let (hi, lo) = st;
     let i = unat (lo XOR b);
     h \<leftarrow> mem_load aucCRCHi i;
     l \<leftarrow> mem_load aucCRCLo i;
     Some (l, hi XOR h) }"

definition modbus_calc_crc :: "u8 list \<Rightarrow> u16 \<Rightarrow> u16 option" where
  "modbus_calc_crc frame len = do {
     bytes \<leftarrow> mem_slice frame 0 (unat len);
     (hi, lo) \<leftarrow> foldo crc_table_step (0xFF, 0xFF) bytes;
     Some (push_bit 8 (ucast hi) OR ucast lo) }"

section \<open>The bitwise reference\<close>

definition crc_shift :: "u16 \<Rightarrow> u16" where
  "crc_shift c = (if bit c 0 then drop_bit 1 c XOR 0xA001 else drop_bit 1 c)"

definition crc_byte :: "u16 \<Rightarrow> u8 \<Rightarrow> u16" where
  "crc_byte c b = (crc_shift ^^ 8) (c XOR ucast b)"

definition crc_bitwise :: "u8 list \<Rightarrow> u16" where
  "crc_bitwise bs = foldl crc_byte 0xFFFF bs"

lemma crc_shift_8: "(crc_shift ^^ 8) c = crc_shift (crc_shift (crc_shift (crc_shift
    (crc_shift (crc_shift (crc_shift (crc_shift c)))))))"
  by (simp add: eval_nat_numeral)

text \<open>
  The shift register is linear, so the table entry of an index is the exclusive-or of the entries of
  its bits. Each table is accordingly built by doubling; the eight entries of the powers of two are
  compared with the reference.
\<close>

lemma crc_shift_xor: "crc_shift (a XOR b) = crc_shift a XOR crc_shift b"
  by (simp add: crc_shift_def bit_xor_iff ac_simps)

lemma crc_shifts_xor: "(crc_shift ^^ n) (a XOR b) = (crc_shift ^^ n) a XOR (crc_shift ^^ n) b"
  by (induction n) (simp_all add: crc_shift_xor)

lemma crc_shifts_0 [simp]: "(crc_shift ^^ n) 0 = 0"
  by (induction n) (simp_all add: crc_shift_def)

definition table_double :: "u8 list \<Rightarrow> u8 \<Rightarrow> u8 list" where
  "table_double xs a = xs @ map (\<lambda>x. x XOR a) xs"

lemma aucCRCLo_doubles: "aucCRCLo = foldl table_double [0] [0xC0, 0xC1, 0xC3, 0xC6, 0xCC, 0xD8, 0xF0, 0xA0]"
  by (simp add: aucCRCLo_def table_double_def)

lemma aucCRCHi_doubles: "aucCRCHi = foldl table_double [0] [0xC1, 0x81, 0x01, 0x01, 0x01, 0x01, 0x01, 0x01]"
  by (simp add: aucCRCHi_def table_double_def)

lemma crc_powers:
  "map (\<lambda>k. (crc_shift ^^ 8) (2 ^ k)) [0, 1, 2, 3, 4, 5, 6, 7]
    = map2 be16 [0xC0, 0xC1, 0xC3, 0xC6, 0xCC, 0xD8, 0xF0, 0xA0] [0xC1, 0x81, 0x01, 0x01, 0x01, 0x01, 0x01, 0x01]"
  by (simp add: crc_shift_8 crc_shift_def be16_def)

lemma word_add_power:
  assumes "i < 2 ^ k" "k < 16"
  shows "(word_of_nat (i + 2 ^ k) :: u16) = word_of_nat i XOR 2 ^ k"
proof -
  have "\<not> bit i k" using assms by (simp add: bit_iff_odd)
  moreover have "unat (word_of_nat i :: u16) = i"
  proof -
    have "(2 :: nat) ^ k < 2 ^ 16" using assms(2) by (intro power_strict_increasing) auto
    with assms(1) have "i < 2 ^ 16" by (rule less_trans)
    then show ?thesis by (simp add: unsigned_of_nat take_bit_eq_mod)
  qed
  ultimately have "\<not> bit (word_of_nat i :: u16) k"
    using bit_unsigned_iff [of "word_of_nat i :: u16" k, where 'a = nat] by simp
  then have "(word_of_nat i :: u16) AND 2 ^ k = 0" by (simp add: and_exp_eq_0_iff_not_bit)
  then show ?thesis by (simp add: disjunctive_add_eq_xor)
qed

lemma doubled_table:
  assumes lin: "\<And>x y :: u16. f (x XOR y) = f x XOR f y" and f0: "f 0 = (0 :: u8)" and m: "m \<le> 16"
  shows "length (foldl table_double [0] (map (\<lambda>k. f (2 ^ k)) [0..<m])) = 2 ^ m
    \<and> (\<forall>i < 2 ^ m. foldl table_double [0] (map (\<lambda>k. f (2 ^ k)) [0..<m]) ! i = f (word_of_nat i))"
  using m
proof (induction m)
  case 0
  then show ?case using f0 by simp
next
  case (Suc m)
  define xs where "xs = foldl table_double [0] (map (\<lambda>k. f (2 ^ k)) [0..<m])"
  have xs: "length xs = 2 ^ m" "\<And>i. i < 2 ^ m \<Longrightarrow> xs ! i = f (word_of_nat i)"
    using Suc unfolding xs_def by auto
  have "(xs @ map (\<lambda>x. x XOR f (2 ^ m)) xs) ! i = f (word_of_nat i)" if "i < 2 ^ Suc m" for i
  proof (cases "i < 2 ^ m")
    case False
    then obtain j where j: "i = j + 2 ^ m" by (metis add.commute le_iff_add not_le)
    then have "j < 2 ^ m" using that by simp
    then show ?thesis
      using j xs word_add_power [of j m] Suc.prems lin by (simp add: nth_append del: of_nat_add)
  qed (use xs in \<open>simp add: nth_append\<close>)
  moreover have "foldl table_double [0] (map (\<lambda>k. f (2 ^ k)) [0..<Suc m]) = xs @ map (\<lambda>x. x XOR f (2 ^ m)) xs"
    by (simp add: xs_def table_double_def)
  ultimately show ?case using xs(1) by simp
qed

lemma hi_byte_xor: "hi_byte (a XOR b) = hi_byte a XOR hi_byte b"
  by (rule bit_word_eqI) (simp add: hi_byte_def bit_simps)

lemma lo_byte_xor: "lo_byte (a XOR b) = lo_byte a XOR lo_byte b"
  by (rule bit_word_eqI) (auto simp: lo_byte_def mask8_u16 bit_simps)

lemma crc_power_bytes:
  "map (\<lambda>k. hi_byte ((crc_shift ^^ 8) (2 ^ k))) [0..<8] = [0xC0, 0xC1, 0xC3, 0xC6, 0xCC, 0xD8, 0xF0, 0xA0]"
  "map (\<lambda>k. lo_byte ((crc_shift ^^ 8) (2 ^ k))) [0..<8] = [0xC1, 0x81, 0x01, 0x01, 0x01, 0x01, 0x01, 0x01]"
proof -
  have "[0..<8] = [0, 1, 2, 3, 4, 5, 6, 7 :: nat]" by code_simp
  then have *: "map (\<lambda>k. (crc_shift ^^ 8) (2 ^ k)) [0..<8] = map2 be16 [0xC0, 0xC1, 0xC3, 0xC6, 0xCC, 0xD8, 0xF0, 0xA0] [0xC1, 0x81, 0x01, 0x01, 0x01, 0x01, 0x01, 0x01]"
    using crc_powers by simp
  show "map (\<lambda>k. hi_byte ((crc_shift ^^ 8) (2 ^ k))) [0..<8] = [0xC0, 0xC1, 0xC3, 0xC6, 0xCC, 0xD8, 0xF0, 0xA0]"
    using arg_cong [OF *, of "map hi_byte"] by (simp add: comp_def)
  show "map (\<lambda>k. lo_byte ((crc_shift ^^ 8) (2 ^ k))) [0..<8] = [0xC1, 0x81, 0x01, 0x01, 0x01, 0x01, 0x01, 0x01]"
    using arg_cong [OF *, of "map lo_byte"] by (simp add: comp_def)
qed

lemma crc_table_entry:
  assumes "i < 256"
  shows "mem_load aucCRCLo i = Some (hi_byte ((crc_shift ^^ 8) (word_of_nat i)))"
    "mem_load aucCRCHi i = Some (lo_byte ((crc_shift ^^ 8) (word_of_nat i)))"
proof -
  have 0: "hi_byte 0 = 0" "lo_byte 0 = 0" by (simp_all add: hi_byte_def lo_byte_def)
  have "length aucCRCLo = 256 \<and> (\<forall>i < 256. aucCRCLo ! i = hi_byte ((crc_shift ^^ 8) (word_of_nat i)))"
    using doubled_table [of "\<lambda>w. hi_byte ((crc_shift ^^ 8) w)" 8]
    unfolding aucCRCLo_doubles crc_power_bytes by (simp add: crc_shifts_xor hi_byte_xor 0)
  then show "mem_load aucCRCLo i = Some (hi_byte ((crc_shift ^^ 8) (word_of_nat i)))" using assms by simp
  have "length aucCRCHi = 256 \<and> (\<forall>i < 256. aucCRCHi ! i = lo_byte ((crc_shift ^^ 8) (word_of_nat i)))"
    using doubled_table [of "\<lambda>w. lo_byte ((crc_shift ^^ 8) w)" 8]
    unfolding aucCRCHi_doubles crc_power_bytes by (simp add: crc_shifts_xor lo_byte_xor 0)
  then show "mem_load aucCRCHi i = Some (lo_byte ((crc_shift ^^ 8) (word_of_nat i)))" using assms by simp
qed

section \<open>The two computations agree\<close>

lemma crc_shifts_zeros: "(\<And>i. i < n \<Longrightarrow> \<not> bit c i) \<Longrightarrow> (crc_shift ^^ n) c = drop_bit n c"
proof (induction n arbitrary: c)
  case (Suc n)
  have "crc_shift c = drop_bit 1 c" using Suc.prems [of 0] by (simp add: crc_shift_def)
  moreover have "(crc_shift ^^ n) (drop_bit 1 c) = drop_bit n (drop_bit 1 c)"
    by (rule Suc.IH) (use Suc.prems in \<open>auto simp: bit_drop_bit_eq\<close>)
  ultimately show ?case by (simp add: funpow_swap1 drop_bit_drop_bit) 
qed simp

lemma crc_shifts_high: "(crc_shift ^^ 8) (push_bit 8 (ucast (b :: u8))) = ucast b"
proof -
  have "(crc_shift ^^ 8) (push_bit 8 (ucast b)) = drop_bit 8 (push_bit 8 (ucast b))"
    by (rule crc_shifts_zeros) (simp add: bit_simps)
  also have "\<dots> = ucast b"
    by (rule bit_word_eqI) (auto simp: bit_simps dest: bit_imp_le_length)
  finally show ?thesis .
qed

lemma be16_xor: "be16 h l = push_bit 8 (ucast h) XOR ucast l"
  by (rule bit_word_eqI) (auto simp: be16_def bit_simps dest: bit_imp_le_length)

lemma ucast_xor: "ucast (a XOR b :: u8) = (ucast a XOR ucast b :: u16)"
  by (rule bit_word_eqI) (simp add: bit_simps)

lemma be16_xor_low: "be16 h l XOR ucast b = push_bit 8 (ucast h) XOR ucast (l XOR b)"
  by (simp add: be16_xor ucast_xor ac_simps)

lemma crc_byte_be16: "crc_byte (be16 h l) b = ucast h XOR (crc_shift ^^ 8) (ucast (l XOR b))"
  by (simp only: crc_byte_def be16_xor_low crc_shifts_xor crc_shifts_high)

lemma crc_table_step_spec:
  "crc_table_step (h, l) b = Some (hi_byte (crc_byte (be16 h l) b), lo_byte (crc_byte (be16 h l) b))"
proof -
  let ?t = "(crc_shift ^^ 8) (ucast (l XOR b))"
  have i: "(word_of_nat (unat (l XOR b)) :: u16) = ucast (l XOR b)" by (simp only: of_nat_unat)
  have bytes: "hi_byte (ucast h) = 0" "lo_byte (ucast h :: u16) = h"
    by (rule bit_word_eqI; auto simp: hi_byte_def lo_byte_def mask8_u16 bit_simps dest: bit_imp_le_length)+
  have "crc_table_step (h, l) b = Some (hi_byte ?t, h XOR lo_byte ?t)"
    using crc_table_entry [OF unat_u8_less [of "l XOR b"]] by (simp only: i crc_table_step_def Let_def
        prod.case Option.bind.simps)
  then show ?thesis by (simp add: crc_byte_be16 hi_byte_xor lo_byte_xor bytes)
qed

lemma crc_table_loop:
  "foldo crc_table_step (h, l) bs
    = Some (hi_byte (foldl crc_byte (be16 h l) bs), lo_byte (foldl crc_byte (be16 h l) bs))"
proof (induction bs arbitrary: h l)
  case (Cons b bs)
  then show ?case
    using Cons [of "hi_byte (crc_byte (be16 h l) b)" "lo_byte (crc_byte (be16 h l) b)"]
    by (simp only: foldo.simps crc_table_step_spec Option.bind.simps be16_bytes foldl.simps)
qed simp

lemma modbus_calc_crc_bytes:
  "unat len \<le> length frame \<Longrightarrow> modbus_calc_crc frame len = Some (crc_bitwise (take (unat len) frame))"
proof -
  have "be16 0xFF 0xFF = 0xFFFF" by (simp add: be16_def)
  moreover assume "unat len \<le> length frame"
  ultimately show ?thesis
    using be16_bytes [unfolded be16_def]
    by (simp add: modbus_calc_crc_def mem_slice_in crc_table_loop crc_bitwise_def)
qed

section \<open>Detection\<close>

text \<open>Bit 15 of the shifted register tells which bit fell out, so the shift can be undone.\<close>

lemma crc_shift_bit: "bit (crc_shift c) n \<longleftrightarrow> n < 16 \<and> (bit c (Suc n) \<noteq> (bit c 0 \<and> bit (0xA001 :: u16) n))"
  by (auto simp: crc_shift_def bit_simps dest: bit_imp_le_length)

lemma crc_shift_inj: "crc_shift a = crc_shift b \<Longrightarrow> a = b"
proof -
  assume eq: "crc_shift a = crc_shift b"
  have "bit (0xA001 :: u16) 15" by simp
  moreover have "\<not> bit a 16" "\<not> bit b 16" by (auto dest: bit_imp_le_length)
  ultimately have 0: "bit a 0 \<longleftrightarrow> bit b 0"
    using arg_cong [OF eq, of "\<lambda>c. bit c 15"] by (simp add: crc_shift_bit)
  show "a = b"
  proof (rule bit_word_eqI)
    fix n assume "n < LENGTH(16)"
    then show "bit a n \<longleftrightarrow> bit b n"
      using 0 arg_cong [OF eq, of "\<lambda>c. bit c (n - 1)"] by (cases n) (auto simp: crc_shift_bit)
  qed
qed

lemma crc_shifts_inj: "(crc_shift ^^ n) a = (crc_shift ^^ n) b \<Longrightarrow> a = b"
  by (induction n) (auto dest: crc_shift_inj)

lemma xor_left_cancel: "x XOR a = x XOR b \<Longrightarrow> a = b" for a b x :: u16
  by (auto simp: bit_eq_iff bit_xor_iff)

lemma crc_byte_inj_state: "crc_byte c b = crc_byte d b \<Longrightarrow> c = d"
  unfolding crc_byte_def
  by (drule crc_shifts_inj, simp only: xor.commute [of _ "ucast b"], erule xor_left_cancel)

lemma crc_bytes_inj_state: "foldl crc_byte c bs = foldl crc_byte d bs \<Longrightarrow> c = d"
  by (induction bs arbitrary: c d) (auto dest: crc_byte_inj_state)

text \<open>Two bytes are absorbed like one 16-bit word.\<close>

lemma crc_byte_pair: "crc_byte (crc_byte c a) b = (crc_shift ^^ 16) (c XOR be16 b a)"
proof -
  have "(crc_shift ^^ 16) (c XOR be16 b a) = (crc_shift ^^ 8) ((crc_shift ^^ 8) (c XOR be16 b a))"
    using funpow_add [of 8 8 crc_shift] by simp
  also have "(crc_shift ^^ 8) (c XOR be16 b a) = crc_byte c a XOR ucast b"
  proof -
    have "c XOR be16 b a = (c XOR ucast a) XOR push_bit 8 (ucast b)"
      by (simp add: be16_xor ac_simps)
    then show ?thesis by (simp only: crc_shifts_xor crc_shifts_high crc_byte_def)
  qed
  finally show ?thesis by (simp add: crc_byte_def)
qed

lemma crc_byte_pair_inj:
  assumes "crc_byte (crc_byte c a) b = crc_byte (crc_byte c a') b'"
  shows "a = a' \<and> b = b'"
proof -
  have "c XOR be16 b a = c XOR be16 b' a'"
    using assms unfolding crc_byte_pair by (rule crc_shifts_inj)
  then have "be16 b a = be16 b' a'" by (rule xor_left_cancel)
  then show ?thesis by simp
qed

lemma crc_bitwise_append: "crc_bitwise (xs @ ys) = foldl crc_byte (crc_bitwise xs) ys"
  by (simp add: crc_bitwise_def)

lemma crc_residue: "foldl crc_byte c [lo_byte c, hi_byte c] = 0"
proof -
  have "crc_byte c (lo_byte c) = ucast (hi_byte c)"
    using crc_byte_be16 [of "hi_byte c" "lo_byte c" "lo_byte c"]
    by (simp only: be16_bytes xor_self_eq unsigned_0 crc_shifts_0 xor.right_neutral)
  moreover have "crc_byte (ucast (hi_byte c)) (hi_byte c) = 0"
    by (simp only: crc_byte_def xor_self_eq crc_shifts_0)
  ultimately show ?thesis by (simp only: foldl.simps)
qed

text \<open>
  A receiver's check accepts exactly the right trailer: the CRC of a frame followed by two bytes
  is 0 if and only if these are the low and the high byte of the frame's CRC.
\<close>

lemma crc_accepts_own_trailer:
  "crc_bitwise (frame @ [l, h]) = 0 \<longleftrightarrow> be16 h l = crc_bitwise frame"
proof
  assume "crc_bitwise (frame @ [l, h]) = 0"
  then have "crc_byte (crc_byte (crc_bitwise frame) l) h
      = crc_byte (crc_byte (crc_bitwise frame) (lo_byte (crc_bitwise frame))) (hi_byte (crc_bitwise frame))"
    using crc_residue [of "crc_bitwise frame"] by (simp only: crc_bitwise_append foldl.simps)
  then show "be16 h l = crc_bitwise frame" by (auto dest: crc_byte_pair_inj)
next
  assume "be16 h l = crc_bitwise frame"
  then show "crc_bitwise (frame @ [l, h]) = 0"
    using crc_residue [of "crc_bitwise frame"] by (simp only: crc_bitwise_append be16_eq_word_iff)
qed

section \<open>Properties\<close>

text \<open>
  C4: The table-driven CRC is the bitwise CRC-16 of the standard (initial value \<open>0xFFFF\<close>, reflected
  polynomial \<open>0xA001\<close>) of the first \<open>len\<close> bytes, for every buffer that holds them; otherwise the
  function reads outside the buffer.
\<close>

theorem modbus_calc_crc_is_bitwise:
  "modbus_calc_crc frame len =
     (if unat len \<le> length frame then Some (crc_bitwise (take (unat len) frame)) else None)"
  using modbus_calc_crc_bytes [of len frame] by (simp add: modbus_calc_crc_def mem_slice_def)

text \<open>
  C31: An error burst confined to two neighbouring bytes, anywhere in a frame, changes what
  \<open>modbus_calc_crc\<close> returns for it.
\<close>

theorem crc_detects_short_bursts:
  assumes "(a, b) \<noteq> (a', b')" "unat len = length (xs @ [a, b] @ ys)"
  shows "modbus_calc_crc (xs @ [a, b] @ ys) len \<noteq> modbus_calc_crc (xs @ [a', b'] @ ys) len"
proof
  assume "modbus_calc_crc (xs @ [a, b] @ ys) len = modbus_calc_crc (xs @ [a', b'] @ ys) len"
  then have "crc_bitwise (xs @ [a, b] @ ys) = crc_bitwise (xs @ [a', b'] @ ys)"
    using assms(2) by (simp add: modbus_calc_crc_bytes)
  then have "crc_byte (crc_byte (crc_bitwise xs) a) b = crc_byte (crc_byte (crc_bitwise xs) a') b'"
    by (simp add: crc_bitwise_append) (erule crc_bytes_inj_state)
  then show False using assms(1) by (auto dest: crc_byte_pair_inj)
qed

lemma crc_detects_short_bursts_witness:
  "modbus_calc_crc [1, 3, 0, 7, 9] 5 \<noteq> modbus_calc_crc [1, 0xFF, 0x80, 7, 9] 5"
  using crc_detects_short_bursts [of 3 0 "0xFF" "0x80" 5 "[1]" "[7, 9]"] by simp

end
