(* ===== verification/Modbus_Common.thy ===== *)
theory Modbus_Common
  imports Kj_Prelude
begin

text \<open>
  The vocabulary of the Modbus stack: \<open>inc/modbus/modbus_common.h\<close>, the error translation and the
  bit field accessors of \<open>src/protocols/modbus/modbus_util.c\<close>. The bit accessors are shown to
  read and write a window of the bit sequence a byte array stands for, and nothing else.
\<close>

section \<open>Constants and codes\<close>

definition MB_PDU_SIZE_MAX :: nat where "MB_PDU_SIZE_MAX = 253"
definition MB_PDU_SIZE_MIN :: nat where "MB_PDU_SIZE_MIN = 1"
definition MB_ADDRESS_BROADCAST :: u8 where "MB_ADDRESS_BROADCAST = 0"

definition MB_FUNC_READ_COILS :: u8 where "MB_FUNC_READ_COILS = 1"
definition MB_FUNC_READ_DISCRETE_INPUTS :: u8 where "MB_FUNC_READ_DISCRETE_INPUTS = 2"
definition MB_FUNC_READ_HOLDING_REGISTER :: u8 where "MB_FUNC_READ_HOLDING_REGISTER = 3"
definition MB_FUNC_READ_INPUT_REGISTER :: u8 where "MB_FUNC_READ_INPUT_REGISTER = 4"
definition MB_FUNC_WRITE_SINGLE_COIL :: u8 where "MB_FUNC_WRITE_SINGLE_COIL = 5"
definition MB_FUNC_WRITE_REGISTER :: u8 where "MB_FUNC_WRITE_REGISTER = 6"
definition MB_FUNC_WRITE_MULTIPLE_COILS :: u8 where "MB_FUNC_WRITE_MULTIPLE_COILS = 15"
definition MB_FUNC_WRITE_MULTIPLE_REGISTERS :: u8 where "MB_FUNC_WRITE_MULTIPLE_REGISTERS = 16"
definition MB_FUNC_READWRITE_MULTIPLE_REGISTERS :: u8 where "MB_FUNC_READWRITE_MULTIPLE_REGISTERS = 23"
definition MB_FUNC_ERROR :: u8 where "MB_FUNC_ERROR = 128"

lemmas mb_func_defs = MB_FUNC_READ_COILS_def MB_FUNC_READ_DISCRETE_INPUTS_def
  MB_FUNC_READ_HOLDING_REGISTER_def MB_FUNC_READ_INPUT_REGISTER_def MB_FUNC_WRITE_SINGLE_COIL_def
  MB_FUNC_WRITE_REGISTER_def MB_FUNC_WRITE_MULTIPLE_COILS_def MB_FUNC_WRITE_MULTIPLE_REGISTERS_def
  MB_FUNC_READWRITE_MULTIPLE_REGISTERS_def MB_FUNC_ERROR_def

datatype MBException =
  MB_EX_NONE | MB_EX_ILLEGAL_FUNCTION | MB_EX_ILLEGAL_DATA_ADDRESS | MB_EX_ILLEGAL_DATA_VALUE
| MB_EX_SLAVE_DEVICE_FAILURE | MB_EX_ACKNOWLEDGE | MB_EX_SLAVE_BUSY | MB_EX_MEMORY_PARITY_ERROR
| MB_EX_GATEWAY_PATH_FAILED | MB_EX_GATEWAY_TGT_FAILED

fun mb_ex_code :: "MBException \<Rightarrow> u8" where
  "mb_ex_code MB_EX_NONE = 0x00"
| "mb_ex_code MB_EX_ILLEGAL_FUNCTION = 0x01"
| "mb_ex_code MB_EX_ILLEGAL_DATA_ADDRESS = 0x02"
| "mb_ex_code MB_EX_ILLEGAL_DATA_VALUE = 0x03"
| "mb_ex_code MB_EX_SLAVE_DEVICE_FAILURE = 0x04"
| "mb_ex_code MB_EX_ACKNOWLEDGE = 0x05"
| "mb_ex_code MB_EX_SLAVE_BUSY = 0x06"
| "mb_ex_code MB_EX_MEMORY_PARITY_ERROR = 0x08"
| "mb_ex_code MB_EX_GATEWAY_PATH_FAILED = 0x0A"
| "mb_ex_code MB_EX_GATEWAY_TGT_FAILED = 0x0B"

datatype MBErrorCode =
  MB_ENOERR | MB_ENOREG | MB_EINVAL | MB_EPORTERR | MB_ENORES | MB_EIO | MB_EILLSTATE | MB_ETIMEDOUT

datatype MBRegisterMode = MB_REG_READ | MB_REG_WRITE

fun prveMBError2Exception :: "MBErrorCode \<Rightarrow> MBException" where
  "prveMBError2Exception MB_ENOERR = MB_EX_NONE"
| "prveMBError2Exception MB_ENOREG = MB_EX_ILLEGAL_DATA_ADDRESS"
| "prveMBError2Exception MB_ETIMEDOUT = MB_EX_SLAVE_BUSY"
| "prveMBError2Exception _ = MB_EX_SLAVE_DEVICE_FAILURE"

lemma error2exception_none [simp]: "prveMBError2Exception e = MB_EX_NONE \<longleftrightarrow> e = MB_ENOERR"
  by (cases e) simp_all

section \<open>Bit fields\<close>

text \<open>
  Two neighbouring bytes form a 16-bit window, low byte first; both functions read the second byte
  even when the field lies in the first one. The shift \<open>1 << n\<close> is undefined from 31 on.
\<close>

definition xMBUtilSetBits :: "u8 list \<Rightarrow> u16 \<Rightarrow> u8 \<Rightarrow> u8 \<Rightarrow> u8 list option" where
  "xMBUtilSetBits buf off n value = do {
     let v = (ucast value :: u16);
     if \<not> n \<le> 8 then None
     else do {
       let byte_off = off div 8;
       let pre = off - byte_off * 8;
       let v = push_bit (unat pre) v;
       let mask = push_bit (unat n) (1 :: u16) - 1;
       let mask = push_bit (unat (off - byte_off * 8)) mask;
       lo \<leftarrow> mem_load buf (unat byte_off);
       hi \<leftarrow> mem_load buf (unat byte_off + 1);
       let w = (ucast lo :: u16) OR push_bit 8 (ucast hi);
       let w = (w AND NOT mask) OR v;
       buf \<leftarrow> mem_store buf (unat byte_off) (ucast (w AND 0xFF));
       mem_store buf (unat byte_off + 1) (ucast (drop_bit 8 w)) } }"

definition xMBUtilGetBits :: "u8 list \<Rightarrow> u16 \<Rightarrow> u8 \<Rightarrow> u8 option" where
  "xMBUtilGetBits buf off n =
     (if \<not> n < 31 then None
      else do {
       let byte_off = off div 8;
       let pre = off - byte_off * 8;
       let mask = (ucast (push_bit (unat n) (1 :: u32) - 1) :: u16);
       lo \<leftarrow> mem_load buf (unat byte_off);
       hi \<leftarrow> mem_load buf (unat byte_off + 1);
       let w = (ucast lo :: u16) OR push_bit 8 (ucast hi);
       let w = drop_bit (unat pre) w;
       let w = w AND mask;
       Some (ucast w) })"

text \<open>The bit sequence of a byte array: bit 0 of byte 0 first.\<close>

definition buf_bit :: "u8 list \<Rightarrow> nat \<Rightarrow> bool" where
  "buf_bit buf j = bit (buf ! (j div 8)) (j mod 8)"

lemma window_bit: "bit ((ucast (lo :: u8) :: u16) OR push_bit 8 (ucast (hi :: u8))) j
    \<longleftrightarrow> (if j < 8 then bit lo j else bit hi (j - 8))"
proof (cases "j < 16")
  case True
  then show ?thesis by (auto simp: bit_simps dest: bit_imp_le_length)
next
  case False
  then show ?thesis by (auto simp: bit_simps dest: bit_imp_le_length)
qed

lemma window_buf_bit:
  assumes "i < 16"
  shows "bit ((ucast (buf ! k) :: u16) OR push_bit 8 (ucast (buf ! (k + 1)))) i \<longleftrightarrow> buf_bit buf (8 * k + i)"
proof (cases "i < 8")
  case False
  then have "(8 * k + i) div 8 = k + 1" "(8 * k + i) mod 8 = i - 8"
    using assms by presburger+
  with False show ?thesis by (simp only: window_bit buf_bit_def if_False)
qed (simp add: window_bit buf_bit_def)

lemma field_position:
  fixes off :: u16
  shows "unat (off div 8) = unat off div 8" "unat (off - off div 8 * 8) = unat off mod 8"
proof -
  show 1: "unat (off div 8) = unat off div 8" by (simp add: unat_div)
  have "off - off div 8 * 8 = off mod 8"
    by (metis add_diff_cancel_left' mult_div_mod_eq mult.commute)
  then show "unat (off - off div 8 * 8) = unat off mod 8" by (simp add: unat_mod)
qed

lemma mask_u16: "n \<le> 8 \<Longrightarrow> push_bit (unat n) (1 :: u16) - 1 = mask (unat (n :: u8))"
  by (simp add: mask_eq_exp_minus_1 push_bit_eq_mult)

lemma off_split: "8 * (unat (off :: u16) div 8) + unat off mod 8 = unat off"
  by simp

lemma get_bits_spec:
  assumes n: "n \<le> 8" and len: "unat off div 8 + 1 < length buf"
  shows "\<exists>v. xMBUtilGetBits buf off n = Some v
    \<and> (\<forall>i. bit v i \<longleftrightarrow> i < unat n \<and> buf_bit buf (unat off + i))"
proof -
  let ?k = "unat off div 8" and ?p = "unat off mod 8"
  define w where "w = (ucast (buf ! ?k) :: u16) OR push_bit 8 (ucast (buf ! (?k + 1)))"
  define v where "v = (ucast (drop_bit ?p w AND mask (unat n)) :: u8)"
  have n31: "n < 31" "unat n \<le> 8" using n by (simp_all add: word_less_nat_alt word_le_nat_alt)
  have mask: "(ucast (push_bit (unat n) (1 :: u32) - 1) :: u16) = mask (unat n)"
  proof -
    have "push_bit (unat n) (1 :: u32) - 1 = mask (unat n)" by (simp add: mask_eq_exp_minus_1)
    then show ?thesis by (simp only:) (rule bit_word_eqI, use n31 in \<open>auto simp: bit_simps\<close>)
  qed
  have get: "xMBUtilGetBits buf off n = Some v"
    using n31 len mask by (simp add: xMBUtilGetBits_def Let_def field_position w_def v_def)
  have "bit v i \<longleftrightarrow> i < unat n \<and> buf_bit buf (unat off + i)" for i
  proof (cases "i < unat n")
    case True
    then have "?p + i < 16" "i < 8" using n31 by (simp_all add: less_trans [of _ "8 + 8"] add_less_le_mono)
    then have "bit w (?p + i) \<longleftrightarrow> buf_bit buf (unat off + i)"
      using window_buf_bit [of "?p + i" buf ?k] off_split [of off] by (simp add: w_def flip: add.assoc)
    with True \<open>i < 8\<close> \<open>?p + i < 16\<close> show ?thesis by (auto simp: v_def bit_simps)
  next
    case False
    then show ?thesis by (simp add: v_def bit_simps)
  qed
  with get show ?thesis by blast
qed

lemma outside_window:
  "\<not> (8 * k \<le> j \<and> j < 8 * k + 16) \<Longrightarrow> k \<noteq> j div 8 \<and> k + 1 \<noteq> j div 8" for j k :: nat
proof -
  assume out: "\<not> (8 * k \<le> j \<and> j < 8 * k + 16)"
  have "8 * (j div 8) \<le> j" "j < 8 * (j div 8) + 8"
    using div_mult_mod_eq [of j 8] mod_less_divisor [of 8 j] by linarith+
  with out show ?thesis by linarith
qed

lemma set_bits_spec:
  assumes n: "n \<le> 8" and len: "unat off div 8 + 1 < length buf" and v: "\<And>i. bit v i \<Longrightarrow> i < unat n"
  shows "\<exists>buf'. xMBUtilSetBits buf off n v = Some buf' \<and> length buf' = length buf
    \<and> (\<forall>j. buf_bit buf' j \<longleftrightarrow>
        (if unat off \<le> j \<and> j < unat off + unat n then bit v (j - unat off) else buf_bit buf j))"
proof -
  let ?k = "unat off div 8" and ?p = "unat off mod 8"
  define w where "w = (ucast (buf ! ?k) :: u16) OR push_bit 8 (ucast (buf ! (?k + 1)))"
  define w' where "w' = (w AND NOT (push_bit ?p (mask (unat n)))) OR push_bit ?p (ucast v)"
  define buf' where "buf' = buf[?k := ucast (w' AND 0xFF), ?k + 1 := ucast (drop_bit 8 w')]"
  have n8: "unat n \<le> 8" using n by (simp add: word_le_nat_alt)
  have set: "xMBUtilSetBits buf off n v = Some buf'"
    using n len by (simp add: xMBUtilSetBits_def Let_def field_position mask_eq_exp_minus_1 w_def w'_def buf'_def)
  have w'_bit: "bit w' i \<longleftrightarrow> (if ?p \<le> i \<and> i < ?p + unat n then bit v (i - ?p) else bit w i)"
    if "i < 16" for i
  proof -
    have "bit w' i \<longleftrightarrow> bit w i \<and> \<not> (?p \<le> i \<and> i - ?p < unat n) \<or> ?p \<le> i \<and> bit v (i - ?p)"
      using that less_imp_diff_less [OF that, of ?p] by (simp add: w'_def bit_or_iff bit_and_iff bit_not_iff bit_push_bit_iff bit_mask_iff
          bit_ucast_iff possible_bit_def del: push_bit_mask_eq)
    then show ?thesis using v [of "i - ?p"] by (cases "?p \<le> i") (auto simp: less_diff_conv2)
  qed
  have at_k: "buf' ! ?k = ucast (w' AND 0xFF)" "buf' ! (?k + 1) = ucast (drop_bit 8 w')"
    using len by (simp_all add: buf'_def)
  have mask8: "(0xFF :: u16) = mask 8" by (simp add: mask_eq_exp_minus_1)
  have window: "buf_bit buf' (8 * ?k + i) \<longleftrightarrow> bit w' i" if "i < 16" for i
  proof -
    have "bit ((ucast (buf' ! ?k) :: u16) OR push_bit 8 (ucast (buf' ! (?k + 1)))) i \<longleftrightarrow> bit w' i"
      using that unfolding window_bit at_k mask8 by (auto simp: bit_simps)
    then show ?thesis using window_buf_bit [OF that, of buf' ?k] by simp
  qed
  have "buf_bit buf' j \<longleftrightarrow>
      (if unat off \<le> j \<and> j < unat off + unat n then bit v (j - unat off) else buf_bit buf j)" for j
  proof (cases "8 * ?k \<le> j \<and> j < 8 * ?k + 16")
    case True
    then obtain i where i: "j = 8 * ?k + i" "i < 16" by (metis le_iff_add nat_add_left_cancel_less)
    have "unat off \<le> j \<and> j < unat off + unat n \<longleftrightarrow> ?p \<le> i \<and> i < ?p + unat n" "j - unat off = i - ?p"
      using off_split [of off] i(1) by linarith+
    moreover have "bit w i \<longleftrightarrow> buf_bit buf j"
      using window_buf_bit [OF i(2), of buf ?k] i(1) by (simp add: w_def)
    ultimately show ?thesis using window [OF i(2)] w'_bit [OF i(2)] i(1) by simp
  next
    case False
    then have ne: "?k \<noteq> j div 8" "?k + 1 \<noteq> j div 8"
      using outside_window [of ?k j] by blast+
    have "buf' ! (j div 8) = buf ! (j div 8)"
      unfolding buf'_def nth_list_update_neq [OF ne(2)] nth_list_update_neq [OF ne(1)] ..
    moreover have "\<not> (unat off \<le> j \<and> j < unat off + unat n)"
    proof -
      have "?p < 8" by simp
      then show ?thesis using False off_split [of off] n8 by linarith
    qed
    ultimately show ?thesis by (auto simp: buf_bit_def)
  qed
  moreover have "length buf' = length buf" by (simp add: buf'_def)
  ultimately show ?thesis using set by blast
qed

text \<open>
  Writing a field of at most 8 bits and reading it back gives the written value, and every bit of
  the array outside the field keeps its value, wherever the field lies relative to byte boundaries.
\<close>

theorem set_then_get_bits:
  assumes "n \<le> 8" "unat off div 8 + 1 < length buf" "unat v < 2 ^ unat n"
  shows "\<exists>buf'. xMBUtilSetBits buf off n v = Some buf' \<and> xMBUtilGetBits buf' off n = Some v
    \<and> length buf' = length buf
    \<and> (\<forall>j. \<not> (unat off \<le> j \<and> j < unat off + unat n) \<longrightarrow> buf_bit buf' j = buf_bit buf j)"
proof -
  have v: "i < unat n" if "bit v i" for i
  proof (rule ccontr)
    assume "\<not> i < unat n"
    then have "2 ^ unat n \<le> (2 :: nat) ^ i" by simp
    also have "\<dots> \<le> unat v"
    proof -
      have "bit (unat v) i" using that bit_imp_le_length [OF that] by (simp add: bit_unsigned_iff)
      then have "odd (unat v div 2 ^ i)" by (simp add: bit_iff_odd)
      then show ?thesis by (metis div_less even_zero not_le)
    qed
    finally show False using assms(3) by simp
  qed
  obtain buf' where buf': "xMBUtilSetBits buf off n v = Some buf'" "length buf' = length buf"
      "\<And>j. buf_bit buf' j \<longleftrightarrow>
        (if unat off \<le> j \<and> j < unat off + unat n then bit v (j - unat off) else buf_bit buf j)"
    using set_bits_spec [OF assms(1,2) v] by blast
  obtain u where u: "xMBUtilGetBits buf' off n = Some u"
      "\<And>i. bit u i \<longleftrightarrow> i < unat n \<and> buf_bit buf' (unat off + i)"
    using get_bits_spec [OF assms(1), of off buf'] assms(2) buf'(2) by auto
  have "u = v" by (rule bit_word_eqI) (use u(2) buf'(3) v in auto)
  with buf' u(1) show ?thesis by auto
qed

lemma set_then_get_bits_witness:
  "\<exists>buf'. xMBUtilSetBits [0xFF, 0x00, 0xAA] 6 5 0x15 = Some buf' \<and> xMBUtilGetBits buf' 6 5 = Some 0x15
    \<and> length buf' = 3"
  using set_then_get_bits [where n = 5 and off = 6 and buf = "[0xFF, 0x00, 0xAA]" and v = "0x15"] by auto

end
