(* ===== verification/Modbus_Funcs.thy ===== *)
theory Modbus_Funcs
  imports Modbus_Common
begin

text \<open>
  The slave's function handlers: \<open>modbus_func_coils.c\<close>, \<open>modbus_func_discrete.c\<close>,
  \<open>modbus_func_input.c\<close>, \<open>modbus_func_holding.c\<close>, and their dispatch in
  \<open>modbus_rtu_request_handler.c\<close>. A PDU is given as the memory from the \<open>pdu\<close> pointer to the end of
  the array that holds it; handlers answer in place. The application's callbacks are parameters that
  act on the memory from the pointer they are given; the locale \<open>modbus_device\<close> states what the
  handlers rely on, and is interpreted on the callbacks of \<open>src/demo/modbus_slave_test.c\<close>.
\<close>

section \<open>Callbacks\<close>

type_synonym 'u mb_result = "(u8 list \<times> 'u \<times> MBErrorCode) option"

record 'u mb_callbacks =
  input_regs_cb :: "u8 \<Rightarrow> u8 list \<Rightarrow> u16 \<Rightarrow> u16 \<Rightarrow> 'u \<Rightarrow> 'u mb_result"
  holding_regs_cb :: "u8 \<Rightarrow> u8 list \<Rightarrow> u16 \<Rightarrow> u16 \<Rightarrow> MBRegisterMode \<Rightarrow> 'u \<Rightarrow> 'u mb_result"
  coil_cb :: "u8 \<Rightarrow> u8 list \<Rightarrow> u16 \<Rightarrow> u16 \<Rightarrow> MBRegisterMode \<Rightarrow> 'u \<Rightarrow> 'u mb_result"
  discrete_cb :: "u8 \<Rightarrow> u8 list \<Rightarrow> u16 \<Rightarrow> u16 \<Rightarrow> 'u \<Rightarrow> 'u mb_result"

text \<open>Calling back with a pointer to offset \<open>off\<close> of the PDU.\<close>

definition at_offset :: "u8 list \<Rightarrow> nat \<Rightarrow> (u8 list \<Rightarrow> 'u mb_result) \<Rightarrow> 'u mb_result" where
  "at_offset pdu off f =
     (if off \<le> length pdu then do {
        (buf, u, e) \<leftarrow> f (drop off pdu);
        Some (take off pdu @ buf, u, e) }
      else None)"

definition rd16 :: "u8 list \<Rightarrow> nat \<Rightarrow> u16 option" where
  "rd16 pdu off = do { h \<leftarrow> mem_load pdu off; l \<leftarrow> mem_load pdu (off + 1); Some (be16 h l) }"

type_synonym 'u mb_reply = "(u8 list \<times> u16 \<times> 'u \<times> MBException) option"

text \<open>The number of bytes for a number of bits, truncated to \<open>uint8_t\<close>.\<close>

definition bit_bytes :: "u16 \<Rightarrow> u8" where
  "bit_bytes cnt = (if cnt AND 0x0007 \<noteq> 0 then ucast (cnt div 8 + 1) else ucast (cnt div 8))"

text \<open>The tail the reading handlers share: function code, byte count, callback, new length.\<close>

definition read_reply :: "u8 \<Rightarrow> u8 \<Rightarrow> u16 \<Rightarrow> (u8 list \<Rightarrow> 'u mb_result) \<Rightarrow> u8 list \<Rightarrow> 'u mb_reply" where
  "read_reply func nbytes add call pdu = do {
     pdu \<leftarrow> mem_store pdu 0 func;
     pdu \<leftarrow> mem_store pdu 1 nbytes;
     (pdu, u, e) \<leftarrow> at_offset pdu 2 call;
     if e \<noteq> MB_ENOERR then Some (pdu, 2, u, prveMBError2Exception e)
     else Some (pdu, 2 + add, u, MB_EX_NONE) }"

section \<open>Coils\<close>

definition modbus_func_handler_read_coils :: "'u mb_callbacks \<Rightarrow> u8 \<Rightarrow> u8 list \<Rightarrow> u16 \<Rightarrow> 'u \<Rightarrow> 'u mb_reply" where
  "modbus_func_handler_read_coils ctx addr pdu len u =
     (if len = 4 + 1 then do {
        a \<leftarrow> rd16 pdu 1;
        cnt \<leftarrow> rd16 pdu 3;
        if cnt \<ge> 1 \<and> cnt < 0x07D0 then
          read_reply MB_FUNC_READ_COILS (bit_bytes cnt) (ucast (bit_bytes cnt))
            (\<lambda>b. coil_cb ctx addr b a cnt MB_REG_READ u) pdu
        else Some (pdu, len, u, MB_EX_ILLEGAL_DATA_VALUE) }
      else Some (pdu, len, u, MB_EX_ILLEGAL_DATA_VALUE))"

definition modbus_func_handler_write_coil :: "'u mb_callbacks \<Rightarrow> u8 \<Rightarrow> u8 list \<Rightarrow> u16 \<Rightarrow> 'u \<Rightarrow> 'u mb_reply" where
  "modbus_func_handler_write_coil ctx addr pdu len u =
     (if len = 4 + 1 then do {
        a \<leftarrow> rd16 pdu 1;
        vl \<leftarrow> mem_load pdu 4;
        vh \<leftarrow> mem_load pdu 3;
        if vl = 0x00 \<and> (vh = 0xFF \<or> vh = 0x00) then do {
          (_, u, e) \<leftarrow> coil_cb ctx addr [if vh = 0xFF then 1 else 0, 0] a 1 MB_REG_WRITE u;
          Some (pdu, len, u, if e \<noteq> MB_ENOERR then prveMBError2Exception e else MB_EX_NONE) }
        else Some (pdu, len, u, MB_EX_ILLEGAL_DATA_VALUE) }
      else Some (pdu, len, u, MB_EX_ILLEGAL_DATA_VALUE))"

definition modbus_func_handler_write_multiple_coils ::
    "'u mb_callbacks \<Rightarrow> u8 \<Rightarrow> u8 list \<Rightarrow> u16 \<Rightarrow> 'u \<Rightarrow> 'u mb_reply" where
  "modbus_func_handler_write_multiple_coils ctx addr pdu len u =
     (if len > 4 + 1 then do {
        a \<leftarrow> rd16 pdu 1;
        cnt \<leftarrow> rd16 pdu 3;
        bc \<leftarrow> mem_load pdu 5;
        if cnt \<ge> 1 \<and> cnt \<le> 0x07B0 \<and> bit_bytes cnt = bc then do {
          (pdu, u, e) \<leftarrow> at_offset pdu 6 (\<lambda>b. coil_cb ctx addr b a cnt MB_REG_WRITE u);
          if e \<noteq> MB_ENOERR then Some (pdu, len, u, prveMBError2Exception e)
          else Some (pdu, 5, u, MB_EX_NONE) }
        else Some (pdu, len, u, MB_EX_ILLEGAL_DATA_VALUE) }
      else Some (pdu, len, u, MB_EX_ILLEGAL_DATA_VALUE))"

section \<open>Discrete inputs and input registers\<close>

definition modbus_func_handler_read_discrete_inputs ::
    "'u mb_callbacks \<Rightarrow> u8 \<Rightarrow> u8 list \<Rightarrow> u16 \<Rightarrow> 'u \<Rightarrow> 'u mb_reply" where
  "modbus_func_handler_read_discrete_inputs ctx addr pdu len u =
     (if len = 4 + 1 then do {
        a \<leftarrow> rd16 pdu 1;
        cnt \<leftarrow> rd16 pdu 3;
        if cnt \<ge> 1 \<and> cnt < 0x07D0 then
          read_reply MB_FUNC_READ_DISCRETE_INPUTS (bit_bytes cnt) (ucast (bit_bytes cnt))
            (\<lambda>b. discrete_cb ctx addr b a cnt u) pdu
        else Some (pdu, len, u, MB_EX_ILLEGAL_DATA_VALUE) }
      else Some (pdu, len, u, MB_EX_ILLEGAL_DATA_VALUE))"

definition modbus_func_handler_read_input_register ::
    "'u mb_callbacks \<Rightarrow> u8 \<Rightarrow> u8 list \<Rightarrow> u16 \<Rightarrow> 'u \<Rightarrow> 'u mb_reply" where
  "modbus_func_handler_read_input_register ctx addr pdu len u =
     (if len = 4 + 1 then do {
        a \<leftarrow> rd16 pdu 1;
        cnt \<leftarrow> rd16 pdu 3;
        if cnt \<ge> 1 \<and> cnt < 0x007D then
          read_reply MB_FUNC_READ_INPUT_REGISTER (ucast (cnt * 2)) (cnt * 2)
            (\<lambda>b. input_regs_cb ctx addr b a cnt u) pdu
        else Some (pdu, len, u, MB_EX_ILLEGAL_DATA_VALUE) }
      else Some (pdu, len, u, MB_EX_ILLEGAL_DATA_VALUE))"

section \<open>Holding registers\<close>

definition modbus_func_handler_write_holding_register ::
    "'u mb_callbacks \<Rightarrow> u8 \<Rightarrow> u8 list \<Rightarrow> u16 \<Rightarrow> 'u \<Rightarrow> 'u mb_reply" where
  "modbus_func_handler_write_holding_register ctx addr pdu len u =
     (if len = 4 + 1 then do {
        a \<leftarrow> rd16 pdu 1;
        (pdu, u, e) \<leftarrow> at_offset pdu 3 (\<lambda>b. holding_regs_cb ctx addr b a 1 MB_REG_WRITE u);
        Some (pdu, len, u, if e \<noteq> MB_ENOERR then prveMBError2Exception e else MB_EX_NONE) }
      else Some (pdu, len, u, MB_EX_ILLEGAL_DATA_VALUE))"

definition modbus_func_handler_write_multiple_holding_registers ::
    "'u mb_callbacks \<Rightarrow> u8 \<Rightarrow> u8 list \<Rightarrow> u16 \<Rightarrow> 'u \<Rightarrow> 'u mb_reply" where
  "modbus_func_handler_write_multiple_holding_registers ctx addr pdu len u =
     (if len \<ge> 5 + 1 then do {
        a \<leftarrow> rd16 pdu 1;
        cnt \<leftarrow> rd16 pdu 3;
        bc \<leftarrow> mem_load pdu 5;
        if cnt \<ge> 1 \<and> cnt \<le> 0x0078 \<and> bc = ucast (2 * cnt) then do {
          (pdu, u, e) \<leftarrow> at_offset pdu 6 (\<lambda>b. holding_regs_cb ctx addr b a cnt MB_REG_WRITE u);
          if e \<noteq> MB_ENOERR then Some (pdu, len, u, prveMBError2Exception e)
          else Some (pdu, 5, u, MB_EX_NONE) }
        else Some (pdu, len, u, MB_EX_ILLEGAL_DATA_VALUE) }
      else Some (pdu, len, u, MB_EX_ILLEGAL_DATA_VALUE))"

text \<open>The count is assigned twice: the second assignment overwrites the high byte.\<close>

definition modbus_func_handler_read_holding_register ::
    "'u mb_callbacks \<Rightarrow> u8 \<Rightarrow> u8 list \<Rightarrow> u16 \<Rightarrow> 'u \<Rightarrow> 'u mb_reply" where
  "modbus_func_handler_read_holding_register ctx addr pdu len u =
     (if len = 4 + 1 then do {
        a \<leftarrow> rd16 pdu 1;
        _ \<leftarrow> mem_load pdu 3;
        cl \<leftarrow> mem_load pdu 4;
        let cnt = (ucast cl :: u16);
        if cnt \<ge> 1 \<and> cnt \<le> 0x007D then
          read_reply MB_FUNC_READ_HOLDING_REGISTER (ucast (cnt * 2)) (cnt * 2)
            (\<lambda>b. holding_regs_cb ctx addr b a cnt MB_REG_READ u) pdu
        else Some (pdu, len, u, MB_EX_ILLEGAL_DATA_VALUE) }
      else Some (pdu, len, u, MB_EX_ILLEGAL_DATA_VALUE))"

text \<open>A request that is too short is not an error here: the status is still \<open>MB_EX_NONE\<close>.\<close>

definition modbus_func_handler_read_write_multiple_holding_registers ::
    "'u mb_callbacks \<Rightarrow> u8 \<Rightarrow> u8 list \<Rightarrow> u16 \<Rightarrow> 'u \<Rightarrow> 'u mb_reply" where
  "modbus_func_handler_read_write_multiple_holding_registers ctx addr pdu len u =
     (if len \<ge> 9 + 1 then do {
        ra \<leftarrow> rd16 pdu 1;
        rc \<leftarrow> rd16 pdu 3;
        wa \<leftarrow> rd16 pdu 5;
        wc \<leftarrow> rd16 pdu 7;
        bc \<leftarrow> mem_load pdu 9;
        if rc \<ge> 1 \<and> rc \<le> 0x7D \<and> wc \<ge> 1 \<and> wc \<le> 0x79 \<and> 2 * unat wc = unat bc then do {
          (pdu, u, e) \<leftarrow> at_offset pdu 10 (\<lambda>b. holding_regs_cb ctx addr b wa wc MB_REG_WRITE u);
          if e = MB_ENOERR then
            read_reply MB_FUNC_READWRITE_MULTIPLE_REGISTERS (ucast (rc * 2)) (2 * rc)
              (\<lambda>b. holding_regs_cb ctx addr b ra rc MB_REG_READ u) pdu
          else Some (pdu, len, u, prveMBError2Exception e) }
        else Some (pdu, len, u, MB_EX_ILLEGAL_DATA_VALUE) }
      else Some (pdu, len, u, MB_EX_NONE))"

section \<open>Dispatch\<close>

definition modbus_func_dispatch :: "'u mb_callbacks \<Rightarrow> u8 \<Rightarrow> u8 \<Rightarrow> u8 list \<Rightarrow> u16 \<Rightarrow> 'u \<Rightarrow> 'u mb_reply" where
  "modbus_func_dispatch ctx func addr pdu len u =
     (if func = MB_FUNC_READ_INPUT_REGISTER then modbus_func_handler_read_input_register ctx addr pdu len u
      else if func = MB_FUNC_READ_HOLDING_REGISTER then modbus_func_handler_read_holding_register ctx addr pdu len u
      else if func = MB_FUNC_WRITE_MULTIPLE_REGISTERS then
        modbus_func_handler_write_multiple_holding_registers ctx addr pdu len u
      else if func = MB_FUNC_WRITE_REGISTER then modbus_func_handler_write_holding_register ctx addr pdu len u
      else if func = MB_FUNC_READWRITE_MULTIPLE_REGISTERS then
        modbus_func_handler_read_write_multiple_holding_registers ctx addr pdu len u
      else if func = MB_FUNC_READ_COILS then modbus_func_handler_read_coils ctx addr pdu len u
      else if func = MB_FUNC_WRITE_SINGLE_COIL then modbus_func_handler_write_coil ctx addr pdu len u
      else if func = MB_FUNC_WRITE_MULTIPLE_COILS then modbus_func_handler_write_multiple_coils ctx addr pdu len u
      else if func = MB_FUNC_READ_DISCRETE_INPUTS then modbus_func_handler_read_discrete_inputs ctx addr pdu len u
      else Some (pdu, len, u, MB_EX_ILLEGAL_FUNCTION))"

definition modbus_rtu_handler_request_rx ::
    "'u mb_callbacks \<Rightarrow> u8 \<Rightarrow> u16 \<Rightarrow> u8 list \<Rightarrow> 'u \<Rightarrow> (u8 list \<times> u16 \<times> 'u \<times> bool) option" where
  "modbus_rtu_handler_request_rx ctx addr len pdu u = do {
     func \<leftarrow> mem_load pdu 0;
     (pdu, len, u, ret) \<leftarrow> modbus_func_dispatch ctx func addr pdu len u;
     if ret \<noteq> MB_EX_NONE then do {
       pdu \<leftarrow> mem_store pdu 0 (func OR MB_FUNC_ERROR);
       pdu \<leftarrow> mem_store pdu 1 (mb_ex_code ret);
       Some (pdu, 2, u, False) }
     else Some (pdu, len, u, True) }"

lemmas reg_handler_defs = modbus_func_handler_read_input_register_def
  modbus_func_handler_read_holding_register_def modbus_func_handler_write_multiple_holding_registers_def
  modbus_func_handler_write_holding_register_def
  modbus_func_handler_read_write_multiple_holding_registers_def

lemmas bit_handler_defs = modbus_func_handler_read_coils_def modbus_func_handler_write_coil_def
  modbus_func_handler_write_multiple_coils_def modbus_func_handler_read_discrete_inputs_def

section \<open>The contract of the callbacks\<close>

definition bits_len :: "u16 \<Rightarrow> nat" where
  "bits_len n = (unat n + 7) div 8"

locale modbus_device =
  fixes ctx :: "'u mb_callbacks"
  assumes input_read: "2 * unat n \<le> length buf \<Longrightarrow>
      \<exists>out u' e. input_regs_cb ctx addr buf a n u = Some (out @ drop (2 * unat n) buf, u', e)
        \<and> length out = 2 * unat n"
    and discrete_read: "bits_len n \<le> length buf \<Longrightarrow>
      \<exists>out u' e. discrete_cb ctx addr buf a n u = Some (out @ drop (bits_len n) buf, u', e)
        \<and> length out = bits_len n"
    and holding_read: "2 * unat n \<le> length buf \<Longrightarrow>
      \<exists>out u' e. holding_regs_cb ctx addr buf a n MB_REG_READ u = Some (out @ drop (2 * unat n) buf, u', e)
        \<and> length out = 2 * unat n"
    and holding_write: "2 * unat n \<le> length buf \<Longrightarrow>
      \<exists>u' e. holding_regs_cb ctx addr buf a n MB_REG_WRITE u = Some (buf, u', e)"
    and coil_read: "bits_len n \<le> length buf \<Longrightarrow>
      \<exists>out u' e. coil_cb ctx addr buf a n MB_REG_READ u = Some (out @ drop (bits_len n) buf, u', e)
        \<and> length out = bits_len n"
    and coil_write: "bits_len n \<le> length buf \<Longrightarrow>
      \<exists>u' e. coil_cb ctx addr buf a n MB_REG_WRITE u = Some (buf, u', e)"

section \<open>Shared facts\<close>

text \<open>A reading handler's reply: header, the callback's bytes, and the untouched rest.\<close>

lemma read_reply_eq:
  assumes "call (drop 2 pdu) = Some (out @ drop n (drop 2 pdu), u', e)" "2 + n \<le> length pdu"
  shows "read_reply func nb add call pdu = Some ([func, nb] @ out @ drop (2 + n) pdu,
    if e = MB_ENOERR then 2 + add else 2, u', prveMBError2Exception e)"
proof -
  obtain x y rest where pdu: "pdu = x # y # rest"
    using assms(2) by (cases pdu; cases "tl pdu") auto
  then show ?thesis using assms
    by (auto simp: read_reply_def mem_store_def at_offset_def numeral_2_eq_2 prveMBError2Exception.simps(1))
qed

lemma at_offset_same:
  "f (drop off pdu) = Some (drop off pdu, u', e) \<Longrightarrow> off \<le> length pdu \<Longrightarrow> at_offset pdu off f = Some (pdu, u', e)"
  by (simp add: at_offset_def)

lemma rd16_in: "off + 1 < length pdu \<Longrightarrow> rd16 pdu off = Some (be16 (pdu ! off) (pdu ! (off + 1)))"
  by (simp add: rd16_def)

lemma ceil_div8: "(n + 7) div 8 = (if n mod 8 \<noteq> 0 then n div 8 + 1 else n div 8)" for n :: nat
proof -
  define q r where "q = n div 8" and "r = n mod 8"
  then have n: "n = 8 * q + r" "r < 8" by simp_all
  have "(8 * q + r + 7) div 8 = (if r \<noteq> 0 then q + 1 else q)"
    using n(2) by (intro div_nat_eqI) auto
  then show ?thesis unfolding q_def r_def by simp
qed

lemma unat_bit_bytes:
  assumes "cnt \<le> 2000"
  shows "unat (bit_bytes cnt) = bits_len cnt"
proof -
  have c: "unat cnt \<le> 2000" using assms by (simp add: word_le_nat_alt)
  have "(7 :: u16) = mask 3" by (simp add: mask_eq_exp_minus_1)
  then have "cnt AND 7 = take_bit 3 cnt" by (simp only: take_bit_eq_mask)
  then have "unat (cnt AND 7) = take_bit 3 (unat cnt)" by (simp only: unsigned_take_bit_eq)
  then have mod: "cnt AND 7 \<noteq> 0 \<longleftrightarrow> unat cnt mod 8 \<noteq> 0"
    by (simp add: take_bit_eq_mod unat_eq_zero [symmetric] del: unat_eq_zero)
  have q: "unat (cnt div 8) = unat cnt div 8" by (simp add: unat_div)
  have "unat (cnt div 8 + 1) = unat cnt div 8 + 1"
    using q c by (simp add: unat_word_ariths)
  then have "unat (ucast (cnt div 8 + 1) :: u8) = unat cnt div 8 + 1"
    "unat (ucast (cnt div 8) :: u8) = unat cnt div 8"
    using q c by (simp_all add: unsigned_ucast_eq take_bit_eq_mod)
  moreover note ceil_div8 [of "unat cnt"]
  ultimately show ?thesis using mod by (auto simp: bit_bytes_def bits_len_def)
qed

section \<open>Safety of the handlers\<close>

text \<open>
  A safe reply: defined, the array keeps its length and everything behind the PDU area, the reply
  fits a PDU, and its first byte is the function code.
\<close>

definition safe_reply :: "u8 list \<Rightarrow> 'u mb_reply \<Rightarrow> bool" where
  "safe_reply pdu r \<longleftrightarrow> (\<exists>p l u ex. r = Some (p, l, u, ex) \<and> length p = length pdu
     \<and> drop MB_PDU_SIZE_MAX p = drop MB_PDU_SIZE_MAX pdu \<and> 1 \<le> unat l \<and> unat l \<le> MB_PDU_SIZE_MAX \<and> p ! 0 = pdu ! 0)"

lemma safe_replyI:
  "length p = length pdu \<Longrightarrow> drop 253 p = drop 253 pdu \<Longrightarrow> 1 \<le> unat l \<Longrightarrow> unat l \<le> 253 \<Longrightarrow> p ! 0 = pdu ! 0
    \<Longrightarrow> safe_reply pdu (Some (p, l, u, ex))"
  by (simp add: safe_reply_def MB_PDU_SIZE_MAX_def)

lemma safe_read_reply:
  assumes call: "\<exists>out u' e. call (drop 2 pdu) = Some (out @ drop n (drop 2 pdu), u', e) \<and> length out = n"
    and n: "n \<le> 251" "253 \<le> length pdu" and add: "unat add = n" and f: "pdu ! 0 = func"
  shows "safe_reply pdu (read_reply func nb add call pdu)"
proof -
  obtain out u' e where c: "call (drop 2 pdu) = Some (out @ drop n (drop 2 pdu), u', e)" "length out = n"
    using call by blast
  have "unat (2 + add) = 2 + n" using add n by (simp add: unat_word_ariths)
  moreover have "drop 253 ([func, nb] @ out @ drop (2 + n) pdu) = drop 253 pdu"
    using c(2) n by simp
  ultimately show ?thesis
    using c n f by (subst read_reply_eq [where n = n]) (auto intro!: safe_replyI)
qed

lemma unat_double: "cnt \<le> 125 \<Longrightarrow> unat (cnt * 2) = 2 * unat cnt" for cnt :: u16
  by (simp add: word_le_nat_alt unat_word_ariths)

lemma small_bits_len: "cnt \<le> 2000 \<Longrightarrow> bits_len cnt \<le> 250"
  by (simp add: bits_len_def word_le_nat_alt)

text \<open>A write that leaves the buffer alone answers with the request's own bytes.\<close>

lemma safe_write_reply:
  assumes "\<exists>u' e. f (drop off pdu) = Some (drop off pdu, u', e)" "off \<le> length pdu" "253 \<le> length pdu"
    "1 \<le> unat len" "unat len \<le> 253" "1 \<le> unat len'" "unat len' \<le> 253"
  shows "safe_reply pdu (do { (pdu, u, e) \<leftarrow> at_offset pdu off f;
      if e \<noteq> MB_ENOERR then Some (pdu, len, u, prveMBError2Exception e) else Some (pdu, len', u, MB_EX_NONE) })"
  using assms by (auto simp: at_offset_same intro!: safe_replyI)

context modbus_device
begin

lemma read_coils_reply_safe:
  assumes "253 \<le> length pdu" "pdu ! 0 = func" "cnt \<le> 2000"
  shows "safe_reply pdu (read_reply func (bit_bytes cnt) (ucast (bit_bytes cnt))
      (\<lambda>b. coil_cb ctx addr b a cnt MB_REG_READ u) pdu)"
    "safe_reply pdu (read_reply func (bit_bytes cnt) (ucast (bit_bytes cnt))
      (\<lambda>b. discrete_cb ctx addr b a cnt u) pdu)"
  using assms small_bits_len [OF assms(3)] unat_bit_bytes [OF assms(3)]
  by (intro safe_read_reply [where n = "bits_len cnt"] coil_read discrete_read; simp)+

lemma read_regs_reply_safe:
  assumes "253 \<le> length pdu" "pdu ! 0 = func" "cnt \<le> 125"
  shows "safe_reply pdu (read_reply func nb (cnt * 2) (\<lambda>b. holding_regs_cb ctx addr b a cnt MB_REG_READ u) pdu)"
    "safe_reply pdu (read_reply func nb (cnt * 2) (\<lambda>b. input_regs_cb ctx addr b a cnt u) pdu)"
proof -
  have "unat cnt \<le> 125" using assms(3) by (simp add: word_le_nat_alt)
  then show "safe_reply pdu (read_reply func nb (cnt * 2) (\<lambda>b. holding_regs_cb ctx addr b a cnt MB_REG_READ u) pdu)"
    "safe_reply pdu (read_reply func nb (cnt * 2) (\<lambda>b. input_regs_cb ctx addr b a cnt u) pdu)"
    using assms unat_double [OF assms(3)]
    by (intro safe_read_reply [where n = "2 * unat cnt"] holding_read input_read; simp)+
qed

lemma bit_handlers_safe:
  assumes "253 \<le> length pdu" "1 \<le> unat len" "unat len \<le> 253"
  shows "pdu ! 0 = MB_FUNC_READ_COILS \<Longrightarrow> safe_reply pdu (modbus_func_handler_read_coils ctx addr pdu len u)"
    "pdu ! 0 = MB_FUNC_READ_DISCRETE_INPUTS \<Longrightarrow>
      safe_reply pdu (modbus_func_handler_read_discrete_inputs ctx addr pdu len u)"
    "safe_reply pdu (modbus_func_handler_write_multiple_coils ctx addr pdu len u)"
    "safe_reply pdu (modbus_func_handler_write_coil ctx addr pdu len u)"
proof -
  have keep: "safe_reply pdu (Some (pdu, len, u, ex))" for u :: 'u and ex
    using assms by (intro safe_replyI) simp_all
  have rd: "rd16 pdu 1 = Some (be16 (pdu ! 1) (pdu ! 2))" "rd16 pdu 3 = Some (be16 (pdu ! 3) (pdu ! 4))"
    using assms by (simp_all add: rd16_in numeral_2_eq_2)
  show "safe_reply pdu (modbus_func_handler_read_coils ctx addr pdu len u)" if "pdu ! 0 = MB_FUNC_READ_COILS"
    using assms rd keep read_coils_reply_safe(1) [OF assms(1) that]
    by (auto simp: modbus_func_handler_read_coils_def Let_def simp del: bind_option_Some_iff)
  show "safe_reply pdu (modbus_func_handler_read_discrete_inputs ctx addr pdu len u)"
    if "pdu ! 0 = MB_FUNC_READ_DISCRETE_INPUTS"
    using assms rd keep read_coils_reply_safe(2) [OF assms(1) that]
    by (auto simp: modbus_func_handler_read_discrete_inputs_def Let_def simp del: bind_option_Some_iff)
  have "bits_len cnt \<le> length pdu - 6" if "cnt \<le> 1968" for cnt
    using that assms(1) by (simp add: bits_len_def word_le_nat_alt)
  then show "safe_reply pdu (modbus_func_handler_write_multiple_coils ctx addr pdu len u)"
    using assms rd keep
    by (auto simp: modbus_func_handler_write_multiple_coils_def simp del: bind_option_Some_iff
        intro!: safe_write_reply coil_write)
  obtain u1 e1 where "coil_cb ctx addr [if pdu ! 3 = 0xFF then 1 else 0, 0] (be16 (pdu ! 1) (pdu ! 2)) 1
      MB_REG_WRITE u = Some ([if pdu ! 3 = 0xFF then 1 else 0, 0], u1, e1)"
  proof -
    have "bits_len 1 \<le> length [if pdu ! 3 = 0xFF then 1 else 0 :: u8, 0]" by (simp add: bits_len_def)
    from coil_write [OF this] that show thesis by blast
  qed
  then show "safe_reply pdu (modbus_func_handler_write_coil ctx addr pdu len u)"
    using assms rd keep by (auto simp: modbus_func_handler_write_coil_def simp del: bind_option_Some_iff)
qed

lemma reg_handlers_safe:
  assumes "253 \<le> length pdu" "1 \<le> unat len" "unat len \<le> 253"
  shows "pdu ! 0 = MB_FUNC_READ_INPUT_REGISTER \<Longrightarrow>
      safe_reply pdu (modbus_func_handler_read_input_register ctx addr pdu len u)"
    "pdu ! 0 = MB_FUNC_READ_HOLDING_REGISTER \<Longrightarrow>
      safe_reply pdu (modbus_func_handler_read_holding_register ctx addr pdu len u)"
    "safe_reply pdu (modbus_func_handler_write_multiple_holding_registers ctx addr pdu len u)"
    "safe_reply pdu (modbus_func_handler_write_holding_register ctx addr pdu len u)"
    "pdu ! 0 = MB_FUNC_READWRITE_MULTIPLE_REGISTERS \<Longrightarrow>
      safe_reply pdu (modbus_func_handler_read_write_multiple_holding_registers ctx addr pdu len u)"
proof -
  have keep: "safe_reply pdu (Some (pdu, len, u, ex))" for u :: 'u and ex
    using assms by (intro safe_replyI) simp_all
  have rd: "rd16 pdu 1 = Some (be16 (pdu ! 1) (pdu ! 2))" "rd16 pdu 3 = Some (be16 (pdu ! 3) (pdu ! 4))"
    "rd16 pdu 5 = Some (be16 (pdu ! 5) (pdu ! 6))" "rd16 pdu 7 = Some (be16 (pdu ! 7) (pdu ! 8))"
    using assms by (simp_all add: rd16_in numeral_2_eq_2)
  show "safe_reply pdu (modbus_func_handler_read_input_register ctx addr pdu len u)"
    if "pdu ! 0 = MB_FUNC_READ_INPUT_REGISTER"
    using assms rd keep read_regs_reply_safe(2) [OF assms(1) that]
    by (auto simp: modbus_func_handler_read_input_register_def Let_def simp del: bind_option_Some_iff)
  show "safe_reply pdu (modbus_func_handler_read_holding_register ctx addr pdu len u)"
    if "pdu ! 0 = MB_FUNC_READ_HOLDING_REGISTER"
    using assms rd keep read_regs_reply_safe(1) [OF assms(1) that]
    by (auto simp: modbus_func_handler_read_holding_register_def Let_def simp del: bind_option_Some_iff)
  have small: "2 * unat cnt \<le> 242" if "cnt \<le> 121" for cnt :: u16
    using that by (simp add: word_le_nat_alt)
  have small': "2 * unat cnt \<le> length pdu - 6" if "cnt \<le> 120" for cnt :: u16
    using that assms(1) by (simp add: word_le_nat_alt)
  show "safe_reply pdu (modbus_func_handler_write_multiple_holding_registers ctx addr pdu len u)"
    using assms rd keep small'
    by (auto simp: modbus_func_handler_write_multiple_holding_registers_def simp del: bind_option_Some_iff
        intro!: safe_write_reply holding_write)
  obtain u1 e1 where "holding_regs_cb ctx addr (drop 3 pdu) (be16 (pdu ! 1) (pdu ! 2)) 1 MB_REG_WRITE u
      = Some (drop 3 pdu, u1, e1)"
  proof -
    have "2 * unat (1 :: u16) \<le> length (drop 3 pdu)" using assms(1) by simp
    from holding_write [OF this] that show thesis by blast
  qed
  then show "safe_reply pdu (modbus_func_handler_write_holding_register ctx addr pdu len u)"
    using assms rd keep
    by (auto simp: modbus_func_handler_write_holding_register_def at_offset_same simp del: bind_option_Some_iff)
  show "safe_reply pdu (modbus_func_handler_read_write_multiple_holding_registers ctx addr pdu len u)"
    if f: "pdu ! 0 = MB_FUNC_READWRITE_MULTIPLE_REGISTERS"
  proof -
    have "safe_reply pdu (do {
        (pdu, u, e) \<leftarrow> at_offset pdu 10 (\<lambda>b. holding_regs_cb ctx addr b wa wc MB_REG_WRITE u);
        if e = MB_ENOERR then read_reply MB_FUNC_READWRITE_MULTIPLE_REGISTERS (ucast (rc * 2)) (2 * rc)
            (\<lambda>b. holding_regs_cb ctx addr b ra rc MB_REG_READ u) pdu
        else Some (pdu, len, u, prveMBError2Exception e) })"
      if "wc \<le> 121" "rc \<le> 125" for wa wc ra rc
    proof -
      have "2 * unat wc \<le> length (drop 10 pdu)" using small [OF that(1)] assms(1) by simp
      from holding_write [OF this] obtain u' e where
        "holding_regs_cb ctx addr (drop 10 pdu) wa wc MB_REG_WRITE u = Some (drop 10 pdu, u', e)" by blast
      with assms(1) have "at_offset pdu 10 (\<lambda>b. holding_regs_cb ctx addr b wa wc MB_REG_WRITE u) = Some (pdu, u', e)"
        using at_offset_same [of "\<lambda>b. holding_regs_cb ctx addr b wa wc MB_REG_WRITE u" 10 pdu] by auto
      then show ?thesis
        using keep read_regs_reply_safe(1) [OF assms(1) f that(2)] by (simp add: mult.commute [of 2])
    qed
    then show ?thesis
      using assms rd keep
      by (simp add: modbus_func_handler_read_write_multiple_holding_registers_def del: bind_option_Some_iff)
  qed
qed

end

section \<open>Safety of a request\<close>

lemma exception_reply:
  assumes "length p = length pdu" "drop 253 p = drop 253 pdu" "253 \<le> length pdu"
  shows "\<exists>p'. do { q \<leftarrow> mem_store p 0 a; q \<leftarrow> mem_store q 1 b; Some (q, 2 :: u16, u, False) } = Some (p', 2, u, False)
    \<and> length p' = length pdu \<and> drop 253 p' = drop 253 pdu \<and> p' ! 0 = a \<and> p' ! 1 = b"
  using assms by (auto simp: mem_store_def drop_update_cancel)

context modbus_device
begin

lemma dispatch_safe:
  assumes "253 \<le> length pdu" "1 \<le> unat len" "unat len \<le> 253" "pdu ! 0 = func"
  shows "safe_reply pdu (modbus_func_dispatch ctx func addr pdu len u)"
proof -
  note bits = bit_handlers_safe [OF assms(1-3), of addr u]
  note regs = reg_handlers_safe [OF assms(1-3), of addr u]
  have keep: "safe_reply pdu (Some (pdu, len, u, ex))" for ex
    using assms by (intro safe_replyI) simp_all
  show ?thesis
    using assms(4) bits regs keep by (simp add: modbus_func_dispatch_def)
qed

text \<open>
  Every request leads to a reply in place: an answer of at most 253 bytes under the request's
  function code, or a two-byte exception.
\<close>

lemma request_rx_safe:
  assumes "253 \<le> length pdu" "1 \<le> unat len" "unat len \<le> 253"
  shows "\<exists>p l u' ok. modbus_rtu_handler_request_rx ctx addr len pdu u = Some (p, l, u', ok)
    \<and> length p = length pdu \<and> drop 253 p = drop 253 pdu \<and> 1 \<le> unat l \<and> unat l \<le> 253
    \<and> (ok \<longrightarrow> p ! 0 = pdu ! 0)
    \<and> (\<not> ok \<longrightarrow> l = 2 \<and> p ! 0 = pdu ! 0 OR MB_FUNC_ERROR \<and> (\<exists>ex. ex \<noteq> MB_EX_NONE \<and> p ! 1 = mb_ex_code ex))"
proof -
  obtain p l u' ex where r: "modbus_func_dispatch ctx (pdu ! 0) addr pdu len u = Some (p, l, u', ex)"
      "length p = length pdu" "drop 253 p = drop 253 pdu" "1 \<le> unat l" "unat l \<le> 253" "p ! 0 = pdu ! 0"
    using dispatch_safe [OF assms refl, of addr u] by (auto simp: safe_reply_def MB_PDU_SIZE_MAX_def)
  have load: "mem_load pdu 0 = Some (pdu ! 0)" using assms(1) by (intro mem_load_in) linarith
  show ?thesis
  proof (cases "ex = MB_EX_NONE")
    case True
    then show ?thesis using r load by (simp add: modbus_rtu_handler_request_rx_def ex_bool_eq)
  next
    case False
    obtain p' where p': "do { q \<leftarrow> mem_store p 0 (pdu ! 0 OR MB_FUNC_ERROR); q \<leftarrow> mem_store q 1 (mb_ex_code ex);
        Some (q, 2 :: u16, u', False) } = Some (p', 2, u', False) \<and> length p' = length pdu
        \<and> drop 253 p' = drop 253 pdu \<and> p' ! 0 = pdu ! 0 OR MB_FUNC_ERROR \<and> p' ! 1 = mb_ex_code ex"
      using exception_reply [OF r(2,3) assms(1)] by (rule exE)
    then have "modbus_rtu_handler_request_rx ctx addr len pdu u = Some (p', 2, u', False)"
      using False r(1) load by (simp add: modbus_rtu_handler_request_rx_def)
    with p' False show ?thesis by auto
  qed
qed

end

section \<open>The callbacks of the demo\<close>

text \<open>\<open>src/demo/modbus_slave_test.c\<close>: every callback traces its arguments and accepts.\<close>

definition demo_input_regs_cb :: "u8 \<Rightarrow> u8 list \<Rightarrow> u16 \<Rightarrow> u16 \<Rightarrow> 'u \<Rightarrow> 'u mb_result" where
  "demo_input_regs_cb addr buf a n u = Some (buf, u, MB_ENOERR)"

definition demo_holding_regs_cb :: "u8 \<Rightarrow> u8 list \<Rightarrow> u16 \<Rightarrow> u16 \<Rightarrow> MBRegisterMode \<Rightarrow> 'u \<Rightarrow> 'u mb_result" where
  "demo_holding_regs_cb addr buf a n mode u = Some (buf, u, MB_ENOERR)"

definition demo_coil_cb :: "u8 \<Rightarrow> u8 list \<Rightarrow> u16 \<Rightarrow> u16 \<Rightarrow> MBRegisterMode \<Rightarrow> 'u \<Rightarrow> 'u mb_result" where
  "demo_coil_cb addr buf a n mode u = Some (buf, u, MB_ENOERR)"

definition demo_discrete_cb :: "u8 \<Rightarrow> u8 list \<Rightarrow> u16 \<Rightarrow> u16 \<Rightarrow> 'u \<Rightarrow> 'u mb_result" where
  "demo_discrete_cb addr buf a n u = Some (buf, u, MB_ENOERR)"

definition demo_callbacks :: "'u mb_callbacks" where
  "demo_callbacks = \<lparr>input_regs_cb = demo_input_regs_cb, holding_regs_cb = demo_holding_regs_cb,
     coil_cb = demo_coil_cb, discrete_cb = demo_discrete_cb\<rparr>"

text \<open>\<open>modbus_def_user.c\<close>: the default callbacks refuse everything with an I/O error.\<close>

definition modbus_user_coil_cb :: "u8 \<Rightarrow> u8 list \<Rightarrow> u16 \<Rightarrow> u16 \<Rightarrow> MBRegisterMode \<Rightarrow> 'u \<Rightarrow> 'u mb_result" where
  "modbus_user_coil_cb addr buf a n mode u = Some (buf, u, MB_EIO)"

definition modbus_user_holding_cb :: "u8 \<Rightarrow> u8 list \<Rightarrow> u16 \<Rightarrow> u16 \<Rightarrow> MBRegisterMode \<Rightarrow> 'u \<Rightarrow> 'u mb_result" where
  "modbus_user_holding_cb addr buf a n mode u = Some (buf, u, MB_EIO)"

definition modbus_user_input_cb :: "u8 \<Rightarrow> u8 list \<Rightarrow> u16 \<Rightarrow> u16 \<Rightarrow> 'u \<Rightarrow> 'u mb_result" where
  "modbus_user_input_cb addr buf a n u = Some (buf, u, MB_EIO)"

definition modbus_user_discrete_cb :: "u8 \<Rightarrow> u8 list \<Rightarrow> u16 \<Rightarrow> u16 \<Rightarrow> 'u \<Rightarrow> 'u mb_result" where
  "modbus_user_discrete_cb addr buf a n u = Some (buf, u, MB_EIO)"

definition default_callbacks :: "'u mb_callbacks" where
  "default_callbacks = \<lparr>input_regs_cb = modbus_user_input_cb, holding_regs_cb = modbus_user_holding_cb,
     coil_cb = modbus_user_coil_cb, discrete_cb = modbus_user_discrete_cb\<rparr>"

lemma keeps_buffer: "n \<le> length buf \<Longrightarrow> \<exists>out. buf = out @ drop n buf \<and> length out = n"
  by (intro exI [of _ "take n buf"]) simp

interpretation demo_device: modbus_device demo_callbacks
  by unfold_locales
    (simp_all add: demo_callbacks_def demo_input_regs_cb_def demo_holding_regs_cb_def demo_coil_cb_def
      demo_discrete_cb_def keeps_buffer)

interpretation default_device: modbus_device default_callbacks
  by unfold_locales
    (simp_all add: default_callbacks_def modbus_user_input_cb_def modbus_user_holding_cb_def
      modbus_user_coil_cb_def modbus_user_discrete_cb_def keeps_buffer)

section \<open>Properties\<close>

text \<open>
  C1: With callbacks that keep their contract, every request PDU of 1 to 253 bytes in an array of at
  least 253 is answered in place without an access outside the array and without touching what lies
  behind the PDU area: either by at most 253 bytes under the same function code, or by the two-byte
  exception with the function code's error bit and a proper exception code.
\<close>

theorem modbus_request_safe:
  assumes "modbus_device ctx" "253 \<le> length pdu" "1 \<le> unat len" "unat len \<le> 253"
  shows "\<exists>p l u' ok. modbus_rtu_handler_request_rx ctx addr len pdu u = Some (p, l, u', ok)
    \<and> length p = length pdu \<and> drop 253 p = drop 253 pdu \<and> 1 \<le> unat l \<and> unat l \<le> 253
    \<and> (ok \<longrightarrow> p ! 0 = pdu ! 0)
    \<and> (\<not> ok \<longrightarrow> l = 2 \<and> p ! 0 = pdu ! 0 OR MB_FUNC_ERROR \<and> (\<exists>ex. ex \<noteq> MB_EX_NONE \<and> p ! 1 = mb_ex_code ex))"
  by (rule modbus_device.request_rx_safe [OF assms])

lemma modbus_request_safe_witness:
  "\<exists>p l u' ok. modbus_rtu_handler_request_rx demo_callbacks 1 6 ([16, 0, 0, 0, 2, 4] @ replicate 249 7) ()
      = Some (p, l, u', ok) \<and> length p = 255 \<and> drop 253 p = replicate 2 7 \<and> unat l \<le> 253"
proof -
  let ?pdu = "[16, 0, 0, 0, 2, 4] @ replicate 249 (7 :: u8)"
  have "253 \<le> length ?pdu" "1 \<le> unat (6 :: u16)" "unat (6 :: u16) \<le> 253" by simp_all
  from modbus_request_safe [OF demo_device.modbus_device_axioms this, of 1 "()"]
  show ?thesis by (elim exE conjE, intro exI conjI) (assumption, simp_all)
qed

text \<open>
  Reading input registers: with a count of 1 to 124 the callback is asked for exactly that many
  registers from the requested address, and its bytes are returned behind the function code and the
  byte count, or its error as an exception; any other count is refused as an illegal data value
  without calling it.
\<close>

theorem read_input_register_reply:
  assumes "pdu = [MB_FUNC_READ_INPUT_REGISTER, ah, al, ch, cl] @ rest" "cnt = be16 ch cl"
    and "cnt \<ge> 1 \<and> cnt < 125 \<Longrightarrow> input_regs_cb ctx addr (drop 2 pdu) (be16 ah al) cnt u
        = Some (out @ drop (2 * unat cnt) (drop 2 pdu), u', e)"
    and "length out = 2 * unat cnt" "2 + 2 * unat cnt \<le> length pdu"
  shows "modbus_rtu_handler_request_rx ctx addr 5 pdu u =
    (if \<not> (cnt \<ge> 1 \<and> cnt < 125) then
       Some ([MB_FUNC_READ_INPUT_REGISTER OR MB_FUNC_ERROR, mb_ex_code MB_EX_ILLEGAL_DATA_VALUE] @ drop 2 pdu, 2, u, False)
     else if e = MB_ENOERR then
       Some ([MB_FUNC_READ_INPUT_REGISTER, ucast (cnt * 2)] @ out @ drop (2 + length out) pdu, 2 + cnt * 2, u', True)
     else Some ([MB_FUNC_READ_INPUT_REGISTER OR MB_FUNC_ERROR, mb_ex_code (prveMBError2Exception e)]
         @ out @ drop (2 + length out) pdu, 2, u', False))"
proof -
  have rd: "rd16 pdu 1 = Some (be16 ah al)" "rd16 pdu 3 = Some cnt" "mem_load pdu 0 = Some MB_FUNC_READ_INPUT_REGISTER"
    using assms(1,2) by (simp_all add: rd16_def numeral_2_eq_2 numeral_3_eq_3)
  have disp: "modbus_func_dispatch ctx MB_FUNC_READ_INPUT_REGISTER addr pdu 5 u
      = modbus_func_handler_read_input_register ctx addr pdu 5 u"
    by (simp add: modbus_func_dispatch_def)
  show ?thesis
  proof (cases "cnt \<ge> 1 \<and> cnt < 125")
    case True
    have "modbus_func_handler_read_input_register ctx addr pdu 5 u = Some ([MB_FUNC_READ_INPUT_REGISTER, ucast (cnt * 2)]
        @ out @ drop (2 + length out) pdu, if e = MB_ENOERR then 2 + cnt * 2 else 2, u', prveMBError2Exception e)"
      using True rd read_reply_eq [where call = "\<lambda>b. input_regs_cb ctx addr b (be16 ah al) cnt u",
          OF assms(3) [OF True] assms(5)] assms(4)
      by (simp add: modbus_func_handler_read_input_register_def)
    with True rd disp show ?thesis
      by (simp add: modbus_rtu_handler_request_rx_def mem_store_def)
  next
    case False
    then have "modbus_func_handler_read_input_register ctx addr pdu 5 u = Some (pdu, 5, u, MB_EX_ILLEGAL_DATA_VALUE)"
      using rd by (auto simp: modbus_func_handler_read_input_register_def)
    with False rd disp show ?thesis
      by (auto simp: modbus_rtu_handler_request_rx_def mem_store_def assms(1))
  qed
qed

lemma read_input_register_reply_witness:
  "modbus_rtu_handler_request_rx demo_callbacks 1 5 [4, 0, 9, 0, 2, 7, 7] () = Some ([4, 4, 9, 0, 2, 7, 7], 6, (), True)"
  using read_input_register_reply [of "[4, 0, 9, 0, 2, 7, 7]" 0 9 0 2 "[7, 7]" 2 demo_callbacks 1 "()" "[9, 0, 2, 7]" "()" MB_ENOERR]
  by (simp add: demo_callbacks_def demo_input_regs_cb_def mb_func_defs be16_def)

text \<open>
  Reading holding registers ignores the high byte of the requested count: whatever it is, with a
  low byte of 1 to 125 the callback is asked for that many registers and the answer announces twice
  as many bytes, also when the requested count is far beyond the limit of 125.
\<close>

theorem read_holding_ignores_count_high_byte:
  assumes "pdu = [MB_FUNC_READ_HOLDING_REGISTER, ah, al, ch, cl] @ rest" "1 \<le> cl" "cl \<le> 125" "ch \<noteq> 0"
    and "holding_regs_cb ctx addr (drop 2 pdu) (be16 ah al) (ucast cl) MB_REG_READ u
        = Some (out @ drop (2 * unat cl) (drop 2 pdu), u', MB_ENOERR)"
    and "length out = 2 * unat cl" "2 + 2 * unat cl \<le> length pdu"
  shows "125 < be16 ch cl \<and> modbus_rtu_handler_request_rx ctx addr 5 pdu u =
    Some ([MB_FUNC_READ_HOLDING_REGISTER, 2 * cl] @ out @ drop (2 + length out) pdu, 2 + ucast cl * 2, u', True)"
proof
  have "0 < unat ch" using assms(4) by (simp add: unat_gt_0)
  then show "125 < be16 ch cl" by (simp add: word_less_nat_alt unat_be16)
  have rd: "rd16 pdu 1 = Some (be16 ah al)" "mem_load pdu 3 = Some ch" "mem_load pdu 4 = Some cl"
      "mem_load pdu 0 = Some MB_FUNC_READ_HOLDING_REGISTER"
    using assms(1) by (simp_all add: rd16_def numeral_2_eq_2 numeral_3_eq_3 eval_nat_numeral)
  have range: "1 \<le> (ucast cl :: u16)" "(ucast cl :: u16) \<le> 125"
    using assms(2,3) by (simp_all add: word_le_nat_alt)
  have two: "ucast (ucast cl * 2 :: u16) = 2 * cl"
  proof -
    have "unat cl \<le> 125" using assms(3) by (simp add: word_le_nat_alt)
    then show ?thesis by (simp add: word_unat_eq_iff unsigned_ucast_eq take_bit_eq_mod unat_word_ariths)
  qed
  have n: "unat (ucast cl :: u16) = unat cl" by simp
  have "modbus_func_handler_read_holding_register ctx addr pdu 5 u = Some ([MB_FUNC_READ_HOLDING_REGISTER, 2 * cl]
      @ out @ drop (2 + length out) pdu, 2 + ucast cl * 2, u', MB_EX_NONE)"
    using rd range two n assms(6)
      read_reply_eq [where call = "\<lambda>b. holding_regs_cb ctx addr b (be16 ah al) (ucast cl) MB_REG_READ u", OF assms(5,7)]
    by (simp add: modbus_func_handler_read_holding_register_def)
  then show "modbus_rtu_handler_request_rx ctx addr 5 pdu u =
      Some ([MB_FUNC_READ_HOLDING_REGISTER, 2 * cl] @ out @ drop (2 + length out) pdu, 2 + ucast cl * 2, u', True)"
    using rd by (simp add: modbus_rtu_handler_request_rx_def modbus_func_dispatch_def mb_func_defs)
qed

lemma read_holding_ignores_count_high_byte_witness:
  "125 < be16 8 2 \<and> modbus_rtu_handler_request_rx demo_callbacks 1 5 ([3, 0, 9, 8, 2] @ [7, 7]) ()
     = Some ([3, 4, 9, 8, 2, 7, 7], 6, (), True)"
  using read_holding_ignores_count_high_byte [of "[3, 0, 9, 8, 2] @ [7, 7]" 0 9 8 2 "[7, 7]" demo_callbacks 1 "()"
      "[9, 8, 2, 7]" "()"]
  by (simp add: demo_callbacks_def demo_holding_regs_cb_def mb_func_defs)

text \<open>
  A read/write-multiple-registers request that is too short to hold its fixed fields is neither
  executed nor refused: no callback runs, and the request itself is returned as a successful answer.
\<close>

theorem short_read_write_acknowledged:
  assumes "pdu ! 0 = MB_FUNC_READWRITE_MULTIPLE_REGISTERS" "pdu \<noteq> []" "len < 10"
  shows "modbus_rtu_handler_request_rx ctx addr len pdu u = Some (pdu, len, u, True)"
proof -
  have "mem_load pdu 0 = Some MB_FUNC_READWRITE_MULTIPLE_REGISTERS" using assms(1,2) by simp
  moreover have "\<not> 10 \<le> len" using assms(3) by simp
  ultimately show ?thesis
    by (simp add: modbus_rtu_handler_request_rx_def modbus_func_dispatch_def mb_func_defs
        modbus_func_handler_read_write_multiple_holding_registers_def)
qed

lemma short_read_write_acknowledged_witness:
  "modbus_rtu_handler_request_rx demo_callbacks 1 4 [23, 0, 9, 0] () = Some ([23, 0, 9, 0], 4, (), True)"
  by (rule short_read_write_acknowledged) (simp_all add: mb_func_defs)

text \<open>
  Writing several holding registers: the callback gets exactly the value bytes of the request, the
  requested address and count; when it accepts, the answer is the request's function code, address
  and count. A count of 0 or above 120, or a byte count that does not match it, is refused without
  calling it.
\<close>

theorem write_multiple_registers_reply:
  assumes "pdu = [MB_FUNC_WRITE_MULTIPLE_REGISTERS, ah, al, ch, cl, bc] @ vals" "cnt = be16 ch cl"
    and "6 \<le> unat len" "holding_regs_cb ctx addr vals (be16 ah al) cnt MB_REG_WRITE u = Some (vals, u', e)"
  shows "modbus_rtu_handler_request_rx ctx addr len pdu u =
    (if \<not> (cnt \<ge> 1 \<and> cnt \<le> 120 \<and> unat bc = 2 * unat cnt) then
       Some ([MB_FUNC_WRITE_MULTIPLE_REGISTERS OR MB_FUNC_ERROR, mb_ex_code MB_EX_ILLEGAL_DATA_VALUE] @ drop 2 pdu, 2, u, False)
     else if e = MB_ENOERR then Some (pdu, 5, u', True)
     else Some ([MB_FUNC_WRITE_MULTIPLE_REGISTERS OR MB_FUNC_ERROR, mb_ex_code (prveMBError2Exception e)] @ drop 2 pdu, 2, u', False))"
proof -
  have rd: "rd16 pdu 1 = Some (be16 ah al)" "rd16 pdu 3 = Some cnt" "mem_load pdu 5 = Some bc"
      "mem_load pdu 0 = Some MB_FUNC_WRITE_MULTIPLE_REGISTERS"
    using assms(1,2) by (simp_all add: rd16_def numeral_2_eq_2 numeral_3_eq_3 eval_nat_numeral)
  have at: "at_offset pdu 6 (\<lambda>b. holding_regs_cb ctx addr b (be16 ah al) cnt MB_REG_WRITE u) = Some (pdu, u', e)"
    by (rule at_offset_same) (use assms(1,4) in simp_all)
  have bc: "bc = ucast (2 * cnt) \<longleftrightarrow> unat bc = 2 * unat cnt" if "cnt \<le> 120"
  proof -
    have "unat cnt \<le> 120" using that by (simp add: word_le_nat_alt)
    then show ?thesis by (simp add: word_unat_eq_iff unsigned_ucast_eq take_bit_eq_mod unat_word_ariths)
  qed
  have len: "6 \<le> len" using assms(3) by (simp add: word_le_nat_alt)
  have disp: "modbus_func_dispatch ctx MB_FUNC_WRITE_MULTIPLE_REGISTERS addr pdu len u
      = modbus_func_handler_write_multiple_holding_registers ctx addr pdu len u"
    by (simp add: modbus_func_dispatch_def mb_func_defs)
  have "modbus_func_handler_write_multiple_holding_registers ctx addr pdu len u =
      (if \<not> (cnt \<ge> 1 \<and> cnt \<le> 120 \<and> unat bc = 2 * unat cnt) then Some (pdu, len, u, MB_EX_ILLEGAL_DATA_VALUE)
       else if e = MB_ENOERR then Some (pdu, 5, u', MB_EX_NONE) else Some (pdu, len, u', prveMBError2Exception e))"
  proof -
    have "(cnt \<ge> 1 \<and> cnt \<le> 120 \<and> bc = ucast (2 * cnt)) = (cnt \<ge> 1 \<and> cnt \<le> 120 \<and> unat bc = 2 * unat cnt)"
      using bc by blast
    then show ?thesis using rd at len
      by (simp only: modbus_func_handler_write_multiple_holding_registers_def) simp
  qed
  then show ?thesis
    using rd disp by (simp add: modbus_rtu_handler_request_rx_def mem_store_def assms(1))
qed

lemma write_multiple_registers_reply_witness:
  "modbus_rtu_handler_request_rx demo_callbacks 1 10 [16, 0, 9, 0, 2, 4, 1, 2, 3, 4] ()
     = Some ([16, 0, 9, 0, 2, 4, 1, 2, 3, 4], 5, (), True)"
  using write_multiple_registers_reply [of "[16, 0, 9, 0, 2, 4, 1, 2, 3, 4]" 0 9 0 2 4 "[1, 2, 3, 4]" 2 10
      demo_callbacks 1 "()" "()" MB_ENOERR]
  by (simp add: demo_callbacks_def demo_holding_regs_cb_def mb_func_defs be16_def)

end
