(* ===== verification/Mbap_Reader.thy ===== *)
theory Mbap_Reader
  imports Kj_Prelude
begin

text \<open>
  \<open>src/protocols/modbus/mbap_reader.c\<close>: the byte-wise state machine that cuts a TCP byte stream
  into Modbus frames. The frame callback is a parameter that acts on the reader and the state of its
  owner (\<open>mbap_env\<close>). Shown: no byte sequence makes the reader write outside its frame buffer; well-formed
  frames are delivered exactly once, in order, however the stream is chunked; a length field outside
  2..254 makes it swallow the 254 bytes that follow the header.
\<close>

section \<open>State and operations\<close>

definition MB_TCP_PDU_SIZE_MAX :: int where "MB_TCP_PDU_SIZE_MAX = 260"

datatype mbap_reader_state = mbap_reader_state_header | mbap_reader_state_pdu

record 'u mbap_reader =
  mbap_frame :: "u8 list"
  mbap_state :: mbap_reader_state
  mbap_tid :: u16
  mbap_pid :: u16
  mbap_length :: u16
  mbap_uid :: u8
  mbap_header_remaining :: int
  mbap_data_remaining :: int
  mbap_ndx :: int
  mbap_env :: 'u

type_synonym 'u mbap_reader_cb = "'u mbap_reader \<Rightarrow> 'u mbap_reader option"

definition mbap_reader_reset :: "'u mbap_reader \<Rightarrow> 'u mbap_reader" where
  "mbap_reader_reset m = m\<lparr>mbap_state := mbap_reader_state_header, mbap_tid := 0, mbap_pid := 0,
     mbap_length := 0, mbap_uid := 0, mbap_header_remaining := 7, mbap_data_remaining := 0, mbap_ndx := 0\<rparr>"

definition mbap_reader_init :: "'u mbap_reader \<Rightarrow> 'u mbap_reader" where
  "mbap_reader_init m = mbap_reader_reset m"

text \<open>\<open>mbap->frame[mbap->ndx++] = data\<close>\<close>

definition mbap_put :: "'u mbap_reader \<Rightarrow> u8 \<Rightarrow> 'u mbap_reader option" where
  "mbap_put m data = do {
     i \<leftarrow> c_nat (mbap_ndx m);
     f \<leftarrow> mem_store (mbap_frame m) i data;
     n \<leftarrow> c_int (mbap_ndx m + 1);
     Some (m\<lparr>mbap_frame := f, mbap_ndx := n\<rparr>) }"

definition mbap_decode_header :: "'u mbap_reader \<Rightarrow> 'u mbap_reader option" where
  "mbap_decode_header m = do {
     t0 \<leftarrow> mem_load (mbap_frame m) 0; t1 \<leftarrow> mem_load (mbap_frame m) 1;
     p0 \<leftarrow> mem_load (mbap_frame m) 2; p1 \<leftarrow> mem_load (mbap_frame m) 3;
     l0 \<leftarrow> mem_load (mbap_frame m) 4; l1 \<leftarrow> mem_load (mbap_frame m) 5;
     u \<leftarrow> mem_load (mbap_frame m) 6;
     let len = be16 l0 l1;
     Some (m\<lparr>mbap_tid := be16 t0 t1, mbap_pid := be16 p0 p1, mbap_length := len, mbap_uid := u,
       mbap_data_remaining := uint len - 1, mbap_state := mbap_reader_state_pdu\<rparr>) }"

definition mbap_state_machine :: "'u mbap_reader_cb \<Rightarrow> 'u mbap_reader \<Rightarrow> u8 \<Rightarrow> 'u mbap_reader option" where
  "mbap_state_machine cb m data =
     (case mbap_state m of
        mbap_reader_state_header \<Rightarrow> do {
          m \<leftarrow> mbap_put m data;
          h \<leftarrow> c_int (mbap_header_remaining m - 1);
          let m = m\<lparr>mbap_header_remaining := h\<rparr>;
          if h = 0 then mbap_decode_header m else Some m }
      | mbap_reader_state_pdu \<Rightarrow>
          if mbap_ndx m \<ge> MB_TCP_PDU_SIZE_MAX then Some (mbap_reader_reset m)
          else do {
            m \<leftarrow> mbap_put m data;
            d \<leftarrow> c_int (mbap_data_remaining m - 1);
            let m = m\<lparr>mbap_data_remaining := d\<rparr>;
            if d = 0 then do { m \<leftarrow> cb m; Some (mbap_reader_reset m) } else Some m })"

definition mbap_reader_feed :: "'u mbap_reader_cb \<Rightarrow> 'u mbap_reader \<Rightarrow> u8 list \<Rightarrow> int \<Rightarrow> 'u mbap_reader option" where
  "mbap_reader_feed cb m buf len = do {
     bytes \<leftarrow> mem_slice buf 0 (nat len);
     foldo (mbap_state_machine cb) m bytes }"

section \<open>Invariant\<close>

definition mbap_inv :: "'u mbap_reader \<Rightarrow> bool" where
  "mbap_inv m \<longleftrightarrow> length (mbap_frame m) = 260
     \<and> (case mbap_state m of
          mbap_reader_state_header \<Rightarrow> 0 \<le> mbap_ndx m \<and> mbap_ndx m < 7 \<and> mbap_header_remaining m = 7 - mbap_ndx m
        | mbap_reader_state_pdu \<Rightarrow> 7 \<le> mbap_ndx m \<and> mbap_ndx m \<le> 260
            \<and> mbap_data_remaining m = uint (mbap_length m) - 1 - (mbap_ndx m - 7))"

text \<open>
  The reader calls back with a complete frame only. Its user must be able to take any such frame in
  a state it finds acceptable, stay in one, and leave the buffer's size alone.
\<close>

definition mbap_complete :: "'u mbap_reader \<Rightarrow> bool" where
  "mbap_complete m \<longleftrightarrow> mbap_inv m \<and> mbap_state m = mbap_reader_state_pdu \<and> mbap_data_remaining m = 0 \<and> 7 < mbap_ndx m"

lemma mbap_complete_fields:
  assumes "mbap_complete m"
  shows "length (mbap_frame m) = 260" "uint (mbap_length m) = mbap_ndx m - 6" "8 \<le> mbap_ndx m" "mbap_ndx m \<le> 260"
  using assms unfolding mbap_complete_def mbap_inv_def by (auto split: mbap_reader_state.split_asm)

locale mbap_client =
  fixes cb :: "'u mbap_reader_cb" and env_ok :: "'u \<Rightarrow> bool"
  assumes callback: "mbap_complete m \<Longrightarrow> env_ok (mbap_env m) \<Longrightarrow>
    \<exists>m'. cb m = Some m' \<and> length (mbap_frame m') = 260 \<and> env_ok (mbap_env m')"

lemma mbap_reset_inv: "length (mbap_frame m) = 260 \<Longrightarrow> mbap_inv (mbap_reader_reset m)"
  by (simp add: mbap_inv_def mbap_reader_reset_def)

lemma mbap_put_ok:
  assumes "length (mbap_frame m) = 260" "0 \<le> mbap_ndx m" "mbap_ndx m < 260"
  shows "mbap_put m b = Some (m\<lparr>mbap_frame := (mbap_frame m)[nat (mbap_ndx m) := b], mbap_ndx := mbap_ndx m + 1\<rparr>)"
  using assms by (simp add: mbap_put_def c_nat_def int32_ok_def nat_less_iff)

lemma mbap_decode_ok:
  assumes "length (mbap_frame m) = 260"
  shows "mbap_decode_header m = Some (m\<lparr>mbap_tid := be16 (mbap_frame m ! 0) (mbap_frame m ! 1),
    mbap_pid := be16 (mbap_frame m ! 2) (mbap_frame m ! 3), mbap_length := be16 (mbap_frame m ! 4) (mbap_frame m ! 5),
    mbap_uid := mbap_frame m ! 6,
    mbap_data_remaining := uint (be16 (mbap_frame m ! 4) (mbap_frame m ! 5)) - 1,
    mbap_state := mbap_reader_state_pdu\<rparr>)"
  using assms by (simp add: mbap_decode_header_def Let_def)

text \<open>One byte, with the invariant: in the header and in the PDU.\<close>

definition after_header_byte :: "'u mbap_reader \<Rightarrow> u8 \<Rightarrow> 'u mbap_reader" where
  "after_header_byte m b = m\<lparr>mbap_frame := (mbap_frame m)[nat (mbap_ndx m) := b], mbap_ndx := mbap_ndx m + 1,
     mbap_header_remaining := 6 - mbap_ndx m\<rparr>"

definition after_pdu_byte :: "'u mbap_reader \<Rightarrow> u8 \<Rightarrow> 'u mbap_reader" where
  "after_pdu_byte m b = m\<lparr>mbap_frame := (mbap_frame m)[nat (mbap_ndx m) := b], mbap_ndx := mbap_ndx m + 1,
     mbap_data_remaining := mbap_data_remaining m - 1\<rparr>"

lemma mbap_header_byte:
  assumes "mbap_inv m" "mbap_state m = mbap_reader_state_header"
  shows "mbap_state_machine cb m b =
    (if mbap_ndx m = 6 then mbap_decode_header (after_header_byte m b) else Some (after_header_byte m b))"
  using assms by (simp add: after_header_byte_def mbap_state_machine_def mbap_inv_def mbap_put_ok int32_ok_def)

lemma mbap_pdu_byte:
  assumes "mbap_inv m" "mbap_state m = mbap_reader_state_pdu"
  shows "mbap_state_machine cb m b =
    (if mbap_ndx m = 260 then Some (mbap_reader_reset m)
     else if mbap_data_remaining m = 1 then do { m \<leftarrow> cb (after_pdu_byte m b); Some (mbap_reader_reset m) }
     else Some (after_pdu_byte m b))"
proof -
  have "int32_ok (mbap_data_remaining m - 1)"
  proof -
    have "7 \<le> mbap_ndx m" "mbap_ndx m \<le> 260"
      "mbap_data_remaining m = uint (mbap_length m) - 1 - (mbap_ndx m - 7)"
      using assms by (simp_all add: mbap_inv_def)
    then show ?thesis
      using uint_u16_bounds [of "mbap_length m"] by (intro int32_okI) linarith+
  qed
  then show ?thesis
    using assms by (auto simp: mbap_state_machine_def mbap_inv_def mbap_put_ok MB_TCP_PDU_SIZE_MAX_def
        after_pdu_byte_def)
qed

context mbap_client
begin

lemma mbap_step_inv:
  assumes inv: "mbap_inv m" and ok: "env_ok (mbap_env m)"
  shows "\<exists>m'. mbap_state_machine cb m b = Some m' \<and> mbap_inv m' \<and> env_ok (mbap_env m')"
proof (cases "mbap_state m")
  case mbap_reader_state_header
  have "length (mbap_frame m) = 260" using inv by (simp add: mbap_inv_def)
  then show ?thesis
    using mbap_header_byte [OF inv mbap_reader_state_header, of cb b] inv ok mbap_reader_state_header
    by (auto simp: mbap_decode_ok mbap_inv_def after_header_byte_def)
next
  case mbap_reader_state_pdu
  let ?m1 = "after_pdu_byte m b"
  have frame: "length (mbap_frame m) = 260" using inv by (simp add: mbap_inv_def)
  have m1: "mbap_inv ?m1" if "mbap_ndx m \<noteq> 260"
    using inv mbap_reader_state_pdu that by (simp add: mbap_inv_def after_pdu_byte_def)
  have env: "mbap_env ?m1 = mbap_env m" by (simp add: after_pdu_byte_def)
  have "mbap_complete ?m1" if "mbap_ndx m \<noteq> 260" "mbap_data_remaining m = 1"
    using m1 that mbap_reader_state_pdu inv by (simp add: mbap_complete_def after_pdu_byte_def mbap_inv_def)
  then have "\<exists>m'. cb ?m1 = Some m' \<and> length (mbap_frame m') = 260 \<and> env_ok (mbap_env m')"
    if "mbap_ndx m \<noteq> 260" "mbap_data_remaining m = 1"
    using callback ok that by (simp add: env)
  then show ?thesis
    using mbap_pdu_byte [OF inv mbap_reader_state_pdu, of cb b] m1 mbap_reset_inv frame env ok
    by (auto simp: mbap_reader_reset_def [of m] mbap_reader_reset_def)
qed

lemma mbap_run_inv:
  assumes "mbap_inv m" "env_ok (mbap_env m)"
  shows "\<exists>m'. foldo (mbap_state_machine cb) m bs = Some m' \<and> mbap_inv m' \<and> env_ok (mbap_env m')"
  using foldo_invariant [of bs "\<lambda>m. mbap_inv m \<and> env_ok (mbap_env m)" "mbap_state_machine cb" m] mbap_step_inv assms
  by blast

end

section \<open>A frame\<close>

text \<open>The bytes of a frame on the wire and what the reader holds when it calls back.\<close>

definition mbap_header_bytes :: "u16 \<Rightarrow> u16 \<Rightarrow> u16 \<Rightarrow> u8 \<Rightarrow> u8 list" where
  "mbap_header_bytes tid pid len uid =
     [hi_byte tid, lo_byte tid, hi_byte pid, lo_byte pid, hi_byte len, lo_byte len, uid]"

definition mbap_holding :: "'u mbap_reader \<Rightarrow> u16 \<Rightarrow> u16 \<Rightarrow> u16 \<Rightarrow> u8 \<Rightarrow> u8 list \<Rightarrow> 'u mbap_reader" where
  "mbap_holding m tid pid len uid pdu = m\<lparr>
     mbap_frame := mbap_header_bytes tid pid len uid @ pdu @ drop (7 + length pdu) (mbap_frame m),
     mbap_state := mbap_reader_state_pdu, mbap_tid := tid, mbap_pid := pid, mbap_length := len, mbap_uid := uid,
     mbap_header_remaining := 0, mbap_data_remaining := uint len - 1 - int (length pdu),
     mbap_ndx := 7 + int (length pdu)\<rparr>"

lemma holding_fields:
  "mbap_state (mbap_holding m tid pid len uid p) = mbap_reader_state_pdu"
  "mbap_ndx (mbap_holding m tid pid len uid p) = 7 + int (length p)"
  "mbap_data_remaining (mbap_holding m tid pid len uid p) = uint len - 1 - int (length p)"
  by (simp_all add: mbap_holding_def)

definition mbap_fresh :: "'u mbap_reader \<Rightarrow> bool" where
  "mbap_fresh m \<longleftrightarrow> length (mbap_frame m) = 260 \<and> mbap_state m = mbap_reader_state_header \<and> mbap_tid m = 0
     \<and> mbap_pid m = 0 \<and> mbap_length m = 0 \<and> mbap_uid m = 0 \<and> mbap_header_remaining m = 7
     \<and> mbap_data_remaining m = 0 \<and> mbap_ndx m = 0"

lemma mbap_fresh_reset: "length (mbap_frame m) = 260 \<Longrightarrow> mbap_fresh (mbap_reader_reset m)"
  by (simp add: mbap_fresh_def mbap_reader_reset_def)

lemma mbap_fresh_inv: "mbap_fresh m \<Longrightarrow> mbap_inv m"
  by (simp add: mbap_fresh_def mbap_inv_def)

lemma mbap_holding_inv:
  "length (mbap_frame m) = 260 \<Longrightarrow> length pdu \<le> 253 \<Longrightarrow> mbap_inv (mbap_holding m tid pid len uid pdu)"
  by (simp add: mbap_inv_def mbap_holding_def mbap_header_bytes_def)

lemma split7: "7 \<le> length xs \<Longrightarrow> \<exists>a b c d e f g rest. xs = a # b # c # d # e # f # g # rest"
  by (auto simp: numeral_eq_Suc Suc_le_length_iff)

lemma mbap_header_run:
  assumes fresh: "mbap_fresh m"
  shows "foldo (mbap_state_machine cb) m (mbap_header_bytes tid pid len uid) = Some (mbap_holding m tid pid len uid [])"
proof -
  obtain f0 f1 f2 f3 f4 f5 f6 rest where f: "mbap_frame m = f0 # f1 # f2 # f3 # f4 # f5 # f6 # rest" "length rest = 253"
  proof -
    have "length (mbap_frame m) = 260" using fresh by (simp add: mbap_fresh_def)
    moreover from this have "7 \<le> length (mbap_frame m)" by simp
    from split7 [OF this] obtain f0 f1 f2 f3 f4 f5 f6 rest where
      "mbap_frame m = f0 # f1 # f2 # f3 # f4 # f5 # f6 # rest" by (elim exE)
    ultimately show thesis by (intro that [of f0 f1 f2 f3 f4 f5 f6 rest]) simp_all
  qed
  have reset: "mbap_state m = mbap_reader_state_header" "mbap_ndx m = 0" "mbap_header_remaining m = 7"
    using fresh by (simp_all add: mbap_fresh_def)
  show ?thesis
    using reset f
    by (simp add: mbap_header_bytes_def mbap_state_machine_def mbap_put_def c_nat_def int32_ok_def
        mem_store_def mbap_decode_header_def mbap_holding_def)
qed

lemma holding_byte:
  assumes "length (mbap_frame m) = 260" "length p < 253"
  shows "after_pdu_byte (mbap_holding m tid pid len uid p) b = mbap_holding m tid pid len uid (p @ [b])"
proof -
  have "drop (7 + length p) (mbap_frame m) = mbap_frame m ! (7 + length p) # drop (8 + length p) (mbap_frame m)"
    using assms by (subst Cons_nth_drop_Suc [symmetric]) simp_all
  then show ?thesis
    by (simp add: after_pdu_byte_def mbap_holding_def mbap_header_bytes_def nat_add_distrib list_update_append)
qed

lemma mbap_pdu_run:
  assumes "length (mbap_frame m) = 260" "length p + length q \<le> 253"
    and "\<And>i. length p < i \<Longrightarrow> i \<le> length p + length q \<Longrightarrow> uint len - 1 \<noteq> int i"
  shows "foldo (mbap_state_machine cb) (mbap_holding m tid pid len uid p) q = Some (mbap_holding m tid pid len uid (p @ q))"
  using assms(2,3)
proof (induction q arbitrary: p)
  case (Cons b q)
  have inv: "mbap_inv (mbap_holding m tid pid len uid p)"
    using assms(1) Cons.prems(1) by (intro mbap_holding_inv) simp_all
  have "uint len - 1 \<noteq> int (length p + 1)" using Cons.prems(2) [of "length p + 1"] by simp
  then have "mbap_state_machine cb (mbap_holding m tid pid len uid p) b = Some (mbap_holding m tid pid len uid (p @ [b]))"
    using mbap_pdu_byte [OF inv, of cb b] holding_byte [OF assms(1), of p] Cons.prems(1)
    by (simp add: holding_fields)
  moreover have "foldo (mbap_state_machine cb) (mbap_holding m tid pid len uid (p @ [b])) q
      = Some (mbap_holding m tid pid len uid ((p @ [b]) @ q))"
    by (rule Cons.IH) (use Cons.prems in auto)
  ultimately show ?case by simp
qed simp

lemma mbap_frame_run:
  assumes fresh: "mbap_fresh m" and pdu: "pdu \<noteq> []" "length pdu \<le> 253" and len: "uint len = int (length pdu) + 1"
  shows "foldo (mbap_state_machine cb) m (mbap_header_bytes tid pid len uid @ pdu)
    = do { m' \<leftarrow> cb (mbap_holding m tid pid len uid pdu); Some (mbap_reader_reset m') }"
proof -
  obtain q b where q: "pdu = q @ [b]" using pdu(1) by (cases pdu rule: rev_cases) auto
  have f: "length (mbap_frame m) = 260" using fresh by (simp add: mbap_fresh_def)
  have "foldo (mbap_state_machine cb) (mbap_holding m tid pid len uid []) q = Some (mbap_holding m tid pid len uid ([] @ q))"
    by (rule mbap_pdu_run) (use f pdu(2) len q in auto)
  moreover have "mbap_inv (mbap_holding m tid pid len uid q)"
    using f pdu(2) q by (intro mbap_holding_inv) simp_all
  from mbap_pdu_byte [OF this, of cb b] have "mbap_state_machine cb (mbap_holding m tid pid len uid q) b
      = do { m' \<leftarrow> cb (mbap_holding m tid pid len uid pdu); Some (mbap_reader_reset m') }"
    using holding_byte [OF f, of q] len q pdu(2) by (simp add: holding_fields)
  ultimately show ?thesis
    by (simp add: foldo_append mbap_header_run [OF fresh] q del: bind_option_Some_iff)
qed

section \<open>Streams of frames\<close>

record mbap_pdu =
  pdu_tid :: u16
  pdu_pid :: u16
  pdu_uid :: u8
  pdu_bytes :: "u8 list"

definition pdu_ok :: "mbap_pdu \<Rightarrow> bool" where
  "pdu_ok f \<longleftrightarrow> 1 \<le> length (pdu_bytes f) \<and> length (pdu_bytes f) \<le> 253"

definition pdu_len :: "mbap_pdu \<Rightarrow> u16" where
  "pdu_len f = word_of_nat (length (pdu_bytes f) + 1)"

definition pdu_wire :: "mbap_pdu \<Rightarrow> u8 list" where
  "pdu_wire f = mbap_header_bytes (pdu_tid f) (pdu_pid f) (pdu_len f) (pdu_uid f) @ pdu_bytes f"

definition deliver :: "'u mbap_reader_cb \<Rightarrow> 'u mbap_reader \<Rightarrow> mbap_pdu \<Rightarrow> 'u mbap_reader option" where
  "deliver cb m f = do {
     m' \<leftarrow> cb (mbap_holding m (pdu_tid f) (pdu_pid f) (pdu_len f) (pdu_uid f) (pdu_bytes f));
     Some (mbap_reader_reset m') }"

lemma uint_pdu_len: "pdu_ok f \<Longrightarrow> uint (pdu_len f) = int (length (pdu_bytes f)) + 1"
  by (simp add: pdu_ok_def pdu_len_def unsigned_of_nat take_bit_eq_mod flip: of_nat_Suc)

lemma deliver_run:
  "mbap_fresh m \<Longrightarrow> pdu_ok f \<Longrightarrow> foldo (mbap_state_machine cb) m (pdu_wire f) = deliver cb m f"
  unfolding pdu_wire_def deliver_def
  by (rule mbap_frame_run) (auto simp: pdu_ok_def uint_pdu_len)

lemma pdu_complete:
  assumes "mbap_fresh m" "pdu_ok f"
  shows "mbap_complete (mbap_holding m (pdu_tid f) (pdu_pid f) (pdu_len f) (pdu_uid f) (pdu_bytes f))"
proof -
  have "mbap_inv (mbap_holding m (pdu_tid f) (pdu_pid f) (pdu_len f) (pdu_uid f) (pdu_bytes f))"
    using assms by (intro mbap_holding_inv) (auto simp: mbap_fresh_def pdu_ok_def)
  then show ?thesis
    using assms uint_pdu_len [OF assms(2)] by (auto simp: mbap_complete_def holding_fields pdu_ok_def)
qed

context mbap_client
begin

lemma deliver_fresh:
  assumes "mbap_fresh m" "env_ok (mbap_env m)" "pdu_ok f"
  shows "\<exists>m'. deliver cb m f = Some m' \<and> mbap_fresh m' \<and> env_ok (mbap_env m')"
proof -
  let ?h = "mbap_holding m (pdu_tid f) (pdu_pid f) (pdu_len f) (pdu_uid f) (pdu_bytes f)"
  have "mbap_env ?h = mbap_env m" by (simp add: mbap_holding_def)
  with callback [OF pdu_complete [OF assms(1,3)]] assms(2) obtain m' where
    "cb ?h = Some m'" "length (mbap_frame m') = 260" "env_ok (mbap_env m')" by auto
  then show ?thesis
    using mbap_fresh_reset [of m'] by (simp add: deliver_def) (simp add: mbap_reader_reset_def)
qed

lemma deliver_all:
  assumes "mbap_fresh m" "env_ok (mbap_env m)" "\<forall>f \<in> set fs. pdu_ok f"
  shows "foldo (mbap_state_machine cb) m (concat (map pdu_wire fs)) = foldo (deliver cb) m fs"
  using assms
proof (induction fs arbitrary: m)
  case (Cons f fs)
  obtain m1 where "deliver cb m f = Some m1" "mbap_fresh m1" "env_ok (mbap_env m1)"
    using deliver_fresh [OF Cons.prems(1,2), of f] Cons.prems(3) by auto
  then show ?case using Cons deliver_run [OF Cons.prems(1), of f cb] by (simp add: foldo_append)
qed simp

end

lemma feed_all: "mbap_reader_feed cb m c (int (length c)) = foldo (mbap_state_machine cb) m c"
  by (simp add: mbap_reader_feed_def mem_slice_def)

lemma feed_chunks:
  "foldo (\<lambda>m c. mbap_reader_feed cb m c (int (length c))) m cs = foldo (mbap_state_machine cb) m (concat cs)"
  by (induction cs arbitrary: m) (simp_all add: feed_all foldo_append)

text \<open>A callback that records the frames it is called with.\<close>

definition log_frame :: "u8 list list mbap_reader_cb" where
  "log_frame m = Some (m\<lparr>mbap_env := mbap_env m @ [take (nat (mbap_ndx m)) (mbap_frame m)]\<rparr>)"

interpretation frame_log: mbap_client log_frame "\<lambda>_. True"
  by unfold_locales (auto simp: log_frame_def mbap_complete_fields)

lemma deliver_log:
  assumes "mbap_fresh m" "\<forall>f \<in> set fs. pdu_ok f"
  shows "\<exists>m'. foldo (deliver log_frame) m fs = Some m' \<and> mbap_fresh m' \<and> mbap_env m' = mbap_env m @ map pdu_wire fs"
  using assms
proof (induction fs arbitrary: m)
  case (Cons f fs)
  define h where "h = mbap_holding m (pdu_tid f) (pdu_pid f) (pdu_len f) (pdu_uid f) (pdu_bytes f)"
  have "mbap_frame h = pdu_wire f @ drop (7 + length (pdu_bytes f)) (mbap_frame m)"
    "nat (mbap_ndx h) = length (pdu_wire f)"
    by (simp_all add: h_def mbap_holding_def pdu_wire_def mbap_header_bytes_def)
  then have "take (nat (mbap_ndx h)) (mbap_frame h) = pdu_wire f" by simp
  then have d: "deliver log_frame m f = Some (mbap_reader_reset (h\<lparr>mbap_env := mbap_env m @ [pdu_wire f]\<rparr>))"
    by (simp add: deliver_def log_frame_def flip: h_def) (simp add: h_def mbap_holding_def)
  have "length (mbap_frame h) = 260"
    using Cons.prems by (auto simp: h_def mbap_holding_def mbap_header_bytes_def mbap_fresh_def pdu_ok_def)
  then have "mbap_fresh (mbap_reader_reset (h\<lparr>mbap_env := mbap_env m @ [pdu_wire f]\<rparr>))"
    by (intro mbap_fresh_reset) simp
  from Cons.IH [OF this] Cons.prems d show ?case by (auto simp: mbap_reader_reset_def)
qed simp

lemma bad_length_run:
  assumes fresh: "mbap_fresh m" and len: "uint len \<le> 1 \<or> 255 \<le> uint len" and q: "length q = 253"
  shows "foldo (mbap_state_machine cb) m (mbap_header_bytes tid pid len uid @ q @ [b])
    = Some (mbap_reader_reset (mbap_holding m tid pid len uid q))"
proof -
  have f: "length (mbap_frame m) = 260" using fresh by (simp add: mbap_fresh_def)
  have "foldo (mbap_state_machine cb) (mbap_holding m tid pid len uid []) q = Some (mbap_holding m tid pid len uid ([] @ q))"
    by (rule mbap_pdu_run) (use f q len in auto)
  moreover have "mbap_inv (mbap_holding m tid pid len uid q)" by (rule mbap_holding_inv) (use f q in simp_all)
  from mbap_pdu_byte [OF this, of cb b] have "mbap_state_machine cb (mbap_holding m tid pid len uid q) b
      = Some (mbap_reader_reset (mbap_holding m tid pid len uid q))"
    using q by (simp add: holding_fields)
  ultimately show ?thesis by (simp add: foldo_append mbap_header_run [OF fresh])
qed

section \<open>Properties\<close>

text \<open>
  C24: From a reset reader, no byte sequence whatever makes it access memory outside its 260-byte
  frame buffer or overflow a counter, provided its user keeps the contract of \<open>mbap_client\<close>; the
  indices stay in range after every byte.
\<close>

theorem mbap_feed_memory_safe:
  assumes "mbap_client cb env_ok" "length (mbap_frame m) = 260" "env_ok (mbap_env m)"
  shows "\<exists>m'. mbap_reader_feed cb (mbap_reader_init m) bytes (int (length bytes)) = Some m'
    \<and> length (mbap_frame m') = 260 \<and> 0 \<le> mbap_ndx m' \<and> mbap_ndx m' \<le> 260"
proof -
  have "mbap_inv (mbap_reader_init m)" using assms(2) by (simp add: mbap_reader_init_def mbap_reset_inv)
  moreover have "env_ok (mbap_env (mbap_reader_init m))"
    using assms(3) by (simp add: mbap_reader_init_def mbap_reader_reset_def)
  ultimately obtain m' where
    "foldo (mbap_state_machine cb) (mbap_reader_init m) bytes = Some m'" "mbap_inv m'"
    using mbap_client.mbap_run_inv [OF assms(1)] by blast
  then show ?thesis
    by (auto simp: feed_all mbap_inv_def split: mbap_reader_state.splits)
qed

lemma mbap_feed_memory_safe_witness:
  "\<exists>m'. mbap_reader_feed log_frame (mbap_reader_init \<lparr>mbap_frame = replicate 260 0, mbap_state = mbap_reader_state_pdu,
      mbap_tid = 0, mbap_pid = 0, mbap_length = 0, mbap_uid = 0, mbap_header_remaining = 0, mbap_data_remaining = 0,
      mbap_ndx = 999, mbap_env = []\<rparr>) [1, 2, 3] (int (length [1 :: u8, 2, 3])) = Some m'
    \<and> length (mbap_frame m') = 260 \<and> 0 \<le> mbap_ndx m' \<and> mbap_ndx m' \<le> 260"
  by (rule mbap_feed_memory_safe [OF frame_log.mbap_client_axioms]) simp_all

text \<open>
  C7: A stream of frames with 1 to 253 PDU bytes each and a correct length field is cut back into
  exactly these frames: however it is split into reads, the callback is called once per frame, in
  order, with the frame's bytes, and the reader is ready for the next header at the end.
\<close>

theorem mbap_frames_delivered_once:
  assumes "mbap_fresh m" "\<forall>f \<in> set frames. pdu_ok f" "concat chunks = concat (map pdu_wire frames)"
  shows "\<exists>m'. foldo (\<lambda>m c. mbap_reader_feed log_frame m c (int (length c))) m chunks = Some m'
    \<and> mbap_fresh m' \<and> mbap_env m' = mbap_env m @ map pdu_wire frames"
  unfolding feed_chunks assms(3) frame_log.deliver_all [OF assms(1) TrueI assms(2)]
  by (rule deliver_log [OF assms(1,2)])

lemma mbap_frames_delivered_once_witness:
  "\<exists>m m'. mbap_fresh m \<and> mbap_env m = []
    \<and> foldo (\<lambda>m c. mbap_reader_feed log_frame m c (int (length c))) m
        [[0, 1, 0], [0, 0, 3, 9, 7, 8, 0, 2], [0, 0, 0, 2, 9, 5]] = Some m'
    \<and> mbap_fresh m' \<and> mbap_env m' = [[0, 1, 0, 0, 0, 3, 9, 7, 8], [0, 2, 0, 0, 0, 2, 9, 5]]"
proof -
  let ?m = "\<lparr>mbap_frame = replicate 260 0, mbap_state = mbap_reader_state_header, mbap_tid = 0, mbap_pid = 0,
    mbap_length = 0, mbap_uid = 0, mbap_header_remaining = 7, mbap_data_remaining = 0, mbap_ndx = 0, mbap_env = []\<rparr>"
  let ?fs = "[\<lparr>pdu_tid = 1, pdu_pid = 0, pdu_uid = 9, pdu_bytes = [7, 8]\<rparr>,
    \<lparr>pdu_tid = 2, pdu_pid = 0, pdu_uid = 9, pdu_bytes = [5]\<rparr>]"
  have fresh: "mbap_fresh ?m" by (simp add: mbap_fresh_def)
  have ok: "\<forall>f \<in> set ?fs. pdu_ok f" by (simp add: pdu_ok_def)
  have wire: "map pdu_wire ?fs = [[0, 1, 0, 0, 0, 3, 9, 7, 8], [0, 2, 0, 0, 0, 2, 9, 5]]"
    by (simp add: pdu_wire_def mbap_header_bytes_def pdu_len_def hi_byte_def lo_byte_def)
  have "concat [[0, 1, 0], [0, 0, 3, 9, 7, 8, 0, 2], [0, 0, 0, 2, 9, 5]] = concat (map pdu_wire ?fs)"
    unfolding wire by simp
  from mbap_frames_delivered_once [OF fresh ok this] fresh show ?thesis
    unfolding wire by - (rule exI [of _ ?m], simp del: foldo.simps)
qed

text \<open>
  A header whose length field is 0, 1 or more than 254 makes the reader swallow the 254 bytes
  that follow it without calling back, whatever they are: for 0 and 1 the remaining count starts at or
  below 0 and never meets 0 again. Only then does it look for a header again.
\<close>

theorem mbap_bad_length_swallows:
  assumes "mbap_fresh m" "uint len \<le> 1 \<or> 255 \<le> uint len" "length bytes = 254"
  shows "\<exists>m'. mbap_reader_feed log_frame m (mbap_header_bytes tid pid len uid @ bytes) 261 = Some m'
    \<and> mbap_fresh m' \<and> mbap_env m' = mbap_env m"
proof -
  obtain q b where q: "bytes = q @ [b]" "length q = 253"
    using assms(3) by (cases bytes rule: rev_cases) auto
  have "length (mbap_header_bytes tid pid len uid @ bytes) = 261"
    using assms(3) by (simp add: mbap_header_bytes_def)
  then have "mbap_reader_feed log_frame m (mbap_header_bytes tid pid len uid @ bytes) 261
      = Some (mbap_reader_reset (mbap_holding m tid pid len uid q))"
    using feed_all [of log_frame m "mbap_header_bytes tid pid len uid @ bytes"]
      bad_length_run [OF assms(1,2) q(2), of log_frame tid pid uid b] q(1) by simp
  moreover have "mbap_inv (mbap_holding m tid pid len uid q)"
    using assms(1) q(2) by (intro mbap_holding_inv) (simp_all add: mbap_fresh_def)
  then have "mbap_fresh (mbap_reader_reset (mbap_holding m tid pid len uid q))"
    by (intro mbap_fresh_reset) (simp add: mbap_inv_def)
  ultimately show ?thesis by (simp add: mbap_reader_reset_def mbap_holding_def)
qed

lemma mbap_bad_length_swallows_witness:
  "\<exists>m m'. mbap_fresh m \<and> mbap_env m = []
    \<and> mbap_reader_feed log_frame m (mbap_header_bytes 1 0 0 9 @ replicate 254 7) 261 = Some m'
    \<and> mbap_fresh m' \<and> mbap_env m' = []"
proof -
  let ?m = "\<lparr>mbap_frame = replicate 260 0, mbap_state = mbap_reader_state_header, mbap_tid = 0, mbap_pid = 0,
    mbap_length = 0, mbap_uid = 0, mbap_header_remaining = 7, mbap_data_remaining = 0, mbap_ndx = 0, mbap_env = []\<rparr>"
  have fresh: "mbap_fresh ?m" by (simp add: mbap_fresh_def)
  from mbap_bad_length_swallows [OF fresh, of 0 "replicate 254 7" 1 0 9] fresh show ?thesis
    by - (rule exI [of _ ?m], simp)
qed

end
