(* ===== verification/Trace.thy ===== *)
theory Trace
  imports Kj_Prelude
begin

text \<open>
  \<open>src/utils/trace.c\<close>: one bit per trace component in an array of 32-bit masks. The shift of the
  C constant 1 is undefined from bit 31 on, and the array has \<open>NUM_TRACE_ARRAY\<close> elements. Each
  component is an independent switch.
\<close>

section \<open>State and operations\<close>

definition TRACE_MAX :: nat where "TRACE_MAX = 15"

definition NUM_TRACE_ARRAY :: nat where "NUM_TRACE_ARRAY = 1 + TRACE_MAX div 32"

type_synonym trace_mask = "u32 list"

definition shift_one :: "nat \<Rightarrow> u32 option" where
  "shift_one n = (if n < 31 then Some (push_bit n 1) else None)"

definition trace_on :: "trace_mask \<Rightarrow> u32 \<Rightarrow> trace_mask option" where
  "trace_on msk tc = do {
     let ndx = unat (tc div 32);
     let bit_num = unat (tc mod 32);
     b \<leftarrow> shift_one bit_num;
     w \<leftarrow> mem_load msk ndx;
     mem_store msk ndx (w OR b) }"

definition trace_off :: "trace_mask \<Rightarrow> u32 \<Rightarrow> trace_mask option" where
  "trace_off msk tc = do {
     let ndx = unat (tc div 32);
     let bit_num = unat (tc mod 32);
     b \<leftarrow> shift_one bit_num;
     w \<leftarrow> mem_load msk ndx;
     mem_store msk ndx (w AND NOT b) }"

definition trace_is_on :: "trace_mask \<Rightarrow> u32 \<Rightarrow> bool option" where
  "trace_is_on msk tc = do {
     let ndx = unat (tc div 32);
     let bit_num = unat (tc mod 32);
     b \<leftarrow> shift_one bit_num;
     w \<leftarrow> mem_load msk ndx;
     Some (\<not> (w AND b = 0)) }"

definition trace_init :: "trace_mask \<Rightarrow> u32 list \<Rightarrow> trace_mask option" where
  "trace_init msk inits = foldo trace_on msk inits"

section \<open>Components as switches\<close>

definition mask_ok :: "trace_mask \<Rightarrow> bool" where
  "mask_ok msk \<longleftrightarrow> length msk = NUM_TRACE_ARRAY"

definition comp_ok :: "u32 \<Rightarrow> bool" where
  "comp_ok c \<longleftrightarrow> unat c < TRACE_MAX"

definition switched_on :: "trace_mask \<Rightarrow> u32 \<Rightarrow> bool" where
  "switched_on msk c \<longleftrightarrow> bit (hd msk) (unat c)"

lemma comp_parts:
  assumes "comp_ok c"
  shows "unat (c div 32) = 0" "unat (c mod 32) = unat c" "shift_one (unat c) = Some (push_bit (unat c) 1)"
  using assms by (simp_all add: comp_ok_def TRACE_MAX_def unat_div unat_mod shift_one_def)

lemma mask_single: "mask_ok msk \<Longrightarrow> \<exists>w. msk = [w]"
  by (simp add: mask_ok_def NUM_TRACE_ARRAY_def TRACE_MAX_def length_Suc_conv)

lemma comp_bit: "comp_ok c \<Longrightarrow> comp_ok d \<Longrightarrow> bit (2 ^ unat c :: u32) (unat d) \<longleftrightarrow> d = c"
  by (auto simp: bit_exp_iff comp_ok_def TRACE_MAX_def possible_bit_def word_unat_eq_iff)

lemma trace_on_spec:
  assumes "mask_ok msk" "comp_ok c"
  shows "\<exists>msk'. trace_on msk c = Some msk' \<and> mask_ok msk'
    \<and> (\<forall>d. comp_ok d \<longrightarrow> switched_on msk' d = (d = c \<or> switched_on msk d))"
  using mask_single [OF assms(1)] comp_parts [OF assms(2)] comp_bit [OF assms(2)]
  by (auto simp: trace_on_def switched_on_def mask_ok_def NUM_TRACE_ARRAY_def TRACE_MAX_def bit_or_iff)

lemma trace_off_spec:
  assumes "mask_ok msk" "comp_ok c"
  shows "\<exists>msk'. trace_off msk c = Some msk' \<and> mask_ok msk'
    \<and> (\<forall>d. comp_ok d \<longrightarrow> switched_on msk' d = (d \<noteq> c \<and> switched_on msk d))"
  using mask_single [OF assms(1)] comp_parts [OF assms(2)] comp_bit [OF assms(2)]
  by (auto simp: trace_off_def switched_on_def mask_ok_def NUM_TRACE_ARRAY_def TRACE_MAX_def bit_and_iff
      bit_not_iff comp_ok_def possible_bit_def)

lemma trace_is_on_spec:
  assumes "mask_ok msk" "comp_ok c"
  shows "trace_is_on msk c = Some (switched_on msk c)"
proof -
  obtain w where w: "msk = [w]" using mask_single [OF assms(1)] by blast
  have "w AND push_bit (unat c) 1 \<noteq> 0 \<longleftrightarrow> bit w (unat c)"
    by (simp add: push_bit_eq_mult and_exp_eq_0_iff_not_bit)
  then show ?thesis
    using w comp_parts [OF assms(2)] by (simp add: trace_is_on_def switched_on_def)
qed

section \<open>Properties\<close>

datatype trace_cmd = On u32 | Off u32

fun trace_run :: "trace_mask \<Rightarrow> trace_cmd \<Rightarrow> trace_mask option" where
  "trace_run msk (On c) = trace_on msk c"
| "trace_run msk (Off c) = trace_off msk c"

fun set_run :: "u32 set \<Rightarrow> trace_cmd \<Rightarrow> u32 set" where
  "set_run S (On c) = insert c S"
| "set_run S (Off c) = S - {c}"

fun cmd_comp :: "trace_cmd \<Rightarrow> u32" where
  "cmd_comp (On c) = c"
| "cmd_comp (Off c) = c"

lemma trace_runs:
  assumes "mask_ok msk" "\<forall>c \<in> set cs. comp_ok (cmd_comp c)" "\<forall>d. comp_ok d \<longrightarrow> switched_on msk d = (d \<in> S)"
  shows "\<exists>msk'. foldo trace_run msk cs = Some msk' \<and> mask_ok msk'
    \<and> (\<forall>d. comp_ok d \<longrightarrow> switched_on msk' d = (d \<in> foldl set_run S cs))"
  using assms
proof (induction cs arbitrary: msk S)
  case (Cons c cs)
  have "\<exists>m1. trace_run msk c = Some m1 \<and> mask_ok m1 \<and> (\<forall>d. comp_ok d \<longrightarrow> switched_on m1 d = (d \<in> set_run S c))"
    using Cons.prems trace_on_spec [of msk] trace_off_spec [of msk] by (cases c) fastforce+
  then show ?case using Cons.IH Cons.prems(2) by fastforce
qed simp

text \<open>
  From the all-zero masks any sequence of switching trace components on and off, for the
  components the header declares, is defined and stays inside the array; a component then tests as on
  exactly when the last command that names it switched it on.
\<close>

theorem trace_components_are_a_set:
  assumes "\<forall>c \<in> set cs. comp_ok (cmd_comp c)" "comp_ok d"
  shows "\<exists>msk. foldo trace_run (replicate NUM_TRACE_ARRAY 0) cs = Some msk
    \<and> trace_is_on msk d = Some (d \<in> foldl set_run {} cs)"
proof -
  have "mask_ok (replicate NUM_TRACE_ARRAY 0)" "\<forall>d. comp_ok d \<longrightarrow> switched_on (replicate NUM_TRACE_ARRAY 0) d = (d \<in> {})"
    by (simp_all add: mask_ok_def switched_on_def NUM_TRACE_ARRAY_def)
  from trace_runs [OF this(1) assms(1) this(2)] show ?thesis
    using trace_is_on_spec assms(2) by fastforce
qed

lemma trace_components_are_a_set_witness:
  "\<exists>msk. foldo trace_run (replicate NUM_TRACE_ARRAY 0) [On 3, On 5, Off 3] = Some msk \<and> trace_is_on msk 5 = Some True"
  using trace_components_are_a_set [of "[On 3, On 5, Off 3]" 5] by (simp add: comp_ok_def TRACE_MAX_def)

end
