(* ===== verification/Task_Timer.thy ===== *)
theory Task_Timer
  imports Complex_Main Kj_Prelude
begin

text \<open>
  \<open>src/core/task_timer.c\<close>: one-shot and periodic timers of a task. libev's timer is seen through
  the state it documents: active from its start until it is stopped or, without a repeat, expires;
  starting an active timer does nothing. The callback of a timer is given where it is used.
\<close>

record task_timer =
  tmr_after :: rat
  tmr_repeat :: rat
  tmr_active :: bool

definition ev_timer_start :: "task_timer \<Rightarrow> task_timer" where
  "ev_timer_start t = (if tmr_active t then t else t\<lparr>tmr_active := True\<rparr>)"

definition ev_timer_stop :: "task_timer \<Rightarrow> task_timer" where
  "ev_timer_stop t = t\<lparr>tmr_active := False\<rparr>"

definition task_timer_init :: "task_timer" where
  "task_timer_init = \<lparr>tmr_after = 0, tmr_repeat = 0, tmr_active = False\<rparr>"

definition task_timer_start :: "task_timer \<Rightarrow> rat \<Rightarrow> rat \<Rightarrow> task_timer" where
  "task_timer_start t start repeat = ev_timer_start (t\<lparr>tmr_after := start, tmr_repeat := repeat\<rparr>)"

definition task_timer_stop :: "task_timer \<Rightarrow> task_timer" where
  "task_timer_stop t = ev_timer_stop t"

definition task_timer_active :: "task_timer \<Rightarrow> bool" where
  "task_timer_active t \<longleftrightarrow> tmr_active t"

definition task_timer_restart :: "task_timer \<Rightarrow> rat \<Rightarrow> rat \<Rightarrow> task_timer" where
  "task_timer_restart t start repeat =
     (let t = (if task_timer_active t then task_timer_stop t else t) in task_timer_start t start repeat)"

text \<open>
  An expiry: libev stops a timer that does not repeat, then its common callback hands over to the
  callback the timer was initialised with.
\<close>

definition task_timer_expire :: "task_timer \<Rightarrow> task_timer" where
  "task_timer_expire t = (if tmr_repeat t = 0 then ev_timer_stop t else t)"

definition common_ev_tmr_cb :: "('s \<Rightarrow> 'a \<Rightarrow> 's option) \<Rightarrow> 'a \<Rightarrow> 's \<Rightarrow> 's option" where
  "common_ev_tmr_cb cb arg s = cb s arg"

lemmas timer_simps = task_timer_start_def task_timer_stop_def task_timer_active_def task_timer_restart_def
  ev_timer_start_def ev_timer_stop_def task_timer_expire_def task_timer_init_def

lemma restart_replaces:
  "task_timer_restart t start repeat = \<lparr>tmr_after = start, tmr_repeat = repeat, tmr_active = True\<rparr>"
  by (simp add: timer_simps Let_def)

lemma one_shot_expires: "task_timer_active (task_timer_expire (task_timer_restart t start 0)) \<longleftrightarrow> False"
  by (simp add: timer_simps restart_replaces)

end
