(* ===== verification/Task_Queue.thy ===== *)
theory Task_Queue
  imports Klist "HOL-Library.Sublist"
begin

text \<open>
  \<open>src/core/task.c\<close>: the message queue of a task. Any thread may post a message; the task's loop is
  woken by libev's async watcher, takes the whole queue under the lock and runs the messages. The
  sections under the mutex are atomic steps, everything else interleaves: a sender may be stopped
  between queueing its message and sending the wake-up, the task between any two of its actions.
  \<open>ev_async_send\<close> sets a flag that libev clears when it calls back, so that wake-ups are compressed.
  \<open>malloc\<close> returns a block not in use, or NULL. A message is what its \<open>handler\<close> and \<open>arg\<close> stand for;
  \<open>tk_posted\<close> and \<open>tk_handled\<close> record the messages queued and run.
\<close>

section \<open>State\<close>

datatype task_pc = Waiting | Woken | Running | Handling ptr

record 'm task_sys =
  tk_heap :: lheap
  tk_msgs :: ptr
  tk_tmp :: ptr
  tk_num_msgs :: u32
  tk_mem :: "ptr \<Rightarrow> 'm option"
  tk_noti :: bool
  tk_unsent :: nat
  tk_pc :: task_pc
  tk_posted :: "'m list"
  tk_handled :: "'m list"

section \<open>Operations\<close>

definition task_queue_init :: "'m task_sys \<Rightarrow> 'm task_sys option" where
  "task_queue_init s = do {
     h \<leftarrow> init_list_head (tk_heap s) (tk_msgs s);
     Some (s\<lparr>tk_heap := h, tk_num_msgs := 0\<rparr>) }"

definition task_queue_add :: "'m task_sys \<Rightarrow> ptr \<Rightarrow> 'm task_sys option" where
  "task_queue_add s msg = do {
     h \<leftarrow> init_list_head (tk_heap s) msg;
     h \<leftarrow> list_add_tail h msg (tk_msgs s);
     Some (s\<lparr>tk_heap := h, tk_num_msgs := tk_num_msgs s + 1\<rparr>) }"

definition ev_async_send :: "'m task_sys \<Rightarrow> 'm task_sys" where
  "ev_async_send s = s\<lparr>tk_noti := True\<rparr>"

text \<open>\<open>task_notify\<close> up to the wake-up: the block is filled and queued.\<close>

definition task_notify_queue :: "ptr \<Rightarrow> 'm \<Rightarrow> 'm task_sys \<Rightarrow> 'm task_sys option" where
  "task_notify_queue m msg s =
     task_queue_add (s\<lparr>tk_mem := (tk_mem s)(m \<mapsto> msg), tk_posted := tk_posted s @ [msg]\<rparr>) m"

definition task_notify :: "ptr \<Rightarrow> 'm \<Rightarrow> 'm task_sys \<Rightarrow> ('m task_sys \<times> int) option" where
  "task_notify m msg s =
     (if m = NULL then Some (s, -1)
      else do { s \<leftarrow> task_notify_queue m msg s; Some (ev_async_send s, 0) })"

text \<open>The locked part of the callback: the whole queue moves to the callback's own list.\<close>

definition task_queue_take_all :: "'m task_sys \<Rightarrow> 'm task_sys option" where
  "task_queue_take_all s = do {
     h \<leftarrow> init_list_head (tk_heap s) (tk_tmp s);
     tail \<leftarrow> rd_prev h (tk_msgs s);
     h \<leftarrow> list_cut_position h (tk_tmp s) (tk_msgs s) tail;
     Some (s\<lparr>tk_heap := h, tk_num_msgs := 0\<rparr>) }"

text \<open>One round of the loop: unlink the first message; then run its handler and free it.\<close>

definition task_unlink_first :: "'m task_sys \<Rightarrow> ('m task_sys \<times> ptr) option" where
  "task_unlink_first s = do {
     p \<leftarrow> list_first_entry (tk_heap s) (tk_tmp s);
     h \<leftarrow> list_del_init (tk_heap s) p;
     Some (s\<lparr>tk_heap := h\<rparr>, p) }"

definition task_run_message :: "('m \<Rightarrow> 'm task_sys \<Rightarrow> 'm task_sys option) \<Rightarrow> ptr \<Rightarrow> 'm task_sys \<Rightarrow> 'm task_sys option" where
  "task_run_message handler p s = do {
     m \<leftarrow> tk_mem s p;
     s \<leftarrow> handler m (s\<lparr>tk_handled := tk_handled s @ [m]\<rparr>);
     Some (s\<lparr>tk_mem := (tk_mem s)(p := None)\<rparr>) }"

partial_function (option) task_run_all ::
    "('m \<Rightarrow> 'm task_sys \<Rightarrow> 'm task_sys option) \<Rightarrow> 'm task_sys \<Rightarrow> 'm task_sys option" where
  "task_run_all handler s = do {
     e \<leftarrow> list_empty (tk_heap s) (tk_tmp s);
     if e then Some s
     else do {
       (s, p) \<leftarrow> task_unlink_first s;
       s \<leftarrow> task_run_message handler p s;
       task_run_all handler s } }"

definition task_queue_noti_callback ::
    "('m \<Rightarrow> 'm task_sys \<Rightarrow> 'm task_sys option) \<Rightarrow> 'm task_sys \<Rightarrow> 'm task_sys option" where
  "task_queue_noti_callback handler s = do {
     s \<leftarrow> task_queue_take_all s;
     task_run_all handler s }"

section \<open>Interleaved steps\<close>

text \<open>
  The same actions one at a time. A handler's own effects are steps of their own: what it posts is
  a \<open>post\<close> step like that of any other sender.
\<close>

definition fresh_block :: "'m task_sys \<Rightarrow> ptr \<Rightarrow> bool" where
  "fresh_block s m \<longleftrightarrow> m \<noteq> NULL \<and> tk_mem s m = None \<and> m \<noteq> tk_msgs s \<and> m \<noteq> tk_tmp s"

datatype 'm task_event = Post 'm | Other

inductive task_step :: "'m task_sys \<Rightarrow> 'm task_event \<Rightarrow> 'm task_sys \<Rightarrow> bool" where
  post: "fresh_block s m \<Longrightarrow> task_notify_queue m msg s = Some s' \<Longrightarrow>
    task_step s (Post msg) (s'\<lparr>tk_unsent := Suc (tk_unsent s')\<rparr>)"
| send: "tk_unsent s = Suc n \<Longrightarrow> task_step s Other ((ev_async_send s)\<lparr>tk_unsent := n\<rparr>)"
| wake: "tk_pc s = Waiting \<Longrightarrow> tk_noti s \<Longrightarrow> task_step s Other (s\<lparr>tk_pc := Woken, tk_noti := False\<rparr>)"
| take_all: "tk_pc s = Woken \<Longrightarrow> task_queue_take_all s = Some s' \<Longrightarrow> task_step s Other (s'\<lparr>tk_pc := Running\<rparr>)"
| unlink: "tk_pc s = Running \<Longrightarrow> list_empty (tk_heap s) (tk_tmp s) = Some False \<Longrightarrow>
    task_unlink_first s = Some (s', p) \<Longrightarrow> task_step s Other (s'\<lparr>tk_pc := Handling p\<rparr>)"
| run: "tk_pc s = Handling p \<Longrightarrow> task_run_message (\<lambda>_. Some) p s = Some s' \<Longrightarrow>
    task_step s Other (s'\<lparr>tk_pc := Running\<rparr>)"
| finish: "tk_pc s = Running \<Longrightarrow> list_empty (tk_heap s) (tk_tmp s) = Some True \<Longrightarrow>
    task_step s Other (s\<lparr>tk_pc := Waiting\<rparr>)"

inductive_cases task_postE: "task_step s (Post m) s'"
inductive_cases task_otherE: "task_step s Other s'"

definition task_start :: "'m task_sys \<Rightarrow> bool" where
  "task_start s \<longleftrightarrow> (\<exists>s0. task_queue_init s0 = Some s) \<and> tk_msgs s \<noteq> tk_tmp s \<and> tk_tmp s \<noteq> NULL
     \<and> tk_mem s = Map.empty \<and> \<not> tk_noti s \<and> tk_unsent s = 0 \<and> tk_pc s = Waiting
     \<and> tk_posted s = [] \<and> tk_handled s = []"

inductive task_reachable :: "'m task_sys \<Rightarrow> bool" where
  start: "task_start s \<Longrightarrow> task_reachable s"
| step: "task_reachable s \<Longrightarrow> task_step s e s' \<Longrightarrow> task_reachable s'"

section \<open>Invariant\<close>

fun in_callback :: "task_pc \<Rightarrow> bool" where
  "in_callback Running = True"
| "in_callback (Handling p) = True"
| "in_callback _ = False"

fun current :: "task_pc \<Rightarrow> ptr list" where
  "current (Handling p) = [p]"
| "current _ = []"

definition task_rep :: "'m task_sys \<Rightarrow> ptr list \<Rightarrow> ptr list \<Rightarrow> bool" where
  "task_rep s ts qs \<longleftrightarrow> dlist (tk_heap s) (tk_msgs s) qs \<and> tk_msgs s \<noteq> tk_tmp s \<and> tk_tmp s \<noteq> NULL
     \<and> (in_callback (tk_pc s) \<longrightarrow> dlist (tk_heap s) (tk_tmp s) ts) \<and> (\<not> in_callback (tk_pc s) \<longrightarrow> ts = [])
     \<and> distinct (current (tk_pc s) @ ts @ qs) \<and> dom (tk_mem s) = set (current (tk_pc s) @ ts @ qs)
     \<and> tk_msgs s \<notin> dom (tk_mem s) \<and> tk_tmp s \<notin> dom (tk_mem s) \<and> NULL \<notin> dom (tk_mem s)
     \<and> map Some (tk_posted s) = map Some (tk_handled s) @ map (tk_mem s) (current (tk_pc s) @ ts @ qs)
     \<and> tk_num_msgs s = of_nat (length qs)"

definition task_awake :: "'m task_sys \<Rightarrow> ptr list \<Rightarrow> bool" where
  "task_awake s qs \<longleftrightarrow> (qs \<noteq> [] \<longrightarrow> tk_noti s \<or> 0 < tk_unsent s \<or> tk_pc s = Woken)"

definition task_inv :: "'m task_sys \<Rightarrow> bool" where
  "task_inv s \<longleftrightarrow> (\<exists>ts qs. task_rep s ts qs \<and> task_awake s qs)"

lemma task_rep_disjoint:
  assumes "task_rep s ts qs"
  shows "set (tk_msgs s # qs) \<inter> set (tk_tmp s # ts) = {}" "tk_tmp s \<notin> set qs" "tk_msgs s \<notin> set ts"
  using assms by (auto simp: task_rep_def)

lemma task_start_inv: "task_start s \<Longrightarrow> task_inv s"
proof -
  assume s: "task_start s"
  then obtain s0 where s0: "task_queue_init s0 = Some s" by (auto simp: task_start_def)
  then have "tk_msgs s0 \<noteq> NULL" by (auto simp: task_queue_init_def init_list_head_def wr_next_def split: if_splits)
  then have "dlist (tk_heap s) (tk_msgs s) []" "tk_num_msgs s = 0" "tk_msgs s = tk_msgs s0"
    using s0 init_list_head_spec [of "tk_msgs s0" "tk_heap s0"] by (auto simp: task_queue_init_def)
  then have "task_rep s [] [] \<and> task_awake s []"
    using s \<open>tk_msgs s0 \<noteq> NULL\<close> by (simp add: task_rep_def task_awake_def task_start_def)
  then show "task_inv s" unfolding task_inv_def by blast
qed

text \<open>Queueing a message, in whatever state the task is.\<close>

lemma task_notify_queue_spec:
  assumes rep: "task_rep s ts qs" and m: "fresh_block s m"
  shows "\<exists>s'. task_notify_queue m msg s = Some s' \<and> task_rep s' ts (qs @ [m]) \<and> tk_pc s' = tk_pc s
    \<and> tk_noti s' = tk_noti s \<and> tk_unsent s' = tk_unsent s \<and> tk_posted s' = tk_posted s @ [msg]
    \<and> tk_handled s' = tk_handled s"
proof -
  let ?h = "tk_heap s"
  have m': "m \<noteq> NULL" "m \<notin> set (tk_msgs s # qs)" "m \<notin> set (tk_tmp s # ts)" "m \<notin> dom (tk_mem s)"
      "m \<notin> set (current (tk_pc s))"
    using rep m by (auto simp: task_rep_def fresh_block_def)
  obtain h1 where h1: "init_list_head ?h m = Some h1" "only_changes {m} ?h h1"
    using init_list_head_spec [OF m'(1)] by blast
  have q1: "dlist h1 (tk_msgs s) qs"
    by (rule dlist_frame [OF _ h1(2)]) (use rep m' in \<open>auto simp: task_rep_def\<close>)
  obtain h2 where h2: "list_add_tail h1 m (tk_msgs s) = Some h2" "dlist h2 (tk_msgs s) (qs @ [m])"
      "only_changes (insert m (set (tk_msgs s # qs))) h1 h2"
    using list_add_tail_spec [OF q1 m'(2,1)] by blast
  have "only_changes ({m} \<union> insert m (set (tk_msgs s # qs))) ?h h2"
    by (rule only_changes_trans [OF h1(2) h2(3)])
  then have t: "dlist ?h (tk_tmp s) ts \<Longrightarrow> dlist h2 (tk_tmp s) ts"
    by (rule dlist_frame [rotated]) (use m' task_rep_disjoint [OF rep] in auto)
  let ?s = "s\<lparr>tk_mem := (tk_mem s)(m \<mapsto> msg), tk_posted := tk_posted s @ [msg], tk_heap := h2,
    tk_num_msgs := tk_num_msgs s + 1\<rparr>"
  have "task_notify_queue m msg s = Some ?s"
    using h1(1) h2(1) by (simp add: task_notify_queue_def task_queue_add_def)
  moreover have "map ((tk_mem s)(m \<mapsto> msg)) xs = map (tk_mem s) xs" if "m \<notin> set xs" for xs
    using that by (induction xs) auto
  then have "task_rep ?s ts (qs @ [m])"
    using rep h2(2) t m' by (auto simp: task_rep_def)
  ultimately show ?thesis by (intro exI [of _ ?s]) simp
qed

lemma dlist_tail: "dlist h head (xs @ [x]) \<Longrightarrow> rd_prev h head = Some x"
  by (cases xs) (auto simp: dlist_def rd_prev_def)

lemma dlist_tail_empty: "dlist h head [] \<Longrightarrow> rd_prev h head = Some head"
  by (auto simp: dlist_def rd_prev_def)

lemma task_queue_take_all_spec:
  assumes rep: "task_rep s ts qs" and pc: "tk_pc s = Woken"
  shows "\<exists>s'. task_queue_take_all s = Some s' \<and> task_rep (s'\<lparr>tk_pc := Running\<rparr>) qs []
    \<and> tk_noti s' = tk_noti s \<and> tk_unsent s' = tk_unsent s \<and> tk_posted s' = tk_posted s \<and> tk_handled s' = tk_handled s"
proof -
  let ?h = "tk_heap s" and ?t = "tk_tmp s" and ?q = "tk_msgs s"
  have ts: "ts = []" and t: "?t \<noteq> NULL" "?t \<notin> set (?q # qs)"
    using rep pc by (auto simp: task_rep_def)
  obtain h1 where h1: "init_list_head ?h ?t = Some h1" "dlist h1 ?t []" "only_changes {?t} ?h h1"
    using init_list_head_spec [OF t(1)] by blast
  have q1: "dlist h1 ?q qs" by (rule dlist_frame [OF _ h1(3)]) (use rep t in \<open>auto simp: task_rep_def\<close>)
  have "\<exists>h2 l. rd_prev h1 ?q = Some l \<and> list_cut_position h1 ?t ?q l = Some h2 \<and> dlist h2 ?t qs \<and> dlist h2 ?q []"
  proof (cases qs rule: rev_cases)
    case Nil
    then show ?thesis
      using q1 h1(2) dlist_tail_empty list_cut_position_empty by fastforce
  next
    case (snoc xs x)
    then show ?thesis
      using list_cut_position_spec [of h1 ?q xs x "[]" ?t] q1 t dlist_tail [of h1 ?q xs x] by auto
  qed
  then obtain h2 l where h2: "rd_prev h1 ?q = Some l" "list_cut_position h1 ?t ?q l = Some h2"
      "dlist h2 ?t qs" "dlist h2 ?q []" by blast
  let ?s = "s\<lparr>tk_heap := h2, tk_num_msgs := 0\<rparr>"
  have "task_queue_take_all s = Some ?s" using h1(1) h2 by (simp add: task_queue_take_all_def)
  moreover have "task_rep (?s\<lparr>tk_pc := Running\<rparr>) qs []"
    using rep pc ts h2(3,4) by (auto simp: task_rep_def)
  ultimately show ?thesis by (intro exI [of _ ?s]) simp
qed

lemma task_unlink_first_spec:
  assumes rep: "task_rep s ts qs" and pc: "tk_pc s = Running" and ne: "list_empty (tk_heap s) (tk_tmp s) = Some False"
  shows "\<exists>s' p ts'. task_unlink_first s = Some (s', p) \<and> task_rep (s'\<lparr>tk_pc := Handling p\<rparr>) ts' qs
    \<and> tk_noti s' = tk_noti s \<and> tk_unsent s' = tk_unsent s \<and> tk_posted s' = tk_posted s \<and> tk_handled s' = tk_handled s"
proof -
  have t: "dlist (tk_heap s) (tk_tmp s) ts" using rep pc by (simp add: task_rep_def)
  then obtain p ts' where ts: "ts = p # ts'" using ne list_empty_spec [OF t] by (cases ts) auto
  obtain h where h: "list_del_init (tk_heap s) p = Some h" "dlist h (tk_tmp s) ts'"
      "only_changes (set (tk_tmp s # p # ts')) (tk_heap s) h"
    using list_del_init_spec [of "tk_heap s" "tk_tmp s" "[]" p ts'] t ts by auto
  have "dlist h (tk_msgs s) qs"
    by (rule dlist_frame [OF _ h(3)]) (use rep task_rep_disjoint [OF rep] ts in \<open>auto simp: task_rep_def\<close>)
  then have "task_rep (s\<lparr>tk_heap := h, tk_pc := Handling p\<rparr>) ts' qs"
    using rep pc ts h(2) by (auto simp: task_rep_def)
  moreover have "task_unlink_first s = Some (s\<lparr>tk_heap := h\<rparr>, p)"
    using h(1) list_first_entry_spec [of _ _ p ts'] t ts by (auto simp: task_unlink_first_def)
  ultimately show ?thesis by (intro exI [of _ "s\<lparr>tk_heap := h\<rparr>"] exI [of _ p] exI [of _ ts']) simp
qed

lemma task_run_message_spec:
  assumes rep: "task_rep s ts qs" and pc: "tk_pc s = Handling p"
  shows "\<exists>s' m. task_run_message (\<lambda>_. Some) p s = Some s' \<and> task_rep (s'\<lparr>tk_pc := Running\<rparr>) ts qs
    \<and> tk_noti s' = tk_noti s \<and> tk_unsent s' = tk_unsent s \<and> tk_posted s' = tk_posted s
    \<and> tk_handled s' = tk_handled s @ [m]"
proof -
  have "p \<in> dom (tk_mem s)" using rep pc by (simp add: task_rep_def)
  then obtain m where m: "tk_mem s p = Some m" by blast
  let ?s = "s\<lparr>tk_handled := tk_handled s @ [m], tk_mem := (tk_mem s)(p := None)\<rparr>"
  have "p \<notin> set ts" "p \<notin> set qs" using rep pc by (auto simp: task_rep_def)
  moreover have "map ((tk_mem s)(p := None)) xs = map (tk_mem s) xs" if "p \<notin> set xs" for xs
    using that by (induction xs) auto
  ultimately have "task_rep (?s\<lparr>tk_pc := Running\<rparr>) ts qs"
    using rep pc m by (auto simp: task_rep_def)
  then show ?thesis using m by (intro exI [of _ ?s] exI [of _ m]) (simp add: task_run_message_def)
qed

section \<open>Steps keep the invariant\<close>

lemma task_rep_flags [simp]:
  "task_rep (s\<lparr>tk_noti := b\<rparr>) ts qs = task_rep s ts qs"
  "task_rep (s\<lparr>tk_unsent := n\<rparr>) ts qs = task_rep s ts qs"
  by (simp_all add: task_rep_def)

text \<open>Work left before the task is idle with nothing queued; every step but a post reduces it.\<close>

fun pc_work :: "task_pc \<Rightarrow> nat" where
  "pc_work Woken = 2"
| "pc_work Running = 1"
| "pc_work _ = 0"

definition task_work :: "'m task_sys \<Rightarrow> nat" where
  "task_work s = 5 * tk_unsent s + (if tk_noti s then 4 else 0) + pc_work (tk_pc s)
     + 2 * (length (tk_posted s) - length (tk_handled s))"

lemma task_rep_counts:
  "task_rep s ts qs \<Longrightarrow> length (tk_posted s) = length (tk_handled s) + length (current (tk_pc s) @ ts @ qs)"
  unfolding task_rep_def by (metis length_append length_map)

lemma task_invI: "task_rep s ts qs \<Longrightarrow> task_awake s qs \<Longrightarrow> task_inv s"
  by (auto simp: task_inv_def)

lemma task_post_inv:
  assumes inv: "task_inv s" and st: "task_step s (Post m) s'"
  shows "task_inv s' \<and> tk_posted s' = tk_posted s @ [m] \<and> tk_handled s' = tk_handled s"
  using st
proof (rule task_postE)
  fix p s1 assume p: "fresh_block s p" "task_notify_queue p m s = Some s1" "s' = s1\<lparr>tk_unsent := Suc (tk_unsent s1)\<rparr>"
  obtain ts qs where "task_rep s ts qs" using inv by (auto simp: task_inv_def)
  from task_notify_queue_spec [OF this p(1), of m] p(2)
  have "task_rep s1 ts (qs @ [p])" "tk_posted s1 = tk_posted s @ [m]" "tk_handled s1 = tk_handled s" by auto
  then show ?thesis using p(3) by (auto simp: task_inv_def task_awake_def intro!: exI)
qed

lemma task_other_inv:
  assumes inv: "task_inv s" and st: "task_step s Other s'"
  shows "task_inv s' \<and> tk_posted s' = tk_posted s \<and> task_work s' < task_work s"
proof -
  obtain ts qs where rep: "task_rep s ts qs" and awake: "task_awake s qs" using inv by (auto simp: task_inv_def)
  from st show ?thesis
  proof (rule task_otherE)
    fix n assume s: "s' = (ev_async_send s)\<lparr>tk_unsent := n\<rparr>" "tk_unsent s = Suc n"
    then show ?thesis using rep by (auto simp: task_inv_def task_awake_def ev_async_send_def task_work_def)
  next
    assume s: "s' = s\<lparr>tk_pc := Woken, tk_noti := False\<rparr>" "tk_pc s = Waiting" "tk_noti s"
    then have "task_rep s' ts qs" using rep by (auto simp: task_rep_def)
    then show ?thesis using s by (auto simp: task_inv_def task_awake_def task_work_def)
  next
    fix s1 assume s: "s' = s1\<lparr>tk_pc := Running\<rparr>" "tk_pc s = Woken" "task_queue_take_all s = Some s1"
    with task_queue_take_all_spec [OF rep s(2)]
    have "task_rep s' qs []" "tk_noti s1 = tk_noti s" "tk_unsent s1 = tk_unsent s" "tk_posted s1 = tk_posted s"
      "tk_handled s1 = tk_handled s" by auto
    then show ?thesis using s by (auto simp: task_inv_def task_awake_def task_work_def)
  next
    fix s1 p assume s: "s' = s1\<lparr>tk_pc := Handling p\<rparr>" "tk_pc s = Running"
      "list_empty (tk_heap s) (tk_tmp s) = Some False" "task_unlink_first s = Some (s1, p)"
    with task_unlink_first_spec [OF rep s(2,3)] obtain ts' where
      "task_rep s' ts' qs" "tk_noti s1 = tk_noti s" "tk_unsent s1 = tk_unsent s" "tk_posted s1 = tk_posted s"
      "tk_handled s1 = tk_handled s" by auto
    then show ?thesis using s awake by (auto simp: task_awake_def task_work_def intro!: task_invI [of _ ts' qs])
  next
    fix p s1 assume s: "s' = s1\<lparr>tk_pc := Running\<rparr>" "tk_pc s = Handling p" "task_run_message (\<lambda>_. Some) p s = Some s1"
    with task_run_message_spec [OF rep s(2)] obtain m where
      "task_rep s' ts qs" "tk_noti s1 = tk_noti s" "tk_unsent s1 = tk_unsent s" "tk_posted s1 = tk_posted s"
      "tk_handled s1 = tk_handled s @ [m]" by auto
    moreover have "length (tk_handled s) < length (tk_posted s)" using task_rep_counts [OF rep] s(2) by simp
    ultimately show ?thesis using s awake by (auto simp: task_awake_def task_work_def intro!: task_invI [of _ ts qs])
  next
    assume s: "s' = s\<lparr>tk_pc := Waiting\<rparr>" "tk_pc s = Running" "list_empty (tk_heap s) (tk_tmp s) = Some True"
    then have "ts = []" using rep list_empty_spec [of "tk_heap s" "tk_tmp s" ts] by (auto simp: task_rep_def)
    then have "task_rep s' [] qs" using rep s by (auto simp: task_rep_def)
    then show ?thesis using s awake by (auto simp: task_awake_def task_work_def intro!: task_invI [of _ "[]" qs])
  qed
qed

lemma task_reachable_inv: "task_reachable s \<Longrightarrow> task_inv s"
proof (induction rule: task_reachable.induct)
  case (start s)
  then show ?case by (rule task_start_inv)
next
  case (step s e s')
  show ?case
  proof (cases e)
    case (Post m)
    with step show ?thesis using task_post_inv [of s m s'] by simp
  next
    case Other
    with step show ?thesis using task_other_inv [of s s'] by simp
  qed
qed

text \<open>A task that is woken, runs or can be woken is never stuck; nor is one that has work to do.\<close>

lemma task_can_step:
  assumes inv: "task_inv s" and busy: "tk_pc s \<noteq> Waiting \<or> tk_noti s \<or> tk_unsent s \<noteq> 0"
  shows "\<exists>s'. task_step s Other s'"
proof -
  obtain ts qs where rep: "task_rep s ts qs" using inv by (auto simp: task_inv_def)
  show ?thesis
  proof (cases "tk_pc s")
    case Waiting
    then have "tk_noti s \<or> (\<exists>n. tk_unsent s = Suc n)" using busy by (cases "tk_unsent s") auto
    then show ?thesis using Waiting task_step.wake task_step.send by blast
  next
    case Woken
    then show ?thesis using task_queue_take_all_spec [OF rep] task_step.take_all by blast
  next
    case Running
    then have "list_empty (tk_heap s) (tk_tmp s) = Some (ts = [])"
      using rep by (intro list_empty_spec) (simp add: task_rep_def)
    then show ?thesis
    proof (cases "ts = []")
      case True
      with \<open>list_empty _ _ = _\<close> have "list_empty (tk_heap s) (tk_tmp s) = Some True" by simp
      then show ?thesis using task_step.finish [OF Running] by blast
    next
      case False
      with \<open>list_empty _ _ = _\<close> have e: "list_empty (tk_heap s) (tk_tmp s) = Some False" by simp
      then show ?thesis using task_unlink_first_spec [OF rep Running e] task_step.unlink [OF Running e] by blast
    qed
  next
    case (Handling p)
    then show ?thesis using task_run_message_spec [OF rep] task_step.run by blast
  qed
qed

lemma task_progress:
  assumes inv: "task_inv s" and left: "tk_handled s \<noteq> tk_posted s"
  shows "\<exists>s'. task_step s Other s'"
proof -
  obtain ts qs where "task_rep s ts qs" "task_awake s qs" using inv by (auto simp: task_inv_def)
  then have "tk_pc s \<noteq> Waiting \<or> tk_noti s \<or> tk_unsent s \<noteq> 0" using left by (auto simp: task_awake_def task_rep_def)
  with inv show ?thesis by (rule task_can_step)
qed

inductive task_quiet_run :: "'m task_sys \<Rightarrow> 'm task_sys \<Rightarrow> bool" where
  stop: "task_quiet_run s s"
| more: "task_step s Other s1 \<Longrightarrow> task_quiet_run s1 s' \<Longrightarrow> task_quiet_run s s'"

lemma task_quiet_run_inv: "task_quiet_run s s' \<Longrightarrow> task_inv s \<Longrightarrow> task_inv s' \<and> tk_posted s' = tk_posted s"
  by (induction rule: task_quiet_run.induct) (auto dest: task_other_inv)

lemma task_drains:
  "task_inv s \<Longrightarrow> \<exists>s'. task_quiet_run s s' \<and> tk_handled s' = tk_posted s \<and> tk_posted s' = tk_posted s"
proof (induction "task_work s" arbitrary: s rule: less_induct)
  case less
  show ?case
  proof (cases "tk_handled s = tk_posted s")
    case True
    then show ?thesis using task_quiet_run.stop by blast
  next
    case False
    then obtain s1 where s1: "task_step s Other s1" using task_progress less.prems by blast
    with task_other_inv [OF less.prems] have "task_inv s1" "tk_posted s1 = tk_posted s" "task_work s1 < task_work s"
      by auto
    then show ?thesis using less.hyps [of s1] s1 task_quiet_run.more by fastforce
  qed
qed

section \<open>The callback as one function\<close>

lemma task_run_message_pc:
  "task_run_message (\<lambda>_. Some) p (s\<lparr>tk_pc := c\<rparr>) = map_option (\<lambda>s. s\<lparr>tk_pc := c\<rparr>) (task_run_message (\<lambda>_. Some) p s)"
  by (cases "tk_mem s p") (simp_all add: task_run_message_def)

lemma task_run_all_spec:
  assumes "task_rep s ts qs" "tk_pc s = Running"
  shows "\<exists>s'. task_run_all (\<lambda>_. Some) s = Some s' \<and> task_rep s' [] qs \<and> tk_pc s' = Running \<and> tk_posted s' = tk_posted s"
  using assms
proof (induction "length ts" arbitrary: s ts)
  case 0
  then have "list_empty (tk_heap s) (tk_tmp s) = Some True" by (auto simp: task_rep_def list_empty_spec)
  then show ?case using 0 by (subst task_run_all.simps) auto
next
  case (Suc n)
  then have e: "list_empty (tk_heap s) (tk_tmp s) = Some False" by (auto simp: task_rep_def list_empty_spec)
  obtain s1 p ts' where s1: "task_unlink_first s = Some (s1, p)" "task_rep (s1\<lparr>tk_pc := Handling p\<rparr>) ts' qs"
      "tk_posted s1 = tk_posted s" "tk_handled s1 = tk_handled s"
    using task_unlink_first_spec [OF Suc.prems e] by blast
  have pc: "tk_pc s1 = Running" using s1(1) Suc.prems(2) by (auto simp: task_unlink_first_def)
  obtain s2 m where "task_run_message (\<lambda>_. Some) p (s1\<lparr>tk_pc := Handling p\<rparr>) = Some s2"
      "task_rep (s2\<lparr>tk_pc := Running\<rparr>) ts' qs" "tk_posted s2 = tk_posted s1" "tk_handled s2 = tk_handled s1 @ [m]"
    using task_run_message_spec [OF s1(2)] by auto
  then obtain s3 where s3: "task_run_message (\<lambda>_. Some) p s1 = Some s3" "s2 = s3\<lparr>tk_pc := Handling p\<rparr>"
      "task_rep (s3\<lparr>tk_pc := Running\<rparr>) ts' qs" "tk_posted s3 = tk_posted s1" "tk_handled s3 = tk_handled s1 @ [m]"
    by (auto simp: task_run_message_pc)
  have "tk_pc s3 = Running" using s3(1) pc by (auto simp: task_run_message_def)
  with s3 have rep3: "task_rep s3 ts' qs" by (metis (full_types) task_sys.surjective task_sys.update_convs(8))
  have "length (tk_posted s) = length (tk_handled s) + (length ts + length qs)"
    using task_rep_counts [OF Suc.prems(1)] Suc.prems(2) by simp
  moreover have "length (tk_posted s3) = length (tk_handled s3) + (length ts' + length qs)"
    using task_rep_counts [OF rep3] \<open>tk_pc s3 = Running\<close> by simp
  ultimately have "n = length ts'" using Suc.hyps(2) s1 s3 by simp
  from Suc.hyps(1) [OF this rep3 \<open>tk_pc s3 = Running\<close>] show ?case
    using e s1 s3 by (subst task_run_all.simps) auto
qed

lemma reachable_in_order:
  assumes "task_reachable s"
  shows "prefix (tk_handled s) (tk_posted s)"
proof -
  obtain ts qs where "task_rep s ts qs" using task_reachable_inv [OF assms] by (auto simp: task_inv_def)
  then have "map Some (tk_posted s) = map Some (tk_handled s) @ map (tk_mem s) (current (tk_pc s) @ ts @ qs)"
    by (simp add: task_rep_def)
  then have "prefix (map Some (tk_handled s)) (map Some (tk_posted s))" by simp
  then have "\<exists>zs. tk_posted s = tk_handled s @ zs"
    by (auto simp: prefix_def map_eq_append_conv dest: map_injective intro: inj_onI) 
  then show ?thesis by (simp add: prefix_def)
qed

section \<open>Properties\<close>

text \<open>
  C5: However senders and the task interleave, the messages queued so far are, in the order in which they were
  queued: those whose handlers were started, then the one unlinked whose handler is to run next (if any), then those
  the callback took and did not unlink yet (on its own list, while it runs), then those on the task's queue, which
  \<open>num_msgs\<close> counts. None is lost, repeated or overtaken, and no block is on a list twice.
\<close>

theorem task_messages_in_order:
  assumes "task_reachable s"
  shows "\<exists>taken queued. dlist (tk_heap s) (tk_msgs s) queued
    \<and> (if in_callback (tk_pc s) then dlist (tk_heap s) (tk_tmp s) taken else taken = [])
    \<and> distinct (current (tk_pc s) @ taken @ queued) \<and> tk_num_msgs s = of_nat (length queued)
    \<and> map Some (tk_posted s) = map Some (tk_handled s) @ map (tk_mem s) (current (tk_pc s) @ taken @ queued)"
proof -
  obtain ts qs where "task_rep s ts qs" using task_reachable_inv [OF assms] by (auto simp: task_inv_def)
  then show ?thesis by (intro exI [of _ ts] exI [of _ qs]) (simp add: task_rep_def)
qed

text \<open>A task whose queue head is at address 1 and whose callback's list is at 2, after one post.\<close>

definition idle_task_sys :: "nat task_sys" where
  "idle_task_sys = \<lparr>tk_heap = \<lparr>lh_next = (\<lambda>_. 0)(1 := 1), lh_prev = (\<lambda>_. 0)(1 := 1)\<rparr>, tk_msgs = 1, tk_tmp = 2,
     tk_num_msgs = 0, tk_mem = Map.empty, tk_noti = False, tk_unsent = 0, tk_pc = Waiting, tk_posted = [], tk_handled = []\<rparr>"

lemma idle_task_start: "task_start idle_task_sys"
proof -
  have "task_queue_init idle_task_sys = Some idle_task_sys"
    by (simp add: task_queue_init_def idle_task_sys_def init_list_head_def wr_next_def wr_prev_def)
  then show ?thesis unfolding task_start_def by (intro conjI exI [of _ idle_task_sys]) (simp_all add: idle_task_sys_def)
qed

lemma one_message_reachable:
  obtains s :: "nat task_sys" where "task_reachable s" "tk_posted s = [7]" "tk_handled s = []" "tk_pc s = Waiting" "tk_unsent s = Suc 0"
proof -
  have "task_inv idle_task_sys" using task_start_inv [OF idle_task_start] .
  then obtain ts qs where "task_rep idle_task_sys ts qs" by (auto simp: task_inv_def)
  moreover have fresh: "fresh_block idle_task_sys 5" by (simp add: fresh_block_def idle_task_sys_def)
  ultimately obtain s1 where s1: "task_notify_queue 5 7 idle_task_sys = Some s1" "tk_pc s1 = Waiting"
      "tk_unsent s1 = 0" "tk_posted s1 = [7]" "tk_handled s1 = []"
    using task_notify_queue_spec [of idle_task_sys ts qs 5 7] by (auto simp: idle_task_sys_def)
  have "task_reachable (s1\<lparr>tk_unsent := Suc (tk_unsent s1)\<rparr>)"
    using task_reachable.step [OF task_reachable.start [OF idle_task_start] task_step.post [OF fresh s1(1)]] .
  with s1 that [of "s1\<lparr>tk_unsent := Suc (tk_unsent s1)\<rparr>"] show thesis by simp
qed

lemma task_messages_in_order_witness:
  "\<exists>s m. task_reachable s \<and> tk_posted s = [7 :: nat] \<and> tk_handled s = [] \<and> dlist (tk_heap s) (tk_msgs s) [m] \<and> tk_mem s m = Some 7"
proof -
  obtain s :: "nat task_sys" where s: "task_reachable s" "tk_posted s = [7]" "tk_handled s = []" "tk_pc s = Waiting"
    by (rule one_message_reachable)
  from task_messages_in_order [OF s(1)] s(2-4) obtain q where "dlist (tk_heap s) (tk_msgs s) q" "[Some 7] = map (tk_mem s) q" by auto
  then have "\<exists>m. dlist (tk_heap s) (tk_msgs s) [m] \<and> tk_mem s m = Some 7" by (cases q) auto
  with s show ?thesis by blast
qed

text \<open>
  C15: No wake-up is lost: when the task waits, no wake-up is pending and no sender is between queueing its
  message and sending the wake-up, then every message that was queued has been run.
\<close>

theorem task_no_lost_wakeup:
  assumes "task_reachable s" "tk_pc s = Waiting" "\<not> tk_noti s" "tk_unsent s = 0"
  shows "tk_handled s = tk_posted s \<and> list_empty (tk_heap s) (tk_msgs s) = Some True"
proof -
  obtain ts qs where rep: "task_rep s ts qs" and "task_awake s qs"
    using task_reachable_inv [OF assms(1)] by (auto simp: task_inv_def)
  then have "qs = []" "ts = []" using assms(2-4) by (auto simp: task_awake_def task_rep_def)
  with rep assms(2) show ?thesis by (auto simp: task_rep_def list_empty_spec)
qed

text \<open>After one message was posted, sent, taken and run, and its callback has returned.\<close>

lemma one_message_run:
  obtains s :: "nat task_sys" where "task_reachable s" "tk_posted s = [7]" "tk_pc s = Waiting" "\<not> tk_noti s" "tk_unsent s = 0"
proof -
  have quiet: "\<exists>s'. task_reachable s' \<and> tk_posted s' = tk_posted s \<and> (\<nexists>s''. task_step s' Other s'')"
    if "task_reachable s" for s :: "nat task_sys"
    using that
  proof (induction "task_work s" arbitrary: s rule: less_induct)
    case less
    show ?case
    proof (cases "\<exists>s1. task_step s Other s1")
      case True
      then obtain s1 where s1: "task_step s Other s1" by blast
      note r = task_reachable.step [OF less.prems s1]
      from task_other_inv [OF task_reachable_inv [OF less.prems] s1] less.hyps [OF _ r] show ?thesis by auto
    qed (use less.prems in blast)
  qed
  obtain s0 :: "nat task_sys" where s0: "task_reachable s0" "tk_posted s0 = [7]" by (rule one_message_reachable)
  from quiet [OF s0(1)] obtain s where s: "task_reachable s" "tk_posted s = tk_posted s0" "\<nexists>s''. task_step s Other s''" by blast
  with task_can_step [OF task_reachable_inv [OF s(1)]] s0(2) show thesis by (intro that [of s]) auto
qed

lemma task_no_lost_wakeup_witness:
  "\<exists>s. task_reachable s \<and> tk_posted s = [7 :: nat] \<and> tk_handled s = [7] \<and> list_empty (tk_heap s) (tk_msgs s) = Some True"
proof -
  obtain s :: "nat task_sys" where s: "task_reachable s" "tk_posted s = [7]" "tk_pc s = Waiting" "\<not> tk_noti s" "tk_unsent s = 0"
    by (rule one_message_run)
  with task_no_lost_wakeup [OF s(1,3-5)] show ?thesis by auto
qed

text \<open>
  C29: From every reachable state, if nothing more is queued, every step of the senders and the task brings it
  closer to the end (a measure decreases), and where no step is possible any more every message has
  been run: the queue always drains.
\<close>

theorem task_queue_drains:
  assumes "task_reachable s"
  shows "(\<forall>s'. task_step s Other s' \<longrightarrow> task_work s' < task_work s)
    \<and> ((\<nexists>s'. task_step s Other s') \<longrightarrow> tk_handled s = tk_posted s)
    \<and> (\<exists>s'. task_quiet_run s s' \<and> tk_handled s' = tk_posted s)"
  using task_reachable_inv [OF assms] task_other_inv task_progress task_drains by metis

lemma task_queue_drains_witness:
  "\<exists>s s'. tk_posted s = [7 :: nat] \<and> task_quiet_run s s' \<and> tk_handled s' = [7]"
proof -
  obtain s :: "nat task_sys" where s: "task_reachable s" "tk_posted s = [7]" by (rule one_message_reachable)
  with task_queue_drains [OF s(1)] show ?thesis by metis
qed

text \<open>
  The notification callback as the source writes it, run without interruption on a task that was woken,
  ends (the loop terminates) with every queued message run and the queue empty.
\<close>

theorem task_callback_runs_everything:
  assumes "task_reachable s" "tk_pc s = Woken"
  shows "\<exists>s'. task_queue_noti_callback (\<lambda>_. Some) (s\<lparr>tk_pc := Running\<rparr>) = Some s' \<and> tk_handled s' = tk_posted s
    \<and> list_empty (tk_heap s') (tk_msgs s') = Some True"
proof -
  obtain ts qs where rep: "task_rep s ts qs" using task_reachable_inv [OF assms(1)] by (auto simp: task_inv_def)
  obtain s1 where s1: "task_queue_take_all s = Some s1" "task_rep (s1\<lparr>tk_pc := Running\<rparr>) qs []" "tk_posted s1 = tk_posted s"
    using task_queue_take_all_spec [OF rep assms(2)] by blast
  then have "task_queue_take_all (s\<lparr>tk_pc := Running\<rparr>) = Some (s1\<lparr>tk_pc := Running\<rparr>)"
    by (auto simp: task_queue_take_all_def)
  moreover obtain s2 where s2: "task_run_all (\<lambda>_. Some) (s1\<lparr>tk_pc := Running\<rparr>) = Some s2" "task_rep s2 [] []"
      "tk_pc s2 = Running" "tk_posted s2 = tk_posted s"
    using task_run_all_spec [OF s1(2)] s1(3) by auto
  moreover have "tk_handled s2 = tk_posted s" "list_empty (tk_heap s2) (tk_msgs s2) = Some True"
    using s2 by (auto simp: task_rep_def list_empty_spec)
  ultimately show ?thesis by (simp add: task_queue_noti_callback_def)
qed

lemma task_callback_runs_everything_witness:
  "\<exists>s s'. tk_posted s = [7 :: nat] \<and> task_queue_noti_callback (\<lambda>_. Some) s = Some s' \<and> tk_handled s' = [7]"
proof -
  obtain s where s: "task_reachable s" "tk_posted s = [7 :: nat]" "tk_pc s = Waiting" "tk_unsent s = Suc 0"
    by (rule one_message_reachable)
  let ?s1 = "(ev_async_send s)\<lparr>tk_unsent := 0\<rparr>"
  have "task_reachable ?s1" using task_reachable.step [OF s(1) task_step.send [OF s(4)]] .
  moreover have "task_step ?s1 Other (?s1\<lparr>tk_pc := Woken, tk_noti := False\<rparr>)"
    using s(3) by (intro task_step.wake) (simp_all add: ev_async_send_def)
  ultimately have "task_reachable (?s1\<lparr>tk_pc := Woken, tk_noti := False\<rparr>)" by (rule task_reachable.step)
  from task_callback_runs_everything [OF this] s(2) obtain s' where
    "task_queue_noti_callback (\<lambda>_. Some) (?s1\<lparr>tk_noti := False, tk_pc := Running\<rparr>) = Some s'" "tk_handled s' = [7]"
    by (auto simp: ev_async_send_def)
  then show ?thesis using s(2)
    by (intro exI [of _ "?s1\<lparr>tk_noti := False, tk_pc := Running\<rparr>"] exI [of _ s']) (simp add: ev_async_send_def)
qed

end
