(* ===== verification/Item_Pool.thy ===== *)
theory Item_Pool
  imports Klist
begin

text \<open>
  \<open>src/core/item_pool.c\<close> and \<open>src/core/log.c\<close>: a fixed set of buffers on a free list, taken by any
  thread, handed to the pool's task and put back when the task has consumed them; the log is its
  only user. Each access to the free list holds the pool's mutex and is one step; everything else interleaves.
  What is handed to the task is a message of the task queue: it is kept in \<open>ip_notified\<close> in the order
  of the notifications.
\<close>

section \<open>State and operations\<close>

record item_pool =
  ip_heap :: lheap
  ip_free :: ptr
  ip_data :: "ptr \<Rightarrow> u8 list"
  ip_notified :: "ptr list"
  ip_consumed :: "u8 list list"

definition get_item_pool_buffer :: "item_pool \<Rightarrow> (item_pool \<times> ptr) option" where
  "get_item_pool_buffer p = do {
     e \<leftarrow> list_empty (ip_heap p) (ip_free p);
     if \<not> e then do {
       buf \<leftarrow> list_first_entry (ip_heap p) (ip_free p);
       h \<leftarrow> list_del_init (ip_heap p) buf;
       Some (p\<lparr>ip_heap := h\<rparr>, buf) }
     else Some (p, NULL) }"

definition put_item_pool_buffer_nolock :: "item_pool \<Rightarrow> ptr \<Rightarrow> item_pool option" where
  "put_item_pool_buffer_nolock p buf = do {
     h \<leftarrow> list_add_tail (ip_heap p) buf (ip_free p);
     Some (p\<lparr>ip_heap := h\<rparr>) }"

definition put_item_pool_buffer :: "item_pool \<Rightarrow> ptr \<Rightarrow> item_pool option" where
  "put_item_pool_buffer p buf = put_item_pool_buffer_nolock p buf"

definition item_pool_get :: "item_pool \<Rightarrow> (item_pool \<times> ptr) option" where
  "item_pool_get p = get_item_pool_buffer p"

definition item_pool_put :: "item_pool \<Rightarrow> ptr \<Rightarrow> item_pool option" where
  "item_pool_put p buf = put_item_pool_buffer p buf"

text \<open>\<open>buffers\<close> are the addresses of the pool's array; \<open>buf_init\<close> is the user's initialisation.\<close>

definition item_pool_init :: "(item_pool \<Rightarrow> ptr \<Rightarrow> nat \<Rightarrow> item_pool option) \<Rightarrow> item_pool \<Rightarrow> ptr list \<Rightarrow> item_pool option" where
  "item_pool_init buf_init p buffers = do {
     h \<leftarrow> init_list_head (ip_heap p) (ip_free p);
     foldo (\<lambda>p (i, buf). do {
         h \<leftarrow> init_list_head (ip_heap p) buf;
         p \<leftarrow> put_item_pool_buffer_nolock (p\<lparr>ip_heap := h\<rparr>) buf;
         buf_init p buf i }) (p\<lparr>ip_heap := h\<rparr>) (enumerate 0 buffers) }"

text \<open>
  \<open>mem\<close> says whether \<open>task_notify\<close> gets the memory of its message; its failure is not noticed.
\<close>

definition item_pool_notify :: "bool \<Rightarrow> item_pool \<Rightarrow> ptr \<Rightarrow> item_pool" where
  "item_pool_notify mem p buf = (if mem then p\<lparr>ip_notified := ip_notified p @ [buf]\<rparr> else p)"

definition consume_buffer :: "(item_pool \<Rightarrow> ptr \<Rightarrow> item_pool option) \<Rightarrow> item_pool \<Rightarrow> ptr \<Rightarrow> item_pool option" where
  "consume_buffer consume p buf = do {
     p \<leftarrow> consume p buf;
     put_item_pool_buffer p buf }"

section \<open>The log\<close>

definition LOG_BUFFER_NUM_ELEM :: nat where "LOG_BUFFER_NUM_ELEM = 128"
definition LOG_BUFFER_SIZE :: nat where "LOG_BUFFER_SIZE = 256"

definition debug_log_buffer_init :: "item_pool \<Rightarrow> ptr \<Rightarrow> nat \<Rightarrow> item_pool option" where
  "debug_log_buffer_init p buf ndx =
     (if ndx < LOG_BUFFER_NUM_ELEM then Some (p\<lparr>ip_data := (ip_data p)(buf := replicate LOG_BUFFER_SIZE 0)\<rparr>) else None)"

text \<open>A C string: the bytes before the terminator, undefined when there is none.\<close>

definition c_string :: "u8 list \<Rightarrow> u8 list option" where
  "c_string bs = (if 0 \<in> set bs then Some (takeWhile (\<lambda>b. b \<noteq> 0) bs) else None)"

definition debug_log :: "item_pool \<Rightarrow> ptr \<Rightarrow> item_pool option" where
  "debug_log p buf = do {
     msg \<leftarrow> c_string (ip_data p buf);
     Some (p\<lparr>ip_consumed := ip_consumed p @ [msg]\<rparr>) }"

text \<open>
  \<open>vsnprintf\<close> of a text: it stores at most \<open>sz - 1\<close> characters and the terminator, and returns the
  length of the whole text.
\<close>

definition vsnprintf :: "u8 list \<Rightarrow> nat \<Rightarrow> u8 list \<Rightarrow> (u8 list \<times> int) option" where
  "vsnprintf buf sz msg = do {
     let out = take (sz - 1) msg @ [0];
     b \<leftarrow> mem_blit buf 0 out;
     Some (b, int (length msg)) }"

text \<open>\<open>log_write\<close> in its three parts: take a buffer; format into it; notify the task or put it back.\<close>

definition log_format :: "item_pool \<Rightarrow> ptr \<Rightarrow> u8 list \<Rightarrow> (item_pool \<times> int) option" where
  "log_format p buf msg = do {
     (d, len) \<leftarrow> vsnprintf (ip_data p buf) LOG_BUFFER_SIZE msg;
     Some (p\<lparr>ip_data := (ip_data p)(buf := d)\<rparr>, len) }"

definition log_hand :: "bool \<Rightarrow> item_pool \<Rightarrow> ptr \<Rightarrow> int \<Rightarrow> item_pool option" where
  "log_hand mem p buf len =
     (if len > 0 \<and> len < int LOG_BUFFER_SIZE then Some (item_pool_notify mem p buf) else item_pool_put p buf)"

definition log_write :: "bool \<Rightarrow> item_pool \<Rightarrow> u8 list \<Rightarrow> item_pool option" where
  "log_write mem p msg = do {
     (p, buf) \<leftarrow> item_pool_get p;
     if buf = NULL then Some p
     else do {
       (p, len) \<leftarrow> log_format p buf msg;
       log_hand mem p buf len } }"

definition log_init :: "item_pool \<Rightarrow> ptr list \<Rightarrow> item_pool option" where
  "log_init p buffers = item_pool_init debug_log_buffer_init p buffers"

section \<open>Interleaved steps\<close>

text \<open>
  Writers and the log's task one action at a time; only the accesses to the free list exclude each other. A call
  in progress has a number; between its actions it holds a buffer. Whether the notification's \<open>malloc\<close> succeeds
  is part of the event. The task's handler \<open>__consume_buffer\<close> is entered with the oldest notified buffer, prints
  it and puts it back. An event whose call or handler is not at that point changes nothing.
\<close>

datatype log_event = Call nat "u8 list" | Format nat | Hand nat bool | Take | Print | Release

datatype log_writer = Holding ptr "u8 list" | Filled ptr int

datatype 'a consumer = Idle | Taken 'a | Printed 'a

record log_sys =
  ls_pool :: item_pool
  ls_writers :: "nat \<Rightarrow> log_writer option"
  ls_task :: "ptr consumer"

fun log_step :: "log_sys \<Rightarrow> log_event \<Rightarrow> log_sys option" where
  "log_step s (Call i msg) =
     (if ls_writers s i \<noteq> None then Some s
      else do {
        (p, buf) \<leftarrow> item_pool_get (ls_pool s);
        Some (s\<lparr>ls_pool := p, ls_writers := (ls_writers s)(i := if buf = NULL then None else Some (Holding buf msg))\<rparr>) })"
| "log_step s (Format i) =
     (case ls_writers s i of
        Some (Holding buf msg) \<Rightarrow> do {
          (p, len) \<leftarrow> log_format (ls_pool s) buf msg;
          Some (s\<lparr>ls_pool := p, ls_writers := (ls_writers s)(i \<mapsto> Filled buf len)\<rparr>) }
      | _ \<Rightarrow> Some s)"
| "log_step s (Hand i mem) =
     (case ls_writers s i of
        Some (Filled buf len) \<Rightarrow> do {
          p \<leftarrow> log_hand mem (ls_pool s) buf len;
          Some (s\<lparr>ls_pool := p, ls_writers := (ls_writers s)(i := None)\<rparr>) }
      | _ \<Rightarrow> Some s)"
| "log_step s Take =
     (case (ls_task s, ip_notified (ls_pool s)) of
        (Idle, buf # bufs) \<Rightarrow> Some (s\<lparr>ls_pool := (ls_pool s)\<lparr>ip_notified := bufs\<rparr>, ls_task := Taken buf\<rparr>)
      | _ \<Rightarrow> Some s)"
| "log_step s Print =
     (case ls_task s of
        Taken buf \<Rightarrow> do {
          p \<leftarrow> debug_log (ls_pool s) buf;
          Some (s\<lparr>ls_pool := p, ls_task := Printed buf\<rparr>) }
      | _ \<Rightarrow> Some s)"
| "log_step s Release =
     (case ls_task s of
        Printed buf \<Rightarrow> do {
          p \<leftarrow> put_item_pool_buffer (ls_pool s) buf;
          Some (s\<lparr>ls_pool := p, ls_task := Idle\<rparr>) }
      | _ \<Rightarrow> Some s)"

text \<open>A call and a handler that nothing interrupts are the functions of the source.\<close>

lemma log_write_uninterrupted:
  assumes "ls_writers s i = None"
  shows "foldo log_step s [Call i msg, Format i, Hand i mem]
    = map_option (\<lambda>p. s\<lparr>ls_pool := p\<rparr>) (log_write mem (ls_pool s) msg)"
proof -
  have [simp]: "s\<lparr>ls_pool := p, ls_writers := (ls_writers s)(i := None)\<rparr> = s\<lparr>ls_pool := p\<rparr>" for p
    using assms by (metis fun_upd_triv log_sys.surjective log_sys.update_convs(1,2))
  show ?thesis
    using assms by (auto simp: log_write_def split: bind_splits option.splits)
qed

lemma consume_buffer_uninterrupted:
  assumes "ls_task s = Idle" "ip_notified (ls_pool s) = buf # bufs"
  shows "foldo log_step s [Take, Print, Release]
    = map_option (\<lambda>p. s\<lparr>ls_pool := p\<rparr>) (consume_buffer debug_log ((ls_pool s)\<lparr>ip_notified := bufs\<rparr>) buf)"
proof -
  have [simp]: "s\<lparr>ls_pool := p, ls_task := Idle\<rparr> = s\<lparr>ls_pool := p\<rparr>" for p
    using assms by (metis log_sys.surjective log_sys.update_convs(1,3))
  show ?thesis
    using assms by (auto simp: consume_buffer_def split: bind_splits option.splits)
qed

section \<open>Invariant\<close>

text \<open>
  A buffer is in one place: free, notified, with a call, with the task's handler, or lost to a notification
  that could not be allocated.
\<close>

datatype place = Free | Queued | Held nat | Busy | Lost

fun writer_buffer :: "log_writer \<Rightarrow> ptr" where
  "writer_buffer (Holding b msg) = b"
| "writer_buffer (Filled b len) = b"

fun consumer_item :: "'a consumer \<Rightarrow> 'a option" where
  "consumer_item Idle = None"
| "consumer_item (Taken b) = Some b"
| "consumer_item (Printed b) = Some b"

definition pool_places :: "item_pool \<Rightarrow> ptr list \<Rightarrow> ptr list \<Rightarrow> (ptr \<Rightarrow> place) \<Rightarrow> bool" where
  "pool_places p bufs free pl \<longleftrightarrow> dlist (ip_heap p) (ip_free p) free
     \<and> distinct bufs \<and> ip_free p \<notin> set bufs \<and> NULL \<notin> set bufs \<and> (\<forall>b \<in> set bufs. length (ip_data p b) = LOG_BUFFER_SIZE)
     \<and> distinct free \<and> (\<forall>b. b \<in> set free \<longleftrightarrow> b \<in> set bufs \<and> pl b = Free)
     \<and> distinct (ip_notified p) \<and> (\<forall>b. b \<in> set (ip_notified p) \<longleftrightarrow> b \<in> set bufs \<and> pl b = Queued)"

definition held_places :: "(nat \<Rightarrow> log_writer option) \<Rightarrow> ptr list \<Rightarrow> (ptr \<Rightarrow> place) \<Rightarrow> bool" where
  "held_places ws bufs pl \<longleftrightarrow> (\<forall>i b. map_option writer_buffer (ws i) = Some b \<longleftrightarrow> b \<in> set bufs \<and> pl b = Held i)"

definition busy_place :: "ptr consumer \<Rightarrow> ptr list \<Rightarrow> (ptr \<Rightarrow> place) \<Rightarrow> bool" where
  "busy_place t bufs pl \<longleftrightarrow> (\<forall>b. consumer_item t = Some b \<longleftrightarrow> b \<in> set bufs \<and> pl b = Busy)"

definition log_places :: "log_sys \<Rightarrow> ptr list \<Rightarrow> ptr list \<Rightarrow> (ptr \<Rightarrow> place) \<Rightarrow> bool" where
  "log_places s bufs free pl \<longleftrightarrow> pool_places (ls_pool s) bufs free pl
     \<and> held_places (ls_writers s) bufs pl \<and> busy_place (ls_task s) bufs pl"

lemma held_take:
  assumes "held_places ws bufs pl" "b \<in> set bufs" "pl b = Free" "ws i = None" "writer_buffer x = b"
  shows "held_places (ws(i \<mapsto> x)) bufs (pl(b := Held i))"
  unfolding held_places_def
proof (intro allI)
  fix j c
  show "map_option writer_buffer ((ws(i \<mapsto> x)) j) = Some c \<longleftrightarrow> c \<in> set bufs \<and> (pl(b := Held i)) c = Held j"
    using assms(1) [unfolded held_places_def, rule_format, of j c] assms(2-5) by (cases "j = i"; cases "c = b"; simp)
qed

lemma held_fill:
  assumes "held_places ws bufs pl" "map_option writer_buffer (ws i) = Some (writer_buffer x)"
  shows "held_places (ws(i \<mapsto> x)) bufs pl"
  unfolding held_places_def
proof (intro allI)
  fix j c
  show "map_option writer_buffer ((ws(i \<mapsto> x)) j) = Some c \<longleftrightarrow> c \<in> set bufs \<and> pl c = Held j"
    using assms(1) [unfolded held_places_def, rule_format, of j c] assms(2) by (cases "j = i"; simp)
qed

lemma held_drop:
  assumes "held_places ws bufs pl" "map_option writer_buffer (ws i) = Some b" "x \<notin> range Held"
  shows "held_places (ws(i := None)) bufs (pl(b := x))"
  unfolding held_places_def
proof (intro allI)
  fix j c
  have "b \<in> set bufs" "pl b = Held i" using assms(1,2) [unfolded held_places_def] by blast+
  then show "map_option writer_buffer ((ws(i := None)) j) = Some c \<longleftrightarrow> c \<in> set bufs \<and> (pl(b := x)) c = Held j"
    using assms(1) [unfolded held_places_def, rule_format, of j c] assms(2,3) by (cases "j = i"; cases "c = b"; auto)
qed

lemma held_other:
  assumes "held_places ws bufs pl" "pl b \<notin> range Held" "x \<notin> range Held"
  shows "held_places ws bufs (pl(b := x))"
  unfolding held_places_def
proof (intro allI)
  fix j c
  show "map_option writer_buffer (ws j) = Some c \<longleftrightarrow> c \<in> set bufs \<and> (pl(b := x)) c = Held j"
    using assms(1) [unfolded held_places_def, rule_format, of j c] assms(2,3) by (cases "c = b"; auto)
qed

lemma busy_other: "busy_place t bufs pl \<Longrightarrow> pl b \<noteq> Busy \<Longrightarrow> x \<noteq> Busy \<Longrightarrow> busy_place t bufs (pl(b := x))"
  by (auto simp: busy_place_def)

lemma busy_enter: "busy_place Idle bufs pl \<Longrightarrow> b \<in> set bufs \<Longrightarrow> busy_place (Taken b) bufs (pl(b := Busy))"
  by (auto simp: busy_place_def)

lemma busy_leave: "busy_place (Printed b) bufs pl \<Longrightarrow> x \<noteq> Busy \<Longrightarrow> busy_place Idle bufs (pl(b := x))"
  by (auto simp: busy_place_def)

text \<open>
  What the log promises: texts in order, with the calls in progress (and whether their text is formatted), the
  text in the handler, and the number of free and of lost buffers.
\<close>

record log_abs =
  la_free :: nat
  la_writing :: "nat \<Rightarrow> (u8 list \<times> bool) option"
  la_queue :: "u8 list list"
  la_task :: "u8 list consumer"
  la_out :: "u8 list list"
  la_lost :: nat

text \<open>What a message must be to be printed: not empty, shorter than the buffer, no NUL inside.\<close>

definition loggable :: "u8 list \<Rightarrow> bool" where
  "loggable msg \<longleftrightarrow> msg \<noteq> [] \<and> length msg < LOG_BUFFER_SIZE"

lemma c_string_terminated: "0 \<notin> set msg \<Longrightarrow> c_string (msg @ 0 # rest) = Some msg"
  by (simp add: c_string_def takeWhile_append)

fun log_spec :: "log_abs \<Rightarrow> log_event \<Rightarrow> log_abs" where
  "log_spec a (Call i msg) =
     (if la_writing a i \<noteq> None \<or> la_free a = 0 then a
      else a\<lparr>la_free := la_free a - 1, la_writing := (la_writing a)(i \<mapsto> (msg, False))\<rparr>)"
| "log_spec a (Format i) =
     (case la_writing a i of
        Some (msg, False) \<Rightarrow> a\<lparr>la_writing := (la_writing a)(i \<mapsto> (msg, True))\<rparr>
      | _ \<Rightarrow> a)"
| "log_spec a (Hand i mem) =
     (case la_writing a i of
        Some (msg, True) \<Rightarrow>
          (let a' = a\<lparr>la_writing := (la_writing a)(i := None)\<rparr> in
           if \<not> loggable msg then a'\<lparr>la_free := la_free a + 1\<rparr>
           else if mem then a'\<lparr>la_queue := la_queue a @ [msg]\<rparr>
           else a'\<lparr>la_lost := la_lost a + 1\<rparr>)
      | _ \<Rightarrow> a)"
| "log_spec a Take =
     (case (la_task a, la_queue a) of
        (Idle, msg # q) \<Rightarrow> a\<lparr>la_queue := q, la_task := Taken msg\<rparr>
      | _ \<Rightarrow> a)"
| "log_spec a Print =
     (case la_task a of
        Taken msg \<Rightarrow> a\<lparr>la_task := Printed msg, la_out := la_out a @ [msg]\<rparr>
      | _ \<Rightarrow> a)"
| "log_spec a Release =
     (case la_task a of
        Printed msg \<Rightarrow> a\<lparr>la_task := Idle, la_free := la_free a + 1\<rparr>
      | _ \<Rightarrow> a)"

definition log_abs0 :: log_abs where
  "log_abs0 = \<lparr>la_free = LOG_BUFFER_NUM_ELEM, la_writing = Map.empty, la_queue = [], la_task = Idle, la_out = [], la_lost = 0\<rparr>"

text \<open>Every buffer is accounted for.\<close>

definition log_count :: "log_abs \<Rightarrow> nat" where
  "log_count a = la_free a + card (dom (la_writing a)) + length (la_queue a)
     + (if la_task a = Idle then 0 else 1) + la_lost a"

lemma log_spec_count:
  assumes "finite (dom (la_writing a))"
  shows "log_count (log_spec a e) = log_count a \<and> finite (dom (la_writing (log_spec a e)))"
proof -
  have less: "0 < card (dom (la_writing a))" if "la_writing a i = Some x" for i x
    using that assms by (auto simp: card_gt_0_iff)
  have ins: "insert i (dom (la_writing a)) = dom (la_writing a)" if "la_writing a i = Some x" for i x
    using that by (auto simp: dom_def)
  show ?thesis
  proof (cases e)
    case (Call i msg)
    then show ?thesis using assms by (auto simp: log_count_def domIff)
  next
    case (Format i)
    then show ?thesis using assms ins by (auto simp: log_count_def split: option.splits bool.splits)
  next
    case (Hand i mem)
    then show ?thesis using assms less
      by (auto simp: log_count_def Let_def domI card_Diff_singleton split: option.splits bool.splits)
  qed (auto simp: log_count_def assms split: consumer.splits list.splits)
qed

lemma log_specs_count: "log_count (foldl log_spec log_abs0 es) = LOG_BUFFER_NUM_ELEM"
proof -
  have "log_count (foldl log_spec a es) = log_count a" if "finite (dom (la_writing a))" for a
    using that by (induction es arbitrary: a) (simp_all add: log_spec_count)
  from this [of log_abs0] show ?thesis by (simp add: log_abs0_def log_count_def)
qed

text \<open>The contents: what a buffer in a place holds.\<close>

fun writer_rep :: "item_pool \<Rightarrow> log_writer option \<Rightarrow> (u8 list \<times> bool) option \<Rightarrow> bool" where
  "writer_rep p None None \<longleftrightarrow> True"
| "writer_rep p (Some (Holding b msg)) (Some (msg', formatted)) \<longleftrightarrow> \<not> formatted \<and> msg = msg' \<and> 0 \<notin> set msg"
| "writer_rep p (Some (Filled b len)) (Some (msg, formatted)) \<longleftrightarrow> formatted \<and> len = int (length msg)
     \<and> (loggable msg \<longrightarrow> c_string (ip_data p b) = Some msg)"
| "writer_rep p _ _ \<longleftrightarrow> False"

fun consumer_rep :: "item_pool \<Rightarrow> ptr consumer \<Rightarrow> u8 list consumer \<Rightarrow> bool" where
  "consumer_rep p Idle Idle \<longleftrightarrow> True"
| "consumer_rep p (Taken b) (Taken msg) \<longleftrightarrow> c_string (ip_data p b) = Some msg"
| "consumer_rep p (Printed b) (Printed msg) \<longleftrightarrow> True"
| "consumer_rep p _ _ \<longleftrightarrow> False"

definition log_texts :: "log_sys \<Rightarrow> ptr list \<Rightarrow> log_abs \<Rightarrow> bool" where
  "log_texts s free a \<longleftrightarrow> length free = la_free a
     \<and> (\<forall>i. writer_rep (ls_pool s) (ls_writers s i) (la_writing a i))
     \<and> map (\<lambda>b. c_string (ip_data (ls_pool s) b)) (ip_notified (ls_pool s)) = map Some (la_queue a)
     \<and> consumer_rep (ls_pool s) (ls_task s) (la_task a) \<and> ip_consumed (ls_pool s) = la_out a"

definition log_rep :: "log_sys \<Rightarrow> ptr list \<Rightarrow> log_abs \<Rightarrow> bool" where
  "log_rep s bufs a \<longleftrightarrow> (\<exists>free pl. log_places s bufs free pl \<and> log_texts s free a)"

section \<open>The operations on the invariant\<close>

lemma get_empty:
  assumes "dlist (ip_heap p) (ip_free p) []"
  shows "item_pool_get p = Some (p, NULL)"
  using list_empty_spec [OF assms] by (simp add: item_pool_get_def get_item_pool_buffer_def)

lemma get_first:
  assumes d: "dlist (ip_heap p) (ip_free p) (b # bs)"
  shows "\<exists>h. item_pool_get p = Some (p\<lparr>ip_heap := h\<rparr>, b) \<and> dlist h (ip_free p) bs"
proof -
  obtain h where "list_del_init (ip_heap p) b = Some h" "dlist h (ip_free p) bs"
    using dl.del_first d by blast
  moreover have "list_first_entry (ip_heap p) (ip_free p) = Some b" using d by (simp add: list_first_entry_spec)
  ultimately show ?thesis
    using list_empty_spec [OF d] by (intro exI [of _ h]) (simp add: item_pool_get_def get_item_pool_buffer_def)
qed

lemma item_pool_put_spec:
  assumes "dlist (ip_heap p) (ip_free p) free" "b \<notin> set (ip_free p # free)" "b \<noteq> NULL"
  shows "\<exists>h. item_pool_put p b = Some (p\<lparr>ip_heap := h\<rparr>) \<and> dlist h (ip_free p) (free @ [b])"
  using list_add_tail_spec [OF assms]
  by (auto simp: item_pool_put_def put_item_pool_buffer_def put_item_pool_buffer_nolock_def)

lemma vsnprintf_spec:
  assumes "length buf = LOG_BUFFER_SIZE"
  shows "\<exists>d. vsnprintf buf LOG_BUFFER_SIZE msg = Some (d, int (length msg)) \<and> length d = LOG_BUFFER_SIZE
    \<and> d = take 255 msg @ 0 # drop (min 255 (length msg) + 1) buf"
  using assms by (auto simp: vsnprintf_def mem_blit_def LOG_BUFFER_SIZE_def min_def)

lemma log_format_spec:
  assumes "length (ip_data p b) = LOG_BUFFER_SIZE" "0 \<notin> set msg"
  shows "\<exists>d. log_format p b msg = Some (p\<lparr>ip_data := (ip_data p)(b := d)\<rparr>, int (length msg))
    \<and> length d = LOG_BUFFER_SIZE \<and> (loggable msg \<longrightarrow> c_string d = Some msg)"
proof -
  obtain d where d: "vsnprintf (ip_data p b) LOG_BUFFER_SIZE msg = Some (d, int (length msg))" "length d = LOG_BUFFER_SIZE"
      "d = take 255 msg @ 0 # drop (min 255 (length msg) + 1) (ip_data p b)"
    using vsnprintf_spec [OF assms(1)] by blast
  have "c_string d = Some msg" if "loggable msg"
  proof -
    have "d = msg @ 0 # drop (length msg + 1) (ip_data p b)"
      using that d(3) by (simp add: loggable_def LOG_BUFFER_SIZE_def)
    then show ?thesis using assms(2) by (simp add: c_string_terminated)
  qed
  with d(1,2) show ?thesis by (intro exI [of _ d]) (simp add: log_format_def)
qed

lemma log_hand_fits: "loggable msg \<Longrightarrow> log_hand mem p b (int (length msg)) = Some (item_pool_notify mem p b)"
  and log_hand_not: "\<not> loggable msg \<Longrightarrow> log_hand mem p b (int (length msg)) = item_pool_put p b"
  by (auto simp: log_hand_def loggable_def)

section \<open>Every step refines the abstract log\<close>

lemma writers_agree: "log_texts s free a \<Longrightarrow> ls_writers s i = None \<longleftrightarrow> la_writing a i = None"
proof -
  assume "log_texts s free a"
  then have "writer_rep (ls_pool s) (ls_writers s i) (la_writing a i)" by (simp add: log_texts_def)
  then show ?thesis by (cases "(ls_pool s, ls_writers s i, la_writing a i)" rule: writer_rep.cases) auto
qed

lemma places_held: "log_places s bufs free pl \<Longrightarrow> map_option writer_buffer (ls_writers s i) = Some b \<longleftrightarrow> b \<in> set bufs \<and> pl b = Held i"
  by (simp only: log_places_def held_places_def)

lemma places_busy: "log_places s bufs free pl \<Longrightarrow> consumer_item (ls_task s) = Some b \<longleftrightarrow> b \<in> set bufs \<and> pl b = Busy"
  by (simp only: log_places_def busy_place_def)

text \<open>What a writer or the task holds does not change with the text of another buffer.\<close>

lemma writer_rep_other:
  "writer_rep p x y \<Longrightarrow> map_option writer_buffer x \<noteq> Some b \<Longrightarrow> writer_rep (p\<lparr>ip_data := (ip_data p)(b := d)\<rparr>) x y"
  by (cases "(p, x, y)" rule: writer_rep.cases) auto

lemma writer_rep_data: "ip_data p' = ip_data p \<Longrightarrow> writer_rep p' x y = writer_rep p x y"
  by (cases "(p, x, y)" rule: writer_rep.cases) auto

lemma consumer_rep_other:
  "consumer_rep p x y \<Longrightarrow> consumer_item x \<noteq> Some b \<Longrightarrow> consumer_rep (p\<lparr>ip_data := (ip_data p)(b := d)\<rparr>) x y"
  by (cases "(p, x, y)" rule: consumer_rep.cases) auto

lemma consumer_rep_data: "ip_data p' = ip_data p \<Longrightarrow> consumer_rep p' x y = consumer_rep p x y"
  by (cases "(p, x, y)" rule: consumer_rep.cases) auto

lemmas rep_data = writer_rep_data [of "p\<lparr>ip_heap := h\<rparr>" p for p h, simplified] consumer_rep_data [of "p\<lparr>ip_heap := h\<rparr>" p for p h, simplified]
  writer_rep_data [of "p\<lparr>ip_notified := n\<rparr>" p for p n, simplified] consumer_rep_data [of "p\<lparr>ip_notified := n\<rparr>" p for p n, simplified]
  writer_rep_data [of "p\<lparr>ip_consumed := n\<rparr>" p for p n, simplified] consumer_rep_data [of "p\<lparr>ip_consumed := n\<rparr>" p for p n, simplified]

lemma call_refines:
  assumes rep: "log_rep s bufs a" and nul: "0 \<notin> set msg"
  shows "\<exists>s'. log_step s (Call i msg) = Some s' \<and> log_rep s' bufs (log_spec a (Call i msg))"
proof -
  obtain free pl where p: "log_places s bufs free pl" and t: "log_texts s free a" using rep by (auto simp: log_rep_def)
  have ps: "pool_places (ls_pool s) bufs free pl" "held_places (ls_writers s) bufs pl" "busy_place (ls_task s) bufs pl"
    using p by (simp_all add: log_places_def)
  note w = writers_agree [OF t, of i]
  have d: "dlist (ip_heap (ls_pool s)) (ip_free (ls_pool s)) free" using p by (simp add: log_places_def pool_places_def)
  show ?thesis
  proof (cases "ls_writers s i")
    case None
    show ?thesis
    proof (cases free)
      case Nil
      have "s\<lparr>ls_pool := ls_pool s, ls_writers := (ls_writers s)(i := None)\<rparr> = s" using None by (simp add: fun_upd_idem)
      moreover have "la_free a = 0" using t Nil by (simp add: log_texts_def)
      ultimately show ?thesis using get_empty d Nil rep None by simp
    next
      case (Cons b bs)
      with d obtain h where h: "item_pool_get (ls_pool s) = Some ((ls_pool s)\<lparr>ip_heap := h\<rparr>, b)" "dlist h (ip_free (ls_pool s)) bs"
        using get_first by blast
      have b: "b \<in> set bufs" "pl b = Free" "b \<notin> set bs" "b \<noteq> NULL" using p Cons by (auto simp: log_places_def pool_places_def)
      let ?s = "s\<lparr>ls_pool := (ls_pool s)\<lparr>ip_heap := h\<rparr>, ls_writers := (ls_writers s)(i \<mapsto> Holding b msg)\<rparr>"
      have "log_step s (Call i msg) = Some ?s" using None h(1) b(4) by simp
      moreover have "log_places ?s bufs bs (pl(b := Held i))"
        unfolding log_places_def
      proof (intro conjI)
        show "pool_places (ls_pool ?s) bufs bs (pl(b := Held i))" using ps(1) h(2) b Cons by (auto simp: pool_places_def item_pool_notify_def)
        show "held_places (ls_writers ?s) bufs (pl(b := Held i))" using held_take [OF ps(2) b(1,2) None] by simp
        show "busy_place (ls_task ?s) bufs (pl(b := Held i))" using busy_other [OF ps(3)] b(2) by simp
      qed
      moreover have "log_texts ?s bs (log_spec a (Call i msg))"
        using t None w Cons nul unfolding log_texts_def by (auto simp: rep_data)
      ultimately show ?thesis unfolding log_rep_def by blast
    qed
  qed (use w rep in auto)
qed

lemma format_refines:
  assumes rep: "log_rep s bufs a"
  shows "\<exists>s'. log_step s (Format i) = Some s' \<and> log_rep s' bufs (log_spec a (Format i))"
proof -
  obtain free pl where p: "log_places s bufs free pl" and t: "log_texts s free a" using rep by (auto simp: log_rep_def)
  have ps: "pool_places (ls_pool s) bufs free pl" "held_places (ls_writers s) bufs pl" "busy_place (ls_task s) bufs pl"
    using p by (simp_all add: log_places_def)
  have w: "writer_rep (ls_pool s) (ls_writers s i) (la_writing a i)" using t by (simp add: log_texts_def)
  show ?thesis
  proof (cases "\<exists>b msg. ls_writers s i = Some (Holding b msg)")
    case True
    then obtain b msg where h: "ls_writers s i = Some (Holding b msg)" by blast
    with w have a: "la_writing a i = Some (msg, False)" "0 \<notin> set msg" by (cases "la_writing a i"; auto)+
    have bi: "map_option writer_buffer (ls_writers s i) = Some b" using h by simp
    have b: "b \<in> set bufs" "pl b = Held i" "length (ip_data (ls_pool s) b) = LOG_BUFFER_SIZE"
      using p places_held [OF p] bi by (blast, blast, simp add: log_places_def pool_places_def)
    obtain d where d: "log_format (ls_pool s) b msg = Some ((ls_pool s)\<lparr>ip_data := (ip_data (ls_pool s))(b := d)\<rparr>, int (length msg))"
        "length d = LOG_BUFFER_SIZE" "loggable msg \<longrightarrow> c_string d = Some msg"
      using log_format_spec [OF b(3) a(2)] by blast
    let ?p = "(ls_pool s)\<lparr>ip_data := (ip_data (ls_pool s))(b := d)\<rparr>"
    let ?s = "s\<lparr>ls_pool := ?p, ls_writers := (ls_writers s)(i \<mapsto> Filled b (int (length msg)))\<rparr>"
    have "log_step s (Format i) = Some ?s" using h d(1) by simp
    moreover have "log_places ?s bufs free pl"
        unfolding log_places_def
      proof (intro conjI)
        show "pool_places (ls_pool ?s) bufs free pl" using ps(1) d(2) by (auto simp: pool_places_def item_pool_notify_def)
        show "held_places (ls_writers ?s) bufs pl" using held_fill [OF ps(2)] bi by simp
        show "busy_place (ls_task ?s) bufs pl" using ps(3) by simp
      qed
    moreover have "log_texts ?s free (log_spec a (Format i))"
    proof -
      have n: "b \<notin> set (ip_notified (ls_pool s))" "consumer_item (ls_task s) \<noteq> Some b"
        "j \<noteq> i \<Longrightarrow> map_option writer_buffer (ls_writers s j) \<noteq> Some b" for j
        using p b(1,2) places_held [OF p, of j b] places_busy [OF p, of b] by (auto simp: log_places_def pool_places_def)
      have "map (\<lambda>x. c_string (ip_data ?p x)) (ip_notified (ls_pool s)) = map (\<lambda>x. c_string (ip_data (ls_pool s) x)) (ip_notified (ls_pool s))"
        by (rule map_cong) (use n(1) in auto)
      moreover have "j \<noteq> i \<Longrightarrow> writer_rep ?p (ls_writers s j) (la_writing a j)" for j
        using t n(3) by (intro writer_rep_other) (simp_all add: log_texts_def)
      moreover have "consumer_rep ?p (ls_task s) (la_task a)"
        using t n(2) by (intro consumer_rep_other) (simp_all add: log_texts_def)
      ultimately show ?thesis using t a d(3) unfolding log_texts_def by simp
    qed
    ultimately show ?thesis unfolding log_rep_def by blast
  next
    case False
    then have "log_step s (Format i) = Some s" by (auto split: option.split log_writer.split)
    moreover have "log_spec a (Format i) = a"
      using False w by (cases "(ls_pool s, ls_writers s i, la_writing a i)" rule: writer_rep.cases) (auto split: bool.split)
    ultimately show ?thesis using rep by simp
  qed
qed

lemma hand_refines:
  assumes rep: "log_rep s bufs a"
  shows "\<exists>s'. log_step s (Hand i mem) = Some s' \<and> log_rep s' bufs (log_spec a (Hand i mem))"
proof -
  obtain free pl where p: "log_places s bufs free pl" and t: "log_texts s free a" using rep by (auto simp: log_rep_def)
  have ps: "pool_places (ls_pool s) bufs free pl" "held_places (ls_writers s) bufs pl" "busy_place (ls_task s) bufs pl"
    using p by (simp_all add: log_places_def)
  have w: "writer_rep (ls_pool s) (ls_writers s i) (la_writing a i)" using t by (simp add: log_texts_def)
  show ?thesis
  proof (cases "\<exists>b len. ls_writers s i = Some (Filled b len)")
    case True
    then obtain b len where h: "ls_writers s i = Some (Filled b len)" by blast
    with w obtain msg where a: "la_writing a i = Some (msg, True)" "len = int (length msg)"
        "loggable msg \<longrightarrow> c_string (ip_data (ls_pool s) b) = Some msg"
      by (cases "la_writing a i"; auto)
    have bi: "map_option writer_buffer (ls_writers s i) = Some b" using h by simp
    have b: "b \<in> set bufs" "pl b = Held i" using places_held [OF p] bi by blast+
    have n: "b \<noteq> NULL" "b \<notin> set (ip_free (ls_pool s) # free)" "b \<notin> set (ip_notified (ls_pool s))"
      using p b by (auto simp: log_places_def pool_places_def)
    let ?wr = "(ls_writers s)(i := None)"
    show ?thesis
    proof (cases "loggable msg")
      case False
      obtain g where g: "item_pool_put (ls_pool s) b = Some ((ls_pool s)\<lparr>ip_heap := g\<rparr>)" "dlist g (ip_free (ls_pool s)) (free @ [b])"
        using item_pool_put_spec [OF _ n(2,1)] p by (auto simp: log_places_def pool_places_def)
      let ?s = "s\<lparr>ls_pool := (ls_pool s)\<lparr>ip_heap := g\<rparr>, ls_writers := ?wr\<rparr>"
      have "log_step s (Hand i mem) = Some ?s" using h a(2) False g(1) by (simp add: log_hand_not)
      moreover have "log_places ?s bufs (free @ [b]) (pl(b := Free))"
        unfolding log_places_def
      proof (intro conjI)
        show "pool_places (ls_pool ?s) bufs (free @ [b]) (pl(b := Free))" using ps(1) g(2) b n by (auto simp: pool_places_def item_pool_notify_def)
        show "held_places (ls_writers ?s) bufs (pl(b := Free))" using held_drop [OF ps(2) bi, of Free] by auto
        show "busy_place (ls_task ?s) bufs (pl(b := Free))" using busy_other [OF ps(3)] b(2) by simp
      qed
      moreover have "log_texts ?s (free @ [b]) (log_spec a (Hand i mem))"
        using t a False unfolding log_texts_def by (auto simp: rep_data Let_def)
      ultimately show ?thesis unfolding log_rep_def by blast
    next
      case fit: True
      let ?p = "item_pool_notify mem (ls_pool s) b" and ?pl = "pl(b := if mem then Queued else Lost)"
      let ?s = "s\<lparr>ls_pool := ?p, ls_writers := ?wr\<rparr>"
      have "log_step s (Hand i mem) = Some ?s" using h a(2) fit by (simp add: log_hand_fits)
      moreover have "log_places ?s bufs free ?pl"
        unfolding log_places_def
      proof (intro conjI)
        show "pool_places (ls_pool ?s) bufs free ?pl" using ps(1) b n by (auto simp: pool_places_def item_pool_notify_def)
        show "held_places (ls_writers ?s) bufs ?pl" using held_drop [OF ps(2) bi] by auto
        show "busy_place (ls_task ?s) bufs ?pl" using busy_other [OF ps(3)] b(2) by simp
      qed
      moreover have "log_texts ?s free (log_spec a (Hand i mem))"
        using t a fit unfolding log_texts_def by (auto simp: rep_data Let_def item_pool_notify_def)
      ultimately show ?thesis unfolding log_rep_def by blast
    qed
  next
    case False
    then have "log_step s (Hand i mem) = Some s" by (auto split: option.split log_writer.split)
    moreover have "log_spec a (Hand i mem) = a"
      using False w by (cases "(ls_pool s, ls_writers s i, la_writing a i)" rule: writer_rep.cases) (auto split: bool.split)
    ultimately show ?thesis using rep by simp
  qed
qed

lemma take_refines:
  assumes rep: "log_rep s bufs a"
  shows "\<exists>s'. log_step s Take = Some s' \<and> log_rep s' bufs (log_spec a Take)"
proof -
  obtain free pl where p: "log_places s bufs free pl" and t: "log_texts s free a" using rep by (auto simp: log_rep_def)
  have ps: "pool_places (ls_pool s) bufs free pl" "held_places (ls_writers s) bufs pl" "busy_place (ls_task s) bufs pl"
    using p by (simp_all add: log_places_def)
  have c: "consumer_rep (ls_pool s) (ls_task s) (la_task a)"
    and q: "map (\<lambda>b. c_string (ip_data (ls_pool s) b)) (ip_notified (ls_pool s)) = map Some (la_queue a)"
    using t by (simp_all add: log_texts_def)
  have idle: "ls_task s = Idle \<longleftrightarrow> la_task a = Idle"
    using c by (cases "(ls_pool s, ls_task s, la_task a)" rule: consumer_rep.cases) auto
  show ?thesis
  proof (cases "ls_task s = Idle \<and> ip_notified (ls_pool s) \<noteq> []")
    case True
    then obtain b bs where n: "ls_task s = Idle" "ip_notified (ls_pool s) = b # bs" by (auto simp: neq_Nil_conv)
    with q obtain m ms where m: "la_queue a = m # ms" "c_string (ip_data (ls_pool s) b) = Some m"
        "map (\<lambda>b. c_string (ip_data (ls_pool s) b)) bs = map Some ms"
      by (cases "la_queue a") auto
    let ?s = "s\<lparr>ls_pool := (ls_pool s)\<lparr>ip_notified := bs\<rparr>, ls_task := Taken b\<rparr>"
    have "log_step s Take = Some ?s" using n by simp
    moreover have "b \<in> set bufs" "pl b = Queued" "b \<notin> set bs" using p n(2) by (auto simp: log_places_def pool_places_def)
    then have "log_places ?s bufs free (pl(b := Busy))"
        unfolding log_places_def
      proof (intro conjI)
        show "pool_places (ls_pool ?s) bufs free (pl(b := Busy))" using ps(1) n \<open>pl b = Queued\<close> \<open>b \<in> set bufs\<close> \<open>b \<notin> set bs\<close> by (auto simp: pool_places_def item_pool_notify_def)
        show "held_places (ls_writers ?s) bufs (pl(b := Busy))" using held_other [OF ps(2), of b Busy] \<open>pl b = Queued\<close> by auto
        show "busy_place (ls_task ?s) bufs (pl(b := Busy))" using busy_enter ps(3) \<open>b \<in> set bufs\<close> n(1) by simp
      qed
    moreover have "log_texts ?s free (log_spec a Take)"
      using t n m idle unfolding log_texts_def by (auto simp: rep_data)
    ultimately show ?thesis unfolding log_rep_def by blast
  next
    case False
    then have "log_step s Take = Some s" by (auto split: consumer.split list.split)
    moreover have "log_spec a Take = a"
      using False q idle by (auto split: consumer.split list.split)
    ultimately show ?thesis using rep by simp
  qed
qed

lemma print_refines:
  assumes rep: "log_rep s bufs a"
  shows "\<exists>s'. log_step s Print = Some s' \<and> log_rep s' bufs (log_spec a Print)"
proof -
  obtain free pl where p: "log_places s bufs free pl" and t: "log_texts s free a" using rep by (auto simp: log_rep_def)
  have ps: "pool_places (ls_pool s) bufs free pl" "held_places (ls_writers s) bufs pl" "busy_place (ls_task s) bufs pl"
    using p by (simp_all add: log_places_def)
  have c: "consumer_rep (ls_pool s) (ls_task s) (la_task a)" using t by (simp add: log_texts_def)
  show ?thesis
  proof (cases "(ls_pool s, ls_task s, la_task a)" rule: consumer_rep.cases)
    case (2 p' b msg)
    let ?s = "s\<lparr>ls_pool := (ls_pool s)\<lparr>ip_consumed := ip_consumed (ls_pool s) @ [msg]\<rparr>, ls_task := Printed b\<rparr>"
    have "log_step s Print = Some ?s" using 2 c by (simp add: debug_log_def)
    moreover have "log_places ?s bufs free pl" using p 2 by (simp add: log_places_def pool_places_def busy_place_def)
    moreover have "log_texts ?s free (log_spec a Print)" using t 2 unfolding log_texts_def by (simp add: rep_data)
    ultimately show ?thesis unfolding log_rep_def by blast
  qed (use c rep in auto)
qed

lemma release_refines:
  assumes rep: "log_rep s bufs a"
  shows "\<exists>s'. log_step s Release = Some s' \<and> log_rep s' bufs (log_spec a Release)"
proof -
  obtain free pl where p: "log_places s bufs free pl" and t: "log_texts s free a" using rep by (auto simp: log_rep_def)
  have ps: "pool_places (ls_pool s) bufs free pl" "held_places (ls_writers s) bufs pl" "busy_place (ls_task s) bufs pl"
    using p by (simp_all add: log_places_def)
  have c: "consumer_rep (ls_pool s) (ls_task s) (la_task a)" using t by (simp add: log_texts_def)
  show ?thesis
  proof (cases "(ls_pool s, ls_task s, la_task a)" rule: consumer_rep.cases)
    case (3 p' b msg)
    have b: "b \<in> set bufs" "pl b = Busy" using places_busy [OF p, of b] 3 by auto
    have n: "b \<noteq> NULL" "b \<notin> set (ip_free (ls_pool s) # free)" using p b by (auto simp: log_places_def pool_places_def)
    obtain g where g: "item_pool_put (ls_pool s) b = Some ((ls_pool s)\<lparr>ip_heap := g\<rparr>)" "dlist g (ip_free (ls_pool s)) (free @ [b])"
      using item_pool_put_spec [OF _ n(2,1)] p by (auto simp: log_places_def pool_places_def)
    let ?s = "s\<lparr>ls_pool := (ls_pool s)\<lparr>ip_heap := g\<rparr>, ls_task := Idle\<rparr>"
    have "log_step s Release = Some ?s" using 3 g(1) by (simp add: item_pool_put_def)
    moreover have "log_places ?s bufs (free @ [b]) (pl(b := Free))"
        unfolding log_places_def
      proof (intro conjI)
        show "pool_places (ls_pool ?s) bufs (free @ [b]) (pl(b := Free))" using ps(1) g(2) b n by (auto simp: pool_places_def item_pool_notify_def)
        show "held_places (ls_writers ?s) bufs (pl(b := Free))" using held_other [OF ps(2), of b Free] b(2) by auto
        show "busy_place (ls_task ?s) bufs (pl(b := Free))" using busy_leave ps(3) 3 by simp
      qed
    moreover have "log_texts ?s (free @ [b]) (log_spec a Release)" using t 3 unfolding log_texts_def by (simp add: rep_data)
    ultimately show ?thesis unfolding log_rep_def by blast
  qed (use c rep in auto)
qed

lemma log_step_refines:
  assumes "log_rep s bufs a" "\<forall>i msg. e = Call i msg \<longrightarrow> 0 \<notin> set msg"
  shows "\<exists>s'. log_step s e = Some s' \<and> log_rep s' bufs (log_spec a e)"
proof (cases e)
  case (Call i msg)
  with assms call_refines [OF assms(1)] show ?thesis by blast
next
  case (Format i)
  with format_refines [OF assms(1)] show ?thesis by blast
next
  case (Hand i mem)
  with hand_refines [OF assms(1)] show ?thesis by blast
next
  case Take
  with take_refines [OF assms(1)] show ?thesis by blast
next
  case Print
  with print_refines [OF assms(1)] show ?thesis by blast
next
  case Release
  with release_refines [OF assms(1)] show ?thesis by blast
qed

text \<open>
  A notification whose message cannot be allocated loses the buffer: it is neither free nor queued afterwards.
\<close>

lemma log_write_leaks:
  assumes d: "dlist (ip_heap p) (ip_free p) (b # free)" and b: "b \<noteq> NULL" "length (ip_data p b) = LOG_BUFFER_SIZE"
      "b \<notin> set (free @ ip_notified p)" and fit: "loggable msg" "0 \<notin> set msg"
  shows "\<exists>p'. log_write False p msg = Some p' \<and> dlist (ip_heap p') (ip_free p') free
    \<and> b \<notin> set (free @ ip_notified p') \<and> ip_notified p' = ip_notified p"
proof -
  obtain h0 where h0: "item_pool_get p = Some (p\<lparr>ip_heap := h0\<rparr>, b)" "dlist h0 (ip_free p) free"
    using get_first [OF d] by blast
  obtain d where "log_format (p\<lparr>ip_heap := h0\<rparr>) b msg = Some (p\<lparr>ip_heap := h0, ip_data := (ip_data p)(b := d)\<rparr>, int (length msg))"
    using log_format_spec [of "p\<lparr>ip_heap := h0\<rparr>" b msg] b(2) fit(2) by auto
  then show ?thesis using h0 b fit
    by (intro exI [of _ "p\<lparr>ip_heap := h0, ip_data := (ip_data p)(b := d)\<rparr>"])
       (simp add: log_write_def log_hand_fits item_pool_notify_def)
qed

text \<open>Initialisation puts every buffer on the free list, with zeroed texts.\<close>

lemma item_pool_init_loop:
  assumes "dlist (ip_heap p) (ip_free p) free" "distinct (ip_free p # free @ bufs)" "NULL \<notin> set bufs"
    "k + length bufs \<le> LOG_BUFFER_NUM_ELEM" "\<forall>b \<in> set free. length (ip_data p b) = LOG_BUFFER_SIZE"
  shows "\<exists>p'. foldo (\<lambda>p (i, buf). do {
         h \<leftarrow> init_list_head (ip_heap p) buf;
         p \<leftarrow> put_item_pool_buffer_nolock (p\<lparr>ip_heap := h\<rparr>) buf;
         debug_log_buffer_init p buf i }) p (enumerate k bufs) = Some p'
     \<and> dlist (ip_heap p') (ip_free p) (free @ bufs) \<and> ip_free p' = ip_free p \<and> ip_notified p' = ip_notified p
     \<and> ip_consumed p' = ip_consumed p \<and> (\<forall>b \<in> set (free @ bufs). length (ip_data p' b) = LOG_BUFFER_SIZE)"
  using assms
proof (induction bufs arbitrary: p free k)
  case Nil
  then show ?case by simp
next
  case (Cons b bs)
  obtain h1 where h1: "init_list_head (ip_heap p) b = Some h1" "only_changes {b} (ip_heap p) h1"
    using init_list_head_spec [of b "ip_heap p"] Cons.prems(3) by auto
  have d1: "dlist h1 (ip_free p) free"
    by (rule dlist_frame [OF Cons.prems(1) h1(2)]) (use Cons.prems(2) in auto)
  obtain h2 where h2: "list_add_tail h1 b (ip_free p) = Some h2" "dlist h2 (ip_free p) (free @ [b])"
    using list_add_tail_spec [OF d1, of b] Cons.prems(2,3) by auto
  let ?p1 = "p\<lparr>ip_heap := h2, ip_data := (ip_data p)(b := replicate LOG_BUFFER_SIZE 0)\<rparr>"
  obtain p' where p': "foldo (\<lambda>p (i, buf). do {
         h \<leftarrow> init_list_head (ip_heap p) buf;
         p \<leftarrow> put_item_pool_buffer_nolock (p\<lparr>ip_heap := h\<rparr>) buf;
         debug_log_buffer_init p buf i }) ?p1 (enumerate (Suc k) bs) = Some p'"
      "dlist (ip_heap p') (ip_free ?p1) ((free @ [b]) @ bs)" "ip_free p' = ip_free ?p1" "ip_notified p' = ip_notified ?p1"
      "ip_consumed p' = ip_consumed ?p1" "\<forall>b \<in> set ((free @ [b]) @ bs). length (ip_data p' b) = LOG_BUFFER_SIZE"
  proof -
    have a: "dlist (ip_heap ?p1) (ip_free ?p1) (free @ [b])" "distinct (ip_free ?p1 # (free @ [b]) @ bs)"
        "NULL \<notin> set bs" "Suc k + length bs \<le> LOG_BUFFER_NUM_ELEM"
        "\<forall>x \<in> set (free @ [b]). length (ip_data ?p1 x) = LOG_BUFFER_SIZE"
      using Cons.prems h2(2) by auto
    show thesis using Cons.IH [OF a] by (elim exE conjE) (rule that)
  qed
  then show ?case
    using h1(1) h2(1) Cons.prems(4)
    by (intro exI [of _ p']) (simp add: put_item_pool_buffer_nolock_def debug_log_buffer_init_def)
qed

lemma log_init_spec:
  assumes "distinct (ip_free p # buffers)" "NULL \<notin> set (ip_free p # buffers)"
    "length buffers = LOG_BUFFER_NUM_ELEM" "ip_notified p = []"
  shows "\<exists>p'. log_init p buffers = Some p' \<and> dlist (ip_heap p') (ip_free p') buffers \<and> ip_free p' = ip_free p
    \<and> ip_consumed p' = ip_consumed p \<and> ip_notified p' = [] \<and> (\<forall>b \<in> set buffers. length (ip_data p' b) = LOG_BUFFER_SIZE)"
proof -
  obtain h where h: "init_list_head (ip_heap p) (ip_free p) = Some h" "dlist h (ip_free p) []"
    using init_list_head_spec [of "ip_free p" "ip_heap p"] assms(2) by auto
  show ?thesis
    using item_pool_init_loop [of "p\<lparr>ip_heap := h\<rparr>" "[]" buffers 0] h assms
    by (auto simp: log_init_def item_pool_init_def)
qed

section \<open>The log as a bounded queue\<close>

definition log_begin :: "item_pool \<Rightarrow> log_sys" where
  "log_begin p = \<lparr>ls_pool = p, ls_writers = Map.empty, ls_task = Idle\<rparr>"

lemma log_begin_rep:
  assumes "distinct (ip_free p # buffers)" "NULL \<notin> set (ip_free p # buffers)"
    "length buffers = LOG_BUFFER_NUM_ELEM" "ip_notified p = []" "ip_consumed p = []"
  shows "\<exists>p0. log_init p buffers = Some p0 \<and> log_rep (log_begin p0) buffers log_abs0"
proof -
  obtain p0 where p0: "log_init p buffers = Some p0" "dlist (ip_heap p0) (ip_free p0) buffers" "ip_free p0 = ip_free p"
      "ip_consumed p0 = []" "ip_notified p0 = []" "\<forall>b \<in> set buffers. length (ip_data p0 b) = LOG_BUFFER_SIZE"
    using log_init_spec [OF assms(1-4)] assms(5) by auto
  have "log_places (log_begin p0) buffers buffers (\<lambda>_. Free)"
    using p0 assms by (simp add: log_places_def pool_places_def held_places_def busy_place_def log_begin_def)
  moreover have "log_texts (log_begin p0) buffers log_abs0"
    using p0 assms by (simp add: log_texts_def log_begin_def log_abs0_def)
  ultimately show ?thesis using p0(1) unfolding log_rep_def by blast
qed

text \<open>
  C35: From \<open>log_init\<close> on its 128 buffers, whatever calls of \<open>log_write\<close> and the log's task do in whatever order
  of their single actions, and whichever notifications find no memory, the log is the bounded queue \<open>log_spec\<close>:
  nothing is undefined; the task prints the texts in the order in which their calls notified it; a call is dropped
  exactly when its text is empty or longer than 255 characters, when no buffer is free, or when its notification
  finds no memory; every buffer is in one place, and all 128 are accounted for: free, with a call, queued, with the
  handler, or lost, one to each notification without memory.
\<close>

theorem log_is_a_bounded_queue:
  assumes "distinct (ip_free p # buffers)" "NULL \<notin> set (ip_free p # buffers)"
    "length buffers = LOG_BUFFER_NUM_ELEM" "ip_notified p = []" "ip_consumed p = []"
    "\<forall>i msg. Call i msg \<in> set es \<longrightarrow> 0 \<notin> set msg"
  shows "\<exists>p0 s. log_init p buffers = Some p0 \<and> foldo log_step (log_begin p0) es = Some s
    \<and> log_rep s buffers (foldl log_spec log_abs0 es)
    \<and> ip_consumed (ls_pool s) = la_out (foldl log_spec log_abs0 es)
    \<and> log_count (foldl log_spec log_abs0 es) = LOG_BUFFER_NUM_ELEM"
proof -
  have run: "\<exists>s'. foldo log_step s es = Some s' \<and> log_rep s' buffers (foldl log_spec a es)"
    if "log_rep s buffers a" "\<forall>i msg. Call i msg \<in> set es \<longrightarrow> 0 \<notin> set msg" for s a es
    using that
  proof (induction es arbitrary: s a)
    case (Cons e es)
    have "\<forall>i msg. e = Call i msg \<longrightarrow> 0 \<notin> set msg" using Cons.prems(2) by auto
    from log_step_refines [OF Cons.prems(1) this] obtain s1 where "log_step s e = Some s1" "log_rep s1 buffers (log_spec a e)"
      by blast
    with Cons.IH [of s1 "log_spec a e"] Cons.prems(2) show ?case by simp
  qed simp
  obtain p0 where p0: "log_init p buffers = Some p0" "log_rep (log_begin p0) buffers log_abs0"
    using log_begin_rep [OF assms(1-5)] by blast
  obtain s where s: "foldo log_step (log_begin p0) es = Some s" "log_rep s buffers (foldl log_spec log_abs0 es)"
    using run [OF p0(2) assms(6)] by blast
  then have "ip_consumed (ls_pool s) = la_out (foldl log_spec log_abs0 es)" by (auto simp: log_rep_def log_texts_def)
  with p0(1) s log_specs_count [of es] show ?thesis by blast
qed

text \<open>Three overlapping calls: the second is the first to notify, the third finds no memory.\<close>

definition sample_log_events :: "log_event list" where
  "sample_log_events = [Call 0 [104, 105], Call 1 [33], Format 1, Call 2 [63], Format 0, Hand 1 True, Format 2, Take,
     Hand 0 True, Hand 2 False, Print, Release, Take, Print]"

lemma log_is_a_bounded_queue_witness:
  "\<exists>p0 s. log_init \<lparr>ip_heap = \<lparr>lh_next = (\<lambda>_. 0), lh_prev = (\<lambda>_. 0)\<rparr>, ip_free = 500, ip_data = (\<lambda>_. []),
       ip_notified = [], ip_consumed = []\<rparr> [1..<129] = Some p0
     \<and> foldo log_step (log_begin p0) sample_log_events = Some s \<and> ip_consumed (ls_pool s) = [[33], [104, 105]]"
proof -
  have out: "la_out (foldl log_spec log_abs0 sample_log_events) = [[33], [104, 105]]"
    by (simp add: sample_log_events_def log_abs0_def loggable_def LOG_BUFFER_SIZE_def LOG_BUFFER_NUM_ELEM_def Let_def)
  have nul: "\<forall>i msg. Call i msg \<in> set sample_log_events \<longrightarrow> 0 \<notin> set msg" by (auto simp: sample_log_events_def)
  show ?thesis
    using log_is_a_bounded_queue [of "\<lparr>ip_heap = \<lparr>lh_next = (\<lambda>_. 0), lh_prev = (\<lambda>_. 0)\<rparr>, ip_free = 500,
       ip_data = (\<lambda>_. []), ip_notified = [], ip_consumed = []\<rparr>" "[1..<129]", OF _ _ _ _ _ nul] out
    by (simp add: LOG_BUFFER_NUM_ELEM_def) blast
qed

end
