(* ===== verification/Modbus_Slave.thy ===== *)
theory Modbus_Slave
  imports Modbus_Funcs Modbus_Crc
begin

text \<open>
  \<open>modbus_slave.h\<close>: the statistics both slaves share, and the serial line frame: an address, a
  PDU and a CRC, low byte first.
\<close>

record mb_slave_ctx =
  ctx_rx_buffer_overflow :: u32
  ctx_rx_crc_error :: u32
  ctx_rx_frames :: u32
  ctx_req_fails :: u32
  ctx_my_frames :: u32
  ctx_tx_frames :: u32

definition mb_slave_ctx_init :: mb_slave_ctx where
  "mb_slave_ctx_init = \<lparr>ctx_rx_buffer_overflow = 0, ctx_rx_crc_error = 0, ctx_rx_frames = 0,
     ctx_req_fails = 0, ctx_my_frames = 0, ctx_tx_frames = 0\<rparr>"

text \<open>\<open>INC_ERR_CNT\<close>: a counter that stops at its 16-bit maximum.\<close>

definition INC_ERR_CNT :: "u32 \<Rightarrow> u32" where
  "INC_ERR_CNT c = (if c < 0xffff then c + 1 else c)"

lemma INC_ERR_CNT_bounds: "c \<le> 0xffff \<Longrightarrow> c \<le> INC_ERR_CNT c \<and> INC_ERR_CNT c \<le> 0xffff"
  by (auto simp: INC_ERR_CNT_def word_le_nat_alt word_less_nat_alt unat_word_ariths)

section \<open>Serial line frames\<close>

definition rtu_frame :: "u8 \<Rightarrow> u8 list \<Rightarrow> u8 list" where
  "rtu_frame addr pdu = (let body = addr # pdu; crc = crc_bitwise body in body @ [lo_byte crc, hi_byte crc])"

lemma rtu_frame_length [simp]: "length (rtu_frame addr pdu) = length pdu + 3"
  by (simp add: rtu_frame_def Let_def)

lemma rtu_frame_crc: "crc_bitwise (rtu_frame addr pdu) = 0"
  using crc_accepts_own_trailer [of "addr # pdu"] by (simp add: rtu_frame_def Let_def)

text \<open>The frames a receiver accepts are exactly the ones built this way.\<close>

lemma rtu_frame_complete:
  assumes "3 \<le> length frame" "crc_bitwise frame = 0"
  shows "frame = rtu_frame (hd frame) (take (length frame - 3) (tl frame))"
proof -
  define body where "body = take (length frame - 2) frame"
  have "length (drop (length frame - 2) frame) = Suc (Suc 0)" using assms(1) by simp
  then obtain l h where "drop (length frame - 2) frame = [l, h]"
    by (auto simp only: length_Suc_conv length_0_conv)
  then have fr: "frame = body @ [l, h]" by (metis append_take_drop_id body_def)
  then have "be16 h l = crc_bitwise body" using assms(2) crc_accepts_own_trailer by metis
  moreover obtain a pdu where "body = a # pdu"
    using assms(1) by (cases body) (simp_all add: body_def)
  ultimately show ?thesis using fr by (simp add: rtu_frame_def Let_def be16_eq_word_iff)
qed

end
