(* ===== verification/Modbus_Rtu_Slave.thy ===== *)
theory Modbus_Rtu_Slave
  imports Modbus_Slave Stream Task_Timer
begin

text \<open>
  \<open>src/protocols/modbus/modbus_rtu_slave.c\<close>: the Modbus slave on a serial line. Bytes from the
  line are collected until the line has been silent for 3.5 characters; the timeout then takes what
  has been collected as one frame, checks it, lets the request handler answer it in place and
  writes the answer back. The slave is the owner of its stream, so that the stream's callback finds
  it there; \<open>rs_dev\<close> is what the device's callbacks act on.
\<close>

section \<open>State\<close>

definition MB_SER_RTU_PDU_SIZE_MIN :: int where "MB_SER_RTU_PDU_SIZE_MIN = 4"
definition MB_SER_RTU_PDU_SIZE_MAX :: int where "MB_SER_RTU_PDU_SIZE_MAX = 256"
definition MB_SER_PDU_SIZE_CRC :: u16 where "MB_SER_PDU_SIZE_CRC = 2"
definition MB_SER_PDU_ADDR_OFF :: nat where "MB_SER_PDU_ADDR_OFF = 0"
definition MB_SER_PDU_PDU_OFF :: nat where "MB_SER_PDU_PDU_OFF = 1"

lemmas mb_ser_defs = MB_SER_RTU_PDU_SIZE_MIN_def MB_SER_RTU_PDU_SIZE_MAX_def MB_SER_PDU_SIZE_CRC_def
  MB_SER_PDU_ADDR_OFF_def MB_SER_PDU_PDU_OFF_def

record 'd rtu_slave =
  rs_ctx :: mb_slave_ctx
  rs_data_buffer :: "u8 list"
  rs_data_ndx :: u16
  rs_tx_ndx :: u16
  rs_my_address :: u8
  rs_t35 :: task_timer
  rs_t35_val :: rat
  rs_rx_usart_overflow :: u32
  rs_rx_usart_frame_error :: u32
  rs_rx_usart_parity_error :: u32
  rs_rx_short_frame :: u32
  rs_dev :: 'd

type_synonym 'd rtu_stream = "'d rtu_slave stream"

definition mb_rtu_reset_data_buffer :: "'d rtu_slave \<Rightarrow> 'd rtu_slave" where
  "mb_rtu_reset_data_buffer sl = sl\<lparr>rs_data_ndx := 0, rs_tx_ndx := 0\<rparr>"

definition mb_rtu_rx_len :: "'d rtu_slave \<Rightarrow> u16" where
  "mb_rtu_rx_len sl = rs_data_ndx sl"

definition mb_rtu_enable_rx :: "'d rtu_slave \<Rightarrow> 'd rtu_slave" where
  "mb_rtu_enable_rx sl = mb_rtu_reset_data_buffer sl"

definition upd_slave :: "('d rtu_slave \<Rightarrow> 'd rtu_slave) \<Rightarrow> 'd rtu_stream \<Rightarrow> 'd rtu_stream" where
  "upd_slave f st = st\<lparr>st_env := f (st_env st)\<rparr>"

definition upd_ctx :: "(mb_slave_ctx \<Rightarrow> mb_slave_ctx) \<Rightarrow> 'd rtu_slave \<Rightarrow> 'd rtu_slave" where
  "upd_ctx f sl = sl\<lparr>rs_ctx := f (rs_ctx sl)\<rparr>"

section \<open>Handling a collected frame\<close>

text \<open>The default of the weak \<open>modbus_rtu_frame_snoop\<close> does nothing with a frame for somebody else.\<close>

definition modbus_rtu_frame_snoop :: "'d rtu_slave \<Rightarrow> u8 \<Rightarrow> u8 list \<Rightarrow> u16 \<Rightarrow> 'd rtu_slave" where
  "modbus_rtu_frame_snoop sl addr pdu len = sl"

definition mb_rtu_handle_rx_frame :: "'d mb_callbacks \<Rightarrow> kernel_write \<Rightarrow> 'd rtu_stream \<Rightarrow> 'd rtu_stream option" where
  "mb_rtu_handle_rx_frame cbs k st = do {
     let sl = st_env st;
     addr \<leftarrow> mem_load (rs_data_buffer sl) MB_SER_PDU_ADDR_OFF;
     let len = mb_rtu_rx_len sl - of_nat MB_SER_PDU_PDU_OFF - MB_SER_PDU_SIZE_CRC;
     let pdu = drop MB_SER_PDU_PDU_OFF (rs_data_buffer sl);
     if addr = rs_my_address sl \<or> addr = MB_ADDRESS_BROADCAST then do {
       (pdu, rsp_len, dev, ret) \<leftarrow> modbus_rtu_handler_request_rx cbs addr len pdu (rs_dev sl);
       let sl = sl\<lparr>rs_data_buffer := take MB_SER_PDU_PDU_OFF (rs_data_buffer sl) @ pdu, rs_dev := dev\<rparr>;
       if addr \<noteq> MB_ADDRESS_BROADCAST then do {
         let sl = upd_ctx (\<lambda>c. c\<lparr>ctx_my_frames := ctx_my_frames c + 1\<rparr>) sl;
         let sl = (if \<not> ret then upd_ctx (\<lambda>c. c\<lparr>ctx_req_fails := ctx_req_fails c + 1\<rparr>) sl else sl);
         buf \<leftarrow> mem_store (rs_data_buffer sl) 0 addr;
         let ndx = 1 + rsp_len;
         crc \<leftarrow> modbus_calc_crc buf ndx;
         buf \<leftarrow> mem_store buf (unat ndx) (lo_byte crc);
         let ndx = ndx + 1;
         buf \<leftarrow> mem_store buf (unat ndx) (hi_byte crc);
         let ndx = ndx + 1;
         let sl = sl\<lparr>rs_data_buffer := buf, rs_data_ndx := ndx\<rparr>;
         (st, ok) \<leftarrow> stream_write k (st\<lparr>st_env := sl\<rparr>) buf (uint ndx);
         let st = (if \<not> ok then st
                   else upd_slave (upd_ctx (\<lambda>c. c\<lparr>ctx_tx_frames := ctx_tx_frames c + 1\<rparr>)) st);
         Some (upd_slave mb_rtu_enable_rx st) }
       else Some (st\<lparr>st_env := mb_rtu_enable_rx sl\<rparr>) }
     else Some (st\<lparr>st_env := mb_rtu_enable_rx (modbus_rtu_frame_snoop sl addr pdu len)\<rparr>) }"

definition mb_rtu_start_handling_rx_frame ::
    "'d mb_callbacks \<Rightarrow> kernel_write \<Rightarrow> 'd rtu_stream \<Rightarrow> 'd rtu_stream option" where
  "mb_rtu_start_handling_rx_frame cbs k st = do {
     let sl = upd_ctx (\<lambda>c. c\<lparr>ctx_rx_frames := ctx_rx_frames c + 1\<rparr>) (st_env st);
     if mb_rtu_rx_len sl = 0 then Some (st\<lparr>st_env := mb_rtu_enable_rx sl\<rparr>)
     else if uint (mb_rtu_rx_len sl) < MB_SER_RTU_PDU_SIZE_MIN then
       Some (st\<lparr>st_env := mb_rtu_enable_rx (sl\<lparr>rs_rx_short_frame := INC_ERR_CNT (rs_rx_short_frame sl)\<rparr>)\<rparr>)
     else do {
       crc \<leftarrow> modbus_calc_crc (rs_data_buffer sl) (mb_rtu_rx_len sl);
       if crc \<noteq> 0 then
         Some (st\<lparr>st_env := mb_rtu_enable_rx
           (upd_ctx (\<lambda>c. c\<lparr>ctx_rx_crc_error := INC_ERR_CNT (ctx_rx_crc_error c)\<rparr>) sl)\<rparr>)
       else mb_rtu_handle_rx_frame cbs k (st\<lparr>st_env := sl\<rparr>) } }"

text \<open>The expiry of the one-shot timer; \<open>mb_rtu_disable_rx\<close> is empty in the source.\<close>

definition t35_timeout_handler :: "'d mb_callbacks \<Rightarrow> kernel_write \<Rightarrow> 'd rtu_stream \<Rightarrow> 'd rtu_stream option" where
  "t35_timeout_handler cbs k st =
     mb_rtu_start_handling_rx_frame cbs k (upd_slave (\<lambda>sl. sl\<lparr>rs_t35 := task_timer_expire (rs_t35 sl)\<rparr>) st)"

section \<open>Collecting bytes\<close>

definition modbus_rtu_rx :: "'d rtu_stream \<Rightarrow> 'd rtu_stream option" where
  "modbus_rtu_rx st = do {
     let sl = st_env st;
     total \<leftarrow> c_int (uint (rs_data_ndx sl) + st_rx_data_len st);
     let sl = (if total \<ge> MB_SER_RTU_PDU_SIZE_MAX
               then upd_ctx (\<lambda>c. c\<lparr>ctx_rx_buffer_overflow := INC_ERR_CNT (ctx_rx_buffer_overflow c)\<rparr>)
                 (mb_rtu_reset_data_buffer sl)
               else sl);
     buf \<leftarrow> c_memcpy (rs_data_buffer sl) (uint (rs_data_ndx sl)) (st_rx_buf st) 0 (st_rx_data_len st);
     let sl = sl\<lparr>rs_data_buffer := buf, rs_data_ndx := rs_data_ndx sl + word_of_int (st_rx_data_len st)\<rparr>;
     let sl = sl\<lparr>rs_t35 := task_timer_restart (rs_t35 sl) (rs_t35_val sl) 0\<rparr>;
     Some (st\<lparr>st_env := sl\<rparr>) }"

definition modbus_rtu_stream_callback :: "'d rtu_slave stream_callback" where
  "modbus_rtu_stream_callback st evt =
     (case evt of stream_event_rx \<Rightarrow> modbus_rtu_rx st | _ \<Rightarrow> Some st)"

section \<open>Set-up\<close>

definition init_modbus_context :: "'d rtu_slave \<Rightarrow> u8 \<Rightarrow> 'd rtu_slave" where
  "init_modbus_context sl addr =
     (let sl = mb_rtu_reset_data_buffer (sl\<lparr>rs_ctx := mb_slave_ctx_init, rs_my_address := addr\<rparr>) in
      sl\<lparr>rs_t35 := task_timer_init, rs_t35_val := 5 / 1000, rs_rx_usart_overflow := 0,
        rs_rx_usart_frame_error := 0, rs_rx_usart_parity_error := 0, rs_rx_short_frame := 0\<rparr>)"

text \<open>\<open>block\<close> is the \<open>malloc\<close>ed transmit buffer, \<open>bounce\<close> the 128-byte array of the slave.\<close>

definition modbus_rtu_slave_init ::
    "u8 list option \<Rightarrow> u8 list \<Rightarrow> 'd rtu_stream \<Rightarrow> u8 \<Rightarrow> int \<Rightarrow> 'd rtu_stream option" where
  "modbus_rtu_slave_init block bounce st device_addr fd = do {
     st \<leftarrow> stream_init_with_fd block st fd bounce 128 (MB_SER_RTU_PDU_SIZE_MAX * 3);
     Some (upd_slave (\<lambda>sl. mb_rtu_enable_rx (init_modbus_context sl device_addr)) st) }"

definition modbus_rtu_slave_start :: "'d rtu_stream \<Rightarrow> 'd rtu_stream" where
  "modbus_rtu_slave_start st = stream_start st"

definition modbus_rtu_slave_stop :: "'d rtu_stream \<Rightarrow> 'd rtu_stream" where
  "modbus_rtu_slave_stop st = stream_stop st"

section \<open>Invariant\<close>

definition rtu_inv :: "'d rtu_stream \<Rightarrow> bool" where
  "rtu_inv st \<longleftrightarrow> stream_inv st \<and> length (rs_data_buffer (st_env st)) = 256 \<and> unat (rs_data_ndx (st_env st)) < 256"

text \<open>The bytes collected since the last frame.\<close>

definition collected :: "'d rtu_stream \<Rightarrow> u8 list" where
  "collected st = take (unat (rs_data_ndx (st_env st))) (rs_data_buffer (st_env st))"

text \<open>Nothing outside the slave's own buffer and counters changes.\<close>

definition outside_unchanged :: "'d rtu_stream \<Rightarrow> 'd rtu_stream \<Rightarrow> bool" where
  "outside_unchanged st st' \<longleftrightarrow> rs_dev (st_env st') = rs_dev (st_env st) \<and> st_wire st' = st_wire st
     \<and> st_tx_buf st' = st_tx_buf st \<and> st_watcher st' = st_watcher st
     \<and> rs_my_address (st_env st') = rs_my_address (st_env st)"

lemma outside_unchanged_trans:
  "outside_unchanged a b \<Longrightarrow> outside_unchanged b c \<Longrightarrow> outside_unchanged a c"
  by (simp add: outside_unchanged_def)

lemma stream_inv_env [simp]: "stream_inv (st\<lparr>st_env := e\<rparr>) = stream_inv st"
  by (simp add: stream_inv_def)

lemma stream_queue_env [simp]: "st_queue (st\<lparr>st_env := e\<rparr>) = st_queue st"
  by (simp add: st_queue_def)

lemma stream_takes_env [simp]: "stream_takes k (st\<lparr>st_env := e\<rparr>) data = stream_takes k st data"
  by (simp add: stream_takes_def)

lemma collected_length: "rtu_inv st \<Longrightarrow> length (collected st) = unat (rs_data_ndx (st_env st))"
  by (simp add: rtu_inv_def collected_def)

text \<open>Every way to finish without an answer only empties the buffer.\<close>

lemma enable_rx_spec:
  assumes "stream_inv st" "length (rs_data_buffer sl) = 256" "rs_dev sl = rs_dev (st_env st)"
    "rs_my_address sl = rs_my_address (st_env st)"
  shows "rtu_inv (st\<lparr>st_env := mb_rtu_enable_rx sl\<rparr>) \<and> collected (st\<lparr>st_env := mb_rtu_enable_rx sl\<rparr>) = []
    \<and> outside_unchanged st (st\<lparr>st_env := mb_rtu_enable_rx sl\<rparr>)"
  using assms
  by (simp add: rtu_inv_def collected_def outside_unchanged_def mb_rtu_enable_rx_def mb_rtu_reset_data_buffer_def)

section \<open>Collecting\<close>

lemma unat_ndx_add:
  assumes "unat (n :: u16) + k < 256"
  shows "unat (n + word_of_int (int k)) = unat n + k"
  using assms by (simp add: unat_word_ariths unat_of_nat)

lemma memcpy_append:
  assumes "n + length c \<le> length buf" "length c \<le> length src" "take (length c) src = c"
  shows "c_memcpy buf (int n) src 0 (int (length c)) = Some (take n buf @ c @ drop (n + length c) buf)"
  using c_memcpy_in [of n "length c" buf 0 src] assms by simp

lemma modbus_rtu_rx_spec:
  assumes inv: "rtu_inv st" and len: "length c \<le> 128" "length c \<le> length (st_rx_buf st)"
    and data: "take (length c) (st_rx_buf st) = c" "st_rx_data_len st = int (length c)"
  shows "\<exists>st'. modbus_rtu_rx st = Some st' \<and> rtu_inv st' \<and> outside_unchanged st st'
    \<and> collected st' = (if length (collected st) + length c < 256 then collected st @ c else c)
    \<and> task_timer_active (rs_t35 (st_env st')) \<and> st_rx_buf st' = st_rx_buf st"
proof -
  let ?sl = "st_env st"
  let ?n = "unat (rs_data_ndx ?sl)"
  have n: "?n < 256" "length (rs_data_buffer ?sl) = 256" "length (collected st) = ?n"
    using inv by (simp_all add: rtu_inv_def collected_def)
  have total: "c_int (uint (rs_data_ndx ?sl) + st_rx_data_len st) = Some (int (?n + length c))"
  proof -
    have "0 \<le> uint (rs_data_ndx ?sl)" "uint (rs_data_ndx ?sl) < 65536" "int (length c) \<le> 128"
      using len(1) uint_u16_bounds by simp_all
    then have "int32_ok (uint (rs_data_ndx ?sl) + int (length c))" by (intro int32_okI) linarith+
    then show ?thesis by (simp add: data)
  qed
  define m where "m = (if ?n + length c < 256 then ?n else 0)"
  define s1 where "s1 = (if int (?n + length c) \<ge> MB_SER_RTU_PDU_SIZE_MAX
               then upd_ctx (\<lambda>c. c\<lparr>ctx_rx_buffer_overflow := INC_ERR_CNT (ctx_rx_buffer_overflow c)\<rparr>)
                 (mb_rtu_reset_data_buffer ?sl)
               else ?sl)"
  have s1: "unat (rs_data_ndx s1) = m" "rs_data_buffer s1 = rs_data_buffer ?sl" "rs_dev s1 = rs_dev ?sl"
      "rs_my_address s1 = rs_my_address ?sl"
    by (simp_all add: s1_def m_def MB_SER_RTU_PDU_SIZE_MAX_def upd_ctx_def mb_rtu_reset_data_buffer_def not_le
        uint_add_nat)
  have m: "m + length c < 256" using len by (simp add: m_def)
  have cpy: "c_memcpy (rs_data_buffer s1) (uint (rs_data_ndx s1)) (st_rx_buf st) 0 (st_rx_data_len st)
      = Some (take m (rs_data_buffer ?sl) @ c @ drop (m + length c) (rs_data_buffer ?sl))"
    using memcpy_append [of m c "rs_data_buffer s1" "st_rx_buf st"] m n s1(2) len data
    unfolding uint_is_unat s1(1) by simp
  have ndx: "unat (rs_data_ndx s1 + word_of_int (st_rx_data_len st)) = m + length c"
    using unat_ndx_add [of "rs_data_ndx s1" "length c"] m s1 by (simp add: data)
  let ?buf = "take m (rs_data_buffer ?sl) @ c @ drop (m + length c) (rs_data_buffer ?sl)"
  let ?s2 = "s1\<lparr>rs_data_buffer := ?buf, rs_data_ndx := rs_data_ndx s1 + word_of_int (st_rx_data_len st)\<rparr>"
  let ?st = "st\<lparr>st_env := ?s2\<lparr>rs_t35 := task_timer_restart (rs_t35 ?s2) (rs_t35_val ?s2) 0\<rparr>\<rparr>"
  have "modbus_rtu_rx st = Some ?st"
    by (simp only: modbus_rtu_rx_def Let_def total Option.bind.simps s1_def [symmetric] cpy)
  moreover have "rtu_inv ?st" using inv m n ndx by (simp add: rtu_inv_def)
  moreover have "outside_unchanged st ?st" using s1 by (simp add: outside_unchanged_def)
  moreover have "collected ?st = (if length (collected st) + length c < 256 then collected st @ c else c)"
    using ndx n m by (auto simp: collected_def m_def min_def)
  ultimately show ?thesis
    by (intro exI [of _ ?st]) (simp add: restart_replaces task_timer_active_def)
qed

section \<open>The timeout\<close>

text \<open>A frame the slave serves: framed with its own CRC, not empty, for this slave or for all.\<close>

definition rtu_serves :: "'d rtu_slave \<Rightarrow> u8 list \<Rightarrow> bool" where
  "rtu_serves sl frame \<longleftrightarrow> (\<exists>addr pdu. frame = rtu_frame addr pdu \<and> pdu \<noteq> []
     \<and> (addr = rs_my_address sl \<or> addr = MB_ADDRESS_BROADCAST))"

lemma collected_crc:
  assumes "rtu_inv st"
  shows "modbus_calc_crc (rs_data_buffer (st_env st)) (rs_data_ndx (st_env st)) = Some (crc_bitwise (collected st))"
  using assms modbus_calc_crc_bytes [of "rs_data_ndx (st_env st)" "rs_data_buffer (st_env st)"]
  by (simp add: rtu_inv_def collected_def)

definition count_rx_frame :: "'d rtu_stream \<Rightarrow> 'd rtu_stream" where
  "count_rx_frame = upd_slave (upd_ctx (\<lambda>c. c\<lparr>ctx_rx_frames := ctx_rx_frames c + 1\<rparr>))"

lemma count_rx_frame_simps [simp]:
  "rtu_inv (count_rx_frame st) = rtu_inv st" "collected (count_rx_frame st) = collected st"
  "rs_dev (st_env (count_rx_frame st)) = rs_dev (st_env st)"
  "rs_data_buffer (st_env (count_rx_frame st)) = rs_data_buffer (st_env st)"
  "rs_my_address (st_env (count_rx_frame st)) = rs_my_address (st_env st)"
  "st_wire (count_rx_frame st) = st_wire st" "st_queue (count_rx_frame st) = st_queue st"
  "st_tx_buf (count_rx_frame st) = st_tx_buf st" "st_watcher (count_rx_frame st) = st_watcher st"
  by (simp_all add: count_rx_frame_def upd_slave_def upd_ctx_def rtu_inv_def collected_def)

lemma start_handling_drops:
  assumes inv: "rtu_inv st" and bad: "length (collected st) < 4 \<or> crc_bitwise (collected st) \<noteq> 0"
  shows "\<exists>st'. mb_rtu_start_handling_rx_frame cbs k st = Some st' \<and> rtu_inv st' \<and> collected st' = []
    \<and> outside_unchanged st st'"
proof -
  have base: "stream_inv st" "length (rs_data_buffer (st_env st)) = 256" using inv by (simp_all add: rtu_inv_def)
  have short: "uint (rs_data_ndx (st_env st)) < 4 \<longleftrightarrow> length (collected st) < 4"
    unfolding collected_length [OF inv] by (rule uint_less_nat)
  let ?sl = "upd_ctx (\<lambda>c. c\<lparr>ctx_rx_frames := ctx_rx_frames c + 1\<rparr>) (st_env st)"
  define sl where "sl = (if rs_data_ndx (st_env st) = 0 then ?sl
    else if length (collected st) < 4 then ?sl\<lparr>rs_rx_short_frame := INC_ERR_CNT (rs_rx_short_frame ?sl)\<rparr>
    else upd_ctx (\<lambda>c. c\<lparr>ctx_rx_crc_error := INC_ERR_CNT (ctx_rx_crc_error c)\<rparr>) ?sl)"
  have "mb_rtu_start_handling_rx_frame cbs k st = Some (st\<lparr>st_env := mb_rtu_enable_rx sl\<rparr>)"
    using bad short collected_crc [OF inv]
    by (cases "rs_data_ndx (st_env st) = 0"; cases "length (collected st) < 4")
      (simp_all add: mb_rtu_start_handling_rx_frame_def Let_def mb_rtu_rx_len_def
        MB_SER_RTU_PDU_SIZE_MIN_def sl_def upd_ctx_def)
  moreover have "length (rs_data_buffer sl) = 256" "rs_dev sl = rs_dev (st_env st)"
      "rs_my_address sl = rs_my_address (st_env st)"
    using base by (simp_all add: sl_def upd_ctx_def)
  ultimately show ?thesis using enable_rx_spec [OF base(1)] by simp
qed

lemma start_handling_frame:
  assumes inv: "rtu_inv st" and ok: "4 \<le> length (collected st)" "crc_bitwise (collected st) = 0"
  shows "mb_rtu_start_handling_rx_frame cbs k st = mb_rtu_handle_rx_frame cbs k (count_rx_frame st)"
proof -
  have "\<not> uint (rs_data_ndx (st_env st)) < 4" "rs_data_ndx (st_env st) \<noteq> 0"
    using ok(1) unfolding collected_length [OF inv] by (auto simp: uint_less_nat simp del: of_nat_unat)
  then show ?thesis
    using ok collected_crc [OF inv]
    by (simp add: mb_rtu_start_handling_rx_frame_def Let_def mb_rtu_rx_len_def upd_ctx_def
        MB_SER_RTU_PDU_SIZE_MIN_def count_rx_frame_def upd_slave_def)
qed

lemma collected_head:
  assumes "rtu_inv st" "collected st = rtu_frame addr pdu"
  shows "rs_data_buffer (st_env st) ! 0 = addr \<and> 0 < length (rs_data_buffer (st_env st))"
proof -
  have "collected st ! 0 = addr" using assms(2) by (simp add: rtu_frame_def Let_def)
  moreover have "0 < unat (rs_data_ndx (st_env st))"
    using collected_length [OF assms(1)] assms(2) by simp
  ultimately show ?thesis using assms(1) by (simp add: collected_def rtu_inv_def)
qed

lemma collected_pdu_len:
  assumes "rtu_inv st" "collected st = rtu_frame addr pdu"
  shows "rs_data_ndx (st_env st) - 1 - 2 = of_nat (length pdu)" "length pdu \<le> 252"
    "take (length pdu) (drop 1 (rs_data_buffer (st_env st))) = pdu"
proof -
  let ?sl = "st_env st"
  have n: "unat (rs_data_ndx ?sl) = length pdu + 3"
    using collected_length [OF assms(1)] assms(2) by simp
  moreover have "unat (rs_data_ndx ?sl) < 65536" by (rule unat_u16_less)
  ultimately have "rs_data_ndx ?sl = of_nat (length pdu + 3)"
    by (simp add: word_unat_eq_iff unsigned_of_nat take_bit_eq_mod del: unat_u16_less of_nat_add)
  then show "rs_data_ndx ?sl - 1 - 2 = of_nat (length pdu)" by simp
  show "length pdu \<le> 252" using n assms(1) by (simp add: rtu_inv_def)
  have "take (length pdu) (drop 1 (collected st)) = pdu" using assms(2) by (simp add: rtu_frame_def Let_def)
  then show "take (length pdu) (drop 1 (rs_data_buffer ?sl)) = pdu"
    by (simp add: collected_def n drop_take)
qed

lemma handle_foreign:
  assumes inv: "rtu_inv st" and fr: "collected st = rtu_frame addr pdu"
    and a: "addr \<noteq> rs_my_address (st_env st)" "addr \<noteq> MB_ADDRESS_BROADCAST"
  shows "\<exists>st'. mb_rtu_handle_rx_frame cbs k st = Some st' \<and> rtu_inv st' \<and> collected st' = []
    \<and> outside_unchanged st st'"
proof -
  have ld: "mem_load (rs_data_buffer (st_env st)) 0 = Some addr"
    using collected_head [OF inv fr] by simp
  show ?thesis
    using inv a enable_rx_spec [of st "st_env st"]
    by (simp add: mb_rtu_handle_rx_frame_def Let_def MB_SER_PDU_ADDR_OFF_def ld modbus_rtu_frame_snoop_def
        rtu_inv_def)
qed

text \<open>Executing a request: the handler works on the 255 bytes behind the address.\<close>

definition rtu_request :: "'d mb_callbacks \<Rightarrow> 'd rtu_slave \<Rightarrow> u8 \<Rightarrow> u8 list \<Rightarrow> (u8 list \<times> u16 \<times> 'd \<times> bool) option" where
  "rtu_request cbs sl addr pdu = modbus_rtu_handler_request_rx cbs addr (of_nat (length pdu))
     (drop 1 (rs_data_buffer sl)) (rs_dev sl)"

lemma handle_broadcast:
  assumes inv: "rtu_inv st" and fr: "collected st = rtu_frame MB_ADDRESS_BROADCAST pdu"
    and req: "rtu_request cbs (st_env st) MB_ADDRESS_BROADCAST pdu = Some (p, l, d, ok)" "length p = 255"
  shows "\<exists>st'. mb_rtu_handle_rx_frame cbs k st = Some st' \<and> rtu_inv st' \<and> collected st' = []
    \<and> rs_dev (st_env st') = d \<and> st_wire st' = st_wire st \<and> st_queue st' = st_queue st"
proof -
  have ld: "mem_load (rs_data_buffer (st_env st)) 0 = Some MB_ADDRESS_BROADCAST"
    using collected_head [OF inv fr] by simp
  show ?thesis
    using inv req collected_pdu_len [OF inv fr]
    by (simp add: mb_rtu_handle_rx_frame_def Let_def mb_ser_defs ld rtu_request_def rtu_inv_def
        mb_rtu_rx_len_def mb_rtu_enable_rx_def mb_rtu_reset_data_buffer_def collected_def)
qed

lemma take_two_stores:
  "n + 2 \<le> length xs \<Longrightarrow> take (n + 2) (xs[n := a, Suc n := b]) = take n xs @ [a, b]"
  by (simp add: take_Suc_conv_app_nth numeral_2_eq_2 take_update_cancel)

lemma answer_index:
  assumes "unat (l :: u16) \<le> 253"
  shows "unat (1 + l) = unat l + 1" "unat (1 + l + 1) = unat l + 2" "unat (1 + l + 1 + 1) = unat l + 3"
  using assms by (simp_all add: unat_word_ariths)

text \<open>The answer is put together behind the address: the reply, then the CRC of both.\<close>

lemma answer_bytes:
  fixes addr :: u8
  assumes p: "length p = 255" and l: "unat l \<le> 253"
  defines "crc \<equiv> crc_bitwise (addr # take (unat l) p)"
  shows "modbus_calc_crc (addr # p) (1 + l) = Some crc"
    "take (unat l + 3) ((addr # p)[unat l + 1 := lo_byte crc, unat l + 2 := hi_byte crc])
      = rtu_frame addr (take (unat l) p)"
proof -
  show "modbus_calc_crc (addr # p) (1 + l) = Some crc"
    using modbus_calc_crc_bytes [of "1 + l" "addr # p"] answer_index(1) [OF l] p l by (simp add: crc_def)
  show "take (unat l + 3) ((addr # p)[unat l + 1 := lo_byte crc, unat l + 2 := hi_byte crc])
      = rtu_frame addr (take (unat l) p)"
    using take_two_stores [of "unat l + 1" "addr # p" "lo_byte crc" "hi_byte crc"] p l
    by (simp add: rtu_frame_def Let_def crc_def [symmetric] eval_nat_numeral)
qed

lemma handle_mine:
  assumes inv: "rtu_inv st" and fr: "collected st = rtu_frame addr pdu"
    and a: "addr = rs_my_address (st_env st)" "addr \<noteq> MB_ADDRESS_BROADCAST"
    and req: "rtu_request cbs (st_env st) addr pdu = Some (p, l, d, ok)" "length p = 255" "unat l \<le> 253"
  shows "\<exists>st'. mb_rtu_handle_rx_frame cbs k st = Some st' \<and> rtu_inv st' \<and> collected st' = []
    \<and> rs_dev (st_env st') = d \<and> cb_cap (st_tx_buf st') = cb_cap (st_tx_buf st)
    \<and> st_wire st' @ st_queue st' = st_wire st @ st_queue st @ stream_takes k st (rtu_frame addr (take (unat l) p))"
proof -
  let ?sl = "st_env st" and ?n = "unat l"
  let ?crc = "crc_bitwise (addr # take ?n p)"
  let ?buf = "(addr # p)[?n + 1 := lo_byte ?crc, ?n + 2 := hi_byte ?crc]"
  let ?f = "\<lambda>c. c\<lparr>ctx_my_frames := ctx_my_frames c + 1\<rparr>"
  let ?g = "\<lambda>c. c\<lparr>ctx_req_fails := ctx_req_fails c + 1\<rparr>"
  note ans = answer_bytes [where addr = addr, OF req(2,3)]
  have base: "stream_inv st" "length (rs_data_buffer ?sl) = 256" using inv by (simp_all add: rtu_inv_def)
  have ld: "mem_load (rs_data_buffer ?sl) 0 = Some addr"
    using collected_head [OF inv fr] by simp
  have buf: "mem_store (take 1 (rs_data_buffer ?sl) @ p) 0 addr = Some (addr # p)"
    using base(2) by (cases "rs_data_buffer ?sl") (simp_all add: mem_store_def)
  have stores: "mem_store (addr # p) (?n + 1) b = Some ((addr # p)[?n + 1 := b])"
    "mem_store ((addr # p)[?n + 1 := b]) (?n + 2) b' = Some ((addr # p)[?n + 1 := b, ?n + 2 := b'])" for b b'
    using req(2,3) by simp_all
  define sl1 where "sl1 = (let sl = upd_ctx ?f (?sl\<lparr>rs_data_buffer := take 1 (rs_data_buffer ?sl) @ p, rs_dev := d\<rparr>) in
      if \<not> ok then upd_ctx ?g sl else sl)"
  define sl2 where "sl2 = sl1\<lparr>rs_data_buffer := ?buf, rs_data_ndx := 1 + l + 1 + 1\<rparr>"
  have sl1: "rs_data_buffer sl1 = take 1 (rs_data_buffer ?sl) @ p" "rs_dev sl1 = d"
    by (simp_all add: sl1_def upd_ctx_def Let_def)
  let ?F = "rtu_frame addr (take ?n p)"
  have F: "length ?F = ?n + 3" using req(2,3) by simp
  obtain s' sent where w: "stream_write k (st\<lparr>st_env := sl2\<rparr>) ?F (int (?n + 3)) = Some (s', sent)"
      "stream_inv s'" "st_wire s' @ st_queue s' = st_wire st @ st_queue st @ stream_takes k st ?F"
      "cb_cap (st_tx_buf s') = cb_cap (st_tx_buf st)"
    using stream_write_spec [of "st\<lparr>st_env := sl2\<rparr>" ?F k] base(1) F req(3) by auto
  have env: "st_env s' = sl2" using stream_write_frame [OF w(1)] by simp
  have wr: "stream_write k (st\<lparr>st_env := sl2\<rparr>) ?buf (uint (1 + l + 1 + 1)) = Some (s', sent)"
    using w(1) stream_write_take [of "?n + 3" ?buf k "st\<lparr>st_env := sl2\<rparr>"] req(2,3) ans(2)
    unfolding uint_is_unat answer_index(3) [OF req(3)] by simp
  let ?st' = "upd_slave mb_rtu_enable_rx
      (if \<not> sent then s' else upd_slave (upd_ctx (\<lambda>c. c\<lparr>ctx_tx_frames := ctx_tx_frames c + 1\<rparr>)) s')"
  have "mb_rtu_handle_rx_frame cbs k st = Some ?st'"
  proof -
    have "modbus_rtu_handler_request_rx cbs addr (mb_rtu_rx_len ?sl - 1 - 2) (drop 1 (rs_data_buffer ?sl)) (rs_dev ?sl)
        = Some (p, l, d, ok)"
      using req(1) collected_pdu_len(1) [OF inv fr] by (simp add: rtu_request_def mb_rtu_rx_len_def)
    moreover have "mem_store (rs_data_buffer sl1) 0 addr = Some (addr # p)"
      using buf by (simp add: sl1(1))
    ultimately show ?thesis
      by (simp only: mb_rtu_handle_rx_frame_def mb_ser_defs Let_def ld a(1) [symmetric] a(2) of_nat_1
          Option.bind.simps prod.case simp_thms if_True if_False sl1_def [unfolded Let_def, symmetric]
          ans(1) answer_index [OF req(3)] stores sl2_def [symmetric] wr)
  qed
  moreover have "rtu_inv ?st' \<and> collected ?st' = [] \<and> rs_dev (st_env ?st') = d \<and> st_wire ?st' = st_wire s'
      \<and> st_tx_buf ?st' = st_tx_buf s' \<and> st_queue ?st' = st_queue s'"
    using w(2) env sl1 req(2)
    by (simp add: rtu_inv_def collected_def upd_slave_def upd_ctx_def mb_rtu_enable_rx_def
        mb_rtu_reset_data_buffer_def sl2_def)
  ultimately show ?thesis using w by auto
qed

section \<open>Serving the line\<close>

lemma expire_keeps [simp]:
  fixes st :: "'d rtu_stream"
  defines "st' \<equiv> upd_slave (\<lambda>sl. sl\<lparr>rs_t35 := task_timer_expire (rs_t35 sl)\<rparr>) st"
  shows "rtu_inv st' = rtu_inv st" "collected st' = collected st" "outside_unchanged st' x = outside_unchanged st x"
    "rs_my_address (st_env st') = rs_my_address (st_env st)" "st_wire st' = st_wire st" "st_queue st' = st_queue st"
    "st_tx_buf st' = st_tx_buf st" "rtu_request cbs (st_env st') a pdu = rtu_request cbs (st_env st) a pdu"
    "stream_takes k st' data = stream_takes k st data"
  by (simp_all add: st'_def upd_slave_def rtu_inv_def collected_def outside_unchanged_def rtu_request_def)

lemma count_keeps [simp]:
  "outside_unchanged (count_rx_frame st) x = outside_unchanged st x"
  "rtu_request cbs (st_env (count_rx_frame st)) a pdu = rtu_request cbs (st_env st) a pdu"
  "stream_takes k (count_rx_frame st) data = stream_takes k st data"
  by (simp_all add: outside_unchanged_def rtu_request_def stream_takes_def)

lemma rtu_frame_inject: "rtu_frame a p = rtu_frame b q \<Longrightarrow> a = b \<and> p = q"
  by (auto simp: rtu_frame_def Let_def append_eq_append_conv)

lemma t35_frame:
  assumes "rtu_inv st" "collected st = rtu_frame addr pdu" "pdu \<noteq> []"
  shows "t35_timeout_handler cbs k st = mb_rtu_handle_rx_frame cbs k
    (count_rx_frame (upd_slave (\<lambda>sl. sl\<lparr>rs_t35 := task_timer_expire (rs_t35 sl)\<rparr>) st))"
  using assms start_handling_frame [of "upd_slave (\<lambda>sl. sl\<lparr>rs_t35 := task_timer_expire (rs_t35 sl)\<rparr>) st" cbs k]
  by (cases pdu) (simp_all add: t35_timeout_handler_def rtu_frame_crc)

lemma t35_ignores:
  assumes inv: "rtu_inv st" and no: "\<not> rtu_serves (st_env st) (collected st)"
  shows "\<exists>st'. t35_timeout_handler cbs k st = Some st' \<and> rtu_inv st' \<and> collected st' = [] \<and> outside_unchanged st st'"
proof (cases "length (collected st) < 4 \<or> crc_bitwise (collected st) \<noteq> 0")
  case True
  then show ?thesis
    using start_handling_drops [of "upd_slave (\<lambda>sl. sl\<lparr>rs_t35 := task_timer_expire (rs_t35 sl)\<rparr>) st" cbs k] inv
    by (simp add: t35_timeout_handler_def)
next
  case False
  then obtain a pdu where fr: "collected st = rtu_frame a pdu" "length pdu = length (collected st) - 3"
    using rtu_frame_complete [of "collected st"] by force
  then have "pdu \<noteq> []" using False by auto
  with no fr have "a \<noteq> rs_my_address (st_env st)" "a \<noteq> MB_ADDRESS_BROADCAST" by (auto simp: rtu_serves_def)
  then show ?thesis
    using handle_foreign [of "count_rx_frame (upd_slave (\<lambda>sl. sl\<lparr>rs_t35 := task_timer_expire (rs_t35 sl)\<rparr>) st)" a pdu cbs k]
      t35_frame [OF inv fr(1) \<open>pdu \<noteq> []\<close>] inv fr(1) by simp
qed

text \<open>A device that keeps its contract answers any request in the buffer.\<close>

lemma rtu_request_safe:
  assumes dev: "modbus_device cbs" and inv: "rtu_inv st" and fr: "collected st = rtu_frame addr pdu" and ne: "pdu \<noteq> []"
  shows "\<exists>p l d ok. rtu_request cbs (st_env st) addr pdu = Some (p, l, d, ok) \<and> length p = 255 \<and> 1 \<le> unat l \<and> unat l \<le> 253"
proof -
  have n: "length pdu \<le> 252" using collected_pdu_len(2) [OF inv fr] .
  then have "unat (of_nat (length pdu) :: u16) = length pdu" by (simp add: unsigned_of_nat take_bit_eq_mod)
  moreover have "1 \<le> length pdu" using ne by (cases pdu) simp_all
  ultimately show ?thesis
    using modbus_device.request_rx_safe [OF dev, of "drop 1 (rs_data_buffer (st_env st))" "of_nat (length pdu)" addr
        "rs_dev (st_env st)"] inv n
    by (auto simp: rtu_request_def rtu_inv_def)
qed

lemma t35_answers:
  assumes dev: "modbus_device cbs" and inv: "rtu_inv st" and fr: "collected st = rtu_frame addr pdu" and ne: "pdu \<noteq> []"
    and a: "addr = rs_my_address (st_env st)" "addr \<noteq> MB_ADDRESS_BROADCAST"
  shows "\<exists>p l d ok st'. rtu_request cbs (st_env st) addr pdu = Some (p, l, d, ok) \<and> unat l \<le> 253
    \<and> t35_timeout_handler cbs k st = Some st' \<and> rtu_inv st' \<and> collected st' = [] \<and> rs_dev (st_env st') = d
    \<and> st_wire st' @ st_queue st' = st_wire st @ st_queue st @ stream_takes k st (rtu_frame addr (take (unat l) p))"
proof -
  obtain p l d ok where r: "rtu_request cbs (st_env st) addr pdu = Some (p, l, d, ok)" "length p = 255" "unat l \<le> 253"
    using rtu_request_safe [OF dev inv fr ne] by auto
  then show ?thesis
    using handle_mine [of "count_rx_frame (upd_slave (\<lambda>sl. sl\<lparr>rs_t35 := task_timer_expire (rs_t35 sl)\<rparr>) st)"
        addr pdu cbs p l d ok k] t35_frame [OF inv fr ne, of cbs k] inv fr a by auto
qed

lemma t35_broadcast:
  assumes dev: "modbus_device cbs" and inv: "rtu_inv st" and fr: "collected st = rtu_frame MB_ADDRESS_BROADCAST pdu"
    and ne: "pdu \<noteq> []"
  shows "\<exists>p l d ok st'. rtu_request cbs (st_env st) MB_ADDRESS_BROADCAST pdu = Some (p, l, d, ok)
    \<and> t35_timeout_handler cbs k st = Some st' \<and> rtu_inv st' \<and> collected st' = [] \<and> rs_dev (st_env st') = d
    \<and> st_wire st' = st_wire st \<and> st_queue st' = st_queue st"
proof -
  obtain p l d ok where r: "rtu_request cbs (st_env st) MB_ADDRESS_BROADCAST pdu = Some (p, l, d, ok)" "length p = 255"
    using rtu_request_safe [OF dev inv fr ne] by auto
  then show ?thesis
    using handle_broadcast [of "count_rx_frame (upd_slave (\<lambda>sl. sl\<lparr>rs_t35 := task_timer_expire (rs_t35 sl)\<rparr>) st)"
        pdu cbs p l d ok k] t35_frame [OF inv fr ne, of cbs k] inv fr by auto
qed

section \<open>Arrival in pieces\<close>

text \<open>The line delivers a chunk: the stream reads it and calls the slave.\<close>

definition rtu_receive :: "kernel_write \<Rightarrow> 'd rtu_stream \<Rightarrow> u8 list \<Rightarrow> 'd rtu_stream option" where
  "rtu_receive k st chunk =
     stream_watcher_callback modbus_rtu_stream_callback (Read_data chunk) k st watcher_event_rx"

definition rtu_chunk :: "u8 list \<Rightarrow> bool" where
  "rtu_chunk c \<longleftrightarrow> c \<noteq> [] \<and> length c \<le> 128"

definition rtu_ready :: "'d rtu_stream \<Rightarrow> bool" where
  "rtu_ready st \<longleftrightarrow> rtu_inv st \<and> length (st_rx_buf st) = 128"

lemma rtu_receive_spec:
  assumes "rtu_ready st" "rtu_chunk c"
  shows "\<exists>st'. rtu_receive k st c = Some st' \<and> rtu_ready st' \<and> outside_unchanged st st'
    \<and> collected st' = (if length (collected st) + length c < 256 then collected st @ c else c)"
proof -
  let ?st = "st\<lparr>st_rx_buf := c @ drop (length c) (st_rx_buf st), st_rx_data_len := int (length c)\<rparr>"
  have c: "length c \<le> 128" "0 < length c" and inv: "rtu_inv st" "length (st_rx_buf st) = 128"
    using assms by (simp_all add: rtu_chunk_def rtu_ready_def)
  have "c_memcpy (st_rx_buf st) 0 c 0 (int (length c)) = Some (c @ drop (length c) (st_rx_buf st))"
    using memcpy_append [of 0 c "st_rx_buf st" c] c inv by simp
  then have "rtu_receive k st c = modbus_rtu_rx ?st"
    using c by (simp add: rtu_receive_def stream_watcher_callback_def modbus_rtu_stream_callback_def)
  moreover have "rtu_inv ?st" "collected ?st = collected st" "outside_unchanged ?st x = outside_unchanged st x" for x
    using inv by (simp_all add: rtu_inv_def collected_def outside_unchanged_def stream_inv_def)
  ultimately show ?thesis
    using modbus_rtu_rx_spec [of ?st c] c inv by (auto simp: rtu_ready_def)
qed

lemma rtu_receive_all:
  assumes "rtu_ready st" "\<forall>c \<in> set cs. rtu_chunk c" "length (collected st) + length (concat cs) < 256"
  shows "\<exists>st'. foldo (rtu_receive k) st cs = Some st' \<and> rtu_ready st' \<and> outside_unchanged st st'
    \<and> collected st' = collected st @ concat cs"
  using assms
proof (induction cs arbitrary: st)
  case Nil
  then show ?case by (simp add: outside_unchanged_def)
next
  case (Cons c cs)
  obtain s1 where s1: "rtu_receive k st c = Some s1" "rtu_ready s1" "outside_unchanged st s1"
      "collected s1 = collected st @ c"
    using rtu_receive_spec [of st c k] Cons.prems by auto
  then show ?case
    using Cons.IH [of s1] Cons.prems by (auto intro: outside_unchanged_trans)
qed

section \<open>Properties\<close>

text \<open>A slave before its initialisation and the buffers it owns, for the examples.\<close>

definition blank_rtu_slave :: "unit rtu_stream" where
  "blank_rtu_slave = \<lparr>st_watcher = watcher_init_with_fd 3, st_rx_buf = replicate 128 0, st_rx_buf_size = 128,
     st_rx_data_len = 0, st_tx_buf = fst (circ_buffer_init (Some (replicate 768 0)) 768), st_wire = [], st_open = True,
     st_env = \<lparr>rs_ctx = mb_slave_ctx_init, rs_data_buffer = replicate 256 0, rs_data_ndx = 0, rs_tx_ndx = 0,
       rs_my_address = 17, rs_t35 = task_timer_init, rs_t35_val = 5 / 1000, rs_rx_usart_overflow = 0,
       rs_rx_usart_frame_error = 0, rs_rx_usart_parity_error = 0, rs_rx_short_frame = 0, rs_dev = ()\<rparr>\<rparr>"

lemma blank_rtu_ready: "rtu_ready blank_rtu_slave" "collected blank_rtu_slave = []" "st_wire blank_rtu_slave = []"
    "st_queue blank_rtu_slave = []" "rs_my_address (st_env blank_rtu_slave) = 17" "cb_cap (st_tx_buf blank_rtu_slave) = 768"
  using circ_buffer_init_spec [of "replicate 768 0" 768] watcher_init_spec [of 3]
  by (auto simp: rtu_ready_def rtu_inv_def collected_def blank_rtu_slave_def stream_inv_def st_queue_def)

text \<open>
  C22: A request with a PDU of 1 to 252 bytes sent to the slave is executed once and answered (the standard allows 253, in
  a frame of 256 bytes, which gets lost: \<open>rtu_full_size_frame_lost\<close>). However its frame (address, PDU, CRC) is cut into
  chunks of at most 128 bytes, collecting it changes nothing but the slave's buffer; the timeout that follows runs the
  request handler on exactly this PDU, leaves the device in the state the handler gave, and hands one frame with the
  slave's address, the handler's reply and its CRC to the stream, which takes as much of it as kernel and queue have
  room for.
\<close>

theorem rtu_slave_answers:
  assumes "modbus_device cbs" "rtu_ready st" "collected st = []"
    and "addr = rs_my_address (st_env st)" "addr \<noteq> MB_ADDRESS_BROADCAST"
    and "concat cs = rtu_frame addr pdu" "\<forall>c \<in> set cs. rtu_chunk c" "pdu \<noteq> []" "length pdu \<le> 252"
  shows "\<exists>st1 p l d ok st2. foldo (rtu_receive k) st cs = Some st1 \<and> outside_unchanged st st1
    \<and> take (length pdu) (drop 1 (rs_data_buffer (st_env st1))) = pdu
    \<and> modbus_rtu_handler_request_rx cbs addr (of_nat (length pdu)) (drop 1 (rs_data_buffer (st_env st1)))
        (rs_dev (st_env st)) = Some (p, l, d, ok)
    \<and> t35_timeout_handler cbs k' st1 = Some st2 \<and> collected st2 = [] \<and> rs_dev (st_env st2) = d
    \<and> st_wire st2 @ st_queue st2 = st_wire st @ st_queue st @ stream_takes k' st1 (rtu_frame addr (take (unat l) p))"
proof -
  have "length (collected st) + length (concat cs) < 256" using assms(3,6,9) by simp
  from rtu_receive_all [OF assms(2,7) this] obtain st1 where s1: "foldo (rtu_receive k) st cs = Some st1"
      "rtu_inv st1" "outside_unchanged st st1" "collected st1 = rtu_frame addr pdu"
    using assms(3,6) by (auto simp: rtu_ready_def)
  then have same: "rs_my_address (st_env st1) = addr" "rs_dev (st_env st1) = rs_dev (st_env st)"
      "st_wire st1 = st_wire st" "st_queue st1 = st_queue st"
    using assms(4) by (simp_all add: outside_unchanged_def st_queue_def)
  have "take (length pdu) (drop 1 (rs_data_buffer (st_env st1))) = pdu"
    using collected_pdu_len(3) [OF s1(2,4)] .
  with t35_answers [OF assms(1) s1(2,4) assms(8) same(1) [symmetric] assms(5), of k'] s1 same
  show ?thesis unfolding rtu_request_def same by blast
qed

lemma rtu_slave_answers_witness:
  "\<exists>st1 st2. foldo (rtu_receive (Room 0)) blank_rtu_slave
      [take 3 (rtu_frame 17 [4, 0, 0, 0, 2]), drop 3 (rtu_frame 17 [4, 0, 0, 0, 2])] = Some st1
    \<and> t35_timeout_handler demo_callbacks (Room 300) st1 = Some st2 \<and> collected st2 = []"
proof -
  let ?pdu = "[4, 0, 0, 0, 2 :: u8]"
  let ?cs = "[take 3 (rtu_frame 17 ?pdu), drop 3 (rtu_frame 17 ?pdu)]"
  have fr: "concat ?cs = rtu_frame 17 ?pdu" by simp
  have len: "length (take 3 (rtu_frame 17 ?pdu)) = 3" "length (drop 3 (rtu_frame 17 ?pdu)) = 5" by simp_all
  then have "take 3 (rtu_frame 17 ?pdu) \<noteq> []" "drop 3 (rtu_frame 17 ?pdu) \<noteq> []" by force+
  with len have cs: "\<forall>c \<in> set ?cs. rtu_chunk c" by (simp add: rtu_chunk_def del: take_eq_Nil drop_eq_Nil)
  have a: "17 = rs_my_address (st_env blank_rtu_slave)" "17 \<noteq> MB_ADDRESS_BROADCAST"
    by (simp_all add: blank_rtu_ready MB_ADDRESS_BROADCAST_def)
  have pdu: "?pdu \<noteq> []" "length ?pdu \<le> 252" by simp_all
  show ?thesis
    using rtu_slave_answers [OF demo_device.modbus_device_axioms blank_rtu_ready(1,2) a fr cs pdu, of "Room 0" "Room 300"]
    by (elim exE conjE) (intro exI conjI)
qed

text \<open>
  C33: Whatever was collected, if it is not a frame with a correct CRC and a PDU of at least one byte for this
  slave or for all, the timeout is silent: the device, the wire, the transmit queue and the watchers
  are as before, and the buffer is empty for the next frame.
\<close>

theorem rtu_slave_ignores:
  assumes "rtu_inv st" "\<not> (\<exists>addr pdu. collected st = rtu_frame addr pdu \<and> pdu \<noteq> []
     \<and> (addr = rs_my_address (st_env st) \<or> addr = MB_ADDRESS_BROADCAST))"
  shows "\<exists>st'. t35_timeout_handler cbs k st = Some st' \<and> rtu_inv st' \<and> collected st' = []
    \<and> rs_dev (st_env st') = rs_dev (st_env st) \<and> st_wire st' = st_wire st \<and> st_tx_buf st' = st_tx_buf st
    \<and> st_watcher st' = st_watcher st"
  using t35_ignores [OF assms(1), of cbs k] assms(2) by (auto simp: rtu_serves_def outside_unchanged_def)

lemma rtu_slave_ignores_witness:
  "\<exists>st'. t35_timeout_handler demo_callbacks (Room 300) blank_rtu_slave = Some st' \<and> st_wire st' = []"
proof -
  have no: "\<not> (\<exists>addr pdu. collected blank_rtu_slave = rtu_frame addr pdu \<and> pdu \<noteq> []
     \<and> (addr = rs_my_address (st_env blank_rtu_slave) \<or> addr = MB_ADDRESS_BROADCAST))"
    by (simp add: blank_rtu_ready rtu_frame_def Let_def)
  show ?thesis
    using rtu_slave_ignores [OF _ no, of demo_callbacks "Room 300"] blank_rtu_ready(1)
    by (auto simp: rtu_ready_def blank_rtu_ready)
qed

text \<open>
  A broadcast is executed but not answered: the request handler runs on the collected PDU, the device is
  left as the handler says, and no byte reaches the wire or the queue.
\<close>

theorem rtu_broadcast_is_silent:
  assumes "modbus_device cbs" "rtu_inv st" "collected st = rtu_frame MB_ADDRESS_BROADCAST pdu" "pdu \<noteq> []"
  shows "\<exists>p l d ok st'. modbus_rtu_handler_request_rx cbs MB_ADDRESS_BROADCAST (of_nat (length pdu))
        (drop 1 (rs_data_buffer (st_env st))) (rs_dev (st_env st)) = Some (p, l, d, ok)
    \<and> t35_timeout_handler cbs k st = Some st' \<and> rtu_inv st' \<and> collected st' = [] \<and> rs_dev (st_env st') = d
    \<and> st_wire st' = st_wire st \<and> st_queue st' = st_queue st"
  using t35_broadcast [OF assms, of k] unfolding rtu_request_def .

lemma rtu_broadcast_is_silent_witness:
  "\<exists>(st :: unit rtu_stream) st'. collected st = rtu_frame 0 [4, 0, 0, 0, 2]
    \<and> t35_timeout_handler demo_callbacks (Room 300) st = Some st' \<and> st_wire st' = []"
proof -
  let ?c = "rtu_frame MB_ADDRESS_BROADCAST [4, 0, 0, 0, 2 :: u8]"
  have len: "length ?c = 8" by simp
  then have "?c \<noteq> []" by force
  then have "rtu_chunk ?c" using len by (simp add: rtu_chunk_def)
  then obtain st where st: "rtu_ready st" "outside_unchanged blank_rtu_slave st" "collected st = ?c"
    using rtu_receive_spec [OF blank_rtu_ready(1), of ?c "Room 0"] len by (auto simp: blank_rtu_ready)
  have inv: "rtu_inv st" "st_wire st = []"
    using st by (simp_all add: rtu_ready_def outside_unchanged_def blank_rtu_ready)
  have ne: "[4, 0, 0, 0, 2 :: u8] \<noteq> []" by simp
  obtain st' where "t35_timeout_handler demo_callbacks (Room 300) st = Some st'" "st_wire st' = st_wire st"
    using rtu_broadcast_is_silent [OF demo_device.modbus_device_axioms inv(1) st(3) ne, of "Room 300"]
    by (elim exE conjE)
  with st(3) inv(2) show ?thesis
    by - (rule exI [of _ st], rule exI [of _ st'], simp add: MB_ADDRESS_BROADCAST_def)
qed

text \<open>
  C39: A frame of the full 256 bytes the standard allows, arriving in more than one chunk, is never seen whole:
  the last chunk finds the buffer full, resets it and is kept alone.
\<close>

theorem rtu_full_size_frame_lost:
  assumes "rtu_ready st" "collected st = []" "\<forall>c \<in> set (cs @ [c]). rtu_chunk c"
    and "length (concat (cs @ [c])) = 256"
  shows "\<exists>st'. foldo (rtu_receive k) st (cs @ [c]) = Some st' \<and> collected st' = c \<and> c \<noteq> concat (cs @ [c])"
proof -
  have c: "rtu_chunk c" "0 < length c" "length c \<le> 128" using assms(3) by (auto simp: rtu_chunk_def)
  have "length (concat cs) + length c = 256" using assms(4) by simp
  then have "length (concat cs) < 256" using c(2) by linarith
  then obtain st1 where s1: "foldo (rtu_receive k) st cs = Some st1" "rtu_ready st1" "collected st1 = concat cs"
    using rtu_receive_all [of st cs k] assms by auto
  then obtain st2 where "rtu_receive k st1 c = Some st2" "collected st2 = c"
    using rtu_receive_spec [OF s1(2) c(1), of k] assms(4) by auto
  moreover have "length c \<noteq> length (concat (cs @ [c]))" unfolding assms(4) using c(3) by linarith
  ultimately show ?thesis using s1(1) by (auto simp add: foldo_append simp del: concat_append)
qed

lemma rtu_full_size_frame_lost_witness:
  "\<exists>st'. foldo (rtu_receive Block) blank_rtu_slave ([replicate 128 1] @ [replicate 128 2]) = Some st'
    \<and> collected st' = replicate 128 2"
proof -
  have "\<forall>c \<in> set ([replicate 128 1] @ [replicate 128 2]). rtu_chunk c"
    "length (concat ([replicate 128 1] @ [replicate 128 (2 :: u8)])) = 256" by (simp_all add: rtu_chunk_def)
  from rtu_full_size_frame_lost [OF blank_rtu_ready(1,2) this, of Block] show ?thesis by blast
qed

end
