(* ===== verification/Modbus_Master.thy ===== *)
theory Modbus_Master
  imports Modbus_Funcs
begin

text \<open>
  \<open>src/protocols/modbus/modbus_master.c\<close> and \<open>modbus_rtu_response_handler.c\<close>: a master builds
  request PDUs in its transmit buffer and hands them to its transport, and checks a reply against
  the request it remembers before it calls back. The transport (\<open>request\<close>) is a function of the
  master's state and the slave's address, the four callbacks one function of a \<open>master_event\<close>.
\<close>

section \<open>State\<close>

definition MODBUS_MASTER_MAX_BUFFER_SIZE :: nat where "MODBUS_MASTER_MAX_BUFFER_SIZE = 512"

record mb_master_ctx =
  mm_tx_buf :: "u8 list"
  mm_tx_ndx :: u16
  mm_pdu_offset :: u8
  mm_req_func :: u8
  mm_req_slave :: u8
  mm_req_reg_addr :: u16
  mm_req_nb :: u16
  mm_req_value :: u16

definition mb_master_ctx_init :: "mb_master_ctx \<Rightarrow> mb_master_ctx" where
  "mb_master_ctx_init ctx = ctx"

type_synonym 'r mb_transport = "mb_master_ctx \<Rightarrow> u8 \<Rightarrow> 'r option"

section \<open>Requests\<close>

text \<open>\<open>ctx->tx_buf[ctx->tx_ndx++] = v\<close>, undefined outside the array.\<close>

definition mm_put :: "mb_master_ctx \<Rightarrow> u8 \<Rightarrow> mb_master_ctx option" where
  "mm_put ctx v = do {
     b \<leftarrow> mem_store (mm_tx_buf ctx) (unat (mm_tx_ndx ctx)) v;
     Some (ctx\<lparr>mm_tx_buf := b, mm_tx_ndx := mm_tx_ndx ctx + 1\<rparr>) }"

definition mb_master_fill_io_status_req :: "mb_master_ctx \<Rightarrow> u8 \<Rightarrow> u16 \<Rightarrow> u16 \<Rightarrow> mb_master_ctx option" where
  "mb_master_fill_io_status_req ctx func reg_addr nb_or_v = do {
     let ctx = ctx\<lparr>mm_tx_ndx := ucast (mm_pdu_offset ctx)\<rparr>;
     ctx \<leftarrow> mm_put ctx func;
     ctx \<leftarrow> mm_put ctx (hi_byte reg_addr);
     ctx \<leftarrow> mm_put ctx (lo_byte reg_addr);
     ctx \<leftarrow> mm_put ctx (hi_byte nb_or_v);
     mm_put ctx (lo_byte nb_or_v) }"

definition mm_remember :: "mb_master_ctx \<Rightarrow> u8 \<Rightarrow> u8 \<Rightarrow> u16 \<Rightarrow> u16 \<Rightarrow> mb_master_ctx" where
  "mm_remember ctx func slave reg_addr nb =
     ctx\<lparr>mm_req_func := func, mm_req_slave := slave, mm_req_reg_addr := reg_addr, mm_req_nb := nb\<rparr>"

definition mb_master_read_coils_req :: "'r mb_transport \<Rightarrow> mb_master_ctx \<Rightarrow> u8 \<Rightarrow> u16 \<Rightarrow> u16 \<Rightarrow> 'r option" where
  "mb_master_read_coils_req request ctx slave reg_addr nb = do {
     let ctx = mm_remember ctx MB_FUNC_READ_COILS slave reg_addr nb;
     ctx \<leftarrow> mb_master_fill_io_status_req ctx MB_FUNC_READ_COILS reg_addr nb;
     request ctx slave }"

definition mb_master_read_discrete_inputs :: "'r mb_transport \<Rightarrow> mb_master_ctx \<Rightarrow> u8 \<Rightarrow> u16 \<Rightarrow> u16 \<Rightarrow> 'r option" where
  "mb_master_read_discrete_inputs request ctx slave reg_addr nb = do {
     let ctx = mm_remember ctx MB_FUNC_READ_DISCRETE_INPUTS slave reg_addr nb;
     ctx \<leftarrow> mb_master_fill_io_status_req ctx MB_FUNC_READ_DISCRETE_INPUTS reg_addr nb;
     request ctx slave }"

definition mb_master_read_holding_registers :: "'r mb_transport \<Rightarrow> mb_master_ctx \<Rightarrow> u8 \<Rightarrow> u16 \<Rightarrow> u16 \<Rightarrow> 'r option" where
  "mb_master_read_holding_registers request ctx slave reg_addr nb = do {
     let ctx = mm_remember ctx MB_FUNC_READ_HOLDING_REGISTER slave reg_addr nb;
     ctx \<leftarrow> mb_master_fill_io_status_req ctx MB_FUNC_READ_HOLDING_REGISTER reg_addr nb;
     request ctx slave }"

definition mb_master_read_input_registers :: "'r mb_transport \<Rightarrow> mb_master_ctx \<Rightarrow> u8 \<Rightarrow> u16 \<Rightarrow> u16 \<Rightarrow> 'r option" where
  "mb_master_read_input_registers request ctx slave reg_addr nb = do {
     let ctx = mm_remember ctx MB_FUNC_READ_INPUT_REGISTER slave reg_addr nb;
     ctx \<leftarrow> mb_master_fill_io_status_req ctx MB_FUNC_READ_INPUT_REGISTER reg_addr nb;
     request ctx slave }"

definition mb_master_write_single_coil :: "'r mb_transport \<Rightarrow> mb_master_ctx \<Rightarrow> u8 \<Rightarrow> u16 \<Rightarrow> u8 \<Rightarrow> 'r option" where
  "mb_master_write_single_coil request ctx slave reg_addr v = do {
     let ctx = (mm_remember ctx MB_FUNC_WRITE_SINGLE_COIL slave reg_addr 1)
       \<lparr>mm_req_value := (if v \<noteq> 0 then 0xff00 else 0x0000)\<rparr>;
     ctx \<leftarrow> mb_master_fill_io_status_req ctx MB_FUNC_WRITE_SINGLE_COIL reg_addr (if v \<noteq> 0 then 0xff00 else 0x0000);
     request ctx slave }"

definition mb_master_write_single_register :: "'r mb_transport \<Rightarrow> mb_master_ctx \<Rightarrow> u8 \<Rightarrow> u16 \<Rightarrow> u16 \<Rightarrow> 'r option" where
  "mb_master_write_single_register request ctx slave reg_addr v = do {
     let ctx = (mm_remember ctx MB_FUNC_WRITE_REGISTER slave reg_addr 1)\<lparr>mm_req_value := v\<rparr>;
     ctx \<leftarrow> mb_master_fill_io_status_req ctx MB_FUNC_WRITE_REGISTER reg_addr v;
     request ctx slave }"

text \<open>
  One byte of coils: the inner loop of \<open>mb_master_write_multiple_coils\<close>. It ends at the eighth bit or
  when \<open>pos\<close> has reached \<open>nb\<close>; the remaining rounds of the fold do nothing.
\<close>

definition mm_coil_bit :: "u8 list \<Rightarrow> u16 \<Rightarrow> mb_master_ctx \<times> nat \<Rightarrow> nat \<Rightarrow> (mb_master_ctx \<times> nat) option" where
  "mm_coil_bit vals nb s k =
     (let (ctx, pos) = s in
      if pos < unat nb then do {
        v \<leftarrow> mem_load vals pos;
        b \<leftarrow> (if v \<noteq> 0 then do {
              x \<leftarrow> mem_load (mm_tx_buf ctx) (unat (mm_tx_ndx ctx));
              mem_store (mm_tx_buf ctx) (unat (mm_tx_ndx ctx)) (x OR push_bit k 1) }
            else Some (mm_tx_buf ctx));
        Some (ctx\<lparr>mm_tx_buf := b\<rparr>, pos + 1) }
      else Some (ctx, pos))"

definition mm_coil_byte :: "u8 list \<Rightarrow> u16 \<Rightarrow> mb_master_ctx \<times> nat \<Rightarrow> nat \<Rightarrow> (mb_master_ctx \<times> nat) option" where
  "mm_coil_byte vals nb s i = do {
     let (ctx, pos) = s;
     b \<leftarrow> mem_store (mm_tx_buf ctx) (unat (mm_tx_ndx ctx)) 0;
     (ctx, pos) \<leftarrow> foldo (mm_coil_bit vals nb) (ctx\<lparr>mm_tx_buf := b\<rparr>, pos) [0..<8];
     Some (ctx\<lparr>mm_tx_ndx := mm_tx_ndx ctx + 1\<rparr>, pos) }"

definition mb_master_write_multiple_coils ::
    "'r mb_transport \<Rightarrow> mb_master_ctx \<Rightarrow> u8 \<Rightarrow> u16 \<Rightarrow> u16 \<Rightarrow> u8 list \<Rightarrow> 'r option" where
  "mb_master_write_multiple_coils request ctx slave reg_addr nb vals = do {
     let ctx = mm_remember ctx MB_FUNC_WRITE_MULTIPLE_COILS slave reg_addr nb;
     ctx \<leftarrow> mb_master_fill_io_status_req ctx MB_FUNC_WRITE_MULTIPLE_COILS reg_addr nb;
     let byte_count = (ucast (nb div 8 + (if nb mod 8 \<noteq> 0 then 1 else 0)) :: u8);
     ctx \<leftarrow> mm_put ctx byte_count;
     (ctx, _) \<leftarrow> foldo (mm_coil_byte vals nb) (ctx, 0) [0..<unat byte_count];
     request ctx slave }"

definition mm_put_reg :: "mb_master_ctx \<Rightarrow> u16 \<Rightarrow> mb_master_ctx option" where
  "mm_put_reg ctx v = do { ctx \<leftarrow> mm_put ctx (hi_byte v); mm_put ctx (lo_byte v) }"

text \<open>The loop over \<open>values[i]\<close>: reading behind the caller's array is undefined.\<close>

definition mm_put_regs :: "mb_master_ctx \<Rightarrow> u16 \<Rightarrow> u16 list \<Rightarrow> mb_master_ctx option" where
  "mm_put_regs ctx nb vals = foldo (\<lambda>ctx i. do { v \<leftarrow> mem_load vals i; mm_put_reg ctx v }) ctx [0..<unat nb]"

definition mb_master_write_multiple_registers ::
    "'r mb_transport \<Rightarrow> mb_master_ctx \<Rightarrow> u8 \<Rightarrow> u16 \<Rightarrow> u16 \<Rightarrow> u16 list \<Rightarrow> 'r option" where
  "mb_master_write_multiple_registers request ctx slave reg_addr nb vals = do {
     let ctx = mm_remember ctx MB_FUNC_WRITE_MULTIPLE_REGISTERS slave reg_addr nb;
     ctx \<leftarrow> mb_master_fill_io_status_req ctx MB_FUNC_WRITE_MULTIPLE_REGISTERS reg_addr nb;
     ctx \<leftarrow> mm_put ctx (ucast (nb * 2));
     ctx \<leftarrow> mm_put_regs ctx nb vals;
     request ctx slave }"

definition mb_master_write_and_read_registers ::
    "'r mb_transport \<Rightarrow> mb_master_ctx \<Rightarrow> u8 \<Rightarrow> u16 \<Rightarrow> u16 \<Rightarrow> u16 list \<Rightarrow> u16 \<Rightarrow> u16 \<Rightarrow> 'r option" where
  "mb_master_write_and_read_registers request ctx slave write_addr nb_write vals read_addr nb_read = do {
     let ctx = mm_remember ctx MB_FUNC_READWRITE_MULTIPLE_REGISTERS slave read_addr nb_read;
     ctx \<leftarrow> mb_master_fill_io_status_req ctx MB_FUNC_READWRITE_MULTIPLE_REGISTERS read_addr nb_read;
     ctx \<leftarrow> mm_put ctx (hi_byte write_addr);
     ctx \<leftarrow> mm_put ctx (lo_byte write_addr);
     ctx \<leftarrow> mm_put ctx (hi_byte nb_write);
     ctx \<leftarrow> mm_put ctx (lo_byte nb_write);
     ctx \<leftarrow> mm_put ctx (ucast (nb_write * 2));
     ctx \<leftarrow> mm_put_regs ctx nb_write vals;
     request ctx slave }"

section \<open>Replies\<close>

text \<open>A reply is the memory from the \<open>pdu\<close> pointer; \<open>None\<close> in an event is the NULL of a write.\<close>

datatype master_event =
  Ev_coil u8 u16 u16 "u8 list option" MBRegisterMode
| Ev_discrete u8 u16 u16 "u8 list"
| Ev_holding_regs u8 u16 u16 "u8 list option" MBRegisterMode
| Ev_input_regs u8 u16 u16 "u8 list"

definition modbus_rtu_validate_response :: "mb_master_ctx \<Rightarrow> u8 \<Rightarrow> u8 list \<Rightarrow> int \<Rightarrow> bool option" where
  "modbus_rtu_validate_response ctx slave pdu pdu_len = do {
     f \<leftarrow> mem_load pdu 0;
     if mm_req_func ctx \<noteq> f then Some False
     else if mm_req_func ctx \<in> {MB_FUNC_READ_COILS, MB_FUNC_READ_DISCRETE_INPUTS} then do {
       bc \<leftarrow> mem_load pdu 1;
       if pdu_len \<noteq> 2 + uint bc then Some False
       else let nb = (ucast bc * 8 :: u16) in Some (\<not> nb < mm_req_nb ctx) }
     else if mm_req_func ctx \<in> {MB_FUNC_READ_HOLDING_REGISTER, MB_FUNC_READ_INPUT_REGISTER} then do {
       bc \<leftarrow> mem_load pdu 1;
       if pdu_len \<noteq> 2 + uint bc then Some False
       else let nb = (ucast bc div 2 :: u16) in Some (mm_req_nb ctx = nb) }
     else if mm_req_func ctx \<in> {MB_FUNC_WRITE_SINGLE_COIL, MB_FUNC_WRITE_REGISTER} then do {
       if pdu_len \<noteq> 5 then Some False
       else do {
         v \<leftarrow> rd16 pdu 3;
         if v \<noteq> mm_req_value ctx then Some False
         else do {
           addr \<leftarrow> rd16 pdu 1;
           Some (addr = mm_req_reg_addr ctx) } } }
     else if mm_req_func ctx \<in> {MB_FUNC_WRITE_MULTIPLE_COILS, MB_FUNC_WRITE_MULTIPLE_REGISTERS} then do {
       if pdu_len \<noteq> 5 then Some False
       else do {
         addr \<leftarrow> rd16 pdu 1;
         nb \<leftarrow> rd16 pdu 3;
         Some (\<not> (addr \<noteq> mm_req_reg_addr ctx \<or> nb \<noteq> mm_req_nb ctx)) } }
     else if mm_req_func ctx = MB_FUNC_READWRITE_MULTIPLE_REGISTERS then do {
       bc \<leftarrow> mem_load pdu 1;
       if pdu_len \<noteq> 2 + uint bc then Some False
       else let nb = (ucast bc div 2 :: u16) in Some (mm_req_nb ctx = nb) }
     else Some False }"

definition modbus_rtu_handler_response_rx ::
    "(master_event \<Rightarrow> 'u \<Rightarrow> 'u option) \<Rightarrow> mb_master_ctx \<Rightarrow> u8 \<Rightarrow> u8 list \<Rightarrow> int \<Rightarrow> 'u \<Rightarrow> 'u option" where
  "modbus_rtu_handler_response_rx cb ctx slave pdu pdu_len u = do {
     ok \<leftarrow> modbus_rtu_validate_response ctx slave pdu pdu_len;
     if \<not> ok then Some u
     else
       let f = mm_req_func ctx; addr = mm_req_reg_addr ctx; nb = mm_req_nb ctx in
       if f = MB_FUNC_READ_COILS then cb (Ev_coil slave addr nb (Some (drop 2 pdu)) MB_REG_READ) u
       else if f = MB_FUNC_READ_DISCRETE_INPUTS then cb (Ev_discrete slave addr nb (drop 2 pdu)) u
       else if f = MB_FUNC_READ_HOLDING_REGISTER then cb (Ev_holding_regs slave addr nb (Some (drop 2 pdu)) MB_REG_READ) u
       else if f = MB_FUNC_READ_INPUT_REGISTER then cb (Ev_input_regs slave addr nb (drop 2 pdu)) u
       else if f = MB_FUNC_WRITE_SINGLE_COIL then cb (Ev_coil slave addr nb (Some (drop 3 pdu)) MB_REG_WRITE) u
       else if f = MB_FUNC_WRITE_REGISTER then cb (Ev_holding_regs slave addr nb (Some (drop 3 pdu)) MB_REG_WRITE) u
       else if f = MB_FUNC_WRITE_MULTIPLE_COILS then cb (Ev_coil slave addr nb None MB_REG_WRITE) u
       else if f = MB_FUNC_WRITE_MULTIPLE_REGISTERS then cb (Ev_holding_regs slave addr nb None MB_REG_WRITE) u
       else if f = MB_FUNC_READWRITE_MULTIPLE_REGISTERS then cb (Ev_holding_regs slave addr nb None MB_REG_READ) u
       else Some u }"

section \<open>What a request holds\<close>

text \<open>The request buffer after a PDU has been put behind the transport's header.\<close>

definition mm_with_pdu :: "mb_master_ctx \<Rightarrow> u8 list \<Rightarrow> mb_master_ctx" where
  "mm_with_pdu ctx pdu = (let off = unat (mm_pdu_offset ctx) in
     ctx\<lparr>mm_tx_buf := take off (mm_tx_buf ctx) @ pdu @ drop (off + length pdu) (mm_tx_buf ctx),
       mm_tx_ndx := of_nat (off + length pdu)\<rparr>)"

definition mm_pdu :: "mb_master_ctx \<Rightarrow> u8 list" where
  "mm_pdu ctx = drop (unat (mm_pdu_offset ctx)) (take (unat (mm_tx_ndx ctx)) (mm_tx_buf ctx))"

lemma unat_of_small: "n < 65536 \<Longrightarrow> unat (of_nat n :: u16) = n"
  by (simp add: unsigned_of_nat take_bit_nat_eq_self_iff)

lemma mm_puts:
  assumes "unat (mm_tx_ndx ctx) + length vs \<le> length (mm_tx_buf ctx)" "unat (mm_tx_ndx ctx) + length vs < 65536"
  shows "foldo mm_put ctx vs = Some (ctx\<lparr>mm_tx_buf := take (unat (mm_tx_ndx ctx)) (mm_tx_buf ctx) @ vs
      @ drop (unat (mm_tx_ndx ctx) + length vs) (mm_tx_buf ctx), mm_tx_ndx := mm_tx_ndx ctx + of_nat (length vs)\<rparr>)"
  using assms
proof (induction vs arbitrary: ctx)
  case Nil
  then show ?case by simp
next
  case (Cons v vs)
  let ?n = "unat (mm_tx_ndx ctx)" and ?b = "mm_tx_buf ctx"
  let ?c = "ctx\<lparr>mm_tx_buf := ?b[?n := v], mm_tx_ndx := mm_tx_ndx ctx + 1\<rparr>"
  have n: "unat (mm_tx_ndx ctx + 1) = ?n + 1" using Cons.prems(2) by (simp add: unat_word_ariths)
  have "mm_put ctx v = Some ?c" using Cons.prems(1) by (simp add: mm_put_def)
  moreover have "foldo mm_put ?c vs = Some (?c\<lparr>mm_tx_buf := take (unat (mm_tx_ndx ?c)) (mm_tx_buf ?c) @ vs
      @ drop (unat (mm_tx_ndx ?c) + length vs) (mm_tx_buf ?c), mm_tx_ndx := mm_tx_ndx ?c + of_nat (length vs)\<rparr>)"
    using Cons.prems n by (intro Cons.IH) simp_all
  moreover have "take (?n + 1) (?b[?n := v]) = take ?n ?b @ [v]"
    using Cons.prems(1) by (simp add: take_Suc_conv_app_nth)
  ultimately show ?case using n by (simp add: add.commute add.left_commute)
qed

lemma mm_puts_pdu:
  assumes "unat (mm_pdu_offset ctx) + length pdu \<le> length (mm_tx_buf ctx)" "length pdu < 65000"
  shows "foldo mm_put (ctx\<lparr>mm_tx_ndx := ucast (mm_pdu_offset ctx)\<rparr>) pdu = Some (mm_with_pdu ctx pdu)"
proof -
  let ?o = "unat (mm_pdu_offset ctx)" and ?c = "ctx\<lparr>mm_tx_ndx := ucast (mm_pdu_offset ctx)\<rparr>"
  have n: "unat (mm_tx_ndx ?c) = ?o" by simp
  have "?o + length pdu < 65536" using unat_u8_less [of "mm_pdu_offset ctx"] assms(2) by linarith
  then have "foldo mm_put ?c pdu = Some (?c\<lparr>mm_tx_buf := take ?o (mm_tx_buf ctx) @ pdu @ drop (?o + length pdu) (mm_tx_buf ctx),
      mm_tx_ndx := mm_tx_ndx ?c + of_nat (length pdu)\<rparr>)"
    using mm_puts [of ?c pdu] assms(1) unfolding n by simp
  then show ?thesis by (simp add: mm_with_pdu_def Let_def)
qed

lemma mm_pdu_with_pdu [simp]:
  assumes "unat (mm_pdu_offset ctx) + length pdu \<le> length (mm_tx_buf ctx)" "length pdu < 65000"
  shows "mm_pdu (mm_with_pdu ctx pdu) = pdu"
proof -
  have "unat (mm_pdu_offset ctx) + length pdu < 65536"
    using unat_u8_less [of "mm_pdu_offset ctx"] assms(2) by linarith
  then have "unat (of_nat (unat (mm_pdu_offset ctx) + length pdu) :: u16) = unat (mm_pdu_offset ctx) + length pdu"
    by (rule unat_of_small)
  then show ?thesis using assms by (simp add: mm_pdu_def mm_with_pdu_def Let_def del: of_nat_add)
qed

lemma mm_with_pdu_keeps [simp]:
  "mm_req_func (mm_with_pdu ctx pdu) = mm_req_func ctx" "mm_req_slave (mm_with_pdu ctx pdu) = mm_req_slave ctx"
  "mm_req_reg_addr (mm_with_pdu ctx pdu) = mm_req_reg_addr ctx" "mm_req_nb (mm_with_pdu ctx pdu) = mm_req_nb ctx"
  "mm_req_value (mm_with_pdu ctx pdu) = mm_req_value ctx" "mm_pdu_offset (mm_with_pdu ctx pdu) = mm_pdu_offset ctx"
  by (simp_all add: mm_with_pdu_def Let_def)

lemma mm_remember_fields [simp]:
  "mm_req_func (mm_remember ctx f s a n) = f" "mm_req_slave (mm_remember ctx f s a n) = s"
  "mm_req_reg_addr (mm_remember ctx f s a n) = a" "mm_req_nb (mm_remember ctx f s a n) = n"
  "mm_req_value (mm_remember ctx f s a n) = mm_req_value ctx" "mm_pdu_offset (mm_remember ctx f s a n) = mm_pdu_offset ctx"
  "mm_tx_buf (mm_remember ctx f s a n) = mm_tx_buf ctx"
  by (simp_all add: mm_remember_def)

lemma fill_is_puts:
  "mb_master_fill_io_status_req ctx f a v
    = foldo mm_put (ctx\<lparr>mm_tx_ndx := ucast (mm_pdu_offset ctx)\<rparr>) [f, hi_byte a, lo_byte a, hi_byte v, lo_byte v]"
  by (simp add: mb_master_fill_io_status_req_def Let_def)

lemma fill_spec:
  "unat (mm_pdu_offset ctx) + 5 \<le> length (mm_tx_buf ctx) \<Longrightarrow>
    mb_master_fill_io_status_req ctx f a v = Some (mm_with_pdu ctx [f, hi_byte a, lo_byte a, hi_byte v, lo_byte v])"
  unfolding fill_is_puts by (rule mm_puts_pdu) simp_all

definition reg_bytes :: "u16 list \<Rightarrow> u8 list" where
  "reg_bytes vals = concat (map (\<lambda>v. [hi_byte v, lo_byte v]) vals)"

lemma length_reg_bytes [simp]: "length (reg_bytes vals) = 2 * length vals"
  by (induction vals) (simp_all add: reg_bytes_def)

lemma put_regs_is_puts:
  assumes "unat nb \<le> length vals"
  shows "mm_put_regs ctx nb vals = foldo mm_put ctx (reg_bytes (take (unat nb) vals))"
proof -
  have "foldo (\<lambda>ctx i. do { v \<leftarrow> mem_load vals i; mm_put_reg ctx v }) ctx [k..<k + n]
      = foldo mm_put ctx (reg_bytes (take n (drop k vals)))" if "k + n \<le> length vals" for k n ctx
    using that
  proof (induction n arbitrary: k ctx)
    case (Suc n)
    have d: "take (Suc n) (drop k vals) = vals ! k # take n (drop (Suc k) vals)"
      using Suc.prems by (simp add: Cons_nth_drop_Suc [symmetric])
    have u: "[k..<k + Suc n] = k # [Suc k..<Suc k + n]" by (simp add: upt_rec)
    show ?case
      unfolding d u using Suc.prems Suc.IH [of "Suc k"]
      by (simp add: reg_bytes_def mm_put_reg_def bind_assoc del: bind_option_Some_iff)
  qed (simp add: reg_bytes_def)
  from this [of 0 "unat nb"] show ?thesis using assms by (simp add: mm_put_regs_def)
qed

section \<open>Packing coils\<close>

definition coil_acc :: "u8 list \<Rightarrow> nat \<Rightarrow> u8 \<times> nat \<Rightarrow> nat \<Rightarrow> u8 \<times> nat" where
  "coil_acc vals nb s k = (let (x, pos) = s in
     if pos < nb then (if vals ! pos \<noteq> 0 then x OR push_bit k 1 else x, pos + 1) else (x, pos))"

lemma coil_acc_bits:
  assumes "pos \<le> nb" "n \<le> 8"
  shows "snd (foldl (coil_acc vals nb) (0, pos) [0..<n]) = min nb (pos + n)
    \<and> (\<forall>j. bit (fst (foldl (coil_acc vals nb) (0, pos) [0..<n])) j \<longleftrightarrow> j < n \<and> pos + j < nb \<and> vals ! (pos + j) \<noteq> 0)"
  using assms(2)
proof (induction n)
  case 0
  then show ?case using assms(1) by simp
next
  case (Suc n)
  let ?r = "foldl (coil_acc vals nb) (0, pos) [0..<n]"
  have r: "snd ?r = min nb (pos + n)" "bit (fst ?r) j \<longleftrightarrow> j < n \<and> pos + j < nb \<and> vals ! (pos + j) \<noteq> 0" for j
    using Suc by auto
  have one: "bit (push_bit n (1 :: u8)) j \<longleftrightarrow> j = n" for j
    using Suc.prems by (auto simp: bit_simps)
  obtain x p where xp: "?r = (x, p)" by (cases ?r)
  have p: "p = min nb (pos + n)" and x: "bit x j \<longleftrightarrow> j < n \<and> pos + j < nb \<and> vals ! (pos + j) \<noteq> 0" for j
    using r(1) r(2) [of j] unfolding xp by simp_all
  have step: "foldl (coil_acc vals nb) (0, pos) [0..<Suc n] = coil_acc vals nb (x, p) n" by (simp add: xp)
  show ?case
  proof (cases "pos + n < nb")
    case True
    then have "coil_acc vals nb (x, p) n = (if vals ! (pos + n) \<noteq> 0 then x OR push_bit n 1 else x, Suc (pos + n))"
      by (simp add: coil_acc_def p)
    then show ?thesis
      unfolding step using True x one by (auto simp: bit_or_iff less_Suc_eq simp del: push_bit_of_1)
  next
    case False
    then have "coil_acc vals nb (x, p) n = (x, nb)" using assms(1) by (simp add: coil_acc_def p)
    then show ?thesis unfolding step using False x by (auto simp: less_Suc_eq)
  qed
qed

lemma mm_coil_bit_step:
  assumes "unat (mm_tx_ndx ctx) < length (mm_tx_buf ctx)" "unat nb \<le> length vals"
  shows "mm_coil_bit vals nb (ctx, pos) k =
    (let (x, pos') = coil_acc vals (unat nb) (mm_tx_buf ctx ! unat (mm_tx_ndx ctx), pos) k
     in Some (ctx\<lparr>mm_tx_buf := (mm_tx_buf ctx)[unat (mm_tx_ndx ctx) := x]\<rparr>, pos'))"
  using assms by (simp add: mm_coil_bit_def coil_acc_def del: bind_option_Some_iff)

lemma mm_coil_bits:
  assumes "unat (mm_tx_ndx ctx) < length (mm_tx_buf ctx)" "unat nb \<le> length vals"
  shows "foldo (mm_coil_bit vals nb) (ctx, pos) ks
    = (let (x, pos') = foldl (coil_acc vals (unat nb)) (mm_tx_buf ctx ! unat (mm_tx_ndx ctx), pos) ks
       in Some (ctx\<lparr>mm_tx_buf := (mm_tx_buf ctx)[unat (mm_tx_ndx ctx) := x]\<rparr>, pos'))"
  using assms(1)
proof (induction ks arbitrary: ctx pos)
  case Nil
  then show ?case by simp
next
  case (Cons k ks)
  show ?case
    using Cons.prems assms(2) by (simp add: mm_coil_bit_step Cons.IH split_beta del: bind_option_Some_iff)
qed

definition coil_byte :: "u8 list \<Rightarrow> nat \<Rightarrow> nat \<Rightarrow> u8" where
  "coil_byte vals nb pos = fst (foldl (coil_acc vals nb) (0, pos) [0..<8])"

lemma bit_coil_byte:
  "pos \<le> nb \<Longrightarrow> bit (coil_byte vals nb pos) j \<longleftrightarrow> j < 8 \<and> pos + j < nb \<and> vals ! (pos + j) \<noteq> 0"
  using coil_acc_bits [of pos nb 8 vals] by (simp add: coil_byte_def)

lemma mm_coil_byte_is_put:
  assumes "unat (mm_tx_ndx ctx) < length (mm_tx_buf ctx)" "unat nb \<le> length vals" "pos \<le> unat nb"
  shows "mm_coil_byte vals nb (ctx, pos) i = do {
      ctx \<leftarrow> mm_put ctx (coil_byte vals (unat nb) pos); Some (ctx, min (unat nb) (pos + 8)) }"
  using assms mm_coil_bits [of "ctx\<lparr>mm_tx_buf := (mm_tx_buf ctx)[unat (mm_tx_ndx ctx) := 0]\<rparr>" nb vals pos "[0..<8]"]
    coil_acc_bits [OF assms(3), of 8 vals]
  by (simp add: mm_coil_byte_def mm_put_def coil_byte_def split_beta del: bind_option_Some_iff upt.simps)

definition coil_bytes :: "u8 list \<Rightarrow> nat \<Rightarrow> nat \<Rightarrow> u8 list" where
  "coil_bytes vals nb n = map (\<lambda>i. coil_byte vals nb (min nb (8 * i))) [0..<n]"

lemma bind_Some_map: "x \<bind> (\<lambda>c. Some (f c)) = map_option f x"
  by (cases x) simp_all

lemma mm_coil_bytes:
  assumes "unat (mm_tx_ndx ctx) + n \<le> length (mm_tx_buf ctx)" "unat (mm_tx_ndx ctx) + n < 65536" "unat nb \<le> length vals"
  shows "foldo (mm_coil_byte vals nb) (ctx, 0) [0..<n] = map_option (\<lambda>ctx. (ctx, min (unat nb) (8 * n)))
    (foldo mm_put ctx (coil_bytes vals (unat nb) n))"
  using assms(1,2)
proof (induction n)
  case (Suc n)
  let ?bs = "coil_bytes vals (unat nb) n"
  let ?c = "ctx\<lparr>mm_tx_buf := take (unat (mm_tx_ndx ctx)) (mm_tx_buf ctx) @ ?bs
      @ drop (unat (mm_tx_ndx ctx) + length ?bs) (mm_tx_buf ctx), mm_tx_ndx := mm_tx_ndx ctx + of_nat (length ?bs)\<rparr>"
  have len: "length ?bs = n" by (simp add: coil_bytes_def)
  have puts: "foldo mm_put ctx ?bs = Some ?c" by (rule mm_puts) (use Suc.prems len in simp_all)
  have ndx: "unat (mm_tx_ndx ctx + of_nat n) = unat (mm_tx_ndx ctx) + n"
  proof -
    have "take_bit 16 n = n" by (rule take_bit_nat_eq_self) (use Suc.prems(2) in simp)
    then show ?thesis using Suc.prems(2) by (simp add: unat_word_ariths unsigned_of_nat)
  qed
  have "mm_coil_byte vals nb (?c, min (unat nb) (8 * n)) n = do {
      ctx \<leftarrow> mm_put ?c (coil_byte vals (unat nb) (min (unat nb) (8 * n)));
      Some (ctx, min (unat nb) (min (unat nb) (8 * n) + 8)) }"
    by (rule mm_coil_byte_is_put) (use Suc.prems len ndx assms(3) in simp_all)
  moreover have "min (unat nb) (min (unat nb) (8 * n) + 8) = min (unat nb) (8 * Suc n)" by simp
  moreover have "coil_bytes vals (unat nb) (Suc n) = ?bs @ [coil_byte vals (unat nb) (min (unat nb) (8 * n))]"
    by (simp add: coil_bytes_def)
  ultimately show ?case
    using Suc puts by (simp add: foldo_append bind_Some_map option.map_ident del: bind_option_Some_iff)
qed (simp add: coil_bytes_def)

section \<open>The requests as PDUs\<close>

lemma append_puts:
  assumes "unat (mm_pdu_offset ctx) + length pdu + length vs \<le> length (mm_tx_buf ctx)" "length pdu + length vs < 65000"
  shows "foldo mm_put (mm_with_pdu ctx pdu) vs = Some (mm_with_pdu ctx (pdu @ vs))"
proof -
  have "foldo mm_put (ctx\<lparr>mm_tx_ndx := ucast (mm_pdu_offset ctx)\<rparr>) (pdu @ vs) = Some (mm_with_pdu ctx (pdu @ vs))"
    by (rule mm_puts_pdu) (use assms in simp_all)
  then show ?thesis using mm_puts_pdu [of ctx pdu] assms by (simp add: foldo_append)
qed

lemma ndx_with_pdu:
  assumes "length pdu < 65000"
  shows "unat (mm_tx_ndx (mm_with_pdu ctx pdu)) = unat (mm_pdu_offset ctx) + length pdu"
proof -
  have "unat (mm_pdu_offset ctx) + length pdu < 65536"
    using unat_u8_less [of "mm_pdu_offset ctx"] assms by linarith
  then show ?thesis by (simp add: mm_with_pdu_def Let_def unat_of_small del: of_nat_add)
qed

lemma length_tx_with_pdu:
  "unat (mm_pdu_offset ctx) + length pdu \<le> length (mm_tx_buf ctx) \<Longrightarrow>
    length (mm_tx_buf (mm_with_pdu ctx pdu)) = length (mm_tx_buf ctx)"
  by (simp add: mm_with_pdu_def Let_def)

lemma read_input_request:
  assumes "unat (mm_pdu_offset ctx) + 5 \<le> length (mm_tx_buf ctx)"
  shows "mb_master_read_input_registers request ctx slave a nb
    = request (mm_with_pdu (mm_remember ctx MB_FUNC_READ_INPUT_REGISTER slave a nb)
        [MB_FUNC_READ_INPUT_REGISTER, hi_byte a, lo_byte a, hi_byte nb, lo_byte nb]) slave"
  using assms by (simp add: mb_master_read_input_registers_def fill_spec)

lemma write_registers_request:
  assumes "unat (mm_pdu_offset ctx) + 6 + 2 * unat nb \<le> length (mm_tx_buf ctx)" "unat nb \<le> length vals" "nb \<le> 120"
  shows "mb_master_write_multiple_registers request ctx slave a nb vals
    = request (mm_with_pdu (mm_remember ctx MB_FUNC_WRITE_MULTIPLE_REGISTERS slave a nb)
        ([MB_FUNC_WRITE_MULTIPLE_REGISTERS, hi_byte a, lo_byte a, hi_byte nb, lo_byte nb, ucast (nb * 2)]
         @ reg_bytes (take (unat nb) vals))) slave"
proof -
  let ?c = "mm_remember ctx MB_FUNC_WRITE_MULTIPLE_REGISTERS slave a nb"
  let ?h = "[MB_FUNC_WRITE_MULTIPLE_REGISTERS, hi_byte a, lo_byte a, hi_byte nb, lo_byte nb]"
  have nb: "unat nb \<le> 120" using assms(3) by (simp add: word_le_nat_alt)
  have "mb_master_fill_io_status_req ?c MB_FUNC_WRITE_MULTIPLE_REGISTERS a nb = Some (mm_with_pdu ?c ?h)"
    by (rule fill_spec) (use assms(1) in simp)
  moreover have "mm_put (mm_with_pdu ?c ?h) v = foldo mm_put (mm_with_pdu ?c ?h) [v]" for v by simp
  moreover have "foldo mm_put (mm_with_pdu ?c ?h) [ucast (nb * 2)] = Some (mm_with_pdu ?c (?h @ [ucast (nb * 2)]))"
    by (rule append_puts) (use assms(1) in simp_all)
  moreover have "mm_put_regs (mm_with_pdu ?c (?h @ [ucast (nb * 2)])) nb vals
      = Some (mm_with_pdu ?c ((?h @ [ucast (nb * 2)]) @ reg_bytes (take (unat nb) vals)))"
    unfolding put_regs_is_puts [OF assms(2)] by (rule append_puts) (use assms nb in simp_all)
  ultimately show ?thesis by (simp only: mb_master_write_multiple_registers_def Let_def Option.bind.simps) simp
qed

lemma write_coils_request:
  assumes "unat (mm_pdu_offset ctx) + 6 + bits_len nb \<le> length (mm_tx_buf ctx)" "unat nb \<le> length vals" "nb \<le> 2000"
  shows "mb_master_write_multiple_coils request ctx slave a nb vals
    = request (mm_with_pdu (mm_remember ctx MB_FUNC_WRITE_MULTIPLE_COILS slave a nb)
        ([MB_FUNC_WRITE_MULTIPLE_COILS, hi_byte a, lo_byte a, hi_byte nb, lo_byte nb, of_nat (bits_len nb)]
         @ coil_bytes vals (unat nb) (bits_len nb))) slave"
proof -
  let ?c = "mm_remember ctx MB_FUNC_WRITE_MULTIPLE_COILS slave a nb"
  let ?h = "[MB_FUNC_WRITE_MULTIPLE_COILS, hi_byte a, lo_byte a, hi_byte nb, lo_byte nb]"
  let ?bc = "ucast (nb div 8 + (if nb mod 8 \<noteq> 0 then 1 else 0)) :: u8" and ?n = "bits_len nb"
  have small: "?n \<le> 250" by (rule small_bits_len [OF assms(3)])
  have bc: "unat ?bc = ?n"
  proof -
    have nb: "unat nb \<le> 2000" using assms(3) by (simp add: word_le_nat_alt)
    have "nb mod 8 \<noteq> 0 \<longleftrightarrow> unat nb mod 8 \<noteq> 0" by (simp add: word_unat_eq_iff unat_mod)
    moreover have "unat (nb div 8) = unat nb div 8" by (simp add: unat_div)
    ultimately have "unat (nb div 8 + (if nb mod 8 \<noteq> 0 then 1 else 0)) = ?n"
      using nb ceil_div8 [of "unat nb"] by (simp add: bits_len_def unat_word_ariths)
    then show ?thesis using small by (simp add: unsigned_ucast_eq take_bit_eq_mod)
  qed
  moreover have "of_nat (unat ?bc) = ?bc" by (simp del: of_nat_add)
  ultimately have bc': "?bc = of_nat ?n" by simp
  have h: "mb_master_fill_io_status_req ?c MB_FUNC_WRITE_MULTIPLE_COILS a nb = Some (mm_with_pdu ?c ?h)"
    by (rule fill_spec) (use assms(1) in simp)
  have p: "mm_put (mm_with_pdu ?c ?h) ?bc = Some (mm_with_pdu ?c (?h @ [of_nat ?n]))"
  proof -
    have "foldo mm_put (mm_with_pdu ?c ?h) [?bc] = Some (mm_with_pdu ?c (?h @ [?bc]))"
      by (rule append_puts) (use assms(1) in simp_all)
    then show ?thesis unfolding bc' by simp
  qed
  let ?d = "mm_with_pdu ?c (?h @ [of_nat ?n])"
  have ndx: "unat (mm_tx_ndx ?d) = unat (mm_pdu_offset ctx) + 6" "length (mm_tx_buf ?d) = length (mm_tx_buf ctx)"
    using ndx_with_pdu [of "?h @ [of_nat ?n]" ?c] length_tx_with_pdu [of ?c "?h @ [of_nat ?n]"] assms(1) by simp_all
  have "foldo (mm_coil_byte vals nb) (?d, 0) [0..<?n] = map_option (\<lambda>ctx. (ctx, min (unat nb) (8 * ?n)))
      (foldo mm_put ?d (coil_bytes vals (unat nb) ?n))"
    by (rule mm_coil_bytes) (use ndx assms unat_u8_less [of "mm_pdu_offset ctx"] small in linarith)+
  moreover have "foldo mm_put ?d (coil_bytes vals (unat nb) ?n)
      = Some (mm_with_pdu ?c ((?h @ [of_nat ?n]) @ coil_bytes vals (unat nb) ?n))"
    by (rule append_puts) (use assms(1) small in \<open>simp_all add: coil_bytes_def\<close>)
  ultimately show ?thesis
    using h p bc by (simp only: mb_master_write_multiple_coils_def Let_def Option.bind.simps) simp
qed

section \<open>Replies\<close>

text \<open>Replies whose function code is not the request's are dropped before anything else is read.\<close>

lemma validate_other_function:
  "pdu \<noteq> [] \<Longrightarrow> mm_req_func ctx \<noteq> pdu ! 0 \<Longrightarrow> modbus_rtu_validate_response ctx slave pdu n = Some False"
  by (simp add: modbus_rtu_validate_response_def)

lemma validate_defined:
  assumes "5 \<le> length pdu"
  shows "\<exists>ok. modbus_rtu_validate_response ctx slave pdu n = Some ok"
proof -
  have "rd16 pdu 1 = Some (be16 (pdu ! 1) (pdu ! 2))" "rd16 pdu 3 = Some (be16 (pdu ! 3) (pdu ! 4))"
      "mem_load pdu 0 = Some (pdu ! 0)" "mem_load pdu 1 = Some (pdu ! 1)"
    using assms rd16_in [of 1 pdu] rd16_in [of 3 pdu] by (auto simp: mem_load_def numeral_2_eq_2)
  then have "modbus_rtu_validate_response ctx slave pdu n \<noteq> None"
    by (simp add: modbus_rtu_validate_response_def Let_def del: bind_option_Some_iff not_None_eq)
  then show ?thesis by blast
qed

text \<open>The slave's side of the two exchanges below.\<close>

lemma serve_input_registers:
  assumes "pdu = [MB_FUNC_READ_INPUT_REGISTER, ah, al, ch, cl] @ rest" "be16 ch cl = cnt" "1 \<le> cnt" "cnt < 125"
    and "input_regs_cb dev slave (drop 2 pdu) (be16 ah al) cnt u = Some (out @ drop (2 * unat cnt) (drop 2 pdu), u', MB_ENOERR)"
    and "length out = 2 * unat cnt" "2 + 2 * unat cnt \<le> length pdu"
  shows "modbus_rtu_handler_request_rx dev slave 5 pdu u
    = Some ([MB_FUNC_READ_INPUT_REGISTER, ucast (cnt * 2)] @ out @ drop (2 + length out) pdu, 2 + cnt * 2, u', True)"
proof -
  have rd: "rd16 pdu 1 = Some (be16 ah al)" "rd16 pdu 3 = Some cnt" "mem_load pdu 0 = Some MB_FUNC_READ_INPUT_REGISTER"
    using assms(1,2) by (simp_all add: rd16_def numeral_2_eq_2 numeral_3_eq_3)
  have "modbus_func_handler_read_input_register dev slave pdu 5 u
      = Some ([MB_FUNC_READ_INPUT_REGISTER, ucast (cnt * 2)] @ out @ drop (2 + length out) pdu, 2 + cnt * 2, u', MB_EX_NONE)"
    using assms(3,4,6) rd
      read_reply_eq [where call = "\<lambda>b. input_regs_cb dev slave b (be16 ah al) cnt u", OF assms(5,7)]
    by (simp add: modbus_func_handler_read_input_register_def)
  then show ?thesis
    using rd by (simp add: modbus_rtu_handler_request_rx_def modbus_func_dispatch_def)
qed

lemma serve_write_registers:
  assumes "pdu = [MB_FUNC_WRITE_MULTIPLE_REGISTERS, ah, al, ch, cl, ucast (cnt * 2)] @ vals" "be16 ch cl = cnt"
    "1 \<le> cnt" "cnt \<le> 120" "6 \<le> len"
    and "holding_regs_cb dev slave vals (be16 ah al) cnt MB_REG_WRITE u = Some (vals, u', MB_ENOERR)"
  shows "modbus_rtu_handler_request_rx dev slave len pdu u = Some (pdu, 5, u', True)"
proof -
  have rd: "rd16 pdu 1 = Some (be16 ah al)" "rd16 pdu 3 = Some cnt" "mem_load pdu 5 = Some (ucast (cnt * 2))"
      "mem_load pdu 0 = Some MB_FUNC_WRITE_MULTIPLE_REGISTERS"
    using assms(1,2) by (simp_all add: rd16_def numeral_2_eq_2 numeral_3_eq_3 eval_nat_numeral)
  have at: "at_offset pdu 6 (\<lambda>b. holding_regs_cb dev slave b (be16 ah al) cnt MB_REG_WRITE u) = Some (pdu, u', MB_ENOERR)"
    by (rule at_offset_same) (use assms(1,6) in simp_all)
  have "modbus_func_handler_write_multiple_holding_registers dev slave pdu len u = Some (pdu, 5, u', MB_EX_NONE)"
    using rd at assms(3,4,5) by (simp add: modbus_func_handler_write_multiple_holding_registers_def mult.commute [of 2])
  then show ?thesis
    using rd by (simp add: modbus_rtu_handler_request_rx_def modbus_func_dispatch_def mb_func_defs)
qed

text \<open>The master's side: a reply that carries what was asked for is accepted.\<close>

lemma accept_input_registers:
  assumes "mm_req_func ctx = MB_FUNC_READ_INPUT_REGISTER" "mm_req_nb ctx = nb" "nb < 125" "length out = 2 * unat nb"
  shows "modbus_rtu_handler_response_rx cb ctx slave ([MB_FUNC_READ_INPUT_REGISTER, ucast (nb * 2)] @ out @ rest)
      (int (2 + length out)) w = cb (Ev_input_regs slave (mm_req_reg_addr ctx) nb (out @ rest)) w"
proof -
  have nb: "unat nb < 125" using assms(3) by (simp add: word_less_nat_alt)
  then have "unat (nb * 2) = 2 * unat nb" by (simp add: unat_word_ariths)
  then have bc: "unat (ucast (nb * 2) :: u8) = 2 * unat nb"
    using nb by (simp add: unsigned_ucast_eq take_bit_eq_mod)
  then have half: "(ucast (ucast (nb * 2) :: u8) :: u16) div 2 = nb" by (simp add: word_unat_eq_iff unat_div)
  have len: "int (2 + length out) = 2 + uint (ucast (nb * 2) :: u8)"
    unfolding uint_is_unat by (simp only: bc assms(4) of_nat_add of_nat_numeral)
  show ?thesis
    unfolding len using assms(1,2) half
    by (simp add: modbus_rtu_handler_response_rx_def modbus_rtu_validate_response_def mb_func_defs)
qed

section \<open>Properties\<close>

text \<open>
  Reading input registers end to end: the PDU the master builds, executed by the slave's handler on
  a device that serves the registers, is answered by a PDU that the master accepts, and the
  master's callback gets the slave, the address and the count it asked for with exactly the bytes
  the device gave.
\<close>

theorem read_input_registers_round_trip:
  assumes "unat (mm_pdu_offset ctx) + 5 \<le> length (mm_tx_buf ctx)" "1 \<le> nb" "nb < 125" "2 * unat nb \<le> length rest + 3"
    and "\<And>buf. 2 * unat nb \<le> length buf \<Longrightarrow>
      input_regs_cb dev slave buf a nb u = Some (out @ drop (2 * unat nb) buf, u', MB_ENOERR)"
    and "length out = 2 * unat nb"
  shows "\<exists>ctx' reply l. mb_master_read_input_registers (\<lambda>ctx slave. Some ctx) ctx slave a nb = Some ctx'
    \<and> modbus_rtu_handler_request_rx dev slave (of_nat (length (mm_pdu ctx'))) (mm_pdu ctx' @ rest) u = Some (reply, l, u', True)
    \<and> modbus_rtu_handler_response_rx cb ctx' slave reply (uint l) w
        = cb (Ev_input_regs slave a nb (out @ drop (2 + length out) (mm_pdu ctx' @ rest))) w"
proof -
  let ?pdu = "[MB_FUNC_READ_INPUT_REGISTER, hi_byte a, lo_byte a, hi_byte nb, lo_byte nb]"
  let ?ctx' = "mm_with_pdu (mm_remember ctx MB_FUNC_READ_INPUT_REGISTER slave a nb) ?pdu"
  let ?reply = "[MB_FUNC_READ_INPUT_REGISTER, ucast (nb * 2)] @ out @ drop (2 + length out) (?pdu @ rest)"
  have nb: "unat nb < 125" using assms(3) by (simp add: word_less_nat_alt)
  have pdu: "mm_pdu ?ctx' = ?pdu" by (rule mm_pdu_with_pdu) (use assms(1) in simp_all)
  have req: "mb_master_read_input_registers (\<lambda>ctx slave. Some ctx) ctx slave a nb = Some ?ctx'"
    by (simp only: read_input_request [OF assms(1)])
  have call: "input_regs_cb dev slave (drop 2 (?pdu @ rest)) (be16 (hi_byte a) (lo_byte a)) nb u
      = Some (out @ drop (2 * unat nb) (drop 2 (?pdu @ rest)), u', MB_ENOERR)"
    using assms(5) [of "drop 2 (?pdu @ rest)"] assms(4) by simp
  have served: "modbus_rtu_handler_request_rx dev slave 5 (?pdu @ rest) u = Some (?reply, 2 + nb * 2, u', True)"
    by (rule serve_input_registers [OF refl be16_bytes assms(2,3) call assms(6)]) (use assms(4) in simp)
  have "unat (2 + nb * 2) = 2 + length out" using nb assms(6) by (simp add: unat_word_ariths)
  then have "uint (2 + nb * 2) = int (2 + length out)" by (simp only: uint_is_unat)
  then have "modbus_rtu_handler_response_rx cb ?ctx' slave ?reply (uint (2 + nb * 2)) w
      = cb (Ev_input_regs slave a nb (out @ drop (2 + length out) (?pdu @ rest))) w"
    using accept_input_registers [of ?ctx' nb out cb slave "drop (2 + length out) (?pdu @ rest)" w] assms(3,6) by simp
  then show ?thesis
    using req served
    by (intro exI [of _ ?ctx'] exI [of _ ?reply] exI [of _ "2 + nb * 2"] conjI) (simp_all only: pdu, simp)
qed

text \<open>
  Writing registers end to end: the values reach the slave's device as the high and low byte of
  each, in order, at the requested address; when the device accepts them the master's callback is
  told that its write of that many registers there is done.
\<close>

theorem write_registers_round_trip:
  assumes "unat (mm_pdu_offset ctx) + 6 + 2 * unat nb \<le> length (mm_tx_buf ctx)" "unat nb \<le> length vals" "1 \<le> nb" "nb \<le> 120"
    and "holding_regs_cb dev slave (reg_bytes (take (unat nb) vals) @ rest) a nb MB_REG_WRITE u
      = Some (reg_bytes (take (unat nb) vals) @ rest, u', MB_ENOERR)"
  shows "\<exists>ctx' reply l. mb_master_write_multiple_registers (\<lambda>ctx slave. Some ctx) ctx slave a nb vals = Some ctx'
    \<and> modbus_rtu_handler_request_rx dev slave (of_nat (length (mm_pdu ctx'))) (mm_pdu ctx' @ rest) u = Some (reply, l, u', True)
    \<and> modbus_rtu_handler_response_rx cb ctx' slave reply (uint l) w = cb (Ev_holding_regs slave a nb None MB_REG_WRITE) w"
proof -
  let ?vals = "reg_bytes (take (unat nb) vals)"
  let ?pdu = "[MB_FUNC_WRITE_MULTIPLE_REGISTERS, hi_byte a, lo_byte a, hi_byte nb, lo_byte nb, ucast (nb * 2)] @ ?vals"
  let ?ctx' = "mm_with_pdu (mm_remember ctx MB_FUNC_WRITE_MULTIPLE_REGISTERS slave a nb) ?pdu"
  have nb: "unat nb \<le> 120" using assms(4) by (simp add: word_le_nat_alt)
  have lv: "length ?vals = 2 * unat nb" using assms(2) by simp
  have pdu: "mm_pdu ?ctx' = ?pdu" by (rule mm_pdu_with_pdu) (use assms(1) lv nb in simp_all)
  have req: "mb_master_write_multiple_registers (\<lambda>ctx slave. Some ctx) ctx slave a nb vals = Some ?ctx'"
    by (simp only: write_registers_request [OF assms(1,2,4)])
  have len: "6 \<le> (of_nat (length ?pdu) :: u16)"
  proof -
    have "unat (of_nat (length ?pdu) :: u16) = length ?pdu" by (rule unat_of_small) (use lv nb in simp)
    then show ?thesis by (simp add: word_le_nat_alt)
  qed
  have served: "modbus_rtu_handler_request_rx dev slave (of_nat (length ?pdu)) (?pdu @ rest) u = Some (?pdu @ rest, 5, u', True)"
  proof (rule serve_write_registers [OF _ be16_bytes assms(3,4) len])
    show "?pdu @ rest = [MB_FUNC_WRITE_MULTIPLE_REGISTERS, hi_byte a, lo_byte a, hi_byte nb, lo_byte nb, ucast (nb * 2)]
        @ (?vals @ rest)" by simp
    show "holding_regs_cb dev slave (?vals @ rest) (be16 (hi_byte a) (lo_byte a)) nb MB_REG_WRITE u
        = Some (?vals @ rest, u', MB_ENOERR)"
      using assms(5) by simp
  qed
  have rd: "mem_load (?pdu @ rest) 0 = Some MB_FUNC_WRITE_MULTIPLE_REGISTERS" "rd16 (?pdu @ rest) 1 = Some a"
      "rd16 (?pdu @ rest) 3 = Some nb"
    using be16_bytes [of a] be16_bytes [of nb] by (simp_all add: rd16_def eval_nat_numeral)
  have "modbus_rtu_validate_response ?ctx' slave (?pdu @ rest) 5 = Some True"
    unfolding modbus_rtu_validate_response_def rd Option.bind.simps by (simp add: mb_func_defs rd)
  then have "modbus_rtu_handler_response_rx cb ?ctx' slave (?pdu @ rest) 5 w = cb (Ev_holding_regs slave a nb None MB_REG_WRITE) w"
    by (simp add: modbus_rtu_handler_response_rx_def mb_func_defs)
  then show ?thesis
    using req served by (intro exI [of _ ?ctx'] exI [of _ "?pdu @ rest"] exI [of _ 5] conjI) (simp_all only: pdu, simp)
qed

text \<open>
  Writing coils: the request carries the count and, packed eight to a byte from the lowest bit on,
  exactly the wanted states; the spare bits of the last byte are zero.
\<close>

theorem write_coils_packs_bits:
  assumes "unat (mm_pdu_offset ctx) + 6 + bits_len nb \<le> length (mm_tx_buf ctx)" "unat nb \<le> length vals" "nb \<le> 2000"
  shows "\<exists>ctx' bytes. mb_master_write_multiple_coils (\<lambda>ctx slave. Some ctx) ctx slave a nb vals = Some ctx'
    \<and> mm_pdu ctx' = [MB_FUNC_WRITE_MULTIPLE_COILS, hi_byte a, lo_byte a, hi_byte nb, lo_byte nb, of_nat (length bytes)] @ bytes
    \<and> length bytes = bits_len nb
    \<and> (\<forall>i < 8 * length bytes. bit (bytes ! (i div 8)) (i mod 8) \<longleftrightarrow> i < unat nb \<and> vals ! i \<noteq> 0)"
proof -
  let ?n = "bits_len nb" and ?bytes = "coil_bytes vals (unat nb) (bits_len nb)"
  let ?pdu = "[MB_FUNC_WRITE_MULTIPLE_COILS, hi_byte a, lo_byte a, hi_byte nb, lo_byte nb, of_nat ?n] @ ?bytes"
  let ?ctx' = "mm_with_pdu (mm_remember ctx MB_FUNC_WRITE_MULTIPLE_COILS slave a nb) ?pdu"
  have len: "length ?bytes = ?n" by (simp add: coil_bytes_def)
  have "mm_pdu ?ctx' = ?pdu"
    by (rule mm_pdu_with_pdu) (use assms(1) len small_bits_len [OF assms(3)] in simp_all)
  moreover have "bit (?bytes ! (i div 8)) (i mod 8) \<longleftrightarrow> i < unat nb \<and> vals ! i \<noteq> 0" if i: "i < 8 * ?n" for i
  proof -
    have "i div 8 < ?n" using i by (simp add: less_mult_imp_div_less mult.commute)
    moreover have "8 * (i div 8) \<le> unat nb" using calculation by (simp add: bits_len_def)
    ultimately show ?thesis
      using bit_coil_byte [of "8 * (i div 8)" "unat nb" vals "i mod 8"] by (simp add: coil_bytes_def min_absorb2)
  qed
  ultimately show ?thesis
    using write_coils_request [OF assms, of "\<lambda>ctx slave. Some ctx"] len
    by (intro exI [of _ ?ctx'] exI [of _ ?bytes]) simp
qed

text \<open>
  A slave's exception never reaches the application: whatever was requested, a reply with the
  error bit set in its function code is dropped without a callback, as is every reply to another
  function.
\<close>

theorem master_drops_exceptions:
  assumes "pdu \<noteq> []" "mm_req_func ctx < MB_FUNC_ERROR" "MB_FUNC_ERROR \<le> pdu ! 0 \<or> pdu ! 0 \<noteq> mm_req_func ctx"
  shows "modbus_rtu_handler_response_rx cb ctx slave pdu n w = Some w"
proof -
  have "mm_req_func ctx \<noteq> pdu ! 0" using assms(2,3) by auto
  then show ?thesis
    using validate_other_function [OF assms(1)] by (simp add: modbus_rtu_handler_response_rx_def)
qed

lemma master_drops_exceptions_witness:
  "modbus_rtu_handler_response_rx (\<lambda>ev w. Some (ev # w))
     \<lparr>mm_tx_buf = [], mm_tx_ndx = 0, mm_pdu_offset = 1, mm_req_func = MB_FUNC_READ_COILS, mm_req_slave = 1,
       mm_req_reg_addr = 0, mm_req_nb = 8, mm_req_value = 0\<rparr> 1 [0x81, 2] 2 [] = Some []"
  by (rule master_drops_exceptions) (simp_all add: mb_func_defs MB_FUNC_ERROR_def)

text \<open>A master with a 512-byte buffer, and a device that answers every read with its request area.\<close>

definition fresh_master :: "mb_master_ctx" where
  "fresh_master = \<lparr>mm_tx_buf = replicate MODBUS_MASTER_MAX_BUFFER_SIZE 0, mm_tx_ndx = 0, mm_pdu_offset = 7,
     mm_req_func = 0, mm_req_slave = 0, mm_req_reg_addr = 0, mm_req_nb = 0, mm_req_value = 0\<rparr>"

definition const_device :: "unit mb_callbacks" where
  "const_device = demo_callbacks\<lparr>input_regs_cb := \<lambda>addr buf a n u.
     Some (replicate (2 * unat n) 7 @ drop (2 * unat n) buf, u, MB_ENOERR)\<rparr>"

lemma read_input_registers_round_trip_witness:
  "\<exists>ctx' reply l. mb_master_read_input_registers (\<lambda>ctx slave. Some ctx) fresh_master 1 16 2 = Some ctx'
    \<and> modbus_rtu_handler_request_rx const_device 1 (of_nat (length (mm_pdu ctx'))) (mm_pdu ctx' @ [0, 0]) () = Some (reply, l, (), True)
    \<and> (\<exists>tail. modbus_rtu_handler_response_rx (\<lambda>ev w. Some (ev # w)) ctx' 1 reply (uint l) []
         = Some [Ev_input_regs 1 16 2 ([7, 7, 7, 7] @ tail)])"
proof -
  have "\<exists>ctx' reply l. mb_master_read_input_registers (\<lambda>ctx slave. Some ctx) fresh_master 1 16 2 = Some ctx'
    \<and> modbus_rtu_handler_request_rx const_device 1 (of_nat (length (mm_pdu ctx'))) (mm_pdu ctx' @ [0, 0]) () = Some (reply, l, (), True)
    \<and> modbus_rtu_handler_response_rx (\<lambda>ev w. Some (ev # w)) ctx' 1 reply (uint l) []
        = Some [Ev_input_regs 1 16 2 ([7, 7, 7, 7] @ drop (2 + length [7 :: u8, 7, 7, 7]) (mm_pdu ctx' @ [0, 0]))]"
    by (rule read_input_registers_round_trip)
       (simp_all add: fresh_master_def MODBUS_MASTER_MAX_BUFFER_SIZE_def const_device_def, simp add: eval_nat_numeral)
  then show ?thesis by (elim exE conjE) (intro exI conjI)
qed

lemma write_registers_round_trip_witness:
  "\<exists>ctx' reply l. mb_master_write_multiple_registers (\<lambda>ctx slave. Some ctx) fresh_master 1 16 2 [258, 3] = Some ctx'
    \<and> modbus_rtu_handler_request_rx demo_callbacks 1 (of_nat (length (mm_pdu ctx'))) (mm_pdu ctx' @ []) () = Some (reply, l, (), True)
    \<and> modbus_rtu_handler_response_rx (\<lambda>ev w. Some (ev # w)) ctx' 1 reply (uint l) [] = Some [Ev_holding_regs 1 16 2 None MB_REG_WRITE]"
  by (rule write_registers_round_trip)
     (simp_all add: fresh_master_def MODBUS_MASTER_MAX_BUFFER_SIZE_def demo_callbacks_def demo_holding_regs_cb_def)

lemma write_coils_packs_bits_witness:
  "\<exists>ctx' (bytes :: u8 list). mb_master_write_multiple_coils (\<lambda>ctx slave. Some ctx) fresh_master 1 16 3 [1, 0, 5] = Some ctx'
    \<and> length bytes = 1 \<and> (\<forall>i < 8 * length bytes. bit (bytes ! (i div 8)) (i mod 8) \<longleftrightarrow> i < unat (3 :: u16) \<and> [1, 0, 5 :: u8] ! i \<noteq> 0)"
proof -
  have one: "bits_len 3 = 1" by (simp add: bits_len_def)
  have "unat (mm_pdu_offset fresh_master) + 6 + bits_len 3 \<le> length (mm_tx_buf fresh_master)"
      "unat (3 :: u16) \<le> length [1, 0, 5 :: u8]" "(3 :: u16) \<le> 2000"
    by (simp_all add: fresh_master_def MODBUS_MASTER_MAX_BUFFER_SIZE_def one)
  from write_coils_packs_bits [OF this, of 1 16] obtain ctx' and bytes :: "u8 list" where
      "mb_master_write_multiple_coils (\<lambda>ctx slave. Some ctx) fresh_master 1 16 3 [1, 0, 5] = Some ctx'"
      "length bytes = 1" "\<forall>i < 8 * length bytes. bit (bytes ! (i div 8)) (i mod 8)
        \<longleftrightarrow> i < unat (3 :: u16) \<and> [1, 0, 5 :: u8] ! i \<noteq> 0"
    unfolding one by (elim exE conjE) (rule that)
  then show ?thesis by (intro exI conjI)
qed

end
