(* ===== verification/Tcp_Server.thy ===== *)
theory Tcp_Server
  imports Watcher
begin

text \<open>
  \<open>src/net/tcp_server.c\<close>, \<open>tcp_server_ipv4.c\<close> and \<open>tcp_server_unix_domain.c\<close>: a listening socket
  and its watcher. What the kernel answers to \<open>socket\<close>, \<open>bind\<close>, \<open>listen\<close> and \<open>accept\<close> is an
  argument; \<open>srv_closed\<close> records the descriptors handed to \<open>close\<close>. \<open>ioctl\<close> and \<open>setsockopt\<close>, whose
  results the source ignores, do not appear.
\<close>

section \<open>State and operations\<close>

datatype tcp_server_type = tcp_server_type_ipv4 | tcp_server_type_unix_domain

datatype sock_family = AF_INET | AF_UNIX

datatype sock_addr = Ipv4_addr int | Unix_addr string

record tcp_server =
  srv_sd :: int
  srv_is_listening :: bool
  srv_addr :: sock_addr
  srv_server_type :: tcp_server_type
  srv_watcher :: watcher
  srv_closed :: "int list"

record listen_outcome =
  out_socket :: int
  out_bind :: int
  out_listen :: int

definition sys_close :: "int \<Rightarrow> tcp_server \<Rightarrow> tcp_server" where
  "sys_close fd s = s\<lparr>srv_closed := srv_closed s @ [fd]\<rparr>"

definition tcp_server_init :: "tcp_server \<Rightarrow> int \<Rightarrow> tcp_server option" where
  "tcp_server_init s sd = do {
     let s = s\<lparr>srv_sd := sd, srv_is_listening := False\<rparr>;
     w \<leftarrow> watcher_watch_rx (watcher_init_with_fd sd);
     Some (s\<lparr>srv_watcher := w\<rparr>) }"

definition tcp_server_start :: "tcp_server \<Rightarrow> tcp_server" where
  "tcp_server_start s =
     (if srv_is_listening s then s
      else s\<lparr>srv_is_listening := True, srv_watcher := watcher_start (srv_watcher s)\<rparr>)"

definition tcp_server_stop :: "tcp_server \<Rightarrow> tcp_server" where
  "tcp_server_stop s =
     (if \<not> srv_is_listening s then s
      else s\<lparr>srv_is_listening := False, srv_watcher := watcher_stop (srv_watcher s)\<rparr>)"

definition tcp_server_deinit :: "tcp_server \<Rightarrow> tcp_server" where
  "tcp_server_deinit s =
     (let s = tcp_server_stop s in
      if srv_sd s \<noteq> -1 then (sys_close (srv_sd s) s)\<lparr>srv_sd := -1\<rparr> else s)"

text \<open>Accepting: a negative result of \<open>accept\<close> is traced, any other descriptor goes to the owner.\<close>

definition tcp_server_ipv4_rx_event :: "(int \<Rightarrow> 's \<Rightarrow> 's option) \<Rightarrow> int \<Rightarrow> 's \<Rightarrow> 's option" where
  "tcp_server_ipv4_rx_event conn_cb newsd s = (if newsd < 0 then Some s else conn_cb newsd s)"

definition tcp_server_unix_domain_rx_event :: "(int \<Rightarrow> 's \<Rightarrow> 's option) \<Rightarrow> int \<Rightarrow> 's \<Rightarrow> 's option" where
  "tcp_server_unix_domain_rx_event conn_cb newsd s = (if newsd < 0 then Some s else conn_cb newsd s)"

definition tcp_server_watcher_callback :: "('s \<Rightarrow> 's option) \<Rightarrow> watcher_event \<Rightarrow> 's \<Rightarrow> 's option" where
  "tcp_server_watcher_callback rx_event evt s = rx_event s"

definition init_tcp_server_ipv4 :: "listen_outcome \<Rightarrow> tcp_server \<Rightarrow> int \<Rightarrow> (tcp_server \<times> int) option" where
  "init_tcp_server_ipv4 out s port = do {
     let s = s\<lparr>srv_server_type := tcp_server_type_ipv4, srv_addr := Ipv4_addr port, srv_sd := -1\<rparr>;
     let sd = out_socket out;
     if sd < 0 then Some (s, -1)
     else if out_bind out \<noteq> 0 then Some (sys_close sd s, -1)
     else if out_listen out \<noteq> 0 then Some (sys_close sd s, -1)
     else do {
       s \<leftarrow> tcp_server_init s sd;
       Some (s, 0) } }"

definition tcp_server_ipv4_init :: "listen_outcome \<Rightarrow> tcp_server \<Rightarrow> int \<Rightarrow> (tcp_server \<times> int) option" where
  "tcp_server_ipv4_init out s port = init_tcp_server_ipv4 out s port"

definition tcp_server_ipv4_init_with_addr :: "listen_outcome \<Rightarrow> tcp_server \<Rightarrow> int \<Rightarrow> (tcp_server \<times> int) option" where
  "tcp_server_ipv4_init_with_addr out s addr = init_tcp_server_ipv4 out s addr"

text \<open>
  The unix domain server asks the kernel for an \<open>AF_INET\<close> socket; \<open>os\<close> answers by family, so that
  its answers may depend on it.
\<close>

definition tcp_server_unix_domain_init ::
    "(sock_family \<Rightarrow> listen_outcome) \<Rightarrow> tcp_server \<Rightarrow> string \<Rightarrow> (tcp_server \<times> int) option" where
  "tcp_server_unix_domain_init os s path = do {
     let out = os AF_INET;
     let s = s\<lparr>srv_server_type := tcp_server_type_unix_domain, srv_sd := -1\<rparr>;
     let sd = out_socket out;
     if sd < 0 then Some (s, -1)
     else do {
       let s = s\<lparr>srv_addr := Unix_addr path\<rparr>;
       if out_bind out \<noteq> 0 then Some (sys_close sd s, -1)
       else if out_listen out \<noteq> 0 then Some (sys_close sd s, -1)
       else do {
         s \<leftarrow> tcp_server_init s sd;
         Some (s, -1) } } }"

section \<open>Ownership of the descriptor\<close>

lemma tcp_server_init_spec:
  "\<exists>w. tcp_server_init s sd = Some (s\<lparr>srv_sd := sd, srv_is_listening := False, srv_watcher := w\<rparr>)
    \<and> watcher_inv w \<and> sw_rx (w_switches w) \<and> \<not> sw_on (w_switches w)"
  using watcher_start_target_spec(1) [of "watcher_init_with_fd sd"] watcher_init_spec [of sd]
  by (auto simp: tcp_server_init_def)

lemma stop_keeps: "srv_sd (tcp_server_stop s) = srv_sd s" "srv_closed (tcp_server_stop s) = srv_closed s"
    "\<not> srv_is_listening (tcp_server_stop s)"
  by (simp_all add: tcp_server_stop_def)

section \<open>Properties\<close>

text \<open>
  Setting up an IPv4 server returns 0 exactly when \<open>socket\<close>, \<open>bind\<close> and \<open>listen\<close> all succeed; the
  server then owns the socket and watches it without having started. Otherwise it owns none, and a
  socket that had been opened has been closed, once.
\<close>

theorem tcp_server_ipv4_init_owns_socket:
  "\<exists>s' r. tcp_server_ipv4_init out s port = Some (s', r)
    \<and> (r = 0 \<longleftrightarrow> 0 \<le> out_socket out \<and> out_bind out = 0 \<and> out_listen out = 0)
    \<and> (r = 0 \<longrightarrow> srv_sd s' = out_socket out \<and> srv_closed s' = srv_closed s \<and> \<not> srv_is_listening s'
         \<and> sw_rx (w_switches (srv_watcher s')) \<and> \<not> sw_on (w_switches (srv_watcher s')))
    \<and> (r \<noteq> 0 \<longrightarrow> r = -1 \<and> srv_sd s' = -1
         \<and> srv_closed s' = srv_closed s @ (if 0 \<le> out_socket out then [out_socket out] else []))"
proof -
  let ?s = "s\<lparr>srv_server_type := tcp_server_type_ipv4, srv_addr := Ipv4_addr port, srv_sd := -1\<rparr>"
  obtain w where "tcp_server_init ?s (out_socket out)
      = Some (?s\<lparr>srv_sd := out_socket out, srv_is_listening := False, srv_watcher := w\<rparr>)"
      "sw_rx (w_switches w)" "\<not> sw_on (w_switches w)"
    using tcp_server_init_spec [of ?s "out_socket out"] by blast
  then show ?thesis
    by (auto simp: tcp_server_ipv4_init_def init_tcp_server_ipv4_def Let_def sys_close_def)
qed

lemma tcp_server_ipv4_init_owns_socket_witness:
  "\<exists>s' r. tcp_server_ipv4_init \<lparr>out_socket = 7, out_bind = -1, out_listen = 0\<rparr>
      \<lparr>srv_sd = 0, srv_is_listening = False, srv_addr = Ipv4_addr 0, srv_server_type = tcp_server_type_ipv4,
        srv_watcher = watcher_init_with_fd 0, srv_closed = []\<rparr> 502 = Some (s', r)
    \<and> r = -1 \<and> srv_closed s' = [7]"
  using tcp_server_ipv4_init_owns_socket [of "\<lparr>out_socket = 7, out_bind = -1, out_listen = 0\<rparr>"
      "\<lparr>srv_sd = 0, srv_is_listening = False, srv_addr = Ipv4_addr 0, srv_server_type = tcp_server_type_ipv4,
        srv_watcher = watcher_init_with_fd 0, srv_closed = []\<rparr>" 502] by auto

text \<open>
  Setting up a unix domain server reports failure even when everything succeeded: with a kernel that
  grants the socket, the bind and the listen, the result is -1 although the server owns the open
  socket and watches it.
\<close>

theorem unix_domain_init_reports_failure:
  assumes "0 \<le> out_socket (os AF_INET)" "out_bind (os AF_INET) = 0" "out_listen (os AF_INET) = 0"
  shows "\<exists>s'. tcp_server_unix_domain_init os s path = Some (s', -1)
    \<and> srv_sd s' = out_socket (os AF_INET) \<and> srv_closed s' = srv_closed s \<and> sw_rx (w_switches (srv_watcher s'))"
proof -
  obtain w where "tcp_server_init (s\<lparr>srv_server_type := tcp_server_type_unix_domain, srv_sd := -1,
      srv_addr := Unix_addr path\<rparr>) (out_socket (os AF_INET))
    = Some (s\<lparr>srv_server_type := tcp_server_type_unix_domain, srv_addr := Unix_addr path,
        srv_sd := out_socket (os AF_INET), srv_is_listening := False, srv_watcher := w\<rparr>)" "sw_rx (w_switches w)"
    using tcp_server_init_spec [of "s\<lparr>srv_server_type := tcp_server_type_unix_domain, srv_sd := -1,
      srv_addr := Unix_addr path\<rparr>" "out_socket (os AF_INET)"] by auto
  then show ?thesis using assms by (simp add: tcp_server_unix_domain_init_def Let_def)
qed

lemma unix_domain_init_reports_failure_witness:
  "\<exists>s'. tcp_server_unix_domain_init (\<lambda>_. \<lparr>out_socket = 7, out_bind = 0, out_listen = 0\<rparr>)
      \<lparr>srv_sd = 0, srv_is_listening = False, srv_addr = Ipv4_addr 0, srv_server_type = tcp_server_type_ipv4,
        srv_watcher = watcher_init_with_fd 0, srv_closed = []\<rparr> ''/tmp/s'' = Some (s', -1) \<and> srv_sd s' = 7"
  using unix_domain_init_reports_failure [of "\<lambda>_. \<lparr>out_socket = 7, out_bind = 0, out_listen = 0\<rparr>"
      "\<lparr>srv_sd = 0, srv_is_listening = False, srv_addr = Ipv4_addr 0, srv_server_type = tcp_server_type_ipv4,
        srv_watcher = watcher_init_with_fd 0, srv_closed = []\<rparr>" "''/tmp/s''"] by auto

datatype server_call = Srv_start | Srv_stop | Srv_deinit

fun server_run :: "tcp_server \<Rightarrow> server_call \<Rightarrow> tcp_server" where
  "server_run s Srv_start = tcp_server_start s"
| "server_run s Srv_stop = tcp_server_stop s"
| "server_run s Srv_deinit = tcp_server_deinit s"

text \<open>
  However start, stop and deinit are called on a server that owns the socket \<open>sd\<close>, the socket is closed
  at most once: exactly when some deinit has been called, and the server has then forgotten it.
\<close>

theorem tcp_server_closes_once:
  assumes "srv_sd s = sd" "sd \<noteq> -1"
  shows "let s' = foldl server_run s calls in
    srv_sd s' = (if Srv_deinit \<in> set calls then -1 else sd)
    \<and> srv_closed s' = srv_closed s @ (if Srv_deinit \<in> set calls then [sd] else [])"
proof (induction calls rule: rev_induct)
  case Nil
  then show ?case using assms by simp
next
  case (snoc c calls)
  then show ?case
    using assms by (cases c) (auto simp: Let_def tcp_server_start_def tcp_server_deinit_def stop_keeps sys_close_def)
qed

lemma tcp_server_closes_once_witness:
  "srv_closed (foldl server_run \<lparr>srv_sd = 5, srv_is_listening = False, srv_addr = Ipv4_addr 0,
      srv_server_type = tcp_server_type_ipv4, srv_watcher = watcher_init_with_fd 5, srv_closed = []\<rparr>
      [Srv_start, Srv_deinit, Srv_stop, Srv_deinit]) = [5]"
  using tcp_server_closes_once [of "\<lparr>srv_sd = 5, srv_is_listening = False, srv_addr = Ipv4_addr 0,
      srv_server_type = tcp_server_type_ipv4, srv_watcher = watcher_init_with_fd 5, srv_closed = []\<rparr>" 5
      "[Srv_start, Srv_deinit, Srv_stop, Srv_deinit]"] by (simp add: Let_def del: foldl.simps)

end
