(* ===== verification/Modbus_Tcp_Slave.thy ===== *)
theory Modbus_Tcp_Slave
  imports Modbus_Slave Mbap_Reader Stream Tcp_Server
begin

text \<open>
  \<open>src/protocols/modbus/modbus_tcp_slave.c\<close>: the Modbus slave for TCP. Each connection has a stream and
  an MBAP reader that cuts its bytes into frames; a frame for the slave is answered in place, in the
  reader's buffer, and sent back with a new length field. A connection is the owner of its stream;
  while the reader runs, the stream is the owner of the reader (\<open>container_of\<close> in the source).
  \<open>tc_slave\<close> is what the pointer \<open>conn->slave\<close> leads to. The kernel's answer to a write is a function
  \<open>os\<close> of the connection, so that it may depend on all that has happened.
\<close>

section \<open>State\<close>

definition MB_TCP_PDU_OFF :: nat where "MB_TCP_PDU_OFF = 7"

record 'd tcp_slave =
  ts_ctx :: mb_slave_ctx
  ts_my_address :: u8
  ts_dev :: 'd

record 'd tcp_conn =
  tc_slave :: "'d tcp_slave"
  tc_mbap :: "unit mbap_reader"
  tc_listed :: bool

type_synonym 'd conn_stream = "'d tcp_conn stream"

definition mbap_attach :: "'a mbap_reader \<Rightarrow> 'b \<Rightarrow> 'b mbap_reader" where
  "mbap_attach m e = \<lparr>mbap_frame = mbap_frame m, mbap_state = mbap_state m, mbap_tid = mbap_tid m,
     mbap_pid = mbap_pid m, mbap_length = mbap_length m, mbap_uid = mbap_uid m,
     mbap_header_remaining = mbap_header_remaining m, mbap_data_remaining = mbap_data_remaining m,
     mbap_ndx = mbap_ndx m, mbap_env = e\<rparr>"

definition upd_conn :: "('d tcp_conn \<Rightarrow> 'd tcp_conn) \<Rightarrow> 'd conn_stream \<Rightarrow> 'd conn_stream" where
  "upd_conn f st = st\<lparr>st_env := f (st_env st)\<rparr>"

definition upd_ts_ctx :: "(mb_slave_ctx \<Rightarrow> mb_slave_ctx) \<Rightarrow> 'd tcp_slave \<Rightarrow> 'd tcp_slave" where
  "upd_ts_ctx f s = s\<lparr>ts_ctx := f (ts_ctx s)\<rparr>"

section \<open>A frame\<close>

definition modbus_tcp_slave_handle_rx_frame ::
    "'d mb_callbacks \<Rightarrow> ('d conn_stream \<Rightarrow> kernel_write) \<Rightarrow> 'd conn_stream mbap_reader_cb" where
  "modbus_tcp_slave_handle_rx_frame cbs os m = do {
     let st = mbap_env m;
     let slave = tc_slave (st_env st);
     let pdu = drop MB_TCP_PDU_OFF (mbap_frame m);
     let len = mbap_length m - 1;
     if mbap_uid m = ts_my_address slave \<or> mbap_uid m = MB_ADDRESS_BROADCAST then do {
       (pdu, rsp_len, dev, ret) \<leftarrow> modbus_rtu_handler_request_rx cbs (mbap_uid m) len pdu (ts_dev slave);
       let m = m\<lparr>mbap_frame := take MB_TCP_PDU_OFF (mbap_frame m) @ pdu\<rparr>;
       let slave = slave\<lparr>ts_dev := dev\<rparr>;
       if mbap_uid m \<noteq> MB_ADDRESS_BROADCAST then do {
         let slave = upd_ts_ctx (\<lambda>c. c\<lparr>ctx_my_frames := ctx_my_frames c + 1\<rparr>) slave;
         let slave = (if \<not> ret then upd_ts_ctx (\<lambda>c. c\<lparr>ctx_req_fails := ctx_req_fails c + 1\<rparr>) slave else slave);
         let rsp_len = rsp_len + 1;
         frame \<leftarrow> mem_store (mbap_frame m) 4 (hi_byte rsp_len);
         frame \<leftarrow> mem_store frame 5 (lo_byte rsp_len);
         let rsp_len = rsp_len + 6;
         let st = upd_conn (\<lambda>c. c\<lparr>tc_slave := slave\<rparr>) st;
         (st, ok) \<leftarrow> stream_write (os st) st frame (uint rsp_len);
         Some (m\<lparr>mbap_frame := frame, mbap_env := st\<rparr>) }
       else Some (m\<lparr>mbap_env := upd_conn (\<lambda>c. c\<lparr>tc_slave := slave\<rparr>) st\<rparr>) }
     else Some m }"

definition modbus_tcp_slave_got_frame ::
    "'d mb_callbacks \<Rightarrow> ('d conn_stream \<Rightarrow> kernel_write) \<Rightarrow> 'd conn_stream mbap_reader_cb" where
  "modbus_tcp_slave_got_frame cbs os m = modbus_tcp_slave_handle_rx_frame cbs os m"

section \<open>Connections\<close>

record 'd tcp_slave_world =
  tw_slave :: "'d tcp_slave"
  tw_server :: tcp_server
  tw_connections :: "'d conn_stream list"
  tw_refused :: "int list"

text \<open>\<open>conn_mem\<close> and \<open>block\<close>: what \<open>malloc\<close> returns for the connection and for its transmit buffer.\<close>

definition modbus_tcp_slave_alloc_conn ::
    "'d conn_stream option \<Rightarrow> u8 list option \<Rightarrow> 'd tcp_slave_world \<Rightarrow> int \<Rightarrow> 'd tcp_slave_world option" where
  "modbus_tcp_slave_alloc_conn conn_mem block w newsd =
     (case conn_mem of
        None \<Rightarrow> Some (w\<lparr>tw_refused := tw_refused w @ [newsd]\<rparr>)
      | Some st \<Rightarrow> do {
          let st = upd_conn (\<lambda>c. c\<lparr>tc_slave := tw_slave w\<rparr>) st;
          st \<leftarrow> stream_init_with_fd block st newsd (st_rx_buf st) 512 512;
          let st = upd_conn (\<lambda>c. c\<lparr>tc_listed := True\<rparr>) st;
          let st = upd_conn (\<lambda>c. c\<lparr>tc_mbap := mbap_reader_init (tc_mbap c)\<rparr>) st;
          Some (w\<lparr>tw_connections := tw_connections w @ [stream_start st]\<rparr>) })"

definition modbus_tcp_slave_dealloc_conn :: "'d conn_stream \<Rightarrow> 'd conn_stream" where
  "modbus_tcp_slave_dealloc_conn st = upd_conn (\<lambda>c. c\<lparr>tc_listed := False\<rparr>) (stream_deinit st)"

definition modbus_tcp_slave_handle_stream_event ::
    "'d mb_callbacks \<Rightarrow> ('d conn_stream \<Rightarrow> kernel_write) \<Rightarrow> 'd tcp_conn stream_callback" where
  "modbus_tcp_slave_handle_stream_event cbs os st evt =
     (case evt of
        stream_event_rx \<Rightarrow> do {
          m \<leftarrow> mbap_reader_feed (modbus_tcp_slave_got_frame cbs os) (mbap_attach (tc_mbap (st_env st)) st)
            (st_rx_buf st) (st_rx_data_len st);
          Some (upd_conn (\<lambda>c. c\<lparr>tc_mbap := mbap_attach m ()\<rparr>) (mbap_env m)) }
      | stream_event_eof \<Rightarrow> Some (modbus_tcp_slave_dealloc_conn st)
      | stream_event_err \<Rightarrow> Some (modbus_tcp_slave_dealloc_conn st)
      | stream_event_tx \<Rightarrow> Some st)"

definition modbus_tcp_slave_new_connection ::
    "'d conn_stream option \<Rightarrow> u8 list option \<Rightarrow> int \<Rightarrow> 'd tcp_slave_world \<Rightarrow> 'd tcp_slave_world option" where
  "modbus_tcp_slave_new_connection conn_mem block newsd w = modbus_tcp_slave_alloc_conn conn_mem block w newsd"

text \<open>
  An event on the i-th connection: its stream's callback works on the shared slave; a connection that
  deallocates itself leaves the list.
\<close>

definition modbus_tcp_slave_event ::
    "'d mb_callbacks \<Rightarrow> ('d conn_stream \<Rightarrow> kernel_write) \<Rightarrow> kernel_read \<Rightarrow> kernel_write \<Rightarrow> watcher_event
      \<Rightarrow> nat \<Rightarrow> 'd tcp_slave_world \<Rightarrow> 'd tcp_slave_world option" where
  "modbus_tcp_slave_event cbs os r k evt i w = do {
     st \<leftarrow> mem_load (tw_connections w) i;
     st \<leftarrow> stream_watcher_callback (modbus_tcp_slave_handle_stream_event cbs os) r k
       (upd_conn (\<lambda>c. c\<lparr>tc_slave := tw_slave w\<rparr>) st) evt;
     Some (w\<lparr>tw_slave := tc_slave (st_env st),
       tw_connections := filter (\<lambda>s. tc_listed (st_env s)) ((tw_connections w)[i := st])\<rparr>) }"

section \<open>Set-up\<close>

definition modbus_tcp_slave_init :: "listen_outcome \<Rightarrow> 'd tcp_slave_world \<Rightarrow> u8 \<Rightarrow> int \<Rightarrow> 'd tcp_slave_world option" where
  "modbus_tcp_slave_init out w device_addr tcp_port = do {
     let slave = (tw_slave w)\<lparr>ts_ctx := mb_slave_ctx_init, ts_my_address := device_addr\<rparr>;
     (server, _) \<leftarrow> tcp_server_ipv4_init out (tw_server w) tcp_port;
     Some (w\<lparr>tw_slave := slave, tw_server := server, tw_connections := []\<rparr>) }"

definition modbus_tcp_slave_start :: "'d tcp_slave_world \<Rightarrow> 'd tcp_slave_world" where
  "modbus_tcp_slave_start w = w\<lparr>tw_server := tcp_server_start (tw_server w)\<rparr>"

text \<open>The connections that are deallocated, in order, are returned beside the emptied list.\<close>

definition modbus_tcp_slave_stop :: "'d tcp_slave_world \<Rightarrow> 'd tcp_slave_world \<times> 'd conn_stream list" where
  "modbus_tcp_slave_stop w =
     (let w = w\<lparr>tw_server := tcp_server_stop (tw_server w)\<rparr>;
          freed = map modbus_tcp_slave_dealloc_conn (tw_connections w) in
      (w\<lparr>tw_connections := filter (\<lambda>s. tc_listed (st_env s)) freed\<rparr>, freed))"

section \<open>What a frame does\<close>

lemma stream_inv_conn [simp]:
  "stream_inv (upd_conn f st) = stream_inv st" "st_queue (upd_conn f st) = st_queue st"
  "st_wire (upd_conn f st) = st_wire st" "st_rx_buf (upd_conn f st) = st_rx_buf st" "st_env (upd_conn f st) = f (st_env st)"
  "stream_takes k (upd_conn f st) data = stream_takes k st data" "st_tx_buf (upd_conn f st) = st_tx_buf st"
  by (simp_all add: upd_conn_def stream_inv_def st_queue_def stream_takes_def)

definition tcp_request :: "'d mb_callbacks \<Rightarrow> 'd conn_stream mbap_reader
    \<Rightarrow> (u8 list \<times> u16 \<times> 'd \<times> bool) option" where
  "tcp_request cbs m = modbus_rtu_handler_request_rx cbs (mbap_uid m) (mbap_length m - 1) (drop 7 (mbap_frame m))
     (ts_dev (tc_slave (st_env (mbap_env m))))"

lemma tcp_request_safe:
  assumes dev: "modbus_device cbs" and m: "mbap_complete m"
  shows "\<exists>p l d ok. tcp_request cbs m = Some (p, l, d, ok) \<and> length p = 253 \<and> 1 \<le> unat l \<and> unat l \<le> 253"
proof -
  note f = mbap_complete_fields [OF m]
  have "1 \<le> uint (mbap_length m)" using f by linarith
  then have "unat (mbap_length m - 1) = unat (mbap_length m) - 1"
    by (intro unat_minus_one) auto
  moreover have "8 \<le> int (unat (mbap_length m)) + 6" "int (unat (mbap_length m)) + 6 \<le> 260" using f by simp_all
  ultimately have "1 \<le> unat (mbap_length m - 1)" "unat (mbap_length m - 1) \<le> 253" by linarith+
  then show ?thesis
    using modbus_device.request_rx_safe [OF dev, of "drop 7 (mbap_frame m)" "mbap_length m - 1" "mbap_uid m"
        "ts_dev (tc_slave (st_env (mbap_env m)))"] f(1)
    by (auto simp: tcp_request_def)
qed

definition tcp_for_me :: "'d conn_stream mbap_reader \<Rightarrow> bool" where
  "tcp_for_me m \<longleftrightarrow> mbap_uid m = ts_my_address (tc_slave (st_env (mbap_env m)))"

lemma tcp_foreign_frame:
  "\<not> tcp_for_me m \<Longrightarrow> mbap_uid m \<noteq> MB_ADDRESS_BROADCAST \<Longrightarrow> modbus_tcp_slave_got_frame cbs os m = Some m"
  by (simp add: modbus_tcp_slave_got_frame_def modbus_tcp_slave_handle_rx_frame_def Let_def tcp_for_me_def)

lemma tcp_broadcast_frame:
  assumes "mbap_uid m = MB_ADDRESS_BROADCAST" "tcp_request cbs m = Some (p, l, d, ok)"
  shows "modbus_tcp_slave_got_frame cbs os m = Some (m\<lparr>mbap_frame := take 7 (mbap_frame m) @ p,
    mbap_env := upd_conn (\<lambda>c. c\<lparr>tc_slave := (tc_slave (st_env (mbap_env m)))\<lparr>ts_dev := d\<rparr>\<rparr>) (mbap_env m)\<rparr>)"
  using assms
  by (simp add: modbus_tcp_slave_got_frame_def modbus_tcp_slave_handle_rx_frame_def Let_def tcp_request_def
      MB_TCP_PDU_OFF_def)

text \<open>The answer: the request's header with the new length, and the reply.\<close>

definition tcp_answer :: "u8 list \<Rightarrow> u8 list \<Rightarrow> u16 \<Rightarrow> u8 list" where
  "tcp_answer frame p l = take 4 frame @ [hi_byte (l + 1), lo_byte (l + 1), frame ! 6] @ take (unat l) p"

lemma tcp_answer_bytes:
  assumes "length frame = 260" "length p = 253" "unat l \<le> 253"
  shows "take (unat l + 7) ((take 7 frame @ p)[4 := a, 5 := b]) = take 4 frame @ [a, b, frame ! 6] @ take (unat l) p"
proof -
  have "7 \<le> length frame" using assms(1) by simp
  from split7 [OF this] obtain f0 f1 f2 f3 f4 f5 f6 rest where "frame = f0 # f1 # f2 # f3 # f4 # f5 # f6 # rest"
    by (elim exE)
  then show ?thesis by (simp add: eval_nat_numeral)
qed

lemma tcp_answer_len:
  assumes "unat (l :: u16) \<le> 253"
  shows "unat (l + 1 + 6) = unat l + 7"
  using assms by (simp add: unat_word_ariths)

lemma tcp_my_frame:
  assumes m: "mbap_complete m" "tcp_for_me m" "mbap_uid m \<noteq> MB_ADDRESS_BROADCAST" and inv: "stream_inv (mbap_env m)"
    and req: "tcp_request cbs m = Some (p, l, d, ok)" "length p = 253" "unat l \<le> 253"
  shows "\<exists>m' c. modbus_tcp_slave_got_frame cbs os m = Some m' \<and> length (mbap_frame m') = 260
    \<and> stream_inv (mbap_env m') \<and> st_rx_buf (mbap_env m') = st_rx_buf (mbap_env m)
    \<and> ts_dev (tc_slave (st_env (mbap_env m'))) = d
    \<and> ts_my_address (tc_slave (st_env (mbap_env m'))) = ts_my_address (tc_slave (st_env (mbap_env m)))
    \<and> st_wire (mbap_env m') @ st_queue (mbap_env m') = st_wire (mbap_env m) @ st_queue (mbap_env m)
        @ stream_takes (os (upd_conn c (mbap_env m))) (mbap_env m) (tcp_answer (mbap_frame m) p l)"
proof -
  let ?st = "mbap_env m" and ?n = "unat l"
  let ?sl = "tc_slave (st_env ?st)"
  let ?f = "\<lambda>c. c\<lparr>ctx_my_frames := ctx_my_frames c + 1\<rparr>"
  let ?g = "\<lambda>c. c\<lparr>ctx_req_fails := ctx_req_fails c + 1\<rparr>"
  define sl where "sl = (let s = upd_ts_ctx ?f (?sl\<lparr>ts_dev := d\<rparr>) in if \<not> ok then upd_ts_ctx ?g s else s)"
  have sl: "ts_dev sl = d" "ts_my_address sl = ts_my_address ?sl" by (simp_all add: sl_def upd_ts_ctx_def Let_def)
  let ?c = "\<lambda>c. c\<lparr>tc_slave := sl\<rparr>"
  let ?frame = "(take 7 (mbap_frame m) @ p)[4 := hi_byte (l + 1), 5 := lo_byte (l + 1)]"
  have len: "length (mbap_frame m) = 260" using mbap_complete_fields(1) [OF m(1)] .
  have ans: "take (?n + 7) ?frame = tcp_answer (mbap_frame m) p l"
    using tcp_answer_bytes [OF len req(2,3)] by (simp add: tcp_answer_def)
  have anslen: "length (tcp_answer (mbap_frame m) p l) = ?n + 7"
    using len req(2,3) by (simp add: tcp_answer_def)
  obtain st' sent where w: "stream_write (os (upd_conn ?c ?st)) (upd_conn ?c ?st) (tcp_answer (mbap_frame m) p l)
        (int (?n + 7)) = Some (st', sent)" "stream_inv st'"
      "st_wire st' @ st_queue st' = st_wire ?st @ st_queue ?st
        @ stream_takes (os (upd_conn ?c ?st)) ?st (tcp_answer (mbap_frame m) p l)"
    using stream_write_spec [of "upd_conn ?c ?st" "tcp_answer (mbap_frame m) p l" "os (upd_conn ?c ?st)"] inv anslen req(3)
    by auto
  have env: "st_env st' = ?c (st_env ?st)" "st_rx_buf st' = st_rx_buf ?st"
    using stream_write_frame [OF w(1)] by simp_all
  have wr: "stream_write (os (upd_conn ?c ?st)) (upd_conn ?c ?st) ?frame (uint (l + 1 + 6)) = Some (st', sent)"
    using w(1) stream_write_take [of "?n + 7" ?frame "os (upd_conn ?c ?st)" "upd_conn ?c ?st"] ans len req(2,3)
    unfolding uint_is_unat tcp_answer_len [OF req(3)] by simp
  have stores: "mem_store (take 7 (mbap_frame m) @ p) 4 (hi_byte (l + 1))
      = Some ((take 7 (mbap_frame m) @ p)[4 := hi_byte (l + 1)])"
    "mem_store ((take 7 (mbap_frame m) @ p)[4 := hi_byte (l + 1)]) 5 (lo_byte (l + 1)) = Some ?frame"
    using len req(2) by simp_all
  have req': "modbus_rtu_handler_request_rx cbs (mbap_uid m) (mbap_length m - 1) (drop 7 (mbap_frame m)) (ts_dev ?sl)
      = Some (p, l, d, ok)" using req(1) by (simp add: tcp_request_def)
  have me: "mbap_uid m = ts_my_address ?sl" using m(2) by (simp add: tcp_for_me_def)
  have "modbus_tcp_slave_got_frame cbs os m = Some (m\<lparr>mbap_frame := ?frame, mbap_env := st'\<rparr>)"
    using me m(3) req' stores wr
    by (simp add: modbus_tcp_slave_got_frame_def modbus_tcp_slave_handle_rx_frame_def Let_def MB_TCP_PDU_OFF_def
        sl_def upd_ts_ctx_def)
  then show ?thesis
    using w env sl len req(2) by (intro exI [of _ "m\<lparr>mbap_frame := ?frame, mbap_env := st'\<rparr>"] exI [of _ ?c]) simp
qed

section \<open>The slave as a client of the reader\<close>

definition conn_ok :: "'d conn_stream \<Rightarrow> bool" where
  "conn_ok st \<longleftrightarrow> stream_inv st \<and> length (st_rx_buf st) = 512"

lemma tcp_slave_takes_frames:
  assumes dev: "modbus_device cbs" and m: "mbap_complete m" and ok: "conn_ok (mbap_env m)"
  shows "\<exists>m'. modbus_tcp_slave_got_frame cbs os m = Some m' \<and> length (mbap_frame m') = 260 \<and> conn_ok (mbap_env m')"
proof -
  obtain p l d r where req: "tcp_request cbs m = Some (p, l, d, r)" "length p = 253" "unat l \<le> 253"
    using tcp_request_safe [OF dev m] by blast
  have len: "length (mbap_frame m) = 260" using mbap_complete_fields(1) [OF m] .
  consider "mbap_uid m = MB_ADDRESS_BROADCAST" | "mbap_uid m \<noteq> MB_ADDRESS_BROADCAST" "\<not> tcp_for_me m"
    | "mbap_uid m \<noteq> MB_ADDRESS_BROADCAST" "tcp_for_me m" by blast
  then show ?thesis
  proof cases
    case 1
    then show ?thesis using tcp_broadcast_frame [OF 1 req(1), of os] req(2) len ok by (simp add: conn_ok_def)
  next
    case 2
    then show ?thesis using tcp_foreign_frame [OF 2(2,1), of cbs os] len ok by simp
  next
    case 3
    from ok have "stream_inv (mbap_env m)" by (simp add: conn_ok_def)
    from tcp_my_frame [OF m 3(2,1) this req, of os] ok show ?thesis by (auto simp: conn_ok_def)
  qed
qed

sublocale modbus_device \<subseteq> tcp_slave: mbap_client "modbus_tcp_slave_got_frame ctx os" conn_ok for os
  by unfold_locales (rule tcp_slave_takes_frames [OF modbus_device_axioms])

interpretation demo_tcp_slave: mbap_client "modbus_tcp_slave_got_frame demo_callbacks os" conn_ok for os
  by (rule demo_device.tcp_slave.mbap_client_axioms)

text \<open>A connection between two events.\<close>

definition conn_inv :: "'d conn_stream \<Rightarrow> bool" where
  "conn_inv st \<longleftrightarrow> conn_ok st \<and> mbap_inv (tc_mbap (st_env st))"

lemma mbap_attach_inv [simp]: "mbap_inv (mbap_attach m e) = mbap_inv m" "mbap_env (mbap_attach m e) = e"
    "mbap_fresh (mbap_attach m e) = mbap_fresh m" "mbap_frame (mbap_attach m e) = mbap_frame m"
  by (simp_all add: mbap_attach_def mbap_inv_def mbap_fresh_def split: mbap_reader_state.split)

text \<open>A read of at most 512 bytes, as the stream makes it.\<close>

definition tcp_receive ::
    "'d mb_callbacks \<Rightarrow> ('d conn_stream \<Rightarrow> kernel_write) \<Rightarrow> 'd conn_stream \<Rightarrow> u8 list \<Rightarrow> 'd conn_stream option" where
  "tcp_receive cbs os st c =
     stream_watcher_callback (modbus_tcp_slave_handle_stream_event cbs os) (Read_data c) (os st) st watcher_event_rx"

context modbus_device
begin

lemma tcp_slave_rx_event:
  assumes inv: "conn_inv st" and n: "n \<le> 512" "st_rx_data_len st = int n"
  shows "\<exists>st'. modbus_tcp_slave_handle_stream_event ctx os st stream_event_rx = Some st' \<and> conn_inv st'"
proof -
  let ?m = "mbap_attach (tc_mbap (st_env st)) st"
  have m: "mbap_inv ?m" "conn_ok (mbap_env ?m)" using inv by (simp_all add: conn_inv_def)
  obtain m' where m': "foldo (mbap_state_machine (modbus_tcp_slave_got_frame ctx os)) ?m (take n (st_rx_buf st)) = Some m'"
      "mbap_inv m'" "conn_ok (mbap_env m')"
    using tcp_slave.mbap_run_inv [OF m] by blast
  have "length (st_rx_buf st) = 512" using inv by (simp add: conn_inv_def conn_ok_def)
  then have "mbap_reader_feed (modbus_tcp_slave_got_frame ctx os) ?m (st_rx_buf st) (int n) = Some m'"
    using m'(1) n(1) by (simp add: mbap_reader_feed_def mem_slice_def)
  then show ?thesis
    using m'(2,3) n(2) by (simp add: modbus_tcp_slave_handle_stream_event_def conn_inv_def conn_ok_def)
qed

lemma tcp_slave_receive:
  assumes inv: "conn_inv st" and c: "c \<noteq> []" "length c \<le> 512"
  shows "\<exists>st'. tcp_receive ctx os st c = Some st' \<and> conn_inv st'"
proof -
  let ?st = "st\<lparr>st_rx_buf := c @ drop (length c) (st_rx_buf st), st_rx_data_len := int (length c)\<rparr>"
  have len: "length (st_rx_buf st) = 512" using inv by (simp add: conn_inv_def conn_ok_def)
  have "c_memcpy (st_rx_buf st) 0 c 0 (int (length c)) = Some (c @ drop (length c) (st_rx_buf st))"
    using c_memcpy_in [of 0 "length c" "st_rx_buf st" 0 c] c len by simp
  then have "tcp_receive ctx os st c = modbus_tcp_slave_handle_stream_event ctx os ?st stream_event_rx"
    using c by (simp add: tcp_receive_def stream_watcher_callback_def)
  moreover have "conn_inv ?st" using inv c len by (simp add: conn_inv_def conn_ok_def stream_inv_def)
  ultimately show ?thesis using tcp_slave_rx_event [of ?st "length c" os] c by simp
qed

lemma tcp_slave_receive_all:
  assumes "conn_inv st" "\<forall>c \<in> set chunks. c \<noteq> [] \<and> length c \<le> 512"
  shows "\<exists>st'. foldo (tcp_receive ctx os) st chunks = Some st' \<and> conn_inv st'"
  using foldo_invariant [of chunks conn_inv "tcp_receive ctx os" st] tcp_slave_receive assms by blast

end

text \<open>A whole exchange on one connection.\<close>

lemma tcp_slave_serves:
  assumes "modbus_device cbs" "mbap_fresh m" "stream_inv (mbap_env m)" "pdu_ok f"
    and "pdu_uid f = ts_my_address (tc_slave (st_env (mbap_env m)))" "pdu_uid f \<noteq> MB_ADDRESS_BROADCAST"
    and "concat chunks = pdu_wire f"
  shows "\<exists>p l d ok m' st. modbus_rtu_handler_request_rx cbs (pdu_uid f) (of_nat (length (pdu_bytes f)))
        (pdu_bytes f @ drop (7 + length (pdu_bytes f)) (mbap_frame m)) (ts_dev (tc_slave (st_env (mbap_env m))))
        = Some (p, l, d, ok)
    \<and> foldo (\<lambda>m c. mbap_reader_feed (modbus_tcp_slave_got_frame cbs os) m c (int (length c))) m chunks = Some m'
    \<and> mbap_fresh m' \<and> ts_dev (tc_slave (st_env (mbap_env m'))) = d
    \<and> st_wire (mbap_env m') @ st_queue (mbap_env m') = st_wire (mbap_env m) @ st_queue (mbap_env m)
        @ stream_takes (os st) (mbap_env m) (pdu_wire (f\<lparr>pdu_bytes := take (unat l) p\<rparr>))"
proof -
  let ?n = "length (pdu_bytes f)"
  define h where "h = mbap_holding m (pdu_tid f) (pdu_pid f) (pdu_len f) (pdu_uid f) (pdu_bytes f)"
  have h: "mbap_complete h" "mbap_env h = mbap_env m" "mbap_uid h = pdu_uid f" "mbap_length h = pdu_len f"
      "mbap_frame h = mbap_header_bytes (pdu_tid f) (pdu_pid f) (pdu_len f) (pdu_uid f) @ pdu_bytes f
        @ drop (7 + ?n) (mbap_frame m)"
    using pdu_complete [OF assms(2,4)] by (simp_all add: h_def mbap_holding_def)
  obtain p l d ok where req: "tcp_request cbs h = Some (p, l, d, ok)" "length p = 253" "unat l \<le> 253" "1 \<le> unat l"
    using tcp_request_safe [OF assms(1) h(1)] by blast
  have me: "tcp_for_me h" "mbap_uid h \<noteq> MB_ADDRESS_BROADCAST" "stream_inv (mbap_env h)"
    using assms(3,5,6) h by (simp_all add: tcp_for_me_def)
  obtain m1 c where m1: "modbus_tcp_slave_got_frame cbs os h = Some m1" "length (mbap_frame m1) = 260"
      "ts_dev (tc_slave (st_env (mbap_env m1))) = d"
      "st_wire (mbap_env m1) @ st_queue (mbap_env m1) = st_wire (mbap_env m) @ st_queue (mbap_env m)
        @ stream_takes (os (upd_conn c (mbap_env m))) (mbap_env m) (tcp_answer (mbap_frame h) p l)"
    using tcp_my_frame [OF h(1) me req(1-3), of os] unfolding h(2) by blast
  have "pdu_len (f\<lparr>pdu_bytes := take (unat l) p\<rparr>) = l + 1"
    using req(2,3) by (simp add: pdu_len_def)
  then have "tcp_answer (mbap_frame h) p l = pdu_wire (f\<lparr>pdu_bytes := take (unat l) p\<rparr>)"
    by (simp add: tcp_answer_def h(5) pdu_wire_def mbap_header_bytes_def)
  moreover have "foldo (\<lambda>m c. mbap_reader_feed (modbus_tcp_slave_got_frame cbs os) m c (int (length c))) m chunks
      = Some (mbap_reader_reset m1)"
    unfolding feed_chunks assms(7) deliver_run [OF assms(2,4)] using m1(1) by (simp add: deliver_def h_def)
  moreover have "mbap_fresh (mbap_reader_reset m1)" using m1(2) by (rule mbap_fresh_reset)
  moreover have "modbus_rtu_handler_request_rx cbs (pdu_uid f) (of_nat ?n)
      (pdu_bytes f @ drop (7 + ?n) (mbap_frame m)) (ts_dev (tc_slave (st_env (mbap_env m)))) = Some (p, l, d, ok)"
    using req(1) h by (simp add: tcp_request_def mbap_header_bytes_def pdu_len_def)
  ultimately show ?thesis
    using m1(3,4)
    by (intro exI [of _ p] exI [of _ l] exI [of _ d] exI [of _ ok] exI [of _ "mbap_reader_reset m1"]
        exI [of _ "upd_conn c (mbap_env m)"]) (simp add: mbap_reader_reset_def)
qed

section \<open>Properties\<close>

text \<open>A connection before its first byte, for the examples.\<close>

definition blank_mbap :: "unit mbap_reader" where
  "blank_mbap = \<lparr>mbap_frame = replicate 260 0, mbap_state = mbap_reader_state_header, mbap_tid = 0, mbap_pid = 0,
     mbap_length = 0, mbap_uid = 0, mbap_header_remaining = 7, mbap_data_remaining = 0, mbap_ndx = 0, mbap_env = ()\<rparr>"

definition blank_conn :: "unit conn_stream" where
  "blank_conn = \<lparr>st_watcher = watcher_init_with_fd 9, st_rx_buf = replicate 512 0, st_rx_buf_size = 512,
     st_rx_data_len = 0, st_tx_buf = fst (circ_buffer_init (Some (replicate 512 0)) 512), st_wire = [], st_open = True,
     st_env = \<lparr>tc_slave = \<lparr>ts_ctx = mb_slave_ctx_init, ts_my_address = 1, ts_dev = ()\<rparr>, tc_mbap = blank_mbap,
       tc_listed = True\<rparr>\<rparr>"

lemma blank_conn_inv: "conn_inv blank_conn" "stream_inv blank_conn" "mbap_fresh blank_mbap"
  using circ_buffer_init_spec [of "replicate 512 0" 512] watcher_init_spec [of 9]
  by (auto simp: conn_inv_def conn_ok_def blank_conn_def stream_inv_def blank_mbap_def mbap_fresh_def mbap_inv_def)

text \<open>
  C11: A request in an MBAP frame for the slave, cut into reads in any way, is executed once and answered:
  the request handler runs on its PDU, the device is left as the handler says, and the stream gets
  one well-formed MBAP frame with the request's transaction, protocol and unit identifier, the
  handler's reply and its right length. The reader is then ready for the next frame.
\<close>

theorem tcp_slave_answers:
  assumes "modbus_device cbs" "mbap_fresh m" "stream_inv (mbap_env m)" "pdu_ok f"
    and "pdu_uid f = ts_my_address (tc_slave (st_env (mbap_env m)))" "pdu_uid f \<noteq> MB_ADDRESS_BROADCAST"
    and "concat chunks = pdu_wire f"
  shows "\<exists>p l d ok m' st. modbus_rtu_handler_request_rx cbs (pdu_uid f) (of_nat (length (pdu_bytes f)))
        (pdu_bytes f @ drop (7 + length (pdu_bytes f)) (mbap_frame m)) (ts_dev (tc_slave (st_env (mbap_env m))))
        = Some (p, l, d, ok)
    \<and> foldo (\<lambda>m c. mbap_reader_feed (modbus_tcp_slave_got_frame cbs os) m c (int (length c))) m chunks = Some m'
    \<and> mbap_fresh m' \<and> ts_dev (tc_slave (st_env (mbap_env m'))) = d
    \<and> st_wire (mbap_env m') @ st_queue (mbap_env m') = st_wire (mbap_env m) @ st_queue (mbap_env m)
        @ stream_takes (os st) (mbap_env m) (pdu_wire (f\<lparr>pdu_bytes := take (unat l) p\<rparr>))"
  by (rule tcp_slave_serves [OF assms])

lemma tcp_slave_answers_witness:
  "\<exists>m'. foldo (\<lambda>m c. mbap_reader_feed (modbus_tcp_slave_got_frame demo_callbacks (\<lambda>_. Room 300)) m c (int (length c)))
        (mbap_attach blank_mbap blank_conn) [[0, 8, 0, 0], [0, 3, 1, 3, 0]] = Some m' \<and> mbap_fresh m'"
proof -
  let ?f = "\<lparr>pdu_tid = 8, pdu_pid = 0, pdu_uid = 1, pdu_bytes = [3, 0]\<rparr>" and ?m = "mbap_attach blank_mbap blank_conn"
  have m: "mbap_fresh ?m" "stream_inv (mbap_env ?m)" using blank_conn_inv by simp_all
  have f: "pdu_ok ?f" "pdu_uid ?f = ts_my_address (tc_slave (st_env (mbap_env ?m)))" "pdu_uid ?f \<noteq> MB_ADDRESS_BROADCAST"
    by (simp_all add: pdu_ok_def MB_ADDRESS_BROADCAST_def blank_conn_def)
  have w: "concat [[0, 8, 0, 0], [0, 3, 1, 3, 0]] = pdu_wire ?f"
    by (simp add: pdu_wire_def mbap_header_bytes_def pdu_len_def hi_byte_def lo_byte_def)
  show ?thesis
    using tcp_slave_answers [OF demo_device.modbus_device_axioms m f w, of "\<lambda>_. Room 300"]
    by (elim exE conjE) (intro exI conjI)
qed

text \<open>
  C28: No client can make the slave misbehave: whatever bytes a connection delivers, in reads of at most 512,
  every event is handled without an access outside a buffer, an overflow or a failed assertion, and
  the connection stays well-formed.
\<close>

theorem tcp_slave_survives_any_bytes:
  assumes "modbus_device cbs" "conn_inv st" "\<forall>c \<in> set chunks. c \<noteq> [] \<and> length c \<le> 512"
  shows "\<exists>st'. foldo (tcp_receive cbs os) st chunks = Some st' \<and> conn_inv st'"
  by (rule modbus_device.tcp_slave_receive_all [OF assms])

lemma tcp_slave_survives_any_bytes_witness:
  "\<exists>st'. foldo (tcp_receive demo_callbacks (\<lambda>_. Room 3)) blank_conn [[1, 2, 3], replicate 512 0] = Some st' \<and> conn_inv st'"
  by (rule tcp_slave_survives_any_bytes [OF demo_device.modbus_device_axioms blank_conn_inv(1)]) simp

text \<open>
  A frame for another unit is dropped: device, statistics, wire and queue stay as they are.
\<close>

theorem tcp_slave_ignores_others:
  assumes "mbap_fresh m" "pdu_ok f" "pdu_uid f \<noteq> ts_my_address (tc_slave (st_env (mbap_env m)))"
    and "pdu_uid f \<noteq> MB_ADDRESS_BROADCAST" "concat chunks = pdu_wire f"
  shows "\<exists>m'. foldo (\<lambda>m c. mbap_reader_feed (modbus_tcp_slave_got_frame cbs os) m c (int (length c))) m chunks = Some m'
    \<and> mbap_fresh m' \<and> mbap_env m' = mbap_env m"
proof -
  define h where "h = mbap_holding m (pdu_tid f) (pdu_pid f) (pdu_len f) (pdu_uid f) (pdu_bytes f)"
  have h: "mbap_env h = mbap_env m" "mbap_uid h = pdu_uid f" by (simp_all add: h_def mbap_holding_def)
  have len: "length (mbap_frame h) = 260"
    unfolding h_def by (rule mbap_complete_fields(1) [OF pdu_complete [OF assms(1,2)]])
  have "modbus_tcp_slave_got_frame cbs os h = Some h"
    using tcp_foreign_frame [of h cbs os] assms(3,4) h by (simp add: tcp_for_me_def)
  then have "foldo (\<lambda>m c. mbap_reader_feed (modbus_tcp_slave_got_frame cbs os) m c (int (length c))) m chunks
      = Some (mbap_reader_reset h)"
    unfolding feed_chunks assms(5) deliver_run [OF assms(1,2)] by (simp add: deliver_def h_def)
  moreover have "mbap_fresh (mbap_reader_reset h)" using len by (rule mbap_fresh_reset)
  ultimately show ?thesis using h(1) by (simp add: mbap_reader_reset_def)
qed

lemma tcp_slave_ignores_others_witness:
  "\<exists>m'. foldo (\<lambda>m c. mbap_reader_feed (modbus_tcp_slave_got_frame demo_callbacks (\<lambda>_. Room 3)) m c (int (length c)))
      (mbap_attach blank_mbap blank_conn) [[0, 8, 0, 0], [0, 3, 2, 3, 0]] = Some m' \<and> mbap_env m' = blank_conn"
proof -
  let ?f = "\<lparr>pdu_tid = 8, pdu_pid = 0, pdu_uid = 2, pdu_bytes = [3, 0]\<rparr>" and ?m = "mbap_attach blank_mbap blank_conn"
  have "mbap_fresh ?m" using blank_conn_inv by simp
  moreover have "pdu_ok ?f" "pdu_uid ?f \<noteq> ts_my_address (tc_slave (st_env (mbap_env ?m)))"
      "pdu_uid ?f \<noteq> MB_ADDRESS_BROADCAST"
    by (simp_all add: pdu_ok_def MB_ADDRESS_BROADCAST_def blank_conn_def)
  moreover have "concat [[0, 8, 0, 0], [0, 3, 2, 3, 0]] = pdu_wire ?f"
    by (simp add: pdu_wire_def mbap_header_bytes_def pdu_len_def hi_byte_def lo_byte_def)
  ultimately show ?thesis
    using tcp_slave_ignores_others [of ?m ?f "[[0, 8, 0, 0], [0, 3, 2, 3, 0]]" demo_callbacks "\<lambda>_. Room 3"] by auto
qed

end
