(* ===== verification/Tcp_Connector.thy ===== *)
theory Tcp_Connector
  imports Watcher Task_Timer "HOL-Library.Multiset"
begin

text \<open>
  \<open>src/net/tcp_connector.c\<close>: one non-blocking connection attempt with a timeout, watched for
  writability. The kernel's answers to \<open>socket\<close>, \<open>connect\<close> and \<open>getsockopt\<close> are inputs;
  \<open>tc_opened\<close>, \<open>tc_closed\<close> and \<open>tc_taken\<close> record the descriptors got from \<open>socket\<close>, handed to
  \<open>close\<close> and handed out by \<open>tcp_connect_get_sd\<close>. The callback is a function of the connector at the
  time of the call and of the status, since its owner is found from the connector's address.
\<close>

section \<open>State and operations\<close>

datatype tcp_connector_status =
  tcp_connector_success | tcp_connector_failure | tcp_connector_in_progress | tcp_connector_timed_out

record tcp_connector =
  tc_sd :: int
  tc_is_in_prog :: bool
  tc_tmr :: task_timer
  tc_watcher :: watcher
  tc_opened :: "int list"
  tc_closed :: "int list"
  tc_taken :: "int list"

datatype connect_answer = Conn_ok | Conn_EINPROGRESS | Conn_error

record connect_outcome =
  co_socket :: int
  co_connect :: connect_answer

definition tcp_connector_watcher_callback ::
    "(tcp_connector \<Rightarrow> tcp_connector_status \<Rightarrow> 'r) \<Rightarrow> int \<Rightarrow> tcp_connector \<Rightarrow> 'r" where
  "tcp_connector_watcher_callback cb err conn =
     (let status = (if err = 0 then tcp_connector_success else tcp_connector_failure);
          conn = conn\<lparr>tc_is_in_prog := False\<rparr>;
          conn = conn\<lparr>tc_watcher := watcher_stop (tc_watcher conn)\<rparr>;
          conn = conn\<lparr>tc_tmr := task_timer_stop (tc_tmr conn)\<rparr>
      in cb conn status)"

definition tcp_connector_timeout :: "(tcp_connector \<Rightarrow> tcp_connector_status \<Rightarrow> 'r) \<Rightarrow> tcp_connector \<Rightarrow> 'r" where
  "tcp_connector_timeout cb conn =
     cb (conn\<lparr>tc_is_in_prog := False, tc_watcher := watcher_stop (tc_watcher conn)\<rparr>) tcp_connector_timed_out"

definition tcp_connector_init :: "tcp_connector \<Rightarrow> int \<Rightarrow> tcp_connector option" where
  "tcp_connector_init conn sd = do {
     let conn = conn\<lparr>tc_sd := sd, tc_is_in_prog := False\<rparr>;
     w \<leftarrow> watcher_watch_tx (watcher_init_with_fd sd);
     Some (conn\<lparr>tc_watcher := w, tc_tmr := task_timer_init\<rparr>) }"

definition tcp_connector_connect ::
    "connect_answer \<Rightarrow> tcp_connector \<Rightarrow> rat \<Rightarrow> tcp_connector \<times> tcp_connector_status" where
  "tcp_connector_connect answer conn to =
     (if tc_is_in_prog conn then (conn, tcp_connector_failure)
      else if answer = Conn_ok then (conn, tcp_connector_success)
      else if answer \<noteq> Conn_EINPROGRESS then (conn, tcp_connector_failure)
      else (conn\<lparr>tc_is_in_prog := True, tc_watcher := watcher_start (tc_watcher conn),
              tc_tmr := task_timer_start (tc_tmr conn) to 0\<rparr>, tcp_connector_in_progress))"

definition tcp_connector_deinit :: "tcp_connector \<Rightarrow> tcp_connector" where
  "tcp_connector_deinit conn =
     (let conn = (if tc_is_in_prog conn
            then conn\<lparr>tc_is_in_prog := False, tc_watcher := watcher_stop (tc_watcher conn),
                   tc_tmr := task_timer_stop (tc_tmr conn)\<rparr>
            else conn)
      in if tc_sd conn \<noteq> -1 then conn\<lparr>tc_closed := tc_closed conn @ [tc_sd conn], tc_sd := -1\<rparr> else conn)"

text \<open>The two public ways to connect differ in the address family only.\<close>

definition tcp_connector_try_ipv4 ::
    "connect_outcome \<Rightarrow> tcp_connector \<Rightarrow> rat \<Rightarrow> (tcp_connector \<times> tcp_connector_status) option" where
  "tcp_connector_try_ipv4 out conn to = do {
     let conn = conn\<lparr>tc_sd := -1\<rparr>;
     let sd = co_socket out;
     if sd < 0 then Some (conn, tcp_connector_failure)
     else do {
       conn \<leftarrow> tcp_connector_init (conn\<lparr>tc_opened := tc_opened conn @ [sd]\<rparr>) sd;
       Some (tcp_connector_connect (co_connect out) conn to) } }"

definition tcp_connectyr_try_unix_domain ::
    "connect_outcome \<Rightarrow> tcp_connector \<Rightarrow> rat \<Rightarrow> (tcp_connector \<times> tcp_connector_status) option" where
  "tcp_connectyr_try_unix_domain out conn to = do {
     let conn = conn\<lparr>tc_sd := -1\<rparr>;
     let sd = co_socket out;
     if sd < 0 then Some (conn, tcp_connector_failure)
     else do {
       conn \<leftarrow> tcp_connector_init (conn\<lparr>tc_opened := tc_opened conn @ [sd]\<rparr>) sd;
       Some (tcp_connector_connect (co_connect out) conn to) } }"

definition tcp_connect_get_sd :: "tcp_connector \<Rightarrow> tcp_connector \<times> int" where
  "tcp_connect_get_sd conn =
     (conn\<lparr>tc_taken := tc_taken conn @ [tc_sd conn], tc_sd := -1\<rparr>, tc_sd conn)"

section \<open>Ownership and activity\<close>

text \<open>
  Every descriptor opened is owned, closed or handed out, and each of these once per opening. While
  an attempt is in progress the writability watcher and the timer are active, otherwise neither is.
\<close>

definition fds_balanced :: "tcp_connector \<Rightarrow> bool" where
  "fds_balanced conn \<longleftrightarrow> mset (tc_opened conn)
     = mset (tc_closed conn) + mset (tc_taken conn) + (if tc_sd conn = -1 then {#} else {#tc_sd conn#})"

definition tc_watching :: "tcp_connector \<Rightarrow> bool" where
  "tc_watching conn \<longleftrightarrow> io_active (w_tx_io (tc_watcher conn))"

definition attempt_idle :: "tcp_connector \<Rightarrow> bool" where
  "attempt_idle conn \<longleftrightarrow> \<not> tc_is_in_prog conn \<and> \<not> tc_watching conn \<and> \<not> task_timer_active (tc_tmr conn)"

definition attempt_running :: "tcp_connector \<Rightarrow> bool" where
  "attempt_running conn \<longleftrightarrow> tc_is_in_prog conn \<and> tc_watching conn \<and> task_timer_active (tc_tmr conn) \<and> tc_sd conn \<noteq> -1
     \<and> tmr_repeat (tc_tmr conn) = 0 \<and> watcher_inv (tc_watcher conn)"

lemma watcher_stop_inactive:
  "watcher_inv w \<Longrightarrow> \<not> io_active (w_tx_io (watcher_stop w))"
  using watcher_stop_spec [of w] by (auto simp: watcher_inv_def w_switches_def)

lemma tcp_connector_init_spec:
  "\<exists>w. tcp_connector_init conn sd = Some (conn\<lparr>tc_sd := sd, tc_is_in_prog := False, tc_watcher := w,
      tc_tmr := task_timer_init\<rparr>) \<and> watcher_inv w \<and> \<not> io_active (w_tx_io w) \<and> io_active (w_tx_io (watcher_start w))"
proof -
  obtain w where w: "watcher_watch_tx (watcher_init_with_fd sd) = Some w" "watcher_inv w"
      "w_switches w = \<lparr>sw_on = False, sw_rx = False, sw_tx = True, sw_er = False\<rparr>"
    using watcher_start_target_spec(2) [of "watcher_init_with_fd sd"] watcher_init_spec [of sd] by auto
  then have "\<not> io_active (w_tx_io w)" "io_active (w_tx_io (watcher_start w))"
    using watcher_start_spec [OF w(2)] by (auto simp: watcher_inv_def w_switches_def)
  then show ?thesis using w by (intro exI [of _ w]) (simp add: tcp_connector_init_def Let_def)
qed

text \<open>An attempt on a connector that owns nothing: its outcome, and what it owns then.\<close>

lemma tcp_connector_try_ipv4_spec:
  assumes idle: "attempt_idle conn" and sd: "tc_sd conn = -1" and fds: "fds_balanced conn"
  shows "\<exists>conn' st. tcp_connector_try_ipv4 out conn to = Some (conn', st) \<and> fds_balanced conn'
    \<and> st = (if co_socket out < 0 then tcp_connector_failure
            else case co_connect out of Conn_ok \<Rightarrow> tcp_connector_success
              | Conn_EINPROGRESS \<Rightarrow> tcp_connector_in_progress | Conn_error \<Rightarrow> tcp_connector_failure)
    \<and> tc_sd conn' = (if co_socket out < 0 then -1 else co_socket out)
    \<and> (if st = tcp_connector_in_progress then attempt_running conn' else attempt_idle conn')"
proof (cases "co_socket out < 0")
  case True
  then show ?thesis
    using assms by (auto simp: tcp_connector_try_ipv4_def Let_def fds_balanced_def attempt_idle_def tc_watching_def)
next
  case False
  let ?c = "conn\<lparr>tc_sd := -1, tc_opened := tc_opened conn @ [co_socket out]\<rparr>"
  obtain w where w: "tcp_connector_init ?c (co_socket out) = Some (?c\<lparr>tc_sd := co_socket out, tc_is_in_prog := False,
      tc_watcher := w, tc_tmr := task_timer_init\<rparr>)" "watcher_inv w" "\<not> io_active (w_tx_io w)"
      "io_active (w_tx_io (watcher_start w))"
    using tcp_connector_init_spec [of ?c "co_socket out"] by blast
  have inv: "watcher_inv (watcher_start w)" using watcher_start_spec [OF w(2)] by blast
  show ?thesis
    using False w sd fds inv
    by (cases "co_connect out")
       (auto simp: tcp_connector_try_ipv4_def Let_def tcp_connector_connect_def fds_balanced_def
          attempt_idle_def attempt_running_def tc_watching_def timer_simps)
qed

lemma tcp_connectyr_try_unix_domain_same: "tcp_connectyr_try_unix_domain = tcp_connector_try_ipv4"
  by (simp add: fun_eq_iff tcp_connectyr_try_unix_domain_def tcp_connector_try_ipv4_def)

lemma tcp_connector_deinit_spec:
  assumes "attempt_idle conn \<or> attempt_running conn" "fds_balanced conn"
  shows "attempt_idle (tcp_connector_deinit conn)" "tc_sd (tcp_connector_deinit conn) = -1"
    "fds_balanced (tcp_connector_deinit conn)"
  using assms watcher_stop_inactive [of "tc_watcher conn"]
  by (auto simp: tcp_connector_deinit_def Let_def attempt_idle_def attempt_running_def tc_watching_def
      fds_balanced_def timer_simps)

lemma tcp_connect_get_sd_spec:
  assumes "attempt_idle conn" "fds_balanced conn" "tc_sd conn \<noteq> -1"
  shows "attempt_idle (fst (tcp_connect_get_sd conn))" "tc_sd (fst (tcp_connect_get_sd conn)) = -1"
    "fds_balanced (fst (tcp_connect_get_sd conn))" "snd (tcp_connect_get_sd conn) = tc_sd conn"
  using assms by (auto simp: tcp_connect_get_sd_def attempt_idle_def tc_watching_def fds_balanced_def)

end
