(* ===== verification/Tcp_Auto_Connector.thy ===== *)
theory Tcp_Auto_Connector
  imports Tcp_Connector
begin

text \<open>
  \<open>src/net/tcp_auto_connector.c\<close>: keeps trying to connect until it succeeds or is stopped. It owns a
  connector and a timer for the pause after a failure; its callback gets the descriptor of a
  connection, or -1 for a failed attempt. The callback acts on the whole connector and on the state
  \<open>ac_env\<close> of its owner. The answers of the kernel to an attempt are given with the event that makes it.
\<close>

section \<open>State and operations\<close>

datatype tcp_auto_connector_state =
  tcp_auto_connector_state_not_started | tcp_auto_connector_state_connecting
| tcp_auto_connector_state_reconnect_wait

record 'u tcp_auto_connector =
  ac_tcp_connector :: tcp_connector
  ac_server_addr :: string
  ac_reconn_wait_tmr :: task_timer
  ac_conn_tmr_value :: rat
  ac_reconn_wait_tmr_value :: rat
  ac_state :: tcp_auto_connector_state
  ac_env :: 'u

type_synonym 'u auto_cb = "'u tcp_auto_connector \<Rightarrow> int \<Rightarrow> 'u tcp_auto_connector option"

lemma connect_no_timeout: "snd (tcp_connector_connect answer conn to) \<noteq> tcp_connector_timed_out"
  by (simp add: tcp_connector_connect_def)

lemma try_no_timeout:
  "tcp_connector_try_ipv4 out conn to = Some r \<Longrightarrow> snd r \<noteq> tcp_connector_timed_out"
  using connect_no_timeout by (auto simp: tcp_connector_try_ipv4_def Let_def split: if_splits)

text \<open>
  The two functions call each other: a timed-out attempt starts the next one, whose own result is
  handled in turn. They end because an attempt never answers with a timeout at once.
\<close>

function (sequential) tcp_auto_connector_handle_tcp_connect_event ::
    "'u auto_cb \<Rightarrow> connect_outcome \<Rightarrow> 'u tcp_auto_connector \<Rightarrow> tcp_connector_status \<Rightarrow> 'u tcp_auto_connector option"
  and tcp_auto_connector_connect ::
    "'u auto_cb \<Rightarrow> connect_outcome \<Rightarrow> 'u tcp_auto_connector \<Rightarrow> 'u tcp_auto_connector option" where
  "tcp_auto_connector_handle_tcp_connect_event cb out conn tcp_connector_success =
     (let conn = conn\<lparr>ac_state := tcp_auto_connector_state_not_started\<rparr>;
          (c, sd) = tcp_connect_get_sd (ac_tcp_connector conn)
      in cb (conn\<lparr>ac_tcp_connector := c\<rparr>) sd)"
| "tcp_auto_connector_handle_tcp_connect_event cb out conn tcp_connector_failure =
     (let conn = conn\<lparr>ac_tcp_connector := tcp_connector_deinit (ac_tcp_connector conn)\<rparr>;
          conn = conn\<lparr>ac_state := tcp_auto_connector_state_reconnect_wait,
            ac_reconn_wait_tmr := task_timer_start (ac_reconn_wait_tmr conn) (ac_reconn_wait_tmr_value conn) 0\<rparr>
      in cb conn (-1))"
| "tcp_auto_connector_handle_tcp_connect_event cb out conn tcp_connector_in_progress =
     Some (conn\<lparr>ac_state := tcp_auto_connector_state_connecting\<rparr>)"
| "tcp_auto_connector_handle_tcp_connect_event cb out conn tcp_connector_timed_out = do {
     let conn = conn\<lparr>ac_tcp_connector := tcp_connector_deinit (ac_tcp_connector conn)\<rparr>;
     conn \<leftarrow> cb conn (-1);
     tcp_auto_connector_connect cb out conn }"
| "tcp_auto_connector_connect cb out conn = do {
     ret \<leftarrow> tcp_connector_try_ipv4 out (ac_tcp_connector conn) (ac_conn_tmr_value conn);
     tcp_auto_connector_handle_tcp_connect_event cb out (conn\<lparr>ac_tcp_connector := fst ret\<rparr>) (snd ret) }"
  by pat_completeness auto

termination
proof (relation "measure (\<lambda>x. case x of Inl (_, _, _, st) \<Rightarrow> if st = tcp_connector_timed_out then 2 else 0 | Inr _ \<Rightarrow> 1)")
qed (auto dest: try_no_timeout)

declare tcp_auto_connector_connect.simps [simp del]

definition tcp_auto_connector_reconn_wait_timeout ::
    "'u auto_cb \<Rightarrow> connect_outcome \<Rightarrow> 'u tcp_auto_connector \<Rightarrow> 'u tcp_auto_connector option" where
  "tcp_auto_connector_reconn_wait_timeout cb out conn = tcp_auto_connector_connect cb out conn"

definition tcp_auto_connector_tcp_connector_callback ::
    "'u auto_cb \<Rightarrow> connect_outcome \<Rightarrow> 'u tcp_auto_connector \<Rightarrow> tcp_connector \<Rightarrow> tcp_connector_status
      \<Rightarrow> 'u tcp_auto_connector option" where
  "tcp_auto_connector_tcp_connector_callback cb out conn tconn status =
     tcp_auto_connector_handle_tcp_connect_event cb out (conn\<lparr>ac_tcp_connector := tconn\<rparr>) status"

definition tcp_auto_connector_init ::
    "'u tcp_auto_connector \<Rightarrow> string \<Rightarrow> rat \<Rightarrow> rat \<Rightarrow> 'u tcp_auto_connector" where
  "tcp_auto_connector_init conn server_addr conn_tmr reconn_wait_tmr =
     conn\<lparr>ac_server_addr := server_addr, ac_conn_tmr_value := conn_tmr, ac_reconn_wait_tmr_value := reconn_wait_tmr,
       ac_reconn_wait_tmr := task_timer_init, ac_state := tcp_auto_connector_state_not_started\<rparr>"

definition tcp_auto_connector_start ::
    "'u auto_cb \<Rightarrow> connect_outcome \<Rightarrow> 'u tcp_auto_connector \<Rightarrow> 'u tcp_auto_connector option" where
  "tcp_auto_connector_start cb out conn = tcp_auto_connector_connect cb out conn"

definition tcp_auto_connector_stop :: "'u tcp_auto_connector \<Rightarrow> 'u tcp_auto_connector" where
  "tcp_auto_connector_stop conn =
     (let conn = (case ac_state conn of
          tcp_auto_connector_state_reconnect_wait \<Rightarrow>
            conn\<lparr>ac_tcp_connector := tcp_connector_deinit (ac_tcp_connector conn),
              ac_reconn_wait_tmr := task_timer_stop (ac_reconn_wait_tmr conn)\<rparr>
        | _ \<Rightarrow> conn\<lparr>ac_tcp_connector := tcp_connector_deinit (ac_tcp_connector conn)\<rparr>)
      in conn\<lparr>ac_state := tcp_auto_connector_state_not_started\<rparr>)"

section \<open>Events\<close>

text \<open>
  What can happen: the owner starts it when it is not started, and stops it at any time; the
  watcher and the timers fire when they are active, a timer having stopped itself before.
\<close>

datatype auto_event =
  Ac_start connect_outcome | Ac_stop | Ac_writable int connect_outcome | Ac_timeout connect_outcome
| Ac_reconnect connect_outcome

fun auto_enabled :: "'u tcp_auto_connector \<Rightarrow> auto_event \<Rightarrow> bool" where
  "auto_enabled a (Ac_start out) \<longleftrightarrow> ac_state a = tcp_auto_connector_state_not_started"
| "auto_enabled a Ac_stop \<longleftrightarrow> True"
| "auto_enabled a (Ac_writable err out) \<longleftrightarrow> tc_watching (ac_tcp_connector a)"
| "auto_enabled a (Ac_timeout out) \<longleftrightarrow> task_timer_active (tc_tmr (ac_tcp_connector a))"
| "auto_enabled a (Ac_reconnect out) \<longleftrightarrow> task_timer_active (ac_reconn_wait_tmr a)"

fun auto_step :: "'u auto_cb \<Rightarrow> 'u tcp_auto_connector \<Rightarrow> auto_event \<Rightarrow> 'u tcp_auto_connector option" where
  "auto_step cb a (Ac_start out) = tcp_auto_connector_start cb out a"
| "auto_step cb a Ac_stop = Some (tcp_auto_connector_stop a)"
| "auto_step cb a (Ac_writable err out) =
     tcp_connector_watcher_callback (tcp_auto_connector_tcp_connector_callback cb out a) err (ac_tcp_connector a)"
| "auto_step cb a (Ac_timeout out) =
     (let c = ac_tcp_connector a; c = c\<lparr>tc_tmr := task_timer_expire (tc_tmr c)\<rparr>
      in tcp_connector_timeout (tcp_auto_connector_tcp_connector_callback cb out a) c)"
| "auto_step cb a (Ac_reconnect out) =
     tcp_auto_connector_reconn_wait_timeout cb out (a\<lparr>ac_reconn_wait_tmr := task_timer_expire (ac_reconn_wait_tmr a)\<rparr>)"

text \<open>Events that cannot happen in a state are skipped.\<close>

definition auto_run :: "'u auto_cb \<Rightarrow> 'u tcp_auto_connector \<Rightarrow> auto_event list \<Rightarrow> 'u tcp_auto_connector option" where
  "auto_run cb a es = foldo (\<lambda>a e. if auto_enabled a e then auto_step cb a e else Some a) a es"

section \<open>Invariant\<close>

text \<open>The state tells what is going on, and an attempt or the pause before the next is always timed.\<close>

definition auto_inv :: "'u tcp_auto_connector \<Rightarrow> bool" where
  "auto_inv a \<longleftrightarrow> fds_balanced (ac_tcp_connector a) \<and>
     (case ac_state a of
        tcp_auto_connector_state_not_started \<Rightarrow>
          attempt_idle (ac_tcp_connector a) \<and> tc_sd (ac_tcp_connector a) = -1 \<and> \<not> task_timer_active (ac_reconn_wait_tmr a)
      | tcp_auto_connector_state_connecting \<Rightarrow>
          attempt_running (ac_tcp_connector a) \<and> \<not> task_timer_active (ac_reconn_wait_tmr a)
      | tcp_auto_connector_state_reconnect_wait \<Rightarrow>
          attempt_idle (ac_tcp_connector a) \<and> tc_sd (ac_tcp_connector a) = -1 \<and> task_timer_active (ac_reconn_wait_tmr a)
          \<and> tmr_repeat (ac_reconn_wait_tmr a) = 0)"

text \<open>Between attempts: nothing owned, nothing active; the state is about to be set.\<close>

definition auto_between :: "'u tcp_auto_connector \<Rightarrow> bool" where
  "auto_between a \<longleftrightarrow> fds_balanced (ac_tcp_connector a) \<and> attempt_idle (ac_tcp_connector a)
     \<and> tc_sd (ac_tcp_connector a) = -1 \<and> \<not> task_timer_active (ac_reconn_wait_tmr a)"

text \<open>The contract of the owner: its callback returns and leaves the connector's own fields alone.\<close>

locale auto_owner =
  fixes cb :: "'u auto_cb"
  assumes cb_keeps: "\<exists>e. cb a sd = Some (a\<lparr>ac_env := e\<rparr>)"
begin

lemma success_inv:
  assumes "fds_balanced (ac_tcp_connector a)" "attempt_idle (ac_tcp_connector a)" "tc_sd (ac_tcp_connector a) \<noteq> -1"
    "\<not> task_timer_active (ac_reconn_wait_tmr a)"
  shows "\<exists>a'. tcp_auto_connector_handle_tcp_connect_event cb out a tcp_connector_success = Some a' \<and> auto_inv a'"
proof -
  let ?a = "a\<lparr>ac_state := tcp_auto_connector_state_not_started, ac_tcp_connector := fst (tcp_connect_get_sd (ac_tcp_connector a))\<rparr>"
  obtain e where "cb ?a (snd (tcp_connect_get_sd (ac_tcp_connector a))) = Some (?a\<lparr>ac_env := e\<rparr>)"
    using cb_keeps by blast
  then show ?thesis
    using tcp_connect_get_sd_spec [of "ac_tcp_connector a"] assms by (simp add: Let_def split_beta auto_inv_def)
qed

lemma failure_inv:
  assumes "fds_balanced (ac_tcp_connector a)" "attempt_idle (ac_tcp_connector a)" "\<not> task_timer_active (ac_reconn_wait_tmr a)"
  shows "\<exists>a'. tcp_auto_connector_handle_tcp_connect_event cb out a tcp_connector_failure = Some a' \<and> auto_inv a'"
proof -
  let ?a = "a\<lparr>ac_tcp_connector := tcp_connector_deinit (ac_tcp_connector a),
    ac_state := tcp_auto_connector_state_reconnect_wait,
    ac_reconn_wait_tmr := task_timer_start (ac_reconn_wait_tmr a) (ac_reconn_wait_tmr_value a) 0\<rparr>"
  obtain e where "cb ?a (-1) = Some (?a\<lparr>ac_env := e\<rparr>)" using cb_keeps by blast
  then show ?thesis
    using tcp_connector_deinit_spec [of "ac_tcp_connector a"] assms
    by (simp add: Let_def auto_inv_def timer_simps)
qed

lemma connect_inv:
  assumes "auto_between a"
  shows "\<exists>a'. tcp_auto_connector_connect cb out a = Some a' \<and> auto_inv a'"
proof -
  obtain c st where c: "tcp_connector_try_ipv4 out (ac_tcp_connector a) (ac_conn_tmr_value a) = Some (c, st)"
      "fds_balanced c" "tc_sd c = (if co_socket out < 0 then -1 else co_socket out)"
      "st = (if co_socket out < 0 then tcp_connector_failure
            else case co_connect out of Conn_ok \<Rightarrow> tcp_connector_success
              | Conn_EINPROGRESS \<Rightarrow> tcp_connector_in_progress | Conn_error \<Rightarrow> tcp_connector_failure)"
      "if st = tcp_connector_in_progress then attempt_running c else attempt_idle c"
    using tcp_connector_try_ipv4_spec [of "ac_tcp_connector a"] assms unfolding auto_between_def by blast
  have t: "\<not> task_timer_active (ac_reconn_wait_tmr a)" using assms by (simp add: auto_between_def)
  let ?a = "a\<lparr>ac_tcp_connector := c\<rparr>"
  have step: "tcp_auto_connector_connect cb out a = tcp_auto_connector_handle_tcp_connect_event cb out ?a st"
    using c(1) by (simp add: tcp_auto_connector_connect.simps)
  show ?thesis
  proof (cases st)
    case tcp_connector_success
    then have "tc_sd c \<noteq> -1" using c(3,4) by (auto split: if_splits)
    then show ?thesis using success_inv [of ?a] c(2,5) t step tcp_connector_success by simp
  next
    case tcp_connector_failure
    then show ?thesis using failure_inv [of ?a] c(2,5) t step by simp
  next
    case tcp_connector_in_progress
    then show ?thesis using c(2,5) t step by (simp add: auto_inv_def)
  next
    case tcp_connector_timed_out
    then show ?thesis using c(4) by (auto split: if_splits connect_answer.splits)
  qed
qed

lemma timeout_inv:
  assumes "fds_balanced (ac_tcp_connector a)" "attempt_idle (ac_tcp_connector a)" "\<not> task_timer_active (ac_reconn_wait_tmr a)"
  shows "\<exists>a'. tcp_auto_connector_handle_tcp_connect_event cb out a tcp_connector_timed_out = Some a' \<and> auto_inv a'"
proof -
  let ?a = "a\<lparr>ac_tcp_connector := tcp_connector_deinit (ac_tcp_connector a)\<rparr>"
  obtain e where e: "cb ?a (-1) = Some (?a\<lparr>ac_env := e\<rparr>)" using cb_keeps by blast
  have "auto_between (?a\<lparr>ac_env := e\<rparr>)"
    using tcp_connector_deinit_spec [of "ac_tcp_connector a"] assms by (simp add: auto_between_def)
  from connect_inv [OF this, of out] show ?thesis using e by (simp add: Let_def)
qed

lemma step_inv:
  assumes inv: "auto_inv a" and en: "auto_enabled a ev"
  shows "\<exists>a'. auto_step cb a ev = Some a' \<and> auto_inv a'"
proof (cases ev)
  case (Ac_start out)
  then have "auto_between a" using inv en by (simp add: auto_inv_def auto_between_def)
  then show ?thesis using connect_inv Ac_start by (simp add: tcp_auto_connector_start_def)
next
  case Ac_stop
  then show ?thesis
    using inv tcp_connector_deinit_spec [of "ac_tcp_connector a"]
    by (cases "ac_state a") (auto simp: auto_inv_def tcp_auto_connector_stop_def Let_def timer_simps)
next
  case (Ac_writable err out)
  let ?c = "ac_tcp_connector a"
  let ?c' = "?c\<lparr>tc_is_in_prog := False, tc_watcher := watcher_stop (tc_watcher ?c), tc_tmr := task_timer_stop (tc_tmr ?c)\<rparr>"
  have run: "attempt_running ?c" "fds_balanced ?c" "\<not> task_timer_active (ac_reconn_wait_tmr a)"
    using inv en Ac_writable by (auto simp: auto_inv_def attempt_idle_def split: tcp_auto_connector_state.splits)
  then have c': "attempt_idle ?c'" "fds_balanced ?c'" "tc_sd ?c' \<noteq> -1"
    using watcher_stop_inactive
    by (auto simp: attempt_running_def attempt_idle_def tc_watching_def fds_balanced_def timer_simps)
  show ?thesis
    using success_inv [of "a\<lparr>ac_tcp_connector := ?c'\<rparr>" out] failure_inv [of "a\<lparr>ac_tcp_connector := ?c'\<rparr>" out] c' run(3)
    by (simp add: Ac_writable tcp_connector_watcher_callback_def tcp_auto_connector_tcp_connector_callback_def Let_def
        del: tcp_auto_connector_handle_tcp_connect_event.simps)
next
  case (Ac_timeout out)
  let ?c = "ac_tcp_connector a"
  let ?c' = "?c\<lparr>tc_tmr := task_timer_expire (tc_tmr ?c), tc_is_in_prog := False, tc_watcher := watcher_stop (tc_watcher ?c)\<rparr>"
  have run: "attempt_running ?c" "fds_balanced ?c" "\<not> task_timer_active (ac_reconn_wait_tmr a)"
    using inv en Ac_timeout by (auto simp: auto_inv_def attempt_idle_def split: tcp_auto_connector_state.splits)
  then have c': "attempt_idle ?c'" "fds_balanced ?c'"
    using watcher_stop_inactive
    by (auto simp: attempt_running_def attempt_idle_def tc_watching_def fds_balanced_def timer_simps)
  show ?thesis
    using timeout_inv [of "a\<lparr>ac_tcp_connector := ?c'\<rparr>" out] c' run(3)
    by (simp add: Ac_timeout tcp_connector_timeout_def tcp_auto_connector_tcp_connector_callback_def Let_def
        del: tcp_auto_connector_handle_tcp_connect_event.simps)
next
  case (Ac_reconnect out)
  have "auto_between (a\<lparr>ac_reconn_wait_tmr := task_timer_expire (ac_reconn_wait_tmr a)\<rparr>)"
    using inv en Ac_reconnect
    by (auto simp: auto_inv_def auto_between_def timer_simps split: tcp_auto_connector_state.splits)
  then show ?thesis using connect_inv Ac_reconnect by (simp add: tcp_auto_connector_reconn_wait_timeout_def)
qed

lemma run_inv:
  assumes "auto_inv a"
  shows "\<exists>a'. auto_run cb a es = Some a' \<and> auto_inv a'"
  unfolding auto_run_def by (rule foldo_invariant) (use assms step_inv in auto)

end

lemma try_forgets_sd: "tcp_connector_try_ipv4 out (conn\<lparr>tc_sd := sd\<rparr>) to = tcp_connector_try_ipv4 out conn to"
  by (simp add: tcp_connector_try_ipv4_def)

lemma connect_forgets_sd:
  "tcp_auto_connector_connect cb out (a\<lparr>ac_tcp_connector := (ac_tcp_connector a)\<lparr>tc_sd := sd\<rparr>\<rparr>)
    = tcp_auto_connector_connect cb out a"
  by (simp add: tcp_auto_connector_connect.simps try_forgets_sd)

section \<open>Stopping at the wrong time\<close>

text \<open>
  Stopping a connector that was never started closes whatever number its memory holds, descriptor 0
  when the memory is zero: \<open>tcp_auto_connector_init\<close> does not set it.
\<close>

lemma auto_stop_before_start_closes:
  assumes "\<not> tc_is_in_prog (ac_tcp_connector a)" "tc_sd (ac_tcp_connector a) = 0" "tc_closed (ac_tcp_connector a) = []"
  shows "tc_closed (ac_tcp_connector (tcp_auto_connector_stop (tcp_auto_connector_init a addr t1 t2))) = [0]"
  using assms by (simp add: tcp_auto_connector_stop_def tcp_auto_connector_init_def tcp_connector_deinit_def Let_def)

text \<open>An owner that stops the connector when told of a timed-out attempt is not obeyed: the next attempt begins.\<close>

lemma auto_stop_in_timeout_is_ignored:
  assumes "attempt_running (ac_tcp_connector a)" "fds_balanced (ac_tcp_connector a)" "0 \<le> co_socket out"
    "co_connect out = Conn_EINPROGRESS"
  shows "\<exists>a'. auto_step (\<lambda>a sd. Some (tcp_auto_connector_stop a)) a (Ac_timeout out) = Some a'
    \<and> ac_state a' = tcp_auto_connector_state_connecting"
proof -
  let ?c = "ac_tcp_connector a"
  let ?c' = "?c\<lparr>tc_tmr := task_timer_expire (tc_tmr ?c), tc_is_in_prog := False, tc_watcher := watcher_stop (tc_watcher ?c)\<rparr>"
  let ?cb = "\<lambda>a (sd :: int). Some (tcp_auto_connector_stop a)"
  have c': "attempt_idle ?c'" "fds_balanced ?c'"
    using assms(1,2) watcher_stop_inactive
    by (auto simp: attempt_running_def attempt_idle_def tc_watching_def fds_balanced_def timer_simps)
  define b where "b = tcp_auto_connector_stop (a\<lparr>ac_tcp_connector := tcp_connector_deinit ?c'\<rparr>)"
  have dd: "tcp_connector_deinit (tcp_connector_deinit ?c') = tcp_connector_deinit ?c'"
    by (simp add: tcp_connector_deinit_def Let_def)
  have "ac_tcp_connector b = tcp_connector_deinit ?c'"
    unfolding b_def tcp_auto_connector_stop_def Let_def
    by (cases "ac_state a") (simp_all add: dd)
  moreover obtain c st where "tcp_connector_try_ipv4 out (ac_tcp_connector b) (ac_conn_tmr_value b) = Some (c, st)"
      "st = tcp_connector_in_progress"
    using tcp_connector_try_ipv4_spec [of "ac_tcp_connector b" out "ac_conn_tmr_value b"]
      tcp_connector_deinit_spec [of ?c'] c' assms(3,4) calculation by auto
  ultimately have "tcp_auto_connector_connect ?cb out b = Some (b\<lparr>ac_tcp_connector := c, ac_state := tcp_auto_connector_state_connecting\<rparr>)"
    by (simp add: tcp_auto_connector_connect.simps)
  then show ?thesis
    by (simp add: tcp_connector_timeout_def tcp_auto_connector_tcp_connector_callback_def Let_def b_def)
qed

section \<open>Properties\<close>

text \<open>
  C8: Once started, and whatever then happens (starting again, stopping, the socket becoming writable
  with or without an error, timeouts, reconnects, each with any answer of the kernel), the connector's
  state tells the truth: connecting means a watched socket with a running timeout, waiting means
  no socket and a running pause, otherwise nothing is owned or active; and every descriptor ever
  opened is owned, closed or handed to the owner, exactly once. This holds for every owner whose
  callback leaves the connector alone.
\<close>

theorem auto_connector_invariant:
  assumes "\<And>a sd. \<exists>e. cb a sd = Some (a\<lparr>ac_env := e\<rparr>)"
    and "attempt_idle (ac_tcp_connector a)" "tc_opened (ac_tcp_connector a) = []" "tc_closed (ac_tcp_connector a) = []"
      "tc_taken (ac_tcp_connector a) = []"
  shows "\<exists>a'. auto_run cb (tcp_auto_connector_init a addr t1 t2) (Ac_start out # es) = Some a' \<and> auto_inv a'"
proof -
  have owner: "auto_owner cb" by (rule auto_owner.intro) (rule assms(1))
  let ?a = "tcp_auto_connector_init a addr t1 t2"
  let ?b = "?a\<lparr>ac_tcp_connector := (ac_tcp_connector ?a)\<lparr>tc_sd := -1\<rparr>\<rparr>"
  have "auto_between ?b"
    using assms(2-) by (simp add: auto_between_def tcp_auto_connector_init_def fds_balanced_def attempt_idle_def
        tc_watching_def timer_simps)
  from auto_owner.connect_inv [OF owner this, of out]
  obtain a1 where a1: "tcp_auto_connector_connect cb out ?a = Some a1" "auto_inv a1"
    by (auto simp: connect_forgets_sd)
  have "auto_enabled ?a (Ac_start out)" by (simp add: tcp_auto_connector_init_def)
  then have "auto_run cb ?a (Ac_start out # es) = auto_run cb a1 es"
    using a1(1) by (simp add: auto_run_def tcp_auto_connector_start_def)
  then show ?thesis using auto_owner.run_inv [OF owner a1(2)] by simp
qed

lemma auto_connector_invariant_witness:
  "\<exists>a'. auto_run (\<lambda>a sd. Some (a\<lparr>ac_env := ac_env a @ [sd]\<rparr>))
     (tcp_auto_connector_init \<lparr>ac_tcp_connector = \<lparr>tc_sd = 0, tc_is_in_prog = False, tc_tmr = task_timer_init,
         tc_watcher = watcher_init_with_fd 0, tc_opened = [], tc_closed = [], tc_taken = []\<rparr>, ac_server_addr = [],
        ac_reconn_wait_tmr = task_timer_init, ac_conn_tmr_value = 0, ac_reconn_wait_tmr_value = 0,
        ac_state = tcp_auto_connector_state_not_started, ac_env = []\<rparr> ''srv'' 5 1)
     [Ac_start \<lparr>co_socket = 7, co_connect = Conn_EINPROGRESS\<rparr>, Ac_timeout \<lparr>co_socket = 7, co_connect = Conn_error\<rparr>,
      Ac_reconnect \<lparr>co_socket = 8, co_connect = Conn_ok\<rparr>, Ac_stop] = Some a' \<and> auto_inv a'"
  by (rule auto_connector_invariant)
     (auto simp: attempt_idle_def tc_watching_def watcher_init_with_fd_def ev_io_init_def timer_simps)

end
