(* ===== verification/Modbus_Tcp_Master.thy ===== *)
theory Modbus_Tcp_Master
  imports Modbus_Master Modbus_Tcp_Slave Tcp_Auto_Connector
begin

text \<open>
  \<open>src/protocols/modbus/modbus_tcp_master.c\<close>: the Modbus master for TCP. It owns an auto connector, a
  stream and an MBAP reader; when one of them calls back it is found from their address. Here each
  component is taken out of the master and given the master as its environment while it runs, and put
  back afterwards. The kernel's answers are inputs; the application's callback acts on \<open>mt_app\<close>.
\<close>

section \<open>State\<close>

definition MODBUS_TCP_MASTER_CONNECT_TIMEOUT :: rat where "MODBUS_TCP_MASTER_CONNECT_TIMEOUT = 5"
definition MODBUS_TCP_MASTER_PROBATION_TIMEOUT :: rat where "MODBUS_TCP_MASTER_PROBATION_TIMEOUT = 1"

datatype modbus_tcp_master_state =
  ModbusTCPMasterState_Not_Connected | ModbusTCPMasterState_Connecting | ModbusTCPMasterState_Connected

record 'u tcp_master =
  mt_ctx :: mb_master_ctx
  mt_server_addr :: string
  mt_tcp_connector :: "unit tcp_auto_connector"
  mt_tcp_state :: modbus_tcp_master_state
  mt_stream :: "unit stream"
  mt_tid :: u16
  mt_pid :: u16
  mt_mbap_reader :: "unit mbap_reader"
  mt_app :: 'u

definition ac_attach :: "'a tcp_auto_connector \<Rightarrow> 'b \<Rightarrow> 'b tcp_auto_connector" where
  "ac_attach a e = \<lparr>ac_tcp_connector = ac_tcp_connector a, ac_server_addr = ac_server_addr a,
     ac_reconn_wait_tmr = ac_reconn_wait_tmr a, ac_conn_tmr_value = ac_conn_tmr_value a,
     ac_reconn_wait_tmr_value = ac_reconn_wait_tmr_value a, ac_state = ac_state a, ac_env = e\<rparr>"

definition st_attach :: "'a stream \<Rightarrow> 'b \<Rightarrow> 'b stream" where
  "st_attach s e = \<lparr>st_watcher = st_watcher s, st_rx_buf = st_rx_buf s, st_rx_buf_size = st_rx_buf_size s,
     st_rx_data_len = st_rx_data_len s, st_tx_buf = st_tx_buf s, st_wire = st_wire s, st_open = st_open s, st_env = e\<rparr>"

definition mb_attach :: "'a mbap_reader \<Rightarrow> 'b \<Rightarrow> 'b mbap_reader" where
  "mb_attach m e = \<lparr>mbap_frame = mbap_frame m, mbap_state = mbap_state m, mbap_tid = mbap_tid m,
     mbap_pid = mbap_pid m, mbap_length = mbap_length m, mbap_uid = mbap_uid m,
     mbap_header_remaining = mbap_header_remaining m, mbap_data_remaining = mbap_data_remaining m,
     mbap_ndx = mbap_ndx m, mbap_env = e\<rparr>"

text \<open>The master that owns a component.\<close>

definition master_of_connector :: "'u tcp_master tcp_auto_connector \<Rightarrow> 'u tcp_master" where
  "master_of_connector a = (ac_env a)\<lparr>mt_tcp_connector := ac_attach a ()\<rparr>"

definition master_of_stream :: "'u tcp_master stream \<Rightarrow> 'u tcp_master" where
  "master_of_stream s = (st_env s)\<lparr>mt_stream := st_attach s ()\<rparr>"

definition master_of_reader :: "'u tcp_master mbap_reader \<Rightarrow> 'u tcp_master" where
  "master_of_reader r = (mbap_env r)\<lparr>mt_mbap_reader := mb_attach r ()\<rparr>"

section \<open>Connecting\<close>

text \<open>The connector's callback; \<open>block\<close> is what \<open>malloc\<close> returns for the transmit buffer.\<close>

definition modbus_tcp_master_tcp_connector_callback :: "u8 list option \<Rightarrow> 'u tcp_master auto_cb" where
  "modbus_tcp_master_tcp_connector_callback block con sd =
     (if sd \<ge> 0 then do {
        let master = ac_env con;
        let master = master\<lparr>mt_tcp_state := ModbusTCPMasterState_Connected\<rparr>;
        st \<leftarrow> stream_init_with_fd block (mt_stream master) sd (st_rx_buf (mt_stream master)) 128 512;
        let master = master\<lparr>mt_stream := stream_start st\<rparr>;
        Some (con\<lparr>ac_env := master\<lparr>mt_mbap_reader := mbap_reader_init (mt_mbap_reader master)\<rparr>\<rparr>) }
      else Some con)"

definition modbus_tcp_master_connect :: "u8 list option \<Rightarrow> connect_outcome \<Rightarrow> 'u tcp_master \<Rightarrow> 'u tcp_master option" where
  "modbus_tcp_master_connect block out master =
     map_option master_of_connector (tcp_auto_connector_start (modbus_tcp_master_tcp_connector_callback block) out
       (ac_attach (mt_tcp_connector master) master))"

definition modbus_tcp_master_start_reconnect ::
    "u8 list option \<Rightarrow> connect_outcome \<Rightarrow> 'u tcp_master \<Rightarrow> 'u tcp_master option" where
  "modbus_tcp_master_start_reconnect block out master =
     (let master = master\<lparr>mt_stream := stream_deinit (mt_stream master),
            mt_mbap_reader := mbap_reader_reset (mt_mbap_reader master)\<rparr>;
          master = master\<lparr>mt_tcp_state := ModbusTCPMasterState_Connecting\<rparr>;
          master = master\<lparr>mt_tcp_connector := tcp_auto_connector_init (mt_tcp_connector master) (mt_server_addr master)
            MODBUS_TCP_MASTER_CONNECT_TIMEOUT MODBUS_TCP_MASTER_PROBATION_TIMEOUT\<rparr>
      in modbus_tcp_master_connect block out master)"

section \<open>Requests\<close>

text \<open>The transport of \<open>mb_master_\<close> requests: \<open>ctx\<close> is the master's own context with the PDU in it.\<close>

definition modbus_tcp_master_request ::
    "kernel_write \<Rightarrow> u8 list option \<Rightarrow> connect_outcome \<Rightarrow> 'u tcp_master \<Rightarrow> 'u tcp_master mb_transport" where
  "modbus_tcp_master_request k block out master ctx slave = do {
     let master = master\<lparr>mt_ctx := ctx\<rparr>;
     let frame_len = mm_tx_ndx ctx + 1 - 7;
     if mt_tcp_state master \<noteq> ModbusTCPMasterState_Connected then Some master
     else do {
       b \<leftarrow> mem_store (mm_tx_buf ctx) 0 (hi_byte (mt_tid master));
       b \<leftarrow> mem_store b 1 (lo_byte (mt_tid master));
       b \<leftarrow> mem_store b 2 (hi_byte (mt_pid master));
       b \<leftarrow> mem_store b 3 (lo_byte (mt_pid master));
       b \<leftarrow> mem_store b 4 (hi_byte frame_len);
       b \<leftarrow> mem_store b 5 (lo_byte frame_len);
       b \<leftarrow> mem_store b 6 slave;
       let master = master\<lparr>mt_ctx := ctx\<lparr>mm_tx_buf := b\<rparr>\<rparr>;
       (st, ok) \<leftarrow> stream_write k (mt_stream master) b (uint (mm_tx_ndx ctx));
       let master = master\<lparr>mt_stream := st\<rparr>;
       master \<leftarrow> (if \<not> ok then modbus_tcp_master_start_reconnect block out master else Some master);
       Some (master\<lparr>mt_tid := mt_tid master + 1\<rparr>) } }"

section \<open>Replies\<close>

text \<open>
  \<open>master->tid - 1\<close> is computed in \<open>int\<close>: when \<open>tid\<close> has wrapped to 0 it is -1 and equals no
  transaction identifier.
\<close>

definition modbus_tcp_master_got_frame :: "(master_event \<Rightarrow> 'u \<Rightarrow> 'u option) \<Rightarrow> 'u tcp_master mbap_reader_cb" where
  "modbus_tcp_master_got_frame cb mbap =
     (let master = mbap_env mbap in
      if uint (mt_tid master) - 1 \<noteq> uint (mbap_tid mbap) then Some mbap
      else if mt_pid master \<noteq> mbap_pid mbap then Some mbap
      else do {
        app \<leftarrow> modbus_rtu_handler_response_rx cb (mt_ctx master) (mbap_uid mbap) (drop 7 (mbap_frame mbap))
          (uint (mbap_length mbap) - 1) (mt_app master);
        Some (mbap\<lparr>mbap_env := master\<lparr>mt_app := app\<rparr>\<rparr>) })"

definition modbus_tcp_master_stream_callback ::
    "(master_event \<Rightarrow> 'u \<Rightarrow> 'u option) \<Rightarrow> u8 list option \<Rightarrow> connect_outcome \<Rightarrow> 'u tcp_master stream_callback" where
  "modbus_tcp_master_stream_callback cb block out stream evt = do {
     let master = master_of_stream stream;
     master \<leftarrow> (case evt of
         stream_event_rx \<Rightarrow> map_option master_of_reader
           (mbap_reader_feed (modbus_tcp_master_got_frame cb) (mb_attach (mt_mbap_reader master) master)
             (st_rx_buf stream) (st_rx_data_len stream))
       | stream_event_eof \<Rightarrow> modbus_tcp_master_start_reconnect block out master
       | stream_event_err \<Rightarrow> modbus_tcp_master_start_reconnect block out master
       | stream_event_tx \<Rightarrow> Some master);
     Some (st_attach (mt_stream master) master) }"

section \<open>Public interface\<close>

definition modbus_tcp_master_init :: "'u tcp_master \<Rightarrow> string \<Rightarrow> 'u tcp_master" where
  "modbus_tcp_master_init master server_addr =
     (let master = master\<lparr>mt_ctx := mb_master_ctx_init ((mt_ctx master)\<lparr>mm_pdu_offset := 7\<rparr>)\<rparr>
      in master\<lparr>mt_tid := 0, mt_pid := 0, mt_server_addr := server_addr, mt_tcp_state := ModbusTCPMasterState_Not_Connected,
        mt_tcp_connector := tcp_auto_connector_init (mt_tcp_connector master) server_addr
          MODBUS_TCP_MASTER_CONNECT_TIMEOUT MODBUS_TCP_MASTER_PROBATION_TIMEOUT\<rparr>)"

definition modbus_tcp_master_start :: "u8 list option \<Rightarrow> connect_outcome \<Rightarrow> 'u tcp_master \<Rightarrow> 'u tcp_master option" where
  "modbus_tcp_master_start block out master =
     modbus_tcp_master_connect block out (master\<lparr>mt_tcp_state := ModbusTCPMasterState_Connecting\<rparr>)"

definition modbus_tcp_master_stop :: "'u tcp_master \<Rightarrow> 'u tcp_master" where
  "modbus_tcp_master_stop master =
     (case mt_tcp_state master of
        ModbusTCPMasterState_Not_Connected \<Rightarrow> master
      | ModbusTCPMasterState_Connecting \<Rightarrow>
          master\<lparr>mt_tcp_connector := tcp_auto_connector_stop (mt_tcp_connector master)\<rparr>
      | ModbusTCPMasterState_Connected \<Rightarrow> master\<lparr>mt_stream := stream_deinit (mt_stream master)\<rparr>)
       \<lparr>mt_tcp_state := ModbusTCPMasterState_Not_Connected\<rparr>"

section \<open>The master as an owner of the connector and a client of the reader\<close>

lemma stream_init_total:
  "\<exists>s'. stream_init_with_fd block s fd rx n m = Some s' \<and> st_rx_buf s' = rx \<and> st_wire s' = st_wire s
    \<and> st_env s' = st_env s \<and> st_open s'"
proof -
  obtain w1 where w1: "watcher_watch_rx (watcher_init_with_fd fd) = Some w1" "watcher_inv w1"
    using watcher_start_target_spec(1) watcher_init_spec by blast
  obtain w2 where w2: "watcher_watch_err w1 = Some w2" using watcher_start_target_spec(3) [OF w1(2)] by blast
  show ?thesis using w1 w2 by (simp add: stream_init_with_fd_def split_beta)
qed

lemma master_connected_callback: "\<exists>e. modbus_tcp_master_tcp_connector_callback block a sd = Some (a\<lparr>ac_env := e\<rparr>)"
proof (cases "sd \<ge> 0")
  case True
  obtain st where "stream_init_with_fd block (mt_stream (ac_env a)) sd (st_rx_buf (mt_stream (ac_env a))) 128 512 = Some st"
    using stream_init_total by blast
  then show ?thesis using True by (auto simp: modbus_tcp_master_tcp_connector_callback_def Let_def)
next
  case False
  then show ?thesis by (intro exI [of _ "ac_env a"]) (simp add: modbus_tcp_master_tcp_connector_callback_def)
qed

interpretation tcp_master: auto_owner "modbus_tcp_master_tcp_connector_callback block" for block
  by (rule auto_owner.intro) (rule master_connected_callback)

text \<open>What the connector's own events do to the master.\<close>

definition modbus_tcp_master_connector_event ::
    "u8 list option \<Rightarrow> 'u tcp_master \<Rightarrow> auto_event \<Rightarrow> 'u tcp_master option" where
  "modbus_tcp_master_connector_event block master ev =
     map_option master_of_connector (auto_step (modbus_tcp_master_tcp_connector_callback block)
       (ac_attach (mt_tcp_connector master) master) ev)"

lemma attach_fields [simp]:
  "mbap_env (mb_attach r e) = e" "mbap_fresh (mb_attach r e) = mbap_fresh r" "mbap_frame (mb_attach r e) = mbap_frame r"
  "mbap_inv (mb_attach r e) = mbap_inv r" "st_env (st_attach s e) = e" "ac_env (ac_attach a e) = e"
  "stream_inv (st_attach s e) = stream_inv s" "st_queue (st_attach s e) = st_queue s" "st_wire (st_attach s e) = st_wire s"
  by (simp_all add: mb_attach_def st_attach_def ac_attach_def mbap_fresh_def mbap_inv_def stream_inv_def st_queue_def
      split: mbap_reader_state.split)

text \<open>The application promises that its callbacks return; then the master takes every frame.\<close>

locale master_app =
  fixes cb :: "master_event \<Rightarrow> 'u \<Rightarrow> 'u option"
  assumes cb_returns: "\<exists>u'. cb ev u = Some u'"
begin

lemma response_returns:
  assumes "5 \<le> length pdu"
  shows "\<exists>u'. modbus_rtu_handler_response_rx cb ctx slave pdu n u = Some u'"
proof -
  obtain ok where "modbus_rtu_validate_response ctx slave pdu n = Some ok" using validate_defined [OF assms] by blast
  then show ?thesis
    using cb_returns by (simp add: modbus_rtu_handler_response_rx_def Let_def del: bind_option_Some_iff)
qed

lemma got_frame_returns:
  assumes "length (mbap_frame r) = 260"
  shows "\<exists>r'. modbus_tcp_master_got_frame cb r = Some r' \<and> length (mbap_frame r') = 260"
proof -
  have "5 \<le> length (drop 7 (mbap_frame r))" using assms by simp
  from response_returns [OF this] obtain u' where "modbus_rtu_handler_response_rx cb (mt_ctx (mbap_env r)) (mbap_uid r)
      (drop 7 (mbap_frame r)) (uint (mbap_length r) - 1) (mt_app (mbap_env r)) = Some u'"
    by blast
  then show ?thesis using assms by (auto simp: modbus_tcp_master_got_frame_def Let_def)
qed

end

sublocale master_app \<subseteq> replies: mbap_client "modbus_tcp_master_got_frame cb" "\<lambda>_. True"
  by unfold_locales (use got_frame_returns mbap_complete_fields(1) in blast)

text \<open>\<open>src/demo/modbus_master_test.c\<close>: the demo's callbacks only trace.\<close>

definition demo_master_cb :: "master_event \<Rightarrow> 'u \<Rightarrow> 'u option" where
  "demo_master_cb ev u = Some u"

interpretation demo_master: master_app demo_master_cb
  by unfold_locales (simp add: demo_master_cb_def)

section \<open>One request\<close>

definition master_ready :: "'u tcp_master \<Rightarrow> bool" where
  "master_ready m \<longleftrightarrow> mt_tcp_state m = ModbusTCPMasterState_Connected \<and> stream_inv (mt_stream m)
     \<and> st_queue (mt_stream m) = [] \<and> mm_pdu_offset (mt_ctx m) = 7
     \<and> length (mm_tx_buf (mt_ctx m)) = MODBUS_MASTER_MAX_BUFFER_SIZE"

definition request_frame :: "'u tcp_master \<Rightarrow> u8 \<Rightarrow> u8 list \<Rightarrow> mbap_pdu" where
  "request_frame m slave pdu = \<lparr>pdu_tid = mt_tid m, pdu_pid = mt_pid m, pdu_uid = slave, pdu_bytes = pdu\<rparr>"

lemma header_stores:
  assumes "7 \<le> length b"
  shows "do { b \<leftarrow> mem_store b 0 x0; b \<leftarrow> mem_store b 1 x1; b \<leftarrow> mem_store b 2 x2; b \<leftarrow> mem_store b 3 x3;
      b \<leftarrow> mem_store b 4 x4; b \<leftarrow> mem_store b 5 x5; b \<leftarrow> mem_store b 6 x6; f b }
    = f ([x0, x1, x2, x3, x4, x5, x6] @ drop 7 b)"
proof -
  obtain f0 f1 f2 f3 f4 f5 f6 rest where "b = f0 # f1 # f2 # f3 # f4 # f5 # f6 # rest"
    using split7 [OF assms] by (elim exE)
  then show ?thesis by (simp add: mem_store_def)
qed

lemma tcp_master_sends:
  assumes m: "master_ready m" and ctx: "mm_pdu_offset ctx = 7" "length (mm_tx_buf ctx) = 512"
    and pdu: "pdu_ok (request_frame m slave pdu)" and room: "length pdu + 7 \<le> n"
  shows "modbus_tcp_master_request (Room n) block out m (mm_with_pdu ctx pdu) slave
    = Some (m\<lparr>mt_ctx := (mm_with_pdu ctx pdu)\<lparr>mm_tx_buf := pdu_wire (request_frame m slave pdu)
          @ drop (7 + length pdu) (mm_tx_buf ctx)\<rparr>,
        mt_stream := (mt_stream m)\<lparr>st_wire := st_wire (mt_stream m) @ pdu_wire (request_frame m slave pdu)\<rparr>,
        mt_tid := mt_tid m + 1\<rparr>)"
proof -
  let ?c = "mm_with_pdu ctx pdu" and ?w = "pdu_wire (request_frame m slave pdu)"
  have len: "length pdu \<le> 253" using pdu by (simp add: pdu_ok_def request_frame_def)
  have ndx: "mm_tx_ndx ?c = of_nat (7 + length pdu)" using ctx(1) by (simp add: mm_with_pdu_def Let_def)
  have buf: "mm_tx_buf ?c = take 7 (mm_tx_buf ctx) @ pdu @ drop (7 + length pdu) (mm_tx_buf ctx)"
    using ctx(1) by (simp add: mm_with_pdu_def Let_def)
  have flen: "mm_tx_ndx ?c + 1 - 7 = of_nat (length pdu + 1)" using ndx by simp
  have sz: "uint (mm_tx_ndx ?c) = int (7 + length pdu)"
  proof -
    have "unat (mm_tx_ndx ?c) = 7 + length pdu" unfolding ndx by (rule unat_of_small) (use len in simp)
    then show ?thesis by (simp only: uint_is_unat)
  qed
  let ?b = "[hi_byte (mt_tid m), lo_byte (mt_tid m), hi_byte (mt_pid m), lo_byte (mt_pid m),
      hi_byte (of_nat (length pdu + 1)), lo_byte (of_nat (length pdu + 1)), slave] @ drop 7 (mm_tx_buf ?c)"
  have b: "?b = ?w @ drop (7 + length pdu) (mm_tx_buf ctx)"
    using ctx(2) by (simp add: buf pdu_wire_def request_frame_def pdu_len_def mbap_header_bytes_def add.commute)
  have wlen: "length ?w = 7 + length pdu" by (simp add: pdu_wire_def mbap_header_bytes_def request_frame_def)
  have "stream_write (Room n) (mt_stream m) (?w @ drop (7 + length pdu) (mm_tx_buf ctx)) (uint (mm_tx_ndx ?c))
      = Some ((mt_stream m)\<lparr>st_wire := st_wire (mt_stream m) @ ?w\<rparr>, True)"
  proof -
    have "stream_write (Room n) (mt_stream m) ?b (int (7 + length pdu))
        = stream_write (Room n) (mt_stream m) (take (7 + length pdu) ?b) (int (7 + length pdu))"
      by (rule stream_write_take [symmetric]) (use b wlen in simp)
    also have "take (7 + length pdu) ?b = ?w" unfolding b using wlen by simp
    also have "stream_write (Room n) (mt_stream m) ?w (int (7 + length pdu))
        = Some ((mt_stream m)\<lparr>st_wire := st_wire (mt_stream m) @ ?w\<rparr>, True)"
      using stream_write_sent [of "mt_stream m" ?w n] m wlen room by (simp add: master_ready_def)
    finally show ?thesis unfolding sz b .
  qed
  moreover have l7: "7 \<le> length (mm_tx_buf ?c)" using buf ctx(2) by simp
  ultimately show ?thesis
    using m b [simplified] unfolding modbus_tcp_master_request_def Let_def flen header_stores [OF l7]
    by (simp add: master_ready_def)
qed

lemma tcp_master_got_frame:
  assumes "mbap_env h = m" "uint (mbap_length h) - 1 = n"
    and "modbus_rtu_handler_response_rx cb (mt_ctx m) (mbap_uid h) (drop 7 (mbap_frame h)) n (mt_app m) = Some u'"
  shows "modbus_tcp_master_got_frame cb h
    = Some (h\<lparr>mbap_env := if uint (mt_tid m) - 1 = uint (mbap_tid h) \<and> mt_pid m = mbap_pid h then m\<lparr>mt_app := u'\<rparr> else m\<rparr>)"
proof -
  have same: "h\<lparr>mbap_env := m\<rparr> = h" using assms(1) by (cases h) simp
  define A B where "A = (uint (mt_tid m) - 1 = uint (mbap_tid h))" and "B = (mt_pid m = mbap_pid h)"
  show ?thesis
    unfolding modbus_tcp_master_got_frame_def Let_def assms(1,2) A_def [symmetric] B_def [symmetric] assms(3)
    by (cases A; cases B) (simp_all add: same)
qed

lemma tcp_master_receives:
  assumes "mbap_fresh r" "mbap_env r = m" "pdu_ok f" "concat chunks = pdu_wire f"
    and "modbus_rtu_handler_response_rx cb (mt_ctx m) (pdu_uid f)
      (pdu_bytes f @ drop (7 + length (pdu_bytes f)) (mbap_frame r)) (int (length (pdu_bytes f))) (mt_app m) = Some u'"
  shows "\<exists>r'. foldo (\<lambda>r c. mbap_reader_feed (modbus_tcp_master_got_frame cb) r c (int (length c))) r chunks = Some r'
    \<and> mbap_fresh r' \<and> mbap_env r' = (if uint (mt_tid m) - 1 = uint (pdu_tid f) \<and> mt_pid m = pdu_pid f
        then m\<lparr>mt_app := u'\<rparr> else m)"
proof -
  let ?h = "mbap_holding r (pdu_tid f) (pdu_pid f) (pdu_len f) (pdu_uid f) (pdu_bytes f)"
  have len: "length (mbap_frame r) = 260" using assms(1) by (simp add: mbap_fresh_def)
  have h: "mbap_env ?h = m" "mbap_tid ?h = pdu_tid f" "mbap_pid ?h = pdu_pid f" "mbap_uid ?h = pdu_uid f"
      "uint (mbap_length ?h) - 1 = int (length (pdu_bytes f))"
      "drop 7 (mbap_frame ?h) = pdu_bytes f @ drop (7 + length (pdu_bytes f)) (mbap_frame r)"
      "length (mbap_frame ?h) = 260"
    using assms(2) uint_pdu_len [OF assms(3)] assms(3) len
    by (simp_all add: mbap_holding_def mbap_header_bytes_def pdu_ok_def)
  let ?r1 = "?h\<lparr>mbap_env := if uint (mt_tid m) - 1 = uint (pdu_tid f) \<and> mt_pid m = pdu_pid f then m\<lparr>mt_app := u'\<rparr> else m\<rparr>"
  have "modbus_tcp_master_got_frame cb ?h = Some ?r1"
    using tcp_master_got_frame [OF h(1,5), of cb u'] assms(5) unfolding h(2-4,6) by simp
  then have "foldo (\<lambda>r c. mbap_reader_feed (modbus_tcp_master_got_frame cb) r c (int (length c))) r chunks
      = Some (mbap_reader_reset ?r1)"
    unfolding feed_chunks assms(4) deliver_run [OF assms(1,3)] by (simp add: deliver_def)
  moreover have "mbap_fresh (mbap_reader_reset ?r1)" using h(7) by (intro mbap_fresh_reset) simp
  moreover have "mbap_env (mbap_reader_reset ?r1) = mbap_env ?r1" by (simp add: mbap_reader_reset_def)
  ultimately show ?thesis by (intro exI [of _ "mbap_reader_reset ?r1"]) simp
qed

lemma stream_takes_all:
  "st_queue s = [] \<Longrightarrow> length data \<le> n \<Longrightarrow> stream_takes (Room n) s data = data"
  by (simp add: stream_takes_def Let_def)

text \<open>A slave that can send at once answers a request frame by the frame of its dispatch's reply.\<close>

lemma tcp_slave_replies:
  assumes sl: "modbus_device dev" "mbap_fresh sr" "stream_inv (mbap_env sr)" "st_queue (mbap_env sr) = []"
    and f: "pdu_ok f" "pdu_uid f = ts_my_address (tc_slave (st_env (mbap_env sr)))" "pdu_uid f \<noteq> MB_ADDRESS_BROADCAST"
    and served: "modbus_rtu_handler_request_rx dev (pdu_uid f) (of_nat (length (pdu_bytes f)))
      (pdu_bytes f @ drop (7 + length (pdu_bytes f)) (mbap_frame sr)) (ts_dev (tc_slave (st_env (mbap_env sr)))) = Some (p, l, d, ok)"
    and reply: "take (unat l) p = reply" "7 + length reply \<le> n"
    and chunks: "concat chunks = pdu_wire f"
  shows "\<exists>sr'. foldo (\<lambda>r c. mbap_reader_feed (modbus_tcp_slave_got_frame dev (\<lambda>_. Room n)) r c (int (length c))) sr chunks = Some sr'
    \<and> mbap_fresh sr' \<and> ts_dev (tc_slave (st_env (mbap_env sr'))) = d
    \<and> st_wire (mbap_env sr') @ st_queue (mbap_env sr') = st_wire (mbap_env sr) @ pdu_wire (f\<lparr>pdu_bytes := reply\<rparr>)"
proof -
  obtain p' l' d' ok' sr' st where s: "modbus_rtu_handler_request_rx dev (pdu_uid f) (of_nat (length (pdu_bytes f)))
        (pdu_bytes f @ drop (7 + length (pdu_bytes f)) (mbap_frame sr)) (ts_dev (tc_slave (st_env (mbap_env sr)))) = Some (p', l', d', ok')"
      "foldo (\<lambda>r c. mbap_reader_feed (modbus_tcp_slave_got_frame dev (\<lambda>_. Room n)) r c (int (length c))) sr chunks = Some sr'"
      "mbap_fresh sr'" "ts_dev (tc_slave (st_env (mbap_env sr'))) = d'"
      "st_wire (mbap_env sr') @ st_queue (mbap_env sr') = st_wire (mbap_env sr) @ st_queue (mbap_env sr)
        @ stream_takes (Room n) (mbap_env sr) (pdu_wire (f\<lparr>pdu_bytes := take (unat l') p'\<rparr>))"
    using tcp_slave_serves [OF sl(1-3) f chunks, of "\<lambda>_. Room n"] by (elim exE conjE) (rule that)
  have "p' = p" "l' = l" "d' = d" using s(1) served by simp_all
  moreover have "length (pdu_wire (f\<lparr>pdu_bytes := reply\<rparr>)) \<le> n" using reply(2) by (simp add: pdu_wire_def mbap_header_bytes_def)
  ultimately show ?thesis using s(2-5) sl(4) reply(1) stream_takes_all [OF sl(4)] by auto
qed

lemma tid_follows:
  fixes t :: u16
  assumes "t \<noteq> 65535"
  shows "uint (t + 1) - 1 = uint t"
proof -
  have "unat t \<noteq> 65535" using assms by (simp add: word_unat_eq_iff)
  then have "unat t < 65535" using unat_u16_less [of t] by linarith
  then have "unat (t + 1) = unat t + 1" by (simp add: unat_word_ariths)
  then show ?thesis unfolding uint_is_unat by (simp only: of_nat_add of_nat_1)
qed

text \<open>The reply to the request sent last is taken, unless the counter has just wrapped: then it is dropped.\<close>

lemma tcp_master_takes_reply:
  assumes "mbap_fresh r" "mbap_env r = m" "pdu_ok g" "concat chunks = pdu_wire g"
    and "modbus_rtu_handler_response_rx cb (mt_ctx m) (pdu_uid g)
      (pdu_bytes g @ drop (7 + length (pdu_bytes g)) (mbap_frame r)) (int (length (pdu_bytes g))) (mt_app m) = Some u"
    and "mt_tid m = pdu_tid g + 1" "mt_pid m = pdu_pid g"
  shows "\<exists>r'. foldo (\<lambda>r c. mbap_reader_feed (modbus_tcp_master_got_frame cb) r c (int (length c))) r chunks = Some r'
    \<and> mbap_fresh r' \<and> mbap_env r' = (if pdu_tid g = 65535 then m else m\<lparr>mt_app := u\<rparr>)"
proof -
  have "uint (mt_tid m) - 1 = uint (pdu_tid g) \<longleftrightarrow> pdu_tid g \<noteq> 65535"
    using tid_follows [of "pdu_tid g"] unfolding assms(6) by auto
  then show ?thesis using tcp_master_receives [OF assms(1-5)] assms(7) by auto
qed

text \<open>Reading input registers: the request a master sends, the slave's reply, and the master's answer to it.\<close>

definition input_request :: "u16 \<Rightarrow> u16 \<Rightarrow> u8 list" where
  "input_request a nb = [MB_FUNC_READ_INPUT_REGISTER, hi_byte a, lo_byte a, hi_byte nb, lo_byte nb]"

definition input_reply :: "u16 \<Rightarrow> u8 list \<Rightarrow> u8 list" where
  "input_reply nb out = [MB_FUNC_READ_INPUT_REGISTER, ucast (nb * 2)] @ out"

lemma input_request_frame:
  "pdu_ok (request_frame m slave (input_request a nb))" "pdu_uid (request_frame m slave (input_request a nb)) = slave"
  "pdu_bytes (request_frame m slave (input_request a nb)) = input_request a nb" "length (input_request a nb) = 5"
  "pdu_tid (request_frame m slave (input_request a nb)) = mt_tid m" "pdu_pid (request_frame m slave (input_request a nb)) = mt_pid m"
  by (simp_all add: pdu_ok_def request_frame_def input_request_def)

lemma input_request_sent:
  assumes m: "master_ready m" and n: "12 \<le> n"
  shows "\<exists>m1. mb_master_read_input_registers (modbus_tcp_master_request (Room n) block outc m) (mt_ctx m) slave a nb = Some m1
    \<and> st_wire (mt_stream m1) = st_wire (mt_stream m) @ pdu_wire (request_frame m slave (input_request a nb))
    \<and> mm_req_func (mt_ctx m1) = MB_FUNC_READ_INPUT_REGISTER \<and> mm_req_nb (mt_ctx m1) = nb \<and> mm_req_reg_addr (mt_ctx m1) = a
    \<and> mt_tid m1 = mt_tid m + 1 \<and> mt_pid m1 = mt_pid m"
proof -
  let ?ctx = "mm_remember (mt_ctx m) MB_FUNC_READ_INPUT_REGISTER slave a nb"
  have off: "mm_pdu_offset (mt_ctx m) = 7" "length (mm_tx_buf (mt_ctx m)) = 512"
    using m by (simp_all add: master_ready_def MODBUS_MASTER_MAX_BUFFER_SIZE_def)
  have "length (input_request a nb) + 7 \<le> n" using n by (simp add: input_request_def)
  from tcp_master_sends [OF m _ _ input_request_frame(1) this, of ?ctx block outc] off show ?thesis
    by (simp add: read_input_request input_request_def)
qed

lemma input_request_served:
  assumes nb: "1 \<le> nb" "nb < 125" and len: "length rest = 248" and out: "length out = 2 * unat nb"
    and reads: "\<And>buf. 2 * unat nb \<le> length buf \<Longrightarrow> input_regs_cb dev slave buf a nb u = Some (out @ drop (2 * unat nb) buf, u', MB_ENOERR)"
  shows "\<exists>p. modbus_rtu_handler_request_rx dev slave 5 (input_request a nb @ rest) u = Some (p, 2 + nb * 2, u', True)
    \<and> take (unat (2 + nb * 2)) p = input_reply nb out \<and> length (input_reply nb out) \<le> 253"
proof -
  have nb': "unat nb < 125" using nb(2) by (simp add: word_less_nat_alt)
  have "modbus_rtu_handler_request_rx dev slave 5 (input_request a nb @ rest) u
      = Some (input_reply nb out @ drop (2 + length out) (input_request a nb @ rest), 2 + nb * 2, u', True)"
    unfolding input_request_def input_reply_def append_assoc
    by (rule serve_input_registers [OF refl be16_bytes nb]) (use reads len out nb' in simp_all)
  moreover have "unat (2 + nb * 2) = length (input_reply nb out)" using nb' out by (simp add: input_reply_def unat_word_ariths)
  ultimately show ?thesis using nb' out by (simp add: input_reply_def)
qed

section \<open>Properties\<close>

text \<open>
  The reply to the 65536th request is lost: after the request with transaction identifier 65535 the
  counter is 0, and the slave's reply with that identifier, however correct, leaves the master and
  its application as they were.
\<close>

theorem tcp_master_loses_reply_at_wrap:
  assumes "master_ready m" "mt_tid m = 65535" "pdu_ok (request_frame m slave pdu)"
    "mm_pdu_offset ctx = 7" "length (mm_tx_buf ctx) = 512"
    and "pdu_ok f" "pdu_tid f = 65535" "concat chunks = pdu_wire f" "mbap_fresh r" "\<And>ev u. \<exists>u'. cb ev u = Some u'"
  shows "\<exists>m1 r'. modbus_tcp_master_request (Room 260) block out m (mm_with_pdu ctx pdu) slave = Some m1
    \<and> st_wire (mt_stream m1) = st_wire (mt_stream m) @ pdu_wire (request_frame m slave pdu)
    \<and> foldo (\<lambda>r c. mbap_reader_feed (modbus_tcp_master_got_frame cb) r c (int (length c))) (mb_attach r m1) chunks = Some r'
    \<and> mbap_env r' = m1"
proof -
  have room: "length pdu + 7 \<le> 260" using assms(3) by (simp add: pdu_ok_def request_frame_def)
  obtain m1 where m1: "modbus_tcp_master_request (Room 260) block out m (mm_with_pdu ctx pdu) slave = Some m1"
      "st_wire (mt_stream m1) = st_wire (mt_stream m) @ pdu_wire (request_frame m slave pdu)" "mt_tid m1 = 0"
    using tcp_master_sends [OF assms(1,4,5,3) room, of block out] assms(2) by simp
  have app: "master_app cb" by (rule master_app.intro) (rule assms(10))
  have "5 \<le> length (pdu_bytes f @ drop (7 + length (pdu_bytes f)) (mbap_frame r))"
    using assms(6,9) by (simp add: pdu_ok_def mbap_fresh_def)
  from master_app.response_returns [OF app this] obtain u' where u': "modbus_rtu_handler_response_rx cb (mt_ctx m1) (pdu_uid f)
      (pdu_bytes f @ drop (7 + length (pdu_bytes f)) (mbap_frame r)) (int (length (pdu_bytes f))) (mt_app m1) = Some u'"
    by blast
  have fr: "mbap_fresh (mb_attach r m1)" using assms(9) by simp
  have u'': "modbus_rtu_handler_response_rx cb (mt_ctx m1) (pdu_uid f)
      (pdu_bytes f @ drop (7 + length (pdu_bytes f)) (mbap_frame (mb_attach r m1))) (int (length (pdu_bytes f))) (mt_app m1)
      = Some u'" using u' by simp
  show ?thesis
    using tcp_master_receives [OF fr _ assms(6,8) u''] m1 assms(7) by (intro exI [of _ m1]) auto
qed

text \<open>An application that records the calls it gets.\<close>

definition record_event :: "master_event \<Rightarrow> master_event list \<Rightarrow> master_event list option" where
  "record_event ev evs = Some (evs @ [ev])"

text \<open>
  C3: Reading 1 to 124 input registers over TCP, from end to end (the code refuses 125, which the protocol allows): a
  connected master with nothing queued sends one request frame, which the kernel takes whole (twelve bytes); whatever
  the network's chunks, the slave with that address, on a connection with nothing queued, executes it once on its device,
  which accepts the read, and sends one reply frame, which the kernel takes whole; whatever its chunks, the master takes it
  as the answer to its request and calls its application once, with the slave, the address and the count of the request
  and the bytes the device gave, and drops it, leaving the application alone, exactly when the request's transaction
  number was 65535. Both readers are then ready for the next frame.
\<close>

theorem tcp_read_input_registers_end_to_end:
  assumes m: "master_ready m" "mbap_fresh r" "12 \<le> n"
    and nb: "1 \<le> nb" "nb < 125"
    and sl: "modbus_device dev" "mbap_fresh sr" "stream_inv (mbap_env sr)" "st_queue (mbap_env sr) = []"
      "slave = ts_my_address (tc_slave (st_env (mbap_env sr)))" "slave \<noteq> MB_ADDRESS_BROADCAST" "9 + 2 * unat nb \<le> k"
    and reads: "\<And>buf. 2 * unat nb \<le> length buf \<Longrightarrow> input_regs_cb dev slave buf a nb (ts_dev (tc_slave (st_env (mbap_env sr))))
      = Some (out @ drop (2 * unat nb) buf, d', MB_ENOERR)" "length out = 2 * unat nb"
  shows "\<exists>m1 req ans. mb_master_read_input_registers (modbus_tcp_master_request (Room n) block outc m) (mt_ctx m) slave a nb = Some m1
    \<and> st_wire (mt_stream m1) = st_wire (mt_stream m) @ req
    \<and> (\<forall>chunks. concat chunks = req \<longrightarrow> (\<exists>sr'.
        foldo (\<lambda>r c. mbap_reader_feed (modbus_tcp_slave_got_frame dev (\<lambda>_. Room k)) r c (int (length c))) sr chunks = Some sr'
        \<and> mbap_fresh sr' \<and> ts_dev (tc_slave (st_env (mbap_env sr'))) = d'
        \<and> st_wire (mbap_env sr') @ st_queue (mbap_env sr') = st_wire (mbap_env sr) @ ans))
    \<and> (\<forall>chunks. concat chunks = ans \<longrightarrow> (\<exists>r' tail.
        foldo (\<lambda>r c. mbap_reader_feed (modbus_tcp_master_got_frame record_event) r c (int (length c))) (mb_attach r m1) chunks = Some r'
        \<and> mbap_fresh r' \<and> mbap_env r' = (if mt_tid m = 65535 then m1
            else m1\<lparr>mt_app := mt_app m1 @ [Ev_input_regs slave a nb (out @ tail)]\<rparr>)))"
proof -
  let ?f = "request_frame m slave (input_request a nb)"
  let ?g = "?f\<lparr>pdu_bytes := input_reply nb out\<rparr>"
  obtain m1 where m1: "mb_master_read_input_registers (modbus_tcp_master_request (Room n) block outc m) (mt_ctx m) slave a nb = Some m1"
      "st_wire (mt_stream m1) = st_wire (mt_stream m) @ pdu_wire ?f"
      "mm_req_func (mt_ctx m1) = MB_FUNC_READ_INPUT_REGISTER" "mm_req_nb (mt_ctx m1) = nb" "mm_req_reg_addr (mt_ctx m1) = a"
      "mt_tid m1 = mt_tid m + 1" "mt_pid m1 = mt_pid m"
    using input_request_sent [OF m(1,3), of block outc slave a nb] by blast
  let ?rest = "drop (7 + length (input_request a nb)) (mbap_frame sr)"
  have "length ?rest = 248" using sl(2) by (simp add: mbap_fresh_def input_request_frame(4))
  then obtain p where p: "modbus_rtu_handler_request_rx dev slave 5 (input_request a nb @ ?rest) (ts_dev (tc_slave (st_env (mbap_env sr))))
        = Some (p, 2 + nb * 2, d', True)" "take (unat (2 + nb * 2)) p = input_reply nb out" "length (input_reply nb out) \<le> 253"
    using input_request_served [OF nb _ reads(2) reads(1)] by blast
  have answers: "\<exists>sr'. foldo (\<lambda>r c. mbap_reader_feed (modbus_tcp_slave_got_frame dev (\<lambda>_. Room k)) r c (int (length c))) sr chunks = Some sr'
      \<and> mbap_fresh sr' \<and> ts_dev (tc_slave (st_env (mbap_env sr'))) = d'
      \<and> st_wire (mbap_env sr') @ st_queue (mbap_env sr') = st_wire (mbap_env sr) @ pdu_wire ?g"
    if "concat chunks = pdu_wire ?f" for chunks
    by (rule tcp_slave_replies [OF sl(1-4) input_request_frame(1) _ _ _ p(2) _ that])
      (use sl(5-7) p(1,3) reads(2) in \<open>simp_all add: input_request_frame input_reply_def\<close>)
  have taken: "\<exists>r' tail. foldo (\<lambda>r c. mbap_reader_feed (modbus_tcp_master_got_frame record_event) r c (int (length c)))
        (mb_attach r m1) chunks = Some r' \<and> mbap_fresh r' \<and> mbap_env r' = (if mt_tid m = 65535 then m1
          else m1\<lparr>mt_app := mt_app m1 @ [Ev_input_regs slave a nb (out @ tail)]\<rparr>)"
    if chunks: "concat chunks = pdu_wire ?g" for chunks
  proof -
    let ?tail = "drop (9 + length out) (mbap_frame r)"
    have g: "pdu_ok ?g" using p(3) by (simp add: pdu_ok_def input_reply_def)
    have "modbus_rtu_handler_response_rx record_event (mt_ctx m1) (pdu_uid ?g)
        (pdu_bytes ?g @ drop (7 + length (pdu_bytes ?g)) (mbap_frame (mb_attach r m1))) (int (length (pdu_bytes ?g))) (mt_app m1)
        = Some (mt_app m1 @ [Ev_input_regs slave a nb (out @ ?tail)])"
      using accept_input_registers [OF m1(3,4) nb(2) reads(2), of record_event slave ?tail "mt_app m1"]
      by (simp add: record_event_def m1(5) input_reply_def input_request_frame numeral_eq_Suc)
    from tcp_master_takes_reply [OF _ _ g chunks this] m(2) m1(6,7) show ?thesis
      by (auto simp: input_request_frame)
  qed
  show ?thesis
    using m1(1,2) answers taken by (intro exI [of _ m1] exI [of _ "pdu_wire ?f"] exI [of _ "pdu_wire ?g"]) simp
qed

text \<open>A connected master and the blank connection of the slave, for the examples.\<close>

definition demo_master :: "master_event list tcp_master" where
  "demo_master = \<lparr>mt_ctx = fresh_master, mt_server_addr = [], mt_tcp_connector = \<lparr>ac_tcp_connector =
       \<lparr>tc_sd = -1, tc_is_in_prog = False, tc_tmr = task_timer_init, tc_watcher = watcher_init_with_fd 0,
        tc_opened = [], tc_closed = [], tc_taken = []\<rparr>, ac_server_addr = [], ac_reconn_wait_tmr = task_timer_init,
       ac_conn_tmr_value = 5, ac_reconn_wait_tmr_value = 1, ac_state = tcp_auto_connector_state_not_started, ac_env = ()\<rparr>,
     mt_tcp_state = ModbusTCPMasterState_Connected, mt_stream = st_attach blank_conn (), mt_tid = 65535, mt_pid = 0,
     mt_mbap_reader = blank_mbap, mt_app = []\<rparr>"

lemma demo_master_ready: "master_ready demo_master" "master_ready (demo_master\<lparr>mt_tid := t\<rparr>)"
proof -
  have "st_queue blank_conn = []"
    using circ_buffer_init_spec [of "replicate 512 0" 512] by (auto simp: st_queue_def blank_conn_def)
  then show "master_ready demo_master" "master_ready (demo_master\<lparr>mt_tid := t\<rparr>)"
    using blank_conn_inv by (simp_all add: master_ready_def demo_master_def fresh_master_def MODBUS_MASTER_MAX_BUFFER_SIZE_def)
qed

lemma const_device_is_device: "modbus_device const_device"
  by unfold_locales
    (simp_all add: const_device_def demo_callbacks_def demo_holding_regs_cb_def demo_coil_cb_def demo_discrete_cb_def keeps_buffer)

lemma tcp_read_input_registers_end_to_end_witness:
  "\<exists>m1 req ans. mb_master_read_input_registers (modbus_tcp_master_request (Room 260) None \<lparr>co_socket = -1, co_connect = Conn_error\<rparr>
      (demo_master\<lparr>mt_tid := 7\<rparr>)) (mt_ctx (demo_master\<lparr>mt_tid := 7\<rparr>)) 1 16 2 = Some m1
    \<and> st_wire (mt_stream m1) = st_wire (mt_stream (demo_master\<lparr>mt_tid := 7\<rparr>)) @ req
    \<and> (\<forall>chunks. concat chunks = ans \<longrightarrow> (\<exists>r' tail.
        foldo (\<lambda>r c. mbap_reader_feed (modbus_tcp_master_got_frame record_event) r c (int (length c))) (mb_attach blank_mbap m1) chunks = Some r'
        \<and> mbap_fresh r' \<and> mbap_env r' = m1\<lparr>mt_app := mt_app m1 @ [Ev_input_regs 1 16 2 ([7, 7, 7, 7] @ tail)]\<rparr>))"
proof -
  have m: "mbap_fresh blank_mbap" "12 \<le> (260 :: nat)" "(1 :: u16) \<le> 2" "(2 :: u16) < 125"
    using blank_conn_inv by simp_all
  have "st_queue blank_conn = []"
    using circ_buffer_init_spec [of "replicate 512 0" 512] by (auto simp: st_queue_def blank_conn_def)
  then have sr: "mbap_fresh (mbap_attach blank_mbap blank_conn)" "stream_inv (mbap_env (mbap_attach blank_mbap blank_conn))"
      "st_queue (mbap_env (mbap_attach blank_mbap blank_conn)) = []"
      "1 = ts_my_address (tc_slave (st_env (mbap_env (mbap_attach blank_mbap blank_conn))))" "(1 :: u8) \<noteq> MB_ADDRESS_BROADCAST"
      "9 + 2 * unat (2 :: u16) \<le> (260 :: nat)"
    using blank_conn_inv by (simp_all add: blank_conn_def MB_ADDRESS_BROADCAST_def)
  have reads: "input_regs_cb const_device 1 buf 16 2 (ts_dev (tc_slave (st_env (mbap_env (mbap_attach blank_mbap blank_conn)))))
      = Some ([7, 7, 7, 7] @ drop (2 * unat (2 :: u16)) buf, (), MB_ENOERR)" for buf
  proof -
    have "replicate 4 (7 :: u8) = [7, 7, 7, 7]" by (simp add: eval_nat_numeral)
    then show ?thesis by (simp add: const_device_def)
  qed
  have four: "length [7, 7, 7, 7 :: u8] = 2 * unat (2 :: u16)" by simp
  have tid: "mt_tid (demo_master\<lparr>mt_tid := 7\<rparr>) \<noteq> 65535" by simp
  show ?thesis
    using tcp_read_input_registers_end_to_end [OF demo_master_ready(2) [of 7] m const_device_is_device sr reads four,
        of None "\<lparr>co_socket = -1, co_connect = Conn_error\<rparr>"]
    unfolding if_not_P [OF tid] by (elim exE conjE) (intro exI conjI, assumption+)
qed

lemma tcp_master_loses_reply_at_wrap_witness:
  "\<exists>m1 r'. modbus_tcp_master_request (Room 260) None \<lparr>co_socket = -1, co_connect = Conn_error\<rparr> demo_master
      (mm_with_pdu fresh_master [4, 0, 16, 0, 2]) 1 = Some m1
    \<and> st_wire (mt_stream m1) = st_wire (mt_stream demo_master) @ pdu_wire (request_frame demo_master 1 [4, 0, 16, 0, 2])
    \<and> foldo (\<lambda>r c. mbap_reader_feed (modbus_tcp_master_got_frame record_event) r c (int (length c))) (mb_attach blank_mbap m1)
        [pdu_wire \<lparr>pdu_tid = 65535, pdu_pid = 0, pdu_uid = 1, pdu_bytes = [4, 4, 7, 7, 7, 7]\<rparr>] = Some r'
    \<and> mbap_env r' = m1"
  by (rule tcp_master_loses_reply_at_wrap [OF demo_master_ready(1)])
     (use blank_conn_inv in \<open>simp_all add: demo_master_def request_frame_def pdu_ok_def fresh_master_def
        MODBUS_MASTER_MAX_BUFFER_SIZE_def record_event_def\<close>)

end
