(* ===== verification/Modbus_Rtu_Master.thy ===== *)
theory Modbus_Rtu_Master
  imports Modbus_Master Modbus_Slave Stream Task_Timer
begin

text \<open>
  \<open>src/protocols/modbus/modbus_rtu_master.c\<close>: the Modbus master for a serial line. Only its sending
  side is written: received bytes are not looked at (\<open>FIXME\<close> in the source), so no reply is ever
  delivered.
\<close>

section \<open>State and operations\<close>

record 'u rtu_master =
  rm_ctx :: mb_master_ctx
  rm_stream :: "unit stream"
  rm_t35 :: task_timer
  rm_t35_val :: rat
  rm_app :: 'u

definition modbus_rtu_master_request :: "kernel_write \<Rightarrow> 'u rtu_master \<Rightarrow> 'u rtu_master mb_transport" where
  "modbus_rtu_master_request k master ctx slave = do {
     b \<leftarrow> mem_store (mm_tx_buf ctx) 0 slave;
     let ctx = ctx\<lparr>mm_tx_buf := b\<rparr>;
     crc \<leftarrow> modbus_calc_crc (mm_tx_buf ctx) (mm_tx_ndx ctx);
     ctx \<leftarrow> mm_put ctx (ucast (crc AND 0xff));
     ctx \<leftarrow> mm_put ctx (ucast (drop_bit 8 crc));
     (st, _) \<leftarrow> stream_write k (rm_stream master) (mm_tx_buf ctx) (uint (mm_tx_ndx ctx));
     Some (master\<lparr>rm_ctx := ctx, rm_stream := st\<rparr>) }"

definition modbus_rtu_master_rx :: "'u rtu_master \<Rightarrow> 'u rtu_master" where
  "modbus_rtu_master_rx master = master"

definition modbus_rtu_master_stream_callback :: "'u rtu_master \<Rightarrow> stream_event \<Rightarrow> 'u rtu_master" where
  "modbus_rtu_master_stream_callback master evt =
     (case evt of stream_event_rx \<Rightarrow> modbus_rtu_master_rx master | _ \<Rightarrow> master)"

definition mb_rtu_master_start_handling_rx_frame :: "'u rtu_master \<Rightarrow> 'u rtu_master" where
  "mb_rtu_master_start_handling_rx_frame master = master"

definition rtu_master_t35_timeout_handler :: "'u rtu_master \<Rightarrow> 'u rtu_master" where
  "rtu_master_t35_timeout_handler master = mb_rtu_master_start_handling_rx_frame master"

definition modbus_rtu_master_init :: "u8 list option \<Rightarrow> 'u rtu_master \<Rightarrow> int \<Rightarrow> 'u rtu_master option" where
  "modbus_rtu_master_init block master fd = do {
     let master = master\<lparr>rm_ctx := mb_master_ctx_init ((rm_ctx master)\<lparr>mm_pdu_offset := 1\<rparr>)\<rparr>;
     st \<leftarrow> stream_init_with_fd block (rm_stream master) fd (st_rx_buf (rm_stream master)) 128 512;
     Some (master\<lparr>rm_stream := st, rm_t35 := task_timer_init, rm_t35_val := 5 / 1000\<rparr>) }"

definition modbus_rtu_master_start :: "'u rtu_master \<Rightarrow> 'u rtu_master" where
  "modbus_rtu_master_start master = master\<lparr>rm_stream := stream_start (rm_stream master)\<rparr>"

definition modbus_rtu_master_stop :: "'u rtu_master \<Rightarrow> 'u rtu_master" where
  "modbus_rtu_master_stop master = master\<lparr>rm_stream := stream_stop (rm_stream master)\<rparr>"

section \<open>What is sent\<close>

lemma rtu_master_sends:
  assumes ctx: "mm_pdu_offset ctx = 1" "length (mm_tx_buf ctx) = 512" and pdu: "length pdu \<le> 253"
    and st: "stream_inv (rm_stream m)" "st_queue (rm_stream m) = []" and room: "length pdu + 3 \<le> n"
  shows "\<exists>m'. modbus_rtu_master_request (Room n) m (mm_with_pdu ctx pdu) slave = Some m'
    \<and> st_wire (rm_stream m') = st_wire (rm_stream m) @ rtu_frame slave pdu \<and> rm_app m' = rm_app m
    \<and> mm_req_func (rm_ctx m') = mm_req_func ctx \<and> mm_req_nb (rm_ctx m') = mm_req_nb ctx"
proof -
  let ?c = "mm_with_pdu ctx pdu" and ?n = "length pdu + 1"
  have buf: "mm_tx_buf ?c = take 1 (mm_tx_buf ctx) @ pdu @ drop ?n (mm_tx_buf ctx)"
    using ctx(1) by (simp add: mm_with_pdu_def Let_def)
  obtain x xs where x: "mm_tx_buf ctx = x # xs" using ctx(2) by (cases "mm_tx_buf ctx") auto
  let ?b = "(slave # pdu) @ drop ?n (mm_tx_buf ctx)"
  have store: "mem_store (mm_tx_buf ?c) 0 slave = Some ?b" by (simp add: buf x mem_store_def)
  have ndx: "unat (mm_tx_ndx ?c) = ?n" using ndx_with_pdu [of pdu ctx] ctx(1) pdu by simp
  let ?c1 = "?c\<lparr>mm_tx_buf := ?b\<rparr>" and ?crc = "crc_bitwise (slave # pdu)"
  have crc: "modbus_calc_crc ?b (mm_tx_ndx ?c) = Some ?crc"
    using modbus_calc_crc_bytes [of "mm_tx_ndx ?c" ?b] ndx ctx(2) pdu by simp
  let ?t = "[lo_byte ?crc, hi_byte ?crc]"
  have puts: "foldo mm_put ?c1 ?t = Some (?c1\<lparr>mm_tx_buf := rtu_frame slave pdu @ drop (?n + 2) (mm_tx_buf ctx),
      mm_tx_ndx := mm_tx_ndx ?c + 2\<rparr>)"
    using mm_puts [of ?c1 ?t] ndx ctx(2) pdu by (simp add: rtu_frame_def Let_def)
  let ?c2 = "?c1\<lparr>mm_tx_buf := rtu_frame slave pdu @ drop (?n + 2) (mm_tx_buf ctx), mm_tx_ndx := mm_tx_ndx ?c + 2\<rparr>"
  have len: "uint (mm_tx_ndx ?c + 2) = int (length (rtu_frame slave pdu))"
  proof -
    have "unat (mm_tx_ndx ?c + 2) = length pdu + 3" using ndx pdu by (simp add: unat_word_ariths)
    then show ?thesis unfolding uint_is_unat by (simp only: rtu_frame_length)
  qed
  have sent: "stream_write (Room n) (rm_stream m) (rtu_frame slave pdu @ drop (?n + 2) (mm_tx_buf ctx))
      (int (length (rtu_frame slave pdu)))
    = Some ((rm_stream m)\<lparr>st_wire := st_wire (rm_stream m) @ rtu_frame slave pdu\<rparr>, True)"
    using stream_write_take [of "length (rtu_frame slave pdu)" "rtu_frame slave pdu @ drop (?n + 2) (mm_tx_buf ctx)" "Room n" "rm_stream m"]
      stream_write_sent [OF st, of "rtu_frame slave pdu" n] room by simp
  obtain c' where c': "mm_put ?c1 (lo_byte ?crc) = Some c'" "mm_put c' (hi_byte ?crc) = Some ?c2"
    using puts by auto
  have "modbus_rtu_master_request (Room n) m ?c slave
      = Some (m\<lparr>rm_ctx := ?c2, rm_stream := (rm_stream m)\<lparr>st_wire := st_wire (rm_stream m) @ rtu_frame slave pdu\<rparr>\<rparr>)"
    unfolding modbus_rtu_master_request_def store Option.bind.simps Let_def lo_byte_def [symmetric] hi_byte_def [symmetric]
    using crc c' sent len by simp
  then show ?thesis by simp
qed

section \<open>Properties\<close>

text \<open>
  A request over the serial line: the slave's address, the PDU the master built and their CRC, low
  byte first, go out as one frame, which every receiver's CRC check accepts.
\<close>

theorem rtu_master_sends_valid_frame:
  assumes "mm_pdu_offset (rm_ctx m) = 1" "length (mm_tx_buf (rm_ctx m)) = 512"
    and "stream_inv (rm_stream m)" "st_queue (rm_stream m) = []"
  shows "\<exists>m'. mb_master_read_input_registers (modbus_rtu_master_request (Room 256) m) (rm_ctx m) slave a nb = Some m'
    \<and> st_wire (rm_stream m') = st_wire (rm_stream m)
        @ rtu_frame slave [MB_FUNC_READ_INPUT_REGISTER, hi_byte a, lo_byte a, hi_byte nb, lo_byte nb]
    \<and> modbus_calc_crc (rtu_frame slave [MB_FUNC_READ_INPUT_REGISTER, hi_byte a, lo_byte a, hi_byte nb, lo_byte nb]) 8 = Some 0"
proof -
  let ?pdu = "[MB_FUNC_READ_INPUT_REGISTER, hi_byte a, lo_byte a, hi_byte nb, lo_byte nb]"
  let ?ctx = "mm_remember (rm_ctx m) MB_FUNC_READ_INPUT_REGISTER slave a nb"
  have "mb_master_read_input_registers (modbus_rtu_master_request (Room 256) m) (rm_ctx m) slave a nb
      = modbus_rtu_master_request (Room 256) m (mm_with_pdu ?ctx ?pdu) slave"
    by (rule read_input_request) (use assms(1,2) in simp)
  moreover have "modbus_calc_crc (rtu_frame slave ?pdu) 8 = Some 0"
    using modbus_calc_crc_bytes [of 8 "rtu_frame slave ?pdu"] rtu_frame_crc [of slave ?pdu] by simp
  ultimately show ?thesis
    using rtu_master_sends [of ?ctx ?pdu m 256 slave] assms by auto
qed

end
