(* ===== verification/Bhash.thy ===== *)
theory Bhash
  imports Klist_Array
begin

text \<open>
  \<open>src/utils/bhash.c\<close>: a hash of buckets. A client's element holds a list node and a key at fixed
  offsets; a bucket is an intrusive list of the nodes. Addresses are numbers, \<open>hb_mem\<close> is the memory
  the keys are read from, the links of the lists are in \<open>hb_heap\<close>. The locale \<open>key_store\<close> is what a
  client may rely on; it is interpreted on the hash, which thereby implements a finite map.
\<close>

section \<open>State and operations\<close>

record bhash =
  hb_heap :: lheap
  hb_mem :: "nat \<Rightarrow> u8"
  hb_numBuckets :: u32
  hb_offset :: nat
  hb_key_offset :: nat
  hb_key_size :: nat
  hb_calc_hash :: "u8 list \<Rightarrow> u32"
  hb_buckets :: "ptr list"

definition djb_hash :: "u8 list \<Rightarrow> u32" where
  "djb_hash key = fold (\<lambda>k h. (33 * h) XOR ucast k) key 0"

definition bhash_init ::
    "bhash \<Rightarrow> ptr list \<Rightarrow> u32 \<Rightarrow> nat \<Rightarrow> nat \<Rightarrow> nat \<Rightarrow> (u8 list \<Rightarrow> u32) option \<Rightarrow> bhash option" where
  "bhash_init hash buckets numBuckets hash_offset key_offset key_size func = do {
     let hash = hash\<lparr>hb_numBuckets := numBuckets, hb_offset := hash_offset, hb_key_offset := key_offset,
       hb_key_size := key_size, hb_buckets := buckets,
       hb_calc_hash := (case func of Some f \<Rightarrow> f | None \<Rightarrow> djb_hash)\<rparr>;
     heads \<leftarrow> (if unat numBuckets \<le> length buckets then Some (take (unat numBuckets) buckets) else None);
     h \<leftarrow> foldo init_list_head (hb_heap hash) heads;
     Some (hash\<lparr>hb_heap := h\<rparr>) }"

definition elem_key :: "bhash \<Rightarrow> nat \<Rightarrow> u8 list" where
  "elem_key hash element = map (\<lambda>i. hb_mem hash (element + hb_key_offset hash + i)) [0..<hb_key_size hash]"

definition bhash_ndx :: "bhash \<Rightarrow> u8 list \<Rightarrow> nat option" where
  "bhash_ndx hash key =
     (if hb_numBuckets hash = 0 then None
      else Some (unat (hb_calc_hash hash key mod hb_numBuckets hash mod hb_numBuckets hash)))"

text \<open>The loop of \<open>bhash_lookup\<close> and \<open>bhash_del\<close>: the node whose key is equal, NULL after the last.\<close>

partial_function (option) bhash_search :: "bhash \<Rightarrow> u8 list \<Rightarrow> ptr \<Rightarrow> ptr \<Rightarrow> ptr option" where
  "bhash_search hash key head pos =
     (if pos = head then Some NULL
      else if elem_key hash (pos - hb_offset hash) = key then Some pos
      else do { nxt \<leftarrow> rd_next (hb_heap hash) pos; bhash_search hash key head nxt })"

definition bhash_lookup :: "bhash \<Rightarrow> u8 list \<Rightarrow> ptr option" where
  "bhash_lookup hash key = do {
     ndx \<leftarrow> bhash_ndx hash key;
     head \<leftarrow> mem_load (hb_buckets hash) ndx;
     first \<leftarrow> rd_next (hb_heap hash) head;
     pos \<leftarrow> bhash_search hash key head first;
     Some (if pos = NULL then NULL else pos - hb_offset hash) }"

definition bhash_add :: "bhash \<Rightarrow> ptr \<Rightarrow> (bhash \<times> int) option" where
  "bhash_add hash element = do {
     let key = elem_key hash element;
     let lh = element + hb_offset hash;
     found \<leftarrow> bhash_lookup hash key;
     if found \<noteq> NULL then Some (hash, 0)
     else do {
       ndx \<leftarrow> bhash_ndx hash key;
       head \<leftarrow> mem_load (hb_buckets hash) ndx;
       h \<leftarrow> list_add_tail (hb_heap hash) lh head;
       Some (hash\<lparr>hb_heap := h\<rparr>, 1) } }"

definition bhash_del :: "bhash \<Rightarrow> u8 list \<Rightarrow> (bhash \<times> int) option" where
  "bhash_del hash key = do {
     found \<leftarrow> bhash_lookup hash key;
     if found = NULL then Some (hash, 0)
     else do {
       ndx \<leftarrow> bhash_ndx hash key;
       head \<leftarrow> mem_load (hb_buckets hash) ndx;
       first \<leftarrow> rd_next (hb_heap hash) head;
       pos \<leftarrow> bhash_search hash key head first;
       if pos = NULL then Some (hash, 0)
       else do {
         h \<leftarrow> list_del (hb_heap hash) pos;
         Some (hash\<lparr>hb_heap := h\<rparr>, 1) } } }"

section \<open>The contract of a key store\<close>

text \<open>
  \<open>stores s m\<close>: the store \<open>s\<close> holds the elements of the map \<open>m\<close>. \<open>key_of\<close> reads an element's key,
  \<open>usable\<close> says which elements may be added; neither changes.
\<close>

datatype ('k, 'e) store_cmd = Add 'e | Del 'k | Find 'k

datatype 'e store_reply = Done int | Got "'e option"

definition store_step ::
    "('s \<Rightarrow> 'k \<Rightarrow> 'e option option) \<Rightarrow> ('s \<Rightarrow> 'e \<Rightarrow> ('s \<times> int) option) \<Rightarrow> ('s \<Rightarrow> 'k \<Rightarrow> ('s \<times> int) option)
      \<Rightarrow> 's \<Rightarrow> ('k, 'e) store_cmd \<Rightarrow> ('s \<times> 'e store_reply) option" where
  "store_step lookup add del s c = (case c of
      Add e \<Rightarrow> map_option (\<lambda>(s, r). (s, Done r)) (add s e)
    | Del k \<Rightarrow> map_option (\<lambda>(s, r). (s, Done r)) (del s k)
    | Find k \<Rightarrow> map_option (\<lambda>r. (s, Got r)) (lookup s k))"

fun store_run :: "('s \<Rightarrow> 'c \<Rightarrow> ('s \<times> 'r) option) \<Rightarrow> 's \<Rightarrow> 'c list \<Rightarrow> ('s \<times> 'r list) option" where
  "store_run f s [] = Some (s, [])"
| "store_run f s (c # cs) = do { (s, r) \<leftarrow> f s c; (s, rs) \<leftarrow> store_run f s cs; Some (s, r # rs) }"

text \<open>The same commands on a map.\<close>

fun store_spec :: "('e \<Rightarrow> 'k) \<Rightarrow> ('k \<rightharpoonup> 'e) \<Rightarrow> ('k, 'e) store_cmd \<Rightarrow> ('k \<rightharpoonup> 'e) \<times> 'e store_reply" where
  "store_spec key_of m (Add e) =
     (if m (key_of e) = None then (m(key_of e \<mapsto> e), Done 1) else (m, Done 0))"
| "store_spec key_of m (Del k) = (m(k := None), Done (if m k = None then 0 else 1))"
| "store_spec key_of m (Find k) = (m, Got (m k))"

fun store_spec_run ::
    "('e \<Rightarrow> 'k) \<Rightarrow> ('k \<rightharpoonup> 'e) \<Rightarrow> ('k, 'e) store_cmd list \<Rightarrow> ('k \<rightharpoonup> 'e) \<times> 'e store_reply list" where
  "store_spec_run key_of m [] = (m, [])"
| "store_spec_run key_of m (c # cs) =
     (let (m, r) = store_spec key_of m c; (m, rs) = store_spec_run key_of m cs in (m, r # rs))"

locale key_store =
  fixes lookup :: "'s \<Rightarrow> 'k \<Rightarrow> 'e option option"
    and add :: "'s \<Rightarrow> 'e \<Rightarrow> ('s \<times> int) option"
    and del :: "'s \<Rightarrow> 'k \<Rightarrow> ('s \<times> int) option"
    and stores :: "'s \<Rightarrow> ('k \<rightharpoonup> 'e) \<Rightarrow> bool"
    and key_of :: "'s \<Rightarrow> 'e \<Rightarrow> 'k"
    and usable :: "'s \<Rightarrow> 'e \<Rightarrow> bool"
  assumes lookup_finds: "stores s m \<Longrightarrow> lookup s k = Some (m k)"
    and add_stores: "stores s m \<Longrightarrow> usable s e \<Longrightarrow>
      \<exists>s'. add s e = Some (s', if m (key_of s e) = None then 1 else 0) \<and> key_of s' = key_of s \<and> usable s' = usable s
        \<and> stores s' (if m (key_of s e) = None then m(key_of s e \<mapsto> e) else m)"
    and del_removes_key: "stores s m \<Longrightarrow>
      \<exists>s'. del s k = Some (s', if m k = None then 0 else 1) \<and> key_of s' = key_of s \<and> usable s' = usable s
        \<and> stores s' (m(k := None))"
begin

lemma step_refines:
  assumes "stores s m" "case c of Add e \<Rightarrow> usable s e | _ \<Rightarrow> True"
  shows "\<exists>s'. store_step lookup add del s c = Some (s', snd (store_spec (key_of s) m c))
    \<and> key_of s' = key_of s \<and> usable s' = usable s \<and> stores s' (fst (store_spec (key_of s) m c))"
proof (cases c)
  case (Add e)
  then show ?thesis using add_stores [OF assms(1), of e] assms(2) by (auto simp: store_step_def)
next
  case (Del k)
  then show ?thesis using del_removes_key [OF assms(1), of k] by (auto simp: store_step_def)
next
  case (Find k)
  then show ?thesis using lookup_finds [OF assms(1)] assms(1) by (auto simp: store_step_def)
qed

lemma run_refines:
  assumes "stores s m" "\<forall>e. Add e \<in> set cs \<longrightarrow> usable s e"
  shows "\<exists>s'. store_run (store_step lookup add del) s cs = Some (s', snd (store_spec_run (key_of s) m cs))
    \<and> key_of s' = key_of s \<and> stores s' (fst (store_spec_run (key_of s) m cs))"
  using assms
proof (induction cs arbitrary: s m)
  case (Cons c cs)
  obtain s1 where s1: "store_step lookup add del s c = Some (s1, snd (store_spec (key_of s) m c))"
      "key_of s1 = key_of s" "usable s1 = usable s" "stores s1 (fst (store_spec (key_of s) m c))"
  proof -
    have c: "case c of Add e \<Rightarrow> usable s e | _ \<Rightarrow> True" using Cons.prems(2) by (auto split: store_cmd.splits)
    show thesis using step_refines [OF Cons.prems(1) c] by (elim exE conjE) (rule that)
  qed
  show ?case
    using Cons.IH [OF s1(4)] Cons.prems(2) s1(1-3) by (auto simp: split_beta)
qed auto

end

section \<open>The hash keeps the contract\<close>

text \<open>Every node is in the bucket its key belongs to; \<open>m\<close> maps each key in the hash to its element.\<close>

definition bhash_shape :: "bhash \<Rightarrow> ptr list list \<Rightarrow> bool" where
  "bhash_shape hash xss \<longleftrightarrow> carries_all dlist (hb_heap hash) (hb_buckets hash) xss
     \<and> length (hb_buckets hash) = unat (hb_numBuckets hash) \<and> hb_numBuckets hash \<noteq> 0
     \<and> (\<forall>i < length xss. \<forall>n \<in> set (xss ! i). hb_offset hash < n
         \<and> bhash_ndx hash (elem_key hash (n - hb_offset hash)) = Some i)"

definition bhash_stores :: "bhash \<Rightarrow> (u8 list \<rightharpoonup> ptr) \<Rightarrow> bool" where
  "bhash_stores hash m \<longleftrightarrow> (\<exists>xss. bhash_shape hash xss \<and>
     (\<forall>k e. m k = Some e \<longleftrightarrow> e \<noteq> 0 \<and> elem_key hash e = k \<and> e + hb_offset hash \<in> set (concat xss)))"

definition bhash_find :: "bhash \<Rightarrow> u8 list \<Rightarrow> ptr option option" where
  "bhash_find hash key = map_option (\<lambda>e. if e = NULL then None else Some e) (bhash_lookup hash key)"

definition bhash_usable :: "bhash \<Rightarrow> ptr \<Rightarrow> bool" where
  "bhash_usable hash e \<longleftrightarrow> e \<noteq> 0 \<and> e + hb_offset hash \<notin> set (hb_buckets hash)"

lemma heap_update_keeps [simp]:
  "elem_key (hash\<lparr>hb_heap := h\<rparr>) = elem_key hash" "bhash_ndx (hash\<lparr>hb_heap := h\<rparr>) = bhash_ndx hash"
  "bhash_usable (hash\<lparr>hb_heap := h\<rparr>) = bhash_usable hash"
  by (auto simp: elem_key_def bhash_ndx_def bhash_usable_def)

lemma bhash_ndx_bound:
  assumes "bhash_shape hash xss"
  obtains i where "bhash_ndx hash key = Some i" "i < length (hb_buckets hash)" "i < length xss"
proof -
  have "hb_numBuckets hash \<noteq> 0" "length (hb_buckets hash) = unat (hb_numBuckets hash)"
      "length xss = length (hb_buckets hash)"
    using assms by (auto simp: bhash_shape_def dest: carries_all_length)
  moreover have "unat (x mod w) < unat w" if "w \<noteq> 0" for x w :: u32
    using that by (simp add: unat_mod unat_gt_0)
  ultimately show ?thesis using that by (simp add: bhash_ndx_def)
qed

lemma bhash_search_spec:
  assumes "lseg (hb_heap hash) p xs head" "head \<notin> set xs" "NULL \<notin> set xs"
  shows "bhash_search hash key head (lh_next (hb_heap hash) p)
    = Some (case find (\<lambda>n. elem_key hash (n - hb_offset hash) = key) xs of None \<Rightarrow> NULL | Some n \<Rightarrow> n)"
  using assms
proof (induction xs arbitrary: p)
  case Nil
  then show ?case by (simp add: bhash_search.simps)
next
  case (Cons x xs)
  then have "lh_next (hb_heap hash) p = x" "x \<noteq> head" "x \<noteq> NULL" by auto
  then show ?case
    using Cons.IH [of x] Cons.prems by (subst bhash_search.simps) (simp add: rd_next_def)
qed

lemma find_in_bucket:
  assumes shape: "bhash_shape hash xss" and i: "bhash_ndx hash key = Some i" "i < length xss"
  obtains first where "mem_load (hb_buckets hash) i = Some (hb_buckets hash ! i)"
    "rd_next (hb_heap hash) (hb_buckets hash ! i) = Some first"
    "bhash_search hash key (hb_buckets hash ! i) first = Some
       (case find (\<lambda>n. elem_key hash (n - hb_offset hash) = key) (xss ! i) of None \<Rightarrow> NULL | Some n \<Rightarrow> n)"
proof -
  have "i < length (hb_buckets hash)" "dlist (hb_heap hash) (hb_buckets hash ! i) (xss ! i)"
    using shape i(2) by (auto simp: bhash_shape_def carries_all_def)
  then show ?thesis
    using bhash_search_spec [of hash "hb_buckets hash ! i" "xss ! i" "hb_buckets hash ! i"]
    by (intro that) (auto simp: dlist_def rd_next_def)
qed

text \<open>What the search finds is what the map holds.\<close>

lemma find_is_map:
  assumes shape: "bhash_shape hash xss" and i: "bhash_ndx hash key = Some i" "i < length xss"
    and m: "\<forall>k e. m k = Some e \<longleftrightarrow> e \<noteq> 0 \<and> elem_key hash e = k \<and> e + hb_offset hash \<in> set (concat xss)"
  shows "find (\<lambda>n. elem_key hash (n - hb_offset hash) = key) (xss ! i) = map_option (\<lambda>e. e + hb_offset hash) (m key)"
proof -
  let ?P = "\<lambda>n. elem_key hash (n - hb_offset hash) = key"
  have hit: "m key = Some (n - hb_offset hash) \<and> hb_offset hash < n" if n: "n \<in> set (xss ! i)" "?P n" for n
  proof -
    have "hb_offset hash < n" using shape i(2) n(1) by (auto simp: bhash_shape_def)
    moreover have "n \<in> set (concat xss)" using n(1) i(2) nth_mem [of i xss] by auto
    ultimately show ?thesis using n(2) m by simp
  qed
  show ?thesis
  proof (cases "m key")
    case None
    then show ?thesis using hit by (auto simp: find_None_iff)
  next
    case (Some e)
    then have e: "e \<noteq> 0" "elem_key hash e = key" "e + hb_offset hash \<in> set (concat xss)" using m by auto
    then obtain j where j: "j < length xss" "e + hb_offset hash \<in> set (xss ! j)"
      by (auto simp: in_concat_nth simp del: set_concat)
    then have "bhash_ndx hash key = Some j" using shape e(2) by (fastforce simp: bhash_shape_def)
    then have "e + hb_offset hash \<in> set (xss ! i)" using j(2) i(1) by simp
    then have "find ?P (xss ! i) \<noteq> None" using e(2) by (auto simp: find_None_iff)
    then obtain n where "find ?P (xss ! i) = Some n" "n \<in> set (xss ! i)" "?P n"
      by (auto simp: find_Some_iff in_set_conv_nth)
    then show ?thesis using hit [of n] Some by auto
  qed
qed

lemma bhash_lookup_spec:
  assumes "bhash_stores hash m"
  shows "bhash_find hash key = Some (m key)"
proof -
  obtain xss where x: "bhash_shape hash xss"
      "\<forall>k e. m k = Some e \<longleftrightarrow> e \<noteq> 0 \<and> elem_key hash e = k \<and> e + hb_offset hash \<in> set (concat xss)"
    using assms by (auto simp: bhash_stores_def)
  obtain i where i: "bhash_ndx hash key = Some i" "i < length (hb_buckets hash)" "i < length xss"
    by (rule bhash_ndx_bound [OF x(1)])
  obtain first where f: "mem_load (hb_buckets hash) i = Some (hb_buckets hash ! i)"
      "rd_next (hb_heap hash) (hb_buckets hash ! i) = Some first"
      "bhash_search hash key (hb_buckets hash ! i) first = Some
         (case find (\<lambda>n. elem_key hash (n - hb_offset hash) = key) (xss ! i) of None \<Rightarrow> NULL | Some n \<Rightarrow> n)"
    by (rule find_in_bucket [OF x(1) i(1,3)])
  show ?thesis
    using f find_is_map [OF x(1) i(1,3) x(2)] x(2) [rule_format, of key "the (m key)"] i(1)
    by (cases "m key") (simp_all add: bhash_find_def bhash_lookup_def del: bind_option_Some_iff)
qed

lemma bhash_lookup_eq: "bhash_stores hash m \<Longrightarrow>
    bhash_lookup hash key = Some (case m key of None \<Rightarrow> NULL | Some e \<Rightarrow> e)"
  using bhash_lookup_spec [of hash m key]
  by (auto simp: bhash_find_def split: if_splits option.splits)

lemma bhash_init_stores:
  assumes "distinct buckets" "NULL \<notin> set buckets" "length buckets = unat n" "n \<noteq> 0"
  shows "\<exists>hash'. bhash_init hash buckets n off koff ksize func = Some hash' \<and> bhash_stores hash' Map.empty
    \<and> hb_mem hash' = hb_mem hash \<and> hb_offset hash' = off \<and> hb_key_offset hash' = koff \<and> hb_key_size hash' = ksize
    \<and> hb_buckets hash' = buckets"
proof -
  obtain h where h: "foldo init_list_head (hb_heap hash) buckets = Some h"
      "carries_all dlist h buckets (replicate (length buckets) [])"
    using init_heads [OF assms(1,2)] by blast
  show ?thesis
    using h assms(3,4)
    by (auto simp: bhash_init_def bhash_stores_def bhash_shape_def intro!: exI [of _ "replicate (length buckets) []"])
qed

lemma bhash_add_spec:
  assumes st: "bhash_stores hash m" and us: "bhash_usable hash e"
  shows "\<exists>hash'. bhash_add hash e = Some (hash', if m (elem_key hash e) = None then 1 else 0)
    \<and> elem_key hash' = elem_key hash \<and> bhash_usable hash' = bhash_usable hash
    \<and> bhash_stores hash' (if m (elem_key hash e) = None then m(elem_key hash e \<mapsto> e) else m)"
proof -
  let ?k = "elem_key hash e" and ?n = "e + hb_offset hash"
  note find = bhash_lookup_eq [OF st, of ?k]
  obtain xss where x: "bhash_shape hash xss"
      "\<forall>k e. m k = Some e \<longleftrightarrow> e \<noteq> 0 \<and> elem_key hash e = k \<and> e + hb_offset hash \<in> set (concat xss)"
    using st by (auto simp: bhash_stores_def)
  show ?thesis
  proof (cases "m ?k")
    case (Some e')
    then have "e' \<noteq> 0" using x(2) by simp
    then show ?thesis using find st Some by (auto simp: bhash_add_def Let_def)
  next
    case None
    obtain i where i: "bhash_ndx hash ?k = Some i" "i < length (hb_buckets hash)" "i < length xss"
      by (rule bhash_ndx_bound [OF x(1)])
    have fresh: "?n \<notin> all_nodes (hb_buckets hash) xss" "?n \<noteq> NULL"
      using us None x(2) [rule_format, of ?k e] by (auto simp: all_nodes_def bhash_usable_def simp del: set_concat)
    obtain h where h: "list_add_tail (hb_heap hash) ?n (hb_buckets hash ! i) = Some h"
        "carries_all dlist h (hb_buckets hash) (xss[i := xss ! i @ [?n]])"
      using dl.add_tail_at [OF _ i(2) fresh, of "hb_heap hash"] x(1) [unfolded bhash_shape_def] by blast
    let ?hash = "hash\<lparr>hb_heap := h\<rparr>"
    have "bhash_shape ?hash (xss[i := xss ! i @ [?n]])"
      using x(1) h(2) i us by (auto simp: bhash_shape_def nth_list_update bhash_usable_def)
    moreover have "(m(?k \<mapsto> e)) k = Some e' \<longleftrightarrow> e' \<noteq> 0 \<and> elem_key ?hash e' = k
        \<and> e' + hb_offset ?hash \<in> set (concat (xss[i := xss ! i @ [?n]]))" for k e'
      using x(2) [rule_format, of ?k e'] x(2) None us by (auto simp: set_concat_update [OF i(3)] bhash_usable_def simp del: set_concat)
    ultimately have "bhash_stores ?hash (m(?k \<mapsto> e))" by (auto simp only: bhash_stores_def)
    then show ?thesis
      using find None i(1,2) h(1) by (auto simp: bhash_add_def Let_def intro!: exI [of _ ?hash])
  qed
qed

lemma bhash_del_spec:
  assumes st: "bhash_stores hash m"
  shows "\<exists>hash'. bhash_del hash k = Some (hash', if m k = None then 0 else 1)
    \<and> elem_key hash' = elem_key hash \<and> bhash_usable hash' = bhash_usable hash \<and> bhash_stores hash' (m(k := None))"
proof -
  note find = bhash_lookup_eq [OF st, of k]
  obtain xss where x: "bhash_shape hash xss"
      "\<forall>k e. m k = Some e \<longleftrightarrow> e \<noteq> 0 \<and> elem_key hash e = k \<and> e + hb_offset hash \<in> set (concat xss)"
    using st by (auto simp: bhash_stores_def)
  show ?thesis
  proof (cases "m k")
    case None
    then have "m(k := None) = m" by auto
    then show ?thesis using find st None by (auto simp: bhash_del_def)
  next
    case (Some e)
    then have e: "e \<noteq> 0" "elem_key hash e = k" "e + hb_offset hash \<in> set (concat xss)" using x(2) by auto
    obtain i where i: "bhash_ndx hash k = Some i" "i < length (hb_buckets hash)" "i < length xss"
      by (rule bhash_ndx_bound [OF x(1)])
    let ?n = "e + hb_offset hash"
    have n: "find (\<lambda>n. elem_key hash (n - hb_offset hash) = k) (xss ! i) = Some ?n"
      using find_is_map [OF x(1) i(1,3) x(2)] Some by simp
    then have "?n \<in> set (xss ! i)" by (auto simp: find_Some_iff)
    then obtain ys zs where split: "xss ! i = ys @ ?n # zs" by (meson split_list)
    have all: "carries_all dlist (hb_heap hash) (hb_buckets hash) xss" using x(1) by (simp add: bhash_shape_def)
    have d: "dlist (hb_heap hash) (hb_buckets hash ! i) (ys @ ?n # zs)"
      using carries_all_nth [OF all i(2)] split by simp
    obtain h where h: "list_del (hb_heap hash) ?n = Some h" "dlist h (hb_buckets hash ! i) (ys @ zs)"
        "only_changes (set (hb_buckets hash ! i # ys @ ?n # zs)) (hb_heap hash) h"
      using list_del_spec [OF d] by blast
    let ?hash = "hash\<lparr>hb_heap := h\<rparr>" and ?xss = "xss[i := ys @ zs]"
    have all': "carries_all dlist h (hb_buckets hash) ?xss"
      by (rule dl.carries_all_update [OF all i(2) h(2), where F = "{}"]) (use split h(3) in auto)
    have shape: "bhash_shape ?hash ?xss"
      using x(1) all' i split by (auto simp: bhash_shape_def nth_list_update)
    have rest: "set (concat ?xss) = set (concat xss) - {?n}"
      by (rule set_concat_remove [OF all i(2) split]) (use d in \<open>auto simp: dlist_def\<close>)
    have "(m(k := None)) k' = Some e' \<longleftrightarrow> e' \<noteq> 0 \<and> elem_key ?hash e' = k' \<and> e' + hb_offset ?hash \<in> set (concat ?xss)"
      for k' e'
      using x(2) [rule_format, of k e] x(2) [rule_format, of k' e'] Some e(2) unfolding rest
      by (auto simp del: set_concat)
    then have "bhash_stores ?hash (m(k := None))" using shape by (auto simp only: bhash_stores_def)
    moreover have "bhash_del hash k = Some (?hash, 1)"
    proof -
      obtain first where f: "mem_load (hb_buckets hash) i = Some (hb_buckets hash ! i)"
          "rd_next (hb_heap hash) (hb_buckets hash ! i) = Some first"
          "bhash_search hash k (hb_buckets hash ! i) first = Some ?n"
        by (rule find_in_bucket [OF x(1) i(1,3)]) (use n in simp)
      show ?thesis using find Some e(1) i f h(1) by (simp add: bhash_del_def del: bind_option_Some_iff)
    qed
    ultimately show ?thesis using Some by (intro exI [of _ ?hash]) simp
  qed
qed

interpretation bh: key_store bhash_find bhash_add bhash_del bhash_stores elem_key bhash_usable
  by unfold_locales (rule bhash_lookup_spec bhash_add_spec bhash_del_spec; assumption)+

section \<open>Properties\<close>

text \<open>
  C21: The hash is a map from keys to elements: after \<open>bhash_init\<close>, any sequence of adding, deleting
  and looking up answers what a finite map answers; in particular no key is in it twice, adding an
  element whose key is present is refused with 0 and changes nothing, and deleting an absent key
  answers 0. The hash function does not matter.
\<close>

theorem bhash_is_a_map:
  assumes "distinct buckets" "NULL \<notin> set buckets" "length buckets = unat n" "n \<noteq> 0"
    and "\<forall>e. Add e \<in> set cs \<longrightarrow> e \<noteq> 0 \<and> e + off \<notin> set buckets"
  shows "\<exists>hash0 hash1. bhash_init hash buckets n off koff ksize func = Some hash0
    \<and> store_run (store_step bhash_find bhash_add bhash_del) hash0 cs
        = Some (hash1, snd (store_spec_run (\<lambda>e. map (\<lambda>i. hb_mem hash (e + koff + i)) [0..<ksize]) Map.empty cs))
    \<and> bhash_stores hash1 (fst (store_spec_run (\<lambda>e. map (\<lambda>i. hb_mem hash (e + koff + i)) [0..<ksize]) Map.empty cs))"
proof -
  obtain hash0 where h0: "bhash_init hash buckets n off koff ksize func = Some hash0" "bhash_stores hash0 Map.empty"
      "hb_mem hash0 = hb_mem hash" "hb_offset hash0 = off" "hb_key_offset hash0 = koff" "hb_key_size hash0 = ksize"
      "hb_buckets hash0 = buckets"
    using bhash_init_stores [OF assms(1-4)] by blast
  have "elem_key hash0 = (\<lambda>e. map (\<lambda>i. hb_mem hash (e + koff + i)) [0..<ksize])"
    by (simp add: elem_key_def h0 fun_eq_iff)
  moreover have "\<forall>e. Add e \<in> set cs \<longrightarrow> bhash_usable hash0 e" using assms(5) by (simp add: bhash_usable_def h0)
  ultimately show ?thesis using bh.run_refines [OF h0(2)] h0(1) by auto
qed

lemma bhash_is_a_map_witness:
  "\<exists>hash0 hash1. bhash_init \<lparr>hb_heap = \<lparr>lh_next = (\<lambda>_. 0), lh_prev = (\<lambda>_. 0)\<rparr>, hb_mem = (\<lambda>a. of_nat a),
       hb_numBuckets = 0, hb_offset = 0, hb_key_offset = 0, hb_key_size = 0, hb_calc_hash = djb_hash, hb_buckets = []\<rparr>
       [5, 6, 7] 3 2 0 1 None = Some hash0
     \<and> store_run (store_step bhash_find bhash_add bhash_del) hash0 [Add 20, Add 30, Find [30], Del [20], Find [20], Add 30]
       = Some (hash1, [Done 1, Done 1, Got (Some 30), Done 1, Got None, Done 0])"
  using bhash_is_a_map [of "[5, 6, 7]" 3 "[Add 20, Add 30, Find [30], Del [20], Find [20], Add 30]" 2
    "\<lparr>hb_heap = \<lparr>lh_next = (\<lambda>_. 0), lh_prev = (\<lambda>_. 0)\<rparr>, hb_mem = (\<lambda>a. of_nat a),
       hb_numBuckets = 0, hb_offset = 0, hb_key_offset = 0, hb_key_size = 0, hb_calc_hash = djb_hash, hb_buckets = []\<rparr>"
    0 1 None]
  by (simp add: fun_upd_def) (elim exE conjE, intro exI conjI, assumption+)

end
