(* ===== verification/Cli.thy ===== *)
theory Cli
  imports Kj_Prelude
begin

text \<open>
  \<open>src/cli/cli.c\<close>: the command line. Received bytes are echoed and edited into \<open>cmd_buffer\<close>; a carriage
  return ends the line, which is cut into words and dispatched to the built-in commands and then to the
  application's. An interface transmits through its callback \<open>put_tx_data\<close>; the locale \<open>cli_terminal\<close>
  states what the command line needs of that callback and of the application's commands. The abstract
  view is a line editor with a dispatcher, \<open>cli_run\<close>.

  Strings are byte lists without their terminating NUL. The static \<open>_print_buffer\<close> is carried with the
  interface that runs. \<open>strtok_r\<close> is modelled by the words it returns: the NULs it writes fall into a
  finished line, of which no byte is read again before it is overwritten.
\<close>

section \<open>Text\<close>

definition ascii :: "string \<Rightarrow> u8 list" where
  "ascii s = map of_char s"

definition CLI_EOL_CHAR :: u8 where "CLI_EOL_CHAR = 13"
definition CLI_EOL :: "u8 list" where "CLI_EOL = [13, 10]"
definition CLI_MAX_COLUMNS_PER_LINE :: nat where "CLI_MAX_COLUMNS_PER_LINE = 512"
definition CLI_COMMAND_MAX_ARGS :: nat where "CLI_COMMAND_MAX_ARGS = 16"
definition CLI_MAX_COMMAND_LEN :: nat where "CLI_MAX_COMMAND_LEN = 252"

definition cli_version_text :: "u8 list" where
  "cli_version_text = ascii ''KongjaExpress CLI V1.0''"

definition cli_prompt_text :: "u8 list" where
  "cli_prompt_text = CLI_EOL @ ascii ''kjexpr > ''"

lemma length_ascii [simp]: "length (ascii s) = length s"
  by (simp add: ascii_def)

text \<open>The width of \<open>%-10s\<close>.\<close>

definition pad10 :: "u8 list \<Rightarrow> u8 list" where
  "pad10 s = s @ replicate (10 - length s) 32"

section \<open>State\<close>

record 'u cli_intf =
  ci_cmd_buffer_ndx :: u8
  ci_cmd_buffer :: "u8 list"
  ci_print_buffer :: "u8 list"
  ci_le :: bool
  ci_env :: 'u

type_synonym 'u cli_put = "'u cli_intf \<Rightarrow> u8 list \<Rightarrow> int \<Rightarrow> 'u cli_intf option"
type_synonym 'u cli_command_handler = "'u cli_intf \<Rightarrow> u8 list list \<Rightarrow> 'u cli_intf option"

record 'u cli_command =
  cc_command :: "u8 list"
  cc_help_str :: "u8 list"
  cc_handler :: "'u cli_command_handler"

section \<open>Output\<close>

text \<open>
  \<open>vsnprintf\<close> stores at most \<open>n - 1\<close> bytes and a NUL, and returns the length of the whole text. That
  length, not the stored one, is what \<open>cli_printf\<close> transmits from the buffer.
\<close>

definition vsnprintf :: "u8 list \<Rightarrow> nat \<Rightarrow> u8 list \<Rightarrow> (u8 list \<times> int) option" where
  "vsnprintf buf n text =
     (if n = 0 then Some (buf, int (length text))
      else do { buf \<leftarrow> mem_blit buf 0 (take (n - 1) text @ [0]); Some (buf, int (length text)) })"

definition cli_printf :: "'u cli_put \<Rightarrow> 'u cli_intf \<Rightarrow> u8 list \<Rightarrow> 'u cli_intf option" where
  "cli_printf put intf text = do {
     (buf, len) \<leftarrow> vsnprintf (ci_print_buffer intf) CLI_MAX_COLUMNS_PER_LINE text;
     put (intf\<lparr>ci_print_buffer := buf\<rparr>) buf len }"

definition cli_prompt :: "'u cli_put \<Rightarrow> 'u cli_intf \<Rightarrow> 'u cli_intf option" where
  "cli_prompt put intf = put intf (cli_prompt_text @ [0]) (int (length (cli_prompt_text @ [0])) - 1)"

section \<open>Built-in commands\<close>

definition core_texts :: "(u8 list \<times> u8 list) list" where
  "core_texts = [(ascii ''help'', ascii ''show this command''), (ascii ''version'', ascii ''show version'')]"

definition cli_help_line :: "'u cli_put \<Rightarrow> 'u cli_intf \<Rightarrow> u8 list \<times> u8 list \<Rightarrow> 'u cli_intf option" where
  "cli_help_line put intf entry = do {
     intf \<leftarrow> cli_printf put intf (pad10 (fst entry) @ ascii '': '');
     cli_printf put intf (snd entry @ CLI_EOL) }"

definition cli_command_help :: "'u cli_put \<Rightarrow> 'u cli_command list \<Rightarrow> 'u cli_command_handler" where
  "cli_command_help put users intf argv = do {
     intf \<leftarrow> cli_printf put intf CLI_EOL;
     intf \<leftarrow> foldo (cli_help_line put) intf core_texts;
     foldo (cli_help_line put) intf (map (\<lambda>c. (cc_command c, cc_help_str c)) users) }"

definition cli_command_version :: "'u cli_put \<Rightarrow> 'u cli_command_handler" where
  "cli_command_version put intf argv = do {
     intf \<leftarrow> cli_printf put intf CLI_EOL;
     cli_printf put intf (cli_version_text @ CLI_EOL) }"

definition core_commands :: "'u cli_put \<Rightarrow> 'u cli_command list \<Rightarrow> 'u cli_command list" where
  "core_commands put users =
     [\<lparr>cc_command = ascii ''help'', cc_help_str = ascii ''show this command'', cc_handler = cli_command_help put users\<rparr>,
      \<lparr>cc_command = ascii ''version'', cc_help_str = ascii ''show version'', cc_handler = cli_command_version put\<rparr>]"

section \<open>A line\<close>

definition blank :: "u8 \<Rightarrow> bool" where
  "blank b \<longleftrightarrow> b = 32 \<or> b = 9"

text \<open>\<open>strtok_r\<close> on the rest of a line: the next word and what follows its delimiter.\<close>

definition strtok_r :: "u8 list \<Rightarrow> (u8 list \<times> u8 list) option" where
  "strtok_r s = (let s = dropWhile blank s in
     if s = [] then None
     else Some (takeWhile (\<lambda>b. \<not> blank b) s, drop 1 (dropWhile (\<lambda>b. \<not> blank b) s)))"

lemma strtok_r_shorter: "strtok_r s = Some (t, r) \<Longrightarrow> length r < length s"
proof -
  assume a: "strtok_r s = Some (t, r)"
  let ?s = "dropWhile blank s"
  have ne: "?s \<noteq> []" and r: "r = drop 1 (dropWhile (\<lambda>b. \<not> blank b) ?s)"
    using a by (auto simp: strtok_r_def Let_def split: if_splits)
  have "length r \<le> length ?s - 1"
    using length_dropWhile_le [of "\<lambda>b. \<not> blank b" ?s] by (simp add: r)
  also have "\<dots> < length s" using ne length_dropWhile_le [of blank s] by (cases ?s) auto
  finally show ?thesis .
qed

text \<open>The \<open>while\<close> loop that fills \<open>argv\<close>; \<open>None\<close> is the word that is too many.\<close>

function cli_tokens :: "u8 list \<Rightarrow> u8 list list \<Rightarrow> u8 list list option" where
  "cli_tokens s argv =
     (case strtok_r s of
        None \<Rightarrow> Some argv
      | Some (t, r) \<Rightarrow> if length argv \<ge> CLI_COMMAND_MAX_ARGS then None else cli_tokens r (argv @ [t]))"
  by auto
termination by (relation "measure (\<lambda>(s, _). length s)") (auto dest: strtok_r_shorter)

declare cli_tokens.simps [simp del]

definition cli_executing :: "u8 list \<Rightarrow> u8 list" where
  "cli_executing name = CLI_EOL @ ascii ''Executing '' @ name @ CLI_EOL"

definition cli_too_many_text :: "u8 list" where
  "cli_too_many_text = CLI_EOL @ ascii ''Error: too many arguments'' @ CLI_EOL"

definition cli_unknown_text :: "u8 list" where
  "cli_unknown_text = CLI_EOL @ ascii ''Unknown Command: ''"

definition cli_execute_command :: "'u cli_put \<Rightarrow> 'u cli_command list \<Rightarrow> 'u cli_intf \<Rightarrow> u8 list \<Rightarrow> 'u cli_intf option" where
  "cli_execute_command put users intf cmd =
     (case cli_tokens cmd [] of
        None \<Rightarrow> cli_printf put intf cli_too_many_text
      | Some [] \<Rightarrow> Some intf
      | Some (name # args) \<Rightarrow>
          (case List.find (\<lambda>c. cc_command c = name) (core_commands put users) of
             Some c \<Rightarrow> do {
               intf \<leftarrow> cli_printf put intf (cli_executing name);
               cc_handler c intf (name # args) }
           | None \<Rightarrow>
               (case List.find (\<lambda>c. cc_command c = name) users of
                  Some c \<Rightarrow> do {
                    intf \<leftarrow> cli_printf put intf (cli_executing name);
                    cc_handler c intf (name # args) }
                | None \<Rightarrow> do {
                    intf \<leftarrow> cli_printf put intf cli_unknown_text;
                    intf \<leftarrow> cli_printf put intf name;
                    cli_printf put intf CLI_EOL })))"

section \<open>Received bytes\<close>

text \<open>The bytes of a C string; without a NUL in the array the search for it runs out of bounds.\<close>

definition c_string :: "u8 list \<Rightarrow> u8 list option" where
  "c_string buf = (if 0 \<in> set buf then Some (takeWhile (\<lambda>b. b \<noteq> 0) buf) else None)"

lemma takeWhile_until_zero: "takeWhile (\<lambda>c. c \<noteq> 0) (xs @ 0 # ys) = takeWhile (\<lambda>c. c \<noteq> (0 :: u8)) xs"
  by (induction xs) auto

definition cli_rx_byte :: "'u cli_put \<Rightarrow> 'u cli_command list \<Rightarrow> 'u cli_intf \<Rightarrow> u8 \<Rightarrow> 'u cli_intf option" where
  "cli_rx_byte put users intf b =
     (if b \<noteq> CLI_EOL_CHAR \<and> unat (ci_cmd_buffer_ndx intf) < CLI_MAX_COMMAND_LEN then
        if b = 8 \<or> b = 0x7f then
          if ci_cmd_buffer_ndx intf > 0 then do {
            intf \<leftarrow> cli_printf put intf [8, 0x20, 8];
            Some (intf\<lparr>ci_cmd_buffer_ndx := ci_cmd_buffer_ndx intf - 1\<rparr>) }
          else Some intf
        else do {
          intf \<leftarrow> cli_printf put intf [b];
          buf \<leftarrow> mem_store (ci_cmd_buffer intf) (unat (ci_cmd_buffer_ndx intf)) b;
          Some (intf\<lparr>ci_cmd_buffer := buf, ci_cmd_buffer_ndx := ci_cmd_buffer_ndx intf + 1\<rparr>) }
      else if b = CLI_EOL_CHAR then do {
        buf \<leftarrow> mem_store (ci_cmd_buffer intf) (unat (ci_cmd_buffer_ndx intf)) 0;
        let intf = intf\<lparr>ci_cmd_buffer := buf, ci_cmd_buffer_ndx := ci_cmd_buffer_ndx intf + 1\<rparr>;
        cmd \<leftarrow> c_string buf;
        intf \<leftarrow> cli_execute_command put users intf cmd;
        cli_prompt put (intf\<lparr>ci_cmd_buffer_ndx := 0\<rparr>) }
      else Some intf)"

definition cli_handle_rx ::
    "'u cli_put \<Rightarrow> 'u cli_command list \<Rightarrow> 'u cli_intf \<Rightarrow> u8 list \<Rightarrow> int \<Rightarrow> 'u cli_intf option" where
  "cli_handle_rx put users intf data len = do {
     bytes \<leftarrow> mem_slice data 0 (nat len);
     foldo (cli_rx_byte put users) intf bytes }"

text \<open>
  The list of interfaces is only ever added to and removed from; \<open>ci_le\<close> says whether the interface is
  linked into it.
\<close>

definition cli_intf_register :: "'u cli_intf \<Rightarrow> 'u cli_intf" where
  "cli_intf_register intf = intf\<lparr>ci_le := True\<rparr>"

definition cli_intf_unregister :: "'u cli_intf \<Rightarrow> 'u cli_intf" where
  "cli_intf_unregister intf = intf\<lparr>ci_le := False\<rparr>"

section \<open>Words\<close>

text \<open>The reference: the maximal blank-free pieces of a line.\<close>

fun split_blanks :: "u8 list \<Rightarrow> u8 list list" where
  "split_blanks [] = [[]]"
| "split_blanks (b # s) =
     (if blank b then [] # split_blanks s
      else (b # hd (split_blanks s)) # tl (split_blanks s))"

definition line_words :: "u8 list \<Rightarrow> u8 list list" where
  "line_words s = [w \<leftarrow> split_blanks s. w \<noteq> []]"

lemma split_blanks_not_Nil [simp]: "split_blanks s \<noteq> []"
  by (cases s) auto

lemma split_blanks_word:
  "\<forall>b \<in> set w. \<not> blank b \<Longrightarrow> split_blanks (w @ s) = (w @ hd (split_blanks s)) # tl (split_blanks s)"
  by (induction w) auto

lemma line_words_blank [simp]: "blank b \<Longrightarrow> line_words (b # s) = line_words s"
  by (simp add: line_words_def)

lemma line_words_dropWhile: "line_words (dropWhile blank s) = line_words s"
  by (induction s) auto

lemma line_words_cons:
  assumes "w \<noteq> []" "\<forall>b \<in> set w. \<not> blank b" "s = [] \<or> blank (hd s)"
  shows "line_words (w @ s) = w # line_words (drop 1 s)"
  using assms split_blanks_word [OF assms(2), of s] by (cases s) (auto simp: line_words_def)

lemma strtok_r_words:
  "strtok_r s = (case line_words s of [] \<Rightarrow> None | w # _ \<Rightarrow> Some (w, drop 1 (dropWhile (\<lambda>b. \<not> blank b) (dropWhile blank s))))"
  "strtok_r s = Some (t, r) \<Longrightarrow> line_words s = t # line_words r"
proof -
  let ?s = "dropWhile blank s"
  let ?w = "takeWhile (\<lambda>b. \<not> blank b) ?s"
  let ?r = "dropWhile (\<lambda>b. \<not> blank b) ?s"
  have words: "line_words s = ?w # line_words (drop 1 ?r)" if "?s \<noteq> []"
  proof -
    have "?w \<noteq> []" using that hd_dropWhile [of blank s] by (cases ?s) auto
    moreover have "?r = [] \<or> blank (hd ?r)" using hd_dropWhile [of "\<lambda>b. \<not> blank b" ?s] by blast
    ultimately have "line_words (?w @ ?r) = ?w # line_words (drop 1 ?r)"
      by (intro line_words_cons) (auto dest: set_takeWhileD)
    then show ?thesis by (simp add: line_words_dropWhile)
  qed
  have none: "line_words s = []" if "?s = []"
    using line_words_dropWhile [of s] that by (simp add: line_words_def)
  show "strtok_r s = (case line_words s of [] \<Rightarrow> None | w # _ \<Rightarrow> Some (w, drop 1 ?r))"
    using words none by (cases "?s = []") (simp_all add: strtok_r_def Let_def)
  show "line_words s = t # line_words r" if "strtok_r s = Some (t, r)"
    using that words by (auto simp: strtok_r_def Let_def split: if_splits)
qed

lemma strtok_r_None: "strtok_r s = None \<longleftrightarrow> line_words s = []"
  using strtok_r_words(1) [of s] by (simp split: list.split)

lemma split_blanks_length: "w \<in> set (split_blanks s) \<Longrightarrow> length w \<le> length s"
proof (induction s arbitrary: w)
  case (Cons b s)
  obtain v vs where v: "split_blanks s = v # vs" by (cases "split_blanks s") auto
  then show ?case using Cons by (auto split: if_splits intro: le_SucI)
qed simp

lemma line_words_length: "w \<in> set (line_words s) \<Longrightarrow> length w \<le> length s"
  using split_blanks_length by (simp add: line_words_def)

lemma cli_tokens_words:
  "length argv \<le> 16 \<Longrightarrow> cli_tokens s argv = (if length argv + length (line_words s) \<le> 16 then Some (argv @ line_words s) else None)"
proof (induction s argv rule: cli_tokens.induct)
  case (1 s argv)
  show ?case
  proof (cases "strtok_r s")
    case None
    then show ?thesis using 1(2) strtok_r_None [of s] by (simp add: cli_tokens.simps)
  next
    case (Some p)
    then obtain t r where p: "strtok_r s = Some (t, r)" by (cases p) auto
    then have "line_words s = t # line_words r" by (rule strtok_r_words)
    with p 1(1) [OF p refl] 1(2) show ?thesis
      by (subst cli_tokens.simps) (simp add: CLI_COMMAND_MAX_ARGS_def)
  qed
qed

section \<open>The abstract command line\<close>

definition help_chunks :: "'u cli_command list \<Rightarrow> u8 list list" where
  "help_chunks users = CLI_EOL #
     concat (map (\<lambda>p. [pad10 (fst p) @ ascii '': '', snd p @ CLI_EOL])
       (core_texts @ map (\<lambda>c. (cc_command c, cc_help_str c)) users))"

text \<open>
  \<open>tx\<close> is what transmitting a piece of text does to the interface's owner, \<open>act\<close> what an application's
  command does to it.
\<close>

definition cli_dispatch ::
    "(u8 list \<Rightarrow> 'u \<Rightarrow> 'u) \<Rightarrow> ('u cli_command \<Rightarrow> u8 list list \<Rightarrow> 'u \<Rightarrow> 'u) \<Rightarrow> 'u cli_command list \<Rightarrow>
     u8 list \<Rightarrow> 'u \<Rightarrow> 'u" where
  "cli_dispatch tx act users line e =
     (let ws = line_words line in
      if length ws > 16 then tx cli_too_many_text e
      else case ws of [] \<Rightarrow> e
      | name # args \<Rightarrow>
          if name = ascii ''help'' then fold tx (cli_executing name # help_chunks users) e
          else if name = ascii ''version'' then fold tx [cli_executing name, CLI_EOL, cli_version_text @ CLI_EOL] e
          else case List.find (\<lambda>c. cc_command c = name) users of
            Some c \<Rightarrow> act c ws (tx (cli_executing name) e)
          | None \<Rightarrow> fold tx [cli_unknown_text, name, CLI_EOL] e)"

text \<open>
  One byte: the line and the owner. A carriage return after 252 characters has no defined result; until
  then a full line takes no more characters, not even a backspace.
\<close>

definition cli_spec_byte ::
    "(u8 list \<Rightarrow> 'u \<Rightarrow> 'u) \<Rightarrow> ('u cli_command \<Rightarrow> u8 list list \<Rightarrow> 'u \<Rightarrow> 'u) \<Rightarrow> 'u cli_command list \<Rightarrow>
     u8 list \<times> 'u \<Rightarrow> u8 \<Rightarrow> (u8 list \<times> 'u) option" where
  "cli_spec_byte tx act users st b = (case st of (line, e) \<Rightarrow>
     if b = 13 then
       if length line = 252 then None
       else Some ([], tx cli_prompt_text (cli_dispatch tx act users (takeWhile (\<lambda>c. c \<noteq> 0) line) e))
     else if length line = 252 then Some (line, e)
     else Some (if b = 8 \<or> b = 0x7f then if line = [] then (line, e) else (butlast line, tx [8, 32, 8] e)
       else (line @ [b], tx [b] e)))"

definition cli_spec ::
    "(u8 list \<Rightarrow> 'u \<Rightarrow> 'u) \<Rightarrow> ('u cli_command \<Rightarrow> u8 list list \<Rightarrow> 'u \<Rightarrow> 'u) \<Rightarrow> 'u cli_command list \<Rightarrow>
     u8 list \<times> 'u \<Rightarrow> u8 list \<Rightarrow> (u8 list \<times> 'u) option" where
  "cli_spec tx act users = foldo (cli_spec_byte tx act users)"

definition cli_ok :: "'u cli_intf \<Rightarrow> bool" where
  "cli_ok intf \<longleftrightarrow> length (ci_cmd_buffer intf) = 252 \<and> unat (ci_cmd_buffer_ndx intf) \<le> 252
     \<and> length (ci_print_buffer intf) = 513"

definition cli_line :: "'u cli_intf \<Rightarrow> u8 list" where
  "cli_line intf = take (unat (ci_cmd_buffer_ndx intf)) (ci_cmd_buffer intf)"

section \<open>Refinement\<close>

locale cli_terminal =
  fixes put :: "'u cli_put"
    and users :: "'u cli_command list"
    and tx :: "u8 list \<Rightarrow> 'u \<Rightarrow> 'u"
    and act :: "'u cli_command \<Rightarrow> u8 list list \<Rightarrow> 'u \<Rightarrow> 'u"
    and env_ok :: "'u \<Rightarrow> bool"
  assumes put: "env_ok (ci_env intf) \<Longrightarrow> n \<le> length data \<Longrightarrow> n \<le> 511 \<Longrightarrow>
      put intf data (int n) = Some (intf\<lparr>ci_env := tx (take n data) (ci_env intf)\<rparr>)"
    and tx_ok: "env_ok e \<Longrightarrow> env_ok (tx bytes e)"
    and handler: "c \<in> set users \<Longrightarrow> cli_ok intf \<Longrightarrow> env_ok (ci_env intf) \<Longrightarrow>
      \<exists>intf'. cc_handler c intf argv = Some intf' \<and> cli_ok intf' \<and> ci_env intf' = act c argv (ci_env intf)
        \<and> env_ok (ci_env intf')"
    and texts: "c \<in> set users \<Longrightarrow> length (cc_command c) \<le> 500 \<and> length (cc_help_str c) \<le> 500"
begin

text \<open>\<open>intf'\<close> is \<open>intf\<close> after transmitting some texts.\<close>

definition said :: "u8 list list \<Rightarrow> 'u cli_intf \<Rightarrow> 'u cli_intf option \<Rightarrow> bool" where
  "said ts intf r \<longleftrightarrow> (\<exists>intf'. r = Some intf' \<and> ci_env intf' = fold tx ts (ci_env intf)
     \<and> ci_cmd_buffer intf' = ci_cmd_buffer intf \<and> ci_cmd_buffer_ndx intf' = ci_cmd_buffer_ndx intf
     \<and> length (ci_print_buffer intf') = 513)"

definition ready :: "'u cli_intf \<Rightarrow> bool" where
  "ready intf \<longleftrightarrow> length (ci_print_buffer intf) = 513 \<and> env_ok (ci_env intf)"

lemma fold_tx_ok: "env_ok e \<Longrightarrow> env_ok (fold tx ts e)"
  by (induction ts arbitrary: e) (auto simp: tx_ok)

lemma said_ready: "said ts intf (Some intf') \<Longrightarrow> ready intf \<Longrightarrow> ready intf'"
  by (auto simp: said_def ready_def fold_tx_ok)

lemma said_bind:
  assumes "said ts intf r" "ready intf"
    and "\<And>intf'. ready intf' \<Longrightarrow> said us intf' (f intf')"
  shows "said (ts @ us) intf (Option.bind r f)"
proof -
  obtain i1 where 1: "r = Some i1" using assms(1) by (auto simp: said_def)
  then have "ready i1" using assms said_ready by blast
  then have "said us i1 (f i1)" by (rule assms(3))
  then show ?thesis using assms(1) unfolding 1 by (auto simp: said_def)
qed

lemma printf:
  assumes "ready intf" "length text \<le> 511"
  shows "said [text] intf (cli_printf put intf text)"
proof -
  let ?b = "text @ 0 # drop (length text + 1) (ci_print_buffer intf)"
  have v: "vsnprintf (ci_print_buffer intf) CLI_MAX_COLUMNS_PER_LINE text = Some (?b, int (length text))"
    using assms by (simp add: vsnprintf_def CLI_MAX_COLUMNS_PER_LINE_def mem_blit_def ready_def)
  show ?thesis
    unfolding cli_printf_def v using assms put [of "intf\<lparr>ci_print_buffer := ?b\<rparr>" "length text" ?b]
    by (simp add: said_def ready_def)
qed

lemma prompt: "ready intf \<Longrightarrow> said [cli_prompt_text] intf (cli_prompt put intf)"
  using put [of intf "length cli_prompt_text" "cli_prompt_text @ [0]"]
  by (simp add: cli_prompt_def said_def ready_def cli_prompt_text_def CLI_EOL_def)

lemma help_line:
  assumes "ready intf" "length (fst p) \<le> 500" "length (snd p) \<le> 500"
  shows "said [pad10 (fst p) @ ascii '': '', snd p @ CLI_EOL] intf (cli_help_line put intf p)"
proof -
  have "length (pad10 (fst p) @ ascii '': '') \<le> 511" "length (snd p @ CLI_EOL) \<le> 511"
    using assms by (simp_all add: pad10_def CLI_EOL_def)
  then show ?thesis
    using said_bind [OF printf [OF assms(1)] assms(1) printf] by (simp add: cli_help_line_def)
qed

lemma help_lines:
  assumes "ready intf" "\<forall>p \<in> set ps. length (fst p) \<le> 500 \<and> length (snd p) \<le> 500"
  shows "said (concat (map (\<lambda>p. [pad10 (fst p) @ ascii '': '', snd p @ CLI_EOL]) ps)) intf (foldo (cli_help_line put) intf ps)"
  using assms
proof (induction ps arbitrary: intf)
  case Nil
  then show ?case by (simp add: said_def ready_def)
next
  case (Cons p ps)
  then show ?case using said_bind [OF help_line [of intf p] Cons.prems(1) Cons.IH] by simp
qed

lemma help_text:
  assumes "ready intf"
  shows "said (help_chunks users) intf (cli_command_help put users intf argv)"
proof -
  have core: "\<forall>p \<in> set core_texts. length (fst p) \<le> 500 \<and> length (snd p) \<le> 500" by (simp add: core_texts_def)
  have app: "\<forall>p \<in> set (map (\<lambda>c. (cc_command c, cc_help_str c)) users). length (fst p) \<le> 500 \<and> length (snd p) \<le> 500"
    using texts by auto
  show ?thesis
    using said_bind [OF printf [OF assms, of CLI_EOL] assms said_bind [OF help_lines [OF _ core] _ help_lines [OF _ app]]]
    by (simp add: cli_command_help_def help_chunks_def CLI_EOL_def)
qed

lemma version_text:
  assumes "ready intf"
  shows "said [CLI_EOL, cli_version_text @ CLI_EOL] intf (cli_command_version put intf argv)"
proof -
  have "length CLI_EOL \<le> 511" "length (cli_version_text @ CLI_EOL) \<le> 511"
    by (simp_all add: CLI_EOL_def cli_version_text_def)
  then show ?thesis
    using said_bind [OF printf [OF assms] assms printf] by (simp add: cli_command_version_def)
qed

text \<open>A line: what its execution leaves, apart from the line itself.\<close>

definition served :: "'u \<Rightarrow> 'u cli_intf option \<Rightarrow> bool" where
  "served e r \<longleftrightarrow> (\<exists>intf'. r = Some intf' \<and> ci_env intf' = e \<and> env_ok e
     \<and> length (ci_cmd_buffer intf') = 252 \<and> length (ci_print_buffer intf') = 513)"

lemma said_served:
  assumes "said ts intf r" "ready intf" "length (ci_cmd_buffer intf) = 252"
  shows "served (fold tx ts (ci_env intf)) r"
  using assms fold_tx_ok by (auto simp: said_def served_def ready_def)

lemma handler_served:
  assumes "c \<in> set users" "cli_ok intf" "ready intf" "length t \<le> 511"
  shows "served (act c argv (tx t (ci_env intf))) (do { intf \<leftarrow> cli_printf put intf t; cc_handler c intf argv })"
proof -
  obtain i1 where 1: "cli_printf put intf t = Some i1" "said [t] intf (Some i1)"
    using printf [OF assms(3,4)] by (auto simp: said_def)
  then have "cli_ok i1" "env_ok (ci_env i1)" "ci_env i1 = tx t (ci_env intf)"
    using assms said_ready [OF 1(2)] by (auto simp: said_def cli_ok_def ready_def)
  then show ?thesis using 1 handler [OF assms(1), of i1 argv] by (auto simp: served_def cli_ok_def)
qed

lemma core_served:
  assumes "cli_ok intf" "ready intf" "length t \<le> 511"
    and "\<And>intf. ready intf \<Longrightarrow> said us intf (h intf)"
  shows "served (fold tx (t # us) (ci_env intf)) (do { intf \<leftarrow> cli_printf put intf t; h intf })"
  using said_served [OF said_bind [OF printf [OF assms(2,3)] assms(2) assms(4)] assms(2)] assms(1)
  by (simp add: cli_ok_def)

lemma unknown_said:
  assumes "ready intf" "length name \<le> 511"
  shows "said [cli_unknown_text, name, CLI_EOL] intf
    (do { intf \<leftarrow> cli_printf put intf cli_unknown_text; intf \<leftarrow> cli_printf put intf name; cli_printf put intf CLI_EOL })"
proof -
  have "length cli_unknown_text \<le> 511" "length CLI_EOL \<le> 511" by (simp_all add: CLI_EOL_def cli_unknown_text_def)
  then show ?thesis
    using said_bind [OF printf [OF assms(1)] assms(1) said_bind [OF printf _ printf]] assms(2) by simp
qed

lemma execute:
  assumes ok: "cli_ok intf" and ready: "ready intf" and len: "length cmd \<le> 252"
  shows "served (cli_dispatch tx act users cmd (ci_env intf)) (cli_execute_command put users intf cmd)"
proof (cases "length (line_words cmd) > 16")
  case True
  then show ?thesis
    using said_served [OF printf [OF ready, of cli_too_many_text] ready] ok
    by (simp add: cli_execute_command_def cli_dispatch_def cli_tokens_words cli_ok_def cli_too_many_text_def CLI_EOL_def)
next
  case False
  then have tok: "cli_tokens cmd [] = Some (line_words cmd)" by (simp add: cli_tokens_words)
  show ?thesis
  proof (cases "line_words cmd")
    case Nil
    then show ?thesis using tok ok ready by (simp add: cli_execute_command_def cli_dispatch_def served_def cli_ok_def ready_def)
  next
    case (Cons name args)
    then have "length name \<le> length cmd" using line_words_length [of name cmd] by simp
    then have n: "length name \<le> 511" "length (cli_executing name) \<le> 511"
      using len by (auto simp: cli_executing_def CLI_EOL_def)
    consider "name = ascii ''help''" | "name = ascii ''version''" "name \<noteq> ascii ''help''"
      | "name \<noteq> ascii ''help''" "name \<noteq> ascii ''version''" by blast
    then show ?thesis
    proof cases
      case 1
      show ?thesis
        using core_served [OF ok ready n(2) help_text [where argv = "name # args"]] tok Cons False 1
        by (simp add: cli_execute_command_def cli_dispatch_def core_commands_def)
    next
      case 2
      then show ?thesis
        using core_served [OF ok ready n(2) version_text [where argv = "name # args"]] tok Cons False
        by (simp add: cli_execute_command_def cli_dispatch_def core_commands_def)
    next
      case 3
      show ?thesis
      proof (cases "List.find (\<lambda>c. cc_command c = name) users")
        case None
        then show ?thesis
          using said_served [OF unknown_said [OF ready n(1)] ready] ok tok Cons False 3 3 [symmetric]
          by (simp add: cli_execute_command_def cli_dispatch_def core_commands_def cli_ok_def)
      next
        case (Some c)
        then have "c \<in> set users" by (auto simp: find_Some_iff)
        from handler_served [OF this ok ready n(2), of "name # args"] show ?thesis
          using tok Cons False 3 3 [symmetric] Some
          by (simp add: cli_execute_command_def cli_dispatch_def core_commands_def)
      qed
    qed
  qed
qed

text \<open>One byte.\<close>

definition refines :: "'u cli_intf option \<Rightarrow> (u8 list \<times> 'u) option \<Rightarrow> bool" where
  "refines r a \<longleftrightarrow> (case a of None \<Rightarrow> r = None
     | Some (l, e) \<Rightarrow> (\<exists>intf. r = Some intf \<and> cli_ok intf \<and> env_ok (ci_env intf) \<and> cli_line intf = l \<and> ci_env intf = e))"

lemma line_length: "cli_ok intf \<Longrightarrow> length (cli_line intf) = unat (ci_cmd_buffer_ndx intf)"
  by (simp add: cli_ok_def cli_line_def)

lemma end_of_line:
  assumes ok: "cli_ok intf" "env_ok (ci_env intf)" and n: "unat (ci_cmd_buffer_ndx intf) < 252"
  shows "refines (cli_rx_byte put users intf 13)
    (Some ([], tx cli_prompt_text (cli_dispatch tx act users (takeWhile (\<lambda>c. c \<noteq> 0) (cli_line intf)) (ci_env intf))))"
proof -
  let ?n = "unat (ci_cmd_buffer_ndx intf)"
  let ?buf = "(ci_cmd_buffer intf)[?n := 0]"
  let ?i = "intf\<lparr>ci_cmd_buffer := ?buf, ci_cmd_buffer_ndx := ci_cmd_buffer_ndx intf + 1\<rparr>"
  let ?cmd = "takeWhile (\<lambda>c. c \<noteq> 0) (cli_line intf)"
  have len: "length (ci_cmd_buffer intf) = 252" using ok by (simp add: cli_ok_def)
  have "?buf = cli_line intf @ 0 # drop (?n + 1) (ci_cmd_buffer intf)"
    using len n by (simp add: cli_line_def upd_conv_take_nth_drop)
  then have cmd: "c_string ?buf = Some ?cmd"
    by (simp add: c_string_def takeWhile_until_zero)
  have "unat (ci_cmd_buffer_ndx intf + 1) = ?n + 1" using n by (simp add: unat_word_ariths)
  then have "cli_ok ?i" "ready ?i" using ok n by (simp_all add: cli_ok_def ready_def)
  moreover have "length ?cmd \<le> 252"
    using length_takeWhile_le [of "\<lambda>c. c \<noteq> 0" "cli_line intf"] line_length [OF ok(1)] n by simp
  ultimately have "served (cli_dispatch tx act users ?cmd (ci_env ?i)) (cli_execute_command put users ?i ?cmd)"
    by (rule execute)
  then obtain i2 where 2: "cli_execute_command put users ?i ?cmd = Some i2" "ready i2"
      "ci_env i2 = cli_dispatch tx act users ?cmd (ci_env intf)" "length (ci_cmd_buffer i2) = 252"
    by (auto simp: served_def ready_def)
  have "ready (i2\<lparr>ci_cmd_buffer_ndx := 0\<rparr>)" using 2 by (simp add: ready_def)
  from prompt [OF this] this 2 obtain i3 where 3: "cli_prompt put (i2\<lparr>ci_cmd_buffer_ndx := 0\<rparr>) = Some i3" "ready i3"
      "ci_env i3 = tx cli_prompt_text (ci_env i2)" "length (ci_cmd_buffer i3) = 252" "ci_cmd_buffer_ndx i3 = 0"
    by (auto simp: said_def ready_def tx_ok)
  have "cli_rx_byte put users intf 13 = Some i3"
    using len n by (simp add: cli_rx_byte_def CLI_EOL_CHAR_def cmd Let_def 2 3)
  then show ?thesis using 2 3 by (simp add: refines_def cli_ok_def ready_def cli_line_def)
qed

lemma edited:
  assumes ok: "cli_ok intf" "env_ok (ci_env intf)" and n: "unat (ci_cmd_buffer_ndx intf) < 252" and b: "b \<noteq> 13"
  shows "refines (cli_rx_byte put users intf b) (Some
    (if b = 8 \<or> b = 0x7f then if cli_line intf = [] then (cli_line intf, ci_env intf)
       else (butlast (cli_line intf), tx [8, 32, 8] (ci_env intf))
     else (cli_line intf @ [b], tx [b] (ci_env intf))))"
proof -
  let ?n = "unat (ci_cmd_buffer_ndx intf)"
  have len: "length (ci_cmd_buffer intf) = 252" and ready: "ready intf" using ok by (simp_all add: cli_ok_def ready_def)
  have empty: "cli_line intf = [] \<longleftrightarrow> ci_cmd_buffer_ndx intf = 0"
    using line_length [OF ok(1)] by (metis length_0_conv unat_eq_0)
  have echo: "\<exists>i1. cli_printf put intf t = Some i1 \<and> ready i1 \<and> ci_env i1 = tx t (ci_env intf)
      \<and> ci_cmd_buffer i1 = ci_cmd_buffer intf \<and> ci_cmd_buffer_ndx i1 = ci_cmd_buffer_ndx intf" if "length t \<le> 511" for t
    using printf [OF ready that] said_ready [of "[t]" intf] ready by (auto simp: said_def)
  show ?thesis
  proof (cases "b = 8 \<or> b = 0x7f")
    case True
    show ?thesis
    proof (cases "ci_cmd_buffer_ndx intf = 0")
      case True
      then show ?thesis
        using \<open>b = 8 \<or> b = 0x7f\<close> ok b empty by (auto simp: cli_rx_byte_def CLI_EOL_CHAR_def refines_def CLI_MAX_COMMAND_LEN_def)
    next
      case False
      then have m: "unat (ci_cmd_buffer_ndx intf - 1) = ?n - 1" by (simp add: unat_minus_one)
      obtain i1 where "cli_printf put intf [8, 32, 8] = Some i1" "ready i1" "ci_env i1 = tx [8, 32, 8] (ci_env intf)"
          "ci_cmd_buffer i1 = ci_cmd_buffer intf" "ci_cmd_buffer_ndx i1 = ci_cmd_buffer_ndx intf"
        using echo [of "[8, 32, 8]"] by auto
      then have "refines (cli_rx_byte put users intf b) (Some (butlast (cli_line intf), tx [8, 32, 8] (ci_env intf)))"
        using True False b n ok m len
        by (auto simp: cli_rx_byte_def CLI_EOL_CHAR_def CLI_MAX_COMMAND_LEN_def refines_def cli_ok_def cli_line_def ready_def
            butlast_take word_neq_0_conv)
      then show ?thesis using True False empty by simp
    qed
  next
    case False
    obtain i1 where 1: "cli_printf put intf [b] = Some i1" "ready i1" "ci_env i1 = tx [b] (ci_env intf)"
        "ci_cmd_buffer i1 = ci_cmd_buffer intf" "ci_cmd_buffer_ndx i1 = ci_cmd_buffer_ndx intf"
      using echo [of "[b]"] by auto
    have m: "unat (ci_cmd_buffer_ndx intf + 1) = ?n + 1" using n by (simp add: unat_word_ariths)
    have "take (?n + 1) ((ci_cmd_buffer intf)[?n := b]) = cli_line intf @ [b]"
      using n len by (simp add: cli_line_def take_Suc_conv_app_nth)
    then show ?thesis
      using 1 False b n ok m len
      by (auto simp: cli_rx_byte_def CLI_EOL_CHAR_def CLI_MAX_COMMAND_LEN_def refines_def cli_ok_def cli_line_def ready_def)
  qed
qed

lemma byte:
  assumes "cli_ok intf" "env_ok (ci_env intf)"
  shows "refines (cli_rx_byte put users intf b) (cli_spec_byte tx act users (cli_line intf, ci_env intf) b)"
proof (cases "unat (ci_cmd_buffer_ndx intf) < 252")
  case True
  then show ?thesis
    using end_of_line [OF assms] edited [OF assms, of b] line_length [OF assms(1)]
    by (cases "b = 13") (simp_all add: cli_spec_byte_def split del: if_split)
next
  case False
  then have n: "unat (ci_cmd_buffer_ndx intf) = 252" using assms by (simp add: cli_ok_def)
  then have "mem_store (ci_cmd_buffer intf) 252 0 = None" using assms by (simp add: cli_ok_def mem_store_def)
  with n show ?thesis
    using line_length [OF assms(1)] assms
    by (auto simp: cli_spec_byte_def cli_rx_byte_def CLI_EOL_CHAR_def CLI_MAX_COMMAND_LEN_def refines_def)
qed

lemma bytes:
  assumes "cli_ok intf" "env_ok (ci_env intf)"
  shows "refines (foldo (cli_rx_byte put users) intf bs) (cli_spec tx act users (cli_line intf, ci_env intf) bs)"
  using assms
proof (induction bs arbitrary: intf)
  case Nil
  then show ?case by (simp add: cli_spec_def refines_def)
next
  case (Cons b bs)
  note h = byte [OF Cons.prems, of b]
  show ?case
  proof (cases "cli_spec_byte tx act users (cli_line intf, ci_env intf) b")
    case None
    with h show ?thesis by (simp add: cli_spec_def refines_def)
  next
    case (Some p)
    then obtain i1 where "cli_rx_byte put users intf b = Some i1" "cli_ok i1" "env_ok (ci_env i1)"
        "p = (cli_line i1, ci_env i1)" using h by (cases p) (auto simp: refines_def)
    then show ?thesis using Cons.IH [of i1] Some by (simp add: cli_spec_def)
  qed
qed

text \<open>A line filled to the end of \<open>cmd_buffer\<close>.\<close>

lemma spec_typed:
  assumes "\<forall>b \<in> set bs. b \<noteq> 13 \<and> b \<noteq> 8 \<and> b \<noteq> 0x7f" "length line + length bs \<le> 252"
  shows "cli_spec tx act users (line, e) bs = Some (line @ bs, fold (\<lambda>b. tx [b]) bs e)"
  using assms by (induction bs arbitrary: line e) (auto simp: cli_spec_def cli_spec_byte_def)

lemma spec_full:
  assumes "13 \<notin> set bs" "length line = 252"
  shows "cli_spec tx act users (line, e) bs = Some (line, e)"
  using assms by (induction bs) (auto simp: cli_spec_def cli_spec_byte_def)

lemma full_line:
  assumes "\<forall>b \<in> set bs. b \<noteq> 13 \<and> b \<noteq> 8 \<and> b \<noteq> 0x7f" "length bs = 252" "13 \<notin> set junk"
  shows "cli_spec tx act users ([], e) (bs @ junk @ [13]) = None"
proof -
  have "cli_spec tx act users ([], e) bs = Some (bs, fold (\<lambda>b. tx [b]) bs e)"
    using spec_typed [of bs "[]" e] assms by simp
  moreover have "cli_spec tx act users (bs, e') junk = Some (bs, e')" for e'
    using spec_full assms by blast
  ultimately show ?thesis
    using assms by (simp add: cli_spec_def foldo_append cli_spec_byte_def)
qed

text \<open>A line that fits is echoed, executed and followed by the prompt.\<close>

lemma one_line:
  assumes "\<forall>b \<in> set bs. b \<noteq> 13 \<and> b \<noteq> 8 \<and> b \<noteq> 0x7f \<and> b \<noteq> 0" "length bs < 252"
  shows "cli_spec tx act users ([], e) (bs @ [13])
    = Some ([], tx cli_prompt_text (cli_dispatch tx act users bs (fold (\<lambda>b. tx [b]) bs e)))"
proof -
  have whole: "takeWhile (\<lambda>c. c \<noteq> 0) bs = bs" using assms by (simp add: takeWhile_eq_all_conv)
  show ?thesis
    using spec_typed [of bs "[]" e] assms by (simp add: cli_spec_def foldo_append cli_spec_byte_def whole)
qed

end

text \<open>The abstract command line without application commands, seen through a map of the owner's state.\<close>

lemma fold_hom: "(\<And>t e. h (tx t e) = tx' t (h e)) \<Longrightarrow> h (fold tx ts e) = fold tx' ts (h e)"
  by (induction ts arbitrary: e) auto

lemma cli_dispatch_hom:
  assumes "\<And>t e. h (tx t e) = tx' t (h e)"
  shows "h (cli_dispatch tx act [] line e) = cli_dispatch tx' act' [] line (h e)"
  using fold_hom [of h tx tx', OF assms]
  by (simp add: cli_dispatch_def Let_def help_chunks_def assms split: list.split)

lemma cli_spec_byte_hom:
  assumes "\<And>t e. h (tx t e) = tx' t (h e)"
  shows "map_option (map_prod id h) (cli_spec_byte tx act [] (l, e) b) = cli_spec_byte tx' act' [] (l, h e) b"
  by (simp add: cli_spec_byte_def assms cli_dispatch_hom [where h = h and tx = tx and tx' = tx' and act' = act', OF assms])

lemma fold_inv: "(\<And>t e. P e \<Longrightarrow> P (tx t e)) \<Longrightarrow> P e \<Longrightarrow> P (fold tx ts e)"
  by (induction ts arbitrary: e) auto

lemma cli_spec_byte_inv:
  assumes tx: "\<And>t e. P e \<Longrightarrow> P (tx t e)" and "P e" and "cli_spec_byte tx act [] (l, e) b = Some (l', e')"
  shows "P e'"
proof -
  have "P (cli_dispatch tx act [] line e)" for line
    using fold_inv [of P tx, OF tx] \<open>P e\<close> tx by (simp add: cli_dispatch_def Let_def split: list.split)
  with assms show ?thesis by (auto simp: cli_spec_byte_def split: if_splits)
qed

lemma cli_handle_rx_all:
  "cli_handle_rx put users intf c (int (length c)) = foldo (cli_rx_byte put users) intf c"
  by (simp add: cli_handle_rx_def mem_slice_def)

lemma cli_rx_chunks:
  "foldo (\<lambda>i c. cli_handle_rx put users i c (int (length c))) intf chunks = foldo (cli_rx_byte put users) intf (concat chunks)"
  by (induction chunks arbitrary: intf) (auto simp: cli_handle_rx_all foldo_append split: bind_splits)

section \<open>Properties\<close>

text \<open>A terminal that records its output, with one application command that prints its arguments.\<close>

definition rec_put :: "u8 list cli_put" where
  "rec_put intf data len = do {
     n \<leftarrow> c_nat len; bs \<leftarrow> mem_slice data 0 n; Some (intf\<lparr>ci_env := ci_env intf @ bs\<rparr>) }"

definition echo_command :: "u8 list cli_command" where
  "echo_command = \<lparr>cc_command = ascii ''echo'', cc_help_str = ascii ''print'',
     cc_handler = (\<lambda>intf argv. Some (intf\<lparr>ci_env := ci_env intf @ concat (tl argv)\<rparr>))\<rparr>"

lemma rec_terminal: "cli_terminal rec_put [echo_command] (\<lambda>t e. e @ t) (\<lambda>_ argv e. e @ concat (tl argv)) (\<lambda>_. True)"
  by unfold_locales (auto simp: rec_put_def mem_slice_def echo_command_def cli_ok_def)

definition blank_cli :: "u8 list cli_intf" where
  "blank_cli = \<lparr>ci_cmd_buffer_ndx = 0, ci_cmd_buffer = replicate 252 0, ci_print_buffer = replicate 513 0,
     ci_le = False, ci_env = []\<rparr>"

lemma blank_cli_ok: "cli_ok blank_cli" "cli_line blank_cli = []" "ci_env blank_cli = []" "ci_cmd_buffer_ndx blank_cli = 0"
  by (simp_all add: blank_cli_def cli_ok_def cli_line_def)

text \<open>C16: The command line is a line editor with a dispatcher: whatever bytes arrive, in whatever
  packets, echo, editing, execution of each finished line and the prompt are those of the abstract
  command line, and the code's behaviour is undefined exactly where the abstract one is.\<close>

theorem cli_refines_line_editor:
  assumes "cli_terminal put users tx act env_ok" and "cli_ok intf" "env_ok (ci_env intf)"
  shows "case cli_spec tx act users (cli_line intf, ci_env intf) (concat chunks) of
      None \<Rightarrow> foldo (\<lambda>i c. cli_handle_rx put users i c (int (length c))) intf chunks = None
    | Some (l, e) \<Rightarrow> \<exists>intf'. foldo (\<lambda>i c. cli_handle_rx put users i c (int (length c))) intf chunks = Some intf'
        \<and> cli_ok intf' \<and> env_ok (ci_env intf') \<and> cli_line intf' = l \<and> ci_env intf' = e"
  using cli_terminal.bytes [OF assms(1-3), of "concat chunks"]
  unfolding cli_rx_chunks cli_terminal.refines_def [OF assms(1)] .

lemma cli_refines_line_editor_witness:
  "\<exists>intf'. foldo (\<lambda>i c. cli_handle_rx rec_put [echo_command] i c (int (length c))) blank_cli
      [[101, 99], [8, 99, 104, 111, 9, 55], [32, 13, 120]] = Some intf'
    \<and> cli_ok intf' \<and> True \<and> cli_line intf' = [120]
    \<and> ci_env intf' = [101, 99, 8, 32, 8, 99, 104, 111, 9, 55, 32] @ cli_executing (ascii ''echo'') @ [55] @ cli_prompt_text @ [120]"
  using cli_refines_line_editor [OF rec_terminal blank_cli_ok(1), of "[[101, 99], [8, 99, 104, 111, 9, 55], [32, 13, 120]]"]
  by (simp add: blank_cli_ok cli_spec_def cli_spec_byte_def cli_dispatch_def Let_def line_words_def blank_def ascii_def echo_command_def)

text \<open>C23: Off by one: a line of 252 characters, the length the editor accepts, followed by a carriage return makes
  \<open>cli_handle_rx\<close> store the terminating NUL behind the end of the 252-byte \<open>cmd_buffer\<close>; no byte
  typed in between, not even a backspace, avoids it.\<close>

theorem cli_full_line_overflows:
  assumes "cli_terminal put users tx act env_ok" and "cli_ok intf" "env_ok (ci_env intf)" "ci_cmd_buffer_ndx intf = 0"
    and "\<forall>b \<in> set bs. b \<noteq> 13 \<and> b \<noteq> 8 \<and> b \<noteq> 0x7f" "length bs = 252" "13 \<notin> set junk"
  shows "cli_handle_rx put users intf (bs @ junk @ [13]) (int (length (bs @ junk @ [13]))) = None"
proof -
  have "cli_line intf = []" using assms(4) by (simp add: cli_line_def)
  then show ?thesis
    using cli_terminal.bytes [OF assms(1-3), of "bs @ junk @ [13]"]
      cli_terminal.full_line [OF assms(1,5-7)]
    unfolding cli_handle_rx_all cli_terminal.refines_def [OF assms(1)] by simp
qed

lemma cli_full_line_overflows_witness:
  "cli_handle_rx rec_put [echo_command] blank_cli (replicate 252 65 @ [8, 8] @ [13])
    (int (length (replicate 252 (65 :: u8) @ [8, 8] @ [13]))) = None"
  by (rule cli_full_line_overflows [OF rec_terminal blank_cli_ok(1) _ blank_cli_ok(4)]) simp_all

end
