(* ===== verification/Telnet_Reader.thy ===== *)
theory Telnet_Reader
  imports Kj_Prelude
begin

text \<open>
  \<open>src/protocols/telnet_reader.c\<close>: the byte-driven automaton that separates the data of a Telnet
  connection from its commands. The reader calls two functions of its owner, one per data byte and one
  per command; \<open>tr_env\<close> is the owner the callbacks reach with \<open>container_of\<close>. The abstract view is a
  sequence of Telnet items, and the locale \<open>telnet_user\<close> states what the items' theorem needs of the
  owner's callbacks.
\<close>

section \<open>Protocol bytes\<close>

text \<open>The constants of \<open>arpa/telnet.h\<close> (RFC 854).\<close>

definition IAC :: u8 where "IAC = 255"
definition DONT :: u8 where "DONT = 254"
definition DO :: u8 where "DO = 253"
definition WONT :: u8 where "WONT = 252"
definition WILL :: u8 where "WILL = 251"
definition SB :: u8 where "SB = 250"
definition SE :: u8 where "SE = 240"

lemmas telnet_bytes = IAC_def DONT_def DO_def WONT_def WILL_def SB_def SE_def

definition TELNET_READER_BUFFER_SIZE :: nat where "TELNET_READER_BUFFER_SIZE = 32"

section \<open>State and operations\<close>

datatype telnet_reader_state =
    telnet_reader_state_start
  | telnet_reader_state_rx_iac
  | telnet_reader_state_rx_do_dont_will_wont
  | telnet_reader_state_rx_sb
  | telnet_reader_state_wait_for_se

record 'u telnet_reader =
  tr_buffer :: "u8 list"
  tr_buf_ndx :: u8
  tr_state :: telnet_reader_state
  tr_command :: u8
  tr_opt :: u8
  tr_env :: 'u

type_synonym 'u telnet_data_callback = "'u telnet_reader \<Rightarrow> u8 \<Rightarrow> 'u telnet_reader option"
type_synonym 'u telnet_cmd_callback = "'u telnet_reader \<Rightarrow> 'u telnet_reader option"

definition telnet_reader_move_state :: "'u telnet_reader \<Rightarrow> telnet_reader_state \<Rightarrow> 'u telnet_reader" where
  "telnet_reader_move_state tr s = tr\<lparr>tr_state := s\<rparr>"

lemma move_state_env [simp]: "tr_env (telnet_reader_move_state tr s) = tr_env tr"
  by (simp add: telnet_reader_move_state_def)

definition telnet_reader_handle_command :: "'u telnet_reader \<Rightarrow> u8 \<Rightarrow> 'u telnet_reader \<times> bool" where
  "telnet_reader_handle_command tr d =
     (let tr = tr\<lparr>tr_command := d\<rparr> in
      if d = DO \<or> d = DONT \<or> d = WILL \<or> d = WONT
      then (telnet_reader_move_state tr telnet_reader_state_rx_do_dont_will_wont, True)
      else if d = SB
      then (telnet_reader_move_state (tr\<lparr>tr_buf_ndx := 0\<rparr>) telnet_reader_state_rx_sb, True)
      else (tr, False))"

definition telnet_reader_handle_subcommand ::
    "'u telnet_reader \<Rightarrow> u8 \<Rightarrow> ('u telnet_reader \<times> bool) option" where
  "telnet_reader_handle_subcommand tr d =
     (if d = IAC then Some (telnet_reader_move_state tr telnet_reader_state_wait_for_se, True)
      else if unat (tr_buf_ndx tr) < TELNET_READER_BUFFER_SIZE then do {
        b \<leftarrow> mem_store (tr_buffer tr) (unat (tr_buf_ndx tr)) d;
        Some (tr\<lparr>tr_buffer := b, tr_buf_ndx := tr_buf_ndx tr + 1\<rparr>, True) }
      else Some (tr, False))"

definition telnet_reader_state_machine ::
    "'u telnet_data_callback \<Rightarrow> 'u telnet_cmd_callback \<Rightarrow> 'u telnet_reader \<Rightarrow> u8 \<Rightarrow> 'u telnet_reader option" where
  "telnet_reader_state_machine databack cmdback tr d =
     (case tr_state tr of
        telnet_reader_state_start \<Rightarrow>
          if d = IAC then Some (telnet_reader_move_state tr telnet_reader_state_rx_iac)
          else databack tr d
      | telnet_reader_state_rx_iac \<Rightarrow>
          if d = IAC then databack (telnet_reader_move_state tr telnet_reader_state_start) IAC
          else (let (tr, ok) = telnet_reader_handle_command tr d in
            Some (if ok then tr else telnet_reader_move_state tr telnet_reader_state_start))
      | telnet_reader_state_rx_do_dont_will_wont \<Rightarrow> do {
          tr \<leftarrow> cmdback (tr\<lparr>tr_opt := d\<rparr>);
          Some (telnet_reader_move_state tr telnet_reader_state_start) }
      | telnet_reader_state_rx_sb \<Rightarrow> do {
          (tr, ok) \<leftarrow> telnet_reader_handle_subcommand tr d;
          Some (if ok then tr else telnet_reader_move_state tr telnet_reader_state_start) }
      | telnet_reader_state_wait_for_se \<Rightarrow> do {
          tr \<leftarrow> (if d = SE then cmdback tr else Some tr);
          Some (telnet_reader_move_state tr telnet_reader_state_start) })"

definition telnet_reader_init :: "'u telnet_reader \<Rightarrow> 'u telnet_reader" where
  "telnet_reader_init tr = tr\<lparr>tr_state := telnet_reader_state_start, tr_buf_ndx := 0\<rparr>"

definition telnet_reader_feed ::
    "'u telnet_data_callback \<Rightarrow> 'u telnet_cmd_callback \<Rightarrow> 'u telnet_reader \<Rightarrow> u8 list \<Rightarrow> int \<Rightarrow> 'u telnet_reader option" where
  "telnet_reader_feed databack cmdback tr data len = do {
     bytes \<leftarrow> mem_slice data 0 (nat len);
     foldo (telnet_reader_state_machine databack cmdback) tr bytes }"

section \<open>Invariant\<close>

text \<open>
  The write index never leaves the buffer, and a reader inside a subnegotiation holds the command
  \<open>SB\<close>; after DO, DONT, WILL or WONT it holds that command.
\<close>

definition option_command :: "u8 \<Rightarrow> bool" where
  "option_command c \<longleftrightarrow> c = DO \<or> c = DONT \<or> c = WILL \<or> c = WONT"

definition telnet_ok :: "'u telnet_reader \<Rightarrow> bool" where
  "telnet_ok tr \<longleftrightarrow> length (tr_buffer tr) = TELNET_READER_BUFFER_SIZE
     \<and> unat (tr_buf_ndx tr) \<le> TELNET_READER_BUFFER_SIZE
     \<and> (case tr_state tr of
          telnet_reader_state_rx_do_dont_will_wont \<Rightarrow> option_command (tr_command tr)
        | telnet_reader_state_rx_sb \<Rightarrow> tr_command tr = SB
        | telnet_reader_state_wait_for_se \<Rightarrow> tr_command tr = SB
        | _ \<Rightarrow> True)"

lemma option_command_not_SB: "option_command c \<Longrightarrow> c \<noteq> SB \<and> c \<noteq> IAC"
  by (auto simp: option_command_def telnet_bytes)

lemma telnet_init_ok: "length (tr_buffer tr) = 32 \<Longrightarrow> telnet_ok (telnet_reader_init tr)"
  by (simp add: telnet_ok_def telnet_reader_init_def TELNET_READER_BUFFER_SIZE_def)

lemma telnet_move_start_ok: "telnet_ok tr \<Longrightarrow> telnet_ok (telnet_reader_move_state tr telnet_reader_state_start)"
  by (simp add: telnet_ok_def telnet_reader_move_state_def)

lemma telnet_feed_all:
  "telnet_reader_feed db cb tr data (int (length data)) = foldo (telnet_reader_state_machine db cb) tr data"
  by (simp add: telnet_reader_feed_def mem_slice_def)

text \<open>One byte, whatever it is: the automaton's own step, apart from what the owner does.\<close>

lemma telnet_command_ok:
  assumes "telnet_ok tr" "telnet_reader_handle_command tr d = (tr', ok)" "tr_state tr = telnet_reader_state_rx_iac"
  shows "telnet_ok (if ok then tr' else telnet_reader_move_state tr' telnet_reader_state_start)
    \<and> tr_env tr' = tr_env tr"
  using assms
  by (auto simp: telnet_reader_handle_command_def telnet_ok_def telnet_reader_move_state_def option_command_def
      Let_def split: if_splits)

lemma telnet_subcommand_ok:
  assumes ok: "telnet_ok tr" and st: "tr_state tr = telnet_reader_state_rx_sb"
  shows "\<exists>tr' r. telnet_reader_handle_subcommand tr d = Some (tr', r) \<and> tr_env tr' = tr_env tr
    \<and> telnet_ok (if r then tr' else telnet_reader_move_state tr' telnet_reader_state_start)"
proof -
  have "unat (tr_buf_ndx tr + 1) \<le> 32" if "unat (tr_buf_ndx tr) < 32"
    using that by (simp add: unat_word_ariths)
  with ok st show ?thesis
    by (auto simp: telnet_reader_handle_subcommand_def telnet_ok_def telnet_reader_move_state_def
        TELNET_READER_BUFFER_SIZE_def mem_store_def)
qed

lemma telnet_step_ok:
  assumes ok: "telnet_ok tr" and env: "P (tr_env tr)"
    and db: "\<And>tr d. telnet_ok tr \<Longrightarrow> P (tr_env tr) \<Longrightarrow> \<exists>tr'. databack tr d = Some tr' \<and> telnet_ok tr' \<and> P (tr_env tr')"
    and cb: "\<And>tr. telnet_ok tr \<Longrightarrow> P (tr_env tr) \<Longrightarrow> \<exists>tr'. cmdback tr = Some tr' \<and> telnet_ok tr' \<and> P (tr_env tr')"
  shows "\<exists>tr'. telnet_reader_state_machine databack cmdback tr d = Some tr' \<and> telnet_ok tr' \<and> P (tr_env tr')"
proof (cases "tr_state tr")
  case telnet_reader_state_start
  then show ?thesis
    using db [OF ok env, of d] ok env
    by (auto simp: telnet_reader_state_machine_def telnet_reader_move_state_def telnet_ok_def)
next
  case telnet_reader_state_rx_iac
  obtain tr1 r where c: "telnet_reader_handle_command tr d = (tr1, r)" by (cases "telnet_reader_handle_command tr d")
  show ?thesis
    using telnet_command_ok [OF ok c telnet_reader_state_rx_iac] db [OF telnet_move_start_ok [OF ok], of IAC]
      telnet_reader_state_rx_iac c env
    by (auto simp: telnet_reader_state_machine_def telnet_reader_move_state_def)
next
  case telnet_reader_state_rx_do_dont_will_wont
  then show ?thesis
    using cb [of "tr\<lparr>tr_opt := d\<rparr>"] ok env telnet_move_start_ok
    by (fastforce simp: telnet_reader_state_machine_def telnet_ok_def telnet_reader_move_state_def)
next
  case telnet_reader_state_rx_sb
  then obtain tr' r where r: "telnet_reader_handle_subcommand tr d = Some (tr', r)" "tr_env tr' = tr_env tr"
      "telnet_ok (if r then tr' else telnet_reader_move_state tr' telnet_reader_state_start)"
    using telnet_subcommand_ok [OF ok, of d] by blast
  with telnet_reader_state_rx_sb env show ?thesis
    by (cases r) (simp_all add: telnet_reader_state_machine_def telnet_reader_move_state_def)
next
  case telnet_reader_state_wait_for_se
  then show ?thesis
    using cb [OF ok env] ok env telnet_move_start_ok
    by (fastforce simp: telnet_reader_state_machine_def telnet_ok_def telnet_reader_move_state_def)
qed


text \<open>
  A feed: from a well-formed reader and with an owner whose callbacks return and leave it well-formed,
  every byte sequence is processed without an access outside the buffer.
\<close>

lemma telnet_fold_ok:
  assumes "telnet_ok tr" "P (tr_env tr)"
    and db: "\<And>tr d. telnet_ok tr \<Longrightarrow> P (tr_env tr) \<Longrightarrow> \<exists>tr'. databack tr d = Some tr' \<and> telnet_ok tr' \<and> P (tr_env tr')"
    and cb: "\<And>tr. telnet_ok tr \<Longrightarrow> P (tr_env tr) \<Longrightarrow> \<exists>tr'. cmdback tr = Some tr' \<and> telnet_ok tr' \<and> P (tr_env tr')"
  shows "\<exists>tr'. foldo (telnet_reader_state_machine databack cmdback) tr bytes = Some tr' \<and> telnet_ok tr' \<and> P (tr_env tr')"
  using foldo_invariant [of bytes "\<lambda>tr. telnet_ok tr \<and> P (tr_env tr)" "telnet_reader_state_machine databack cmdback" tr]
    telnet_step_ok [of _ P databack cmdback] assms by blast

section \<open>Telnet items\<close>

text \<open>
  What a peer sends: a data byte (255 doubled), an option negotiation, a subnegotiation, or a command the
  reader does not know. \<open>telnet_encode\<close> is its form on the wire.
\<close>

datatype telnet_item =
    Telnet_data u8
  | Telnet_option u8 u8
  | Telnet_sub "u8 list"
  | Telnet_unknown u8

fun telnet_item_ok :: "telnet_item \<Rightarrow> bool" where
  "telnet_item_ok (Telnet_data d) = True"
| "telnet_item_ok (Telnet_option c v) = option_command c"
| "telnet_item_ok (Telnet_sub bs) = (IAC \<notin> set bs \<and> length bs \<le> TELNET_READER_BUFFER_SIZE)"
| "telnet_item_ok (Telnet_unknown c) = (\<not> option_command c \<and> c \<noteq> SB \<and> c \<noteq> IAC)"

fun telnet_encode :: "telnet_item \<Rightarrow> u8 list" where
  "telnet_encode (Telnet_data d) = (if d = IAC then [IAC, IAC] else [d])"
| "telnet_encode (Telnet_option c v) = [IAC, c, v]"
| "telnet_encode (Telnet_sub bs) = [IAC, SB] @ bs @ [IAC, SE]"
| "telnet_encode (Telnet_unknown c) = [IAC, c]"

text \<open>What each item makes the owner do.\<close>

fun telnet_serve ::
    "(u8 \<Rightarrow> 'u \<Rightarrow> 'u option) \<Rightarrow> (u8 \<Rightarrow> u8 \<Rightarrow> 'u \<Rightarrow> 'u option) \<Rightarrow> (u8 list \<Rightarrow> 'u \<Rightarrow> 'u option) \<Rightarrow>
     'u \<Rightarrow> telnet_item \<Rightarrow> 'u option" where
  "telnet_serve on_data on_opt on_sub e (Telnet_data d) = on_data d e"
| "telnet_serve on_data on_opt on_sub e (Telnet_option c v) = on_opt c v e"
| "telnet_serve on_data on_opt on_sub e (Telnet_sub bs) = on_sub bs e"
| "telnet_serve on_data on_opt on_sub e (Telnet_unknown c) = Some e"

definition with_env :: "'u telnet_reader \<Rightarrow> 'u \<Rightarrow> 'u telnet_reader" where
  "with_env tr e = tr\<lparr>tr_env := e\<rparr>"

lemma with_env_simps [simp]:
  "tr_env (with_env tr e) = e" "tr_state (with_env tr e) = tr_state tr" "tr_buffer (with_env tr e) = tr_buffer tr"
  "tr_buf_ndx (with_env tr e) = tr_buf_ndx tr" "tr_command (with_env tr e) = tr_command tr"
  "telnet_ok (with_env tr e) = telnet_ok tr"
  by (simp_all add: with_env_def telnet_ok_def split: telnet_reader_state.split)

text \<open>
  The owner's side of the interface: its callbacks act on the owner and leave the reader alone, and tell
  options from subnegotiations by the recorded command.
\<close>

locale telnet_user =
  fixes databack :: "'u telnet_data_callback"
    and cmdback :: "'u telnet_cmd_callback"
    and on_data :: "u8 \<Rightarrow> 'u \<Rightarrow> 'u option"
    and on_opt :: "u8 \<Rightarrow> u8 \<Rightarrow> 'u \<Rightarrow> 'u option"
    and on_sub :: "u8 list \<Rightarrow> 'u \<Rightarrow> 'u option"
  assumes data: "databack tr d = map_option (with_env tr) (on_data d (tr_env tr))"
    and option: "tr_command tr \<noteq> SB \<Longrightarrow>
      cmdback tr = map_option (with_env tr) (on_opt (tr_command tr) (tr_opt tr) (tr_env tr))"
    and sub: "tr_command tr = SB \<Longrightarrow>
      cmdback tr = map_option (with_env tr) (on_sub (take (unat (tr_buf_ndx tr)) (tr_buffer tr)) (tr_env tr))"
begin

definition step where "step = telnet_reader_state_machine databack cmdback"

text \<open>The outcome \<open>r\<close> of a run, and what it did to the owner.\<close>

definition ends :: "'u telnet_reader option \<Rightarrow> 'u option \<Rightarrow> bool" where
  "ends r e \<longleftrightarrow> (case e of None \<Rightarrow> r = None
     | Some e \<Rightarrow> (\<exists>tr. r = Some tr \<and> tr_env tr = e \<and> telnet_ok tr \<and> tr_state tr = telnet_reader_state_start))"

lemma data_plain:
  assumes "telnet_ok tr" "tr_state tr = telnet_reader_state_start" "d \<noteq> IAC"
  shows "ends (step tr d) (on_data d (tr_env tr))"
  using assms by (cases "on_data d (tr_env tr)") (auto simp: step_def telnet_reader_state_machine_def data ends_def)

text \<open>What the owner's actions keep, every step that returns keeps.\<close>

lemma step_keeps:
  assumes "\<And>d e e'. P e \<Longrightarrow> on_data d e = Some e' \<Longrightarrow> P e'" "\<And>c v e e'. P e \<Longrightarrow> on_opt c v e = Some e' \<Longrightarrow> P e'"
    and "\<And>bs e e'. P e \<Longrightarrow> on_sub bs e = Some e' \<Longrightarrow> P e'"
    and ok: "telnet_ok tr" and env: "P (tr_env tr)" and run: "step tr d = Some tr'"
  shows "telnet_ok tr' \<and> P (tr_env tr')"
proof -
  define db where "db tr d = Some (case databack tr d of Some t \<Rightarrow> t | None \<Rightarrow> tr)" for tr d
  define cb where "cb tr = Some (case cmdback tr of Some t \<Rightarrow> t | None \<Rightarrow> tr)" for tr
  have d: "\<exists>tr'. db tr d = Some tr' \<and> telnet_ok tr' \<and> P (tr_env tr')" if "telnet_ok tr" "P (tr_env tr)" for tr d
    using that assms(1) [of "tr_env tr" d] by (cases "on_data d (tr_env tr)") (simp_all add: db_def data)
  have c: "\<exists>tr'. cb tr = Some tr' \<and> telnet_ok tr' \<and> P (tr_env tr')" if "telnet_ok tr" "P (tr_env tr)" for tr
  proof (cases "tr_command tr = SB")
    case True
    then show ?thesis
      using that assms(3) [of "tr_env tr" "take (unat (tr_buf_ndx tr)) (tr_buffer tr)"]
      by (cases "on_sub (take (unat (tr_buf_ndx tr)) (tr_buffer tr)) (tr_env tr)") (simp_all add: cb_def sub)
  next
    case False
    then show ?thesis
      using that assms(2) [of "tr_env tr" "tr_command tr" "tr_opt tr"]
      by (cases "on_opt (tr_command tr) (tr_opt tr) (tr_env tr)") (simp_all add: cb_def option)
  qed
  have "telnet_reader_state_machine db cb tr d = Some tr'"
  proof (cases "tr_state tr")
    case telnet_reader_state_rx_do_dont_will_wont
    with run show ?thesis
      by (cases "cmdback (tr\<lparr>tr_opt := d\<rparr>)") (simp_all add: step_def telnet_reader_state_machine_def cb_def)
  next
    case telnet_reader_state_wait_for_se
    with run show ?thesis
      by (cases "cmdback tr") (simp_all add: step_def telnet_reader_state_machine_def cb_def split: if_split_asm)
  next
    case telnet_reader_state_start
    with run show ?thesis by (cases "d = IAC") (simp_all add: step_def telnet_reader_state_machine_def db_def)
  next
    case telnet_reader_state_rx_iac
    with run show ?thesis by (cases "d = IAC") (simp_all add: step_def telnet_reader_state_machine_def db_def)
  next
    case telnet_reader_state_rx_sb
    with run show ?thesis by (simp only: step_def telnet_reader_state_machine_def telnet_reader_state.case)
  qed
  then show ?thesis using telnet_step_ok [of tr P db cb d, OF ok env d c] by simp
qed

text \<open>A subnegotiation's bytes, while they fit.\<close>

lemma sub_bytes:
  assumes "telnet_ok tr" "tr_state tr = telnet_reader_state_rx_sb" "IAC \<notin> set bs"
    "unat (tr_buf_ndx tr) + length bs \<le> 32"
  shows "\<exists>tr'. foldo step tr bs = Some tr' \<and> telnet_ok tr' \<and> tr_state tr' = telnet_reader_state_rx_sb
    \<and> tr_env tr' = tr_env tr \<and> unat (tr_buf_ndx tr') = unat (tr_buf_ndx tr) + length bs
    \<and> take (unat (tr_buf_ndx tr')) (tr_buffer tr') = take (unat (tr_buf_ndx tr)) (tr_buffer tr) @ bs"
  using assms
proof (induction bs arbitrary: tr)
  case (Cons b bs)
  let ?n = "unat (tr_buf_ndx tr)"
  let ?tr = "tr\<lparr>tr_buffer := (tr_buffer tr)[?n := b], tr_buf_ndx := tr_buf_ndx tr + 1\<rparr>"
  have len: "length (tr_buffer tr) = 32" "?n < 32" using Cons.prems by (simp_all add: telnet_ok_def TELNET_READER_BUFFER_SIZE_def)
  then have n1: "unat (tr_buf_ndx tr + 1) = ?n + 1" by (simp add: unat_word_ariths)
  have s: "step tr b = Some ?tr"
    using Cons.prems len
    by (auto simp: step_def telnet_reader_state_machine_def telnet_reader_handle_subcommand_def TELNET_READER_BUFFER_SIZE_def)
  have "\<exists>tr'. foldo step ?tr bs = Some tr' \<and> telnet_ok tr' \<and> tr_state tr' = telnet_reader_state_rx_sb
    \<and> tr_env tr' = tr_env ?tr \<and> unat (tr_buf_ndx tr') = unat (tr_buf_ndx ?tr) + length bs
    \<and> take (unat (tr_buf_ndx tr')) (tr_buffer tr') = take (unat (tr_buf_ndx ?tr)) (tr_buffer ?tr) @ bs"
    by (rule Cons.IH) (use Cons.prems len n1 in \<open>auto simp: telnet_ok_def TELNET_READER_BUFFER_SIZE_def\<close>)
  moreover have "take (?n + 1) ((tr_buffer tr)[?n := b]) = take ?n (tr_buffer tr) @ [b]"
    using len by (simp add: take_Suc_conv_app_nth)
  ultimately show ?case using s n1 by auto
qed simp

lemma enter_sub:
  assumes "telnet_ok tr" "tr_state tr = telnet_reader_state_start"
  shows "\<exists>tr'. foldo step tr [IAC, SB] = Some tr' \<and> telnet_ok tr' \<and> tr_state tr' = telnet_reader_state_rx_sb
    \<and> tr_env tr' = tr_env tr \<and> tr_buf_ndx tr' = 0"
  using assms
  by (simp add: step_def telnet_reader_state_machine_def telnet_reader_handle_command_def telnet_reader_move_state_def
      Let_def telnet_ok_def telnet_bytes)

text \<open>\<open>IAC SE\<close> after a subnegotiation reports it.\<close>

lemma leave_sub:
  assumes "telnet_ok tr" "tr_state tr = telnet_reader_state_rx_sb"
  shows "ends (foldo step tr [IAC, SE]) (on_sub (take (unat (tr_buf_ndx tr)) (tr_buffer tr)) (tr_env tr))"
proof -
  have "tr_command tr = SB" using assms by (simp add: telnet_ok_def)
  then show ?thesis
    using assms
    by (cases "on_sub (take (unat (tr_buf_ndx tr)) (tr_buffer tr)) (tr_env tr)")
      (auto simp: step_def telnet_reader_state_machine_def telnet_reader_handle_subcommand_def
        telnet_reader_move_state_def sub ends_def telnet_ok_def)
qed

lemma item:
  assumes "telnet_ok tr" "tr_state tr = telnet_reader_state_start" "telnet_item_ok i"
  shows "ends (foldo step tr (telnet_encode i)) (telnet_serve on_data on_opt on_sub (tr_env tr) i)"
proof (cases i)
  case (Telnet_data d)
  then show ?thesis
    using data_plain [of tr d] assms
    by (cases "on_data d (tr_env tr)")
      (auto simp: step_def telnet_reader_state_machine_def telnet_reader_move_state_def data ends_def telnet_ok_def)
next
  case (Telnet_option c v)
  then have "option_command c" "c \<noteq> SB" "c \<noteq> IAC" using assms option_command_not_SB by auto
  with Telnet_option assms show ?thesis
    by (cases "on_opt c v (tr_env tr)")
      (auto simp: step_def telnet_reader_state_machine_def telnet_reader_handle_command_def telnet_reader_move_state_def
        option_command_def option ends_def telnet_ok_def Let_def)
next
  case (Telnet_unknown c)
  with assms show ?thesis
    by (auto simp: step_def telnet_reader_state_machine_def telnet_reader_handle_command_def telnet_reader_move_state_def
        option_command_def ends_def telnet_ok_def Let_def)
next
  case (Telnet_sub bs)
  obtain tr1 where 1: "foldo step tr [IAC, SB] = Some tr1" "telnet_ok tr1" "tr_state tr1 = telnet_reader_state_rx_sb"
      "tr_env tr1 = tr_env tr" "tr_buf_ndx tr1 = 0"
    using enter_sub [OF assms(1,2)] by blast
  then obtain tr2 where 2: "foldo step tr1 bs = Some tr2" "telnet_ok tr2" "tr_state tr2 = telnet_reader_state_rx_sb"
      "tr_env tr2 = tr_env tr" "take (unat (tr_buf_ndx tr2)) (tr_buffer tr2) = bs"
    using sub_bytes [of tr1 bs] assms Telnet_sub by (auto simp: TELNET_READER_BUFFER_SIZE_def)
  have "foldo step tr (telnet_encode i) = foldo step tr2 [IAC, SE]"
    unfolding Telnet_sub telnet_encode.simps foldo_append 1(1) 2(1) by (simp add: foldo_append 2(1) del: foldo.simps)
  then show ?thesis using leave_sub [OF 2(2,3)] 2 Telnet_sub by simp
qed

lemma items:
  assumes "telnet_ok tr" "tr_state tr = telnet_reader_state_start" "\<forall>i \<in> set is. telnet_item_ok i"
  shows "ends (foldo step tr (concat (map telnet_encode is)))
    (foldo (telnet_serve on_data on_opt on_sub) (tr_env tr) is)"
  using assms
proof (induction "is" arbitrary: tr)
  case Nil
  then show ?case by (simp add: ends_def)
next
  case (Cons i "is")
  have h: "ends (foldo step tr (telnet_encode i)) (telnet_serve on_data on_opt on_sub (tr_env tr) i)"
    using item Cons.prems by simp
  show ?case
  proof (cases "telnet_serve on_data on_opt on_sub (tr_env tr) i")
    case None
    with h show ?thesis by (simp add: ends_def foldo_append)
  next
    case (Some e)
    with h obtain tr1 where 1: "foldo step tr (telnet_encode i) = Some tr1" "tr_env tr1 = e" "telnet_ok tr1"
        "tr_state tr1 = telnet_reader_state_start" by (auto simp: ends_def)
    then show ?thesis using Cons.IH [of tr1] Cons.prems Some by (simp add: foldo_append)
  qed
qed

text \<open>Plain data after anything: each byte is delivered.\<close>

lemma plain_data:
  assumes "telnet_ok tr" "tr_state tr = telnet_reader_state_start" "IAC \<notin> set bs"
  shows "ends (foldo step tr bs) (foldo (\<lambda>e d. on_data d e) (tr_env tr) bs)"
proof -
  have "concat (map telnet_encode (map Telnet_data bs)) = bs" using assms(3) by (induction bs) auto
  moreover have "foldo (telnet_serve on_data on_opt on_sub) e (map Telnet_data bs) = foldo (\<lambda>e d. on_data d e) e bs" for e
    by (induction bs arbitrary: e) (auto split: bind_splits)
  ultimately show ?thesis using items [of tr "map Telnet_data bs"] assms by simp
qed

text \<open>A byte too many in a subnegotiation is dropped, and the reader takes the rest for data.\<close>

lemma sub_overflow:
  assumes "telnet_ok tr" "tr_state tr = telnet_reader_state_rx_sb" "unat (tr_buf_ndx tr) = 32" "b \<noteq> IAC"
  shows "step tr b = Some (telnet_reader_move_state tr telnet_reader_state_start)"
  using assms
  by (simp add: step_def telnet_reader_state_machine_def telnet_reader_handle_subcommand_def TELNET_READER_BUFFER_SIZE_def)

lemma IAC_SE_ignored:
  assumes "telnet_ok tr" "tr_state tr = telnet_reader_state_start"
  shows "\<exists>tr'. foldo step tr [IAC, SE] = Some tr' \<and> telnet_ok tr' \<and> tr_state tr' = telnet_reader_state_start \<and> tr_env tr' = tr_env tr"
  using item [of tr "Telnet_unknown SE"] assms by (auto simp: ends_def option_command_def telnet_bytes)

lemma long_sub:
  assumes tr: "telnet_ok tr" "tr_state tr = telnet_reader_state_start"
    and bs: "IAC \<notin> set bs" "length bs > 32"
  shows "ends (foldo step tr ([IAC, SB] @ bs @ [IAC, SE])) (foldo (\<lambda>e d. on_data d e) (tr_env tr) (drop 33 bs))"
proof -
  obtain xs b ys where b: "bs = xs @ b # ys" "length xs = 32" "drop 33 bs = ys"
    using that [of "take 32 bs" "bs ! 32" "drop 33 bs"] bs(2) id_take_nth_drop [of 32 bs] by simp
  obtain tr1 where 1: "foldo step tr [IAC, SB] = Some tr1" "telnet_ok tr1" "tr_state tr1 = telnet_reader_state_rx_sb"
      "tr_env tr1 = tr_env tr" "tr_buf_ndx tr1 = 0"
    using enter_sub [OF tr] by blast
  then obtain tr2 where 2: "foldo step tr1 xs = Some tr2" "telnet_ok tr2" "tr_state tr2 = telnet_reader_state_rx_sb"
      "tr_env tr2 = tr_env tr" "unat (tr_buf_ndx tr2) = 32"
    using sub_bytes [of tr1 xs] bs b by auto
  define tr3 where "tr3 = telnet_reader_move_state tr2 telnet_reader_state_start"
  have 3: "step tr2 b = Some tr3" "telnet_ok tr3" "tr_state tr3 = telnet_reader_state_start" "tr_env tr3 = tr_env tr"
    using sub_overflow [OF 2(2,3,5), of b] telnet_move_start_ok [OF 2(2)] bs b 2(4)
    by (auto simp: tr3_def telnet_reader_move_state_def)
  have run: "foldo step tr ([IAC, SB] @ bs @ [IAC, SE]) = foldo step tr3 (ys @ [IAC, SE])"
    unfolding foldo_append [of step tr "[IAC, SB]"] 1(1) b(1) using 2(1) 3(1) by (simp add: foldo_append)
  have data: "ends (foldo step tr3 ys) (foldo (\<lambda>e d. on_data d e) (tr_env tr) ys)"
    using plain_data [of tr3 ys] 3 bs b by auto
  show ?thesis
  proof (cases "foldo (\<lambda>e d. on_data d e) (tr_env tr) ys")
    case None
    with data show ?thesis unfolding run b(3) by (simp add: ends_def foldo_append)
  next
    case (Some e)
    with data obtain tr4 where "foldo step tr3 ys = Some tr4" "tr_env tr4 = e" "telnet_ok tr4"
        "tr_state tr4 = telnet_reader_state_start" by (auto simp: ends_def)
    then show ?thesis
      unfolding run b(3) Some using IAC_SE_ignored [of tr4] by (auto simp: ends_def foldo_append simp del: foldo.simps)
  qed
qed

end

text \<open>
  Two owners whose states correspond under \<open>f\<close>, with corresponding actions, see corresponding runs of the
  reader.
\<close>

definition telnet_attach :: "'a telnet_reader \<Rightarrow> 'b \<Rightarrow> 'b telnet_reader" where
  "telnet_attach tr e = \<lparr>tr_buffer = tr_buffer tr, tr_buf_ndx = tr_buf_ndx tr, tr_state = tr_state tr,
     tr_command = tr_command tr, tr_opt = tr_opt tr, tr_env = e\<rparr>"

definition telnet_map :: "('a \<Rightarrow> 'b) \<Rightarrow> 'a telnet_reader \<Rightarrow> 'b telnet_reader" where
  "telnet_map f tr = telnet_attach tr (f (tr_env tr))"

lemma telnet_attach_simps [simp]:
  "tr_buffer (telnet_attach tr e) = tr_buffer tr" "tr_buf_ndx (telnet_attach tr e) = tr_buf_ndx tr"
  "tr_state (telnet_attach tr e) = tr_state tr" "tr_command (telnet_attach tr e) = tr_command tr"
  "tr_opt (telnet_attach tr e) = tr_opt tr" "tr_env (telnet_attach tr e) = e"
  "telnet_attach (telnet_attach tr e) e' = telnet_attach tr e'" "telnet_ok (telnet_attach tr e) = telnet_ok tr"
  by (simp_all add: telnet_attach_def telnet_ok_def split: telnet_reader_state.split)

lemma telnet_map_simps:
  "tr_buffer (telnet_map f tr) = tr_buffer tr" "tr_buf_ndx (telnet_map f tr) = tr_buf_ndx tr"
  "tr_state (telnet_map f tr) = tr_state tr" "tr_command (telnet_map f tr) = tr_command tr"
  "tr_opt (telnet_map f tr) = tr_opt tr" "tr_env (telnet_map f tr) = f (tr_env tr)"
  "telnet_map f (with_env tr e) = with_env (telnet_map f tr) (f e)"
  "telnet_map f (tr\<lparr>tr_opt := v\<rparr>) = (telnet_map f tr)\<lparr>tr_opt := v\<rparr>"
  "telnet_map f (telnet_reader_move_state tr s) = telnet_reader_move_state (telnet_map f tr) s"
  by (simp_all add: telnet_map_def telnet_attach_def with_env_def telnet_reader_move_state_def)

lemma telnet_handlers_map:
  "telnet_reader_handle_command (telnet_map f tr) d = map_prod (telnet_map f) id (telnet_reader_handle_command tr d)"
  "telnet_reader_handle_subcommand (telnet_map f tr) d
    = map_option (map_prod (telnet_map f) id) (telnet_reader_handle_subcommand tr d)"
  by (simp_all add: telnet_reader_handle_command_def telnet_reader_handle_subcommand_def Let_def mem_store_def
      telnet_reader_move_state_def telnet_map_def telnet_attach_def)

lemma telnet_step_map:
  assumes db: "\<And>d. map_option (telnet_map f) (db (telnet_reader_move_state tr telnet_reader_state_start) d)
        = db' (telnet_map f (telnet_reader_move_state tr telnet_reader_state_start)) d"
    and cb: "\<And>v. map_option (telnet_map f) (cb (tr\<lparr>tr_opt := v\<rparr>)) = cb' (telnet_map f (tr\<lparr>tr_opt := v\<rparr>))"
  shows "map_option (telnet_map f) (telnet_reader_state_machine db cb tr d)
    = telnet_reader_state_machine db' cb' (telnet_map f tr) d"
proof (cases "tr_state tr")
  case telnet_reader_state_start
  then have "telnet_reader_move_state tr telnet_reader_state_start = tr"
    by (simp add: telnet_reader_move_state_def)
  then show ?thesis
    using telnet_reader_state_start db [of d] by (simp add: telnet_reader_state_machine_def telnet_map_simps)
next
  case telnet_reader_state_rx_iac
  then show ?thesis
    using db [of IAC] by (simp add: telnet_reader_state_machine_def telnet_map_simps telnet_handlers_map split: prod.split)
next
  case telnet_reader_state_rx_do_dont_will_wont
  then show ?thesis
    using cb [of d, symmetric]
    by (cases "cb (tr\<lparr>tr_opt := d\<rparr>)") (simp_all add: telnet_reader_state_machine_def telnet_map_simps)
next
  case telnet_reader_state_rx_sb
  then show ?thesis
    by (cases "telnet_reader_handle_subcommand tr d")
      (auto simp: telnet_reader_state_machine_def telnet_map_simps telnet_handlers_map)
next
  case telnet_reader_state_wait_for_se
  have "tr\<lparr>tr_opt := tr_opt tr\<rparr> = tr" by simp
  then show ?thesis
    using telnet_reader_state_wait_for_se cb [of "tr_opt tr", symmetric]
    by (cases "cb tr") (simp_all add: telnet_reader_state_machine_def telnet_map_simps)
qed

lemma telnet_feed_chunks:
  "foldo (\<lambda>tr c. telnet_reader_feed db cb tr c (int (length c))) tr chunks
    = foldo (telnet_reader_state_machine db cb) tr (concat chunks)"
  by (induction chunks arbitrary: tr) (auto simp: telnet_feed_all foldo_append split: bind_splits)

section \<open>Properties\<close>

text \<open>C32: From initialisation on, the reader stays well-formed whatever bytes arrive: the write index never
  leaves the 32-byte buffer, no access is out of bounds, and the feed returns as long as the owner's
  callbacks return and keep the reader well-formed.\<close>

theorem telnet_reader_well_formed:
  assumes "length (tr_buffer tr) = 32" "P (tr_env tr)"
    and "\<And>tr d. telnet_ok tr \<Longrightarrow> P (tr_env tr) \<Longrightarrow> \<exists>tr'. databack tr d = Some tr' \<and> telnet_ok tr' \<and> P (tr_env tr')"
    and "\<And>tr. telnet_ok tr \<Longrightarrow> P (tr_env tr) \<Longrightarrow> \<exists>tr'. cmdback tr = Some tr' \<and> telnet_ok tr' \<and> P (tr_env tr')"
  shows "\<exists>tr'. foldo (\<lambda>tr c. telnet_reader_feed databack cmdback tr c (int (length c))) (telnet_reader_init tr) chunks = Some tr'
    \<and> telnet_ok tr' \<and> P (tr_env tr')"
  unfolding telnet_feed_chunks
  by (rule telnet_fold_ok) (use assms telnet_init_ok in \<open>auto simp: telnet_reader_init_def\<close>)

text \<open>An owner that records what it is told.\<close>

definition rec_data :: "u8 \<Rightarrow> telnet_item list \<Rightarrow> telnet_item list option" where
  "rec_data d e = Some (e @ [Telnet_data d])"

definition rec_option :: "u8 \<Rightarrow> u8 \<Rightarrow> telnet_item list \<Rightarrow> telnet_item list option" where
  "rec_option c v e = Some (e @ [Telnet_option c v])"

definition rec_sub :: "u8 list \<Rightarrow> telnet_item list \<Rightarrow> telnet_item list option" where
  "rec_sub bs e = Some (e @ [Telnet_sub bs])"

definition rec_databack :: "telnet_item list telnet_data_callback" where
  "rec_databack tr d = map_option (with_env tr) (rec_data d (tr_env tr))"

definition rec_cmdback :: "telnet_item list telnet_cmd_callback" where
  "rec_cmdback tr = map_option (with_env tr)
     (if tr_command tr = SB then rec_sub (take (unat (tr_buf_ndx tr)) (tr_buffer tr)) (tr_env tr)
      else rec_option (tr_command tr) (tr_opt tr) (tr_env tr))"

lemma rec_user: "telnet_user rec_databack rec_cmdback rec_data rec_option rec_sub"
  by unfold_locales (simp_all add: rec_databack_def rec_cmdback_def)

interpretation telnet_recorder: telnet_user rec_databack rec_cmdback rec_data rec_option rec_sub
  by (rule rec_user)

definition blank_telnet :: "telnet_item list telnet_reader" where
  "blank_telnet = \<lparr>tr_buffer = replicate 32 0, tr_buf_ndx = 7, tr_state = telnet_reader_state_start,
     tr_command = 0, tr_opt = 0, tr_env = []\<rparr>"

lemma blank_telnet_ok: "telnet_ok blank_telnet" "tr_state blank_telnet = telnet_reader_state_start" "tr_env blank_telnet = []"
  by (simp_all add: blank_telnet_def telnet_ok_def TELNET_READER_BUFFER_SIZE_def)

lemma telnet_reader_well_formed_witness:
  "\<exists>tr'. foldo (\<lambda>tr c. telnet_reader_feed rec_databack rec_cmdback tr c (int (length c)))
      (telnet_reader_init blank_telnet) [[IAC, SB, 1], [2, IAC], [IAC, 65]] = Some tr' \<and> telnet_ok tr' \<and> True"
  by (rule telnet_reader_well_formed [where P = "\<lambda>_. True"])
    (auto simp: blank_telnet_def rec_databack_def rec_cmdback_def rec_data_def rec_option_def rec_sub_def)

text \<open>
  C12: Encode and decode agree: when the bytes of a sequence of Telnet items arrive, cut into packets in any way, the owner's
  callbacks run exactly once for each item that is not an unknown command, and not at all for those, in order, with
  the item's byte, option or subnegotiation, and the reader is back in its start state. Subnegotiations hold at most
  32 bytes and no byte 255: longer ones and the doubled 255 are delivered as data (\<open>telnet_long_sub_becomes_data\<close>).
\<close>

theorem telnet_items_delivered:
  assumes "telnet_user databack cmdback on_data on_opt on_sub"
    and "telnet_ok tr" "tr_state tr = telnet_reader_state_start" "\<forall>i \<in> set is. telnet_item_ok i"
    and "concat chunks = concat (map telnet_encode is)"
  shows "case foldo (telnet_serve on_data on_opt on_sub) (tr_env tr) is of
      None \<Rightarrow> foldo (\<lambda>tr c. telnet_reader_feed databack cmdback tr c (int (length c))) tr chunks = None
    | Some e \<Rightarrow> \<exists>tr'. foldo (\<lambda>tr c. telnet_reader_feed databack cmdback tr c (int (length c))) tr chunks = Some tr'
        \<and> tr_env tr' = e \<and> telnet_ok tr' \<and> tr_state tr' = telnet_reader_state_start"
  using telnet_user.items [OF assms(1-4)]
  unfolding telnet_feed_chunks assms(5) telnet_user.ends_def [OF assms(1)] telnet_user.step_def [OF assms(1)] .

lemma telnet_items_delivered_witness:
  "\<exists>tr'. foldo (\<lambda>tr c. telnet_reader_feed rec_databack rec_cmdback tr c (int (length c))) blank_telnet
      [[65, IAC], [IAC, IAC, DO, 3, IAC, SB, 24], [1, IAC, SE]] = Some tr'
    \<and> tr_env tr' = [Telnet_data 65, Telnet_data IAC, Telnet_option DO 3, Telnet_sub [24, 1]]
    \<and> telnet_ok tr' \<and> tr_state tr' = telnet_reader_state_start"
  using telnet_items_delivered [OF rec_user blank_telnet_ok(1,2),
      of "[Telnet_data 65, Telnet_data IAC, Telnet_option DO 3, Telnet_sub [24, 1]]"
        "[[65, IAC], [IAC, IAC, DO, 3, IAC, SB, 24], [1, IAC, SE]]"]
  by (simp add: option_command_def TELNET_READER_BUFFER_SIZE_def rec_data_def rec_option_def rec_sub_def
      blank_telnet_ok telnet_bytes)

text \<open>A subnegotiation of more than 32 bytes is not skipped: its 33rd byte is dropped, every later
  byte is delivered to the owner as connection data, and the closing \<open>IAC SE\<close> reports nothing.\<close>

theorem telnet_long_sub_becomes_data:
  assumes "telnet_user databack cmdback on_data on_opt on_sub"
    and "telnet_ok tr" "tr_state tr = telnet_reader_state_start" "IAC \<notin> set bs" "32 < length bs"
  shows "case foldo (\<lambda>e d. on_data d e) (tr_env tr) (drop 33 bs) of
      None \<Rightarrow> telnet_reader_feed databack cmdback tr ([IAC, SB] @ bs @ [IAC, SE]) (int (length bs + 4)) = None
    | Some e \<Rightarrow> \<exists>tr'. telnet_reader_feed databack cmdback tr ([IAC, SB] @ bs @ [IAC, SE]) (int (length bs + 4)) = Some tr'
        \<and> tr_env tr' = e \<and> telnet_ok tr' \<and> tr_state tr' = telnet_reader_state_start"
proof -
  have feed: "telnet_reader_feed databack cmdback tr ([IAC, SB] @ bs @ [IAC, SE]) (int (length bs + 4))
      = foldo (telnet_reader_state_machine databack cmdback) tr ([IAC, SB] @ bs @ [IAC, SE])"
    using telnet_feed_all [of databack cmdback tr "[IAC, SB] @ bs @ [IAC, SE]"] by (simp add: add.commute)
  show ?thesis
    using telnet_user.long_sub [OF assms]
    unfolding feed telnet_user.ends_def [OF assms(1)] telnet_user.step_def [OF assms(1)] .
qed

lemma telnet_long_sub_becomes_data_witness:
  "\<exists>tr'. telnet_reader_feed rec_databack rec_cmdback blank_telnet ([IAC, SB] @ (replicate 33 1 @ [104, 105]) @ [IAC, SE]) 39 = Some tr'
    \<and> tr_env tr' = [Telnet_data 104, Telnet_data 105] \<and> telnet_ok tr' \<and> tr_state tr' = telnet_reader_state_start"
  using telnet_long_sub_becomes_data [OF rec_user blank_telnet_ok(1,2), of "replicate 33 1 @ [104, 105]"]
  by (simp add: rec_data_def blank_telnet_ok telnet_bytes)

end
