(* ===== verification/Cli_Telnet.thy ===== *)
theory Cli_Telnet
  imports Cli Telnet_Reader Stream Tcp_Server
begin

text \<open>
  \<open>src/cli/cli_telnet.c\<close>: the command line over Telnet. A connection has a stream, a Telnet reader and a
  command-line interface: received bytes go through the reader, its data bytes to the command line, and
  the command line's output to the stream. A connection is the owner of its stream; while the reader
  runs, the stream is the owner of the reader, and while the command line runs, of the interface
  (\<open>container_of\<close> in the source). The kernel's answer to a write is a function \<open>os\<close> of the connection.
\<close>

section \<open>State\<close>

record cli_connection =
  cn_cli_intf :: "unit cli_intf"
  cn_telnet :: "unit telnet_reader"
  cn_le :: bool

type_synonym cli_stream = "cli_connection stream"

definition cli_attach :: "'a cli_intf \<Rightarrow> 'b \<Rightarrow> 'b cli_intf" where
  "cli_attach i e = \<lparr>ci_cmd_buffer_ndx = ci_cmd_buffer_ndx i, ci_cmd_buffer = ci_cmd_buffer i,
     ci_print_buffer = ci_print_buffer i, ci_le = ci_le i, ci_env = e\<rparr>"

definition upd_cn :: "(cli_connection \<Rightarrow> cli_connection) \<Rightarrow> cli_stream \<Rightarrow> cli_stream" where
  "upd_cn f st = st\<lparr>st_env := f (st_env st)\<rparr>"

section \<open>Callbacks\<close>

definition cli_put_tx_data :: "('c stream \<Rightarrow> kernel_write) \<Rightarrow> 'c stream cli_put" where
  "cli_put_tx_data os intf data len = do {
     (st, _) \<leftarrow> stream_write (os (ci_env intf)) (ci_env intf) data len;
     Some (intf\<lparr>ci_env := st\<rparr>) }"

text \<open>The command line on a connection: its interface is taken out of the stream's owner and put back.\<close>

definition cn_handle_rx ::
    "(cli_stream \<Rightarrow> kernel_write) \<Rightarrow> cli_stream cli_command list \<Rightarrow> u8 list \<Rightarrow> int \<Rightarrow> cli_stream \<Rightarrow> cli_stream option" where
  "cn_handle_rx os users data len st = do {
     intf \<leftarrow> cli_handle_rx (cli_put_tx_data os) users (cli_attach (cn_cli_intf (st_env st)) st) data len;
     Some (upd_cn (\<lambda>c. c\<lparr>cn_cli_intf := cli_attach intf ()\<rparr>) (ci_env intf)) }"

definition telnet_rx_databack ::
    "(cli_stream \<Rightarrow> kernel_write) \<Rightarrow> cli_stream cli_command list \<Rightarrow> cli_stream telnet_data_callback" where
  "telnet_rx_databack os users tr data =
     (if data = 0 then Some tr
      else do { st \<leftarrow> cn_handle_rx os users [data] 1 (tr_env tr); Some (with_env tr st) })"

definition telnet_rx_cmdback :: "cli_stream telnet_cmd_callback" where
  "telnet_rx_cmdback tr = Some tr"

section \<open>Connections\<close>

definition init_telnet_session :: "(cli_stream \<Rightarrow> kernel_write) \<Rightarrow> cli_stream \<Rightarrow> cli_stream option" where
  "init_telnet_session os st = do {
     let iacs_to_send = [IAC, WILL, 3, IAC, WILL, 1];
     (st, _) \<leftarrow> stream_write (os st) st iacs_to_send (int (length iacs_to_send));
     Some st }"

record cli_server =
  cs_tcp_server :: tcp_server
  cs_conns :: "cli_stream list"
  cs_closed :: "int list"

text \<open>
  \<open>conn_mem\<close> and \<open>block\<close>: what \<open>malloc\<close> returns for the connection, with whatever the memory holds, and
  for its transmit buffer.
\<close>

definition alloc_cli_connection ::
    "(cli_stream \<Rightarrow> kernel_write) \<Rightarrow> cli_stream cli_command list \<Rightarrow> cli_stream option \<Rightarrow> u8 list option \<Rightarrow>
     cli_server \<Rightarrow> int \<Rightarrow> cli_server option" where
  "alloc_cli_connection os users conn_mem block server newsd =
     (case conn_mem of
        None \<Rightarrow> Some (server\<lparr>cs_closed := cs_closed server @ [newsd]\<rparr>)
      | Some st \<Rightarrow> do {
          let st = upd_cn (\<lambda>c. c\<lparr>cn_le := True\<rparr>) st;
          st \<leftarrow> stream_init_with_fd block st newsd (st_rx_buf st) 128 128;
          let st = upd_cn (\<lambda>c. c\<lparr>cn_cli_intf := cli_intf_register (cn_cli_intf c)\<rparr>) st;
          let st = stream_start st;
          let st = upd_cn (\<lambda>c. c\<lparr>cn_telnet := telnet_reader_init (cn_telnet c)\<rparr>) st;
          st \<leftarrow> init_telnet_session os st;
          st \<leftarrow> cn_handle_rx os users [13] 1 st;
          Some (server\<lparr>cs_conns := cs_conns server @ [st]\<rparr>) })"

definition dealloc_cli_connection :: "cli_stream \<Rightarrow> cli_stream" where
  "dealloc_cli_connection st =
     upd_cn (\<lambda>c. c\<lparr>cn_le := False, cn_cli_intf := cli_intf_unregister (cn_cli_intf c)\<rparr>) (stream_deinit st)"

definition cli_telnet_handle_stream_event ::
    "(cli_stream \<Rightarrow> kernel_write) \<Rightarrow> cli_stream cli_command list \<Rightarrow> cli_connection stream_callback" where
  "cli_telnet_handle_stream_event os users st evt =
     (case evt of
        stream_event_rx \<Rightarrow> do {
          tr \<leftarrow> telnet_reader_feed (telnet_rx_databack os users) telnet_rx_cmdback (telnet_attach (cn_telnet (st_env st)) st)
            (st_rx_buf st) (st_rx_data_len st);
          Some (upd_cn (\<lambda>c. c\<lparr>cn_telnet := telnet_attach tr ()\<rparr>) (tr_env tr)) }
      | stream_event_eof \<Rightarrow> Some (dealloc_cli_connection st)
      | stream_event_err \<Rightarrow> Some (dealloc_cli_connection st)
      | stream_event_tx \<Rightarrow> Some st)"

text \<open>An event on the i-th connection; one that deallocates itself leaves the list.\<close>

definition cli_connection_event ::
    "(cli_stream \<Rightarrow> kernel_write) \<Rightarrow> cli_stream cli_command list \<Rightarrow> kernel_read \<Rightarrow> kernel_write \<Rightarrow> watcher_event \<Rightarrow> nat \<Rightarrow>
     cli_server \<Rightarrow> cli_server option" where
  "cli_connection_event os users r k evt i server = do {
     st \<leftarrow> mem_load (cs_conns server) i;
     st \<leftarrow> stream_watcher_callback (cli_telnet_handle_stream_event os users) r k st evt;
     Some (server\<lparr>cs_conns := filter (\<lambda>s. cn_le (st_env s)) ((cs_conns server)[i := st])\<rparr>) }"

section \<open>The server\<close>

definition cli_server_new_connection ::
    "(cli_stream \<Rightarrow> kernel_write) \<Rightarrow> cli_stream cli_command list \<Rightarrow> cli_stream option \<Rightarrow> u8 list option \<Rightarrow>
     int \<Rightarrow> cli_server \<Rightarrow> cli_server option" where
  "cli_server_new_connection os users conn_mem block newsd server =
     alloc_cli_connection os users conn_mem block server newsd"

definition cli_server_accept ::
    "(cli_stream \<Rightarrow> kernel_write) \<Rightarrow> cli_stream cli_command list \<Rightarrow> cli_stream option \<Rightarrow> u8 list option \<Rightarrow>
     int \<Rightarrow> cli_server \<Rightarrow> cli_server option" where
  "cli_server_accept os users conn_mem block newsd server =
     tcp_server_watcher_callback
       (tcp_server_ipv4_rx_event (cli_server_new_connection os users conn_mem block) newsd) watcher_event_rx server"

text \<open>The result of \<open>tcp_server_ipv4_init\<close> is ignored.\<close>

definition cli_telnet_server_init :: "listen_outcome \<Rightarrow> cli_server \<Rightarrow> int \<Rightarrow> cli_server option" where
  "cli_telnet_server_init out server port = do {
     (tcp, _) \<leftarrow> tcp_server_ipv4_init out (cs_tcp_server server) port;
     Some (server\<lparr>cs_conns := [], cs_tcp_server := tcp_server_start tcp\<rparr>) }"

definition cli_telnet_intf_init :: "listen_outcome \<Rightarrow> cli_server \<Rightarrow> cli_server option" where
  "cli_telnet_intf_init out server = cli_telnet_server_init out server 9090"

section \<open>The callbacks' contracts\<close>

lemma cli_attach_simps [simp]:
  "ci_cmd_buffer_ndx (cli_attach i e) = ci_cmd_buffer_ndx i" "ci_cmd_buffer (cli_attach i e) = ci_cmd_buffer i"
  "ci_print_buffer (cli_attach i e) = ci_print_buffer i" "ci_env (cli_attach i e) = e"
  "cli_ok (cli_attach i e) = cli_ok i" "cli_line (cli_attach i e) = cli_line i"
  by (simp_all add: cli_attach_def cli_ok_def cli_line_def)

lemma upd_cn_simps [simp]:
  "stream_inv (upd_cn f st) = stream_inv st" "st_queue (upd_cn f st) = st_queue st" "st_wire (upd_cn f st) = st_wire st"
  "st_rx_buf (upd_cn f st) = st_rx_buf st" "st_env (upd_cn f st) = f (st_env st)"
  by (simp_all add: upd_cn_def stream_inv_def st_queue_def)

text \<open>Any kernel: a transmission is one \<open>stream_write\<close> of at most 511 bytes, which always returns.\<close>

definition cli_tx :: "('c stream \<Rightarrow> kernel_write) \<Rightarrow> u8 list \<Rightarrow> 'c stream \<Rightarrow> 'c stream" where
  "cli_tx os t st = fst (the (stream_write (os st) st (take 511 t) (int (length (take 511 t)))))"

lemma cli_tx_total:
  assumes "stream_inv st"
  shows "\<exists>ok. stream_write (os st) st (take 511 t) (int (length (take 511 t))) = Some (cli_tx os t st, ok)
    \<and> stream_inv (cli_tx os t st)"
proof -
  have "length (take 511 t) < 2 ^ 30" by simp
  from stream_write_spec [OF assms this, of "os st"] show ?thesis by (auto simp: cli_tx_def)
qed

lemma cli_tx_inv: "stream_inv st \<Longrightarrow> stream_inv (cli_tx os t st)"
  using cli_tx_total by blast

lemma cli_put_total:
  assumes "stream_inv (ci_env intf)" "n \<le> length data" "n \<le> 511"
  shows "cli_put_tx_data os intf data (int n) = Some (intf\<lparr>ci_env := cli_tx os (take n data) (ci_env intf)\<rparr>)"
proof -
  have n: "take 511 (take n data) = take n data" "length (take n data) = n" using assms by (simp_all add: min_def)
  obtain ok where "stream_write (os (ci_env intf)) (ci_env intf) data (int n) = Some (cli_tx os (take n data) (ci_env intf), ok)"
    using cli_tx_total [OF assms(1), of os "take n data"] stream_write_take [OF assms(2), of "os (ci_env intf)" "ci_env intf"]
    unfolding n by auto
  then show ?thesis by (simp add: cli_put_tx_data_def)
qed

interpretation telnet_terminal: cli_terminal "cli_put_tx_data os" "[]" "cli_tx os" "\<lambda>_ _ e. e" stream_inv
  for os :: "cli_stream \<Rightarrow> kernel_write"
  by unfold_locales (auto simp: cli_put_total cli_tx_inv)

text \<open>A kernel with room, and nothing queued: the output goes to the wire.\<close>

definition roomy :: "('c stream \<Rightarrow> kernel_write) \<Rightarrow> bool" where
  "roomy os \<longleftrightarrow> (\<forall>st. \<exists>n \<ge> 511. os st = Room n)"

definition flowing :: "'c stream \<Rightarrow> bool" where
  "flowing st \<longleftrightarrow> stream_inv st \<and> st_queue st = []"

lemma flowing_upd_cn [simp]: "flowing (upd_cn f st) = flowing st"
  by (simp add: flowing_def)

definition cli_wire :: "u8 list \<Rightarrow> 'c stream \<Rightarrow> 'c stream" where
  "cli_wire t st = st\<lparr>st_wire := st_wire st @ t\<rparr>"

lemma cli_wire_simps [simp]:
  "st_wire (cli_wire t st) = st_wire st @ t" "st_env (cli_wire t st) = st_env st" "st_rx_buf (cli_wire t st) = st_rx_buf st"
  "flowing (cli_wire t st) = flowing st"
  by (simp_all add: cli_wire_def flowing_def stream_inv_def st_queue_def)

lemma stream_write_roomy:
  assumes "roomy os" "flowing st" "n \<le> length data" "n \<le> 511"
  shows "stream_write (os st) st data (int n) = Some (cli_wire (take n data) st, True)"
proof -
  obtain m where "511 \<le> m" "os st = Room m" using assms(1) by (auto simp: roomy_def)
  then show ?thesis
    using stream_write_sent [of st "take n data" m] stream_write_take [OF assms(3), of "os st" st] assms
    by (simp add: flowing_def cli_wire_def)
qed

lemma roomy_terminal:
  assumes "roomy os"
  shows "cli_terminal (cli_put_tx_data os) [] cli_wire (\<lambda>_ _ e. e) flowing"
  by unfold_locales (use stream_write_roomy [OF assms] in \<open>auto simp: cli_put_tx_data_def\<close>)

text \<open>The reader's owner: what a data byte does to a connection.\<close>

definition cn_type ::
    "(cli_stream \<Rightarrow> kernel_write) \<Rightarrow> cli_stream cli_command list \<Rightarrow> u8 \<Rightarrow> cli_stream \<Rightarrow> cli_stream option" where
  "cn_type os users d st = (if d = 0 then Some st else cn_handle_rx os users [d] 1 st)"

lemma with_env_same [simp]: "with_env tr (tr_env tr) = tr"
  by (simp add: with_env_def)

interpretation telnet_owner: telnet_user "telnet_rx_databack os users" telnet_rx_cmdback "cn_type os users" "\<lambda>_ _. Some" "\<lambda>_. Some"
  for os users
  by unfold_locales
    (auto simp: telnet_rx_databack_def telnet_rx_cmdback_def cn_type_def map_conv_bind_option comp_def simp del: bind_option_Some_iff)

section \<open>A connection's state\<close>

text \<open>
  \<open>cn_ok\<close>: a connection's stream, reader and interface are well-formed. Its abstract state is the line
  being typed and the bytes on the wire.
\<close>

definition cn_ok :: "cli_stream \<Rightarrow> bool" where
  "cn_ok st \<longleftrightarrow> stream_inv st \<and> length (st_rx_buf st) = 128 \<and> cli_ok (cn_cli_intf (st_env st)) \<and> telnet_ok (cn_telnet (st_env st))"

definition cn_abs :: "cli_stream \<Rightarrow> u8 list \<times> u8 list" where
  "cn_abs st = (cli_line (cn_cli_intf (st_env st)), st_wire st)"

definition cn_reader :: "cli_stream \<Rightarrow> (u8 list \<times> u8 list) telnet_reader" where
  "cn_reader st = telnet_attach (cn_telnet (st_env st)) (cn_abs st)"

text \<open>The abstract connection: a typed byte, and the reader over it.\<close>

definition abs_wire :: "u8 list \<Rightarrow> u8 list \<Rightarrow> u8 list" where
  "abs_wire t w = w @ t"

definition abs_type :: "u8 \<Rightarrow> u8 list \<times> u8 list \<Rightarrow> (u8 list \<times> u8 list) option" where
  "abs_type d st = (if d = 0 then Some st else cli_spec_byte abs_wire (\<lambda>_ _ e. e) [] st d)"

definition abs_databack :: "(u8 list \<times> u8 list) telnet_data_callback" where
  "abs_databack tr d = map_option (with_env tr) (abs_type d (tr_env tr))"

definition abs_cmdback :: "(u8 list \<times> u8 list) telnet_cmd_callback" where
  "abs_cmdback tr = Some tr"

interpretation abs_owner: telnet_user abs_databack abs_cmdback abs_type "\<lambda>_ _. Some" "\<lambda>_. Some"
  by unfold_locales (simp_all add: abs_databack_def abs_cmdback_def)

section \<open>A connection refines the abstract one\<close>

definition cn_flow :: "cli_stream \<Rightarrow> bool" where
  "cn_flow st \<longleftrightarrow> cn_ok st \<and> st_queue st = []"

lemma cn_flow_simps:
  "cn_flow (upd_cn (\<lambda>c. c\<lparr>cn_cli_intf := i\<rparr>) st) \<longleftrightarrow>
     flowing st \<and> length (st_rx_buf st) = 128 \<and> cli_ok i \<and> telnet_ok (cn_telnet (st_env st))"
  "cn_flow (upd_cn (\<lambda>c. c\<lparr>cn_telnet := tr\<rparr>) st) \<longleftrightarrow>
     flowing st \<and> length (st_rx_buf st) = 128 \<and> cli_ok (cn_cli_intf (st_env st)) \<and> telnet_ok tr"
  "cn_flow st \<longleftrightarrow>
     flowing st \<and> length (st_rx_buf st) = 128 \<and> cli_ok (cn_cli_intf (st_env st)) \<and> telnet_ok (cn_telnet (st_env st))"
  by (auto simp: cn_flow_def cn_ok_def flowing_def)

lemma one_byte: "cli_handle_rx put users intf [d] 1 = cli_rx_byte put users intf d"
  using cli_handle_rx_all [of put users intf "[d]"] by simp

lemma cn_type_byte:
  assumes os: "roomy os" and st: "cn_flow st" and d: "d \<noteq> 0"
  shows "map_option cn_abs (cn_type os [] d st) = abs_type d (cn_abs st)
    \<and> (\<forall>st'. cn_type os [] d st = Some st' \<longrightarrow> cn_flow st' \<and> cn_telnet (st_env st') = cn_telnet (st_env st))"
proof -
  let ?i = "cli_attach (cn_cli_intf (st_env st)) st"
  let ?spec = "cli_spec_byte cli_wire (\<lambda>_ _ e. e) [] (cli_line (cn_cli_intf (st_env st)), st) d"
  have i: "cli_ok ?i" "flowing (ci_env ?i)" using st by (simp_all add: cn_flow_simps)
  note ref = cli_terminal.byte [OF roomy_terminal [OF os] i, of d,
      unfolded cli_terminal.refines_def [OF roomy_terminal [OF os]]]
  have hom: "map_option (map_prod id st_wire) ?spec = abs_type d (cn_abs st)"
    using cli_spec_byte_hom [of st_wire cli_wire abs_wire] d by (simp add: abs_type_def cn_abs_def abs_wire_def)
  show ?thesis
  proof (cases ?spec)
    case None
    with ref hom d show ?thesis by (auto simp: cn_type_def cn_handle_rx_def one_byte)
  next
    case (Some p)
    then obtain l e where p: "?spec = Some (l, e)" by (cases p) auto
    then obtain intf where 1: "cli_rx_byte (cli_put_tx_data os) [] ?i d = Some intf" "cli_ok intf" "flowing e"
        "cli_line intf = l" "ci_env intf = e" using ref by auto
    have e: "st_env e = st_env st" "st_rx_buf e = st_rx_buf st"
      using cli_spec_byte_inv [OF _ _ p, of "\<lambda>e. st_env e = st_env st"]
        cli_spec_byte_inv [OF _ _ p, of "\<lambda>e. st_rx_buf e = st_rx_buf st"] by auto
    let ?st = "upd_cn (\<lambda>c. c\<lparr>cn_cli_intf := cli_attach intf ()\<rparr>) e"
    have "cn_type os [] d st = Some ?st"
      using 1 d by (simp add: cn_type_def cn_handle_rx_def one_byte)
    moreover have "cn_flow ?st" using 1 e st by (simp add: cn_flow_simps)
    moreover have "abs_type d (cn_abs st) = Some (l, st_wire e)" using hom p by simp
    ultimately show ?thesis using 1 e by (simp add: cn_abs_def)
  qed
qed

lemma cn_type_sim:
  assumes "roomy os" "cn_flow st"
  shows "map_option cn_abs (cn_type os [] d st) = abs_type d (cn_abs st)"
    and "cn_type os [] d st = Some st' \<Longrightarrow> cn_flow st' \<and> cn_telnet (st_env st') = cn_telnet (st_env st)"
proof -
  show "map_option cn_abs (cn_type os [] d st) = abs_type d (cn_abs st)"
    using cn_type_byte [OF assms, of d] by (cases "d = 0") (simp add: cn_type_def abs_type_def, blast)
  show "cn_flow st' \<and> cn_telnet (st_env st') = cn_telnet (st_env st)" if "cn_type os [] d st = Some st'"
    using cn_type_byte [OF assms, of d] assms(2) that by (cases "d = 0") (simp add: cn_type_def, blast)
qed

text \<open>The reader over a connection, byte by byte.\<close>

lemma telnet_cn_step:
  assumes os: "roomy os" and env: "cn_flow (tr_env tr)" and ok: "telnet_ok tr"
  shows "map_option (telnet_map cn_abs) (telnet_reader_state_machine (telnet_rx_databack os []) telnet_rx_cmdback tr d)
      = telnet_reader_state_machine abs_databack abs_cmdback (telnet_map cn_abs tr) d"
    and "telnet_reader_state_machine (telnet_rx_databack os []) telnet_rx_cmdback tr d = Some tr'
      \<Longrightarrow> cn_flow (tr_env tr') \<and> telnet_ok tr'"
proof -
  show "map_option (telnet_map cn_abs) (telnet_reader_state_machine (telnet_rx_databack os []) telnet_rx_cmdback tr d)
      = telnet_reader_state_machine abs_databack abs_cmdback (telnet_map cn_abs tr) d"
  proof (rule telnet_step_map)
    fix d
    let ?tr = "telnet_reader_move_state tr telnet_reader_state_start"
    have "tr_env ?tr = tr_env tr" by (simp add: telnet_reader_move_state_def)
    then show "map_option (telnet_map cn_abs) (telnet_rx_databack os [] ?tr d) = abs_databack (telnet_map cn_abs ?tr) d"
      using cn_type_sim(1) [OF os env, of d, symmetric]
      by (cases "cn_type os [] d (tr_env tr)") (simp_all add: telnet_owner.data abs_databack_def telnet_map_simps)
  next
    fix v
    show "map_option (telnet_map cn_abs) (telnet_rx_cmdback (tr\<lparr>tr_opt := v\<rparr>)) = abs_cmdback (telnet_map cn_abs (tr\<lparr>tr_opt := v\<rparr>))"
      by (simp add: telnet_rx_cmdback_def abs_cmdback_def)
  qed
  show "cn_flow (tr_env tr') \<and> telnet_ok tr'"
    if "telnet_reader_state_machine (telnet_rx_databack os []) telnet_rx_cmdback tr d = Some tr'"
    using telnet_owner.step_keeps [of cn_flow, OF _ _ _ ok env] cn_type_sim(2) [OF os] that
    unfolding telnet_owner.step_def by blast
qed

lemma telnet_cn_run:
  assumes "roomy os" "cn_flow (tr_env tr)" "telnet_ok tr"
  shows "map_option (telnet_map cn_abs) (foldo (telnet_reader_state_machine (telnet_rx_databack os []) telnet_rx_cmdback) tr bs)
      = foldo (telnet_reader_state_machine abs_databack abs_cmdback) (telnet_map cn_abs tr) bs
    \<and> (\<forall>tr'. foldo (telnet_reader_state_machine (telnet_rx_databack os []) telnet_rx_cmdback) tr bs = Some tr'
      \<longrightarrow> cn_flow (tr_env tr') \<and> telnet_ok tr')"
proof (intro conjI allI impI)
  let ?I = "\<lambda>tr. cn_flow (tr_env tr) \<and> telnet_ok tr"
  show "map_option (telnet_map cn_abs) (foldo (telnet_reader_state_machine (telnet_rx_databack os []) telnet_rx_cmdback) tr bs)
      = foldo (telnet_reader_state_machine abs_databack abs_cmdback) (telnet_map cn_abs tr) bs"
    by (rule foldo_map [where I = ?I]) (use telnet_cn_step [OF assms(1)] assms in blast)+
  fix tr' assume "foldo (telnet_reader_state_machine (telnet_rx_databack os []) telnet_rx_cmdback) tr bs = Some tr'"
  from this show "cn_flow (tr_env tr')" "telnet_ok tr'"
    using foldo_keeps [of bs ?I _ tr tr'] telnet_cn_step(2) [OF assms(1)] assms by blast+
qed

text \<open>One read event with some bytes.\<close>

definition cn_read :: "(cli_stream \<Rightarrow> kernel_write) \<Rightarrow> cli_stream cli_command list \<Rightarrow> cli_stream \<Rightarrow> u8 list \<Rightarrow> cli_stream option" where
  "cn_read os users st c =
     stream_watcher_callback (cli_telnet_handle_stream_event os users) (Read_data c) (os st) st watcher_event_rx"

lemma cn_read_chunk:
  assumes os: "roomy os" and st: "cn_flow st" and c: "c \<noteq> []" "length c \<le> 128"
  shows "map_option cn_reader (cn_read os [] st c)
      = foldo (telnet_reader_state_machine abs_databack abs_cmdback) (cn_reader st) c
    \<and> (\<forall>st'. cn_read os [] st c = Some st' \<longrightarrow> cn_flow st')"
proof -
  let ?buf = "c @ drop (length c) (st_rx_buf st)"
  let ?st = "st\<lparr>st_rx_buf := ?buf, st_rx_data_len := int (length c)\<rparr>"
  let ?tr = "telnet_attach (cn_telnet (st_env st)) ?st"
  let ?run = "foldo (telnet_reader_state_machine (telnet_rx_databack os []) telnet_rx_cmdback) ?tr c"
  have len: "length (st_rx_buf st) = 128" using st by (simp add: cn_flow_simps)
  have "c_memcpy (st_rx_buf st) 0 c 0 (int (length c)) = Some ?buf"
    using c_memcpy_in [of 0 "length c" "st_rx_buf st" 0 c] c len by simp
  then have ev: "cn_read os [] st c = map_option (\<lambda>tr. upd_cn (\<lambda>c. c\<lparr>cn_telnet := telnet_attach tr ()\<rparr>) (tr_env tr)) ?run"
    using c by (cases ?run) (simp_all add: cn_read_def stream_watcher_callback_def cli_telnet_handle_stream_event_def
        telnet_reader_feed_def mem_slice_def)
  have "cn_flow ?st" using st len c by (simp add: cn_flow_simps flowing_def stream_inv_def st_queue_def)
  then have run: "map_option (telnet_map cn_abs) ?run = foldo (telnet_reader_state_machine abs_databack abs_cmdback) (telnet_map cn_abs ?tr) c"
      "\<And>tr'. ?run = Some tr' \<Longrightarrow> cn_flow (tr_env tr') \<and> telnet_ok tr'"
    using telnet_cn_run [OF os, of ?tr c] st by (simp_all add: cn_flow_simps)
  have "telnet_map cn_abs ?tr = cn_reader st" by (simp add: telnet_map_def cn_reader_def cn_abs_def)
  moreover have "cn_reader (upd_cn (\<lambda>c. c\<lparr>cn_telnet := telnet_attach tr ()\<rparr>) (tr_env tr)) = telnet_map cn_abs tr" for tr
    by (simp add: telnet_map_def cn_reader_def cn_abs_def)
  ultimately show ?thesis
    using run by (auto simp: ev cn_flow_simps option.map_comp comp_def)
qed

lemma cn_read_chunks:
  assumes "roomy os" "cn_flow st" "\<forall>c \<in> set chunks. c \<noteq> [] \<and> length c \<le> 128"
  shows "map_option cn_reader (foldo (cn_read os []) st chunks)
      = foldo (telnet_reader_state_machine abs_databack abs_cmdback) (cn_reader st) (concat chunks)
    \<and> (\<forall>st'. foldo (cn_read os []) st chunks = Some st' \<longrightarrow> cn_flow st')"
proof -
  have c: "map_option cn_reader (cn_read os [] st c) = foldo (telnet_reader_state_machine abs_databack abs_cmdback) (cn_reader st) c"
      "\<And>st'. cn_read os [] st c = Some st' \<Longrightarrow> cn_flow st'" if "c \<in> set chunks" "cn_flow st" for c st
    using cn_read_chunk [OF assms(1) that(2)] assms(3) that(1) by auto
  have "map_option cn_reader (foldo (cn_read os []) st chunks)
      = foldo (foldo (telnet_reader_state_machine abs_databack abs_cmdback)) (cn_reader st) chunks"
    by (rule foldo_map [where I = cn_flow]) (use c assms(2) in blast)+
  moreover have "cn_flow st'" if "foldo (cn_read os []) st chunks = Some st'" for st'
    by (rule foldo_keeps [where I = cn_flow, OF _ _ that]) (use c assms(2) in blast)+
  ultimately show ?thesis by (simp add: foldo_concat)
qed

text \<open>The data bytes of a sequence of Telnet items that reach the command line.\<close>

fun typed_bytes :: "telnet_item list \<Rightarrow> u8 list" where
  "typed_bytes [] = []"
| "typed_bytes (Telnet_data d # is) = (if d = 0 then typed_bytes is else d # typed_bytes is)"
| "typed_bytes (_ # is) = typed_bytes is"

lemma serve_typed:
  "foldo (telnet_serve abs_type (\<lambda>_ _. Some) (\<lambda>_. Some)) st is = cli_spec abs_wire (\<lambda>_ _ e. e) [] st (typed_bytes is)"
  by (induction "is" arbitrary: st rule: typed_bytes.induct) (auto simp: cli_spec_def abs_type_def split: bind_splits)

section \<open>A new connection\<close>

lemma stream_init_frame:
  "stream_init_with_fd b s fd rx n t = Some s' \<Longrightarrow> st_env s' = st_env s \<and> st_rx_buf s' = rx"
  by (auto simp: stream_init_with_fd_def Let_def simp del: bind_option_Some_iff split: Option.bind_split_asm prod.split_asm)

text \<open>The memory of a connection: arrays of the declared sizes, any contents.\<close>

definition cn_memory :: "cli_stream \<Rightarrow> bool" where
  "cn_memory st \<longleftrightarrow> length (st_rx_buf st) = 128 \<and> length (ci_cmd_buffer (cn_cli_intf (st_env st))) = 252
     \<and> length (ci_print_buffer (cn_cli_intf (st_env st))) = 513 \<and> length (tr_buffer (cn_telnet (st_env st))) = 32"

definition telnet_greeting :: "u8 list" where
  "telnet_greeting = [IAC, WILL, 3, IAC, WILL, 1]"

text \<open>The connection when its dummy carriage return is handled.\<close>

lemma connection_set_up:
  assumes os: "roomy os" and mem: "length mem = 128" and st: "cn_memory st"
  obtains st1 where
    "alloc_cli_connection os [] (Some st) (Some mem) server sd
      = do { st \<leftarrow> cn_handle_rx os [] [13] 1 st1; Some (server\<lparr>cs_conns := cs_conns server @ [st]\<rparr>) }"
    "flowing st1" "length (st_rx_buf st1) = 128" "telnet_ok (cn_telnet (st_env st1))"
    "tr_state (cn_telnet (st_env st1)) = telnet_reader_state_start" "st_wire st1 = st_wire st @ telnet_greeting"
    "ci_cmd_buffer (cn_cli_intf (st_env st1)) = ci_cmd_buffer (cn_cli_intf (st_env st))"
    "ci_cmd_buffer_ndx (cn_cli_intf (st_env st1)) = ci_cmd_buffer_ndx (cn_cli_intf (st_env st))"
    "length (ci_print_buffer (cn_cli_intf (st_env st1))) = 513"
proof -
  let ?st0 = "upd_cn (\<lambda>c. c\<lparr>cn_le := True\<rparr>) st"
  obtain sa where a: "stream_init_with_fd (Some mem) ?st0 sd (st_rx_buf ?st0) 128 128 = Some sa" "stream_inv sa"
      "st_queue sa = []" "st_wire sa = st_wire st" "st_env sa = st_env ?st0" "st_rx_buf sa = st_rx_buf st"
    using stream_init_spec [of mem ?st0 sd "st_rx_buf ?st0" 128] mem stream_init_frame by fastforce
  define sb where "sb = upd_cn (\<lambda>c. c\<lparr>cn_telnet := telnet_reader_init (cn_telnet c)\<rparr>)
    (stream_start (upd_cn (\<lambda>c. c\<lparr>cn_cli_intf := cli_intf_register (cn_cli_intf c)\<rparr>) sa))"
  have start: "stream_inv (stream_start s)" if "stream_inv s" for s :: cli_stream
    using that watcher_start_spec by (simp add: stream_start_def stream_inv_def)
  have inv: "st_queue (stream_start s) = st_queue s" "st_env (stream_start s) = st_env s"
    "st_wire (stream_start s) = st_wire s" "st_rx_buf (stream_start s) = st_rx_buf s" for s :: cli_stream
    by (simp_all add: stream_start_def st_queue_def)
  have b: "flowing sb" "st_wire sb = st_wire st" "st_rx_buf sb = st_rx_buf st"
    using a start by (simp_all add: sb_def flowing_def inv)
  have ses: "init_telnet_session os sb = Some (cli_wire telnet_greeting sb)"
    using stream_write_roomy [OF os b(1), of 6 telnet_greeting] by (simp add: init_telnet_session_def telnet_greeting_def)
  show thesis
  proof (rule that [of "cli_wire telnet_greeting sb"])
    show "alloc_cli_connection os [] (Some st) (Some mem) server sd
      = do { st \<leftarrow> cn_handle_rx os [] [13] 1 (cli_wire telnet_greeting sb); Some (server\<lparr>cs_conns := cs_conns server @ [st]\<rparr>) }"
      using ses a(1) by (simp add: alloc_cli_connection_def Let_def sb_def)
  qed (use a b st in \<open>simp_all add: sb_def inv cn_memory_def telnet_ok_def TELNET_READER_BUFFER_SIZE_def telnet_reader_init_def cli_intf_register_def\<close>)
qed

section \<open>Properties\<close>

text \<open>
  C6: A Telnet connection end to end, without commands of the application's own, as in the demonstration, and as
  long as the kernel takes at least 511 bytes at every write (when it takes less, output may stall:
  \<open>stream_short_write_stalls\<close>): the bytes of Telnet items, subnegotiations of at most 32 bytes without byte 255 among
  them, cut into reads of at most 128 bytes in any way, go through the reader, the command line and the stream so that
  the line being typed and everything sent are those of the abstract command line on the items' non-NUL data bytes;
  options, subnegotiations and unknown commands have no effect, and the outcome is undefined exactly where the abstract
  one is.
\<close>

theorem cli_telnet_end_to_end:
  assumes "roomy os" "cn_flow st" "tr_state (cn_telnet (st_env st)) = telnet_reader_state_start"
    and "\<forall>i \<in> set is. telnet_item_ok i" "concat chunks = concat (map telnet_encode is)"
    and "\<forall>c \<in> set chunks. c \<noteq> [] \<and> length c \<le> 128"
  shows "case cli_spec abs_wire (\<lambda>_ _ e. e) [] (cli_line (cn_cli_intf (st_env st)), st_wire st) (typed_bytes is) of
      None \<Rightarrow> foldo (cn_read os []) st chunks = None
    | Some (line, wire) \<Rightarrow> \<exists>st'. foldo (cn_read os []) st chunks = Some st' \<and> cn_flow st'
        \<and> cli_line (cn_cli_intf (st_env st')) = line \<and> st_wire st' = wire
        \<and> tr_state (cn_telnet (st_env st')) = telnet_reader_state_start"
proof -
  have "telnet_ok (cn_reader st)" "tr_state (cn_reader st) = telnet_reader_state_start"
    using assms(2,3) by (simp_all add: cn_reader_def cn_flow_simps)
  from abs_owner.items [OF this assms(4)] cn_read_chunks [OF assms(1,2,6)]
  show ?thesis
    unfolding abs_owner.ends_def abs_owner.step_def serve_typed assms(5)
    by (auto simp: cn_reader_def cn_abs_def split: option.splits)
qed

text \<open>The memory of a connection with a given line in it.\<close>

definition stale_connection :: "u8 \<Rightarrow> u8 list \<Rightarrow> cli_stream" where
  "stale_connection n line = \<lparr>st_watcher = watcher_init_with_fd 3, st_rx_buf = replicate 128 0, st_rx_buf_size = 0,
     st_rx_data_len = 0, st_tx_buf = fst (circ_buffer_init None 0), st_wire = [], st_open = False,
     st_env = \<lparr>cn_cli_intf = \<lparr>ci_cmd_buffer_ndx = n, ci_cmd_buffer = line @ replicate (252 - length line) 0,
         ci_print_buffer = replicate 513 0, ci_le = False, ci_env = ()\<rparr>,
       cn_telnet = \<lparr>tr_buffer = replicate 32 0, tr_buf_ndx = 0, tr_state = telnet_reader_state_start,
         tr_command = 0, tr_opt = 0, tr_env = ()\<rparr>, cn_le = False\<rparr>\<rparr>"

lemma stale_connection_simps:
  "length line \<le> 252 \<Longrightarrow> cn_memory (stale_connection n line)" "st_wire (stale_connection n line) = []"
  "ci_cmd_buffer_ndx (cn_cli_intf (st_env (stale_connection n line))) = n"
  "ci_cmd_buffer (cn_cli_intf (st_env (stale_connection n line))) = line @ replicate (252 - length line) 0"
  by (simp_all add: stale_connection_def cn_memory_def)

lemma open_connection:
  obtains st where "cn_flow st" "tr_state (cn_telnet (st_env st)) = telnet_reader_state_start"
    "cli_line (cn_cli_intf (st_env st)) = []" "st_wire st = []"
proof -
  obtain st where "stream_init_with_fd (Some (replicate 128 0)) (stale_connection 0 []) 3 (replicate 128 0) 128 128 = Some st"
      "stream_inv st" "st_queue st = []" "st_wire st = []"
    using stream_init_spec [of "replicate 128 0" "stale_connection 0 []" 3 "replicate 128 0" 128]
    by (auto simp: stale_connection_simps)
  moreover from stream_init_frame [OF this(1)] have "st_env st = st_env (stale_connection 0 [])" "length (st_rx_buf st) = 128"
    by simp_all
  ultimately show thesis
    by (intro that [of st])
      (simp_all add: cn_flow_simps flowing_def stale_connection_def cli_ok_def telnet_ok_def TELNET_READER_BUFFER_SIZE_def cli_line_def)
qed

lemma roomy_kernel: "roomy (\<lambda>_. Room 600)"
  by (auto simp: roomy_def)

lemma cli_telnet_end_to_end_witness:
  "\<exists>st st'. cn_flow st \<and> foldo (cn_read (\<lambda>_. Room 600) []) st [[IAC, DO], [3, 32, 118, 49, 8], [13, 0, 120]] = Some st' \<and> cn_flow st'
    \<and> cli_line (cn_cli_intf (st_env st')) = [120]
    \<and> st_wire st' = [32, 118, 49, 8, 32, 8] @ cli_unknown_text @ [118] @ CLI_EOL @ cli_prompt_text @ [120]
    \<and> tr_state (cn_telnet (st_env st')) = telnet_reader_state_start"
proof -
  obtain st where st: "cn_flow st" "tr_state (cn_telnet (st_env st)) = telnet_reader_state_start"
      "cli_line (cn_cli_intf (st_env st)) = []" "st_wire st = []" by (rule open_connection)
  let ?is = "Telnet_option DO 3 # map Telnet_data [32, 118, 49, 8, 13, 0, 120]"
  have spec: "cli_spec abs_wire (\<lambda>_ _ e. e) [] ([], []) (typed_bytes ?is)
      = Some ([120], [32, 118, 49, 8, 32, 8] @ cli_unknown_text @ [118] @ CLI_EOL @ cli_prompt_text @ [120])"
    by (simp add: cli_spec_def cli_spec_byte_def cli_dispatch_def line_words_def blank_def ascii_def abs_wire_def)
  show ?thesis
    using cli_telnet_end_to_end [OF roomy_kernel st(1,2), of ?is "[[IAC, DO], [3, 32, 118, 49, 8], [13, 0, 120]]"] st(1)
    unfolding st(3,4) spec by (force simp: option_command_def telnet_bytes)
qed

text \<open>A new connection never sets its \<open>cmd_buffer_ndx\<close>: the prompt is shown by handling a carriage
  return, so what \<open>malloc\<close>'s memory holds is executed as a command line if the stale index is below 252,
  and if it is not the terminating NUL is stored outside \<open>cmd_buffer\<close>. In the first case the connection
  is well-formed afterwards, with an empty line.\<close>

theorem cli_connection_runs_stale_line:
  assumes "roomy os" "length mem = 128" "cn_memory st"
  defines "n \<equiv> unat (ci_cmd_buffer_ndx (cn_cli_intf (st_env st)))"
  shows "if n < 252
    then \<exists>st'. alloc_cli_connection os [] (Some st) (Some mem) server sd = Some (server\<lparr>cs_conns := cs_conns server @ [st']\<rparr>)
      \<and> cn_flow st' \<and> cli_line (cn_cli_intf (st_env st')) = [] \<and> tr_state (cn_telnet (st_env st')) = telnet_reader_state_start
      \<and> st_wire st' = cli_dispatch abs_wire (\<lambda>_ _ e. e) []
          (takeWhile (\<lambda>c. c \<noteq> 0) (take n (ci_cmd_buffer (cn_cli_intf (st_env st))))) (st_wire st @ telnet_greeting) @ cli_prompt_text
    else alloc_cli_connection os [] (Some st) (Some mem) server sd = None"
proof -
  obtain st1 where 1: "alloc_cli_connection os [] (Some st) (Some mem) server sd
      = do { st \<leftarrow> cn_handle_rx os [] [13] 1 st1; Some (server\<lparr>cs_conns := cs_conns server @ [st]\<rparr>) }"
    "flowing st1" "length (st_rx_buf st1) = 128" "telnet_ok (cn_telnet (st_env st1))"
    "tr_state (cn_telnet (st_env st1)) = telnet_reader_state_start" "st_wire st1 = st_wire st @ telnet_greeting"
    "ci_cmd_buffer (cn_cli_intf (st_env st1)) = ci_cmd_buffer (cn_cli_intf (st_env st))"
    "ci_cmd_buffer_ndx (cn_cli_intf (st_env st1)) = ci_cmd_buffer_ndx (cn_cli_intf (st_env st))"
    "length (ci_print_buffer (cn_cli_intf (st_env st1))) = 513"
    by (rule connection_set_up [OF assms(1-3)])
  have type: "cn_type os [] 13 st1 = cn_handle_rx os [] [13] 1 st1" by (simp add: cn_type_def)
  have len: "length (ci_cmd_buffer (cn_cli_intf (st_env st))) = 252" using assms(3) by (simp add: cn_memory_def)
  show ?thesis
  proof (cases "n < 252")
    case True
    then have flow: "cn_flow st1" using 1 len by (simp add: cn_flow_simps cli_ok_def n_def)
    have line: "cli_line (cn_cli_intf (st_env st1)) = take n (ci_cmd_buffer (cn_cli_intf (st_env st)))"
      using 1 by (simp add: cli_line_def n_def)
    have "abs_type 13 (cn_abs st1) = Some ([], cli_dispatch abs_wire (\<lambda>_ _ e. e) []
        (takeWhile (\<lambda>c. c \<noteq> 0) (take n (ci_cmd_buffer (cn_cli_intf (st_env st))))) (st_wire st @ telnet_greeting) @ cli_prompt_text)"
      using True len by (simp add: abs_type_def cn_abs_def cli_spec_byte_def line 1 abs_wire_def [of cli_prompt_text])
    then obtain st' where "cn_handle_rx os [] [13] 1 st1 = Some st'" "cn_abs st' = ([], cli_dispatch abs_wire (\<lambda>_ _ e. e) []
        (takeWhile (\<lambda>c. c \<noteq> 0) (take n (ci_cmd_buffer (cn_cli_intf (st_env st))))) (st_wire st @ telnet_greeting) @ cli_prompt_text)"
      using cn_type_sim(1) [OF assms(1) flow, of 13] unfolding type by (auto simp: map_option_case split: option.split_asm)
    moreover from this have "cn_flow st'" "cn_telnet (st_env st') = cn_telnet (st_env st1)"
      using cn_type_sim(2) [OF assms(1) flow, of 13 st'] unfolding type by auto
    ultimately show ?thesis using True 1 by (auto simp: cn_abs_def)
  next
    case False
    then have "cn_handle_rx os [] [13] 1 st1 = None"
      using len by (simp add: cn_handle_rx_def one_byte cli_rx_byte_def CLI_EOL_CHAR_def mem_store_def n_def 1)
    then show ?thesis using False 1 by simp
  qed
qed

lemma cli_connection_runs_stale_line_witness:
  "\<forall>server. \<exists>st'. alloc_cli_connection (\<lambda>_. Room 600) [] (Some (stale_connection 3 [32, 104, 105])) (Some (replicate 128 0)) server 4
      = Some (server\<lparr>cs_conns := cs_conns server @ [st']\<rparr>)
    \<and> st_wire st' = telnet_greeting @ cli_unknown_text @ [104, 105] @ CLI_EOL @ cli_prompt_text"
proof
  fix server
  show "\<exists>st'. alloc_cli_connection (\<lambda>_. Room 600) [] (Some (stale_connection 3 [32, 104, 105])) (Some (replicate 128 0)) server 4
      = Some (server\<lparr>cs_conns := cs_conns server @ [st']\<rparr>)
    \<and> st_wire st' = telnet_greeting @ cli_unknown_text @ [104, 105] @ CLI_EOL @ cli_prompt_text"
    using cli_connection_runs_stale_line [OF roomy_kernel, of "replicate 128 0" "stale_connection 3 [32, 104, 105]" server 4]
    by (auto simp: stale_connection_simps cli_dispatch_def line_words_def blank_def ascii_def abs_wire_def)
qed

end
