(* ===== verification/Cli_Serial.thy ===== *)
theory Cli_Serial
  imports Cli_Telnet
begin

text \<open>
  \<open>src/cli/cli_serial.c\<close>: the command line over a serial port, and \<open>cli_init\<close> of \<open>src/cli/cli.c\<close>, which
  starts both interfaces. The serial interface is a static object, so its index starts at 0. The
  descriptor \<open>serial_init\<close> returns is an input.
\<close>

section \<open>State and operations\<close>

record cli_serial_if =
  sf_cli_intf :: "unit cli_intf"

type_synonym serial_stream = "cli_serial_if stream"

definition cli_serial_put_tx_data :: "(serial_stream \<Rightarrow> kernel_write) \<Rightarrow> serial_stream cli_put" where
  "cli_serial_put_tx_data os cintf data len = do {
     (st, _) \<leftarrow> stream_write (os (ci_env cintf)) (ci_env cintf) data len;
     Some (cintf\<lparr>ci_env := st\<rparr>) }"

definition upd_sf :: "(cli_serial_if \<Rightarrow> cli_serial_if) \<Rightarrow> serial_stream \<Rightarrow> serial_stream" where
  "upd_sf f st = st\<lparr>st_env := f (st_env st)\<rparr>"

text \<open>End of file and errors are traced only.\<close>

definition cli_serial_handle_stream_event ::
    "(serial_stream \<Rightarrow> kernel_write) \<Rightarrow> serial_stream cli_command list \<Rightarrow> cli_serial_if stream_callback" where
  "cli_serial_handle_stream_event os users st evt =
     (case evt of
        stream_event_rx \<Rightarrow> do {
          intf \<leftarrow> cli_handle_rx (cli_serial_put_tx_data os) users (cli_attach (sf_cli_intf (st_env st)) st)
            (st_rx_buf st) (st_rx_data_len st);
          Some (upd_sf (\<lambda>c. c\<lparr>sf_cli_intf := cli_attach intf ()\<rparr>) (ci_env intf)) }
      | stream_event_eof \<Rightarrow> Some st
      | stream_event_err \<Rightarrow> Some st
      | stream_event_tx \<Rightarrow> Some st)"

definition cli_serial_initialize :: "u8 list option \<Rightarrow> int \<Rightarrow> serial_stream \<Rightarrow> serial_stream option" where
  "cli_serial_initialize block fd st =
     (if fd < 0 then Some st
      else do {
        st \<leftarrow> stream_init_with_fd block st fd (st_rx_buf st) 128 1024;
        let st = upd_sf (\<lambda>c. c\<lparr>sf_cli_intf := cli_intf_register (sf_cli_intf c)\<rparr>) st;
        Some (stream_start st) })"

definition cli_serial_intf_init :: "u8 list option \<Rightarrow> int \<Rightarrow> serial_stream \<Rightarrow> serial_stream option" where
  "cli_serial_intf_init block fd st = cli_serial_initialize block fd st"

text \<open>The command line's globals: the application's commands, the Telnet server and the serial interface.\<close>

record 'a cli_globals =
  cg_user_commands :: "'a list"
  cg_num_user_commands :: int
  cg_telnet :: cli_server
  cg_serial :: serial_stream

definition cli_init ::
    "listen_outcome \<Rightarrow> u8 list option \<Rightarrow> int \<Rightarrow> 'a list \<Rightarrow> int \<Rightarrow> 'a cli_globals \<Rightarrow> 'a cli_globals option" where
  "cli_init out block fd cmds num_cmds g = do {
     let g = g\<lparr>cg_user_commands := cmds, cg_num_user_commands := num_cmds\<rparr>;
     telnet \<leftarrow> cli_telnet_intf_init out (cg_telnet g);
     serial \<leftarrow> cli_serial_intf_init block fd (cg_serial g);
     Some (g\<lparr>cg_telnet := telnet, cg_serial := serial\<rparr>) }"

section \<open>The serial line is a terminal\<close>

lemma serial_put: "cli_serial_put_tx_data = cli_put_tx_data"
  by (intro ext) (simp add: cli_serial_put_tx_data_def cli_put_tx_data_def)

interpretation serial_terminal: cli_terminal "cli_serial_put_tx_data os" "[]" "cli_tx os" "\<lambda>_ _ e. e" stream_inv for os
  by unfold_locales (auto simp: serial_put cli_put_total cli_tx_inv)

lemma upd_sf_simps [simp]:
  "st_wire (upd_sf f st) = st_wire st" "st_rx_buf (upd_sf f st) = st_rx_buf st" "st_env (upd_sf f st) = f (st_env st)"
  "flowing (upd_sf f st) = flowing st"
  by (simp_all add: upd_sf_def flowing_def stream_inv_def st_queue_def)

definition serial_read :: "(serial_stream \<Rightarrow> kernel_write) \<Rightarrow> serial_stream cli_command list \<Rightarrow> serial_stream \<Rightarrow> u8 list \<Rightarrow> serial_stream option" where
  "serial_read os users st c =
     stream_watcher_callback (cli_serial_handle_stream_event os users) (Read_data c) (os st) st watcher_event_rx"

definition serial_ok :: "serial_stream \<Rightarrow> bool" where
  "serial_ok st \<longleftrightarrow> flowing st \<and> length (st_rx_buf st) = 128 \<and> cli_ok (sf_cli_intf (st_env st))"

text \<open>One read: the line and the wire are those of the abstract command line.\<close>

lemma cli_spec_wire:
  "map_option (map_prod id st_wire) (cli_spec cli_wire (\<lambda>_ _ e. e) [] (l, e) bs) = cli_spec abs_wire (\<lambda>_ _ e. e) [] (l, st_wire e) bs"
proof -
  have "map_option (map_prod id st_wire) (foldo (cli_spec_byte cli_wire (\<lambda>_ _ e. e) []) (l, e) bs)
      = foldo (cli_spec_byte abs_wire (\<lambda>_ _ e. e) []) (map_prod id st_wire (l, e)) bs"
  proof (rule foldo_map [where I = "\<lambda>_. True"])
    fix p :: "u8 list \<times> 'a stream" and b
    show "map_option (map_prod id st_wire) (cli_spec_byte cli_wire (\<lambda>_ _ e. e) [] p b)
        = cli_spec_byte abs_wire (\<lambda>_ _ e. e) [] (map_prod id st_wire p) b"
      using cli_spec_byte_hom [of st_wire cli_wire abs_wire _ "fst p" "snd p" b "\<lambda>_ _ e. e"]
      by (cases p) (simp add: abs_wire_def)
  qed simp_all
  then show ?thesis by (simp add: cli_spec_def)
qed

lemma cli_spec_frame:
  assumes "cli_spec cli_wire (\<lambda>_ _ e. e) [] (l, e) bs = Some (l', e')"
  shows "st_rx_buf e' = st_rx_buf e"
  using foldo_keeps [of bs "\<lambda>p. st_rx_buf (snd p) = st_rx_buf e" "cli_spec_byte cli_wire (\<lambda>_ _ e. e) []" "(l, e)" "(l', e')"] assms
    cli_spec_byte_inv [of "\<lambda>s. st_rx_buf s = st_rx_buf e" cli_wire]
  by (force simp: cli_spec_def)

theorem serial_read_refines:
  assumes "roomy os" "serial_ok st" "c \<noteq> []" "length c \<le> 128"
  shows "case cli_spec abs_wire (\<lambda>_ _ e. e) [] (cli_line (sf_cli_intf (st_env st)), st_wire st) c of
      None \<Rightarrow> serial_read os [] st c = None
    | Some (line, wire) \<Rightarrow> \<exists>st'. serial_read os [] st c = Some st' \<and> serial_ok st'
        \<and> cli_line (sf_cli_intf (st_env st')) = line \<and> st_wire st' = wire"
proof -
  let ?buf = "c @ drop (length c) (st_rx_buf st)"
  let ?st = "st\<lparr>st_rx_buf := ?buf, st_rx_data_len := int (length c)\<rparr>"
  let ?i = "cli_attach (sf_cli_intf (st_env st)) ?st"
  let ?l = "cli_line (sf_cli_intf (st_env st))"
  let ?spec = "cli_spec cli_wire (\<lambda>_ _ e. e) [] (?l, ?st) c"
  let ?run = "foldo (cli_rx_byte (cli_put_tx_data os) []) ?i c"
  have len: "length (st_rx_buf st) = 128" using assms(2) by (simp add: serial_ok_def)
  have "c_memcpy (st_rx_buf st) 0 c 0 (int (length c)) = Some ?buf"
    using c_memcpy_in [of 0 "length c" "st_rx_buf st" 0 c] assms(4) len by simp
  then have ev: "serial_read os [] st c = map_option (\<lambda>i. upd_sf (\<lambda>c. c\<lparr>sf_cli_intf := cli_attach i ()\<rparr>) (ci_env i)) ?run"
    using assms(3) by (cases ?run) (simp_all add: serial_read_def stream_watcher_callback_def
        cli_serial_handle_stream_event_def cli_handle_rx_def mem_slice_def serial_put)
  have "cli_ok ?i" "flowing (ci_env ?i)"
    using assms(2) by (simp_all add: serial_ok_def flowing_def stream_inv_def st_queue_def)
  note ref = cli_terminal.bytes [OF roomy_terminal [OF assms(1)] this, of c,
      unfolded cli_terminal.refines_def [OF roomy_terminal [OF assms(1)]]]
  have wire: "map_option (map_prod id st_wire) ?spec = cli_spec abs_wire (\<lambda>_ _ e. e) [] (?l, st_wire st) c"
    by (simp add: cli_spec_wire)
  show ?thesis
  proof (cases ?spec)
    case None
    with ref wire ev show ?thesis by auto
  next
    case (Some p)
    then obtain l e where p: "?spec = Some (l, e)" by (cases p) auto
    then have "length (st_rx_buf e) = 128" using cli_spec_frame [OF p] len assms(4) by simp
    moreover have "cli_spec abs_wire (\<lambda>_ _ e. e) [] (?l, st_wire st) c = Some (l, st_wire e)"
      using wire p by simp
    ultimately show ?thesis using p ref ev by (auto simp: serial_ok_def)
  qed
qed

end
