(* ===== verification/Sbuf.thy ===== *)
theory Sbuf
  imports Kj_Prelude
begin

text \<open>
  \<open>src/utils/sbuf.c\<close>: a buffer to be written and read sequentially, with 8, 16 and 32-bit fields in
  network byte order. Indices are 32-bit and wrap; a signed field is the integer it stands for.
\<close>

section \<open>State and operations\<close>

record sbuf =
  sb_buf :: "u8 list"
  sb_len :: u32
  sb_data_len :: u32
  sb_write_ndx :: u32
  sb_read_ndx :: u32

definition sbuf_is_write_possible :: "sbuf \<Rightarrow> u32 \<Rightarrow> bool" where
  "sbuf_is_write_possible s len \<longleftrightarrow> sb_write_ndx s + len < sb_len s"

definition sbuf_is_read_possible :: "sbuf \<Rightarrow> u32 \<Rightarrow> bool" where
  "sbuf_is_read_possible s len \<longleftrightarrow> sb_read_ndx s + len < sb_data_len s"

definition sbuf_init :: "sbuf \<Rightarrow> u8 list \<Rightarrow> u32 \<Rightarrow> sbuf" where
  "sbuf_init s buf len = s\<lparr>sb_buf := buf, sb_len := len, sb_write_ndx := 0, sb_read_ndx := 0, sb_data_len := 0\<rparr>"

text \<open>One iteration of the copy loops.\<close>

definition sbuf_read_one :: "sbuf \<times> u8 list \<Rightarrow> nat \<Rightarrow> (sbuf \<times> u8 list) option" where
  "sbuf_read_one st i = (case st of (s, buf) \<Rightarrow> do {
     b \<leftarrow> mem_load (sb_buf s) (unat (sb_read_ndx s));
     buf \<leftarrow> mem_store buf i b;
     Some (s\<lparr>sb_read_ndx := sb_read_ndx s + 1\<rparr>, buf) })"

definition sbuf_write_one :: "u8 list \<Rightarrow> sbuf \<Rightarrow> nat \<Rightarrow> sbuf option" where
  "sbuf_write_one buf s i = do {
     b \<leftarrow> mem_load buf i;
     m \<leftarrow> mem_store (sb_buf s) (unat (sb_write_ndx s)) b;
     Some (s\<lparr>sb_buf := m, sb_write_ndx := sb_write_ndx s + 1\<rparr>) }"

definition sbuf_read :: "sbuf \<Rightarrow> u8 list \<Rightarrow> int \<Rightarrow> (sbuf \<times> u8 list \<times> bool) option" where
  "sbuf_read s buf len =
     (if \<not> sbuf_is_read_possible s (word_of_int len) then Some (s, buf, False)
      else do {
        (s, buf) \<leftarrow> foldo sbuf_read_one (s, buf) [0..<nat len];
        Some (s, buf, True) })"

definition sbuf_write :: "sbuf \<Rightarrow> u8 list \<Rightarrow> int \<Rightarrow> (sbuf \<times> bool) option" where
  "sbuf_write s buf len =
     (if \<not> sbuf_is_write_possible s (word_of_int len) then Some (s, False)
      else do {
        s \<leftarrow> foldo (sbuf_write_one buf) s [0..<nat len];
        Some (s, True) })"

text \<open>The bytes of a word in network order, as \<open>htons\<close> and \<open>htonl\<close> lay them out, and back.\<close>

definition net32 :: "u32 \<Rightarrow> u8 list" where
  "net32 d = [ucast (drop_bit 24 d), ucast (drop_bit 16 d), ucast (drop_bit 8 d), ucast d]"

definition host32 :: "u8 list \<Rightarrow> u32" where
  "host32 bs = push_bit 24 (ucast (bs ! 0)) OR push_bit 16 (ucast (bs ! 1)) OR push_bit 8 (ucast (bs ! 2)) OR ucast (bs ! 3)"

definition sbuf_write_u8 :: "sbuf \<Rightarrow> u8 \<Rightarrow> (sbuf \<times> bool) option" where
  "sbuf_write_u8 s data = sbuf_write s [data] 1"

definition sbuf_write_s8 :: "sbuf \<Rightarrow> int \<Rightarrow> (sbuf \<times> bool) option" where
  "sbuf_write_s8 s data = sbuf_write s [word_of_int data] 1"

definition sbuf_write_u16 :: "sbuf \<Rightarrow> u16 \<Rightarrow> (sbuf \<times> bool) option" where
  "sbuf_write_u16 s data = sbuf_write s [hi_byte data, lo_byte data] 2"

definition sbuf_write_s16 :: "sbuf \<Rightarrow> int \<Rightarrow> (sbuf \<times> bool) option" where
  "sbuf_write_s16 s data = sbuf_write s [hi_byte (word_of_int data), lo_byte (word_of_int data)] 2"

definition sbuf_write_u32 :: "sbuf \<Rightarrow> u32 \<Rightarrow> (sbuf \<times> bool) option" where
  "sbuf_write_u32 s data = sbuf_write s (net32 data) 4"

definition sbuf_write_s32 :: "sbuf \<Rightarrow> int \<Rightarrow> (sbuf \<times> bool) option" where
  "sbuf_write_s32 s data = sbuf_write s (net32 (word_of_int data)) 4"

text \<open>Reads leave the caller's variable (an argument here) alone when they fail.\<close>

definition sbuf_read_u8 :: "sbuf \<Rightarrow> u8 \<Rightarrow> (sbuf \<times> u8 \<times> bool) option" where
  "sbuf_read_u8 s data = do { (s, buf, ok) \<leftarrow> sbuf_read s [data] 1; Some (s, buf ! 0, ok) }"

definition sbuf_read_s8 :: "sbuf \<Rightarrow> int \<Rightarrow> (sbuf \<times> int \<times> bool) option" where
  "sbuf_read_s8 s data = do { (s, buf, ok) \<leftarrow> sbuf_read s [word_of_int data] 1; Some (s, sint (buf ! 0), ok) }"

definition sbuf_read_u16 :: "sbuf \<Rightarrow> u16 \<Rightarrow> (sbuf \<times> u16 \<times> bool) option" where
  "sbuf_read_u16 s data = do {
     (s, d, ok) \<leftarrow> sbuf_read s [0, 0] 2;
     Some (s, if ok then be16 (d ! 0) (d ! 1) else data, ok) }"

definition sbuf_read_s16 :: "sbuf \<Rightarrow> int \<Rightarrow> (sbuf \<times> int \<times> bool) option" where
  "sbuf_read_s16 s data = do {
     (s, d, ok) \<leftarrow> sbuf_read s [0, 0] 2;
     Some (s, if ok then sint (be16 (d ! 0) (d ! 1)) else data, ok) }"

definition sbuf_read_u32 :: "sbuf \<Rightarrow> u32 \<Rightarrow> (sbuf \<times> u32 \<times> bool) option" where
  "sbuf_read_u32 s data = do {
     (s, d, ok) \<leftarrow> sbuf_read s [0, 0, 0, 0] 4;
     Some (s, if ok then host32 d else data, ok) }"

definition sbuf_read_s32 :: "sbuf \<Rightarrow> int \<Rightarrow> (sbuf \<times> int \<times> bool) option" where
  "sbuf_read_s32 s data = do {
     (s, d, ok) \<leftarrow> sbuf_read s [0, 0, 0, 0] 4;
     Some (s, if ok then sint (host32 d) else data, ok) }"

section \<open>What a buffer accepts\<close>

lemma host32_net32: "host32 (net32 d) = d"
proof (rule bit_word_eqI)
  fix n assume "n < LENGTH(32)"
  then show "bit (host32 (net32 d)) n = bit d n"
    by (cases "n < 8"; cases "n < 16"; cases "n < 24") (auto simp: host32_def net32_def bit_simps)
qed

text \<open>A buffer of \<open>n\<close> bytes that holds \<open>w\<close>, written from its start, and has never been read.\<close>

definition sb_holds :: "sbuf \<Rightarrow> nat \<Rightarrow> u8 list \<Rightarrow> bool" where
  "sb_holds s n w \<longleftrightarrow> length (sb_buf s) = n \<and> unat (sb_len s) = n \<and> unat (sb_write_ndx s) = length w \<and> length w \<le> n
     \<and> take (length w) (sb_buf s) = w \<and> sb_data_len s = 0 \<and> sb_read_ndx s = 0"

lemma sbuf_init_holds: "unat len = length buf \<Longrightarrow> sb_holds (sbuf_init s buf len) (length buf) []"
  by (simp add: sb_holds_def sbuf_init_def)

lemma sbuf_write_loop:
  assumes "sb_holds s n w" "length w + k \<le> n" "k \<le> length buf" "n < 2 ^ 31"
  shows "\<exists>s'. foldo (sbuf_write_one buf) s [0..<k] = Some s' \<and> sb_holds s' n (w @ take k buf)"
  using assms(2,3)
proof (induction k)
  case 0
  then show ?case using assms(1) by simp
next
  case (Suc k)
  then obtain s1 where 1: "foldo (sbuf_write_one buf) s [0..<k] = Some s1" "sb_holds s1 n (w @ take k buf)" by auto
  let ?n = "unat (sb_write_ndx s1)"
  let ?s = "s1\<lparr>sb_buf := (sb_buf s1)[?n := buf ! k], sb_write_ndx := sb_write_ndx s1 + 1\<rparr>"
  have n: "?n = length w + k" "length (sb_buf s1) = n" using 1(2) Suc.prems by (simp_all add: sb_holds_def)
  then have "unat (sb_write_ndx s1 + 1) = ?n + 1"
    using Suc.prems assms(4) by (simp add: unat_word_ariths)
  moreover have "take (?n + 1) ((sb_buf s1)[?n := buf ! k]) = (w @ take k buf) @ [buf ! k]"
    using 1(2) n Suc.prems by (simp add: take_Suc_conv_app_nth sb_holds_def)
  ultimately have "sb_holds ?s n (w @ take (Suc k) buf)"
    using 1(2) n Suc.prems by (simp add: sb_holds_def take_Suc_conv_app_nth)
  moreover have "sbuf_write_one buf s1 k = Some ?s" using n Suc.prems by (simp add: sbuf_write_one_def)
  ultimately show ?case using 1(1) by (simp add: foldo_append)
qed

lemma sbuf_write_holds:
  assumes h: "sb_holds s n w" and k: "k \<le> length buf" "k < 2 ^ 31" and n: "n < 2 ^ 31"
  shows "if length w + k < n
    then \<exists>s'. sbuf_write s buf (int k) = Some (s', True) \<and> sb_holds s' n (w @ take k buf)
    else sbuf_write s buf (int k) = Some (s, False)"
proof -
  have w: "unat (sb_write_ndx s) = length w" "unat (sb_len s) = n" "length w \<le> n" using h by (simp_all add: sb_holds_def)
  have "unat (sb_write_ndx s + word_of_int (int k)) = length w + k"
    using w k n by (simp add: unat_word_ariths unat_of_nat)
  then have "sbuf_is_write_possible s (word_of_int (int k)) \<longleftrightarrow> length w + k < n"
    using w by (simp add: sbuf_is_write_possible_def word_less_nat_alt)
  then show ?thesis
    using sbuf_write_loop [OF h _ k(1) n] by (auto simp: sbuf_write_def)
qed

lemma sbuf_read_fails: "sb_holds s n w \<Longrightarrow> sbuf_read s buf k = Some (s, buf, False)"
  by (simp add: sbuf_read_def sbuf_is_read_possible_def sb_holds_def)

section \<open>Properties\<close>

text \<open>A program over one buffer: writes of byte strings and reads of some length.\<close>

datatype sbuf_op = Sbuf_write "u8 list" | Sbuf_read nat

fun sbuf_step :: "sbuf \<times> bool list \<Rightarrow> sbuf_op \<Rightarrow> (sbuf \<times> bool list) option" where
  "sbuf_step (s, rs) (Sbuf_write bs) = do { (s, ok) \<leftarrow> sbuf_write s bs (int (length bs)); Some (s, rs @ [ok]) }"
| "sbuf_step (s, rs) (Sbuf_read k) = do { (s, _, ok) \<leftarrow> sbuf_read s (replicate k 0) (int k); Some (s, rs @ [ok]) }"

text \<open>What it amounts to: the bytes accepted so far, and the results.\<close>

fun sbuf_log_step :: "nat \<Rightarrow> u8 list \<times> bool list \<Rightarrow> sbuf_op \<Rightarrow> u8 list \<times> bool list" where
  "sbuf_log_step n (w, rs) (Sbuf_write bs) =
     (if length w + length bs < n then (w @ bs, rs @ [True]) else (w, rs @ [False]))"
| "sbuf_log_step n (w, rs) (Sbuf_read k) = (w, rs @ [False])"

fun sbuf_op_ok :: "sbuf_op \<Rightarrow> bool" where
  "sbuf_op_ok (Sbuf_write bs) = (length bs < 2 ^ 31)"
| "sbuf_op_ok (Sbuf_read k) = (k < 2 ^ 31)"

lemma sbuf_run:
  assumes "sb_holds s n w" "n < 2 ^ 31" "\<forall>op \<in> set ops. sbuf_op_ok op"
  shows "\<exists>s'. foldo sbuf_step (s, rs) ops = Some (s', snd (foldl (sbuf_log_step n) (w, rs) ops))
    \<and> sb_holds s' n (fst (foldl (sbuf_log_step n) (w, rs) ops))"
  using assms
proof (induction ops arbitrary: s w rs)
  case (Cons op ops)
  show ?case
  proof (cases op)
    case (Sbuf_write bs)
    note w = sbuf_write_holds [OF Cons.prems(1), of "length bs" bs]
    show ?thesis
    proof (cases "length w + length bs < n")
      case True
      with w Sbuf_write Cons.prems obtain s1 where "sbuf_write s bs (int (length bs)) = Some (s1, True)" "sb_holds s1 n (w @ bs)"
        by auto
      then show ?thesis using Cons.IH [of s1 "w @ bs" "rs @ [True]"] Cons.prems True Sbuf_write by simp
    next
      case False
      with w Sbuf_write Cons.prems have "sbuf_write s bs (int (length bs)) = Some (s, False)" by auto
      then show ?thesis using Cons.IH [of s w "rs @ [False]"] Cons.prems False Sbuf_write by simp
    qed
  next
    case (Sbuf_read k)
    then show ?thesis using sbuf_read_fails [OF Cons.prems(1)] Cons.prems Cons.IH by simp
  qed
qed simp

text \<open>A sequential buffer is written but never read: from \<open>sbuf_init\<close>, whatever is written and read,
  no access leaves the buffer, a write succeeds exactly if it leaves at least one byte of the buffer
  unused, and no read ever succeeds, since no write counts its bytes as data.\<close>

theorem sbuf_is_write_only:
  assumes "unat len = length buf" "length buf < 2 ^ 31" "\<forall>op \<in> set ops. sbuf_op_ok op"
  defines "res \<equiv> foldl (sbuf_log_step (length buf)) ([], []) ops"
  shows "\<exists>s'. foldo sbuf_step (sbuf_init s buf len, []) ops = Some (s', snd res)
    \<and> take (length (fst res)) (sb_buf s') = fst res \<and> length (sb_buf s') = length buf"
  using sbuf_run [OF sbuf_init_holds [OF assms(1)] assms(2,3), of s "[]"] unfolding res_def
  by (auto simp: sb_holds_def)

lemma sbuf_is_write_only_witness:
  "\<exists>s'. foldo sbuf_step (sbuf_init \<lparr>sb_buf = [], sb_len = 0, sb_data_len = 0, sb_write_ndx = 0, sb_read_ndx = 0\<rparr> [9, 9, 9] 3, [])
      [Sbuf_write [1, 2], Sbuf_read 1, Sbuf_write [3]] = Some (s', [True, False, False])
    \<and> take 2 (sb_buf s') = [1, 2] \<and> length (sb_buf s') = 3"
proof -
  let ?ops = "[Sbuf_write [1, 2], Sbuf_read 1, Sbuf_write [3]]"
  let ?s = "\<lparr>sb_buf = [], sb_len = 0, sb_data_len = 0, sb_write_ndx = 0, sb_read_ndx = 0\<rparr>"
  have res: "foldl (sbuf_log_step (length [9 :: u8, 9, 9])) ([], []) ?ops = ([1, 2], [True, False, False])"
    by simp
  have "\<exists>s'. foldo sbuf_step (sbuf_init ?s [9, 9, 9] 3, []) ?ops = Some (s', snd ([1 :: u8, 2], [True, False, False]))
      \<and> take (length (fst ([1 :: u8, 2], [True, False, False]))) (sb_buf s') = fst ([1, 2], [True, False, False])
      \<and> length (sb_buf s') = length [9 :: u8, 9, 9]"
    by (rule sbuf_is_write_only [of 3 "[9, 9, 9]" ?ops ?s, unfolded res]) simp_all
  then show ?thesis by (simp add: numeral_2_eq_2 numeral_3_eq_3 del: foldo.simps)
qed

end
