(* ===== verification/Udp_Socket.thy ===== *)
theory Udp_Socket
  imports Watcher
begin

text \<open>
  \<open>src/net/udp_socket.c\<close>: a datagram socket with a watcher. The kernel's answers to \<open>socket\<close>, \<open>bind\<close>,
  \<open>recvfrom\<close> and \<open>sendto\<close> are inputs, what \<open>sendto\<close> accepts and the descriptors closed are recorded.
  The locale \<open>udp_owner\<close> states what a socket needs of its owner's callback.
\<close>

section \<open>State and operations\<close>

datatype udp_socket_event = udp_socket_event_rx | udp_socket_event_err | udp_socket_event_tx_buf_avail

record 'u udp_socket =
  us_watcher :: watcher
  us_rx_buf :: "u8 list"
  us_rx_buf_size :: int
  us_rx_data_len :: int
  us_from_len :: int
  us_sent :: "u8 list list"
  us_closed :: "int list"
  us_env :: 'u

type_synonym 'u udp_callback = "'u udp_socket \<Rightarrow> udp_socket_event \<Rightarrow> 'u udp_socket option"

text \<open>
  \<open>recvfrom\<close> takes a datagram, cut to the buffer's size, or fails. \<open>sendto\<close> takes the datagram, would
  block, or fails; for an empty datagram it returns 0, and \<open>errno\<close> keeps what an earlier call left.
\<close>

datatype kernel_recv = Datagram "u8 list" | Recv_error

fun sys_recvfrom :: "kernel_recv \<Rightarrow> nat \<Rightarrow> int \<times> u8 list" where
  "sys_recvfrom (Datagram d) n = (int (min (length d) n), take n d)"
| "sys_recvfrom Recv_error n = (-1, [])"

datatype kernel_send = Sent | Would_block | Send_error

fun sys_sendto :: "kernel_send \<Rightarrow> bool \<Rightarrow> u8 list \<Rightarrow> int \<times> bool" where
  "sys_sendto Sent again d = (int (length d), again)"
| "sys_sendto Would_block again d = (-1, True)"
| "sys_sendto Send_error again d = (-1, False)"

definition udp_watcher_callback ::
    "'u udp_callback \<Rightarrow> kernel_recv \<Rightarrow> 'u udp_socket \<Rightarrow> watcher_event \<Rightarrow> 'u udp_socket option" where
  "udp_watcher_callback cb r sock evt =
     (case evt of
        watcher_event_rx \<Rightarrow> do {
          n \<leftarrow> c_nat (us_rx_buf_size sock);
          let (ret, bytes) = sys_recvfrom r n;
          buf \<leftarrow> c_memcpy (us_rx_buf sock) 0 bytes 0 (int (length bytes));
          let sock = sock\<lparr>us_rx_buf := buf\<rparr>;
          if ret > 0 then cb (sock\<lparr>us_rx_data_len := ret\<rparr>) udp_socket_event_rx
          else cb sock udp_socket_event_err }
      | watcher_event_tx \<Rightarrow> do {
          w \<leftarrow> watcher_no_watch_tx (us_watcher sock);
          cb (sock\<lparr>us_watcher := w\<rparr>) udp_socket_event_tx_buf_avail }
      | watcher_event_error \<Rightarrow> cb sock udp_socket_event_err)"

definition udp_socket_init :: "'u udp_socket \<Rightarrow> int \<Rightarrow> u8 list \<Rightarrow> int \<Rightarrow> int \<Rightarrow> 'u udp_socket option" where
  "udp_socket_init sock sd rx_buf rx_buf_size from_len = do {
     let sock = sock\<lparr>us_rx_buf := rx_buf, us_rx_buf_size := rx_buf_size, us_rx_data_len := 0\<rparr>;
     w \<leftarrow> watcher_watch_rx (watcher_init_with_fd sd);
     w \<leftarrow> watcher_watch_tx w;
     w \<leftarrow> watcher_watch_err w;
     Some (sock\<lparr>us_watcher := w, us_from_len := from_len\<rparr>) }"

definition udp_socket_start :: "'u udp_socket \<Rightarrow> 'u udp_socket" where
  "udp_socket_start sock = sock\<lparr>us_watcher := watcher_start (us_watcher sock)\<rparr>"

definition udp_socket_stop :: "'u udp_socket \<Rightarrow> 'u udp_socket" where
  "udp_socket_stop sock = sock\<lparr>us_watcher := watcher_stop (us_watcher sock)\<rparr>"

definition udp_socket_deinit :: "'u udp_socket \<Rightarrow> 'u udp_socket" where
  "udp_socket_deinit sock =
     (let sock = udp_socket_stop sock in sock\<lparr>us_closed := us_closed sock @ [w_fd (us_watcher sock)]\<rparr>)"

definition udp_socket_send :: "kernel_send \<Rightarrow> bool \<Rightarrow> 'u udp_socket \<Rightarrow> u8 list \<Rightarrow> int \<Rightarrow> ('u udp_socket \<times> bool) option" where
  "udp_socket_send k again sock data len = do {
     n \<leftarrow> c_nat len;
     bytes \<leftarrow> mem_slice data 0 n;
     let (ret, again) = sys_sendto k again bytes;
     let sock = (if ret \<ge> 0 then sock\<lparr>us_sent := us_sent sock @ [bytes]\<rparr> else sock);
     if ret > 0 then Some (sock, True)
     else if again then do {
       w \<leftarrow> watcher_watch_tx (us_watcher sock);
       Some (sock\<lparr>us_watcher := w\<rparr>, False) }
     else Some (sock, False) }"

text \<open>The two public ways to initialise; they differ in the address family and its address length.\<close>

definition udp_socket_ipv4_init :: "int \<Rightarrow> int \<Rightarrow> 'u udp_socket \<Rightarrow> u8 list \<Rightarrow> int \<Rightarrow> ('u udp_socket \<times> bool) option" where
  "udp_socket_ipv4_init sd bind_ret sock rx_buf rx_buf_size =
     (if sd < 0 then Some (sock, False)
      else if bind_ret \<noteq> 0 then Some (sock\<lparr>us_closed := us_closed sock @ [sd]\<rparr>, False)
      else do {
        sock \<leftarrow> udp_socket_init sock sd rx_buf rx_buf_size 16;
        Some (sock, True) })"

definition udp_socket_unix_domain_init :: "int \<Rightarrow> int \<Rightarrow> 'u udp_socket \<Rightarrow> u8 list \<Rightarrow> int \<Rightarrow> ('u udp_socket \<times> bool) option" where
  "udp_socket_unix_domain_init sd bind_ret sock rx_buf rx_buf_size =
     (if sd < 0 then Some (sock, False)
      else if bind_ret \<noteq> 0 then Some (sock\<lparr>us_closed := us_closed sock @ [sd]\<rparr>, False)
      else do {
        sock \<leftarrow> udp_socket_init sock sd rx_buf rx_buf_size 110;
        Some (sock, True) })"

section \<open>Initialisation\<close>

definition udp_ok :: "'u udp_socket \<Rightarrow> bool" where
  "udp_ok sock \<longleftrightarrow> watcher_inv (us_watcher sock) \<and> us_rx_buf_size sock = int (length (us_rx_buf sock))"

definition udp_tx_watched :: "'u udp_socket \<Rightarrow> bool" where
  "udp_tx_watched sock \<longleftrightarrow> sw_tx (w_switches (us_watcher sock))"

lemma udp_init_spec:
  "\<exists>sock'. udp_socket_init sock sd buf (int (length buf)) fl = Some sock' \<and> udp_ok sock' \<and> udp_tx_watched sock'
    \<and> w_fd (us_watcher sock') = sd \<and> us_sent sock' = us_sent sock \<and> us_env sock' = us_env sock \<and> us_closed sock' = us_closed sock"
proof -
  have f: "w_fd (watcher_init_with_fd sd) = sd" by (simp add: watcher_init_with_fd_def)
  obtain w1 where 1: "watcher_watch_rx (watcher_init_with_fd sd) = Some w1" "watcher_inv w1" "w_fd w1 = sd"
    using watcher_start_target_spec(1) [of "watcher_init_with_fd sd"] watcher_init_spec [of sd] f by auto
  obtain w2 where 2: "watcher_watch_tx w1 = Some w2" "watcher_inv w2" "w_fd w2 = sd" "sw_tx (w_switches w2)"
    using watcher_start_target_spec(2) [OF 1(2)] 1(3) by auto
  obtain w3 where 3: "watcher_watch_err w2 = Some w3" "watcher_inv w3" "w_fd w3 = sd" "sw_tx (w_switches w3)"
    using watcher_start_target_spec(3) [OF 2(2)] 2(3,4) by auto
  show ?thesis using 1 2 3 by (simp add: udp_socket_init_def udp_ok_def udp_tx_watched_def)
qed

text \<open>A descriptor got from \<open>socket\<close> is owned after success and closed after failure.\<close>

theorem udp_ipv4_init_owns_socket:
  assumes "0 \<le> sd"
  shows "\<exists>sock' ok. udp_socket_ipv4_init sd bind_ret sock buf (int (length buf)) = Some (sock', ok) \<and> (ok \<longleftrightarrow> bind_ret = 0)
    \<and> (if ok then udp_ok sock' \<and> w_fd (us_watcher sock') = sd \<and> us_closed sock' = us_closed sock
       else us_closed sock' = us_closed sock @ [sd])"
  using assms udp_init_spec [of sock sd buf 16] by (auto simp: udp_socket_ipv4_init_def)

section \<open>Traffic\<close>

text \<open>The owner's callback acts on the owner alone.\<close>

locale udp_owner =
  fixes cb :: "'u udp_callback" and on_event :: "udp_socket_event \<Rightarrow> u8 list \<Rightarrow> 'u \<Rightarrow> 'u option"
  assumes cb: "cb sock evt = map_option (\<lambda>e. sock\<lparr>us_env := e\<rparr>)
    (on_event evt (take (nat (us_rx_data_len sock)) (us_rx_buf sock)) (us_env sock))"
begin

text \<open>A datagram is handed over cut to the buffer; an empty one is reported as an error.\<close>

lemma datagram:
  assumes "udp_ok sock" "d \<noteq> []" "us_rx_buf sock \<noteq> []"
  shows "map_option us_env (udp_watcher_callback cb (Datagram d) sock watcher_event_rx)
    = on_event udp_socket_event_rx (take (length (us_rx_buf sock)) d) (us_env sock)"
proof -
  let ?d = "take (length (us_rx_buf sock)) d"
  have "c_memcpy (us_rx_buf sock) 0 ?d 0 (int (length ?d)) = Some (?d @ drop (length ?d) (us_rx_buf sock))"
    using c_memcpy_in [of 0 "length ?d" "us_rx_buf sock" 0 ?d] by (simp add: min_def)
  moreover have "0 < int (min (length d) (length (us_rx_buf sock)))" using assms(2,3) by simp
  ultimately show ?thesis
    using assms(1)
    by (cases "length d \<le> length (us_rx_buf sock)"; cases "on_event udp_socket_event_rx ?d (us_env sock)")
      (simp_all add: udp_watcher_callback_def udp_ok_def cb c_nat_def min_def)
qed

lemma empty_datagram:
  assumes "udp_ok sock"
  shows "udp_watcher_callback cb (Datagram []) sock watcher_event_rx = cb sock udp_socket_event_err"
  using assms c_memcpy_in [of 0 0 "us_rx_buf sock" 0 "[]"]
  by (simp add: udp_watcher_callback_def udp_ok_def c_nat_def)

lemma tx_event:
  assumes "udp_ok sock"
  shows "\<exists>w. watcher_inv w \<and> \<not> sw_tx (w_switches w)
    \<and> udp_watcher_callback cb r sock watcher_event_tx = cb (sock\<lparr>us_watcher := w\<rparr>) udp_socket_event_tx_buf_avail"
  using watcher_stop_target_spec(2) [of "us_watcher sock"] assms by (auto simp: udp_watcher_callback_def udp_ok_def)

end

text \<open>Sending: blocked means watched for room, and otherwise the watcher is left alone.\<close>

lemma udp_send_spec:
  assumes "udp_ok sock" "d \<noteq> []"
  shows "\<exists>sock'. udp_socket_send k again sock d (int (length d)) = Some (sock', k = Sent) \<and> udp_ok sock'
    \<and> us_sent sock' = us_sent sock @ (if k = Sent then [d] else []) \<and> us_env sock' = us_env sock
    \<and> (udp_tx_watched sock' \<longleftrightarrow> k = Would_block \<or> udp_tx_watched sock)"
proof (cases k)
  case Would_block
  then show ?thesis
    using watcher_start_target_spec(2) [of "us_watcher sock"] assms
    by (auto simp: udp_socket_send_def mem_slice_def udp_ok_def udp_tx_watched_def)
qed (use assms in \<open>auto simp: udp_socket_send_def mem_slice_def udp_ok_def udp_tx_watched_def\<close>)

text \<open>An empty datagram that was sent is reported as not sent.\<close>

lemma udp_send_empty:
  assumes "udp_ok sock"
  shows "\<exists>sock'. udp_socket_send Sent again sock d 0 = Some (sock', False) \<and> us_sent sock' = us_sent sock @ [[]]
    \<and> (udp_tx_watched sock' \<longleftrightarrow> again \<or> udp_tx_watched sock)"
  using watcher_start_target_spec(2) [of "us_watcher sock"] assms
  by (cases again) (auto simp: udp_socket_send_def mem_slice_def udp_ok_def udp_tx_watched_def c_nat_def)

text \<open>An owner that counts and remembers, for whom the contract holds.\<close>

definition udp_log_cb :: "(udp_socket_event \<times> u8 list) list udp_callback" where
  "udp_log_cb sock evt =
     Some (sock\<lparr>us_env := us_env sock @ [(evt, take (nat (us_rx_data_len sock)) (us_rx_buf sock))]\<rparr>)"

interpretation udp_log: udp_owner udp_log_cb "\<lambda>evt d e. Some (e @ [(evt, d)])"
  by unfold_locales (simp add: udp_log_cb_def)

theorem udp_socket_delivers_datagram:
  assumes "udp_ok sock" "d \<noteq> []" "us_rx_buf sock \<noteq> []"
  shows "map_option us_env (udp_watcher_callback udp_log_cb (Datagram d) sock watcher_event_rx)
    = Some (us_env sock @ [(udp_socket_event_rx, take (length (us_rx_buf sock)) d)])"
  by (rule udp_log.datagram [OF assms])

end
