(* ===== verification/Klist_Iter.thy ===== *)
theory Klist_Iter
  imports Klist
begin

text \<open>
  The iteration macros of \<open>inc/list.h\<close> with a loop body that may change the heap. The object a cursor
  stands for is identified with its node, so the \<open>entry\<close> variants differ from the plain ones only in
  the macro. A macro that evaluates \<open>prefetch\<close> reads the cursor's link before it compares the cursor
  with the head. A loop need not end, so not returning is \<open>None\<close>. The locales \<open>safe_loop\<close> and
  \<open>plain_loop\<close> state what the two kinds of loops need of their bodies.
\<close>

section \<open>Loops\<close>

type_synonym 's loop_body = "ptr \<Rightarrow> lheap \<times> 's \<Rightarrow> (lheap \<times> 's) option"

text \<open>\<open>for (; prefetch(pos->link), pos != head; pos = pos->link)\<close>, for either link.\<close>

partial_function (option) list_loop ::
    "(lheap \<Rightarrow> ptr \<Rightarrow> ptr option) \<Rightarrow> 's loop_body \<Rightarrow> ptr \<Rightarrow> ptr \<Rightarrow> lheap \<times> 's \<Rightarrow> (lheap \<times> 's) option" where
  "list_loop rd body head pos st = do {
     _ \<leftarrow> rd (fst st) pos;
     if pos = head then Some st
     else do { st \<leftarrow> body pos st; n \<leftarrow> rd (fst st) pos; list_loop rd body head n st } }"

text \<open>\<open>for (; pos != head; pos = n, n = n->link)\<close>.\<close>

partial_function (option) list_loop_safe ::
    "(lheap \<Rightarrow> ptr \<Rightarrow> ptr option) \<Rightarrow> 's loop_body \<Rightarrow> ptr \<Rightarrow> ptr \<Rightarrow> ptr \<Rightarrow> lheap \<times> 's \<Rightarrow> (lheap \<times> 's) option" where
  "list_loop_safe rd body head pos n st =
     (if pos = head then Some st
      else do { st \<leftarrow> body pos st; m \<leftarrow> rd (fst st) n; list_loop_safe rd body head n m st })"

definition list_entry :: "ptr \<Rightarrow> ptr" where
  "list_entry p = p"

definition list_for_each_do :: "'s loop_body \<Rightarrow> ptr \<Rightarrow> lheap \<times> 's \<Rightarrow> (lheap \<times> 's) option" where
  "list_for_each_do body head st = do { pos \<leftarrow> rd_next (fst st) head; list_loop rd_next body head pos st }"

definition list_for_each_prev :: "'s loop_body \<Rightarrow> ptr \<Rightarrow> lheap \<times> 's \<Rightarrow> (lheap \<times> 's) option" where
  "list_for_each_prev body head st = do { pos \<leftarrow> rd_prev (fst st) head; list_loop rd_prev body head pos st }"

definition list_for_each_safe :: "'s loop_body \<Rightarrow> ptr \<Rightarrow> lheap \<times> 's \<Rightarrow> (lheap \<times> 's) option" where
  "list_for_each_safe body head st = do {
     pos \<leftarrow> rd_next (fst st) head; n \<leftarrow> rd_next (fst st) pos; list_loop_safe rd_next body head pos n st }"

text \<open>The second \<open>prefetch\<close> of the backward loop reads \<open>pos->prev\<close> too, which \<open>n\<close> was read from already.\<close>

definition list_for_each_prev_safe :: "'s loop_body \<Rightarrow> ptr \<Rightarrow> lheap \<times> 's \<Rightarrow> (lheap \<times> 's) option" where
  "list_for_each_prev_safe body head st = do {
     pos \<leftarrow> rd_prev (fst st) head; n \<leftarrow> rd_prev (fst st) pos; list_loop_safe rd_prev body head pos n st }"

definition list_for_each_entry :: "'s loop_body \<Rightarrow> ptr \<Rightarrow> lheap \<times> 's \<Rightarrow> (lheap \<times> 's) option" where
  "list_for_each_entry body head st = do {
     p \<leftarrow> rd_next (fst st) head; list_loop rd_next body head (list_entry p) st }"

definition list_for_each_entry_reverse :: "'s loop_body \<Rightarrow> ptr \<Rightarrow> lheap \<times> 's \<Rightarrow> (lheap \<times> 's) option" where
  "list_for_each_entry_reverse body head st = do {
     p \<leftarrow> rd_prev (fst st) head; list_loop rd_prev body head (list_entry p) st }"

definition list_prepare_entry :: "ptr \<Rightarrow> ptr \<Rightarrow> ptr" where
  "list_prepare_entry pos head = (if pos \<noteq> NULL then pos else list_entry head)"

definition list_for_each_entry_continue :: "'s loop_body \<Rightarrow> ptr \<Rightarrow> ptr \<Rightarrow> lheap \<times> 's \<Rightarrow> (lheap \<times> 's) option" where
  "list_for_each_entry_continue body pos head st = do {
     p \<leftarrow> rd_next (fst st) pos; list_loop rd_next body head (list_entry p) st }"

definition list_for_each_entry_continue_reverse :: "'s loop_body \<Rightarrow> ptr \<Rightarrow> ptr \<Rightarrow> lheap \<times> 's \<Rightarrow> (lheap \<times> 's) option" where
  "list_for_each_entry_continue_reverse body pos head st = do {
     p \<leftarrow> rd_prev (fst st) pos; list_loop rd_prev body head (list_entry p) st }"

definition list_for_each_entry_from :: "'s loop_body \<Rightarrow> ptr \<Rightarrow> ptr \<Rightarrow> lheap \<times> 's \<Rightarrow> (lheap \<times> 's) option" where
  "list_for_each_entry_from body pos head st = list_loop rd_next body head pos st"

definition list_for_each_entry_safe :: "'s loop_body \<Rightarrow> ptr \<Rightarrow> lheap \<times> 's \<Rightarrow> (lheap \<times> 's) option" where
  "list_for_each_entry_safe body head st = do {
     p \<leftarrow> rd_next (fst st) head; n \<leftarrow> rd_next (fst st) (list_entry p);
     list_loop_safe rd_next body head (list_entry p) (list_entry n) st }"

definition list_for_each_entry_safe_continue :: "'s loop_body \<Rightarrow> ptr \<Rightarrow> ptr \<Rightarrow> lheap \<times> 's \<Rightarrow> (lheap \<times> 's) option" where
  "list_for_each_entry_safe_continue body pos head st = do {
     p \<leftarrow> rd_next (fst st) pos; n \<leftarrow> rd_next (fst st) (list_entry p);
     list_loop_safe rd_next body head (list_entry p) (list_entry n) st }"

definition list_for_each_entry_safe_from :: "'s loop_body \<Rightarrow> ptr \<Rightarrow> ptr \<Rightarrow> lheap \<times> 's \<Rightarrow> (lheap \<times> 's) option" where
  "list_for_each_entry_safe_from body pos head st = do {
     n \<leftarrow> rd_next (fst st) pos; list_loop_safe rd_next body head pos (list_entry n) st }"

definition list_for_each_entry_safe_reverse :: "'s loop_body \<Rightarrow> ptr \<Rightarrow> lheap \<times> 's \<Rightarrow> (lheap \<times> 's) option" where
  "list_for_each_entry_safe_reverse body head st = do {
     p \<leftarrow> rd_prev (fst st) head; n \<leftarrow> rd_prev (fst st) (list_entry p);
     list_loop_safe rd_prev body head (list_entry p) (list_entry n) st }"

definition list_safe_reset_next :: "lheap \<Rightarrow> ptr \<Rightarrow> ptr option" where
  "list_safe_reset_next h pos = do { n \<leftarrow> rd_next h pos; Some (list_entry n) }"

text \<open>The entry variants are the plain ones.\<close>

lemma entry_loops:
  "list_for_each_entry body head st = list_for_each_do body head st"
  "list_for_each_entry_reverse body head st = list_for_each_prev body head st"
  "list_for_each_entry_safe body head st = list_for_each_safe body head st"
  "list_for_each_entry_safe_reverse body head st = list_for_each_prev_safe body head st"
  "list_for_each_entry_continue body head head st = list_for_each_do body head st"
  by (simp_all add: list_for_each_entry_def list_for_each_do_def list_for_each_entry_reverse_def list_for_each_prev_def
      list_for_each_entry_safe_def list_for_each_safe_def list_for_each_entry_safe_reverse_def list_for_each_prev_safe_def
      list_for_each_entry_continue_def list_entry_def)

section \<open>What the loops need of their bodies\<close>

text \<open>The node that follows in a walk whose remaining nodes are \<open>xs\<close>.\<close>

definition cursor :: "ptr \<Rightarrow> ptr list \<Rightarrow> ptr" where
  "cursor head xs = hd (xs @ [head])"

lemma cursor_simps [simp]: "cursor head [] = head" "cursor head (x # xs) = x"
  by (simp_all add: cursor_def)

text \<open>
  \<open>inv h xs\<close>: the heap \<open>h\<close> when \<open>xs\<close> are the nodes still to be visited. A safe loop's body, run at the first of
  them, must leave the others in place; it may do what it likes with the node it is run at. A plain
  loop's body must leave that node's link alone as well.
\<close>

locale list_loop_inv =
  fixes rd :: "lheap \<Rightarrow> ptr \<Rightarrow> ptr option" and head :: ptr and inv :: "lheap \<Rightarrow> ptr list \<Rightarrow> bool"
  assumes at_node: "inv h (x # xs) \<Longrightarrow> x \<noteq> head \<and> rd h x = Some (cursor head xs)"
    and at_head: "inv h [] \<Longrightarrow> \<exists>p. rd h head = Some p"
begin

lemma link: "inv h xs \<Longrightarrow> \<exists>n. rd h (cursor head xs) = Some n"
  using at_node at_head by (cases xs) auto

end

locale safe_loop = list_loop_inv +
  fixes body :: "'s loop_body" and act :: "ptr \<Rightarrow> 's \<Rightarrow> 's"
  assumes safe_body: "inv h (x # xs) \<Longrightarrow> \<exists>h'. body x (h, s) = Some (h', act x s) \<and> inv h' xs"
begin

lemma visits_safe:
  assumes "inv h xs" "rd h (cursor head xs) = Some n"
  shows "\<exists>h'. list_loop_safe rd body head (cursor head xs) n (h, s) = Some (h', fold act xs s) \<and> inv h' []"
  using assms
proof (induction xs arbitrary: h s n)
  case Nil
  then show ?case by (simp add: list_loop_safe.simps)
next
  case (Cons x xs)
  then have x: "x \<noteq> head" "n = cursor head xs" using at_node [of h x xs] by auto
  obtain h1 where 1: "body x (h, s) = Some (h1, act x s)" "inv h1 xs" using safe_body [OF Cons.prems(1)] by blast
  obtain m where m: "rd h1 (cursor head xs) = Some m" using link [OF 1(2)] by blast
  show ?case
    using Cons.IH [OF 1(2) m, of "act x s"] x 1 m by (subst list_loop_safe.simps) simp
qed

end

locale plain_loop = list_loop_inv +
  fixes body :: "'s loop_body" and act :: "ptr \<Rightarrow> 's \<Rightarrow> 's"
  assumes plain_body: "inv h (x # xs) \<Longrightarrow>
    \<exists>h'. body x (h, s) = Some (h', act x s) \<and> inv h' xs \<and> rd h' x = Some (cursor head xs)"
begin

lemma visits_plain:
  assumes "inv h xs"
  shows "\<exists>h'. list_loop rd body head (cursor head xs) (h, s) = Some (h', fold act xs s) \<and> inv h' []"
  using assms
proof (induction xs arbitrary: h s)
  case Nil
  then show ?case using at_head by (subst list_loop.simps) auto
next
  case (Cons x xs)
  obtain h1 where 1: "body x (h, s) = Some (h1, act x s)" "inv h1 xs" "rd h1 x = Some (cursor head xs)"
    using plain_body [OF Cons.prems] by blast
  show ?case
    using Cons.IH [OF 1(2), of "act x s"] at_node [OF Cons.prems] 1 by (subst list_loop.simps) simp
qed

end

text \<open>A body a plain loop can run, a safe one can.\<close>

sublocale plain_loop \<subseteq> safe_loop
  by unfold_locales (use plain_body in blast)

section \<open>Visiting and draining a list\<close>

text \<open>A body that records the node, and one that unlinks it as well.\<close>

definition visit_body :: "ptr list loop_body" where
  "visit_body pos st = Some (fst st, snd st @ [pos])"

definition drain_body :: "ptr list loop_body" where
  "drain_body pos st = do { h \<leftarrow> list_del_init (fst st) pos; Some (h, snd st @ [pos]) }"

text \<open>Both directions over a list: what has been visited, and what has not.\<close>

definition forward :: "ptr \<Rightarrow> ptr list \<Rightarrow> lheap \<Rightarrow> ptr list \<Rightarrow> bool" where
  "forward head all h xs \<longleftrightarrow> dlist h head all \<and> (\<exists>ys. all = ys @ xs)"

definition backward :: "ptr \<Rightarrow> ptr list \<Rightarrow> lheap \<Rightarrow> ptr list \<Rightarrow> bool" where
  "backward head all h xs \<longleftrightarrow> dlist h head all \<and> (\<exists>ys. all = rev xs @ ys)"

lemma dlist_next: "dlist h head (ys @ x # xs) \<Longrightarrow> x \<noteq> head \<and> rd_next h x = Some (cursor head xs)"
  by (cases xs) (auto simp: dlist_def rd_next_def)

lemma dlist_prev:
  assumes "dlist h head (rev xs @ x # ys)"
  shows "x \<noteq> head \<and> rd_prev h x = Some (cursor head xs)"
  using assms by (cases xs) (cases ys; auto simp: dlist_def rd_prev_def)+

lemma dlist_head_links: "dlist h head xs \<Longrightarrow> (\<exists>p. rd_next h head = Some p) \<and> (\<exists>p. rd_prev h head = Some p)"
  by (auto simp: dlist_def rd_next_def rd_prev_def)

lemma dlist_starts:
  assumes "dlist h head xs"
  shows "rd_next h head = Some (cursor head xs)" "rd_prev h head = Some (cursor head (rev xs))"
proof -
  show "rd_next h head = Some (cursor head xs)" using assms by (cases xs) (auto simp: dlist_def rd_next_def)
  show "rd_prev h head = Some (cursor head (rev xs))"
    using assms by (cases xs rule: rev_cases) (auto simp: dlist_def rd_prev_def)
qed

interpretation visit_forward: plain_loop rd_next head "forward head all" visit_body "\<lambda>x s. s @ [x]" for head all
proof unfold_locales
  show "x \<noteq> head \<and> rd_next h x = Some (cursor head xs)" if "forward head all h (x # xs)" for h x xs
    using that by (auto simp: forward_def dest: dlist_next)
  show "\<exists>p. rd_next h head = Some p" if "forward head all h []" for h
    using that dlist_head_links by (auto simp: forward_def)
  show "\<exists>h'. visit_body x (h, s) = Some (h', s @ [x]) \<and> forward head all h' xs \<and> rd_next h' x = Some (cursor head xs)"
    if "forward head all h (x # xs)" for h x xs s
    using that by (auto simp: forward_def visit_body_def dest: dlist_next)
qed

interpretation visit_backward: plain_loop rd_prev head "backward head all" visit_body "\<lambda>x s. s @ [x]" for head all
proof unfold_locales
  show "x \<noteq> head \<and> rd_prev h x = Some (cursor head xs)" if "backward head all h (x # xs)" for h x xs
    using that by (auto simp: backward_def dest: dlist_prev)
  show "\<exists>p. rd_prev h head = Some p" if "backward head all h []" for h
    using that dlist_head_links by (auto simp: backward_def)
  show "\<exists>h'. visit_body x (h, s) = Some (h', s @ [x]) \<and> backward head all h' xs \<and> rd_prev h' x = Some (cursor head xs)"
    if "backward head all h (x # xs)" for h x xs s
    using that by (auto simp: backward_def visit_body_def dest: dlist_prev)
qed

interpretation drain_forward: safe_loop rd_next head "\<lambda>h xs. dlist h head xs" drain_body "\<lambda>x s. s @ [x]" for head
proof unfold_locales
  show "x \<noteq> head \<and> rd_next h x = Some (cursor head xs)" if "dlist h head (x # xs)" for h x xs
    using that dlist_next [of h head "[]"] by simp
  show "\<exists>p. rd_next h head = Some p" if "dlist h head []" for h
    using that dlist_head_links by blast
  show "\<exists>h'. drain_body x (h, s) = Some (h', s @ [x]) \<and> dlist h' head xs" if "dlist h head (x # xs)" for h x xs s
    using list_del_init_spec [of h head "[]" x xs] that by (auto simp: drain_body_def)
qed

interpretation drain_backward: safe_loop rd_prev head "\<lambda>h xs. dlist h head (rev xs)" drain_body "\<lambda>x s. s @ [x]" for head
proof unfold_locales
  show "x \<noteq> head \<and> rd_prev h x = Some (cursor head xs)" if "dlist h head (rev (x # xs))" for h x xs
    using that dlist_prev [of h head xs x "[]"] by simp
  show "\<exists>p. rd_prev h head = Some p" if "dlist h head (rev [])" for h
    using that dlist_head_links by simp
  show "\<exists>h'. drain_body x (h, s) = Some (h', s @ [x]) \<and> dlist h' head (rev xs)" if "dlist h head (rev (x # xs))" for h x xs s
    using list_del_init_spec [of h head "rev xs" x "[]"] that by (auto simp: drain_body_def)
qed

lemma fold_snoc [simp]: "fold (\<lambda>x s. s @ [x]) xs s = s @ xs"
  by (induction xs arbitrary: s) auto

text \<open>Both plain loops visit every node once, in their direction.\<close>

lemma visit_loops:
  assumes "dlist h head xs"
  shows "\<exists>h'. list_for_each_do visit_body head (h, s) = Some (h', s @ xs)"
    "\<exists>h'. list_for_each_prev visit_body head (h, s) = Some (h', s @ rev xs)"
  using visit_forward.visits_plain [of head xs h xs s] visit_backward.visits_plain [of head xs h "rev xs" s] dlist_starts [OF assms] assms
  by (auto simp: list_for_each_do_def list_for_each_prev_def forward_def backward_def)

text \<open>Both safe loops empty a list.\<close>

lemma drain_loops:
  assumes "dlist h head xs"
  shows "\<exists>h'. list_for_each_safe drain_body head (h, s) = Some (h', s @ xs) \<and> dlist h' head []"
    "\<exists>h'. list_for_each_prev_safe drain_body head (h, s) = Some (h', s @ rev xs) \<and> dlist h' head []"
proof -
  obtain n where n: "rd_next h (cursor head xs) = Some n" using drain_forward.link assms by blast
  show "\<exists>h'. list_for_each_safe drain_body head (h, s) = Some (h', s @ xs) \<and> dlist h' head []"
    using drain_forward.visits_safe [OF assms n, of s] n dlist_starts(1) [OF assms] by (simp add: list_for_each_safe_def)
  have r: "dlist h head (rev (rev xs))" using assms by simp
  obtain m where m: "rd_prev h (cursor head (rev xs)) = Some m" using drain_backward.link [OF r] by blast
  show "\<exists>h'. list_for_each_prev_safe drain_body head (h, s) = Some (h', s @ rev xs) \<and> dlist h' head []"
    using drain_backward.visits_safe [OF r m, of s] m dlist_starts(2) [OF assms] by (simp add: list_for_each_prev_safe_def)
qed

text \<open>A plain loop at a node that is its own successor does not end when it unlinks.\<close>

lemma drain_self_loop:
  assumes "list_loop rd body head pos st = Some y"
  shows "\<not> (rd = rd_next \<and> body = drain_body \<and> pos \<noteq> head \<and> dlist (fst st) pos [])"
proof (rule list_loop.raw_induct [OF _ assms])
  fix loop :: "(lheap \<Rightarrow> ptr \<Rightarrow> ptr option) \<Rightarrow> ptr list loop_body \<Rightarrow> ptr \<Rightarrow> ptr \<Rightarrow> lheap \<times> ptr list \<Rightarrow> (lheap \<times> ptr list) option"
    and rd body head pos st y
  assume IH: "\<And>rd body head pos st y. loop rd body head pos st = Some y \<Longrightarrow>
      \<not> (rd = rd_next \<and> body = drain_body \<and> pos \<noteq> head \<and> dlist (fst st) pos [])"
    and run: "do { _ \<leftarrow> rd (fst st) pos;
      if pos = head then Some st
      else do { st \<leftarrow> body pos st; n \<leftarrow> rd (fst st) pos; loop rd body head n st } } = Some y"
  show "\<not> (rd = rd_next \<and> body = drain_body \<and> pos \<noteq> head \<and> dlist (fst st) pos [])"
  proof
    assume a: "rd = rd_next \<and> body = drain_body \<and> pos \<noteq> head \<and> dlist (fst st) pos []"
    then have p: "pos \<noteq> NULL" "lh_next (fst st) pos = pos" "lh_prev (fst st) pos = pos" by (auto simp: dlist_def)
    obtain h1 where h1: "list_del_init (fst st) pos = Some h1" "dlist h1 pos []"
      using p by (auto simp: list_del_init_def list_del_entry_def list_del_between_def init_list_head_def heap_access_defs dlist_def)
    then have "rd_next h1 pos = Some pos" using p by (simp add: dlist_def rd_next_def)
    then have "loop rd body head pos (h1, snd st @ [pos]) = Some y"
      using run a h1 p by (simp add: drain_body_def rd_next_def)
    from IH [OF this] a h1 show False by simp
  qed
qed

lemma plain_drain_diverges:
  assumes "dlist h head (x # xs)"
  shows "list_for_each_do drain_body head (h, s) = None"
proof -
  obtain h1 where 1: "list_del_init h x = Some h1" "dlist h1 x []"
    using list_del_init_spec [of h head "[]" x xs] assms by auto
  have x: "x \<noteq> head" "x \<noteq> NULL" "head \<noteq> NULL" "lh_next h head = x" using assms by (auto simp: dlist_def)
  have "rd_next h1 x = Some x" using 1(2) x by (simp add: dlist_def rd_next_def)
  moreover have "list_loop rd_next drain_body head x (h1, s @ [x]) = None"
    using drain_self_loop [of rd_next drain_body head x "(h1, s @ [x])"] x 1 by (cases "list_loop rd_next drain_body head x (h1, s @ [x])") auto
  ultimately have "list_loop rd_next drain_body head x (h, s) = None"
    using 1 x by (subst list_loop.simps) (simp add: drain_body_def rd_next_def)
  then show ?thesis using x by (simp add: list_for_each_do_def rd_next_def)
qed

section \<open>Properties\<close>

text \<open>Draining a list in a loop needs the safe macros: over any non-empty list a body that unlinks each
  node is run by \<open>list_for_each_entry_safe\<close> exactly once per node, in order, and leaves the list empty
  (its reverse variant likewise, in reverse), while \<open>list_for_each_entry\<close> with that body never ends.\<close>

theorem list_drain_needs_safe_loop:
  assumes "dlist h head xs" "xs \<noteq> []"
  shows "(\<exists>h'. list_for_each_entry_safe drain_body head (h, []) = Some (h', xs) \<and> dlist h' head [])
    \<and> (\<exists>h'. list_for_each_entry_safe_reverse drain_body head (h, []) = Some (h', rev xs) \<and> dlist h' head [])
    \<and> list_for_each_entry drain_body head (h, []) = None"
proof (intro conjI)
  show "list_for_each_entry drain_body head (h, []) = None"
    using assms plain_drain_diverges by (cases xs) (auto simp: entry_loops)
qed (use drain_loops [OF assms(1), of "[]"] in \<open>simp_all add: entry_loops\<close>)

text \<open>A list of two nodes, 2 and 3, at the head 1.\<close>

definition two_nodes :: lheap where
  "two_nodes = \<lparr>lh_next = (\<lambda>_. 0)(1 := 2, 2 := 3, 3 := 1), lh_prev = (\<lambda>_. 0)(1 := 3, 2 := 1, 3 := 2)\<rparr>"

lemma two_nodes_list: "dlist two_nodes 1 [2, 3]"
  by (simp add: two_nodes_def dlist_def)

lemma list_drain_needs_safe_loop_witness:
  "(\<exists>h'. list_for_each_entry_safe drain_body 1 (two_nodes, []) = Some (h', [2, 3]) \<and> dlist h' 1 [])
    \<and> (\<exists>h'. list_for_each_entry_safe_reverse drain_body 1 (two_nodes, []) = Some (h', [3, 2]) \<and> dlist h' 1 [])
    \<and> list_for_each_entry drain_body 1 (two_nodes, []) = None"
  using list_drain_needs_safe_loop [OF two_nodes_list] by simp

end
