(* ===== verification/Cjson.thy ===== *)
theory Cjson
  imports Kj_Prelude
begin

text \<open>
  \<open>src/utils/cJSON.c\<close>, the tree: items, their allocation and deletion, and the walks over a tree. An item
  owns its children in order, so the \<open>next\<close>, \<open>prev\<close> and \<open>child\<close> pointers of the source are a list; trees built
  by the parser share nothing and have no reference items. A string is its address with its bytes up to
  the terminator, a \<open>double\<close> its 64 bits. \<open>malloc\<close> is a function from the number of the call to the address
  answered, 0 for NULL; \<open>cj_live\<close> counts the blocks in use, and freeing more than there are is undefined.
\<close>

section \<open>Items\<close>

type_synonym u64 = "64 word"

datatype cJSON_type = cJSON_False | cJSON_True | cJSON_NULL | cJSON_Number | cJSON_String | cJSON_Array | cJSON_Object

type_synonym c_string = "u64 \<times> u8 list"

datatype cJSON = CJSON
  (js_type: cJSON_type) (js_valuestring: "c_string option") (js_valueint: u32) (js_valuedouble: u64)
  (js_string: "c_string option") (js_child: "cJSON list")

fun set_type :: "cJSON_type \<Rightarrow> cJSON \<Rightarrow> cJSON" where
  "set_type t (CJSON _ s i d name ch) = CJSON t s i d name ch"

fun set_valueint :: "u32 \<Rightarrow> cJSON \<Rightarrow> cJSON" where
  "set_valueint i (CJSON t s _ d name ch) = CJSON t s i d name ch"

fun set_number :: "u64 \<Rightarrow> u32 \<Rightarrow> cJSON \<Rightarrow> cJSON" where
  "set_number d i (CJSON _ s _ _ name ch) = CJSON cJSON_Number s i d name ch"

fun set_valuestring :: "c_string \<Rightarrow> cJSON \<Rightarrow> cJSON" where
  "set_valuestring s (CJSON t _ i d name ch) = CJSON cJSON_String (Some s) i d name ch"

text \<open>\<open>child->string=child->valuestring;child->valuestring=0;\<close>\<close>

fun name_from_value :: "cJSON \<Rightarrow> cJSON" where
  "name_from_value (CJSON t s i d _ ch) = CJSON t None i d s ch"

fun append_child :: "cJSON \<Rightarrow> cJSON \<Rightarrow> cJSON" where
  "append_child c (CJSON t s i d name ch) = CJSON t s i d name (ch @ [c])"

section \<open>Memory\<close>

record cj_state =
  cj_ep :: "nat option"
  cj_calls :: nat
  cj_live :: nat

definition cJSON_malloc :: "(nat \<Rightarrow> u64) \<Rightarrow> cj_state \<Rightarrow> u64 \<times> cj_state" where
  "cJSON_malloc al s =
     (let a = al (cj_calls s) in
      (a, s\<lparr>cj_calls := cj_calls s + 1, cj_live := if a = 0 then cj_live s else cj_live s + 1\<rparr>))"

definition cJSON_free :: "cj_state \<Rightarrow> cj_state option" where
  "cJSON_free s = (if cj_live s = 0 then None else Some (s\<lparr>cj_live := cj_live s - 1\<rparr>))"

definition empty_item :: cJSON where
  "empty_item = CJSON cJSON_False None 0 0 None []"

definition cJSON_New_Item :: "(nat \<Rightarrow> u64) \<Rightarrow> cj_state \<Rightarrow> cJSON option \<times> cj_state" where
  "cJSON_New_Item al s =
     (case cJSON_malloc al s of (node, s) \<Rightarrow> (if node = 0 then None else Some empty_item, s))"

definition free_string :: "c_string option \<Rightarrow> cj_state \<Rightarrow> cj_state option" where
  "free_string p s = (if p = None then Some s else cJSON_free s)"

text \<open>\<open>cJSON_Delete\<close> of an item and of the chain of its children.\<close>

fun cJSON_Delete :: "cJSON \<Rightarrow> cj_state \<Rightarrow> cj_state option" and
    cJSON_Delete_chain :: "cJSON list \<Rightarrow> cj_state \<Rightarrow> cj_state option" where
  "cJSON_Delete (CJSON t v i d name ch) s = do {
     s \<leftarrow> cJSON_Delete_chain ch s;
     s \<leftarrow> free_string v s;
     s \<leftarrow> free_string name s;
     cJSON_free s }"
| "cJSON_Delete_chain [] s = Some s"
| "cJSON_Delete_chain (c # cs) s = do { s \<leftarrow> cJSON_Delete c s; cJSON_Delete_chain cs s }"

section \<open>Walking a tree\<close>

definition tolower :: "u8 \<Rightarrow> u8" where
  "tolower c = (if 65 \<le> c \<and> c \<le> 90 then c + 32 else c)"

text \<open>\<open>cJSON_strcasecmp\<close> is 0 on equal names; items without a name equal no path component.\<close>

fun strcasecmp_loop :: "u8 list \<Rightarrow> u8 list \<Rightarrow> int" where
  "strcasecmp_loop [] [] = 0"
| "strcasecmp_loop (a # as) (b # bs) =
     (if tolower a = tolower b then strcasecmp_loop as bs else uint (tolower a) - uint (tolower b))"
| "strcasecmp_loop [] (b # bs) = - uint (tolower b)"
| "strcasecmp_loop (a # as) [] = uint (tolower a)"

definition cJSON_strcasecmp :: "c_string option \<Rightarrow> u8 list option \<Rightarrow> int" where
  "cJSON_strcasecmp s1 s2 =
     (case s1 of None \<Rightarrow> (if s2 = None then 0 else 1)
      | Some a \<Rightarrow> (case s2 of None \<Rightarrow> 1 | Some b \<Rightarrow> strcasecmp_loop (snd a) b))"

definition cJSON_GetObjectItem :: "cJSON \<Rightarrow> u8 list \<Rightarrow> cJSON option" where
  "cJSON_GetObjectItem object str = List.find (\<lambda>c. cJSON_strcasecmp (js_string c) (Some str) = 0) (js_child object)"

definition cJSON_GetArraySize :: "cJSON \<Rightarrow> int" where
  "cJSON_GetArraySize array = int (length (js_child array))"

fun get_item_loop :: "cJSON list \<Rightarrow> int \<Rightarrow> cJSON option" where
  "get_item_loop [] item = None"
| "get_item_loop (c # cs) item = (if 0 < item then get_item_loop cs (item - 1) else Some c)"

definition cJSON_GetArrayItem :: "cJSON \<Rightarrow> int \<Rightarrow> cJSON option" where
  "cJSON_GetArrayItem array item = get_item_loop (js_child array) item"

section \<open>Blocks\<close>

text \<open>The blocks an item occupies: its node, its strings and its children.\<close>

definition string_block :: "c_string option \<Rightarrow> nat" where
  "string_block p = (if p = None then 0 else 1)"

fun blocks :: "cJSON \<Rightarrow> nat" where
  "blocks (CJSON t v i d name ch) = 1 + string_block v + string_block name + sum_list (map blocks ch)"

lemma blocks_simps [simp]:
  "blocks empty_item = 1"
  "blocks (set_type t c) = blocks c"
  "blocks (set_valueint i c) = blocks c"
  "blocks (set_number d i c) = blocks c"
  "blocks (append_child x c) = blocks c + blocks x"
  "js_valuestring c = None \<Longrightarrow> blocks (set_valuestring v c) = blocks c + 1"
  "js_string c = None \<Longrightarrow> blocks (name_from_value c) = blocks c"
  by (cases c; simp add: empty_item_def string_block_def)+

lemma item_simps [simp]:
  "js_type (set_type t c) = t" "js_type (set_valueint i c) = js_type c" "js_type (set_number d i c) = cJSON_Number"
  "js_type (set_valuestring v c) = cJSON_String" "js_type (append_child x c) = js_type c"
  "js_valuestring (set_type t c) = js_valuestring c" "js_valuestring (set_valueint i c) = js_valuestring c"
  "js_valuestring (set_number d i c) = js_valuestring c" "js_valuestring (set_valuestring v c) = Some v"
  "js_valuestring (append_child x c) = js_valuestring c" "js_valuestring (name_from_value c) = None"
  "js_string (set_type t c) = js_string c" "js_string (set_valueint i c) = js_string c"
  "js_string (set_number d i c) = js_string c" "js_string (set_valuestring v c) = js_string c"
  "js_string (append_child x c) = js_string c" "js_string (name_from_value c) = js_valuestring c"
  "js_child (set_type t c) = js_child c" "js_child (set_valueint i c) = js_child c"
  "js_child (set_number d i c) = js_child c" "js_child (set_valuestring v c) = js_child c"
  "js_child (append_child x c) = js_child c @ [x]" "js_child (name_from_value c) = js_child c"
  "js_valueint (set_type t c) = js_valueint c" "js_valueint (set_valueint i c) = i" "js_valueint (set_number d i c) = i"
  "js_valueint (set_valuestring v c) = js_valueint c" "js_valueint (append_child x c) = js_valueint c"
  "js_valuedouble (set_number d i c) = d" "js_valuedouble (append_child x c) = js_valuedouble c"
  by (cases c; simp)+

lemma empty_item_simps [simp]:
  "js_type empty_item = cJSON_False" "js_valuestring empty_item = None" "js_string empty_item = None"
  "js_child empty_item = []"
  by (simp_all add: empty_item_def)

text \<open>Deleting an item frees exactly its blocks.\<close>

lemma cJSON_Delete_frees:
  "blocks c \<le> cj_live s \<Longrightarrow> cJSON_Delete c s = Some (s\<lparr>cj_live := cj_live s - blocks c\<rparr>)"
  "sum_list (map blocks cs) \<le> cj_live s \<Longrightarrow>
     cJSON_Delete_chain cs s = Some (s\<lparr>cj_live := cj_live s - sum_list (map blocks cs)\<rparr>)"
  by (induction c s and cs s rule: cJSON_Delete_cJSON_Delete_chain.induct)
    (auto simp: free_string_def cJSON_free_def string_block_def)

lemma cJSON_New_Item_cases:
  assumes "cJSON_New_Item al s = (r, s')"
  shows "(r = None \<and> cj_live s' = cj_live s \<or> r = Some empty_item \<and> cj_live s' = cj_live s + 1) \<and> cj_ep s' = cj_ep s"
  using assms by (auto simp: cJSON_New_Item_def cJSON_malloc_def Let_def split: if_splits)

lemma get_item_loop_nth: "0 \<le> i \<Longrightarrow> get_item_loop cs i = (if nat i < length cs then Some (cs ! nat i) else None)"
  by (induction cs i rule: get_item_loop.induct) (auto simp: nth_Cons' nat_diff_distrib)

text \<open>Items are numbered from 0; a negative number gives the first.\<close>

lemma cJSON_GetArrayItem_nth:
  "0 \<le> i \<Longrightarrow> cJSON_GetArrayItem array i = (if i < cJSON_GetArraySize array then Some (js_child array ! nat i) else None)"
  by (auto simp: cJSON_GetArrayItem_def cJSON_GetArraySize_def get_item_loop_nth)

lemma cJSON_GetArrayItem_negative: "i < 0 \<Longrightarrow> cJSON_GetArrayItem array i = (if js_child array = [] then None else Some (hd (js_child array)))"
  by (cases "js_child array") (auto simp: cJSON_GetArrayItem_def)

end
