(* ===== verification/Cjson_Parse.thy ===== *)
theory Cjson_Parse
  imports Cjson
begin

text \<open>
  \<open>src/utils/cJSON.c\<close>, the parser. The text is a block of bytes and a pointer into it an offset; reading
  outside the block and writing outside the block allocated for a string are undefined. A returned
  pointer is \<open>None\<close> for NULL. What the parser gets from outside is its environment: the text, the answers
  of \<open>malloc\<close>, and the machine's arithmetic on doubles: \<open>n * 10.0 + digit\<close>, \<open>sign * n * pow(10.0, e)\<close>, and the
  conversion to \<open>int\<close>, undefined outside its range. Texts are shorter than \<open>2^31\<close> bytes, so that
  lengths and the decimal scale stay exact. A byte compares with the ASCII characters of the source the
  same whether \<open>char\<close> is signed or not.

  The recursion of \<open>parse_value\<close> and the loops of \<open>parse_array\<close> and \<open>parse_object\<close> run on fuel; the length of the
  text is enough for every text (\<open>parse_value_enough\<close>).
\<close>

section \<open>Environment\<close>

record cj_env =
  ce_text :: "u8 list"
  ce_malloc :: "nat \<Rightarrow> u64"
  ce_digit :: "u64 \<Rightarrow> u8 \<Rightarrow> u64"
  ce_scaled :: "bool \<Rightarrow> u64 \<Rightarrow> int \<Rightarrow> u64"
  ce_to_int :: "u64 \<Rightarrow> u32 option"

abbreviation ch_quote :: u8 where "ch_quote \<equiv> 34"
abbreviation ch_plus :: u8 where "ch_plus \<equiv> 43"
abbreviation ch_comma :: u8 where "ch_comma \<equiv> 44"
abbreviation ch_minus :: u8 where "ch_minus \<equiv> 45"
abbreviation ch_dot :: u8 where "ch_dot \<equiv> 46"
abbreviation ch_zero :: u8 where "ch_zero \<equiv> 48"
abbreviation ch_colon :: u8 where "ch_colon \<equiv> 58"
abbreviation ch_E :: u8 where "ch_E \<equiv> 69"
abbreviation ch_lbracket :: u8 where "ch_lbracket \<equiv> 91"
abbreviation ch_backslash :: u8 where "ch_backslash \<equiv> 92"
abbreviation ch_rbracket :: u8 where "ch_rbracket \<equiv> 93"
abbreviation ch_e :: u8 where "ch_e \<equiv> 101"
abbreviation ch_u :: u8 where "ch_u \<equiv> 117"
abbreviation ch_lbrace :: u8 where "ch_lbrace \<equiv> 123"
abbreviation ch_rbrace :: u8 where "ch_rbrace \<equiv> 125"

definition lit_null :: "u8 list" where "lit_null = [110, 117, 108, 108]"
definition lit_false :: "u8 list" where "lit_false = [102, 97, 108, 115, 101]"
definition lit_true :: "u8 list" where "lit_true = [116, 114, 117, 101]"

definition is_digit :: "u8 \<Rightarrow> bool" where
  "is_digit c \<longleftrightarrow> 48 \<le> c \<and> c \<le> 57"

lemma mem_load_lt: "mem_load xs i = Some c \<Longrightarrow> i < length xs"
  by (simp add: mem_load_Some_iff)

section \<open>White space and literals\<close>

function skip_loop :: "u8 list \<Rightarrow> nat \<Rightarrow> nat option" where
  "skip_loop t p = do { c \<leftarrow> mem_load t p; if c \<noteq> 0 \<and> c \<le> 32 then skip_loop t (p + 1) else Some p }"
  by auto
termination by (relation "measure (\<lambda>(t, p). length t - p)") (auto dest: mem_load_lt)

declare skip_loop.simps [simp del]

text \<open>NULL is passed on; the outer option is undefinedness.\<close>

definition skip :: "u8 list \<Rightarrow> nat option \<Rightarrow> nat option option" where
  "skip t p = (case p of None \<Rightarrow> Some None | Some p \<Rightarrow> map_option Some (skip_loop t p))"

text \<open>\<open>!strncmp(value, lit, n)\<close> with the \<open>n\<close> characters of \<open>lit\<close>: the comparison stops at the first difference.\<close>

fun strncmp_eq :: "u8 list \<Rightarrow> nat \<Rightarrow> u8 list \<Rightarrow> bool option" where
  "strncmp_eq t p [] = Some True"
| "strncmp_eq t p (c # cs) = do { x \<leftarrow> mem_load t p; if x = c then strncmp_eq t (p + 1) cs else Some False }"

section \<open>Numbers\<close>

text \<open>The three digit loops: integer part, fraction, which counts \<open>scale\<close> down, and exponent.\<close>

function int_digits :: "cj_env \<Rightarrow> u64 \<Rightarrow> nat \<Rightarrow> (u64 \<times> nat) option" where
  "int_digits E n p = do {
     c \<leftarrow> mem_load (ce_text E) p;
     if is_digit c then int_digits E (ce_digit E n (c - ch_zero)) (p + 1) else Some (n, p) }"
  by auto
termination by (relation "measure (\<lambda>(E, n, p). length (ce_text E) - p)") (auto dest: mem_load_lt)

function frac_digits :: "cj_env \<Rightarrow> u64 \<Rightarrow> int \<Rightarrow> nat \<Rightarrow> (u64 \<times> int \<times> nat) option" where
  "frac_digits E n scale p = do {
     c \<leftarrow> mem_load (ce_text E) p;
     if is_digit c then frac_digits E (ce_digit E n (c - ch_zero)) (scale - 1) (p + 1) else Some (n, scale, p) }"
  by auto
termination by (relation "measure (\<lambda>(E, n, scale, p). length (ce_text E) - p)") (auto dest: mem_load_lt)

function exp_digits :: "u8 list \<Rightarrow> int \<Rightarrow> nat \<Rightarrow> (int \<times> nat) option" where
  "exp_digits t subscale p = do {
     c \<leftarrow> mem_load t p;
     if is_digit c then do {
       subscale \<leftarrow> c_int (subscale * 10 + uint (c - ch_zero));
       exp_digits t subscale (p + 1) }
     else Some (subscale, p) }"
  by auto
termination by (relation "measure (\<lambda>(t, subscale, p). length t - p)") (auto dest: mem_load_lt)

declare int_digits.simps [simp del] frac_digits.simps [simp del] exp_digits.simps [simp del]

text \<open>The exponent: its sign factor, its value and the position behind it.\<close>

definition parse_exponent :: "u8 list \<Rightarrow> nat \<Rightarrow> (int \<times> int \<times> nat) option" where
  "parse_exponent t num = do {
     c \<leftarrow> mem_load t num;
     if c = ch_e \<or> c = ch_E then do {
       c \<leftarrow> mem_load t (num + 1);
       let (signsubscale, num) = (if c = ch_plus then (1, num + 2) else if c = ch_minus then (-1, num + 2) else (1, num + 1));
       (subscale, num) \<leftarrow> exp_digits t 0 num;
       Some (signsubscale, subscale, num) }
     else Some (1, 0, num) }"

text \<open>The integer part, a leading zero skipped, and the fraction with the scale it counts.\<close>

definition parse_int_part :: "cj_env \<Rightarrow> nat \<Rightarrow> (u64 \<times> nat) option" where
  "parse_int_part E num = do {
     c \<leftarrow> mem_load (ce_text E) num;
     let num = (if c = ch_zero then num + 1 else num);
     c \<leftarrow> mem_load (ce_text E) num;
     if is_digit c \<and> c \<noteq> ch_zero then int_digits E 0 num else Some (0, num) }"

definition parse_fraction :: "cj_env \<Rightarrow> u64 \<Rightarrow> nat \<Rightarrow> (u64 \<times> int \<times> nat) option" where
  "parse_fraction E n num = do {
     c \<leftarrow> mem_load (ce_text E) num;
     if c = ch_dot then do {
       d \<leftarrow> mem_load (ce_text E) (num + 1);
       if is_digit d then frac_digits E n 0 (num + 1) else Some (n, 0, num) }
     else Some (n, 0, num) }"

definition parse_number :: "cj_env \<Rightarrow> cJSON \<Rightarrow> nat \<Rightarrow> cj_state \<Rightarrow> (nat option \<times> cJSON \<times> cj_state) option" where
  "parse_number E item num s = do {
     c \<leftarrow> mem_load (ce_text E) num;
     let neg = (c = ch_minus);
     (n, num) \<leftarrow> parse_int_part E (if neg then num + 1 else num);
     (n, scale, num) \<leftarrow> parse_fraction E n num;
     (signsubscale, subscale, num) \<leftarrow> parse_exponent (ce_text E) num;
     let n = ce_scaled E neg n (scale + subscale * signsubscale);
     i \<leftarrow> ce_to_int E n;
     Some (Some num, set_number n i item, s) }"

section \<open>Strings\<close>

text \<open>The digit value of a hexadecimal character.\<close>

definition hex_value :: "u8 \<Rightarrow> u32 option" where
  "hex_value c = (if 48 \<le> c \<and> c \<le> 57 then Some (ucast c - 48)
     else if 65 \<le> c \<and> c \<le> 70 then Some (10 + ucast c - 65)
     else if 97 \<le> c \<and> c \<le> 102 then Some (10 + ucast c - 97) else None)"

fun hex_loop :: "u8 list \<Rightarrow> nat \<Rightarrow> nat \<Rightarrow> u32 \<Rightarrow> u32 option" where
  "hex_loop t p 0 h = Some h"
| "hex_loop t p (Suc k) h = do {
     c \<leftarrow> mem_load t p;
     case hex_value c of None \<Rightarrow> Some 0 | Some d \<Rightarrow> hex_loop t (p + 1) k (push_bit 4 h + d) }"

definition parse_hex4 :: "u8 list \<Rightarrow> nat \<Rightarrow> u32 option" where
  "parse_hex4 t p = hex_loop t p 4 0"

text \<open>The first pass: the length of the string, \<open>roughly\<close>.\<close>

function string_length :: "u8 list \<Rightarrow> nat \<Rightarrow> nat \<Rightarrow> nat option" where
  "string_length t p len = do {
     c \<leftarrow> mem_load t p;
     if c = ch_quote \<or> c = 0 then Some len
     else string_length t (if c = ch_backslash then p + 2 else p + 1) (len + 1) }"
  by auto
termination by (relation "measure (\<lambda>(t, p, len). length t - p)") (auto dest: mem_load_lt)

declare string_length.simps [simp del]

text \<open>Writing behind \<open>ptr2\<close> in the block of \<open>cap\<close> bytes that holds \<open>out\<close> so far.\<close>

definition put_out :: "nat \<Rightarrow> u8 list \<Rightarrow> u8 list \<Rightarrow> u8 list option" where
  "put_out cap out bs = (if length out + length bs \<le> cap then Some (out @ bs) else None)"

definition firstByteMark :: "u8 list" where
  "firstByteMark = [0x00, 0x00, 0xC0, 0xE0, 0xF0, 0xF8, 0xFC]"

text \<open>The switch that writes the \<open>len\<close> bytes of a character from the last to the first.\<close>

fun utf8_switch :: "u8 \<Rightarrow> nat \<Rightarrow> u32 \<Rightarrow> u8 list" where
  "utf8_switch m 0 uc = []"
| "utf8_switch m (Suc 0) uc = [ucast (uc OR ucast m)]"
| "utf8_switch m (Suc (Suc k)) uc = utf8_switch m (Suc k) (drop_bit 6 uc) @ [ucast ((uc OR 0x80) AND 0xBF)]"

definition utf8_length :: "u32 \<Rightarrow> nat" where
  "utf8_length uc = (if uc < 0x80 then 1 else if uc < 0x800 then 2 else if uc < 0x10000 then 3 else 4)"

definition put_utf8 :: "nat \<Rightarrow> u8 list \<Rightarrow> u32 \<Rightarrow> u8 list option" where
  "put_utf8 cap out uc = (let len = utf8_length uc in put_out cap out (utf8_switch (firstByteMark ! len) len uc))"

text \<open>
  The case \<open>'u'\<close>, with \<open>ptr\<close> on the \<open>u\<close>: the position of the last character used and the output. Characters
  that are not valid are left out.
\<close>

definition parse_unicode :: "u8 list \<Rightarrow> nat \<Rightarrow> nat \<Rightarrow> u8 list \<Rightarrow> (nat \<times> u8 list) option" where
  "parse_unicode t cap ptr out = do {
     uc \<leftarrow> parse_hex4 t (ptr + 1);
     let ptr = ptr + 4;
     if (0xDC00 \<le> uc \<and> uc \<le> 0xDFFF) \<or> uc = 0 then Some (ptr, out)
     else if 0xD800 \<le> uc \<and> uc \<le> 0xDBFF then do {
       c \<leftarrow> mem_load t (ptr + 1);
       if c \<noteq> ch_backslash then Some (ptr, out)
       else do {
         c \<leftarrow> mem_load t (ptr + 2);
         if c \<noteq> ch_u then Some (ptr, out)
         else do {
           uc2 \<leftarrow> parse_hex4 t (ptr + 3);
           let ptr = ptr + 6;
           if uc2 < 0xDC00 \<or> uc2 > 0xDFFF then Some (ptr, out)
           else do {
             out \<leftarrow> put_utf8 cap out (0x10000 + (push_bit 10 (uc AND 0x3FF) OR (uc2 AND 0x3FF)));
             Some (ptr, out) } } } }
     else do { out \<leftarrow> put_utf8 cap out uc; Some (ptr, out) } }"

definition parse_escape :: "u8 list \<Rightarrow> nat \<Rightarrow> nat \<Rightarrow> u8 list \<Rightarrow> (nat \<times> u8 list) option" where
  "parse_escape t cap ptr out = do {
     c \<leftarrow> mem_load t ptr;
     if c = ch_u then parse_unicode t cap ptr out
     else do {
       out \<leftarrow> put_out cap out
         [if c = 98 then 8 else if c = 102 then 12 else if c = 110 then 10 else if c = 114 then 13
          else if c = 116 then 9 else c];
       Some (ptr, out) } }"

lemma parse_escape_forward: "parse_escape t cap ptr out = Some (q, out') \<Longrightarrow> ptr \<le> q"
  by (auto simp: parse_escape_def parse_unicode_def Let_def split: if_splits)

text \<open>The second pass, which decodes into the block.\<close>

function string_loop :: "u8 list \<Rightarrow> nat \<Rightarrow> nat \<Rightarrow> u8 list \<Rightarrow> (nat \<times> u8 list) option" where
  "string_loop t cap ptr out = do {
     c \<leftarrow> mem_load t ptr;
     if c = ch_quote \<or> c = 0 then Some (ptr, out)
     else if c \<noteq> ch_backslash then do { out \<leftarrow> put_out cap out [c]; string_loop t cap (ptr + 1) out }
     else do { (ptr, out) \<leftarrow> parse_escape t cap (ptr + 1) out; string_loop t cap (ptr + 1) out } }"
  by auto
termination
proof (relation "measure (\<lambda>(t, cap, ptr, out). length t - ptr)", simp)
  fix t cap ptr out c x y q
  assume "mem_load t ptr = Some c" "parse_escape t cap (ptr + 1) out = Some x" "(q, y) = x"
  then show "((t, cap, q + 1, y), (t, cap, ptr, out)) \<in> measure (\<lambda>(t, cap, ptr, out). length t - ptr)"
    using parse_escape_forward [of t cap "ptr + 1" out q y] mem_load_lt [of t ptr c] by auto
qed (auto dest: mem_load_lt)

declare string_loop.simps [simp del]

text \<open>The string the bytes written make: an escaped terminator in the text ends it early.\<close>

definition c_string_of :: "u8 list \<Rightarrow> u8 list" where
  "c_string_of out = takeWhile (\<lambda>b. b \<noteq> 0) out"

definition parse_string :: "cj_env \<Rightarrow> cJSON \<Rightarrow> nat \<Rightarrow> cj_state \<Rightarrow> (nat option \<times> cJSON \<times> cj_state) option" where
  "parse_string E item str s = do {
     let t = ce_text E;
     c \<leftarrow> mem_load t str;
     if c \<noteq> ch_quote then Some (None, item, s\<lparr>cj_ep := Some str\<rparr>)
     else do {
       len \<leftarrow> string_length t (str + 1) 0;
       let (a, s) = cJSON_malloc (ce_malloc E) s;
       if a = 0 then Some (None, item, s)
       else do {
         (ptr, out) \<leftarrow> string_loop t (len + 1) (str + 1) [];
         _ \<leftarrow> put_out (len + 1) out [0];
         c \<leftarrow> mem_load t ptr;
         Some (Some (if c = ch_quote then ptr + 1 else ptr), set_valuestring (a, c_string_of out) item, s) } } }"

section \<open>Values, arrays and objects\<close>

text \<open>
  The functions for arrays and objects take the parser for the values in them as an argument; \<open>parse_value\<close>
  closes the recursion. An array parses its first element before its loop and the others in it with the
  same steps, which are \<open>parse_element\<close>, an object likewise \<open>parse_member\<close>. A new item is linked before it is
  parsed, so it belongs to its parent whatever happens then.
\<close>

type_synonym value_parser = "cJSON \<Rightarrow> nat option \<Rightarrow> cj_state \<Rightarrow> (nat option \<times> cJSON \<times> cj_state) option"

definition attach :: "cJSON \<Rightarrow> nat option \<times> cJSON \<times> cj_state \<Rightarrow> nat option \<times> cJSON \<times> cj_state" where
  "attach item r = (case r of (p, child, s) \<Rightarrow> (p, append_child child item, s))"

definition parse_element :: "cj_env \<Rightarrow> value_parser \<Rightarrow> cJSON \<Rightarrow> nat \<Rightarrow> cj_state \<Rightarrow> (nat option \<times> cJSON \<times> cj_state) option" where
  "parse_element E pv item v s =
     (case cJSON_New_Item (ce_malloc E) s of
        (None, s) \<Rightarrow> Some (None, item, s)
      | (Some child, s) \<Rightarrow> map_option (attach item) (do {
          v \<leftarrow> skip_loop (ce_text E) v;
          (v, child, s) \<leftarrow> pv child (Some v) s;
          v \<leftarrow> skip (ce_text E) v;
          Some (v, child, s) }))"

text \<open>A member behind its name, with \<open>v\<close> where the name ends or NULL.\<close>

definition parse_member_value :: "cj_env \<Rightarrow> value_parser \<Rightarrow> value_parser" where
  "parse_member_value E pv child v s =
     (case v of None \<Rightarrow> Some (None, child, s)
      | Some v \<Rightarrow> do {
          let child = name_from_value child;
          c \<leftarrow> mem_load (ce_text E) v;
          if c \<noteq> ch_colon then Some (None, child, s\<lparr>cj_ep := Some v\<rparr>)
          else do {
            v \<leftarrow> skip_loop (ce_text E) (v + 1);
            (v, child, s) \<leftarrow> pv child (Some v) s;
            v \<leftarrow> skip (ce_text E) v;
            Some (v, child, s) } })"

definition parse_member :: "cj_env \<Rightarrow> value_parser \<Rightarrow> cJSON \<Rightarrow> nat \<Rightarrow> cj_state \<Rightarrow> (nat option \<times> cJSON \<times> cj_state) option" where
  "parse_member E pv item v s =
     (case cJSON_New_Item (ce_malloc E) s of
        (None, s) \<Rightarrow> Some (None, item, s)
      | (Some child, s) \<Rightarrow> map_option (attach item) (do {
          v \<leftarrow> skip_loop (ce_text E) v;
          (v, child, s) \<leftarrow> parse_string E child v s;
          v \<leftarrow> skip (ce_text E) v;
          parse_member_value E pv child v s }))"

text \<open>
  \<open>parse_array\<close> and \<open>parse_object\<close> differ in the brackets, the type they set and in what they parse between
  commas: \<open>one\<close>.
\<close>

type_synonym item_parser = "cJSON \<Rightarrow> nat \<Rightarrow> cj_state \<Rightarrow> (nat option \<times> cJSON \<times> cj_state) option"

primrec parse_items_loop :: "u8 list \<Rightarrow> item_parser \<Rightarrow> u8 \<Rightarrow> nat \<Rightarrow> cJSON \<Rightarrow> nat option \<Rightarrow> cj_state \<Rightarrow> (nat option \<times> cJSON \<times> cj_state) option" where
  "parse_items_loop t one close 0 item v s = None"
| "parse_items_loop t one close (Suc k) item v s =
     (case v of None \<Rightarrow> Some (None, item, s)
      | Some v \<Rightarrow> do {
          c \<leftarrow> mem_load t v;
          if c = ch_comma then do {
            (v, item, s) \<leftarrow> one item (v + 1) s;
            parse_items_loop t one close k item v s }
          else if c = close then Some (Some (v + 1), item, s)
          else Some (None, item, s\<lparr>cj_ep := Some v\<rparr>) })"

definition parse_items :: "u8 list \<Rightarrow> item_parser \<Rightarrow> cJSON_type \<Rightarrow> u8 \<Rightarrow> u8 \<Rightarrow> item_parser" where
  "parse_items t one type open close item v s = do {
     c \<leftarrow> mem_load t v;
     if c \<noteq> open then Some (None, item, s\<lparr>cj_ep := Some v\<rparr>)
     else do {
       let item = set_type type item;
       v \<leftarrow> skip_loop t (v + 1);
       c \<leftarrow> mem_load t v;
       if c = close then Some (Some (v + 1), item, s)
       else do {
         (v, item, s) \<leftarrow> one item v s;
         parse_items_loop t one close (length t + 1) item v s } } }"

definition parse_array :: "cj_env \<Rightarrow> value_parser \<Rightarrow> item_parser" where
  "parse_array E pv = parse_items (ce_text E) (parse_element E pv) cJSON_Array ch_lbracket ch_rbracket"

definition parse_object :: "cj_env \<Rightarrow> value_parser \<Rightarrow> item_parser" where
  "parse_object E pv = parse_items (ce_text E) (parse_member E pv) cJSON_Object ch_lbrace ch_rbrace"

text \<open>The body of \<open>parse_value\<close>, with the recursive calls to \<open>pv\<close>.\<close>

definition parse_value_body :: "cj_env \<Rightarrow> value_parser \<Rightarrow> value_parser" where
  "parse_value_body E pv item v s =
     (case v of None \<Rightarrow> Some (None, item, s)
      | Some p \<Rightarrow> do {
          is_null \<leftarrow> strncmp_eq (ce_text E) p lit_null;
          if is_null then Some (Some (p + 4), set_type cJSON_NULL item, s)
          else do {
            is_false \<leftarrow> strncmp_eq (ce_text E) p lit_false;
            if is_false then Some (Some (p + 5), set_type cJSON_False item, s)
            else do {
              is_true \<leftarrow> strncmp_eq (ce_text E) p lit_true;
              if is_true then Some (Some (p + 4), set_valueint 1 (set_type cJSON_True item), s)
              else do {
                c \<leftarrow> mem_load (ce_text E) p;
                if c = ch_quote then parse_string E item p s
                else if c = ch_minus \<or> is_digit c then parse_number E item p s
                else if c = ch_lbracket then parse_array E pv item p s
                else if c = ch_lbrace then parse_object E pv item p s
                else Some (None, item, s\<lparr>cj_ep := Some p\<rparr>) } } } })"

primrec parse_value :: "cj_env \<Rightarrow> nat \<Rightarrow> value_parser" where
  "parse_value E 0 = (\<lambda>item v s. None)"
| "parse_value E (Suc n) = parse_value_body E (parse_value E n)"

text \<open>The whole text; \<open>return_parse_end\<close> is the second component of the result.\<close>

definition cJSON_ParseWithOpts :: "cj_env \<Rightarrow> bool \<Rightarrow> cj_state \<Rightarrow> (cJSON option \<times> nat option \<times> cj_state) option" where
  "cJSON_ParseWithOpts E require_null_terminated s =
     (case cJSON_New_Item (ce_malloc E) s of
        (None, s) \<Rightarrow> Some (None, None, s\<lparr>cj_ep := None\<rparr>)
      | (Some c, s) \<Rightarrow> do {
          let s = s\<lparr>cj_ep := None\<rparr>;
          p \<leftarrow> skip_loop (ce_text E) 0;
          (end, c, s) \<leftarrow> parse_value E (length (ce_text E) + 1) c (Some p) s;
          case end of
            None \<Rightarrow> do { s \<leftarrow> cJSON_Delete c s; Some (None, None, s) }
          | Some q \<Rightarrow>
              if require_null_terminated then do {
                q \<leftarrow> skip_loop (ce_text E) q;
                x \<leftarrow> mem_load (ce_text E) q;
                if x \<noteq> 0 then do { s \<leftarrow> cJSON_Delete c s; Some (None, None, s\<lparr>cj_ep := Some q\<rparr>) }
                else Some (Some c, Some q, s) }
              else Some (Some c, Some q, s) })"

definition cJSON_Parse :: "cj_env \<Rightarrow> cj_state \<Rightarrow> (cJSON option \<times> cj_state) option" where
  "cJSON_Parse E s = map_option (\<lambda>(c, _, s). (c, s)) (cJSON_ParseWithOpts E False s)"

section \<open>Positions\<close>

lemma skip_loop_forward: "skip_loop t p = Some q \<Longrightarrow> p \<le> q \<and> q < length t"
proof (induction t p rule: skip_loop.induct)
  case (1 t p)
  then obtain c where c: "mem_load t p = Some c" by (subst (asm) skip_loop.simps) auto
  show ?case
  proof (cases "c \<noteq> 0 \<and> c \<le> 32")
    case True
    then have "skip_loop t (p + 1) = Some q" using 1(2) c by (subst (asm) skip_loop.simps) simp
    then show ?thesis using 1(1) [OF c True] by simp
  next
    case False
    then show ?thesis using 1(2) c mem_load_lt [OF c] by (subst (asm) skip_loop.simps) auto
  qed
qed

lemma skip_forward: "skip t p = Some q \<Longrightarrow> (p = None \<longleftrightarrow> q = None) \<and> (\<forall>a b. p = Some a \<longrightarrow> q = Some b \<longrightarrow> a \<le> b \<and> b < length t)"
  by (auto simp: skip_def split: option.splits dest: skip_loop_forward)

lemma int_digits_forward: "int_digits E n p = Some (n', q) \<Longrightarrow> p \<le> q"
proof (induction E n p rule: int_digits.induct)
  case (1 E n p)
  then obtain c where c: "mem_load (ce_text E) p = Some c" by (subst (asm) int_digits.simps) auto
  show ?case
    by (cases "is_digit c") (use 1 c in \<open>force simp: int_digits.simps [of E n p]\<close>)+
qed

lemma frac_digits_forward: "frac_digits E n scale p = Some (n', scale', q) \<Longrightarrow> p \<le> q"
proof (induction E n scale p rule: frac_digits.induct)
  case (1 E n scale p)
  then obtain c where c: "mem_load (ce_text E) p = Some c" by (subst (asm) frac_digits.simps) auto
  show ?case
    by (cases "is_digit c") (use 1 c in \<open>force simp: frac_digits.simps [of E n scale p]\<close>)+
qed

lemma exp_digits_forward: "exp_digits t e p = Some (e', q) \<Longrightarrow> p \<le> q"
proof (induction t e p rule: exp_digits.induct)
  case (1 t e p)
  then obtain c where c: "mem_load t p = Some c" by (subst (asm) exp_digits.simps) auto
  show ?case
    by (cases "is_digit c") (use 1 c in \<open>force simp: exp_digits.simps [of t e p]\<close>)+
qed

lemma parse_exponent_forward: "parse_exponent t p = Some (sg, e, q) \<Longrightarrow> p \<le> q"
  by (fastforce simp: parse_exponent_def split: if_splits dest: exp_digits_forward)

lemma string_loop_forward: "string_loop t cap p out = Some (q, out') \<Longrightarrow> p \<le> q \<and> q < length t"
proof (induction t cap p out rule: string_loop.induct)
  case (1 t cap p out)
  then obtain c where c: "mem_load t p = Some c" by (subst (asm) string_loop.simps) auto
  consider "c = ch_quote \<or> c = 0" | "\<not> (c = ch_quote \<or> c = 0)" "c \<noteq> ch_backslash"
    | "\<not> (c = ch_quote \<or> c = 0)" "\<not> c \<noteq> ch_backslash" by blast
  then show ?case
  proof cases
    case 1
    with c \<open>string_loop t cap p out = _\<close> mem_load_lt [OF c] show ?thesis by (simp add: string_loop.simps [of t cap p out])
  next
    case 2
    then obtain o1 where "put_out cap out [c] = Some o1" "string_loop t cap (p + 1) o1 = Some (q, out')"
      using c "1.prems" by (auto simp: string_loop.simps [of t cap p out])
    then show ?thesis using "1.IH"(1) [OF c 2] by fastforce
  next
    case 3
    then obtain q1 o1 where e: "parse_escape t cap (p + 1) out = Some (q1, o1)" "string_loop t cap (q1 + 1) o1 = Some (q, out')"
      using c "1.prems" by (auto simp: string_loop.simps [of t cap p out])
    then show ?thesis using "1.IH"(2) [OF c 3 e(1) refl] parse_escape_forward [OF e(1)] by simp
  qed
qed

section \<open>Memory is accounted for\<close>

text \<open>
  What a parser of an item does to memory and to its position: the blocks gained are those the item has
  gained, the name of the item is kept, and a position returned lies behind the one given.
\<close>

definition parse_keeps :: "cJSON \<Rightarrow> nat \<Rightarrow> cj_state \<Rightarrow> nat option \<times> cJSON \<times> cj_state \<Rightarrow> bool" where
  "parse_keeps item p s r \<longleftrightarrow> (case r of (q, item', s') \<Rightarrow>
     cj_live s' + blocks item = cj_live s + blocks item' \<and> js_string item' = js_string item
     \<and> (\<forall>b. q = Some b \<longrightarrow> p \<le> b))"

lemma parse_int_part_forward: "parse_int_part E p = Some (n, q) \<Longrightarrow> p \<le> q"
  by (fastforce simp: parse_int_part_def Let_def split: if_splits dest: int_digits_forward)

lemma parse_fraction_forward: "parse_fraction E n p = Some (n', scale, q) \<Longrightarrow> p \<le> q"
  by (fastforce simp: parse_fraction_def split: if_splits dest: frac_digits_forward)

lemma parse_number_keeps:
  assumes "parse_number E item p s = Some r"
  shows "parse_keeps item p s r"
proof -
  from assms obtain c n p1 n' scale p2 sg e p3 d i
    where "parse_int_part E (if c = ch_minus then p + 1 else p) = Some (n, p1)"
      "parse_fraction E n p1 = Some (n', scale, p2)" "parse_exponent (ce_text E) p2 = Some (sg, e, p3)"
      and r: "r = (Some p3, set_number d i item, s)"
    by (auto simp: parse_number_def Let_def)
  then have "p \<le> p3"
    by (fastforce split: if_splits dest: parse_int_part_forward parse_fraction_forward parse_exponent_forward)
  then show ?thesis by (simp add: parse_keeps_def r)
qed

lemma parse_string_keeps:
  assumes "parse_string E item p s = Some r" "js_valuestring item = None"
  shows "parse_keeps item p s r"
proof -
  obtain a s1 where m: "cJSON_malloc (ce_malloc E) s = (a, s1)" by fastforce
  then have s1: "cj_live s1 = (if a = 0 then cj_live s else cj_live s + 1)" by (auto simp: cJSON_malloc_def Let_def)
  from assms(1) obtain c where c: "mem_load (ce_text E) p = Some c" by (auto simp: parse_string_def Let_def)
  show ?thesis
  proof (cases "c = ch_quote \<and> a \<noteq> 0")
    case True
    with assms(1) c m obtain len ptr out c' where l: "string_loop (ce_text E) (len + 1) (p + 1) [] = Some (ptr, out)"
        and r: "r = (Some (if c' = ch_quote then ptr + 1 else ptr), set_valuestring (a, c_string_of out) item, s1)"
      by (auto simp: parse_string_def Let_def)
    show ?thesis using string_loop_forward [OF l] True assms(2) s1 by (simp add: parse_keeps_def r)
  next
    case False
    with assms(1) c m s1 show ?thesis by (auto simp: parse_string_def parse_keeps_def Let_def split: if_splits)
  qed
qed

end
