(* ===== verification/Cjson_Memory.thy ===== *)
theory Cjson_Memory
  imports Cjson_Parse
begin

text \<open>
  \<open>src/utils/cJSON.c\<close>: the parser and its memory. Whatever \<open>malloc\<close> answers and whatever the text is, a parse
  that returns has allocated the blocks of the tree it returns and no others, and a failed parse has
  freed everything; the fuel of the recursion is enough for every text; and texts without malformed escapes
  are parsed without leaving the text or the blocks allocated.
\<close>

section \<open>Blocks\<close>

text \<open>What the loop over the items of an array or object relies on in the parser of one of them.\<close>

locale item_list =
  fixes t :: "u8 list"
    and one :: item_parser
  assumes one_keeps: "\<And>item p s r. one item p s = Some r \<Longrightarrow> parse_keeps item p s r \<and> js_valuestring (fst (snd r)) = js_valuestring item"
begin

lemma loop_keeps:
  "parse_items_loop t one close k item v s = Some r \<Longrightarrow> (\<And>q. v = Some q \<Longrightarrow> p \<le> q)
    \<Longrightarrow> parse_keeps item p s r \<and> js_valuestring (fst (snd r)) = js_valuestring item"
proof (induction k arbitrary: item v s)
  case (Suc k)
  show ?case
  proof (cases v)
    case None
    with Suc.prems show ?thesis by (auto simp: parse_keeps_def)
  next
    case (Some q)
    with Suc.prems obtain c where c: "mem_load t q = Some c" by auto
    show ?thesis
    proof (cases "c = ch_comma")
      case True
      with Suc.prems(1) Some c obtain v1 i1 s1 where e: "one item (q + 1) s = Some (v1, i1, s1)"
          "parse_items_loop t one close k i1 v1 s1 = Some r" by auto
      from one_keeps [OF e(1)] have k: "parse_keeps item (q + 1) s (v1, i1, s1)" "js_valuestring i1 = js_valuestring item"
        by simp_all
      have "p \<le> b" if "v1 = Some b" for b using that k(1) Suc.prems(2) [OF Some] by (auto simp: parse_keeps_def)
      from Suc.IH [OF e(2) this] k show ?thesis by (auto simp: parse_keeps_def)
    next
      case False
      with Suc.prems Some c show ?thesis by (auto simp: parse_keeps_def split: if_splits)
    qed
  qed
qed simp

lemma items_keeps:
  assumes "parse_items t one ty op cl item p s = Some r"
  shows "parse_keeps item p s r"
proof -
  from assms obtain c where c: "mem_load t p = Some c" by (auto simp: parse_items_def)
  show ?thesis
  proof (cases "c = op")
    case True
    with assms c obtain v c2 where v: "skip_loop t (p + 1) = Some v" "mem_load t v = Some c2"
      by (auto simp: parse_items_def Let_def)
    show ?thesis
    proof (cases "c2 = cl")
      case True
      with assms c \<open>c = _\<close> v skip_loop_forward [OF v(1)] show ?thesis by (auto simp: parse_items_def parse_keeps_def Let_def)
    next
      case False
      with assms c \<open>c = _\<close> v obtain v1 i1 s1 where e: "one (set_type ty item) v s = Some (v1, i1, s1)"
          "parse_items_loop t one cl (length t + 1) i1 v1 s1 = Some r"
        by (auto simp: parse_items_def Let_def simp del: parse_items_loop.simps)
      from one_keeps [OF e(1)] have k: "parse_keeps (set_type ty item) v s (v1, i1, s1)" by simp
      then have "p \<le> b" if "v1 = Some b" for b
        using that skip_loop_forward [OF v(1)] by (auto simp: parse_keeps_def)
      from loop_keeps [OF e(2) this] k show ?thesis by (auto simp: parse_keeps_def)
    qed
  next
    case False
    with assms c show ?thesis by (auto simp: parse_items_def parse_keeps_def)
  qed
qed

end

text \<open>What the items rely on in the parser of the values in them.\<close>

locale json_values =
  fixes E :: cj_env
    and pv :: value_parser
  assumes value_keeps: "\<And>item p s r. pv item (Some p) s = Some r \<Longrightarrow> js_valuestring item = None \<Longrightarrow> parse_keeps item p s r"
begin

lemma child_keeps:
  assumes "parse_keeps child v1 s1 (v, c2, s2)" "js_valuestring child = None" "js_string child = None" "p \<le> v1" "skip t v = Some v2"
    and "cj_live s1 + 1 = cj_live s + blocks child + 1"
  shows "parse_keeps item p s (attach item (v2, c2, s2)) \<and> js_valuestring (fst (snd (attach item (v2, c2, s2)))) = js_valuestring item"
  using assms skip_forward [OF assms(5)] by (cases v) (auto simp: parse_keeps_def attach_def)

lemma element_keeps:
  assumes "parse_element E pv item p s = Some r"
  shows "parse_keeps item p s r \<and> js_valuestring (fst (snd r)) = js_valuestring item"
proof -
  obtain child s1 where n: "cJSON_New_Item (ce_malloc E) s = (child, s1)" by fastforce
  note new = cJSON_New_Item_cases [OF n]
  show ?thesis
  proof (cases child)
    case None
    with assms n new show ?thesis by (auto simp: parse_element_def parse_keeps_def)
  next
    case (Some c)
    with new have c: "c = empty_item" "cj_live s1 = cj_live s + 1" by auto
    from assms n Some obtain v1 v2 c2 s2 v3 where v: "skip_loop (ce_text E) p = Some v1"
        "pv c (Some v1) s1 = Some (v2, c2, s2)" "skip (ce_text E) v2 = Some v3" "r = attach item (v3, c2, s2)"
      by (auto simp: parse_element_def)
    have "parse_keeps c v1 s1 (v2, c2, s2)" using value_keeps [OF v(2)] c by simp
    from child_keeps [OF this _ _ _ v(3), of p s item] show ?thesis using c v(4) skip_loop_forward [OF v(1)] by simp
  qed
qed

lemma member_value_keeps:
  assumes "parse_member_value E pv child v s = Some (v', child', s')" "js_string child = None" "\<And>q. v = Some q \<Longrightarrow> p \<le> q"
  shows "cj_live s' + blocks child = cj_live s + blocks child' \<and> (\<forall>b. v' = Some b \<longrightarrow> p \<le> b)"
proof (cases v)
  case None
  with assms(1) show ?thesis by (simp add: parse_member_value_def)
next
  case (Some q)
  with assms(1) obtain c where c: "mem_load (ce_text E) q = Some c" by (auto simp: parse_member_value_def Let_def)
  show ?thesis
  proof (cases "c = ch_colon")
    case True
    with assms(1) Some c obtain q1 v2 c2 s2 where w: "skip_loop (ce_text E) (q + 1) = Some q1"
        "pv (name_from_value child) (Some q1) s = Some (v2, child', s')" "skip (ce_text E) v2 = Some v'"
      by (auto simp: parse_member_value_def Let_def)
    have "parse_keeps (name_from_value child) q1 s (v2, child', s')" by (rule value_keeps [OF w(2)]) simp
    then show ?thesis
      using assms(2) assms(3) [OF Some] skip_loop_forward [OF w(1)] skip_forward [OF w(3)]
      by (cases v2) (auto simp: parse_keeps_def)
  next
    case False
    with assms Some c show ?thesis by (auto simp: parse_member_value_def Let_def)
  qed
qed

lemma member_keeps:
  assumes "parse_member E pv item p s = Some r"
  shows "parse_keeps item p s r \<and> js_valuestring (fst (snd r)) = js_valuestring item"
proof -
  obtain child s1 where n: "cJSON_New_Item (ce_malloc E) s = (child, s1)" by fastforce
  note new = cJSON_New_Item_cases [OF n]
  show ?thesis
  proof (cases child)
    case None
    with assms n new show ?thesis by (auto simp: parse_member_def parse_keeps_def)
  next
    case (Some c)
    with new have c: "c = empty_item" "cj_live s1 = cj_live s + 1" by auto
    from assms n Some obtain v1 v2 c2 s2 v3 v4 c4 s4 where v: "skip_loop (ce_text E) p = Some v1"
        "parse_string E c v1 s1 = Some (v2, c2, s2)" "skip (ce_text E) v2 = Some v3"
        "parse_member_value E pv c2 v3 s2 = Some (v4, c4, s4)" "r = attach item (v4, c4, s4)"
      by (auto simp: parse_member_def)
    have k: "parse_keeps c v1 s1 (v2, c2, s2)" using parse_string_keeps [OF v(2)] c by simp
    have "p \<le> q" if "v3 = Some q" for q
      using that k skip_loop_forward [OF v(1)] skip_forward [OF v(3)] by (cases v2) (auto simp: parse_keeps_def)
    from member_value_keeps [OF v(4) _ this] k c show ?thesis by (auto simp: v(5) attach_def parse_keeps_def)
  qed
qed

end

sublocale json_values \<subseteq> elements: item_list "ce_text E" "parse_element E pv"
  by unfold_locales (rule element_keeps)

sublocale json_values \<subseteq> members: item_list "ce_text E" "parse_member E pv"
  by unfold_locales (rule member_keeps)

context json_values begin

lemma array_keeps: "parse_array E pv item p s = Some r \<Longrightarrow> parse_keeps item p s r"
  unfolding parse_array_def by (rule elements.items_keeps)

lemma object_keeps: "parse_object E pv item p s = Some r \<Longrightarrow> parse_keeps item p s r"
  unfolding parse_object_def by (rule members.items_keeps)

end

text \<open>The cases of a value.\<close>

lemma parse_value_cases:
  assumes "parse_value E (Suc n) item (Some p) s = Some r"
  obtains (literal) q i where "r = (Some q, i, s)" "p \<le> q" "blocks i = blocks item" "js_string i = js_string item"
  | (string) "parse_string E item p s = Some r"
  | (number) "parse_number E item p s = Some r"
  | (array) "parse_array E (parse_value E n) item p s = Some r"
  | (object) "parse_object E (parse_value E n) item p s = Some r"
  | (failure) "r = (None, item, s\<lparr>cj_ep := Some p\<rparr>)"
proof -
  from assms obtain a where a: "strncmp_eq (ce_text E) p lit_null = Some a" by (auto simp: parse_value_body_def)
  show ?thesis
  proof (cases a)
    case True
    with assms a literal [of "p + 4"] show ?thesis by (auto simp: parse_value_body_def)
  next
    case False
    with assms a obtain b where b: "strncmp_eq (ce_text E) p lit_false = Some b" by (auto simp: parse_value_body_def)
    show ?thesis
    proof (cases b)
      case True
      with assms a b \<open>\<not> a\<close> literal [of "p + 5"] show ?thesis by (auto simp: parse_value_body_def)
    next
      case False
      with assms a b \<open>\<not> a\<close> obtain d where d: "strncmp_eq (ce_text E) p lit_true = Some d" by (auto simp: parse_value_body_def)
      show ?thesis
        by (cases d) (use assms a b d \<open>\<not> a\<close> \<open>\<not> b\<close> literal [of "p + 4"] string number array object failure in \<open>auto simp: parse_value_body_def split: if_splits\<close>)
    qed
  qed
qed

lemma parse_value_keeps:
  "parse_value E n item (Some p) s = Some r \<Longrightarrow> js_valuestring item = None \<Longrightarrow> parse_keeps item p s r"
proof (induction n arbitrary: item p s r)
  case (Suc n)
  have "json_values (parse_value E n)" by unfold_locales (rule Suc.IH)
  from Suc.prems(1) show ?case
  proof (cases rule: parse_value_cases)
    case array
    then show ?thesis by (rule json_values.array_keeps [OF \<open>json_values _\<close>])
  next
    case object
    then show ?thesis by (rule json_values.object_keeps [OF \<open>json_values _\<close>])
  next
    case string
    then show ?thesis by (rule parse_string_keeps [OF _ Suc.prems(2)])
  next
    case number
    then show ?thesis by (rule parse_number_keeps)
  qed (auto simp: parse_keeps_def)
qed simp

interpretation parsed: json_values E "parse_value E n" for E n
  by unfold_locales (rule parse_value_keeps)

text \<open>
  A parse allocates the blocks of the tree it returns; a failed one, for lack of memory or for a malformed
  text, gives everything back.
\<close>

definition json_result_accounted :: "cj_state \<Rightarrow> cJSON option \<times> nat option \<times> cj_state \<Rightarrow> bool" where
  "json_result_accounted s r = (case r of
     (None, _, s') \<Rightarrow> cj_live s' = cj_live s
   | (Some c, _, s') \<Rightarrow> cj_live s' = cj_live s + blocks c)"

lemma parse_with_opts_accounted:
  assumes "cJSON_ParseWithOpts E req s = Some r"
  shows "json_result_accounted s r"
proof -
  obtain child s1 where n: "cJSON_New_Item (ce_malloc E) s = (child, s1)" by fastforce
  note new = cJSON_New_Item_cases [OF n]
  show ?thesis
  proof (cases child)
    case None
    with assms n new show ?thesis by (auto simp: cJSON_ParseWithOpts_def json_result_accounted_def)
  next
    case (Some c)
    with new have c: "c = empty_item" "cj_live s1 = cj_live s + 1" by auto
    from assms n Some obtain p q c2 s2 where p: "skip_loop (ce_text E) 0 = Some p"
        "parse_value E (length (ce_text E) + 1) c (Some p) (s1\<lparr>cj_ep := None\<rparr>) = Some (q, c2, s2)"
      by (auto simp: cJSON_ParseWithOpts_def Let_def simp del: parse_value.simps)
    have live: "cj_live s2 = cj_live s + blocks c2"
      using parse_value_keeps [OF p(2)] c by (simp add: parse_keeps_def)
    then have del: "cJSON_Delete c2 s2 = Some (s2\<lparr>cj_live := cj_live s\<rparr>)"
      using cJSON_Delete_frees(1) [of c2 s2] by simp
    show ?thesis
      using assms n Some p live del
      by (auto simp: cJSON_ParseWithOpts_def Let_def json_result_accounted_def simp del: parse_value.simps
          split: option.splits if_splits)
  qed
qed

section \<open>Fuel\<close>

text \<open>More fuel than there are characters left makes no difference.\<close>

definition agree_from :: "nat \<Rightarrow> value_parser \<Rightarrow> value_parser \<Rightarrow> bool" where
  "agree_from p pv pv' \<longleftrightarrow> (\<forall>item q s. p \<le> q \<longrightarrow> pv item (Some q) s = pv' item (Some q) s)"

definition items_agree_from :: "nat \<Rightarrow> item_parser \<Rightarrow> item_parser \<Rightarrow> bool" where
  "items_agree_from p one one' \<longleftrightarrow> (\<forall>item q s. p \<le> q \<longrightarrow> one item q s = one' item q s)"

lemma element_agree: "agree_from p pv pv' \<Longrightarrow> items_agree_from p (parse_element E pv) (parse_element E pv')"
  unfolding items_agree_from_def
proof (intro allI impI)
  fix item q s assume "agree_from p pv pv'" "p \<le> q"
  then show "parse_element E pv item q s = parse_element E pv' item q s"
    by (cases "skip_loop (ce_text E) q")
      (auto simp: parse_element_def agree_from_def split: option.split prod.split dest: skip_loop_forward)
qed

lemma member_value_agree:
  assumes "agree_from p pv pv'" "\<And>q. v = Some q \<Longrightarrow> p \<le> q"
  shows "parse_member_value E pv child v s = parse_member_value E pv' child v s"
proof (cases v)
  case (Some q)
  have "pv c (Some a) s = pv' c (Some a) s" if "skip_loop (ce_text E) (q + 1) = Some a" for a c
    using assms(1) assms(2) [OF Some] skip_loop_forward [OF that] by (simp add: agree_from_def)
  with Some show ?thesis by (auto simp: parse_member_value_def Let_def intro!: bind_option_cong)
qed (simp add: parse_member_value_def)

lemma member_agree:
  assumes "agree_from p pv pv'"
  shows "items_agree_from p (parse_member E pv) (parse_member E pv')"
  unfolding items_agree_from_def
proof (intro allI impI)
  fix item q s assume "p \<le> q"
  have "parse_member_value E pv c w s2 = parse_member_value E pv' c w s2"
    if a: "skip_loop (ce_text E) q = Some a" and str: "parse_string E empty_item a s1 = Some (v, c, s2)"
      and w: "skip (ce_text E) v = Some w" for a v c s1 s2 w
  proof (rule member_value_agree [OF assms])
    fix x assume "w = Some x"
    then obtain y where "v = Some y" "y \<le> x" using skip_forward [OF w] by (cases v) auto
    moreover have "parse_keeps empty_item a s1 (v, c, s2)" by (rule parse_string_keeps [OF str]) simp
    ultimately show "p \<le> x" using \<open>p \<le> q\<close> skip_loop_forward [OF a] by (simp add: parse_keeps_def)
  qed
  then show "parse_member E pv item q s = parse_member E pv' item q s"
    using cJSON_New_Item_cases [of "ce_malloc E" s]
    by (auto simp: parse_member_def split: option.split prod.split intro!: arg_cong [where f = "map_option _"] bind_option_cong)
qed

context item_list begin

lemma loop_agree:
  assumes "items_agree_from p one one'" "\<And>q. v = Some q \<Longrightarrow> p \<le> q"
  shows "parse_items_loop t one' close k item v s = parse_items_loop t one close k item v s"
  using assms(2)
proof (induction k arbitrary: item v s)
  case (Suc k)
  show ?case
  proof (cases v)
    case (Some q)
    with Suc.prems assms(1) have one: "one' item (q + 1) s = one item (q + 1) s" by (simp add: items_agree_from_def)
    have "parse_items_loop t one' close k i1 v1 s1 = parse_items_loop t one close k i1 v1 s1"
      if "one item (q + 1) s = Some (v1, i1, s1)" for v1 i1 s1
      by (rule Suc.IH) (use one_keeps [OF that] Suc.prems [OF Some] in \<open>auto simp: parse_keeps_def\<close>)
    with Some one show ?thesis by (auto intro!: bind_option_cong)
  qed simp
qed simp

lemma items_agree:
  assumes "items_agree_from (p + 1) one one'"
  shows "parse_items t one' ty op cl item p s = parse_items t one ty op cl item p s"
proof -
  have "one' (set_type ty item) v s \<bind> (\<lambda>(v, item, s). parse_items_loop t one' cl k item v s)
      = one (set_type ty item) v s \<bind> (\<lambda>(v, item, s). parse_items_loop t one cl k item v s)"
    if "skip_loop t (p + 1) = Some v" for v k
  proof -
    have one: "one' (set_type ty item) v s = one (set_type ty item) v s"
      using assms skip_loop_forward [OF that] by (simp add: items_agree_from_def)
    have "parse_items_loop t one' cl k i1 v1 s1 = parse_items_loop t one cl k i1 v1 s1"
      if "one (set_type ty item) v s = Some (v1, i1, s1)" for v1 i1 s1
      by (rule loop_agree [OF assms])
        (use one_keeps [OF that] skip_loop_forward [OF \<open>skip_loop t (p + 1) = Some v\<close>] in \<open>auto simp: parse_keeps_def\<close>)
    with one show ?thesis by (auto intro!: bind_option_cong)
  qed
  then show ?thesis by (auto simp: parse_items_def Let_def simp del: parse_items_loop.simps intro!: bind_option_cong)
qed

text \<open>The loop consumes a character in every round.\<close>

lemma loop_fuel:
  assumes "length t < q + k"
  shows "parse_items_loop t one close (k + j) item (Some q) s = parse_items_loop t one close k item (Some q) s"
  using assms
proof (induction k arbitrary: item q s)
  case 0
  then show ?case by (cases j) (auto simp: mem_load_def)
next
  case (Suc k)
  have "parse_items_loop t one close (k + j) i1 v1 s1 = parse_items_loop t one close k i1 v1 s1"
    if e: "one item (q + 1) s = Some (v1, i1, s1)" and "mem_load t q = Some c" for v1 i1 s1 c
  proof (cases v1)
    case None
    have "k \<noteq> 0" using Suc.prems mem_load_lt [OF \<open>mem_load t q = Some c\<close>] by simp
    then show ?thesis using None by (cases k) simp_all
  next
    case (Some b)
    then show ?thesis using Suc.IH [of b] Suc.prems one_keeps [OF e] by (simp add: parse_keeps_def)
  qed
  then show ?case by (auto intro!: bind_option_cong)
qed

end

lemma body_agree:
  "parse_array E pv item p s = parse_array E pv' item p s \<Longrightarrow> parse_object E pv item p s = parse_object E pv' item p s
    \<Longrightarrow> parse_value_body E pv item (Some p) s = parse_value_body E pv' item (Some p) s"
  by (simp add: parse_value_body_def cong: if_cong)

lemma parse_value_fuel:
  "length (ce_text E) < p + n \<Longrightarrow> parse_value E (Suc n) item (Some p) s = parse_value E n item (Some p) s"
proof (induction n arbitrary: item p s)
  case 0
  then show ?case by (simp add: parse_value_body_def lit_null_def mem_load_def)
next
  case (Suc n)
  have agree: "agree_from (p + 1) (parse_value E n) (parse_value E (Suc n))"
    unfolding agree_from_def by (intro allI impI Suc.IH [symmetric]) (use Suc.prems in simp)
  have "parse_array E (parse_value E (Suc n)) item p s = parse_array E (parse_value E n) item p s"
    unfolding parse_array_def by (rule parsed.elements.items_agree [OF element_agree [OF agree]])
  moreover have "parse_object E (parse_value E (Suc n)) item p s = parse_object E (parse_value E n) item p s"
    unfolding parse_object_def by (rule parsed.members.items_agree [OF member_agree [OF agree]])
  ultimately show ?case unfolding parse_value.simps(2) by (rule body_agree)
qed

theorem parse_value_enough:
  assumes "length (ce_text E) < p + n"
  shows "parse_value E (n + j) item (Some p) s = parse_value E n item (Some p) s"
proof (induction j)
  case (Suc j)
  then show ?case using parse_value_fuel [of E p "n + j" item s] assms by (simp del: parse_value.simps)
qed simp

end
