(* ===== verification/Cjson_Total.thy ===== *)
theory Cjson_Total
  imports Cjson_Memory
begin

text \<open>
  \<open>src/utils/cJSON.c\<close>: which texts the parser survives. A text that is terminated, whose backslashes are
  followed by a character, and by four hexadecimal digits after a \<open>u\<close>, and whose digit runs are short
  enough for the exponent to fit an \<open>int\<close>, is parsed without leaving the text or a block, and the parser
  returns; the other texts include some that it does not survive.
\<close>

section \<open>Texts\<close>

definition hex_run :: "u8 list \<Rightarrow> nat \<Rightarrow> nat \<Rightarrow> bool" where
  "hex_run t p k \<longleftrightarrow> p + k \<le> length t \<and> (\<forall>i < k. hex_value (t ! (p + i)) \<noteq> None)"

definition escape_ok :: "u8 list \<Rightarrow> nat \<Rightarrow> bool" where
  "escape_ok t p \<longleftrightarrow> p < length t \<and> t ! p \<noteq> 0
     \<and> (t ! p = ch_u \<longrightarrow> hex_run t (p + 1) 4)"

definition escapes_ok :: "u8 list \<Rightarrow> bool" where
  "escapes_ok t \<longleftrightarrow> (\<forall>p < length t. t ! p = ch_backslash \<longrightarrow> escape_ok t (p + 1))"

definition terminated :: "u8 list \<Rightarrow> bool" where
  "terminated t \<longleftrightarrow> t \<noteq> [] \<and> last t = 0"

definition short_digit_runs :: "u8 list \<Rightarrow> bool" where
  "short_digit_runs t \<longleftrightarrow> (\<forall>p < length t. p + 10 \<le> length t \<longrightarrow> \<not> list_all is_digit (take 10 (drop p t)))"

lemma escapes_ok_plain: "ch_backslash \<notin> set t \<Longrightarrow> escapes_ok t"
  using nth_mem by (fastforce simp: escapes_ok_def)

lemma terminated_next: "terminated t \<Longrightarrow> p < length t \<Longrightarrow> t ! p \<noteq> 0 \<Longrightarrow> p + 1 < length t"
  by (metis Suc_eq_plus1 Suc_lessI diff_Suc_1 last_conv_nth terminated_def)

lemma digit_nonzero: "is_digit c \<Longrightarrow> c \<noteq> 0"
  by (auto simp: is_digit_def)

section \<open>Scanning\<close>

lemma skip_loop_total: "terminated t \<Longrightarrow> p < length t \<Longrightarrow> \<exists>q. skip_loop t p = Some q"
proof (induction t p rule: skip_loop.induct)
  case (1 t p)
  then show ?case using terminated_next [of t p] by (subst skip_loop.simps) auto
qed

lemma skip_total:
  assumes "terminated t" "\<And>q. v = Some q \<Longrightarrow> q < length t"
  obtains w where "skip t v = Some w" "\<And>q. w = Some q \<Longrightarrow> q < length t"
proof (cases v)
  case None
  then show ?thesis using that by (simp add: skip_def)
next
  case (Some q)
  with assms obtain r where "skip_loop t q = Some r" using skip_loop_total by blast
  with Some show ?thesis using that [of "Some r"] skip_loop_forward [of t q r] by (simp add: skip_def)
qed

lemma strncmp_total: "terminated t \<Longrightarrow> 0 \<notin> set cs \<Longrightarrow> p < length t \<Longrightarrow>
    (strncmp_eq t p cs = Some True \<and> p + length cs < length t) \<or> strncmp_eq t p cs = Some False"
proof (induction t p cs rule: strncmp_eq.induct)
  case (2 t p c cs)
  then show ?case using terminated_next [of t p] by auto
qed simp

section \<open>Numbers\<close>

lemma int_digits_total:
  "terminated (ce_text E) \<Longrightarrow> p < length (ce_text E) \<Longrightarrow> \<exists>n' q. int_digits E n p = Some (n', q) \<and> q < length (ce_text E)"
proof (induction E n p rule: int_digits.induct)
  case (1 E n p)
  then show ?case using terminated_next [of "ce_text E" p] digit_nonzero by (subst int_digits.simps) auto
qed

lemma frac_digits_total:
  "terminated (ce_text E) \<Longrightarrow> p < length (ce_text E) \<Longrightarrow> \<exists>n' sc q. frac_digits E n scale p = Some (n', sc, q) \<and> q < length (ce_text E)"
proof (induction E n scale p rule: frac_digits.induct)
  case (1 E n scale p)
  then show ?case using terminated_next [of "ce_text E" p] digit_nonzero by (subst frac_digits.simps) auto
qed

lemma digit_value:
  assumes "is_digit c"
  shows "uint (c - ch_zero) \<le> 9"
proof -
  from assms have le: "ch_zero \<le> c" by (simp add: is_digit_def)
  have "unat c \<le> 57" using assms by (simp add: is_digit_def word_le_nat_alt)
  then have "unat (c - ch_zero) \<le> 9" by (simp add: unat_sub [OF le])
  moreover have "uint (c - ch_zero) = int (unat (c - ch_zero))" by (rule uint_is_unat)
  ultimately show ?thesis by linarith
qed

lemma take_drop_snoc: "j \<le> p \<Longrightarrow> p < length t \<Longrightarrow> take (Suc j) (drop (p - j) t) = take j (drop (p - j) t) @ [t ! p]"
  by (subst take_Suc_conv_app_nth) simp_all

text \<open>After \<open>j\<close> digits the exponent is below \<open>10 ^ j\<close>.\<close>

lemma exp_digits_total:
  "terminated t \<Longrightarrow> short_digit_runs t \<Longrightarrow> p < length t \<Longrightarrow> j \<le> 9 \<Longrightarrow> j \<le> p \<Longrightarrow> list_all is_digit (take j (drop (p - j) t))
    \<Longrightarrow> 0 \<le> e \<Longrightarrow> e < 10 ^ j \<Longrightarrow> \<exists>e' q. exp_digits t e p = Some (e', q) \<and> q < length t"
proof (induction t e p arbitrary: j rule: exp_digits.induct)
  case (1 t e p)
  show ?case
  proof (cases "is_digit (t ! p)")
    case False
    with 1 show ?thesis by (subst exp_digits.simps) simp
  next
    case True
    have run: "list_all is_digit (take (Suc j) (drop (p - j) t))"
      using "1.prems" True by (simp add: take_drop_snoc)
    have j: "j \<le> 8"
    proof (rule ccontr)
      assume "\<not> j \<le> 8"
      with "1.prems"(4) have "j = 9" by simp
      with run have "list_all is_digit (take 10 (drop (p - 9) t))" by simp
      moreover have "p - 9 + 10 \<le> length t" using \<open>j = 9\<close> "1.prems"(3,5) by simp
      ultimately show False using "1.prems"(2) [unfolded short_digit_runs_def, rule_format, of "p - 9"] "1.prems"(3) by linarith
    qed
    let ?e = "e * 10 + uint (t ! p - ch_zero)"
    have e: "0 \<le> ?e" "?e < 10 ^ Suc j" using "1.prems" digit_value [OF True] by simp_all
    moreover have "(10 :: int) ^ Suc j \<le> 10 ^ 9" using j by (intro power_increasing) simp_all
    ultimately have "c_int ?e = Some ?e" by (intro c_int_in int32_okI) simp_all
    moreover have "p + 1 < length t" using terminated_next "1.prems"(1,3) digit_nonzero [OF True] by blast
    ultimately show ?thesis
      using "1.IH" [of "t ! p" ?e "Suc j"] True "1.prems" run j e by (subst exp_digits.simps) simp
  qed
qed

text \<open>
  The double that \<open>parse_number\<close> computes where it starts to read; the conversion \<open>(int)n\<close> of it must be defined
  wherever a minus sign or a digit may start a number.
\<close>

definition number_read_at :: "cj_env \<Rightarrow> nat \<Rightarrow> u64 option" where
  "number_read_at E p = do {
     c \<leftarrow> mem_load (ce_text E) p;
     (n, q) \<leftarrow> parse_int_part E (if c = ch_minus then p + 1 else p);
     (n, scale, q) \<leftarrow> parse_fraction E n q;
     (signsubscale, subscale, q) \<leftarrow> parse_exponent (ce_text E) q;
     Some (ce_scaled E (c = ch_minus) n (scale + subscale * signsubscale)) }"

definition numbers_in_range :: "cj_env \<Rightarrow> bool" where
  "numbers_in_range E \<longleftrightarrow> (\<forall>p < length (ce_text E). ce_text E ! p = ch_minus \<or> is_digit (ce_text E ! p) \<longrightarrow>
     (\<forall>d. number_read_at E p = Some d \<longrightarrow> ce_to_int E d \<noteq> None))"

definition ends_in :: "u8 list \<Rightarrow> (nat option \<times> cJSON \<times> cj_state) option \<Rightarrow> bool" where
  "ends_in t r \<longleftrightarrow> (case r of None \<Rightarrow> False | Some (v, _, _) \<Rightarrow> \<forall>q. v = Some q \<longrightarrow> q < length t)"

lemma ends_in_simps [simp]: "ends_in t (Some (None, i, s))" "ends_in t (Some (Some q, i, s)) \<longleftrightarrow> q < length t"
  by (simp_all add: ends_in_def)

lemma ends_inE:
  assumes "ends_in t r"
  obtains v i s where "r = Some (v, i, s)" "\<And>q. v = Some q \<Longrightarrow> q < length t"
  using assms by (auto simp: ends_in_def split: option.splits)

lemma parse_int_part_total:
  assumes "terminated (ce_text E)" "p < length (ce_text E)"
  shows "\<exists>n q. parse_int_part E p = Some (n, q) \<and> q < length (ce_text E)"
proof -
  have "p + 1 < length (ce_text E)" if "ce_text E ! p = ch_zero" using terminated_next [OF assms] that by simp
  then show ?thesis using assms int_digits_total [OF assms(1)] by (auto simp: parse_int_part_def Let_def)
qed

lemma parse_fraction_total:
  assumes "terminated (ce_text E)" "p < length (ce_text E)"
  shows "\<exists>n' sc q. parse_fraction E n p = Some (n', sc, q) \<and> q < length (ce_text E)"
proof -
  have "p + 1 < length (ce_text E)" if "ce_text E ! p = ch_dot" using terminated_next [OF assms] that by simp
  then show ?thesis using assms frac_digits_total [OF assms(1)] by (auto simp: parse_fraction_def)
qed

lemma parse_exponent_total:
  assumes "terminated t" "short_digit_runs t" "p < length t"
  shows "\<exists>sg e q. parse_exponent t p = Some (sg, e, q) \<and> q < length t"
proof (cases "t ! p = ch_e \<or> t ! p = ch_E")
  case True
  then have p: "p + 1 < length t" using terminated_next [OF assms(1,3)] by auto
  let ?sign = "t ! (p + 1) = ch_plus \<or> t ! (p + 1) = ch_minus"
  have "(if ?sign then p + 2 else p + 1) < length t" using terminated_next [OF assms(1) p] p by auto
  then obtain e q where "exp_digits t 0 (if ?sign then p + 2 else p + 1) = Some (e, q)" "q < length t"
    using exp_digits_total [OF assms(1,2) _ le0 le0, of _ 0] by fastforce
  then show ?thesis using True p assms(3) by (auto simp: parse_exponent_def split: if_splits)
qed (use assms in \<open>simp add: parse_exponent_def\<close>)

lemma parse_number_total:
  assumes "terminated (ce_text E)" "short_digit_runs (ce_text E)" "numbers_in_range E" "p < length (ce_text E)"
    and start: "ce_text E ! p = ch_minus \<or> is_digit (ce_text E ! p)"
  shows "ends_in (ce_text E) (parse_number E item p s)"
proof -
  let ?p = "if ce_text E ! p = ch_minus then p + 1 else p"
  have "?p < length (ce_text E)" using terminated_next [OF assms(1,4)] assms(4) by auto
  then obtain n p1 where "parse_int_part E ?p = Some (n, p1)" "p1 < length (ce_text E)"
    using parse_int_part_total [OF assms(1)] by blast
  moreover then obtain n' sc p2 where "parse_fraction E n p1 = Some (n', sc, p2)" "p2 < length (ce_text E)"
    using parse_fraction_total [OF assms(1)] by blast
  moreover then obtain sg e p3 where "parse_exponent (ce_text E) p2 = Some (sg, e, p3)" "p3 < length (ce_text E)"
    using parse_exponent_total [OF assms(1,2)] by blast
  moreover obtain i where "ce_to_int E (ce_scaled E (ce_text E ! p = ch_minus) n' (sc + e * sg)) = Some i"
  proof -
    have "number_read_at E p = Some (ce_scaled E (ce_text E ! p = ch_minus) n' (sc + e * sg))"
      using calculation assms(4) by (simp add: number_read_at_def)
    then show thesis using assms(3,4) start that unfolding numbers_in_range_def by blast
  qed
  ultimately show ?thesis using assms(4) by (simp add: parse_number_def Let_def)
qed

section \<open>Strings\<close>

lemma string_length_step:
  "p < length t \<Longrightarrow> t ! p \<noteq> ch_quote \<Longrightarrow> t ! p \<noteq> 0 \<Longrightarrow>
     string_length t p n = string_length t (if t ! p = ch_backslash then p + 2 else p + 1) (n + 1)"
  by (subst string_length.simps) simp

lemma string_length_stop:
  "\<not> (p < length t \<and> t ! p \<noteq> ch_quote \<and> t ! p \<noteq> 0) \<Longrightarrow> string_length t p n = (if p < length t then Some n else None)"
  by (subst string_length.simps) (auto simp: mem_load_def)

lemma string_length_shift: "string_length t p (len + k) = map_option (\<lambda>l. l + k) (string_length t p len)"
proof (induction t p len rule: string_length.induct)
  case (1 t p len)
  show ?case
  proof (cases "p < length t \<and> t ! p \<noteq> ch_quote \<and> t ! p \<noteq> 0")
    case True
    then have "mem_load t p = Some (t ! p)" "\<not> (t ! p = ch_quote \<or> t ! p = 0)" by simp_all
    from 1 [OF this] True show ?thesis by (simp add: string_length_step [of p t])
  qed (simp add: string_length_stop)
qed

text \<open>The length the first pass finds from a position on.\<close>

lemma string_length_plain:
  "p < length t \<Longrightarrow> t ! p \<noteq> ch_quote \<Longrightarrow> t ! p \<noteq> 0 \<Longrightarrow>
     string_length t p 0 = map_option Suc (string_length t (if t ! p = ch_backslash then p + 2 else p + 1) 0)"
  using string_length_shift [of t _ 0 1] by (simp add: string_length_step [of p t])

lemma string_length_next:
  assumes "string_length t p 0 = Some l" "p < length t" "t ! p \<noteq> ch_quote" "t ! p \<noteq> 0"
  obtains l1 where "string_length t (if t ! p = ch_backslash then p + 2 else p + 1) 0 = Some l1" "l = Suc l1"
  using assms(1) string_length_plain [OF assms(2-4)] that by (cases "string_length t (if t ! p = ch_backslash then p + 2 else p + 1) 0") auto

lemma string_length_total:
  "terminated t \<Longrightarrow> escapes_ok t \<Longrightarrow> p < length t \<Longrightarrow> \<exists>l. string_length t p len = Some l"
proof (induction t p len rule: string_length.induct)
  case (1 t p len)
  have "p + 1 < length t" if "t ! p \<noteq> 0" using terminated_next "1.prems" that by blast
  moreover have "p + 2 < length t" if "t ! p = ch_backslash"
    using terminated_next [of t "p + 1"] "1.prems" that by (auto simp: escapes_ok_def escape_ok_def)
  ultimately show ?case using 1 by (subst string_length.simps) auto
qed

lemma utf8_switch_length [simp]: "length (utf8_switch m n uc) = n"
  by (induction m n uc rule: utf8_switch.induct) auto

lemma put_utf8_total: "length out + 4 \<le> cap \<Longrightarrow> \<exists>out'. put_utf8 cap out uc = Some out' \<and> length out' \<le> length out + 4"
  by (auto simp: put_utf8_def put_out_def Let_def utf8_length_def)

lemma hex_value_char: "hex_value c \<noteq> None \<Longrightarrow> c \<noteq> 0 \<and> c \<noteq> ch_quote \<and> c \<noteq> ch_backslash"
  by (auto simp: hex_value_def)

lemma hex_run_Suc: "hex_run t p (Suc k) \<longleftrightarrow> p < length t \<and> hex_value (t ! p) \<noteq> None \<and> hex_run t (p + 1) k"
  by (auto simp: hex_run_def All_less_Suc2)

lemma hex_run_end: "terminated t \<Longrightarrow> hex_run t p (Suc k) \<Longrightarrow> p + Suc k < length t"
  using terminated_next [of t "p + k"] hex_value_char [of "t ! (p + k)"] by (auto simp: hex_run_def)

lemma hex_loop_total: "hex_run t p k \<Longrightarrow> \<exists>h'. hex_loop t p k h = Some h'"
proof (induction t p k h rule: hex_loop.induct)
  case (2 t p k h)
  then show ?case by (auto simp: hex_run_Suc)
qed simp

lemma hex4_total: "hex_run t p 4 \<Longrightarrow> \<exists>h. parse_hex4 t p = Some h"
  unfolding parse_hex4_def by (rule hex_loop_total)

text \<open>Hexadecimal digits are plain characters for the first pass.\<close>

lemma string_length_hex:
  "hex_run t p k \<Longrightarrow> string_length t p 0 = map_option (\<lambda>l. l + k) (string_length t (p + k) 0)"
proof (induction k arbitrary: p)
  case 0
  then show ?case by (simp add: option.map_id [unfolded id_def])
next
  case (Suc k)
  then have p: "p < length t" "t ! p \<noteq> ch_quote" "t ! p \<noteq> 0" "t ! p \<noteq> ch_backslash" "hex_run t (p + 1) k"
    using hex_value_char [of "t ! p"] by (auto simp: hex_run_Suc)
  then show ?case using Suc.IH [OF p(5)] string_length_plain [OF p(1-3)] by (simp add: option.map_comp comp_def)
qed

lemma put_out_total: "length out + length bs \<le> cap \<Longrightarrow> put_out cap out bs = Some (out @ bs)"
  by (simp add: put_out_def)

text \<open>
  An escape: the second pass moves as far as the first, which has counted at least the bytes it writes.
  \<open>escape_result\<close> is what either knows at the end of it: the first has found \<open>l\<close> more characters at \<open>p\<close>.
\<close>

definition escape_result :: "u8 list \<Rightarrow> nat \<Rightarrow> (nat \<times> u8 list) option \<Rightarrow> bool" where
  "escape_result t budget r \<longleftrightarrow> (\<exists>q out l. r = Some (q, out) \<and> q + 1 < length t
     \<and> string_length t (q + 1) 0 = Some l \<and> length out + l \<le> budget)"

lemma escape_resultI:
  "q + 1 < length t \<Longrightarrow> string_length t (q + 1) 0 = Some l \<Longrightarrow> length out + l \<le> budget \<Longrightarrow> escape_result t budget (Some (q, out))"
  by (auto simp: escape_result_def)

lemma escape_result_utf8:
  assumes "q + 1 < length t" "string_length t (q + 1) 0 = Some l" "length out + 4 + l \<le> budget" "length out + 4 \<le> cap"
  shows "escape_result t budget (do { out \<leftarrow> put_utf8 cap out uc; Some (q, out) })"
  using put_utf8_total [of out cap uc] assms by (auto simp: escape_result_def)

lemma parse_unicode_total:
  assumes t: "terminated t" "escapes_ok t" and p: "hex_run t (p + 1) 4"
    and l: "string_length t (p + 1) 0 = Some l" "length out + l \<le> cap"
  shows "escape_result t (length out + l) (parse_unicode t cap p out)"
proof -
  from hex4_total [OF p] obtain uc where uc: "parse_hex4 t (p + 1) = Some uc" by blast
  have p5: "p + 5 < length t" using hex_run_end [OF t(1), of "p + 1" 3] p by simp
  obtain l1 where l1: "string_length t (p + 5) 0 = Some l1" "l = l1 + 4"
    using string_length_hex [OF p] l(1) by (auto simp: add.commute)
  have one: "escape_result t (length out + l) (Some (p + 4, out))"
    by (rule escape_resultI [of _ _ l1]) (use p5 l1 in \<open>simp_all add: add.commute\<close>)
  have pair: "escape_result t (length out + l) (do {
         uc2 \<leftarrow> parse_hex4 t (p + 4 + 3);
         let ptr = p + 4 + 6;
         if uc2 < 0xDC00 \<or> uc2 > 0xDFFF then Some (ptr, out)
         else do { out \<leftarrow> put_utf8 cap out (0x10000 + (push_bit 10 (uc AND 0x3FF) OR (uc2 AND 0x3FF))); Some (ptr, out) } })"
    if bs: "t ! (p + 5) = ch_backslash" and u: "t ! (p + 6) = ch_u"
  proof -
    have h: "hex_run t (p + 7) 4" using t(2) bs u p5 by (auto simp: escapes_ok_def escape_ok_def add.commute)
    then obtain uc2 where uc2: "parse_hex4 t (p + 7) = Some uc2" using hex4_total by blast
    have p11: "p + 11 < length t" using hex_run_end [OF t(1), of "p + 7" 3] h by simp
    have ne: "t ! (p + 5) \<noteq> ch_quote" "t ! (p + 5) \<noteq> 0" using bs by simp_all
    obtain l3 where "string_length t (p + 7) 0 = Some l3" "l1 = Suc l3"
      using bs string_length_plain [OF p5 ne] l1(1) by (cases "string_length t (p + 7) 0") (auto simp: add.commute)
    then obtain l2 where l2: "string_length t (p + 11) 0 = Some l2" "l1 = l2 + 5"
      using string_length_hex [OF h] by (auto simp: add.commute)
    have "escape_result t (length out + l) (Some (p + 10, out))"
      by (rule escape_resultI [of _ _ l2]) (use p11 l1 l2 in \<open>simp_all add: add.commute\<close>)
    moreover have "escape_result t (length out + l) (do { out \<leftarrow> put_utf8 cap out c; Some (p + 10, out) })" for c
      by (rule escape_result_utf8 [of _ _ l2]) (use p11 l1 l2 l in \<open>simp_all add: add.commute\<close>)
    ultimately show ?thesis using uc2 by (simp add: Let_def add.commute)
  qed
  have plain: "escape_result t (length out + l) (do { out \<leftarrow> put_utf8 cap out uc; Some (p + 4, out) })"
    by (rule escape_result_utf8 [of _ _ l1]) (use p5 l1 l in \<open>simp_all add: add.commute\<close>)
  have "p + 6 < length t" if "t ! (p + 5) = ch_backslash"
    using t(2) that p5 by (auto simp: escapes_ok_def escape_ok_def add.commute)
  then show ?thesis
    using uc one pair plain p5 by (simp add: parse_unicode_def Let_def add.commute)
qed

lemma parse_escape_total:
  assumes t: "terminated t" "escapes_ok t" and p: "p < length t" "t ! p = ch_backslash"
    and l: "string_length t p 0 = Some l" "length out + l \<le> cap"
  shows "escape_result t (length out + l) (parse_escape t cap (p + 1) out)"
proof -
  have e: "escape_ok t (p + 1)" using t(2) p by (simp add: escapes_ok_def)
  then have p2: "p + 2 < length t" using terminated_next [OF t(1), of "p + 1"] by (simp add: escape_ok_def)
  obtain l1 where l1: "string_length t (p + 2) 0 = Some l1" "l = l1 + 1"
    using string_length_next [OF l(1) p(1)] p(2) by auto
  show ?thesis
  proof (cases "t ! (p + 1) = ch_u")
    case True
    then have "hex_run t (p + 1 + 1) 4" using e by (simp add: escape_ok_def)
    from parse_unicode_total [OF t this, of l1 out cap] l1 l(2)
    have "escape_result t (length out + l1) (parse_unicode t cap (p + 1) out)" by (simp add: add.commute)
    then show ?thesis using True p2 l1(2) by (force simp: parse_escape_def escape_result_def)
  next
    case False
    then show ?thesis using p2 l1 l(2)
      by (auto simp: parse_escape_def put_out_total intro!: escape_resultI [of _ _ l1])
  qed
qed

lemma string_loop_total:
  "terminated t \<Longrightarrow> escapes_ok t \<Longrightarrow> p < length t \<Longrightarrow> string_length t p 0 = Some l \<Longrightarrow> length out + l \<le> cap
    \<Longrightarrow> \<exists>q out'. string_loop t cap p out = Some (q, out') \<and> length out' \<le> length out + l"
proof (induction t cap p out arbitrary: l rule: string_loop.induct)
  case (1 t cap p out)
  have c: "mem_load t p = Some (t ! p)" using 1(5) by simp
  consider "t ! p = ch_quote \<or> t ! p = 0" | "\<not> (t ! p = ch_quote \<or> t ! p = 0)" "t ! p \<noteq> ch_backslash"
    | "\<not> (t ! p = ch_quote \<or> t ! p = 0)" "\<not> t ! p \<noteq> ch_backslash" by blast
  then show ?case
  proof cases
    case 1
    with c show ?thesis by (subst string_loop.simps) simp
  next
    case 2
    then obtain l1 where l1: "string_length t (p + 1) 0 = Some l1" "l = Suc l1"
      using string_length_next [OF "1.prems"(4,3)] 2 by auto
    then have o: "put_out cap out [t ! p] = Some (out @ [t ! p])" using "1.prems"(5) by (simp add: put_out_total)
    have "p + 1 < length t" using terminated_next "1.prems"(1,3) 2 by blast
    then obtain q out' where "string_loop t cap (p + 1) (out @ [t ! p]) = Some (q, out')" "length out' \<le> length (out @ [t ! p]) + l1"
      using "1.IH"(1) [OF c 2 o "1.prems"(1,2) _ l1(1)] "1.prems"(5) l1(2) by auto
    with c 2 o l1(2) show ?thesis by (subst string_loop.simps) simp
  next
    case 3
    then obtain q1 o1 l1 where e: "parse_escape t cap (p + 1) out = Some (q1, o1)" "q1 + 1 < length t"
        "string_length t (q1 + 1) 0 = Some l1" "length o1 + l1 \<le> length out + l"
      using parse_escape_total [OF "1.prems"(1,2,3) _ "1.prems"(4,5)] by (auto simp: escape_result_def)
    then obtain q out' where "string_loop t cap (q1 + 1) o1 = Some (q, out')" "length out' \<le> length o1 + l1"
      using "1.IH"(2) [OF c 3 e(1) refl "1.prems"(1,2) e(2,3)] "1.prems"(5) by auto
    with c 3 e show ?thesis by (subst string_loop.simps) simp
  qed
qed

lemma string_loop_end: "string_loop t cap p out = Some (q, out') \<Longrightarrow> q < length t \<and> (t ! q = ch_quote \<or> t ! q = 0)"
proof (induction t cap p out rule: string_loop.induct)
  case (1 t cap p out)
  then have c: "mem_load t p = Some (t ! p)" by (subst (asm) string_loop.simps) (auto simp: mem_load_Some_iff)
  consider "t ! p = ch_quote \<or> t ! p = 0" | "\<not> (t ! p = ch_quote \<or> t ! p = 0)" "t ! p \<noteq> ch_backslash"
    | "\<not> (t ! p = ch_quote \<or> t ! p = 0)" "\<not> t ! p \<noteq> ch_backslash" by blast
  then show ?case
  proof cases
    case 1
    with c "1.prems" mem_load_lt [OF c] show ?thesis by (subst (asm) string_loop.simps) auto
  next
    case 2
    with "1.prems" c obtain o1 where "put_out cap out [t ! p] = Some o1" "string_loop t cap (p + 1) o1 = Some (q, out')"
      by (subst (asm) string_loop.simps) auto
    then show ?thesis using "1.IH"(1) [OF c 2] by blast
  next
    case 3
    with "1.prems" c obtain q1 o1 where "parse_escape t cap (p + 1) out = Some (q1, o1)" "string_loop t cap (q1 + 1) o1 = Some (q, out')"
      by (subst (asm) string_loop.simps) auto
    then show ?thesis using "1.IH"(2) [OF c 3 _ refl] by blast
  qed
qed

lemma parse_string_total:
  assumes t: "terminated (ce_text E)" "escapes_ok (ce_text E)" and p: "p < length (ce_text E)"
  shows "ends_in (ce_text E) (parse_string E item p s)"
proof (cases "ce_text E ! p = ch_quote")
  case True
  then have p1: "p + 1 < length (ce_text E)" using terminated_next [OF t(1) p] by simp
  obtain l where l: "string_length (ce_text E) (p + 1) 0 = Some l" using string_length_total [OF t p1] by blast
  obtain q out where q: "string_loop (ce_text E) (l + 1) (p + 1) [] = Some (q, out)" "length out \<le> l"
    using string_loop_total [OF t p1 l, of "[]" "l + 1"] by auto
  have "q < length (ce_text E)" and "ce_text E ! q = ch_quote \<Longrightarrow> q + 1 < length (ce_text E)"
    using string_loop_end [OF q(1)] terminated_next [OF t(1), of q] by simp_all
  then show ?thesis using True p l q by (auto simp: parse_string_def Let_def put_out_total split: prod.split)
next
  case False
  with p show ?thesis by (simp add: parse_string_def Let_def)
qed

section \<open>Values\<close>

context item_list begin

lemma loop_total:
  assumes t: "terminated t" and total: "\<And>item p s. b \<le> p \<Longrightarrow> p < length t \<Longrightarrow> ends_in t (one item p s)"
  shows "(\<And>q. v = Some q \<Longrightarrow> b \<le> q \<and> q < length t \<and> length t < q + k) \<Longrightarrow> 0 < k \<Longrightarrow> close \<noteq> 0 \<Longrightarrow> ends_in t (parse_items_loop t one close k item v s)"
proof (induction k arbitrary: item v s)
  case (Suc k)
  show ?case
  proof (cases v)
    case (Some q)
    with Suc.prems have q: "b \<le> q" "q < length t" "length t < q + Suc k" by auto
    show ?thesis
    proof (cases "t ! q = ch_comma")
      case True
      then have q1: "q + 1 < length t" using terminated_next [OF t q(2)] by simp
      with total [of "q + 1" item s] q obtain v1 i1 s1 where e: "one item (q + 1) s = Some (v1, i1, s1)"
          "\<And>r. v1 = Some r \<Longrightarrow> r < length t" by (auto elim!: ends_inE)
      have "ends_in t (parse_items_loop t one close k i1 v1 s1)"
        by (rule Suc.IH) (use e one_keeps [OF e(1)] q q1 Suc.prems(3) in \<open>auto simp: parse_keeps_def\<close>)
      with True Some q e(1) show ?thesis by simp
    next
      case False
      with Some q Suc.prems(3) terminated_next [OF t q(2)] show ?thesis by simp
    qed
  qed simp
qed simp

lemma items_total:
  assumes t: "terminated t" and total: "\<And>item p s. b \<le> p \<Longrightarrow> p < length t \<Longrightarrow> ends_in t (one item p s)"
    and p: "p < length t" "b \<le> p + 1" and br: "op \<noteq> 0" "close \<noteq> 0"
  shows "ends_in t (parse_items t one ty op close item p s)"
proof (cases "t ! p = op")
  case True
  then have "p + 1 < length t" using terminated_next [OF t p(1)] br by simp
  then obtain v where v: "skip_loop t (p + 1) = Some v" "p + 1 \<le> v" "v < length t"
    using skip_loop_total [OF t] skip_loop_forward by blast
  show ?thesis
  proof (cases "t ! v = close")
    case True
    with v \<open>t ! p = op\<close> p terminated_next [OF t v(3)] br show ?thesis by (simp add: parse_items_def Let_def)
  next
    case False
    have "b \<le> v" using v(2) p(2) by simp
    from total [OF this v(3), of "set_type ty item" s] obtain v1 i1 s1 where e: "one (set_type ty item) v s = Some (v1, i1, s1)"
        "\<And>r. v1 = Some r \<Longrightarrow> r < length t" by (rule ends_inE) blast
    have "ends_in t (parse_items_loop t one close (length t + 1) i1 v1 s1)"
      by (rule loop_total [OF t total]) (use e one_keeps [OF e(1)] v p(2) br in \<open>auto simp: parse_keeps_def\<close>)
    with False v \<open>t ! p = op\<close> p e(1) show ?thesis by (simp add: parse_items_def Let_def del: parse_items_loop.simps)
  qed
qed (use p in \<open>simp add: parse_items_def\<close>)

end

text \<open>The items are total where the values in them are.\<close>

definition values_total :: "cj_env \<Rightarrow> value_parser \<Rightarrow> nat \<Rightarrow> bool" where
  "values_total E pv b \<longleftrightarrow> (\<forall>item p s. b \<le> p \<longrightarrow> p < length (ce_text E) \<longrightarrow> js_valuestring item = None \<longrightarrow> ends_in (ce_text E) (pv item (Some p) s))"

lemma ends_in_attach [simp]: "ends_in t (map_option (attach item) r) \<longleftrightarrow> ends_in t r"
  "ends_in t (Some (attach item r')) \<longleftrightarrow> ends_in t (Some r')"
  by (auto simp: ends_in_def attach_def split: option.splits prod.splits)

context json_values begin

lemma element_total:
  assumes t: "terminated (ce_text E)" and pv: "values_total E pv b" and p: "b \<le> p" "p < length (ce_text E)"
  shows "ends_in (ce_text E) (parse_element E pv item p s)"
proof -
  obtain child s1 where n: "cJSON_New_Item (ce_malloc E) s = (child, s1)" by fastforce
  show ?thesis
  proof (cases child)
    case None
    with n show ?thesis by (simp add: parse_element_def)
  next
    case (Some c)
    with cJSON_New_Item_cases [OF n] have c: "js_valuestring c = None" by auto
    obtain v where v: "skip_loop (ce_text E) p = Some v" "p \<le> v" "v < length (ce_text E)"
      using skip_loop_total [OF t p(2)] skip_loop_forward by blast
    have "ends_in (ce_text E) (pv c (Some v) s1)" using pv v p(1) c by (simp add: values_total_def)
    then obtain w c2 s2 where w: "pv c (Some v) s1 = Some (w, c2, s2)" "\<And>q. w = Some q \<Longrightarrow> q < length (ce_text E)"
      by (rule ends_inE) blast
    obtain x where "skip (ce_text E) w = Some x" "\<And>q. x = Some q \<Longrightarrow> q < length (ce_text E)"
      using skip_total [OF t w(2)] by blast
    with n Some v w(1) show ?thesis by (cases x) (simp_all add: parse_element_def)
  qed
qed

lemma member_value_total:
  assumes t: "terminated (ce_text E)" and pv: "values_total E pv b"
    and v: "\<And>q. v = Some q \<Longrightarrow> b \<le> q + 1 \<and> q < length (ce_text E)"
  shows "ends_in (ce_text E) (parse_member_value E pv child v s)"
proof (cases v)
  case (Some q)
  with v have q: "b \<le> q + 1" "q < length (ce_text E)" by auto
  show ?thesis
  proof (cases "ce_text E ! q = ch_colon")
    case True
    then have "q + 1 < length (ce_text E)" using terminated_next [OF t q(2)] by simp
    then obtain r where r: "skip_loop (ce_text E) (q + 1) = Some r" "q + 1 \<le> r" "r < length (ce_text E)"
      using skip_loop_total [OF t] skip_loop_forward by blast
    have "ends_in (ce_text E) (pv (name_from_value child) (Some r) s)" using pv r q(1) by (simp add: values_total_def)
    then obtain w c2 s2 where w: "pv (name_from_value child) (Some r) s = Some (w, c2, s2)" "\<And>q. w = Some q \<Longrightarrow> q < length (ce_text E)"
      by (rule ends_inE) blast
    obtain x where "skip (ce_text E) w = Some x" "\<And>q. x = Some q \<Longrightarrow> q < length (ce_text E)"
      using skip_total [OF t w(2)] by blast
    with True Some q r w(1) show ?thesis by (cases x) (simp_all add: parse_member_value_def Let_def)
  qed (use Some q in \<open>simp add: parse_member_value_def Let_def\<close>)
qed (simp add: parse_member_value_def)

lemma member_total:
  assumes t: "terminated (ce_text E)" "escapes_ok (ce_text E)" and pv: "values_total E pv b" and p: "b \<le> p" "p < length (ce_text E)"
  shows "ends_in (ce_text E) (parse_member E pv item p s)"
proof -
  obtain child s1 where n: "cJSON_New_Item (ce_malloc E) s = (child, s1)" by fastforce
  show ?thesis
  proof (cases child)
    case None
    with n show ?thesis by (simp add: parse_member_def)
  next
    case (Some c)
    with cJSON_New_Item_cases [OF n] have c: "js_valuestring c = None" by auto
    obtain v where v: "skip_loop (ce_text E) p = Some v" "p \<le> v" "v < length (ce_text E)"
      using skip_loop_total [OF t(1) p(2)] skip_loop_forward by blast
    from parse_string_total [OF t v(3), of c s1] obtain w c2 s2 where w: "parse_string E c v s1 = Some (w, c2, s2)"
        "\<And>q. w = Some q \<Longrightarrow> q < length (ce_text E)" by (rule ends_inE) blast
    obtain x where x: "skip (ce_text E) w = Some x" "\<And>q. x = Some q \<Longrightarrow> q < length (ce_text E)"
      using skip_total [OF t(1) w(2)] by blast
    have "b \<le> q + 1 \<and> q < length (ce_text E)" if "x = Some q" for q
      using that x parse_string_keeps [OF w(1) c] skip_forward [OF x(1)] v(2) p(1) by (cases w) (auto simp: parse_keeps_def)
    from member_value_total [OF t(1) pv this, where child = c2 and s = s2] show ?thesis
      using n Some v(1) w(1) x(1) by (simp add: parse_member_def)
  qed
qed

lemma array_total:
  assumes "terminated (ce_text E)" "values_total E pv (p + 1)" "p < length (ce_text E)"
  shows "ends_in (ce_text E) (parse_array E pv item p s)"
  unfolding parse_array_def
  by (rule elements.items_total [where b = "p + 1"]) (use assms element_total in auto)

lemma object_total:
  assumes "terminated (ce_text E)" "escapes_ok (ce_text E)" "values_total E pv (p + 1)" "p < length (ce_text E)"
  shows "ends_in (ce_text E) (parse_object E pv item p s)"
  unfolding parse_object_def
  by (rule members.items_total [where b = "p + 1"]) (use assms member_total in auto)

end

lemma parse_value_total:
  assumes t: "terminated (ce_text E)" "escapes_ok (ce_text E)" "short_digit_runs (ce_text E)" "numbers_in_range E"
  shows "length (ce_text E) < p + n \<Longrightarrow> p < length (ce_text E) \<Longrightarrow> ends_in (ce_text E) (parse_value E n item (Some p) s)"
proof (induction n arbitrary: item p s)
  case (Suc n)
  have vt: "values_total E (parse_value E n) (p + 1)"
    using Suc.IH Suc.prems(1) by (auto simp: values_total_def)
  have lits: "0 \<notin> set lit_null" "0 \<notin> set lit_false" "0 \<notin> set lit_true" "length lit_null = 4" "length lit_false = 5" "length lit_true = 4"
    by (simp_all add: lit_null_def lit_false_def lit_true_def)
  note scan = strncmp_total [OF t(1) lits(1) Suc.prems(2)] strncmp_total [OF t(1) lits(2) Suc.prems(2)] strncmp_total [OF t(1) lits(3) Suc.prems(2)]
  show ?case
    using scan Suc.prems(2) parse_string_total [OF t(1,2) Suc.prems(2)] parse_number_total [OF t(1,3,4) Suc.prems(2)]
      parsed.array_total [OF t(1) vt Suc.prems(2)] parsed.object_total [OF t(1,2) vt Suc.prems(2)]
    by (auto simp: parse_value_body_def lits)
qed simp

section \<open>Whole texts\<close>

lemma parse_with_opts_total:
  assumes t: "terminated (ce_text E)" "escapes_ok (ce_text E)" "short_digit_runs (ce_text E)" "numbers_in_range E"
  shows "\<exists>r. cJSON_ParseWithOpts E req s = Some r"
proof -
  obtain child s1 where n: "cJSON_New_Item (ce_malloc E) s = (child, s1)" by fastforce
  note new = cJSON_New_Item_cases [OF n]
  show ?thesis
  proof (cases child)
    case None
    with n show ?thesis by (simp add: cJSON_ParseWithOpts_def)
  next
    case (Some c)
    with new have c: "c = empty_item" "cj_live s1 = cj_live s + 1" by auto
    have "0 < length (ce_text E)" using t(1) by (simp add: terminated_def)
    then obtain p where p: "skip_loop (ce_text E) 0 = Some p" "p < length (ce_text E)"
      using skip_loop_total [OF t(1)] skip_loop_forward by blast
    have "ends_in (ce_text E) (parse_value E (length (ce_text E) + 1) c (Some p) (s1\<lparr>cj_ep := None\<rparr>))"
      by (rule parse_value_total [OF t]) (use p(2) in auto)
    then obtain v c2 s2 where v: "parse_value E (length (ce_text E) + 1) c (Some p) (s1\<lparr>cj_ep := None\<rparr>) = Some (v, c2, s2)"
        "\<And>q. v = Some q \<Longrightarrow> q < length (ce_text E)" by (rule ends_inE) blast
    have "cj_live s2 = cj_live s + blocks c2" using parse_value_keeps [OF v(1)] c by (simp add: parse_keeps_def)
    then have del: "\<exists>s3. cJSON_Delete c2 s2 = Some s3" using cJSON_Delete_frees(1) [of c2 s2] by simp
    show ?thesis
    proof (cases v)
      case None
      with n Some p v(1) del show ?thesis by (auto simp: cJSON_ParseWithOpts_def Let_def simp del: parse_value.simps)
    next
      case v': (Some q)
      then obtain q' where "skip_loop (ce_text E) q = Some q'" "q' < length (ce_text E)"
        using v(2) skip_loop_total [OF t(1)] skip_loop_forward by blast
      with v' n Some p v(1) del show ?thesis by (auto simp: cJSON_ParseWithOpts_def Let_def simp del: parse_value.simps)
    qed
  qed
qed

text \<open>
  C25: A terminated text whose escapes are complete, whose runs of digits are shorter than ten, and in which no
  minus sign or digit starts a number outside the range of \<open>int\<close> (as \<open>1e10\<close> is), is parsed, whatever else it
  contains and whatever \<open>malloc\<close> answers: the parser returns, reads only the text and writes only its blocks, and
  afterwards the blocks in use are those of the tree it returns, or as many as before if it returns NULL.
\<close>

theorem cjson_parse_safe:
  assumes "terminated (ce_text E)" "escapes_ok (ce_text E)" "short_digit_runs (ce_text E)" "numbers_in_range E"
  shows "\<exists>r s'. cJSON_Parse E s = Some (r, s')
    \<and> cj_live s' = cj_live s + (case r of None \<Rightarrow> 0 | Some c \<Rightarrow> blocks c)"
proof -
  obtain r e s' where p: "cJSON_ParseWithOpts E False s = Some (r, e, s')"
    using parse_with_opts_total [OF assms, of False s] by fastforce
  from parse_with_opts_accounted [OF p] p show ?thesis
    by (cases r) (auto simp: cJSON_Parse_def json_result_accounted_def)
qed

section \<open>Texts it does not survive\<close>

lemma parse_hex4_bad: "mem_load t p = Some c \<Longrightarrow> hex_value c = None \<Longrightarrow> parse_hex4 t p = Some 0"
  by (simp add: parse_hex4_def eval_nat_numeral)

text \<open>Plain characters are copied one by one.\<close>

definition plain :: "u8 \<Rightarrow> bool" where
  "plain c \<longleftrightarrow> c \<noteq> 0 \<and> c \<noteq> ch_quote \<and> c \<noteq> ch_backslash"

lemma mem_load_drop: "drop p t = c # r \<Longrightarrow> mem_load t p = Some c \<and> drop (p + 1) t = r"
  by (metis add.commute drop_drop drop_eq_Nil2 linorder_not_less list.discI list.sel(1,3) mem_load_def nth_via_drop drop_Suc plus_1_eq_Suc tl_drop)

lemma string_loop_overflows:
  "drop p t = body @ rest \<Longrightarrow> list_all plain body \<Longrightarrow> cap < length out + length body \<Longrightarrow> length out \<le> cap
    \<Longrightarrow> string_loop t cap p out = None"
proof (induction body arbitrary: p out)
  case (Cons c body)
  then have c: "mem_load t p = Some c" "drop (p + 1) t = body @ rest" using mem_load_drop [of p t c] by auto
  show ?case
  proof (cases "length out + 1 \<le> cap")
    case True
    then have "put_out cap out [c] = Some (out @ [c])" by (simp add: put_out_def)
    moreover have "string_loop t cap (p + 1) (out @ [c]) = None"
      by (rule Cons.IH [OF c(2)]) (use Cons.prems True in simp_all)
    ultimately show ?thesis using c(1) Cons.prems(2) by (subst string_loop.simps) (simp add: plain_def)
  next
    case False
    then have "put_out cap out [c] = None" by (simp add: put_out_def)
    then show ?thesis using c(1) Cons.prems(2) by (subst string_loop.simps) (simp add: plain_def)
  qed
qed simp

text \<open>
  C37: An escape of a backslash and a \<open>u\<close> without digits, at the end of a string, makes the second pass jump over
  the closing quote and three characters more; what follows is copied into a block sized for the string
  alone. Three characters there are enough to write outside it.
\<close>

theorem cjson_short_escape_overflows:
  assumes input: "drop p (ce_text E) = [ch_quote, ch_backslash, ch_u, ch_quote, a, b, c] @ body @ rest"
    and body: "list_all plain body" "3 \<le> length body" and memory: "ce_malloc E (cj_calls s) \<noteq> 0"
  shows "parse_string E item p s = None"
proof -
  let ?t = "ce_text E"
  have t0: "mem_load ?t p = Some ch_quote" "drop (p + 1) ?t = [ch_backslash, ch_u, ch_quote, a, b, c] @ body @ rest"
    using mem_load_drop [of p ?t] input by simp_all
  have t1: "mem_load ?t (p + 1) = Some ch_backslash" "drop (p + 2) ?t = [ch_u, ch_quote, a, b, c] @ body @ rest"
    using mem_load_drop [of "p + 1" ?t] t0(2) by simp_all
  have t2: "mem_load ?t (p + 2) = Some ch_u" "drop (p + 3) ?t = [ch_quote, a, b, c] @ body @ rest"
    using mem_load_drop [of "p + 2" ?t] t1(2) by (simp_all add: eval_nat_numeral)
  have t3: "mem_load ?t (p + 3) = Some ch_quote"
    using mem_load_drop [of "p + 3" ?t] t2(2) by simp
  have t7: "drop (p + 7) ?t = body @ rest"
  proof -
    have "drop (p + 7) ?t = drop 4 (drop (p + 3) ?t)" by (simp add: add.commute)
    then show ?thesis using t2(2) by simp
  qed
  have len: "string_length ?t (p + 1) 0 = Some 1"
    using t1(1) t3 by (subst string_length.simps, simp, subst string_length.simps, simp add: eval_nat_numeral)
  have "parse_hex4 ?t (p + 3) = Some 0" by (rule parse_hex4_bad [OF t3]) (simp add: hex_value_def)
  then have esc: "parse_escape ?t 2 (p + 2) [] = Some (p + 6, [])"
    using t2(1) by (simp add: parse_escape_def parse_unicode_def eval_nat_numeral Let_def)
  have esc': "parse_escape ?t 2 (p + 1 + 1) [] = Some (p + 6, [])" using esc by (simp add: eval_nat_numeral)
  have "string_loop ?t 2 (p + 7) [] = None"
    by (rule string_loop_overflows [OF t7 body(1)]) (use body(2) in simp_all)
  then have "string_loop ?t 2 (p + 6 + 1) [] = None" by (simp add: eval_nat_numeral)
  then have "string_loop ?t 2 (p + 1) [] = None"
    using t1(1) esc' by (subst string_loop.simps) simp
  then show ?thesis using t0(1) len memory by (simp add: parse_string_def Let_def cJSON_malloc_def eval_nat_numeral)
qed

text \<open>
  An environment for concrete texts: memory that never runs out and a stand-in for the arithmetic on
  doubles that keeps integers as they are.
\<close>

definition sample_env :: "u8 list \<Rightarrow> cj_env" where
  "sample_env t = \<lparr>ce_text = t, ce_malloc = (\<lambda>i. 8), ce_digit = (\<lambda>n d. n * 10 + ucast d),
     ce_scaled = (\<lambda>neg n e. if neg then - n else n), ce_to_int = (\<lambda>d. Some (ucast d))\<rparr>"

definition start_state :: cj_state where
  "start_state = \<lparr>cj_ep = None, cj_calls = 0, cj_live = 0\<rparr>"

text \<open>The text \<open>["ab", 12]\<close>, and the same with a backslash and a \<open>u\<close> before the closing quote.\<close>

definition good_text :: "u8 list" where
  "good_text = [91, 34, 97, 98, 34, 44, 32, 49, 50, 93, 0]"

definition bad_text :: "u8 list" where
  "bad_text = [91, 34, 92, 117, 34, 44, 32, 49, 50, 51, 52, 93, 0]"

text \<open>The conversion to \<open>int\<close> defined only for the integers that fit.\<close>

definition narrow_env :: "u8 list \<Rightarrow> cj_env" where
  "narrow_env t = (sample_env t)\<lparr>ce_to_int := (\<lambda>d. if - (2 ^ 31) \<le> sint d \<and> sint d < 2 ^ 31 then Some (ucast d) else None)\<rparr>"

lemma narrow_good_text: "numbers_in_range (narrow_env good_text)"
proof -
  let ?E = "narrow_env good_text"
  have at: "p = 7 \<or> p = 8" if "p < length good_text" "good_text ! p = ch_minus \<or> is_digit (good_text ! p)" for p
    using that by (auto simp: good_text_def less_Suc_eq is_digit_def)
  have d9: "int_digits ?E n 9 = Some (n, 9)" for n
    by (subst int_digits.simps) (simp add: narrow_env_def sample_env_def good_text_def is_digit_def mem_load_def)
  have d8: "int_digits ?E n 8 = Some (n * 10 + 2, 9)" for n
    using d9 [of "n * 10 + 2"] by (subst int_digits.simps) (simp add: narrow_env_def sample_env_def good_text_def is_digit_def mem_load_def)
  have d7: "int_digits ?E 0 7 = Some (12, 9)"
    using d8 [of 1] by (subst int_digits.simps) (simp add: narrow_env_def sample_env_def good_text_def is_digit_def mem_load_def)
  have c: "parse_fraction ?E n 9 = Some (n, 0, 9)" "parse_exponent (ce_text ?E) 9 = Some (1, 0, 9)" for n
    by (simp_all add: parse_fraction_def parse_exponent_def narrow_env_def sample_env_def good_text_def mem_load_def)
  have i: "parse_int_part ?E 7 = Some (12, 9)" "parse_int_part ?E 8 = Some (2, 9)"
    using d7 d8 [of 0] by (simp_all add: parse_int_part_def narrow_env_def sample_env_def good_text_def mem_load_def is_digit_def)
  have m: "mem_load (ce_text ?E) 7 = Some 49" "mem_load (ce_text ?E) 8 = Some 50"
    by (simp_all add: narrow_env_def sample_env_def good_text_def mem_load_def)
  have "number_read_at ?E 7 = Some 12" "number_read_at ?E 8 = Some 2"
    unfolding number_read_at_def m using i c by (simp_all add: narrow_env_def sample_env_def)
  moreover have "ce_to_int ?E 12 \<noteq> None" "ce_to_int ?E 2 \<noteq> None" by (simp_all add: narrow_env_def)
  moreover have "ce_text ?E = good_text" by (simp add: narrow_env_def sample_env_def)
  ultimately show ?thesis unfolding numbers_in_range_def using at by force
qed

theorem cjson_parse_safe_witness:
  "terminated good_text \<and> escapes_ok good_text \<and> short_digit_runs good_text
    \<and> (\<exists>r s'. cJSON_Parse (narrow_env good_text) start_state = Some (r, s')
      \<and> cj_live s' = 0 + (case r of None \<Rightarrow> 0 | Some c \<Rightarrow> blocks c))"
proof -
  have t: "terminated good_text" "escapes_ok good_text" "short_digit_runs good_text"
    by (auto simp: terminated_def good_text_def less_Suc_eq is_digit_def short_digit_runs_def intro!: escapes_ok_plain)
  show ?thesis
    using t cjson_parse_safe [of "narrow_env good_text" start_state, OF _ _ _ narrow_good_text]
    by (simp add: narrow_env_def sample_env_def start_state_def)
qed

theorem cjson_short_escape_overflows_witness:
  "parse_string (sample_env bad_text) empty_item 1 start_state = None"
  by (rule cjson_short_escape_overflows [where a = 44 and b = 32 and c = 49 and body = "[50, 51, 52, 93]" and rest = "[0]"])
    (simp_all add: sample_env_def bad_text_def plain_def start_state_def)

end
