(* ===== verification/Cjson_Grammar.thy ===== *)
theory Cjson_Grammar
  imports Cjson_Total
begin

text \<open>
  A sublanguage of the JSON of RFC 8259, as a relation between values and their texts, and the tree an item stands
  for. The parser of \<open>src/utils/cJSON.c\<close> turns every text of this grammar into the tree of its value, whatever
  stands before and behind it. Left out are what RFC 8259 allows and the parser does not keep: the escape of
  code point 0 and the escapes of surrogates that are not a pair, which it drops from strings, and exponents of more
  than nine digits, which it may compute outside \<open>int\<close>.
\<close>

section \<open>Values\<close>

text \<open>A number: sign, integer digits, fraction digits, and the exponent's letter, sign and digits.\<close>

datatype json_number = JNum bool "u8 list" "u8 list" "(u8 \<times> u8 list \<times> u8 list) option"

datatype json = JNull | JFalse | JTrue | JNumber json_number | JString "u8 list"
  | JArray "json list" | JObject "(u8 list \<times> json) list"

section \<open>Texts\<close>

definition white :: "u8 list \<Rightarrow> bool" where
  "white w \<longleftrightarrow> set w \<subseteq> {9, 10, 13, 32}"

definition digits :: "u8 list \<Rightarrow> bool" where
  "digits ds \<longleftrightarrow> ds \<noteq> [] \<and> list_all is_digit ds"

fun number_ok :: "json_number \<Rightarrow> bool" where
  "number_ok (JNum neg i f e) \<longleftrightarrow> digits i \<and> (hd i = ch_zero \<longrightarrow> i = [ch_zero]) \<and> list_all is_digit f
     \<and> (case e of None \<Rightarrow> True | Some (x, sg, ds) \<Rightarrow> (x = ch_e \<or> x = ch_E) \<and> sg \<in> {[], [ch_plus], [ch_minus]} \<and> digits ds \<and> length ds \<le> 9)"

fun number_text :: "json_number \<Rightarrow> u8 list" where
  "number_text (JNum neg i f e) = (if neg then [ch_minus] else []) @ i @ (if f = [] then [] else ch_dot # f)
     @ (case e of None \<Rightarrow> [] | Some (x, sg, ds) \<Rightarrow> x # sg @ ds)"

definition hex_nat :: "u8 \<Rightarrow> nat" where
  "hex_nat c = (if c \<le> 57 then unat c - 48 else if c \<le> 70 then unat c - 55 else unat c - 87)"

definition is_hex :: "u8 \<Rightarrow> bool" where
  "is_hex c \<longleftrightarrow> is_digit c \<or> 65 \<le> c \<and> c \<le> 70 \<or> 97 \<le> c \<and> c \<le> 102"

definition hex4 :: "u8 list \<Rightarrow> nat \<Rightarrow> bool" where
  "hex4 ds n \<longleftrightarrow> length ds = 4 \<and> list_all is_hex ds \<and> n = foldl (\<lambda>n c. 16 * n + hex_nat c) 0 ds"

text \<open>The UTF-8 encoding of a code point (RFC 3629).\<close>

definition utf8 :: "nat \<Rightarrow> u8 list" where
  "utf8 n = map of_nat
     (if n < 0x80 then [n]
      else if n < 0x800 then [0xC0 + n div 64, 0x80 + n mod 64]
      else if n < 0x10000 then [0xE0 + n div 4096, 0x80 + n div 64 mod 64, 0x80 + n mod 64]
      else [0xF0 + n div 262144, 0x80 + n div 4096 mod 64, 0x80 + n div 64 mod 64, 0x80 + n mod 64])"

definition escapes :: "(u8 \<times> u8) list" where
  "escapes = [(34, 34), (92, 92), (47, 47), (98, 8), (102, 12), (110, 10), (114, 13), (116, 9)]"

text \<open>The bytes of a string and its text between the quotes.\<close>

inductive string_text :: "u8 list \<Rightarrow> u8 list \<Rightarrow> bool" where
  string_nil: "string_text [] []"
| string_plain: "plain c \<Longrightarrow> 32 \<le> c \<Longrightarrow> string_text v t \<Longrightarrow> string_text (c # v) (c # t)"
| string_escape: "(e, c) \<in> set escapes \<Longrightarrow> string_text v t \<Longrightarrow> string_text (c # v) (ch_backslash # e # t)"
| string_code: "hex4 ds n \<Longrightarrow> 0 < n \<Longrightarrow> n < 0xD800 \<or> 0xDFFF < n \<Longrightarrow> string_text v t
    \<Longrightarrow> string_text (utf8 n @ v) (ch_backslash # ch_u # ds @ t)"
| string_pair: "hex4 ds hi \<Longrightarrow> 0xD800 \<le> hi \<Longrightarrow> hi \<le> 0xDBFF \<Longrightarrow> hex4 es lo \<Longrightarrow> 0xDC00 \<le> lo \<Longrightarrow> lo \<le> 0xDFFF \<Longrightarrow> string_text v t
    \<Longrightarrow> string_text (utf8 (0x10000 + (hi - 0xD800) * 0x400 + (lo - 0xDC00)) @ v) (ch_backslash # ch_u # ds @ ch_backslash # ch_u # es @ t)"

inductive value_text :: "json \<Rightarrow> u8 list \<Rightarrow> bool" and
    elements_text :: "json list \<Rightarrow> u8 list \<Rightarrow> bool" and
    members_text :: "(u8 list \<times> json) list \<Rightarrow> u8 list \<Rightarrow> bool" where
  text_null: "value_text JNull lit_null"
| text_false: "value_text JFalse lit_false"
| text_true: "value_text JTrue lit_true"
| text_number: "number_ok x \<Longrightarrow> value_text (JNumber x) (number_text x)"
| text_string: "string_text v t \<Longrightarrow> value_text (JString v) (ch_quote # t @ [ch_quote])"
| text_empty_array: "white w \<Longrightarrow> value_text (JArray []) (ch_lbracket # w @ [ch_rbracket])"
| text_array: "elements_text vs t \<Longrightarrow> value_text (JArray vs) (ch_lbracket # t @ [ch_rbracket])"
| text_empty_object: "white w \<Longrightarrow> value_text (JObject []) (ch_lbrace # w @ [ch_rbrace])"
| text_object: "members_text ms t \<Longrightarrow> value_text (JObject ms) (ch_lbrace # t @ [ch_rbrace])"
| text_element: "white w1 \<Longrightarrow> value_text v t \<Longrightarrow> white w2 \<Longrightarrow> elements_text [v] (w1 @ t @ w2)"
| text_elements: "white w1 \<Longrightarrow> value_text v t \<Longrightarrow> white w2 \<Longrightarrow> elements_text vs ts
    \<Longrightarrow> elements_text (v # vs) (w1 @ t @ w2 @ ch_comma # ts)"
| text_member: "white w1 \<Longrightarrow> string_text k kt \<Longrightarrow> white w2 \<Longrightarrow> white w3 \<Longrightarrow> value_text v t \<Longrightarrow> white w4
    \<Longrightarrow> members_text [(k, v)] (w1 @ ch_quote # kt @ ch_quote # w2 @ ch_colon # w3 @ t @ w4)"
| text_members: "white w1 \<Longrightarrow> string_text k kt \<Longrightarrow> white w2 \<Longrightarrow> white w3 \<Longrightarrow> value_text v t \<Longrightarrow> white w4 \<Longrightarrow> members_text ms ts
    \<Longrightarrow> members_text ((k, v) # ms) (w1 @ ch_quote # kt @ ch_quote # w2 @ ch_colon # w3 @ t @ w4 @ ch_comma # ts)"

section \<open>What an item stands for\<close>

text \<open>The double of a number: its digits, a lone leading zero left out, scaled by the exponent.\<close>

fun number_double :: "cj_env \<Rightarrow> json_number \<Rightarrow> u64" where
  "number_double E (JNum neg i f e) = ce_scaled E neg
     (foldl (ce_digit E) 0 (map (\<lambda>c. c - ch_zero) ((if i = [ch_zero] then [] else i) @ f)))
     (- int (length f) + (case e of None \<Rightarrow> 0
        | Some (x, sg, ds) \<Rightarrow> (if sg = [ch_minus] then -1 else 1) * foldl (\<lambda>n c. n * 10 + uint (c - ch_zero)) 0 ds))"

definition item_name :: "cJSON \<Rightarrow> u8 list option" where
  "item_name c = map_option snd (js_string c)"

fun represents :: "cj_env \<Rightarrow> json \<Rightarrow> cJSON \<Rightarrow> bool" and
    represents_list :: "cj_env \<Rightarrow> json list \<Rightarrow> cJSON list \<Rightarrow> bool" and
    represents_members :: "cj_env \<Rightarrow> (u8 list \<times> json) list \<Rightarrow> cJSON list \<Rightarrow> bool" where
  "represents E JNull c \<longleftrightarrow> js_type c = cJSON_NULL \<and> js_child c = []"
| "represents E JFalse c \<longleftrightarrow> js_type c = cJSON_False \<and> js_child c = []"
| "represents E JTrue c \<longleftrightarrow> js_type c = cJSON_True \<and> js_valueint c = 1 \<and> js_child c = []"
| "represents E (JNumber x) c \<longleftrightarrow> js_type c = cJSON_Number \<and> js_valuedouble c = number_double E x
     \<and> ce_to_int E (number_double E x) = Some (js_valueint c) \<and> js_child c = []"
| "represents E (JString v) c \<longleftrightarrow> js_type c = cJSON_String \<and> map_option snd (js_valuestring c) = Some v \<and> js_child c = []"
| "represents E (JArray vs) c \<longleftrightarrow> js_type c = cJSON_Array \<and> represents_list E vs (js_child c)"
| "represents E (JObject ms) c \<longleftrightarrow> js_type c = cJSON_Object \<and> represents_members E ms (js_child c)"
| "represents_list E [] cs \<longleftrightarrow> cs = []"
| "represents_list E (v # vs) cs \<longleftrightarrow> 
     (case cs of [] \<Rightarrow> False | c # cs \<Rightarrow> item_name c = None \<and> represents E v c \<and> represents_list E vs cs)"
| "represents_members E [] cs \<longleftrightarrow> cs = []"
| "represents_members E ((k, v) # ms) cs \<longleftrightarrow>
     (case cs of [] \<Rightarrow> False | c # cs \<Rightarrow> item_name c = Some k \<and> represents E v c \<and> represents_members E ms cs)"

section \<open>UTF-8\<close>

lemma push_bit_disjoint: "b \<le> a \<Longrightarrow> push_bit a w AND take_bit b (v :: 'a::len word) = 0"
  by (rule bit_word_eqI) (auto simp: bit_simps)

lemma push_or_add: "b \<le> a \<Longrightarrow> push_bit a w OR take_bit b (v :: 'a::len word) = push_bit a w + take_bit b v"
  by (rule disjunctive_add_eq_or [symmetric]) (rule push_bit_disjoint)

lemma tail_byte: "(ucast ((uc OR 0x80) AND 0xBF :: u32) :: u8) = of_nat (0x80 + unat uc mod 64)"
proof -
  have m: "(0xBF :: u32) = mask 6 OR push_bit 7 1" "(0x80 :: u32) = push_bit 7 1" by (simp_all add: mask_eq_exp_minus_1 push_bit_eq_mult)
  have "(uc OR 0x80) AND 0xBF = push_bit 7 1 OR take_bit 6 uc"
    unfolding m by (rule bit_word_eqI) (auto simp: bit_simps)
  then have "unat ((uc OR 0x80) AND 0xBF) = unat (push_bit 7 1 + take_bit 6 uc)" by (simp only: push_or_add)
  also have "\<dots> = 0x80 + unat uc mod 64"
    by (simp add: unat_word_ariths push_bit_eq_mult unsigned_take_bit_eq take_bit_eq_mod)
  finally show ?thesis by (metis of_nat_unat)
qed

lemma lead_byte:
  fixes m c :: u8
  assumes "unat uc < 2 ^ k" "k \<le> 7" "m = push_bit k c"
  shows "(ucast (uc OR ucast m :: u32) :: u8) = of_nat (unat m + unat uc)"
proof -
  have "ucast (uc OR ucast m :: u32) = (ucast uc :: u8) OR m" by (rule bit_word_eqI) (auto simp: bit_simps)
  moreover have "take_bit k (ucast uc :: u8) = ucast uc"
  proof (rule word_unat_eq_iff [THEN iffD2])
    have "(2 :: nat) ^ k \<le> 2 ^ 7" using assms(2) by (intro power_increasing) simp_all
    then have "take_bit k (unat (ucast uc :: u8)) = unat (ucast uc :: u8)"
      using assms(1) by (intro take_bit_nat_eq_self) (simp add: unsigned_ucast_eq take_bit_nat_eq_self)
    then show "unat (take_bit k (ucast uc :: u8)) = unat (ucast uc :: u8)" by (simp only: unsigned_take_bit_eq)
  qed
  ultimately have "ucast (uc OR ucast m :: u32) = m + (ucast uc :: u8)"
    using push_or_add [of k k c "ucast uc"] assms(3) by (simp add: or.commute)
  then show ?thesis by simp
qed

lemma unat_drop_bit: "unat (drop_bit k w) = unat w div 2 ^ k"
  by (subst unat_drop_bit_eq) (rule drop_bit_eq_div)

lemma utf8_switch_spec:
  assumes "unat uc < 0x110000"
  shows "utf8_switch (firstByteMark ! utf8_length uc) (utf8_length uc) uc = utf8 (unat uc)"
proof -
  have marks: "firstByteMark ! Suc 0 = 0" "firstByteMark ! 2 = 0xC0" "firstByteMark ! 3 = 0xE0" "firstByteMark ! 4 = 0xF0"
    by (simp_all add: firstByteMark_def)
  have n: "uc < 0x80 \<longleftrightarrow> unat uc < 0x80" "uc < 0x800 \<longleftrightarrow> unat uc < 0x800" "uc < 0x10000 \<longleftrightarrow> unat uc < 0x10000"
    by (simp_all add: word_less_nat_alt)
  have sw: "utf8_switch m 1 u = [ucast (u OR ucast m)]"
    "utf8_switch m 2 u = [ucast (drop_bit 6 u OR ucast m), ucast ((u OR 0x80) AND 0xBF)]"
    "utf8_switch m 3 u = [ucast (drop_bit 12 u OR ucast m), ucast ((drop_bit 6 u OR 0x80) AND 0xBF), ucast ((u OR 0x80) AND 0xBF)]"
    "utf8_switch m 4 u = [ucast (drop_bit 18 u OR ucast m), ucast ((drop_bit 12 u OR 0x80) AND 0xBF), ucast ((drop_bit 6 u OR 0x80) AND 0xBF), ucast ((u OR 0x80) AND 0xBF)]" for m u
    by (simp_all add: eval_nat_numeral)
  consider "unat uc < 0x80" | "0x80 \<le> unat uc" "unat uc < 0x800" | "0x800 \<le> unat uc" "unat uc < 0x10000" | "0x10000 \<le> unat uc"
    by linarith
  then show ?thesis
  proof cases
    case 1
    then show ?thesis using lead_byte [of uc 7 0 0] by (simp add: utf8_length_def n marks sw utf8_def)
  next
    case 2
    then show ?thesis using lead_byte [of "drop_bit 6 uc" 5 "0xC0" 6]
      by (simp add: utf8_length_def n marks sw utf8_def tail_byte unat_drop_bit)
  next
    case 3
    then show ?thesis using lead_byte [of "drop_bit 12 uc" 4 "0xE0" 14]
      by (simp add: utf8_length_def n marks sw utf8_def tail_byte unat_drop_bit)
  next
    case 4
    then show ?thesis using lead_byte [of "drop_bit 18 uc" 3 "0xF0" 30] assms
      by (simp add: utf8_length_def n marks sw utf8_def tail_byte unat_drop_bit)
  qed
qed

text \<open>Hexadecimal digits.\<close>

lemma hex_value_spec: "is_hex c \<Longrightarrow> hex_value c = Some (of_nat (hex_nat c))"
  unfolding hex_value_def is_hex_def is_digit_def hex_nat_def
  by (auto simp: word_le_nat_alt of_nat_diff)

lemma hex_nat_less: "is_hex c \<Longrightarrow> hex_nat c < 16"
  by (auto simp: hex_nat_def is_hex_def is_digit_def word_le_nat_alt)

lemma drop_skip: "drop p t = xs @ ys \<Longrightarrow> drop (p + length xs) t = ys"
  by (metis add.commute append_eq_conv_conj drop_drop)

lemma hex_loop_spec:
  "drop p t = ds @ rest \<Longrightarrow> list_all is_hex ds
    \<Longrightarrow> hex_loop t p (length ds) (of_nat n) = Some (of_nat (foldl (\<lambda>n c. 16 * n + hex_nat c) n ds))"
proof (induction ds arbitrary: p n)
  case (Cons c ds)
  then have c: "mem_load t p = Some c" "drop (p + 1) t = ds @ rest" using mem_load_drop [of p t c] by auto
  have "push_bit 4 (of_nat n) + of_nat (hex_nat c) = (of_nat (16 * n + hex_nat c) :: u32)"
    by (simp add: push_bit_eq_mult)
  then show ?case using Cons.IH [OF c(2), of "16 * n + hex_nat c"] Cons.prems(2) c(1) by (simp add: hex_value_spec)
qed simp

lemma hex4_length: "hex4 ds n \<Longrightarrow> length ds = 4"
  by (simp add: hex4_def)

lemma hex4_less: "hex4 ds n \<Longrightarrow> n < 65536"
proof -
  assume h: "hex4 ds n"
  then obtain a b c d where ds: "ds = [a, b, c, d]" by (auto simp: hex4_def numeral_eq_Suc length_Suc_conv)
  show ?thesis using h hex_nat_less [of a] hex_nat_less [of b] hex_nat_less [of c] hex_nat_less [of d]
    by (simp add: hex4_def ds)
qed

lemma parse_hex4_spec: "hex4 ds n \<Longrightarrow> drop p t = ds @ rest \<Longrightarrow> parse_hex4 t p = Some (of_nat n)"
  using hex_loop_spec [of p t ds rest 0] by (simp add: hex4_def parse_hex4_def)

lemma of_nat_range: "n < 65536 \<Longrightarrow> unat (of_nat n :: u32) = n"
  by (simp add: unat_of_nat)

lemma of_nat_zero: "n < 65536 \<Longrightarrow> (of_nat n :: u32) = 0 \<longleftrightarrow> n = 0"
  by (auto simp: word_of_nat_eq_0_iff dest: dvd_imp_le)

lemma of_nat_compare:
  assumes "n < 65536"
  shows "(w :: u32) \<le> of_nat n \<longleftrightarrow> unat w \<le> n" "of_nat n \<le> w \<longleftrightarrow> n \<le> unat w"
    "of_nat n < w \<longleftrightarrow> n < unat w" "w < of_nat n \<longleftrightarrow> unat w < n"
  by (simp_all only: word_le_nat_alt word_less_nat_alt of_nat_range [OF assms])

lemma surrogate_value:
  assumes "0xD800 \<le> hi" "hi \<le> 0xDBFF" "0xDC00 \<le> lo" "lo \<le> 0xDFFF"
  shows "unat (0x10000 + (push_bit 10 (of_nat hi AND 0x3FF) OR (of_nat lo AND 0x3FF)) :: u32)
    = 0x10000 + (hi - 0xD800) * 0x400 + (lo - 0xDC00)"
proof -
  have m: "w AND 0x3FF = take_bit 10 w" for w :: u32 by (simp add: take_bit_eq_mask mask_eq_exp_minus_1)
  have mod10: "take_bit 10 n = n - k * 1024" if "k * 1024 \<le> n" "n < k * 1024 + 1024" for n k :: nat
  proof -
    from le_Suc_ex [OF that(1)] obtain a where "n = k * 1024 + a" by blast
    with that(2) show ?thesis by (simp add: take_bit_eq_mod)
  qed
  have "take_bit 10 hi = hi - 0xD800" "take_bit 10 lo = lo - 0xDC00" "hi < 65536" "lo < 65536"
    using mod10 [of 54 hi] mod10 [of 55 lo] assms by simp_all
  then have u: "unat (take_bit 10 (of_nat hi) :: u32) = hi - 0xD800" "unat (take_bit 10 (of_nat lo) :: u32) = lo - 0xDC00"
    by (simp_all only: unsigned_take_bit_eq of_nat_range)
  have "push_bit 10 (take_bit 10 (of_nat hi)) OR take_bit 10 (of_nat lo) = push_bit 10 (take_bit 10 (of_nat hi)) + (take_bit 10 (of_nat lo) :: u32)"
    by (rule push_or_add) simp
  then show ?thesis unfolding m using u assms by (simp add: unat_word_ariths push_bit_eq_mult)
qed

section \<open>Strings\<close>

lemma put_utf8_spec:
  "unat uc < 0x110000 \<Longrightarrow> length out + length (utf8 (unat uc)) \<le> cap \<Longrightarrow> put_utf8 cap out uc = Some (out @ utf8 (unat uc))"
  using utf8_switch_spec [of uc] utf8_switch_length [of "firstByteMark ! utf8_length uc" "utf8_length uc" uc]
  by (simp add: put_utf8_def put_out_def Let_def)

lemma parse_unicode_code:
  assumes "drop p t = ch_u # ds @ rest" "hex4 ds n" "0 < n" "n < 0xD800 \<or> 0xDFFF < n" "length out + length (utf8 n) \<le> cap"
  shows "parse_unicode t cap p out = Some (p + 4, out @ utf8 n)"
proof -
  have n: "n < 65536" using hex4_less [OF assms(2)] .
  have "drop (p + 1) t = ds @ rest" using mem_load_drop [OF assms(1)] by simp
  then have h: "parse_hex4 t (p + 1) = Some (of_nat n)" by (rule parse_hex4_spec [OF assms(2)])
  have r: "0xDC00 \<le> (of_nat n :: u32) \<longleftrightarrow> 0xDC00 \<le> n" "(of_nat n :: u32) \<le> 0xDFFF \<longleftrightarrow> n \<le> 0xDFFF"
    "0xD800 \<le> (of_nat n :: u32) \<longleftrightarrow> 0xD800 \<le> n" "(of_nat n :: u32) \<le> 0xDBFF \<longleftrightarrow> n \<le> 0xDBFF" "(of_nat n :: u32) = 0 \<longleftrightarrow> n = 0"
    by (simp_all only: of_nat_compare [OF n] of_nat_zero [OF n]) simp_all
  have "put_utf8 cap out (of_nat n) = Some (out @ utf8 n)"
    using put_utf8_spec [of "of_nat n" out cap] assms(5) n by (simp add: of_nat_range)
  moreover have "\<not> (0xDC00 \<le> (of_nat n :: u32) \<and> (of_nat n :: u32) \<le> 0xDFFF \<or> (of_nat n :: u32) = 0)"
    "\<not> (0xD800 \<le> (of_nat n :: u32) \<and> (of_nat n :: u32) \<le> 0xDBFF)"
    unfolding r using assms(3,4) by auto
  ultimately show ?thesis by (simp only: parse_unicode_def h Let_def if_False Option.bind.simps)
qed

lemma parse_unicode_pair:
  assumes "drop p t = ch_u # ds @ ch_backslash # ch_u # es @ rest" "hex4 ds hi" "0xD800 \<le> hi" "hi \<le> 0xDBFF"
    "hex4 es lo" "0xDC00 \<le> lo" "lo \<le> 0xDFFF"
    "length out + length (utf8 (0x10000 + (hi - 0xD800) * 0x400 + (lo - 0xDC00))) \<le> cap"
  shows "parse_unicode t cap p out = Some (p + 10, out @ utf8 (0x10000 + (hi - 0xD800) * 0x400 + (lo - 0xDC00)))"
proof -
  have n: "hi < 65536" "lo < 65536" using hex4_less assms(2,5) by blast+
  have d1: "drop (p + 1) t = ds @ ch_backslash # ch_u # es @ rest" using mem_load_drop [OF assms(1)] by simp
  then have h: "parse_hex4 t (p + 1) = Some (of_nat hi)" by (rule parse_hex4_spec [OF assms(2)])
  have d2: "drop (p + 5) t = ch_backslash # ch_u # es @ rest"
    using drop_skip [OF d1] hex4_length [OF assms(2)] by (simp add: add.commute)
  from mem_load_drop [OF this] have l: "mem_load t (p + 5) = Some ch_backslash" "drop (p + 5 + 1) t = ch_u # es @ rest"
    by (rule conjunct1, rule conjunct2)
  then have l': "mem_load t (p + 6) = Some ch_u" "drop (p + 5 + 1 + 1) t = es @ rest"
    using mem_load_drop [OF l(2)] by (simp_all add: add.commute)
  then have h': "parse_hex4 t (p + 7) = Some (of_nat lo)" using parse_hex4_spec [OF assms(5), of "p + 7"] by (simp add: add.commute)
  have r: "0xDC00 \<le> (of_nat hi :: u32) \<longleftrightarrow> 0xDC00 \<le> hi" "(of_nat hi :: u32) \<le> 0xDFFF \<longleftrightarrow> hi \<le> 0xDFFF"
    "0xD800 \<le> (of_nat hi :: u32) \<longleftrightarrow> 0xD800 \<le> hi" "(of_nat hi :: u32) \<le> 0xDBFF \<longleftrightarrow> hi \<le> 0xDBFF" "(of_nat hi :: u32) = 0 \<longleftrightarrow> hi = 0"
    "(of_nat lo :: u32) < 0xDC00 \<longleftrightarrow> lo < 0xDC00" "(of_nat lo :: u32) > 0xDFFF \<longleftrightarrow> lo > 0xDFFF"
    by (simp_all only: of_nat_compare [OF n(1)] of_nat_compare [OF n(2)] of_nat_zero [OF n(1)]) simp_all
  let ?uc = "0x10000 + (push_bit 10 (of_nat hi AND 0x3FF) OR (of_nat lo AND 0x3FF)) :: u32"
  have "unat ?uc = 0x10000 + (hi - 0xD800) * 0x400 + (lo - 0xDC00)" by (rule surrogate_value) fact+
  moreover have "\<dots> < 0x110000" using assms(3,4,6,7) by simp
  ultimately have "put_utf8 cap out ?uc = Some (out @ utf8 (0x10000 + (hi - 0xD800) * 0x400 + (lo - 0xDC00)))"
    using put_utf8_spec [of ?uc out cap] assms(8) by metis
  moreover have "p + 4 + 1 = p + 5" "p + 4 + 2 = p + 6" "p + 4 + 3 = p + 7" "p + 4 + 6 = p + 10" by simp_all
  moreover have "\<not> (0xDC00 \<le> (of_nat hi :: u32) \<and> (of_nat hi :: u32) \<le> 0xDFFF \<or> (of_nat hi :: u32) = 0)"
    "0xD800 \<le> (of_nat hi :: u32) \<and> (of_nat hi :: u32) \<le> 0xDBFF" "\<not> ((of_nat lo :: u32) < 0xDC00 \<or> (of_nat lo :: u32) > 0xDFFF)"
    unfolding r using assms(3,4,6,7) by auto
  ultimately show ?thesis using h h' l(1) l'(1)
    by (simp only: parse_unicode_def Let_def if_False if_True Option.bind.simps not_True_eq_False simp_thms)
qed

lemma utf8_length_bound: "n < 65536 \<Longrightarrow> length (utf8 n) \<le> 3" "length (utf8 n) \<le> 4"
  by (auto simp: utf8_def)

lemma hex_run_drop: "drop p t = ds @ rest \<Longrightarrow> rest \<noteq> [] \<Longrightarrow> list_all is_hex ds \<Longrightarrow> hex_run t p (length ds)"
proof (induction ds arbitrary: p)
  case Nil
  then show ?case by (cases "p \<le> length t") (auto simp: hex_run_def)
next
  case (Cons c ds)
  then have c: "mem_load t p = Some c" "drop (p + 1) t = ds @ rest" using mem_load_drop [of p t c] by auto
  then show ?case using Cons.IH [OF c(2)] Cons.prems(2,3) by (auto simp: hex_run_Suc mem_load_Some_iff hex_value_spec)
qed

lemma code_length:
  assumes "drop p t = ch_backslash # ch_u # ds @ r" "hex4 ds n" "r \<noteq> []"
  shows "string_length t p 0 = map_option (\<lambda>l. l + 5) (string_length t (p + 6) 0) \<and> drop (p + 6) t = r"
proof -
  have c: "p < length t" "t ! p = ch_backslash" using mem_load_drop [OF assms(1)] by (auto simp: mem_load_Some_iff)
  have d: "drop (p + 2) t = ds @ r" using drop_skip [of p t "[ch_backslash, ch_u]"] assms(1) by simp
  have "hex_run t (p + 2) 4" using hex_run_drop [OF d assms(3)] assms(2) by (simp add: hex4_def)
  from string_length_hex [OF this] have "string_length t (p + 2) 0 = map_option (\<lambda>l. l + 4) (string_length t (p + 6) 0)"
    by (simp add: add.commute)
  moreover have "string_length t p 0 = map_option Suc (string_length t (p + 2) 0)"
    using string_length_plain [OF c(1)] c(2) by simp
  moreover have "drop (p + 6) t = r" using drop_skip [OF d] hex4_length [OF assms(2)] by (simp add: add.commute)
  ultimately show ?thesis by (simp add: option.map_comp comp_def add.commute)
qed

text \<open>The first pass counts at least the bytes the second writes.\<close>

lemma string_length_text:
  "string_text v tx \<Longrightarrow> drop p t = tx @ ch_quote # rest \<Longrightarrow> \<exists>l. string_length t p 0 = Some l \<and> length v \<le> l"
proof (induction arbitrary: p rule: string_text.induct)
  case string_nil
  then show ?case using mem_load_drop [of p t] by (subst string_length.simps) simp
next
  case (string_plain c v tx)
  then have c: "p < length t" "t ! p = c" "drop (p + 1) t = tx @ ch_quote # rest"
    using mem_load_drop [of p t c] by (auto simp: mem_load_Some_iff)
  with string_plain.IH [OF c(3)] string_plain.hyps(1) show ?case
    by (auto simp: string_length_plain plain_def)
next
  case (string_escape e c v tx)
  then have c: "p < length t" "t ! p = ch_backslash" "drop (p + 2) t = tx @ ch_quote # rest"
    using drop_skip [of p t "[ch_backslash, e]"] mem_load_drop [of p t ch_backslash] by (auto simp: mem_load_Some_iff)
  with string_escape.IH [OF c(3)] show ?case by (auto simp: string_length_plain)
next
  case (string_code ds n v tx)
  then have "string_length t p 0 = map_option (\<lambda>l. l + 5) (string_length t (p + 6) 0)" "drop (p + 6) t = tx @ ch_quote # rest"
    using code_length [of p t ds "tx @ ch_quote # rest" n] by simp_all
  with string_code.IH [of "p + 6"] utf8_length_bound(2) [of n] show ?case by auto
next
  case (string_pair ds hi es lo v tx)
  let ?n = "0x10000 + (hi - 0xD800) * 0x400 + (lo - 0xDC00)"
  have "string_length t p 0 = map_option (\<lambda>l. l + 5) (string_length t (p + 6) 0)"
      and d: "drop (p + 6) t = ch_backslash # ch_u # es @ tx @ ch_quote # rest"
    using code_length [of p t ds "ch_backslash # ch_u # es @ tx @ ch_quote # rest" hi] string_pair by simp_all
  moreover have "string_length t (p + 6) 0 = map_option (\<lambda>l. l + 5) (string_length t (p + 12) 0)" "drop (p + 12) t = tx @ ch_quote # rest"
    using code_length [OF d string_pair.hyps(4)] by (simp_all add: add.commute)
  moreover have "length (utf8 ?n) \<le> 4" by (rule utf8_length_bound)
  ultimately show ?case using string_pair.IH [of "p + 12"] by auto
qed

text \<open>The second pass decodes.\<close>

lemma escape_chars:
  "(e, c) \<in> set escapes \<Longrightarrow> e \<noteq> ch_u \<and> (if e = 98 then 8 else if e = 102 then 12 else if e = 110 then 10 else if e = 114 then 13
      else if e = 116 then 9 else e) = c"
  by (auto simp: escapes_def)

lemma string_loop_backslash:
  "drop p t = ch_backslash # r \<Longrightarrow> string_loop t cap p out = do { (ptr, out) \<leftarrow> parse_escape t cap (p + 1) out; string_loop t cap (ptr + 1) out }"
  using mem_load_drop [of p t] by (subst string_loop.simps) simp

lemma string_loop_text:
  "string_text v tx \<Longrightarrow> drop p t = tx @ ch_quote # rest \<Longrightarrow> length out + length v \<le> cap
    \<Longrightarrow> string_loop t cap p out = Some (p + length tx, out @ v)"
proof (induction arbitrary: p out rule: string_text.induct)
  case string_nil
  then show ?case using mem_load_drop [of p t] by (subst string_loop.simps) simp
next
  case (string_plain c v tx)
  then have c: "mem_load t p = Some c" "drop (p + 1) t = tx @ ch_quote # rest" using mem_load_drop [of p t c] by auto
  have "put_out cap out [c] = Some (out @ [c])" using string_plain.prems(2) by (simp add: put_out_def)
  with string_plain.IH [OF c(2), of "out @ [c]"] string_plain.prems(2) string_plain.hyps(1) c(1) show ?case
    by (subst string_loop.simps) (simp add: plain_def)
next
  case (string_escape e c v tx)
  then have d: "drop (p + 1) t = e # tx @ ch_quote # rest" using mem_load_drop [of p t] by simp
  then have e: "mem_load t (p + 1) = Some e" "drop (p + 2) t = tx @ ch_quote # rest" using mem_load_drop [OF d] by simp_all
  have "parse_escape t cap (p + 1) out = Some (p + 1, out @ [c])"
    using e(1) escape_chars [OF string_escape.hyps(1)] string_escape.prems(2) by (simp add: parse_escape_def put_out_def)
  with string_escape.IH [OF e(2), of "out @ [c]"] string_escape.prems show ?case
    by (simp add: string_loop_backslash [of p t])
next
  case (string_code ds n v tx)
  then have d: "drop (p + 1) t = ch_u # ds @ tx @ ch_quote # rest" using mem_load_drop [of p t] by simp
  have "parse_escape t cap (p + 1) out = Some (p + 5, out @ utf8 n)"
    using parse_unicode_code [OF d string_code.hyps(1-3), of out cap] string_code.prems(2) mem_load_drop [OF d]
    by (simp add: parse_escape_def add.commute)
  moreover have "drop (p + 6) t = tx @ ch_quote # rest"
    using drop_skip [of "p + 2" t ds] mem_load_drop [OF d] hex4_length [OF string_code.hyps(1)] by (simp add: add.commute)
  ultimately show ?case
    using string_code.IH [of "p + 6" "out @ utf8 n"] string_code.prems hex4_length [OF string_code.hyps(1)]
    by (simp add: string_loop_backslash [of p t] add.commute)
next
  case (string_pair ds hi es lo v tx)
  let ?n = "0x10000 + (hi - 0xD800) * 0x400 + (lo - 0xDC00)"
  from string_pair have d: "drop (p + 1) t = ch_u # ds @ ch_backslash # ch_u # es @ tx @ ch_quote # rest"
    using mem_load_drop [of p t] by simp
  have "parse_escape t cap (p + 1) out = Some (p + 11, out @ utf8 ?n)"
    using parse_unicode_pair [OF d string_pair.hyps(1-6), of out cap] string_pair.prems(2) mem_load_drop [OF d]
    by (simp add: parse_escape_def add.commute)
  moreover have "drop (p + 12) t = tx @ ch_quote # rest"
    using drop_skip [of "p + 1" t "ch_u # ds @ ch_backslash # ch_u # es" "tx @ ch_quote # rest"] d
      hex4_length [OF string_pair.hyps(1)] hex4_length [OF string_pair.hyps(4)] by (simp add: add.commute)
  ultimately show ?case
    using string_pair.IH [of "p + 12" "out @ utf8 ?n"] string_pair.prems hex4_length [OF string_pair.hyps(1)] hex4_length [OF string_pair.hyps(4)]
    by (simp add: string_loop_backslash [of p t] add.commute)
qed

text \<open>No byte of a string is the terminator.\<close>

lemma bytes_nonzero:
  assumes "list_all (\<lambda>k. 0 < k \<and> k < 256) ks"
  shows "(0 :: u8) \<notin> set (map of_nat ks)"
proof
  assume "(0 :: u8) \<in> set (map of_nat ks)"
  then obtain k where k: "k \<in> set ks" "(of_nat k :: u8) = 0" by auto
  then have "256 dvd k" by (simp add: word_of_nat_eq_0_iff)
  moreover have "0 < k" "k < 256" using assms k(1) by (simp_all add: list_all_iff)
  ultimately show False using dvd_imp_le [of 256 k] by simp
qed

lemma utf8_nonzero: "0 < n \<Longrightarrow> n < 0x110000 \<Longrightarrow> 0 \<notin> set (utf8 n)"
  unfolding utf8_def by (rule bytes_nonzero) auto

lemma string_text_nonzero: "string_text v tx \<Longrightarrow> 0 \<notin> set v"
proof (induction rule: string_text.induct)
  case (string_code ds n v t)
  then show ?case using utf8_nonzero [of n] hex4_less [of ds n] by auto
next
  case (string_pair ds hi es lo v t)
  then show ?case using utf8_nonzero [of "0x10000 + (hi - 0xD800) * 0x400 + (lo - 0xDC00)"] by auto
qed (auto simp: plain_def escapes_def)

end
