(* ===== verification/Cjson_Accepts.thy ===== *)
theory Cjson_Accepts
  imports Cjson_Grammar
begin

text \<open>
  The parser of \<open>src/utils/cJSON.c\<close> accepts JSON: on every text of the grammar it reads just that text and builds
  the tree of its value, given memory and numbers whose doubles fit an \<open>int\<close>.
\<close>

section \<open>Numbers\<close>

text \<open>What may follow a number: the texts of the grammar put white space, a comma, a bracket or the end there.\<close>

definition ends_number :: "u8 list \<Rightarrow> bool" where
  "ends_number r \<longleftrightarrow> r \<noteq> [] \<and> \<not> is_digit (hd r) \<and> hd r \<noteq> ch_dot \<and> hd r \<noteq> ch_e \<and> hd r \<noteq> ch_E"

lemma int_digits_text:
  "drop p (ce_text E) = ds @ r \<Longrightarrow> list_all is_digit ds \<Longrightarrow> r \<noteq> [] \<Longrightarrow> \<not> is_digit (hd r)
    \<Longrightarrow> int_digits E n p = Some (foldl (ce_digit E) n (map (\<lambda>c. c - ch_zero) ds), p + length ds)"
proof (induction ds arbitrary: p n)
  case Nil
  then show ?case using mem_load_drop [of p "ce_text E" "hd r" "tl r"] by (subst int_digits.simps) simp
next
  case (Cons c ds)
  then have c: "mem_load (ce_text E) p = Some c" "drop (p + 1) (ce_text E) = ds @ r" using mem_load_drop [of p "ce_text E" c] by auto
  then show ?case using Cons.IH [OF c(2)] Cons.prems by (subst int_digits.simps) simp
qed

lemma frac_digits_text:
  "drop p (ce_text E) = ds @ r \<Longrightarrow> list_all is_digit ds \<Longrightarrow> r \<noteq> [] \<Longrightarrow> \<not> is_digit (hd r)
    \<Longrightarrow> frac_digits E n scale p = Some (foldl (ce_digit E) n (map (\<lambda>c. c - ch_zero) ds), scale - int (length ds), p + length ds)"
proof (induction ds arbitrary: p n scale)
  case Nil
  then show ?case using mem_load_drop [of p "ce_text E" "hd r" "tl r"] by (subst frac_digits.simps) simp
next
  case (Cons c ds)
  then have c: "mem_load (ce_text E) p = Some c" "drop (p + 1) (ce_text E) = ds @ r" using mem_load_drop [of p "ce_text E" c] by auto
  then show ?case using Cons.IH [OF c(2)] Cons.prems by (subst frac_digits.simps) simp
qed

lemma exp_digits_text:
  "drop p t = ds @ r \<Longrightarrow> list_all is_digit ds \<Longrightarrow> r \<noteq> [] \<Longrightarrow> \<not> is_digit (hd r) \<Longrightarrow> 0 \<le> e \<Longrightarrow> e < 10 ^ j \<Longrightarrow> j + length ds \<le> 9
    \<Longrightarrow> exp_digits t e p = Some (foldl (\<lambda>n c. n * 10 + uint (c - ch_zero)) e ds, p + length ds)"
proof (induction ds arbitrary: p e j)
  case Nil
  then show ?case using mem_load_drop [of p t "hd r" "tl r"] by (subst exp_digits.simps) simp
next
  case (Cons c ds)
  then have c: "mem_load t p = Some c" "drop (p + 1) t = ds @ r" using mem_load_drop [of p t c] by auto
  let ?e = "e * 10 + uint (c - ch_zero)"
  have e: "0 \<le> ?e" "?e < 10 ^ Suc j" using Cons.prems digit_value [of c] by simp_all
  moreover have "(10 :: int) ^ Suc j \<le> 10 ^ 9" using Cons.prems(7) by (intro power_increasing) simp_all
  ultimately have "c_int ?e = Some ?e" by (intro c_int_in int32_okI) simp_all
  then show ?case using Cons.IH [OF c(2), of ?e "Suc j"] e Cons.prems c(1) by (subst exp_digits.simps) simp
qed

lemma is_digit_marks [simp]: "\<not> is_digit ch_dot" "\<not> is_digit ch_e" "\<not> is_digit ch_E" "\<not> is_digit ch_minus" "\<not> is_digit ch_plus" "is_digit ch_zero"
  by (simp_all add: is_digit_def)

lemma parse_int_part_text:
  assumes "drop p (ce_text E) = i @ r" "digits i" "hd i = ch_zero \<longrightarrow> i = [ch_zero]" "r \<noteq> []" "\<not> is_digit (hd r)"
  shows "parse_int_part E p = Some (foldl (ce_digit E) 0 (map (\<lambda>c. c - ch_zero) (if i = [ch_zero] then [] else i)), p + length i)"
proof -
  obtain c i' where i: "i = c # i'" using assms(2) by (cases i) (auto simp: digits_def)
  have c: "mem_load (ce_text E) p = Some c" "drop (p + 1) (ce_text E) = i' @ r" using mem_load_drop [of p "ce_text E" c] assms(1) i by auto
  show ?thesis
  proof (cases "c = ch_zero")
    case True
    then have "i' = []" using assms(3) i by simp
    with c(2) have "mem_load (ce_text E) (p + 1) = Some (hd r)" using mem_load_drop [of "p + 1" "ce_text E" "hd r" "tl r"] assms(4) by simp
    with c(1) True \<open>i' = []\<close> assms(5) show ?thesis by (simp add: parse_int_part_def Let_def i)
  next
    case False
    then have "is_digit c" using assms(2) i by (simp add: digits_def)
    moreover have "int_digits E 0 p = Some (foldl (ce_digit E) 0 (map (\<lambda>c. c - ch_zero) i), p + length i)"
      by (rule int_digits_text [OF assms(1) _ assms(4,5)]) (use assms(2) in \<open>simp add: digits_def\<close>)
    ultimately show ?thesis using False c(1) by (simp add: parse_int_part_def Let_def i)
  qed
qed

lemma parse_fraction_text:
  assumes "drop p (ce_text E) = (if f = [] then [] else ch_dot # f) @ r" "list_all is_digit f" "r \<noteq> []" "\<not> is_digit (hd r)" "hd r \<noteq> ch_dot"
  shows "parse_fraction E n p = Some (foldl (ce_digit E) n (map (\<lambda>c. c - ch_zero) f), - int (length f), p + length (if f = [] then [] else ch_dot # f))"
proof (cases f)
  case Nil
  with assms(1,3,5) mem_load_drop [of p "ce_text E" "hd r" "tl r"] show ?thesis by (simp add: parse_fraction_def)
next
  case (Cons c f')
  with assms(1) have d: "drop p (ce_text E) = ch_dot # f @ r" by simp
  then have d1: "drop (p + 1) (ce_text E) = f @ r" using mem_load_drop [OF d] by simp
  with Cons have c: "mem_load (ce_text E) (p + 1) = Some c" using mem_load_drop [of "p + 1" "ce_text E" c] by simp
  have "frac_digits E n 0 (p + 1) = Some (foldl (ce_digit E) n (map (\<lambda>c. c - ch_zero) f), 0 - int (length f), p + 1 + length f)"
    by (rule frac_digits_text [OF d1 assms(2-4)])
  with c mem_load_drop [OF d] Cons assms(2) show ?thesis by (simp add: parse_fraction_def)
qed

fun exp_text :: "(u8 \<times> u8 list \<times> u8 list) option \<Rightarrow> u8 list" where
  "exp_text None = []"
| "exp_text (Some (x, sg, ds)) = x # sg @ ds"

fun exp_value :: "(u8 \<times> u8 list \<times> u8 list) option \<Rightarrow> int" where
  "exp_value None = 0"
| "exp_value (Some (x, sg, ds)) = (if sg = [ch_minus] then -1 else 1) * foldl (\<lambda>n c. n * 10 + uint (c - ch_zero)) 0 ds"

fun exp_ok :: "(u8 \<times> u8 list \<times> u8 list) option \<Rightarrow> bool" where
  "exp_ok None \<longleftrightarrow> True"
| "exp_ok (Some (x, sg, ds)) \<longleftrightarrow> (x = ch_e \<or> x = ch_E) \<and> sg \<in> {[], [ch_plus], [ch_minus]} \<and> digits ds \<and> length ds \<le> 9"

lemma parse_exponent_text:
  assumes "drop p t = exp_text e @ r" "exp_ok e" "ends_number r"
  shows "\<exists>sg k. parse_exponent t p = Some (sg, k, p + length (exp_text e)) \<and> k * sg = exp_value e"
proof (cases e)
  case None
  with assms(1,3) mem_load_drop [of p t "hd r" "tl r"] show ?thesis by (auto simp: parse_exponent_def ends_number_def)
next
  case (Some e')
  then obtain x sg ds where e: "e = Some (x, sg, ds)" by (cases e') auto
  obtain d ds' where ds: "ds = d # ds'" "is_digit d" using assms(2) e by (cases ds) (auto simp: digits_def)
  have d: "drop p t = x # sg @ ds @ r" using assms(1) e by simp
  have run: "exp_digits t 0 q = Some (foldl (\<lambda>n c. n * 10 + uint (c - ch_zero)) 0 ds, q + length ds)" if "drop q t = ds @ r" for q
    by (rule exp_digits_text [OF that, where j = 0]) (use assms(2,3) e in \<open>auto simp: digits_def ends_number_def\<close>)
  have x: "mem_load t p = Some x" "drop (p + 1) t = sg @ ds @ r" "x = ch_e \<or> x = ch_E"
    using mem_load_drop [OF d] assms(2) e by simp_all
  show ?thesis
  proof (cases "sg = []")
    case True
    then have "mem_load t (p + 1) = Some d" using x(2) ds mem_load_drop [of "p + 1" t d] by simp
    moreover have "d \<noteq> ch_plus" "d \<noteq> ch_minus" using ds(2) by auto
    ultimately show ?thesis using x True run [of "p + 1"] e by (auto simp: parse_exponent_def)
  next
    case False
    then obtain m where m: "sg = [m]" "m = ch_plus \<or> m = ch_minus" using assms(2) e by auto
    with x(2) have "mem_load t (p + 1) = Some m" "drop (p + 2) t = ds @ r" using mem_load_drop [of "p + 1" t m] by simp_all
    then show ?thesis using x(1,3) m run [of "p + 2"] e by (auto simp: parse_exponent_def)
  qed
qed

lemma parse_number_text:
  assumes "drop p (ce_text E) = number_text x @ r" "number_ok x" "ends_number r" "ce_to_int E (number_double E x) = Some i"
  shows "parse_number E item p s = Some (Some (p + length (number_text x)), set_number (number_double E x) i item, s)"
proof -
  obtain neg int f e where x: "x = JNum neg int f e" by (cases x)
  have ee: "(case e of None \<Rightarrow> [] | Some (x, sg, ds) \<Rightarrow> x # sg @ ds) = exp_text e"
      "(case e of None \<Rightarrow> 0 | Some (x, sg, ds) \<Rightarrow> (if sg = [ch_minus] then -1 else 1) * foldl (\<lambda>n c. n * 10 + uint (c - ch_zero)) 0 ds) = exp_value e"
    by (cases e; auto)+
  have ok: "digits int" "hd int = ch_zero \<longrightarrow> int = [ch_zero]" "list_all is_digit f" "exp_ok e"
    using assms(2) x by (cases e; auto)+
  let ?f = "if f = [] then [] else ch_dot # f" and ?r = "exp_text e @ r"
  let ?p = "if neg then p + 1 else p"
  have rest: "?r \<noteq> []" "\<not> is_digit (hd ?r)" "hd ?r \<noteq> ch_dot"
    using assms(3) ok(4) by (cases e; auto simp: ends_number_def)+
  have rest2: "?f @ ?r \<noteq> []" "\<not> is_digit (hd (?f @ ?r))" using rest by (auto split: if_splits)
  obtain c i' where i: "int = c # i'" "is_digit c" using ok(1) by (cases int) (auto simp: digits_def)
  have d: "drop ?p (ce_text E) = int @ ?f @ ?r"
    using assms(1) x ee mem_load_drop [of p "ce_text E" ch_minus] by (auto split: if_splits)
  have sign: "\<exists>c. mem_load (ce_text E) p = Some c \<and> (c = ch_minus) = neg"
    using assms(1) x i mem_load_drop [of p "ce_text E"] by (cases neg) auto
  have d1: "drop (?p + length int) (ce_text E) = ?f @ ?r" by (rule drop_skip [OF d])
  have d2: "drop (?p + length int + length ?f) (ce_text E) = ?r" by (rule drop_skip [OF d1])
  obtain sg k where e: "parse_exponent (ce_text E) (?p + length int + length ?f) = Some (sg, k, ?p + length int + length ?f + length (exp_text e))"
      "k * sg = exp_value e"
    using parse_exponent_text [OF d2 ok(4) assms(3)] by blast
  have len: "?p + length int + length ?f + length (exp_text e) = p + length (number_text x)" using x ee by simp
  have dbl: "number_double E x = ce_scaled E neg
      (foldl (ce_digit E) (foldl (ce_digit E) 0 (map (\<lambda>c. c - ch_zero) (if int = [ch_zero] then [] else int))) (map (\<lambda>c. c - ch_zero) f))
      (- of_nat (length f) + k * sg)"
    using x ee e(2) by simp
  show ?thesis
    using sign parse_int_part_text [OF d ok(1,2) rest2] parse_fraction_text [OF d1 ok(3) rest] e(1) assms(4) len dbl
    by (auto simp: parse_number_def Let_def)
qed

section \<open>White space, literals and strings\<close>

lemma skip_text: "drop p t = w @ c # r \<Longrightarrow> white w \<Longrightarrow> 32 < c \<Longrightarrow> skip_loop t p = Some (p + length w)"
proof (induction w arbitrary: p)
  case Nil
  then show ?case using mem_load_drop [of p t c] by (subst skip_loop.simps) (auto dest: leD)
next
  case (Cons x w)
  then have x: "mem_load t p = Some x" "drop (p + 1) t = w @ c # r" using mem_load_drop [of p t x] by auto
  have "x \<noteq> 0 \<and> x \<le> 32" using Cons.prems(2) by (auto simp: white_def)
  then show ?case using Cons.IH [OF x(2)] Cons.prems x(1) by (subst skip_loop.simps) (simp add: white_def)
qed

lemma skip_text0: "drop p t = w @ 0 # r \<Longrightarrow> white w \<Longrightarrow> skip_loop t p = Some (p + length w)"
proof (induction w arbitrary: p)
  case Nil
  then show ?case using mem_load_drop [of p t 0] by (subst skip_loop.simps) simp
next
  case (Cons x w)
  then have x: "mem_load t p = Some x" "drop (p + 1) t = w @ 0 # r" using mem_load_drop [of p t x] by auto
  have "x \<noteq> 0 \<and> x \<le> 32" using Cons.prems(2) by (auto simp: white_def)
  then show ?case using Cons.IH [OF x(2)] Cons.prems x(1) by (subst skip_loop.simps) (simp add: white_def)
qed

lemma skip_again: "skip_loop t p = Some q \<Longrightarrow> skip_loop t q = Some q"
proof (induction t p rule: skip_loop.induct)
  case (1 t p)
  then obtain c where c: "mem_load t p = Some c" by (subst (asm) skip_loop.simps) auto
  show ?case
  proof (cases "c \<noteq> 0 \<and> c \<le> 32")
    case True
    with 1 c show ?thesis by (subst (asm) (2) skip_loop.simps) auto
  next
    case False
    with 1(2) c have "q = p" by (subst (asm) skip_loop.simps) auto
    with False c show ?thesis by (auto simp: skip_loop.simps [of t p])
  qed
qed

lemma strncmp_text: "drop p t = cs @ r \<Longrightarrow> strncmp_eq t p cs = Some True"
proof (induction cs arbitrary: p)
  case (Cons c cs)
  then show ?case using mem_load_drop [of p t c "cs @ r"] by simp
qed simp

lemma strncmp_diff: "mem_load t p = Some c \<Longrightarrow> c \<noteq> x \<Longrightarrow> strncmp_eq t p (x # cs) = Some False"
  by simp

definition memory_ok :: "cj_env \<Rightarrow> bool" where
  "memory_ok E \<longleftrightarrow> (\<forall>i. ce_malloc E i \<noteq> 0)"

lemma malloc_ok: "memory_ok E \<Longrightarrow> \<exists>a s'. cJSON_malloc (ce_malloc E) s = (a, s') \<and> a \<noteq> 0"
  by (auto simp: cJSON_malloc_def memory_ok_def Let_def)

lemma new_item_ok: "memory_ok E \<Longrightarrow> \<exists>s'. cJSON_New_Item (ce_malloc E) s = (Some empty_item, s')"
  using malloc_ok [of E s] by (auto simp: cJSON_New_Item_def)

lemma parse_string_text:
  assumes "drop p (ce_text E) = ch_quote # tx @ ch_quote # r" "string_text v tx" "memory_ok E"
  shows "\<exists>a s'. parse_string E item p s = Some (Some (p + length tx + 2), set_valuestring (a, v) item, s')"
proof -
  obtain a s' where m: "cJSON_malloc (ce_malloc E) s = (a, s')" "a \<noteq> 0" using malloc_ok assms(3) by blast
  have c: "mem_load (ce_text E) p = Some ch_quote" "drop (p + 1) (ce_text E) = tx @ ch_quote # r"
    using mem_load_drop [OF assms(1)] by simp_all
  obtain l where l: "string_length (ce_text E) (p + 1) 0 = Some l" "length v \<le> l" using string_length_text [OF assms(2) c(2)] by blast
  have "string_loop (ce_text E) (l + 1) (p + 1) [] = Some (p + 1 + length tx, [] @ v)"
    by (rule string_loop_text [OF assms(2) c(2)]) (use l(2) in simp)
  moreover have "mem_load (ce_text E) (p + 1 + length tx) = Some ch_quote"
    using mem_load_drop [OF drop_skip [OF c(2)]] by simp
  moreover have "c_string_of v = v" using string_text_nonzero [OF assms(2)] by (auto simp: c_string_of_def takeWhile_eq_all_conv)
  ultimately show ?thesis using c(1) l m
    by (intro exI [of _ a] exI [of _ s']) (simp add: parse_string_def Let_def put_out_def)
qed

section \<open>Heads\<close>

lemma number_text_head:
  assumes "number_ok x"
  obtains c r where "number_text x = c # r" "c = ch_minus \<or> is_digit c"
proof -
  obtain neg int f e where x: "x = JNum neg int f e" by (cases x)
  obtain c i' where "int = c # i'" "is_digit c" using assms x by (cases int) (auto simp: digits_def)
  with x that show ?thesis by (cases neg) auto
qed

lemma digit_char: "is_digit c \<Longrightarrow> 32 < c \<and> c < 58"
  by (simp add: is_digit_def word_less_nat_alt word_le_nat_alt)

lemma value_text_head:
  assumes "value_text v tx"
  obtains c r where "tx = c # r" "32 < c" "c \<noteq> ch_rbracket"
  using assms
proof (cases rule: value_text.cases)
  case (text_number x)
  then obtain c r where "number_text x = c # r" "c = ch_minus \<or> is_digit c" by (auto elim: number_text_head)
  moreover then have "32 < c" "c \<noteq> ch_rbracket" using digit_char [of c] by auto
  ultimately show ?thesis using that text_number by blast
qed (use that in \<open>auto simp: lit_null_def lit_false_def lit_true_def\<close>)

lemma elements_text_head:
  assumes "elements_text vs tx"
  obtains w c r where "white w" "tx = w @ c # r" "32 < c" "c \<noteq> ch_rbracket"
  using assms
proof (cases rule: elements_text.cases)
  case (text_element w1 v t w2)
  then show ?thesis using that by (auto elim!: value_text_head)
next
  case (text_elements w1 v t w2 vs ts)
  then show ?thesis using that by (auto elim!: value_text_head)
qed

lemma members_text_head:
  assumes "members_text ms tx"
  obtains w r where "white w" "tx = w @ ch_quote # r"
  using assms by (cases rule: members_text.cases) (use that in auto)

section \<open>Items\<close>

fun numbers_fit :: "cj_env \<Rightarrow> json \<Rightarrow> bool" and
    numbers_fit_list :: "cj_env \<Rightarrow> json list \<Rightarrow> bool" and
    numbers_fit_members :: "cj_env \<Rightarrow> (u8 list \<times> json) list \<Rightarrow> bool" where
  "numbers_fit E (JNumber x) \<longleftrightarrow> ce_to_int E (number_double E x) \<noteq> None"
| "numbers_fit E (JArray vs) \<longleftrightarrow> numbers_fit_list E vs"
| "numbers_fit E (JObject ms) \<longleftrightarrow> numbers_fit_members E ms"
| "numbers_fit E JNull \<longleftrightarrow> True" | "numbers_fit E JFalse \<longleftrightarrow> True" | "numbers_fit E JTrue \<longleftrightarrow> True"
| "numbers_fit E (JString v) \<longleftrightarrow> True"
| "numbers_fit_list E [] \<longleftrightarrow> True"
| "numbers_fit_list E (v # vs) \<longleftrightarrow> numbers_fit E v \<and> numbers_fit_list E vs"
| "numbers_fit_members E [] \<longleftrightarrow> True"
| "numbers_fit_members E ((k, v) # ms) \<longleftrightarrow> numbers_fit E v \<and> numbers_fit_members E ms"

definition fresh :: "cJSON \<Rightarrow> bool" where
  "fresh item \<longleftrightarrow> js_valuestring item = None \<and> js_child item = []"

lemma fresh_simps [simp]: "fresh empty_item"
  by (simp add: fresh_def)

text \<open>The parser accepts the text of a value wherever it stands, with enough fuel.\<close>

definition accepts :: "cj_env \<Rightarrow> json \<Rightarrow> u8 list \<Rightarrow> bool" where
  "accepts E v tx \<longleftrightarrow> (\<forall>p r item s n. drop p (ce_text E) = tx @ r \<longrightarrow> ends_number r \<longrightarrow> fresh item \<longrightarrow> length (ce_text E) < p + n \<longrightarrow>
     (\<exists>item' s'. parse_value E n item (Some p) s = Some (Some (p + length tx), item', s')
        \<and> represents E v item' \<and> js_string item' = js_string item))"

lemma ends_number_white:
  assumes "white w" "32 < c" "\<not> is_digit c" "c \<noteq> ch_dot" "c \<noteq> ch_e" "c \<noteq> ch_E"
  shows "ends_number (w @ c # r)"
proof (cases w)
  case Nil
  with assms show ?thesis by (simp add: ends_number_def)
next
  case (Cons x w')
  then have "x \<in> {9, 10, 13, 32}" using assms(1) by (simp add: white_def)
  with Cons show ?thesis by (auto simp: ends_number_def is_digit_def)
qed

definition closes :: "u8 \<Rightarrow> bool" where
  "closes c \<longleftrightarrow> c = ch_comma \<or> c = ch_rbracket \<or> c = ch_rbrace"

lemma closes_char: "closes c \<Longrightarrow> 32 < c" "closes c \<Longrightarrow> white w \<Longrightarrow> ends_number (w @ c # r)"
  by (auto simp: closes_def is_digit_def intro!: ends_number_white)

lemma element_text:
  assumes "drop p (ce_text E) = w1 @ tx @ w2 @ c # r" "white w1" "value_text v tx" "white w2" "closes c"
    and "accepts E v tx" "memory_ok E" "length (ce_text E) < p + n"
  shows "\<exists>child s'. parse_element E (parse_value E n) item p s = Some (Some (p + length (w1 @ tx @ w2)), append_child child item, s')
    \<and> item_name child = None \<and> represents E v child"
proof -
  obtain s1 where n: "cJSON_New_Item (ce_malloc E) s = (Some empty_item, s1)" using new_item_ok assms(7) by blast
  obtain c0 r0 where tx: "tx = c0 # r0" "32 < c0" using assms(3) by (rule value_text_head)
  have sk: "skip_loop (ce_text E) p = Some (p + length w1)"
    by (rule skip_text [OF _ assms(2) tx(2)]) (use assms(1) tx(1) in simp)
  have d: "drop (p + length w1) (ce_text E) = tx @ w2 @ c # r" by (rule drop_skip [OF assms(1)])
  obtain child s2 where v: "parse_value E n empty_item (Some (p + length w1)) s1 = Some (Some (p + length w1 + length tx), child, s2)"
      "represents E v child" "js_string child = None"
    using assms(6) [unfolded accepts_def, rule_format, OF d closes_char(2) [OF assms(5,4)] fresh_simps, of n s1] assms(8) by auto
  have "skip_loop (ce_text E) (p + length w1 + length tx) = Some (p + length w1 + length tx + length w2)"
    by (rule skip_text [OF drop_skip [OF d] assms(4) closes_char(1) [OF assms(5)]])
  then show ?thesis using n sk v
    by (intro exI [of _ child] exI [of _ s2]) (simp add: parse_element_def skip_def attach_def item_name_def add.assoc)
qed

lemma member_text:
  assumes "drop p (ce_text E) = w1 @ ch_quote # kt @ ch_quote # w2 @ ch_colon # w3 @ tx @ w4 @ c # r" "white w1" "string_text k kt"
    "white w2" "white w3" "value_text v tx" "white w4" "closes c"
    and "accepts E v tx" "memory_ok E" "length (ce_text E) < p + n"
  shows "\<exists>child s'. parse_member E (parse_value E n) item p s
      = Some (Some (p + length (w1 @ ch_quote # kt @ ch_quote # w2 @ ch_colon # w3 @ tx @ w4)), append_child child item, s')
    \<and> item_name child = Some k \<and> represents E v child"
proof -
  let ?t = "ce_text E"
  obtain s1 where n: "cJSON_New_Item (ce_malloc E) s = (Some empty_item, s1)" using new_item_ok assms(10) by blast
  obtain c0 r0 where tx: "tx = c0 # r0" "32 < c0" using assms(6) by (rule value_text_head)
  have sk: "skip_loop ?t p = Some (p + length w1)" by (rule skip_text [OF assms(1,2)]) simp
  have d1: "drop (p + length w1) ?t = ch_quote # kt @ ch_quote # w2 @ ch_colon # w3 @ tx @ w4 @ c # r" by (rule drop_skip [OF assms(1)])
  obtain a s2 where k: "parse_string E empty_item (p + length w1) s1 = Some (Some (p + length w1 + length kt + 2), set_valuestring (a, k) empty_item, s2)"
    using parse_string_text [OF d1 assms(3,10)] by blast
  let ?p2 = "p + length w1 + length kt + 2"
  have d2: "drop ?p2 ?t = w2 @ ch_colon # w3 @ tx @ w4 @ c # r"
    using drop_skip [of "p + length w1" ?t "ch_quote # kt @ [ch_quote]"] d1 by simp
  have sk2: "skip_loop ?t ?p2 = Some (?p2 + length w2)" by (rule skip_text [OF d2 assms(4)]) simp
  have d3: "drop (?p2 + length w2) ?t = ch_colon # w3 @ tx @ w4 @ c # r" by (rule drop_skip [OF d2])
  have d4: "drop (?p2 + length w2 + 1) ?t = w3 @ tx @ w4 @ c # r" using mem_load_drop [OF d3] by blast
  let ?p4 = "?p2 + length w2 + 1 + length w3"
  have sk3: "skip_loop ?t (?p2 + length w2 + 1) = Some ?p4"
    by (rule skip_text [OF _ assms(5) tx(2)]) (use d4 tx(1) in simp)
  have d5: "drop ?p4 ?t = tx @ w4 @ c # r" by (rule drop_skip [OF d4])
  let ?child = "name_from_value (set_valuestring (a, k) empty_item)"
  have "fresh ?child" by (simp add: fresh_def)
  from assms(9) [unfolded accepts_def, rule_format, OF d5 closes_char(2) [OF assms(8,7)] this, of n s2] assms(11)
  obtain child s3 where v: "parse_value E n ?child (Some ?p4) s2 = Some (Some (?p4 + length tx), child, s3)"
      "represents E v child" "js_string child = Some (a, k)"
    by auto
  have sk4: "skip_loop ?t (?p4 + length tx) = Some (?p4 + length tx + length w4)"
    by (rule skip_text [OF drop_skip [OF d5] assms(7) closes_char(1) [OF assms(8)]])
  have "parse_member_value E (parse_value E n) (set_valuestring (a, k) empty_item) (Some (?p2 + length w2)) s2
      = Some (Some (?p4 + length tx + length w4), child, s3)"
    using mem_load_drop [OF d3] sk3 v(1) sk4 by (simp add: parse_member_value_def skip_def Let_def)
  moreover have "?p4 + length tx + length w4 = p + length (w1 @ ch_quote # kt @ ch_quote # w2 @ ch_colon # w3 @ tx @ w4)" by simp
  ultimately show ?thesis using n sk k sk2 v(2,3)
    by (intro exI [of _ child] exI [of _ s3]) (simp add: parse_member_def skip_def attach_def item_name_def)
qed

section \<open>Arrays and objects\<close>

text \<open>The items of an array or object from one of them to the closing bracket.\<close>

definition items_from :: "u8 list \<Rightarrow> item_parser \<Rightarrow> u8 \<Rightarrow> nat \<Rightarrow> item_parser" where
  "items_from t one close k item p s = do { (v, item, s) \<leftarrow> one item p s; parse_items_loop t one close k item v s }"

definition append_children :: "cJSON \<Rightarrow> cJSON list \<Rightarrow> cJSON" where
  "append_children item cs = foldl (\<lambda>i c. append_child c i) item cs"

lemma append_children_simps [simp]:
  "append_children item [] = item" "append_children item (c # cs) = append_children (append_child c item) cs"
  by (simp_all add: append_children_def)

lemma append_children_fields [simp]:
  "js_child (append_children item cs) = js_child item @ cs" "js_type (append_children item cs) = js_type item"
  "js_string (append_children item cs) = js_string item"
  by (induction cs arbitrary: item) auto

definition accepts_items :: "cj_env \<Rightarrow> (value_parser \<Rightarrow> item_parser) \<Rightarrow> u8 \<Rightarrow> (cJSON list \<Rightarrow> bool) \<Rightarrow> u8 list \<Rightarrow> bool" where
  "accepts_items E one close good tx \<longleftrightarrow> (\<forall>p r item s n k. drop p (ce_text E) = tx @ close # r \<longrightarrow>
     length (ce_text E) < p + n \<longrightarrow> length (ce_text E) < p + k \<longrightarrow>
     (\<exists>cs s'. items_from (ce_text E) (one (parse_value E n)) close k item p s
        = Some (Some (p + length tx + 1), append_children item cs, s') \<and> good cs))"

text \<open>One item accepted, and then the closing bracket or a comma and the other items.\<close>

lemma items_last:
  assumes "\<And>p r item s n. drop p (ce_text E) = tx @ close # r \<Longrightarrow> length (ce_text E) < p + n \<Longrightarrow>
      \<exists>child s'. one (parse_value E n) item p s = Some (Some (p + length tx), append_child child item, s') \<and> ok child"
    and "close \<noteq> ch_comma" "\<And>c. ok c \<Longrightarrow> good [c]"
  shows "accepts_items E one close good tx"
  unfolding accepts_items_def
proof (intro allI impI)
  fix p r item s n k
  assume a: "drop p (ce_text E) = tx @ close # r" "length (ce_text E) < p + n" "length (ce_text E) < p + k"
  from assms(1) [OF a(1,2)] obtain child s' where o: "one (parse_value E n) item p s = Some (Some (p + length tx), append_child child item, s')" "ok child"
    by blast
  have c: "mem_load (ce_text E) (p + length tx) = Some close" using mem_load_drop [OF drop_skip [OF a(1)]] by simp
  have "p < length (ce_text E)" using mem_load_lt [OF c] by simp
  then obtain k' where "k = Suc k'" using a(3) by (cases k) auto
  with o c assms(2,3) show "\<exists>cs s'. items_from (ce_text E) (one (parse_value E n)) close k item p s
      = Some (Some (p + length tx + 1), append_children item cs, s') \<and> good cs"
    by (intro exI [of _ "[child]"] exI [of _ s']) (simp add: items_from_def)
qed

lemma items_more:
  assumes one: "\<And>p r item s n. drop p (ce_text E) = tx @ ch_comma # r \<Longrightarrow> length (ce_text E) < p + n \<Longrightarrow>
      \<exists>child s'. one (parse_value E n) item p s = Some (Some (p + length tx), append_child child item, s') \<and> ok child"
    and more: "accepts_items E one close good' ts" and good: "\<And>c cs. ok c \<Longrightarrow> good' cs \<Longrightarrow> good (c # cs)"
  shows "accepts_items E one close good (tx @ ch_comma # ts)"
  unfolding accepts_items_def
proof (intro allI impI)
  fix p r item s n k
  assume a: "drop p (ce_text E) = (tx @ ch_comma # ts) @ close # r" "length (ce_text E) < p + n" "length (ce_text E) < p + k"
  then have d: "drop p (ce_text E) = tx @ ch_comma # ts @ close # r" by simp
  from one [OF d a(2)] obtain child s1 where o: "one (parse_value E n) item p s = Some (Some (p + length tx), append_child child item, s1)" "ok child"
    by blast
  have c: "mem_load (ce_text E) (p + length tx) = Some ch_comma" "drop (p + length tx + 1) (ce_text E) = ts @ close # r"
    using mem_load_drop [OF drop_skip [OF d]] by simp_all
  have "p < length (ce_text E)" using mem_load_lt [OF c(1)] by simp
  then obtain k' where k: "k = Suc k'" using a(3) by (cases k) auto
  from more [unfolded accepts_items_def, rule_format, OF c(2), of n k' "append_child child item" s1] a(2,3) k
  obtain cs s2 where m: "items_from (ce_text E) (one (parse_value E n)) close k' (append_child child item) (p + length tx + 1) s1
      = Some (Some (p + length tx + 1 + length ts + 1), append_children (append_child child item) cs, s2)" "good' cs" by auto
  have "items_from (ce_text E) (one (parse_value E n)) close k item p s
      = items_from (ce_text E) (one (parse_value E n)) close k' (append_child child item) (p + length tx + 1) s1"
    using o(1) c(1) k by (simp add: items_from_def)
  with m o(2) good show "\<exists>cs s'. items_from (ce_text E) (one (parse_value E n)) close k item p s
      = Some (Some (p + length (tx @ ch_comma # ts) + 1), append_children item cs, s') \<and> good cs"
    by (intro exI [of _ "child # cs"] exI [of _ s2]) simp
qed

lemma items_text:
  assumes d: "drop p t = op # w @ c # r" and w: "white w" "32 < c" "c \<noteq> close"
    and again: "\<And>item s v. skip_loop t (p + 1) = Some v \<Longrightarrow> one item v s = one item (p + 1) s"
  shows "parse_items t one ty op close item p s = items_from t one close (length t + 1) (set_type ty item) (p + 1) s"
proof -
  have c: "mem_load t p = Some op" "drop (p + 1) t = w @ c # r" using mem_load_drop [OF d] by simp_all
  have sk: "skip_loop t (p + 1) = Some (p + 1 + length w)" by (rule skip_text [OF c(2) w(1,2)])
  have "mem_load t (p + 1 + length w) = Some c" using mem_load_drop [OF drop_skip [OF c(2)]] by simp
  with c(1) sk w(3) again [OF sk] show ?thesis
    by (simp add: parse_items_def items_from_def Let_def del: parse_items_loop.simps)
qed

lemma empty_items_text:
  assumes "drop p t = op # w @ close # r" "white w" "32 < close"
  shows "parse_items t one ty op close item p s = Some (Some (p + length w + 2), set_type ty item, s)"
proof -
  have c: "mem_load t p = Some op" "drop (p + 1) t = w @ close # r" using mem_load_drop [OF assms(1)] by simp_all
  have "skip_loop t (p + 1) = Some (p + 1 + length w)" by (rule skip_text [OF c(2) assms(2,3)])
  moreover have "mem_load t (p + 1 + length w) = Some close" using mem_load_drop [OF drop_skip [OF c(2)]] by simp
  ultimately show ?thesis using c(1) by (simp add: parse_items_def Let_def)
qed

lemma element_again: "skip_loop (ce_text E) q = Some v \<Longrightarrow> parse_element E pv item v s = parse_element E pv item q s"
  by (simp add: parse_element_def skip_again split: option.split prod.split)

lemma member_again: "skip_loop (ce_text E) q = Some v \<Longrightarrow> parse_member E pv item v s = parse_member E pv item q s"
  by (simp add: parse_member_def skip_again split: option.split prod.split)

text \<open>The body of a value by its first character.\<close>

lemma body_by_head:
  assumes "mem_load (ce_text E) p = Some c" "c \<noteq> 110" "c \<noteq> 102" "c \<noteq> 116"
  shows "parse_value_body E pv item (Some p) s =
    (if c = ch_quote then parse_string E item p s
     else if c = ch_minus \<or> is_digit c then parse_number E item p s
     else if c = ch_lbracket then parse_array E pv item p s
     else if c = ch_lbrace then parse_object E pv item p s
     else Some (None, item, s\<lparr>cj_ep := Some p\<rparr>))"
  using assms by (simp add: parse_value_body_def lit_null_def lit_false_def lit_true_def)

lemma acceptsI:
  assumes "\<And>p r item s n. drop p (ce_text E) = tx @ r \<Longrightarrow> ends_number r \<Longrightarrow> fresh item \<Longrightarrow> length (ce_text E) \<le> p + n \<Longrightarrow>
     \<exists>item' s'. parse_value_body E (parse_value E n) item (Some p) s = Some (Some (p + length tx), item', s')
        \<and> represents E v item' \<and> js_string item' = js_string item"
    and "tx \<noteq> []"
  shows "accepts E v tx"
  unfolding accepts_def
proof (intro allI impI)
  fix p r item s n
  assume a: "drop p (ce_text E) = tx @ r" "ends_number r" "fresh item" "length (ce_text E) < p + n"
  then have "p < length (ce_text E)" using assms(2) by (metis Nil_is_append_conv drop_all linorder_not_less)
  then obtain m where "n = Suc m" using a(4) by (cases n) auto
  with assms(1) [OF a(1-3), of m s] a(4) show "\<exists>item' s'. parse_value E n item (Some p) s = Some (Some (p + length tx), item', s')
      \<and> represents E v item' \<and> js_string item' = js_string item" by simp
qed

lemma accepts_array:
  assumes "elements_text vs tx" "accepts_items E (parse_element E) ch_rbracket (represents_list E vs) tx"
  shows "accepts E (JArray vs) (ch_lbracket # tx @ [ch_rbracket])"
proof (rule acceptsI)
  fix p r item s n
  assume d: "drop p (ce_text E) = (ch_lbracket # tx @ [ch_rbracket]) @ r" and i: "fresh item" and n: "length (ce_text E) \<le> p + n"
  obtain w c r0 where w: "white w" "tx = w @ c # r0" "32 < c" "c \<noteq> ch_rbracket" using assms(1) by (rule elements_text_head)
  have c: "mem_load (ce_text E) p = Some ch_lbracket" "drop (p + 1) (ce_text E) = tx @ ch_rbracket # r"
    using mem_load_drop [of p "ce_text E"] d by simp_all
  have d': "drop p (ce_text E) = ch_lbracket # w @ c # r0 @ ch_rbracket # r" using d w(2) by simp
  let ?item = "set_type cJSON_Array item"
  have "parse_array E (parse_value E n) item p s
      = items_from (ce_text E) (parse_element E (parse_value E n)) ch_rbracket (length (ce_text E) + 1) ?item (p + 1) s"
    unfolding parse_array_def by (rule items_text [OF d' w(1,3,4) element_again])
  moreover obtain cs s' where "items_from (ce_text E) (parse_element E (parse_value E n)) ch_rbracket (length (ce_text E) + 1) ?item (p + 1) s
      = Some (Some (p + 1 + length tx + 1), append_children ?item cs, s')" "represents_list E vs cs"
    using assms(2) [unfolded accepts_items_def, rule_format, OF c(2), of n "length (ce_text E) + 1" ?item s] n by auto
  ultimately show "\<exists>item' s'. parse_value_body E (parse_value E n) item (Some p) s
      = Some (Some (p + length (ch_lbracket # tx @ [ch_rbracket])), item', s') \<and> represents E (JArray vs) item' \<and> js_string item' = js_string item"
    using i c(1) by (simp add: body_by_head is_digit_def fresh_def)
qed simp

lemma accepts_object:
  assumes "members_text ms tx" "accepts_items E (parse_member E) ch_rbrace (represents_members E ms) tx"
  shows "accepts E (JObject ms) (ch_lbrace # tx @ [ch_rbrace])"
proof (rule acceptsI)
  fix p r item s n
  assume d: "drop p (ce_text E) = (ch_lbrace # tx @ [ch_rbrace]) @ r" and i: "fresh item" and n: "length (ce_text E) \<le> p + n"
  obtain w r0 where w: "white w" "tx = w @ ch_quote # r0" using assms(1) by (rule members_text_head)
  have c: "mem_load (ce_text E) p = Some ch_lbrace" "drop (p + 1) (ce_text E) = tx @ ch_rbrace # r"
    using mem_load_drop [of p "ce_text E"] d by simp_all
  have d': "drop p (ce_text E) = ch_lbrace # w @ ch_quote # r0 @ ch_rbrace # r" using d w(2) by simp
  let ?item = "set_type cJSON_Object item"
  have "parse_object E (parse_value E n) item p s
      = items_from (ce_text E) (parse_member E (parse_value E n)) ch_rbrace (length (ce_text E) + 1) ?item (p + 1) s"
    unfolding parse_object_def by (rule items_text [OF d' w(1) _ _ member_again]) simp_all
  moreover obtain cs s' where "items_from (ce_text E) (parse_member E (parse_value E n)) ch_rbrace (length (ce_text E) + 1) ?item (p + 1) s
      = Some (Some (p + 1 + length tx + 1), append_children ?item cs, s')" "represents_members E ms cs"
    using assms(2) [unfolded accepts_items_def, rule_format, OF c(2), of n "length (ce_text E) + 1" ?item s] n by auto
  ultimately show "\<exists>item' s'. parse_value_body E (parse_value E n) item (Some p) s
      = Some (Some (p + length (ch_lbrace # tx @ [ch_rbrace])), item', s') \<and> represents E (JObject ms) item' \<and> js_string item' = js_string item"
    using i c(1) by (simp add: body_by_head is_digit_def fresh_def)
qed simp

lemma accepts_null: "accepts E JNull lit_null"
proof (rule acceptsI)
  fix p r item s n assume d: "drop p (ce_text E) = lit_null @ r" and "fresh item"
  from strncmp_text [OF d] \<open>fresh item\<close> show "\<exists>item' s'. parse_value_body E (parse_value E n) item (Some p) s
      = Some (Some (p + length lit_null), item', s') \<and> represents E JNull item' \<and> js_string item' = js_string item"
    by (simp add: parse_value_body_def fresh_def) (simp add: lit_null_def)
qed (simp add: lit_null_def)

lemma accepts_false: "accepts E JFalse lit_false"
proof (rule acceptsI)
  fix p r item s n assume d: "drop p (ce_text E) = lit_false @ r" and i: "fresh item"
  have "mem_load (ce_text E) p = Some 102" using d mem_load_drop [of p "ce_text E" 102] by (simp add: lit_false_def)
  then have "strncmp_eq (ce_text E) p lit_null = Some False" by (simp add: lit_null_def)
  with strncmp_text [OF d] i show "\<exists>item' s'. parse_value_body E (parse_value E n) item (Some p) s
      = Some (Some (p + length lit_false), item', s') \<and> represents E JFalse item' \<and> js_string item' = js_string item"
    by (simp add: parse_value_body_def fresh_def) (simp add: lit_false_def)
qed (simp add: lit_false_def)

lemma accepts_true: "accepts E JTrue lit_true"
proof (rule acceptsI)
  fix p r item s n assume d: "drop p (ce_text E) = lit_true @ r" and i: "fresh item"
  have "mem_load (ce_text E) p = Some 116" using d mem_load_drop [of p "ce_text E" 116] by (simp add: lit_true_def)
  then have "strncmp_eq (ce_text E) p lit_null = Some False" "strncmp_eq (ce_text E) p lit_false = Some False"
    by (simp_all add: lit_null_def lit_false_def)
  with strncmp_text [OF d] i show "\<exists>item' s'. parse_value_body E (parse_value E n) item (Some p) s
      = Some (Some (p + length lit_true), item', s') \<and> represents E JTrue item' \<and> js_string item' = js_string item"
    by (simp add: parse_value_body_def fresh_def) (simp add: lit_true_def)
qed (simp add: lit_true_def)

lemma accepts_number:
  assumes "number_ok x" "numbers_fit E (JNumber x)"
  shows "accepts E (JNumber x) (number_text x)"
proof (rule acceptsI)
  fix p r item s n
  assume d: "drop p (ce_text E) = number_text x @ r" "ends_number r" and f: "fresh item"
  obtain c t where h: "number_text x = c # t" "c = ch_minus \<or> is_digit c" using assms(1) by (rule number_text_head)
  obtain i where i: "ce_to_int E (number_double E x) = Some i" using assms(2) by auto
  have "mem_load (ce_text E) p = Some c" using mem_load_drop [of p "ce_text E"] d(1) h(1) by simp
  moreover have "c < 58" "c \<noteq> ch_quote" using h(2) digit_char [of c] by (auto simp: is_digit_def)
  ultimately have "parse_value_body E (parse_value E n) item (Some p) s = parse_number E item p s"
    using h(2) by (subst body_by_head) auto
  with parse_number_text [OF d(1) assms(1) d(2) i] i f show "\<exists>item' s'. parse_value_body E (parse_value E n) item (Some p) s
      = Some (Some (p + length (number_text x)), item', s') \<and> represents E (JNumber x) item' \<and> js_string item' = js_string item"
    by (simp add: fresh_def)
qed (use assms(1) in \<open>auto elim: number_text_head\<close>)

lemma accepts_string:
  assumes "string_text v tx" "memory_ok E"
  shows "accepts E (JString v) (ch_quote # tx @ [ch_quote])"
proof (rule acceptsI)
  fix p r item s n
  assume d: "drop p (ce_text E) = (ch_quote # tx @ [ch_quote]) @ r" and f: "fresh item"
  then have d': "drop p (ce_text E) = ch_quote # tx @ ch_quote # r" by simp
  obtain a s' where "parse_string E item p s = Some (Some (p + length tx + 2), set_valuestring (a, v) item, s')"
    using parse_string_text [OF d' assms] by blast
  then show "\<exists>item' s'. parse_value_body E (parse_value E n) item (Some p) s
      = Some (Some (p + length (ch_quote # tx @ [ch_quote])), item', s') \<and> represents E (JString v) item' \<and> js_string item' = js_string item"
    using mem_load_drop [OF d'] f by (simp add: body_by_head fresh_def)
qed simp

lemma accepts_empty:
  assumes "white w"
  shows "accepts E (JArray []) (ch_lbracket # w @ [ch_rbracket])" "accepts E (JObject []) (ch_lbrace # w @ [ch_rbrace])"
  by (rule acceptsI; simp add: empty_items_text [OF _ assms] body_by_head parse_array_def parse_object_def is_digit_def fresh_def
        mem_load_drop [THEN conjunct1])+

lemma accepts_json:
  assumes m: "memory_ok E"
  shows "value_text v tx \<Longrightarrow> numbers_fit E v \<Longrightarrow> accepts E v tx"
    and "elements_text vs tx \<Longrightarrow> numbers_fit_list E vs \<Longrightarrow> accepts_items E (parse_element E) ch_rbracket (represents_list E vs) tx"
    and "members_text ms tx \<Longrightarrow> numbers_fit_members E ms \<Longrightarrow> accepts_items E (parse_member E) ch_rbrace (represents_members E ms) tx"
proof (induction rule: value_text_elements_text_members_text.inducts)
  case (text_element w1 v t w2)
  show ?case
    by (rule items_last [where ok = "\<lambda>c. item_name c = None \<and> represents E v c"])
      (use element_text [of _ E w1 t w2 ch_rbracket] text_element m in \<open>simp_all add: closes_def\<close>)
next
  case (text_elements w1 v t w2 vs ts)
  have "accepts_items E (parse_element E) ch_rbracket (represents_list E (v # vs)) ((w1 @ t @ w2) @ ch_comma # ts)"
    by (rule items_more [where ok = "\<lambda>c. item_name c = None \<and> represents E v c" and good' = "represents_list E vs"])
      (use element_text [of _ E w1 t w2 ch_comma] text_elements m in \<open>simp_all add: closes_def\<close>)
  then show ?case by (simp only: append_assoc append_Cons)
next
  case (text_member w1 k kt w2 w3 v t w4)
  show ?case
    by (rule items_last [where ok = "\<lambda>c. item_name c = Some k \<and> represents E v c"])
      (use member_text [of _ E w1 kt w2 w3 t w4 ch_rbrace] text_member m in \<open>simp_all add: closes_def\<close>)
next
  case (text_members w1 k kt w2 w3 v t w4 ms ts)
  have "accepts_items E (parse_member E) ch_rbrace (represents_members E ((k, v) # ms))
      ((w1 @ ch_quote # kt @ ch_quote # w2 @ ch_colon # w3 @ t @ w4) @ ch_comma # ts)"
    by (rule items_more [where ok = "\<lambda>c. item_name c = Some k \<and> represents E v c" and good' = "represents_members E ms"])
      (use member_text [of _ E w1 kt w2 w3 t w4 ch_comma] text_members m in \<open>simp_all add: closes_def\<close>)
  then show ?case by (simp only: append_assoc append_Cons)
qed (simp_all add: accepts_null accepts_false accepts_true accepts_number accepts_string accepts_empty accepts_array accepts_object m)

section \<open>Whole texts\<close>

lemma accepts_whole_text:
  assumes "value_text v tx" "white w1" "white w2" "ce_text E = w1 @ tx @ w2 @ 0 # junk"
    and "numbers_fit E v" "memory_ok E"
  shows "\<exists>c e s'. cJSON_ParseWithOpts E req s = Some (Some c, e, s') \<and> represents E v c \<and> js_string c = None
    \<and> cj_live s' = cj_live s + blocks c"
proof -
  let ?t = "ce_text E"
  obtain s1 where n: "cJSON_New_Item (ce_malloc E) s = (Some empty_item, s1)" using new_item_ok assms(6) by blast
  obtain c0 r0 where tx: "tx = c0 # r0" "32 < c0" using assms(1) by (rule value_text_head)
  have sk: "skip_loop ?t 0 = Some (length w1)"
    using skip_text [of 0 ?t w1 c0 "r0 @ w2 @ 0 # junk"] assms(2,4) tx by simp
  have d: "drop (length w1) ?t = tx @ w2 @ 0 # junk" by (simp add: assms(4))
  have ends: "ends_number (w2 @ 0 # junk)"
    using assms(3) by (cases w2) (auto simp: ends_number_def is_digit_def white_def)
  have "accepts E v tx" by (rule accepts_json(1) [OF assms(6,1,5)])
  from this [unfolded accepts_def, rule_format, OF d ends fresh_simps, of "length ?t + 1" "s1\<lparr>cj_ep := None\<rparr>"]
  obtain c s2 where v: "parse_value E (length ?t + 1) empty_item (Some (length w1)) (s1\<lparr>cj_ep := None\<rparr>)
      = Some (Some (length w1 + length tx), c, s2)" "represents E v c" "js_string c = None" by auto
  have d2: "drop (length w1 + length tx) ?t = w2 @ 0 # junk" by (rule drop_skip [OF d])
  have "skip_loop ?t (length w1 + length tx) = Some (length w1 + length tx + length w2)"
    by (rule skip_text0 [OF d2 assms(3)])
  moreover have "mem_load ?t (length w1 + length tx + length w2) = Some 0" using mem_load_drop [OF drop_skip [OF d2]] by simp
  ultimately obtain e where r: "cJSON_ParseWithOpts E req s = Some (Some c, e, s2)"
    using n sk v(1) by (cases req) (auto simp: cJSON_ParseWithOpts_def Let_def simp del: parse_value.simps)
  from parse_with_opts_accounted [OF r] have "cj_live s2 = cj_live s + blocks c" by (simp add: json_result_accounted_def)
  with r v(2,3) show ?thesis by blast
qed

text \<open>
  C17: The parser accepts JSON. On any text of the grammar (RFC 8259 without the escape of code point 0, without
  escapes of surrogates that are not a pair and with exponents of at most nine digits), with white space around it and a
  terminator behind, in which the double of every number fits an \<open>int\<close> (\<open>1e10\<close> does not), and with memory that
  lasts, it builds the tree of the value the text denotes and nothing else, whether it is told to look for the
  terminator or not.
\<close>

theorem cjson_accepts_json:
  assumes "value_text v tx" "white w1" "white w2" "ce_text E = w1 @ tx @ w2 @ 0 # junk"
    and "numbers_fit E v" "memory_ok E"
  shows "\<exists>c e s'. cJSON_ParseWithOpts E req s = Some (Some c, e, s') \<and> represents E v c \<and> js_string c = None
    \<and> cj_live s' = cj_live s + blocks c"
  by (rule accepts_whole_text [OF assms])

text \<open>The value of the sample text.\<close>

definition good_value :: json where
  "good_value = JArray [JString [97, 98], JNumber (JNum False [49, 50] [] None)]"

lemma good_value_text: "value_text good_value [91, 34, 97, 98, 34, 44, 32, 49, 50, 93]"
proof -
  have "string_text [97, 98] [97, 98]" by (intro string_text.intros) (simp_all add: plain_def)
  from text_string [OF this] have 1: "value_text (JString [97, 98]) [34, 97, 98, 34]" by simp
  have "number_ok (JNum False [49, 50] [] None)" by (simp add: digits_def is_digit_def)
  from text_number [OF this] have 2: "value_text (JNumber (JNum False [49, 50] [] None)) [49, 50]" by simp
  have w: "white []" "white [32]" by (simp_all add: white_def)
  have "elements_text [JNumber (JNum False [49, 50] [] None)] ([32] @ [49, 50] @ [])" by (rule text_element [OF w(2) 2 w(1)])
  from text_array [OF text_elements [OF w(1) 1 w(1) this]] show ?thesis by (simp add: good_value_def)
qed

theorem cjson_accepts_json_witness:
  "value_text good_value [91, 34, 97, 98, 34, 44, 32, 49, 50, 93]
    \<and> (\<exists>c e s'. cJSON_ParseWithOpts (sample_env good_text) True start_state = Some (Some c, e, s')
      \<and> represents (sample_env good_text) good_value c \<and> js_string c = None \<and> cj_live s' = 0 + blocks c)"
proof -
  have "\<exists>c e s'. cJSON_ParseWithOpts (sample_env good_text) True start_state = Some (Some c, e, s')
      \<and> represents (sample_env good_text) good_value c \<and> js_string c = None \<and> cj_live s' = cj_live start_state + blocks c"
    by (rule cjson_accepts_json [OF good_value_text, where ?w1.0 = "[]" and ?w2.0 = "[]" and junk = "[]"])
      (simp_all add: white_def sample_env_def good_text_def good_value_def memory_ok_def)
  then show ?thesis using good_value_text by (simp add: start_state_def)
qed

end
