(* ===== verification/Config_Reader.thy ===== *)
theory Config_Reader
  imports Cjson_Accepts
begin

text \<open>
  \<open>src/utils/config_reader.c\<close>: the configuration file is read into a buffer and parsed, and parameters
  are fetched from the tree by dotted paths. The kernel's answers and \<open>malloc\<close>'s are inputs; the log is
  left out, apart from a message whose format reads an argument that is not there. Strings are byte
  lists, a \<open>double\<close> is its 64 bits, a \<open>char*\<close> its address, and \<open>ConfigParamValue\<close>, a union, is 8 bytes in
  little-endian order.
\<close>

section \<open>The file\<close>

text \<open>
  What the kernel answers: the descriptor of \<open>open\<close>, the size \<open>fstat\<close> reports and the bytes \<open>read\<close> delivers, with
  \<open>None\<close> for a failed call; and whether \<open>malloc\<close> finds memory for the buffer.
\<close>

record file_answers =
  fi_open :: int
  fi_size :: "int option"
  fi_malloc :: bool
  fi_read :: "u8 list option"

record config_state =
  cs_root :: "cJSON option"
  cs_json :: cj_state
  cs_closed :: "int list"

definition close_file :: "int \<Rightarrow> config_state \<Rightarrow> config_state" where
  "close_file fd s = s\<lparr>cs_closed := cs_closed s @ [fd]\<rparr>"

definition free_buffer :: "config_state \<Rightarrow> config_state option" where
  "free_buffer s = do { j \<leftarrow> cJSON_free (cs_json s); Some (s\<lparr>cs_json := j\<rparr>) }"

definition load_file_to_buffer :: "file_answers \<Rightarrow> config_state \<Rightarrow> (u8 list option \<times> config_state) option" where
  "load_file_to_buffer io s =
     (let fd = fi_open io in
      if fd < 0 then Some (None, s)
      else case fi_size io of
        None \<Rightarrow> Some (None, close_file fd s)
      | Some sz \<Rightarrow>
          if \<not> fi_malloc io then None
          else do {
            let s = s\<lparr>cs_json := (cs_json s)\<lparr>cj_live := cj_live (cs_json s) + 1\<rparr>\<rparr>;
            case fi_read io of
              None \<Rightarrow> do { s \<leftarrow> free_buffer s; Some (None, close_file fd s) }
            | Some bytes \<Rightarrow>
                if int (length bytes) \<noteq> sz then do { s \<leftarrow> free_buffer s; Some (None, close_file fd s) }
                else Some (Some (bytes @ [0]), close_file fd s) })"

text \<open>The tree of an earlier file is not deleted, only forgotten.\<close>

definition init_config_reader :: "cj_env \<Rightarrow> file_answers \<Rightarrow> config_state \<Rightarrow> (int \<times> config_state) option" where
  "init_config_reader E io s = do {
     (buffer, s) \<leftarrow> load_file_to_buffer io s;
     case buffer of
       None \<Rightarrow> Some (-1, s)
     | Some b \<Rightarrow> do {
         (root, j) \<leftarrow> cJSON_Parse (E\<lparr>ce_text := b\<rparr>) (cs_json s);
         s \<leftarrow> free_buffer (s\<lparr>cs_root := root, cs_json := j\<rparr>);
         Some (if root = None then -1 else 0, s) } }"

definition deinit_config_reader :: "config_state \<Rightarrow> config_state option" where
  "deinit_config_reader s =
     (case cs_root s of None \<Rightarrow> Some s
      | Some c \<Rightarrow> do { j \<leftarrow> cJSON_Delete c (cs_json s); Some (s\<lparr>cs_root := None, cs_json := j\<rparr>) })"

section \<open>Paths\<close>

definition DOT :: u8 where "DOT = 46"

text \<open>
  The next component of a path and the rest of it; \<open>mem\<close> says whether \<open>strdup\<close> or \<open>strndup\<close> finds memory
  for it. The rest advances even when the copy fails.
\<close>

definition extract_subpath_and_advance :: "(u8 list \<Rightarrow> bool) \<Rightarrow> u8 list option \<Rightarrow> u8 list option \<times> u8 list option" where
  "extract_subpath_and_advance mem current =
     (case current of
        None \<Rightarrow> (None, None)
      | Some p \<Rightarrow>
          if DOT \<in> set p
          then let sub = takeWhile (\<lambda>c. c \<noteq> DOT) p in
            (if mem sub then Some sub else None, Some (drop (length sub + 1) p))
          else (if mem p then Some p else None, None))"

lemma extract_shorter:
  assumes "extract_subpath_and_advance mem (Some p) = (Some s, Some q)"
  shows "length q < length p"
proof -
  have "DOT \<in> set p" "q = drop (length (takeWhile (\<lambda>c. c \<noteq> DOT) p) + 1) p"
    using assms by (auto simp: extract_subpath_and_advance_def Let_def split: if_splits)
  then show ?thesis by (cases p) auto
qed

text \<open>
  The walk: \<open>None\<close> is the dereference of a NULL tree, \<open>Some None\<close> the answer NULL. The walk ends at the last
  component or at one that could not be copied.
\<close>

function json_walk :: "(u8 list \<Rightarrow> bool) \<Rightarrow> cJSON \<Rightarrow> u8 list option \<Rightarrow> cJSON option" where
  "json_walk mem node current =
     (case extract_subpath_and_advance mem current of
        (None, _) \<Rightarrow> Some node
      | (Some sub, rest) \<Rightarrow>
          (case cJSON_GetObjectItem node sub of
             None \<Rightarrow> None
           | Some n \<Rightarrow> json_walk mem n rest))"
  by auto
termination
proof (relation "measure (\<lambda>(_, _, c). case c of None \<Rightarrow> 0 | Some p \<Rightarrow> Suc (length p))", simp)
  fix mem node current x y sub n
  assume a: "(x, y) = extract_subpath_and_advance mem current" "x = Some sub"
  then obtain p where "current = Some p" by (cases current) (auto simp: extract_subpath_and_advance_def)
  with a show "((mem, n, y), mem, node, current) \<in> measure (\<lambda>(_, _, c). case c of None \<Rightarrow> 0 | Some p \<Rightarrow> Suc (length p))"
    using extract_shorter [of mem p sub] by (auto split: option.split)
qed

declare json_walk.simps [simp del]

definition get_json_obj_from_path :: "(u8 list \<Rightarrow> bool) \<Rightarrow> cJSON option \<Rightarrow> u8 list option \<Rightarrow> cJSON option option" where
  "get_json_obj_from_path mem root path =
     (if fst (extract_subpath_and_advance mem path) = None then Some None
      else case root of None \<Rightarrow> None | Some r \<Rightarrow> Some (json_walk mem r path))"

section \<open>Values\<close>

text \<open>Assigning a member of the union: \<open>d\<close> and \<open>s\<close> are its 8 bytes, \<open>i\<close> the first four.\<close>

definition union_set_d :: "u64 \<Rightarrow> u64 \<Rightarrow> u64" where "union_set_d v d = d"
definition union_set_s :: "u64 \<Rightarrow> u64 \<Rightarrow> u64" where "union_set_s v s = s"
definition union_set_i :: "u64 \<Rightarrow> u32 \<Rightarrow> u64" where
  "union_set_i v i = (v AND NOT (mask 32)) OR ucast i"

definition union_i :: "u64 \<Rightarrow> u32" where "union_i v = ucast v"

text \<open>\<open>None\<close>: the BUG macro crashes on any other type.\<close>

definition config_get_param :: "(u8 list \<Rightarrow> bool) \<Rightarrow> cJSON option \<Rightarrow> u8 list option \<Rightarrow> u64 \<Rightarrow> (u64 \<times> int) option" where
  "config_get_param mem root path v = do {
     found \<leftarrow> get_json_obj_from_path mem root path;
     case found of
       None \<Rightarrow> Some (v, -1)
     | Some node \<Rightarrow>
         (case js_type node of
            cJSON_Number \<Rightarrow>
              let v = union_set_d v (js_valuedouble node);
                  v = union_set_i v (js_valueint node)
              in Some (v, 0)
          | cJSON_String \<Rightarrow> Some (union_set_s v (case js_valuestring node of None \<Rightarrow> 0 | Some (a, _) \<Rightarrow> a), 0)
          | _ \<Rightarrow> None) }"

datatype ConfigParamType = ConfigParamType_Integer | ConfigParamType_Double | ConfigParamType_String

record ConfigParamDef =
  cp_path :: "u8 list option"
  cp_type :: ConfigParamType
  cp_offset :: int

text \<open>The bytes of a word in memory, least significant first.\<close>

definition le_bytes32 :: "u32 \<Rightarrow> u8 list" where
  "le_bytes32 w = map (\<lambda>k. ucast (drop_bit (8 * k) w)) [0..<4]"

definition le_bytes64 :: "u64 \<Rightarrow> u8 list" where
  "le_bytes64 w = map (\<lambda>k. ucast (drop_bit (8 * k) w)) [0..<8]"

text \<open>One parameter: the state is the structure's bytes and whether the loop has returned -1.\<close>

definition config_load_one :: "(u8 list \<Rightarrow> bool) \<Rightarrow> cJSON option \<Rightarrow> u64 \<Rightarrow> u8 list \<times> bool \<Rightarrow> ConfigParamDef \<Rightarrow> (u8 list \<times> bool) option" where
  "config_load_one mem root v st d = (case st of (base, failed) \<Rightarrow>
     if failed then Some (base, failed)
     else do {
       (v, r) \<leftarrow> config_get_param mem root (cp_path d) v;
       if r \<noteq> 0 then Some (base, True)
       else do {
         off \<leftarrow> c_nat (cp_offset d);
         base \<leftarrow> mem_blit base off
           (case cp_type d of ConfigParamType_Integer \<Rightarrow> le_bytes32 (union_i v)
            | ConfigParamType_Double \<Rightarrow> le_bytes64 v
            | ConfigParamType_String \<Rightarrow> le_bytes64 v);
         Some (base, False) } })"

text \<open>
  \<open>v\<close>, the uninitialised local of the source, never reaches the result: a call that returns 0 has set it.
\<close>

definition config_load_params :: "(u8 list \<Rightarrow> bool) \<Rightarrow> cJSON option \<Rightarrow> u64 \<Rightarrow> ConfigParamDef list \<Rightarrow> u8 list \<Rightarrow> (u8 list \<times> int) option" where
  "config_load_params mem root v defs base = do {
     (base, failed) \<leftarrow> foldo (config_load_one mem root v) (base, False) defs;
     Some (base, if failed then -1 else 0) }"

text \<open>\<open>config_dump_params\<close> prints a path and what the structure holds for it; the lines are a list.\<close>

datatype dump_value = DumpInteger "u8 list" | DumpDouble "u8 list" | DumpString "u8 list"

definition config_dump_params :: "ConfigParamDef list \<Rightarrow> u8 list \<Rightarrow> ((u8 list option \<times> dump_value) list \<times> int) option" where
  "config_dump_params defs base = do {
     out \<leftarrow> foldo (\<lambda>out d. do {
       off \<leftarrow> c_nat (cp_offset d);
       x \<leftarrow> (case cp_type d of
          ConfigParamType_Integer \<Rightarrow> map_option DumpInteger (mem_slice base off 4)
        | ConfigParamType_Double \<Rightarrow> map_option DumpDouble (mem_slice base off 8)
        | ConfigParamType_String \<Rightarrow> map_option DumpString (mem_slice base off 8));
       Some (out @ [(cp_path d, x)]) }) [] defs;
     Some (out, 0) }"

section \<open>The reference lookup\<close>

text \<open>The components of a path, and the descent along them; names are compared without case.\<close>

fun split_dots :: "u8 list \<Rightarrow> u8 list list" where
  "split_dots [] = [[]]"
| "split_dots (c # p) = (if c = DOT then [] # split_dots p else (c # hd (split_dots p)) # tl (split_dots p))"

fun descend :: "cJSON \<Rightarrow> u8 list list \<Rightarrow> cJSON option" where
  "descend node [] = Some node"
| "descend node (s # ss) =
     (case List.find (\<lambda>c. map_option (map tolower) (item_name c) = Some (map tolower s)) (js_child node) of
        None \<Rightarrow> None | Some n \<Rightarrow> descend n ss)"

lemma split_dots_not_Nil [simp]: "split_dots p \<noteq> []"
  by (cases p) auto

lemma tolower_nonzero: "c \<noteq> 0 \<Longrightarrow> tolower c \<noteq> 0"
  by (auto simp: tolower_def word_le_nat_alt unat_word_ariths dest: arg_cong [where f = unat])

lemma strcasecmp_zero:
  "0 \<notin> set a \<Longrightarrow> 0 \<notin> set b \<Longrightarrow> strcasecmp_loop a b = 0 \<longleftrightarrow> map tolower a = map tolower b"
proof (induction a b rule: strcasecmp_loop.induct)
  case (2 a as b bs)
  then show ?case by (auto simp: uint_word_of_int_eq word_uint_eq_iff)
qed (use tolower_nonzero in \<open>auto simp: unsigned_eq_0_iff\<close>)

text \<open>Names in a tree are C strings.\<close>

fun names_ok :: "cJSON \<Rightarrow> bool" where
  "names_ok (CJSON ty s i d name ch) = ((case name of None \<Rightarrow> True | Some n \<Rightarrow> 0 \<notin> set (snd n)) \<and> (\<forall>c \<in> set ch. names_ok c))"

lemma names_ok_child: "names_ok node \<Longrightarrow> c \<in> set (js_child node) \<Longrightarrow> names_ok c"
  by (cases node) simp

lemma names_ok_name: "names_ok node \<Longrightarrow> js_string node = Some n \<Longrightarrow> 0 \<notin> set (snd n)"
  by (cases node) simp

lemma get_item_find:
  assumes "names_ok node" "0 \<notin> set s"
  shows "cJSON_GetObjectItem node s = List.find (\<lambda>c. map_option (map tolower) (item_name c) = Some (map tolower s)) (js_child node)"
  unfolding cJSON_GetObjectItem_def
proof (rule find_cong [OF refl])
  fix c assume "c \<in> set (js_child node)"
  then have ok: "names_ok c" by (rule names_ok_child [OF assms(1)])
  show "(cJSON_strcasecmp (js_string c) (Some s) = 0) = (map_option (map tolower) (item_name c) = Some (map tolower s))"
  proof (cases "js_string c")
    case (Some n)
    then show ?thesis using strcasecmp_zero [OF names_ok_name [OF ok Some] assms(2)] by (simp add: cJSON_strcasecmp_def item_name_def)
  qed (simp add: cJSON_strcasecmp_def item_name_def)
qed

lemma split_dots_first:
  "DOT \<notin> set w \<Longrightarrow> split_dots (w @ q) = (w @ hd (split_dots q)) # tl (split_dots q)"
  by (induction w) auto

lemma split_dots_word: "DOT \<notin> set p \<Longrightarrow> split_dots p = [p]"
  using split_dots_first [of p "[]"] by simp

lemma takeWhile_dot: "DOT \<notin> set w \<Longrightarrow> takeWhile (\<lambda>c. c \<noteq> DOT) (w @ DOT # q) = w"
  by (induction w) auto

lemma split_dots_dot:
  assumes "DOT \<in> set p"
  shows "split_dots p = takeWhile (\<lambda>c. c \<noteq> DOT) p # split_dots (drop (length (takeWhile (\<lambda>c. c \<noteq> DOT) p) + 1) p)"
proof -
  obtain w q where p: "p = w @ DOT # q" "DOT \<notin> set w" using split_list_first [OF assms] by blast
  then have w: "takeWhile (\<lambda>c. c \<noteq> DOT) p = w" using takeWhile_dot by simp
  show ?thesis unfolding w using p split_dots_first [OF p(2), of "DOT # q"] by simp
qed

text \<open>The walk over a path is the descent along its components.\<close>

lemma json_walk_descend:
  assumes "names_ok node" "0 \<notin> set p"
  shows "json_walk (\<lambda>_. True) node (Some p) = descend node (split_dots p)"
  using assms
proof (induction "length p" arbitrary: p node rule: less_induct)
  case less
  show ?case
  proof (cases "DOT \<in> set p")
    case True
    let ?s = "takeWhile (\<lambda>c. c \<noteq> DOT) p"
    let ?q = "drop (Suc (length ?s)) p"
    have "length ?q < length p" using True by (cases p) auto
    moreover have q: "0 \<notin> set ?q" using less.prems(2) set_drop_subset [of "Suc (length ?s)" p] by blast
    ultimately have IH: "json_walk (\<lambda>_. True) n (Some ?q) = descend n (split_dots ?q)" if "names_ok n" for n
      using less.hyps that by blast
    have s: "0 \<notin> set ?s" using less.prems(2) by (meson set_takeWhileD)
    have step: "json_walk (\<lambda>_. True) node (Some p)
        = (case cJSON_GetObjectItem node ?s of None \<Rightarrow> None | Some n \<Rightarrow> json_walk (\<lambda>_. True) n (Some ?q))"
      using True by (subst json_walk.simps) (simp add: extract_subpath_and_advance_def Let_def)
    show ?thesis
    proof (cases "cJSON_GetObjectItem node ?s")
      case None
      then show ?thesis using get_item_find [OF less.prems(1) s] by (simp add: step split_dots_dot [OF True])
    next
      case (Some n)
      then have "n \<in> set (js_child node)" by (auto simp: cJSON_GetObjectItem_def find_Some_iff)
      then have "names_ok n" using less.prems(1) names_ok_child by blast
      with Some IH show ?thesis
        using get_item_find [OF less.prems(1) s] by (simp add: step split_dots_dot [OF True])
    qed
  next
    case False
    have e: "json_walk (\<lambda>_. True) n None = Some n" for n
      by (subst json_walk.simps) (simp add: extract_subpath_and_advance_def)
    have "json_walk (\<lambda>_. True) node (Some p) = cJSON_GetObjectItem node p"
      using False by (subst json_walk.simps) (simp add: extract_subpath_and_advance_def e split: option.split)
    then show ?thesis
      using get_item_find [OF less.prems] False by (simp add: split_dots_word split: option.split)
  qed
qed

section \<open>Properties\<close>

text \<open>A lookup is the descent along the dot-separated components of the path, without regard to case.\<close>

lemma walk_is_descent:
  assumes "names_ok root" "0 \<notin> set path"
  shows "get_json_obj_from_path (\<lambda>_. True) (Some root) (Some path) = Some (descend root (split_dots path))"
  using json_walk_descend [OF assms]
  by (simp add: get_json_obj_from_path_def extract_subpath_and_advance_def Let_def)

text \<open>A lookup before the file is loaded dereferences NULL; a path that cannot be copied ends the walk early.\<close>

lemma config_lookup_without_tree: "get_json_obj_from_path (\<lambda>_. True) None (Some path) = None"
  by (simp add: get_json_obj_from_path_def extract_subpath_and_advance_def Let_def)

lemma config_lookup_out_of_memory:
  assumes "names_ok root" "0 \<notin> set p" "DOT \<notin> set p" "DOT \<notin> set q" "p \<noteq> q"
  shows "get_json_obj_from_path (\<lambda>s. s \<noteq> q) (Some root) (Some (p @ DOT # q)) = get_json_obj_from_path (\<lambda>_. True) (Some root) (Some p)"
proof -
  have w: "takeWhile (\<lambda>c. c \<noteq> DOT) (p @ DOT # q) = p" using assms(3) by (rule takeWhile_dot)
  have e: "json_walk m n None = Some n" "json_walk (\<lambda>s. s \<noteq> q) n (Some q) = Some n" for m n
    using assms(4) by (subst json_walk.simps, simp add: extract_subpath_and_advance_def)+
  have "json_walk (\<lambda>s. s \<noteq> q) root (Some (p @ DOT # q)) = cJSON_GetObjectItem root p"
    using assms(5) by (subst json_walk.simps) (simp add: extract_subpath_and_advance_def w e split: option.split)
  moreover have "json_walk (\<lambda>_. True) root (Some p) = cJSON_GetObjectItem root p"
    using assms(3) by (subst json_walk.simps) (simp add: extract_subpath_and_advance_def e split: option.split)
  ultimately show ?thesis
    using assms(5) by (simp add: get_json_obj_from_path_def extract_subpath_and_advance_def Let_def w)
qed

text \<open>
  Storing \<open>valueint\<close> into the union overwrites the low half of the double just stored: a parameter of
  type double arrives intact exactly if those 32 bits agree.
\<close>

lemma union_number: "union_set_i (union_set_d v d) i = d \<longleftrightarrow> i = ucast d"
proof
  assume "union_set_i (union_set_d v d) i = d"
  moreover have "bit (union_set_i (union_set_d v d) i) k \<longleftrightarrow> bit i k" if "k < 32" for k
    using that by (auto simp: union_set_i_def union_set_d_def bit_simps)
  ultimately have "bit d k = bit i k" if "k < 32" for k using that by simp
  then show "i = ucast d" by (intro bit_word_eqI) (auto simp: bit_simps)
next
  assume "i = ucast d"
  then show "union_set_i (union_set_d v d) i = d"
    by (intro bit_word_eqI) (auto simp: union_set_i_def union_set_d_def bit_simps)
qed

lemma le_bytes64_eq: "le_bytes64 a = le_bytes64 b \<longleftrightarrow> a = b"
proof
  assume e: "le_bytes64 a = le_bytes64 b"
  show "a = b"
  proof (rule bit_word_eqI)
    fix n assume "n < LENGTH(64)"
    then have n: "n div 8 < 8" "n mod 8 < 8" "8 * (n div 8) + n mod 8 = n" by simp_all
    have "le_bytes64 a ! (n div 8) = le_bytes64 b ! (n div 8)" using e by simp
    then have "(ucast (drop_bit (8 * (n div 8)) a) :: u8) = ucast (drop_bit (8 * (n div 8)) b)"
      using n(1) by (simp add: le_bytes64_def)
    from arg_cong [where f = "\<lambda>w. bit w (n mod 8)", OF this] show "bit a n = bit b n"
      using n by (simp add: bit_simps)
  qed
qed simp

lemma config_number_param:
  assumes "get_json_obj_from_path mem root path = Some (Some node)" "js_type node = cJSON_Number"
  shows "config_get_param mem root path v = Some (union_set_i (union_set_d v (js_valuedouble node)) (js_valueint node), 0)"
  using assms by (simp add: config_get_param_def Let_def)

theorem config_double_arrives_iff:
  assumes node: "get_json_obj_from_path mem root path = Some (Some node)" "js_type node = cJSON_Number"
    and size: "off + 8 \<le> length base"
  shows "\<exists>base'. config_load_params mem root v [\<lparr>cp_path = path, cp_type = ConfigParamType_Double, cp_offset = int off\<rparr>] base
      = Some (base', 0)
    \<and> (take 8 (drop off base') = le_bytes64 (js_valuedouble node) \<longleftrightarrow> js_valueint node = ucast (js_valuedouble node))"
proof -
  let ?w = "union_set_i (union_set_d v (js_valuedouble node)) (js_valueint node)"
  let ?b = "take off base @ le_bytes64 ?w @ drop (off + 8) base"
  have l: "length (le_bytes64 ?w) = 8" by (simp add: le_bytes64_def)
  have "config_load_params mem root v [\<lparr>cp_path = path, cp_type = ConfigParamType_Double, cp_offset = int off\<rparr>] base = Some (?b, 0)"
    using size l by (simp add: config_load_params_def config_load_one_def config_number_param [OF node] mem_blit_def)
  moreover have "take 8 (drop off ?b) = le_bytes64 ?w" using size l by simp
  ultimately show ?thesis by (simp add: le_bytes64_eq union_number)
qed

section \<open>From the file to the parameter\<close>

text \<open>Looking up a path in a JSON value.\<close>

fun json_descend :: "json \<Rightarrow> u8 list list \<Rightarrow> json option" where
  "json_descend v [] = Some v"
| "json_descend v (s # ss) = (case v of
     JObject ms \<Rightarrow> (case List.find (\<lambda>(k, w). map tolower k = map tolower s) ms of None \<Rightarrow> None | Some (k, w) \<Rightarrow> json_descend w ss)
   | _ \<Rightarrow> None)"

lemma represents_find:
  "represents_members E ms cs \<Longrightarrow> rel_option (\<lambda>(k, w) c. represents E w c)
     (List.find (\<lambda>(k, w). map tolower k = key) ms) (List.find (\<lambda>c. map_option (map tolower) (item_name c) = Some key) cs)"
proof (induction ms arbitrary: cs)
  case (Cons m ms)
  then show ?case by (cases m; cases cs) auto
qed simp

lemma represents_list_names: "represents_list E vs cs \<Longrightarrow> c \<in> set cs \<Longrightarrow> item_name c = None"
proof (induction vs arbitrary: cs)
  case (Cons v vs)
  then show ?case by (cases cs) auto
qed simp

lemma descend_represents: "represents E v c \<Longrightarrow> rel_option (represents E) (json_descend v ss) (descend c ss)"
proof (induction ss arbitrary: v c)
  case (Cons s ss)
  let ?find = "List.find (\<lambda>c. map_option (map tolower) (item_name c) = Some (map tolower s)) (js_child c)"
  show ?case
  proof (cases "\<exists>ms. v = JObject ms")
    case True
    then obtain ms where v: "v = JObject ms" by blast
    with Cons.prems have "represents_members E ms (js_child c)" by simp
    from represents_find [OF this, of "map tolower s"] show ?thesis
      by (cases "List.find (\<lambda>(k, w). map tolower k = map tolower s) ms"; cases ?find) (auto simp: v Cons.IH)
  next
    case False
    have "item_name x = None" if "x \<in> set (js_child c)" for x
      using that False Cons.prems represents_list_names [of E _ "js_child c" x] by (cases v) auto
    then have "?find = None" by (auto simp: find_None_iff)
    with False show ?thesis by (cases v) auto
  qed
qed simp

text \<open>Names of JSON texts are C strings.\<close>

lemma names_ok_iff: "names_ok c \<longleftrightarrow> (\<forall>n. item_name c = Some n \<longrightarrow> 0 \<notin> set n) \<and> (\<forall>x \<in> set (js_child c). names_ok x)"
  by (cases c) (auto simp: item_name_def split: option.split)

lemma names_ok_leaf: "js_child c = [] \<Longrightarrow> (\<And>n. item_name c = Some n \<Longrightarrow> 0 \<notin> set n) \<Longrightarrow> names_ok c"
  by (subst names_ok_iff) simp

lemma names_ok_text:
  shows "value_text v tx \<Longrightarrow> represents E v c \<Longrightarrow> (\<And>n. item_name c = Some n \<Longrightarrow> 0 \<notin> set n) \<Longrightarrow> names_ok c"
    and "elements_text vs tx \<Longrightarrow> represents_list E vs cs \<Longrightarrow> \<forall>c \<in> set cs. names_ok c"
    and "members_text ms tx \<Longrightarrow> represents_members E ms cs \<Longrightarrow> \<forall>c \<in> set cs. names_ok c"
proof (induction arbitrary: c and cs and cs rule: value_text_elements_text_members_text.inducts)
  case (text_array vs t)
  then show ?case by (auto simp: names_ok_iff [of c])
next
  case (text_object ms t)
  then show ?case by (auto simp: names_ok_iff [of c])
next
  case (text_element w1 v t w2)
  from text_element.prems show ?case by (cases cs) (auto intro: text_element.IH)
next
  case (text_elements w1 v t w2 vs ts)
  from text_elements.prems show ?case by (cases cs) (auto intro: text_elements.IH(1) dest: text_elements.IH(2))
next
  case (text_member w1 k kt w2 w3 v t w4)
  from text_member.prems show ?case
    using string_text_nonzero [OF text_member.hyps(2)] by (cases cs) (auto intro: text_member.IH)
next
  case (text_members w1 k kt w2 w3 v t w4 ms ts)
  from text_members.prems show ?case
    using string_text_nonzero [OF text_members.hyps(2)] by (cases cs) (auto intro: text_members.IH(1) dest: text_members.IH(2))
qed (auto intro: names_ok_leaf)

text \<open>A file that holds a JSON value is read, parsed and its buffer given back.\<close>

definition reads_file :: "file_answers \<Rightarrow> u8 list \<Rightarrow> bool" where
  "reads_file io bytes \<longleftrightarrow> 0 \<le> fi_open io \<and> fi_size io = Some (int (length bytes)) \<and> fi_malloc io \<and> fi_read io = Some bytes"

lemma init_config_reader_json:
  assumes "reads_file io (w1 @ tx @ w2)" "value_text v tx" "white w1" "white w2" "memory_ok E"
    and "numbers_fit (E\<lparr>ce_text := (w1 @ tx @ w2) @ [0]\<rparr>) v"
  shows "\<exists>s' c. init_config_reader E io s = Some (0, s') \<and> cs_root s' = Some c
    \<and> represents (E\<lparr>ce_text := (w1 @ tx @ w2) @ [0]\<rparr>) v c \<and> names_ok c
    \<and> cj_live (cs_json s') = cj_live (cs_json s) + blocks c \<and> cs_closed s' = cs_closed s @ [fi_open io]"
proof -
  let ?E = "E\<lparr>ce_text := (w1 @ tx @ w2) @ [0]\<rparr>"
  let ?s = "close_file (fi_open io) (s\<lparr>cs_json := (cs_json s)\<lparr>cj_live := cj_live (cs_json s) + 1\<rparr>\<rparr>)"
  have load: "load_file_to_buffer io s = Some (Some ((w1 @ tx @ w2) @ [0]), ?s)"
    using assms(1) by (simp add: load_file_to_buffer_def reads_file_def Let_def)
  have "memory_ok ?E" using assms(5) by (simp add: memory_ok_def)
  then obtain c e j where p: "cJSON_ParseWithOpts ?E False (cs_json ?s) = Some (Some c, e, j)" "represents ?E v c" "js_string c = None"
      "cj_live j = cj_live (cs_json ?s) + blocks c"
    using accepts_whole_text [OF assms(2-4) _ assms(6), of "[]" False "cs_json ?s"] by auto
  have "names_ok c" by (rule names_ok_text(1) [OF assms(2) p(2)]) (simp add: item_name_def p(3))
  with load p show ?thesis
    by (auto simp: init_config_reader_def cJSON_Parse_def free_buffer_def cJSON_free_def close_file_def)
qed

text \<open>
  C36: From the file to the structure. When the file holds a JSON text (of the grammar of \<open>Cjson_Grammar\<close>), its numbers
  fit an \<open>int\<close> and memory lasts, the reader is
  initialised with every block but the tree's given back and the file closed; then loading a parameter of
  type integer whose dotted path leads, without regard to case, to a number in the value stores that number's
  bytes at the parameter's offset and leaves the rest of the structure alone.
\<close>

theorem config_file_to_parameter:
  assumes reads: "reads_file io (w1 @ tx @ w2)" "value_text v tx" "white w1" "white w2" and E: "ce_text E = (w1 @ tx @ w2) @ [0]"
    and fit: "numbers_fit E v" "memory_ok E"
    and path: "0 \<notin> set path" "json_descend v (split_dots path) = Some (JNumber x)"
    and i: "ce_to_int E (number_double E x) = Some i" and base: "off + 4 \<le> length base"
  shows "\<exists>s' c. init_config_reader E io s = Some (0, s') \<and> cs_root s' = Some c
    \<and> cj_live (cs_json s') = cj_live (cs_json s) + blocks c \<and> cs_closed s' = cs_closed s @ [fi_open io]
    \<and> config_load_params (\<lambda>_. True) (cs_root s') u [\<lparr>cp_path = Some path, cp_type = ConfigParamType_Integer, cp_offset = int off\<rparr>] base
       = Some (take off base @ le_bytes32 i @ drop (off + 4) base, 0)"
proof -
  have E': "E\<lparr>ce_text := (w1 @ tx @ w2) @ [0]\<rparr> = E" using E by simp
  obtain s' c where s': "init_config_reader E io s = Some (0, s')" "cs_root s' = Some c" "represents E v c" "names_ok c"
      "cj_live (cs_json s') = cj_live (cs_json s) + blocks c" "cs_closed s' = cs_closed s @ [fi_open io]"
    using init_config_reader_json [OF reads fit(2), of s] fit(1) E' by auto
  obtain node where node: "descend c (split_dots path) = Some node" "represents E (JNumber x) node"
    using descend_represents [OF s'(3), of "split_dots path"] path(2) by (auto simp: option_rel_Some1)
  have get: "get_json_obj_from_path (\<lambda>_. True) (Some c) (Some path) = Some (Some node)"
    using walk_is_descent [OF s'(4) path(1)] node(1) by simp
  have n: "js_type node = cJSON_Number" "js_valueint node = i" using node(2) i by simp_all
  have l: "length (le_bytes32 i) = 4" by (simp add: le_bytes32_def)
  have "union_i (union_set_i (union_set_d u (js_valuedouble node)) i) = i"
    by (rule bit_word_eqI) (auto simp: union_i_def union_set_i_def bit_simps)
  then have "config_load_params (\<lambda>_. True) (cs_root s') u [\<lparr>cp_path = Some path, cp_type = ConfigParamType_Integer, cp_offset = int off\<rparr>] base
      = Some (take off base @ le_bytes32 i @ drop (off + 4) base, 0)"
    using base l config_number_param [OF get n(1), of u] n(2) s'(2)
    by (simp add: config_load_params_def config_load_one_def mem_blit_def)
  with s' show ?thesis by blast
qed

text \<open>A file that holds \<open>{"a":12}\<close>, and the integer at offset 2 of a structure of eight bytes.\<close>

definition config_value :: json where
  "config_value = JObject [([97], JNumber (JNum False [49, 50] [] None))]"

definition config_text :: "u8 list" where
  "config_text = [123, 34, 97, 34, 58, 49, 50, 125]"

definition config_answers :: file_answers where
  "config_answers = \<lparr>fi_open = 3, fi_size = Some 8, fi_malloc = True, fi_read = Some config_text\<rparr>"

definition config_start :: config_state where
  "config_start = \<lparr>cs_root = None, cs_json = start_state, cs_closed = []\<rparr>"

lemma config_value_text: "value_text config_value config_text"
proof -
  have "number_ok (JNum False [49, 50] [] None)" by (simp add: digits_def is_digit_def)
  from text_number [OF this] have 1: "value_text (JNumber (JNum False [49, 50] [] None)) [49, 50]" by simp
  have 2: "string_text [97] [97]" by (intro string_text.intros) (simp_all add: plain_def)
  have w: "white []" by (simp add: white_def)
  from text_object [OF text_member [OF w 2 w w 1 w]] show ?thesis by (simp add: config_value_def config_text_def)
qed

theorem config_file_to_parameter_witness:
  "reads_file config_answers config_text
    \<and> (\<exists>s' c. init_config_reader (sample_env (config_text @ [0])) config_answers config_start = Some (0, s') \<and> cs_root s' = Some c
      \<and> cj_live (cs_json s') = 0 + blocks c \<and> cs_closed s' = [3]
      \<and> config_load_params (\<lambda>_. True) (cs_root s') 0
           [\<lparr>cp_path = Some [65], cp_type = ConfigParamType_Integer, cp_offset = int 2\<rparr>] [1, 2, 3, 4, 5, 6, 7, 8]
         = Some ([1, 2, 12, 0, 0, 0, 7, 8], 0))"
proof -
  have r: "reads_file config_answers config_text" by (simp add: reads_file_def config_answers_def config_text_def)
  have b: "le_bytes32 12 = [12, 0, 0, 0]" by (simp add: le_bytes32_def upt_rec drop_bit_eq_div word_eq_iff_unsigned unsigned_ucast_eq)
  have f: "json_descend config_value (split_dots [65]) = Some (JNumber (JNum False [49, 50] [] None))"
    by (simp add: config_value_def DOT_def tolower_def)
  have "\<exists>s' c. init_config_reader (sample_env (config_text @ [0])) config_answers config_start = Some (0, s') \<and> cs_root s' = Some c
    \<and> cj_live (cs_json s') = cj_live (cs_json config_start) + blocks c \<and> cs_closed s' = cs_closed config_start @ [fi_open config_answers]
    \<and> config_load_params (\<lambda>_. True) (cs_root s') 0 [\<lparr>cp_path = Some [65], cp_type = ConfigParamType_Integer, cp_offset = int 2\<rparr>] [1, 2, 3, 4, 5, 6, 7, 8]
       = Some (take 2 [1, 2, 3, 4, 5, 6, 7, 8] @ le_bytes32 12 @ drop (2 + 4) [1, 2, 3, 4, 5, 6, 7, 8], 0)"
    by (rule config_file_to_parameter [OF _ config_value_text, where ?w1.0 = "[]" and ?w2.0 = "[]" and off = 2, OF _ _ _ _ _ _ _ f])
      (use r in \<open>simp_all add: white_def sample_env_def config_value_def memory_ok_def\<close>)
  with r b show ?thesis by (simp add: config_start_def start_state_def config_answers_def)
qed

end
