(* ===== verification/Serial.thy ===== *)
theory Serial
  imports Kj_Prelude
begin

text \<open>
  \<open>src/serial/serial.c\<close>: opening a serial port. The check of the configuration and the flags given to
  the terminal driver are modelled; \<open>open\<close> and \<open>tcgetattr\<close> are inputs, the attributes passed to \<open>tcsetattr\<close>
  the result. The flags' values are those of Linux's \<open>termios.h\<close>. \<open>c_cflag\<close> is modelled without the
  bits in which Linux keeps the speed, which are fields of their own.
\<close>

section \<open>Terminal flags\<close>

definition CSIZE :: u32 where "CSIZE = 0x30"
definition CS5 :: u32 where "CS5 = 0x00"
definition CS6 :: u32 where "CS6 = 0x10"
definition CS7 :: u32 where "CS7 = 0x20"
definition CS8 :: u32 where "CS8 = 0x30"
definition CSTOPB :: u32 where "CSTOPB = 0x40"
definition CREAD :: u32 where "CREAD = 0x80"
definition PARENB :: u32 where "PARENB = 0x100"
definition PARODD :: u32 where "PARODD = 0x200"
definition INPCK :: u32 where "INPCK = 0x10"
definition ISTRIP :: u32 where "ISTRIP = 0x20"

lemmas termios_flags = CSIZE_def CS5_def CS6_def CS7_def CS8_def CSTOPB_def CREAD_def PARENB_def PARODD_def INPCK_def ISTRIP_def

datatype baud = B50 | B300 | B1200 | B2400 | B4800 | B9600 | B19200 | B38400 | B57600 | B115200 | B230400

record termios =
  c_iflag :: u32
  c_oflag :: u32
  c_cflag :: u32
  c_lflag :: u32
  c_ispeed :: baud
  c_ospeed :: baud
  c_vmin :: u8
  c_vtime :: u8

section \<open>Operations\<close>

datatype SerialParity = SerialParity_None | SerialParity_Even | SerialParity_Odd

record SerialConfig =
  sc_baud :: baud
  sc_data_bit :: int
  sc_stop_bit :: int
  sc_parity :: SerialParity

definition check_serial_config :: "SerialConfig \<Rightarrow> bool" where
  "check_serial_config config =
     (if \<not> (sc_data_bit config = 7 \<or> sc_data_bit config = 8) then False
      else if \<not> (sc_stop_bit config = 1 \<or> sc_stop_bit config = 2) then False
      else List.find (\<lambda>b. sc_baud config = b) [B1200, B2400, B4800, B9600, B19200, B38400, B57600, B115200] \<noteq> None)"

definition set_serial_attribute :: "termios \<Rightarrow> SerialConfig \<Rightarrow> termios" where
  "set_serial_attribute tty config =
     (let tty = tty\<lparr>c_cflag := 0, c_iflag := 0, c_lflag := 0, c_oflag := 0\<rparr>;
          tty = tty\<lparr>c_ospeed := sc_baud config\<rparr>;
          tty = tty\<lparr>c_ispeed := sc_baud config\<rparr>;
          tty = tty\<lparr>c_cflag := c_cflag tty OR (if sc_data_bit config = 7 then 0 else CS8)\<rparr>;
          tty = tty\<lparr>c_cflag := c_cflag tty OR (if sc_stop_bit config = 1 then 0 else CSTOPB)\<rparr>;
          tty = (case sc_parity config of
              SerialParity_None \<Rightarrow> tty
            | SerialParity_Even \<Rightarrow> tty\<lparr>c_cflag := c_cflag tty OR PARENB, c_iflag := c_iflag tty OR (INPCK OR ISTRIP)\<rparr>
            | SerialParity_Odd \<Rightarrow> tty\<lparr>c_cflag := c_cflag tty OR (PARENB OR PARODD), c_iflag := c_iflag tty OR (INPCK OR ISTRIP)\<rparr>)
      in tty\<lparr>c_vmin := 1, c_vtime := 0\<rparr>)"

text \<open>The descriptor or -1, and the attributes the driver was given, if any.\<close>

definition serial_init :: "int \<Rightarrow> termios \<Rightarrow> SerialConfig \<Rightarrow> int \<times> termios option" where
  "serial_init fd tty config =
     (if \<not> check_serial_config config then (-1, None)
      else if fd < 0 then (-1, None)
      else (fd, Some (set_serial_attribute tty config)))"

section \<open>What the driver is told\<close>

text \<open>The character size that \<open>c_cflag\<close> selects, and what \<open>ISTRIP\<close> does to a received byte (POSIX).\<close>

definition char_bits :: "termios \<Rightarrow> nat" where
  "char_bits tty =
     (if c_cflag tty AND CSIZE = CS8 then 8 else if c_cflag tty AND CSIZE = CS7 then 7
      else if c_cflag tty AND CSIZE = CS6 then 6 else 5)"

definition received :: "termios \<Rightarrow> u8 \<Rightarrow> u8" where
  "received tty b = (if c_iflag tty AND ISTRIP \<noteq> 0 then b AND 0x7f else b)"

lemma check_accepts_iff:
  "check_serial_config config \<longleftrightarrow> sc_data_bit config \<in> {7, 8} \<and> sc_stop_bit config \<in> {1, 2}
     \<and> sc_baud config \<in> {B1200, B2400, B4800, B9600, B19200, B38400, B57600, B115200}"
  by (auto simp: check_serial_config_def)

lemma serial_flags:
  "c_cflag (set_serial_attribute tty config) =
     (if sc_data_bit config = 7 then 0 else CS8) OR (if sc_stop_bit config = 1 then 0 else CSTOPB)
     OR (case sc_parity config of SerialParity_None \<Rightarrow> 0 | SerialParity_Even \<Rightarrow> PARENB | SerialParity_Odd \<Rightarrow> PARENB OR PARODD)"
  "c_iflag (set_serial_attribute tty config) = (if sc_parity config = SerialParity_None then 0 else INPCK OR ISTRIP)"
  by (cases "sc_parity config"; simp add: set_serial_attribute_def Let_def or.assoc del: if_split)+

lemma serial_speed:
  "c_ispeed (set_serial_attribute tty config) = sc_baud config" "c_ospeed (set_serial_attribute tty config) = sc_baud config"
  "c_vmin (set_serial_attribute tty config) = 1" "c_vtime (set_serial_attribute tty config) = 0"
  by (cases "sc_parity config"; simp add: set_serial_attribute_def Let_def)+

text \<open>An 8-bit port without parity passes every byte; its speed and read thresholds are set.\<close>

theorem serial_plain_port:
  assumes "check_serial_config config" "sc_data_bit config = 8" "sc_parity config = SerialParity_None" "0 \<le> fd"
  shows "\<exists>tty'. serial_init fd tty config = (fd, Some tty') \<and> char_bits tty' = 8 \<and> (\<forall>b. received tty' b = b)
    \<and> c_ispeed tty' = sc_baud config \<and> c_ospeed tty' = sc_baud config \<and> c_vmin tty' = 1 \<and> c_vtime tty' = 0"
proof -
  have "char_bits (set_serial_attribute tty config) = 8" "received (set_serial_attribute tty config) b = b" for b
    using assms(2,3) by (simp_all add: char_bits_def received_def serial_flags termios_flags)
  then show ?thesis using assms by (simp add: serial_init_def serial_speed)
qed

text \<open>
  Three things go wrong otherwise: an accepted 7-bit configuration selects 5-bit characters, parity strips
  the top bit of 8-bit ones, and the receiver is never enabled.
\<close>

theorem serial_flags_wrong:
  fixes tty :: termios
  assumes "check_serial_config config"
  defines "tty' \<equiv> set_serial_attribute tty config"
  shows "(sc_data_bit config = 7 \<longrightarrow> char_bits tty' = 5)
    \<and> (sc_data_bit config = 8 \<longrightarrow> sc_parity config \<noteq> SerialParity_None \<longrightarrow> char_bits tty' = 8 \<and> received tty' 0x80 = 0)
    \<and> c_cflag tty' AND CREAD = 0"
  unfolding tty'_def
  by (cases "sc_parity config") (auto simp: char_bits_def received_def serial_flags termios_flags)

end
