(* ===== verification/Hex_Dump.thy ===== *)
theory Hex_Dump
  imports Kj_Prelude
begin

text \<open>
  \<open>src/debug/hex_dump.c\<close>: the bytes of a packet, eight to a line. \<open>sprintf\<close> into the local 128-byte
  buffer is checked; what goes to the log is recorded as the row number and the hexadecimal text.
\<close>

section \<open>Operations\<close>

text \<open>The text of \<open>%02x \<close>, with lower-case digits.\<close>

definition hex_digit :: "nat \<Rightarrow> u8" where
  "hex_digit d = (if d < 10 then of_nat (48 + d) else of_nat (87 + d))"

definition hex_byte :: "u8 \<Rightarrow> u8 list" where
  "hex_byte b = [hex_digit (unat b div 16), hex_digit (unat b mod 16), 32]"

text \<open>One call: the text and its NUL are stored at the index, which advances by the text's length.\<close>

definition hex_sprintf :: "u8 list \<Rightarrow> u8 list \<times> nat \<Rightarrow> int \<Rightarrow> (u8 list \<times> nat) option" where
  "hex_sprintf buf st k = (case st of (buffer, ndx) \<Rightarrow> do {
     j \<leftarrow> c_nat k;
     b \<leftarrow> mem_load buf j;
     buffer \<leftarrow> mem_blit buffer ndx (hex_byte b @ [0]);
     Some (buffer, ndx + length (hex_byte b)) })"

text \<open>One row at offset \<open>i\<close>: the buffer is handed to the log up to its first NUL.\<close>

definition hex_dump_row :: "u8 list \<Rightarrow> int \<Rightarrow> u8 list \<times> (int \<times> u8 list) list \<Rightarrow> int \<Rightarrow> (u8 list \<times> (int \<times> u8 list) list) option" where
  "hex_dump_row buf len st i = (case st of (buffer, logged) \<Rightarrow> do {
     let row_len = len - i;
     let row_len = (if row_len \<ge> 8 then 8 else row_len);
     (buffer, ndx) \<leftarrow> foldo (hex_sprintf buf) (buffer, 0) (map (\<lambda>j. i + int j) [0..<nat row_len]);
     if 0 \<in> set buffer then Some (buffer, logged @ [(i div 8, takeWhile (\<lambda>c. c \<noteq> 0) buffer)]) else None })"

text \<open>\<open>stack\<close>: what the local buffer holds. The offsets are 0, 8, 16, ... below the length.\<close>

definition hex_dump_buffer :: "u8 list \<Rightarrow> u8 list \<Rightarrow> int \<Rightarrow> ((int \<times> u8 list) list) option" where
  "hex_dump_buffer stack buf len = do {
     (_, logged) \<leftarrow> foldo (hex_dump_row buf len) (stack, []) (map (\<lambda>k. 8 * int k) [0..<nat ((len + 7) div 8)]);
     Some logged }"

section \<open>The text reads back\<close>

definition hex_value :: "u8 \<Rightarrow> nat" where
  "hex_value c = (if unat c < 58 then unat c - 48 else unat c - 87)"

fun hex_read :: "u8 list \<Rightarrow> u8 list" where
  "hex_read (a # b # c # s) = of_nat (16 * hex_value a + hex_value b) # hex_read s"
| "hex_read _ = []"

lemma hex_digit_unat: "d < 16 \<Longrightarrow> unat (hex_digit d) = (if d < 10 then 48 + d else 87 + d)"
  by (auto simp: hex_digit_def unat_word_ariths unat_of_nat)

lemma hex_value_digit: "d < 16 \<Longrightarrow> hex_value (hex_digit d) = d"
  by (simp add: hex_value_def hex_digit_unat)

lemma hex_byte_props [simp]: "length (hex_byte b) = 3" "0 \<notin> set (hex_byte b)"
proof -
  have "unat b div 16 < 16" using unat_u8_less [of b] by linarith
  then have "unat (hex_digit (unat b div 16)) \<noteq> 0" "unat (hex_digit (unat b mod 16)) \<noteq> 0"
    by (simp_all add: hex_digit_unat)
  then show "length (hex_byte b) = 3" "0 \<notin> set (hex_byte b)" by (auto simp: hex_byte_def)
qed

lemma hex_read_byte: "hex_read (hex_byte b @ s) = b # hex_read s"
proof -
  have "unat b div 16 < 16" using unat_u8_less [of b] by linarith
  then show ?thesis by (simp add: hex_byte_def hex_value_digit)
qed

lemma hex_read_bytes: "hex_read (concat (map hex_byte bs)) = bs"
  by (induction bs) (simp_all add: hex_read_byte)

lemma hex_text_props: "length (concat (map hex_byte bs)) = 3 * length bs" "0 \<notin> set (concat (map hex_byte bs))"
  by (induction bs) auto

text \<open>A row of at most eight bytes fits the buffer with its NUL.\<close>

lemma hex_row_loop:
  assumes "length buffer = 128" "o' + n \<le> length buf" "n \<le> 8" "0 < n"
  shows "\<exists>rest. foldo (hex_sprintf buf) (buffer, 0) (map (\<lambda>j. int o' + int j) [0..<n])
      = Some (concat (map hex_byte (take n (drop o' buf))) @ 0 # rest, 3 * n) \<and> length rest = 127 - 3 * n"
  using assms(2,3,4)
proof (induction n)
  case (Suc n)
  let ?t = "concat (map hex_byte (take n (drop o' buf)))"
  have run: "\<exists>b rest. foldo (hex_sprintf buf) (buffer, 0) (map (\<lambda>j. int o' + int j) [0..<n]) = Some (?t @ b # rest, 3 * n)
      \<and> length rest = 127 - 3 * n"
  proof (cases n)
    case 0
    then show ?thesis using assms(1) by (cases buffer) auto
  next
    case (Suc m)
    then show ?thesis using Suc.IH Suc.prems by auto
  qed
  then obtain b rest where r: "foldo (hex_sprintf buf) (buffer, 0) (map (\<lambda>j. int o' + int j) [0..<n]) = Some (?t @ b # rest, 3 * n)"
      "length rest = 127 - 3 * n" by blast
  let ?b = "buf ! (o' + n)"
  have t: "length ?t = 3 * n" using hex_text_props(1) [of "take n (drop o' buf)"] Suc.prems by simp
  have more: "concat (map hex_byte (take (Suc n) (drop o' buf))) = ?t @ hex_byte ?b"
    using Suc.prems by (simp add: take_Suc_conv_app_nth)
  have "mem_blit (?t @ b # rest) (3 * n) (hex_byte ?b @ [0]) = Some (?t @ (hex_byte ?b @ [0]) @ drop 3 rest)"
    using t r(2) Suc.prems by (simp add: mem_blit_def)
  then have "hex_sprintf buf (?t @ b # rest, 3 * n) (int o' + int n)
      = Some (concat (map hex_byte (take (Suc n) (drop o' buf))) @ 0 # drop 3 rest, 3 * Suc n)"
    using Suc.prems by (simp add: hex_sprintf_def c_nat_def more nat_add_distrib)
  then show ?case using r by (simp add: foldo_append)
qed simp

text \<open>One row of the dump.\<close>

lemma hex_row:
  assumes "length buffer = 128" "8 * k < n" "n \<le> length buf"
  shows "\<exists>buffer'. hex_dump_row buf (int n) (buffer, logged) (8 * int k)
      = Some (buffer', logged @ [(int k, concat (map hex_byte (take 8 (drop (8 * k) (take n buf)))))]) \<and> length buffer' = 128"
proof -
  let ?m = "min 8 (n - 8 * k)"
  let ?bs = "take ?m (drop (8 * k) buf)"
  let ?t = "concat (map hex_byte ?bs)"
  have m: "nat (if int n - 8 * int k \<ge> 8 then 8 else int n - 8 * int k) = ?m" using assms(2) by auto
  have le: "8 * k + ?m \<le> length buf" using assms(2,3) by linarith
  obtain rest where r: "foldo (hex_sprintf buf) (buffer, 0) (map (\<lambda>j. int (8 * k) + int j) [0..<?m]) = Some (?t @ 0 # rest, 3 * ?m)"
      "length rest = 127 - 3 * ?m"
    using hex_row_loop [OF assms(1) le] assms(2) by auto
  have t: "length ?t = 3 * ?m" "0 \<notin> set ?t"
    using hex_text_props [of ?bs] assms(2,3) by auto
  have w: "takeWhile (\<lambda>c. c \<noteq> 0) (?t @ 0 # rest) = ?t" using t(2) by (subst takeWhile_append2) auto
  have "take 8 (drop (8 * k) (take n buf)) = ?bs" using assms(2,3) by (simp add: drop_take min_def)
  moreover have "length (?t @ 0 # rest) = 128" using t(1) r(2) by simp
  moreover have "8 * int k div 8 = int k" by simp
  ultimately show ?thesis
    unfolding hex_dump_row_def Let_def split m using r(1) w by simp
qed

lemma hex_rows:
  assumes "length stack = 128" "n \<le> length buf" "8 * k \<le> n + 7"
  shows "\<exists>buffer. foldo (hex_dump_row buf (int n)) (stack, []) (map (\<lambda>k. 8 * int k) [0..<k])
      = Some (buffer, map (\<lambda>i. (int i, concat (map hex_byte (take 8 (drop (8 * i) (take n buf)))))) [0..<k]) \<and> length buffer = 128"
  using assms(3)
proof (induction k)
  case (Suc k)
  then obtain buffer where 1: "foldo (hex_dump_row buf (int n)) (stack, []) (map (\<lambda>k. 8 * int k) [0..<k])
      = Some (buffer, map (\<lambda>i. (int i, concat (map hex_byte (take 8 (drop (8 * i) (take n buf)))))) [0..<k])" "length buffer = 128"
    by auto
  show ?case using hex_row [OF 1(2) _ assms(2), of k] 1(1) Suc.prems by (simp add: foldo_append)
qed (use assms in simp)

lemma chunks_concat: "length xs \<le> 8 * k \<Longrightarrow> concat (map (\<lambda>i. take 8 (drop (8 * i) xs)) [0..<k]) = xs"
proof (induction k arbitrary: xs)
  case (Suc k)
  have "concat (map (\<lambda>i. take 8 (drop (8 * i) xs)) [0..<Suc k])
      = take 8 xs @ concat (map (\<lambda>i. take 8 (drop (8 * i) (drop 8 xs))) [0..<k])"
    by (simp add: upt_conv_Cons map_Suc_upt [symmetric] comp_def add.commute del: upt_Suc)
  also have "\<dots> = xs" using Suc.IH [of "drop 8 xs"] Suc.prems by simp
  finally show ?case .
qed simp

text \<open>
  The dump stays inside its 128-byte buffer, its rows are numbered from 0, and their text reads back as
  exactly the bytes dumped.
\<close>

theorem hex_dump_reads_back:
  assumes "length stack = 128" "n \<le> length buf"
  shows "\<exists>logged. hex_dump_buffer stack buf (int n) = Some logged \<and> concat (map (\<lambda>p. hex_read (snd p)) logged) = take n buf
    \<and> map fst logged = map int [0..<length logged]"
proof -
  let ?k = "(n + 7) div 8"
  have k: "nat ((int n + 7) div 8) = ?k" by (simp add: nat_div_distrib nat_add_distrib)
  obtain buffer where "foldo (hex_dump_row buf (int n)) (stack, []) (map (\<lambda>k. 8 * int k) [0..<?k])
      = Some (buffer, map (\<lambda>i. (int i, concat (map hex_byte (take 8 (drop (8 * i) (take n buf)))))) [0..<?k])"
    using hex_rows [OF assms, of ?k] by auto
  then have "hex_dump_buffer stack buf (int n)
      = Some (map (\<lambda>i. (int i, concat (map hex_byte (take 8 (drop (8 * i) (take n buf)))))) [0..<?k])"
    by (simp add: hex_dump_buffer_def k)
  moreover have "length (take n buf) \<le> 8 * ?k" using assms(2) by simp
  ultimately show ?thesis
    using chunks_concat [of "take n buf" ?k] by (simp add: comp_def hex_read_bytes)
qed

end
