(* ===== verification/Task_Start.thy ===== *)
theory Task_Start
  imports Task_Queue Item_Pool
begin

text \<open>
  The life of tasks: \<open>src/core/task.c\<close> from \<open>task_framework_init\<close> to the loop of a thread, with
  \<open>src/core/idle_task.c\<close>, \<open>src/kongja_express.c\<close> and the task of \<open>src/core/log.c\<close>. The world holds the list of
  tasks, the thread-specific \<open>self\<close> pointers and the threads; a task its queue (\<open>Task_Queue\<close>) and its libev
  loop. The answers of \<open>ev_loop_new\<close> and \<open>pthread_create\<close> are inputs. Undefined are a NULL loop, a
  thread-specific value before its key exists, and two threads in one loop, which libev forbids. The list
  of tasks is changed without a lock, so that an initialisation is a sequence of single memory accesses.
  \<open>wd_started\<close> records the tasks whose \<open>start\<close> callback has returned.
\<close>

section \<open>State\<close>

record 'm task =
  t_q :: "'m task_sys"
  t_ev_loop :: ptr
  t_noti_active :: bool

datatype thread_pc = Created ptr | Starting ptr | Looping ptr

text \<open>
  A \<open>task_init\<close> in progress: before \<open>INIT_LIST_HEAD\<close>; before \<open>list_add_tail\<close> reads the list's tail; before
  the next of the four writes of \<open>__list_add\<close>; before \<open>task_queue_init\<close>; before \<open>task_prepare_loop\<close>. The task
  and the answer of \<open>ev_loop_new\<close> are carried along.
\<close>

datatype init_point = Beginning | Adding | Linking nat ptr | Queueing | Preparing

record init_pc =
  in_task :: ptr
  in_loop :: ptr
  in_step :: init_point

record 'm task_world =
  wd_key :: bool
  wd_heap :: lheap
  wd_head :: ptr
  wd_task :: "ptr \<Rightarrow> 'm task"
  wd_self :: "nat \<Rightarrow> ptr"
  wd_threads :: "nat \<Rightarrow> thread_pc option"
  wd_inits :: "nat \<Rightarrow> init_pc option"
  wd_running :: "ptr list"
  wd_started :: "ptr list"

definition set_task :: "ptr \<Rightarrow> 'm task \<Rightarrow> 'm task_world \<Rightarrow> 'm task_world" where
  "set_task t x w = w\<lparr>wd_task := (wd_task w)(t := x)\<rparr>"

section \<open>Operations\<close>

definition task_framework_init :: "'m task_world \<Rightarrow> 'm task_world" where
  "task_framework_init w = w\<lparr>wd_key := True\<rparr>"

text \<open>\<open>ev_async_init\<close> clears the flag of the notification, \<open>ev_async_start\<close> makes the loop see it.\<close>

definition task_prepare_loop :: "ptr \<Rightarrow> ptr \<Rightarrow> 'm task_world \<Rightarrow> 'm task_world option" where
  "task_prepare_loop task loop w =
     (if loop = NULL then None
      else let x = wd_task w task in
        Some (set_task task (x\<lparr>t_ev_loop := loop, t_q := (t_q x)\<lparr>tk_noti := False\<rparr>, t_noti_active := True\<rparr>) w))"

text \<open>A callback that a task does not have is \<open>None\<close>.\<close>

type_synonym 'm task_cb = "(ptr \<Rightarrow> 'm task_world \<Rightarrow> 'm task_world option) option"

definition call_back :: "'m task_cb \<Rightarrow> ptr \<Rightarrow> 'm task_world \<Rightarrow> 'm task_world option" where
  "call_back cb task w = (case cb of None \<Rightarrow> Some w | Some f \<Rightarrow> f task w)"

definition task_init_common :: "'m task_cb \<Rightarrow> ptr \<Rightarrow> ptr \<Rightarrow> 'm task_world \<Rightarrow> 'm task_world option" where
  "task_init_common init task loop w = do {
     h \<leftarrow> init_list_head (wd_heap w) task;
     h \<leftarrow> list_add_tail h task (wd_head w);
     let w = w\<lparr>wd_heap := h\<rparr>;
     q \<leftarrow> task_queue_init (t_q (wd_task w task));
     w \<leftarrow> task_prepare_loop task loop (set_task task ((wd_task w task)\<lparr>t_q := q\<rparr>) w);
     call_back init task w }"

definition task_init :: "'m task_cb \<Rightarrow> ptr \<Rightarrow> ptr \<Rightarrow> 'm task_world \<Rightarrow> ('m task_world \<times> int) option" where
  "task_init init new_loop task w = do { w \<leftarrow> task_init_common init task new_loop w; Some (w, 0) }"

definition task_init_main :: "'m task_cb \<Rightarrow> ptr \<Rightarrow> ptr \<Rightarrow> 'm task_world \<Rightarrow> ('m task_world \<times> int) option" where
  "task_init_main init default_loop task w = do { w \<leftarrow> task_init_common init task default_loop w; Some (w, 0) }"

text \<open>A thread that cannot be created is not noticed.\<close>

definition task_run :: "nat option \<Rightarrow> ptr \<Rightarrow> 'm task_world \<Rightarrow> 'm task_world" where
  "task_run tid task w = (case tid of None \<Rightarrow> w | Some t \<Rightarrow> w\<lparr>wd_threads := (wd_threads w)(t \<mapsto> Created task)\<rparr>)"

text \<open>The thread's entry point up to the \<open>start\<close> callback, and from there into the loop.\<close>

definition task_thread_enter :: "nat \<Rightarrow> ptr \<Rightarrow> 'm task_world \<Rightarrow> 'm task_world option" where
  "task_thread_enter tid self w =
     (if \<not> wd_key w \<or> t_ev_loop (wd_task w self) = NULL then None
      else Some (w\<lparr>wd_self := (wd_self w)(tid := self), wd_threads := (wd_threads w)(tid \<mapsto> Starting self)\<rparr>))"

definition task_thread_loop :: "nat \<Rightarrow> ptr \<Rightarrow> 'm task_world \<Rightarrow> 'm task_world option" where
  "task_thread_loop tid self w =
     (let loop = t_ev_loop (wd_task w self) in
      if loop \<in> set (wd_running w) then None
      else Some (w\<lparr>wd_running := loop # wd_running w, wd_started := wd_started w @ [self],
             wd_threads := (wd_threads w)(tid \<mapsto> Looping self)\<rparr>))"

definition task_start_routine :: "'m task_cb \<Rightarrow> nat \<Rightarrow> ptr \<Rightarrow> 'm task_world \<Rightarrow> 'm task_world option" where
  "task_start_routine start tid self w = do {
     w \<leftarrow> task_thread_enter tid self w;
     w \<leftarrow> call_back start self w;
     task_thread_loop tid self w }"

definition task_run_no_thread :: "'m task_cb \<Rightarrow> nat \<Rightarrow> ptr \<Rightarrow> 'm task_world \<Rightarrow> 'm task_world option" where
  "task_run_no_thread start tid task w = task_start_routine start tid task w"

definition task_self :: "nat \<Rightarrow> 'm task_world \<Rightarrow> ptr option" where
  "task_self tid w = (if wd_key w then Some (wd_self w tid) else None)"

text \<open>The log's task, the initialisation of the framework and the idle task.\<close>

definition log_init_task ::
    "ptr \<Rightarrow> nat option \<Rightarrow> ptr \<Rightarrow> ptr list \<Rightarrow> 'm task_world \<times> item_pool \<Rightarrow> ('m task_world \<times> item_pool) option" where
  "log_init_task loop tid log_task buffers s = do {
     let (w, pool) = s;
     (w, _) \<leftarrow> task_init None loop log_task w;
     pool \<leftarrow> log_init pool buffers;
     Some (task_run tid log_task w, pool) }"

definition kongja_express_init ::
    "ptr \<Rightarrow> nat option \<Rightarrow> ptr \<Rightarrow> ptr list \<Rightarrow> 'm task_world \<times> item_pool \<Rightarrow> ('m task_world \<times> item_pool) option" where
  "kongja_express_init loop tid log_task buffers s =
     (case s of (w, pool) \<Rightarrow> log_init_task loop tid log_task buffers (task_framework_init w, pool))"

definition idle_task_run :: "ptr \<Rightarrow> nat \<Rightarrow> ptr \<Rightarrow> 'm task_world \<Rightarrow> 'm task_world option" where
  "idle_task_run default_loop tid idle_task w = do {
     (w, _) \<leftarrow> task_init_main None default_loop idle_task w;
     task_run_no_thread None tid idle_task w }"

section \<open>What can happen\<close>

text \<open>
  An initialisation one memory access at a time. \<open>link_write k\<close> is the \<open>k\<close>-th write of \<open>__list_add\<close> of \<open>t\<close>
  between \<open>p\<close> and the head. The last step returns from \<open>task_init\<close>.
\<close>

fun link_write :: "nat \<Rightarrow> lheap \<Rightarrow> ptr \<Rightarrow> ptr \<Rightarrow> ptr \<Rightarrow> lheap option" where
  "link_write 0 h t p head = wr_prev h head t"
| "link_write (Suc 0) h t p head = wr_next h t head"
| "link_write (Suc (Suc 0)) h t p head = wr_prev h t p"
| "link_write k h t p head = wr_next h p t"

definition init_do :: "init_pc \<Rightarrow> 'm task_world \<Rightarrow> ('m task_world \<times> init_pc option) option" where
  "init_do pc w =
     (case in_step pc of
       Beginning \<Rightarrow> do {
         h \<leftarrow> init_list_head (wd_heap w) (in_task pc);
         Some (w\<lparr>wd_heap := h\<rparr>, Some (pc\<lparr>in_step := Adding\<rparr>)) }
     | Adding \<Rightarrow> do {
         p \<leftarrow> rd_prev (wd_heap w) (wd_head w);
         Some (w, Some (pc\<lparr>in_step := Linking 0 p\<rparr>)) }
     | Linking k p \<Rightarrow> do {
         h \<leftarrow> link_write k (wd_heap w) (in_task pc) p (wd_head w);
         Some (w\<lparr>wd_heap := h\<rparr>, Some (pc\<lparr>in_step := if k < 3 then Linking (Suc k) p else Queueing\<rparr>)) }
     | Queueing \<Rightarrow> do {
         q \<leftarrow> task_queue_init (t_q (wd_task w (in_task pc)));
         Some (set_task (in_task pc) ((wd_task w (in_task pc))\<lparr>t_q := q\<rparr>) w, Some (pc\<lparr>in_step := Preparing\<rparr>)) }
     | Preparing \<Rightarrow> do {
         w \<leftarrow> task_prepare_loop (in_task pc) (in_loop pc) w;
         Some (w, None) })"

definition init_step :: "nat \<Rightarrow> init_pc \<Rightarrow> 'm task_world \<Rightarrow> 'm task_world option" where
  "init_step i pc w = do { (w, nxt) \<leftarrow> init_do pc w; Some (w\<lparr>wd_inits := (wd_inits w)(i := nxt)\<rparr>) }"

definition init_begin :: "nat \<Rightarrow> ptr \<Rightarrow> ptr \<Rightarrow> 'm task_world \<Rightarrow> 'm task_world" where
  "init_begin i t l w = w\<lparr>wd_inits := (wd_inits w)(i \<mapsto> \<lparr>in_task = t, in_loop = l, in_step = Beginning\<rparr>)\<rparr>"

text \<open>
  Any thread begins to initialise a task that is not initialised nor being so, with what \<open>ev_loop_new\<close> answers: NULL
  or a loop that no task has. Every initialisation in progress takes its steps. Any thread runs an initialised task once
  and posts to an initialised task. The threads created take their steps. What a callback does are steps of its own: a
  \<open>start\<close> callback's between \<open>enter\<close> and \<open>loop\<close>.
\<close>

definition initialised :: "'m task_world \<Rightarrow> ptr \<Rightarrow> bool" where
  "initialised w t \<longleftrightarrow> t_ev_loop (wd_task w t) \<noteq> NULL"

definition initialising :: "'m task_world \<Rightarrow> ptr \<Rightarrow> bool" where
  "initialising w t \<longleftrightarrow> (\<exists>i pc. wd_inits w i = Some pc \<and> in_task pc = t)"

definition new_loop :: "'m task_world \<Rightarrow> ptr \<Rightarrow> bool" where
  "new_loop w l \<longleftrightarrow> l = NULL \<or> (\<forall>u. t_ev_loop (wd_task w u) \<noteq> l) \<and> (\<forall>i pc. wd_inits w i = Some pc \<longrightarrow> in_loop pc \<noteq> l)"

definition set_q :: "ptr \<Rightarrow> 'm task_sys \<Rightarrow> 'm task_world \<Rightarrow> 'm task_world" where
  "set_q t q w = set_task t ((wd_task w t)\<lparr>t_q := q\<rparr>) w"

fun thread_task :: "thread_pc \<Rightarrow> ptr" where
  "thread_task (Created t) = t"
| "thread_task (Starting t) = t"
| "thread_task (Looping t) = t"

definition has_thread :: "'m task_world \<Rightarrow> ptr \<Rightarrow> bool" where
  "has_thread w t \<longleftrightarrow> (\<exists>tid pc. wd_threads w tid = Some pc \<and> thread_task pc = t)"

inductive life_step :: "'m task_world \<Rightarrow> 'm task_world \<Rightarrow> bool" where
  begin_init: "\<not> initialised w t \<Longrightarrow> \<not> initialising w t \<Longrightarrow> t \<noteq> NULL \<Longrightarrow> t \<noteq> wd_head w \<Longrightarrow> new_loop w l \<Longrightarrow>
    wd_inits w i = None \<Longrightarrow> life_step w (init_begin i t l w)"
| init: "wd_inits w i = Some pc \<Longrightarrow> init_step i pc w = Some w' \<Longrightarrow> life_step w w'"
| run: "initialised w t \<Longrightarrow> \<not> has_thread w t \<Longrightarrow> wd_threads w tid = None \<Longrightarrow> life_step w (task_run (Some tid) t w)"
| enter: "wd_threads w tid = Some (Created t) \<Longrightarrow> task_thread_enter tid t w = Some w' \<Longrightarrow> life_step w w'"
| loop: "wd_threads w tid = Some (Starting t) \<Longrightarrow> task_thread_loop tid t w = Some w' \<Longrightarrow> life_step w w'"
| post: "initialised w t \<Longrightarrow> task_step (t_q (wd_task w t)) (Post m) q \<Longrightarrow> life_step w (set_q t q w)"
| send: "initialised w t \<Longrightarrow> tk_unsent (t_q (wd_task w t)) = Suc n \<Longrightarrow>
    life_step w (set_q t ((ev_async_send (t_q (wd_task w t)))\<lparr>tk_unsent := n\<rparr>) w)"
| work: "wd_threads w tid = Some (Looping t) \<Longrightarrow> task_step (t_q (wd_task w t)) Other q \<Longrightarrow> life_step w (set_q t q w)"

text \<open>A task as the program's static data holds it: nothing initialised, all zero but the addresses.\<close>

definition task_blank :: "'m task \<Rightarrow> bool" where
  "task_blank x \<longleftrightarrow> t_ev_loop x = NULL \<and> tk_msgs (t_q x) \<noteq> NULL \<and> tk_msgs (t_q x) \<noteq> tk_tmp (t_q x) \<and> tk_tmp (t_q x) \<noteq> NULL
     \<and> tk_mem (t_q x) = Map.empty \<and> tk_unsent (t_q x) = 0 \<and> tk_pc (t_q x) = Waiting \<and> tk_posted (t_q x) = [] \<and> tk_handled (t_q x) = []"

text \<open>The world after \<open>task_framework_init\<close>; \<open>LIST_HEAD(_tasks)\<close> is initialised statically.\<close>

definition world_start :: "'m task_world \<Rightarrow> bool" where
  "world_start w \<longleftrightarrow> wd_key w \<and> dlist (wd_heap w) (wd_head w) [] \<and> (\<forall>t. task_blank (wd_task w t))
     \<and> wd_threads w = Map.empty \<and> wd_inits w = Map.empty \<and> wd_running w = [] \<and> wd_started w = []"

text \<open>
  The list of tasks has no lock: two initialisations that overlap may lose a task (\<open>overlapping_inits_lose_a_task\<close>). The
  runs considered have at most one initialisation in progress at a time, as every program of the repository has.
\<close>

definition one_init :: "'m task_world \<Rightarrow> bool" where
  "one_init w \<longleftrightarrow> (\<forall>i j. wd_inits w i \<noteq> None \<longrightarrow> wd_inits w j \<noteq> None \<longrightarrow> i = j)"

inductive life_reachable :: "'m task_world \<Rightarrow> bool" where
  start: "world_start w \<Longrightarrow> life_reachable w"
| step: "life_reachable w \<Longrightarrow> life_step w w' \<Longrightarrow> one_init w' \<Longrightarrow> life_reachable w'"

section \<open>Invariant\<close>

text \<open>
  Between its writes an initialisation has the list \<open>ts\<close> as its first writes left it; after the last one its task
  is at the end of it.
\<close>

fun link_writes :: "nat \<Rightarrow> lheap \<Rightarrow> ptr \<Rightarrow> ptr \<Rightarrow> ptr \<Rightarrow> lheap option" where
  "link_writes 0 h t p head = Some h"
| "link_writes (Suc k) h t p head = do { h \<leftarrow> link_writes k h t p head; link_write k h t p head }"

fun listed :: "lheap \<Rightarrow> ptr \<Rightarrow> ptr list \<Rightarrow> ptr \<Rightarrow> init_point \<Rightarrow> bool" where
  "listed h head ts t (Linking k p) \<longleftrightarrow>
     k < 4 \<and> (\<exists>h0. dlist h0 head ts \<and> rd_prev h0 head = Some p \<and> link_writes k h0 t p head = Some h)"
| "listed h head ts t Queueing \<longleftrightarrow> dlist h head (ts @ [t])"
| "listed h head ts t Preparing \<longleftrightarrow> dlist h head (ts @ [t])"
| "listed h head ts t _ \<longleftrightarrow> dlist h head ts"

definition init_ok :: "'m task_world \<Rightarrow> ptr list \<Rightarrow> init_pc \<Rightarrow> bool" where
  "init_ok w ts pc \<longleftrightarrow> in_task pc \<noteq> NULL \<and> in_task pc \<noteq> wd_head w \<and> \<not> initialised w (in_task pc)
     \<and> (in_loop pc = NULL \<or> (\<forall>u. t_ev_loop (wd_task w u) \<noteq> in_loop pc))
     \<and> listed (wd_heap w) (wd_head w) ts (in_task pc) (in_step pc)
     \<and> (in_step pc = Preparing \<longrightarrow> (\<exists>q. task_queue_init q = Some (t_q (wd_task w (in_task pc)))))"

definition inv_list :: "'m task_world \<Rightarrow> bool" where
  "inv_list w \<longleftrightarrow> one_init w \<and> (\<exists>ts. set ts = {t. initialised w t} \<and> wd_head w \<notin> set ts
     \<and> (wd_inits w = Map.empty \<longrightarrow> dlist (wd_heap w) (wd_head w) ts)
     \<and> (\<forall>i pc. wd_inits w i = Some pc \<longrightarrow> init_ok w ts pc))"

text \<open>The queues of the initialised tasks are reachable ones, unused until the task has started.\<close>

definition inv_tasks :: "'m task_world \<Rightarrow> bool" where
  "inv_tasks w \<longleftrightarrow> wd_key w
     \<and> (\<forall>t. \<not> initialised w t \<longrightarrow> task_blank (wd_task w t))
     \<and> (\<forall>t. initialised w t \<longrightarrow> task_reachable (t_q (wd_task w t)) \<and> t_noti_active (wd_task w t))
     \<and> (\<forall>t. t \<notin> set (wd_started w) \<longrightarrow> tk_pc (t_q (wd_task w t)) = Waiting \<and> tk_handled (t_q (wd_task w t)) = [])"

text \<open>A task has one thread, a loop one task; the loops running are those of the threads in their loops.\<close>

definition inv_threads :: "'m task_world \<Rightarrow> bool" where
  "inv_threads w \<longleftrightarrow> (\<forall>tid pc. wd_threads w tid = Some pc \<longrightarrow> initialised w (thread_task pc))
     \<and> (\<forall>tid tid' pc pc'. wd_threads w tid = Some pc \<longrightarrow> wd_threads w tid' = Some pc' \<longrightarrow> thread_task pc = thread_task pc' \<longrightarrow> tid = tid')
     \<and> (\<forall>t u. initialised w t \<longrightarrow> t_ev_loop (wd_task w t) = t_ev_loop (wd_task w u) \<longrightarrow> t = u)
     \<and> set (wd_running w) = {t_ev_loop (wd_task w t) | t tid. wd_threads w tid = Some (Looping t)}
     \<and> (\<forall>tid t. wd_threads w tid = Some (Starting t) \<or> wd_threads w tid = Some (Looping t) \<longrightarrow> wd_self w tid = t)
     \<and> set (wd_started w) = {t. \<exists>tid. wd_threads w tid = Some (Looping t)} \<and> distinct (wd_started w)"

definition life_inv :: "'m task_world \<Rightarrow> bool" where
  "life_inv w \<longleftrightarrow> inv_list w \<and> inv_tasks w \<and> inv_threads w"

lemma set_q_simps [simp]:
  "wd_key (set_q t q w) = wd_key w" "wd_heap (set_q t q w) = wd_heap w" "wd_head (set_q t q w) = wd_head w"
  "wd_self (set_q t q w) = wd_self w" "wd_threads (set_q t q w) = wd_threads w" "wd_inits (set_q t q w) = wd_inits w"
  "wd_running (set_q t q w) = wd_running w" "wd_started (set_q t q w) = wd_started w"
  "t_ev_loop (wd_task (set_q t q w) u) = t_ev_loop (wd_task w u)"
  "t_noti_active (wd_task (set_q t q w) u) = t_noti_active (wd_task w u)"
  "t_q (wd_task (set_q t q w) u) = (if u = t then q else t_q (wd_task w u))"
  by (simp_all add: set_q_def set_task_def)

lemma set_q_initialised [simp]: "initialised (set_q t q w) = initialised w"
  by (simp add: initialised_def fun_eq_iff)

lemma set_q_other: "u \<noteq> t \<Longrightarrow> wd_task (set_q t q w) u = wd_task w u"
  by (simp add: set_q_def set_task_def)

lemma set_q_threads: "inv_threads w \<Longrightarrow> inv_threads (set_q t q w)"
  by (simp add: inv_threads_def)

lemma set_q_tasks:
  assumes "inv_tasks w" "initialised w t" "task_reachable q"
    and "t \<notin> set (wd_started w) \<longrightarrow> tk_pc q = Waiting \<and> tk_handled q = []"
  shows "inv_tasks (set_q t q w)"
proof -
  have "task_blank (wd_task (set_q t q w) u)" if "\<not> initialised w u" for u
  proof -
    have "u \<noteq> t" using that assms(2) by auto
    then show ?thesis using that assms(1) by (simp add: set_q_other inv_tasks_def)
  qed
  then show ?thesis using assms unfolding inv_tasks_def by simp
qed

lemma task_post_keeps:
  assumes "task_step q (Post m) q'"
  shows "tk_pc q' = tk_pc q \<and> tk_handled q' = tk_handled q"
  using assms by (rule task_postE) (auto simp: task_notify_queue_def task_queue_add_def)

lemma task_init_spec:
  assumes "task_blank (wd_task w t)" "t \<noteq> NULL" "t \<notin> set (wd_head w # ts)" "dlist (wd_heap w) (wd_head w) ts" "l \<noteq> NULL"
  shows "\<exists>h q. task_init None l t w = Some (w\<lparr>wd_heap := h, wd_task := (wd_task w)(t := (wd_task w t)\<lparr>t_ev_loop := l, t_q := q, t_noti_active := True\<rparr>)\<rparr>, 0)
    \<and> dlist h (wd_head w) (ts @ [t]) \<and> task_start q"
proof -
  obtain h1 where h1: "init_list_head (wd_heap w) t = Some h1" "only_changes {t} (wd_heap w) h1"
    using init_list_head_spec [OF assms(2)] by blast
  have "dlist h1 (wd_head w) ts" by (rule dlist_frame [OF assms(4) h1(2)]) (use assms(3) in auto)
  then obtain h2 where h2: "list_add_tail h1 t (wd_head w) = Some h2" "dlist h2 (wd_head w) (ts @ [t])"
    using list_add_tail_spec assms(2,3) by blast
  let ?q = "t_q (wd_task w t)"
  have "tk_msgs ?q \<noteq> NULL" using assms(1) by (simp add: task_blank_def)
  then obtain h3 where h3: "init_list_head (tk_heap ?q) (tk_msgs ?q) = Some h3" using init_list_head_spec by blast
  let ?q' = "?q\<lparr>tk_heap := h3, tk_num_msgs := 0, tk_noti := False\<rparr>"
  have "task_queue_init (?q\<lparr>tk_noti := False\<rparr>) = Some ?q'" using h3 by (simp add: task_queue_init_def)
  then have "task_start ?q'" using assms(1) by (auto simp: task_start_def task_blank_def)
  moreover have "task_init None l t w = Some (w\<lparr>wd_heap := h2, wd_task := (wd_task w)(t := (wd_task w t)\<lparr>t_ev_loop := l, t_q := ?q', t_noti_active := True\<rparr>)\<rparr>, 0)"
    using h1(1) h2(1) h3 assms(5)
    by (simp add: task_init_def task_init_common_def task_queue_init_def task_prepare_loop_def set_task_def call_back_def Let_def)
  ultimately show ?thesis using h2(2) by blast
qed

section \<open>Initialising without a lock\<close>

lemma one_init_only: "one_init w \<Longrightarrow> wd_inits w i = Some pc \<Longrightarrow> wd_inits w = [i \<mapsto> pc]"
  by (force simp: one_init_def fun_eq_iff)

lemma inv_listI:
  assumes "set ts = {t. initialised w t}" "wd_head w \<notin> set ts"
    and "wd_inits w = Map.empty \<and> dlist (wd_heap w) (wd_head w) ts \<or> (\<exists>i pc. wd_inits w = [i \<mapsto> pc] \<and> init_ok w ts pc)"
  shows "inv_list w"
proof -
  from assms(3) have "one_init w \<and> (wd_inits w = Map.empty \<longrightarrow> dlist (wd_heap w) (wd_head w) ts)
      \<and> (\<forall>i pc. wd_inits w i = Some pc \<longrightarrow> init_ok w ts pc)"
  proof
    assume "\<exists>i pc. wd_inits w = [i \<mapsto> pc] \<and> init_ok w ts pc"
    then obtain i pc where "wd_inits w = [i \<mapsto> pc]" "init_ok w ts pc" by blast
    then show ?thesis by (simp add: one_init_def)
  qed (simp add: one_init_def)
  with assms(1,2) show ?thesis unfolding inv_list_def by blast
qed

lemma inv_listE:
  assumes "inv_list w" "wd_inits w i = Some pc"
  obtains ts where "wd_inits w = [i \<mapsto> pc]" "set ts = {t. initialised w t}" "wd_head w \<notin> set ts" "init_ok w ts pc"
  using assms by (auto simp: inv_list_def dest: one_init_only)

text \<open>What does not touch the list, the initialisation or a task that is not initialised keeps the list's invariant.\<close>

lemma inv_list_keep:
  assumes inv: "inv_list w" and same: "wd_inits w' = wd_inits w" "wd_heap w' = wd_heap w" "wd_head w' = wd_head w"
    and task: "\<And>u. t_ev_loop (wd_task w' u) = t_ev_loop (wd_task w u)" "\<And>u. \<not> initialised w u \<Longrightarrow> wd_task w' u = wd_task w u"
  shows "inv_list w'"
proof -
  have i: "initialised w' = initialised w" using task(1) by (simp add: initialised_def fun_eq_iff)
  have "init_ok w' ts pc" if "init_ok w ts pc" for ts pc
    using that same i task by (simp add: init_ok_def)
  note ok = this
  from inv obtain ts where ts: "one_init w" "set ts = {t. initialised w t}" "wd_head w \<notin> set ts"
      "wd_inits w = Map.empty \<longrightarrow> dlist (wd_heap w) (wd_head w) ts" "\<forall>i pc. wd_inits w i = Some pc \<longrightarrow> init_ok w ts pc"
    unfolding inv_list_def by blast
  have "\<forall>i pc. wd_inits w' i = Some pc \<longrightarrow> init_ok w' ts pc" using ts(5) ok same(1) by simp
  moreover have "one_init w'" using ts(1) same(1) by (simp add: one_init_def)
  ultimately show ?thesis unfolding inv_list_def using ts(2-4) same i by (intro conjI exI [of _ ts]) simp_all
qed

lemma link_writes_add:
  assumes "rd_prev h head = Some p"
  shows "link_writes 4 h t p head = list_add_tail h t head"
proof -
  have "(4 :: nat) = Suc (Suc (Suc (Suc 0)))" by simp
  then show ?thesis using assms by (simp only: link_writes.simps link_write.simps list_add_tail_def list_add_between_def)
      (simp add: Option.bind_assoc)
qed

lemma link_writes_defined: "link_writes n h t p head = Some h' \<Longrightarrow> k \<le> n \<Longrightarrow> \<exists>g. link_writes k h t p head = Some g"
proof (induction n arbitrary: h')
  case (Suc n)
  then show ?case by (cases "k = Suc n") (auto split: bind_splits)
qed simp

text \<open>The next access of an initialisation to the list is defined and keeps it as \<open>listed\<close> says.\<close>

lemma init_list_next:
  assumes ok: "init_ok w ts pc" and t: "in_task pc \<notin> set ts"
  shows "in_step pc = Beginning \<Longrightarrow> \<exists>h. init_list_head (wd_heap w) (in_task pc) = Some h \<and> listed h (wd_head w) ts (in_task pc) Adding"
    and "in_step pc = Adding \<Longrightarrow> \<exists>p. rd_prev (wd_heap w) (wd_head w) = Some p \<and> listed (wd_heap w) (wd_head w) ts (in_task pc) (Linking 0 p)"
    and "in_step pc = Linking k p \<Longrightarrow> \<exists>h. link_write k (wd_heap w) (in_task pc) p (wd_head w) = Some h
      \<and> listed h (wd_head w) ts (in_task pc) (if k < 3 then Linking (Suc k) p else Queueing)"
proof -
  have n: "in_task pc \<noteq> NULL" "in_task pc \<notin> set (wd_head w # ts)" using ok t by (simp_all add: init_ok_def)
  {
    assume "in_step pc = Beginning"
    then have d: "dlist (wd_heap w) (wd_head w) ts" using ok by (simp add: init_ok_def)
    obtain h where h: "init_list_head (wd_heap w) (in_task pc) = Some h" "only_changes {in_task pc} (wd_heap w) h"
      using init_list_head_spec [OF n(1)] by blast
    have "dlist h (wd_head w) ts" by (rule dlist_frame [OF d h(2)]) (use n(2) in auto)
    with h(1) show "\<exists>h. init_list_head (wd_heap w) (in_task pc) = Some h \<and> listed h (wd_head w) ts (in_task pc) Adding" by simp
  next
    assume "in_step pc = Adding"
    then have d: "dlist (wd_heap w) (wd_head w) ts" using ok by (simp add: init_ok_def)
    then obtain p where "rd_prev (wd_heap w) (wd_head w) = Some p"
      using dlist_tail dlist_tail_empty by (cases ts rule: rev_cases) blast+
    with d show "\<exists>p. rd_prev (wd_heap w) (wd_head w) = Some p \<and> listed (wd_heap w) (wd_head w) ts (in_task pc) (Linking 0 p)" by auto
  next
    assume "in_step pc = Linking k p"
    then obtain h0 where h0: "k < 4" "dlist h0 (wd_head w) ts" "rd_prev h0 (wd_head w) = Some p"
        "link_writes k h0 (in_task pc) p (wd_head w) = Some (wd_heap w)"
      using ok by (auto simp: init_ok_def)
    obtain h4 where h4: "list_add_tail h0 (in_task pc) (wd_head w) = Some h4" "dlist h4 (wd_head w) (ts @ [in_task pc])"
      using list_add_tail_spec [OF h0(2) n(2,1)] by blast
    then have "link_writes 4 h0 (in_task pc) p (wd_head w) = Some h4" using link_writes_add [OF h0(3)] by simp
    moreover from link_writes_defined [OF this, of "Suc k"] h0(1,4) obtain h where
      h: "link_write k (wd_heap w) (in_task pc) p (wd_head w) = Some h" "link_writes (Suc k) h0 (in_task pc) p (wd_head w) = Some h"
      by (auto simp del: link_write.simps)
    moreover have "Suc k = 4" if "\<not> k < 3" using that h0(1) by simp
    ultimately have "h = h4" if "\<not> k < 3" using that by (simp del: link_writes.simps)
    then have "listed h (wd_head w) ts (in_task pc) (if k < 3 then Linking (Suc k) p else Queueing)"
      using h h0 h4(2) by (auto simp del: link_writes.simps)
    with h(1) show "\<exists>h. link_write k (wd_heap w) (in_task pc) p (wd_head w) = Some h
      \<and> listed h (wd_head w) ts (in_task pc) (if k < 3 then Linking (Suc k) p else Queueing)" by blast
  }
qed

lemma task_queue_init_noti: "task_queue_init (q\<lparr>tk_noti := b\<rparr>) = map_option (\<lambda>q. q\<lparr>tk_noti := b\<rparr>) (task_queue_init q)"
  by (cases "init_list_head (tk_heap q) (tk_msgs q)") (simp_all add: task_queue_init_def)

lemma life_inv_listed:
  assumes inv: "life_inv w" and ts: "wd_inits w = [i \<mapsto> pc]" "set ts = {t. initialised w t}" "wd_head w \<notin> set ts" "init_ok w ts pc"
    and nxt: "listed h (wd_head w) ts (in_task pc) pt" "pt \<noteq> Preparing"
  shows "life_inv (w\<lparr>wd_heap := h, wd_inits := (wd_inits w)(i \<mapsto> pc\<lparr>in_step := pt\<rparr>)\<rparr>)"
proof -
  let ?w = "w\<lparr>wd_heap := h, wd_inits := (wd_inits w)(i \<mapsto> pc\<lparr>in_step := pt\<rparr>)\<rparr>"
  have same: "initialised ?w = initialised w" by (simp add: initialised_def fun_eq_iff)
  have "init_ok ?w ts (pc\<lparr>in_step := pt\<rparr>)" using ts(4) nxt by (simp add: init_ok_def same)
  then have "inv_list ?w" using ts(1-3) same by (intro inv_listI [of ts]) auto
  moreover have "inv_tasks ?w" "inv_threads ?w" using inv unfolding life_inv_def inv_tasks_def inv_threads_def same by simp_all
  ultimately show ?thesis by (simp add: life_inv_def)
qed

lemma life_init_inv:
  assumes inv: "life_inv w" and pc: "wd_inits w i = Some pc" and ok: "in_step pc \<noteq> Preparing \<or> in_loop pc \<noteq> NULL"
  shows "\<exists>w'. init_step i pc w = Some w' \<and> life_inv w'"
proof -
  let ?t = "in_task pc"
  obtain ts where ts: "wd_inits w = [i \<mapsto> pc]" "set ts = {t. initialised w t}" "wd_head w \<notin> set ts" "init_ok w ts pc"
    using inv_listE [OF _ pc] inv by (auto simp: life_inv_def)
  have new: "?t \<notin> set ts" "\<not> initialised w ?t" using ts(2,4) by (auto simp: init_ok_def)
  then have blank: "task_blank (wd_task w ?t)" using inv by (simp add: life_inv_def inv_tasks_def)
  note nxt = init_list_next [OF ts(4) new(1)] and keep = life_inv_listed [OF inv ts]
  show ?thesis
  proof (cases "in_step pc")
    case Beginning
    with nxt(1) keep [of _ Adding] show ?thesis by (auto simp: init_step_def init_do_def)
  next
    case Adding
    with nxt(2) obtain p where "rd_prev (wd_heap w) (wd_head w) = Some p" "listed (wd_heap w) (wd_head w) ts ?t (Linking 0 p)" by blast
    with keep [of "wd_heap w" "Linking 0 p"] Adding show ?thesis by (simp add: init_step_def init_do_def del: listed.simps)
  next
    case (Linking k p)
    with nxt(3) obtain h where h: "link_write k (wd_heap w) ?t p (wd_head w) = Some h"
        "listed h (wd_head w) ts ?t (if k < 3 then Linking (Suc k) p else Queueing)" by blast
    with keep [OF h(2)] Linking show ?thesis by (auto simp: init_step_def init_do_def)
  next
    case Queueing
    have "tk_msgs (t_q (wd_task w ?t)) \<noteq> NULL" using blank by (simp add: task_blank_def)
    then obtain g where g: "init_list_head (tk_heap (t_q (wd_task w ?t))) (tk_msgs (t_q (wd_task w ?t))) = Some g"
      using init_list_head_spec by blast
    let ?q = "(t_q (wd_task w ?t))\<lparr>tk_heap := g, tk_num_msgs := 0\<rparr>"
    have q: "task_queue_init (t_q (wd_task w ?t)) = Some ?q" using g by (simp add: task_queue_init_def)
    let ?w = "(set_q ?t ?q w)\<lparr>wd_inits := [i \<mapsto> pc\<lparr>in_step := Preparing\<rparr>]\<rparr>"
    have same: "initialised ?w = initialised w" by (simp add: initialised_def fun_eq_iff)
    have "init_ok ?w ts (pc\<lparr>in_step := Preparing\<rparr>)"
      using ts(4) Queueing q same by (auto simp: init_ok_def)
    then have "inv_list ?w" using ts(2,3) same by (intro inv_listI [of ts]) auto
    moreover have "inv_tasks ?w" using inv blank unfolding life_inv_def inv_tasks_def same
      by (auto simp: set_q_def set_task_def task_blank_def initialised_def)
    moreover have "inv_threads ?w" using inv unfolding life_inv_def inv_threads_def same by simp
    moreover have "init_step i pc w = Some ?w" using Queueing q ts(1) by (simp add: init_step_def init_do_def set_q_def set_task_def)
    ultimately show ?thesis by (simp add: life_inv_def)
  next
    case Preparing
    let ?x = "wd_task w ?t" and ?l = "in_loop pc"
    have l: "?l \<noteq> NULL" "\<forall>u. t_ev_loop (wd_task w u) \<noteq> ?l" using ok Preparing ts(4) by (auto simp: init_ok_def)
    let ?y = "?x\<lparr>t_ev_loop := ?l, t_q := (t_q ?x)\<lparr>tk_noti := False\<rparr>, t_noti_active := True\<rparr>"
    let ?w = "w\<lparr>wd_task := (wd_task w)(?t := ?y), wd_inits := Map.empty\<rparr>"
    have i: "initialised ?w u \<longleftrightarrow> u = ?t \<or> initialised w u" for u using l(1) by (simp add: initialised_def)
    obtain q0 where "task_queue_init q0 = Some (t_q ?x)" using ts(4) Preparing by (auto simp: init_ok_def)
    then have "task_queue_init (q0\<lparr>tk_noti := False\<rparr>) = Some ((t_q ?x)\<lparr>tk_noti := False\<rparr>)"
      by (simp add: task_queue_init_noti)
    then have q: "task_start ((t_q ?x)\<lparr>tk_noti := False\<rparr>)" using blank by (auto simp: task_start_def task_blank_def)
    have "dlist (wd_heap w) (wd_head w) (ts @ [?t])" using ts(4) Preparing by (simp add: init_ok_def)
    then have "inv_list ?w" using ts i by (intro inv_listI [of "ts @ [?t]"]) (auto simp: init_ok_def)
    moreover have "inv_tasks ?w"
      using inv i task_reachable.start [OF q] q unfolding life_inv_def inv_tasks_def by (auto simp: task_start_def)
    moreover have nt: "thread_task pc' \<noteq> ?t" if "wd_threads w tid = Some pc'" for tid pc'
      using that inv new(2) unfolding life_inv_def inv_threads_def by metis
    have "{t_ev_loop (wd_task ?w u) | u tid. wd_threads w tid = Some (Looping u)} = {t_ev_loop (wd_task w u) | u tid. wd_threads w tid = Some (Looping u)}"
      using nt [of _ "Looping ?t"] by auto metis
    then have "inv_threads ?w" using inv new(2) l(2) i unfolding life_inv_def inv_threads_def by simp metis
    moreover have "init_step i pc w = Some ?w"
      using Preparing l(1) ts(1) by (simp add: init_step_def init_do_def task_prepare_loop_def set_task_def Let_def)
    ultimately show ?thesis by (simp add: life_inv_def)
  qed
qed

text \<open>The only undefined step of an initialisation: a NULL loop is handed to libev.\<close>

lemma life_init_undefined:
  "in_step pc = Preparing \<Longrightarrow> in_loop pc = NULL \<Longrightarrow> init_step i pc w = None"
  by (simp add: init_step_def init_do_def task_prepare_loop_def)

lemma life_begin_inv:
  assumes inv: "life_inv w" and new: "\<not> initialised w t" "t \<noteq> NULL" "t \<noteq> wd_head w" "new_loop w l"
    and one: "one_init (init_begin i t l w)" "wd_inits w i = None"
  shows "life_inv (init_begin i t l w)"
proof -
  let ?w = "init_begin i t l w" and ?pc = "\<lparr>in_task = t, in_loop = l, in_step = Beginning\<rparr>"
  have same: "initialised ?w = initialised w" by (simp add: initialised_def fun_eq_iff init_begin_def)
  have inits: "wd_inits ?w = [i \<mapsto> ?pc]" using one_init_only [OF one(1), of i ?pc] by (simp add: init_begin_def)
  then have "wd_inits w = Map.empty" using one(2) by (auto simp: init_begin_def fun_eq_iff split: if_splits)
  then obtain ts where ts: "set ts = {t. initialised w t}" "wd_head w \<notin> set ts" "dlist (wd_heap w) (wd_head w) ts"
    using inv by (auto simp: life_inv_def inv_list_def)
  have "init_ok ?w ts ?pc" using new ts(3) same by (auto simp: init_ok_def init_begin_def new_loop_def)
  moreover have "wd_head ?w = wd_head w" by (simp add: init_begin_def)
  ultimately have "inv_list ?w" using ts(1,2) inits same by (intro inv_listI [of ts]) auto
  moreover have "inv_tasks ?w" "inv_threads ?w"
    using inv unfolding life_inv_def inv_tasks_def inv_threads_def same by (simp_all add: init_begin_def)
  ultimately show ?thesis by (simp add: life_inv_def)
qed

text \<open>The threads' own steps.\<close>

lemma life_run_inv:
  assumes inv: "life_inv w" and t: "initialised w t" "\<not> has_thread w t" "wd_threads w tid = None"
  shows "life_inv (task_run (Some tid) t w)"
proof -
  let ?w = "task_run (Some tid) t w"
  have same: "initialised ?w = initialised w" by (simp add: task_run_def initialised_def fun_eq_iff)
  have loops: "wd_threads ?w i = Some (Looping u) \<longleftrightarrow> wd_threads w i = Some (Looping u)" for i u
    using t(3) by (auto simp: task_run_def)
  have "inv_tasks ?w" using inv unfolding life_inv_def inv_tasks_def same by (simp add: task_run_def)
  moreover have "inv_threads ?w"
    using inv t unfolding life_inv_def inv_threads_def same loops by (auto simp: task_run_def has_thread_def)
  moreover have "inv_list ?w" by (rule inv_list_keep [of w]) (use inv in \<open>simp_all add: life_inv_def task_run_def\<close>)
  ultimately show ?thesis by (simp add: life_inv_def)
qed

lemma life_enter_inv:
  assumes inv: "life_inv w" and t: "wd_threads w tid = Some (Created t)"
  shows "\<exists>w'. task_thread_enter tid t w = Some w' \<and> life_inv w'"
proof -
  let ?w = "w\<lparr>wd_self := (wd_self w)(tid := t), wd_threads := (wd_threads w)(tid \<mapsto> Starting t)\<rparr>"
  have i: "initialised w t" using inv t by (force simp: life_inv_def inv_threads_def)
  have same: "initialised ?w = initialised w" by (simp add: initialised_def fun_eq_iff)
  have loops: "wd_threads ?w i = Some (Looping u) \<longleftrightarrow> wd_threads w i = Some (Looping u)" for i u using t by auto
  have "inv_tasks ?w" using inv unfolding life_inv_def inv_tasks_def same by simp
  moreover have "inv_threads ?w"
    using inv t i unfolding life_inv_def inv_threads_def same loops by (auto split: if_splits)
  moreover have "wd_key w" "t_ev_loop (wd_task w t) \<noteq> NULL" using inv i by (simp_all add: life_inv_def inv_tasks_def initialised_def)
  moreover have "inv_list ?w" by (rule inv_list_keep [of w]) (use inv in \<open>simp_all add: life_inv_def\<close>)
  ultimately show ?thesis by (simp add: life_inv_def task_thread_enter_def)
qed

lemma threads_refine:
  assumes "inv_threads w" and "\<And>j pc. th j = Some pc \<Longrightarrow> \<exists>pc'. wd_threads w j = Some pc' \<and> thread_task pc' = thread_task pc"
  shows "\<forall>j pc. th j = Some pc \<longrightarrow> initialised w (thread_task pc)"
    and "\<forall>j j' pc pc'. th j = Some pc \<longrightarrow> th j' = Some pc' \<longrightarrow> thread_task pc = thread_task pc' \<longrightarrow> j = j'"
proof -
  show "\<forall>j pc. th j = Some pc \<longrightarrow> initialised w (thread_task pc)"
    using assms by (fastforce simp: inv_threads_def)
  show "\<forall>j j' pc pc'. th j = Some pc \<longrightarrow> th j' = Some pc' \<longrightarrow> thread_task pc = thread_task pc' \<longrightarrow> j = j'"
  proof (intro allI impI)
    fix j j' pc pc' assume a: "th j = Some pc" "th j' = Some pc'" "thread_task pc = thread_task pc'"
    obtain x where x: "wd_threads w j = Some x" "thread_task x = thread_task pc" using assms(2) [OF a(1)] by blast
    obtain y where y: "wd_threads w j' = Some y" "thread_task y = thread_task pc'" using assms(2) [OF a(2)] by blast
    from x y a(3) assms(1) show "j = j'" unfolding inv_threads_def by auto
  qed
qed

lemma life_loop_inv:
  assumes inv: "life_inv w" and t: "wd_threads w tid = Some (Starting t)"
  shows "\<exists>w'. task_thread_loop tid t w = Some w' \<and> life_inv w'"
proof -
  let ?w = "w\<lparr>wd_running := t_ev_loop (wd_task w t) # wd_running w, wd_started := wd_started w @ [t],
    wd_threads := (wd_threads w)(tid \<mapsto> Looping t)\<rparr>"
  have th: "inv_threads w" using inv by (simp add: life_inv_def)
  have i: "initialised w t" using th t by (force simp: inv_threads_def)
  have none: "wd_threads w i \<noteq> Some (Looping t)" for i
  proof
    assume l: "wd_threads w i = Some (Looping t)"
    with th t have "tid = i" unfolding inv_threads_def by (metis thread_task.simps(2,3))
    with l t show False by simp
  qed
  have new: "t_ev_loop (wd_task w t) \<notin> set (wd_running w)"
  proof
    assume "t_ev_loop (wd_task w t) \<in> set (wd_running w)"
    then obtain u j where u: "wd_threads w j = Some (Looping u)" "t_ev_loop (wd_task w t) = t_ev_loop (wd_task w u)"
      using th by (auto simp: inv_threads_def)
    with th i have "t = u" unfolding inv_threads_def by blast
    with u none show False by blast
  qed
  have same: "initialised ?w = initialised w" by (simp add: initialised_def fun_eq_iff)
  have loops: "wd_threads ?w j = Some (Looping u) \<longleftrightarrow> wd_threads w j = Some (Looping u) \<or> j = tid \<and> u = t" for j u
    using t by auto
  have fresh: "t \<notin> set (wd_started w)" using th none by (auto simp: inv_threads_def)
  have it: "inv_tasks ?w" using inv unfolding life_inv_def inv_tasks_def same by simp
  have sub: "wd_threads ?w j = Some pc \<Longrightarrow> \<exists>pc'. wd_threads w j = Some pc' \<and> thread_task pc' = thread_task pc" for j pc
    using t by (auto split: if_splits)
  note threads_refine [of w "wd_threads ?w", OF th sub]
  moreover have "set (wd_running ?w) = {t_ev_loop (wd_task ?w u) | u j. wd_threads ?w j = Some (Looping u)}"
    unfolding loops using th by (auto simp: inv_threads_def)
  moreover have "\<forall>j u. wd_threads ?w j = Some (Starting u) \<or> wd_threads ?w j = Some (Looping u) \<longrightarrow> wd_self ?w j = u"
    using th t by (auto simp: inv_threads_def)
  moreover have "set (wd_started ?w) = {u. \<exists>j. wd_threads ?w j = Some (Looping u)} \<and> distinct (wd_started ?w)"
    unfolding loops using th fresh by (auto simp: inv_threads_def)
  moreover have "\<forall>u v. initialised w u \<longrightarrow> t_ev_loop (wd_task ?w u) = t_ev_loop (wd_task ?w v) \<longrightarrow> u = v"
    using th by (simp add: inv_threads_def)
  ultimately have "inv_threads ?w" unfolding inv_threads_def same by blast
  moreover have "inv_list ?w" by (rule inv_list_keep [of w]) (use inv in \<open>simp_all add: life_inv_def\<close>)
  ultimately show ?thesis using new it by (simp add: life_inv_def task_thread_loop_def Let_def)
qed

lemma life_queue_inv:
  assumes inv: "life_inv w" and t: "initialised w t" and q: "task_step (t_q (wd_task w t)) e q"
    and later: "t \<notin> set (wd_started w) \<Longrightarrow> tk_pc q = Waiting \<and> tk_handled q = []"
  shows "life_inv (set_q t q w)"
proof -
  have "task_reachable (t_q (wd_task w t))" using inv t by (simp add: life_inv_def inv_tasks_def)
  then have "task_reachable q" using q task_reachable.step by blast
  moreover have "inv_list (set_q t q w)"
    by (rule inv_list_keep [of w]) (use inv t in \<open>auto simp: life_inv_def intro!: set_q_other\<close>)
  ultimately show ?thesis using inv t later by (auto simp: life_inv_def intro: set_q_tasks set_q_threads)
qed

lemma life_step_inv:
  assumes inv: "life_inv w" and st: "life_step w w'" and one: "one_init w'"
  shows "life_inv w'"
  using st
proof cases
  case (begin_init t l i)
  then show ?thesis using life_begin_inv [OF inv] one by blast
next
  case (init i pc)
  then show ?thesis using life_init_inv [OF inv init(1)] life_init_undefined [of pc i w] by force
next
  case (run t tid)
  then show ?thesis using life_run_inv [OF inv] by blast
next
  case (enter tid t)
  then show ?thesis using life_enter_inv [OF inv enter(1)] by auto
next
  case (loop tid t)
  then show ?thesis using life_loop_inv [OF inv loop(1)] by auto
next
  case (post t m q)
  then show ?thesis using life_queue_inv [OF inv post(2,3)] task_post_keeps [OF post(3)] inv
    by (simp add: life_inv_def inv_tasks_def)
next
  case (send t n)
  have "life_inv (set_q t ((ev_async_send (t_q (wd_task w t)))\<lparr>tk_unsent := n\<rparr>) w)"
    by (rule life_queue_inv [OF inv send(2) task_step.send [OF send(3)]])
      (use inv in \<open>simp add: life_inv_def inv_tasks_def ev_async_send_def\<close>)
  with send show ?thesis by simp
next
  case (work tid t q)
  then have "initialised w t" "t \<in> set (wd_started w)" using inv by (force simp: life_inv_def inv_threads_def)+
  then show ?thesis using life_queue_inv [OF inv _ work(3)] work by simp
qed

lemma life_start_inv: "world_start w \<Longrightarrow> life_inv w"
  by (auto simp: world_start_def life_inv_def inv_list_def one_init_def inv_tasks_def inv_threads_def initialised_def task_blank_def)

lemma life_reachable_inv: "life_reachable w \<Longrightarrow> life_inv w"
  by (induction rule: life_reachable.induct) (auto intro: life_start_inv life_step_inv)

section \<open>Getting everything run\<close>

text \<open>
  The steps of one thread and of those who have queued a message for its task and not yet sent the wake-up. Nothing
  is posted in them.
\<close>

inductive own_step :: "nat \<Rightarrow> 'm task_world \<Rightarrow> 'm task_world \<Rightarrow> bool" for tid where
  enter: "wd_threads w tid = Some (Created t) \<Longrightarrow> task_thread_enter tid t w = Some w' \<Longrightarrow> own_step tid w w'"
| loop: "wd_threads w tid = Some (Starting t) \<Longrightarrow> task_thread_loop tid t w = Some w' \<Longrightarrow> own_step tid w w'"
| send: "wd_threads w tid = Some pc \<Longrightarrow> tk_unsent (t_q (wd_task w (thread_task pc))) = Suc n \<Longrightarrow>
    own_step tid w (set_q (thread_task pc) ((ev_async_send (t_q (wd_task w (thread_task pc))))\<lparr>tk_unsent := n\<rparr>) w)"
| work: "wd_threads w tid = Some (Looping t) \<Longrightarrow> task_step (t_q (wd_task w t)) Other q \<Longrightarrow> own_step tid w (set_q t q w)"

inductive_cases own_stepE: "own_step tid w w'"

text \<open>What is left to do before the thread rests: two steps to its loop, and the work of its queue.\<close>

fun steps_to_loop :: "thread_pc \<Rightarrow> nat" where
  "steps_to_loop (Created t) = 2"
| "steps_to_loop (Starting t) = 1"
| "steps_to_loop (Looping t) = 0"

definition own_work :: "nat \<Rightarrow> 'm task_world \<Rightarrow> nat" where
  "own_work tid w = (case wd_threads w tid of None \<Rightarrow> 0
     | Some pc \<Rightarrow> steps_to_loop pc + task_work (t_q (wd_task w (thread_task pc))))"

lemma thread_initialised: "life_inv w \<Longrightarrow> wd_threads w tid = Some pc \<Longrightarrow> initialised w (thread_task pc)"
  by (simp add: life_inv_def inv_threads_def)

lemma thread_queue_inv: "life_inv w \<Longrightarrow> wd_threads w tid = Some pc \<Longrightarrow> task_inv (t_q (wd_task w (thread_task pc)))"
  using thread_initialised [of w tid pc] by (simp add: life_inv_def inv_tasks_def task_reachable_inv)

lemma own_step_life: "life_inv w \<Longrightarrow> own_step tid w w' \<Longrightarrow> life_step w w' \<and> wd_inits w' = wd_inits w"
  by (erule own_stepE)
    (auto intro: life_step.enter life_step.loop life_step.send life_step.work dest: thread_initialised
      simp: task_thread_enter_def task_thread_loop_def Let_def split: if_splits)

lemma own_step_inv: "life_inv w \<Longrightarrow> own_step tid w w' \<Longrightarrow> life_inv w'"
  using own_step_life [of w tid w'] life_step_inv [of w w'] by (auto simp: life_inv_def inv_list_def one_init_def)

lemma own_step_progress:
  assumes inv: "life_inv w" and t: "wd_threads w tid = Some pc" and st: "own_step tid w w'"
  shows "\<exists>pc'. wd_threads w' tid = Some pc' \<and> thread_task pc' = thread_task pc
    \<and> tk_posted (t_q (wd_task w' (thread_task pc))) = tk_posted (t_q (wd_task w (thread_task pc)))
    \<and> own_work tid w' < own_work tid w"
proof -
  let ?q = "t_q (wd_task w (thread_task pc))"
  have queue: ?thesis if "w' = set_q (thread_task pc) q w" "task_step ?q Other q" for q
    using task_other_inv [OF thread_queue_inv [OF inv t] that(2)] t that(1) by (simp add: own_work_def)
  from st show ?thesis
  proof (rule own_stepE)
    fix u assume "wd_threads w tid = Some (Created u)" "task_thread_enter tid u w = Some w'"
    with t show ?thesis by (auto simp: task_thread_enter_def own_work_def split: if_splits)
  next
    fix u assume "wd_threads w tid = Some (Starting u)" "task_thread_loop tid u w = Some w'"
    with t show ?thesis by (auto simp: task_thread_loop_def own_work_def Let_def split: if_splits)
  next
    fix pc' n assume "w' = set_q (thread_task pc') ((ev_async_send (t_q (wd_task w (thread_task pc'))))\<lparr>tk_unsent := n\<rparr>) w"
      "wd_threads w tid = Some pc'" "tk_unsent (t_q (wd_task w (thread_task pc'))) = Suc n"
    with t show ?thesis by (intro queue) (auto intro: task_step.send)
  next
    fix u q assume "w' = set_q u q w" "wd_threads w tid = Some (Looping u)" "task_step (t_q (wd_task w u)) Other q"
    with t show ?thesis by (intro queue) auto
  qed
qed

text \<open>A thread that cannot step is in its loop and has run everything.\<close>

lemma own_rest:
  assumes inv: "life_inv w" and t: "wd_threads w tid = Some pc" and stuck: "\<nexists>w'. own_step tid w w'"
  shows "wd_threads w tid = Some (Looping (thread_task pc))
    \<and> tk_handled (t_q (wd_task w (thread_task pc))) = tk_posted (t_q (wd_task w (thread_task pc)))"
proof (cases pc)
  case (Created u)
  with life_enter_inv [OF inv] t stuck own_step.enter show ?thesis by blast
next
  case (Starting u)
  with life_loop_inv [OF inv] t stuck own_step.loop show ?thesis by blast
next
  case (Looping u)
  with task_progress [OF thread_queue_inv [OF inv t]] t stuck own_step.work show ?thesis by force
qed

lemma own_steps_keep:
  assumes "(own_step tid)\<^sup>*\<^sup>* w w'" "life_inv w" "wd_threads w tid = Some pc"
  shows "life_inv w' \<and> (\<exists>pc'. wd_threads w' tid = Some pc' \<and> thread_task pc' = thread_task pc)
    \<and> tk_posted (t_q (wd_task w' (thread_task pc))) = tk_posted (t_q (wd_task w (thread_task pc)))"
  using assms
proof (induction rule: rtranclp_induct)
  case (step y z)
  then obtain pc' where y: "life_inv y" "wd_threads y tid = Some pc'" "thread_task pc' = thread_task pc" by blast
  from own_step_progress [OF y(1,2) step(2)] own_step_inv [OF y(1) step(2)] y(3) step show ?case by auto
qed auto

section \<open>Starting tasks one after the other\<close>

text \<open>A reachable world with its tasks in the order of their initialisation, and the loops in use.\<close>

definition world_ready :: "'m task_world \<Rightarrow> ptr list \<Rightarrow> bool" where
  "world_ready w ts \<longleftrightarrow> life_reachable w \<and> wd_inits w = Map.empty \<and> dlist (wd_heap w) (wd_head w) ts \<and> set ts = {t. initialised w t}"

definition loops_of :: "'m task_world \<Rightarrow> ptr set" where
  "loops_of w = range (\<lambda>u. t_ev_loop (wd_task w u))"

lemma task_run_simps [simp]:
  "wd_task (task_run tid t w) = wd_task w" "wd_heap (task_run tid t w) = wd_heap w" "wd_head (task_run tid t w) = wd_head w"
  "initialised (task_run tid t w) = initialised w" "loops_of (task_run tid t w) = loops_of w"
  "wd_threads (task_run (Some i) t w) = (wd_threads w)(i \<mapsto> Created t)" "wd_inits (task_run tid t w) = wd_inits w"
  by (cases tid; simp add: task_run_def initialised_def loops_of_def fun_eq_iff)+

text \<open>The steps of an initialisation, taken without interruption, are \<open>task_init\<close>.\<close>

lemma init_do_keeps: "init_do pc w = Some (w', nxt) \<Longrightarrow> wd_inits w' = wd_inits w"
  by (auto simp: init_do_def task_prepare_loop_def set_task_def Let_def split: init_point.splits bind_splits if_splits)

lemma init_reach:
  assumes "life_reachable w" "wd_inits w = [i \<mapsto> pc]" "init_do pc w = Some (w', nxt)"
  shows "life_reachable (w'\<lparr>wd_inits := Map.empty(i := nxt)\<rparr>)"
proof -
  have "init_step i pc w = Some (w'\<lparr>wd_inits := Map.empty(i := nxt)\<rparr>)"
    using assms(2,3) init_do_keeps [OF assms(3)] by (simp add: init_step_def)
  then have "life_step w (w'\<lparr>wd_inits := Map.empty(i := nxt)\<rparr>)" using assms(2) by (intro life_step.init) auto
  then show ?thesis by (rule life_reachable.step [OF assms(1)]) (simp add: one_init_def)
qed

lemma task_init_reachable:
  assumes w: "life_reachable w" "wd_inits w = Map.empty" and new: "\<not> initialised w t" "t \<noteq> NULL" "t \<noteq> wd_head w" "new_loop w l"
    and r: "task_init None l t w = Some (w', r)"
  shows "life_reachable w' \<and> wd_inits w' = Map.empty"
proof -
  let ?W = "\<lambda>h x pt. w\<lparr>wd_heap := h, wd_task := x, wd_inits := [0 \<mapsto> \<lparr>in_task = t, in_loop = l, in_step = pt\<rparr>]\<rparr>"
  let ?P = "\<lambda>pt. \<lparr>in_task = t, in_loop = l, in_step = pt\<rparr>" and ?head = "wd_head w"
  obtain h1 p h2 h3 h4 h5 q where
    h: "init_list_head (wd_heap w) t = Some h1" "rd_prev h1 ?head = Some p" "wr_prev h1 ?head t = Some h2"
      "wr_next h2 t ?head = Some h3" "wr_prev h3 t p = Some h4" "wr_next h4 p t = Some h5" and
    q: "task_queue_init (t_q (wd_task w t)) = Some q" and l: "l \<noteq> NULL" and
    w': "w' = w\<lparr>wd_heap := h5, wd_task := (wd_task w)(t := (wd_task w t)\<lparr>t_ev_loop := l, t_q := q\<lparr>tk_noti := False\<rparr>, t_noti_active := True\<rparr>)\<rparr>"
    using r by (auto simp: task_init_def task_init_common_def list_add_tail_def list_add_between_def task_prepare_loop_def
        call_back_def set_task_def Let_def split: bind_splits if_splits)
  have "life_step w (init_begin 0 t l w)"
    by (rule life_step.begin_init) (use w(2) new in \<open>simp_all add: initialising_def\<close>)
  then have "life_reachable (init_begin 0 t l w)"
    by (rule life_reachable.step [OF w(1)]) (simp add: one_init_def init_begin_def w(2))
  then have "life_reachable (?W (wd_heap w) (wd_task w) Beginning)" by (simp add: init_begin_def w(2))
  from init_reach [OF this, of 0 "?P Beginning" "?W h1 (wd_task w) Beginning" "Some (?P Adding)"] h(1)
  have "life_reachable (?W h1 (wd_task w) Adding)" by (simp add: init_do_def)
  from init_reach [OF this, of 0 "?P Adding" "?W h1 (wd_task w) Adding" "Some (?P (Linking 0 p))"] h(2)
  have "life_reachable (?W h1 (wd_task w) (Linking 0 p))" by (simp add: init_do_def)
  from init_reach [OF this, of 0 "?P (Linking 0 p)" "?W h2 (wd_task w) (Linking 0 p)" "Some (?P (Linking (Suc 0) p))"] h(3)
  have "life_reachable (?W h2 (wd_task w) (Linking (Suc 0) p))" by (simp add: init_do_def)
  from init_reach [OF this, of 0 "?P (Linking (Suc 0) p)" "?W h3 (wd_task w) (Linking (Suc 0) p)" "Some (?P (Linking (Suc (Suc 0)) p))"] h(4)
  have "life_reachable (?W h3 (wd_task w) (Linking (Suc (Suc 0)) p))" by (simp add: init_do_def)
  from init_reach [OF this, of 0 "?P (Linking (Suc (Suc 0)) p)" "?W h4 (wd_task w) (Linking (Suc (Suc 0)) p)" "Some (?P (Linking (Suc (Suc (Suc 0))) p))"] h(5)
  have "life_reachable (?W h4 (wd_task w) (Linking (Suc (Suc (Suc 0))) p))" by (simp add: init_do_def)
  from init_reach [OF this, of 0 "?P (Linking (Suc (Suc (Suc 0))) p)" "?W h5 (wd_task w) (Linking (Suc (Suc (Suc 0))) p)" "Some (?P Queueing)"] h(6)
  have "life_reachable (?W h5 (wd_task w) Queueing)" by (simp add: init_do_def)
  from init_reach [OF this, of 0 "?P Queueing" "?W h5 ((wd_task w)(t := (wd_task w t)\<lparr>t_q := q\<rparr>)) Queueing" "Some (?P Preparing)"] q
  have "life_reachable (?W h5 ((wd_task w)(t := (wd_task w t)\<lparr>t_q := q\<rparr>)) Preparing)"
    by (simp add: init_do_def set_task_def)
  from init_reach [OF this, of 0 "?P Preparing" "w'\<lparr>wd_inits := [0 \<mapsto> ?P Preparing]\<rparr>" None] l
  have "life_reachable (w'\<lparr>wd_inits := Map.empty\<rparr>)"
    by (simp add: init_do_def set_task_def task_prepare_loop_def Let_def w')
  moreover have i: "wd_inits w' = Map.empty" using w(2) by (simp add: w')
  have "w'\<lparr>wd_inits := Map.empty\<rparr> = w'" unfolding i [symmetric] by simp
  ultimately show ?thesis using i by (simp only: simp_thms)
qed

lemma ready_init:
  assumes w: "world_ready w ts" and t: "t \<notin> set (wd_head w # ts)" "t \<noteq> NULL" and l: "l \<noteq> NULL" "l \<notin> loops_of w"
  shows "\<exists>w'. task_init None l t w = Some (w', 0) \<and> world_ready w' (ts @ [t]) \<and> loops_of w' \<subseteq> insert l (loops_of w)
    \<and> wd_threads w' = wd_threads w \<and> wd_head w' = wd_head w"
proof -
  have d: "dlist (wd_heap w) (wd_head w) ts" and n: "\<not> initialised w t" using w t(1) by (auto simp: world_ready_def)
  then have blank: "task_blank (wd_task w t)" using life_reachable_inv [of w] w by (simp add: world_ready_def life_inv_def inv_tasks_def)
  have u: "new_loop w l" using l(2) w by (auto simp: loops_of_def new_loop_def world_ready_def)
  obtain h q where r: "task_init None l t w = Some (w\<lparr>wd_heap := h, wd_task := (wd_task w)(t := (wd_task w t)\<lparr>t_ev_loop := l, t_q := q, t_noti_active := True\<rparr>)\<rparr>, 0)"
      "dlist h (wd_head w) (ts @ [t])"
    using task_init_spec [OF blank t(2,1) d l(1)] by auto
  let ?w = "w\<lparr>wd_heap := h, wd_task := (wd_task w)(t := (wd_task w t)\<lparr>t_ev_loop := l, t_q := q, t_noti_active := True\<rparr>)\<rparr>"
  have "life_reachable ?w \<and> wd_inits ?w = Map.empty"
    by (rule task_init_reachable [OF _ _ n t(2) _ u r(1)]) (use w t(1) in \<open>auto simp: world_ready_def\<close>)
  then have "world_ready ?w (ts @ [t])" using w r(2) l(1) by (auto simp: world_ready_def initialised_def)
  moreover have "loops_of ?w \<subseteq> insert l (loops_of w)" by (auto simp: loops_of_def)
  ultimately show ?thesis using r(1) by auto
qed

lemma ready_run:
  assumes "world_ready w ts" "t \<in> set ts" "wd_threads w i = None" "\<not> has_thread w t"
  shows "world_ready (task_run (Some i) t w) ts"
  using assms life_reachable.step [OF _ life_step.run, of w t i] by (auto simp: world_ready_def one_init_def)

lemma ready_run_no_thread:
  assumes w: "world_ready w ts" "t \<in> set ts" "wd_threads w i = None" "\<not> has_thread w t" and cb: "cb = None \<or> cb = Some (\<lambda>_ w. Some w)"
  shows "\<exists>w'. task_run_no_thread cb i t w = Some w' \<and> world_ready w' ts
    \<and> wd_threads w' = (wd_threads w)(i \<mapsto> Looping t) \<and> wd_head w' = wd_head w"
proof -
  let ?c = "task_run (Some i) t w"
  have r: "life_reachable ?c" and c: "wd_threads ?c i = Some (Created t)" using ready_run [OF w] by (simp_all add: world_ready_def)
  obtain w1 where w1: "task_thread_enter i t ?c = Some w1" using life_enter_inv [OF life_reachable_inv [OF r] c] by blast
  have i1: "wd_inits w1 = Map.empty" using w1 w(1) by (auto simp: task_thread_enter_def world_ready_def split: if_splits)
  have r1: "life_reachable w1" by (rule life_reachable.step [OF r life_step.enter [OF c w1]]) (simp add: one_init_def i1)
  have s: "wd_threads w1 i = Some (Starting t)" using w1 by (auto simp: task_thread_enter_def split: if_splits)
  obtain w2 where w2: "task_thread_loop i t w1 = Some w2" using life_loop_inv [OF life_reachable_inv [OF r1] s] by blast
  have i2: "wd_inits w2 = Map.empty" using w2 i1 by (auto simp: task_thread_loop_def Let_def split: if_splits)
  have r2: "life_reachable w2" by (rule life_reachable.step [OF r1 life_step.loop [OF s w2]]) (simp add: one_init_def i2)
  have "task_thread_enter i t w = Some w1"
    using w1 by (auto simp: task_thread_enter_def task_run_def split: if_splits)
  moreover have "wd_threads w2 = (wd_threads w)(i \<mapsto> Looping t)" "wd_heap w2 = wd_heap w" "wd_head w2 = wd_head w" "wd_task w2 = wd_task w"
    using w1 w2 by (auto simp: task_thread_enter_def task_thread_loop_def Let_def split: if_splits)
  ultimately show ?thesis using r2 i2 w(1) w2 cb
    by (auto simp: task_run_no_thread_def task_start_routine_def call_back_def world_ready_def initialised_def)
qed

text \<open>The idle task, initialised last on the default loop, keeps the first thread.\<close>

lemma idle_task_starts:
  assumes w: "world_ready w ts" and t: "t \<notin> set (wd_head w # ts)" "t \<noteq> NULL" and l: "l \<noteq> NULL" "l \<notin> loops_of w"
    and i: "wd_threads w i = None"
  shows "\<exists>w'. idle_task_run l i t w = Some w' \<and> world_ready w' (ts @ [t]) \<and> wd_threads w' = (wd_threads w)(i \<mapsto> Looping t)"
proof -
  obtain w1 where w1: "task_init None l t w = Some (w1, 0)" "world_ready w1 (ts @ [t])" "wd_threads w1 = wd_threads w"
    using ready_init [OF w t l] by blast
  have "initialised w (thread_task pc)" if "wd_threads w j = Some pc" for j pc
    using that life_reachable_inv [of w] w by (auto simp: world_ready_def life_inv_def inv_threads_def)
  then have "\<not> has_thread w1 t" using w t(1) w1(3) by (auto simp: has_thread_def world_ready_def)
  then have "\<exists>w2. task_run_no_thread None i t w1 = Some w2 \<and> world_ready w2 (ts @ [t]) \<and> wd_threads w2 = (wd_threads w1)(i \<mapsto> Looping t)"
    using ready_run_no_thread [OF w1(2), of t i None] w1(3) i by auto
  then obtain w2 where "task_run_no_thread None i t w1 = Some w2" "world_ready w2 (ts @ [t])" "wd_threads w2 = (wd_threads w1)(i \<mapsto> Looping t)"
    by blast
  with w1 show ?thesis by (simp add: idle_task_run_def task_init_main_def task_init_def)
qed

section \<open>Two initialisations at once\<close>

text \<open>
  Executable: the initialisations in progress take single steps in the order of a schedule.
\<close>

definition init_schedule :: "nat list \<Rightarrow> 'm task_world \<Rightarrow> 'm task_world option" where
  "init_schedule is w = foldo (\<lambda>w i. case wd_inits w i of None \<Rightarrow> None | Some pc \<Rightarrow> init_step i pc w) w is"

lemma init_schedule_steps: "init_schedule is w = Some w' \<Longrightarrow> life_step\<^sup>*\<^sup>* w w'"
proof (induction "is" arbitrary: w)
  case (Cons i "is")
  then obtain w1 pc where "wd_inits w i = Some pc" "init_step i pc w = Some w1" "init_schedule is w1 = Some w'"
    by (auto simp: init_schedule_def split: bind_splits option.splits)
  with Cons.IH [of w1] life_step.init show ?case by (metis converse_rtranclp_into_rtranclp)
qed (simp add: init_schedule_def)

text \<open>A world whose list head is at address 10, before anything is initialised.\<close>

definition sample_world :: "nat task_world" where
  "sample_world = \<lparr>wd_key = True, wd_heap = \<lparr>lh_next = (\<lambda>_. 0)(10 := 10), lh_prev = (\<lambda>_. 0)(10 := 10)\<rparr>, wd_head = 10,
     wd_task = (\<lambda>_. \<lparr>t_q = idle_task_sys, t_ev_loop = NULL, t_noti_active = False\<rparr>),
     wd_self = (\<lambda>_. NULL), wd_threads = Map.empty, wd_inits = Map.empty, wd_running = [], wd_started = []\<rparr>"

lemma sample_world_start: "world_start sample_world"
proof -
  have "dlist (wd_heap sample_world) 10 []" by (simp add: dlist_def sample_world_def)
  then show ?thesis by (simp add: world_start_def sample_world_def task_blank_def idle_task_sys_def)
qed

text \<open>
  Two threads that read the tail of the list before either has linked its task: both initialisations return, and only
  the second task is in the list.
\<close>

lemma overlapping_inits_lose_a_task:
  "\<exists>w. life_step\<^sup>*\<^sup>* sample_world w \<and> initialised w 20 \<and> initialised w 30 \<and> wd_inits w = Map.empty
    \<and> dlist (wd_heap w) (wd_head w) [30]"
proof -
  let ?w0 = "init_begin 0 20 5 sample_world" and ?w1 = "init_begin 1 30 6 (init_begin 0 20 5 sample_world)"
  have "life_step sample_world ?w0"
    by (rule life_step.begin_init) (simp_all add: sample_world_def initialised_def initialising_def new_loop_def)
  moreover have "life_step ?w0 ?w1"
    by (rule life_step.begin_init)
      (auto simp: sample_world_def initialised_def initialising_def new_loop_def init_begin_def split: if_splits)
  moreover obtain w where w: "init_schedule [0, 1, 0, 1, 0, 0, 0, 0, 1, 1, 1, 1, 0, 0, 1, 1] ?w1 = Some w"
    "initialised w 20" "initialised w 30" "wd_inits w = Map.empty" "dlist (wd_heap w) (wd_head w) [30]"
    by (simp add: init_schedule_def init_step_def init_do_def init_begin_def sample_world_def init_list_head_def heap_access_defs
        task_queue_init_def idle_task_sys_def set_task_def task_prepare_loop_def initialised_def dlist_def fun_eq_iff Let_def)
  ultimately show ?thesis using init_schedule_steps [OF w(1)] by (meson converse_rtranclp_into_rtranclp)
qed

section \<open>Properties\<close>

text \<open>
  C13: From the start of the framework, whatever threads initialise, run and post to tasks and however their single
  steps interleave, as long as no two initialisations overlap (the list of tasks has no lock, and overlapping ones do
  lose a task): the list holds exactly the initialised tasks whenever no initialisation is in progress, and with the task
  being initialised, or as its writes so far leave it, when one is; the next step of an initialisation is undefined exactly
  when \<open>ev_loop_new\<close> answered NULL and \<open>task_prepare_loop\<close> is next; no thread waits with an undefined step before it; a
  thread in a task's loop has that task as its \<open>task_self\<close> and no other thread runs that loop; no message of a task is
  run before its \<open>start\<close> callback has returned, and the callback runs once; and every queue delivers in order.
\<close>

theorem task_startup_safe:
  assumes "life_reachable w"
  shows "(\<exists>ts. set ts = {t. initialised w t} \<and> (wd_inits w = Map.empty \<longrightarrow> dlist (wd_heap w) (wd_head w) ts)
      \<and> (\<forall>i pc. wd_inits w i = Some pc \<longrightarrow> in_task pc \<notin> set ts
          \<and> listed (wd_heap w) (wd_head w) ts (in_task pc) (in_step pc)))
    \<and> (\<forall>i pc. wd_inits w i = Some pc \<longrightarrow> (init_step i pc w = None \<longleftrightarrow> in_step pc = Preparing \<and> in_loop pc = NULL))
    \<and> (\<forall>tid t. wd_threads w tid = Some (Created t) \<longrightarrow> task_thread_enter tid t w \<noteq> None)
    \<and> (\<forall>tid t. wd_threads w tid = Some (Starting t) \<longrightarrow> task_thread_loop tid t w \<noteq> None)
    \<and> (\<forall>tid t. wd_threads w tid = Some (Looping t) \<longrightarrow> task_self tid w = Some t \<and> t \<in> set (wd_started w))
    \<and> (\<forall>tid tid' t. wd_threads w tid = Some (Looping t) \<longrightarrow> wd_threads w tid' = Some (Looping t) \<longrightarrow> tid = tid')
    \<and> (\<forall>t. t \<in> set (wd_started w) \<or> tk_handled (t_q (wd_task w t)) = []) \<and> distinct (wd_started w)
    \<and> (\<forall>t. initialised w t \<longrightarrow> prefix (tk_handled (t_q (wd_task w t))) (tk_posted (t_q (wd_task w t))))"
proof -
  have inv: "life_inv w" using life_reachable_inv [OF assms] .
  then have lst: "inv_list w" and tasks: "inv_tasks w" and threads: "inv_threads w" by (simp_all add: life_inv_def)
  have order: "prefix (tk_handled (t_q (wd_task w t))) (tk_posted (t_q (wd_task w t)))" if i: "initialised w t" for t
  proof -
    have r: "task_reachable (t_q (wd_task w t))" using tasks i by (simp add: inv_tasks_def)
    show ?thesis by (rule reachable_in_order [OF r])
  qed
  have self: "task_self tid w = Some t \<and> t \<in> set (wd_started w)" if "wd_threads w tid = Some (Looping t)" for tid t
    using tasks threads that by (auto simp: task_self_def inv_tasks_def inv_threads_def)
  have one: "tid = tid'" if "wd_threads w tid = Some (Looping t)" "wd_threads w tid' = Some (Looping t)" for tid tid' t
    using threads that unfolding inv_threads_def by blast
  have list: "\<exists>ts. set ts = {t. initialised w t} \<and> (wd_inits w = Map.empty \<longrightarrow> dlist (wd_heap w) (wd_head w) ts)
      \<and> (\<forall>i pc. wd_inits w i = Some pc \<longrightarrow> in_task pc \<notin> set ts \<and> listed (wd_heap w) (wd_head w) ts (in_task pc) (in_step pc))"
    using lst unfolding inv_list_def init_ok_def by blast
  have init: "init_step i pc w = None \<longleftrightarrow> in_step pc = Preparing \<and> in_loop pc = NULL" if "wd_inits w i = Some pc" for i pc
    using life_init_inv [OF inv that] life_init_undefined [of pc i w] by force
  have quiet: "t \<in> set (wd_started w) \<or> tk_handled (t_q (wd_task w t)) = []" for t using tasks by (auto simp: inv_tasks_def)
  have "distinct (wd_started w)" using threads by (simp add: inv_threads_def)
  with list init life_enter_inv [OF inv] life_loop_inv [OF inv] self one quiet order show ?thesis
    by (intro conjI) (blast | fastforce)+
qed

text \<open>
  C30: Nothing posted to a task is lost to its start: once a thread was created for it, and if nothing more is posted to
  it, let the thread and the senders take whatever steps they can: each brings them closer to the end (a measure
  decreases), and when no step is left the thread is in its loop and has run every message posted so far, also those
  posted before the thread ran.
\<close>

theorem task_start_runs_posted:
  assumes "life_reachable w" "wd_threads w tid = Some pc" "(own_step tid)\<^sup>*\<^sup>* w w'"
  shows "tk_posted (t_q (wd_task w' (thread_task pc))) = tk_posted (t_q (wd_task w (thread_task pc)))
    \<and> (\<forall>w''. own_step tid w' w'' \<longrightarrow> own_work tid w'' < own_work tid w')
    \<and> ((\<nexists>w''. own_step tid w' w'') \<longrightarrow> wd_threads w' tid = Some (Looping (thread_task pc))
        \<and> tk_handled (t_q (wd_task w' (thread_task pc))) = tk_posted (t_q (wd_task w (thread_task pc))))"
proof -
  from own_steps_keep [OF assms(3) life_reachable_inv [OF assms(1)] assms(2)] obtain pc' where
    w': "life_inv w'" "wd_threads w' tid = Some pc'" "thread_task pc' = thread_task pc"
      "tk_posted (t_q (wd_task w' (thread_task pc))) = tk_posted (t_q (wd_task w (thread_task pc)))" by blast
  have "own_work tid w'' < own_work tid w'" if "own_step tid w' w''" for w''
    using own_step_progress [OF w'(1,2) that] by blast
  with own_rest [OF w'(1,2)] w'(3,4) show ?thesis by auto
qed

text \<open>One task, to which a message is posted before its thread runs.\<close>

lemma one_task_world:
  obtains w :: "nat task_world" where "life_reachable w" "wd_threads w 0 = Some (Created 20)" "tk_posted (t_q (wd_task w 20)) = [7]"
proof -
  have r: "life_reachable sample_world" by (rule life_reachable.start [OF sample_world_start])
  have d: "dlist (wd_heap sample_world) (wd_head sample_world) []" using sample_world_start by (simp add: world_start_def)
  have blank: "task_blank (wd_task sample_world 20)" using sample_world_start by (simp add: world_start_def)
  have head: "wd_head sample_world = 10" by (simp add: sample_world_def)
  obtain w1 h q where w1: "task_init None 5 20 sample_world = Some (w1, 0)" "task_start q"
      "w1 = sample_world\<lparr>wd_heap := h, wd_task := (wd_task sample_world)(20 := (wd_task sample_world 20)\<lparr>t_ev_loop := 5, t_q := q, t_noti_active := True\<rparr>)\<rparr>"
    using task_init_spec [OF blank _ _ d, of 5] head by auto
  have r1: "life_reachable w1" and i0: "wd_inits w1 = Map.empty"
    using task_init_reachable [OF r _ _ _ _ _ w1(1)] by (simp_all add: sample_world_def initialised_def new_loop_def)
  have i1: "initialised w1 20" by (simp add: w1(3) initialised_def)
  have q: "t_q (wd_task w1 20) = q" by (simp add: w1(3))
  let ?m = "Suc (tk_msgs q + tk_tmp q)"
  have "task_inv q" using task_start_inv [OF w1(2)] .
  then obtain ts qs where rep: "task_rep q ts qs" by (auto simp: task_inv_def)
  have fresh: "fresh_block q ?m" using w1(2) by (simp add: fresh_block_def task_start_def)
  obtain q1 where q1: "task_notify_queue ?m 7 q = Some q1" "tk_posted q1 = tk_posted q @ [7]"
    using task_notify_queue_spec [OF rep fresh, of 7] by blast
  have "life_step w1 (set_q 20 (q1\<lparr>tk_unsent := Suc (tk_unsent q1)\<rparr>) w1)"
    using life_step.post [OF i1, of 7] task_step.post [OF fresh q1(1)] q by simp
  with r1 have r2: "life_reachable (set_q 20 (q1\<lparr>tk_unsent := Suc (tk_unsent q1)\<rparr>) w1)"
    by (rule life_reachable.step) (simp add: one_init_def i0)
  let ?w = "set_q 20 (q1\<lparr>tk_unsent := Suc (tk_unsent q1)\<rparr>) w1"
  have "wd_threads w1 = Map.empty" by (simp add: w1(3) sample_world_def)
  then have "life_step ?w (task_run (Some 0) 20 ?w)"
    using i1 by (intro life_step.run) (simp_all add: has_thread_def)
  with r2 have "life_reachable (task_run (Some 0) 20 ?w)"
    by (rule life_reachable.step) (simp add: one_init_def i0)
  then show thesis by (rule that) (use q1(2) w1(2) in \<open>simp_all add: task_run_def task_start_def\<close>)
qed

theorem task_startup_safe_witness:
  "\<exists>w. wd_threads w 0 = Some (Created 20) \<and> task_thread_enter 0 20 (w :: nat task_world) \<noteq> None"
proof -
  obtain w :: "nat task_world" where w: "life_reachable w" "wd_threads w 0 = Some (Created 20)" by (rule one_task_world)
  with task_startup_safe [OF w(1)] show ?thesis by blast
qed

theorem task_start_runs_posted_witness:
  "\<exists>w w'. tk_posted (t_q (wd_task w 20)) = [7] \<and> (own_step 0)\<^sup>*\<^sup>* w w' \<and> (\<nexists>w''. own_step 0 w' w'')
    \<and> tk_handled (t_q (wd_task (w' :: nat task_world) 20)) = [7]"
proof -
  obtain w :: "nat task_world" where w: "life_reachable w" "wd_threads w 0 = Some (Created 20)" "tk_posted (t_q (wd_task w 20)) = [7]"
    by (rule one_task_world)
  note ends = task_start_runs_posted [OF w(1,2)]
  have "\<exists>w'. (own_step 0)\<^sup>*\<^sup>* w w' \<and> (\<nexists>w''. own_step 0 w' w'')"
  proof (rule ccontr)
    assume "\<nexists>w'. (own_step 0)\<^sup>*\<^sup>* w w' \<and> (\<nexists>w''. own_step 0 w' w'')"
    then have more: "\<exists>w''. own_step 0 w' w''" if "(own_step 0)\<^sup>*\<^sup>* w w'" for w' using that by blast
    have "(own_step 0)\<^sup>*\<^sup>* w w' \<Longrightarrow> False" for w'
    proof (induction "own_work 0 w'" arbitrary: w' rule: less_induct)
      case less
      from more [OF less.prems] obtain w'' where "own_step 0 w' w''" by blast
      with less ends [OF less.prems] show ?case by (meson rtranclp.rtrancl_into_rtrancl)
    qed
    then show False by blast
  qed
  then obtain w' where w': "(own_step 0)\<^sup>*\<^sup>* w w'" "\<nexists>w''. own_step 0 w' w''" by blast
  with ends [OF w'(1)] w(3) show ?thesis by auto
qed

end
