(* ===== verification/Self_Test.thy ===== *)
theory Self_Test
  imports Task_Start Task_Timer
begin

text \<open>
  \<open>src/main.c\<close>: the message order self-test. Two tasks send each other numbered messages from their timers, and
  a receiver that sees any but the next number ends the process. Each direction is a \<open>link\<close>: the receiver's
  queue, the sender's next number and the receiver's expected one. The third task only logs.
\<close>

section \<open>State and operations\<close>

type_synonym ulong = "64 word"

record link =
  lk_q :: "ulong task_sys"
  lk_next :: ulong
  lk_expected :: ulong

record self_test =
  st_t1 :: link
  st_t2 :: link
  st_tmr1 :: task_timer
  st_tmr2 :: task_timer
  st_tmr3 :: task_timer
  st_exited :: bool

definition message_to_t1 :: "ulong \<Rightarrow> self_test \<Rightarrow> self_test" where
  "message_to_t1 n s =
     (if n \<noteq> lk_expected (st_t1 s) then s\<lparr>st_exited := True\<rparr>
      else s\<lparr>st_t1 := (st_t1 s)\<lparr>lk_expected := n + 1\<rparr>\<rparr>)"

definition message_to_t2 :: "ulong \<Rightarrow> self_test \<Rightarrow> self_test" where
  "message_to_t2 n s =
     (if n \<noteq> lk_expected (st_t2 s) then s\<lparr>st_exited := True\<rparr>
      else s\<lparr>st_t2 := (st_t2 s)\<lparr>lk_expected := n + 1\<rparr>\<rparr>)"

text \<open>\<open>m\<close> is the block \<open>malloc\<close> returns; the result of \<open>task_notify\<close> is ignored.\<close>

definition send_message_to_t1 :: "ptr \<Rightarrow> self_test \<Rightarrow> self_test option" where
  "send_message_to_t1 m s = do {
     (q, _) \<leftarrow> task_notify m (lk_next (st_t1 s)) (lk_q (st_t1 s));
     Some (s\<lparr>st_t1 := (st_t1 s)\<lparr>lk_q := q, lk_next := lk_next (st_t1 s) + 1\<rparr>\<rparr>) }"

definition send_message_to_t2 :: "ptr \<Rightarrow> self_test \<Rightarrow> self_test option" where
  "send_message_to_t2 m s = do {
     (q, _) \<leftarrow> task_notify m (lk_next (st_t2 s)) (lk_q (st_t2 s));
     Some (s\<lparr>st_t2 := (st_t2 s)\<lparr>lk_q := q, lk_next := lk_next (st_t2 s) + 1\<rparr>\<rparr>) }"

text \<open>The timers' callbacks, given the blocks of the messages; the third one only logs.\<close>

definition t1_timeout :: "(nat \<Rightarrow> ptr) \<Rightarrow> self_test \<Rightarrow> self_test option" where
  "t1_timeout ms s = foldo (\<lambda>s i. send_message_to_t2 (ms i) s) s [0..<12310]"

definition t2_timeout :: "(nat \<Rightarrow> ptr) \<Rightarrow> self_test \<Rightarrow> self_test option" where
  "t2_timeout ms s = foldo (\<lambda>s i. send_message_to_t1 (ms i) s) s [0..<4000]"

definition t3_timeout :: "self_test \<Rightarrow> self_test" where
  "t3_timeout s = s"

definition t1_start :: "self_test \<Rightarrow> self_test" where
  "t1_start s = s\<lparr>st_tmr1 := task_timer_start task_timer_init (1 / 1000) (1 / 1000)\<rparr>"

definition t2_start :: "self_test \<Rightarrow> self_test" where
  "t2_start s = s\<lparr>st_tmr2 := task_timer_start task_timer_init (1 / 1000) (1 / 1000)\<rparr>"

definition t3_start :: "self_test \<Rightarrow> self_test" where
  "t3_start s = s\<lparr>st_tmr3 := task_timer_start task_timer_init 1 1\<rparr>"

text \<open>
  \<open>main\<close> up to the loop of the first task. What \<open>t1_start\<close> does, with a timer, is no part of the tasks' world.
\<close>

record main_answers =
  ma_log_loop :: ptr
  ma_default_loop :: ptr
  ma_loop2 :: ptr
  ma_loop3 :: ptr
  ma_log_thread :: "nat option"
  ma_thread2 :: "nat option"
  ma_thread3 :: "nat option"

definition self_test_main ::
    "main_answers \<Rightarrow> nat \<Rightarrow> ptr \<times> ptr \<times> ptr \<times> ptr \<Rightarrow> ptr list \<Rightarrow> 'm task_world \<times> item_pool \<Rightarrow> ('m task_world \<times> item_pool) option" where
  "self_test_main a self tasks buffers s = (case tasks of (log_task, t1, t2, t3) \<Rightarrow> do {
     (w, pool) \<leftarrow> kongja_express_init (ma_log_loop a) (ma_log_thread a) log_task buffers s;
     (w, _) \<leftarrow> task_init_main None (ma_default_loop a) t1 w;
     (w, _) \<leftarrow> task_init None (ma_loop2 a) t2 w;
     (w, _) \<leftarrow> task_init None (ma_loop3 a) t3 w;
     let w = task_run (ma_thread2 a) t2 w;
     let w = task_run (ma_thread3 a) t3 w;
     w \<leftarrow> task_run_no_thread (Some (\<lambda>_ w. Some w)) self t1 w;
     Some (w, pool) })"

section \<open>What can happen\<close>

text \<open>
  The steps of both queues interleave. A timer callback's \<open>send_message\<close> queues the next number or, when
  \<open>malloc\<close> fails, only counts it; its wake-up is a step of the queue. Running a message runs its handler.
\<close>

definition newly_handled :: "'m task_sys \<Rightarrow> 'm task_sys \<Rightarrow> 'm list" where
  "newly_handled q q' = drop (length (tk_handled q)) (tk_handled q')"

inductive self_step :: "bool \<Rightarrow> self_test \<Rightarrow> self_test \<Rightarrow> bool" for lossy where
  send1: "\<not> st_exited s \<Longrightarrow> task_step (lk_q (st_t1 s)) (Post (lk_next (st_t1 s))) q \<Longrightarrow>
    self_step lossy s (s\<lparr>st_t1 := (st_t1 s)\<lparr>lk_q := q, lk_next := lk_next (st_t1 s) + 1\<rparr>\<rparr>)"
| lose1: "\<not> st_exited s \<Longrightarrow> lossy \<Longrightarrow> self_step lossy s (s\<lparr>st_t1 := (st_t1 s)\<lparr>lk_next := lk_next (st_t1 s) + 1\<rparr>\<rparr>)"
| work1: "\<not> st_exited s \<Longrightarrow> task_step (lk_q (st_t1 s)) Other q \<Longrightarrow>
    self_step lossy s (fold message_to_t1 (newly_handled (lk_q (st_t1 s)) q) (s\<lparr>st_t1 := (st_t1 s)\<lparr>lk_q := q\<rparr>\<rparr>))"
| send2: "\<not> st_exited s \<Longrightarrow> task_step (lk_q (st_t2 s)) (Post (lk_next (st_t2 s))) q \<Longrightarrow>
    self_step lossy s (s\<lparr>st_t2 := (st_t2 s)\<lparr>lk_q := q, lk_next := lk_next (st_t2 s) + 1\<rparr>\<rparr>)"
| lose2: "\<not> st_exited s \<Longrightarrow> lossy \<Longrightarrow> self_step lossy s (s\<lparr>st_t2 := (st_t2 s)\<lparr>lk_next := lk_next (st_t2 s) + 1\<rparr>\<rparr>)"
| work2: "\<not> st_exited s \<Longrightarrow> task_step (lk_q (st_t2 s)) Other q \<Longrightarrow>
    self_step lossy s (fold message_to_t2 (newly_handled (lk_q (st_t2 s)) q) (s\<lparr>st_t2 := (st_t2 s)\<lparr>lk_q := q\<rparr>\<rparr>))"
| tick: "\<not> st_exited s \<Longrightarrow> f \<in> {t1_start, t2_start, t3_start, t3_timeout} \<Longrightarrow> self_step lossy s (f s)"

definition self_start :: "self_test \<Rightarrow> bool" where
  "self_start s \<longleftrightarrow> \<not> st_exited s
     \<and> (\<forall>l \<in> {st_t1 s, st_t2 s}. task_start (lk_q l) \<and> lk_next l = 0 \<and> lk_expected l = 0)"

inductive self_reachable :: "bool \<Rightarrow> self_test \<Rightarrow> bool" for lossy where
  start: "self_start s \<Longrightarrow> self_reachable lossy s"
| step: "self_reachable lossy s \<Longrightarrow> self_step lossy s s' \<Longrightarrow> self_reachable lossy s'"

section \<open>Numbers in order\<close>

definition numbers :: "nat \<Rightarrow> ulong list" where
  "numbers n = map of_nat [0..<n]"

definition link_inv :: "link \<Rightarrow> bool" where
  "link_inv l \<longleftrightarrow> task_reachable (lk_q l) \<and> (\<exists>k. tk_posted (lk_q l) = numbers k \<and> lk_next l = of_nat k)
     \<and> lk_expected l = of_nat (length (tk_handled (lk_q l)))"

lemma prefix_numbers: "prefix xs (numbers k) \<Longrightarrow> xs = numbers (length xs)"
proof -
  assume p: "prefix xs (numbers k)"
  then have "xs = take (length xs) (numbers k)" by (auto simp: prefix_def)
  moreover have "length xs \<le> k" using prefix_length_le [OF p] by (simp add: numbers_def)
  then have "take (length xs) (numbers k) = numbers (length xs)" by (simp add: numbers_def take_map)
  ultimately show ?thesis by simp
qed

lemma task_other_handles:
  assumes "task_step q Other q'"
  shows "prefix (tk_handled q) (tk_handled q')"
  using assms
  by (rule task_otherE)
    (auto simp: ev_async_send_def task_queue_take_all_def task_unlink_first_def task_run_message_def)

lemma link_post:
  assumes "link_inv l" "task_step (lk_q l) (Post (lk_next l)) q"
  shows "link_inv (l\<lparr>lk_q := q, lk_next := lk_next l + 1\<rparr>)"
proof -
  from assms(1) obtain k where k: "task_reachable (lk_q l)" "tk_posted (lk_q l) = numbers k" "lk_next l = of_nat k"
      "lk_expected l = of_nat (length (tk_handled (lk_q l)))" by (auto simp: link_inv_def)
  have "task_reachable q" using k(1) assms(2) task_reachable.step by blast
  moreover have "tk_posted q = tk_posted (lk_q l) @ [lk_next l]" "tk_handled q = tk_handled (lk_q l)"
    using task_post_inv [OF task_reachable_inv [OF k(1)] assms(2)] by auto
  moreover have "numbers k @ [of_nat k] = numbers (Suc k)" by (simp add: numbers_def)
  ultimately show ?thesis using k unfolding link_inv_def by (auto intro!: exI [of _ "Suc k"])
qed

lemma link_work:
  assumes "link_inv l" "task_step (lk_q l) Other q"
  shows "\<exists>j j'. j \<le> j' \<and> newly_handled (lk_q l) q = map of_nat [j..<j'] \<and> lk_expected l = of_nat j
    \<and> link_inv (l\<lparr>lk_q := q, lk_expected := of_nat j'\<rparr>)"
proof -
  from assms(1) obtain k where k: "task_reachable (lk_q l)" "tk_posted (lk_q l) = numbers k" "lk_next l = of_nat k"
      "lk_expected l = of_nat (length (tk_handled (lk_q l)))" by (auto simp: link_inv_def)
  let ?j = "length (tk_handled (lk_q l))" and ?j' = "length (tk_handled q)"
  have r: "task_reachable q" using k(1) assms(2) task_reachable.step by blast
  have p: "tk_posted q = numbers k" using task_other_inv [OF task_reachable_inv [OF k(1)] assms(2)] k(2) by simp
  have q: "tk_handled q = numbers ?j'" using reachable_in_order [OF r] p by (auto intro: prefix_numbers)
  have le: "?j \<le> ?j'" using task_other_handles [OF assms(2)] by (rule prefix_length_le)
  have "drop ?j (numbers ?j') = map of_nat [?j..<?j']" by (simp add: numbers_def drop_map)
  then have "newly_handled (lk_q l) q = map of_nat [?j..<?j']" using q by (simp add: newly_handled_def)
  moreover have "link_inv (l\<lparr>lk_q := q, lk_expected := of_nat ?j'\<rparr>)" using r p k(3) by (auto simp: link_inv_def)
  ultimately show ?thesis using le k(4) by blast
qed

text \<open>A run of consecutive numbers moves the expected one.\<close>

lemma fold_message_to_t1:
  "j \<le> j' \<Longrightarrow> lk_expected (st_t1 s) = of_nat j \<Longrightarrow>
    fold message_to_t1 (map of_nat [j..<j']) s = s\<lparr>st_t1 := (st_t1 s)\<lparr>lk_expected := of_nat j'\<rparr>\<rparr>"
proof (induction "j' - j" arbitrary: j s)
  case (Suc d)
  then have "[j..<j'] = j # [Suc j..<j']" by (simp add: upt_conv_Cons)
  moreover have "message_to_t1 (of_nat j) s = s\<lparr>st_t1 := (st_t1 s)\<lparr>lk_expected := of_nat (Suc j)\<rparr>\<rparr>"
    using Suc.prems by (simp add: message_to_t1_def add.commute)
  ultimately show ?case using Suc.hyps(1) [of "Suc j"] Suc.hyps(2) by simp
qed simp

lemma fold_message_to_t2:
  "j \<le> j' \<Longrightarrow> lk_expected (st_t2 s) = of_nat j \<Longrightarrow>
    fold message_to_t2 (map of_nat [j..<j']) s = s\<lparr>st_t2 := (st_t2 s)\<lparr>lk_expected := of_nat j'\<rparr>\<rparr>"
proof (induction "j' - j" arbitrary: j s)
  case (Suc d)
  then have "[j..<j'] = j # [Suc j..<j']" by (simp add: upt_conv_Cons)
  moreover have "message_to_t2 (of_nat j) s = s\<lparr>st_t2 := (st_t2 s)\<lparr>lk_expected := of_nat (Suc j)\<rparr>\<rparr>"
    using Suc.prems by (simp add: message_to_t2_def add.commute)
  ultimately show ?case using Suc.hyps(1) [of "Suc j"] Suc.hyps(2) by simp
qed simp

definition self_inv :: "self_test \<Rightarrow> bool" where
  "self_inv s \<longleftrightarrow> link_inv (st_t1 s) \<and> link_inv (st_t2 s) \<and> \<not> st_exited s"

lemma self_step_inv:
  assumes "self_inv s" "self_step False s s'"
  shows "self_inv s'"
  using assms(2)
proof cases
  case (send1 q)
  then show ?thesis using assms(1) link_post [of "st_t1 s" q] by (simp add: self_inv_def)
next
  case (send2 q)
  then show ?thesis using assms(1) link_post [of "st_t2 s" q] by (simp add: self_inv_def)
next
  case (work1 q)
  obtain j j' where j: "j \<le> j'" "newly_handled (lk_q (st_t1 s)) q = map of_nat [j..<j']" "lk_expected (st_t1 s) = of_nat j"
      "link_inv ((st_t1 s)\<lparr>lk_q := q, lk_expected := of_nat j'\<rparr>)"
    using link_work [OF _ work1(3)] assms(1) unfolding self_inv_def by blast
  then show ?thesis using work1 assms(1) fold_message_to_t1 [of j j' "s\<lparr>st_t1 := (st_t1 s)\<lparr>lk_q := q\<rparr>\<rparr>"] by (simp add: self_inv_def)
next
  case (work2 q)
  obtain j j' where j: "j \<le> j'" "newly_handled (lk_q (st_t2 s)) q = map of_nat [j..<j']" "lk_expected (st_t2 s) = of_nat j"
      "link_inv ((st_t2 s)\<lparr>lk_q := q, lk_expected := of_nat j'\<rparr>)"
    using link_work [OF _ work2(3)] assms(1) unfolding self_inv_def by blast
  then show ?thesis using work2 assms(1) fold_message_to_t2 [of j j' "s\<lparr>st_t2 := (st_t2 s)\<lparr>lk_q := q\<rparr>\<rparr>"] by (simp add: self_inv_def)
next
  case (tick f)
  then show ?thesis using assms(1) by (auto simp: self_inv_def t1_start_def t2_start_def t3_start_def t3_timeout_def)
qed simp_all

lemma self_start_inv:
  assumes "self_start s"
  shows "self_inv s"
proof -
  have "link_inv l" if "task_start (lk_q l)" "lk_next l = 0" "lk_expected l = 0" for l
    using that task_reachable.start [OF that(1)]
    by (auto simp: link_inv_def task_start_def numbers_def intro!: exI [of _ 0])
  then show ?thesis using assms by (simp add: self_start_def self_inv_def)
qed

lemma self_reachable_inv: "self_reachable False s \<Longrightarrow> self_inv s"
  by (induction rule: self_reachable.induct) (auto intro: self_start_inv self_step_inv)

section \<open>The functions are sequences of steps\<close>

lemma link_commute: "(l :: link)\<lparr>lk_next := n, lk_q := q\<rparr> = l\<lparr>lk_q := q, lk_next := n\<rparr>"
  by (cases l) simp

lemma send_message_steps:
  assumes r: "self_reachable lossy s" and e: "\<not> st_exited s" and m: "fresh_block (lk_q (st_t1 s)) m" and q: "task_inv (lk_q (st_t1 s))"
  shows "\<exists>s'. send_message_to_t1 m s = Some s' \<and> self_reachable lossy s' \<and> \<not> st_exited s' \<and> task_inv (lk_q (st_t1 s'))
    \<and> (\<forall>m'. m' = m \<or> \<not> fresh_block (lk_q (st_t1 s)) m' \<or> fresh_block (lk_q (st_t1 s')) m')"
proof -
  let ?l = "st_t1 s" and ?n = "lk_next (st_t1 s)"
  obtain ts qs where rep: "task_rep (lk_q ?l) ts qs" using q by (auto simp: task_inv_def)
  obtain q1 where q1: "task_notify_queue m ?n (lk_q ?l) = Some q1" using task_notify_queue_spec [OF rep m] by blast
  let ?q1 = "q1\<lparr>tk_unsent := Suc (tk_unsent q1)\<rparr>" and ?q2 = "ev_async_send q1"
  let ?s1 = "s\<lparr>st_t1 := ?l\<lparr>lk_q := ?q1, lk_next := ?n + 1\<rparr>\<rparr>" and ?s2 = "s\<lparr>st_t1 := ?l\<lparr>lk_q := ?q2, lk_next := ?n + 1\<rparr>\<rparr>"
  have p: "task_step (lk_q ?l) (Post ?n) ?q1" by (rule task_step.post [OF m q1])
  have "self_reachable lossy ?s1" by (rule self_reachable.step [OF r self_step.send1 [OF e p]])
  moreover have w: "task_step ?q1 Other ((ev_async_send ?q1)\<lparr>tk_unsent := tk_unsent q1\<rparr>)" by (rule task_step.send) simp
  then have w': "task_step ?q1 Other ?q2" by (simp add: ev_async_send_def)
  then have "newly_handled ?q1 ?q2 = []" by (simp add: newly_handled_def ev_async_send_def)
  then have "self_step lossy ?s1 ?s2" using self_step.work1 [of ?s1 ?q2 lossy] w' e by (simp add: link_commute)
  ultimately have r2: "self_reachable lossy ?s2" by (rule self_reachable.step)
  have "task_inv ?q2" using task_other_inv [OF _ w'] task_post_inv [OF q p] by blast
  moreover have "fresh_block ?q2 m'" if "m' \<noteq> m" "fresh_block (lk_q ?l) m'" for m'
    using that q1 by (auto simp: fresh_block_def ev_async_send_def task_notify_queue_def task_queue_add_def)
  moreover have "send_message_to_t1 m s = Some ?s2" using q1 m by (simp add: send_message_to_t1_def task_notify_def fresh_block_def)
  ultimately show ?thesis using r2 e by auto
qed

text \<open>A whole timer callback, when \<open>malloc\<close> answers with different unused blocks.\<close>

lemma t2_timeout_steps:
  assumes "self_reachable lossy s" "\<not> st_exited s" "task_inv (lk_q (st_t1 s))"
    and "inj_on ms {..<4000}" "\<forall>i < 4000. fresh_block (lk_q (st_t1 s)) (ms i)"
  shows "\<exists>s'. t2_timeout ms s = Some s' \<and> self_reachable lossy s'"
proof -
  have "\<exists>s'. foldo (\<lambda>s i. send_message_to_t1 (ms i) s) s is = Some s' \<and> self_reachable lossy s'"
    if "self_reachable lossy s" "\<not> st_exited s" "task_inv (lk_q (st_t1 s))" "distinct is" "inj_on ms (set is)"
      "\<forall>i \<in> set is. fresh_block (lk_q (st_t1 s)) (ms i)" for "is" s
    using that
  proof (induction "is" arbitrary: s)
    case (Cons i "is")
    obtain s1 where s1: "send_message_to_t1 (ms i) s = Some s1" "self_reachable lossy s1" "\<not> st_exited s1" "task_inv (lk_q (st_t1 s1))"
        "\<forall>m'. m' = ms i \<or> \<not> fresh_block (lk_q (st_t1 s)) m' \<or> fresh_block (lk_q (st_t1 s1)) m'"
      using send_message_steps [of lossy s "ms i"] Cons.prems by auto
    have "fresh_block (lk_q (st_t1 s1)) (ms j)" if "j \<in> set is" for j
    proof -
      have "ms j \<noteq> ms i" using Cons.prems(4,5) that by (auto simp: inj_on_def)
      then show ?thesis using s1(5) Cons.prems(6) that by auto
    qed
    with Cons.IH [OF s1(2-4)] Cons.prems(4,5) s1(1) show ?case by auto
  qed auto
  from this [of s "[0..<4000]"] assms show ?thesis by (simp add: t2_timeout_def atLeast0LessThan)
qed

section \<open>The start of the program\<close>

text \<open>
  \<open>main\<close> with distinct tasks, loops and threads: it runs without an undefined step, with the four tasks listed in
  the order of their initialisation, three threads created and the first task's loop entered.
\<close>

lemma self_test_main_starts:
  assumes w: "world_start (task_framework_init w)" and buffers: "log_init pool buffers = Some pool'"
    and tasks: "distinct [wd_head w, lg, t1, t2, t3]" "NULL \<notin> set [lg, t1, t2, t3]"
    and loops: "distinct [NULL, ma_log_loop a, ma_default_loop a, ma_loop2 a, ma_loop3 a]"
    and threads: "ma_log_thread a = Some i0" "ma_thread2 a = Some i2" "ma_thread3 a = Some i3" "distinct [self, i0, i2, i3]"
  shows "\<exists>w'. self_test_main a self (lg, t1, t2, t3) buffers (w, pool) = Some (w', pool') \<and> world_ready w' [lg, t1, t2, t3]
    \<and> wd_threads w' = [i0 \<mapsto> Created lg, i2 \<mapsto> Created t2, i3 \<mapsto> Created t3, self \<mapsto> Looping t1]"
proof -
  let ?w = "task_framework_init w"
  have w0: "world_ready ?w []" "loops_of ?w = {NULL}" "wd_threads ?w = Map.empty" "wd_head ?w = wd_head w"
    using w life_reachable.start [OF w]
    by (auto simp: world_start_def world_ready_def initialised_def loops_of_def task_blank_def task_framework_init_def)
  obtain w1 where w1: "task_init None (ma_log_loop a) lg ?w = Some (w1, 0)" "world_ready w1 [lg]"
      "loops_of w1 \<subseteq> {NULL, ma_log_loop a}" "wd_threads w1 = Map.empty" "wd_head w1 = wd_head w"
    using ready_init [OF w0(1), of lg "ma_log_loop a"] w0 tasks loops by fastforce
  let ?w1 = "task_run (Some i0) lg w1"
  have r1: "world_ready ?w1 [lg]" by (rule ready_run [OF w1(2)]) (use w1(4) in \<open>simp_all add: has_thread_def\<close>)
  obtain w2 where w2: "task_init None (ma_default_loop a) t1 ?w1 = Some (w2, 0)" "world_ready w2 [lg, t1]"
      "loops_of w2 \<subseteq> {NULL, ma_log_loop a, ma_default_loop a}" "wd_threads w2 = [i0 \<mapsto> Created lg]" "wd_head w2 = wd_head w"
    using ready_init [OF r1, of t1 "ma_default_loop a"] w1 tasks loops by fastforce
  obtain w3 where w3: "task_init None (ma_loop2 a) t2 w2 = Some (w3, 0)" "world_ready w3 [lg, t1, t2]"
      "loops_of w3 \<subseteq> {NULL, ma_log_loop a, ma_default_loop a, ma_loop2 a}" "wd_threads w3 = [i0 \<mapsto> Created lg]" "wd_head w3 = wd_head w"
    using ready_init [OF w2(2), of t2 "ma_loop2 a"] w2 tasks loops by fastforce
  obtain w4 where w4: "task_init None (ma_loop3 a) t3 w3 = Some (w4, 0)" "world_ready w4 [lg, t1, t2, t3]" "wd_threads w4 = [i0 \<mapsto> Created lg]"
    using ready_init [OF w3(2), of t3 "ma_loop3 a"] w3 tasks loops by fastforce
  have r5: "world_ready (task_run (Some i2) t2 w4) [lg, t1, t2, t3]"
    by (rule ready_run [OF w4(2)]) (use w4(3) tasks threads in \<open>auto simp: has_thread_def split: if_splits\<close>)
  have r6: "world_ready (task_run (Some i3) t3 (task_run (Some i2) t2 w4)) [lg, t1, t2, t3]"
    by (rule ready_run [OF r5]) (use w4(3) tasks threads in \<open>auto simp: has_thread_def split: if_splits\<close>)
  let ?w6 = "task_run (Some i3) t3 (task_run (Some i2) t2 w4)"
  have h: "wd_threads ?w6 self = None" "\<not> has_thread ?w6 t1"
    using w4(3) tasks threads by (auto simp: has_thread_def split: if_splits)
  obtain w7 where "task_run_no_thread (Some (\<lambda>_ w. Some w)) self t1 ?w6 = Some w7" "world_ready w7 [lg, t1, t2, t3]"
      "wd_threads w7 = (wd_threads ?w6)(self \<mapsto> Looping t1)"
    using ready_run_no_thread [OF r6 _ h] by auto
  then show ?thesis using w1(1) w2(1) w3(1) w4(1,3) buffers threads(1-3)
    by (simp add: self_test_main_def kongja_express_init_def log_init_task_def task_init_main_def task_init_def)
qed

section \<open>Properties\<close>

text \<open>
  The self-test passes: while \<open>malloc\<close> does not fail, however the two senders, the two receivers and the
  timers interleave, no receiver ever sees a number it does not expect, and the number each expects counts
  the messages it was given.
\<close>

theorem self_test_passes:
  assumes "self_reachable False s"
  shows "\<not> st_exited s
    \<and> lk_expected (st_t1 s) = of_nat (length (tk_handled (lk_q (st_t1 s))))
    \<and> lk_expected (st_t2 s) = of_nat (length (tk_handled (lk_q (st_t2 s))))"
  using self_reachable_inv [OF assms] by (simp add: self_inv_def link_inv_def)

definition sample_self_test :: self_test where
  "sample_self_test = (let l = \<lparr>lk_q = \<lparr>tk_heap = \<lparr>lh_next = (\<lambda>_. 0)(1 := 1), lh_prev = (\<lambda>_. 0)(1 := 1)\<rparr>, tk_msgs = 1, tk_tmp = 2,
       tk_num_msgs = 0, tk_mem = Map.empty, tk_noti = False, tk_unsent = 0, tk_pc = Waiting, tk_posted = [], tk_handled = []\<rparr>,
       lk_next = 0, lk_expected = 0\<rparr>
     in \<lparr>st_t1 = l, st_t2 = l, st_tmr1 = task_timer_init, st_tmr2 = task_timer_init, st_tmr3 = task_timer_init, st_exited = False\<rparr>)"

lemma sample_self_test_start: "self_start sample_self_test"
proof -
  let ?q = "lk_q (st_t1 sample_self_test)"
  have "task_queue_init ?q = Some ?q"
    by (simp add: task_queue_init_def sample_self_test_def Let_def init_list_head_def wr_next_def wr_prev_def)
  then have "task_start ?q" unfolding task_start_def by (intro conjI exI [of _ ?q]) (simp_all add: sample_self_test_def Let_def)
  then show ?thesis by (simp add: self_start_def sample_self_test_def Let_def)
qed

theorem self_test_passes_witness:
  "self_reachable False sample_self_test \<and> \<not> st_exited sample_self_test"
  using self_test_passes [OF self_reachable.start [OF sample_self_test_start]] self_reachable.start [OF sample_self_test_start] by blast

text \<open>
  A failed allocation breaks it, although nothing arrives out of order: the number is counted but not
  sent, so the next message carries a number its receiver does not expect.
\<close>

lemma self_test_fails_without_memory:
  assumes "lk_expected (st_t1 s) = lk_next (st_t1 s)"
  shows "\<exists>s1. send_message_to_t1 NULL s = Some s1 \<and> lk_q (st_t1 s1) = lk_q (st_t1 s)
    \<and> st_exited (message_to_t1 (lk_next (st_t1 s1)) s1)"
  using assms by (simp add: send_message_to_t1_def task_notify_def message_to_t1_def)

end
