(* ===== verification/Tcp_Demo.thy ===== *)
theory Tcp_Demo
  imports Tcp_Auto_Connector Tcp_Server
begin

text \<open>
  \<open>src/demo/tcp_client_test.c\<close> and \<open>src/demo/tcp_server_test.c\<close>: a client that connects, stays connected for five
  seconds, disconnects and connects again, for ever; and two servers that are stopped and started by a timer.
  The kernel's answers come with the event that asks for them; what is logged is left out, and with it the
  difference between a direct and an indirect result.
\<close>

section \<open>The client\<close>

record tcp_client =
  cl_name :: string
  cl_connected :: bool
  cl_connector :: tcp_connector
  cl_tmr :: task_timer
  cl_to :: string

text \<open>As in the auto-connector, the two functions end because an attempt never answers with a timeout at once.\<close>

function (sequential) tcp_connector_event_handler :: "connect_outcome \<Rightarrow> tcp_client \<Rightarrow> tcp_connector_status \<Rightarrow> tcp_client option"
  and try_to_connect :: "connect_outcome \<Rightarrow> tcp_client \<Rightarrow> tcp_client option" where
  "tcp_connector_event_handler out cli tcp_connector_success =
     Some (cli\<lparr>cl_connected := True, cl_tmr := task_timer_start (cl_tmr cli) 5 0\<rparr>)"
| "tcp_connector_event_handler out cli tcp_connector_failure =
     Some (cli\<lparr>cl_connector := tcp_connector_deinit (cl_connector cli), cl_tmr := task_timer_start (cl_tmr cli) 3 0\<rparr>)"
| "tcp_connector_event_handler out cli tcp_connector_in_progress = Some cli"
| "tcp_connector_event_handler out cli tcp_connector_timed_out =
     try_to_connect out (cli\<lparr>cl_connector := tcp_connector_deinit (cl_connector cli)\<rparr>)"
| "try_to_connect out cli = do {
     let cli = cli\<lparr>cl_connected := False\<rparr>;
     ret \<leftarrow> tcp_connector_try_ipv4 out (cl_connector cli) 5;
     let cli = cli\<lparr>cl_connector := fst ret\<rparr>;
     if snd ret = tcp_connector_success \<or> snd ret = tcp_connector_failure
     then tcp_connector_event_handler out cli (snd ret) else Some cli }"
  by pat_completeness auto

termination
proof (relation "measure (\<lambda>x. case x of Inl (_, _, st) \<Rightarrow> if st = tcp_connector_timed_out then 2 else 0 | Inr _ \<Rightarrow> 1)")
qed (auto dest: try_no_timeout)

declare try_to_connect.simps [simp del]

definition cli_connector_callback :: "connect_outcome \<Rightarrow> tcp_client \<Rightarrow> tcp_connector \<Rightarrow> tcp_connector_status \<Rightarrow> tcp_client option" where
  "cli_connector_callback out cli conn status = tcp_connector_event_handler out (cli\<lparr>cl_connector := conn\<rparr>) status"

definition retry_timer_expired :: "connect_outcome \<Rightarrow> tcp_client \<Rightarrow> tcp_client option" where
  "retry_timer_expired out cli =
     try_to_connect out (if cl_connected cli then cli\<lparr>cl_connector := tcp_connector_deinit (cl_connector cli)\<rparr> else cli)"

text \<open>The part of \<open>tcp_client_task_start\<close> that fills one client in, and the whole of it.\<close>

definition tcp_client_setup :: "string \<Rightarrow> string \<Rightarrow> tcp_client \<Rightarrow> tcp_client" where
  "tcp_client_setup name to cli = cli\<lparr>cl_name := name, cl_connected := False, cl_to := to, cl_tmr := task_timer_init\<rparr>"

definition tcp_client_task_start :: "connect_outcome \<Rightarrow> connect_outcome \<Rightarrow> tcp_client \<times> tcp_client \<Rightarrow> (tcp_client \<times> tcp_client) option" where
  "tcp_client_task_start out1 out2 cs = (case cs of (cli1, cli2) \<Rightarrow> do {
     let cli1 = tcp_client_setup ''Client1'' ''192.168.1.110:22'' cli1;
     let cli2 = tcp_client_setup ''Client2'' ''8.8.8.8:9999'' cli2;
     cli1 \<leftarrow> try_to_connect out1 cli1;
     cli2 \<leftarrow> try_to_connect out2 cli2;
     Some (cli1, cli2) })"

datatype client_event = Cl_writable int connect_outcome | Cl_timeout connect_outcome | Cl_retry connect_outcome

fun client_enabled :: "tcp_client \<Rightarrow> client_event \<Rightarrow> bool" where
  "client_enabled c (Cl_writable err out) \<longleftrightarrow> tc_watching (cl_connector c)"
| "client_enabled c (Cl_timeout out) \<longleftrightarrow> task_timer_active (tc_tmr (cl_connector c))"
| "client_enabled c (Cl_retry out) \<longleftrightarrow> task_timer_active (cl_tmr c)"

fun client_step :: "tcp_client \<Rightarrow> client_event \<Rightarrow> tcp_client option" where
  "client_step c (Cl_writable err out) = tcp_connector_watcher_callback (cli_connector_callback out c) err (cl_connector c)"
| "client_step c (Cl_timeout out) =
     (let k = cl_connector c; k = k\<lparr>tc_tmr := task_timer_expire (tc_tmr k)\<rparr>
      in tcp_connector_timeout (cli_connector_callback out c) k)"
| "client_step c (Cl_retry out) = retry_timer_expired out (c\<lparr>cl_tmr := task_timer_expire (cl_tmr c)\<rparr>)"

definition client_event_one :: "tcp_client \<Rightarrow> client_event \<Rightarrow> tcp_client option" where
  "client_event_one c e = (if client_enabled c e then client_step c e else Some c)"

text \<open>Events of both clients, \<open>True\<close> for the first; events that cannot happen are skipped.\<close>

definition clients_run :: "tcp_client \<times> tcp_client \<Rightarrow> (bool \<times> client_event) list \<Rightarrow> (tcp_client \<times> tcp_client) option" where
  "clients_run cs es = foldo (\<lambda>(c1, c2) (first, e).
     if first then do { c1 \<leftarrow> client_event_one c1 e; Some (c1, c2) }
     else do { c2 \<leftarrow> client_event_one c2 e; Some (c1, c2) }) cs es"

text \<open>An attempt in progress, a connection to be given up, or a pause: each timed.\<close>

definition client_inv :: "tcp_client \<Rightarrow> bool" where
  "client_inv c \<longleftrightarrow> fds_balanced (cl_connector c) \<and>
     (attempt_running (cl_connector c) \<and> \<not> task_timer_active (cl_tmr c) \<and> \<not> cl_connected c
      \<or> attempt_idle (cl_connector c) \<and> task_timer_active (cl_tmr c) \<and> tmr_repeat (cl_tmr c) = 0
        \<and> (cl_connected c \<longleftrightarrow> tc_sd (cl_connector c) \<noteq> -1))"

text \<open>Between attempts.\<close>

definition client_between :: "tcp_client \<Rightarrow> bool" where
  "client_between c \<longleftrightarrow> fds_balanced (cl_connector c) \<and> attempt_idle (cl_connector c) \<and> tc_sd (cl_connector c) = -1
     \<and> \<not> task_timer_active (cl_tmr c)"

lemma try_to_connect_inv:
  assumes "client_between c"
  shows "\<exists>c'. try_to_connect out c = Some c' \<and> client_inv c'"
proof -
  obtain k st where k: "tcp_connector_try_ipv4 out (cl_connector c) 5 = Some (k, st)" "fds_balanced k"
      "tc_sd k = (if co_socket out < 0 then -1 else co_socket out)"
      "st = (if co_socket out < 0 then tcp_connector_failure
            else case co_connect out of Conn_ok \<Rightarrow> tcp_connector_success
              | Conn_EINPROGRESS \<Rightarrow> tcp_connector_in_progress | Conn_error \<Rightarrow> tcp_connector_failure)"
      "if st = tcp_connector_in_progress then attempt_running k else attempt_idle k"
    using tcp_connector_try_ipv4_spec [of "cl_connector c"] assms unfolding client_between_def by blast
  have t: "\<not> task_timer_active (cl_tmr c)" using assms by (simp add: client_between_def)
  show ?thesis
  proof (cases st)
    case tcp_connector_success
    then have "tc_sd k \<noteq> -1" using k(3,4) by (auto split: if_splits)
    then show ?thesis using k(1,2,5) t tcp_connector_success
      by (simp add: try_to_connect.simps Let_def client_inv_def timer_simps)
  next
    case tcp_connector_failure
    then show ?thesis using k(1,2,5) t tcp_connector_deinit_spec [of k]
      by (simp add: try_to_connect.simps Let_def client_inv_def timer_simps)
  next
    case tcp_connector_in_progress
    then show ?thesis using k(1,2,5) t by (simp add: try_to_connect.simps Let_def client_inv_def)
  next
    case tcp_connector_timed_out
    then show ?thesis using k(4) by (auto split: if_splits connect_answer.splits)
  qed
qed

lemma event_handler_inv:
  assumes "fds_balanced (cl_connector c)" "attempt_idle (cl_connector c)" "tc_sd (cl_connector c) \<noteq> -1"
    "\<not> task_timer_active (cl_tmr c)" "\<not> cl_connected c" "st \<noteq> tcp_connector_in_progress"
  shows "\<exists>c'. tcp_connector_event_handler out c st = Some c' \<and> client_inv c'"
proof (cases st)
  case tcp_connector_success
  then show ?thesis using assms by (simp add: client_inv_def timer_simps)
next
  case tcp_connector_failure
  then show ?thesis using assms tcp_connector_deinit_spec [of "cl_connector c"] by (simp add: client_inv_def timer_simps)
next
  case tcp_connector_in_progress
  then show ?thesis using assms(6) by simp
next
  case tcp_connector_timed_out
  have "client_between (c\<lparr>cl_connector := tcp_connector_deinit (cl_connector c)\<rparr>)"
    using assms tcp_connector_deinit_spec [of "cl_connector c"] by (simp add: client_between_def)
  then show ?thesis using try_to_connect_inv tcp_connector_timed_out by simp
qed

lemma stopped_attempt:
  assumes "attempt_running k" "fds_balanced k" "\<not> task_timer_active t"
  shows "attempt_idle (k\<lparr>tc_is_in_prog := False, tc_watcher := watcher_stop (tc_watcher k), tc_tmr := t\<rparr>)"
    "fds_balanced (k\<lparr>tc_is_in_prog := False, tc_watcher := watcher_stop (tc_watcher k), tc_tmr := t\<rparr>)" "tc_sd k \<noteq> -1"
  using assms watcher_stop_inactive [of "tc_watcher k"]
  by (auto simp: attempt_running_def attempt_idle_def tc_watching_def fds_balanced_def timer_simps)

lemma stopped_commute:
  "(k :: tcp_connector)\<lparr>tc_tmr := t, tc_is_in_prog := p, tc_watcher := w\<rparr> = k\<lparr>tc_is_in_prog := p, tc_watcher := w, tc_tmr := t\<rparr>"
  by (cases k) simp

lemma client_step_inv:
  assumes inv: "client_inv c"
  shows "\<exists>c'. client_event_one c e = Some c' \<and> client_inv c'"
proof (cases "client_enabled c e")
  case False
  then show ?thesis using inv by (simp add: client_event_one_def)
next
  case True
  let ?k = "cl_connector c"
  show ?thesis
  proof (cases e)
    case (Cl_writable err out)
    then have r: "attempt_running ?k" "fds_balanced ?k" "\<not> task_timer_active (cl_tmr c)" "\<not> cl_connected c"
      using inv True by (auto simp: client_inv_def attempt_idle_def)
    let ?k' = "?k\<lparr>tc_is_in_prog := False, tc_watcher := watcher_stop (tc_watcher ?k), tc_tmr := task_timer_stop (tc_tmr ?k)\<rparr>"
    have "attempt_idle ?k'" "fds_balanced ?k'" "tc_sd ?k \<noteq> -1" using stopped_attempt [OF r(1,2), of "task_timer_stop (tc_tmr ?k)"] by (simp_all add: timer_simps)
    then show ?thesis
      using event_handler_inv [of "c\<lparr>cl_connector := ?k'\<rparr>"] r True
      by (simp add: client_event_one_def Cl_writable tcp_connector_watcher_callback_def cli_connector_callback_def Let_def
          del: tcp_connector_event_handler.simps)
  next
    case (Cl_timeout out)
    then have r: "attempt_running ?k" "fds_balanced ?k" "\<not> task_timer_active (cl_tmr c)" "\<not> cl_connected c"
      using inv True by (auto simp: client_inv_def attempt_idle_def)
    let ?k' = "?k\<lparr>tc_is_in_prog := False, tc_watcher := watcher_stop (tc_watcher ?k), tc_tmr := task_timer_expire (tc_tmr ?k)\<rparr>"
    have "\<not> task_timer_active (task_timer_expire (tc_tmr ?k))" using r(1) by (simp add: attempt_running_def timer_simps)
    from stopped_attempt [OF r(1,2) this] have "attempt_idle ?k'" "fds_balanced ?k'" "tc_sd ?k \<noteq> -1" by simp_all
    then show ?thesis
      using event_handler_inv [of "c\<lparr>cl_connector := ?k'\<rparr>" tcp_connector_timed_out] r True
      by (simp add: stopped_commute client_event_one_def Cl_timeout tcp_connector_timeout_def cli_connector_callback_def Let_def
          del: tcp_connector_event_handler.simps)
  next
    case (Cl_retry out)
    then have r: "attempt_idle ?k" "fds_balanced ?k" "tmr_repeat (cl_tmr c) = 0" "cl_connected c \<longleftrightarrow> tc_sd ?k \<noteq> -1"
      using inv True by (auto simp: client_inv_def)
    let ?c = "c\<lparr>cl_tmr := task_timer_expire (cl_tmr c)\<rparr>"
    have "client_between (if cl_connected ?c then ?c\<lparr>cl_connector := tcp_connector_deinit (cl_connector ?c)\<rparr> else ?c)"
      using r tcp_connector_deinit_spec [of ?k] by (auto simp: client_between_def timer_simps)
    from try_to_connect_inv [OF this, of out] show ?thesis using True
      by (simp add: client_event_one_def Cl_retry retry_timer_expired_def)
  qed
qed

text \<open>A client as static data: nothing open, nothing active, its descriptor still 0.\<close>

definition client_blank :: "tcp_client \<Rightarrow> bool" where
  "client_blank c \<longleftrightarrow> attempt_idle (cl_connector c) \<and> tc_opened (cl_connector c) = [] \<and> tc_closed (cl_connector c) = []
     \<and> tc_taken (cl_connector c) = []"

lemma client_start_inv:
  assumes "client_blank c"
  shows "\<exists>c'. try_to_connect out (tcp_client_setup name to c) = Some c' \<and> client_inv c'"
proof -
  let ?c = "tcp_client_setup name to c"
  let ?b = "?c\<lparr>cl_connector := (cl_connector ?c)\<lparr>tc_sd := -1\<rparr>\<rparr>"
  have "client_between ?b"
    using assms by (simp add: client_blank_def client_between_def tcp_client_setup_def fds_balanced_def attempt_idle_def
        tc_watching_def timer_simps)
  moreover have "try_to_connect out ?b = try_to_connect out ?c" by (simp add: try_to_connect.simps try_forgets_sd)
  ultimately show ?thesis using try_to_connect_inv by metis
qed

section \<open>Properties of the clients\<close>

text \<open>
  The clients never hang and never leak: through any events and any answers of the kernel each client is
  connecting with a running timeout, connected with a timer that will end the connection, or pausing with a
  timer that will try again, so that always exactly one of its timers is due; and every descriptor it ever
  opened has been closed, once, except the one in use.
\<close>

theorem tcp_clients_never_stuck:
  assumes "client_blank c1" "client_blank c2"
  shows "\<exists>s a b. tcp_client_task_start out1 out2 (c1, c2) = Some s \<and> clients_run s es = Some (a, b)
    \<and> client_inv a \<and> client_inv b
    \<and> (task_timer_active (tc_tmr (cl_connector a)) \<longleftrightarrow> \<not> task_timer_active (cl_tmr a))
    \<and> (task_timer_active (tc_tmr (cl_connector b)) \<longleftrightarrow> \<not> task_timer_active (cl_tmr b))"
proof -
  obtain a0 b0 where s: "tcp_client_task_start out1 out2 (c1, c2) = Some (a0, b0)" "client_inv a0" "client_inv b0"
    using client_start_inv [OF assms(1)] client_start_inv [OF assms(2)] by (fastforce simp: tcp_client_task_start_def Let_def)
  have "\<exists>s'. clients_run (a0, b0) es = Some s' \<and> client_inv (fst s') \<and> client_inv (snd s')"
    unfolding clients_run_def by (rule foldo_invariant) (use s client_step_inv in \<open>fastforce split: prod.splits\<close>)+
  moreover have "client_inv c \<Longrightarrow> task_timer_active (tc_tmr (cl_connector c)) \<longleftrightarrow> \<not> task_timer_active (cl_tmr c)" for c
    by (auto simp: client_inv_def attempt_running_def attempt_idle_def)
  ultimately show ?thesis using s(1) by fastforce
qed

text \<open>Two clients from static memory: the first connects after a timeout and a retry, the second fails at once.\<close>

definition sample_client :: tcp_client where
  "sample_client = \<lparr>cl_name = [], cl_connected = False, cl_connector = \<lparr>tc_sd = 0, tc_is_in_prog = False, tc_tmr = task_timer_init,
     tc_watcher = watcher_init_with_fd 0, tc_opened = [], tc_closed = [], tc_taken = []\<rparr>, cl_tmr = task_timer_init, cl_to = []\<rparr>"

theorem tcp_clients_never_stuck_witness:
  "\<exists>s a b. tcp_client_task_start \<lparr>co_socket = 7, co_connect = Conn_EINPROGRESS\<rparr> \<lparr>co_socket = -1, co_connect = Conn_error\<rparr>
      (sample_client, sample_client) = Some s
    \<and> clients_run s [(True, Cl_timeout \<lparr>co_socket = 7, co_connect = Conn_error\<rparr>), (True, Cl_retry \<lparr>co_socket = 8, co_connect = Conn_ok\<rparr>)] = Some (a, b)
    \<and> client_inv a \<and> client_inv b"
proof -
  have "client_blank sample_client"
    by (simp add: client_blank_def sample_client_def attempt_idle_def tc_watching_def watcher_init_with_fd_def ev_io_init_def timer_simps)
  from tcp_clients_never_stuck [OF this this] show ?thesis by blast
qed

section \<open>The servers\<close>

record server_demo =
  sd_ipv4 :: tcp_server
  sd_unix :: tcp_server
  sd_stopped :: bool
  sd_refused :: "int list"

definition test_timer_expired :: "server_demo \<Rightarrow> server_demo" where
  "test_timer_expired d =
     (let d = (if \<not> sd_stopped d
          then d\<lparr>sd_ipv4 := tcp_server_stop (sd_ipv4 d), sd_unix := tcp_server_stop (sd_unix d)\<rparr>
          else d\<lparr>sd_ipv4 := tcp_server_start (sd_ipv4 d), sd_unix := tcp_server_start (sd_unix d)\<rparr>)
      in d\<lparr>sd_stopped := \<not> sd_stopped d\<rparr>)"

text \<open>A new connection is closed at once, whichever server it came from.\<close>

definition tcp_server_new_client :: "int \<Rightarrow> server_demo \<Rightarrow> server_demo" where
  "tcp_server_new_client newsd d = d\<lparr>sd_refused := sd_refused d @ [newsd]\<rparr>"

text \<open>The results of the initialisations are ignored.\<close>

definition tcp_server_task_start :: "listen_outcome \<Rightarrow> (sock_family \<Rightarrow> listen_outcome) \<Rightarrow> server_demo \<Rightarrow> server_demo option" where
  "tcp_server_task_start out os d = do {
     (s4, _) \<leftarrow> tcp_server_ipv4_init out (sd_ipv4 d) 8590;
     (su, _) \<leftarrow> tcp_server_unix_domain_init os (sd_unix d) ''/tmp/.kongja_express_path'';
     Some (d\<lparr>sd_ipv4 := tcp_server_start s4, sd_unix := tcp_server_start su\<rparr>) }"

definition srv_watched :: "tcp_server \<Rightarrow> bool" where
  "srv_watched s \<longleftrightarrow> io_active (w_rx_io (srv_watcher s))"

text \<open>A server with a good watcher listens, and its socket is watched, exactly if it was started last.\<close>

definition server_is :: "tcp_server \<Rightarrow> bool \<Rightarrow> bool" where
  "server_is s on \<longleftrightarrow> srv_is_listening s = on \<and> watcher_inv (srv_watcher s) \<and> sw_rx (w_switches (srv_watcher s))
     \<and> sw_on (w_switches (srv_watcher s)) = on"

lemma server_is_watched: "server_is s on \<Longrightarrow> srv_watched s = on"
  by (auto simp: server_is_def srv_watched_def watcher_inv_def w_switches_def)

lemma server_switches:
  "server_is s on \<Longrightarrow> server_is (tcp_server_start s) True" "server_is s on \<Longrightarrow> server_is (tcp_server_stop s) False"
  using watcher_start_spec [of "srv_watcher s"] watcher_stop_spec [of "srv_watcher s"]
  by (cases on; auto simp: server_is_def tcp_server_start_def tcp_server_stop_def)+

lemma tick_switches:
  "server_is (sd_ipv4 d) on \<Longrightarrow> sd_stopped d = (\<not> on) \<Longrightarrow>
    server_is (sd_ipv4 (test_timer_expired d)) (\<not> on) \<and> sd_stopped (test_timer_expired d) = on"
  using server_switches [of "sd_ipv4 d" on] by (cases on) (simp_all add: test_timer_expired_def Let_def)

text \<open>The IPv4 server of the demonstration, when its socket could be set up, listens except between odd and even ticks.\<close>

lemma demo_server_toggles:
  assumes "tcp_server_task_start out os d = Some d0" "0 \<le> out_socket out" "out_bind out = 0" "out_listen out = 0" "\<not> sd_stopped d"
  shows "srv_watched (sd_ipv4 ((test_timer_expired ^^ n) d0)) \<longleftrightarrow> even n"
proof -
  have "server_is (sd_ipv4 ((test_timer_expired ^^ n) d0)) (even n) \<and> sd_stopped ((test_timer_expired ^^ n) d0) = odd n"
  proof (induction n)
    case 0
    let ?s = "(sd_ipv4 d)\<lparr>srv_server_type := tcp_server_type_ipv4, srv_addr := Ipv4_addr 8590, srv_sd := -1\<rparr>"
    obtain w where w: "tcp_server_init ?s (out_socket out) = Some (?s\<lparr>srv_sd := out_socket out, srv_is_listening := False, srv_watcher := w\<rparr>)"
        "watcher_inv w" "sw_rx (w_switches w)" "\<not> sw_on (w_switches w)"
      using tcp_server_init_spec by blast
    then have "server_is (?s\<lparr>srv_sd := out_socket out, srv_is_listening := False, srv_watcher := w\<rparr>) False" by (simp add: server_is_def)
    from server_switches(1) [OF this] show ?case using assms w(1)
      by (auto simp: tcp_server_task_start_def tcp_server_ipv4_init_def init_tcp_server_ipv4_def Let_def)
  next
    case (Suc n)
    then show ?case using tick_switches by auto
  qed
  then show ?thesis using server_is_watched by blast
qed

end
