(* ===== verification/Cjson_Print.thy ===== *)
theory Cjson_Print
  imports Cjson_Parse
begin

text \<open>
  \<open>src/utils/cJSON.c\<close>, the printer into strings of their own (\<open>cJSON_Print\<close>, \<open>cJSON_PrintUnformatted\<close>). A string is its
  bytes without the terminator; every byte written is checked against the size the source asked \<open>malloc\<close> for.
  \<open>malloc\<close> and \<open>free\<close> are counted as in \<open>Cjson\<close>. What the printer asks about a \<open>double\<close>, and the texts the C
  library makes of one, are its environment. Lengths are below \<open>2^31\<close>, so that they are an \<open>int\<close>.
\<close>

section \<open>Environment\<close>

text \<open>
  \<open>pe_zero d\<close>: \<open>d==0\<close>. \<open>pe_is_int i d\<close>: \<open>fabs((double)i-d)<=DBL_EPSILON && d<=INT_MAX && d>=INT_MIN\<close>. \<open>pe_whole d\<close>:
  \<open>fabs(floor(d)-d)<=DBL_EPSILON && fabs(d)<1.0e60\<close>. \<open>pe_extreme d\<close>: \<open>fabs(d)<1.0e-6 || fabs(d)>1.0e9\<close>. The last
  three are \<open>sprintf\<close> with \<open>%.0f\<close>, \<open>%e\<close> and \<open>%f\<close>.
\<close>

record print_env =
  pe_malloc :: "nat \<Rightarrow> u64"
  pe_zero :: "u64 \<Rightarrow> bool"
  pe_is_int :: "u32 \<Rightarrow> u64 \<Rightarrow> bool"
  pe_whole :: "u64 \<Rightarrow> bool"
  pe_extreme :: "u64 \<Rightarrow> bool"
  pe_fmt_0f :: "u64 \<Rightarrow> u8 list"
  pe_fmt_e :: "u64 \<Rightarrow> u8 list"
  pe_fmt_f :: "u64 \<Rightarrow> u8 list"

type_synonym printed = "u8 list option \<times> cj_state"

section \<open>Blocks\<close>

text \<open>The terminator, which the next write may replace.\<close>

definition put_nul :: "nat \<Rightarrow> u8 list \<Rightarrow> u8 list option" where
  "put_nul cap out = do { _ \<leftarrow> put_out cap out [0]; Some out }"

text \<open>\<open>malloc\<close> a block of \<open>cap\<close> bytes and, if there is one, write a string into it.\<close>

definition new_block :: "print_env \<Rightarrow> nat \<Rightarrow> (nat \<Rightarrow> u8 list option) \<Rightarrow> cj_state \<Rightarrow> printed option" where
  "new_block P cap fill s =
     (case cJSON_malloc (pe_malloc P) s of (a, s) \<Rightarrow>
        if a = 0 then Some (None, s) else do { out \<leftarrow> fill cap; Some (Some out, s) })"

definition c_strcpy :: "u8 list \<Rightarrow> nat \<Rightarrow> u8 list option" where
  "c_strcpy str cap = do { out \<leftarrow> put_out cap [] str; put_nul cap out }"

definition cJSON_strdup :: "print_env \<Rightarrow> u8 list \<Rightarrow> cj_state \<Rightarrow> printed option" where
  "cJSON_strdup P str s = new_block P (length str + 1) (c_strcpy str) s"

primrec free_blocks :: "nat \<Rightarrow> cj_state \<Rightarrow> cj_state option" where
  "free_blocks 0 s = Some s"
| "free_blocks (Suc n) s = do { s \<leftarrow> cJSON_free s; free_blocks n s }"

section \<open>Numbers\<close>

text \<open>\<open>%d\<close>.\<close>

fun nat_digits :: "nat \<Rightarrow> u8 list" where
  "nat_digits n = (if n < 10 then [of_nat (48 + n)] else nat_digits (n div 10) @ [of_nat (48 + n mod 10)])"

declare nat_digits.simps [simp del]

definition int_text :: "int \<Rightarrow> u8 list" where
  "int_text i = (if i < 0 then ch_minus # nat_digits (nat (- i)) else nat_digits (nat i))"

definition print_number :: "print_env \<Rightarrow> u32 \<Rightarrow> u64 \<Rightarrow> cj_state \<Rightarrow> printed option" where
  "print_number P i d s =
     (if pe_zero P d then new_block P 2 (c_strcpy [ch_zero]) s
      else if pe_is_int P i d then new_block P 21 (c_strcpy (int_text (sint i))) s
      else new_block P 64 (c_strcpy
        (if pe_whole P d then pe_fmt_0f P d else if pe_extreme P d then pe_fmt_e P d else pe_fmt_f P d)) s)"

section \<open>Strings\<close>

definition needs_escape :: "u8 \<Rightarrow> bool" where
  "needs_escape c \<longleftrightarrow> 0 < c \<and> c < 32 \<or> c = ch_quote \<or> c = ch_backslash"

text \<open>The length the first pass counts for a character: two for those of \<open>strchr\<close>, six for other control characters.\<close>

definition escaped_length :: "u8 \<Rightarrow> nat" where
  "escaped_length c = (if c \<in> {34, 92, 8, 12, 10, 13, 9} then 2 else if c < 32 then 6 else 1)"

definition hex_char :: "nat \<Rightarrow> u8" where
  "hex_char n = of_nat (if n < 10 then 48 + n else 87 + n)"

text \<open>\<open>sprintf(ptr2,"u%04x",token)\<close> of a byte.\<close>

definition u_escape :: "u8 \<Rightarrow> u8 list" where
  "u_escape c = [ch_u, ch_zero, ch_zero, hex_char (unat c div 16), hex_char (unat c mod 16)]"

definition print_escape :: "nat \<Rightarrow> u8 \<Rightarrow> u8 list \<Rightarrow> u8 list option" where
  "print_escape cap token out =
     (if token = ch_backslash then put_out cap out [ch_backslash]
      else if token = ch_quote then put_out cap out [ch_quote]
      else if token = 8 then put_out cap out [98]
      else if token = 12 then put_out cap out [102]
      else if token = 10 then put_out cap out [110]
      else if token = 13 then put_out cap out [114]
      else if token = 9 then put_out cap out [116]
      else do { out \<leftarrow> put_out cap out (u_escape token); put_nul cap out })"

fun print_chars :: "nat \<Rightarrow> u8 list \<Rightarrow> u8 list \<Rightarrow> u8 list option" where
  "print_chars cap [] out = Some out"
| "print_chars cap (c # cs) out = do {
     out \<leftarrow> (if 31 < c \<and> c \<noteq> ch_quote \<and> c \<noteq> ch_backslash then put_out cap out [c]
       else do { out \<leftarrow> put_out cap out [ch_backslash]; print_escape cap c out });
     print_chars cap cs out }"

text \<open>Without a string the first loop dereferences NULL; the test for it comes later.\<close>

definition print_string_ptr :: "print_env \<Rightarrow> c_string option \<Rightarrow> cj_state \<Rightarrow> printed option" where
  "print_string_ptr P p s =
     (case p of None \<Rightarrow> None
      | Some (_, str) \<Rightarrow>
          if \<not> list_ex needs_escape str
          then new_block P (length str + 3) (\<lambda>cap. do {
            out \<leftarrow> put_out cap [] [ch_quote];
            out \<leftarrow> put_out cap out str;
            _ \<leftarrow> put_nul cap out;
            out \<leftarrow> put_out cap out [ch_quote];
            put_nul cap out }) s
          else new_block P (sum_list (map escaped_length str) + 3) (\<lambda>cap. do {
            out \<leftarrow> put_out cap [] [ch_quote];
            out \<leftarrow> print_chars cap str out;
            out \<leftarrow> put_out cap out [ch_quote];
            put_nul cap out }) s)"

section \<open>Arrays and objects\<close>

definition if_fmt :: "bool \<Rightarrow> u8 list \<Rightarrow> u8 list" where
  "if_fmt fmt bs = (if fmt then bs else [])"

text \<open>An array's text from those of its entries.\<close>

fun compose_entries :: "nat \<Rightarrow> bool \<Rightarrow> u8 list list \<Rightarrow> u8 list \<Rightarrow> u8 list option" where
  "compose_entries cap fmt [] out = Some out"
| "compose_entries cap fmt (e # es) out = do {
     out \<leftarrow> put_out cap out e;
     if es = [] then Some out
     else do {
       out \<leftarrow> put_out cap out (ch_comma # if_fmt fmt [32]);
       out \<leftarrow> put_nul cap out;
       compose_entries cap fmt es out } }"

definition compose_array :: "bool \<Rightarrow> u8 list list \<Rightarrow> nat \<Rightarrow> u8 list option" where
  "compose_array fmt es cap = do {
     out \<leftarrow> put_out cap [] [ch_lbracket];
     out \<leftarrow> put_nul cap out;
     out \<leftarrow> compose_entries cap fmt es out;
     out \<leftarrow> put_out cap out [ch_rbracket];
     put_nul cap out }"

definition array_length :: "bool \<Rightarrow> u8 list list \<Rightarrow> nat" where
  "array_length fmt es = 5 + sum_list (map (\<lambda>e. length e + 2 + (if fmt then 1 else 0)) es)"

text \<open>The pieces there are to free.\<close>

definition count_some :: "u8 list option list \<Rightarrow> nat" where
  "count_some rs = length (filter (\<lambda>r. r \<noteq> None) rs)"

text \<open>
  \<open>print_array\<close> when its entries have been printed, up to the first that failed: the pieces are freed whether the
  whole is composed or not, and so is the array of pointers to them.
\<close>

definition print_array_end :: "print_env \<Rightarrow> bool \<Rightarrow> u8 list option list \<Rightarrow> cj_state \<Rightarrow> printed option" where
  "print_array_end P fmt rs s = do {
     (out, s) \<leftarrow> (if None \<in> set rs then Some (None, s)
       else new_block P (array_length fmt (map the rs)) (compose_array fmt (map the rs)) s);
     s \<leftarrow> free_blocks (count_some rs) s;
     s \<leftarrow> cJSON_free s;
     Some (out, s) }"

text \<open>An object's text from those of its members, with \<open>depth\<close> as it is inside the object.\<close>

fun compose_members :: "nat \<Rightarrow> bool \<Rightarrow> nat \<Rightarrow> (u8 list \<times> u8 list) list \<Rightarrow> u8 list \<Rightarrow> u8 list option" where
  "compose_members cap fmt depth [] out = Some out"
| "compose_members cap fmt depth ((n, e) # ms) out = do {
     out \<leftarrow> put_out cap out (if_fmt fmt (replicate depth 9));
     out \<leftarrow> put_out cap out n;
     out \<leftarrow> put_out cap out (ch_colon # if_fmt fmt [9]);
     out \<leftarrow> put_out cap out e;
     _ \<leftarrow> put_nul cap out;
     out \<leftarrow> put_out cap out ((if ms = [] then [] else [ch_comma]) @ if_fmt fmt [10]);
     out \<leftarrow> put_nul cap out;
     compose_members cap fmt depth ms out }"

definition compose_object :: "bool \<Rightarrow> nat \<Rightarrow> (u8 list \<times> u8 list) list \<Rightarrow> nat \<Rightarrow> u8 list option" where
  "compose_object fmt depth ms cap = do {
     out \<leftarrow> put_out cap [] (ch_lbrace # if_fmt fmt [10]);
     out \<leftarrow> put_nul cap out;
     out \<leftarrow> compose_members cap fmt depth ms out;
     out \<leftarrow> put_out cap out (if_fmt fmt (replicate (depth - 1) 9));
     out \<leftarrow> put_out cap out [ch_rbrace];
     put_nul cap out }"

definition object_length :: "bool \<Rightarrow> nat \<Rightarrow> (u8 list \<times> u8 list) list \<Rightarrow> nat" where
  "object_length fmt depth ms = 7 + (if fmt then depth else 0)
     + sum_list (map (\<lambda>(n, e). length e + length n + 2 + (if fmt then 2 + depth else 0)) ms)"

definition print_object_end :: "print_env \<Rightarrow> bool \<Rightarrow> nat \<Rightarrow> (u8 list option \<times> u8 list option) list \<Rightarrow> cj_state \<Rightarrow> printed option" where
  "print_object_end P fmt depth rs s = do {
     let ms = map (\<lambda>(n, e). (the n, the e)) rs;
     (out, s) \<leftarrow> (if None \<in> set (map fst rs) \<or> None \<in> set (map snd rs) then Some (None, s)
       else new_block P (object_length fmt depth ms) (compose_object fmt depth ms) s);
     s \<leftarrow> free_blocks (count_some (map fst rs) + count_some (map snd rs)) s;
     s \<leftarrow> cJSON_free s;
     s \<leftarrow> cJSON_free s;
     Some (out, s) }"

definition print_empty_object :: "print_env \<Rightarrow> nat \<Rightarrow> bool \<Rightarrow> cj_state \<Rightarrow> printed option" where
  "print_empty_object P depth fmt s = new_block P (if fmt then depth + 4 else 3)
     (c_strcpy (ch_lbrace # if_fmt fmt (10 # replicate (depth - 1) 9) @ [ch_rbrace])) s"

section \<open>Values\<close>

text \<open>
  The loop over an array's children ends at the first failure, that over an object's members does not. An
  object allocates its array of names after that of its entries and frees that one if it fails.
\<close>

fun print_value :: "print_env \<Rightarrow> cJSON \<Rightarrow> nat \<Rightarrow> bool \<Rightarrow> cj_state \<Rightarrow> printed option" and
    print_entries :: "print_env \<Rightarrow> cJSON list \<Rightarrow> nat \<Rightarrow> bool \<Rightarrow> cj_state \<Rightarrow> (u8 list option list \<times> cj_state) option" and
    print_members :: "print_env \<Rightarrow> cJSON list \<Rightarrow> nat \<Rightarrow> bool \<Rightarrow> cj_state \<Rightarrow> ((u8 list option \<times> u8 list option) list \<times> cj_state) option" where
  "print_value P (CJSON ty v i d name ch) depth fmt s = (case ty of
     cJSON_NULL \<Rightarrow> cJSON_strdup P lit_null s
   | cJSON_False \<Rightarrow> cJSON_strdup P lit_false s
   | cJSON_True \<Rightarrow> cJSON_strdup P lit_true s
   | cJSON_Number \<Rightarrow> print_number P i d s
   | cJSON_String \<Rightarrow> print_string_ptr P v s
   | cJSON_Array \<Rightarrow>
       (if ch = [] then new_block P 3 (c_strcpy [ch_lbracket, ch_rbracket]) s
        else case cJSON_malloc (pe_malloc P) s of (a, s) \<Rightarrow>
          if a = 0 then Some (None, s)
          else do {
            (rs, s) \<leftarrow> print_entries P ch (depth + 1) fmt s;
            print_array_end P fmt rs s })
   | cJSON_Object \<Rightarrow>
       (if ch = [] then print_empty_object P depth fmt s
        else case cJSON_malloc (pe_malloc P) s of (a, s) \<Rightarrow>
          if a = 0 then Some (None, s)
          else case cJSON_malloc (pe_malloc P) s of (b, s) \<Rightarrow>
            if b = 0 then do { s \<leftarrow> cJSON_free s; Some (None, s) }
            else do {
              (rs, s) \<leftarrow> print_members P ch (depth + 1) fmt s;
              print_object_end P fmt (depth + 1) rs s }))"
| "print_entries P [] depth fmt s = Some ([], s)"
| "print_entries P (c # cs) depth fmt s = do {
     (r, s) \<leftarrow> print_value P c depth fmt s;
     if r = None then Some ([None], s)
     else do { (rs, s) \<leftarrow> print_entries P cs depth fmt s; Some (r # rs, s) } }"
| "print_members P [] depth fmt s = Some ([], s)"
| "print_members P (c # cs) depth fmt s = do {
     (n, s) \<leftarrow> print_string_ptr P (js_string c) s;
     (r, s) \<leftarrow> print_value P c depth fmt s;
     (rs, s) \<leftarrow> print_members P cs depth fmt s;
     Some ((n, r) # rs, s) }"

definition cJSON_Print :: "print_env \<Rightarrow> cJSON \<Rightarrow> cj_state \<Rightarrow> printed option" where
  "cJSON_Print P item s = print_value P item 0 True s"

definition cJSON_PrintUnformatted :: "print_env \<Rightarrow> cJSON \<Rightarrow> cj_state \<Rightarrow> printed option" where
  "cJSON_PrintUnformatted P item s = print_value P item 0 False s"

end
