(* ===== verification/Cjson_Printed.thy ===== *)
theory Cjson_Printed
  imports Cjson_Print Cjson_Accepts
begin

text \<open>
  What the printer of \<open>src/utils/cJSON.c\<close> writes: \<open>print_text\<close> gives the text of a tree directly. The printer answers
  that text, or NULL when \<open>malloc\<close> did, and never writes outside the blocks whose sizes it computes. The
  text is JSON: the parser reads it back to the value printed.
\<close>

section \<open>The text of a tree\<close>

definition escape_tail :: "u8 \<Rightarrow> u8 list" where
  "escape_tail c = (if c = ch_backslash then [ch_backslash] else if c = ch_quote then [ch_quote] else if c = 8 then [98]
     else if c = 12 then [102] else if c = 10 then [110] else if c = 13 then [114] else if c = 9 then [116] else u_escape c)"

definition escape_byte :: "u8 \<Rightarrow> u8 list" where
  "escape_byte c = (if 31 < c \<and> c \<noteq> ch_quote \<and> c \<noteq> ch_backslash then [c] else ch_backslash # escape_tail c)"

definition quoted :: "u8 list \<Rightarrow> u8 list" where
  "quoted str = ch_quote # concat (map escape_byte str) @ [ch_quote]"

definition number_bytes :: "print_env \<Rightarrow> u32 \<Rightarrow> u64 \<Rightarrow> u8 list" where
  "number_bytes P i d = (if pe_zero P d then [ch_zero] else if pe_is_int P i d then int_text (sint i)
     else if pe_whole P d then pe_fmt_0f P d else if pe_extreme P d then pe_fmt_e P d else pe_fmt_f P d)"

fun join_entries :: "bool \<Rightarrow> u8 list list \<Rightarrow> u8 list" where
  "join_entries fmt [] = []"
| "join_entries fmt (e # es) = e @ (if es = [] then [] else ch_comma # if_fmt fmt [32]) @ join_entries fmt es"

fun join_members :: "bool \<Rightarrow> nat \<Rightarrow> (u8 list \<times> u8 list) list \<Rightarrow> u8 list" where
  "join_members fmt depth [] = []"
| "join_members fmt depth ((n, e) # ms) = if_fmt fmt (replicate depth 9) @ n @ (ch_colon # if_fmt fmt [9]) @ e
     @ (if ms = [] then [] else [ch_comma]) @ if_fmt fmt [10] @ join_members fmt depth ms"

definition array_text :: "bool \<Rightarrow> u8 list list \<Rightarrow> u8 list" where
  "array_text fmt es = ch_lbracket # join_entries fmt es @ [ch_rbracket]"

text \<open>\<open>depth\<close> is that outside the object.\<close>

definition object_text :: "bool \<Rightarrow> nat \<Rightarrow> (u8 list \<times> u8 list) list \<Rightarrow> u8 list" where
  "object_text fmt depth ms = (ch_lbrace # if_fmt fmt [10]) @ join_members fmt (depth + 1) ms
     @ if_fmt fmt (replicate (if ms = [] then depth - 1 else depth) 9) @ [ch_rbrace]"

definition name_of :: "cJSON \<Rightarrow> u8 list" where
  "name_of c = (case js_string c of None \<Rightarrow> [] | Some (_, n) \<Rightarrow> n)"

fun print_text :: "print_env \<Rightarrow> bool \<Rightarrow> nat \<Rightarrow> cJSON \<Rightarrow> u8 list" where
  "print_text P fmt depth (CJSON ty v i d name ch) = (case ty of
     cJSON_NULL \<Rightarrow> lit_null | cJSON_False \<Rightarrow> lit_false | cJSON_True \<Rightarrow> lit_true
   | cJSON_Number \<Rightarrow> number_bytes P i d
   | cJSON_String \<Rightarrow> quoted (case v of None \<Rightarrow> [] | Some (_, str) \<Rightarrow> str)
   | cJSON_Array \<Rightarrow> array_text fmt (map (print_text P fmt (depth + 1)) ch)
   | cJSON_Object \<Rightarrow> object_text fmt depth (map (\<lambda>c. (quoted (name_of c), print_text P fmt (depth + 1) c)) ch))"

section \<open>Blocks are large enough\<close>

lemma put_out_ok: "length out + length bs \<le> cap \<Longrightarrow> put_out cap out bs = Some (out @ bs)"
  by (simp add: put_out_def)

lemma put_nul_ok: "length out < cap \<Longrightarrow> put_nul cap out = Some out"
  by (simp add: put_nul_def put_out_def)

lemma c_strcpy_ok: "length str < cap \<Longrightarrow> c_strcpy str cap = Some str"
  by (simp add: c_strcpy_def put_out_ok put_nul_ok)

lemma escape_tail_length: "length (escape_tail c) = (if c \<in> {34, 92, 8, 12, 10, 13, 9} then 1 else 5)"
  unfolding escape_tail_def u_escape_def by (simp split: if_split)

lemma escape_byte_length: "length (escape_byte c) \<le> escaped_length c"
proof (cases "31 < c \<and> c \<noteq> ch_quote \<and> c \<noteq> ch_backslash")
  case True
  then show ?thesis by (simp add: escape_byte_def escaped_length_def)
next
  case False
  then have "c < 32 \<or> c = 34 \<or> c = 92" by (auto simp: word_less_nat_alt)
  with False show ?thesis by (auto simp: escape_byte_def escaped_length_def escape_tail_length)
qed

lemma print_escape_ok:
  assumes "length out + length (escape_tail c) < cap"
  shows "print_escape cap c out = Some (out @ escape_tail c)"
  using assms unfolding print_escape_def escape_tail_def
  by (simp add: put_out_ok put_nul_ok split: if_split_asm if_split)

lemma print_chars_ok:
  "length out + length (concat (map escape_byte str)) < cap \<Longrightarrow>
    print_chars cap str out = Some (out @ concat (map escape_byte str))"
proof (induction str arbitrary: out)
  case (Cons c cs)
  show ?case
  proof (cases "31 < c \<and> c \<noteq> ch_quote \<and> c \<noteq> ch_backslash")
    case True
    then show ?thesis using Cons.IH [of "out @ [c]"] Cons.prems by (simp add: escape_byte_def put_out_ok)
  next
    case False
    then have e: "escape_byte c = ch_backslash # escape_tail c" by (simp only: escape_byte_def if_False)
    have "put_out cap out [ch_backslash] = Some (out @ [ch_backslash])" using Cons.prems e by (simp add: put_out_ok)
    moreover have "print_escape cap c (out @ [ch_backslash]) = Some (out @ [ch_backslash] @ escape_tail c)"
      using Cons.prems e by (simp add: print_escape_ok)
    ultimately show ?thesis using Cons.IH [of "out @ ch_backslash # escape_tail c"] Cons.prems e
      by (simp only: print_chars.simps if_not_P [OF False] bind.bind_lunit) simp
  qed
qed simp

lemma plain_copied: "\<not> list_ex needs_escape str \<Longrightarrow> 0 \<notin> set str \<Longrightarrow> concat (map escape_byte str) = str"
proof (induction str)
  case (Cons c cs)
  then have "\<not> needs_escape c" "0 < c" by (simp_all add: word_gt_0)
  then have "\<not> c < 32" "c \<noteq> ch_quote" "c \<noteq> ch_backslash" by (simp_all add: needs_escape_def)
  moreover from this(1) have "31 < c" by (simp add: word_less_nat_alt)
  ultimately show ?case using Cons by (simp add: escape_byte_def)
qed simp

lemma escaped_sum: "length (concat (map escape_byte str)) \<le> sum_list (map escaped_length str)"
  by (induction str) (use escape_byte_length in \<open>auto intro: add_mono\<close>)

lemma compose_entries_ok:
  "length out + length (join_entries fmt es) < cap \<Longrightarrow> compose_entries cap fmt es out = Some (out @ join_entries fmt es)"
  by (induction es arbitrary: out) (auto simp: put_out_ok put_nul_ok)

lemma join_entries_length: "length (join_entries fmt es) + 5 \<le> array_length fmt es"
  by (induction fmt es rule: join_entries.induct) (auto simp: array_length_def if_fmt_def)

lemma compose_array_ok: "compose_array fmt es (array_length fmt es) = Some (array_text fmt es)"
  using join_entries_length [of fmt es]
  by (simp add: compose_array_def array_text_def put_out_ok put_nul_ok compose_entries_ok)

lemma compose_members_ok:
  "length out + length (join_members fmt depth ms) < cap \<Longrightarrow> compose_members cap fmt depth ms out = Some (out @ join_members fmt depth ms)"
  by (induction fmt depth ms arbitrary: out rule: join_members.induct) (auto simp: put_out_ok put_nul_ok)

lemma join_members_length: "length (join_members fmt depth ms) + 7 + (if fmt then depth else 0) \<le> object_length fmt depth ms"
  by (induction fmt depth ms rule: join_members.induct) (auto simp: object_length_def if_fmt_def)

lemma compose_object_ok:
  "ms \<noteq> [] \<Longrightarrow> compose_object fmt (depth + 1) ms (object_length fmt (depth + 1) ms) = Some (object_text fmt depth ms)"
  using join_members_length [of fmt "depth + 1" ms]
  by (cases fmt) (simp_all add: compose_object_def object_text_def put_out_ok put_nul_ok compose_members_ok if_fmt_def)

lemma nat_digits_length: "n < 10 ^ Suc k \<Longrightarrow> length (nat_digits n) \<le> Suc k"
proof (induction k arbitrary: n)
  case (Suc k)
  then have "n div 10 < 10 ^ Suc k" by (simp add: less_mult_imp_div_less)
  with Suc.IH show ?case by (subst nat_digits.simps) simp
qed (simp add: nat_digits.simps)

lemma int_text_length: "length (int_text (sint (i :: u32))) < 21"
proof -
  have "\<bar>sint i\<bar> \<le> 2 ^ 31" using sint_ge [of i] sint_lt [of i] by simp
  then have "nat (- sint i) < 10 ^ Suc 9" "nat (sint i) < 10 ^ Suc 9" by simp_all
  from this [THEN nat_digits_length] show ?thesis by (auto simp: int_text_def)
qed

section \<open>The printer answers the text or NULL\<close>

text \<open>Trees whose strings are C strings and where those to be printed exist; texts of doubles that fit their block.\<close>

definition c_string_ok :: "c_string option \<Rightarrow> bool" where
  "c_string_ok p \<longleftrightarrow> (case p of None \<Rightarrow> False | Some (_, str) \<Rightarrow> 0 \<notin> set str)"

fun tree_ok :: "cJSON \<Rightarrow> bool" where
  "tree_ok (CJSON ty v i d name ch) = (case ty of
     cJSON_String \<Rightarrow> c_string_ok v
   | cJSON_Array \<Rightarrow> (\<forall>c \<in> set ch. tree_ok c)
   | cJSON_Object \<Rightarrow> (\<forall>c \<in> set ch. c_string_ok (js_string c) \<and> tree_ok c)
   | _ \<Rightarrow> True)"

definition formats_fit :: "print_env \<Rightarrow> bool" where
  "formats_fit P \<longleftrightarrow> (\<forall>d. (pe_whole P d \<longrightarrow> length (pe_fmt_0f P d) < 64)
     \<and> (\<not> pe_whole P d \<and> pe_extreme P d \<longrightarrow> length (pe_fmt_e P d) < 64)
     \<and> (\<not> pe_whole P d \<and> \<not> pe_extreme P d \<longrightarrow> length (pe_fmt_f P d) < 64))"

definition never_null :: "print_env \<Rightarrow> bool" where
  "never_null P \<longleftrightarrow> (\<forall>i. pe_malloc P i \<noteq> 0)"

text \<open>A result is the text \<open>t\<close> in one block more, or NULL with no block more, and then some allocation failed.\<close>

definition prints :: "print_env \<Rightarrow> u8 list \<Rightarrow> cj_state \<Rightarrow> printed option \<Rightarrow> bool" where
  "prints P t s x \<longleftrightarrow> (\<exists>r s'. x = Some (r, s') \<and> cj_live s' = cj_live s + (if r = None then 0 else 1)
     \<and> (r = None \<and> \<not> never_null P \<or> r = Some t))"

lemma malloc_cases:
  obtains a s' where "cJSON_malloc al s = (a, s')" "cj_live s' = (if a = 0 then cj_live s else cj_live s + 1)"
    "a = 0 \<longrightarrow> (\<exists>i. al i = 0)"
  by (cases "cJSON_malloc al s") (auto simp: cJSON_malloc_def Let_def)

lemma new_block_prints:
  assumes "fill cap = Some t"
  shows "prints P t s (new_block P cap fill s)"
proof -
  obtain a s' where "cJSON_malloc (pe_malloc P) s = (a, s')" "cj_live s' = (if a = 0 then cj_live s else cj_live s + 1)"
      "a = 0 \<longrightarrow> (\<exists>i. pe_malloc P i = 0)" by (rule malloc_cases [of "pe_malloc P" s])
  then show ?thesis using assms by (auto simp: new_block_def prints_def never_null_def)
qed

lemma print_string_prints:
  assumes "c_string_ok p"
  shows "prints P (quoted (snd (the p))) s (print_string_ptr P p s)"
proof -
  obtain a str where p: "p = Some (a, str)" "0 \<notin> set str" using assms by (auto simp: c_string_ok_def split: option.splits)
  show ?thesis
  proof (cases "list_ex needs_escape str")
    case True
    then show ?thesis using escaped_sum [of str]
      by (auto simp: print_string_ptr_def p(1) quoted_def put_out_ok put_nul_ok print_chars_ok intro!: new_block_prints)
  next
    case False
    then show ?thesis using plain_copied [OF False p(2)]
      by (auto simp: print_string_ptr_def p(1) quoted_def put_out_ok put_nul_ok intro!: new_block_prints)
  qed
qed

lemma print_number_prints:
  assumes "formats_fit P"
  shows "prints P (number_bytes P i d) s (print_number P i d s)"
  using assms int_text_length [of i] unfolding print_number_def number_bytes_def
  by (auto simp: formats_fit_def intro!: new_block_prints c_strcpy_ok)

lemma free_blocks_ok: "n \<le> cj_live s \<Longrightarrow> free_blocks n s = Some (s\<lparr>cj_live := cj_live s - n\<rparr>)"
  by (induction n arbitrary: s) (auto simp: cJSON_free_def)

lemma count_some_simps [simp]:
  "count_some [] = 0" "count_some (None # rs) = count_some rs" "count_some (Some t # rs) = Suc (count_some rs)"
  by (simp_all add: count_some_def)

text \<open>The entries printed: all of them with their texts, or up to one that failed.\<close>

lemma print_entries_prints:
  assumes "\<And>c s. c \<in> set cs \<Longrightarrow> prints P (f c) s (print_value P c depth fmt s)"
  shows "\<exists>rs s'. print_entries P cs depth fmt s = Some (rs, s') \<and> cj_live s' = cj_live s + count_some rs
    \<and> (None \<in> set rs \<and> \<not> never_null P \<or> rs = map (Some \<circ> f) cs)"
  using assms
proof (induction cs arbitrary: s)
  case (Cons c cs)
  obtain r s1 where r: "print_value P c depth fmt s = Some (r, s1)" "cj_live s1 = cj_live s + (if r = None then 0 else 1)"
      "r = None \<and> \<not> never_null P \<or> r = Some (f c)"
    using Cons.prems [of c s] by (auto simp: prints_def)
  show ?case
  proof (cases r)
    case None
    with r show ?thesis by simp
  next
    case (Some t)
    obtain rs s2 where "print_entries P cs depth fmt s1 = Some (rs, s2)" "cj_live s2 = cj_live s1 + count_some rs"
        "None \<in> set rs \<and> \<not> never_null P \<or> rs = map (Some \<circ> f) cs"
      using Cons.IH [of s1] Cons.prems by auto
    with r Some show ?thesis by auto
  qed
qed simp

lemma print_members_prints:
  assumes "\<And>c s. c \<in> set cs \<Longrightarrow> c_string_ok (js_string c) \<and> prints P (f c) s (print_value P c depth fmt s)"
  shows "\<exists>rs s'. print_members P cs depth fmt s = Some (rs, s')
    \<and> cj_live s' = cj_live s + count_some (map fst rs) + count_some (map snd rs)
    \<and> ((None \<in> set (map fst rs) \<or> None \<in> set (map snd rs)) \<and> \<not> never_null P
       \<or> rs = map (\<lambda>c. (Some (quoted (snd (the (js_string c)))), Some (f c))) cs)"
  using assms
proof (induction cs arbitrary: s)
  case (Cons c cs)
  then have c: "c_string_ok (js_string c)" by simp
  obtain n s1 where n: "print_string_ptr P (js_string c) s = Some (n, s1)" "cj_live s1 = cj_live s + (if n = None then 0 else 1)"
      "n = None \<and> \<not> never_null P \<or> n = Some (quoted (snd (the (js_string c))))"
    using print_string_prints [OF c, of P s] by (auto simp: prints_def)
  obtain r s2 where r: "print_value P c depth fmt s1 = Some (r, s2)" "cj_live s2 = cj_live s1 + (if r = None then 0 else 1)"
      "r = None \<and> \<not> never_null P \<or> r = Some (f c)"
    using Cons.prems [of c s1] by (auto simp: prints_def)
  obtain rs s3 where rs: "print_members P cs depth fmt s2 = Some (rs, s3)"
      "cj_live s3 = cj_live s2 + count_some (map fst rs) + count_some (map snd rs)"
      "(None \<in> set (map fst rs) \<or> None \<in> set (map snd rs)) \<and> \<not> never_null P
       \<or> rs = map (\<lambda>c. (Some (quoted (snd (the (js_string c)))), Some (f c))) cs"
    using Cons.IH [of s2] Cons.prems by auto
  have "print_members P (c # cs) depth fmt s = Some ((n, r) # rs, s3)" using n(1) r(1) rs(1) by simp
  moreover have "cj_live s3 = cj_live s + count_some (map fst ((n, r) # rs)) + count_some (map snd ((n, r) # rs))"
    using n(2) r(2) rs(2) by (cases n; cases r) simp_all
  ultimately show ?case using n(3) r(3) rs(3)
    by (intro exI [of _ "(n, r) # rs"] exI [of _ s3]) auto
qed simp

lemma print_array_end_prints:
  assumes "cj_live s = l + 1 + count_some rs" "None \<in> set rs \<and> \<not> never_null P \<or> rs = map Some es"
  shows "\<exists>r s'. print_array_end P fmt rs s = Some (r, s') \<and> cj_live s' = l + (if r = None then 0 else 1)
    \<and> (r = None \<and> \<not> never_null P \<or> r = Some (array_text fmt es))"
proof (cases "None \<in> set rs")
  case True
  then have "\<not> never_null P" using assms(2) by auto
  then show ?thesis using True assms(1)
    by (simp add: print_array_end_def free_blocks_ok cJSON_free_def)
next
  case False
  then have rs: "rs = map Some es" "map the rs = es" using assms(2) by (auto simp: map_idI)
  obtain r s1 where "new_block P (array_length fmt es) (compose_array fmt es) s = Some (r, s1)"
      "cj_live s1 = cj_live s + (if r = None then 0 else 1)" "r = None \<and> \<not> never_null P \<or> r = Some (array_text fmt es)"
    using new_block_prints [of "compose_array fmt es" "array_length fmt es" "array_text fmt es" P s] compose_array_ok by (auto simp: prints_def)
  then show ?thesis using False assms(1) rs
    by (auto simp: print_array_end_def free_blocks_ok cJSON_free_def)
qed

lemma print_object_end_prints:
  assumes "cj_live s = l + 2 + count_some (map fst rs) + count_some (map snd rs)" "ms \<noteq> []"
    and "(None \<in> set (map fst rs) \<or> None \<in> set (map snd rs)) \<and> \<not> never_null P \<or> rs = map (\<lambda>(n, e). (Some n, Some e)) ms"
  shows "\<exists>r s'. print_object_end P fmt (depth + 1) rs s = Some (r, s') \<and> cj_live s' = l + (if r = None then 0 else 1)
    \<and> (r = None \<and> \<not> never_null P \<or> r = Some (object_text fmt depth ms))"
proof (cases "None \<in> set (map fst rs) \<or> None \<in> set (map snd rs)")
  case True
  then have "\<not> never_null P" using assms(3) by fastforce
  then show ?thesis using True assms(1)
    by (simp add: print_object_end_def free_blocks_ok cJSON_free_def Let_def del: set_map)
next
  case False
  then have rs: "rs = map (\<lambda>(n, e). (Some n, Some e)) ms" using assms(3) by blast
  then have ms: "map (\<lambda>(n, e). (the n, the e)) rs = ms" by (simp add: comp_def case_prod_beta)
  obtain r s1 where "new_block P (object_length fmt (depth + 1) ms) (compose_object fmt (depth + 1) ms) s = Some (r, s1)"
      "cj_live s1 = cj_live s + (if r = None then 0 else 1)" "r = None \<and> \<not> never_null P \<or> r = Some (object_text fmt depth ms)"
    using new_block_prints [of "compose_object fmt (depth + 1) ms" "object_length fmt (depth + 1) ms" "object_text fmt depth ms" P s] compose_object_ok [OF assms(2)] by (auto simp: prints_def)
  then show ?thesis using False assms(1) ms
    by (auto simp: print_object_end_def free_blocks_ok cJSON_free_def Let_def simp del: set_map)
qed

text \<open>An array and an object with children, whose children print.\<close>

lemma print_array_prints:
  assumes "\<And>c t. c \<in> set ch \<Longrightarrow> prints P (print_text P fmt (depth + 1) c) t (print_value P c (depth + 1) fmt t)" "ch \<noteq> []"
  shows "prints P (print_text P fmt depth (CJSON cJSON_Array v i d name ch)) s (print_value P (CJSON cJSON_Array v i d name ch) depth fmt s)"
proof -
  obtain a s1 where a: "cJSON_malloc (pe_malloc P) s = (a, s1)" "cj_live s1 = (if a = 0 then cj_live s else cj_live s + 1)"
      "a = 0 \<longrightarrow> (\<exists>i. pe_malloc P i = 0)" by (rule malloc_cases [of "pe_malloc P" s])
  show ?thesis
  proof (cases "a = 0")
    case True
    with a assms(2) show ?thesis by (auto simp: prints_def never_null_def)
  next
    case False
    obtain rs s2 where rs: "print_entries P ch (depth + 1) fmt s1 = Some (rs, s2)" "cj_live s2 = cj_live s1 + count_some rs"
        "None \<in> set rs \<and> \<not> never_null P \<or> rs = map (Some \<circ> print_text P fmt (depth + 1)) ch"
      using print_entries_prints [of ch P "print_text P fmt (depth + 1)"] assms(1) by blast
    then show ?thesis
      using print_array_end_prints [of s2 "cj_live s" rs P "map (print_text P fmt (depth + 1)) ch" fmt] a False assms(2)
      by (auto simp: prints_def)
  qed
qed

lemma print_object_prints:
  assumes "\<And>c t. c \<in> set ch \<Longrightarrow> prints P (print_text P fmt (depth + 1) c) t (print_value P c (depth + 1) fmt t)" "ch \<noteq> []"
    and named: "\<And>c. c \<in> set ch \<Longrightarrow> c_string_ok (js_string c)"
  shows "prints P (print_text P fmt depth (CJSON cJSON_Object v i d name ch)) s (print_value P (CJSON cJSON_Object v i d name ch) depth fmt s)"
proof -
  let ?text = "\<lambda>c. (quoted (name_of c), print_text P fmt (depth + 1) c)"
  obtain a s1 where a: "cJSON_malloc (pe_malloc P) s = (a, s1)" "cj_live s1 = (if a = 0 then cj_live s else cj_live s + 1)"
      "a = 0 \<longrightarrow> (\<exists>i. pe_malloc P i = 0)" by (rule malloc_cases [of "pe_malloc P" s])
  obtain b s2 where b: "cJSON_malloc (pe_malloc P) s1 = (b, s2)" "cj_live s2 = (if b = 0 then cj_live s1 else cj_live s1 + 1)"
      "b = 0 \<longrightarrow> (\<exists>i. pe_malloc P i = 0)" by (rule malloc_cases [of "pe_malloc P" s1])
  have n: "c_string_ok (js_string c) \<and> snd (the (js_string c)) = name_of c" if "c \<in> set ch" for c
    using named [OF that] by (auto simp: c_string_ok_def name_of_def split: option.splits)
  obtain rs s3 where rs: "print_members P ch (depth + 1) fmt s2 = Some (rs, s3)"
      "cj_live s3 = cj_live s2 + count_some (map fst rs) + count_some (map snd rs)"
      "(None \<in> set (map fst rs) \<or> None \<in> set (map snd rs)) \<and> \<not> never_null P
        \<or> rs = map (\<lambda>c. (Some (quoted (snd (the (js_string c)))), Some (print_text P fmt (depth + 1) c))) ch"
    using print_members_prints [of ch P "print_text P fmt (depth + 1)" "depth + 1" fmt s2] assms(1) n by blast
  have texts: "map (\<lambda>c. (Some (quoted (snd (the (js_string c)))), Some (print_text P fmt (depth + 1) c))) ch
      = map (\<lambda>(n, e). (Some n, Some e)) (map ?text ch)" using n by simp
  show ?thesis
  proof (cases "a = 0 \<or> b = 0")
    case True
    with a b assms(2) show ?thesis by (auto simp: prints_def never_null_def cJSON_free_def)
  next
    case False
    then have "cj_live s3 = cj_live s + 2 + count_some (map fst rs) + count_some (map snd rs)" using a(2) b(2) rs(2) by simp
    then obtain r s4 where "print_object_end P fmt (depth + 1) rs s3 = Some (r, s4)" "cj_live s4 = cj_live s + (if r = None then 0 else 1)"
        "r = None \<and> \<not> never_null P \<or> r = Some (object_text fmt depth (map ?text ch))"
      using print_object_end_prints [of s3 "cj_live s" rs "map ?text ch" P fmt depth] rs(3) texts assms(2) by auto
    then show ?thesis using a(1) b(1) False rs(1) assms(2) by (auto simp: prints_def)
  qed
qed

lemma print_value_prints:
  assumes fit: "formats_fit P"
  shows "tree_ok c \<Longrightarrow> prints P (print_text P fmt depth c) s (print_value P c depth fmt s)"
proof (induction c arbitrary: depth s)
  case (CJSON ty v i d name ch)
  have child: "prints P (print_text P fmt dep c) t (print_value P c dep fmt t)" if "c \<in> set ch" "ty = cJSON_Array \<or> ty = cJSON_Object" for c dep t
    using CJSON.IH [of c] CJSON.prems that by auto
  show ?case
  proof (cases "ch \<noteq> [] \<and> (ty = cJSON_Array \<or> ty = cJSON_Object)")
    case True
    then consider "ty = cJSON_Array" "ch \<noteq> []" | "ty = cJSON_Object" "ch \<noteq> []" by blast
    then show ?thesis
    proof cases
      case 1
      then show ?thesis using print_array_prints [of ch P fmt depth] child by simp
    next
      case 2
      have "c_string_ok (js_string c)" if "c \<in> set ch" for c using CJSON.prems that 2(1) by auto
      then show ?thesis using print_object_prints [of ch P fmt depth] child 2 by simp
    qed
  next
    case False
    show ?thesis
    proof (cases ty)
      case cJSON_String
      then have "prints P (quoted (snd (the v))) s (print_string_ptr P v s)" using CJSON.prems by (intro print_string_prints) simp
      moreover have "(case v of None \<Rightarrow> [] | Some (_, str) \<Rightarrow> str) = snd (the v)"
        using CJSON.prems cJSON_String by (auto simp: c_string_ok_def split: option.splits)
      ultimately show ?thesis using cJSON_String by simp
    qed (use False in \<open>auto simp: cJSON_strdup_def print_empty_object_def array_text_def object_text_def if_fmt_def
        intro!: new_block_prints c_strcpy_ok print_number_prints [OF fit]\<close>)
  qed
qed

section \<open>The text is JSON\<close>

definition int_number :: "int \<Rightarrow> json_number" where
  "int_number i = JNum (i < 0) (nat_digits (nat \<bar>i\<bar>)) [] None"

text \<open>Values whose numbers are 32-bit integers and whose strings are C strings.\<close>

fun int_values :: "json \<Rightarrow> bool" where
  "int_values (JNumber x) \<longleftrightarrow> (\<exists>i :: u32. x = int_number (sint i))"
| "int_values (JString b) \<longleftrightarrow> 0 \<notin> set b"
| "int_values (JArray vs) \<longleftrightarrow> (\<forall>v \<in> set vs. int_values v)"
| "int_values (JObject ms) \<longleftrightarrow> (\<forall>m \<in> set ms. 0 \<notin> set (fst m) \<and> int_values (snd m))"
| "int_values v \<longleftrightarrow> True"

text \<open>
  What the round trip needs of the machine's arithmetic: the digits of a 32-bit integer make a double that converts
  back to it, is 0 for 0 only, and is recognised as that integer.
\<close>

definition exact_ints :: "cj_env \<Rightarrow> print_env \<Rightarrow> bool" where
  "exact_ints E P \<longleftrightarrow> (\<forall>i :: u32. ce_to_int E (number_double E (int_number (sint i))) = Some i
     \<and> (pe_zero P (number_double E (int_number (sint i))) \<longleftrightarrow> i = 0)
     \<and> pe_is_int P i (number_double E (int_number (sint i))))"

lemma digit_byte: "k < 10 \<Longrightarrow> unat (of_nat (48 + k) :: u8) = 48 + k"
  by (simp only: unat_of_nat) simp

lemma nat_digits_ok: "digits (nat_digits n) \<and> (hd (nat_digits n) = ch_zero \<longrightarrow> nat_digits n = [ch_zero])"
proof (induction n rule: nat_digits.induct)
  case (1 n)
  have d: "is_digit (of_nat (48 + k))" if "k < 10" for k
    using that unfolding is_digit_def word_le_nat_alt by (simp only: digit_byte) simp
  show ?case
  proof (cases "n < 10")
    case True
    then show ?thesis using d [of n] by (subst (1 2 3) nat_digits.simps) (simp add: digits_def)
  next
    case False
    have "hd (nat_digits (n div 10)) \<noteq> ch_zero"
    proof
      assume "hd (nat_digits (n div 10)) = ch_zero"
      then have z: "nat_digits (n div 10) = [ch_zero]" using 1 False by blast
      show False
      proof (cases "n div 10 < 10")
        case True
        have "nat_digits (n div 10) = [of_nat (48 + n div 10)]" using True by (subst nat_digits.simps) (simp only: if_True)
        with z have "(of_nat (48 + n div 10) :: u8) = ch_zero" by simp
        with digit_byte [OF True] have "48 + n div 10 = unat ch_zero" by (simp only:)
        then have "n div 10 = 0" by simp
        then show False using False by simp
      next
        case f: False
        then have "length (nat_digits (n div 10 div 10)) = 0" using z by (subst (asm) nat_digits.simps) simp
        then show False by (subst (asm) nat_digits.simps) (simp split: if_splits)
      qed
    qed
    moreover have "digits (nat_digits (n div 10))" using 1 False by blast
    ultimately show ?thesis using False d [of "n mod 10"]
      by (subst (1 2 3) nat_digits.simps) (simp add: digits_def)
  qed
qed

lemma int_number_ok: "number_ok (int_number i)" "number_text (int_number i) = int_text i"
  using nat_digits_ok [of "nat \<bar>i\<bar>"] by (auto simp: int_number_def int_text_def)

text \<open>Strings.\<close>

lemma hex_char_ok: "n < 16 \<Longrightarrow> is_hex (hex_char n) \<and> hex_nat (hex_char n) = n"
proof -
  assume n: "n < 16"
  have u: "unat (hex_char n) = (if n < 10 then 48 + n else 87 + n)"
    unfolding hex_char_def by (simp only: unat_of_nat) (use n in simp)
  show ?thesis unfolding is_hex_def is_digit_def hex_nat_def word_le_nat_alt u using n by auto
qed

lemma u_escape_text:
  assumes "0 < c" "c < 32"
  shows "\<exists>ds. u_escape c = ch_u # ds \<and> hex4 ds (unat c) \<and> utf8 (unat c) = [c]"
proof -
  have c: "unat c < 32" using assms(2) by (simp add: word_less_nat_alt)
  then have d: "unat c div 16 < 16" "unat c mod 16 < 16" by simp_all
  have z: "is_hex ch_zero" "hex_nat ch_zero = 0" by (simp_all add: is_hex_def is_digit_def hex_nat_def)
  have "hex4 [ch_zero, ch_zero, hex_char (unat c div 16), hex_char (unat c mod 16)] (unat c)"
    using hex_char_ok [OF d(1)] hex_char_ok [OF d(2)] z by (simp add: hex4_def)
  then show ?thesis using c by (auto simp: u_escape_def utf8_def)
qed

lemma escaped_text: "0 \<notin> set str \<Longrightarrow> string_text str (concat (map escape_byte str))"
proof (induction str)
  case Nil
  show ?case by (simp add: string_nil)
next
  case (Cons c cs)
  then have t: "string_text cs (concat (map escape_byte cs))" and c0: "0 < c" by (simp_all add: word_gt_0)
  show ?case
  proof (cases "31 < c \<and> c \<noteq> ch_quote \<and> c \<noteq> ch_backslash")
    case True
    then have "32 \<le> c" by (simp add: word_less_nat_alt word_le_nat_alt)
    moreover have "escape_byte c = [c]" using True by (simp add: escape_byte_def)
    moreover have "plain c" using True c0 by (simp add: plain_def)
    ultimately show ?thesis using string_plain [OF _ _ t, of c] by simp
  next
    case False
    then have e: "escape_byte c = ch_backslash # escape_tail c" by (simp only: escape_byte_def if_False)
    show ?thesis
    proof (cases "c \<in> {34, 92, 8, 12, 10, 13, 9}")
      case True
      then have "\<exists>x. escape_tail c = [x] \<and> (x, c) \<in> set escapes" by (auto simp: escape_tail_def escapes_def)
      then obtain x where x: "escape_tail c = [x]" "(x, c) \<in> set escapes" by blast
      from string_escape [OF x(2) t] show ?thesis by (simp add: e x(1))
    next
      case plain: False
      then have "c < 32" using False by (auto simp: word_less_nat_alt)
      from u_escape_text [OF c0 this] obtain ds where ds: "u_escape c = ch_u # ds" "hex4 ds (unat c)" "utf8 (unat c) = [c]" by blast
      have "escape_tail c = u_escape c" using plain by (simp add: escape_tail_def)
      moreover have "unat c < 0xD800" "0 < unat c" using \<open>c < 32\<close> c0 by (simp_all add: word_less_nat_alt)
      ultimately show ?thesis using string_code [OF ds(2) _ _ t] e ds by simp
    qed
  qed
qed

lemma quoted_text: "0 \<notin> set str \<Longrightarrow> value_text (JString str) (quoted str)"
  unfolding quoted_def by (intro text_string escaped_text)

text \<open>White space.\<close>

lemma white_simps [simp]:
  "white []" "white (if_fmt fmt [32])" "white (if_fmt fmt [10])" "white (if_fmt fmt [9])" "white (if_fmt fmt (replicate n 9))"
  "white (v @ w) \<longleftrightarrow> white v \<and> white w"
  by (auto simp: white_def if_fmt_def)

lemma entries_text:
  assumes "list_all2 value_text vs ts" "vs \<noteq> []" "white w"
  shows "elements_text vs (w @ join_entries fmt ts)"
  using assms
proof (induction vs ts arbitrary: w rule: list_all2_induct)
  case (Cons v vs t ts)
  show ?case
  proof (cases "vs = []")
    case True
    then show ?thesis using Cons text_element [of w v t "[]"] by simp
  next
    case False
    then have "ts \<noteq> []" using Cons.hyps(2) by auto
    then show ?thesis using Cons False text_elements [of w v t "[]" vs "if_fmt fmt [32] @ join_entries fmt ts"] by simp
  qed
qed simp

lemma members_text_join:
  assumes "list_all2 (\<lambda>m x. fst x = quoted (fst m) \<and> 0 \<notin> set (fst m) \<and> value_text (snd m) (snd x)) ms xs" "ms \<noteq> []" "white w" "white z"
  shows "members_text ms (w @ join_members fmt depth xs @ z)"
  using assms(1-3)
proof (induction ms xs arbitrary: w rule: list_all2_induct)
  case (Cons m ms x xs)
  obtain k v where m: "m = (k, v)" by (cases m)
  obtain e where x: "x = (quoted k, e)" "value_text v e" "0 \<notin> set k" using Cons.hyps(1) m by (cases x) auto
  have w: "white (w @ if_fmt fmt (replicate depth 9))" using Cons.prems(2) by simp
  show ?case
  proof (cases "ms = []")
    case True
    then have "xs = []" using Cons.hyps(2) by simp
    then show ?thesis
      using text_member [OF w escaped_text [OF x(3)] _ _ x(2), of "[]" "if_fmt fmt [9]" "if_fmt fmt [10] @ z"] assms(4) True
      by (simp add: m x(1) quoted_def)
  next
    case False
    then have "xs \<noteq> []" using Cons.hyps(2) by auto
    then show ?thesis
      using text_members [OF w escaped_text [OF x(3)] _ _ x(2) _ Cons.IH [OF False, of "if_fmt fmt [10]"], of "[]" "if_fmt fmt [9]" "[]"]
      by (simp add: m x(1) quoted_def)
  qed
qed simp

lemma array_text_text: "list_all2 value_text vs ts \<Longrightarrow> value_text (JArray vs) (array_text fmt ts)"
  using text_empty_array [of "[]"] text_array [OF entries_text, of vs ts "[]" fmt]
  by (cases "vs = []") (auto simp: array_text_def)

lemma object_text_text:
  assumes "list_all2 (\<lambda>m x. fst x = quoted (fst m) \<and> 0 \<notin> set (fst m) \<and> value_text (snd m) (snd x)) ms xs"
  shows "value_text (JObject ms) (object_text fmt depth xs)"
proof (cases "ms = []")
  case True
  then show ?thesis using assms text_empty_object [of "if_fmt fmt [10] @ if_fmt fmt (replicate (depth - 1) 9)"]
    by (simp add: object_text_def)
next
  case False
  then have "xs \<noteq> []" using assms by auto
  with text_object [OF members_text_join [OF assms False, of "if_fmt fmt [10]" "if_fmt fmt (replicate depth 9)" fmt "depth + 1"]]
  show ?thesis by (simp add: object_text_def)
qed

lemma print_text_is_json:
  shows "exact_ints E P \<Longrightarrow> represents E v c \<Longrightarrow> int_values v \<Longrightarrow> value_text v (print_text P fmt depth c)"
    and "exact_ints E P \<Longrightarrow> represents_list E vs cs \<Longrightarrow> \<forall>v \<in> set vs. int_values v \<Longrightarrow> list_all2 value_text vs (map (print_text P fmt depth) cs)"
    and "exact_ints E P \<Longrightarrow> represents_members E ms cs \<Longrightarrow> \<forall>m \<in> set ms. 0 \<notin> set (fst m) \<and> int_values (snd m) \<Longrightarrow>
      list_all2 (\<lambda>m x. fst x = quoted (fst m) \<and> 0 \<notin> set (fst m) \<and> value_text (snd m) (snd x)) ms
        (map (\<lambda>c. (quoted (name_of c), print_text P fmt depth c)) cs)"
proof (induction E v c and E vs cs and E ms cs arbitrary: depth and depth and depth rule: represents_represents_list_represents_members.induct)
  case (1 E c)
  then show ?case by (cases c) (simp add: text_null)
next
  case (2 E c)
  then show ?case by (cases c) (simp add: text_false)
next
  case (3 E c)
  then show ?case by (cases c) (simp add: text_true)
next
  case (4 E x c)
  obtain i :: u32 where i: "x = int_number (sint i)" using 4 by auto
  have "ce_to_int E (number_double E x) = Some i" using 4 unfolding i exact_ints_def by blast
  then have "js_type c = cJSON_Number" "js_valuedouble c = number_double E x" "js_valueint c = i" using 4 by simp_all
  moreover have "number_bytes P i (number_double E x) = int_text (sint i)"
    using 4 i by (auto simp: number_bytes_def exact_ints_def int_text_def nat_digits.simps)
  ultimately have "print_text P fmt depth c = int_text (sint i)" by (cases c) simp
  then show ?case using text_number [of x] int_number_ok [of "sint i"] i by simp
next
  case (5 E v c)
  then have "0 \<notin> set v" by simp
  with 5 show ?case by (cases c) (auto simp: quoted_text)
next
  case (6 E vs c)
  then have "list_all2 value_text vs (map (print_text P fmt (depth + 1)) (js_child c))" by simp
  with 6 show ?case by (cases c) (simp add: array_text_text)
next
  case (7 E ms c)
  then have "list_all2 (\<lambda>m x. fst x = quoted (fst m) \<and> 0 \<notin> set (fst m) \<and> value_text (snd m) (snd x)) ms
      (map (\<lambda>c. (quoted (name_of c), print_text P fmt (depth + 1) c)) (js_child c))" by simp
  with 7 show ?case by (cases c) (simp add: object_text_text)
next
  case (9 E v vs cs)
  then show ?case by (cases cs) auto
next
  case (11 E k v ms cs)
  then show ?case by (cases cs) (auto simp: item_name_def name_of_def)
qed simp_all

text \<open>What such a value is represented by can be printed.\<close>

lemma represents_tree_ok:
  shows "represents E v c \<Longrightarrow> int_values v \<Longrightarrow> tree_ok c"
    and "represents_list E vs cs \<Longrightarrow> \<forall>v \<in> set vs. int_values v \<Longrightarrow> \<forall>c \<in> set cs. tree_ok c"
    and "represents_members E ms cs \<Longrightarrow> \<forall>m \<in> set ms. 0 \<notin> set (fst m) \<and> int_values (snd m) \<Longrightarrow>
      \<forall>c \<in> set cs. c_string_ok (js_string c) \<and> tree_ok c"
proof (induction E v c and E vs cs and E ms cs rule: represents_represents_list_represents_members.induct)
  case (1 E c)
  then show ?case by (cases c) simp
next
  case (2 E c)
  then show ?case by (cases c) simp
next
  case (3 E c)
  then show ?case by (cases c) simp
next
  case (4 E x c)
  then show ?case by (cases c) simp
next
  case (5 E v c)
  then show ?case by (cases c) (auto simp: c_string_ok_def)
next
  case (6 E vs c)
  then show ?case by (cases c) simp
next
  case (7 E ms c)
  then show ?case by (cases c) simp
next
  case (9 E v vs cs)
  then show ?case by (cases cs) auto
next
  case (11 E k v ms cs)
  then show ?case by (cases cs) (auto simp: item_name_def c_string_ok_def)
qed simp_all

lemma represents_fit:
  shows "represents E v c \<Longrightarrow> numbers_fit E v" and "represents_list E vs cs \<Longrightarrow> numbers_fit_list E vs"
    and "represents_members E ms cs \<Longrightarrow> numbers_fit_members E ms"
  by (induction E v c and E vs cs and E ms cs rule: represents_represents_list_represents_members.induct)
    (auto split: list.splits)

text \<open>What an item stands for does not depend on the text being parsed.\<close>

lemma number_double_text [simp]: "number_double (E\<lparr>ce_text := t\<rparr>) x = number_double E x"
  by (cases x) simp

lemma represents_text [simp]:
  shows "represents (E\<lparr>ce_text := t\<rparr>) v c = represents E v c"
    and "represents_list (E\<lparr>ce_text := t\<rparr>) vs cs = represents_list E vs cs"
    and "represents_members (E\<lparr>ce_text := t\<rparr>) ms cs = represents_members E ms cs"
  by (induction E v c and E vs cs and E ms cs rule: represents_represents_list_represents_members.induct)
    (simp_all split: list.splits)

section \<open>Properties\<close>

lemma print_prints:
  assumes "formats_fit P" "tree_ok c"
  shows "prints P (print_text P fmt 0 c) s (if fmt then cJSON_Print P c s else cJSON_PrintUnformatted P c s)"
  using print_value_prints [OF assms, of fmt 0 s] by (cases fmt) (simp_all add: cJSON_Print_def cJSON_PrintUnformatted_def)

text \<open>
  C26: The printer never writes outside the blocks it sized and never leaks. For every tree whose strings exist,
  whatever \<open>malloc\<close> answers, it returns: either the text of the tree, exactly, in one block more than before, or
  NULL with as many blocks as before, and then only because some allocation failed.
\<close>

theorem cjson_print_exact:
  assumes "formats_fit P" "tree_ok c"
  shows "\<exists>r s'. (if fmt then cJSON_Print P c s else cJSON_PrintUnformatted P c s) = Some (r, s')
    \<and> cj_live s' = cj_live s + (if r = None then 0 else 1)
    \<and> (r = None \<and> \<not> never_null P \<or> r = Some (print_text P fmt 0 c))"
  using print_prints [OF assms] by (simp add: prints_def)

text \<open>
  C18: Printing and parsing are inverse. A tree that stands for a JSON value whose numbers are 32-bit integers and whose
  strings hold no NUL is printed, formatted or not, to a text that the parser turns into a tree of the same value, where
  the machine's doubles hold 32-bit integers exactly, \<open>sprintf\<close>'s texts of doubles fit the 64 bytes given to them, and
  memory lasts.
\<close>

theorem cjson_print_parse_roundtrip:
  assumes c: "represents E v c" "int_values v" and P: "formats_fit P" "never_null P" and E: "memory_ok E" "exact_ints E P"
  shows "\<exists>t s1 c' s2. (if fmt then cJSON_Print P c s else cJSON_PrintUnformatted P c s) = Some (Some t, s1)
    \<and> cJSON_Parse (E\<lparr>ce_text := t @ [0]\<rparr>) s1 = Some (Some c', s2) \<and> represents E v c' \<and> js_string c' = None
    \<and> cj_live s2 = cj_live s + 1 + blocks c'"
proof -
  let ?t = "print_text P fmt 0 c"
  obtain s1 where s1: "(if fmt then cJSON_Print P c s else cJSON_PrintUnformatted P c s) = Some (Some ?t, s1)" "cj_live s1 = cj_live s + 1"
    using print_prints [OF P(1) represents_tree_ok(1) [OF c], of fmt s] P(2) by (auto simp: prints_def)
  let ?E = "E\<lparr>ce_text := ?t @ [0]\<rparr>"
  have t: "value_text v ?t" by (rule print_text_is_json(1) [OF E(2) c])
  have m: "memory_ok ?E" using E(1) by (simp add: memory_ok_def)
  have "represents ?E v c" using c(1) by simp
  then have "numbers_fit ?E v" by (rule represents_fit)
  from accepts_whole_text [OF t _ _ _ this m, of "[]" "[]" "[]" False s1]
  obtain c' e s2 where "cJSON_ParseWithOpts ?E False s1 = Some (Some c', e, s2)" "represents E v c'" "js_string c' = None"
      "cj_live s2 = cj_live s1 + blocks c'" by (auto simp: white_def)
  with s1 show ?thesis by (auto simp: cJSON_Parse_def)
qed

text \<open>Integers in place of doubles, and a tree for \<open>{"a": [-12, "\"\n"]}\<close>.\<close>

definition sample_print :: print_env where
  "sample_print = \<lparr>pe_malloc = (\<lambda>i. 8), pe_zero = (\<lambda>d. d = 0), pe_is_int = (\<lambda>i d. d = scast i), pe_whole = (\<lambda>d. False),
     pe_extreme = (\<lambda>d. False), pe_fmt_0f = (\<lambda>d. []), pe_fmt_e = (\<lambda>d. []), pe_fmt_f = (\<lambda>d. [ch_zero])\<rparr>"

lemma foldl_digits: "foldl (\<lambda>n d :: u8. n * 10 + ucast d) (0 :: u64) (map (\<lambda>c. c - ch_zero) (nat_digits n)) = of_nat n"
proof (induction n rule: nat_digits.induct)
  case (1 n)
  have d: "(ucast ((of_nat (48 + k) :: u8) - ch_zero) :: u64) = of_nat k" if "k < 10" for k
  proof -
    have "(of_nat (48 + k) :: u8) - ch_zero = of_nat k" by simp
    moreover have "unat (of_nat k :: u8) = k" using that by (simp only: unat_of_nat) simp
    ultimately show ?thesis by (metis of_nat_unat)
  qed
  show ?case
  proof (cases "n < 10")
    case True
    then show ?thesis using d [OF True] by (subst nat_digits.simps) simp
  next
    case False
    have "(of_nat (n div 10) * 10 + of_nat (n mod 10) :: u64) = of_nat (n div 10 * 10 + n mod 10)" by (simp only: of_nat_add of_nat_mult of_nat_numeral)
    then show ?thesis using 1 False d [of "n mod 10"] by (subst nat_digits.simps) simp
  qed
qed

lemma sample_exact: "exact_ints (sample_env t) sample_print"
proof -
  have dbl: "number_double (sample_env t) (int_number (sint i)) = scast i" for i :: u32
  proof -
    let ?ds = "nat_digits (nat \<bar>sint i\<bar>)"
    have "foldl (\<lambda>n d :: u8. n * 10 + ucast d) (0 :: u64) (map (\<lambda>c. c - ch_zero) (if ?ds = [ch_zero] then [] else ?ds)) = of_nat (nat \<bar>sint i\<bar>)"
      using foldl_digits [of "nat \<bar>sint i\<bar>"] by (auto split: if_splits)
    then have "number_double (sample_env t) (int_number (sint i)) = (if sint i < 0 then - of_nat (nat \<bar>sint i\<bar>) else of_nat (nat \<bar>sint i\<bar>))"
      by (simp add: int_number_def sample_env_def)
    also have "\<dots> = word_of_int (sint i)" by (simp add: of_nat_nat)
    finally show ?thesis by simp
  qed
  have narrow: "(ucast (scast i :: u64) :: u32) = i" for i :: u32 by (rule bit_word_eqI) (auto simp: bit_simps)
  then have "(scast i :: u64) = 0 \<longleftrightarrow> i = 0" for i :: u32 by (metis narrow unsigned_0 signed_0)
  with narrow show ?thesis unfolding exact_ints_def dbl by (simp add: sample_env_def sample_print_def)
qed

definition sample_value :: json where
  "sample_value = JObject [([97], JArray [JNumber (int_number (-12)), JString [34, 10]])]"

definition sample_tree :: cJSON where
  "sample_tree = CJSON cJSON_Object None 0 0 None [CJSON cJSON_Array None 0 0 (Some (8, [97]))
     [CJSON cJSON_Number None (-12) (-12) None [], CJSON cJSON_String (Some (16, [34, 10])) 0 0 None []]]"

lemma sample_represents: "represents (sample_env t) sample_value sample_tree" "int_values sample_value"
proof -
  have "sint (-12 :: u32) = -12" by simp
  then have d: "number_double (sample_env t) (int_number (-12)) = -12"
    by (simp add: int_number_def sample_env_def nat_digits.simps)
  then show "represents (sample_env t) sample_value sample_tree"
    by (simp add: sample_value_def sample_tree_def item_name_def) (simp add: sample_env_def)
  show "int_values sample_value" unfolding sample_value_def by (auto intro: exI [of _ "-12 :: u32"])
qed

lemma sample_print_ok: "formats_fit sample_print" "never_null sample_print"
  by (simp_all add: formats_fit_def never_null_def sample_print_def)

theorem cjson_print_exact_witness:
  "\<exists>s'. cJSON_PrintUnformatted sample_print sample_tree start_state
      = Some (Some [123, 34, 97, 34, 58, 91, 45, 49, 50, 44, 34, 92, 34, 92, 110, 34, 93, 125], s') \<and> cj_live s' = 1"
proof -
  have t: "print_text sample_print False 0 sample_tree = [123, 34, 97, 34, 58, 91, 45, 49, 50, 44, 34, 92, 34, 92, 110, 34, 93, 125]"
    by (simp add: sample_tree_def sample_print_def object_text_def array_text_def name_of_def quoted_def escape_byte_def escape_tail_def
        number_bytes_def int_text_def nat_digits.simps if_fmt_def)
  from cjson_print_exact [OF sample_print_ok(1) represents_tree_ok(1) [OF sample_represents], of False start_state] sample_print_ok(2)
  show ?thesis unfolding t by (auto simp: start_state_def)
qed

theorem cjson_print_parse_roundtrip_witness:
  "\<exists>t s1 c' s2. cJSON_Print sample_print sample_tree start_state = Some (Some t, s1)
    \<and> cJSON_Parse (sample_env (t @ [0])) s1 = Some (Some c', s2) \<and> represents (sample_env []) sample_value c'"
proof -
  have "memory_ok (sample_env [])" by (simp add: memory_ok_def sample_env_def)
  from cjson_print_parse_roundtrip [OF sample_represents sample_print_ok this sample_exact, of True start_state]
  show ?thesis by (auto simp: sample_env_def)
qed

end
