(* ===== verification/Cjson_Build.thy ===== *)
theory Cjson_Build
  imports Cjson_Printed
begin

text \<open>
  \<open>src/utils/cJSON.c\<close>, trees made and changed by hand: creating items, adding, inserting, detaching, replacing and
  deleting children, and duplicating a tree. An item given to a function is not yet in a tree; items shared
  by reference and names that are constants of the program are in theory \<open>Cjson_Shared\<close>. NULL for an item is \<open>None\<close>.
\<close>

section \<open>Creating items\<close>

fun set_string :: "c_string option \<Rightarrow> cJSON \<Rightarrow> cJSON" where
  "set_string p (CJSON _ _ i d name ch) = CJSON cJSON_String p i d name ch"

fun set_name :: "c_string option \<Rightarrow> cJSON \<Rightarrow> cJSON" where
  "set_name p (CJSON t v i d _ ch) = CJSON t v i d p ch"

fun set_child :: "cJSON list \<Rightarrow> cJSON \<Rightarrow> cJSON" where
  "set_child ch (CJSON t v i d name _) = CJSON t v i d name ch"

text \<open>\<open>cJSON_strdup\<close> where the address matters.\<close>

definition dup_string :: "(nat \<Rightarrow> u64) \<Rightarrow> u8 list \<Rightarrow> cj_state \<Rightarrow> c_string option \<times> cj_state" where
  "dup_string al str s = (case cJSON_malloc al s of (a, s) \<Rightarrow> (if a = 0 then None else Some (a, str), s))"

definition create_typed :: "(nat \<Rightarrow> u64) \<Rightarrow> cJSON_type \<Rightarrow> cj_state \<Rightarrow> cJSON option \<times> cj_state" where
  "create_typed al t s = (case cJSON_New_Item al s of (item, s) \<Rightarrow> (map_option (set_type t) item, s))"

definition cJSON_CreateNull where "cJSON_CreateNull al s = create_typed al cJSON_NULL s"
definition cJSON_CreateTrue where "cJSON_CreateTrue al s = create_typed al cJSON_True s"
definition cJSON_CreateFalse where "cJSON_CreateFalse al s = create_typed al cJSON_False s"
definition cJSON_CreateBool where "cJSON_CreateBool al b s = create_typed al (if b then cJSON_True else cJSON_False) s"
definition cJSON_CreateArray where "cJSON_CreateArray al s = create_typed al cJSON_Array s"
definition cJSON_CreateObject where "cJSON_CreateObject al s = create_typed al cJSON_Object s"

definition cJSON_CreateNumber :: "(u64 \<Rightarrow> u32 option) \<Rightarrow> (nat \<Rightarrow> u64) \<Rightarrow> u64 \<Rightarrow> cj_state \<Rightarrow> (cJSON option \<times> cj_state) option" where
  "cJSON_CreateNumber to_int al num s =
     (case cJSON_New_Item al s of
        (None, s) \<Rightarrow> Some (None, s)
      | (Some item, s) \<Rightarrow> do { i \<leftarrow> to_int num; Some (Some (set_number num i item), s) })"

definition cJSON_CreateString :: "(nat \<Rightarrow> u64) \<Rightarrow> u8 list \<Rightarrow> cj_state \<Rightarrow> cJSON option \<times> cj_state" where
  "cJSON_CreateString al str s =
     (case cJSON_New_Item al s of
        (None, s) \<Rightarrow> (None, s)
      | (Some item, s) \<Rightarrow> (case dup_string al str s of (p, s) \<Rightarrow> (Some (set_string p item), s)))"

text \<open>
  The arrays created from C arrays: the first element becomes the child, each later one is hung on the one before,
  and a NULL among them is dereferenced then.
\<close>

fun create_elements :: "('a \<Rightarrow> cj_state \<Rightarrow> (cJSON option \<times> cj_state) option) \<Rightarrow> bool \<Rightarrow> bool \<Rightarrow> 'a list \<Rightarrow> cJSON \<Rightarrow> cj_state
    \<Rightarrow> (cJSON \<times> cj_state) option" where
  "create_elements mk first prev [] a s = Some (a, s)"
| "create_elements mk first prev (x # xs) a s = do {
     (n, s) \<leftarrow> mk x s;
     a \<leftarrow> (if first then Some (case n of None \<Rightarrow> a | Some c \<Rightarrow> append_child c a)
       else if \<not> prev then None else map_option (\<lambda>c. append_child c a) n);
     create_elements mk False (n \<noteq> None) xs a s }"

definition create_array :: "('a \<Rightarrow> cj_state \<Rightarrow> (cJSON option \<times> cj_state) option) \<Rightarrow> (nat \<Rightarrow> u64) \<Rightarrow> 'a list \<Rightarrow> cj_state
    \<Rightarrow> (cJSON option \<times> cj_state) option" where
  "create_array mk al xs s =
     (case cJSON_CreateArray al s of
        (None, s) \<Rightarrow> Some (None, s)
      | (Some a, s) \<Rightarrow> map_option (\<lambda>(a, s). (Some a, s)) (create_elements mk True False xs a s))"

text \<open>The numbers are given as the doubles the compiler converts them to.\<close>

definition cJSON_CreateDoubleArray where
  "cJSON_CreateDoubleArray to_int al numbers s = create_array (cJSON_CreateNumber to_int al) al numbers s"
definition cJSON_CreateIntArray where
  "cJSON_CreateIntArray to_int al int_double numbers s = create_array (\<lambda>i :: u32. cJSON_CreateNumber to_int al (int_double i)) al numbers s"
definition cJSON_CreateFloatArray where
  "cJSON_CreateFloatArray to_int al float_double numbers s = create_array (\<lambda>f :: u32. cJSON_CreateNumber to_int al (float_double f)) al numbers s"
definition cJSON_CreateStringArray where
  "cJSON_CreateStringArray al strings s = create_array (\<lambda>str s. Some (cJSON_CreateString al str s)) al strings s"

section \<open>Changing a tree\<close>

definition cJSON_AddItemToArray :: "cJSON \<Rightarrow> cJSON option \<Rightarrow> cJSON" where
  "cJSON_AddItemToArray array item = (case item of None \<Rightarrow> array | Some c \<Rightarrow> append_child c array)"

definition cJSON_AddItemToObject ::
    "(nat \<Rightarrow> u64) \<Rightarrow> cJSON \<Rightarrow> u8 list \<Rightarrow> cJSON option \<Rightarrow> cj_state \<Rightarrow> (cJSON \<times> cj_state) option" where
  "cJSON_AddItemToObject al object str item s =
     (case item of None \<Rightarrow> Some (object, s)
      | Some c \<Rightarrow> do {
          s \<leftarrow> free_string (js_string c) s;
          let (p, s) = dup_string al str s;
          Some (cJSON_AddItemToArray object (Some (set_name p c)), s) })"

text \<open>The child at a position, with the rest; a negative position is the first.\<close>

fun detach_loop :: "cJSON list \<Rightarrow> int \<Rightarrow> (cJSON \<times> cJSON list) option" where
  "detach_loop [] which = None"
| "detach_loop (c # cs) which =
     (if 0 < which then map_option (\<lambda>(x, r). (x, c # r)) (detach_loop cs (which - 1)) else Some (c, cs))"

definition cJSON_DetachItemFromArray :: "cJSON \<Rightarrow> int \<Rightarrow> cJSON option \<times> cJSON" where
  "cJSON_DetachItemFromArray array which =
     (case detach_loop (js_child array) which of None \<Rightarrow> (None, array) | Some (c, r) \<Rightarrow> (Some c, set_child r array))"

text \<open>\<open>cJSON_Delete\<close> of NULL does nothing.\<close>

definition delete_item :: "cJSON option \<Rightarrow> cj_state \<Rightarrow> cj_state option" where
  "delete_item c s = (case c of None \<Rightarrow> Some s | Some c \<Rightarrow> cJSON_Delete c s)"

definition cJSON_DeleteItemFromArray :: "cJSON \<Rightarrow> int \<Rightarrow> cj_state \<Rightarrow> (cJSON \<times> cj_state) option" where
  "cJSON_DeleteItemFromArray array which s =
     (case cJSON_DetachItemFromArray array which of (c, array) \<Rightarrow> map_option (Pair array) (delete_item c s))"

fun item_index :: "cJSON list \<Rightarrow> u8 list \<Rightarrow> int \<Rightarrow> int option" where
  "item_index [] str i = None"
| "item_index (c # cs) str i = (if cJSON_strcasecmp (js_string c) (Some str) \<noteq> 0 then item_index cs str (i + 1) else Some i)"

definition cJSON_DetachItemFromObject :: "cJSON \<Rightarrow> u8 list \<Rightarrow> cJSON option \<times> cJSON" where
  "cJSON_DetachItemFromObject object str =
     (case item_index (js_child object) str 0 of None \<Rightarrow> (None, object) | Some i \<Rightarrow> cJSON_DetachItemFromArray object i)"

definition cJSON_DeleteItemFromObject :: "cJSON \<Rightarrow> u8 list \<Rightarrow> cj_state \<Rightarrow> (cJSON \<times> cj_state) option" where
  "cJSON_DeleteItemFromObject object str s =
     (case cJSON_DetachItemFromObject object str of (c, object) \<Rightarrow> map_option (Pair object) (delete_item c s))"

fun insert_loop :: "cJSON \<Rightarrow> cJSON list \<Rightarrow> int \<Rightarrow> cJSON list" where
  "insert_loop newitem [] which = [newitem]"
| "insert_loop newitem (c # cs) which = (if 0 < which then c # insert_loop newitem cs (which - 1) else newitem # c # cs)"

definition cJSON_InsertItemInArray :: "cJSON \<Rightarrow> int \<Rightarrow> cJSON \<Rightarrow> cJSON" where
  "cJSON_InsertItemInArray array which newitem = set_child (insert_loop newitem (js_child array) which) array"

fun replace_loop :: "cJSON \<Rightarrow> cJSON list \<Rightarrow> int \<Rightarrow> (cJSON \<times> cJSON list) option" where
  "replace_loop newitem [] which = None"
| "replace_loop newitem (c # cs) which =
     (if 0 < which then map_option (\<lambda>(x, r). (x, c # r)) (replace_loop newitem cs (which - 1)) else Some (c, newitem # cs))"

definition cJSON_ReplaceItemInArray :: "cJSON \<Rightarrow> int \<Rightarrow> cJSON \<Rightarrow> cj_state \<Rightarrow> (cJSON \<times> cj_state) option" where
  "cJSON_ReplaceItemInArray array which newitem s =
     (case replace_loop newitem (js_child array) which of
        None \<Rightarrow> Some (array, s)
      | Some (old, r) \<Rightarrow> map_option (Pair (set_child r array)) (cJSON_Delete old s))"

text \<open>The new item's own name is overwritten, not freed.\<close>

definition cJSON_ReplaceItemInObject ::
    "(nat \<Rightarrow> u64) \<Rightarrow> cJSON \<Rightarrow> u8 list \<Rightarrow> cJSON \<Rightarrow> cj_state \<Rightarrow> (cJSON \<times> cj_state) option" where
  "cJSON_ReplaceItemInObject al object str newitem s =
     (case item_index (js_child object) str 0 of
        None \<Rightarrow> Some (object, s)
      | Some i \<Rightarrow> (case dup_string al str s of (p, s) \<Rightarrow> cJSON_ReplaceItemInArray object i (set_name p newitem) s))"

section \<open>Duplication\<close>

text \<open>Copying a string of the item, if it has one: \<open>None\<close> when there is no memory for it.\<close>

definition dup_if :: "(nat \<Rightarrow> u64) \<Rightarrow> c_string option \<Rightarrow> cj_state \<Rightarrow> c_string option option \<times> cj_state" where
  "dup_if al p s =
     (case p of None \<Rightarrow> (Some None, s)
      | Some (_, str) \<Rightarrow> (case dup_string al str s of (None, s) \<Rightarrow> (None, s) | (Some q, s) \<Rightarrow> (Some (Some q), s)))"

definition give_up :: "cJSON \<Rightarrow> cj_state \<Rightarrow> (cJSON option \<times> cj_state) option" where
  "give_up newitem s = map_option (Pair None) (cJSON_Delete newitem s)"

fun cJSON_Duplicate :: "(nat \<Rightarrow> u64) \<Rightarrow> cJSON \<Rightarrow> bool \<Rightarrow> cj_state \<Rightarrow> (cJSON option \<times> cj_state) option" and
    duplicate_children :: "(nat \<Rightarrow> u64) \<Rightarrow> cJSON list \<Rightarrow> cJSON \<Rightarrow> cj_state \<Rightarrow> (cJSON option \<times> cj_state) option" where
  "cJSON_Duplicate al (CJSON t v i d name ch) recurse s =
     (case cJSON_New_Item al s of
        (None, s) \<Rightarrow> Some (None, s)
      | (Some _, s) \<Rightarrow>
          (case dup_if al v s of
             (None, s) \<Rightarrow> give_up (CJSON t None i d None []) s
           | (Some v', s) \<Rightarrow>
               (case dup_if al name s of
                  (None, s) \<Rightarrow> give_up (CJSON t v' i d None []) s
                | (Some name', s) \<Rightarrow>
                    if \<not> recurse then Some (Some (CJSON t v' i d name' []), s)
                    else duplicate_children al ch (CJSON t v' i d name' []) s)))"
| "duplicate_children al [] newitem s = Some (Some newitem, s)"
| "duplicate_children al (c # cs) newitem s = do {
     (newchild, s) \<leftarrow> cJSON_Duplicate al c True s;
     case newchild of
       None \<Rightarrow> give_up newitem s
     | Some x \<Rightarrow> duplicate_children al cs (append_child x newitem) s }"

section \<open>Children as a list\<close>

text \<open>A position counts from 0; a negative one is 0.\<close>

lemma item_update_simps [simp]:
  "js_child (set_child ch c) = ch" "set_child (js_child c) c = c" "set_child ch (set_child ch' c) = set_child ch c"
  "js_child (set_name p c) = js_child c" "js_string (set_name p c) = p" "js_string (set_child ch c) = js_string c"
  by (cases c; simp)+

lemma set_name_blocks: "blocks (set_name p c) + string_block (js_string c) = blocks c + string_block p"
  by (cases c) simp

lemma set_child_blocks: "blocks (set_child ch c) + sum_list (map blocks (js_child c)) = blocks c + sum_list (map blocks ch)"
  by (cases c) simp

lemma append_child_list: "append_child x c = set_child (js_child c @ [x]) c"
  by (cases c) simp

lemma detach_loop_list:
  "detach_loop cs w = (if nat w < length cs then Some (cs ! nat w, take (nat w) cs @ drop (Suc (nat w)) cs) else None)"
proof (induction cs w rule: detach_loop.induct)
  case (2 c cs w)
  show ?case
  proof (cases "0 < w")
    case True
    then have "nat w = Suc (nat (w - 1))" by simp
    with 2 True show ?thesis by simp
  qed simp
qed simp

lemma insert_loop_list: "insert_loop n cs w = take (nat w) cs @ n # drop (nat w) cs"
proof (induction n cs w rule: insert_loop.induct)
  case (2 n c cs w)
  show ?case
  proof (cases "0 < w")
    case True
    then have "nat w = Suc (nat (w - 1))" by simp
    with 2 True show ?thesis by simp
  qed simp
qed simp

lemma replace_loop_list: "replace_loop n cs w = (if nat w < length cs then Some (cs ! nat w, cs[nat w := n]) else None)"
proof (induction n cs w rule: replace_loop.induct)
  case (2 n c cs w)
  show ?case
  proof (cases "0 < w")
    case True
    then have "nat w = Suc (nat (w - 1))" by simp
    with 2 True show ?thesis by simp
  qed simp
qed simp

text \<open>Inserting and then detaching where the item went: the position given, or the end for a larger one.\<close>

lemma insert_then_detach:
  "cJSON_DetachItemFromArray (cJSON_InsertItemInArray array w n) (min w (cJSON_GetArraySize array)) = (Some n, array)"
proof -
  have "nat (min w (int (length (js_child array)))) = min (nat w) (length (js_child array))" by auto
  then show ?thesis
    by (simp add: cJSON_DetachItemFromArray_def cJSON_InsertItemInArray_def cJSON_GetArraySize_def detach_loop_list insert_loop_list
        nth_append min_def)
qed

text \<open>The blocks of the children follow.\<close>

lemma blocks_drop_nth:
  assumes "k < length cs"
  shows "sum_list (map blocks cs) = blocks (cs ! k) + sum_list (map blocks (take k cs @ drop (Suc k) cs))"
  using arg_cong [OF id_take_nth_drop [OF assms], of "\<lambda>xs. sum_list (map blocks xs)"] by simp

lemma detach_accounted:
  assumes "cJSON_DetachItemFromArray array w = (r, array')"
  shows "blocks array = blocks array' + (case r of None \<Rightarrow> 0 | Some c \<Rightarrow> blocks c)"
  using assms set_child_blocks [of "take (nat w) (js_child array) @ drop (Suc (nat w)) (js_child array)" array]
    blocks_drop_nth [of "nat w" "js_child array"]
  by (auto simp: cJSON_DetachItemFromArray_def detach_loop_list split: if_splits)

lemma delete_from_array_accounted:
  assumes "blocks array \<le> cj_live s"
  shows "\<exists>array' s'. cJSON_DeleteItemFromArray array w s = Some (array', s') \<and> cj_live s' + blocks array = cj_live s + blocks array'"
proof -
  obtain r array' where d: "cJSON_DetachItemFromArray array w = (r, array')" by fastforce
  show ?thesis
    by (cases r) (use assms d detach_accounted [OF d] in
      \<open>auto simp: cJSON_DeleteItemFromArray_def delete_item_def cJSON_Delete_frees(1)\<close>)
qed

lemma replace_in_array_accounted:
  assumes "blocks array \<le> cj_live s" "nat w < length (js_child array)"
  shows "\<exists>s'. cJSON_ReplaceItemInArray array w n s = Some (set_child ((js_child array)[nat w := n]) array, s')
    \<and> cj_live s' + blocks (js_child array ! nat w) = cj_live s"
  using assms detach_accounted [of array w] 
  by (auto simp: cJSON_ReplaceItemInArray_def replace_loop_list cJSON_Delete_frees(1) cJSON_DetachItemFromArray_def detach_loop_list)

lemma dup_string_cases:
  assumes "dup_string al str s = (r, s')"
  shows "(\<exists>a. r = (if a = 0 then None else Some (a, str)) \<and> a = al (cj_calls s)) \<and> cj_live s' = cj_live s + string_block r
    \<and> cj_calls s' = cj_calls s + 1"
  using assms by (auto simp: dup_string_def cJSON_malloc_def Let_def string_block_def split: if_splits)

text \<open>An item added under a name loses its old one; for lack of memory it is added without a name.\<close>

lemma add_to_object_accounted:
  assumes "string_block (js_string c) \<le> cj_live s"
  shows "\<exists>p s'. cJSON_AddItemToObject al object str (Some c) s = Some (append_child (set_name p c) object, s')
    \<and> p = (if al (cj_calls s) = 0 then None else Some (al (cj_calls s), str))
    \<and> cj_live s' + blocks object + blocks c = cj_live s + blocks (append_child (set_name p c) object)"
proof -
  obtain p s' where d: "dup_string al str (s\<lparr>cj_live := cj_live s - string_block (js_string c)\<rparr>) = (p, s')" by fastforce
  have "free_string (js_string c) s = Some (s\<lparr>cj_live := cj_live s - string_block (js_string c)\<rparr>)"
    using assms by (cases "js_string c") (auto simp: free_string_def string_block_def cJSON_free_def)
  with d show ?thesis using dup_string_cases [OF d] set_name_blocks [of p c] assms
    by (auto simp: cJSON_AddItemToObject_def cJSON_AddItemToArray_def)
qed

text \<open>Replacing by name overwrites the old name of the new item, which nothing frees afterwards.\<close>

lemma replace_in_object_leaks:
  assumes "item_index (js_child object) str 0 = Some i" "nat i < length (js_child object)" "blocks object \<le> cj_live s"
  shows "\<exists>object' s'. cJSON_ReplaceItemInObject al object str n s = Some (object', s')
    \<and> cj_live s' + blocks object + blocks n = cj_live s + blocks object' + string_block (js_string n)"
proof -
  obtain p s1 where d: "dup_string al str s = (p, s1)" by fastforce
  note d' = dup_string_cases [OF d]
  let ?ch = "(js_child object)[nat i := set_name p n]"
  obtain s' where s': "cJSON_ReplaceItemInArray object i (set_name p n) s1 = Some (set_child ?ch object, s')"
      "cj_live s' + blocks (js_child object ! nat i) = cj_live s1"
    using replace_in_array_accounted [of object s1 i "set_name p n"] assms(2,3) d' by auto
  have "sum_list (map blocks ?ch) + blocks (js_child object ! nat i) = sum_list (map blocks (js_child object)) + blocks (set_name p n)"
    using assms(2) elem_le_sum_list [of "nat i" "map blocks (js_child object)"] by (simp add: map_update sum_list_update)
  then show ?thesis using assms(1) d d' s' set_name_blocks [of p n] set_child_blocks [of ?ch object]
    by (auto simp: cJSON_ReplaceItemInObject_def)
qed

section \<open>Arrays of numbers and strings\<close>

text \<open>When an element has no memory, it is dereferenced: as it is hung on the one before, or the next one on it.\<close>

lemma create_elements_crashes:
  assumes "mk x s = Some (None, s')" "\<not> first"
  shows "create_elements mk first prev (x # xs) a s = None"
  using assms by simp

lemma create_elements_second_crashes:
  assumes "mk x s = Some (None, s1)" "mk y s1 = Some (r, s2)"
  shows "create_elements mk True prev (x # y # xs) a s = None"
  using assms by simp

text \<open>While memory lasts, the array holds the elements in order.\<close>

lemma create_elements_list:
  assumes "\<And>x s. x \<in> set xs \<Longrightarrow> \<exists>c s'. mk x s = Some (Some c, s') \<and> P x c \<and> cj_live s' = cj_live s + blocks c"
    and "first \<or> prev"
  shows "\<exists>cs s'. create_elements mk first prev xs a s = Some (set_child (js_child a @ cs) a, s') \<and> list_all2 P xs cs
    \<and> cj_live s' = cj_live s + sum_list (map blocks cs)"
  using assms
proof (induction mk first prev xs a s rule: create_elements.induct)
  case (2 mk first prev x xs a s)
  obtain c s1 where c: "mk x s = Some (Some c, s1)" "P x c" "cj_live s1 = cj_live s + blocks c" using 2(2) [of x s] by auto
  have "\<exists>cs s'. create_elements mk False True xs (append_child c a) s1 = Some (set_child (js_child (append_child c a) @ cs) (append_child c a), s')
      \<and> list_all2 P xs cs \<and> cj_live s' = cj_live s1 + sum_list (map blocks cs)"
    using 2(1) [OF c(1) refl, of "append_child c a"] 2(2,3) by (auto simp: c)
  then obtain cs s' where "create_elements mk False True xs (append_child c a) s1 = Some (set_child (js_child (append_child c a) @ cs) (append_child c a), s')"
      "list_all2 P xs cs" "cj_live s' = cj_live s1 + sum_list (map blocks cs)" by auto
  then show ?case using 2(3) c by (intro exI [of _ "c # cs"] exI [of _ s']) (auto simp: append_child_list)
qed auto

section \<open>Duplicates\<close>

text \<open>A tree without the addresses of its strings.\<close>

fun content :: "cJSON \<Rightarrow> cJSON" where
  "content (CJSON t v i d name ch) =
     CJSON t (map_option (\<lambda>(_, str). (0, str)) v) i d (map_option (\<lambda>(_, str). (0, str)) name) (map content ch)"

definition duplicated :: "(nat \<Rightarrow> u64) \<Rightarrow> cJSON \<Rightarrow> nat \<Rightarrow> (cJSON option \<times> cj_state) option \<Rightarrow> bool" where
  "duplicated al c live x \<longleftrightarrow> (\<exists>r s'. x = Some (r, s') \<and> (case r of
      None \<Rightarrow> cj_live s' = live \<and> (\<exists>i. al i = 0)
    | Some c' \<Rightarrow> content c' = content c \<and> cj_live s' = live + blocks c'))"

lemma dup_if_cases:
  assumes "dup_if al p s = (r, s')"
  shows "r = None \<and> cj_live s' = cj_live s \<and> (\<exists>i. al i = 0)
    \<or> (\<exists>q. r = Some q \<and> map_option (\<lambda>(_, str). (0 :: u64, str)) q = map_option (\<lambda>(_, str). (0, str)) p
        \<and> cj_live s' = cj_live s + string_block q)"
proof (cases p)
  case None
  with assms show ?thesis by (auto simp: dup_if_def string_block_def)
next
  case (Some a)
  obtain str where a: "a = (fst a, str)" by (cases a) simp
  obtain q s1 where d: "dup_string al str s = (q, s1)" by fastforce
  from dup_string_cases [OF d] show ?thesis using assms d Some a
    by (cases q) (auto simp: dup_if_def string_block_def split: if_splits prod.splits)
qed

lemma give_up_frees:
  assumes "cj_live s = live + blocks c" "\<exists>i. al i = 0"
  shows "duplicated al x live (give_up c s)"
  using assms by (auto simp: duplicated_def give_up_def cJSON_Delete_frees(1))

lemma content_set_child [simp]: "content (set_child ch c) = set_child (map content ch) (content c)"
  by (cases c) simp

lemma duplicated_content: "content c = content d \<Longrightarrow> duplicated al c live x \<longleftrightarrow> duplicated al d live x"
  unfolding duplicated_def by (erule subst) (rule refl)

lemma duplicate_copies:
  "duplicated al (if rec then c else set_child [] c) (cj_live s) (cJSON_Duplicate al c rec s)"
  "cj_live s = live + blocks n \<Longrightarrow> duplicated al (set_child (js_child n @ cs) n) live (duplicate_children al cs n s)"
proof (induction al c rec s and al cs n s arbitrary: and live rule: cJSON_Duplicate_duplicate_children.induct)
  case (1 al t v i d name ch recurse s)
  obtain r s1 where n: "cJSON_New_Item al s = (r, s1)" by fastforce
  note new = cJSON_New_Item_cases [OF n]
  show ?case
  proof (cases r)
    case None
    moreover have "\<exists>i. al i = 0" using n None by (auto simp: cJSON_New_Item_def cJSON_malloc_def Let_def split: if_splits)
    ultimately show ?thesis using n new by (auto simp: duplicated_def)
  next
    case (Some e)
    with new have live: "cj_live s1 = cj_live s + 1" by simp
    obtain v' s2 where v: "dup_if al v s1 = (v', s2)" by fastforce
    obtain name' s3 where nm: "dup_if al name s2 = (name', s3)" by fastforce
    consider (no_value) "v' = None" | (no_name) q where "v' = Some q" "name' = None" | (both) q q' where "v' = Some q" "name' = Some q'"
      by (cases v'; cases name') auto
    then show ?thesis
    proof cases
      case no_value
      with n Some v live dup_if_cases [OF v] show ?thesis
        by (auto simp: string_block_def intro!: give_up_frees)
    next
      case no_name
      with n Some v nm live dup_if_cases [OF v] dup_if_cases [OF nm] show ?thesis
        by (auto simp: string_block_def intro!: give_up_frees)
    next
      case both
      let ?n = "CJSON t q i d q' []"
      have l: "cj_live s3 = cj_live s + blocks ?n" "content (CJSON t q i d q' ch) = content (CJSON t v i d name ch)" for ch
        using both live dup_if_cases [OF v] dup_if_cases [OF nm] by auto
      show ?thesis
      proof (cases recurse)
        case True
        then have "duplicated al (CJSON t q i d q' ch) (cj_live s) (duplicate_children al ch ?n s3)"
          using 1 [of "Some e" s1 e v' s2 q name' s3 q' "cj_live s"] n Some v nm both l(1) by simp
        then show ?thesis unfolding duplicated_content [OF l(2)] using True n Some v nm both by simp
      next
        case False
        then show ?thesis using n Some v nm both l by (simp add: duplicated_def)
      qed
    qed
  qed
next
  case (2 al n s)
  then show ?case by (simp add: duplicated_def)
next
  case (3 al c cs n s)
  from 3(1) obtain r s1 where r: "cJSON_Duplicate al c True s = Some (r, s1)"
      "case r of None \<Rightarrow> cj_live s1 = cj_live s \<and> (\<exists>i. al i = 0) | Some c' \<Rightarrow> content c' = content c \<and> cj_live s1 = cj_live s + blocks c'"
    by (auto simp: duplicated_def)
  show ?case
  proof (cases r)
    case None
    with r 3(3) show ?thesis by (auto intro: give_up_frees)
  next
    case (Some x)
    with r 3 have "duplicated al (set_child (js_child (append_child x n) @ cs) (append_child x n)) live (duplicate_children al cs (append_child x n) s1)"
      by simp
    moreover have eq: "content (set_child (js_child (append_child x n) @ cs) (append_child x n)) = content (set_child (js_child n @ c # cs) n)"
      using r(2) Some by (simp add: append_child_list)
    ultimately show ?thesis using r(1) Some duplicated_content [OF eq] by simp
  qed
qed

text \<open>
  A duplicate is a deep copy, or nothing. Whatever \<open>malloc\<close> answers, \<open>cJSON_Duplicate\<close> returns: a tree of the same
  types, numbers, strings and names in the same order (without the children when \<open>recurse\<close> is 0), all in
  blocks of its own; or NULL with every block freed, and then only because some allocation failed.
\<close>

theorem duplicate_is_copy:
  "\<exists>r s'. cJSON_Duplicate al c recurse s = Some (r, s') \<and>
     (case r of None \<Rightarrow> cj_live s' = cj_live s \<and> (\<exists>i. al i = 0)
      | Some c' \<Rightarrow> content c' = content (if recurse then c else set_child [] c) \<and> cj_live s' = cj_live s + blocks c')"
  using duplicate_copies(1) [of al recurse c s] by (simp add: duplicated_def)

text \<open>A copy prints as its original.\<close>

lemma content_print:
  "content c' = content c \<Longrightarrow> print_text P fmt depth c' = print_text P fmt depth c"
proof -
  have name: "name_of (content c) = name_of c" for c
    by (cases c) (auto simp: name_of_def split: option.split)
  have "print_text P fmt depth (content c) = print_text P fmt depth c" for c depth
  proof (induction c arbitrary: depth)
    case (CJSON t v i d n ch)
    then show ?case by (cases t) (auto simp: o_def name cong: map_cong split: option.split)
  qed
  then show "content c' = content c \<Longrightarrow> ?thesis" by metis
qed

text \<open>The array of the numbers 7 and -1, when the allocation of its second element fails.\<close>

lemma number_array_crashes:
  "cJSON_CreateDoubleArray (\<lambda>d. Some 0) (\<lambda>i. if i = 2 then 0 else 8) [7, 1] s = None" if "cj_calls s = 0"
  using that by (simp add: cJSON_CreateDoubleArray_def create_array_def cJSON_CreateArray_def create_typed_def cJSON_CreateNumber_def
      cJSON_New_Item_def cJSON_malloc_def)

end
