(* ===== verification/Cjson_Buffer.thy ===== *)
theory Cjson_Buffer
  imports Cjson_Printed
begin

unbundle bit_operations_syntax

text \<open>
  \<open>src/utils/cJSON.c\<close>, printing into one growing block (\<open>cJSON_PrintBuffered\<close>). The block has the bytes \<open>malloc\<close>
  left in it; the source finds the end of what a value wrote by \<open>strlen\<close>. It prints the same text as
  \<open>Cjson_Print\<close>, whatever the size it starts with.
\<close>

section \<open>The buffer\<close>

text \<open>\<open>pb_buffer\<close> holds the bytes of the block, whose number is \<open>length\<close> of the source; NULL is \<open>None\<close>.\<close>

record printbuffer =
  pb_buffer :: "u8 list option"
  pb_offset :: nat

type_synonym buf_result = "(bool \<times> printbuffer \<times> cj_state) option"

definition pow2gt :: "int \<Rightarrow> int option" where
  "pow2gt x = do {
     x \<leftarrow> c_int (x - 1);
     let x = x OR drop_bit 1 x;
     let x = x OR drop_bit 2 x;
     let x = x OR drop_bit 4 x;
     let x = x OR drop_bit 8 x;
     let x = x OR drop_bit 16 x;
     c_int (x + 1) }"

text \<open>
  Whether there is room for \<open>needed\<close> bytes at the offset. The bytes of the block that call \<open>i\<close> of \<open>malloc\<close> answers are
  \<open>J i\<close>; the old block is copied over them and freed, also when there is no new one.
\<close>

definition ensure :: "print_env \<Rightarrow> (nat \<Rightarrow> nat \<Rightarrow> u8) \<Rightarrow> nat \<Rightarrow> printbuffer \<Rightarrow> cj_state \<Rightarrow> buf_result" where
  "ensure P J needed p s =
     (case pb_buffer p of
        None \<Rightarrow> Some (False, p, s)
      | Some b \<Rightarrow> do {
          needed \<leftarrow> c_int (int needed + int (pb_offset p));
          if needed \<le> int (length b) then Some (True, p, s)
          else do {
            newsize \<leftarrow> pow2gt needed;
            let call = cj_calls s;
            let (a, s) = cJSON_malloc (pe_malloc P) s;
            if a = 0 then do { s \<leftarrow> cJSON_free s; Some (False, p\<lparr>pb_buffer := None\<rparr>, s) }
            else if newsize < int (length b) then None
            else do {
              s \<leftarrow> cJSON_free s;
              Some (True, p\<lparr>pb_buffer := Some (b @ map (J call) [length b..<nat newsize])\<rparr>, s) } } })"

text \<open>Writing bytes at the offset, which must lie in the block.\<close>

definition put_at :: "u8 list \<Rightarrow> printbuffer \<Rightarrow> printbuffer option" where
  "put_at bs p = do {
     b \<leftarrow> pb_buffer p;
     let i = pb_offset p;
     if i + length bs \<le> length b then Some (p\<lparr>pb_buffer := Some (take i b @ bs @ drop (i + length bs) b)\<rparr>) else None }"

text \<open>\<open>ensure\<close>, then write what \<open>fill\<close> makes of the room there is, with its terminator. The offset stays.\<close>

definition fill_room :: "print_env \<Rightarrow> (nat \<Rightarrow> nat \<Rightarrow> u8) \<Rightarrow> nat \<Rightarrow> (nat \<Rightarrow> u8 list option) \<Rightarrow> printbuffer \<Rightarrow> cj_state \<Rightarrow> buf_result" where
  "fill_room P J needed fill p s = do {
     (ok, p, s) \<leftarrow> ensure P J needed p s;
     if \<not> ok then Some (False, p, s)
     else do {
       b \<leftarrow> pb_buffer p;
       out \<leftarrow> fill (length b - pb_offset p);
       p \<leftarrow> put_at (out @ [0]) p;
       Some (True, p, s) } }"

text \<open>\<open>ensure\<close>, then write the bytes and move the offset behind the first \<open>len\<close> of them.\<close>

definition emit :: "print_env \<Rightarrow> (nat \<Rightarrow> nat \<Rightarrow> u8) \<Rightarrow> nat \<Rightarrow> u8 list \<Rightarrow> nat \<Rightarrow> printbuffer \<Rightarrow> cj_state \<Rightarrow> buf_result" where
  "emit P J needed bs len p s = do {
     (ok, p, s) \<leftarrow> ensure P J needed p s;
     if \<not> ok then Some (False, p, s)
     else do {
       p \<leftarrow> put_at bs p;
       Some (True, p\<lparr>pb_offset := pb_offset p + len\<rparr>, s) } }"

text \<open>\<open>p->offset=update(p)\<close>.\<close>

fun c_strlen :: "u8 list \<Rightarrow> nat option" where
  "c_strlen [] = None"
| "c_strlen (c # cs) = (if c = 0 then Some 0 else map_option Suc (c_strlen cs))"

definition to_end :: "printbuffer \<Rightarrow> printbuffer option" where
  "to_end p =
     (case pb_buffer p of
        None \<Rightarrow> Some (p\<lparr>pb_offset := 0\<rparr>)
      | Some b \<Rightarrow> do { n \<leftarrow> c_strlen (drop (pb_offset p) b); Some (p\<lparr>pb_offset := pb_offset p + n\<rparr>) })"

text \<open>\<open>if (!ptr) return 0;\<close> before what follows, and \<open>p->offset=update(p);\<close> whatever came before.\<close>

definition or_fail :: "buf_result \<Rightarrow> (printbuffer \<Rightarrow> cj_state \<Rightarrow> buf_result) \<Rightarrow> buf_result" where
  "or_fail x f = do { (ok, p, s) \<leftarrow> x; if ok then f p s else Some (False, p, s) }"

definition at_end :: "buf_result \<Rightarrow> (printbuffer \<Rightarrow> cj_state \<Rightarrow> buf_result) \<Rightarrow> buf_result" where
  "at_end x f = do { (_, p, s) \<leftarrow> x; p \<leftarrow> to_end p; f p s }"

section \<open>Printing\<close>

definition print_number_buf where
  "print_number_buf P J i d =
     (if pe_zero P d then fill_room P J 2 (c_strcpy [ch_zero])
      else if pe_is_int P i d then fill_room P J 21 (c_strcpy (int_text (sint i)))
      else fill_room P J 64 (c_strcpy
        (if pe_whole P d then pe_fmt_0f P d else if pe_extreme P d then pe_fmt_e P d else pe_fmt_f P d)))"

definition print_string_buf :: "print_env \<Rightarrow> (nat \<Rightarrow> nat \<Rightarrow> u8) \<Rightarrow> c_string option \<Rightarrow> printbuffer \<Rightarrow> cj_state \<Rightarrow> buf_result" where
  "print_string_buf P J v p s =
     (case v of None \<Rightarrow> None
      | Some (_, str) \<Rightarrow>
          if \<not> list_ex needs_escape str
          then fill_room P J (length str + 3) (\<lambda>cap. do {
            out \<leftarrow> put_out cap [] [ch_quote];
            out \<leftarrow> put_out cap out str;
            _ \<leftarrow> put_nul cap out;
            out \<leftarrow> put_out cap out [ch_quote];
            put_nul cap out }) p s
          else fill_room P J (sum_list (map escaped_length str) + 3) (\<lambda>cap. do {
            out \<leftarrow> put_out cap [] [ch_quote];
            out \<leftarrow> print_chars cap str out;
            out \<leftarrow> put_out cap out [ch_quote];
            put_nul cap out }) p s)"

definition print_literal_buf where
  "print_literal_buf P J lit = fill_room P J (length lit + 1) (c_strcpy lit)"

definition print_empty_buf :: "print_env \<Rightarrow> (nat \<Rightarrow> nat \<Rightarrow> u8) \<Rightarrow> nat \<Rightarrow> bool \<Rightarrow> printbuffer \<Rightarrow> cj_state \<Rightarrow> buf_result" where
  "print_empty_buf P J depth fmt = fill_room P J (if fmt then depth + 4 else 3)
     (c_strcpy (ch_lbrace # if_fmt fmt (10 # replicate (depth - 1) 9) @ [ch_rbrace]))"

text \<open>What goes between the children of an array, and around the names and values of an object.\<close>

definition emit_comma :: "print_env \<Rightarrow> (nat \<Rightarrow> nat \<Rightarrow> u8) \<Rightarrow> bool \<Rightarrow> bool \<Rightarrow> printbuffer \<Rightarrow> cj_state \<Rightarrow> buf_result" where
  "emit_comma P J final fmt p s =
     (if final then Some (True, p, s)
      else let len = (if fmt then 2 else 1) in emit P J (len + 1) (ch_comma # if_fmt fmt [32] @ [0]) len p s)"

definition emit_lbrace :: "print_env \<Rightarrow> (nat \<Rightarrow> nat \<Rightarrow> u8) \<Rightarrow> bool \<Rightarrow> printbuffer \<Rightarrow> cj_state \<Rightarrow> buf_result" where
  "emit_lbrace P J fmt = (let len = (if fmt then 2 else 1) in emit P J (len + 1) (ch_lbrace # if_fmt fmt [10] @ [0]) len)"

definition emit_tabs :: "print_env \<Rightarrow> (nat \<Rightarrow> nat \<Rightarrow> u8) \<Rightarrow> nat \<Rightarrow> bool \<Rightarrow> printbuffer \<Rightarrow> cj_state \<Rightarrow> buf_result" where
  "emit_tabs P J depth fmt p s = (if fmt then emit P J depth (replicate depth 9) depth p s else Some (True, p, s))"

definition emit_colon :: "print_env \<Rightarrow> (nat \<Rightarrow> nat \<Rightarrow> u8) \<Rightarrow> bool \<Rightarrow> printbuffer \<Rightarrow> cj_state \<Rightarrow> buf_result" where
  "emit_colon P J fmt = (let len = (if fmt then 2 else 1) in emit P J len (ch_colon # if_fmt fmt [9]) len)"

definition emit_member_end :: "print_env \<Rightarrow> (nat \<Rightarrow> nat \<Rightarrow> u8) \<Rightarrow> bool \<Rightarrow> bool \<Rightarrow> printbuffer \<Rightarrow> cj_state \<Rightarrow> buf_result" where
  "emit_member_end P J final fmt =
     (let len = (if fmt then 1 else 0) + (if final then 0 else 1) in
      emit P J (len + 1) ((if final then [] else [ch_comma]) @ if_fmt fmt [10] @ [0]) len)"

text \<open>With \<open>depth\<close> as it is inside the object.\<close>

definition emit_rbrace :: "print_env \<Rightarrow> (nat \<Rightarrow> nat \<Rightarrow> u8) \<Rightarrow> nat \<Rightarrow> bool \<Rightarrow> printbuffer \<Rightarrow> cj_state \<Rightarrow> buf_result" where
  "emit_rbrace P J depth fmt =
     emit P J (if fmt then depth + 1 else 2) (if_fmt fmt (replicate (depth - 1) 9) @ [ch_rbrace, 0]) 0"

text \<open>
  What printing a child or a name answers is not looked at: a failure leaves no buffer, which the next \<open>ensure\<close> sees.
\<close>

fun print_value_buf :: "print_env \<Rightarrow> (nat \<Rightarrow> nat \<Rightarrow> u8) \<Rightarrow> cJSON \<Rightarrow> nat \<Rightarrow> bool \<Rightarrow> printbuffer \<Rightarrow> cj_state \<Rightarrow> buf_result" and
    print_entries_buf :: "print_env \<Rightarrow> (nat \<Rightarrow> nat \<Rightarrow> u8) \<Rightarrow> cJSON list \<Rightarrow> nat \<Rightarrow> bool \<Rightarrow> printbuffer \<Rightarrow> cj_state \<Rightarrow> buf_result" and
    print_members_buf :: "print_env \<Rightarrow> (nat \<Rightarrow> nat \<Rightarrow> u8) \<Rightarrow> cJSON list \<Rightarrow> nat \<Rightarrow> bool \<Rightarrow> printbuffer \<Rightarrow> cj_state \<Rightarrow> buf_result" where
  "print_value_buf P J (CJSON ty v i d name ch) depth fmt p s = (case ty of
     cJSON_NULL \<Rightarrow> print_literal_buf P J lit_null p s
   | cJSON_False \<Rightarrow> print_literal_buf P J lit_false p s
   | cJSON_True \<Rightarrow> print_literal_buf P J lit_true p s
   | cJSON_Number \<Rightarrow> print_number_buf P J i d p s
   | cJSON_String \<Rightarrow> print_string_buf P J v p s
   | cJSON_Array \<Rightarrow>
       (if ch = [] then fill_room P J 3 (c_strcpy [ch_lbracket, ch_rbracket]) p s
        else or_fail (emit P J 1 [ch_lbracket] 1 p s)
          (\<lambda>p s. or_fail (print_entries_buf P J ch (depth + 1) fmt p s) (emit P J 2 [ch_rbracket, 0] 0)))
   | cJSON_Object \<Rightarrow>
       (if ch = [] then print_empty_buf P J depth fmt p s
        else or_fail (emit_lbrace P J fmt p s)
          (\<lambda>p s. or_fail (print_members_buf P J ch (depth + 1) fmt p s) (emit_rbrace P J (depth + 1) fmt))))"
| "print_entries_buf P J [] depth fmt p s = Some (True, p, s)"
| "print_entries_buf P J (c # cs) depth fmt p s =
     at_end (print_value_buf P J c depth fmt p s)
       (\<lambda>p s. or_fail (emit_comma P J (cs = []) fmt p s) (\<lambda>p s. print_entries_buf P J cs depth fmt p s))"
| "print_members_buf P J [] depth fmt p s = Some (True, p, s)"
| "print_members_buf P J (c # cs) depth fmt p s =
     or_fail (emit_tabs P J depth fmt p s)
       (\<lambda>p s. at_end (print_string_buf P J (js_string c) p s)
         (\<lambda>p s. or_fail (emit_colon P J fmt p s)
           (\<lambda>p s. at_end (print_value_buf P J c depth fmt p s)
             (\<lambda>p s. or_fail (emit_member_end P J (cs = []) fmt p s)
               (\<lambda>p s. print_members_buf P J cs depth fmt p s)))))"

text \<open>The string answered is what the block holds up to the first terminator.\<close>

definition cJSON_PrintBuffered :: "print_env \<Rightarrow> (nat \<Rightarrow> nat \<Rightarrow> u8) \<Rightarrow> cJSON \<Rightarrow> nat \<Rightarrow> bool \<Rightarrow> cj_state \<Rightarrow> printed option" where
  "cJSON_PrintBuffered P J item prebuffer fmt s = do {
     let call = cj_calls s;
     let (a, s) = cJSON_malloc (pe_malloc P) s;
     (ok, p, s) \<leftarrow> print_value_buf P J item 0 fmt
       \<lparr>pb_buffer = (if a = 0 then None else Some (map (J call) [0..<prebuffer])), pb_offset = 0\<rparr> s;
     if \<not> ok then Some (None, s)
     else do {
       b \<leftarrow> pb_buffer p;
       n \<leftarrow> c_strlen b;
       Some (Some (take n b), s) } }"

section \<open>Room\<close>

lemma or_keeps_range:
  assumes "0 \<le> x" "x < 2 ^ n"
  shows "0 \<le> x OR drop_bit k x \<and> x OR drop_bit k x < (2 :: int) ^ n \<and> x \<le> x OR drop_bit k x"
proof -
  have d: "0 \<le> drop_bit k x" using assms by simp
  have "drop_bit k x \<le> x" using assms(1) zdiv_mono2 [of x 1 "2 ^ k"] by (simp add: drop_bit_eq_div)
  then show ?thesis using assms d OR_upper [of x n "drop_bit k x"] or_greater_eq [OF d, of x] by auto
qed

lemma pow2gt_covers:
  assumes "0 < x" "x \<le> 2 ^ 30"
  shows "\<exists>y. pow2gt x = Some y \<and> x \<le> y"
proof -
  define x1 where "x1 = x - 1"
  define x2 where "x2 = x1 OR drop_bit 1 x1"
  define x3 where "x3 = x2 OR drop_bit 2 x2"
  define x4 where "x4 = x3 OR drop_bit 4 x3"
  define x5 where "x5 = x4 OR drop_bit 8 x4"
  define x6 where "x6 = x5 OR drop_bit 16 x5"
  have 1: "0 \<le> x1" "x1 < 2 ^ 30" "int32_ok x1" using assms by (simp_all add: x1_def int32_ok_def)
  from or_keeps_range [OF 1(1,2), of 1] have 2: "0 \<le> x2" "x2 < 2 ^ 30" "x1 \<le> x2" by (simp_all add: x2_def)
  from or_keeps_range [OF 2(1,2), of 2] have 3: "0 \<le> x3" "x3 < 2 ^ 30" "x2 \<le> x3" by (simp_all add: x3_def)
  from or_keeps_range [OF 3(1,2), of 4] have 4: "0 \<le> x4" "x4 < 2 ^ 30" "x3 \<le> x4" by (simp_all add: x4_def)
  from or_keeps_range [OF 4(1,2), of 8] have 5: "0 \<le> x5" "x5 < 2 ^ 30" "x4 \<le> x5" by (simp_all add: x5_def)
  from or_keeps_range [OF 5(1,2), of 16] have 6: "0 \<le> x6" "x6 < 2 ^ 30" "x5 \<le> x6" by (simp_all add: x6_def)
  have "pow2gt x = Some (x6 + 1)" using 1 6
    unfolding pow2gt_def Let_def x1_def [symmetric]
    by (simp only: c_int_in bind.simps x2_def [symmetric] x3_def [symmetric] x4_def [symmetric] x5_def [symmetric] x6_def [symmetric])
      (simp add: int32_ok_def)
  moreover have "x \<le> x6 + 1" using 2 3 4 5 6 by (simp add: x1_def)
  ultimately show ?thesis by blast
qed

text \<open>The buffer holds \<open>t\<close> with the offset behind it, or \<open>t\<close> and a terminator with the offset before that.\<close>

definition buf_at :: "printbuffer \<Rightarrow> u8 list \<Rightarrow> bool" where
  "buf_at p t \<longleftrightarrow> (\<exists>r. pb_buffer p = Some (t @ r)) \<and> pb_offset p = length t"

definition buf_end :: "printbuffer \<Rightarrow> u8 list \<Rightarrow> bool" where
  "buf_end p t \<longleftrightarrow> (\<exists>r. pb_buffer p = Some (t @ 0 # r)) \<and> pb_offset p \<le> length t"

text \<open>A step succeeds with the buffer in its block, or some allocation failed and the block is gone.\<close>

definition no_buffer :: "print_env \<Rightarrow> nat \<Rightarrow> printbuffer \<Rightarrow> cj_state \<Rightarrow> bool" where
  "no_buffer P base p s \<longleftrightarrow> pb_buffer p = None \<and> cj_live s = base \<and> \<not> never_null P"

definition grown :: "print_env \<Rightarrow> nat \<Rightarrow> (printbuffer \<Rightarrow> bool) \<Rightarrow> buf_result \<Rightarrow> bool" where
  "grown P base Q x \<longleftrightarrow> (\<exists>ok p s. x = Some (ok, p, s) \<and> (ok \<and> Q p \<and> cj_live s = base + 1 \<or> no_buffer P base p s))"

text \<open>Without a buffer a step does nothing.\<close>

definition null_safe :: "(printbuffer \<Rightarrow> cj_state \<Rightarrow> buf_result) \<Rightarrow> bool" where
  "null_safe f \<longleftrightarrow> (\<forall>p s. pb_buffer p = None \<longrightarrow> (\<exists>ok p'. f p s = Some (ok, p', s) \<and> pb_buffer p' = None))"

lemma ensure_room:
  assumes "buf_at p t" "cj_live s = base + 1" "length t + needed \<le> 2 ^ 30"
  shows "\<exists>ok p' s'. ensure P J needed p s = Some (ok, p', s') \<and>
    (ok \<and> buf_at p' t \<and> length t + needed \<le> length (the (pb_buffer p')) \<and> cj_live s' = base + 1
     \<or> \<not> ok \<and> no_buffer P base p' s')"
proof -
  obtain b r where b: "pb_buffer p = Some b" "b = t @ r" "pb_offset p = length t" using assms(1) by (auto simp: buf_at_def)
  let ?n = "int needed + int (length t)"
  have n: "int32_ok ?n" "?n \<le> 2 ^ 30" using assms(3) by (simp_all add: int32_ok_def)
  show ?thesis
  proof (cases "?n \<le> int (length b)")
    case True
    then show ?thesis using n b assms by (auto simp: ensure_def buf_at_def)
  next
    case False
    then obtain y where y: "pow2gt ?n = Some y" "?n \<le> y" using pow2gt_covers [of ?n] n by auto
    obtain a s1 where m: "cJSON_malloc (pe_malloc P) s = (a, s1)" "cj_live s1 = (if a = 0 then cj_live s else cj_live s + 1)"
        "a = 0 \<longrightarrow> (\<exists>i. pe_malloc P i = 0)" by (rule malloc_cases)
    show ?thesis using False n y b m assms(2)
      by (auto simp: ensure_def Let_def cJSON_free_def buf_at_def no_buffer_def never_null_def)
  qed
qed

lemma put_at_ok:
  assumes "buf_at p t" "length t + length bs \<le> length (the (pb_buffer p))"
  shows "\<exists>r. put_at bs p = Some (p\<lparr>pb_buffer := Some (t @ bs @ r)\<rparr>)"
  using assms by (auto simp: buf_at_def put_at_def)

lemma emit_grown:
  assumes "buf_at p t" "cj_live s = base + 1" "length t + needed \<le> 2 ^ 30" "length bs \<le> needed"
  shows "grown P base (\<lambda>p. \<exists>r. pb_buffer p = Some (t @ bs @ r) \<and> pb_offset p = length t + len) (emit P J needed bs len p s)"
proof -
  obtain ok p1 s1 where e: "ensure P J needed p s = Some (ok, p1, s1)"
    "ok \<and> buf_at p1 t \<and> length t + needed \<le> length (the (pb_buffer p1)) \<and> cj_live s1 = base + 1 \<or> \<not> ok \<and> no_buffer P base p1 s1"
    using ensure_room [OF assms(1-3), of P J] by auto
  show ?thesis
  proof (cases ok)
    case True
    with e obtain r where "put_at bs p1 = Some (p1\<lparr>pb_buffer := Some (t @ bs @ r)\<rparr>)" "pb_offset p1 = length t"
      using put_at_ok [of p1 t bs] assms(4) by (auto simp: buf_at_def)
    then show ?thesis using e True by (auto simp: emit_def grown_def no_buffer_def intro!: exI)
  next
    case False
    then show ?thesis using e by (auto simp: emit_def grown_def)
  qed
qed

lemma emit_at:
  assumes "buf_at p t" "cj_live s = base + 1" "length t + needed \<le> 2 ^ 30" "length u + length v \<le> needed" "len = length u"
  shows "grown P base (\<lambda>p. buf_at p (t @ u)) (emit P J needed (u @ v) len p s)"
  using emit_grown [OF assms(1-3), of "u @ v" P len J] assms(4,5) by (fastforce simp: grown_def buf_at_def)

lemma emit_end:
  assumes "buf_at p t" "cj_live s = base + 1" "length t + needed \<le> 2 ^ 30" "length u < needed"
  shows "grown P base (\<lambda>p. buf_end p (t @ u)) (emit P J needed (u @ [0]) 0 p s)"
  using emit_grown [OF assms(1-3), of "u @ [0]" P 0 J] assms(4) by (fastforce simp: grown_def buf_end_def)

lemma fill_room_end:
  assumes "buf_at p t" "cj_live s = base + 1" "length t + needed \<le> 2 ^ 30" "length u < needed" "\<And>cap. needed \<le> cap \<Longrightarrow> fill cap = Some u"
  shows "grown P base (\<lambda>p. buf_end p (t @ u)) (fill_room P J needed fill p s)"
proof -
  obtain ok p1 s1 where e: "ensure P J needed p s = Some (ok, p1, s1)"
    "ok \<and> buf_at p1 t \<and> length t + needed \<le> length (the (pb_buffer p1)) \<and> cj_live s1 = base + 1 \<or> \<not> ok \<and> no_buffer P base p1 s1"
    using ensure_room [OF assms(1-3), of P J] by auto
  show ?thesis
  proof (cases ok)
    case True
    with e obtain b where b: "pb_buffer p1 = Some b" "pb_offset p1 = length t" "length t + needed \<le> length b" by (auto simp: buf_at_def)
    then show ?thesis using e True put_at_ok [of p1 t "u @ [0]"] assms(4,5)
      by (auto simp: fill_room_def grown_def buf_end_def)
  next
    case False
    then show ?thesis using e by (auto simp: fill_room_def grown_def)
  qed
qed

section \<open>Sequences of steps\<close>

lemma grown_true: "Q p \<Longrightarrow> cj_live s = base + 1 \<Longrightarrow> grown P base Q (Some (True, p, s))"
  by (auto simp: grown_def)

lemma or_fail_grown:
  assumes "grown P base Q x" "\<And>p s. Q p \<Longrightarrow> cj_live s = base + 1 \<Longrightarrow> grown P base R (f p s)" "null_safe f"
  shows "grown P base R (or_fail x f)"
proof -
  obtain ok p s where x: "x = Some (ok, p, s)" "ok \<and> Q p \<and> cj_live s = base + 1 \<or> no_buffer P base p s"
    using assms(1) by (auto simp: grown_def)
  show ?thesis
  proof (cases "ok \<and> Q p \<and> cj_live s = base + 1")
    case True
    then show ?thesis using x(1) assms(2) [of p s] by (simp add: or_fail_def)
  next
    case False
    then have n: "no_buffer P base p s" using x(2) by blast
    then obtain ok' p' where "f p s = Some (ok', p', s)" "pb_buffer p' = None"
      using assms(3) unfolding null_safe_def no_buffer_def by blast
    then show ?thesis using x(1) n by (cases ok) (auto simp: or_fail_def grown_def no_buffer_def)
  qed
qed

lemma c_strlen_end: "0 \<notin> set t \<Longrightarrow> c_strlen (t @ 0 # r) = Some (length t)"
  by (induction t) auto

lemma to_end_at:
  assumes "buf_end p t" "0 \<notin> set t"
  shows "\<exists>p'. to_end p = Some p' \<and> buf_at p' t"
proof -
  obtain r where b: "pb_buffer p = Some (t @ 0 # r)" "pb_offset p \<le> length t" using assms(1) by (auto simp: buf_end_def)
  have "0 \<notin> set (drop (pb_offset p) t)" using assms(2) set_drop_subset [of "pb_offset p" t] by auto
  from c_strlen_end [OF this] b show ?thesis by (auto simp: to_end_def buf_at_def)
qed

lemma at_end_grown:
  assumes "grown P base (\<lambda>p. buf_end p t) x" "0 \<notin> set t" "\<And>p s. buf_at p t \<Longrightarrow> cj_live s = base + 1 \<Longrightarrow> grown P base R (f p s)" "null_safe f"
  shows "grown P base R (at_end x f)"
proof -
  obtain ok p s where x: "x = Some (ok, p, s)" "buf_end p t \<and> cj_live s = base + 1 \<or> no_buffer P base p s"
    using assms(1) by (auto simp: grown_def)
  show ?thesis
  proof (cases "buf_end p t \<and> cj_live s = base + 1")
    case True
    then obtain p' where "to_end p = Some p'" "buf_at p' t" using to_end_at assms(2) by blast
    then show ?thesis using x(1) assms(3) [of p' s] True by (simp add: at_end_def)
  next
    case False
    then have n: "no_buffer P base p s" using x(2) by blast
    then have "pb_buffer (p\<lparr>pb_offset := 0\<rparr>) = None" by (simp add: no_buffer_def)
    then obtain ok' p' where "f (p\<lparr>pb_offset := 0\<rparr>) s = Some (ok', p', s)" "pb_buffer p' = None"
      using assms(4) unfolding null_safe_def by blast
    then show ?thesis using x(1) n by (auto simp: at_end_def to_end_def grown_def no_buffer_def)
  qed
qed

lemma null_safe_basic [simp]: "null_safe (fill_room P J n fill)" "null_safe (emit P J n bs len)" "null_safe (\<lambda>p s. Some (True, p, s))"
  by (auto simp: null_safe_def fill_room_def emit_def ensure_def intro!: exI)

lemma null_safe_or_fail [intro]:
  assumes "null_safe g" "null_safe f"
  shows "null_safe (\<lambda>p s. or_fail (g p s) f)"
  unfolding null_safe_def
proof (intro allI impI)
  fix p :: printbuffer and s assume "pb_buffer p = None"
  then obtain ok p' where g: "g p s = Some (ok, p', s)" "pb_buffer p' = None" using assms(1) unfolding null_safe_def by blast
  then show "\<exists>ok p'. or_fail (g p s) f = Some (ok, p', s) \<and> pb_buffer p' = None"
    using assms(2) by (cases ok) (auto simp: or_fail_def null_safe_def)
qed

lemma null_safe_at_end [intro]:
  assumes "null_safe g" "null_safe f"
  shows "null_safe (\<lambda>p s. at_end (g p s) f)"
  unfolding null_safe_def
proof (intro allI impI)
  fix p :: printbuffer and s assume "pb_buffer p = None"
  then obtain ok p' where g: "g p s = Some (ok, p', s)" "pb_buffer p' = None" using assms(1) unfolding null_safe_def by blast
  then show "\<exists>ok p'. at_end (g p s) f = Some (ok, p', s) \<and> pb_buffer p' = None"
    using assms(2) by (auto simp: at_end_def to_end_def null_safe_def)
qed

section \<open>The text in the buffer\<close>

text \<open>What the printer calls \<open>sprintf\<close> for is a C string, and no printed text has a terminator in it.\<close>

definition formats_text :: "print_env \<Rightarrow> bool" where
  "formats_text P \<longleftrightarrow> (\<forall>d. 0 \<notin> set (pe_fmt_0f P d) \<and> 0 \<notin> set (pe_fmt_e P d) \<and> 0 \<notin> set (pe_fmt_f P d))"

lemma nat_digits_nonzero: "0 \<notin> set (nat_digits n)"
proof (induction n rule: nat_digits.induct)
  case (1 n)
  have "(of_nat (48 + k) :: u8) \<noteq> 0" if "k < 10" for k using digit_byte [OF that] by auto
  from this [of n] this [of "n mod 10"] show ?case using 1 by (subst nat_digits.simps) auto
qed

lemma int_text_nonzero: "0 \<notin> set (int_text i)"
  using nat_digits_nonzero by (auto simp: int_text_def)

lemma hex_char_nonzero: "n < 16 \<Longrightarrow> hex_char n \<noteq> 0"
  using hex_char_ok [of n] by (auto simp: is_hex_def is_digit_def)

lemma escape_byte_nonzero: "c \<noteq> 0 \<Longrightarrow> 0 \<notin> set (escape_byte c)"
proof -
  have "unat c < 256" using unsigned_less [of c, where 'a = nat] by simp
  then have "unat c div 16 < 16" by (simp add: less_mult_imp_div_less)
  then have "0 \<notin> set (u_escape c)" using hex_char_nonzero [of "unat c div 16"] hex_char_nonzero [of "unat c mod 16"]
    by (simp add: u_escape_def)
  then show "c \<noteq> 0 \<Longrightarrow> ?thesis" by (simp add: escape_byte_def escape_tail_def split: if_split)
qed

lemma quoted_nonzero: "0 \<notin> set str \<Longrightarrow> 0 \<notin> set (quoted str)"
proof -
  assume "0 \<notin> set str"
  then have "0 \<notin> set (escape_byte c)" if "c \<in> set str" for c using that escape_byte_nonzero [of c] by auto
  then show ?thesis by (auto simp: quoted_def)
qed

lemma join_entries_nonzero: "\<forall>e \<in> set es. 0 \<notin> set e \<Longrightarrow> 0 \<notin> set (join_entries fmt es)"
  by (induction es) (auto simp: if_fmt_def)

lemma join_members_nonzero:
  "\<forall>m \<in> set ms. 0 \<notin> set (fst m) \<and> 0 \<notin> set (snd m) \<Longrightarrow> 0 \<notin> set (join_members fmt depth ms)"
  by (induction fmt depth ms rule: join_members.induct) (auto simp: if_fmt_def)

lemma number_bytes_nonzero: "formats_text P \<Longrightarrow> 0 \<notin> set (number_bytes P i d)"
  using int_text_nonzero by (auto simp: formats_text_def number_bytes_def)

lemma print_text_nonzero:
  "formats_text P \<Longrightarrow> tree_ok c \<Longrightarrow> 0 \<notin> set (print_text P fmt depth c)"
proof (induction c arbitrary: depth)
  case (CJSON ty v i d name ch)
  show ?case
  proof (cases ty)
    case cJSON_Number
    then show ?thesis using number_bytes_nonzero CJSON.prems by simp
  next
    case cJSON_String
    then show ?thesis using quoted_nonzero CJSON.prems by (auto simp: c_string_ok_def split: option.splits)
  next
    case cJSON_Array
    then show ?thesis using join_entries_nonzero [of "map (print_text P fmt (depth + 1)) ch" fmt] CJSON by (auto simp: array_text_def)
  next
    case cJSON_Object
    have "0 \<notin> set (quoted (name_of c))" if "c \<in> set ch" for c
      using that cJSON_Object CJSON.prems quoted_nonzero by (fastforce simp: c_string_ok_def name_of_def split: option.splits)
    then show ?thesis using cJSON_Object CJSON
        join_members_nonzero [of "map (\<lambda>c. (quoted (name_of c), print_text P fmt (depth + 1) c)) ch" fmt "depth + 1"]
      by (auto simp: object_text_def if_fmt_def)
  qed (auto simp: lit_null_def lit_false_def lit_true_def)
qed

section \<open>Steps of the printer\<close>

lemma print_literal_end:
  assumes "buf_at p t" "cj_live s = base + 1" "length t + length lit + 1 \<le> 2 ^ 30"
  shows "grown P base (\<lambda>p. buf_end p (t @ lit)) (print_literal_buf P J lit p s)"
  unfolding print_literal_buf_def by (rule fill_room_end [OF assms(1,2)]) (use assms(3) in \<open>auto intro: c_strcpy_ok\<close>)

lemma print_number_end:
  assumes "buf_at p t" "cj_live s = base + 1" "length t + 64 \<le> 2 ^ 30" "formats_fit P"
  shows "grown P base (\<lambda>p. buf_end p (t @ number_bytes P i d)) (print_number_buf P J i d p s)"
  using assms(3,4) int_text_length [of i] unfolding print_number_buf_def number_bytes_def
  by (auto simp: formats_fit_def intro!: fill_room_end [OF assms(1,2)] c_strcpy_ok intro: less_le_trans)

lemma escape_byte_exact: "length (escape_byte c) = escaped_length c"
proof (cases "31 < c \<and> c \<noteq> ch_quote \<and> c \<noteq> ch_backslash")
  case True
  then have "c \<notin> {34, 92, 8, 12, 10, 13, 9}" "\<not> c < 32" by (auto simp: word_less_nat_alt)
  then show ?thesis using True by (simp add: escape_byte_def escaped_length_def)
next
  case False
  then have "c < 32 \<or> c = 34 \<or> c = 92" by (auto simp: word_less_nat_alt)
  with False show ?thesis by (auto simp: escape_byte_def escaped_length_def escape_tail_length)
qed

lemma escaped_sum_exact: "length (concat (map escape_byte str)) = sum_list (map escaped_length str)"
  by (induction str) (simp_all add: escape_byte_exact)

lemma print_string_end:
  assumes "buf_at p t" "cj_live s = base + 1" "c_string_ok v" "length t + length (quoted (snd (the v))) + 1 \<le> 2 ^ 30"
  shows "grown P base (\<lambda>p. buf_end p (t @ quoted (snd (the v)))) (print_string_buf P J v p s)"
proof -
  obtain a str where v: "v = Some (a, str)" "0 \<notin> set str" using assms(3) by (auto simp: c_string_ok_def split: option.splits)
  show ?thesis
  proof (cases "list_ex needs_escape str")
    case True
    show ?thesis unfolding print_string_buf_def v
      by (simp add: True, rule fill_room_end [OF assms(1,2)])
        (use assms(4) escaped_sum_exact [of str] in \<open>auto simp: v quoted_def put_out_ok put_nul_ok print_chars_ok\<close>)
  next
    case False
    show ?thesis unfolding print_string_buf_def v
      by (simp add: False, rule fill_room_end [OF assms(1,2)])
        (use assms(4) plain_copied [OF False v(2)] in \<open>auto simp: v quoted_def put_out_ok put_nul_ok\<close>)
  qed
qed

lemma print_empty_end:
  assumes "buf_at p t" "cj_live s = base + 1" "length t + (if fmt then depth + 4 else 3) \<le> 2 ^ 30"
  shows "grown P base (\<lambda>p. buf_end p (t @ object_text fmt depth [])) (print_empty_buf P J depth fmt p s)"
  unfolding print_empty_buf_def object_text_def by (rule fill_room_end [OF assms(1,2)]) (use assms(3) in \<open>auto simp: if_fmt_def intro: c_strcpy_ok\<close>)

text \<open>The pieces around the children.\<close>

lemma emit_comma_at:
  assumes "buf_at p t" "cj_live s = base + 1" "length t + 3 \<le> 2 ^ 30"
  shows "grown P base (\<lambda>p. buf_at p (t @ (if final then [] else ch_comma # if_fmt fmt [32]))) (emit_comma P J final fmt p s)"
proof (cases final)
  case True
  then show ?thesis using assms by (simp add: emit_comma_def grown_true)
next
  case False
  have "grown P base (\<lambda>p. buf_at p (t @ ch_comma # if_fmt fmt [32]))
      (emit P J (Suc (if fmt then 2 else 1)) ((ch_comma # if_fmt fmt [32]) @ [0]) (if fmt then 2 else 1) p s)"
    by (rule emit_at [OF assms(1,2)]) (use assms(3) in \<open>auto simp: if_fmt_def\<close>)
  then show ?thesis using False by (simp add: emit_comma_def Let_def)
qed

lemma emit_lbrace_at:
  assumes "buf_at p t" "cj_live s = base + 1" "length t + 3 \<le> 2 ^ 30"
  shows "grown P base (\<lambda>p. buf_at p (t @ ch_lbrace # if_fmt fmt [10])) (emit_lbrace P J fmt p s)"
  using emit_at [OF assms(1,2), of "if fmt then 3 else 2" "ch_lbrace # if_fmt fmt [10]" "[0]" "if fmt then 2 else 1" P J] assms(3)
  by (cases fmt) (simp_all add: emit_lbrace_def if_fmt_def numeral_3_eq_3 numeral_2_eq_2)

lemma emit_tabs_at:
  assumes "buf_at p t" "cj_live s = base + 1" "fmt \<longrightarrow> length t + depth \<le> 2 ^ 30"
  shows "grown P base (\<lambda>p. buf_at p (t @ if_fmt fmt (replicate depth 9))) (emit_tabs P J depth fmt p s)"
proof (cases fmt)
  case True
  then show ?thesis using emit_at [OF assms(1,2), of depth "replicate depth 9" "[]" depth P J] assms(3)
    by (simp add: emit_tabs_def if_fmt_def)
next
  case False
  then show ?thesis using assms by (simp add: emit_tabs_def if_fmt_def grown_true)
qed

lemma emit_colon_at:
  assumes "buf_at p t" "cj_live s = base + 1" "length t + 2 \<le> 2 ^ 30"
  shows "grown P base (\<lambda>p. buf_at p (t @ ch_colon # if_fmt fmt [9])) (emit_colon P J fmt p s)"
  using emit_at [OF assms(1,2), of "if fmt then 2 else 1" "ch_colon # if_fmt fmt [9]" "[]" "if fmt then 2 else 1" P J] assms(3)
  by (cases fmt) (simp_all add: emit_colon_def if_fmt_def)

lemma emit_member_end_at:
  assumes "buf_at p t" "cj_live s = base + 1" "length t + 3 \<le> 2 ^ 30"
  shows "grown P base (\<lambda>p. buf_at p (t @ (if final then [] else [ch_comma]) @ if_fmt fmt [10])) (emit_member_end P J final fmt p s)"
proof -
  let ?u = "(if final then [] else [ch_comma]) @ if_fmt fmt [10]"
  have "grown P base (\<lambda>p. buf_at p (t @ ?u)) (emit P J (length ?u + 1) (?u @ [0]) (length ?u) p s)"
    by (rule emit_at [OF assms(1,2)]) (use assms(3) in \<open>auto simp: if_fmt_def\<close>)
  moreover have "length ?u = (if fmt then 1 else 0) + (if final then 0 else 1)" by (simp add: if_fmt_def)
  ultimately show ?thesis by (simp add: emit_member_end_def Let_def)
qed

lemma emit_rbrace_end:
  assumes "buf_at p t" "cj_live s = base + 1" "length t + (if fmt then depth + 1 else 2) \<le> 2 ^ 30" "0 < depth"
  shows "grown P base (\<lambda>p. buf_end p (t @ if_fmt fmt (replicate (depth - 1) 9) @ [ch_rbrace])) (emit_rbrace P J depth fmt p s)"
proof -
  let ?u = "if_fmt fmt (replicate (depth - 1) 9) @ [ch_rbrace]"
  have "grown P base (\<lambda>p. buf_end p (t @ ?u)) (emit P J (if fmt then depth + 1 else 2) (?u @ [0]) 0 p s)"
    by (rule emit_end [OF assms(1,2)]) (use assms(3,4) in \<open>auto simp: if_fmt_def\<close>)
  then show ?thesis by (simp add: emit_rbrace_def)
qed

section \<open>Printing without a buffer\<close>

lemma null_safe_steps [simp]:
  "null_safe (print_literal_buf P J lit)" "null_safe (print_number_buf P J i d)" "null_safe (print_empty_buf P J depth fmt)"
  "null_safe (emit_lbrace P J fmt)" "null_safe (emit_colon P J fmt)" "null_safe (emit_member_end P J final fmt)"
  "null_safe (emit_rbrace P J depth fmt)"
  by (simp_all add: print_literal_buf_def print_number_buf_def print_empty_buf_def emit_lbrace_def emit_colon_def emit_member_end_def
      emit_rbrace_def Let_def)

lemma null_safe_optional [simp]:
  "null_safe (emit_comma P J final fmt)" "null_safe (emit_tabs P J depth fmt)"
proof -
  have "emit_comma P J final fmt = (if final then (\<lambda>p s. Some (True, p, s)) else emit P J ((if fmt then 2 else 1) + 1) (ch_comma # if_fmt fmt [32] @ [0]) (if fmt then 2 else 1))"
    by (intro ext) (simp add: emit_comma_def Let_def)
  then show "null_safe (emit_comma P J final fmt)" by simp
  have "emit_tabs P J depth fmt = (if fmt then emit P J depth (replicate depth 9) depth else (\<lambda>p s. Some (True, p, s)))"
    by (intro ext) (simp add: emit_tabs_def)
  then show "null_safe (emit_tabs P J depth fmt)" by simp
qed

lemma c_string_ok_some: "c_string_ok v \<Longrightarrow> v \<noteq> None"
  by (cases v) (simp_all add: c_string_ok_def)

lemma null_safe_string: "v \<noteq> None \<Longrightarrow> null_safe (print_string_buf P J v)"
  by (auto simp: null_safe_def print_string_buf_def fill_room_def ensure_def intro!: exI)

lemma null_safe_entries:
  assumes "\<And>c depth. c \<in> set cs \<Longrightarrow> null_safe (print_value_buf P J c depth fmt)"
  shows "null_safe (print_entries_buf P J cs depth fmt)"
  using assms
proof (induction cs)
  case (Cons c cs)
  then have "null_safe (\<lambda>p s. at_end (print_value_buf P J c depth fmt p s)
      (\<lambda>p s. or_fail (emit_comma P J (cs = []) fmt p s) (print_entries_buf P J cs depth fmt)))"
    by (intro null_safe_at_end null_safe_or_fail) simp_all
  then show ?case by (simp add: null_safe_def)
qed (auto simp: null_safe_def intro!: exI [of _ True])

lemma null_safe_members:
  assumes "\<And>c depth. c \<in> set cs \<Longrightarrow> js_string c \<noteq> None \<and> null_safe (print_value_buf P J c depth fmt)"
  shows "null_safe (print_members_buf P J cs depth fmt)"
  using assms
proof (induction cs)
  case (Cons c cs)
  then have "null_safe (\<lambda>p s. or_fail (emit_tabs P J depth fmt p s)
       (\<lambda>p s. at_end (print_string_buf P J (js_string c) p s)
         (\<lambda>p s. or_fail (emit_colon P J fmt p s)
           (\<lambda>p s. at_end (print_value_buf P J c depth fmt p s)
             (\<lambda>p s. or_fail (emit_member_end P J (cs = []) fmt p s) (print_members_buf P J cs depth fmt))))))"
    by (intro null_safe_at_end null_safe_or_fail null_safe_string) simp_all
  then show ?case by (simp add: null_safe_def)
qed (auto simp: null_safe_def intro!: exI [of _ True])

lemma null_safe_value:
  assumes "tree_ok c"
  shows "null_safe (print_value_buf P J c depth fmt)"
  using assms
proof (induction c arbitrary: depth)
  case (CJSON ty v i d name ch)
  let ?array = "\<lambda>p s. or_fail (emit P J 1 [ch_lbracket] 1 p s)
          (\<lambda>p s. or_fail (print_entries_buf P J ch (depth + 1) fmt p s) (emit P J 2 [ch_rbracket, 0] 0))"
  let ?object = "\<lambda>p s. or_fail (emit_lbrace P J fmt p s)
          (\<lambda>p s. or_fail (print_members_buf P J ch (depth + 1) fmt p s) (emit_rbrace P J (depth + 1) fmt))"
  have eq: "print_value_buf P J (CJSON ty v i d name ch) depth fmt = (case ty of
     cJSON_NULL \<Rightarrow> print_literal_buf P J lit_null | cJSON_False \<Rightarrow> print_literal_buf P J lit_false
   | cJSON_True \<Rightarrow> print_literal_buf P J lit_true | cJSON_Number \<Rightarrow> print_number_buf P J i d | cJSON_String \<Rightarrow> print_string_buf P J v
   | cJSON_Array \<Rightarrow> (if ch = [] then fill_room P J 3 (c_strcpy [ch_lbracket, ch_rbracket]) else ?array)
   | cJSON_Object \<Rightarrow> (if ch = [] then print_empty_buf P J depth fmt else ?object))"
    by (intro ext) (simp split: cJSON_type.split)
  show ?case
  proof (cases ty)
    case cJSON_String
    then show ?thesis using CJSON.prems null_safe_string [of v] by (auto simp: eq c_string_ok_def split: option.splits)
  next
    case cJSON_Array
    then have "null_safe (print_entries_buf P J ch (depth + 1) fmt)" using CJSON by (intro null_safe_entries) simp
    then have "null_safe ?array" by (intro null_safe_or_fail) simp_all
    then show ?thesis by (cases "ch = []") (simp_all add: eq cJSON_Array)
  next
    case cJSON_Object
    then have "null_safe (print_members_buf P J ch (depth + 1) fmt)"
      using CJSON c_string_ok_some by (intro null_safe_members) auto
    then have "null_safe ?object" by (intro null_safe_or_fail) simp_all
    then show ?thesis by (cases "ch = []") (simp_all add: eq cJSON_Object)
  qed (simp_all add: eq)
qed

section \<open>Printing a tree\<close>

definition value_grows :: "print_env \<Rightarrow> (nat \<Rightarrow> nat \<Rightarrow> u8) \<Rightarrow> bool \<Rightarrow> cJSON \<Rightarrow> bool" where
  "value_grows P J fmt c \<longleftrightarrow> (\<forall>depth t p s base. buf_at p t \<longrightarrow> 0 \<notin> set t \<longrightarrow> cj_live s = base + 1
     \<longrightarrow> length t + length (print_text P fmt depth c) + 64 \<le> 2 ^ 30
     \<longrightarrow> grown P base (\<lambda>p. buf_end p (t @ print_text P fmt depth c)) (print_value_buf P J c depth fmt p s))"

lemma value_growsD:
  "value_grows P J fmt c \<Longrightarrow> buf_at p t \<Longrightarrow> 0 \<notin> set t \<Longrightarrow> cj_live s = base + 1 \<Longrightarrow> length t + length (print_text P fmt depth c) + 64 \<le> 2 ^ 30
    \<Longrightarrow> grown P base (\<lambda>p. buf_end p (t @ print_text P fmt depth c)) (print_value_buf P J c depth fmt p s)"
  by (simp add: value_grows_def)

lemma entries_at:
  assumes "\<And>c. c \<in> set cs \<Longrightarrow> value_grows P J fmt c \<and> tree_ok c" "formats_text P"
    and "buf_at p t" "0 \<notin> set t" "cj_live s = base + 1"
    and "length t + length (join_entries fmt (map (print_text P fmt depth) cs)) + 64 \<le> 2 ^ 30"
  shows "grown P base (\<lambda>p. buf_at p (t @ join_entries fmt (map (print_text P fmt depth) cs))) (print_entries_buf P J cs depth fmt p s)"
  using assms
proof (induction cs arbitrary: t p s)
  case (Cons c cs)
  let ?e = "print_text P fmt depth c" and ?rest = "join_entries fmt (map (print_text P fmt depth) cs)"
  let ?comma = "if cs = [] then [] else ch_comma # if_fmt fmt [32]"
  have c: "value_grows P J fmt c" "tree_ok c" and cs: "null_safe (print_entries_buf P J cs depth fmt)"
    using Cons.prems(1) null_safe_value by (auto intro!: null_safe_entries)
  have e: "0 \<notin> set ?e" by (rule print_text_nonzero [OF Cons.prems(2) c(2)])
  have nul: "0 \<notin> set ?comma" by (simp add: if_fmt_def)
  have len: "length t + length ?e + length ?comma + length ?rest + 64 \<le> 2 ^ 30" using Cons.prems(6) by (auto simp: if_fmt_def)
  have "grown P base (\<lambda>p. buf_end p (t @ ?e)) (print_value_buf P J c depth fmt p s)"
    by (rule value_growsD [OF c(1) Cons.prems(3-5)]) (use len in simp)
  then have "grown P base (\<lambda>p. buf_at p ((t @ ?e) @ ?comma @ ?rest)) (print_entries_buf P J (c # cs) depth fmt p s)"
    unfolding print_entries_buf.simps
  proof (rule at_end_grown)
    show "0 \<notin> set (t @ ?e)" using e Cons.prems(4) by simp
    fix p :: printbuffer and s :: cj_state assume p: "buf_at p (t @ ?e)" "cj_live s = base + 1"
    have "grown P base (\<lambda>p. buf_at p ((t @ ?e) @ ?comma)) (emit_comma P J (cs = []) fmt p s)"
      by (rule emit_comma_at [OF p]) (use len in simp)
    then show "grown P base (\<lambda>p. buf_at p ((t @ ?e) @ ?comma @ ?rest)) (or_fail (emit_comma P J (cs = []) fmt p s) (print_entries_buf P J cs depth fmt))"
    proof (rule or_fail_grown)
      fix p :: printbuffer and s :: cj_state assume "buf_at p ((t @ ?e) @ ?comma)" "cj_live s = base + 1"
      from Cons.IH [OF _ Cons.prems(2) this(1) _ this(2)]
      show "grown P base (\<lambda>p. buf_at p ((t @ ?e) @ ?comma @ ?rest)) (print_entries_buf P J cs depth fmt p s)"
        using Cons.prems(1,4) e nul len by simp
    qed (rule cs)
  qed (intro null_safe_or_fail null_safe_optional cs)
  then show ?case by simp
qed (simp add: grown_true)

lemma members_at:
  assumes "\<And>c. c \<in> set cs \<Longrightarrow> value_grows P J fmt c \<and> tree_ok c \<and> c_string_ok (js_string c)" "formats_text P"
    and "buf_at p t" "0 \<notin> set t" "cj_live s = base + 1"
    and "length t + length (join_members fmt depth (map (\<lambda>c. (quoted (name_of c), print_text P fmt depth c)) cs)) + 64 \<le> 2 ^ 30"
  shows "grown P base (\<lambda>p. buf_at p (t @ join_members fmt depth (map (\<lambda>c. (quoted (name_of c), print_text P fmt depth c)) cs)))
    (print_members_buf P J cs depth fmt p s)"
  using assms
proof (induction cs arbitrary: t p s)
  case (Cons c cs)
  let ?n = "quoted (name_of c)" and ?e = "print_text P fmt depth c"
    and ?rest = "join_members fmt depth (map (\<lambda>c. (quoted (name_of c), print_text P fmt depth c)) cs)"
  let ?tabs = "if_fmt fmt (replicate depth 9)" and ?colon = "ch_colon # if_fmt fmt [9]"
    and ?fin = "(if cs = [] then [] else [ch_comma]) @ if_fmt fmt [10]"
  let ?all = "t @ ?tabs @ ?n @ ?colon @ ?e @ ?fin @ ?rest"
  let ?f5 = "\<lambda>p s. or_fail (emit_member_end P J (cs = []) fmt p s) (print_members_buf P J cs depth fmt)"
  let ?f4 = "\<lambda>p s. at_end (print_value_buf P J c depth fmt p s) ?f5"
  let ?f3 = "\<lambda>p s. or_fail (emit_colon P J fmt p s) ?f4"
  let ?f2 = "\<lambda>p s. at_end (print_string_buf P J (js_string c) p s) ?f3"
  have c: "value_grows P J fmt c" "tree_ok c" "c_string_ok (js_string c)" using Cons.prems(1) by auto
  then have name: "js_string c \<noteq> None" "quoted (snd (the (js_string c))) = ?n" "0 \<notin> set ?n"
    using quoted_nonzero by (auto simp: c_string_ok_def name_of_def split: option.splits)
  have safe: "null_safe (print_members_buf P J cs depth fmt)"
    using Cons.prems(1) null_safe_value c_string_ok_some by (intro null_safe_members) auto
  then have f5: "null_safe ?f5" by (intro null_safe_or_fail) simp_all
  then have f4: "null_safe ?f4" using null_safe_value [OF c(2)] by (intro null_safe_at_end)
  then have f3: "null_safe ?f3" by (intro null_safe_or_fail) simp_all
  then have f2: "null_safe ?f2" using null_safe_string [OF name(1)] by (intro null_safe_at_end)
  have e: "0 \<notin> set ?e" by (rule print_text_nonzero [OF Cons.prems(2) c(2)])
  have nul: "0 \<notin> set ?tabs" "0 \<notin> set ?colon" "0 \<notin> set ?fin" by (simp_all add: if_fmt_def)
  have len: "length ?all + 64 \<le> 2 ^ 30" using Cons.prems(6) by simp
  have 5: "grown P base (\<lambda>p. buf_at p ?all) (?f5 p s)"
    if p: "buf_at p (t @ ?tabs @ ?n @ ?colon @ ?e)" "cj_live s = base + 1" for p s
  proof (rule or_fail_grown [OF _ _ safe])
    show "grown P base (\<lambda>p. buf_at p ((t @ ?tabs @ ?n @ ?colon @ ?e) @ ?fin)) (emit_member_end P J (cs = []) fmt p s)"
      by (rule emit_member_end_at [OF p]) (use len in simp)
    fix p :: printbuffer and s :: cj_state assume "buf_at p ((t @ ?tabs @ ?n @ ?colon @ ?e) @ ?fin)" "cj_live s = base + 1"
    from Cons.IH [OF _ Cons.prems(2) this(1) _ this(2)]
    show "grown P base (\<lambda>p. buf_at p ?all) (print_members_buf P J cs depth fmt p s)"
      using Cons.prems(1,4) e nul name(3) len by simp
  qed
  have 4: "grown P base (\<lambda>p. buf_at p ?all) (?f4 p s)"
    if p: "buf_at p (t @ ?tabs @ ?n @ ?colon)" "cj_live s = base + 1" for p s
  proof (rule at_end_grown [OF _ _ _ f5])
    show "grown P base (\<lambda>p. buf_end p ((t @ ?tabs @ ?n @ ?colon) @ ?e)) (print_value_buf P J c depth fmt p s)"
      by (rule value_growsD [OF c(1) p(1) _ p(2)]) (use len Cons.prems(4) nul name(3) in simp_all)
  qed (use Cons.prems(4) nul name(3) e 5 in simp_all)
  have 3: "grown P base (\<lambda>p. buf_at p ?all) (?f3 p s)"
    if p: "buf_at p (t @ ?tabs @ ?n)" "cj_live s = base + 1" for p s
  proof (rule or_fail_grown [OF _ _ f4])
    show "grown P base (\<lambda>p. buf_at p ((t @ ?tabs @ ?n) @ ?colon)) (emit_colon P J fmt p s)"
      by (rule emit_colon_at [OF p]) (use len in simp)
  qed (use 4 in simp)
  have 2: "grown P base (\<lambda>p. buf_at p ?all) (?f2 p s)"
    if p: "buf_at p (t @ ?tabs)" "cj_live s = base + 1" for p s
  proof (rule at_end_grown [OF _ _ _ f3])
    show "grown P base (\<lambda>p. buf_end p ((t @ ?tabs) @ ?n)) (print_string_buf P J (js_string c) p s)"
      using print_string_end [OF p c(3)] name(2) len by simp
  qed (use Cons.prems(4) nul name(3) 3 in simp_all)
  have "grown P base (\<lambda>p. buf_at p ?all) (print_members_buf P J (c # cs) depth fmt p s)"
    unfolding print_members_buf.simps
  proof (rule or_fail_grown [OF _ _ f2])
    show "grown P base (\<lambda>p. buf_at p (t @ ?tabs)) (emit_tabs P J depth fmt p s)"
      by (rule emit_tabs_at [OF Cons.prems(3,5)]) (use len in \<open>auto simp: if_fmt_def\<close>)
  qed (use 2 in simp)
  then show ?case by simp
qed (simp add: grown_true)

lemma array_end:
  assumes "\<And>c. c \<in> set ch \<Longrightarrow> value_grows P J fmt c \<and> tree_ok c" "formats_text P"
    and p: "buf_at p t" "0 \<notin> set t" "cj_live s = base + 1"
    and len: "length t + length (array_text fmt (map (print_text P fmt (depth + 1)) ch)) + 64 \<le> 2 ^ 30"
  shows "grown P base (\<lambda>p. buf_end p (t @ array_text fmt (map (print_text P fmt (depth + 1)) ch)))
    (or_fail (emit P J 1 [ch_lbracket] 1 p s)
      (\<lambda>p s. or_fail (print_entries_buf P J ch (depth + 1) fmt p s) (emit P J 2 [ch_rbracket, 0] 0)))" (is "grown _ _ ?Q _")
proof (rule or_fail_grown)
  let ?join = "join_entries fmt (map (print_text P fmt (depth + 1)) ch)"
  show "null_safe (\<lambda>p s. or_fail (print_entries_buf P J ch (depth + 1) fmt p s) (emit P J 2 [ch_rbracket, 0] 0))"
    using assms(1) null_safe_value by (intro null_safe_or_fail null_safe_entries) simp_all
  show "grown P base (\<lambda>p. buf_at p (t @ [ch_lbracket])) (emit P J 1 [ch_lbracket] 1 p s)"
    using emit_at [OF p(1,3), of 1 "[ch_lbracket]" "[]" 1 P J] len by (simp add: array_text_def)
  fix p :: printbuffer and s :: cj_state assume q: "buf_at p (t @ [ch_lbracket])" "cj_live s = base + 1"
  show "grown P base ?Q (or_fail (print_entries_buf P J ch (depth + 1) fmt p s) (emit P J 2 [ch_rbracket, 0] 0))"
  proof (rule or_fail_grown)
    show "grown P base (\<lambda>p. buf_at p ((t @ [ch_lbracket]) @ ?join)) (print_entries_buf P J ch (depth + 1) fmt p s)"
      by (rule entries_at [OF assms(1,2) q(1) _ q(2)]) (use p(2) len in \<open>simp_all add: array_text_def\<close>)
    fix p :: printbuffer and s :: cj_state assume r: "buf_at p ((t @ [ch_lbracket]) @ ?join)" "cj_live s = base + 1"
    show "grown P base ?Q (emit P J 2 [ch_rbracket, 0] 0 p s)"
      using emit_end [OF r, of 2 "[ch_rbracket]" P J] len by (simp add: array_text_def)
  qed simp
qed

lemma object_end:
  assumes "\<And>c. c \<in> set ch \<Longrightarrow> value_grows P J fmt c \<and> tree_ok c \<and> c_string_ok (js_string c)" "formats_text P" "ch \<noteq> []"
    and p: "buf_at p t" "0 \<notin> set t" "cj_live s = base + 1"
    and len: "length t + length (object_text fmt depth (map (\<lambda>c. (quoted (name_of c), print_text P fmt (depth + 1) c)) ch)) + 64 \<le> 2 ^ 30"
  shows "grown P base (\<lambda>p. buf_end p (t @ object_text fmt depth (map (\<lambda>c. (quoted (name_of c), print_text P fmt (depth + 1) c)) ch)))
    (or_fail (emit_lbrace P J fmt p s)
      (\<lambda>p s. or_fail (print_members_buf P J ch (depth + 1) fmt p s) (emit_rbrace P J (depth + 1) fmt)))" (is "grown _ _ ?Q _")
proof (rule or_fail_grown)
  let ?join = "join_members fmt (depth + 1) (map (\<lambda>c. (quoted (name_of c), print_text P fmt (depth + 1) c)) ch)"
  let ?open = "ch_lbrace # if_fmt fmt [10]"
  have o: "0 \<notin> set ?open" by (simp add: if_fmt_def)
  have l: "length t + length ?open + length ?join + (if fmt then depth else 0) + 65 \<le> 2 ^ 30"
    using len assms(3) by (simp add: object_text_def if_fmt_def split: if_splits)
  show "null_safe (\<lambda>p s. or_fail (print_members_buf P J ch (depth + 1) fmt p s) (emit_rbrace P J (depth + 1) fmt))"
    using assms(1) null_safe_value c_string_ok_some by (intro null_safe_or_fail null_safe_members) simp_all
  show "grown P base (\<lambda>p. buf_at p (t @ ?open)) (emit_lbrace P J fmt p s)"
    by (rule emit_lbrace_at [OF p(1,3)]) (use l in simp)
  fix p :: printbuffer and s :: cj_state assume q: "buf_at p (t @ ?open)" "cj_live s = base + 1"
  show "grown P base ?Q (or_fail (print_members_buf P J ch (depth + 1) fmt p s) (emit_rbrace P J (depth + 1) fmt))"
  proof (rule or_fail_grown)
    show "grown P base (\<lambda>p. buf_at p ((t @ ?open) @ ?join)) (print_members_buf P J ch (depth + 1) fmt p s)"
      by (rule members_at [OF assms(1,2) q(1) _ q(2)]) (use p(2) o l in simp_all)
    fix p :: printbuffer and s :: cj_state assume r: "buf_at p ((t @ ?open) @ ?join)" "cj_live s = base + 1"
    have "grown P base (\<lambda>p. buf_end p (((t @ ?open) @ ?join) @ if_fmt fmt (replicate (depth + 1 - 1) 9) @ [ch_rbrace])) (emit_rbrace P J (depth + 1) fmt p s)"
      by (rule emit_rbrace_end [OF r]) (use l in \<open>simp_all split: if_splits\<close>)
    then show "grown P base ?Q (emit_rbrace P J (depth + 1) fmt p s)" using assms(3) by (simp add: object_text_def)
  qed simp
qed

lemma value_grows:
  assumes "formats_fit P" "formats_text P" "tree_ok c"
  shows "value_grows P J fmt c"
  unfolding value_grows_def
  using assms(3)
proof (induction c)
  case (CJSON ty v i d name ch)
  have child: "value_grows P J fmt c \<and> tree_ok c \<and> (ty = cJSON_Object \<longrightarrow> c_string_ok (js_string c))"
    if "c \<in> set ch" "ty = cJSON_Array \<or> ty = cJSON_Object" for c
    using CJSON that unfolding value_grows_def by auto
  show ?case
  proof (intro allI impI)
    fix depth t p base and s :: cj_state
    let ?text = "print_text P fmt depth (CJSON ty v i d name ch)"
    assume p: "buf_at p t" "0 \<notin> set t" "cj_live s = base + 1" and len: "length t + length ?text + 64 \<le> 2 ^ 30"
    show "grown P base (\<lambda>p. buf_end p (t @ ?text)) (print_value_buf P J (CJSON ty v i d name ch) depth fmt p s)"
    proof (cases ty)
      case cJSON_Number
      then show ?thesis using print_number_end [OF p(1,3) _ assms(1)] len by simp
    next
      case cJSON_String
      then have v: "c_string_ok v" using CJSON.prems by simp
      then have "?text = quoted (snd (the v))" using cJSON_String by (auto simp: c_string_ok_def split: option.splits)
      then show ?thesis using print_string_end [OF p(1,3) v] len cJSON_String by simp
    next
      case cJSON_Array
      show ?thesis
      proof (cases "ch = []")
        case True
        have "grown P base (\<lambda>p. buf_end p (t @ [ch_lbracket, ch_rbracket])) (fill_room P J 3 (c_strcpy [ch_lbracket, ch_rbracket]) p s)"
          by (rule fill_room_end [OF p(1,3)]) (use len in \<open>auto intro: c_strcpy_ok\<close>)
        then show ?thesis using cJSON_Array True by (simp add: array_text_def)
      next
        case False
        then show ?thesis using array_end [OF _ assms(2) p, where ch = ch and fmt = fmt and depth = depth and J = J] child len cJSON_Array by simp
      qed
    next
      case cJSON_Object
      show ?thesis
      proof (cases "ch = []")
        case True
        have "length t + (if fmt then depth + 4 else 3) \<le> 2 ^ 30" using len cJSON_Object True by (auto simp: object_text_def if_fmt_def)
        then show ?thesis using print_empty_end [OF p(1,3)] cJSON_Object True by simp
      next
        case False
        then show ?thesis using object_end [OF _ assms(2) False p, where fmt = fmt and depth = depth and J = J] child len cJSON_Object by simp
      qed
    qed (use print_literal_end [OF p(1,3)] len in simp_all)
  qed
qed

section \<open>Property\<close>

text \<open>An answer that is not NULL points into the buffer.\<close>

lemma true_buffer:
  "fill_room P J n fill p s = Some (True, p', s') \<Longrightarrow> pb_buffer p' \<noteq> None"
  "emit P J n bs len p s = Some (True, p', s') \<Longrightarrow> pb_buffer p' \<noteq> None"
  by (auto simp: fill_room_def emit_def put_at_def Let_def bind_eq_Some_conv split: if_splits)

lemma or_fail_true: "or_fail x f = Some (True, p', s') \<Longrightarrow> \<exists>p s. f p s = Some (True, p', s')"
  by (auto simp: or_fail_def bind_eq_Some_conv split: if_splits)

lemma value_true_buffer:
  assumes "print_value_buf P J c depth fmt p s = Some (True, p', s')"
  shows "pb_buffer p' \<noteq> None"
  using assms
  by (cases c) (auto simp: print_literal_buf_def print_number_buf_def print_string_buf_def print_empty_buf_def emit_rbrace_def
      dest!: or_fail_true dest: true_buffer split: cJSON_type.splits if_splits option.splits)

lemma print_buffered_prints:
  assumes "formats_fit P" "formats_text P" "tree_ok c" "length (print_text P fmt 0 c) + 64 \<le> 2 ^ 30"
  shows "prints P (print_text P fmt 0 c) s (cJSON_PrintBuffered P J c prebuffer fmt s)"
proof -
  let ?t = "print_text P fmt 0 c"
  obtain a s1 where m: "cJSON_malloc (pe_malloc P) s = (a, s1)" "cj_live s1 = (if a = 0 then cj_live s else cj_live s + 1)"
      "a = 0 \<longrightarrow> (\<exists>i. pe_malloc P i = 0)" by (rule malloc_cases)
  let ?p = "\<lparr>pb_buffer = (if a = 0 then None else Some (map (J (cj_calls s)) [0..<prebuffer])), pb_offset = 0\<rparr>"
  have "grown P (cj_live s) (\<lambda>p. buf_end p ?t) (print_value_buf P J c 0 fmt ?p s1)"
  proof (cases "a = 0")
    case True
    then have "pb_buffer ?p = None" by simp
    then obtain ok p' where "print_value_buf P J c 0 fmt ?p s1 = Some (ok, p', s1)" "pb_buffer p' = None"
      using null_safe_value [OF assms(3), of P J 0 fmt] unfolding null_safe_def by blast
    then show ?thesis using m True by (auto simp: grown_def no_buffer_def never_null_def)
  next
    case False
    then show ?thesis
      using value_growsD [OF value_grows [OF assms(1-3)], where p = ?p and t = "[]" and s = s1 and base = "cj_live s" and fmt = fmt and depth = 0 and J = J] m assms(4) by (simp add: buf_at_def)
  qed
  then obtain ok p s2 where v: "print_value_buf P J c 0 fmt ?p s1 = Some (ok, p, s2)"
    "ok \<and> buf_end p ?t \<and> cj_live s2 = cj_live s + 1 \<or> no_buffer P (cj_live s) p s2" by (auto simp: grown_def)
  show ?thesis
  proof (cases ok)
    case True
    with v value_true_buffer have "buf_end p ?t" "cj_live s2 = cj_live s + 1" by (auto simp: no_buffer_def)
    moreover have "0 \<notin> set ?t" by (rule print_text_nonzero [OF assms(2,3)])
    ultimately show ?thesis using v(1) True m by (auto simp: cJSON_PrintBuffered_def Let_def buf_end_def c_strlen_end prints_def)
  next
    case False
    with v have "no_buffer P (cj_live s) p s2" by blast
    then show ?thesis using v(1) False m by (auto simp: cJSON_PrintBuffered_def Let_def no_buffer_def prints_def)
  qed
qed

text \<open>
  C19: The two printers agree. For every tree whose strings exist and whose text is shorter than 1 GB, whatever
  size the buffer starts with, whatever bytes \<open>malloc\<close> leaves in its blocks and whatever it answers, printing
  into a growing buffer and printing into blocks of their own both return, each with one block more, or with
  none when it answers NULL. When neither answers NULL, and neither does while memory lasts, their strings are equal.
\<close>

theorem cjson_buffered_prints_same:
  assumes "formats_fit P" "formats_text P" "tree_ok c" "length (print_text P fmt 0 c) + 64 \<le> 2 ^ 30"
  shows "\<exists>r1 s1 r2 s2. (if fmt then cJSON_Print P c s else cJSON_PrintUnformatted P c s) = Some (r1, s1)
    \<and> cJSON_PrintBuffered P J c prebuffer fmt s' = Some (r2, s2)
    \<and> cj_live s1 = cj_live s + (if r1 = None then 0 else 1) \<and> cj_live s2 = cj_live s' + (if r2 = None then 0 else 1)
    \<and> (r1 = None \<or> r2 = None \<or> r1 = r2) \<and> (never_null P \<longrightarrow> r1 \<noteq> None \<and> r2 \<noteq> None)"
  using print_prints [OF assms(1,3), of fmt s] print_buffered_prints [OF assms, of s' J prebuffer] unfolding prints_def by fastforce

theorem cjson_buffered_prints_same_witness:
  "\<exists>s1 s2. cJSON_PrintUnformatted sample_print sample_tree start_state = Some (Some (print_text sample_print False 0 sample_tree), s1)
    \<and> cJSON_PrintBuffered sample_print (\<lambda>i j. 7) sample_tree 1 False start_state = Some (Some (print_text sample_print False 0 sample_tree), s2)"
proof -
  have t: "print_text sample_print False 0 sample_tree = [123, 34, 97, 34, 58, 91, 45, 49, 50, 44, 34, 92, 34, 92, 110, 34, 93, 125]"
    by (simp add: sample_tree_def sample_print_def object_text_def array_text_def name_of_def quoted_def escape_byte_def escape_tail_def
        number_bytes_def int_text_def nat_digits.simps if_fmt_def)
  have "formats_text sample_print" by (simp add: formats_text_def sample_print_def)
  from cjson_buffered_prints_same [OF sample_print_ok(1) this represents_tree_ok(1) [OF sample_represents], of False start_state "\<lambda>i j. 7" 1 start_state]
    sample_print_ok(2) print_prints [OF sample_print_ok(1) represents_tree_ok(1) [OF sample_represents], of False start_state]
  show ?thesis unfolding prints_def t by fastforce
qed

end
