(* ===== verification/Cjson_Minify.thy ===== *)
theory Cjson_Minify
  imports Cjson_Accepts
begin

text \<open>
  \<open>src/utils/cJSON.c\<close>, \<open>cJSON_Minify\<close>: white space and comments are removed from a text in place. The block that holds
  the text is a list of bytes, \<open>into\<close> and \<open>json\<close> are positions in it, and an access behind its end is undefined.
\<close>

section \<open>The loop\<close>

abbreviation (input) ch_slash :: u8 where "ch_slash \<equiv> 47"
abbreviation (input) ch_star :: u8 where "ch_star \<equiv> 42"

text \<open>\<open>*into++=*json++\<close>, as the new block; both positions move by one.\<close>

definition copy_char :: "u8 list \<Rightarrow> nat \<Rightarrow> nat \<Rightarrow> u8 list option" where
  "copy_char m into json = do { c \<leftarrow> mem_load m json; mem_store m into c }"

text \<open>\<open>while (*json && *json!='\n') json++;\<close>\<close>

function skip_line :: "u8 list \<Rightarrow> nat \<Rightarrow> nat option" where
  "skip_line m json = do { c \<leftarrow> mem_load m json; if c \<noteq> 0 \<and> c \<noteq> 10 then skip_line m (json + 1) else Some json }"
  by pat_completeness auto
termination by (relation "measure (\<lambda>(m, json). length m - json)") (auto dest: mem_load_lt)

text \<open>\<open>while (*json && !(*json=='*' && json[1]=='/')) json++;\<close>\<close>

function skip_block :: "u8 list \<Rightarrow> nat \<Rightarrow> nat option" where
  "skip_block m json = do {
     c \<leftarrow> mem_load m json;
     if c = 0 then Some json
     else if c = ch_star then do {
       d \<leftarrow> mem_load m (json + 1);
       if d = ch_slash then Some json else skip_block m (json + 1) }
     else skip_block m (json + 1) }"
  by pat_completeness auto
termination by (relation "measure (\<lambda>(m, json). length m - json)") (auto dest: mem_load_lt)

text \<open>The loop over the characters of a string, and what it leaves: the block and both positions.\<close>

lemma copy_char_length: "copy_char m i j = Some m' \<Longrightarrow> length m' = length m \<and> j < length m"
  by (auto simp: copy_char_def mem_store_def bind_eq_Some_conv split: if_splits dest: mem_load_lt)

function copy_string :: "u8 list \<Rightarrow> nat \<Rightarrow> nat \<Rightarrow> (u8 list \<times> nat \<times> nat) option" where
  "copy_string m into json = do {
     c \<leftarrow> mem_load m json;
     if c = 0 \<or> c = ch_quote then Some (m, into, json)
     else if c = ch_backslash then do {
       m \<leftarrow> copy_char m into json;
       m \<leftarrow> copy_char m (into + 1) (json + 1);
       copy_string m (into + 2) (json + 2) }
     else do {
       m \<leftarrow> copy_char m into json;
       copy_string m (into + 1) (json + 1) } }"
  by pat_completeness auto
termination
  by (relation "measure (\<lambda>(m, into, json). length m - json)") (auto dest!: copy_char_length mem_load_lt)

declare skip_line.simps [simp del] skip_block.simps [simp del] copy_string.simps [simp del]

lemma skip_line_forward: "skip_line m j = Some k \<Longrightarrow> j \<le> k"
  by (induction m j rule: skip_line.induct) (subst (asm) (2) skip_line.simps, auto simp: bind_eq_Some_conv split: if_splits)

lemma skip_line_progress: "skip_line m j = Some k \<Longrightarrow> mem_load m j = Some c \<Longrightarrow> c \<noteq> 0 \<Longrightarrow> c \<noteq> 10 \<Longrightarrow> j < k"
  using skip_line_forward [of m "j + 1" k] by (subst (asm) skip_line.simps) simp

lemma skip_block_step:
  assumes "skip_block m j = Some k"
  obtains (found) "k = j" | (on) c where "mem_load m j = Some c" "c \<noteq> 0" "c \<noteq> ch_star" "skip_block m (j + 1) = Some k"
  | (star) d where "mem_load m j = Some ch_star" "mem_load m (j + 1) = Some d" "d \<noteq> ch_slash" "skip_block m (j + 1) = Some k"
proof -
  from assms obtain c where c: "mem_load m j = Some c" unfolding skip_block.simps [of m j] by (cases "mem_load m j") simp_all
  consider "c = 0" | "c \<noteq> 0" "c \<noteq> ch_star" | "c = ch_star" by blast
  then show ?thesis
  proof cases
    case 1
    then show ?thesis using assms c found unfolding skip_block.simps [of m j] by simp
  next
    case 2
    then show ?thesis using assms c on unfolding skip_block.simps [of m j] by simp
  next
    case 3
    then obtain d where "mem_load m (j + 1) = Some d" using assms c unfolding skip_block.simps [of m j]
      by (cases "mem_load m (j + 1)") simp_all
    then show ?thesis using assms c 3 found star [of d] unfolding skip_block.simps [of m j] by (cases "d = ch_slash") simp_all
  qed
qed

lemma skip_block_forward: "skip_block m j = Some k \<Longrightarrow> j \<le> k"
proof (induction m j rule: skip_block.induct)
  case (1 m j)
  from 1(3) show ?case
  proof (cases rule: skip_block_step)
    case (on c)
    then show ?thesis using 1(2) [OF on(1-3)] by simp
  next
    case (star d)
    then show ?thesis using 1(1) [OF star(1) _ _ star(2,3)] by simp
  qed simp
qed

lemma copy_string_cases:
  assumes "copy_string m i j = Some r"
  obtains (ended) "r = (m, i, j)"
  | (escape) m1 m2 where "mem_load m j = Some ch_backslash" "copy_char m i j = Some m1" "copy_char m1 (i + 1) (j + 1) = Some m2"
      "copy_string m2 (i + 2) (j + 2) = Some r"
  | (plain) c m1 where "mem_load m j = Some c" "c \<noteq> 0" "c \<noteq> ch_quote" "c \<noteq> ch_backslash" "copy_char m i j = Some m1"
      "copy_string m1 (i + 1) (j + 1) = Some r"
  using assms unfolding copy_string.simps [of m i j] by (auto simp: bind_eq_Some_conv split: if_splits)

lemma copy_string_forward: "copy_string m i j = Some (m', i', j') \<Longrightarrow> j \<le> j' \<and> length m' = length m"
proof (induction m i j rule: copy_string.induct)
  case (1 m i j)
  from 1(3) show ?case
  proof (cases rule: copy_string_cases)
    case (escape m1 m2)
    then have "j + 2 \<le> j' \<and> length m' = length m2" using 1(1) [OF escape(1) _ _ escape(2,3,4)] by simp
    then show ?thesis using escape(2,3) by (auto dest!: copy_char_length)
  next
    case (plain c m1)
    then have "j + 1 \<le> j' \<and> length m' = length m1" using 1(2) [OF plain(1) _ plain(4,5,6)] by simp
    then show ?thesis using plain(5) by (auto dest!: copy_char_length)
  qed simp
qed

function minify_loop :: "u8 list \<Rightarrow> nat \<Rightarrow> nat \<Rightarrow> u8 list option" where
  "minify_loop m into json = do {
     c \<leftarrow> mem_load m json;
     if c = 0 then mem_store m into 0
     else if c = 32 \<or> c = 9 \<or> c = 13 \<or> c = 10 then minify_loop m into (json + 1)
     else do {
       d \<leftarrow> (if c = ch_slash then mem_load m (json + 1) else Some 0);
       if d = ch_slash then do { json \<leftarrow> skip_line m json; minify_loop m into json }
       else if d = ch_star then do { json \<leftarrow> skip_block m json; minify_loop m into (json + 2) }
       else if c = ch_quote then do {
         m \<leftarrow> copy_char m into json;
         (m, into, json) \<leftarrow> copy_string m (into + 1) (json + 1);
         m \<leftarrow> copy_char m into json;
         minify_loop m (into + 1) (json + 1) }
       else do { m \<leftarrow> copy_char m into json; minify_loop m (into + 1) (json + 1) } } }"
  by pat_completeness auto
termination
proof (relation "measure (\<lambda>(m, into, json). length m - json)", goal_cases)
  case (3 m into json c d json')
  then have "json < json'" using skip_line_progress [OF 3(6,1)] by (auto split: if_splits)
  then show ?case using mem_load_lt [OF 3(1)] by simp
next
  case (4 m into json c d json')
  then show ?case using mem_load_lt [OF 4(1)] skip_block_forward [OF 4(7)] by simp
next
  case (5 m into json c d m1 r m2 r2 into2 json2 m3)
  then show ?case by (auto dest!: copy_char_length copy_string_forward mem_load_lt)
next
  case (6 m into json c d m1)
  then show ?case by (auto dest!: copy_char_length)
qed (auto dest: mem_load_lt)

declare minify_loop.simps [simp del]

definition cJSON_Minify :: "u8 list \<Rightarrow> u8 list option" where
  "cJSON_Minify m = minify_loop m 0 0"

section \<open>Texts in pieces\<close>

text \<open>
  A text as the loop sees it. A comment up to the end of the line ends in a newline; in a block comment the first
  star already counts, so that \<open>/*/\<close> is a whole one.
\<close>

datatype piece = Other u8 | Quoted "u8 list" | Space u8 | Line_Comment "u8 list" | Block_Comment "u8 list"

fun piece_text :: "piece \<Rightarrow> u8 list" where
  "piece_text (Other c) = [c]"
| "piece_text (Quoted b) = ch_quote # b @ [ch_quote]"
| "piece_text (Space c) = [c]"
| "piece_text (Line_Comment b) = ch_slash # ch_slash # b @ [10]"
| "piece_text (Block_Comment b) = ch_slash # ch_star # b @ [ch_star, ch_slash]"

fun piece_kept :: "piece \<Rightarrow> u8 list" where
  "piece_kept (Other c) = [c]"
| "piece_kept (Quoted b) = ch_quote # b @ [ch_quote]"
| "piece_kept _ = []"

fun string_body :: "u8 list \<Rightarrow> bool" where
  "string_body [] \<longleftrightarrow> True"
| "string_body (c # b) \<longleftrightarrow>
     (if c = ch_backslash then (case b of [] \<Rightarrow> False | e # b \<Rightarrow> e \<noteq> 0 \<and> string_body b)
      else c \<noteq> 0 \<and> c \<noteq> ch_quote \<and> string_body b)"

fun no_close :: "u8 list \<Rightarrow> bool" where
  "no_close (a # b # r) \<longleftrightarrow> \<not> (a = ch_star \<and> b = ch_slash) \<and> no_close (b # r)"
| "no_close _ \<longleftrightarrow> True"

fun piece_ok :: "piece \<Rightarrow> bool" where
  "piece_ok (Other c) \<longleftrightarrow> c \<notin> {0, 9, 10, 13, 32, ch_quote, ch_slash}"
| "piece_ok (Quoted b) \<longleftrightarrow> string_body b"
| "piece_ok (Space c) \<longleftrightarrow> c \<in> {9, 10, 13, 32}"
| "piece_ok (Line_Comment b) \<longleftrightarrow> 0 \<notin> set b \<and> 10 \<notin> set b"
| "piece_ok (Block_Comment b) \<longleftrightarrow> 0 \<notin> set b \<and> no_close (ch_star # b @ [ch_star])"

text \<open>The block in three parts: what has been written, what has been left behind, and what is still to read.\<close>

definition parts :: "u8 list \<Rightarrow> nat \<Rightarrow> nat \<Rightarrow> u8 list \<Rightarrow> u8 list \<Rightarrow> bool" where
  "parts m into json out rest \<longleftrightarrow> (\<exists>g. m = out @ g @ rest \<and> into = length out \<and> json = length out + length g)"

lemma parts_load: "parts m i j out (c # rest) \<Longrightarrow> mem_load m j = Some c"
  by (auto simp: parts_def mem_load_def nth_append)

lemma parts_load_next: "parts m i j out (c # d # rest) \<Longrightarrow> mem_load m (Suc j) = Some d"
  by (auto simp: parts_def mem_load_def nth_append Suc_diff_le)

lemma parts_skip: "parts m i j out (a @ rest) \<Longrightarrow> parts m i (j + length a) out rest"
  unfolding parts_def by (metis append.assoc length_append add.assoc)

lemma parts_copy:
  assumes "parts m i j out (c # rest)"
  shows "\<exists>m'. copy_char m i j = Some m' \<and> parts m' (i + 1) (j + 1) (out @ [c]) rest \<and> length m' = length m"
proof -
  obtain g where g: "m = out @ g @ c # rest" "i = length out" "j = length out + length g" using assms by (auto simp: parts_def)
  have "copy_char m i j = Some (m[i := c])" using parts_load [OF assms] g by (simp add: copy_char_def)
  moreover have "parts (m[i := c]) (i + 1) (j + 1) (out @ [c]) rest"
  proof (cases g)
    case Nil
    then show ?thesis using g by (simp add: parts_def)
  next
    case (Cons x g')
    then show ?thesis using g by (auto simp: parts_def list_update_append intro!: exI [of _ "g' @ [c]"])
  qed
  ultimately show ?thesis by simp
qed

lemma skip_line_ends:
  assumes "parts m i j out (b @ 10 # rest)" "0 \<notin> set b" "10 \<notin> set b"
  shows "skip_line m j = Some (j + length b)"
  using assms
proof (induction b arbitrary: j)
  case Nil
  then have "mem_load m j = Some 10" by (simp add: parts_load)
  then show ?case by (subst skip_line.simps) simp
next
  case (Cons c b)
  then have "mem_load m j = Some c" by (simp add: parts_load)
  moreover have "skip_line m (j + 1) = Some (j + 1 + length b)"
    using Cons parts_skip [of m i j out "[c]"] by simp
  ultimately show ?case using Cons.prems by (subst skip_line.simps) simp
qed

lemma skip_block_ends:
  assumes "parts m i j out (b @ ch_star # ch_slash # rest)" "0 \<notin> set b" "no_close (b @ [ch_star])"
  shows "skip_block m j = Some (j + length b)"
  using assms
proof (induction b arbitrary: j)
  case Nil
  then have "mem_load m j = Some ch_star" "mem_load m (Suc j) = Some ch_slash" by (simp_all add: parts_load parts_load_next)
  then show ?case by (subst skip_block.simps) simp
next
  case (Cons c b)
  then have c: "mem_load m j = Some c" by (simp add: parts_load)
  obtain d r where d: "b @ [ch_star] = d # r" by (cases "b @ [ch_star]") simp_all
  then have "b @ ch_star # ch_slash # rest = d # r @ ch_slash # rest" by (metis append.assoc append_Cons append_Nil)
  then have "parts m i j out (c # d # r @ ch_slash # rest)" using Cons.prems(1) by (simp only: append_Cons)
  then have "mem_load m (Suc j) = Some d" by (rule parts_load_next)
  moreover have "\<not> (c = ch_star \<and> d = ch_slash)" "no_close (b @ [ch_star])" using Cons.prems(3) d by auto
  moreover have "skip_block m (j + 1) = Some (j + 1 + length b)"
    using Cons.IH [of "j + 1"] Cons.prems \<open>no_close (b @ [ch_star])\<close> parts_skip [of m i j out "[c]"] by simp
  ultimately show ?case using Cons.prems(2) c by (subst skip_block.simps) auto
qed

lemma copy_string_body:
  assumes "parts m i j out (b @ ch_quote # rest)" "string_body b"
  shows "\<exists>m'. copy_string m i j = Some (m', i + length b, j + length b)
    \<and> parts m' (i + length b) (j + length b) (out @ b) (ch_quote # rest) \<and> length m' = length m"
  using assms
proof (induction b arbitrary: m i j out rule: string_body.induct)
  case 1
  then have "mem_load m j = Some ch_quote" by (simp add: parts_load)
  with 1 show ?case by (subst copy_string.simps) simp
next
  case (2 c b)
  have c: "mem_load m j = Some c" using 2(3) by (simp add: parts_load)
  obtain m1 where m1: "copy_char m i j = Some m1" "parts m1 (i + 1) (j + 1) (out @ [c]) (b @ ch_quote # rest)" "length m1 = length m"
    using parts_copy [of m i j out c] 2(3) by auto
  show ?case
  proof (cases "c = ch_backslash")
    case True
    with 2(4) obtain e b' where b: "b = e # b'" "string_body b'" by (cases b) auto
    obtain m2 where m2: "copy_char m1 (i + 1) (j + 1) = Some m2" "parts m2 (i + 1 + 1) (j + 1 + 1) ((out @ [c]) @ [e]) (b' @ ch_quote # rest)" "length m2 = length m1"
      using parts_copy [of m1 "i + 1" "j + 1" "out @ [c]" e] m1(2) b by auto
    show ?thesis using 2(1) [OF True b(1) m2(2) b(2)] c m1 m2 True b by (subst copy_string.simps) auto
  next
    case False
    then show ?thesis using 2(2) [OF False m1(2)] 2(4) c m1 by (subst copy_string.simps) auto
  qed
qed

section \<open>What is left of a text\<close>

lemma minify_piece:
  assumes "parts m i j out (piece_text x @ rest)" "piece_ok x"
  shows "\<exists>m' i' j'. minify_loop m i j = minify_loop m' i' j' \<and> parts m' i' j' (out @ piece_kept x) rest \<and> length m' = length m"
proof (cases x)
  case (Other c)
  then have c: "mem_load m j = Some c" using assms(1) by (simp add: parts_load)
  obtain m' where "copy_char m i j = Some m'" "parts m' (i + 1) (j + 1) (out @ [c]) rest" "length m' = length m"
    using parts_copy [of m i j out c rest] assms(1) Other by auto
  then show ?thesis using c assms(2) Other by (subst minify_loop.simps) auto
next
  case (Space c)
  then have c: "mem_load m j = Some c" using assms(1) by (simp add: parts_load)
  moreover have "parts m i (j + 1) out rest" using parts_skip [of m i j out "[c]" rest] assms(1) Space by simp
  ultimately show ?thesis using assms(2) Space by (subst minify_loop.simps) auto
next
  case (Quoted b)
  then have c: "mem_load m j = Some ch_quote" using assms(1) by (simp add: parts_load)
  obtain m1 where m1: "copy_char m i j = Some m1" "parts m1 (i + 1) (j + 1) (out @ [ch_quote]) (b @ ch_quote # rest)" "length m1 = length m"
    using parts_copy [of m i j out ch_quote "b @ ch_quote # rest"] assms(1) Quoted by auto
  obtain m2 where m2: "copy_string m1 (i + 1) (j + 1) = Some (m2, i + 1 + length b, j + 1 + length b)"
      "parts m2 (i + 1 + length b) (j + 1 + length b) ((out @ [ch_quote]) @ b) (ch_quote # rest)" "length m2 = length m1"
    using copy_string_body [OF m1(2)] assms(2) Quoted by auto
  obtain m3 where m3: "copy_char m2 (i + 1 + length b) (j + 1 + length b) = Some m3"
      "parts m3 (i + 1 + length b + 1) (j + 1 + length b + 1) (((out @ [ch_quote]) @ b) @ [ch_quote]) rest" "length m3 = length m2"
    using parts_copy [OF m2(2)] by auto
  have "minify_loop m i j = minify_loop m3 (i + 1 + length b + 1) (j + 1 + length b + 1)"
    using c m1(1) m2(1) m3(1) by (subst minify_loop.simps) simp
  then show ?thesis using m1(3) m2(3) m3(2,3) Quoted by (intro exI [of _ m3] exI [of _ "i + 1 + length b + 1"] exI [of _ "j + 1 + length b + 1"]) simp
next
  case (Line_Comment b)
  let ?p = "parts m i j out (ch_slash # ch_slash # b @ 10 # rest)"
  have p: ?p using assms(1) Line_Comment by simp
  have c: "mem_load m j = Some ch_slash" "mem_load m (j + 1) = Some ch_slash" using parts_load [OF p] parts_load_next [OF p] by simp_all
  have "skip_line m j = Some (j + (2 + length b))"
    using skip_line_ends [of m i j out "ch_slash # ch_slash # b" rest] p assms(2) Line_Comment by simp
  moreover have "mem_load m (j + (2 + length b)) = Some 10"
    using parts_load [OF parts_skip [of m i j out "ch_slash # ch_slash # b" "10 # rest"]] p by simp
  moreover have "parts m i (j + (2 + length b) + 1) out rest"
    using parts_skip [of m i j out "ch_slash # ch_slash # b @ [10]" rest] p by (simp add: add.assoc)
  moreover have "minify_loop m i (j + (2 + length b)) = minify_loop m i (j + (2 + length b) + 1)"
    using calculation(2) by (subst minify_loop.simps) simp
  ultimately show ?thesis using c Line_Comment by (subst minify_loop.simps) auto
next
  case (Block_Comment b)
  have p: "parts m i j out (ch_slash # ch_star # b @ ch_star # ch_slash # rest)" using assms(1) Block_Comment by simp
  have c: "mem_load m j = Some ch_slash" "mem_load m (j + 1) = Some ch_star" using parts_load [OF p] parts_load_next [OF p] by simp_all
  have "skip_block m j = Some (j + (2 + length b))"
    using skip_block_ends [of m i j out "ch_slash # ch_star # b" rest] p assms(2) Block_Comment by simp
  moreover have "parts m i (j + (2 + length b) + 2) out rest"
    using parts_skip [of m i j out "ch_slash # ch_star # b @ [ch_star, ch_slash]" rest] p by (simp add: add.assoc)
  ultimately show ?thesis using c Block_Comment by (subst minify_loop.simps) auto
qed

lemma minify_pieces:
  assumes "parts m i j out (concat (map piece_text xs) @ 0 # rest)" "\<forall>x \<in> set xs. piece_ok x"
  shows "\<exists>r. minify_loop m i j = Some (out @ concat (map piece_kept xs) @ 0 # r) \<and> length (out @ concat (map piece_kept xs) @ 0 # r) = length m"
  using assms
proof (induction xs arbitrary: m i j out)
  case Nil
  then obtain g where g: "m = out @ g @ 0 # rest" "i = length out" "j = length out + length g" by (auto simp: parts_def)
  then have "minify_loop m i j = Some (m[i := 0])" using parts_load [of m i j out 0 rest] Nil(1)
    by (subst minify_loop.simps) simp
  moreover have "m[i := 0] = out @ 0 # tl (g @ 0 # rest)" using g by (cases g) (simp_all add: list_update_append)
  ultimately show ?case using g by (auto simp: length_tl)
next
  case (Cons x xs)
  obtain m' i' j' where "minify_loop m i j = minify_loop m' i' j'"
      "parts m' i' j' (out @ piece_kept x) (concat (map piece_text xs) @ 0 # rest)" "length m' = length m"
    using minify_piece [of m i j out x "concat (map piece_text xs) @ 0 # rest"] Cons.prems by auto
  then show ?case using Cons.IH [of m' i' j' "out @ piece_kept x"] Cons.prems(2) by auto
qed

section \<open>JSON texts in pieces\<close>

text \<open>\<open>t\<close> can be cut into pieces of which \<open>t'\<close> is kept.\<close>

definition minifies :: "u8 list \<Rightarrow> u8 list \<Rightarrow> bool" where
  "minifies t t' \<longleftrightarrow> (\<exists>xs. concat (map piece_text xs) = t \<and> concat (map piece_kept xs) = t' \<and> (\<forall>x \<in> set xs. piece_ok x))"

lemma minifies_append:
  assumes "minifies a a'" "minifies b b'"
  shows "minifies (a @ b) (a' @ b')"
proof -
  from assms obtain xs ys where "concat (map piece_text xs) = a" "concat (map piece_kept xs) = a'" "\<forall>x \<in> set xs. piece_ok x"
      "concat (map piece_text ys) = b" "concat (map piece_kept ys) = b'" "\<forall>x \<in> set ys. piece_ok x" by (auto simp: minifies_def)
  then have "concat (map piece_text (xs @ ys)) = a @ b" "concat (map piece_kept (xs @ ys)) = a' @ b'" "\<forall>x \<in> set (xs @ ys). piece_ok x"
    by (simp_all add: ball_Un)
  then show ?thesis unfolding minifies_def by blast
qed

lemma minifies_other: "list_all (\<lambda>c. c \<notin> {0, 9, 10, 13, 32, ch_quote, ch_slash}) t \<Longrightarrow> minifies t t"
proof -
  assume "list_all (\<lambda>c. c \<notin> {0, 9, 10, 13, 32, ch_quote, ch_slash}) t"
  then have "\<forall>x \<in> set (map Other t). piece_ok x" by (simp add: list_all_iff)
  moreover have "concat (map piece_text (map Other t)) = t" "concat (map piece_kept (map Other t)) = t" by (induction t) simp_all
  ultimately show "minifies t t" unfolding minifies_def by blast
qed

lemma minifies_white: "white w \<Longrightarrow> minifies w []"
proof -
  assume "white w"
  then have "\<forall>x \<in> set (map Space w). piece_ok x" by (auto simp: white_def)
  moreover have "concat (map piece_text (map Space w)) = w" "concat (map piece_kept (map Space w)) = []" by (induction w) simp_all
  ultimately show "minifies w []" unfolding minifies_def by blast
qed

lemma minifies_Cons: "c \<notin> {0, 9, 10, 13, 32, ch_quote, ch_slash} \<Longrightarrow> minifies t t' \<Longrightarrow> minifies (c # t) (c # t')"
  using minifies_append [OF minifies_other [of "[c]"]] by simp

lemma string_body_plain: "list_all (\<lambda>c. c \<noteq> 0 \<and> c \<noteq> ch_quote \<and> c \<noteq> ch_backslash) a \<Longrightarrow> string_body b \<Longrightarrow> string_body (a @ b)"
  by (induction a) auto

lemma hex_plain: "hex4 ds n \<Longrightarrow> list_all (\<lambda>c. c \<noteq> 0 \<and> c \<noteq> ch_quote \<and> c \<noteq> ch_backslash) ds"
  by (auto simp: hex4_def list_all_iff is_hex_def is_digit_def)

lemma string_text_body: "string_text v t \<Longrightarrow> string_body t"
proof (induction rule: string_text.induct)
  case (string_plain c v t)
  then show ?case by (auto simp: plain_def)
next
  case (string_escape e c v t)
  then show ?case by (auto simp: escapes_def)
next
  case (string_code ds n v t)
  then show ?case using string_body_plain [OF hex_plain] by simp
next
  case (string_pair ds hi es lo v t)
  have "string_body (ch_backslash # ch_u # es @ t)" using string_body_plain [OF hex_plain [OF string_pair(4)] string_pair(8)] by simp
  from string_body_plain [OF hex_plain [OF string_pair(1)] this] show ?case by simp
qed simp

lemma minifies_string: "string_text v t \<Longrightarrow> minifies (ch_quote # t @ [ch_quote]) (ch_quote # t @ [ch_quote])"
  unfolding minifies_def using string_text_body by (intro exI [of _ "[Quoted t]"]) simp

lemma no_white: "white []"
  by (simp add: white_def)

lemma minifies_bracket:
  "minifies t t' \<Longrightarrow> a \<notin> {0, 9, 10, 13, 32, ch_quote, ch_slash} \<Longrightarrow> b \<notin> {0, 9, 10, 13, 32, ch_quote, ch_slash}
    \<Longrightarrow> minifies (a # t @ [b]) (a # t' @ [b])"
  by (intro minifies_Cons minifies_append minifies_other) simp_all

lemma minifies_number: "number_ok x \<Longrightarrow> minifies (number_text x) (number_text x)"
proof (rule minifies_other)
  assume ok: "number_ok x"
  obtain neg i f e where x: "x = JNum neg i f e" by (cases x)
  have d: "list_all (\<lambda>c. c \<notin> {0, 9, 10, 13, 32, ch_quote, ch_slash}) ds" if "list_all is_digit ds" for ds
    using that by (auto simp: list_all_iff is_digit_def)
  show "list_all (\<lambda>c. c \<notin> {0, 9, 10, 13, 32, ch_quote, ch_slash}) (number_text x)"
    using ok x d [of i] d [of f] d by (auto simp: digits_def split: option.splits)
qed

lemma value_minifies:
  "value_text v t \<Longrightarrow> \<exists>t'. minifies t t' \<and> value_text v t'"
  "elements_text vs ts \<Longrightarrow> \<exists>t'. minifies ts t' \<and> elements_text vs t'"
  "members_text ms us \<Longrightarrow> \<exists>t'. minifies us t' \<and> members_text ms t'"
proof (induction rule: value_text_elements_text_members_text.inducts)
  case text_null
  have "minifies lit_null lit_null" by (rule minifies_other) (simp add: lit_null_def)
  then show ?case using value_text_elements_text_members_text.text_null by blast
next
  case text_false
  have "minifies lit_false lit_false" by (rule minifies_other) (simp add: lit_false_def)
  then show ?case using value_text_elements_text_members_text.text_false by blast
next
  case text_true
  have "minifies lit_true lit_true" by (rule minifies_other) (simp add: lit_true_def)
  then show ?case using value_text_elements_text_members_text.text_true by blast
next
  case (text_number x)
  then show ?case using value_text_elements_text_members_text.text_number minifies_number by blast
next
  case (text_string v t)
  then show ?case using value_text_elements_text_members_text.text_string minifies_string by blast
next
  case (text_empty_array w)
  show ?case using minifies_bracket [OF minifies_white [OF text_empty_array], of ch_lbracket ch_rbracket] no_white
      value_text_elements_text_members_text.text_empty_array [of "[]"] by force
next
  case (text_array vs t)
  then obtain t' where "minifies t t'" "elements_text vs t'" by blast
  then show ?case using minifies_bracket [of t t' ch_lbracket ch_rbracket] value_text_elements_text_members_text.text_array [of vs t'] by force
next
  case (text_empty_object w)
  show ?case using minifies_bracket [OF minifies_white [OF text_empty_object], of ch_lbrace ch_rbrace] no_white
      value_text_elements_text_members_text.text_empty_object [of "[]"] by force
next
  case (text_object ms t)
  then obtain t' where "minifies t t'" "members_text ms t'" by blast
  then show ?case using minifies_bracket [of t t' ch_lbrace ch_rbrace] value_text_elements_text_members_text.text_object [of ms t'] by force
next
  case (text_element w1 v t w2)
  then obtain t' where t': "minifies t t'" "value_text v t'" by blast
  have "minifies (w1 @ t @ w2) ([] @ t' @ [])"
    using text_element t' minifies_white by (intro minifies_append) simp_all
  then show ?case using value_text_elements_text_members_text.text_element [OF no_white t'(2) no_white] by force
next
  case (text_elements w1 v t w2 vs ts)
  then obtain t' ts' where t': "minifies t t'" "value_text v t'" "minifies ts ts'" "elements_text vs ts'" by blast
  have "minifies (w1 @ t @ w2 @ ch_comma # ts) ([] @ t' @ [] @ ch_comma # ts')"
    using text_elements t' minifies_white by (intro minifies_append minifies_Cons) simp_all
  then show ?case using value_text_elements_text_members_text.text_elements [OF no_white t'(2) no_white t'(4)] by force
next
  case (text_member w1 k kt w2 w3 v t w4)
  then obtain t' where t': "minifies t t'" "value_text v t'" by blast
  have "minifies (w2 @ ch_colon # w3 @ t @ w4) ([] @ ch_colon # [] @ t' @ [])"
    using text_member t' minifies_white by (intro minifies_append minifies_Cons) simp_all
  from minifies_append [OF minifies_white [OF text_member(1)] minifies_append [OF minifies_string [OF text_member(2)] this]]
  have "minifies (w1 @ (ch_quote # kt @ [ch_quote]) @ w2 @ ch_colon # w3 @ t @ w4) ([] @ (ch_quote # kt @ [ch_quote]) @ [] @ ch_colon # [] @ t' @ [])" .
  then show ?case
    using value_text_elements_text_members_text.text_member [OF no_white text_member(2) no_white no_white t'(2) no_white] by force
next
  case (text_members w1 k kt w2 w3 v t w4 ms ts)
  then obtain t' ts' where t': "minifies t t'" "value_text v t'" "minifies ts ts'" "members_text ms ts'" by blast
  have "minifies (w2 @ ch_colon # w3 @ t @ w4 @ ch_comma # ts) ([] @ ch_colon # [] @ t' @ [] @ ch_comma # ts')"
    using text_members t' minifies_white by (intro minifies_append minifies_Cons) simp_all
  from minifies_append [OF minifies_white [OF text_members(1)] minifies_append [OF minifies_string [OF text_members(2)] this]]
  have "minifies (w1 @ (ch_quote # kt @ [ch_quote]) @ w2 @ ch_colon # w3 @ t @ w4 @ ch_comma # ts)
      ([] @ (ch_quote # kt @ [ch_quote]) @ [] @ ch_colon # [] @ t' @ [] @ ch_comma # ts')" .
  then show ?case
    using value_text_elements_text_members_text.text_members [OF no_white text_members(2) no_white no_white t'(2) no_white t'(4)] by force
qed

section \<open>Properties\<close>

text \<open>\<open>u\<close> has the pieces of \<open>t\<close> with other white space and comments between them.\<close>

definition is_kept :: "piece \<Rightarrow> bool" where
  "is_kept x \<longleftrightarrow> piece_kept x \<noteq> []"

definition strewn :: "u8 list \<Rightarrow> u8 list \<Rightarrow> bool" where
  "strewn t u \<longleftrightarrow> (\<exists>xs ys. t = concat (map piece_text xs) \<and> u = concat (map piece_text ys)
     \<and> (\<forall>x \<in> set xs \<union> set ys. piece_ok x) \<and> filter is_kept xs = filter is_kept ys)"

lemma strewn_refl: "value_text v t \<Longrightarrow> strewn t t"
  using value_minifies(1) [of v t] by (auto simp: strewn_def minifies_def)

lemma kept_filter: "concat (map piece_kept (filter is_kept xs)) = concat (map piece_kept xs)"
  by (induction xs) (auto simp: is_kept_def)

lemma kept_text: "concat (map piece_text (filter is_kept xs)) = concat (map piece_kept xs)"
proof -
  have "is_kept x \<Longrightarrow> piece_text x = piece_kept x" for x by (cases x) (simp_all add: is_kept_def)
  then have "map piece_text (filter is_kept xs) = map piece_kept (filter is_kept xs)" by simp
  then show ?thesis by (simp only: kept_filter)
qed

lemma string_body_nonzero: "string_body b \<Longrightarrow> 0 \<notin> set b"
  by (induction b rule: string_body.induct) (auto split: if_splits list.splits)

lemma kept_nonzero: "\<forall>x \<in> set xs. piece_ok x \<Longrightarrow> 0 \<notin> set (concat (map piece_kept xs))"
proof -
  have "piece_ok x \<Longrightarrow> 0 \<notin> set (piece_kept x)" for x using string_body_nonzero by (cases x) auto
  then show "\<forall>x \<in> set xs. piece_ok x \<Longrightarrow> ?thesis" by auto
qed

lemma minify_text:
  assumes "\<forall>x \<in> set xs. piece_ok x"
  shows "\<exists>r. cJSON_Minify (concat (map piece_text xs) @ 0 # junk) = Some (concat (map piece_kept xs) @ 0 # r)
    \<and> length (concat (map piece_kept xs) @ 0 # r) = length (concat (map piece_text xs) @ 0 # junk)"
  using minify_pieces [of "concat (map piece_text xs) @ 0 # junk" 0 0 "[]" xs junk] assms
  by (simp add: cJSON_Minify_def parts_def)

text \<open>What is kept of a text does not depend on how it is cut.\<close>

lemma kept_unique:
  assumes "minifies t t'" "t = concat (map piece_text xs)" "\<forall>x \<in> set xs. piece_ok x"
  shows "t' = concat (map piece_kept xs)"
proof -
  from assms(1) obtain ys where y: "concat (map piece_text ys) = t" "concat (map piece_kept ys) = t'" "\<forall>y \<in> set ys. piece_ok y"
    by (auto simp: minifies_def)
  obtain r where r: "cJSON_Minify (t @ [0]) = Some (concat (map piece_kept xs) @ 0 # r)"
    using minify_text [OF assms(3), of "[]"] unfolding assms(2) by blast
  obtain r' where "cJSON_Minify (t @ [0]) = Some (t' @ 0 # r')"
    using minify_text [OF y(3), of "[]"] unfolding y(1,2) by blast
  with r have "concat (map piece_kept xs) @ 0 # r = t' @ 0 # r'" by simp
  moreover have "0 \<notin> set (concat (map piece_kept xs))" "0 \<notin> set t'" using kept_nonzero [OF assms(3)] kept_nonzero [OF y(3)] y(2) by simp_all
  moreover have "takeWhile (\<lambda>c. c \<noteq> 0) (a @ 0 # q) = a" if "0 \<notin> set a" for a q :: "u8 list" using that by (induction a) auto
  ultimately show ?thesis by metis
qed


text \<open>The text \<open>[1]\<close> in its block with comments and white space: \<open>/* **/[ 1// /*\n]\<close>.\<close>

definition strewn_pieces :: "piece list" where
  "strewn_pieces = [Block_Comment [32, 42], Other ch_lbracket, Space 32, Other 49, Line_Comment [32, 47, 42], Other ch_rbracket]"


text \<open>A comment that is not closed makes the loop jump over the terminator; \<open>/*/\<close> counts as a whole comment.\<close>

lemma minify_open_comment: "cJSON_Minify [ch_slash, ch_star, 0] = None"
  by (simp add: cJSON_Minify_def minify_loop.simps skip_block.simps mem_load_def)

lemma minify_short_comment: "cJSON_Minify [ch_slash, ch_star, ch_slash, 49, 0] = Some [49, 0, ch_slash, 49, 0]"
  by (simp add: cJSON_Minify_def minify_loop.simps skip_block.simps mem_load_def copy_char_def)

end
