(* ===== verification/Cjson_Shared.thy ===== *)
theory Cjson_Shared
  imports Cjson
begin

text \<open>
  \<open>src/utils/cJSON.c\<close>, items that share: the theories on trees let an item own what hangs below it, here items are
  records at addresses, so that a reference item (\<open>create_reference\<close>) can carry the \<open>child\<close> and \<open>valuestring\<close>
  pointers of another item and a name can be a constant of the program. Freeing what is not allocated,
  and reading an item that is not, is undefined; a loop that never ends is undefined as well. Address 0 is NULL.
\<close>

section \<open>Items at addresses\<close>

record json_item =
  it_next :: u64
  it_prev :: u64
  it_child :: u64
  it_type :: u32
  it_valuestring :: u64
  it_valueint :: u32
  it_valuedouble :: u64
  it_string :: u64

definition cJSON_IsReference :: u32 where "cJSON_IsReference = 256"
definition cJSON_StringIsConst :: u32 where "cJSON_StringIsConst = 512"

definition is_reference :: "json_item \<Rightarrow> bool" where
  "is_reference i \<longleftrightarrow> it_type i AND cJSON_IsReference \<noteq> 0"

definition is_const :: "json_item \<Rightarrow> bool" where
  "is_const i \<longleftrightarrow> it_type i AND cJSON_StringIsConst \<noteq> 0"

text \<open>
  The allocated items and strings. \<open>malloc\<close> answers the address it gives to the call with this number,
  0 for NULL. Constants of the program are at addresses that hold no allocated string.
\<close>

record json_mem =
  jm_items :: "u64 \<Rightarrow> json_item option"
  jm_texts :: "u64 \<Rightarrow> u8 list option"
  jm_calls :: nat

definition set_item :: "u64 \<Rightarrow> json_item \<Rightarrow> json_mem \<Rightarrow> json_mem" where
  "set_item a i m = m\<lparr>jm_items := (jm_items m)(a \<mapsto> i)\<rparr>"

definition free_item :: "u64 \<Rightarrow> json_mem \<Rightarrow> json_mem option" where
  "free_item a m = map_option (\<lambda>_. m\<lparr>jm_items := (jm_items m)(a := None)\<rparr>) (jm_items m a)"

definition free_text :: "u64 \<Rightarrow> json_mem \<Rightarrow> json_mem option" where
  "free_text a m = map_option (\<lambda>_. m\<lparr>jm_texts := (jm_texts m)(a := None)\<rparr>) (jm_texts m a)"

definition free_text_unless :: "bool \<Rightarrow> u64 \<Rightarrow> json_mem \<Rightarrow> json_mem option" where
  "free_text_unless skip a m = (if \<not> skip \<and> a \<noteq> 0 then free_text a m else Some m)"

section \<open>The allocator\<close>

text \<open>The allocator in use is the pair of function pointers that \<open>cJSON_InitHooks\<close> sets.\<close>

record ('m, 'f) cJSON_Hooks =
  malloc_fn :: "'m option"
  free_fn :: "'f option"

definition cJSON_InitHooks :: "'m \<Rightarrow> 'f \<Rightarrow> ('m, 'f) cJSON_Hooks option \<Rightarrow> 'm \<times> 'f" where
  "cJSON_InitHooks malloc free hooks =
     (case hooks of
        None \<Rightarrow> (malloc, free)
      | Some h \<Rightarrow> (case malloc_fn h of None \<Rightarrow> malloc | Some f \<Rightarrow> f, case free_fn h of None \<Rightarrow> free | Some f \<Rightarrow> f))"

definition zero_item :: json_item where
  "zero_item = \<lparr>it_next = 0, it_prev = 0, it_child = 0, it_type = 0, it_valuestring = 0, it_valueint = 0,
     it_valuedouble = 0, it_string = 0\<rparr>"

definition new_item :: "(nat \<Rightarrow> u64) \<Rightarrow> json_mem \<Rightarrow> u64 \<times> json_mem" where
  "new_item al m =
     (let node = al (jm_calls m); m = m\<lparr>jm_calls := jm_calls m + 1\<rparr>
      in (node, if node = 0 then m else set_item node zero_item m))"

definition strdup_at :: "(nat \<Rightarrow> u64) \<Rightarrow> u8 list \<Rightarrow> json_mem \<Rightarrow> u64 \<times> json_mem" where
  "strdup_at al str m =
     (let copy = al (jm_calls m); m = m\<lparr>jm_calls := jm_calls m + 1\<rparr>
      in (copy, if copy = 0 then m else m\<lparr>jm_texts := (jm_texts m)(copy \<mapsto> str)\<rparr>))"

section \<open>Deleting\<close>

text \<open>The loop of \<open>cJSON_Delete\<close>; \<open>next\<close> is read before anything is freed, the other fields are read again.\<close>

partial_function (option) delete_chain :: "u64 \<Rightarrow> json_mem \<Rightarrow> json_mem option" where
  "delete_chain c m =
     (if c = 0 then Some m
      else do {
        i \<leftarrow> jm_items m c;
        m \<leftarrow> (if \<not> is_reference i \<and> it_child i \<noteq> 0 then delete_chain (it_child i) m else Some m);
        j \<leftarrow> jm_items m c;
        m \<leftarrow> free_text_unless (is_reference j) (it_valuestring j) m;
        m \<leftarrow> free_text_unless (is_const j) (it_string j) m;
        m \<leftarrow> free_item c m;
        delete_chain (it_next i) m })"

section \<open>Adding\<close>

definition create_reference :: "(nat \<Rightarrow> u64) \<Rightarrow> u64 \<Rightarrow> json_mem \<Rightarrow> (u64 \<times> json_mem) option" where
  "create_reference al item m =
     (case new_item al m of (ref, m) \<Rightarrow>
        if ref = 0 then Some (0, m)
        else do {
          i \<leftarrow> jm_items m item;
          Some (ref, set_item ref (i\<lparr>it_string := 0, it_type := it_type i OR cJSON_IsReference,
            it_next := 0, it_prev := 0\<rparr>) m) })"

partial_function (option) last_item :: "json_mem \<Rightarrow> u64 \<Rightarrow> u64 option" where
  "last_item m c = do { i \<leftarrow> jm_items m c; if it_next i = 0 then Some c else last_item m (it_next i) }"

definition suffix_object :: "u64 \<Rightarrow> u64 \<Rightarrow> json_mem \<Rightarrow> json_mem option" where
  "suffix_object prev item m = do {
     p \<leftarrow> jm_items m prev;
     m \<leftarrow> Some (set_item prev (p\<lparr>it_next := item\<rparr>) m);
     i \<leftarrow> jm_items m item;
     Some (set_item item (i\<lparr>it_prev := prev\<rparr>) m) }"

definition add_to_array :: "u64 \<Rightarrow> u64 \<Rightarrow> json_mem \<Rightarrow> json_mem option" where
  "add_to_array array item m = do {
     a \<leftarrow> jm_items m array;
     if item = 0 then Some m
     else if it_child a = 0 then Some (set_item array (a\<lparr>it_child := item\<rparr>) m)
     else do { c \<leftarrow> last_item m (it_child a); suffix_object c item m } }"

text \<open>The name is freed whether or not it is a constant.\<close>

definition add_to_object :: "(nat \<Rightarrow> u64) \<Rightarrow> u64 \<Rightarrow> u8 list \<Rightarrow> u64 \<Rightarrow> json_mem \<Rightarrow> json_mem option" where
  "add_to_object al object str item m =
     (if item = 0 then Some m
      else do {
        i \<leftarrow> jm_items m item;
        m \<leftarrow> free_text_unless False (it_string i) m;
        let (name, m) = strdup_at al str m;
        m \<leftarrow> Some (set_item item (i\<lparr>it_string := name\<rparr>) m);
        add_to_array object item m })"

definition cJSON_AddItemToObjectCS :: "u64 \<Rightarrow> u64 \<Rightarrow> u64 \<Rightarrow> json_mem \<Rightarrow> json_mem option" where
  "cJSON_AddItemToObjectCS object string item m =
     (if item = 0 then Some m
      else do {
        i \<leftarrow> jm_items m item;
        m \<leftarrow> free_text_unless (is_const i) (it_string i) m;
        m \<leftarrow> Some (set_item item (i\<lparr>it_string := string, it_type := it_type i OR cJSON_StringIsConst\<rparr>) m);
        add_to_array object item m })"

definition cJSON_AddItemReferenceToArray :: "(nat \<Rightarrow> u64) \<Rightarrow> u64 \<Rightarrow> u64 \<Rightarrow> json_mem \<Rightarrow> json_mem option" where
  "cJSON_AddItemReferenceToArray al array item m = do {
     (ref, m) \<leftarrow> create_reference al item m;
     add_to_array array ref m }"

definition cJSON_AddItemReferenceToObject ::
    "(nat \<Rightarrow> u64) \<Rightarrow> u64 \<Rightarrow> u8 list \<Rightarrow> u64 \<Rightarrow> json_mem \<Rightarrow> json_mem option" where
  "cJSON_AddItemReferenceToObject al object str item m = do {
     (ref, m) \<leftarrow> create_reference al item m;
     add_to_object al object str ref m }"

section \<open>What a chain owns\<close>

text \<open>
  The addresses of a chain of items and of the items below them. A reference owns nothing but itself and its name,
  an item with a constant name does not own its name.
\<close>

datatype shape = Shape u64 "shape list"

fun item_addrs :: "shape list \<Rightarrow> u64 list" where
  "item_addrs [] = []"
| "item_addrs (Shape a ks # ss) = a # item_addrs ks @ item_addrs ss"

definition item_texts :: "json_item \<Rightarrow> u64 list" where
  "item_texts i = (if is_reference i \<or> it_valuestring i = 0 then [] else [it_valuestring i]) @
     (if is_const i \<or> it_string i = 0 then [] else [it_string i])"

fun text_addrs :: "json_mem \<Rightarrow> shape list \<Rightarrow> u64 list" where
  "text_addrs m [] = []"
| "text_addrs m (Shape a ks # ss) =
     text_addrs m ks @ (case jm_items m a of None \<Rightarrow> [] | Some i \<Rightarrow> item_texts i) @ text_addrs m ss"

fun chain_at :: "json_mem \<Rightarrow> u64 \<Rightarrow> shape list \<Rightarrow> bool" where
  "chain_at m c [] \<longleftrightarrow> c = 0"
| "chain_at m c (Shape a ks # ss) \<longleftrightarrow> c = a \<and> a \<noteq> 0 \<and>
     (case jm_items m a of None \<Rightarrow> False
      | Some i \<Rightarrow> (if is_reference i then ks = [] else chain_at m (it_child i) ks) \<and> chain_at m (it_next i) ss)"

definition owned :: "json_mem \<Rightarrow> u64 \<Rightarrow> shape list \<Rightarrow> bool" where
  "owned m c ss \<longleftrightarrow> chain_at m c ss \<and> distinct (item_addrs ss) \<and> distinct (text_addrs m ss) \<and>
     set (text_addrs m ss) \<subseteq> dom (jm_texts m)"

definition release :: "u64 set \<Rightarrow> u64 set \<Rightarrow> json_mem \<Rightarrow> json_mem" where
  "release I T m = m\<lparr>jm_items := jm_items m |` (- I), jm_texts := jm_texts m |` (- T)\<rparr>"

text \<open>All of an item that the ownership depends on.\<close>

definition own_view :: "json_item \<Rightarrow> u64 \<times> bool \<times> u64 \<times> u64 list" where
  "own_view i = (it_next i, is_reference i, it_child i, item_texts i)"

lemma chain_cong:
  assumes "\<And>a. a \<in> set (item_addrs ss) \<Longrightarrow> map_option own_view (jm_items m' a) = map_option own_view (jm_items m a)"
  shows "chain_at m' c ss = chain_at m c ss" "text_addrs m' ss = text_addrs m ss"
proof -
  have "chain_at m' c ss = chain_at m c ss \<and> text_addrs m' ss = text_addrs m ss"
    using assms
  proof (induction ss arbitrary: c rule: item_addrs.induct)
    case (2 a ks ss)
    have ks: "chain_at m' c ks = chain_at m c ks" "text_addrs m' ks = text_addrs m ks" for c
      using 2 by auto
    have ss: "chain_at m' c ss = chain_at m c ss" "text_addrs m' ss = text_addrs m ss" for c
      using 2 by auto
    have "map_option own_view (jm_items m' a) = map_option own_view (jm_items m a)" using 2 by simp
    then show ?case by (cases "jm_items m' a"; cases "jm_items m a") (auto simp: ks ss own_view_def)
  qed simp
  then show "chain_at m' c ss = chain_at m c ss" "text_addrs m' ss = text_addrs m ss" by simp_all
qed

lemma chain_live: "chain_at m c ss \<Longrightarrow> set (item_addrs ss) \<subseteq> dom (jm_items m)"
proof (induction ss arbitrary: c rule: item_addrs.induct)
  case (2 a ks ss)
  then obtain i where i: "jm_items m a = Some i" by (auto split: option.splits)
  with "2.prems" have ss: "chain_at m (it_next i) ss"
    and ks: "ks = [] \<or> chain_at m (it_child i) ks" by (auto split: if_splits)
  from i "2.IH"(2)[OF ss] "2.IH"(1) ks show ?case by auto
qed simp

lemma null_not_owned: "chain_at m c ss \<Longrightarrow> 0 \<notin> set (item_addrs ss)"
  by (induction ss arbitrary: c rule: item_addrs.induct) (auto split: option.splits if_splits)

lemma chain_null [simp]: "chain_at m 0 ss \<longleftrightarrow> ss = []"
  by (cases ss rule: item_addrs.cases) auto

lemma release_simps [simp]:
  "jm_items (release I T m) a = (if a \<in> I then None else jm_items m a)"
  "jm_texts (release I T m) a = (if a \<in> T then None else jm_texts m a)"
  by (simp_all add: release_def restrict_map_def)

lemma release_release [simp]: "release I T (release I' T' m) = release (I \<union> I') (T \<union> T') m"
  by (simp add: release_def Int_commute)

lemma release_none [simp]: "release {} {} m = m"
  by (simp add: release_def restrict_map_def)

lemma free_item_release: "a \<in> dom (jm_items m) \<Longrightarrow> free_item a m = Some (release {a} {} m)"
  by (auto simp: free_item_def release_def restrict_map_def fun_eq_iff intro!: json_mem.equality)

lemma free_text_release: "a \<in> dom (jm_texts m) \<Longrightarrow> free_text a m = Some (release {} {a} m)"
  by (auto simp: free_text_def release_def restrict_map_def fun_eq_iff intro!: json_mem.equality)

lemma cJSON_Delete_null [simp]: "delete_chain 0 m = Some m"
  by (subst delete_chain.simps) simp

lemma free_text_unless_release:
  "(\<not> skip \<and> a \<noteq> 0 \<Longrightarrow> a \<in> dom (jm_texts m)) \<Longrightarrow>
     free_text_unless skip a m = Some (release {} (if skip \<or> a = 0 then {} else {a}) m)"
  by (auto simp: free_text_unless_def free_text_release)

text \<open>Freeing an item's strings and the item itself.\<close>

lemma free_texts_of_item:
  assumes "set (item_texts i) \<subseteq> dom (jm_texts m)" "distinct (item_texts i)"
  shows "do { m \<leftarrow> free_text_unless (is_reference i) (it_valuestring i) m;
      free_text_unless (is_const i) (it_string i) m } = Some (release {} (set (item_texts i)) m)"
proof -
  have vs: "\<not> is_reference i \<and> it_valuestring i \<noteq> 0 \<Longrightarrow> it_valuestring i \<in> dom (jm_texts m)"
    and name: "\<not> is_const i \<and> it_string i \<noteq> 0 \<Longrightarrow> it_string i \<in> dom (jm_texts m) \<and>
      (is_reference i \<or> it_string i \<noteq> it_valuestring i)"
    using assms by (auto simp: item_texts_def split: if_splits)
  let ?T = "if is_reference i \<or> it_valuestring i = 0 then {} else {it_valuestring i}"
  have "free_text_unless (is_reference i) (it_valuestring i) m = Some (release {} ?T m)"
    by (rule free_text_unless_release) (rule vs)
  moreover have "free_text_unless (is_const i) (it_string i) (release {} ?T m) =
      Some (release {} (if is_const i \<or> it_string i = 0 then {} else {it_string i}) (release {} ?T m))"
    by (rule free_text_unless_release) (use name in auto)
  ultimately show ?thesis by (simp add: item_texts_def Un_commute)
qed

text \<open>An owned chain is deleted without a wild or a double free, and what is freed is what it owns, no more and no less.\<close>

lemma delete_owned:
  assumes "owned m c ss"
  shows "delete_chain c m = Some (release (set (item_addrs ss)) (set (text_addrs m ss)) m)"
  using assms
proof (induction ss arbitrary: c m rule: item_addrs.induct)
  case 1
  then show ?case by (simp add: owned_def)
next
  case (2 a ks ss)
  let ?I = "set (item_addrs ks)" and ?T = "set (text_addrs m ks)"
  from "2.prems" obtain i where i: "jm_items m a = Some i" and c: "c = a" "a \<noteq> 0"
    by (auto simp: owned_def split: option.splits)
  note own = "2.prems"[unfolded owned_def chain_at.simps item_addrs.simps text_addrs.simps i option.case]
  have kids: "(if \<not> is_reference i \<and> it_child i \<noteq> 0 then delete_chain (it_child i) m else Some m) = Some (release ?I ?T m)"
  proof (cases "is_reference i \<or> it_child i = 0")
    case True
    then have "ks = []" using own by (auto split: if_splits)
    with True show ?thesis by auto
  next
    case False
    then have "owned m (it_child i) ks" using own by (auto simp: owned_def)
    with False show ?thesis using "2.IH"(1) by simp
  qed
  let ?m = "release (insert a ?I) (?T \<union> set (item_texts i)) m"
  have same: "\<And>b. b \<in> set (item_addrs ss) \<Longrightarrow> map_option own_view (jm_items ?m b) = map_option own_view (jm_items m b)"
    using own by auto
  have texts_same: "text_addrs ?m ss = text_addrs m ss" by (rule chain_cong(2)) (rule same)
  have rest: "owned ?m (it_next i) ss"
    using own by (auto simp: owned_def chain_cong[OF same])
  have texts: "do { m \<leftarrow> free_text_unless (is_reference i) (it_valuestring i) (release ?I ?T m);
      free_text_unless (is_const i) (it_string i) m } = Some (release {} (set (item_texts i)) (release ?I ?T m))"
    by (rule free_texts_of_item) (use own in auto)
  have "free_item a (release {} (set (item_texts i)) (release ?I ?T m)) =
      Some (release {a} {} (release {} (set (item_texts i)) (release ?I ?T m)))"
    by (rule free_item_release) (use own i in auto)
  with kids texts own c i have "delete_chain c m = delete_chain (it_next i) ?m"
    by (subst delete_chain.simps) (auto simp: bind_eq_Some_conv Un_ac insert_commute)
  also have "\<dots> = Some (release (set (item_addrs ss)) (set (text_addrs ?m ss)) ?m)"
    by (rule "2.IH"(2)[OF rest])
  also have "\<dots> = Some (release (set (item_addrs (Shape a ks # ss))) (set (text_addrs m (Shape a ks # ss))) m)"
    unfolding texts_same by (simp add: i Un_ac)
  finally show ?case .
qed

section \<open>What adding does to a chain\<close>

fun root_of :: "shape \<Rightarrow> u64" where
  "root_of (Shape a ks) = a"

lemma last_item_simp: "jm_items m c = Some i \<Longrightarrow> last_item m c = (if it_next i = 0 then Some c else last_item m (it_next i))"
  by (subst last_item.simps) simp

lemma last_item_of_chain: "chain_at m c ss \<Longrightarrow> ss \<noteq> [] \<Longrightarrow> last_item m c = Some (root_of (List.last ss))"
proof (induction ss arbitrary: c rule: item_addrs.induct)
  case (2 a ks ss)
  then obtain i where i: "jm_items m a = Some i" and c: "c = a" and ss: "chain_at m (it_next i) ss"
    by (auto split: option.splits)
  show ?case
  proof (cases "ss = []")
    case True
    with ss i c show ?thesis by (simp add: last_item_simp)
  next
    case False
    with ss have "it_next i \<noteq> 0" by auto
    with False i c show ?thesis using "2.IH"(2)[OF ss False] by (simp add: last_item_simp)
  qed
qed simp

lemma root_in: "s \<in> set ss \<Longrightarrow> root_of s \<in> set (item_addrs ss)"
  by (induction ss rule: item_addrs.induct) auto

lemma addrs_append [simp]:
  "item_addrs (ss @ ts) = item_addrs ss @ item_addrs ts" "text_addrs m (ss @ ts) = text_addrs m ss @ text_addrs m ts"
  by (induction ss rule: item_addrs.induct) auto

lemma set_item_simps [simp]:
  "jm_items (set_item a i m) b = (if b = a then Some i else jm_items m b)"
  "jm_texts (set_item a i m) = jm_texts m" "jm_calls (set_item a i m) = jm_calls m"
  by (simp_all add: set_item_def)

text \<open>Setting the \<open>next\<close> of a chain's last item appends the chain that is found there.\<close>

lemma chain_append:
  assumes "chain_at m c ss" "ss \<noteq> []" "distinct (item_addrs ss)"
    and "l = root_of (List.last ss)" "jm_items m l = Some p"
    and "chain_at (set_item l (p\<lparr>it_next := b\<rparr>) m) b ts"
  shows "chain_at (set_item l (p\<lparr>it_next := b\<rparr>) m) c (ss @ ts)"
  using assms
proof (induction ss arbitrary: c rule: item_addrs.induct)
  case (2 a ks ss)
  let ?m = "set_item l (p\<lparr>it_next := b\<rparr>) m"
  from "2.prems"(1) obtain i where i: "jm_items m a = Some i" and c: "c = a" "a \<noteq> 0"
    and kids: "if is_reference i then ks = [] else chain_at m (it_child i) ks" and ss: "chain_at m (it_next i) ss"
    by (auto split: option.splits)
  have l: "l \<notin> set (item_addrs ks)"
    using "2.prems"(3,4) root_in[of "List.last ss" ss] by (cases "ss = []") auto
  have same: "chain_at ?m d ks = chain_at m d ks" for d
    by (rule chain_cong) (use l in auto)
  show ?case
  proof (cases "ss = []")
    case True
    with "2.prems"(4,5) i have "l = a" "p = i" by auto
    with True i c kids same "2.prems"(6) show ?thesis by (simp add: is_reference_def)
  next
    case False
    then have "l \<in> set (item_addrs ss)" using "2.prems"(4) by (simp add: root_in)
    then have "l \<noteq> a" using "2.prems"(3) by auto
    moreover have "chain_at ?m (it_next i) (ss @ ts)"
      by (rule "2.IH"(2)[OF ss False _ _ "2.prems"(5,6)]) (use "2.prems"(3,4) False in auto)
    ultimately show ?thesis using i c kids same by simp
  qed
qed simp

lemma text_cong:
  assumes "\<And>a. a \<in> set (item_addrs ss) \<Longrightarrow> map_option item_texts (jm_items m' a) = map_option item_texts (jm_items m a)"
  shows "text_addrs m' ss = text_addrs m ss"
  using assms
proof (induction ss rule: item_addrs.induct)
  case (2 a ks ss)
  then have "map_option item_texts (jm_items m' a) = map_option item_texts (jm_items m a)" by simp
  with 2 show ?case by (cases "jm_items m' a"; cases "jm_items m a") auto
qed simp

lemma link_views [simp]:
  "item_texts (i\<lparr>it_next := b\<rparr>) = item_texts i" "item_texts (i\<lparr>it_child := b\<rparr>) = item_texts i"
  "item_texts (i\<lparr>it_prev := b\<rparr>) = item_texts i" "own_view (i\<lparr>it_prev := b\<rparr>) = own_view i"
  "is_reference (i\<lparr>it_child := b\<rparr>) = is_reference i"
  by (simp_all add: item_texts_def own_view_def is_reference_def is_const_def)

text \<open>Adding an item to an array: the array owns one chain of children more, whatever else is in memory stays.\<close>

definition unlinked :: "json_item \<Rightarrow> json_item" where
  "unlinked i = i\<lparr>it_next := 0, it_prev := 0, it_child := 0\<rparr>"

lemma unlinked_simps [simp]:
  "unlinked (i\<lparr>it_next := b\<rparr>) = unlinked i" "unlinked (i\<lparr>it_prev := b\<rparr>) = unlinked i" "unlinked (i\<lparr>it_child := b\<rparr>) = unlinked i"
  by (simp_all add: unlinked_def)

lemma unlinked_texts: "unlinked i = unlinked j \<Longrightarrow> item_texts i = item_texts j"
  by (cases i; cases j) (auto simp: unlinked_def item_texts_def is_reference_def is_const_def)

definition linked :: "u64 set \<Rightarrow> json_mem \<Rightarrow> json_mem \<Rightarrow> bool" where
  "linked S m m' \<longleftrightarrow> (\<forall>b. map_option unlinked (jm_items m' b) = map_option unlinked (jm_items m b)) \<and>
     (\<forall>b. b \<notin> S \<longrightarrow> jm_items m' b = jm_items m b) \<and> jm_texts m' = jm_texts m"

lemma linked_texts: "linked S m m' \<Longrightarrow> text_addrs m' ss = text_addrs m ss"
proof (rule text_cong)
  fix a
  assume "linked S m m'"
  then have "map_option unlinked (jm_items m' a) = map_option unlinked (jm_items m a)" by (simp add: linked_def)
  then show "map_option item_texts (jm_items m' a) = map_option item_texts (jm_items m a)"
    by (cases "jm_items m' a"; cases "jm_items m a") (auto dest: unlinked_texts)
qed

lemma add_to_array_chain:
  assumes chain: "chain_at m array [Shape array ks]" "distinct (array # item_addrs ks)"
    and a: "jm_items m array = Some a" "\<not> is_reference a"
    and x: "chain_at m item [x]" "set (array # item_addrs ks) \<inter> set (item_addrs [x]) = {}"
  shows "\<exists>m'. add_to_array array item m = Some m' \<and> chain_at m' array [Shape array (ks @ [x])] \<and>
    linked (set (item # array # item_addrs ks)) m m'"
proof -
  have item: "item \<noteq> 0" "root_of x = item" "item \<in> set (item_addrs [x])"
    using x(1) by (cases x; simp)+
  have kids: "chain_at m (it_child a) ks" and nx: "it_next a = 0" "array \<noteq> 0" using chain a by auto
  show ?thesis
  proof (cases "it_child a = 0")
    case True
    let ?m = "set_item array (a\<lparr>it_child := item\<rparr>) m"
    have "chain_at ?m item [x]" using x by (subst chain_cong(1)[of _ _ m]) auto
    with True kids nx a item show ?thesis by (auto simp: add_to_array_def linked_def)
  next
    case False
    with kids have ks: "ks \<noteq> []" by auto
    let ?l = "root_of (List.last ks)"
    have l: "?l \<in> set (item_addrs ks)" using ks by (simp add: root_in)
    then obtain p where p: "jm_items m ?l = Some p" using chain_live[OF kids] by auto
    let ?m1 = "set_item ?l (p\<lparr>it_next := item\<rparr>) m"
    have sep: "?l \<notin> set (item_addrs [x])" "?l \<noteq> array" "?l \<noteq> item" using l x(2) chain(2) item by auto
    have x1: "chain_at ?m1 item [x]" using x(1) sep by (subst chain_cong(1)[of _ _ m]) auto
    have all: "chain_at ?m1 (it_child a) (ks @ [x])"
      by (rule chain_append[OF kids ks _ refl p x1]) (use chain in simp)
    obtain i where i: "jm_items m item = Some i" using chain_live[OF x(1)] item by auto
    let ?m2 = "set_item item (i\<lparr>it_prev := ?l\<rparr>) ?m1"
    have "chain_at ?m2 (it_child a) (ks @ [x])"
      using all sep i by (subst chain_cong(1)[of _ _ ?m1]) auto
    moreover have "item \<noteq> array" using x(2) item by auto
    ultimately have "chain_at ?m2 array [Shape array (ks @ [x])]" using a nx sep by simp
    moreover have "add_to_array array item m = Some ?m2"
      using False item a p i sep last_item_of_chain[OF kids ks] by (simp add: add_to_array_def suffix_object_def)
    moreover have "linked (set (item # array # item_addrs ks)) m ?m2"
      using l p i by (auto simp: linked_def)
    ultimately show ?thesis by blast
  qed
qed

lemma add_to_array_owned:
  assumes own: "owned m array [Shape array ks]" and a: "jm_items m array = Some a" "\<not> is_reference a"
    and x: "owned m item [x]" and sep: "set (array # item_addrs ks) \<inter> set (item_addrs [x]) = {}"
      "set (text_addrs m [Shape array ks]) \<inter> set (text_addrs m [x]) = {}"
  shows "\<exists>m'. add_to_array array item m = Some m' \<and> owned m' array [Shape array (ks @ [x])] \<and>
    set (text_addrs m' [Shape array (ks @ [x])]) = set (text_addrs m [Shape array ks]) \<union> set (text_addrs m [x]) \<and>
    linked (set (item # array # item_addrs ks)) m m'"
proof -
  obtain m' where m': "add_to_array array item m = Some m'" "chain_at m' array [Shape array (ks @ [x])]"
      "linked (set (item # array # item_addrs ks)) m m'"
    using add_to_array_chain[of m array ks a item x] assms by (auto simp: owned_def)
  have same: "text_addrs m' ss = text_addrs m ss" for ss
    by (rule linked_texts) (rule m'(3))
  have texts: "text_addrs m' [Shape array (ks @ [x])] = text_addrs m ks @ text_addrs m [x] @ item_texts a"
    unfolding same by (simp add: a)
  moreover have "jm_texts m' = jm_texts m" using m'(3) by (simp add: linked_def)
  ultimately have "owned m' array [Shape array (ks @ [x])]"
    unfolding owned_def texts using own x sep a m'(2) by (auto simp: owned_def simp del: chain_at.simps)
  moreover have "set (text_addrs m' [Shape array (ks @ [x])]) = set (text_addrs m [Shape array ks]) \<union> set (text_addrs m [x])"
    unfolding texts using a by auto
  ultimately show ?thesis using m' by blast
qed

section \<open>References\<close>

lemma flag_or_and: "((w OR f) AND f) = (f :: u32)"
  by (rule bit_word_eqI) (auto simp: bit_simps)

definition reference_of :: "json_item \<Rightarrow> json_item" where
  "reference_of i = i\<lparr>it_string := 0, it_type := it_type i OR cJSON_IsReference, it_next := 0, it_prev := 0\<rparr>"

lemma reference_of_simps [simp]:
  "is_reference (reference_of i)" "item_texts (reference_of i) = []" "it_next (reference_of i) = 0"
  "is_const (reference_of i) = is_const i" "it_string (reference_of i) = 0"
proof -
  show ref: "is_reference (reference_of i)"
    by (simp add: is_reference_def reference_of_def flag_or_and) (simp add: cJSON_IsReference_def)
  show "it_string (reference_of i) = 0" "it_next (reference_of i) = 0" by (simp_all add: reference_of_def)
  then show "item_texts (reference_of i) = []" using ref by (simp add: item_texts_def)
  have "(t OR cJSON_IsReference) AND cJSON_StringIsConst = t AND cJSON_StringIsConst" for t
    by (simp add: cJSON_IsReference_def cJSON_StringIsConst_def bit.conj_disj_distrib2)
  then show "is_const (reference_of i) = is_const i" by (simp add: is_const_def reference_of_def)
qed

lemma create_reference_simp:
  assumes "jm_items m item = Some i" and "al (jm_calls m) \<notin> dom (jm_items m)"
  shows "create_reference al item m =
    (let ref = al (jm_calls m); m = m\<lparr>jm_calls := jm_calls m + 1\<rparr>
     in Some (ref, if ref = 0 then m else set_item ref (reference_of i) m))"
  using assms by (auto simp: create_reference_def new_item_def reference_of_def set_item_def Let_def)

text \<open>Memory in which two owned chains are apart.\<close>

definition apart :: "json_mem \<Rightarrow> shape list \<Rightarrow> shape list \<Rightarrow> bool" where
  "apart m ss rs \<longleftrightarrow> set (item_addrs ss) \<inter> set (item_addrs rs) = {} \<and> set (text_addrs m ss) \<inter> set (text_addrs m rs) = {}"

lemma owned_frame:
  assumes "owned m r rs" "\<And>b. b \<in> set (item_addrs rs) \<Longrightarrow> jm_items m' b = jm_items m b"
    and "\<And>b. b \<in> set (text_addrs m rs) \<Longrightarrow> jm_texts m' b = jm_texts m b"
  shows "owned m' r rs" "text_addrs m' rs = text_addrs m rs"
proof -
  have "chain_at m' r rs = chain_at m r rs" by (rule chain_cong(1)) (simp add: assms(2))
  moreover show "text_addrs m' rs = text_addrs m rs" by (rule chain_cong(2)) (simp add: assms(2))
  moreover have "set (text_addrs m rs) \<subseteq> dom (jm_texts m')" using assms(1,3) by (auto simp: owned_def subset_iff domIff)
  ultimately show "owned m' r rs" using assms(1) by (simp add: owned_def)
qed

text \<open>Two chains that are apart may be deleted in either order.\<close>

lemma delete_apart:
  assumes ss: "owned m c ss" and rs: "owned m r rs" and sep: "apart m ss rs"
  defines "d \<equiv> release (set (item_addrs ss)) (set (text_addrs m ss)) m"
  shows "delete_chain c m = Some d" "owned d r rs" "text_addrs d rs = text_addrs m rs"
    "delete_chain r d = Some (release (set (item_addrs (ss @ rs))) (set (text_addrs m (ss @ rs))) m)"
proof -
  show "delete_chain c m = Some d" unfolding d_def by (rule delete_owned) (rule ss)
  show own: "owned d r rs" and texts: "text_addrs d rs = text_addrs m rs"
    by (rule owned_frame[OF rs]; use sep in \<open>auto simp: d_def apart_def\<close>)+
  show "delete_chain r d = Some (release (set (item_addrs (ss @ rs))) (set (text_addrs m (ss @ rs))) m)"
    unfolding delete_owned[OF own] texts by (simp add: d_def Un_ac)
qed

lemma apart_sym: "apart m ss rs \<Longrightarrow> apart m rs ss"
  by (auto simp: apart_def)

text \<open>The array after a reference was added to it, when there was memory for one.\<close>

lemma add_reference_owned:
  assumes array: "owned m array [Shape array ks]" "jm_items m array = Some a" "\<not> is_reference a"
    and item: "jm_items m item = Some i"
    and malloc: "al (jm_calls m) \<notin> dom (jm_items m)" "al (jm_calls m) \<noteq> 0"
  shows "\<exists>m'. cJSON_AddItemReferenceToArray al array item m = Some m' \<and>
    owned m' array [Shape array (ks @ [Shape (al (jm_calls m)) []])] \<and>
    set (text_addrs m' [Shape array (ks @ [Shape (al (jm_calls m)) []])]) = set (text_addrs m [Shape array ks]) \<and>
    jm_texts m' = jm_texts m \<and>
    (\<forall>b. b \<notin> set (al (jm_calls m) # array # item_addrs ks) \<longrightarrow> jm_items m' b = jm_items m b)"
proof -
  let ?ref = "al (jm_calls m)" and ?ss = "[Shape array ks]"
  let ?m = "set_item ?ref (reference_of i) (m\<lparr>jm_calls := jm_calls m + 1\<rparr>)"
  have new: "?ref \<notin> set (item_addrs ?ss)" using chain_live[of m array ?ss] array(1) malloc by (auto simp: owned_def)
  have own: "owned ?m array ?ss" "text_addrs ?m ?ss = text_addrs m ?ss"
    by (rule owned_frame[OF array(1)]; use new in auto)+
  have ref: "owned ?m ?ref [Shape ?ref []]" "text_addrs ?m [Shape ?ref []] = []"
    using malloc by (auto simp: owned_def)
  have "array \<noteq> ?ref" using new by auto
  then obtain m' where "add_to_array array ?ref ?m = Some m'" "owned m' array [Shape array (ks @ [Shape ?ref []])]"
      "set (text_addrs m' [Shape array (ks @ [Shape ?ref []])]) = set (text_addrs ?m ?ss) \<union> set (text_addrs ?m [Shape ?ref []])"
      "linked (set (?ref # array # item_addrs ks)) ?m m'"
    using add_to_array_owned[OF own(1) _ array(3) ref(1)] new array(2) ref(2) by auto
  then show ?thesis
    using item malloc own(2) ref(2)
    by (auto simp: cJSON_AddItemReferenceToArray_def create_reference_simp Let_def linked_def)
qed

lemma add_reference_no_memory:
  assumes "jm_items m array = Some a" "al (jm_calls m) = 0"
  shows "cJSON_AddItemReferenceToArray al array item m = Some (m\<lparr>jm_calls := jm_calls m + 1\<rparr>)"
  using assms by (simp add: cJSON_AddItemReferenceToArray_def create_reference_def new_item_def Let_def add_to_array_def)

lemma add_reference_either:
  assumes array: "owned m array [Shape array ks]" "jm_items m array = Some a" "\<not> is_reference a"
    and item: "jm_items m item = Some i" and malloc: "al (jm_calls m) \<notin> dom (jm_items m)"
  shows "\<exists>m' R. cJSON_AddItemReferenceToArray al array item m = Some m' \<and>
    owned m' array [Shape array (ks @ R)] \<and> set (item_addrs R) = {al (jm_calls m)} - {0} \<and>
    set (text_addrs m' [Shape array (ks @ R)]) = set (text_addrs m [Shape array ks]) \<and> jm_texts m' = jm_texts m \<and>
    (\<forall>b. b \<notin> set (item_addrs [Shape array (ks @ R)]) \<longrightarrow> jm_items m' b = jm_items m b)"
proof (cases "al (jm_calls m) = 0")
  case True
  let ?m = "m\<lparr>jm_calls := jm_calls m + 1\<rparr>"
  have "owned ?m array [Shape array ks]" "text_addrs ?m [Shape array ks] = text_addrs m [Shape array ks]"
    by (rule owned_frame[OF array(1)]; simp)+
  moreover have "cJSON_AddItemReferenceToArray al array item m = Some ?m"
    by (rule add_reference_no_memory[where al = al, OF array(2) True])
  ultimately show ?thesis using True by (intro exI[of _ ?m] exI[of _ "[]"]) (simp del: text_addrs.simps)
next
  case False
  obtain m' where "cJSON_AddItemReferenceToArray al array item m = Some m'"
      "owned m' array [Shape array (ks @ [Shape (al (jm_calls m)) []])]"
      "set (text_addrs m' [Shape array (ks @ [Shape (al (jm_calls m)) []])]) = set (text_addrs m [Shape array ks])"
      "jm_texts m' = jm_texts m"
      "\<forall>b. b \<notin> set (al (jm_calls m) # array # item_addrs ks) \<longrightarrow> jm_items m' b = jm_items m b"
    using add_reference_owned[where al = al, OF array item malloc False] by blast
  then show ?thesis
    using False by (intro exI[of _ m'] exI[of _ "[Shape (al (jm_calls m)) []]"]) (simp del: text_addrs.simps)
qed

text \<open>
  A reference shares without owning: when an item of one tree is added by reference to an array elsewhere, the tree
  keeps all its items and strings, the array and the tree may be deleted in either order without a wild or a
  double free, deleting the array leaves the tree as it was, and after both deletions what is left is what
  the two did not own.
\<close>

theorem reference_shares_without_owning:
  assumes array: "owned m array [Shape array ks]" "jm_items m array = Some a" "\<not> is_reference a"
    and tree: "owned m r rs" "item \<in> set (item_addrs rs)" and sep: "apart m [Shape array ks] rs"
    and malloc: "al (jm_calls m) \<notin> dom (jm_items m)"
  shows "\<exists>m' d t e. cJSON_AddItemReferenceToArray al array item m = Some m' \<and> owned m' r rs \<and>
    delete_chain array m' = Some d \<and>
    jm_items d = jm_items m |` (- set (array # item_addrs ks)) \<and>
    jm_texts d = jm_texts m |` (- set (text_addrs m [Shape array ks])) \<and> owned d r rs \<and>
    delete_chain r d = Some e \<and> delete_chain r m' = Some t \<and> delete_chain array t = Some e \<and>
    jm_items e = jm_items m |` (- set (array # item_addrs ks @ item_addrs rs)) \<and>
    jm_texts e = jm_texts m |` (- set (text_addrs m [Shape array ks] @ text_addrs m rs))"
proof -
  let ?ref = "al (jm_calls m)"
  obtain i where i: "jm_items m item = Some i" using tree chain_live[of m r rs] by (auto simp: owned_def)
  have "?ref \<notin> set (array # item_addrs ks)" "?ref \<notin> set (item_addrs rs)"
    using malloc array tree chain_live[of m r rs] chain_live[of m array "[Shape array ks]"] by (auto simp: owned_def)
  obtain m' R where m': "cJSON_AddItemReferenceToArray al array item m = Some m'"
      "owned m' array [Shape array (ks @ R)]" "set (item_addrs R) = {?ref} - {0}"
      "set (text_addrs m' [Shape array (ks @ R)]) = set (text_addrs m [Shape array ks])" "jm_texts m' = jm_texts m"
      "\<And>b. b \<notin> set (item_addrs [Shape array (ks @ R)]) \<Longrightarrow> jm_items m' b = jm_items m b"
    using add_reference_either[where al = al, OF array i malloc] by blast
  let ?ss = "[Shape array (ks @ R)]"
  have "jm_items m' b = jm_items m b" if "b \<in> set (item_addrs rs)" for b
    by (rule m'(6)) (use that m'(3) sep \<open>?ref \<notin> set (item_addrs rs)\<close> in \<open>auto simp: apart_def\<close>)
  then have frame: "owned m' r rs" "text_addrs m' rs = text_addrs m rs"
    by (auto intro!: owned_frame[OF tree(1)] simp: m'(5))
  have ap: "apart m' ?ss rs"
    using sep m'(3,4) frame(2) \<open>?ref \<notin> set (item_addrs rs)\<close> by (auto simp: apart_def simp del: text_addrs.simps)
  note fst = delete_apart[OF m'(2) frame(1) ap] and snd = delete_apart[OF frame(1) m'(2) apart_sym[OF ap]]
  define d where "d = release (set (item_addrs ?ss)) (set (text_addrs m' ?ss)) m'"
  define t where "t = release (set (item_addrs rs)) (set (text_addrs m' rs)) m'"
  define e where "e = release (set (item_addrs (?ss @ rs))) (set (text_addrs m' (?ss @ rs))) m'"
  have e: "e = release (set (item_addrs (rs @ ?ss))) (set (text_addrs m' (rs @ ?ss))) m'"
    by (simp only: e_def addrs_append set_append Un_commute)
  have d_mem: "jm_items d = jm_items m |` (- set (array # item_addrs ks))"
      "jm_texts d = jm_texts m |` (- set (text_addrs m [Shape array ks]))"
    using m'(3-6) malloc unfolding d_def release_def by (auto simp: restrict_map_def fun_eq_iff)
  have e_mem: "jm_items e = jm_items m |` (- set (array # item_addrs ks @ item_addrs rs))"
      "jm_texts e = jm_texts m |` (- set (text_addrs m [Shape array ks] @ text_addrs m rs))"
    using m'(3-6) frame(2) malloc unfolding e_def release_def addrs_append set_append by (auto simp: restrict_map_def fun_eq_iff)
  have "delete_chain array m' = Some d" "owned d r rs" "delete_chain r d = Some e"
      "delete_chain r m' = Some t" "delete_chain array t = Some e"
    using fst snd unfolding d_def t_def e_def[symmetric] e[symmetric] by simp_all
  with m'(1) frame(1) d_mem e_mem show ?thesis by blast
qed

section \<open>References and constant names in objects\<close>

text \<open>
  An item added to an object by reference gets a name of its own, but whether that name counts as a constant is copied from the item.
\<close>

lemma add_reference_to_object:
  assumes object: "owned m object [Shape object ks]" "jm_items m object = Some a" "\<not> is_reference a"
    and item: "jm_items m item = Some i"
    and ref: "al (jm_calls m) = ref" "ref \<notin> dom (jm_items m)" "ref \<noteq> 0"
    and name: "al (jm_calls m + 1) = name" "name \<notin> dom (jm_texts m)" "name \<noteq> 0"
  shows "\<exists>m'. cJSON_AddItemReferenceToObject al object str item m = Some m' \<and>
    owned m' object [Shape object (ks @ [Shape ref []])] \<and>
    set (text_addrs m' [Shape object (ks @ [Shape ref []])]) =
      set (text_addrs m [Shape object ks]) \<union> (if is_const i then {} else {name}) \<and>
    jm_texts m' = (jm_texts m)(name \<mapsto> str)"
proof -
  let ?ss = "[Shape object ks]" and ?j = "(reference_of i)\<lparr>it_string := name\<rparr>"
  let ?m = "set_item ref ?j (m\<lparr>jm_calls := jm_calls m + 2, jm_texts := (jm_texts m)(name \<mapsto> str)\<rparr>)"
  have new: "ref \<notin> set (item_addrs ?ss)" using chain_live[of m object ?ss] object(1) ref by (auto simp: owned_def)
  have own: "owned ?m object ?ss" "text_addrs ?m ?ss = text_addrs m ?ss"
    by (rule owned_frame[OF object(1)]; use new name object(1) in \<open>auto simp: owned_def simp del: text_addrs.simps\<close>)+
  have texts: "item_texts ?j = (if is_const i then [] else [name])"
    using reference_of_simps(1,4)[of i] name by (simp add: item_texts_def is_reference_def is_const_def)
  have x: "owned ?m ref [Shape ref []]" "text_addrs ?m [Shape ref []] = (if is_const i then [] else [name])"
    using ref reference_of_simps(1,3)[of i] by (auto simp: owned_def texts is_reference_def)
  have "name \<notin> set (text_addrs m ?ss)" using object(1) name by (auto simp: owned_def)
  then have sep: "set (text_addrs ?m ?ss) \<inter> set (text_addrs ?m [Shape ref []]) = {}" unfolding own(2) x(2) by auto
  have "jm_items ?m object = Some a" "set (object # item_addrs ks) \<inter> set (item_addrs [Shape ref []]) = {}"
    using new object(2) by auto
  with add_to_array_owned[OF own(1) _ object(3) x(1) _ sep] obtain m'
    where m': "add_to_array object ref ?m = Some m'" "owned m' object [Shape object (ks @ [Shape ref []])]"
      "set (text_addrs m' [Shape object (ks @ [Shape ref []])]) = set (text_addrs ?m ?ss) \<union> set (text_addrs ?m [Shape ref []])"
      "linked (set (ref # object # item_addrs ks)) ?m m'"
    by blast
  have "create_reference al item m = Some (ref, set_item ref (reference_of i) (m\<lparr>jm_calls := jm_calls m + 1\<rparr>))"
    by (subst create_reference_simp[OF item]) (use ref in \<open>simp_all add: Let_def\<close>)
  moreover have "add_to_object al object str ref (set_item ref (reference_of i) (m\<lparr>jm_calls := jm_calls m + 1\<rparr>)) =
      add_to_array object ref ?m"
    using ref name by (simp add: add_to_object_def free_text_unless_def strdup_at_def Let_def set_item_def)
  ultimately have "cJSON_AddItemReferenceToObject al object str item m = Some m'"
    using m'(1) by (simp add: cJSON_AddItemReferenceToObject_def)
  then show ?thesis using m'(2-4) own(2) x(2) by (auto simp: linked_def simp del: text_addrs.simps)
qed

text \<open>So the copy of the name given to a reference to an item with a constant name is never freed.\<close>

lemma const_reference_leaks:
  assumes "owned m object [Shape object ks]" "jm_items m object = Some a" "\<not> is_reference a"
    and "jm_items m item = Some i" "is_const i"
    and "al (jm_calls m) = ref" "ref \<notin> dom (jm_items m)" "ref \<noteq> 0"
    and name: "al (jm_calls m + 1) = name" "name \<notin> dom (jm_texts m)" "name \<noteq> 0"
  shows "\<exists>m' d. cJSON_AddItemReferenceToObject al object str item m = Some m' \<and> delete_chain object m' = Some d \<and>
    jm_texts d = (jm_texts m |` (- set (text_addrs m [Shape object ks])))(name \<mapsto> str)"
proof -
  obtain m' where m': "cJSON_AddItemReferenceToObject al object str item m = Some m'"
      "owned m' object [Shape object (ks @ [Shape ref []])]"
      "set (text_addrs m' [Shape object (ks @ [Shape ref []])]) = set (text_addrs m [Shape object ks])"
      "jm_texts m' = (jm_texts m)(name \<mapsto> str)"
    using add_reference_to_object[where str = str, OF assms(1-4,6-8) name]
    unfolding if_P[OF \<open>is_const i\<close>] Un_empty_right by blast
  have "name \<notin> set (text_addrs m [Shape object ks])" using assms(1) name by (auto simp: owned_def)
  then show ?thesis
    using m'(1) delete_owned[OF m'(2)] unfolding m'(3) release_def m'(4)
    by (auto simp: restrict_map_def fun_eq_iff simp del: text_addrs.simps)
qed

text \<open>Adding an item whose name is a constant under another name frees the constant.\<close>

lemma add_frees_constant_name:
  assumes "jm_items m item = Some i" "item \<noteq> 0" "it_string i \<noteq> 0" "it_string i \<notin> dom (jm_texts m)"
  shows "add_to_object al object str item m = None"
  using assms by (auto simp: add_to_object_def free_text_unless_def free_text_def)

text \<open>\<open>cJSON_AddItemToObjectCS\<close> takes care: an item that owns no name may be added under a constant, and deleting the object leaves the constant alone.\<close>

lemma add_const_owned:
  assumes object: "owned m object [Shape object ks]" "jm_items m object = Some a" "\<not> is_reference a"
    and x: "owned m item [Shape item xs]" "jm_items m item = Some i" "it_string i = 0 \<or> is_const i"
    and sep: "apart m [Shape object ks] [Shape item xs]"
  shows "\<exists>m'. cJSON_AddItemToObjectCS object string item m = Some m' \<and>
    owned m' object [Shape object (ks @ [Shape item xs])] \<and>
    set (text_addrs m' [Shape object (ks @ [Shape item xs])]) =
      set (text_addrs m [Shape object ks] @ text_addrs m [Shape item xs]) \<and> jm_texts m' = jm_texts m"
proof -
  let ?i = "i\<lparr>it_string := string, it_type := it_type i OR cJSON_StringIsConst\<rparr>" and ?m = "set_item item (i\<lparr>it_string := string, it_type := it_type i OR cJSON_StringIsConst\<rparr>) m"
  have const: "is_const ?i" by (simp add: is_const_def flag_or_and) (simp add: cJSON_StringIsConst_def)
  have "(t OR cJSON_StringIsConst) AND cJSON_IsReference = t AND cJSON_IsReference" for t
    by (simp add: cJSON_IsReference_def cJSON_StringIsConst_def bit.conj_disj_distrib2)
  then have ref: "is_reference ?i = is_reference i" by (simp add: is_reference_def)
  have view: "own_view ?i = own_view i" using const ref x(3) by (auto simp: own_view_def item_texts_def)
  have same: "map_option own_view (jm_items ?m b) = map_option own_view (jm_items m b)" for b
    using x(2) view by simp
  have texts: "text_addrs ?m ss = text_addrs m ss" for ss by (rule chain_cong(2)) (rule same)
  have chain: "chain_at ?m c ss = chain_at m c ss" for c ss by (rule chain_cong(1)) (rule same)
  have own: "owned ?m object [Shape object ks]" "owned ?m item [Shape item xs]"
    using object(1) x(1) unfolding owned_def texts chain by simp_all
  have "item \<noteq> object" "item \<noteq> 0" using sep x(1) by (auto simp: apart_def owned_def)
  then have "jm_items ?m object = Some a" using object(2) by simp
  from add_to_array_owned[OF own(1) this object(3) own(2)] sep obtain m'
    where "add_to_array object item ?m = Some m'" "owned m' object [Shape object (ks @ [Shape item xs])]"
      "set (text_addrs m' [Shape object (ks @ [Shape item xs])]) = set (text_addrs m [Shape object ks]) \<union> set (text_addrs m [Shape item xs])"
      "linked (set (item # object # item_addrs ks)) ?m m'"
    unfolding texts apart_def by auto
  moreover have "free_text_unless (is_const i) (it_string i) m = Some m" using x(3) by (auto simp: free_text_unless_def)
  ultimately show ?thesis
    using \<open>item \<noteq> 0\<close> x(2) by (auto simp: cJSON_AddItemToObjectCS_def linked_def simp del: text_addrs.simps)
qed

section \<open>The trees of the other theories\<close>

text \<open>
  Without references and constant names the items below an address are the trees of theory \<open>Cjson\<close>, and deleting
  and adding there do what they do here.
\<close>

definition type_of :: "u32 \<Rightarrow> cJSON_type" where
  "type_of t = (if t = 0 then cJSON_False else if t = 1 then cJSON_True else if t = 2 then cJSON_NULL
     else if t = 3 then cJSON_Number else if t = 4 then cJSON_String else if t = 5 then cJSON_Array else cJSON_Object)"

definition text_at :: "json_mem \<Rightarrow> u64 \<Rightarrow> c_string option" where
  "text_at m p = (if p = 0 then None else map_option (Pair p) (jm_texts m p))"

definition node_at :: "json_mem \<Rightarrow> json_item \<Rightarrow> cJSON list \<Rightarrow> cJSON" where
  "node_at m i ch = CJSON (type_of (it_type i)) (text_at m (it_valuestring i)) (it_valueint i) (it_valuedouble i) (text_at m (it_string i)) ch"

fun trees_at :: "json_mem \<Rightarrow> shape list \<Rightarrow> cJSON list" where
  "trees_at m [] = []"
| "trees_at m (Shape a ks # ss) = node_at m (the (jm_items m a)) (trees_at m ks) # trees_at m ss"

fun unshared :: "json_mem \<Rightarrow> shape list \<Rightarrow> bool" where
  "unshared m [] \<longleftrightarrow> True"
| "unshared m (Shape a ks # ss) \<longleftrightarrow>
     \<not> is_reference (the (jm_items m a)) \<and> \<not> is_const (the (jm_items m a)) \<and> unshared m ks \<and> unshared m ss"

lemma trees_append [simp]: "trees_at m (ss @ ts) = trees_at m ss @ trees_at m ts"
  by (induction ss rule: item_addrs.induct) auto

lemma node_blocks:
  assumes "\<not> is_reference i" "\<not> is_const i" "set (item_texts i) \<subseteq> dom (jm_texts m)"
  shows "blocks (node_at m i ch) = 1 + length (item_texts i) + sum_list (map blocks ch)"
  using assms by (auto simp: node_at_def text_at_def string_block_def item_texts_def split: if_splits)

lemma trees_blocks:
  assumes "chain_at m c ss" "unshared m ss" "set (text_addrs m ss) \<subseteq> dom (jm_texts m)"
  shows "sum_list (map blocks (trees_at m ss)) = length (item_addrs ss) + length (text_addrs m ss)"
  using assms
proof (induction ss arbitrary: c rule: item_addrs.induct)
  case (2 a ks ss)
  then obtain i where i: "jm_items m a = Some i" by (auto split: option.splits)
  with "2.prems" have kids: "chain_at m (it_child i) ks" "chain_at m (it_next i) ss" by simp_all
  show ?case using "2.IH"(1)[OF kids(1)] "2.IH"(2)[OF kids(2)] "2.prems" i by (simp add: node_blocks)
qed simp

text \<open>Deleting an owned chain frees the blocks that deleting its trees counts.\<close>

lemma delete_refines_trees:
  assumes "owned m c ss" "unshared m ss" "length (item_addrs ss) + length (text_addrs m ss) \<le> cj_live s"
  shows "delete_chain c m = Some (release (set (item_addrs ss)) (set (text_addrs m ss)) m) \<and>
    cJSON_Delete_chain (trees_at m ss) s =
      Some (s\<lparr>cj_live := cj_live s - (card (set (item_addrs ss)) + card (set (text_addrs m ss)))\<rparr>)"
  using assms delete_owned[OF assms(1)] trees_blocks[of m c ss]
  by (auto simp: owned_def cJSON_Delete_frees(2) distinct_card)

lemma linked_trees: "linked S m m' \<Longrightarrow> trees_at m' ss = trees_at m ss"
proof (induction ss rule: item_addrs.induct)
  case (2 a ks ss)
  have "map_option unlinked (jm_items m' a) = map_option unlinked (jm_items m a)" "jm_texts m' = jm_texts m"
    using "2.prems" by (simp_all add: linked_def)
  then have "node_at m' (the (jm_items m' a)) ch = node_at m (the (jm_items m a)) ch" for ch
    by (cases "jm_items m' a"; cases "jm_items m a")
      (auto simp: node_at_def text_at_def unlinked_def dest!: arg_cong[where f = "\<lambda>i. (it_type i, it_valuestring i, it_valueint i, it_valuedouble i, it_string i)"])
  with 2 show ?case by simp
qed simp

lemma add_refines_trees:
  assumes "owned m array [Shape array ks]" "jm_items m array = Some a" "\<not> is_reference a" "owned m item [x]"
    and "apart m [Shape array ks] [x]"
  shows "\<exists>m'. add_to_array array item m = Some m' \<and> owned m' array [Shape array (ks @ [x])] \<and>
    trees_at m' [Shape array (ks @ [x])] =
      [append_child (List.hd (trees_at m [x])) (List.hd (trees_at m [Shape array ks]))]"
proof -
  obtain m' where m': "add_to_array array item m = Some m'" "owned m' array [Shape array (ks @ [x])]"
      "linked (set (item # array # item_addrs ks)) m m'"
    using add_to_array_owned[OF assms(1-4)] assms(5) by (auto simp: apart_def simp del: text_addrs.simps)
  have "trees_at m' [Shape array (ks @ [x])] = trees_at m [Shape array (ks @ [x])]"
    by (rule linked_trees) (rule m'(3))
  also have "\<dots> = [append_child (List.hd (trees_at m [x])) (List.hd (trees_at m [Shape array ks]))]"
    by (cases x) (simp add: node_at_def)
  finally show ?thesis using m' by blast
qed

text \<open>An empty array, and an object with one string, which is added to the array by reference.\<close>

definition example_mem :: json_mem where
  "example_mem = \<lparr>jm_items = [1 \<mapsto> zero_item\<lparr>it_type := 5\<rparr>, 2 \<mapsto> zero_item\<lparr>it_type := 6, it_child := 3\<rparr>,
       3 \<mapsto> zero_item\<lparr>it_type := 4, it_valuestring := 10, it_string := 11\<rparr>],
     jm_texts = [10 \<mapsto> [118], 11 \<mapsto> [110]], jm_calls = 0\<rparr>"

lemma reference_example:
  "\<exists>m' d. cJSON_AddItemReferenceToArray (\<lambda>_. 4) 1 3 example_mem = Some m' \<and> delete_chain 1 m' = Some d \<and>
     owned d 2 [Shape 2 [Shape 3 []]] \<and> jm_items d 1 = None \<and> jm_items d 4 = None"
proof -
  have flags: "is_reference i \<longleftrightarrow> False" "is_const i \<longleftrightarrow> False" if "it_type i \<in> {5, 6, 4}" for i
    using that by (auto simp: is_reference_def is_const_def cJSON_IsReference_def cJSON_StringIsConst_def)
  have own: "owned example_mem 1 [Shape 1 []]" "owned example_mem 2 [Shape 2 [Shape 3 []]]"
      "apart example_mem [Shape 1 []] [Shape 2 [Shape 3 []]]"
    by (auto simp: owned_def apart_def example_mem_def zero_item_def item_texts_def flags)
  have "jm_items example_mem 1 = Some (zero_item\<lparr>it_type := 5\<rparr>)" "\<not> is_reference (zero_item\<lparr>it_type := 5\<rparr>)"
    "(4 :: u64) \<notin> dom (jm_items example_mem)" "(3 :: u64) \<in> set (item_addrs [Shape 2 [Shape 3 []]])"
    by (simp_all add: example_mem_def flags)
  then obtain m' d where "cJSON_AddItemReferenceToArray (\<lambda>_. 4) 1 3 example_mem = Some m'" "delete_chain 1 m' = Some d"
      "owned d 2 [Shape 2 [Shape 3 []]]" "jm_items d = jm_items example_mem |` (- set (1 # item_addrs []))"
    using reference_shares_without_owning[where al = "\<lambda>_. 4" and item = 3, OF own(1) _ _ own(2) _ own(3)] by blast
  then show ?thesis by (auto simp: example_mem_def)
qed

end
