(* ===== verification/Tcp_Auto_Listener.thy ===== *)
theory Tcp_Auto_Listener
  imports Tcp_Auto_Connector
begin

text \<open>
  What an auto connector does to an owner that acts on success only: its state stays as it was until the connector
  hands out a descriptor, and then the connector is at rest. \<open>auto_told\<close> says so of every event.
\<close>

section \<open>The contract\<close>

text \<open>The connector has no descriptor or one the kernel gave.\<close>

definition auto_sd :: "'u tcp_auto_connector \<Rightarrow> bool" where
  "auto_sd a \<longleftrightarrow> tc_sd (ac_tcp_connector a) = -1 \<or> 0 \<le> tc_sd (ac_tcp_connector a)"

definition auto_told :: "('u \<Rightarrow> 'u \<Rightarrow> bool) \<Rightarrow> 'u \<Rightarrow> 'u tcp_auto_connector \<Rightarrow> bool" where
  "auto_told tells e a \<longleftrightarrow> auto_inv a \<and> auto_sd a \<and>
     (if ac_state a = tcp_auto_connector_state_not_started then tells e (ac_env a) else ac_env a = e)"

locale auto_listener =
  fixes cb :: "'u auto_cb" and tells :: "'u \<Rightarrow> 'u \<Rightarrow> bool"
  assumes connected: "0 \<le> sd \<Longrightarrow> \<exists>e. cb a sd = Some (a\<lparr>ac_env := e\<rparr>) \<and> tells (ac_env a) e"
    and failed: "sd < 0 \<Longrightarrow> cb a sd = Some a"

sublocale auto_listener \<subseteq> auto_owner cb
proof (rule auto_owner.intro)
  show "\<exists>e. cb a sd = Some (a\<lparr>ac_env := e\<rparr>)" for a sd
  proof (cases "0 \<le> sd")
    case True
    then show ?thesis using connected [of sd a] by blast
  next
    case False
    then show ?thesis using failed [of sd a] by (intro exI [of _ "ac_env a"]) simp
  qed
qed

context auto_listener
begin

lemma success_told:
  assumes "fds_balanced (ac_tcp_connector a)" "attempt_idle (ac_tcp_connector a)" "0 \<le> tc_sd (ac_tcp_connector a)"
    "\<not> task_timer_active (ac_reconn_wait_tmr a)"
  shows "\<exists>a'. tcp_auto_connector_handle_tcp_connect_event cb out a tcp_connector_success = Some a' \<and> auto_told tells (ac_env a) a'"
proof -
  let ?a = "a\<lparr>ac_state := tcp_auto_connector_state_not_started, ac_tcp_connector := fst (tcp_connect_get_sd (ac_tcp_connector a))\<rparr>"
  have sd: "snd (tcp_connect_get_sd (ac_tcp_connector a)) = tc_sd (ac_tcp_connector a)" by (simp add: tcp_connect_get_sd_def)
  obtain e where "cb ?a (tc_sd (ac_tcp_connector a)) = Some (?a\<lparr>ac_env := e\<rparr>)" "tells (ac_env a) e"
    using connected [OF assms(3), of ?a] by auto
  then show ?thesis
    using tcp_connect_get_sd_spec [of "ac_tcp_connector a"] assms sd
    by (simp add: Let_def split_beta auto_told_def auto_inv_def auto_sd_def)
qed

lemma failure_told:
  assumes "fds_balanced (ac_tcp_connector a)" "attempt_idle (ac_tcp_connector a)" "\<not> task_timer_active (ac_reconn_wait_tmr a)"
  shows "\<exists>a'. tcp_auto_connector_handle_tcp_connect_event cb out a tcp_connector_failure = Some a' \<and> auto_told tells (ac_env a) a'"
  using tcp_connector_deinit_spec [of "ac_tcp_connector a"] assms
  by (simp add: Let_def failed auto_told_def auto_inv_def auto_sd_def timer_simps)

lemma connect_told:
  assumes "auto_between a"
  shows "\<exists>a'. tcp_auto_connector_connect cb out a = Some a' \<and> auto_told tells (ac_env a) a'"
proof -
  obtain c st where c: "tcp_connector_try_ipv4 out (ac_tcp_connector a) (ac_conn_tmr_value a) = Some (c, st)"
      "fds_balanced c" "tc_sd c = (if co_socket out < 0 then -1 else co_socket out)"
      "st = (if co_socket out < 0 then tcp_connector_failure
            else case co_connect out of Conn_ok \<Rightarrow> tcp_connector_success
              | Conn_EINPROGRESS \<Rightarrow> tcp_connector_in_progress | Conn_error \<Rightarrow> tcp_connector_failure)"
      "if st = tcp_connector_in_progress then attempt_running c else attempt_idle c"
    using tcp_connector_try_ipv4_spec [of "ac_tcp_connector a"] assms unfolding auto_between_def by blast
  have t: "\<not> task_timer_active (ac_reconn_wait_tmr a)" using assms by (simp add: auto_between_def)
  let ?a = "a\<lparr>ac_tcp_connector := c\<rparr>"
  have step: "tcp_auto_connector_connect cb out a = tcp_auto_connector_handle_tcp_connect_event cb out ?a st"
    using c(1) by (simp add: tcp_auto_connector_connect.simps)
  show ?thesis
  proof (cases st)
    case tcp_connector_success
    then have "0 \<le> tc_sd c" using c(3,4) by (auto split: if_splits)
    then show ?thesis using success_told [of ?a] c(2,5) t step tcp_connector_success by simp
  next
    case tcp_connector_failure
    then show ?thesis using failure_told [of ?a] c(2,5) t step by simp
  next
    case tcp_connector_in_progress
    then show ?thesis using c(2,3,5) t step by (simp add: auto_told_def auto_inv_def auto_sd_def)
  next
    case tcp_connector_timed_out
    then show ?thesis using c(4) by (auto split: if_splits connect_answer.splits)
  qed
qed

lemma timeout_told:
  assumes "fds_balanced (ac_tcp_connector a)" "attempt_idle (ac_tcp_connector a)" "\<not> task_timer_active (ac_reconn_wait_tmr a)"
  shows "\<exists>a'. tcp_auto_connector_handle_tcp_connect_event cb out a tcp_connector_timed_out = Some a' \<and> auto_told tells (ac_env a) a'"
proof -
  let ?a = "a\<lparr>ac_tcp_connector := tcp_connector_deinit (ac_tcp_connector a)\<rparr>"
  have "auto_between ?a" using tcp_connector_deinit_spec [of "ac_tcp_connector a"] assms by (simp add: auto_between_def)
  from connect_told [OF this, of out] show ?thesis by (simp add: Let_def failed)
qed

lemma step_told:
  assumes inv: "auto_inv a" "auto_sd a" and en: "auto_enabled a ev" and ev: "ev \<noteq> Ac_stop"
  shows "\<exists>a'. auto_step cb a ev = Some a' \<and> auto_told tells (ac_env a) a'"
proof (cases ev)
  case (Ac_start out)
  then have "auto_between a" using inv en by (simp add: auto_inv_def auto_between_def)
  then show ?thesis using connect_told Ac_start by (simp add: tcp_auto_connector_start_def)
next
  case Ac_stop
  then show ?thesis using ev by simp
next
  case (Ac_writable err out)
  let ?c = "ac_tcp_connector a"
  let ?c' = "?c\<lparr>tc_is_in_prog := False, tc_watcher := watcher_stop (tc_watcher ?c), tc_tmr := task_timer_stop (tc_tmr ?c)\<rparr>"
  have run: "attempt_running ?c" "fds_balanced ?c" "\<not> task_timer_active (ac_reconn_wait_tmr a)"
    using inv(1) en Ac_writable by (auto simp: auto_inv_def attempt_idle_def split: tcp_auto_connector_state.splits)
  then have c': "attempt_idle ?c'" "fds_balanced ?c'" "0 \<le> tc_sd ?c'"
    using watcher_stop_inactive inv(2)
    by (auto simp: attempt_running_def attempt_idle_def tc_watching_def fds_balanced_def timer_simps auto_sd_def)
  show ?thesis
    using success_told [of "a\<lparr>ac_tcp_connector := ?c'\<rparr>" out] failure_told [of "a\<lparr>ac_tcp_connector := ?c'\<rparr>" out] c' run(3)
    by (simp add: Ac_writable tcp_connector_watcher_callback_def tcp_auto_connector_tcp_connector_callback_def Let_def
        del: tcp_auto_connector_handle_tcp_connect_event.simps)
next
  case (Ac_timeout out)
  let ?c = "ac_tcp_connector a"
  let ?c' = "?c\<lparr>tc_tmr := task_timer_expire (tc_tmr ?c), tc_is_in_prog := False, tc_watcher := watcher_stop (tc_watcher ?c)\<rparr>"
  have run: "attempt_running ?c" "fds_balanced ?c" "\<not> task_timer_active (ac_reconn_wait_tmr a)"
    using inv(1) en Ac_timeout by (auto simp: auto_inv_def attempt_idle_def split: tcp_auto_connector_state.splits)
  then have c': "attempt_idle ?c'" "fds_balanced ?c'"
    using watcher_stop_inactive
    by (auto simp: attempt_running_def attempt_idle_def tc_watching_def fds_balanced_def timer_simps)
  show ?thesis
    using timeout_told [of "a\<lparr>ac_tcp_connector := ?c'\<rparr>" out] c' run(3)
    by (simp add: Ac_timeout tcp_connector_timeout_def tcp_auto_connector_tcp_connector_callback_def Let_def
        del: tcp_auto_connector_handle_tcp_connect_event.simps)
next
  case (Ac_reconnect out)
  have "auto_between (a\<lparr>ac_reconn_wait_tmr := task_timer_expire (ac_reconn_wait_tmr a)\<rparr>)"
    using inv(1) en Ac_reconnect
    by (auto simp: auto_inv_def auto_between_def timer_simps split: tcp_auto_connector_state.splits)
  from connect_told [OF this] show ?thesis using Ac_reconnect by (simp add: tcp_auto_connector_reconn_wait_timeout_def)
qed

end

text \<open>A connector that has been initialised again, its memory being that of one that owns nothing.\<close>

lemma auto_init_between:
  assumes "attempt_idle (ac_tcp_connector a)" "fds_balanced ((ac_tcp_connector a)\<lparr>tc_sd := -1\<rparr>)"
  shows "auto_between ((tcp_auto_connector_init a addr t1 t2)\<lparr>ac_tcp_connector := (ac_tcp_connector a)\<lparr>tc_sd := -1\<rparr>\<rparr>)"
  using assms by (simp add: auto_between_def tcp_auto_connector_init_def timer_simps attempt_idle_def tc_watching_def)

end
