(* ===== verification/Modbus_Master_Demo.thy ===== *)
theory Modbus_Master_Demo
  imports Modbus_Tcp_Master Tcp_Auto_Listener
begin

text \<open>
  \<open>src/demo/modbus_master_test.c\<close>: a task that polls a slave over TCP once a second, for ever. The task starts the
  poll timer, the master and its first attempt to connect; from then on it reacts to the timer, to the events of the
  connector and to those of the stream. The answers of the kernel and of \<open>malloc\<close> come with the event that asks for
  them.
\<close>

section \<open>The task\<close>

record 'u master_demo =
  md_tcp_master :: "'u tcp_master"
  md_req_timer :: task_timer

definition req_timer_handler ::
    "kernel_write \<Rightarrow> u8 list option \<Rightarrow> connect_outcome \<Rightarrow> 'u master_demo \<Rightarrow> 'u master_demo option" where
  "req_timer_handler k block out d = do {
     let m = md_tcp_master d;
     m \<leftarrow> mb_master_read_coils_req (modbus_tcp_master_request k block out m) (mt_ctx m) 2 1000 23;
     Some (d\<lparr>md_tcp_master := m, md_req_timer := task_timer_restart (md_req_timer d) 1 0\<rparr>) }"

definition modbus_master_task_start :: "u8 list option \<Rightarrow> connect_outcome \<Rightarrow> 'u master_demo \<Rightarrow> 'u master_demo option" where
  "modbus_master_task_start block out d = do {
     let d = d\<lparr>md_req_timer := task_timer_init\<rparr>;
     let d = d\<lparr>md_req_timer := task_timer_restart (md_req_timer d) 1 0\<rparr>;
     m \<leftarrow> modbus_tcp_master_start block out (modbus_tcp_master_init (md_tcp_master d) ''127.0.0.1:12345'');
     Some (d\<lparr>md_tcp_master := m\<rparr>) }"

text \<open>What the stream's watcher does to the master.\<close>

definition modbus_tcp_master_stream_event ::
    "(master_event \<Rightarrow> 'u \<Rightarrow> 'u option) \<Rightarrow> watcher_event \<Rightarrow> kernel_read \<Rightarrow> kernel_write \<Rightarrow> u8 list option
      \<Rightarrow> connect_outcome \<Rightarrow> 'u tcp_master \<Rightarrow> 'u tcp_master option" where
  "modbus_tcp_master_stream_event cb evt r k block out m =
     map_option master_of_stream
       (stream_watcher_callback (modbus_tcp_master_stream_callback cb block out) r k (st_attach (mt_stream m) m) evt)"

datatype demo_event =
  Req_timer kernel_write "u8 list option" connect_outcome
| Connector "u8 list option" auto_event
| Stream_event watcher_event kernel_read kernel_write "u8 list option" connect_outcome

fun demo_enabled :: "'u master_demo \<Rightarrow> demo_event \<Rightarrow> bool" where
  "demo_enabled d (Req_timer k block out) \<longleftrightarrow> task_timer_active (md_req_timer d)"
| "demo_enabled d (Connector block ev) \<longleftrightarrow>
     (case ev of Ac_start _ \<Rightarrow> False | Ac_stop \<Rightarrow> False | _ \<Rightarrow> auto_enabled (mt_tcp_connector (md_tcp_master d)) ev)"
| "demo_enabled d (Stream_event evt r k block out) \<longleftrightarrow> (let w = st_watcher (mt_stream (md_tcp_master d)) in
     case evt of watcher_event_rx \<Rightarrow> io_active (w_rx_io w) | watcher_event_tx \<Rightarrow> io_active (w_tx_io w)
     | watcher_event_error \<Rightarrow> io_active (w_er_io w))"

fun demo_step :: "(master_event \<Rightarrow> 'u \<Rightarrow> 'u option) \<Rightarrow> 'u master_demo \<Rightarrow> demo_event \<Rightarrow> 'u master_demo option" where
  "demo_step cb d (Req_timer k block out) =
     req_timer_handler k block out (d\<lparr>md_req_timer := task_timer_expire (md_req_timer d)\<rparr>)"
| "demo_step cb d (Connector block ev) = do {
     m \<leftarrow> modbus_tcp_master_connector_event block (md_tcp_master d) ev;
     Some (d\<lparr>md_tcp_master := m\<rparr>) }"
| "demo_step cb d (Stream_event evt r k block out) = do {
     m \<leftarrow> modbus_tcp_master_stream_event cb evt r k block out (md_tcp_master d);
     Some (d\<lparr>md_tcp_master := m\<rparr>) }"

text \<open>Events that cannot happen in a state are skipped.\<close>

definition demo_run :: "(master_event \<Rightarrow> 'u \<Rightarrow> 'u option) \<Rightarrow> 'u master_demo \<Rightarrow> demo_event list \<Rightarrow> 'u master_demo option" where
  "demo_run cb d es = foldo (\<lambda>d e. if demo_enabled d e then demo_step cb d e else Some d) d es"

text \<open>What the kernel promises: a read gives no more bytes than asked for; and memory for the ring buffer is there.\<close>

definition block_ok :: "u8 list option \<Rightarrow> bool" where
  "block_ok block \<longleftrightarrow> (\<exists>mem. block = Some mem \<and> length mem = 512)"

fun demo_event_ok :: "demo_event \<Rightarrow> bool" where
  "demo_event_ok (Req_timer k block out) \<longleftrightarrow> block_ok block"
| "demo_event_ok (Connector block ev) \<longleftrightarrow> block_ok block"
| "demo_event_ok (Stream_event evt r k block out) \<longleftrightarrow> block_ok block \<and> length (snd (sys_read_ret r)) \<le> 128"

section \<open>The invariant of the master\<close>

definition stream_active :: "'u stream \<Rightarrow> bool" where
  "stream_active s \<longleftrightarrow> io_active (w_rx_io (st_watcher s)) \<or> io_active (w_tx_io (st_watcher s)) \<or> io_active (w_er_io (st_watcher s))"

text \<open>Nothing waits to be sent, so the stream is never watched for room.\<close>

definition stream_idle :: "'u stream \<Rightarrow> bool" where
  "stream_idle s \<longleftrightarrow> stream_inv s \<and> st_queue s = [] \<and> \<not> tx_watched s \<and> cb_cap (st_tx_buf s) = 512"

definition master_inv :: "'u tcp_master \<Rightarrow> bool" where
  "master_inv m \<longleftrightarrow> auto_inv (mt_tcp_connector m) \<and> auto_sd (mt_tcp_connector m)
     \<and> mm_pdu_offset (mt_ctx m) = 7 \<and> length (mm_tx_buf (mt_ctx m)) = 512
     \<and> length (st_rx_buf (mt_stream m)) = 128 \<and> length (mbap_frame (mt_mbap_reader m)) = 260 \<and> mt_pid m = 0
     \<and> (case mt_tcp_state m of
          ModbusTCPMasterState_Not_Connected \<Rightarrow> False
        | ModbusTCPMasterState_Connecting \<Rightarrow>
            ac_state (mt_tcp_connector m) \<noteq> tcp_auto_connector_state_not_started \<and> \<not> stream_active (mt_stream m)
        | ModbusTCPMasterState_Connected \<Rightarrow>
            ac_state (mt_tcp_connector m) = tcp_auto_connector_state_not_started
            \<and> stream_idle (mt_stream m) \<and> mbap_inv (mt_mbap_reader m))"

text \<open>What a connection does to the master.\<close>

definition master_joined :: "u8 list option \<Rightarrow> 'u tcp_master \<Rightarrow> 'u tcp_master \<Rightarrow> bool" where
  "master_joined block m m' \<longleftrightarrow> (\<exists>st. m' = m\<lparr>mt_tcp_state := ModbusTCPMasterState_Connected, mt_stream := st,
       mt_mbap_reader := mbap_reader_init (mt_mbap_reader m)\<rparr>
     \<and> st_rx_buf st = st_rx_buf (mt_stream m) \<and> st_wire st = st_wire (mt_stream m) \<and> (block_ok block \<longrightarrow> stream_idle st))"

lemma stream_start_idle: "stream_idle s \<Longrightarrow> stream_idle (stream_start s)"
  using watcher_start_spec [of "st_watcher s"]
  by (simp add: stream_idle_def stream_start_def stream_inv_def st_queue_def tx_watched_def)

lemma master_joins:
  assumes "0 \<le> sd"
  shows "\<exists>e. modbus_tcp_master_tcp_connector_callback block a sd = Some (a\<lparr>ac_env := e\<rparr>) \<and> master_joined block (ac_env a) e"
proof -
  let ?s = "mt_stream (ac_env a)"
  obtain st where st: "stream_init_with_fd block ?s sd (st_rx_buf ?s) 128 512 = Some st" "st_rx_buf st = st_rx_buf ?s"
      "st_wire st = st_wire ?s" using stream_init_total by blast
  have "stream_idle st" if b: "block_ok block"
  proof -
    obtain mem where "block = Some mem" "length mem = 512" using b by (auto simp: block_ok_def)
    then show ?thesis using stream_init_spec [of mem ?s sd "st_rx_buf ?s" 128] st(1) by (auto simp: stream_idle_def)
  qed
  then show ?thesis
    using st assms stream_start_idle [of st]
    by (auto simp: modbus_tcp_master_tcp_connector_callback_def Let_def master_joined_def stream_start_def
        intro!: exI [of _ "stream_start st"])
qed

interpretation joining: auto_listener "modbus_tcp_master_tcp_connector_callback block" "master_joined block" for block
proof (rule auto_listener.intro)
  show "\<exists>e. modbus_tcp_master_tcp_connector_callback block a sd = Some (a\<lparr>ac_env := e\<rparr>) \<and> master_joined block (ac_env a) e"
    if "0 \<le> sd" for a sd using master_joins [OF that] .
  show "modbus_tcp_master_tcp_connector_callback block a sd = Some a" if "sd < 0" for a sd
    using that by (simp add: modbus_tcp_master_tcp_connector_callback_def)
qed

section \<open>Connecting\<close>

definition master_sizes :: "'u tcp_master \<Rightarrow> bool" where
  "master_sizes m \<longleftrightarrow> mm_pdu_offset (mt_ctx m) = 7 \<and> length (mm_tx_buf (mt_ctx m)) = 512
     \<and> length (st_rx_buf (mt_stream m)) = 128 \<and> length (mbap_frame (mt_mbap_reader m)) = 260 \<and> mt_pid m = 0"

lemma attach_auto [simp]:
  "auto_inv (ac_attach a e) = auto_inv a" "auto_sd (ac_attach a e) = auto_sd a" "ac_state (ac_attach a e) = ac_state a"
  "auto_between (ac_attach a e) = auto_between a"
  by (simp_all add: ac_attach_def auto_inv_def auto_sd_def auto_between_def split: tcp_auto_connector_state.split)

lemma attach_enabled [simp]: "auto_enabled (ac_attach a e) ev = auto_enabled a ev"
  by (cases ev) (simp_all add: ac_attach_def)

lemma st_attach_back [simp]: "st_attach (st_attach s e) () = s" for s :: "unit stream"
  by (cases s) (simp add: st_attach_def)

lemma told_inv:
  assumes a: "auto_told (master_joined block) m a" and b: "block_ok block"
    and m: "master_sizes m" "mt_tcp_state m = ModbusTCPMasterState_Connecting" "\<not> stream_active (mt_stream m)"
  shows "master_inv (master_of_connector a)"
proof (cases "ac_state a = tcp_auto_connector_state_not_started")
  case True
  then have "master_joined block m (ac_env a)" using a by (simp add: auto_told_def)
  then obtain st where st: "ac_env a = m\<lparr>mt_tcp_state := ModbusTCPMasterState_Connected, mt_stream := st,
      mt_mbap_reader := mbap_reader_init (mt_mbap_reader m)\<rparr>" "st_rx_buf st = st_rx_buf (mt_stream m)" "stream_idle st"
    using b by (auto simp: master_joined_def)
  then show ?thesis using a m(1) True
    by (simp add: master_of_connector_def master_inv_def master_sizes_def auto_told_def mbap_reader_init_def mbap_reset_inv
        mbap_reader_reset_def mbap_inv_def)
next
  case False
  then have "ac_env a = m" using a by (simp add: auto_told_def)
  then show ?thesis using a m False
    by (simp add: master_of_connector_def master_inv_def master_sizes_def auto_told_def)
qed

lemma master_connect_inv:
  assumes "auto_between (mt_tcp_connector m)" "block_ok block" "master_sizes m"
    "mt_tcp_state m = ModbusTCPMasterState_Connecting" "\<not> stream_active (mt_stream m)"
  shows "\<exists>m'. modbus_tcp_master_connect block out m = Some m' \<and> master_inv m'"
proof -
  let ?a = "ac_attach (mt_tcp_connector m) m"
  obtain a where "tcp_auto_connector_connect (modbus_tcp_master_tcp_connector_callback block) out ?a = Some a"
      "auto_told (master_joined block) (ac_env ?a) a"
    using joining.connect_told [of ?a block out] assms(1) by auto
  then show ?thesis using told_inv [of block m a] assms(2-)
    by (simp add: modbus_tcp_master_connect_def tcp_auto_connector_start_def)
qed

lemma stream_deinit_inactive: "watcher_inv (st_watcher s) \<Longrightarrow> \<not> stream_active (stream_deinit s)"
  using watcher_stop_spec [of "st_watcher s"]
  by (auto simp: stream_active_def stream_deinit_def stream_stop_def watcher_inv_def w_switches_def)

lemma master_reconnect_inv:
  assumes "master_sizes m" "auto_inv (mt_tcp_connector m)" "block_ok block"
    "ac_state (mt_tcp_connector m) = tcp_auto_connector_state_not_started" "watcher_inv (st_watcher (mt_stream m))"
  shows "\<exists>m'. modbus_tcp_master_start_reconnect block out m = Some m' \<and> master_inv m'"
  unfolding modbus_tcp_master_start_reconnect_def Let_def
  using assms stream_deinit_inactive [of "mt_stream m"]
  by (intro master_connect_inv)
    (simp_all add: auto_between_def auto_inv_def tcp_auto_connector_init_def timer_simps master_sizes_def stream_deinit_def stream_stop_def
      mbap_reader_reset_def stream_active_def)


section \<open>Requests\<close>

text \<open>A write of a frame that fits the ring buffer: all of it is sent, or the call answers false.\<close>

lemma stream_write_all_or_fail:
  assumes s: "stream_idle s" and data: "data \<noteq> []" "length data \<le> 512"
  shows "\<exists>s' ok. stream_write k s data (int (length data)) = Some (s', ok) \<and> stream_inv s'
    \<and> st_rx_buf s' = st_rx_buf s \<and> (ok \<longrightarrow> s' = s\<lparr>st_wire := st_wire s @ data\<rparr>)"
proof -
  note i = s [unfolded stream_idle_def]
  have short: ?thesis if "k = Block \<and> n = 0 \<or> k = Room n" "n < length data" for n
    using stream_write_short_fits [of s k n data] i data that stream_write_frame by fastforce
  show ?thesis
  proof (cases k)
    case (Room n)
    then show ?thesis
      using short [of n] stream_write_sent [of s data n] i by (cases "n < length data") (auto simp: stream_inv_def)
  next
    case Block
    then show ?thesis using short [of 0] data(1) by auto
  next
    case Fail
    then show ?thesis using stream_write_failed [of s data] i by auto
  qed
qed

lemma idle_wire: "stream_idle s \<Longrightarrow> stream_idle (s\<lparr>st_wire := w\<rparr>)"
  by (simp add: stream_idle_def stream_inv_def st_queue_def tx_watched_def)

lemma master_sizes_of: "master_inv m \<Longrightarrow> master_sizes m"
  by (simp add: master_inv_def master_sizes_def)

lemma master_tid [simp]: "master_inv (m\<lparr>mt_tid := t\<rparr>) = master_inv m"
  by (simp add: master_inv_def split: modbus_tcp_master_state.split)

text \<open>The frame of a request, which the master puts together in the transmit buffer.\<close>

lemma request_bytes:
  assumes ctx: "mm_pdu_offset ctx = 7" "length (mm_tx_buf ctx) = 512" and pdu: "length pdu \<le> 253"
  shows "mm_tx_ndx (mm_with_pdu ctx pdu) = of_nat (7 + length pdu)" "length (mm_tx_buf (mm_with_pdu ctx pdu)) = 512"
    "uint (mm_tx_ndx (mm_with_pdu ctx pdu)) = int (7 + length pdu)"
    "[hi_byte (mt_tid m), lo_byte (mt_tid m), hi_byte (mt_pid m), lo_byte (mt_pid m),
      hi_byte (mm_tx_ndx (mm_with_pdu ctx pdu) + 1 - 7), lo_byte (mm_tx_ndx (mm_with_pdu ctx pdu) + 1 - 7), slave]
        @ drop 7 (mm_tx_buf (mm_with_pdu ctx pdu))
      = pdu_wire (request_frame m slave pdu) @ drop (7 + length pdu) (mm_tx_buf ctx)"
proof -
  show n: "mm_tx_ndx (mm_with_pdu ctx pdu) = of_nat (7 + length pdu)" using ctx(1) by (simp add: mm_with_pdu_def Let_def)
  have b: "mm_tx_buf (mm_with_pdu ctx pdu) = take 7 (mm_tx_buf ctx) @ pdu @ drop (7 + length pdu) (mm_tx_buf ctx)"
    using ctx(1) by (simp add: mm_with_pdu_def Let_def)
  then show "length (mm_tx_buf (mm_with_pdu ctx pdu)) = 512" using ctx(2) pdu by simp
  have "unat (mm_tx_ndx (mm_with_pdu ctx pdu)) = 7 + length pdu" unfolding n by (rule unat_of_small) (use pdu in simp)
  then show "uint (mm_tx_ndx (mm_with_pdu ctx pdu)) = int (7 + length pdu)" by (simp only: uint_is_unat)
  have "mm_tx_ndx (mm_with_pdu ctx pdu) + 1 - 7 = of_nat (length pdu + 1)" unfolding n by simp
  then show "[hi_byte (mt_tid m), lo_byte (mt_tid m), hi_byte (mt_pid m), lo_byte (mt_pid m),
      hi_byte (mm_tx_ndx (mm_with_pdu ctx pdu) + 1 - 7), lo_byte (mm_tx_ndx (mm_with_pdu ctx pdu) + 1 - 7), slave]
        @ drop 7 (mm_tx_buf (mm_with_pdu ctx pdu))
      = pdu_wire (request_frame m slave pdu) @ drop (7 + length pdu) (mm_tx_buf ctx)"
    using ctx(2) by (simp add: b pdu_wire_def request_frame_def pdu_len_def mbap_header_bytes_def add.commute)
qed

lemma request_inv:
  assumes m: "master_inv m" and b: "block_ok block" and ctx: "mm_pdu_offset ctx = 7" "length (mm_tx_buf ctx) = 512"
    and pdu: "length pdu \<le> 253"
  shows "\<exists>m'. modbus_tcp_master_request k block out m (mm_with_pdu ctx pdu) slave = Some m' \<and> master_inv m'"
proof (cases "mt_tcp_state m = ModbusTCPMasterState_Connected")
  case False
  have "master_inv (m\<lparr>mt_ctx := mm_with_pdu ctx pdu\<rparr>)"
    using m request_bytes(2) [OF ctx pdu] ctx(1) by (auto simp: master_inv_def split: modbus_tcp_master_state.splits)
  then show ?thesis using False by (simp add: modbus_tcp_master_request_def Let_def)
next
  case True
  let ?c = "mm_with_pdu ctx pdu" and ?w = "pdu_wire (request_frame m slave pdu)"
  let ?b = "?w @ drop (7 + length pdu) (mm_tx_buf ctx)"
  note r = request_bytes [OF ctx pdu]
  have w: "length ?w = 7 + length pdu" by (simp add: pdu_wire_def mbap_header_bytes_def request_frame_def)
  let ?m = "m\<lparr>mt_ctx := ?c\<lparr>mm_tx_buf := ?b\<rparr>\<rparr>"
  have idle: "stream_idle (mt_stream m)" using m True by (simp add: master_inv_def)
  obtain s' ok where s': "stream_write k (mt_stream m) ?w (int (length ?w)) = Some (s', ok)" "stream_inv s'"
      "st_rx_buf s' = st_rx_buf (mt_stream m)" "ok \<longrightarrow> s' = (mt_stream m)\<lparr>st_wire := st_wire (mt_stream m) @ ?w\<rparr>"
    using stream_write_all_or_fail [OF idle, of ?w k] pdu w by fastforce
  have "stream_write k (mt_stream m) ?b (uint (mm_tx_ndx ?c)) = Some (s', ok)"
    using s'(1) stream_write_take [of "7 + length pdu" ?b k "mt_stream m"] w by (simp add: r(3))
  moreover have l7: "7 \<le> length (mm_tx_buf ?c)" using r(2) by simp
  ultimately have step: "modbus_tcp_master_request k block out m ?c slave = do {
      m1 \<leftarrow> (if \<not> ok then modbus_tcp_master_start_reconnect block out (?m\<lparr>mt_stream := s'\<rparr>) else Some (?m\<lparr>mt_stream := s'\<rparr>));
      Some (m1\<lparr>mt_tid := mt_tid m1 + 1\<rparr>) }"
    using True r(4) [of m slave] unfolding modbus_tcp_master_request_def Let_def header_stores [OF l7]
    by (simp del: append_Cons append_assoc)
  have sizes: "master_sizes (?m\<lparr>mt_stream := s'\<rparr>)"
    using master_sizes_of [OF m] ctx w r(2) s'(3) pdu by (simp add: master_sizes_def)
  show ?thesis
  proof (cases ok)
    case True
    then have "master_inv (?m\<lparr>mt_stream := s'\<rparr>)"
      using m sizes s'(4) idle_wire [OF idle] \<open>mt_tcp_state m = _\<close> by (simp add: master_inv_def master_sizes_def)
    then show ?thesis using step True by simp
  next
    case False
    then obtain m' where "modbus_tcp_master_start_reconnect block out (?m\<lparr>mt_stream := s'\<rparr>) = Some m'" "master_inv m'"
      using master_reconnect_inv [OF sizes _ b] m s'(2) \<open>mt_tcp_state m = _\<close> by (auto simp: master_inv_def stream_inv_def)
    then show ?thesis using step False by simp
  qed
qed


section \<open>Events of the stream\<close>

text \<open>Only the application's state changes when frames arrive.\<close>

lemma st_attach_sel: "st_rx_buf (st_attach s e) = st_rx_buf s" "st_rx_data_len (st_attach s e) = st_rx_data_len s"
  by (simp_all add: st_attach_def)

lemma callback_attach:
  "modbus_tcp_master_stream_callback cb block out (st_attach s m) evt
    = modbus_tcp_master_stream_callback cb block out (st_attach (mt_stream (m\<lparr>mt_stream := s\<rparr>)) (m\<lparr>mt_stream := s\<rparr>)) evt"
proof -
  have "master_of_stream (st_attach s m) = m\<lparr>mt_stream := s\<rparr>"
    "master_of_stream (st_attach s (m\<lparr>mt_stream := s\<rparr>)) = m\<lparr>mt_stream := s\<rparr>"
    by (simp_all add: master_of_stream_def)
  then show ?thesis by (cases evt) (simp_all add: modbus_tcp_master_stream_callback_def Let_def st_attach_sel)
qed

context master_app
begin

lemma got_frame_app:
  assumes "length (mbap_frame r) = 260"
  shows "\<exists>u. modbus_tcp_master_got_frame cb r = Some (r\<lparr>mbap_env := (mbap_env r)\<lparr>mt_app := u\<rparr>\<rparr>)"
proof -
  have "5 \<le> length (drop 7 (mbap_frame r))" using assms by simp
  from response_returns [OF this] obtain u where u: "modbus_rtu_handler_response_rx cb (mt_ctx (mbap_env r)) (mbap_uid r)
      (drop 7 (mbap_frame r)) (uint (mbap_length r) - 1) (mt_app (mbap_env r)) = Some u"
    by blast
  show ?thesis
  proof (cases "uint (mt_tid (mbap_env r)) - 1 = uint (mbap_tid r) \<and> mt_pid (mbap_env r) = mbap_pid r")
    case True
    then show ?thesis using u by (intro exI [of _ u]) (simp add: modbus_tcp_master_got_frame_def Let_def)
  next
    case False
    then show ?thesis by (intro exI [of _ "mt_app (mbap_env r)"]) (auto simp: modbus_tcp_master_got_frame_def Let_def)
  qed
qed

lemma replies_only_app: "mbap_client (modbus_tcp_master_got_frame cb) (\<lambda>e. \<exists>u. e = m\<lparr>mt_app := u\<rparr>)"
proof (rule mbap_client.intro)
  fix r :: "'u tcp_master mbap_reader"
  assume "mbap_complete r" "\<exists>u. mbap_env r = m\<lparr>mt_app := u\<rparr>"
  then show "\<exists>r'. modbus_tcp_master_got_frame cb r = Some r' \<and> length (mbap_frame r') = 260 \<and> (\<exists>u. mbap_env r' = m\<lparr>mt_app := u\<rparr>)"
    using got_frame_app [of r] mbap_complete_fields(1) [of r] by auto
qed

lemma feed_inv:
  assumes m: "master_inv m" "mt_tcp_state m = ModbusTCPMasterState_Connected"
    and n: "n \<le> 128" "st_rx_data_len (mt_stream m) = int n"
  shows "\<exists>m'. modbus_tcp_master_stream_callback cb block out (st_attach (mt_stream m) m) stream_event_rx
    = Some (st_attach (mt_stream m') m') \<and> master_inv m'"
proof -
  let ?r = "mb_attach (mt_mbap_reader m) m"
  have i: "mbap_inv ?r" "length (st_rx_buf (mt_stream m)) = 128" using m by (simp_all add: master_inv_def)
  have "\<exists>u. mbap_env ?r = m\<lparr>mt_app := u\<rparr>" by (intro exI [of _ "mt_app m"]) simp
  then obtain r' u where r': "foldo (mbap_state_machine (modbus_tcp_master_got_frame cb)) ?r (take n (st_rx_buf (mt_stream m))) = Some r'"
      "mbap_inv r'" "mbap_env r' = m\<lparr>mt_app := u\<rparr>"
    using mbap_client.mbap_run_inv [OF replies_only_app i(1)] by blast
  have "mbap_reader_feed (modbus_tcp_master_got_frame cb) ?r (st_rx_buf (mt_stream m)) (int n) = Some r'"
    using r'(1) n i(2) by (simp add: mbap_reader_feed_def mem_slice_def)
  moreover have "master_inv (master_of_reader r')"
    using m r'(2,3) by (simp add: master_of_reader_def master_inv_def) (simp add: mbap_inv_def)
  moreover have "master_of_stream (st_attach (mt_stream m) m) = m"
    by (simp add: master_of_stream_def)
  ultimately show ?thesis using n(2)
    by (intro exI [of _ "master_of_reader r'"]) (simp add: modbus_tcp_master_stream_callback_def st_attach_def)
qed

lemma reconnect_event_inv:
  assumes m: "master_inv m" "mt_tcp_state m = ModbusTCPMasterState_Connected" and b: "block_ok block"
    and evt: "evt = stream_event_eof \<or> evt = stream_event_err"
  shows "\<exists>m'. modbus_tcp_master_stream_callback cb block out (st_attach (mt_stream m) m) evt
    = Some (st_attach (mt_stream m') m') \<and> master_inv m'"
proof -
  obtain m' where "modbus_tcp_master_start_reconnect block out m = Some m'" "master_inv m'"
    using master_reconnect_inv [OF master_sizes_of [OF m(1)] _ b] m by (auto simp: master_inv_def stream_idle_def stream_inv_def)
  moreover have "master_of_stream (st_attach (mt_stream m) m) = m" by (simp add: master_of_stream_def)
  ultimately show ?thesis using evt by (auto simp: modbus_tcp_master_stream_callback_def)
qed

lemma rx_event_inv:
  assumes m: "master_inv m" "mt_tcp_state m = ModbusTCPMasterState_Connected" "stream_idle (mt_stream m)"
    and b: "block_ok block" and r: "length (snd (sys_read_ret r)) \<le> 128"
  shows "\<exists>m'. modbus_tcp_master_stream_event cb watcher_event_rx r k block out m = Some m' \<and> master_inv m'"
proof -
  obtain ret bytes where rb: "sys_read_ret r = (ret, bytes)" by fastforce
  let ?s = "mt_stream m"
  let ?buf = "bytes @ drop (length bytes) (st_rx_buf ?s)"
  have l: "length bytes \<le> 128" "length (st_rx_buf ?s) = 128" using r rb m(1) by (simp_all add: master_inv_def)
  then have copy: "c_memcpy (st_rx_buf ?s) 0 bytes 0 (int (length bytes)) = Some ?buf"
    using c_memcpy_in [of 0 "length bytes" "st_rx_buf ?s" 0 bytes] by simp
  have ret: "ret > 0 \<longrightarrow> ret = int (length bytes)" using rb by (cases r) auto
  let ?s1 = "?s\<lparr>st_rx_buf := ?buf\<rparr>"
  let ?s2 = "?s1\<lparr>st_rx_data_len := ret\<rparr>"
  have idle: "stream_idle ?s1" "stream_idle ?s2" using m(3) by (simp_all add: stream_idle_def stream_inv_def st_queue_def tx_watched_def)
  have inv: "master_inv (m\<lparr>mt_stream := ?s1\<rparr>)" "master_inv (m\<lparr>mt_stream := ?s2\<rparr>)"
    "mt_tcp_state (m\<lparr>mt_stream := ?s1\<rparr>) = ModbusTCPMasterState_Connected"
    "mt_tcp_state (m\<lparr>mt_stream := ?s2\<rparr>) = ModbusTCPMasterState_Connected"
    using m(1,2) idle l by (simp_all add: master_inv_def)
  define st evt where "st = (if ret > 0 then ?s2 else ?s1)"
    and "evt = (if ret > 0 then stream_event_rx else if ret = 0 then stream_event_eof else stream_event_err)"
  have "\<exists>m'. modbus_tcp_master_stream_callback cb block out (st_attach st m) evt = Some (st_attach (mt_stream m') m') \<and> master_inv m'"
  proof (cases "ret > 0")
    case True
    then have "st_rx_data_len (mt_stream (m\<lparr>mt_stream := ?s2\<rparr>)) = int (length bytes)" using ret by simp
    from feed_inv [OF inv(2,4) l(1) this, of block out, folded callback_attach] True show ?thesis by (simp add: st_def evt_def)
  next
    case False
    have "evt = stream_event_eof \<or> evt = stream_event_err" using False by (simp add: evt_def)
    from reconnect_event_inv [OF inv(1,3) b this, of out, folded callback_attach] False show ?thesis by (simp add: st_def)
  qed
  moreover have "modbus_tcp_master_stream_event cb watcher_event_rx r k block out m
      = map_option master_of_stream (modbus_tcp_master_stream_callback cb block out (st_attach st m) evt)"
    using copy rb by (simp add: modbus_tcp_master_stream_event_def stream_watcher_callback_def st_attach_def st_def evt_def)
  ultimately show ?thesis by (auto simp: master_of_stream_def)
qed

lemma stream_event_inv:
  assumes m: "master_inv m" and b: "block_ok block" and r: "length (snd (sys_read_ret r)) \<le> 128"
    and en: "let w = st_watcher (mt_stream m) in case evt of watcher_event_rx \<Rightarrow> io_active (w_rx_io w)
      | watcher_event_tx \<Rightarrow> io_active (w_tx_io w) | watcher_event_error \<Rightarrow> io_active (w_er_io w)"
  shows "\<exists>m'. modbus_tcp_master_stream_event cb evt r k block out m = Some m' \<and> master_inv m'"
proof -
  have c: "mt_tcp_state m = ModbusTCPMasterState_Connected" "stream_idle (mt_stream m)"
    using m en by (auto simp: master_inv_def stream_active_def Let_def split: watcher_event.splits modbus_tcp_master_state.splits)
  show ?thesis
  proof (cases evt)
    case watcher_event_tx
    then have "tx_watched (mt_stream m)" using en c(2)
      by (auto simp: stream_idle_def stream_inv_def watcher_inv_def tx_watched_def w_switches_def Let_def)
    then show ?thesis using c(2) by (simp add: stream_idle_def)
  next
    case watcher_event_error
    then show ?thesis using reconnect_event_inv [OF m c(1) b, of stream_event_err out]
      by (auto simp: modbus_tcp_master_stream_event_def stream_watcher_callback_def master_of_stream_def)
  next
    case watcher_event_rx
    then show ?thesis using rx_event_inv [OF m c b r] by simp
  qed
qed

end

section \<open>Runs of the task\<close>

text \<open>The poll timer runs once and is started again at each poll.\<close>

definition demo_inv :: "'u master_demo \<Rightarrow> bool" where
  "demo_inv d \<longleftrightarrow> master_inv (md_tcp_master d) \<and> task_timer_active (md_req_timer d) \<and> tmr_after (md_req_timer d) = 1"

text \<open>The memory of a master before it is initialised: of the right size, with nothing active and nothing owned.\<close>

definition master_static :: "'u tcp_master \<Rightarrow> bool" where
  "master_static m \<longleftrightarrow> attempt_idle (ac_tcp_connector (mt_tcp_connector m))
     \<and> fds_balanced ((ac_tcp_connector (mt_tcp_connector m))\<lparr>tc_sd := -1\<rparr>) \<and> \<not> stream_active (mt_stream m)
     \<and> length (mm_tx_buf (mt_ctx m)) = 512 \<and> length (st_rx_buf (mt_stream m)) = 128
     \<and> length (mbap_frame (mt_mbap_reader m)) = 260"

lemma master_start_inv:
  assumes m: "master_static m" and b: "block_ok block"
  shows "\<exists>m'. modbus_tcp_master_start block out (modbus_tcp_master_init m addr) = Some m' \<and> master_inv m'"
proof -
  let ?i = "(modbus_tcp_master_init m addr)\<lparr>mt_tcp_state := ModbusTCPMasterState_Connecting\<rparr>"
  let ?a = "ac_attach (mt_tcp_connector ?i) ?i"
  let ?n = "?a\<lparr>ac_tcp_connector := (ac_tcp_connector ?a)\<lparr>tc_sd := -1\<rparr>\<rparr>"
  have n: "auto_between ?n" "ac_env ?n = ?i"
    using auto_init_between [of "mt_tcp_connector m" addr MODBUS_TCP_MASTER_CONNECT_TIMEOUT MODBUS_TCP_MASTER_PROBATION_TIMEOUT] m
    by (simp_all add: master_static_def modbus_tcp_master_init_def Let_def tcp_auto_connector_init_def ac_attach_def auto_between_def)
  have "master_sizes ?i" "mt_tcp_state ?i = ModbusTCPMasterState_Connecting" "\<not> stream_active (mt_stream ?i)"
    using m by (simp_all add: master_static_def modbus_tcp_master_init_def Let_def master_sizes_def mb_master_ctx_init_def)
  note i = this
  obtain a where a: "tcp_auto_connector_connect (modbus_tcp_master_tcp_connector_callback block) out ?n = Some a"
      "auto_told (master_joined block) ?i a"
    using joining.connect_told [OF n(1), of block out] unfolding n(2) by blast
  have "master_inv (master_of_connector a)" by (rule told_inv [OF a(2) b i])
  moreover have "modbus_tcp_master_start block out (modbus_tcp_master_init m addr) = Some (master_of_connector a)"
    using a(1) connect_forgets_sd [of _ out "-1" ?a]
    by (simp add: modbus_tcp_master_start_def modbus_tcp_master_connect_def tcp_auto_connector_start_def)
  ultimately show ?thesis by blast
qed

lemma demo_start_inv:
  assumes "master_static (md_tcp_master d)" "block_ok block"
  shows "\<exists>d'. modbus_master_task_start block out d = Some d' \<and> demo_inv d'"
  using master_start_inv [OF assms, of out "''127.0.0.1:12345''"]
  by (auto simp: modbus_master_task_start_def Let_def demo_inv_def restart_replaces task_timer_active_def)

text \<open>The request the timer sends: read 23 coils from address 1000 of slave 2.\<close>

definition poll_pdu :: "u8 list" where
  "poll_pdu = [MB_FUNC_READ_COILS, 3, 232, 0, 23]"

definition poll_ctx :: "mb_master_ctx \<Rightarrow> mb_master_ctx" where
  "poll_ctx ctx = mm_remember ctx MB_FUNC_READ_COILS 2 1000 23"

lemma poll_request:
  assumes "mm_pdu_offset ctx = 7" "length (mm_tx_buf ctx) = 512"
  shows "mb_master_read_coils_req request ctx 2 1000 23 = request (mm_with_pdu (poll_ctx ctx) poll_pdu) 2"
  using fill_spec [of "poll_ctx ctx" MB_FUNC_READ_COILS 1000 23] assms
  by (simp add: mb_master_read_coils_req_def poll_ctx_def poll_pdu_def hi_byte_def lo_byte_def)

lemma req_timer_inv:
  assumes d: "master_inv (md_tcp_master d)" and b: "block_ok block"
  shows "\<exists>d'. req_timer_handler k block out d = Some d' \<and> demo_inv d'"
proof -
  let ?m = "md_tcp_master d"
  have c: "mm_pdu_offset (mt_ctx ?m) = 7" "length (mm_tx_buf (mt_ctx ?m)) = 512" using d by (simp_all add: master_inv_def)
  obtain m' where "modbus_tcp_master_request k block out ?m (mm_with_pdu (poll_ctx (mt_ctx ?m)) poll_pdu) 2 = Some m'" "master_inv m'"
    using request_inv [OF d b, of "poll_ctx (mt_ctx ?m)" poll_pdu k out 2] c by (auto simp: poll_ctx_def poll_pdu_def)
  then show ?thesis
    using poll_request [OF c, of "modbus_tcp_master_request k block out ?m"] by (simp add: req_timer_handler_def Let_def demo_inv_def restart_replaces task_timer_active_def)
qed

lemma connector_event_inv:
  assumes m: "master_inv m" and b: "block_ok block" and en: "auto_enabled (mt_tcp_connector m) ev"
    and ev: "case ev of Ac_start _ \<Rightarrow> False | Ac_stop \<Rightarrow> False | _ \<Rightarrow> True"
  shows "\<exists>m'. modbus_tcp_master_connector_event block m ev = Some m' \<and> master_inv m'"
proof -
  let ?a = "ac_attach (mt_tcp_connector m) m"
  have i: "auto_inv (mt_tcp_connector m)" "auto_sd (mt_tcp_connector m)" using m by (simp_all add: master_inv_def)
  have "ac_state (mt_tcp_connector m) \<noteq> tcp_auto_connector_state_not_started"
    using en ev i(1) by (cases ev) (auto simp: auto_inv_def attempt_idle_def)
  then have c: "mt_tcp_state m = ModbusTCPMasterState_Connecting" "\<not> stream_active (mt_stream m)"
    using m by (auto simp: master_inv_def split: modbus_tcp_master_state.splits)
  have "ev \<noteq> Ac_stop" using ev by auto
  then obtain a where "auto_step (modbus_tcp_master_tcp_connector_callback block) ?a ev = Some a" "auto_told (master_joined block) m a"
    using joining.step_told [of ?a ev block] i en by auto
  then show ?thesis using told_inv [OF _ b master_sizes_of [OF m] c] by (simp add: modbus_tcp_master_connector_event_def)
qed

context master_app
begin

lemma demo_step_inv:
  assumes d: "demo_inv d" and en: "demo_enabled d e" and ok: "demo_event_ok e"
  shows "\<exists>d'. demo_step cb d e = Some d' \<and> demo_inv d'"
proof (cases e)
  case (Req_timer k block out)
  then show ?thesis using req_timer_inv [of "d\<lparr>md_req_timer := task_timer_expire (md_req_timer d)\<rparr>" block k out] d ok
    by (simp add: demo_inv_def)
next
  case (Connector block ev)
  then have "auto_enabled (mt_tcp_connector (md_tcp_master d)) ev" "case ev of Ac_start _ \<Rightarrow> False | Ac_stop \<Rightarrow> False | _ \<Rightarrow> True"
    using en by (cases ev; simp)+
  then show ?thesis using connector_event_inv [of "md_tcp_master d" block ev] d ok Connector by (auto simp: demo_inv_def)
next
  case (Stream_event evt r k block out)
  then show ?thesis using stream_event_inv [of "md_tcp_master d" block r evt k out] d ok en by (auto simp: demo_inv_def)
qed

lemma demo_run_inv:
  assumes "demo_inv d" "\<forall>e \<in> set es. demo_event_ok e"
  shows "\<exists>d'. demo_run cb d es = Some d' \<and> demo_inv d'"
  unfolding demo_run_def by (rule foldo_invariant) (use assms demo_step_inv in auto)

end

section \<open>Properties\<close>

text \<open>What is on the wire of the current connection when a poll goes out.\<close>

lemma poll_sends:
  assumes inv: "demo_inv d" and c: "mt_tcp_state (md_tcp_master d) = ModbusTCPMasterState_Connected" and n: "12 \<le> n"
  shows "\<exists>d'. demo_step cb d (Req_timer (Room n) block out) = Some d' \<and> task_timer_active (md_req_timer d')
    \<and> st_wire (mt_stream (md_tcp_master d')) = st_wire (mt_stream (md_tcp_master d))
      @ [hi_byte (mt_tid (md_tcp_master d)), lo_byte (mt_tid (md_tcp_master d)), 0, 0, 0, 6, 2, 1, 3, 232, 0, 23]
    \<and> mt_tid (md_tcp_master d') = mt_tid (md_tcp_master d) + 1 \<and> mt_tcp_state (md_tcp_master d') = ModbusTCPMasterState_Connected"
proof -
  let ?m = "md_tcp_master d"
  have m: "mm_pdu_offset (mt_ctx ?m) = 7" "length (mm_tx_buf (mt_ctx ?m)) = 512" "mt_pid ?m = 0" "stream_idle (mt_stream ?m)"
    using inv c by (simp_all add: demo_inv_def master_inv_def)
  have ready: "master_ready ?m" using m c by (simp add: master_ready_def stream_idle_def MODBUS_MASTER_MAX_BUFFER_SIZE_def)
  have w: "pdu_wire (request_frame ?m 2 poll_pdu) = [hi_byte (mt_tid ?m), lo_byte (mt_tid ?m), 0, 0, 0, 6, 2, 1, 3, 232, 0, 23]"
    using m(3) by (simp add: pdu_wire_def request_frame_def pdu_len_def mbap_header_bytes_def poll_pdu_def MB_FUNC_READ_COILS_def
        hi_byte_def lo_byte_def)
  have "pdu_ok (request_frame ?m 2 poll_pdu)" "length poll_pdu + 7 \<le> n" using n by (simp_all add: pdu_ok_def request_frame_def poll_pdu_def)
  from tcp_master_sends [OF ready _ _ this, of "poll_ctx (mt_ctx ?m)" block out] show ?thesis
    using m poll_request [OF m(1,2), of "modbus_tcp_master_request (Room n) block out ?m"] c
    by (simp add: poll_ctx_def req_timer_handler_def Let_def w restart_replaces task_timer_active_def)
qed

lemma demo_inv_trying:
  assumes "demo_inv d" "mt_tcp_state (md_tcp_master d) \<noteq> ModbusTCPMasterState_Connected"
  shows "task_timer_active (tc_tmr (ac_tcp_connector (mt_tcp_connector (md_tcp_master d))))
    \<or> task_timer_active (ac_reconn_wait_tmr (mt_tcp_connector (md_tcp_master d)))"
  using assms by (auto simp: demo_inv_def master_inv_def auto_inv_def attempt_running_def
      split: modbus_tcp_master_state.splits tcp_auto_connector_state.splits)

text \<open>A task whose memory is zero, as that of a static variable is.\<close>

definition zero_master_demo :: "master_event list master_demo" where
  "zero_master_demo = \<lparr>md_tcp_master = demo_master\<lparr>mt_tcp_state := ModbusTCPMasterState_Not_Connected,
       mt_stream := blank_stream\<lparr>st_watcher := watcher_init_with_fd 0, st_rx_buf := replicate 128 0\<rparr>,
       mt_tcp_connector := (mt_tcp_connector demo_master)\<lparr>ac_tcp_connector :=
         (ac_tcp_connector (mt_tcp_connector demo_master))\<lparr>tc_sd := 0\<rparr>\<rparr>\<rparr>,
     md_req_timer = task_timer_init\<rparr>"

lemma zero_master_static: "master_static (md_tcp_master zero_master_demo)"
  using blank_conn_inv(3)
  by (simp add: master_static_def zero_master_demo_def demo_master_def fresh_master_def MODBUS_MASTER_MAX_BUFFER_SIZE_def attempt_idle_def
      tc_watching_def fds_balanced_def stream_active_def watcher_init_with_fd_def ev_io_init_def timer_simps mbap_fresh_def)


text \<open>
  The first attempt is refused; the second is in progress when a poll comes, and succeeds; the next poll is sent, the one
  after it finds the kernel's buffers full, and the master connects anew.
\<close>

definition some_block :: "u8 list option" where "some_block = Some (replicate 512 0)"

definition poll_events :: "demo_event list" where
  "poll_events =
     (let refused = \<lparr>co_socket = 5, co_connect = Conn_error\<rparr>; started = \<lparr>co_socket = 6, co_connect = Conn_EINPROGRESS\<rparr> in
     [Connector some_block (Ac_reconnect started), Req_timer Block some_block refused, Connector some_block (Ac_writable 0 refused),
      Req_timer (Room 100) some_block refused, Req_timer (Room 4) some_block started])"


end
