(* ===== verification/Modbus_Slave_Demo.thy ===== *)
theory Modbus_Slave_Demo
  imports Serial Modbus_Rtu_Slave Modbus_Master_Demo
begin

text \<open>
  \<open>src/demo/modbus_slave_test.c\<close>: a task with a slave on a serial port and one that listens for TCP connections. Its four
  callbacks, \<open>demo_callbacks\<close>, are in \<open>Modbus_Funcs\<close>. The last section puts it together with the master's task.
\<close>

section \<open>The start of the task\<close>

record 'd slave_demo =
  sd_rtu_slave :: "'d rtu_stream"
  sd_tcp_slave :: "'d tcp_slave_world"

definition rtu_port :: SerialConfig where
  "rtu_port = \<lparr>sc_baud = B9600, sc_data_bit = 8, sc_stop_bit = 1, sc_parity = SerialParity_None\<rparr>"

text \<open>
  \<open>dev\<close> and \<open>tty\<close> are what \<open>open\<close> and \<open>tcgetattr\<close> answer for the serial device, \<open>out\<close> what the socket calls do. The first
  result is what the driver is told.
\<close>

definition modbus_task_start ::
    "int \<Rightarrow> termios \<Rightarrow> u8 list option \<Rightarrow> u8 list \<Rightarrow> listen_outcome \<Rightarrow> 'd slave_demo \<Rightarrow> (termios option \<times> 'd slave_demo) option" where
  "modbus_task_start dev tty block bounce out d = do {
     let (fd, attributes) = serial_init dev tty rtu_port;
     d \<leftarrow> (if fd > 0 then do {
         rtu \<leftarrow> modbus_rtu_slave_init block bounce (sd_rtu_slave d) 1 fd;
         Some (d\<lparr>sd_rtu_slave := modbus_rtu_slave_start rtu\<rparr>) }
       else Some d);
     tcp \<leftarrow> modbus_tcp_slave_init out (sd_tcp_slave d) 2 12345;
     Some (attributes, d\<lparr>sd_tcp_slave := modbus_tcp_slave_start tcp\<rparr>) }"

lemma rtu_slave_starts:
  assumes "length mem = 768" "length bounce = 128" "length (rs_data_buffer (st_env st)) = 256"
  shows "\<exists>st'. modbus_rtu_slave_init (Some mem) bounce st addr fd = Some st' \<and> rtu_ready (modbus_rtu_slave_start st')
    \<and> collected (modbus_rtu_slave_start st') = [] \<and> st_queue (modbus_rtu_slave_start st') = []
    \<and> rs_my_address (st_env (modbus_rtu_slave_start st')) = addr"
proof -
  obtain s where s: "stream_init_with_fd (Some mem) st fd bounce 128 768 = Some s" "stream_inv s" "st_queue s = []"
      "st_rx_buf s = bounce" "st_env s = st_env st"
    using stream_init_spec [of mem st fd bounce 128] stream_init_total [of "Some mem" st fd bounce 128 768] assms(1) by auto
  have "watcher_inv (watcher_start (st_watcher s))"
    using watcher_start_spec [of "st_watcher s"] s(2) by (simp add: stream_inv_def)
  then show ?thesis using s assms(2,3)
    by (simp add: modbus_rtu_slave_init_def mb_ser_defs modbus_rtu_slave_start_def stream_start_def rtu_ready_def rtu_inv_def collected_def
        stream_inv_def st_queue_def upd_slave_def mb_rtu_enable_rx_def mb_rtu_reset_data_buffer_def init_modbus_context_def Let_def)
qed

lemma tcp_slave_starts:
  "\<exists>w'. modbus_tcp_slave_init out w addr port = Some w' \<and> ts_my_address (tw_slave w') = addr \<and> tw_connections w' = []
    \<and> (0 \<le> out_socket out \<and> out_bind out = 0 \<and> out_listen out = 0 \<longrightarrow>
        srv_sd (tw_server w') = out_socket out \<and> io_active (w_rx_io (srv_watcher (tw_server (modbus_tcp_slave_start w')))))"
proof -
  let ?s = "(tw_server w)\<lparr>srv_server_type := tcp_server_type_ipv4, srv_addr := Ipv4_addr port, srv_sd := -1\<rparr>"
  obtain v where v: "tcp_server_init ?s (out_socket out) = Some (?s\<lparr>srv_sd := out_socket out, srv_is_listening := False, srv_watcher := v\<rparr>)"
      "watcher_inv v" "sw_rx (w_switches v)" using tcp_server_init_spec [of ?s "out_socket out"] by blast
  have "io_active (w_rx_io (watcher_start v))"
    using watcher_start_spec [OF v(2)] v(3) by (auto simp: watcher_inv_def w_switches_def)
  then show ?thesis using v(1)
    by (simp add: modbus_tcp_slave_init_def modbus_tcp_slave_start_def tcp_server_ipv4_init_def init_tcp_server_ipv4_def tcp_server_start_def Let_def)
qed

text \<open>Both slaves are ready: the serial one if its port could be opened, the TCP one if the socket listens.\<close>

theorem slave_demo_starts:
  assumes "length mem = 768" "length bounce = 128" "length (rs_data_buffer (st_env (sd_rtu_slave d))) = 256"
  shows "\<exists>tty' d'. modbus_task_start dev tty (Some mem) bounce out d = Some (tty', d')
    \<and> (0 < dev \<longrightarrow> rtu_ready (sd_rtu_slave d') \<and> collected (sd_rtu_slave d') = [] \<and> rs_my_address (st_env (sd_rtu_slave d')) = 1
         \<and> (\<exists>t. tty' = Some t \<and> char_bits t = 8 \<and> (\<forall>b. received t b = b)))
    \<and> (0 \<le> out_socket out \<and> out_bind out = 0 \<and> out_listen out = 0 \<longrightarrow>
         srv_sd (tw_server (sd_tcp_slave d')) = out_socket out \<and> io_active (w_rx_io (srv_watcher (tw_server (sd_tcp_slave d')))))
    \<and> ts_my_address (tw_slave (sd_tcp_slave d')) = 2 \<and> tw_connections (sd_tcp_slave d') = []"
proof -
  obtain w where w: "modbus_tcp_slave_init out (sd_tcp_slave d) 2 12345 = Some w" "ts_my_address (tw_slave w) = 2" "tw_connections w = []"
      "0 \<le> out_socket out \<and> out_bind out = 0 \<and> out_listen out = 0 \<longrightarrow>
        srv_sd (tw_server w) = out_socket out \<and> io_active (w_rx_io (srv_watcher (tw_server (modbus_tcp_slave_start w))))"
    using tcp_slave_starts [of out "sd_tcp_slave d" 2 12345] by blast
  have started: "tw_slave (modbus_tcp_slave_start w) = tw_slave w" "tw_connections (modbus_tcp_slave_start w) = tw_connections w"
      "srv_sd (tw_server (modbus_tcp_slave_start w)) = srv_sd (tw_server w)"
    by (simp_all add: modbus_tcp_slave_start_def tcp_server_start_def)
  have port: "check_serial_config rtu_port" "sc_data_bit rtu_port = 8" "sc_parity rtu_port = SerialParity_None"
    by (simp_all add: rtu_port_def check_serial_config_def)
  show ?thesis
  proof (cases "0 < dev")
    case True
    obtain t where t: "serial_init dev tty rtu_port = (dev, Some t)" "char_bits t = 8" "\<forall>b. received t b = b"
      using serial_plain_port [OF port, of dev tty] True by auto
    obtain r where r: "modbus_rtu_slave_init (Some mem) bounce (sd_rtu_slave d) 1 dev = Some r" "rtu_ready (modbus_rtu_slave_start r)"
        "collected (modbus_rtu_slave_start r) = []" "rs_my_address (st_env (modbus_rtu_slave_start r)) = 1"
      using rtu_slave_starts [OF assms, of 1 dev] by blast
    show ?thesis using t r w started True by (simp add: modbus_task_start_def)
  next
    case False
    have "\<not> 0 < fst (serial_init dev tty rtu_port)" using False by (simp add: serial_init_def)
    then show ?thesis using False w started by (cases "serial_init dev tty rtu_port") (simp add: modbus_task_start_def)
  qed
qed

section \<open>The master's task and the slave's\<close>

text \<open>The slave answers the master's poll with its own bytes: the callback writes nothing, and the reply is built in place.\<close>

lemma poll_fields:
  "mem_load (poll_pdu @ rest) 0 = Some MB_FUNC_READ_COILS" "rd16 (poll_pdu @ rest) 1 = Some 1000" "rd16 (poll_pdu @ rest) 3 = Some 23"
proof -
  have "be16 3 232 = 1000" "be16 0 23 = 23" by (simp_all add: be16_def)
  then show "mem_load (poll_pdu @ rest) 0 = Some MB_FUNC_READ_COILS" "rd16 (poll_pdu @ rest) 1 = Some 1000" "rd16 (poll_pdu @ rest) 3 = Some 23"
    using rd16_in [of 1 "poll_pdu @ rest"] rd16_in [of 3 "poll_pdu @ rest"] by (simp_all add: poll_pdu_def)
qed

lemma poll_bytes: "bit_bytes 23 = 3"
  by (simp add: bit_bytes_def)

lemma serve_poll:
  "modbus_rtu_handler_request_rx demo_callbacks 2 5 (poll_pdu @ rest) u = Some (poll_pdu @ rest, 5, u, True)"
proof -
  have "modbus_func_handler_read_coils demo_callbacks 2 (poll_pdu @ rest) 5 u = Some (poll_pdu @ rest, 5, u, MB_EX_NONE)"
    using poll_fields [of rest] poll_bytes by (simp add: modbus_func_handler_read_coils_def)
      (simp add: read_reply_def at_offset_def demo_callbacks_def demo_coil_cb_def poll_pdu_def mem_store_def)
  then show ?thesis using poll_fields [of rest] by (simp add: modbus_rtu_handler_request_rx_def modbus_func_dispatch_def mb_func_defs)
qed

lemma accept_poll:
  assumes "mm_req_func ctx = MB_FUNC_READ_COILS" "mm_req_reg_addr ctx = 1000" "mm_req_nb ctx = 23"
  shows "modbus_rtu_handler_response_rx cb ctx 2 (poll_pdu @ rest) 5 u
    = cb (Ev_coil 2 1000 23 (Some ([232, 0, 23] @ rest)) MB_REG_READ) u"
  using assms by (simp add: modbus_rtu_handler_response_rx_def modbus_rtu_validate_response_def poll_pdu_def mb_func_defs mem_load_def)

text \<open>The poll as the master leaves it.\<close>

lemma poll_step:
  assumes inv: "demo_inv d" and c: "mt_tcp_state (md_tcp_master d) = ModbusTCPMasterState_Connected" and n: "12 \<le> n"
  shows "\<exists>d'. demo_step cb d (Req_timer (Room n) block out) = Some d'
    \<and> st_wire (mt_stream (md_tcp_master d')) = st_wire (mt_stream (md_tcp_master d)) @ pdu_wire (request_frame (md_tcp_master d) 2 poll_pdu)
    \<and> mt_tid (md_tcp_master d') = mt_tid (md_tcp_master d) + 1 \<and> mt_pid (md_tcp_master d') = mt_pid (md_tcp_master d)
    \<and> mt_app (md_tcp_master d') = mt_app (md_tcp_master d) \<and> mt_mbap_reader (md_tcp_master d') = mt_mbap_reader (md_tcp_master d)
    \<and> mm_req_func (mt_ctx (md_tcp_master d')) = MB_FUNC_READ_COILS
    \<and> mm_req_reg_addr (mt_ctx (md_tcp_master d')) = 1000 \<and> mm_req_nb (mt_ctx (md_tcp_master d')) = 23"
proof -
  let ?m = "md_tcp_master d"
  have m: "mm_pdu_offset (mt_ctx ?m) = 7" "length (mm_tx_buf (mt_ctx ?m)) = 512" "stream_idle (mt_stream ?m)"
    using inv c by (simp_all add: demo_inv_def master_inv_def)
  have ready: "master_ready ?m" using m c by (simp add: master_ready_def stream_idle_def MODBUS_MASTER_MAX_BUFFER_SIZE_def)
  have "pdu_ok (request_frame ?m 2 poll_pdu)" "length poll_pdu + 7 \<le> n" using n by (simp_all add: pdu_ok_def request_frame_def poll_pdu_def)
  from tcp_master_sends [OF ready _ _ this, of "poll_ctx (mt_ctx ?m)" block out] show ?thesis
    using m poll_request [OF m(1,2), of "modbus_tcp_master_request (Room n) block out ?m"]
    by (simp add: poll_ctx_def req_timer_handler_def Let_def)
qed

text \<open>
  C34: The two demonstrations work together, in a way, when the master is connected, the slave has the address 2 and
  nothing queued, and the kernels take the twelve bytes at once. A poll of the master goes out as one frame; whatever
  the network's chunks, the demonstration's slave answers it with a frame of the very same bytes, since its callback
  reports success without writing a coil and the reply is built in place; whatever its chunks, the master takes this for
  the answer to its poll and hands the application 23 coils that are bytes of the request, unless the poll's transaction
  number was 65535: then it drops the reply.
\<close>

theorem demo_poll_is_echoed:
  assumes d: "demo_inv d" "mt_tcp_state (md_tcp_master d) = ModbusTCPMasterState_Connected"
      "mbap_fresh (mt_mbap_reader (md_tcp_master d))" and room: "12 \<le> n" "12 \<le> k"
    and sl: "mbap_fresh sr" "stream_inv (mbap_env sr)" "st_queue (mbap_env sr) = []" "ts_my_address (tc_slave (st_env (mbap_env sr))) = 2"
  shows "\<exists>d' req. demo_step cb d (Req_timer (Room n) block out) = Some d'
    \<and> st_wire (mt_stream (md_tcp_master d')) = st_wire (mt_stream (md_tcp_master d)) @ req \<and> length req = 12
    \<and> (\<forall>chunks. concat chunks = req \<longrightarrow> (\<exists>sr'.
        foldo (\<lambda>r c. mbap_reader_feed (modbus_tcp_slave_got_frame demo_callbacks (\<lambda>_. Room k)) r c (int (length c))) sr chunks = Some sr'
        \<and> mbap_fresh sr' \<and> st_wire (mbap_env sr') @ st_queue (mbap_env sr') = st_wire (mbap_env sr) @ req))
    \<and> (\<forall>chunks. concat chunks = req \<longrightarrow> (\<exists>r' tail.
        foldo (\<lambda>r c. mbap_reader_feed (modbus_tcp_master_got_frame record_event) r c (int (length c)))
          (mb_attach (mt_mbap_reader (md_tcp_master d')) (md_tcp_master d')) chunks = Some r'
        \<and> mbap_fresh r' \<and> mt_app (mbap_env r') = mt_app (md_tcp_master d)
            @ (if mt_tid (md_tcp_master d) = 65535 then [] else [Ev_coil 2 1000 23 (Some ([232, 0, 23] @ tail)) MB_REG_READ])))"
proof -
  let ?m = "md_tcp_master d"
  let ?f = "request_frame ?m 2 poll_pdu"
  obtain d' where d': "demo_step cb d (Req_timer (Room n) block out) = Some d'"
      "st_wire (mt_stream (md_tcp_master d')) = st_wire (mt_stream ?m) @ pdu_wire ?f"
      "mt_tid (md_tcp_master d') = mt_tid ?m + 1" "mt_pid (md_tcp_master d') = mt_pid ?m"
      "mt_app (md_tcp_master d') = mt_app ?m" "mt_mbap_reader (md_tcp_master d') = mt_mbap_reader ?m"
      "mm_req_func (mt_ctx (md_tcp_master d')) = MB_FUNC_READ_COILS"
      "mm_req_reg_addr (mt_ctx (md_tcp_master d')) = 1000" "mm_req_nb (mt_ctx (md_tcp_master d')) = 23"
    using poll_step [OF d(1,2) room(1), of cb block out] by (elim exE conjE) (rule that)
  have f: "pdu_ok ?f" "pdu_uid ?f = 2" "pdu_bytes ?f = poll_pdu" "pdu_tid ?f = mt_tid ?m" "pdu_pid ?f = mt_pid ?m"
      "?f\<lparr>pdu_bytes := poll_pdu\<rparr> = ?f" "length poll_pdu = 5"
    by (simp_all add: pdu_ok_def request_frame_def poll_pdu_def)
  have w: "length (pdu_wire ?f) = 12" unfolding pdu_wire_def f(3) by (simp add: mbap_header_bytes_def f(7))
  have "take (unat (5 :: u16)) (poll_pdu @ rest) = poll_pdu" for rest using f(7) by simp
  then have served: "\<exists>sr'. foldo (\<lambda>r c. mbap_reader_feed (modbus_tcp_slave_got_frame demo_callbacks (\<lambda>_. Room k)) r c (int (length c))) sr chunks = Some sr'
        \<and> mbap_fresh sr' \<and> st_wire (mbap_env sr') @ st_queue (mbap_env sr') = st_wire (mbap_env sr) @ pdu_wire ?f"
    if "concat chunks = pdu_wire ?f" for chunks
    using tcp_slave_replies [OF demo_device.modbus_device_axioms sl(1-3) f(1), where p = "poll_pdu @ drop 12 (mbap_frame sr)"
        and l = 5 and reply = poll_pdu and n = k and ok = True and d = "ts_dev (tc_slave (st_env (mbap_env sr)))", OF _ _ _ _ _ that] sl(4)
      serve_poll [of "drop 12 (mbap_frame sr)" "ts_dev (tc_slave (st_env (mbap_env sr)))"]
    room(2) unfolding f(2,3,6,7) by (auto simp: MB_ADDRESS_BROADCAST_def)
  have taken: "\<exists>r' tail. foldo (\<lambda>r c. mbap_reader_feed (modbus_tcp_master_got_frame record_event) r c (int (length c)))
          (mb_attach (mt_mbap_reader (md_tcp_master d')) (md_tcp_master d')) chunks = Some r'
        \<and> mbap_fresh r' \<and> mt_app (mbap_env r') = mt_app ?m
            @ (if mt_tid ?m = 65535 then [] else [Ev_coil 2 1000 23 (Some ([232, 0, 23] @ tail)) MB_REG_READ])"
    if chunks: "concat chunks = pdu_wire ?f" for chunks
  proof -
    let ?r = "mb_attach (mt_mbap_reader (md_tcp_master d')) (md_tcp_master d')"
    have r: "mbap_fresh ?r" "mbap_env ?r = md_tcp_master d'" using d(3) d'(6) by simp_all
    have "modbus_rtu_handler_response_rx record_event (mt_ctx (md_tcp_master d')) (pdu_uid ?f)
        (pdu_bytes ?f @ drop (7 + length (pdu_bytes ?f)) (mbap_frame ?r)) (int (length (pdu_bytes ?f))) (mt_app (md_tcp_master d'))
        = Some (mt_app ?m @ [Ev_coil 2 1000 23 (Some ([232, 0, 23] @ drop 12 (mbap_frame ?r))) MB_REG_READ])"
      using accept_poll [OF d'(7-9), of record_event "drop 12 (mbap_frame ?r)" "mt_app ?m"]
      unfolding f(2,3) d'(5) by (simp add: poll_pdu_def record_event_def)
    from tcp_master_takes_reply [OF r f(1) chunks this] d'(3-5) f(4,5) show ?thesis by auto
  qed
  show ?thesis using d'(1,2) w served taken by (intro exI [of _ d'] exI [of _ "pdu_wire ?f"]) simp
qed

text \<open>A connected master, and the slave's side of the connection.\<close>

definition connected_demo :: "master_event list master_demo" where
  "connected_demo = \<lparr>md_tcp_master = demo_master\<lparr>mt_tid := 7, mt_stream := (mt_stream demo_master)\<lparr>st_rx_buf := replicate 128 0\<rparr>\<rparr>,
     md_req_timer = task_timer_restart task_timer_init 1 0\<rparr>"

definition slave_side :: "unit conn_stream mbap_reader" where
  "slave_side = mbap_attach blank_mbap (upd_conn (\<lambda>c. c\<lparr>tc_slave := (tc_slave c)\<lparr>ts_my_address := 2\<rparr>\<rparr>) blank_conn)"

lemma blank_queue: "st_queue blank_conn = []" "cb_cap (st_tx_buf blank_conn) = 512"
  using circ_buffer_init_spec [of "replicate 512 0" 512] by (auto simp: st_queue_def blank_conn_def)

lemma connected_demo_ok:
  "demo_inv connected_demo" "mt_tcp_state (md_tcp_master connected_demo) = ModbusTCPMasterState_Connected"
  "mbap_fresh (mt_mbap_reader (md_tcp_master connected_demo))"
proof -
  have "stream_idle (st_attach blank_conn ())"
    using blank_conn_inv(2) blank_queue watcher_init_spec [of 9] by (simp add: stream_idle_def tx_watched_def) (simp add: st_attach_def blank_conn_def)
  then have "stream_idle ((st_attach blank_conn ())\<lparr>st_rx_buf := r\<rparr>)" for r
    by (simp add: stream_idle_def stream_inv_def st_queue_def tx_watched_def)
  then show "demo_inv connected_demo"
    using blank_conn_inv(3) mbap_fresh_inv [OF blank_conn_inv(3)]
    by (simp add: demo_inv_def master_inv_def connected_demo_def demo_master_def fresh_master_def MODBUS_MASTER_MAX_BUFFER_SIZE_def auto_inv_def
      auto_sd_def attempt_idle_def tc_watching_def fds_balanced_def watcher_init_with_fd_def ev_io_init_def timer_simps mbap_fresh_def)
  show "mt_tcp_state (md_tcp_master connected_demo) = ModbusTCPMasterState_Connected"
    "mbap_fresh (mt_mbap_reader (md_tcp_master connected_demo))"
    using blank_conn_inv(3) by (simp_all add: connected_demo_def demo_master_def)
qed

lemma slave_side_ok:
  "mbap_fresh slave_side" "stream_inv (mbap_env slave_side)" "st_queue (mbap_env slave_side) = []"
  "ts_my_address (tc_slave (st_env (mbap_env slave_side))) = 2"
  using blank_conn_inv blank_queue by (simp_all add: slave_side_def)

theorem demo_poll_is_echoed_witness:
  "\<exists>d' req. demo_step record_event connected_demo (Req_timer (Room 12) None \<lparr>co_socket = -1, co_connect = Conn_error\<rparr>) = Some d'
    \<and> st_wire (mt_stream (md_tcp_master d')) = st_wire (mt_stream (md_tcp_master connected_demo)) @ req \<and> length req = 12
    \<and> (\<exists>sr'. foldo (\<lambda>r c. mbap_reader_feed (modbus_tcp_slave_got_frame demo_callbacks (\<lambda>_. Room 12)) r c (int (length c)))
        slave_side [take 3 req, drop 3 req] = Some sr'
      \<and> st_wire (mbap_env sr') @ st_queue (mbap_env sr') = st_wire (mbap_env slave_side) @ req)"
proof -
  obtain d' req where "demo_step record_event connected_demo (Req_timer (Room 12) None \<lparr>co_socket = -1, co_connect = Conn_error\<rparr>) = Some d'"
      "st_wire (mt_stream (md_tcp_master d')) = st_wire (mt_stream (md_tcp_master connected_demo)) @ req" "length req = 12"
      "\<forall>chunks. concat chunks = req \<longrightarrow> (\<exists>sr'.
        foldo (\<lambda>r c. mbap_reader_feed (modbus_tcp_slave_got_frame demo_callbacks (\<lambda>_. Room 12)) r c (int (length c))) slave_side chunks = Some sr'
        \<and> mbap_fresh sr' \<and> st_wire (mbap_env sr') @ st_queue (mbap_env sr') = st_wire (mbap_env slave_side) @ req)"
    using demo_poll_is_echoed [OF connected_demo_ok le_refl le_refl slave_side_ok, of record_event None "\<lparr>co_socket = -1, co_connect = Conn_error\<rparr>"]
    by (elim exE conjE) (rule that)
  moreover have "concat [take 3 req, drop 3 req] = req" by simp
  ultimately show ?thesis by blast
qed

end
