(* ===== verification/Demo_Main.thy ===== *)
theory Demo_Main
  imports Task_Start Trace Cli_Serial
begin

text \<open>
  \<open>src/demo/demo.c\<close>, the program the Makefile builds, with the task of \<open>src/demo/cli_test.c\<close>; and two small files that mostly
  call the system, \<open>src/utils/cmd_line_opt.c\<close> and \<open>src/net/sock_util.c\<close>, with the calls they make as their result.
\<close>

section \<open>The program\<close>

text \<open>The trace components switched on: all of \<open>trace.h\<close> but \<open>STREAM\<close>, which is 5.\<close>

definition demo_trace_init :: "u32 list" where
  "demo_trace_init = [0, 1, 2, 3, 4, 6, 7, 8, 9, 10, 11, 12, 13, 14]"

text \<open>The command line's task offers no commands of its own.\<close>

definition cli_task_start where
  "cli_task_start out block fd g = cli_init out block fd [] 0 g"

text \<open>The loops and threads the system gives, by task: the log, the command line, the two Modbus tasks.\<close>

record demo_answers =
  da_log :: "ptr \<times> nat option"
  da_cli :: "ptr \<times> nat option"
  da_slave :: "ptr \<times> nat option"
  da_master :: "ptr \<times> nat option"
  da_default_loop :: ptr

text \<open>\<open>x_task_init\<close> and \<open>x_task_run\<close> of the three demonstrations.\<close>

definition init_and_run :: "ptr \<times> nat option \<Rightarrow> ptr \<Rightarrow> 'm task_world \<Rightarrow> 'm task_world option" where
  "init_and_run a task w = do { (w, _) \<leftarrow> task_init None (fst a) task w; Some (task_run (snd a) task w) }"

definition demo_main ::
    "demo_answers \<Rightarrow> nat \<Rightarrow> ptr \<times> ptr \<times> ptr \<times> ptr \<times> ptr \<Rightarrow> ptr list \<Rightarrow> 'm task_world \<times> item_pool \<times> trace_mask
      \<Rightarrow> ('m task_world \<times> item_pool \<times> trace_mask) option" where
  "demo_main a self tasks buffers s = (case tasks of (log_task, cli_task, mb_task, mb_master_task, idle_task) \<Rightarrow> do {
     let (w, pool, msk) = s;
     (w, pool) \<leftarrow> kongja_express_init (fst (da_log a)) (snd (da_log a)) log_task buffers (w, pool);
     msk \<leftarrow> trace_init msk demo_trace_init;
     w \<leftarrow> init_and_run (da_cli a) cli_task w;
     w \<leftarrow> init_and_run (da_slave a) mb_task w;
     w \<leftarrow> init_and_run (da_master a) mb_master_task w;
     w \<leftarrow> idle_task_run (da_default_loop a) self idle_task w;
     Some (w, pool, msk) })"

lemma task_started:
  assumes w: "world_ready w ts" and t: "t \<notin> set (wd_head w # ts)" "t \<noteq> NULL" and l: "l \<noteq> NULL" "l \<notin> loops_of w"
    and i: "wd_threads w i = None"
  shows "\<exists>w'. init_and_run (l, Some i) t w = Some w' \<and> world_ready w' (ts @ [t]) \<and> loops_of w' \<subseteq> insert l (loops_of w)
    \<and> wd_threads w' = (wd_threads w)(i \<mapsto> Created t) \<and> wd_head w' = wd_head w"
proof -
  obtain w1 where w1: "task_init None l t w = Some (w1, 0)" "world_ready w1 (ts @ [t])" "loops_of w1 \<subseteq> insert l (loops_of w)"
      "wd_threads w1 = wd_threads w" "wd_head w1 = wd_head w"
    using ready_init [OF w t l] by blast
  have "initialised w (thread_task pc)" if "wd_threads w j = Some pc" for j pc
    using that life_reachable_inv [of w] w by (auto simp: world_ready_def life_inv_def inv_threads_def)
  then have "\<not> has_thread w1 t" using w t(1) w1(4) by (auto simp: has_thread_def world_ready_def)
  then have "world_ready (task_run (Some i) t w1) (ts @ [t])" by (intro ready_run [OF w1(2)]) (use w1(4) i in simp_all)
  with w1 show ?thesis by (simp add: init_and_run_def)
qed

lemma trace_inits:
  assumes "mask_ok msk" "\<forall>c \<in> set cs. comp_ok c"
  shows "\<exists>msk'. trace_init msk cs = Some msk' \<and> mask_ok msk'
    \<and> (\<forall>c. comp_ok c \<longrightarrow> switched_on msk' c = (c \<in> set cs \<or> switched_on msk c))"
  using assms
proof (induction cs arbitrary: msk)
  case (Cons c cs)
  obtain m1 where m1: "trace_on msk c = Some m1" "mask_ok m1" "\<forall>d. comp_ok d \<longrightarrow> switched_on m1 d = (d = c \<or> switched_on msk d)"
    using trace_on_spec [of msk c] Cons.prems by auto
  then show ?case using Cons.IH [OF m1(2)] Cons.prems(2) by (auto simp: trace_init_def)
qed (simp add: trace_init_def)

text \<open>
  With distinct tasks, loops and threads the program starts without an undefined step: the five tasks are listed in
  the order of their initialisation, four threads are created, the first thread is in the idle task's loop, and every
  trace component but one is on.
\<close>

theorem demo_main_starts:
  assumes w: "world_start (task_framework_init w)" and buffers: "log_init pool buffers = Some pool'" and msk: "mask_ok msk"
    and tasks: "distinct [wd_head w, lg, cl, sl, ms, idle]" "NULL \<notin> set [lg, cl, sl, ms, idle]"
    and loops: "distinct [NULL, l0, l1, l2, l3, l4]" and threads: "distinct [self, i0, i1, i2, i3]"
  shows "\<exists>w' msk'. demo_main \<lparr>da_log = (l0, Some i0), da_cli = (l1, Some i1), da_slave = (l2, Some i2), da_master = (l3, Some i3),
        da_default_loop = l4\<rparr> self (lg, cl, sl, ms, idle) buffers (w, pool, msk) = Some (w', pool', msk')
    \<and> world_ready w' [lg, cl, sl, ms, idle]
    \<and> wd_threads w' = [i0 \<mapsto> Created lg, i1 \<mapsto> Created cl, i2 \<mapsto> Created sl, i3 \<mapsto> Created ms, self \<mapsto> Looping idle]
    \<and> (\<forall>c \<in> set demo_trace_init. trace_is_on msk' c = Some True)"
proof -
  let ?w = "task_framework_init w"
  have w0: "world_ready ?w []" "loops_of ?w = {NULL}" "wd_threads ?w = Map.empty" "wd_head ?w = wd_head w"
    using w life_reachable.start [OF w]
    by (auto simp: world_start_def world_ready_def initialised_def loops_of_def task_blank_def task_framework_init_def)
  obtain w1 where w1: "init_and_run (l0, Some i0) lg ?w = Some w1" "world_ready w1 [lg]"
      "loops_of w1 \<subseteq> {NULL, l0}" "wd_threads w1 = [i0 \<mapsto> Created lg]" "wd_head w1 = wd_head w"
    using task_started [OF w0(1), of lg l0 i0] w0 tasks loops by fastforce
  obtain w2 where w2: "init_and_run (l1, Some i1) cl w1 = Some w2" "world_ready w2 [lg, cl]"
      "loops_of w2 \<subseteq> {NULL, l0, l1}" "wd_threads w2 = [i0 \<mapsto> Created lg, i1 \<mapsto> Created cl]" "wd_head w2 = wd_head w"
    using task_started [OF w1(2), of cl l1 i1] w1 tasks loops threads by fastforce
  obtain w3 where w3: "init_and_run (l2, Some i2) sl w2 = Some w3" "world_ready w3 [lg, cl, sl]"
      "loops_of w3 \<subseteq> {NULL, l0, l1, l2}" "wd_threads w3 = [i0 \<mapsto> Created lg, i1 \<mapsto> Created cl, i2 \<mapsto> Created sl]" "wd_head w3 = wd_head w"
    using task_started [OF w2(2), of sl l2 i2] w2 tasks loops threads by fastforce
  obtain w4 where w4: "init_and_run (l3, Some i3) ms w3 = Some w4" "world_ready w4 [lg, cl, sl, ms]" "loops_of w4 \<subseteq> {NULL, l0, l1, l2, l3}"
      "wd_threads w4 = [i0 \<mapsto> Created lg, i1 \<mapsto> Created cl, i2 \<mapsto> Created sl, i3 \<mapsto> Created ms]" "wd_head w4 = wd_head w"
    using task_started [OF w3(2), of ms l3 i3] w3 tasks loops threads by fastforce
  obtain w5 where w5: "idle_task_run l4 self idle w4 = Some w5" "world_ready w5 [lg, cl, sl, ms, idle]"
      "wd_threads w5 = [i0 \<mapsto> Created lg, i1 \<mapsto> Created cl, i2 \<mapsto> Created sl, i3 \<mapsto> Created ms, self \<mapsto> Looping idle]"
    using idle_task_starts [OF w4(2), of idle l4 self] w4 tasks loops threads by fastforce
  obtain msk' where m: "trace_init msk demo_trace_init = Some msk'" "\<forall>c \<in> set demo_trace_init. trace_is_on msk' c = Some True"
    using trace_inits [OF msk, of demo_trace_init] trace_is_on_spec
    by (fastforce simp: demo_trace_init_def comp_ok_def TRACE_MAX_def)
  show ?thesis using w1(1) w2(1) w3(1) w4(1) w5 buffers m
    by (intro exI [of _ w5] exI [of _ msk'])
      (auto simp: demo_main_def kongja_express_init_def log_init_task_def init_and_run_def bind_eq_Some_conv)
qed

section \<open>Command line options\<close>

text \<open>
  What a call of \<open>getopt_long\<close> gives: its result, the index of the option if it stores one (it does not for an option it
  does not know), and \<open>optarg\<close>. The program gives NULL for the short options, taken here for none.
\<close>

record getopt_answer =
  go_ret :: int
  go_index :: "int option"
  go_arg :: "string option"

text \<open>\<open>option_index\<close> is \<open>None\<close> until it has been stored; to pass it on before is undefined.\<close>

fun handle_cmd_line_opts ::
    "(int \<Rightarrow> string option \<Rightarrow> 's \<Rightarrow> 's option) \<Rightarrow> getopt_answer list \<Rightarrow> int option \<Rightarrow> 's \<Rightarrow> 's option" where
  "handle_cmd_line_opts handler [] option_index s = Some s"
| "handle_cmd_line_opts handler (a # as) option_index s =
     (if go_ret a = -1 then Some s
      else do {
        let option_index = (case go_index a of None \<Rightarrow> option_index | Some i \<Rightarrow> Some i);
        i \<leftarrow> option_index;
        s \<leftarrow> handler i (go_arg a) s;
        handle_cmd_line_opts handler as option_index s })"

text \<open>Known options reach the handler in order, up to the end of the options.\<close>

lemma known_options_in_order:
  assumes "\<forall>a \<in> set as. go_ret a \<noteq> -1 \<and> go_index a \<noteq> None"
  shows "handle_cmd_line_opts handler (as @ \<lparr>go_ret = -1, go_index = None, go_arg = None\<rparr> # rest) ndx s
    = foldo (\<lambda>s a. handler (the (go_index a)) (go_arg a) s) s as"
  using assms
proof (induction as arbitrary: ndx s)
  case (Cons a as)
  obtain i where "go_index a = Some i" "go_ret a \<noteq> -1" using Cons.prems by auto
  then show ?case using Cons.IH Cons.prems by (cases "handler i (go_arg a) s") (simp_all add: Let_def)
qed simp

text \<open>An unknown option first of all hands the handler an index that was never stored; later it repeats the last one.\<close>

lemma unknown_option_first: "go_ret a \<noteq> -1 \<Longrightarrow> go_index a = None \<Longrightarrow> handle_cmd_line_opts handler (a # as) None s = None"
  by simp

lemma unknown_option_repeats:
  assumes "go_ret a \<noteq> -1" "go_index a = Some i" "handler i (go_arg a) s = Some s1" "go_ret b \<noteq> -1" "go_index b = None"
    "handler i (go_arg b) s1 = Some s2"
  shows "handle_cmd_line_opts handler [a, b] None s = Some s2"
  using assms by (simp add: Let_def)

section \<open>Socket options\<close>

datatype sock_option = SO_KEEPALIVE | TCP_KEEPCNT | TCP_KEEPIDLE | TCP_KEEPINTVL

datatype sock_call = Ioctl_FIONBIO int int | Setsockopt int sock_option int

definition sock_util_put_nonblock :: "int \<Rightarrow> sock_call list" where
  "sock_util_put_nonblock sd = [Ioctl_FIONBIO sd 1]"

text \<open>\<open>ret\<close> is what the first call answers; the branch is that of Linux.\<close>

definition sock_set_keepalive :: "int \<Rightarrow> int \<Rightarrow> int \<Rightarrow> int \<Rightarrow> int \<Rightarrow> sock_call list" where
  "sock_set_keepalive ret sd cnt idle interval =
     Setsockopt sd SO_KEEPALIVE 1 #
     (if ret < 0 then []
      else [Setsockopt sd TCP_KEEPCNT cnt, Setsockopt sd TCP_KEEPIDLE idle, Setsockopt sd TCP_KEEPINTVL interval])"

end
